(* ===== verification/Swarm_Prelude.thy ===== *)
theory Swarm_Prelude
  imports Main "HOL-Library.Word" "HOL-Library.Multiset"
begin

unbundle bit_operations_syntax

text \<open>
  Shared vocabulary of the SwarmRT development: machine integer types, process references, the
  enumerations and tag constants of \<^verbatim>\<open>src/src/swarmrt_native.h\<close>, the C string functions the
  runtime uses, the FNV-1a hash, and the generic lemmas on lists and arrays that the component
  theories share.
\<close>

section \<open>Machine types and references\<close>

type_synonym u8 = "8 word"
type_synonym u32 = "32 word"
type_synonym u64 = "64 word"

text \<open>
  A process pointer \<^verbatim>\<open>sw_process_t *\<close> points into the process slab, so it is the slot index;
  \<^verbatim>\<open>NULL\<close> is \<^term>\<open>None\<close> where a pointer may be null.
\<close>

type_synonym proc_ref = nat

datatype sw_proc_state =
    SW_PROC_FREE
  | SW_PROC_RUNNABLE
  | SW_PROC_RUNNING
  | SW_PROC_WAITING
  | SW_PROC_SUSPENDED
  | SW_PROC_EXITING
  | SW_PROC_GARBING

instantiation sw_proc_state :: enum
begin

definition enum_sw_proc_state :: "sw_proc_state list" where
  "enum_sw_proc_state =
     [SW_PROC_FREE, SW_PROC_RUNNABLE, SW_PROC_RUNNING, SW_PROC_WAITING,
      SW_PROC_SUSPENDED, SW_PROC_EXITING, SW_PROC_GARBING]"

definition enum_all_sw_proc_state :: "(sw_proc_state \<Rightarrow> bool) \<Rightarrow> bool" where
  "enum_all_sw_proc_state P \<longleftrightarrow> list_all P (enum_class.enum :: sw_proc_state list)"

definition enum_ex_sw_proc_state :: "(sw_proc_state \<Rightarrow> bool) \<Rightarrow> bool" where
  "enum_ex_sw_proc_state P \<longleftrightarrow> list_ex P (enum_class.enum :: sw_proc_state list)"

instance
proof
  have univ: "UNIV = set (enum_class.enum :: sw_proc_state list)"
    by (auto simp: enum_sw_proc_state_def intro: sw_proc_state.exhaust)
  show "UNIV = set (enum_class.enum :: sw_proc_state list)" by (rule univ)
  show "distinct (enum_class.enum :: sw_proc_state list)"
    by (simp add: enum_sw_proc_state_def)
  show "enum_class.enum_all P = Ball UNIV P" for P :: "sw_proc_state \<Rightarrow> bool"
    unfolding univ enum_all_sw_proc_state_def by (simp add: list_all_iff)
  show "enum_class.enum_ex P = Bex UNIV P" for P :: "sw_proc_state \<Rightarrow> bool"
    unfolding univ enum_ex_sw_proc_state_def by (simp add: list_ex_iff)
qed

end

text \<open>Priorities are the C enumeration's numbers; \<^verbatim>\<open>SW_PRIO_NUM\<close> is the number of levels.\<close>

definition SW_PRIO_MAX :: nat where "SW_PRIO_MAX = 0"
definition SW_PRIO_HIGH :: nat where "SW_PRIO_HIGH = 1"
definition SW_PRIO_NORMAL :: nat where "SW_PRIO_NORMAL = 2"
definition SW_PRIO_LOW :: nat where "SW_PRIO_LOW = 3"
definition SW_PRIO_NUM :: nat where "SW_PRIO_NUM = 4"

named_theorems const_simps \<open>the numeric constants of the C headers\<close>

declare SW_PRIO_MAX_def [const_simps] SW_PRIO_HIGH_def [const_simps]
  SW_PRIO_NORMAL_def [const_simps] SW_PRIO_LOW_def [const_simps] SW_PRIO_NUM_def [const_simps]

text \<open>Message tags.\<close>

definition SW_TAG_NONE :: u64 where [const_simps]: "SW_TAG_NONE = 0"
definition SW_TAG_EXIT :: u64 where [const_simps]: "SW_TAG_EXIT = 1"
definition SW_TAG_DOWN :: u64 where [const_simps]: "SW_TAG_DOWN = 2"
definition SW_TAG_TIMER :: u64 where [const_simps]: "SW_TAG_TIMER = 3"
definition SW_TAG_CALL :: u64 where [const_simps]: "SW_TAG_CALL = 10"
definition SW_TAG_CAST :: u64 where [const_simps]: "SW_TAG_CAST = 11"
definition SW_TAG_STOP :: u64 where [const_simps]: "SW_TAG_STOP = 12"
definition SW_TAG_TASK_RESULT :: u64 where [const_simps]: "SW_TAG_TASK_RESULT = 13"
definition SW_TAG_CODE_CHANGE :: u64 where [const_simps]: "SW_TAG_CODE_CHANGE = 15"

definition SW_FLAG_TRAP_EXIT :: u32 where [const_simps]: "SW_FLAG_TRAP_EXIT = 1"

section \<open>C strings\<close>

text \<open>
  A C string is the list of its characters before the terminating NUL. A buffer of
  \<open>n\<close> bytes filled by \<^verbatim>\<open>strncpy (buf, s, n - 1)\<close> with its last byte zeroed holds the first
  \<open>n - 1\<close> characters; \<^verbatim>\<open>strncmp (a, b, n) == 0\<close> compares the first \<open>n\<close>.
\<close>

definition SW_REG_NAME_MAX :: nat where [const_simps]: "SW_REG_NAME_MAX = 64"

definition strncpy :: "string \<Rightarrow> nat \<Rightarrow> string" where
  "strncpy s n = take n s"

definition strncmp_eq :: "string \<Rightarrow> string \<Rightarrow> nat \<Rightarrow> bool" where
  "strncmp_eq a b n \<longleftrightarrow> take n a = take n b"

lemma strncmp_eq_refl [simp]: "strncmp_eq a a n"
  by (simp add: strncmp_eq_def)

lemma strncmp_eq_strncpy [simp]: "strncmp_eq (strncpy a n) b n \<longleftrightarrow> strncmp_eq a b n"
  by (simp add: strncmp_eq_def strncpy_def)

lemma strncpy_id [simp]: "length s \<le> n \<Longrightarrow> strncpy s n = s"
  by (simp add: strncpy_def)

lemma strncmp_eq_short:
  "length a \<le> n \<Longrightarrow> length b \<le> n \<Longrightarrow> strncmp_eq a b n \<longleftrightarrow> a = b"
  by (simp add: strncmp_eq_def)

text \<open>
  The name in the start block of a new server: \<open>SW_REG_NAME_MAX - 1\<close> bytes are copied into memory that is not cleared, so a
  name that fills them is left without a terminator.
\<close>

datatype name_buf = Name string | Unterminated string

definition name_init :: "string option \<Rightarrow> name_buf" where
  "name_init name =
     (case name of
        None \<Rightarrow> Name []
      | Some s \<Rightarrow> if length s < SW_REG_NAME_MAX - 1 then Name s else Unterminated (strncpy s (SW_REG_NAME_MAX - 1)))"

text \<open>FNV-1a over the bytes of a string, as \<^verbatim>\<open>registry_hash\<close> and \<^verbatim>\<open>fnv1a\<close> compute it.\<close>

fun fnv1a_step :: "u32 \<Rightarrow> string \<Rightarrow> u32" where
  "fnv1a_step h [] = h"
| "fnv1a_step h (c # cs) = fnv1a_step ((h XOR of_char c) * 16777619) cs"

lemma fnv1a_step_append: "fnv1a_step h (xs @ ys) = fnv1a_step (fnv1a_step h xs) ys"
  by (induction xs arbitrary: h) auto

text \<open>References taken from a counter that has not wrapped stay below it.\<close>

lemma word_less_add_one: "(x :: u64) < y \<Longrightarrow> y + 1 \<noteq> 0 \<Longrightarrow> x < y + 1"
  using unatSuc [of y] by (simp add: word_less_nat_alt add.commute)

lemma word_less_succ: "(y :: u64) + 1 \<noteq> 0 \<Longrightarrow> y < y + 1"
  using unatSuc [of y] by (simp add: word_less_nat_alt add.commute)

section \<open>Lists and arrays\<close>

named_theorems array_simps \<open>reads and writes of arrays used as stacks\<close>

lemma take_Suc_update [array_simps]:
  "n < length xs \<Longrightarrow> take (Suc n) (xs[n := v]) = take n xs @ [v]"
  by (simp add: take_Suc_conv_app_nth)

lemma take_pred_butlast:
  "0 < n \<Longrightarrow> n \<le> length xs \<Longrightarrow> take n xs = take (n - 1) xs @ [xs ! (n - 1)]"
  using take_Suc_conv_app_nth [of "n - 1" xs] by simp

text \<open>Removal of the first element that satisfies a predicate: the \<^verbatim>\<open>pp = &(*pp)->next\<close> loop.\<close>

fun remove_first :: "('a \<Rightarrow> bool) \<Rightarrow> 'a list \<Rightarrow> 'a list" where
  "remove_first P [] = []"
| "remove_first P (x # xs) = (if P x then xs else x # remove_first P xs)"

lemma remove_first_id [simp]: "(\<forall>x\<in>set xs. \<not> P x) \<Longrightarrow> remove_first P xs = xs"
  by (induction xs) auto

lemma remove_first_cong:
  "(\<And>x. x \<in> set xs \<Longrightarrow> P x = Q x) \<Longrightarrow> remove_first P xs = remove_first Q xs"
  by (induction xs) auto

lemma count_remove_first: "count (mset (remove_first (\<lambda>y. y = x) xs)) z = count (mset xs) z - (if z = x then 1 else 0)"
  by (induction xs) auto

lemma remove_first_append:
  "remove_first P (xs @ ys) =
     (if \<exists>x\<in>set xs. P x then remove_first P xs @ ys else xs @ remove_first P ys)"
  by (induction xs) auto

lemma set_remove_first_subset: "set (remove_first P xs) \<subseteq> set xs"
  by (induction xs) auto

lemma remove_first_notin: "x \<in> set xs \<Longrightarrow> \<not> P x \<Longrightarrow> x \<in> set (remove_first P xs)"
  by (induction xs) auto

lemma distinct_remove_first: "distinct xs \<Longrightarrow> distinct (remove_first P xs)"
  by (induction xs) (auto dest: subsetD [OF set_remove_first_subset])

lemma remove_first_filter:
  "distinct (map f xs) \<Longrightarrow> remove_first (\<lambda>x. f x = a) xs = filter (\<lambda>x. f x \<noteq> a) xs"
proof (induction xs)
  case (Cons x xs)
  have "\<forall>y\<in>set xs. f x \<noteq> f y" using Cons.prems by (simp add: image_iff)
  then have "f x = a \<Longrightarrow> filter (\<lambda>x. f x \<noteq> a) xs = xs" by (auto simp: filter_id_conv)
  then show ?case using Cons by auto
qed simp

lemma remove_first_distinct: "distinct xs \<Longrightarrow> remove_first (\<lambda>x. x = m) xs = filter (\<lambda>x. x \<noteq> m) xs"
  using remove_first_filter [of "\<lambda>x. x" xs m] by simp

lemma remove_first_eq_remove1: "remove_first (\<lambda>x. x = a) xs = remove1 a xs"
  by (induction xs) auto

lemma length_remove_first:
  "length (remove_first P xs) = (if \<exists>x\<in>set xs. P x then length xs - 1 else length xs)"
  by (induction xs) (auto dest: length_pos_if_in_set)

lemma find_remove_first_mset:
  "find P xs = Some x \<Longrightarrow> mset xs = add_mset x (mset (remove_first P xs))"
  by (induction xs) (auto split: if_splits)

text \<open>Replacing one element of a list changes the sum of a measure over it at that place only.\<close>

lemma sum_list_update_add:
  fixes f :: "'a \<Rightarrow> 'b::comm_monoid_add"
  assumes "i < length xs"
  shows "sum_list (map f (xs[i := y])) + f (xs ! i) = sum_list (map f xs) + f y"
  using assms
proof (induction xs arbitrary: i)
  case (Cons x xs)
  then show ?case by (cases i) (simp_all add: ac_simps)
qed simp

lemma cancel_update:
  fixes A X S Y Z :: "'a multiset"
  assumes "A + X = S + Y" "Y + Z = X"
  shows "S = A + Z"
proof -
  have "S + Y = A + (Y + Z)" by (simp only: assms)
  also have "\<dots> = (A + Z) + Y" by (simp only: ac_simps)
  finally show ?thesis by (rule add_right_imp_eq)
qed

lemma cancel_update2:
  fixes N M P S :: "'a multiset"
  assumes "N + Xj = M + q" "M + Xi = P + p" "p + q + S = Xi + Xj"
  shows "P = N + S"
proof -
  have "M + (N + (Xi + Xj)) = (N + Xj) + (M + Xi)" by (simp add: ac_simps)
  also have "\<dots> = M + (P + (p + q))" by (simp only: assms(1,2) ac_simps)
  finally have "N + (Xi + Xj) = P + (p + q)" by (rule add_left_imp_eq)
  then have "(N + S) + (p + q) = P + (p + q)" by (simp only: assms(3) [symmetric] ac_simps)
  then show ?thesis by (rule add_right_imp_eq [symmetric])
qed

text \<open>A state update that leaves a projection alone, folded over a list.\<close>

lemma fold_invariant_list:
  assumes "P s" and "\<And>x s. x \<in> set xs \<Longrightarrow> P s \<Longrightarrow> P (f x s)"
  shows "P (fold f xs s)"
  using assms by (induction xs arbitrary: s) auto

text \<open>One more slot with a value of its own keeps a field injective.\<close>

lemma inj_on_upd_insert:
  assumes "inj_on (\<lambda>i. f (g i)) L" "x \<notin> L" "f y \<notin> (\<lambda>i. f (g i)) ` L"
  shows "inj_on (\<lambda>i. f ((g(x := y)) i)) (insert x L)"
proof (rule inj_onI)
  fix i j assume ij: "i \<in> insert x L" "j \<in> insert x L" "f ((g(x := y)) i) = f ((g(x := y)) j)"
  show "i = j"
  proof (cases "i = x \<or> j = x")
    case True
    have "f (g k) \<noteq> f y" if "k \<in> L" for k using assms(3) that by (metis image_eqI)
    then show ?thesis using ij True assms(2) by (auto split: if_splits)
  next
    case False
    then show ?thesis using ij inj_onD [OF assms(1), of i j] by simp
  qed
qed

section \<open>Linked chains\<close>

text \<open>\<open>chain f x as\<close>: following the link \<open>f\<close> from \<open>x\<close> visits the nodes \<open>as\<close> and ends in null.\<close>

fun chain :: "('a \<Rightarrow> 'a option) \<Rightarrow> 'a option \<Rightarrow> 'a list \<Rightarrow> bool" where
  "chain f x [] \<longleftrightarrow> x = None"
| "chain f x (a # as) \<longleftrightarrow> x = Some a \<and> chain f (f a) as"

lemma chain_upd: "chain f x xs \<Longrightarrow> (\<And>a. a \<in> set xs \<Longrightarrow> g a = f a) \<Longrightarrow> chain g x xs"
  by (induction xs arbitrary: x) auto

lemma chain_snoc:
  assumes "chain f x (xs @ [a])" "distinct (xs @ [a])" "b \<notin> set (xs @ [a])" "f b = None"
  shows "chain (f(a := Some b)) x (xs @ [a, b])"
  using assms by (induction xs arbitrary: x) auto

section \<open>Cleaning up after a process\<close>

text \<open>
  What process exit asks of every component that may refer to processes: its cleanup keeps the
  component's invariant, leaves no reference to the process and invents none.
\<close>

locale exit_cleanup =
  fixes inv :: "'s \<Rightarrow> bool"
    and refers :: "'s \<Rightarrow> proc_ref \<Rightarrow> bool"
    and cleanup :: "proc_ref \<Rightarrow> 's \<Rightarrow> 's"
  assumes inv_cleanup: "inv s \<Longrightarrow> inv (cleanup p s)"
    and refers_cleanup: "inv s \<Longrightarrow> \<not> refers (cleanup p s) p"
    and refers_less: "inv s \<Longrightarrow> refers (cleanup p s) q \<Longrightarrow> refers s q"
begin

lemma cleanup_all:
  "inv s \<Longrightarrow> inv (fold cleanup ps s) \<and> (\<forall>p\<in>set ps. \<not> refers (fold cleanup ps s) p)
     \<and> (\<forall>q. refers (fold cleanup ps s) q \<longrightarrow> refers s q)"
proof (induction ps arbitrary: s)
  case (Cons p ps)
  have "inv (fold cleanup ps (cleanup p s)) \<and> (\<forall>q\<in>set ps. \<not> refers (fold cleanup ps (cleanup p s)) q)
      \<and> (\<forall>q. refers (fold cleanup ps (cleanup p s)) q \<longrightarrow> refers (cleanup p s) q)"
    using Cons.IH [OF inv_cleanup [OF Cons.prems]] .
  then show ?case using refers_cleanup [OF Cons.prems] refers_less [OF Cons.prems] by auto
qed simp

end

section \<open>Key-value stores\<close>

text \<open>
  The contract of a store in which a write replaces the value of an equal key: what a lookup returns
  after a write or a removal, and how the number of keys changes.
\<close>

datatype ('k, 'v) kv_op = KV_put 'k 'v | KV_del 'k

fun kv_key :: "('k, 'v) kv_op \<Rightarrow> 'k" where
  "kv_key (KV_put k v) = k"
| "kv_key (KV_del k) = k"

text \<open>The value of a key after a history, given the value it had before: that of its last write.\<close>

fun kv_last :: "('k \<Rightarrow> 'k \<Rightarrow> bool) \<Rightarrow> 'k \<Rightarrow> ('k, 'v) kv_op list \<Rightarrow> 'v option \<Rightarrow> 'v option" where
  "kv_last same k [] r = r"
| "kv_last same k (KV_put k' v # ops) r = kv_last same k ops (if same k' k then Some v else r)"
| "kv_last same k (KV_del k' # ops) r = kv_last same k ops (if same k' k then None else r)"

fun kv_exec :: "('k \<Rightarrow> 'v \<Rightarrow> 't \<Rightarrow> 't) \<Rightarrow> ('k \<Rightarrow> 't \<Rightarrow> 't) \<Rightarrow> ('k, 'v) kv_op \<Rightarrow> 't \<Rightarrow> 't" where
  "kv_exec put del (KV_put k v) t = put k v t"
| "kv_exec put del (KV_del k) t = del k t"

locale kv_store =
  fixes inv :: "'t \<Rightarrow> bool"
    and ok :: "'k \<Rightarrow> bool"
    and same :: "'k \<Rightarrow> 'k \<Rightarrow> bool"
    and put :: "'k \<Rightarrow> 'v \<Rightarrow> 't \<Rightarrow> 't"
    and get :: "'k \<Rightarrow> 't \<Rightarrow> 'v option"
    and del :: "'k \<Rightarrow> 't \<Rightarrow> 't"
    and entries :: "'t \<Rightarrow> nat"
  assumes inv_put: "inv t \<Longrightarrow> ok k \<Longrightarrow> inv (put k v t)"
    and inv_del: "inv t \<Longrightarrow> ok k \<Longrightarrow> inv (del k t)"
    and get_put: "inv t \<Longrightarrow> ok k \<Longrightarrow> ok k' \<Longrightarrow> get k' (put k v t) = (if same k k' then Some v else get k' t)"
    and get_del: "inv t \<Longrightarrow> ok k \<Longrightarrow> ok k' \<Longrightarrow> get k' (del k t) = (if same k k' then None else get k' t)"
    and entries_put: "inv t \<Longrightarrow> ok k \<Longrightarrow> entries (put k v t) = (if get k t = None then Suc (entries t) else entries t)"
    and entries_del: "inv t \<Longrightarrow> ok k \<Longrightarrow> entries t = (if get k t = None then entries (del k t) else Suc (entries (del k t)))"
begin

lemma kv_exec_inv: "inv t \<Longrightarrow> ok (kv_key op) \<Longrightarrow> inv (kv_exec put del op t)"
  by (cases op) (simp_all add: inv_put inv_del)

lemma kv_history:
  assumes "inv t" "\<forall>op\<in>set ops. ok (kv_key op)"
  shows "inv (fold (kv_exec put del) ops t) \<and> (\<forall>k. ok k \<longrightarrow> get k (fold (kv_exec put del) ops t) = kv_last same k ops (get k t))"
  using assms
proof (induction ops arbitrary: t)
  case (Cons op ops)
  then have "inv (kv_exec put del op t)" by (simp add: kv_exec_inv)
  then show ?case using Cons by (cases op) (simp_all add: get_put get_del)
qed simp

text \<open>A write and the removal of the same fresh key cancel out.\<close>

lemma put_del_entries:
  assumes "inv t" "ok k" "same k k" "get k t = None"
  shows "entries (del k (put k v t)) = entries t"
  using entries_del [OF inv_put [OF assms(1,2)] assms(2), of v] assms by (simp add: get_put entries_put)

end

end
