(* ===== verification/Arena.thy ===== *)
theory Arena
  imports Swarm_Prelude
begin

text \<open>
  The arena allocator: \<^verbatim>\<open>src/src/swarmrt_arena.h\<close> and the allocation parts of
  \<^verbatim>\<open>src/src/swarmrt_native.c\<close> (\<^verbatim>\<open>sw_arena_init\<close>, the slot search of \<^verbatim>\<open>sw_spawn_opts\<close>, the return
  of a slot in \<^verbatim>\<open>process_destroy\<close>). Each partition keeps two array stacks of free indices, one for
  process slots and one for heap blocks. The indices and tops are at most the number of slots
  (100000), so they are natural numbers; the bounds that make this adequate are proved.
\<close>

definition SW_MAX_PARTITIONS :: nat where [const_simps]: "SW_MAX_PARTITIONS = 64"
definition SW_STEAL_BATCH :: nat where [const_simps]: "SW_STEAL_BATCH = 64"
definition SWARM_MAX_PROCESSES :: nat where [const_simps]: "SWARM_MAX_PROCESSES = 100000"
definition SWARM_HEAP_MIN_SIZE :: nat where [const_simps]: "SWARM_HEAP_MIN_SIZE = 256"

section \<open>Partitions\<close>

record sw_arena_partition =
  free_pids :: "nat list"
  pid_top :: nat
  pid_capacity :: nat
  free_blocks :: "nat list"
  block_top :: nat
  block_capacity :: nat

text \<open>The C functions return an \<^verbatim>\<open>int32_t\<close>: an index, or -1 for an empty stack.\<close>

definition part_pop_pid :: "sw_arena_partition \<Rightarrow> sw_arena_partition \<times> int" where
  "part_pop_pid p =
     (if pid_top p = 0 then (p, -1)
      else let t = pid_top p - 1 in (p\<lparr>pid_top := t\<rparr>, int (free_pids p ! t)))"

definition part_pop_block :: "sw_arena_partition \<Rightarrow> sw_arena_partition \<times> int" where
  "part_pop_block p =
     (if block_top p = 0 then (p, -1)
      else let t = block_top p - 1 in (p\<lparr>block_top := t\<rparr>, int (free_blocks p ! t)))"

definition part_push_pid :: "sw_arena_partition \<Rightarrow> nat \<Rightarrow> sw_arena_partition" where
  "part_push_pid p v = p\<lparr>free_pids := (free_pids p)[pid_top p := v], pid_top := pid_top p + 1\<rparr>"

definition part_push_block :: "sw_arena_partition \<Rightarrow> nat \<Rightarrow> sw_arena_partition" where
  "part_push_block p v =
     p\<lparr>free_blocks := (free_blocks p)[block_top p := v], block_top := block_top p + 1\<rparr>"

text \<open>The copy loop of \<^verbatim>\<open>part_steal_pids\<close>: \<open>n\<close> times, victim's top to destination's top.\<close>

fun steal_pids_loop ::
  "nat \<Rightarrow> sw_arena_partition \<Rightarrow> sw_arena_partition \<Rightarrow> sw_arena_partition \<times> sw_arena_partition" where
  "steal_pids_loop 0 dst victim = (dst, victim)"
| "steal_pids_loop (Suc n) dst victim =
     (let victim' = victim\<lparr>pid_top := pid_top victim - 1\<rparr>;
          v = free_pids victim' ! pid_top victim';
          dst' = dst\<lparr>free_pids := (free_pids dst)[pid_top dst := v], pid_top := pid_top dst + 1\<rparr>
      in steal_pids_loop n dst' victim')"

definition part_steal_pids ::
  "sw_arena_partition \<Rightarrow> sw_arena_partition \<Rightarrow> nat \<Rightarrow>
   sw_arena_partition \<times> sw_arena_partition \<times> nat" where
  "part_steal_pids dst victim batch =
     (let avail = pid_top victim in
      if avail = 0 then (dst, victim, 0)
      else let n = min ((avail + 1) div 2) batch;
               (dst', victim') = steal_pids_loop n dst victim
           in (dst', victim', n))"

fun steal_blocks_loop ::
  "nat \<Rightarrow> sw_arena_partition \<Rightarrow> sw_arena_partition \<Rightarrow> sw_arena_partition \<times> sw_arena_partition" where
  "steal_blocks_loop 0 dst victim = (dst, victim)"
| "steal_blocks_loop (Suc n) dst victim =
     (let victim' = victim\<lparr>block_top := block_top victim - 1\<rparr>;
          v = free_blocks victim' ! block_top victim';
          dst' = dst\<lparr>free_blocks := (free_blocks dst)[block_top dst := v],
                     block_top := block_top dst + 1\<rparr>
      in steal_blocks_loop n dst' victim')"

definition part_steal_blocks ::
  "sw_arena_partition \<Rightarrow> sw_arena_partition \<Rightarrow> nat \<Rightarrow>
   sw_arena_partition \<times> sw_arena_partition \<times> nat" where
  "part_steal_blocks dst victim batch =
     (let avail = block_top victim in
      if avail = 0 then (dst, victim, 0)
      else let n = min ((avail + 1) div 2) batch;
               (dst', victim') = steal_blocks_loop n dst victim
           in (dst', victim', n))"

section \<open>The arena and its initialisation\<close>

record sw_arena =
  arena_base :: nat
  arena_size :: nat
  proc_slab :: nat
  proc_capacity :: nat
  block_base :: nat
  block_size :: nat
  block_count :: nat
  partitions :: "sw_arena_partition list"
  num_partitions :: nat
  pid_stack_base :: nat
  block_stack_base :: nat
  next_pid :: u64

text \<open>
  \<open>seed\<close> is the content of the fresh anonymous mapping, which the kernel zeroes.
  \<open>fill_part\<close> is the second loop of \<^verbatim>\<open>sw_arena_init\<close>: partition \<open>p\<close> gets the dense range of
  slots that starts at \<open>p * per\<close>, the last partition gets the rest.
\<close>

definition part_range :: "nat \<Rightarrow> nat \<Rightarrow> nat \<Rightarrow> nat list" where
  "part_range num_parts len p =
     (let per = len div num_parts;
          start = p * per;
          stop = (if p = num_parts - 1 then len else start + per)
      in [start..<stop])"

definition empty_part :: "nat \<Rightarrow> nat \<Rightarrow> sw_arena_partition" where
  "empty_part max_procs blocks =
     \<lparr>free_pids = replicate max_procs 0, pid_top = 0, pid_capacity = max_procs,
      free_blocks = replicate blocks 0, block_top = 0, block_capacity = blocks\<rparr>"

definition fill_part :: "nat \<Rightarrow> nat \<Rightarrow> nat \<Rightarrow> nat \<Rightarrow> sw_arena_partition" where
  "fill_part num_parts max_procs blocks p =
     fold (\<lambda>i q. part_push_block q i) (part_range num_parts blocks p)
       (fold (\<lambda>i q. part_push_pid q i) (part_range num_parts max_procs p)
         (empty_part max_procs blocks))"

text \<open>
  \<open>sizeof_proc\<close> is \<^verbatim>\<open>sizeof(sw_process_t)\<close>, fixed by the compiler, and \<open>mem\<close> the address that
  \<^verbatim>\<open>mmap\<close> returned (\<^term>\<open>None\<close> for \<^verbatim>\<open>MAP_FAILED\<close>).
\<close>

definition sw_arena_init :: "nat \<Rightarrow> nat option \<Rightarrow> nat \<Rightarrow> nat \<Rightarrow> sw_arena option" where
  "sw_arena_init sizeof_proc mem num_schedulers max_procs =
     (let num_parts = (if num_schedulers = 0 then 1 else num_schedulers);
          num_parts = (if num_parts > SW_MAX_PARTITIONS then SW_MAX_PARTITIONS else num_parts);
          proc_slab_size = max_procs * sizeof_proc;
          blk_size = SWARM_HEAP_MIN_SIZE * 8;
          blk_count = max_procs;
          block_pool_size = blk_count * blk_size;
          free_pid_size = num_parts * max_procs * 4;
          free_block_size = num_parts * blk_count * 4;
          sum_size = proc_slab_size + block_pool_size + free_pid_size + free_block_size;
          total_size = (sum_size + 4095) div 4096 * 4096
      in case mem of None \<Rightarrow> None
         | Some base \<Rightarrow>
             Some \<lparr>arena_base = base,
                   arena_size = total_size,
                   proc_slab = base,
                   proc_capacity = max_procs,
                   block_base = base + proc_slab_size,
                   block_size = blk_size,
                   block_count = blk_count,
                   partitions = map (fill_part num_parts max_procs blk_count) [0..<num_parts],
                   num_partitions = num_parts,
                   pid_stack_base = base + proc_slab_size + block_pool_size,
                   block_stack_base = base + proc_slab_size + block_pool_size + free_pid_size,
                   next_pid = 0\<rparr>)"

section \<open>Allocation of a slot and a block\<close>

text \<open>
  The stealing loop of \<^verbatim>\<open>sw_spawn_opts\<close>: victims in index order, the own partition skipped, until
  both a slot and a block are in hand. The two spin locks are held around one iteration, so an
  iteration is one step.
\<close>

function spawn_steal_loop ::
  "nat \<Rightarrow> nat \<Rightarrow> sw_arena_partition list \<Rightarrow> int \<Rightarrow> int \<Rightarrow> sw_arena_partition list \<times> int \<times> int" where
  "spawn_steal_loop i part_id ps slot block_idx =
     (if i < length ps \<and> (slot < 0 \<or> block_idx < 0) then
        if i = part_id then spawn_steal_loop (i + 1) part_id ps slot block_idx
        else
          let part = ps ! part_id;
              victim = ps ! i;
              (part, victim) =
                (if slot < 0 then
                   (case part_steal_pids part victim SW_STEAL_BATCH of (d, v, _) \<Rightarrow> (d, v))
                 else (part, victim));
              (part, victim) =
                (if block_idx < 0 then
                   (case part_steal_blocks part victim SW_STEAL_BATCH of (d, v, _) \<Rightarrow> (d, v))
                 else (part, victim));
              (part, slot) = part_pop_pid part;
              (part, block_idx) = (if slot \<ge> 0 then part_pop_block part else (part, -1))
          in spawn_steal_loop (i + 1) part_id (ps[i := victim, part_id := part]) slot block_idx
      else (ps, slot, block_idx))"
  by pat_completeness auto
termination
  by (relation "measure (\<lambda>(i, part_id, ps, slot, block_idx). length ps - i)")
     (auto simp: Let_def split: prod.splits if_splits)

declare spawn_steal_loop.simps [simp del]

text \<open>Steps 1 to 3 of \<^verbatim>\<open>sw_spawn_opts\<close>; \<^term>\<open>None\<close> is its early \<^verbatim>\<open>return NULL\<close>.\<close>

definition spawn_alloc :: "nat \<Rightarrow> sw_arena \<Rightarrow> sw_arena \<times> (nat \<times> nat) option" where
  "spawn_alloc sched_id a =
     (let part_id = (if sched_id \<ge> num_partitions a then 0 else sched_id);
          ps = partitions a;
          (part, slot) = part_pop_pid (ps ! part_id);
          (part, block_idx) = (if slot \<ge> 0 then part_pop_block part else (part, -1));
          (ps, slot, block_idx) =
            (if slot < 0 \<or> block_idx < 0 then
               let (part, slot) =
                     (if slot \<ge> 0 \<and> block_idx < 0 then (part_push_pid part (nat slot), -1)
                      else (part, slot))
               in spawn_steal_loop 0 part_id (ps[part_id := part]) slot block_idx
             else (ps[part_id := part], slot, block_idx))
      in (a\<lparr>partitions := ps\<rparr>,
          if slot < 0 \<or> block_idx < 0 then None else Some (nat slot, nat block_idx)))"

text \<open>The tail of \<^verbatim>\<open>process_destroy\<close>: give slot and block back to the running scheduler's partition.\<close>

definition arena_release :: "nat option \<Rightarrow> nat \<Rightarrow> nat \<Rightarrow> sw_arena \<Rightarrow> sw_arena" where
  "arena_release sched_id slot block_idx a =
     (let part_id = (case sched_id of None \<Rightarrow> 0 | Some i \<Rightarrow> i);
          part_id = (if part_id \<ge> num_partitions a then 0 else part_id);
          part = partitions a ! part_id;
          part = part_push_block (part_push_pid part slot) block_idx
      in a\<lparr>partitions := (partitions a)[part_id := part]\<rparr>)"

section \<open>Array stacks as an interface\<close>

text \<open>
  Both free lists of a partition are array stacks. The contract says what pop, push and the moving
  loop do to the stack's content; \<open>frame\<close> is what they leave alone.
\<close>

locale index_stack =
  fixes stk :: "'p \<Rightarrow> nat list"
    and cap :: "'p \<Rightarrow> nat"
    and wf :: "'p \<Rightarrow> bool"
    and frame :: "'p \<Rightarrow> 'f"
    and pop :: "'p \<Rightarrow> 'p \<times> int"
    and push :: "'p \<Rightarrow> nat \<Rightarrow> 'p"
    and mv :: "nat \<Rightarrow> 'p \<Rightarrow> 'p \<Rightarrow> 'p \<times> 'p"
  assumes pop_empty: "wf p \<Longrightarrow> stk p = [] \<Longrightarrow> pop p = (p, -1)"
    and pop_snoc: "wf p \<Longrightarrow> stk p = xs @ [x] \<Longrightarrow>
      \<exists>p'. pop p = (p', int x) \<and> wf p' \<and> stk p' = xs \<and> cap p' = cap p \<and> frame p' = frame p"
    and push: "wf p \<Longrightarrow> length (stk p) < cap p \<Longrightarrow>
      wf (push p x) \<and> stk (push p x) = stk p @ [x] \<and> cap (push p x) = cap p
        \<and> frame (push p x) = frame p"
    and mv_0: "mv 0 d v = (d, v)"
    and mv_Suc: "wf v \<Longrightarrow> stk v = xs @ [x] \<Longrightarrow> mv (Suc n) d v = mv n (push d x) (fst (pop v))"
begin

lemma pop_push:
  assumes "wf p" "length (stk p) < cap p"
  shows "\<exists>p'. pop (push p x) = (p', int x) \<and> wf p' \<and> stk p' = stk p"
  using push [OF assms] pop_snoc [of "push p x" "stk p" x] by metis

lemma fold_push:
  assumes "wf p" "length (stk p) + length xs \<le> cap p"
  shows "wf (fold (\<lambda>x q. push q x) xs p) \<and> stk (fold (\<lambda>x q. push q x) xs p) = stk p @ xs
    \<and> cap (fold (\<lambda>x q. push q x) xs p) = cap p
    \<and> frame (fold (\<lambda>x q. push q x) xs p) = frame p"
  using assms
proof (induction xs arbitrary: p)
  case (Cons x xs)
  from Cons.prems have "length (stk p) < cap p" by simp
  with push [OF Cons.prems(1) this] Cons.IH [of "push p x"] Cons.prems show ?case by simp
qed simp

lemma mv_spec:
  assumes "wf d" "wf v" "n \<le> length (stk v)" "length (stk d) + n \<le> cap d"
  shows "\<exists>d' v'. mv n d v = (d', v') \<and> wf d' \<and> wf v'
    \<and> stk v' = take (length (stk v) - n) (stk v)
    \<and> stk d' = stk d @ rev (drop (length (stk v) - n) (stk v))
    \<and> cap d' = cap d \<and> cap v' = cap v \<and> frame d' = frame d \<and> frame v' = frame v"
  using assms
proof (induction n arbitrary: d v)
  case 0
  then show ?case by (simp add: mv_0)
next
  case (Suc n)
  then obtain xs x where v: "stk v = xs @ [x]"
    by (metis length_0_conv not_less_eq_eq rev_exhaust zero_le)
  obtain v1 where v1: "pop v = (v1, int x)" "wf v1" "stk v1 = xs" "cap v1 = cap v" "frame v1 = frame v"
    using pop_snoc [OF Suc.prems(2) v] by blast
  have d1: "wf (push d x)" "stk (push d x) = stk d @ [x]" "cap (push d x) = cap d"
      "frame (push d x) = frame d"
    using push [OF Suc.prems(1)] Suc.prems(4) by auto
  have "n \<le> length (stk v1)" "length (stk (push d x)) + n \<le> cap (push d x)"
    using Suc.prems v v1 d1 by auto
  from Suc.IH [OF d1(1) v1(2) this]
  show ?case
    using v v1 d1 Suc.prems(3) by (auto simp: mv_Suc [OF Suc.prems(2) v])
qed

lemma mv_mset:
  assumes "wf d" "wf v" "n \<le> length (stk v)" "length (stk d) + n \<le> cap d"
  shows "\<exists>d' v'. mv n d v = (d', v') \<and> wf d' \<and> wf v'
    \<and> mset (stk d') + mset (stk v') = mset (stk d) + mset (stk v)
    \<and> length (stk d') = length (stk d) + n \<and> length (stk v') = length (stk v) - n
    \<and> cap d' = cap d \<and> cap v' = cap v \<and> frame d' = frame d \<and> frame v' = frame v"
proof -
  let ?k = "length (stk v) - n"
  obtain d' v' where *: "mv n d v = (d', v')" "wf d'" "wf v'" "stk v' = take ?k (stk v)"
      "stk d' = stk d @ rev (drop ?k (stk v))" "cap d' = cap d" "cap v' = cap v"
      "frame d' = frame d" "frame v' = frame v"
    using mv_spec [OF assms] by blast
  have "mset (take ?k (stk v)) + mset (drop ?k (stk v)) = mset (stk v)"
    by (metis append_take_drop_id mset_append)
  then have "mset (stk d') + mset (stk v') = mset (stk d) + mset (stk v)"
    using * by (simp add: ac_simps)
  with * assms(3) show ?thesis by auto
qed

end

definition pid_stk :: "sw_arena_partition \<Rightarrow> nat list" where
  "pid_stk p = take (pid_top p) (free_pids p)"

definition blk_stk :: "sw_arena_partition \<Rightarrow> nat list" where
  "blk_stk p = take (block_top p) (free_blocks p)"

definition wf_pids :: "sw_arena_partition \<Rightarrow> bool" where
  "wf_pids p \<longleftrightarrow> pid_top p \<le> pid_capacity p \<and> length (free_pids p) = pid_capacity p"

definition wf_blks :: "sw_arena_partition \<Rightarrow> bool" where
  "wf_blks p \<longleftrightarrow> block_top p \<le> block_capacity p \<and> length (free_blocks p) = block_capacity p"

definition blk_part :: "sw_arena_partition \<Rightarrow> nat list \<times> nat \<times> nat" where
  "blk_part p = (free_blocks p, block_top p, block_capacity p)"

definition pid_part :: "sw_arena_partition \<Rightarrow> nat list \<times> nat \<times> nat" where
  "pid_part p = (free_pids p, pid_top p, pid_capacity p)"

named_theorems part_defs \<open>the views of a partition\<close>

declare pid_stk_def [part_defs] blk_stk_def [part_defs] wf_pids_def [part_defs]
  wf_blks_def [part_defs] blk_part_def [part_defs] pid_part_def [part_defs]

lemma stack_top_snoc:
  assumes "take t a = xs @ [x]" "t \<le> length a"
  shows "0 < t" "a ! (t - 1) = x" "take (t - 1) a = xs"
proof -
  show t: "0 < t" using assms(1) by (cases t) auto
  have *: "take (t - 1) a @ [a ! (t - 1)] = xs @ [x]"
    using take_pred_butlast [OF t assms(2)] assms(1) by simp
  then show "a ! (t - 1) = x" "take (t - 1) a = xs" by auto
qed

interpretation pids: index_stack pid_stk pid_capacity wf_pids blk_part part_pop_pid part_push_pid
  steal_pids_loop
proof (unfold_locales, goal_cases)
  case (1 p)
  then have "pid_top p = 0" by (auto simp: part_defs)
  then show ?case by (simp add: part_pop_pid_def)
next
  case (2 p xs x)
  then have *: "0 < pid_top p" "free_pids p ! (pid_top p - 1) = x"
      "take (pid_top p - 1) (free_pids p) = xs"
    using stack_top_snoc [of "pid_top p" "free_pids p" xs x] by (simp_all add: part_defs)
  with 2(1) show ?case by (auto simp: part_pop_pid_def part_defs Let_def)
next
  case (3 p v)
  then have "pid_top p < length (free_pids p)" by (auto simp: part_defs)
  with 3 show ?case by (auto simp: part_push_pid_def part_defs array_simps)
next
  case (4 d v) then show ?case by simp
next
  case (5 v xs x n d)
  then have *: "0 < pid_top v" "free_pids v ! (pid_top v - 1) = x"
    using stack_top_snoc [of "pid_top v" "free_pids v" xs x] by (simp_all add: part_defs)
  then show ?case by (simp add: part_push_pid_def part_pop_pid_def Let_def)
qed

interpretation blks: index_stack blk_stk block_capacity wf_blks pid_part part_pop_block part_push_block
  steal_blocks_loop
proof (unfold_locales, goal_cases)
  case (1 p)
  then have "block_top p = 0" by (auto simp: part_defs)
  then show ?case by (simp add: part_pop_block_def)
next
  case (2 p xs x)
  then have *: "0 < block_top p" "free_blocks p ! (block_top p - 1) = x"
      "take (block_top p - 1) (free_blocks p) = xs"
    using stack_top_snoc [of "block_top p" "free_blocks p" xs x] by (simp_all add: part_defs)
  with 2(1) show ?case by (auto simp: part_pop_block_def part_defs Let_def)
next
  case (3 p v)
  then have "block_top p < length (free_blocks p)" by (auto simp: part_defs)
  with 3 show ?case by (auto simp: part_push_block_def part_defs array_simps)
next
  case (4 d v) then show ?case by simp
next
  case (5 v xs x n d)
  then have *: "0 < block_top v" "free_blocks v ! (block_top v - 1) = x"
    using stack_top_snoc [of "block_top v" "free_blocks v" xs x] by (simp_all add: part_defs)
  then show ?case by (simp add: part_push_block_def part_pop_block_def Let_def)
qed

section \<open>The allocator's invariant\<close>

text \<open>
  A partition is balanced when it holds as many free slots as free blocks: then a block is found
  whenever a slot is. \<open>slots\<close> and \<open>blocks\<close> collect what all partitions hold.
\<close>

definition part_ok :: "nat \<Rightarrow> sw_arena_partition \<Rightarrow> bool" where
  "part_ok n p \<longleftrightarrow> wf_pids p \<and> wf_blks p \<and> pid_capacity p = n \<and> block_capacity p = n
     \<and> length (blk_stk p) = length (pid_stk p)"

definition slots :: "sw_arena_partition list \<Rightarrow> nat multiset" where
  "slots ps = (\<Sum>p\<leftarrow>ps. mset (pid_stk p))"

definition blocks :: "sw_arena_partition list \<Rightarrow> nat multiset" where
  "blocks ps = (\<Sum>p\<leftarrow>ps. mset (blk_stk p))"

definition parts_ok :: "nat \<Rightarrow> sw_arena_partition list \<Rightarrow> bool" where
  "parts_ok n ps \<longleftrightarrow> (\<forall>p\<in>set ps. part_ok n p) \<and> size (slots ps) \<le> n \<and> size (blocks ps) \<le> n"

definition arena_inv :: "nat set \<Rightarrow> nat set \<Rightarrow> sw_arena \<Rightarrow> bool" where
  "arena_inv live live_blocks a \<longleftrightarrow>
     num_partitions a = length (partitions a) \<and> partitions a \<noteq> []
     \<and> num_partitions a \<le> SW_MAX_PARTITIONS
     \<and> parts_ok (proc_capacity a) (partitions a)
     \<and> live \<subseteq> {..<proc_capacity a} \<and> live_blocks \<subseteq> {..<proc_capacity a}
     \<and> slots (partitions a) = mset_set ({..<proc_capacity a} - live)
     \<and> blocks (partitions a) = mset_set ({..<proc_capacity a} - live_blocks)"

lemma slots_update:
  "i < length ps \<Longrightarrow> slots (ps[i := p]) + mset (pid_stk (ps ! i)) = slots ps + mset (pid_stk p)"
  unfolding slots_def by (rule sum_list_update_add)

lemma blocks_update:
  "i < length ps \<Longrightarrow> blocks (ps[i := p]) + mset (blk_stk (ps ! i)) = blocks ps + mset (blk_stk p)"
  unfolding blocks_def by (rule sum_list_update_add)

lemma slots_empty_iff: "slots ps = {#} \<longleftrightarrow> (\<forall>p\<in>set ps. pid_stk p = [])"
  unfolding slots_def by (induction ps) auto

lemma size_slots_ge: "p \<in> set ps \<Longrightarrow> length (pid_stk p) \<le> size (slots ps)"
  unfolding slots_def by (induction ps) auto

lemma size_blocks_ge: "p \<in> set ps \<Longrightarrow> length (blk_stk p) \<le> size (blocks ps)"
  unfolding blocks_def by (induction ps) auto

lemma blk_part_cong:
  "blk_part p = blk_part q \<Longrightarrow> wf_blks p = wf_blks q \<and> blk_stk p = blk_stk q
     \<and> block_capacity p = block_capacity q"
  by (simp add: part_defs)

lemma pid_part_cong:
  "pid_part p = pid_part q \<Longrightarrow> wf_pids p = wf_pids q \<and> pid_stk p = pid_stk q
     \<and> pid_capacity p = pid_capacity q"
  by (simp add: part_defs)

text \<open>A balanced partition yields a slot and a block together, or neither.\<close>

lemma pop_both:
  assumes "part_ok n p" "pid_stk p \<noteq> []"
  obtains p1 p2 s b where "part_pop_pid p = (p1, int s)" "part_pop_block p1 = (p2, int b)"
    "part_ok n p2" "mset (pid_stk p) = add_mset s (mset (pid_stk p2))"
    "mset (blk_stk p) = add_mset b (mset (blk_stk p2))"
proof -
  from assms(2) obtain xs s where xs: "pid_stk p = xs @ [s]" by (meson rev_exhaust)
  from assms xs obtain ys b where ys: "blk_stk p = ys @ [b]"
    by (metis length_0_conv part_ok_def rev_exhaust)
  obtain p1 where p1: "part_pop_pid p = (p1, int s)" "wf_pids p1" "pid_stk p1 = xs"
      "pid_capacity p1 = pid_capacity p" "blk_part p1 = blk_part p"
    using pids.pop_snoc [OF _ xs] assms(1) by (auto simp: part_ok_def)
  note b1 = blk_part_cong [OF p1(5)]
  obtain p2 where p2: "part_pop_block p1 = (p2, int b)" "wf_blks p2" "blk_stk p2 = ys"
      "block_capacity p2 = block_capacity p1" "pid_part p2 = pid_part p1"
    using blks.pop_snoc [of p1 ys b] assms(1) b1 ys by (auto simp: part_ok_def)
  note b2 = pid_part_cong [OF p2(5)]
  have "part_ok n p2"
    using assms(1) p1 p2 b1 b2 xs ys by (auto simp: part_ok_def)
  with p1 p2 b1 b2 xs ys that show ?thesis by auto
qed

lemma pop_none:
  assumes "part_ok n p" "pid_stk p = []"
  shows "part_pop_pid p = (p, -1)"
  using assms pids.pop_empty by (simp add: part_ok_def)

lemma wf_tops:
  "wf_pids p \<Longrightarrow> length (pid_stk p) = pid_top p" "wf_blks p \<Longrightarrow> length (blk_stk p) = block_top p"
  by (simp_all add: part_defs)

text \<open>Stealing for an empty partition from a non-empty one moves equally many slots and blocks.\<close>

lemma steal_both:
  assumes d: "part_ok n d" "pid_stk d = []" and v: "part_ok n v" "pid_stk v \<noteq> []"
  obtains d1 v1 d2 v2 k where "part_steal_pids d v SW_STEAL_BATCH = (d1, v1, k)"
    "part_steal_blocks d1 v1 SW_STEAL_BATCH = (d2, v2, k)" "part_ok n d2" "part_ok n v2"
    "pid_stk d2 \<noteq> []" "mset (pid_stk d2) + mset (pid_stk v2) = mset (pid_stk v)"
    "mset (blk_stk d2) + mset (blk_stk v2) = mset (blk_stk v)"
proof -
  note ok = d(1)[unfolded part_ok_def] v(1)[unfolded part_ok_def]
  have tops: "pid_top v = length (pid_stk v)" "block_top v = length (pid_stk v)"
    using ok wf_tops by metis+
  define k where "k = min ((pid_top v + 1) div 2) SW_STEAL_BATCH"
  have k: "0 < k" "k \<le> length (pid_stk v)"
    using v(2) tops by (auto simp: k_def const_simps)
  have kn: "k \<le> n" using k(2) ok by (auto simp: part_defs)
  obtain d1 v1 where 1: "steal_pids_loop k d v = (d1, v1)" "wf_pids d1" "wf_pids v1"
      "mset (pid_stk d1) + mset (pid_stk v1) = mset (pid_stk v)"
      "length (pid_stk d1) = k" "length (pid_stk v1) = length (pid_stk v) - k"
      "pid_capacity d1 = n" "pid_capacity v1 = n" "blk_part d1 = blk_part d" "blk_part v1 = blk_part v"
    using pids.mv_mset [of d v k] ok k kn d(2) by auto
  note c1 = blk_part_cong [OF 1(9)] blk_part_cong [OF 1(10)]
  have tv1: "block_top v1 = block_top v" using 1(10) by (simp add: part_defs)
  obtain d2 v2 where 2: "steal_blocks_loop k d1 v1 = (d2, v2)" "wf_blks d2" "wf_blks v2"
      "mset (blk_stk d2) + mset (blk_stk v2) = mset (blk_stk v)"
      "length (blk_stk d2) = k" "length (blk_stk v2) = length (pid_stk v) - k"
      "block_capacity d2 = n" "block_capacity v2 = n"
      "pid_part d2 = pid_part d1" "pid_part v2 = pid_part v1"
    using blks.mv_mset [of d1 v1 k] ok k kn d(2) c1 by auto
  note c2 = pid_part_cong [OF 2(9)] pid_part_cong [OF 2(10)]
  have "part_ok n d2" "part_ok n v2" using 1 2 c2 by (auto simp: part_ok_def)
  moreover have "part_steal_pids d v SW_STEAL_BATCH = (d1, v1, k)"
    using 1(1) v(2) tops by (simp add: part_steal_pids_def k_def)
  moreover have "part_steal_blocks d1 v1 SW_STEAL_BATCH = (d2, v2, k)"
    using 2(1) v(2) tops tv1 by (simp add: part_steal_blocks_def k_def)
  moreover have "pid_stk d2 \<noteq> []" using c2 1(5) k by auto
  ultimately show ?thesis using that 1(4) 2(4) c2 by simp
qed

lemma steal_none:
  assumes "part_ok n v" "pid_stk v = []"
  shows "part_steal_pids d v k = (d, v, 0)" "part_steal_blocks d v k = (d, v, 0)"
proof -
  have "pid_top v = 0" "block_top v = 0"
    using assms wf_tops by (fastforce simp: part_ok_def)+
  then show "part_steal_pids d v k = (d, v, 0)" "part_steal_blocks d v k = (d, v, 0)"
    by (simp_all add: part_steal_pids_def part_steal_blocks_def)
qed

lemma parts_ok_update:
  assumes "parts_ok n ps" "part_ok n p" "part_ok n q" "i < length ps" "j < length ps" "i \<noteq> j"
    and "mset (pid_stk p) + mset (pid_stk q) + S = mset (pid_stk (ps ! i)) + mset (pid_stk (ps ! j))"
    and "mset (blk_stk p) + mset (blk_stk q) + B = mset (blk_stk (ps ! i)) + mset (blk_stk (ps ! j))"
  shows "parts_ok n (ps[i := p, j := q]) \<and> slots ps = slots (ps[i := p, j := q]) + S
    \<and> blocks ps = blocks (ps[i := p, j := q]) + B"
proof -
  let ?qs = "ps[i := p]"
  have s: "slots (?qs[j := q]) + mset (pid_stk (ps ! j)) = slots ?qs + mset (pid_stk q)"
      "slots ?qs + mset (pid_stk (ps ! i)) = slots ps + mset (pid_stk p)"
    using slots_update [of j ?qs q] slots_update [of i ps p] assms(4-6) by simp_all
  have b: "blocks (?qs[j := q]) + mset (blk_stk (ps ! j)) = blocks ?qs + mset (blk_stk q)"
      "blocks ?qs + mset (blk_stk (ps ! i)) = blocks ps + mset (blk_stk p)"
    using blocks_update [of j ?qs q] blocks_update [of i ps p] assms(4-6) by simp_all
  have S: "slots ps = slots (?qs[j := q]) + S"
    by (rule cancel_update2 [OF s assms(7)])
  have B: "blocks ps = blocks (?qs[j := q]) + B"
    by (rule cancel_update2 [OF b assms(8)])
  have "\<forall>r\<in>set (?qs[j := q]). part_ok n r"
    using assms(1-3) set_update_subset_insert [of ?qs j q] set_update_subset_insert [of ps i p]
    unfolding parts_ok_def by blast
  with S B assms(1) show ?thesis unfolding parts_ok_def by simp
qed

text \<open>
  The stealing loop, entered with an empty own partition: it returns a slot and a block as soon as
  some later partition has one, takes exactly those two away, and otherwise changes nothing.
\<close>

lemma spawn_steal_loop_done:
  "slot \<ge> 0 \<Longrightarrow> block_idx \<ge> 0 \<Longrightarrow> spawn_steal_loop i j ps slot block_idx = (ps, slot, block_idx)"
  by (simp add: spawn_steal_loop.simps)

lemma spawn_steal_loop_hit:
  assumes ok: "parts_ok n ps" and j: "j < length ps" "pid_stk (ps ! j) = []"
    and i: "i < length ps" "pid_stk (ps ! i) \<noteq> []"
  shows "\<exists>ps' s b. spawn_steal_loop i j ps (-1) (-1) = (ps', int s, int b) \<and> parts_ok n ps'
    \<and> length ps' = length ps \<and> slots ps = add_mset s (slots ps')
    \<and> blocks ps = add_mset b (blocks ps')"
proof -
  have ij: "i \<noteq> j" using i j by auto
  have oki: "part_ok n (ps ! i)" and okj: "part_ok n (ps ! j)"
    using ok i j by (auto simp: parts_ok_def)
  obtain d1 v1 d2 v2 k where st: "part_steal_pids (ps ! j) (ps ! i) SW_STEAL_BATCH = (d1, v1, k)"
      "part_steal_blocks d1 v1 SW_STEAL_BATCH = (d2, v2, k)" "part_ok n d2" "part_ok n v2"
      "pid_stk d2 \<noteq> []" "mset (pid_stk d2) + mset (pid_stk v2) = mset (pid_stk (ps ! i))"
      "mset (blk_stk d2) + mset (blk_stk v2) = mset (blk_stk (ps ! i))"
    by (rule steal_both [OF okj j(2) oki i(2)])
  obtain p1 p2 s b where pp: "part_pop_pid d2 = (p1, int s)" "part_pop_block p1 = (p2, int b)"
      "part_ok n p2" "mset (pid_stk d2) = add_mset s (mset (pid_stk p2))"
      "mset (blk_stk d2) = add_mset b (mset (blk_stk p2))"
    by (rule pop_both [OF st(3,5)])
  have eq: "spawn_steal_loop i j ps (-1) (-1) = (ps[i := v2, j := p2], int s, int b)"
    using i(1) ij st(1,2) pp(1,2)
    by (subst spawn_steal_loop.simps) (simp add: spawn_steal_loop_done)
  have bj: "blk_stk (ps ! j) = []" using okj j by (simp add: part_ok_def)
  have "parts_ok n (ps[i := v2, j := p2]) \<and> slots ps = slots (ps[i := v2, j := p2]) + {#s#}
      \<and> blocks ps = blocks (ps[i := v2, j := p2]) + {#b#}"
  proof (rule parts_ok_update [OF ok st(4) pp(3) i(1) j(1) ij])
    show "mset (pid_stk v2) + mset (pid_stk p2) + {#s#}
        = mset (pid_stk (ps ! i)) + mset (pid_stk (ps ! j))"
      unfolding st(6) [symmetric] pp(4) j(2) by simp
    show "mset (blk_stk v2) + mset (blk_stk p2) + {#b#}
        = mset (blk_stk (ps ! i)) + mset (blk_stk (ps ! j))"
      unfolding st(7) [symmetric] pp(5) bj by simp
  qed
  then show ?thesis using eq by auto
qed

lemma spawn_steal_loop_miss:
  assumes "parts_ok n ps" "j < length ps" "pid_stk (ps ! j) = []"
    and "i < length ps" "pid_stk (ps ! i) = []"
  shows "spawn_steal_loop i j ps (-1) (-1) = spawn_steal_loop (Suc i) j ps (-1) (-1)"
proof -
  have ok: "part_ok n (ps ! i)" "part_ok n (ps ! j)"
    using assms by (auto simp: parts_ok_def)
  show ?thesis
    using assms(4) steal_none [OF ok(1) assms(5)] pop_none [OF ok(2) assms(3)]
    by (subst spawn_steal_loop.simps) (auto simp: Let_def)
qed

lemma spawn_steal_loop_spec:
  assumes "parts_ok n ps" "j < length ps" "pid_stk (ps ! j) = []"
  shows "if \<exists>k. i \<le> k \<and> k < length ps \<and> pid_stk (ps ! k) \<noteq> []
     then \<exists>ps' s b. spawn_steal_loop i j ps (-1) (-1) = (ps', int s, int b) \<and> parts_ok n ps'
       \<and> length ps' = length ps \<and> slots ps = add_mset s (slots ps')
       \<and> blocks ps = add_mset b (blocks ps')
     else spawn_steal_loop i j ps (-1) (-1) = (ps, -1, -1)"
proof (induction "length ps - i" arbitrary: i)
  case 0
  then show ?case by (auto simp: spawn_steal_loop.simps)
next
  case (Suc m)
  then have i: "i < length ps" by simp
  show ?case
  proof (cases "pid_stk (ps ! i) = []")
    case False
    have "\<exists>k. i \<le> k \<and> k < length ps \<and> pid_stk (ps ! k) \<noteq> []" using i False by blast
    with spawn_steal_loop_hit [OF assms i False] show ?thesis by simp
  next
    case True
    have "(\<exists>k. Suc i \<le> k \<and> k < length ps \<and> pid_stk (ps ! k) \<noteq> [])
        \<longleftrightarrow> (\<exists>k. i \<le> k \<and> k < length ps \<and> pid_stk (ps ! k) \<noteq> [])"
      using True by (metis Suc_eq_plus1 Suc_leD le_antisym not_less_eq_eq)
    moreover have "m = length ps - (Suc i)" using Suc.hyps(2) by simp
    ultimately show ?thesis
      using Suc.hyps(1) [of "Suc i"] spawn_steal_loop_miss [OF assms i True] by simp
  qed
qed

lemma part_id_in_range:
  "arena_inv L B a \<Longrightarrow> (if k \<ge> num_partitions a then 0 else k) < length (partitions a)"
  by (auto simp: arena_inv_def)

lemma parts_ok_update1:
  assumes "parts_ok n ps" "part_ok n q" "j < length ps"
    and "mset (pid_stk q) + S = mset (pid_stk (ps ! j))"
    and "mset (blk_stk q) + B = mset (blk_stk (ps ! j))"
  shows "parts_ok n (ps[j := q]) \<and> slots ps = slots (ps[j := q]) + S
    \<and> blocks ps = blocks (ps[j := q]) + B"
proof -
  have "slots ps = slots (ps[j := q]) + S"
    by (rule cancel_update [OF slots_update [OF assms(3)] assms(4)])
  moreover have "blocks ps = blocks (ps[j := q]) + B"
    by (rule cancel_update [OF blocks_update [OF assms(3)] assms(5)])
  moreover have "\<forall>r\<in>set (ps[j := q]). part_ok n r"
    using assms(1,2) set_update_subset_insert [of ps j q] unfolding parts_ok_def by blast
  ultimately show ?thesis using assms(1) unfolding parts_ok_def by simp
qed

lemma spawn_alloc_cases:
  assumes inv: "arena_inv L B a"
  shows "(\<exists>ps s b. spawn_alloc k a = (a\<lparr>partitions := ps\<rparr>, Some (s, b))
            \<and> parts_ok (proc_capacity a) ps \<and> length ps = length (partitions a)
            \<and> slots (partitions a) = add_mset s (slots ps)
            \<and> blocks (partitions a) = add_mset b (blocks ps))
       \<or> (slots (partitions a) = {#} \<and> spawn_alloc k a = (a, None))"
proof -
  define j where "j = (if k \<ge> num_partitions a then 0 else k)"
  let ?ps = "partitions a"
  have ok: "parts_ok (proc_capacity a) ?ps" using inv by (simp add: arena_inv_def)
  have j: "j < length ?ps" unfolding j_def by (rule part_id_in_range [OF inv])
  have okj: "part_ok (proc_capacity a) (?ps ! j)" using ok j by (simp add: parts_ok_def)
  show ?thesis
  proof (cases "pid_stk (?ps ! j) = []")
    case False
    obtain p1 p2 s b where pp: "part_pop_pid (?ps ! j) = (p1, int s)"
        "part_pop_block p1 = (p2, int b)" "part_ok (proc_capacity a) p2"
        "mset (pid_stk (?ps ! j)) = add_mset s (mset (pid_stk p2))"
        "mset (blk_stk (?ps ! j)) = add_mset b (mset (blk_stk p2))"
      by (rule pop_both [OF okj False])
    have "spawn_alloc k a = (a\<lparr>partitions := ?ps[j := p2]\<rparr>, Some (s, b))"
      unfolding spawn_alloc_def j_def [symmetric] Let_def pp(1) by (simp add: pp(2))
    moreover have "parts_ok (proc_capacity a) (?ps[j := p2])
        \<and> slots ?ps = slots (?ps[j := p2]) + {#s#} \<and> blocks ?ps = blocks (?ps[j := p2]) + {#b#}"
      using pp(4,5) by (intro parts_ok_update1 [OF ok pp(3) j]) auto
    ultimately show ?thesis by (intro disjI1) auto
  next
    case True
    have eq: "spawn_alloc k a =
        (case spawn_steal_loop 0 j ?ps (-1) (-1) of (ps, s, b) \<Rightarrow>
           (a\<lparr>partitions := ps\<rparr>, if s < 0 \<or> b < 0 then None else Some (nat s, nat b)))"
      unfolding spawn_alloc_def j_def [symmetric] Let_def pop_none [OF okj True] by simp
    note spec = spawn_steal_loop_spec [OF ok j True, of 0]
    show ?thesis
    proof (cases "\<exists>k. 0 \<le> k \<and> k < length ?ps \<and> pid_stk (?ps ! k) \<noteq> []")
      case True
      with spec obtain ps' s b where "spawn_steal_loop 0 j ?ps (-1) (-1) = (ps', int s, int b)"
          "parts_ok (proc_capacity a) ps'" "length ps' = length ?ps"
          "slots ?ps = add_mset s (slots ps')" "blocks ?ps = add_mset b (blocks ps')"
        by (simp split del: if_split) blast
      with eq show ?thesis by (intro disjI1) auto
    next
      case False
      then have "slots ?ps = {#}" by (auto simp: slots_empty_iff in_set_conv_nth)
      moreover have "spawn_alloc k a = (a, None)" using False spec eq by auto
      ultimately show ?thesis by blast
    qed
  qed
qed

lemma mset_set_take_out:
  assumes "mset_set ({..<n} - L) = add_mset s M" "L \<subseteq> {..<n::nat}"
  shows "s \<notin> L \<and> s < n \<and> M = mset_set ({..<n} - insert s L)"
proof -
  have "s \<in># mset_set ({..<n} - L)" using assms(1) by simp
  then have s: "s < n" "s \<notin> L" by auto
  then have "{..<n} - L = insert s ({..<n} - insert s L)" by auto
  moreover have "mset_set (insert s ({..<n} - insert s L)) = add_mset s (mset_set ({..<n} - insert s L))"
    by (rule mset_set.insert) auto
  ultimately have "add_mset s M = add_mset s (mset_set ({..<n} - insert s L))"
    using assms(1) by metis
  then show ?thesis using s by simp
qed

lemma mset_set_put_back:
  assumes "s \<in> L" "L \<subseteq> {..<n::nat}"
  shows "mset_set ({..<n} - (L - {s})) = add_mset s (mset_set ({..<n} - L))"
proof -
  have "{..<n} - (L - {s}) = insert s ({..<n} - L)" using assms by auto
  then show ?thesis using assms by (simp add: mset_set.insert)
qed

subsection \<open>Initialisation\<close>

lemma concat_ranges: "concat (map (\<lambda>p. [p * k..<p * k + k]) [0..<m]) = [0..<m * k]"
proof (induction m)
  case (Suc m)
  then show ?case using upt_add_eq_append [of 0 "m * k" k] by (simp add: add.commute)
qed simp

lemma concat_part_range:
  assumes "0 < m"
  shows "concat (map (part_range m n) [0..<m]) = [0..<n]"
proof -
  obtain k where m: "m = Suc k" using assms gr0_implies_Suc by blast
  have "map (part_range m n) [0..<k] = map (\<lambda>p. [p * (n div m)..<p * (n div m) + n div m]) [0..<k]"
    by (auto simp: part_range_def m Let_def)
  then have "concat (map (part_range m n) [0..<k]) = [0..<k * (n div m)]"
    by (simp only: concat_ranges)
  then have "concat (map (part_range m n) [0..<m]) = [0..<k * (n div m)] @ part_range m n k"
    by (simp add: m)
  moreover have "part_range m n k = [k * (n div m)..<n]" by (simp add: part_range_def m)
  moreover have "k * (n div m) \<le> n"
    by (metis Suc_n_not_le_n m div_times_less_eq_dividend le_trans mult.commute mult_le_mono1 nat_le_linear)
  ultimately show ?thesis by (metis le_add_diff_inverse upt_add_eq_append zero_le)
qed

lemma length_part_range:
  assumes "p < m"
  shows "length (part_range m n p) \<le> n"
proof -
  have "sum_list (map length (map (part_range m n) [0..<m])) = n"
    using concat_part_range [of m n] assms by (metis diff_zero gr_implies_not0 length_concat length_upt not_gr0)
  moreover have "length (part_range m n p) \<in> set (map length (map (part_range m n) [0..<m]))"
    using assms by auto
  ultimately show ?thesis
    using member_le_sum_list [of "length (part_range m n p)" "map length (map (part_range m n) [0..<m])"]
    by simp
qed

lemma fill_part_ok:
  assumes "p < m"
  shows "part_ok n (fill_part m n n p) \<and> pid_stk (fill_part m n n p) = part_range m n p
    \<and> blk_stk (fill_part m n n p) = part_range m n p"
proof -
  let ?e = "empty_part n n" and ?r = "part_range m n p"
  let ?q = "fold (\<lambda>i q. part_push_pid q i) ?r ?e"
  note len = length_part_range [OF assms, of n]
  have e: "wf_pids ?e" "wf_blks ?e" "pid_stk ?e = []" "blk_stk ?e = []"
      "pid_capacity ?e = n" "block_capacity ?e = n"
    by (simp_all add: empty_part_def part_defs)
  have q: "wf_pids ?q" "pid_stk ?q = ?r" "pid_capacity ?q = n" "blk_part ?q = blk_part ?e"
    using pids.fold_push [of ?e ?r] e len by auto
  note c = blk_part_cong [OF q(4)]
  have "wf_blks (fill_part m n n p)" "blk_stk (fill_part m n n p) = ?r"
      "block_capacity (fill_part m n n p) = n" "pid_part (fill_part m n n p) = pid_part ?q"
    unfolding fill_part_def using blks.fold_push [of ?q ?r] c e len by auto
  with q pid_part_cong [OF this(4)] show ?thesis by (simp add: part_ok_def)
qed

lemma init_partitions_ok:
  fixes n :: nat
  assumes "0 < m"
  defines "ps \<equiv> map (fill_part m n n) [0..<m]"
  shows "parts_ok n ps \<and> slots ps = mset_set {..<n} \<and> blocks ps = mset_set {..<n}"
proof -
  have "mset [0..<n] = (\<Sum>p\<leftarrow>[0..<m]. mset (part_range m n p))"
    unfolding concat_part_range [OF assms(1), of n, symmetric] by (simp add: mset_concat o_def)
  moreover have "slots ps = (\<Sum>p\<leftarrow>[0..<m]. mset (part_range m n p))"
      "blocks ps = (\<Sum>p\<leftarrow>[0..<m]. mset (part_range m n p))"
    unfolding slots_def blocks_def ps_def
    by (auto simp: o_def fill_part_ok intro!: arg_cong [of _ _ sum_list] map_cong)
  moreover have "mset [0..<n] = mset_set {..<n}"
    by (simp add: atLeast0LessThan)
  ultimately have "slots ps = mset_set {..<n}" "blocks ps = mset_set {..<n}" by simp_all
  then show ?thesis using fill_part_ok by (auto simp: parts_ok_def ps_def)
qed

lemma init_arena_inv:
  assumes "sw_arena_init sizeof_proc mem num_schedulers max_procs = Some a"
  shows "arena_inv {} {} a"
proof -
  define m where "m = min (if num_schedulers = 0 then 1 else num_schedulers) SW_MAX_PARTITIONS"
  have m: "0 < m" "m \<le> SW_MAX_PARTITIONS" by (auto simp: m_def const_simps)
  have a: "partitions a = map (fill_part m max_procs max_procs) [0..<m]" "num_partitions a = m"
      "proc_capacity a = max_procs"
    using assms by (auto simp: sw_arena_init_def m_def Let_def min_def split: option.splits if_splits)
  show ?thesis
    using init_partitions_ok [OF m(1), of max_procs] m a by (simp add: arena_inv_def)
qed

subsection \<open>Allocation and release\<close>

lemma spawn_alloc_inv:
  assumes inv: "arena_inv live live_blocks a"
    and alloc: "spawn_alloc sched_id a = (a', Some (slot, blk))"
  shows "slot \<notin> live \<and> blk \<notin> live_blocks \<and> slot < proc_capacity a
    \<and> arena_inv (insert slot live) (insert blk live_blocks) a'"
proof -
  obtain ps where a': "a' = a\<lparr>partitions := ps\<rparr>" and ps: "parts_ok (proc_capacity a) ps"
      "length ps = length (partitions a)"
      and s: "slots (partitions a) = add_mset slot (slots ps)"
      and b: "blocks (partitions a) = add_mset blk (blocks ps)"
    using spawn_alloc_cases [OF inv, of sched_id] alloc by auto
  have L: "live \<subseteq> {..<proc_capacity a}" "live_blocks \<subseteq> {..<proc_capacity a}"
      "slots (partitions a) = mset_set ({..<proc_capacity a} - live)"
      "blocks (partitions a) = mset_set ({..<proc_capacity a} - live_blocks)"
    using inv by (simp_all add: arena_inv_def)
  note s' = mset_set_take_out [OF L(3) [symmetric, unfolded s] L(1)]
  note b' = mset_set_take_out [OF L(4) [symmetric, unfolded b] L(2)]
  have "ps \<noteq> []" using ps(2) inv by (auto simp: arena_inv_def)
  with s' b' L ps inv show ?thesis by (auto simp: arena_inv_def a')
qed

text \<open>A live slot and a live block leave room in every partition, so the pushes stay in bounds.\<close>

lemma release_room:
  assumes inv: "arena_inv live live_blocks a" and s: "slot \<in> live" and b: "blk \<in> live_blocks"
    and p: "p \<in> set (partitions a)"
  shows "length (pid_stk p) < proc_capacity a" "length (blk_stk p) < proc_capacity a"
    "size (slots (partitions a)) < proc_capacity a" "size (blocks (partitions a)) < proc_capacity a"
proof -
  let ?n = "proc_capacity a"
  have "{..<?n} - live \<subset> {..<?n}" "{..<?n} - live_blocks \<subset> {..<?n}"
    using s b inv unfolding arena_inv_def by blast+
  then have "card ({..<?n} - live) < card {..<?n}" "card ({..<?n} - live_blocks) < card {..<?n}"
    by (auto intro: psubset_card_mono simp del: card_lessThan)
  then show sz: "size (slots (partitions a)) < ?n" "size (blocks (partitions a)) < ?n"
    using inv by (simp_all add: arena_inv_def)
  then show "length (pid_stk p) < ?n" "length (blk_stk p) < ?n"
    using size_slots_ge [OF p] size_blocks_ge [OF p] by linarith+
qed

lemma push_both:
  fixes s b :: nat
  assumes "part_ok n p" "length (pid_stk p) < n"
  defines "q \<equiv> part_push_block (part_push_pid p s) b"
  shows "part_ok n q \<and> pid_stk q = pid_stk p @ [s] \<and> blk_stk q = blk_stk p @ [b]"
proof -
  let ?p1 = "part_push_pid p s"
  have 1: "wf_pids ?p1" "pid_stk ?p1 = pid_stk p @ [s]" "pid_capacity ?p1 = n"
      "blk_part ?p1 = blk_part p"
    using pids.push [of p s] assms by (auto simp: part_ok_def)
  note c1 = blk_part_cong [OF 1(4)]
  have 2: "wf_blks q" "blk_stk q = blk_stk p @ [b]" "block_capacity q = n"
      "pid_part q = pid_part ?p1"
    using blks.push [of ?p1 b] assms c1 by (auto simp: part_ok_def q_def)
  show ?thesis using 1 2 pid_part_cong [OF 2(4)] assms by (auto simp: part_ok_def)
qed

lemma release_arena_inv:
  assumes inv: "arena_inv live live_blocks a" and s: "slot \<in> live" and b: "blk \<in> live_blocks"
  shows "arena_inv (live - {slot}) (live_blocks - {blk}) (arena_release sched slot blk a)"
proof -
  define k where "k = (case sched of None \<Rightarrow> 0 | Some i \<Rightarrow> i)"
  define j where "j = (if k \<ge> num_partitions a then 0 else k)"
  let ?ps = "partitions a" and ?n = "proc_capacity a"
  have j: "j < length ?ps" unfolding j_def by (rule part_id_in_range [OF inv])
  then have m: "?ps ! j \<in> set ?ps" by simp
  note room = release_room [OF inv s b m]
  have ok: "part_ok ?n r" if "r \<in> set ?ps" for r using that inv by (simp add: arena_inv_def parts_ok_def)
  define q where "q = part_push_block (part_push_pid (?ps ! j) slot) blk"
  note q = push_both [OF ok [OF m] room(1), of slot blk, folded q_def]
  have sl: "slots (?ps[j := q]) = add_mset slot (slots ?ps)"
      "blocks (?ps[j := q]) = add_mset blk (blocks ?ps)"
    using slots_update [OF j, of q] blocks_update [OF j, of q] q by auto
  have set: "\<forall>r\<in>set (?ps[j := q]). part_ok ?n r"
    using ok q set_update_subset_insert [of ?ps j q] by blast
  have rel: "arena_release sched slot blk a = a\<lparr>partitions := ?ps[j := q]\<rparr>"
    unfolding arena_release_def Let_def k_def [symmetric] j_def [symmetric] q_def ..
  have L: "live \<subseteq> {..<?n}" "live_blocks \<subseteq> {..<?n}" using inv by (auto simp: arena_inv_def)
  show ?thesis
    using inv set sl room(3,4) mset_set_put_back [OF s L(1)] mset_set_put_back [OF b L(2)]
    by (auto simp: arena_inv_def parts_ok_def rel)
qed

text \<open>A small arena, two schedulers and four slots, for the concrete instances below.\<close>

definition demo_arena :: sw_arena where
  "demo_arena = the (sw_arena_init 472 (Some 4096) 2 4)"

lemma demo_arena_inv: "arena_inv {} {} demo_arena"
  unfolding demo_arena_def
  by (rule init_arena_inv [of 472 "Some 4096" 2 4]) (simp add: sw_arena_init_def Let_def)

lemma demo_spawn: "spawn_alloc 0 demo_arena = (fst (spawn_alloc 0 demo_arena), Some (1, 1))"
proof -
  have "fill_part 2 4 4 0 = \<lparr>free_pids = [0, 1, 0, 0], pid_top = 2, pid_capacity = 4,
      free_blocks = [0, 1, 0, 0], block_top = 2, block_capacity = 4\<rparr>"
    by code_simp
  then have "partitions demo_arena ! 0 = \<lparr>free_pids = [0, 1, 0, 0], pid_top = 2, pid_capacity = 4,
      free_blocks = [0, 1, 0, 0], block_top = 2, block_capacity = 4\<rparr>" "num_partitions demo_arena = 2"
    by (simp_all add: demo_arena_def sw_arena_init_def Let_def const_simps)
  then have "snd (spawn_alloc 0 demo_arena) = Some (1, 1)"
    by (simp add: spawn_alloc_def part_pop_pid_def part_pop_block_def Let_def)
  then show ?thesis by (metis prod.collapse)
qed

section \<open>Properties\<close>

text \<open>
  Initialisation establishes the allocator's invariant with nothing live: every slot and every
  heap block is in exactly one partition, and every partition is balanced.
\<close>

theorem arena_init_establishes_inv:
  assumes "sw_arena_init sizeof_proc mem num_schedulers max_procs = Some a"
  shows "arena_inv {} {} a"
  using assms by (rule init_arena_inv)

theorem arena_init_establishes_inv_witness:
  "arena_inv {} {} (the (sw_arena_init 472 (Some 4096) 2 5))"
  by (rule arena_init_establishes_inv [of 472 "Some 4096" 2 5]) (simp add: sw_arena_init_def Let_def)

text \<open>
  C1. Allocation hands out a slot and a block that were free, marks them live and keeps the
  invariant: no slot is ever given to two processes at a time.
\<close>

theorem spawn_alloc_fresh:
  assumes "arena_inv live live_blocks a"
    and "spawn_alloc sched_id a = (a', Some (slot, blk))"
  shows "slot \<notin> live \<and> blk \<notin> live_blocks \<and> slot < proc_capacity a
    \<and> arena_inv (insert slot live) (insert blk live_blocks) a'"
  using assms by (rule spawn_alloc_inv)

theorem spawn_alloc_fresh_witness:
  "arena_inv {1} {1} (fst (spawn_alloc 0 demo_arena))"
  using spawn_alloc_fresh [OF demo_arena_inv demo_spawn] by simp

text \<open>
  C14. Allocation is complete: with work stealing, \<^verbatim>\<open>sw_spawn\<close> fails exactly when every slot of the
  whole arena is in use, whichever scheduler asks.
\<close>

theorem spawn_alloc_fails_iff_full:
  assumes "arena_inv live live_blocks a"
  shows "snd (spawn_alloc sched_id a) = None \<longleftrightarrow> live = {..<proc_capacity a}"
proof -
  have L: "live \<subseteq> {..<proc_capacity a}" "slots (partitions a) = mset_set ({..<proc_capacity a} - live)"
    using assms by (simp_all add: arena_inv_def)
  then have "slots (partitions a) = {#} \<longleftrightarrow> live = {..<proc_capacity a}"
    by (auto simp: mset_set_empty_iff)
  with spawn_alloc_cases [OF assms, of sched_id] show ?thesis by auto
qed

theorem spawn_alloc_fails_iff_full_witness: "snd (spawn_alloc 1 demo_arena) \<noteq> None"
proof -
  have "proc_capacity demo_arena = 4" by (simp add: demo_arena_def sw_arena_init_def Let_def)
  then have "0 \<in> {..<proc_capacity demo_arena}" by simp
  then have "{} \<noteq> {..<proc_capacity demo_arena}" by blast
  with spawn_alloc_fails_iff_full [OF demo_arena_inv, of 1] show ?thesis by simp
qed

text \<open>
  Destroying a process returns its slot and block: the pushes stay inside the partition's
  stack arrays (the tops before the push are below the capacity) and the invariant is kept.
\<close>

theorem arena_release_in_bounds:
  assumes "arena_inv live live_blocks a" "slot \<in> live" "blk \<in> live_blocks"
  shows "arena_inv (live - {slot}) (live_blocks - {blk}) (arena_release sched slot blk a)
    \<and> (\<forall>p\<in>set (partitions a). pid_top p < length (free_pids p) \<and> block_top p < length (free_blocks p))"
proof -
  have "\<forall>p\<in>set (partitions a). part_ok (proc_capacity a) p"
    using assms by (simp add: arena_inv_def parts_ok_def)
  then have "\<forall>p\<in>set (partitions a). pid_top p < length (free_pids p) \<and> block_top p < length (free_blocks p)"
    using release_room(1,2) [OF assms] by (fastforce simp: part_ok_def part_defs)
  with release_arena_inv [OF assms] show ?thesis by blast
qed

theorem arena_release_in_bounds_witness:
  "arena_inv {} {} (arena_release (Some 1) 1 1 (fst (spawn_alloc 0 demo_arena)))"
proof -
  have "arena_inv {1} {1} (fst (spawn_alloc 0 demo_arena))"
    using spawn_alloc_inv [OF demo_arena_inv demo_spawn] by blast
  from arena_release_in_bounds [OF this, of 1 1 "Some 1"] show ?thesis by simp
qed

end
