(* ===== verification/Mailbox.thy ===== *)
theory Mailbox
  imports Swarm_Prelude
begin

text \<open>
  The mailbox of \<^verbatim>\<open>src/src/swarmrt_native.c\<close>: a lock-free signal stack that senders push to, and
  a private doubly-linked queue of the owning process. Messages live in a heap of nodes, a pointer
  is an address, \<^verbatim>\<open>NULL\<close> is \<^term>\<open>None\<close>. The pointer operations are shown to implement plain
  list operations: drain reverses the stack onto the queue, pop takes the first (matching) message.
\<close>

section \<open>Messages, mailboxes and the message heap\<close>

type_synonym addr = nat

record 'p sw_msg =
  msg_tag :: u64
  msg_payload :: "'p option"
  msg_from :: u64
  msg_next :: "addr option"
  msg_prev :: "addr option"
  sig_next :: "addr option"

record sw_mailbox =
  sig_head :: "addr option"
  priv_head :: "addr option"
  priv_tail :: "addr option"
  mb_waiting :: bool
  mb_count :: u32

type_synonym 'p msg_heap = "addr \<Rightarrow> 'p sw_msg"

abbreviation set_next :: "'p msg_heap \<Rightarrow> addr \<Rightarrow> addr option \<Rightarrow> 'p msg_heap" where
  "set_next h a x \<equiv> h(a := (h a)\<lparr>msg_next := x\<rparr>)"

abbreviation set_prev :: "'p msg_heap \<Rightarrow> addr \<Rightarrow> addr option \<Rightarrow> 'p msg_heap" where
  "set_prev h a x \<equiv> h(a := (h a)\<lparr>msg_prev := x\<rparr>)"

abbreviation set_sig :: "'p msg_heap \<Rightarrow> addr \<Rightarrow> addr option \<Rightarrow> 'p msg_heap" where
  "set_sig h a x \<equiv> h(a := (h a)\<lparr>sig_next := x\<rparr>)"

section \<open>Operations\<close>

subsection \<open>The per-thread message free list\<close>

definition MSG_FREELIST_MAX :: nat where [const_simps]: "MSG_FREELIST_MAX = 128"

record msg_pool =
  tls_msg_free :: "addr option"
  tls_msg_free_count :: nat

text \<open>\<open>fresh\<close> is the address that \<^verbatim>\<open>malloc\<close> returns when the free list is empty.\<close>

definition msg_alloc :: "addr \<Rightarrow> 'p msg_heap \<Rightarrow> msg_pool \<Rightarrow> msg_pool \<times> addr" where
  "msg_alloc fresh h pool =
     (case tls_msg_free pool of
        Some m \<Rightarrow> (pool\<lparr>tls_msg_free := msg_next (h m),
                        tls_msg_free_count := tls_msg_free_count pool - 1\<rparr>, m)
      | None \<Rightarrow> (pool, fresh))"

text \<open>The flag of the result says whether the node went back to \<^verbatim>\<open>free\<close>.\<close>

definition msg_free :: "'p msg_heap \<Rightarrow> msg_pool \<Rightarrow> addr \<Rightarrow> 'p msg_heap \<times> msg_pool \<times> bool" where
  "msg_free h pool m =
     (if tls_msg_free_count pool < MSG_FREELIST_MAX
      then (set_next h m (tls_msg_free pool),
            pool\<lparr>tls_msg_free := Some m, tls_msg_free_count := tls_msg_free_count pool + 1\<rparr>, False)
      else (h, pool, True))"

subsection \<open>Signal stack\<close>

text \<open>
  One iteration of the compare-and-swap loop of \<^verbatim>\<open>mailbox_push\<close>. \<open>old\<close> is the head that the
  iteration loaded; \<open>mb\<close> is the mailbox at the moment of the compare-and-swap, after whatever other
  senders did in between. \<open>spurious\<close> is a spurious failure, which the weak compare-and-swap may have.
  The flag of the result says whether the swap succeeded.
\<close>

definition mailbox_push_try ::
  "addr option \<times> bool \<Rightarrow> addr \<Rightarrow> 'p msg_heap \<Rightarrow> sw_mailbox \<Rightarrow> 'p msg_heap \<times> sw_mailbox \<times> bool" where
  "mailbox_push_try try m h mb =
     (let (old, spurious) = try; h' = set_sig h m old
      in if sig_head mb = old \<and> \<not> spurious then (h', mb\<lparr>sig_head := Some m\<rparr>, True) else (h', mb, False))"

text \<open>The whole loop: what the failing iterations saw, then the iteration that succeeds.\<close>

fun mailbox_push ::
  "(addr option \<times> bool) list \<Rightarrow> addr \<Rightarrow> 'p msg_heap \<Rightarrow> sw_mailbox \<Rightarrow> 'p msg_heap \<times> sw_mailbox" where
  "mailbox_push [] m h mb =
     (case mailbox_push_try (sig_head mb, False) m h mb of (h', mb', _) \<Rightarrow> (h', mb'))"
| "mailbox_push (old # olds) m h mb =
     (case mailbox_push_try old m h mb of
        (h', mb', True) \<Rightarrow> (h', mb')
      | (h', mb', False) \<Rightarrow> mailbox_push olds m h' mb')"

subsection \<open>Draining\<close>

text \<open>
  The two loops of \<^verbatim>\<open>mailbox_drain\<close>. They follow pointers, so they may run forever on a cyclic
  heap; \<^term>\<open>None\<close> stands for that.
\<close>

partial_function (option) reverse_chain ::
  "'p msg_heap \<Rightarrow> addr option \<Rightarrow> addr option \<Rightarrow> ('p msg_heap \<times> addr option) option" where
  "reverse_chain h link reversed =
     (case link of
        None \<Rightarrow> Some (h, reversed)
      | Some c \<Rightarrow> reverse_chain (set_next h c reversed) (sig_next (h c)) (Some c))"

definition append_node ::
  "'p msg_heap \<Rightarrow> sw_mailbox \<Rightarrow> addr \<Rightarrow> 'p msg_heap \<times> sw_mailbox" where
  "append_node h mb m =
     (let h = set_prev (set_next h m None) m (priv_tail mb);
          (h, mb) = (case priv_tail mb of
                       Some t \<Rightarrow> (set_next h t (Some m), mb)
                     | None \<Rightarrow> (h, mb\<lparr>priv_head := Some m\<rparr>))
      in (h, mb\<lparr>priv_tail := Some m, mb_count := mb_count mb + 1\<rparr>))"

partial_function (option) append_chain ::
  "'p msg_heap \<Rightarrow> sw_mailbox \<Rightarrow> addr option \<Rightarrow> ('p msg_heap \<times> sw_mailbox) option" where
  "append_chain h mb m =
     (case m of
        None \<Rightarrow> Some (h, mb)
      | Some a \<Rightarrow> append_chain (fst (append_node h mb a)) (snd (append_node h mb a)) (msg_next (h a)))"

definition mailbox_drain :: "'p msg_heap \<Rightarrow> sw_mailbox \<Rightarrow> ('p msg_heap \<times> sw_mailbox) option" where
  "mailbox_drain h mb =
     (let link = sig_head mb; mb = mb\<lparr>sig_head := None\<rparr>
      in if link = None then Some (h, mb)
         else Option.bind (reverse_chain h link None) (\<lambda>(h, reversed). append_chain h mb reversed))"

subsection \<open>Private queue\<close>

definition mailbox_pop_first ::
  "'p msg_heap \<Rightarrow> sw_mailbox \<Rightarrow> 'p msg_heap \<times> sw_mailbox \<times> addr option" where
  "mailbox_pop_first h mb =
     (case priv_head mb of
        None \<Rightarrow> (h, mb, None)
      | Some m \<Rightarrow>
          let mb = mb\<lparr>priv_head := msg_next (h m)\<rparr>;
              (h, mb) = (case priv_head mb of
                           Some n \<Rightarrow> (set_prev h n None, mb)
                         | None \<Rightarrow> (h, mb\<lparr>priv_tail := None\<rparr>))
          in (h, mb\<lparr>mb_count := mb_count mb - 1\<rparr>, Some m))"

text \<open>Unlinking a node, the code shared by \<^verbatim>\<open>mailbox_pop_tagged\<close> and \<^verbatim>\<open>sw_mailbox_remove_msg\<close>.\<close>

definition mailbox_unlink :: "'p msg_heap \<Rightarrow> sw_mailbox \<Rightarrow> addr \<Rightarrow> 'p msg_heap \<times> sw_mailbox" where
  "mailbox_unlink h mb m =
     (let (h1, mb) = (case msg_prev (h m) of
                        Some q \<Rightarrow> (set_next h q (msg_next (h m)), mb)
                      | None \<Rightarrow> (h, mb\<lparr>priv_head := msg_next (h m)\<rparr>));
          (h2, mb) = (case msg_next (h1 m) of
                        Some r \<Rightarrow> (set_prev h1 r (msg_prev (h1 m)), mb)
                      | None \<Rightarrow> (h1, mb\<lparr>priv_tail := msg_prev (h1 m)\<rparr>))
      in (h2, mb\<lparr>mb_count := mb_count mb - 1\<rparr>))"

partial_function (option) scan_tagged ::
  "'p msg_heap \<Rightarrow> u64 \<Rightarrow> addr option \<Rightarrow> addr option option" where
  "scan_tagged h tag m =
     (case m of
        None \<Rightarrow> Some None
      | Some a \<Rightarrow> if msg_tag (h a) = tag then Some (Some a) else scan_tagged h tag (msg_next (h a)))"

definition mailbox_pop_tagged ::
  "'p msg_heap \<Rightarrow> sw_mailbox \<Rightarrow> u64 \<Rightarrow> ('p msg_heap \<times> sw_mailbox \<times> addr option) option" where
  "mailbox_pop_tagged h mb tag =
     Option.bind (scan_tagged h tag (priv_head mb))
       (\<lambda>r. case r of
          None \<Rightarrow> Some (h, mb, None)
        | Some m \<Rightarrow> (case mailbox_unlink h mb m of (h', mb') \<Rightarrow> Some (h', mb', Some m)))"

text \<open>The branch of the receive functions that puts a popped message back at the front.\<close>

definition mailbox_push_front :: "'p msg_heap \<Rightarrow> sw_mailbox \<Rightarrow> addr \<Rightarrow> 'p msg_heap \<times> sw_mailbox" where
  "mailbox_push_front h mb m =
     (let h = set_next (set_prev h m None) m (priv_head mb);
          (h, mb) = (case priv_head mb of
                       Some n \<Rightarrow> (set_prev h n (Some m), mb)
                     | None \<Rightarrow> (h, mb\<lparr>priv_tail := Some m\<rparr>))
      in (h, mb\<lparr>priv_head := Some m, mb_count := mb_count mb + 1\<rparr>))"

section \<open>Heap shapes\<close>

fun first_or :: "addr list \<Rightarrow> addr option \<Rightarrow> addr option" where
  "first_or [] n = n"
| "first_or (a # _) n = Some a"

definition last_or :: "addr list \<Rightarrow> addr option \<Rightarrow> addr option" where
  "last_or xs p = (if xs = [] then p else Some (last xs))"

text \<open>\<open>dseg h p xs n\<close>: the nodes \<open>xs\<close> are doubly linked, with \<open>p\<close> before them and \<open>n\<close> after.\<close>

fun dseg :: "'p msg_heap \<Rightarrow> addr option \<Rightarrow> addr list \<Rightarrow> addr option \<Rightarrow> bool" where
  "dseg h p [] n \<longleftrightarrow> True"
| "dseg h p (a # as) n \<longleftrightarrow>
     msg_prev (h a) = p \<and> msg_next (h a) = first_or as n \<and> dseg h (Some a) as n"

definition priv_rep :: "'p msg_heap \<Rightarrow> sw_mailbox \<Rightarrow> addr list \<Rightarrow> bool" where
  "priv_rep h mb privs \<longleftrightarrow>
     dseg h None privs None \<and> distinct privs
     \<and> priv_head mb = first_or privs None \<and> priv_tail mb = last_or privs None
     \<and> mb_count mb = of_nat (length privs)"

definition mb_rep :: "'p msg_heap \<Rightarrow> sw_mailbox \<Rightarrow> addr list \<Rightarrow> addr list \<Rightarrow> bool" where
  "mb_rep h mb sigs privs \<longleftrightarrow>
     chain (sig_next \<circ> h) (sig_head mb) sigs \<and> distinct sigs \<and> set sigs \<inter> set privs = {}
     \<and> priv_rep h mb privs"

text \<open>What a message carries; the links are representation.\<close>

definition mdata :: "'p sw_msg \<Rightarrow> u64 \<times> 'p option \<times> u64" where
  "mdata m = (msg_tag m, msg_payload m, msg_from m)"

definition same_data :: "'p msg_heap \<Rightarrow> 'p msg_heap \<Rightarrow> bool" where
  "same_data h h' \<longleftrightarrow> (\<forall>a. mdata (h' a) = mdata (h a))"

lemma mdata_upd [simp]:
  "mdata (m\<lparr>msg_next := x\<rparr>) = mdata m" "mdata (m\<lparr>msg_prev := x\<rparr>) = mdata m"
  "mdata (m\<lparr>sig_next := x\<rparr>) = mdata m"
  by (simp_all add: mdata_def)

lemma same_data_refl [simp]: "same_data h h" by (simp add: same_data_def)

lemma same_data_trans: "same_data h h' \<Longrightarrow> same_data h' h'' \<Longrightarrow> same_data h h''"
  by (simp add: same_data_def)

lemma same_data_set [simp]:
  "same_data h (h(a := (h a)\<lparr>msg_next := x\<rparr>))" "same_data h (h(a := (h a)\<lparr>msg_prev := x\<rparr>))"
  "same_data h (h(a := (h a)\<lparr>sig_next := x\<rparr>))"
  by (simp_all add: same_data_def)

lemma last_or_simps [simp]: "last_or [] p = p" "last_or (xs @ [a]) p = Some a" "last_or [a] p = Some a"
  by (simp_all add: last_or_def)

lemma first_or_append [simp]: "first_or (xs @ ys) n = first_or xs (first_or ys n)"
  by (cases xs) auto

lemma last_or_Cons: "last_or (a # as) p = last_or as (Some a)"
  by (simp add: last_or_def)

lemma last_or_append: "last_or (xs @ ys) p = last_or ys (last_or xs p)"
  by (simp add: last_or_def)

lemma dseg_append:
  "dseg h p (xs @ ys) n \<longleftrightarrow> dseg h p xs (first_or ys n) \<and> dseg h (last_or xs p) ys n"
  by (induction xs arbitrary: p) (auto simp: last_or_Cons)

lemma dseg_upd [simp]: "a \<notin> set xs \<Longrightarrow> dseg (h(a := v)) p xs n = dseg h p xs n"
  by (induction xs arbitrary: p) auto

lemma dseg_set_sig [simp]: "dseg (set_sig h a v) p xs n = dseg h p xs n"
  by (induction xs arbitrary: p) auto

lemma dseg_set_last_next:
  assumes "dseg h p xs n" "distinct xs" "xs \<noteq> []"
  shows "dseg (set_next h (last xs) n') p xs n'"
proof -
  from assms(3) obtain ys a where xs: "xs = ys @ [a]" by (meson rev_exhaust)
  with assms show ?thesis by (auto simp: dseg_append)
qed

lemma dseg_set_first_prev:
  assumes "dseg h p (y # ys) n" "distinct (y # ys)"
  shows "dseg (set_prev h y p') p' (y # ys) n"
  using assms by auto

lemma priv_rep_cong:
  assumes "priv_rep h mb xs" "priv_head mb' = priv_head mb" "priv_tail mb' = priv_tail mb"
    "mb_count mb' = mb_count mb" "\<And>a. a \<in> set xs \<Longrightarrow> msg_next (h' a) = msg_next (h a)"
    "\<And>a. a \<in> set xs \<Longrightarrow> msg_prev (h' a) = msg_prev (h a)"
  shows "priv_rep h' mb' xs"
proof -
  have "dseg h p ys n \<Longrightarrow> set ys \<subseteq> set xs \<Longrightarrow> dseg h' p ys n" for p ys n
    using assms(5,6) by (induction ys arbitrary: p) auto
  with assms(1-4) show ?thesis by (auto simp: priv_rep_def)
qed

section \<open>The operations implement list operations\<close>

subsection \<open>Push\<close>

lemma push_try_rep:
  assumes "mb_rep h mb sigs privs" "m \<notin> set sigs" "m \<notin> set privs"
  shows "case mailbox_push_try old m h mb of (h', mb', ok) \<Rightarrow>
    same_data h h' \<and> (\<forall>a. a \<noteq> m \<longrightarrow> h' a = h a) \<and> mb_rep h' mb' (if ok then m # sigs else sigs) privs"
proof (cases old)
  case (Pair old spurious)
  have c: "chain (sig_next \<circ> set_sig h m old) (sig_head mb) sigs"
    by (rule chain_upd [of "sig_next \<circ> h"]) (use assms in \<open>auto simp: mb_rep_def\<close>)
  have p: "priv_rep (set_sig h m old) (mb\<lparr>sig_head := x\<rparr>) privs" for x
    by (rule priv_rep_cong [of h mb privs]) (use assms(1) in \<open>auto simp: mb_rep_def\<close>)
  have p': "priv_rep (set_sig h m old) mb privs"
    by (rule priv_rep_cong [of h mb privs]) (use assms(1) in \<open>auto simp: mb_rep_def\<close>)
  show ?thesis
    using assms c p p' Pair by (auto simp: mailbox_push_try_def mb_rep_def Let_def)
qed

lemma push_rep:
  assumes "mb_rep h mb sigs privs" "m \<notin> set sigs" "m \<notin> set privs"
    and "mailbox_push olds m h mb = (h', mb')"
  shows "same_data h h' \<and> (\<forall>a. a \<noteq> m \<longrightarrow> h' a = h a) \<and> mb_rep h' mb' (m # sigs) privs"
  using assms
proof (induction olds arbitrary: h mb)
  case Nil
  then show ?case
    using push_try_rep [OF Nil.prems(1-3), of "(sig_head mb, False)"]
    by (auto simp: mailbox_push_try_def Let_def)
next
  case (Cons old olds)
  obtain h1 mb1 ok where t: "mailbox_push_try old m h mb = (h1, mb1, ok)" by (metis prod_cases3)
  note r = push_try_rep [OF Cons.prems(1-3), of old, unfolded t, simplified]
  show ?case
  proof (cases ok)
    case True
    with t Cons.prems(4) have "h' = h1" "mb' = mb1" by auto
    with r True show ?thesis by simp
  next
    case False
    with r have "mb_rep h1 mb1 sigs privs" "same_data h h1" "\<forall>a. a \<noteq> m \<longrightarrow> h1 a = h a" by auto
    moreover have "mailbox_push olds m h1 mb1 = (h', mb')" using t False Cons.prems(4) by simp
    ultimately show ?thesis
      using Cons.IH [of h1 mb1] Cons.prems(2,3) same_data_trans [of h h1 h'] by auto
  qed
qed

subsection \<open>Drain\<close>

lemma reverse_chain_rep:
  assumes "chain (sig_next \<circ> h) c cs" "chain (msg_next \<circ> h) r rs" "distinct (cs @ rs)"
  shows "\<exists>h' r'. reverse_chain h c r = Some (h', r') \<and> chain (msg_next \<circ> h') r' (rev cs @ rs)
    \<and> (\<forall>a. a \<notin> set cs \<longrightarrow> h' a = h a) \<and> (\<forall>a. sig_next (h' a) = sig_next (h a)) \<and> same_data h h'"
  using assms
proof (induction cs arbitrary: h c r rs)
  case Nil
  then show ?case by (simp add: reverse_chain.simps)
next
  case (Cons x cs)
  then have c: "c = Some x" by simp
  let ?h = "set_next h x r"
  have 1: "chain (sig_next \<circ> ?h) (sig_next (h x)) cs"
    by (rule chain_upd [of "sig_next \<circ> h"]) (use Cons.prems(1) in \<open>auto simp: comp_def\<close>)
  have "chain (msg_next \<circ> ?h) r rs"
    by (rule chain_upd [of "msg_next \<circ> h"]) (use Cons.prems(2,3) in \<open>auto simp: comp_def\<close>)
  then have 2: "chain (msg_next \<circ> ?h) (Some x) (x # rs)" by simp
  have 3: "distinct (cs @ x # rs)" using Cons.prems(3) by auto
  obtain h' r' where *: "reverse_chain ?h (sig_next (h x)) (Some x) = Some (h', r')"
      "chain (msg_next \<circ> h') r' (rev cs @ x # rs)" "\<forall>a. a \<notin> set cs \<longrightarrow> h' a = ?h a"
      "\<forall>a. sig_next (h' a) = sig_next (?h a)" "same_data ?h h'"
    using Cons.IH [OF 1 2 3] by blast
  have "reverse_chain h c r = Some (h', r')"
    using * by (subst reverse_chain.simps) (simp add: c)
  moreover have "same_data h h'" using *(5) same_data_trans same_data_set(1) by blast
  ultimately show ?case using * by (auto simp: comp_def)
qed

lemma append_node_rep:
  assumes "priv_rep h mb xs" "m \<notin> set xs"
  shows "priv_rep (fst (append_node h mb m)) (snd (append_node h mb m)) (xs @ [m])
    \<and> same_data h (fst (append_node h mb m))
    \<and> (\<forall>a. a \<noteq> m \<longrightarrow> a \<notin> set xs \<longrightarrow> fst (append_node h mb m) a = h a)
    \<and> (\<forall>a. sig_next (fst (append_node h mb m) a) = sig_next (h a))
    \<and> sig_head (snd (append_node h mb m)) = sig_head mb
    \<and> mb_waiting (snd (append_node h mb m)) = mb_waiting mb"
proof (cases xs rule: rev_exhaust)
  case Nil
  with assms show ?thesis by (simp add: append_node_def priv_rep_def same_data_def)
next
  case (snoc ys t)
  with assms have t: "priv_tail mb = Some t" by (simp add: priv_rep_def)
  let ?h = "set_prev (set_next h m None) m (Some t)"
  have "dseg ?h None xs None" using assms by (simp add: priv_rep_def)
  then have "dseg (set_next ?h (last xs) (Some m)) None xs (Some m)"
    using assms snoc by (intro dseg_set_last_next) (auto simp: priv_rep_def)
  then have "dseg (set_next ?h t (Some m)) None (xs @ [m]) None"
    using assms snoc by (auto simp: dseg_append)
  with assms snoc t show ?thesis
    by (auto simp: append_node_def priv_rep_def same_data_def Let_def last_or_def)
qed

lemma append_chain_rep:
  assumes "priv_rep h mb xs" "chain (msg_next \<circ> h) m ms" "distinct (xs @ ms)"
  shows "\<exists>h' mb'. append_chain h mb m = Some (h', mb') \<and> priv_rep h' mb' (xs @ ms) \<and> same_data h h'
    \<and> (\<forall>a. a \<notin> set xs \<union> set ms \<longrightarrow> h' a = h a) \<and> (\<forall>a. sig_next (h' a) = sig_next (h a))
    \<and> sig_head mb' = sig_head mb \<and> mb_waiting mb' = mb_waiting mb"
  using assms
proof (induction ms arbitrary: h mb m xs)
  case Nil
  then show ?case by (simp add: append_chain.simps)
next
  case (Cons x ms)
  then have m: "m = Some x" by simp
  let ?h = "fst (append_node h mb x)" and ?mb = "snd (append_node h mb x)"
  have x: "x \<notin> set xs" using Cons.prems(3) by auto
  note n = append_node_rep [OF Cons.prems(1) x]
  have hm: "?h a = h a" if "a \<in> set ms" for a using that Cons.prems(3) n by auto
  have 2: "chain (msg_next \<circ> ?h) (msg_next (h x)) ms"
    by (rule chain_upd [of "msg_next \<circ> h"]) (use Cons.prems(2) hm in \<open>auto simp: comp_def\<close>)
  have 3: "distinct ((xs @ [x]) @ ms)" using Cons.prems(3) by auto
  obtain h' mb' where *: "append_chain ?h ?mb (msg_next (h x)) = Some (h', mb')"
      "priv_rep h' mb' ((xs @ [x]) @ ms)" "same_data ?h h'"
      "\<forall>a. a \<notin> set (xs @ [x]) \<union> set ms \<longrightarrow> h' a = ?h a" "\<forall>a. sig_next (h' a) = sig_next (?h a)"
      "sig_head mb' = sig_head ?mb" "mb_waiting mb' = mb_waiting ?mb"
    using Cons.IH [OF _ 2 3] n by blast
  have "append_chain h mb m = Some (h', mb')"
    using * by (subst append_chain.simps) (simp add: m)
  moreover have "same_data h h'" using *(3) n same_data_trans by blast
  ultimately show ?case using * n by auto
qed

text \<open>Draining always finishes on a well-formed mailbox and moves the stack, reversed, to the queue.\<close>

lemma drain_rep:
  assumes "mb_rep h mb sigs privs"
  shows "\<exists>h' mb'. mailbox_drain h mb = Some (h', mb') \<and> mb_rep h' mb' [] (privs @ rev sigs)
    \<and> same_data h h' \<and> (\<forall>a. a \<notin> set sigs \<union> set privs \<longrightarrow> h' a = h a)
    \<and> mb_waiting mb' = mb_waiting mb"
proof (cases sigs)
  case Nil
  then have "sig_head mb = None" using assms by (simp add: mb_rep_def)
  then have "mailbox_drain h mb = Some (h, mb\<lparr>sig_head := None\<rparr>)" by (simp add: mailbox_drain_def)
  moreover have "priv_rep h (mb\<lparr>sig_head := None\<rparr>) privs"
    using assms by (auto simp: mb_rep_def priv_rep_def)
  ultimately show ?thesis using Nil by (auto simp: mb_rep_def)
next
  case (Cons s ss)
  let ?mb = "mb\<lparr>sig_head := None\<rparr>"
  have c: "chain (sig_next \<circ> h) (sig_head mb) sigs" "distinct sigs" "set sigs \<inter> set privs = {}"
      "priv_rep h mb privs"
    using assms by (simp_all add: mb_rep_def)
  obtain h1 r where 1: "reverse_chain h (sig_head mb) None = Some (h1, r)"
      "chain (msg_next \<circ> h1) r (rev sigs)" "\<forall>a. a \<notin> set sigs \<longrightarrow> h1 a = h a" "same_data h h1"
    using reverse_chain_rep [OF c(1), of None "[]"] c(2) by auto
  have p: "priv_rep h1 ?mb privs"
    by (rule priv_rep_cong [OF c(4)]) (use 1(3) c(3) in \<open>auto simp: disjoint_iff\<close>)
  have d: "distinct (privs @ rev sigs)"
    using c by (auto simp: priv_rep_def disjoint_iff)
  obtain h2 mb2 where 2: "append_chain h1 ?mb r = Some (h2, mb2)" "priv_rep h2 mb2 (privs @ rev sigs)"
      "same_data h1 h2" "sig_head mb2 = None" "mb_waiting mb2 = mb_waiting mb"
      "\<forall>a. a \<notin> set privs \<union> set (rev sigs) \<longrightarrow> h2 a = h1 a"
    using append_chain_rep [OF p 1(2) d] by auto
  have "mailbox_drain h mb = Some (h2, mb2)"
    using 1 2 Cons c(1) by (simp add: mailbox_drain_def)
  moreover have "mb_rep h2 mb2 [] (privs @ rev sigs)" using 2 by (simp add: mb_rep_def)
  moreover have "same_data h h2" using 1(4) 2(3) by (rule same_data_trans)
  ultimately show ?thesis using 1(3) 2(5,6) by auto
qed

subsection \<open>Pop, unlink and push back\<close>

lemma priv_rep_count_pred:
  "(of_nat (length (xs @ m # ys)) :: u32) - 1 = of_nat (length (xs @ ys))"
  by simp

lemma unlink_rep:
  assumes "priv_rep h mb (xs @ m # ys)" and "mailbox_unlink h mb m = (h', mb')"
  shows "priv_rep h' mb' (xs @ ys) \<and> same_data h h' \<and> (\<forall>a. a \<notin> set (xs @ m # ys) \<longrightarrow> h' a = h a)
    \<and> (\<forall>a. sig_next (h' a) = sig_next (h a))
    \<and> sig_head mb' = sig_head mb \<and> mb_waiting mb' = mb_waiting mb"
  using assms
  by (cases xs rule: rev_exhaust; cases ys)
     (auto simp: mailbox_unlink_def priv_rep_def dseg_append same_data_def last_or_append last_or_Cons
        Let_def split: if_splits)

lemma pop_first_rep:
  assumes "priv_rep h mb (m # ys)" and "mailbox_pop_first h mb = (h', mb', r)"
  shows "r = Some m \<and> priv_rep h' mb' ys \<and> same_data h h' \<and> (\<forall>a. a \<notin> set (m # ys) \<longrightarrow> h' a = h a)
    \<and> (\<forall>a. sig_next (h' a) = sig_next (h a))
    \<and> sig_head mb' = sig_head mb \<and> mb_waiting mb' = mb_waiting mb"
  using assms
  by (cases ys) (auto simp: mailbox_pop_first_def priv_rep_def same_data_def last_or_Cons Let_def)

lemma pop_first_empty: "priv_rep h mb [] \<Longrightarrow> mailbox_pop_first h mb = (h, mb, None)"
  by (simp add: mailbox_pop_first_def priv_rep_def)

lemma push_front_rep:
  assumes "priv_rep h mb xs" "m \<notin> set xs" and "mailbox_push_front h mb m = (h', mb')"
  shows "priv_rep h' mb' (m # xs) \<and> same_data h h' \<and> (\<forall>a. sig_next (h' a) = sig_next (h a))
    \<and> sig_head mb' = sig_head mb \<and> mb_waiting mb' = mb_waiting mb"
  using assms
  by (cases xs) (auto simp: mailbox_push_front_def priv_rep_def same_data_def last_or_Cons Let_def)

lemma scan_tagged_rep:
  "dseg h p xs None \<Longrightarrow>
     scan_tagged h tag (first_or xs None) = Some (find (\<lambda>a. msg_tag (h a) = tag) xs)"
proof (induction xs arbitrary: p)
  case Nil
  then show ?case by (simp add: scan_tagged.simps)
next
  case (Cons x xs)
  then show ?case by (subst scan_tagged.simps) auto
qed

lemma find_SomeE:
  assumes "find P xs = Some x"
  obtains ys zs where "xs = ys @ x # zs" "\<forall>y\<in>set ys. \<not> P y" "P x"
    "remove_first P xs = ys @ zs"
  using assms
proof (induction xs arbitrary: thesis)
  case (Cons a xs)
  show ?case
  proof (cases "P a")
    case True
    then show ?thesis using Cons.prems by (intro Cons.prems(1) [of "[]" xs]) auto
  next
    case False
    then have "find P xs = Some x" using Cons.prems by simp
    then obtain ys zs where "xs = ys @ x # zs" "\<forall>y\<in>set ys. \<not> P y" "P x"
        "remove_first P xs = ys @ zs"
      using Cons.IH by blast
    then show ?thesis using False by (intro Cons.prems(1) [of "a # ys" zs]) auto
  qed
qed simp

lemma pop_tagged_rep:
  assumes "priv_rep h mb xs"
  shows "\<exists>h' mb'. mailbox_pop_tagged h mb tag =
        Some (h', mb', find (\<lambda>a. msg_tag (h a) = tag) xs)
      \<and> priv_rep h' mb' (remove_first (\<lambda>a. msg_tag (h a) = tag) xs) \<and> same_data h h'
      \<and> (\<forall>a. a \<notin> set xs \<longrightarrow> h' a = h a)
      \<and> (\<forall>a. sig_next (h' a) = sig_next (h a)) \<and> sig_head mb' = sig_head mb
      \<and> mb_waiting mb' = mb_waiting mb"
proof -
  let ?P = "\<lambda>a. msg_tag (h a) = tag"
  have s: "scan_tagged h tag (priv_head mb) = Some (find ?P xs)"
    using scan_tagged_rep [of h None xs tag] assms by (simp add: priv_rep_def)
  show ?thesis
  proof (cases "find ?P xs")
    case None
    then have "remove_first ?P xs = xs" by (intro remove_first_id) (simp add: find_None_iff)
    then show ?thesis using s None assms by (simp add: mailbox_pop_tagged_def)
  next
    case (Some m)
    then obtain ys zs where x: "xs = ys @ m # zs" "remove_first ?P xs = ys @ zs"
      by (rule find_SomeE)
    obtain h' mb' where u: "mailbox_unlink h mb m = (h', mb')" by fastforce
    show ?thesis
      using unlink_rep [OF _ u, of ys zs] assms x u s Some by (simp add: mailbox_pop_tagged_def)
  qed
qed

section \<open>A mailbox with its senders and its receiver\<close>

text \<open>
  The mailbox of one process together with the free lists of the threads that send to it and
  receive from it. \<open>ms_alloc\<close> is the set of addresses that \<^verbatim>\<open>malloc\<close> has handed out and that
  have not been freed; the nodes move between the free lists of different threads.
\<close>

record 'p mb_sys =
  ms_heap :: "'p msg_heap"
  ms_pool :: "nat \<Rightarrow> msg_pool"
  ms_alloc :: "addr set"
  ms_mb :: sw_mailbox

type_synonym 'p mdat = "u64 \<times> 'p option \<times> u64"

text \<open>The part of \<^verbatim>\<open>sw_send\<close>, \<^verbatim>\<open>sw_send_tagged\<close> and \<^verbatim>\<open>deliver_signal\<close> that builds and pushes a message.\<close>

definition post_msg ::
  "nat \<Rightarrow> (addr option \<times> bool) list \<Rightarrow> addr \<Rightarrow> 'p mdat \<Rightarrow> 'p mb_sys \<Rightarrow> 'p mb_sys" where
  "post_msg t olds fresh d s =
     (let (pool, m) = msg_alloc fresh (ms_heap s) (ms_pool s t);
          (tag, payload, from) = d;
          h = (ms_heap s)(m := (ms_heap s m)\<lparr>msg_tag := tag, msg_payload := payload, msg_from := from,
                                            msg_next := None, msg_prev := None\<rparr>);
          (h, mb) = mailbox_push olds m h (ms_mb s)
      in s\<lparr>ms_heap := h, ms_pool := (ms_pool s)(t := pool), ms_alloc := insert m (ms_alloc s),
           ms_mb := mb\<rparr>)"

text \<open>The part of the receive functions that reads a popped message and frees its node.\<close>

definition consume_msg :: "nat \<Rightarrow> addr \<Rightarrow> 'p mb_sys \<Rightarrow> 'p mb_sys \<times> 'p mdat" where
  "consume_msg t m s =
     (let (h, pool, freed) = msg_free (ms_heap s) (ms_pool s t) m
      in (s\<lparr>ms_heap := h, ms_pool := (ms_pool s)(t := pool),
            ms_alloc := (if freed then ms_alloc s - {m} else ms_alloc s)\<rparr>, mdata (ms_heap s m)))"

definition take_first :: "nat \<Rightarrow> 'p mb_sys \<Rightarrow> 'p mb_sys \<times> 'p mdat option" where
  "take_first t s =
     (case mailbox_pop_first (ms_heap s) (ms_mb s) of
        (h, mb, None) \<Rightarrow> (s\<lparr>ms_heap := h, ms_mb := mb\<rparr>, None)
      | (h, mb, Some m) \<Rightarrow> apsnd Some (consume_msg t m (s\<lparr>ms_heap := h, ms_mb := mb\<rparr>)))"

definition take_tagged :: "nat \<Rightarrow> u64 \<Rightarrow> 'p mb_sys \<Rightarrow> ('p mb_sys \<times> 'p mdat option) option" where
  "take_tagged t tag s =
     (case mailbox_pop_tagged (ms_heap s) (ms_mb s) tag of
        None \<Rightarrow> None
      | Some (h, mb, None) \<Rightarrow> Some (s\<lparr>ms_heap := h, ms_mb := mb\<rparr>, None)
      | Some (h, mb, Some m) \<Rightarrow> Some (apsnd Some (consume_msg t m (s\<lparr>ms_heap := h, ms_mb := mb\<rparr>))))"

definition drain_sys :: "'p mb_sys \<Rightarrow> 'p mb_sys option" where
  "drain_sys s =
     map_option (\<lambda>(h, mb). s\<lparr>ms_heap := h, ms_mb := mb\<rparr>) (mailbox_drain (ms_heap s) (ms_mb s))"

datatype 'p mb_op =
    Op_send nat "(addr option \<times> bool) list" addr "'p mdat"
  | Op_drain
  | Op_recv nat
  | Op_recv_tagged nat u64

fun mb_exec1 :: "'p mb_op \<Rightarrow> 'p mb_sys \<Rightarrow> ('p mb_sys \<times> 'p mdat option) option" where
  "mb_exec1 (Op_send t olds fresh d) s =
     (if fresh \<in> ms_alloc s then None else Some (post_msg t olds fresh d s, None))"
| "mb_exec1 Op_drain s = map_option (\<lambda>s'. (s', None)) (drain_sys s)"
| "mb_exec1 (Op_recv t) s = Some (take_first t s)"
| "mb_exec1 (Op_recv_tagged t tag) s = take_tagged t tag s"

text \<open>The specification: two lists of message contents.\<close>

fun aq_step :: "'p mb_op \<Rightarrow> 'p mdat list \<times> 'p mdat list \<Rightarrow> ('p mdat list \<times> 'p mdat list) \<times> 'p mdat option" where
  "aq_step (Op_send t olds fresh d) (sg, pv) = ((d # sg, pv), None)"
| "aq_step Op_drain (sg, pv) = (([], pv @ rev sg), None)"
| "aq_step (Op_recv t) (sg, pv) = (case pv of [] \<Rightarrow> ((sg, pv), None) | d # ds \<Rightarrow> ((sg, ds), Some d))"
| "aq_step (Op_recv_tagged t tag) (sg, pv) =
     ((sg, remove_first (\<lambda>d. fst d = tag) pv), find (\<lambda>d. fst d = tag) pv)"

text \<open>Well-formedness: the mailbox and the free lists are disjoint chains of allocated nodes.\<close>

definition pool_rep :: "'p msg_heap \<Rightarrow> msg_pool \<Rightarrow> addr list \<Rightarrow> bool" where
  "pool_rep h pool fs \<longleftrightarrow> chain (msg_next \<circ> h) (tls_msg_free pool) fs \<and> distinct fs
     \<and> tls_msg_free_count pool = length fs \<and> length fs \<le> MSG_FREELIST_MAX"

definition sys_rep :: "'p mb_sys \<Rightarrow> addr list \<Rightarrow> addr list \<Rightarrow> (nat \<Rightarrow> addr list) \<Rightarrow> bool" where
  "sys_rep s sigs privs fl \<longleftrightarrow>
     mb_rep (ms_heap s) (ms_mb s) sigs privs \<and> (\<forall>t. pool_rep (ms_heap s) (ms_pool s t) (fl t))
     \<and> (\<forall>t. set (fl t) \<inter> (set sigs \<union> set privs) = {}) \<and> (\<forall>t u. t \<noteq> u \<longrightarrow> set (fl t) \<inter> set (fl u) = {})
     \<and> set sigs \<union> set privs \<subseteq> ms_alloc s \<and> (\<forall>t. set (fl t) \<subseteq> ms_alloc s)"

text \<open>The abstraction relation between the pointer-level mailbox and the two lists of contents.\<close>

definition mb_abs :: "'p mb_sys \<Rightarrow> 'p mdat list \<times> 'p mdat list \<Rightarrow> bool" where
  "mb_abs s q \<longleftrightarrow> (\<exists>sigs privs fl. sys_rep s sigs privs fl
     \<and> q = (map (mdata \<circ> ms_heap s) sigs, map (mdata \<circ> ms_heap s) privs))"

lemma pool_rep_frame:
  assumes "pool_rep h pool fs" "\<And>a. a \<in> set fs \<Longrightarrow> h' a = h a"
  shows "pool_rep h' pool fs"
proof -
  have "chain (msg_next \<circ> h') (tls_msg_free pool) fs"
    by (rule chain_upd [of "msg_next \<circ> h"]) (use assms in \<open>auto simp: pool_rep_def comp_def\<close>)
  then show ?thesis using assms(1) by (simp add: pool_rep_def)
qed

lemma mb_rep_frame:
  assumes "mb_rep h mb sigs privs" "\<And>a. a \<in> set sigs \<union> set privs \<Longrightarrow> h' a = h a"
  shows "mb_rep h' mb sigs privs"
proof -
  have "chain (sig_next \<circ> h') (sig_head mb) sigs"
    by (rule chain_upd [of "sig_next \<circ> h"]) (use assms in \<open>auto simp: mb_rep_def comp_def\<close>)
  moreover have "priv_rep h' mb privs"
    by (rule priv_rep_cong [of h mb]) (use assms in \<open>auto simp: mb_rep_def\<close>)
  ultimately show ?thesis using assms(1) by (simp add: mb_rep_def)
qed

text \<open>Where \<^const>\<open>msg_alloc\<close> finds its node: the head of the free list, or the fresh address.\<close>

lemma msg_alloc_cases:
  assumes "pool_rep h pool fs" "msg_alloc fresh h pool = (pool', m)"
  obtains (fresh) "fs = []" "m = fresh" "pool' = pool"
  | (reuse) fs' where "fs = m # fs'" "pool_rep h pool' fs'"
  using assms by (cases fs) (auto simp: msg_alloc_def pool_rep_def comp_def)

lemma msg_free_pool:
  assumes "pool_rep h pool fs" "m \<notin> set fs" "msg_free h pool m = (h', pool', freed)"
  shows "(\<forall>a. a \<noteq> m \<longrightarrow> h' a = h a) \<and> same_data h h'
    \<and> pool_rep h' pool' (if freed then fs else m # fs)"
proof -
  have "pool_rep (set_next h m x) pool fs" for x
    by (rule pool_rep_frame [OF assms(1)]) (use assms(2) in auto)
  then have "chain (msg_next \<circ> set_next h m x) (tls_msg_free pool) fs" for x by (simp add: pool_rep_def)
  then show ?thesis
    using assms by (auto simp: msg_free_def pool_rep_def comp_def split: if_splits)
qed

lemma sys_repD:
  assumes "sys_rep s sigs privs fl"
  shows "mb_rep (ms_heap s) (ms_mb s) sigs privs" "pool_rep (ms_heap s) (ms_pool s t) (fl t)"
    "a \<in> set (fl t) \<Longrightarrow> a \<notin> set sigs" "a \<in> set (fl t) \<Longrightarrow> a \<notin> set privs"
    "a \<in> set (fl t) \<Longrightarrow> u \<noteq> t \<Longrightarrow> a \<notin> set (fl u)" "a \<in> set (fl t) \<Longrightarrow> a \<in> ms_alloc s"
    "a \<in> set sigs \<Longrightarrow> a \<in> ms_alloc s" "a \<in> set privs \<Longrightarrow> a \<in> ms_alloc s"
proof -
  note r = assms [unfolded sys_rep_def]
  show "mb_rep (ms_heap s) (ms_mb s) sigs privs" "pool_rep (ms_heap s) (ms_pool s t) (fl t)"
    using r by simp_all
  show "a \<in> set (fl t) \<Longrightarrow> a \<notin> set sigs" "a \<in> set (fl t) \<Longrightarrow> a \<notin> set privs"
    using r by blast+
  show "a \<in> set (fl t) \<Longrightarrow> u \<noteq> t \<Longrightarrow> a \<notin> set (fl u)" using r by blast
  show "a \<in> set (fl t) \<Longrightarrow> a \<in> ms_alloc s" "a \<in> set sigs \<Longrightarrow> a \<in> ms_alloc s"
    "a \<in> set privs \<Longrightarrow> a \<in> ms_alloc s"
    using r by blast+
qed

lemma alloc_node:
  assumes r: "sys_rep s sigs privs fl" and fr: "fresh \<notin> ms_alloc s"
    and a: "msg_alloc fresh (ms_heap s) (ms_pool s t) = (pool, m)"
  shows "\<exists>fl'. m \<notin> set sigs \<union> set privs \<and> (\<forall>u. m \<notin> set (fl' u)) \<and> pool_rep (ms_heap s) pool (fl' t)
    \<and> (\<forall>u. u \<noteq> t \<longrightarrow> fl' u = fl u) \<and> set (fl' t) \<subseteq> set (fl t)"
proof -
  have pt: "pool_rep (ms_heap s) (ms_pool s t) (fl t)" using r by (simp add: sys_rep_def)
  show ?thesis
  proof (cases rule: msg_alloc_cases [OF pt a])
    case 1
    then show ?thesis using fr pt sys_repD(6-8) [OF r] by (intro exI [of _ fl]) auto
  next
    case (2 fs')
    have "m \<notin> set fs'" using pt 2(1) by (simp add: pool_rep_def)
    moreover have "m \<notin> set (fl u)" if "u \<noteq> t" for u using sys_repD(5) [OF r, of m t u] 2(1) that by simp
    moreover have "m \<notin> set sigs \<union> set privs" using sys_repD(3,4) [OF r, of m t] 2(1) by simp
    ultimately show ?thesis using 2 by (intro exI [of _ "fl(t := fs')"]) auto
  qed
qed

lemma post_msg_abs:
  assumes "mb_abs s (sg, pv)" "fresh \<notin> ms_alloc s"
  shows "mb_abs (post_msg t olds fresh d s) (d # sg, pv)"
proof -
  obtain sigs privs fl where r: "sys_rep s sigs privs fl"
      and q: "sg = map (mdata \<circ> ms_heap s) sigs" "pv = map (mdata \<circ> ms_heap s) privs"
    using assms(1) by (auto simp: mb_abs_def)
  obtain tag payload frm where d: "d = (tag, payload, frm)" by (cases d)
  obtain pool m where a: "msg_alloc fresh (ms_heap s) (ms_pool s t) = (pool, m)" by fastforce
  let ?h = "(ms_heap s)(m := (ms_heap s m)\<lparr>msg_tag := tag, msg_payload := payload, msg_from := frm,
                                          msg_next := None, msg_prev := None\<rparr>)"
  obtain h' mb' where pu: "mailbox_push olds m ?h (ms_mb s) = (h', mb')" by fastforce
  obtain fl' where m: "m \<notin> set sigs \<union> set privs" "\<forall>u. m \<notin> set (fl' u)"
      "pool_rep (ms_heap s) pool (fl' t)" "\<forall>u. u \<noteq> t \<longrightarrow> fl' u = fl u" "set (fl' t) \<subseteq> set (fl t)"
    using alloc_node [OF r assms(2) a] by blast
  have sub: "set (fl' u) \<subseteq> set (fl u)" for u using m(4,5) by (cases "u = t") auto
  have "mb_rep ?h (ms_mb s) sigs privs"
    by (rule mb_rep_frame [of "ms_heap s"]) (use r m(1) in \<open>auto simp: sys_rep_def\<close>)
  from push_rep [OF this _ _ pu] m(1)
  have p: "same_data ?h h'" "\<forall>a. a \<noteq> m \<longrightarrow> h' a = ms_heap s a" "mb_rep h' mb' (m # sigs) privs"
    by auto
  have s': "post_msg t olds fresh d s = s\<lparr>ms_heap := h', ms_pool := (ms_pool s)(t := pool),
      ms_alloc := insert m (ms_alloc s), ms_mb := mb'\<rparr>"
    using a pu d by (simp add: post_msg_def)
  have pools: "pool_rep h' (((ms_pool s)(t := pool)) u) (fl' u)" for u
    by (rule pool_rep_frame [of "ms_heap s"]) (use r m p(2) in \<open>auto simp: sys_rep_def\<close>)
  have "set (fl' u) \<inter> set (fl' v) = {}" if "u \<noteq> v" for u v
    using sys_repD(5) [OF r, of _ u v] sub [of u] sub [of v] that by (auto simp: disjoint_iff subset_iff)
  moreover have "set (fl' u) \<inter> (set (m # sigs) \<union> set privs) = {}" "set (fl' u) \<subseteq> insert m (ms_alloc s)" for u
    using sys_repD(3,4,6) [OF r, of _ u] sub [of u] m(2) by (auto simp: disjoint_iff subset_iff)
  ultimately have "sys_rep (post_msg t olds fresh d s) (m # sigs) privs fl'"
    using sys_repD(7,8) [OF r] p(3) pools unfolding sys_rep_def s' by auto
  moreover have "mdata (h' m) = d"
    using p(1) d by (simp add: same_data_def mdata_def)
  moreover have "sg = map (mdata \<circ> h') sigs" "pv = map (mdata \<circ> h') privs"
    unfolding q using p(2) m(1) by (auto simp: comp_def)
  ultimately show ?thesis
    unfolding mb_abs_def
    by (intro exI [of _ "m # sigs"] exI [of _ privs] exI [of _ fl']) (simp add: s')
qed

lemma drain_sys_abs:
  assumes "mb_abs s (sg, pv)"
  shows "\<exists>s'. drain_sys s = Some s' \<and> mb_abs s' ([], pv @ rev sg)"
proof -
  obtain sigs privs fl where r: "sys_rep s sigs privs fl"
      and q: "sg = map (mdata \<circ> ms_heap s) sigs" "pv = map (mdata \<circ> ms_heap s) privs"
    using assms by (auto simp: mb_abs_def)
  obtain h' mb' where d: "mailbox_drain (ms_heap s) (ms_mb s) = Some (h', mb')"
      "mb_rep h' mb' [] (privs @ rev sigs)" "same_data (ms_heap s) h'"
      "\<forall>a. a \<notin> set sigs \<union> set privs \<longrightarrow> h' a = ms_heap s a"
    using drain_rep [of "ms_heap s" "ms_mb s" sigs privs] r by (auto simp: sys_rep_def)
  let ?s = "s\<lparr>ms_heap := h', ms_mb := mb'\<rparr>"
  have "pool_rep h' (ms_pool s u) (fl u)" for u
    by (rule pool_rep_frame [of "ms_heap s"]) (use r d(4) in \<open>auto simp: sys_rep_def\<close>)
  then have "sys_rep ?s [] (privs @ rev sigs) fl" using r d by (auto simp: sys_rep_def)
  moreover have "map (mdata \<circ> h') xs = map (mdata \<circ> ms_heap s) xs" for xs
    using d(3) by (simp add: same_data_def)
  ultimately have "mb_abs ?s ([], pv @ rev sg)"
    unfolding mb_abs_def q
    by (intro exI [of _ "[]"] exI [of _ "privs @ rev sigs"] exI [of _ fl]) (simp add: rev_map)
  then show ?thesis using d(1) by (simp add: drain_sys_def)
qed

text \<open>Consuming a node that was just unlinked from the private queue.\<close>

lemma consume_abs:
  assumes "sys_rep s sigs privs fl" "mb_rep h mb sigs privs'" "same_data (ms_heap s) h"
    and "\<forall>a. a \<notin> set privs \<longrightarrow> sig_next (h a) = sig_next (ms_heap s a) \<and> h a = ms_heap s a"
    and "m \<in> set privs" "set privs' \<subseteq> set privs - {m}"
    and c: "consume_msg t m (s\<lparr>ms_heap := h, ms_mb := mb\<rparr>) = (s', d)"
  shows "mb_abs s' (map (mdata \<circ> ms_heap s) sigs, map (mdata \<circ> ms_heap s) privs') \<and> d = mdata (ms_heap s m)"
proof -
  obtain h' pool' freed where f: "msg_free h (ms_pool s t) m = (h', pool', freed)"
    by (metis prod_cases3)
  have pr: "pool_rep h (ms_pool s u) (fl u)" for u
    by (rule pool_rep_frame [of "ms_heap s"]) (use assms(1,4) in \<open>auto simp: sys_rep_def\<close>)
  have mf: "m \<notin> set (fl u)" for u using assms(1,5) by (auto simp: sys_rep_def)
  note fr = msg_free_pool [OF pr [of t] mf f]
  define fl' where "fl' = fl(t := if freed then fl t else m # fl t)"
  have s': "s' = s\<lparr>ms_heap := h', ms_mb := mb, ms_pool := (ms_pool s)(t := pool'),
      ms_alloc := (if freed then ms_alloc s - {m} else ms_alloc s)\<rparr>" "d = mdata (h m)"
    using c f by (auto simp: consume_msg_def)
  have pools: "pool_rep h' (((ms_pool s)(t := pool')) u) (fl' u)" for u
  proof (cases "u = t")
    case True
    then show ?thesis using fr by (simp add: fl'_def)
  next
    case False
    then show ?thesis
      using fr mf [of u] by (auto simp: fl'_def intro!: pool_rep_frame [OF pr])
  qed
  have ms: "m \<notin> set sigs" using assms(1,5) by (auto simp: sys_rep_def mb_rep_def)
  have "mb_rep h' mb sigs privs'"
    by (rule mb_rep_frame [OF assms(2)]) (use fr ms assms(6) in auto)
  moreover have "set (fl' u) \<subseteq> insert m (set (fl u))" "u \<noteq> t \<Longrightarrow> set (fl' u) = set (fl u)" for u
    by (auto simp: fl'_def)
  moreover have "freed \<Longrightarrow> fl' = fl" by (simp add: fl'_def)
  ultimately have "sys_rep s' sigs privs' fl'"
    using assms(1,5,6) pools mf ms unfolding sys_rep_def s'(1)
    by (auto simp: disjoint_iff subset_iff; metis)
  moreover have "mdata \<circ> h' = mdata \<circ> ms_heap s"
    using assms(3) fr by (auto simp: same_data_def)
  moreover have "mdata (h m) = mdata (ms_heap s m)" using assms(3) by (simp add: same_data_def)
  ultimately show ?thesis unfolding mb_abs_def s'(2)
    by (intro conjI exI [of _ sigs] exI [of _ privs'] exI [of _ fl']) (simp_all add: s'(1))
qed

lemma take_first_abs:
  assumes "mb_abs s (sg, pv)" "take_first t s = (s', r)"
  shows "mb_abs s' (sg, tl pv) \<and> r = (if pv = [] then None else Some (hd pv))"
proof -
  obtain sigs privs fl where rep: "sys_rep s sigs privs fl"
      and q: "sg = map (mdata \<circ> ms_heap s) sigs" "pv = map (mdata \<circ> ms_heap s) privs"
    using assms(1) by (auto simp: mb_abs_def)
  note mb = sys_repD(1) [OF rep]
  show ?thesis
  proof (cases privs)
    case Nil
    then have "take_first t s = (s, None)"
      using pop_first_empty [of "ms_heap s" "ms_mb s"] mb by (simp add: take_first_def mb_rep_def)
    then show ?thesis using assms q Nil by auto
  next
    case (Cons m ms)
    obtain h mb' r' where p: "mailbox_pop_first (ms_heap s) (ms_mb s) = (h, mb', r')" by (metis prod_cases3)
    note pr = pop_first_rep [OF _ p, of m ms]
    have pr': "r' = Some m" "priv_rep h mb' ms" "same_data (ms_heap s) h"
        "\<forall>a. a \<notin> set privs \<longrightarrow> h a = ms_heap s a" "\<forall>a. sig_next (h a) = sig_next (ms_heap s a)"
        "sig_head mb' = sig_head (ms_mb s)"
      using pr mb Cons by (auto simp: mb_rep_def)
    have "chain (sig_next \<circ> h) (sig_head mb') sigs"
      by (rule chain_upd [of "sig_next \<circ> ms_heap s"]) (use mb pr' in \<open>auto simp: mb_rep_def comp_def\<close>)
    then have rep': "mb_rep h mb' sigs ms" using mb pr' Cons by (auto simp: mb_rep_def)
    obtain s'' d where c: "consume_msg t m (s\<lparr>ms_heap := h, ms_mb := mb'\<rparr>) = (s'', d)" by (rule prod.exhaust)
    have "distinct privs" using mb by (simp add: mb_rep_def priv_rep_def)
    then have "mb_abs s'' (map (mdata \<circ> ms_heap s) sigs, map (mdata \<circ> ms_heap s) ms)
        \<and> d = mdata (ms_heap s m)"
      using pr' Cons by (intro consume_abs [OF rep rep' pr'(3) _ _ _ c]) auto
    moreover have "take_first t s = (s'', Some d)" using p pr'(1) c by (simp add: take_first_def)
    ultimately show ?thesis using assms(2) q Cons by simp
  qed
qed

lemma find_map_mdata:
  "find (\<lambda>d. fst d = tag) (map (mdata \<circ> h) xs) = map_option (mdata \<circ> h) (find (\<lambda>a. msg_tag (h a) = tag) xs)"
  by (induction xs) (auto simp: mdata_def)

lemma remove_first_map_mdata:
  "remove_first (\<lambda>d. fst d = tag) (map (mdata \<circ> h) xs) = map (mdata \<circ> h) (remove_first (\<lambda>a. msg_tag (h a) = tag) xs)"
  by (induction xs) (auto simp: mdata_def)

lemma take_tagged_abs:
  assumes "mb_abs s (sg, pv)"
  shows "\<exists>s'. take_tagged t tag s = Some (s', find (\<lambda>d. fst d = tag) pv)
    \<and> mb_abs s' (sg, remove_first (\<lambda>d. fst d = tag) pv)"
proof -
  obtain sigs privs fl where rep: "sys_rep s sigs privs fl"
      and q: "sg = map (mdata \<circ> ms_heap s) sigs" "pv = map (mdata \<circ> ms_heap s) privs"
    using assms by (auto simp: mb_abs_def)
  note mb = sys_repD(1) [OF rep]
  let ?P = "\<lambda>a. msg_tag (ms_heap s a) = tag"
  obtain h mb' where p: "mailbox_pop_tagged (ms_heap s) (ms_mb s) tag = Some (h, mb', find ?P privs)"
      "priv_rep h mb' (remove_first ?P privs)" "same_data (ms_heap s) h"
      "\<forall>a. a \<notin> set privs \<longrightarrow> h a = ms_heap s a" "\<forall>a. sig_next (h a) = sig_next (ms_heap s a)"
      "sig_head mb' = sig_head (ms_mb s)"
    using pop_tagged_rep [of "ms_heap s" "ms_mb s" privs tag] mb by (auto simp: mb_rep_def)
  have "chain (sig_next \<circ> h) (sig_head mb') sigs"
    by (rule chain_upd [of "sig_next \<circ> ms_heap s"]) (use mb p in \<open>auto simp: mb_rep_def comp_def\<close>)
  then have rep': "mb_rep h mb' sigs (remove_first ?P privs)"
    using mb p set_remove_first_subset [of ?P privs] by (auto simp: mb_rep_def)
  have dp: "distinct privs" using mb by (simp add: mb_rep_def priv_rep_def)
  show ?thesis
  proof (cases "find ?P privs")
    case None
    then have "remove_first ?P privs = privs" by (intro remove_first_id) (simp add: find_None_iff)
    moreover have "pool_rep h (ms_pool s u) (fl u)" for u
      by (rule pool_rep_frame [OF sys_repD(2) [OF rep]]) (use p(4) sys_repD(4) [OF rep, of _ u] in auto)
    ultimately have "sys_rep (s\<lparr>ms_heap := h, ms_mb := mb'\<rparr>) sigs privs fl"
      using rep rep' by (simp add: sys_rep_def)
    moreover have "mdata \<circ> h = mdata \<circ> ms_heap s" using p(3) by (auto simp: same_data_def)
    ultimately have "mb_abs (s\<lparr>ms_heap := h, ms_mb := mb'\<rparr>) (sg, pv)"
      unfolding mb_abs_def q by (intro exI [of _ sigs] exI [of _ privs] exI [of _ fl]) simp
    then show ?thesis
      using p(1) None \<open>remove_first ?P privs = privs\<close>
      by (simp add: take_tagged_def q find_map_mdata remove_first_map_mdata)
  next
    case (Some m)
    then obtain ys zs where x: "privs = ys @ m # zs" "remove_first ?P privs = ys @ zs"
      by (rule find_SomeE)
    obtain s' d where c: "consume_msg t m (s\<lparr>ms_heap := h, ms_mb := mb'\<rparr>) = (s', d)" by (rule prod.exhaust)
    have "mb_abs s' (map (mdata \<circ> ms_heap s) sigs, map (mdata \<circ> ms_heap s) (remove_first ?P privs))
        \<and> d = mdata (ms_heap s m)"
      using p x dp by (intro consume_abs [OF rep rep' p(3) _ _ _ c]) auto
    then show ?thesis
      using p(1) c Some by (simp add: take_tagged_def q find_map_mdata remove_first_map_mdata)
  qed
qed

section \<open>The interface to the receive functions\<close>

text \<open>
  A history of mailbox operations by any number of sending threads and the receiver. An operation
  that is not enabled (a send for which \<^verbatim>\<open>malloc\<close> would have to return an address that is in
  use) does not happen. The history records what was sent and what was received.
\<close>

datatype 'd mb_event = Sent 'd | Got 'd

fun op_events :: "'p mb_op \<Rightarrow> 'p mdat option \<Rightarrow> 'p mdat mb_event list" where
  "op_events (Op_send t olds fresh d) r = [Sent d]"
| "op_events op None = []"
| "op_events op (Some d) = [Got d]"

fun mb_run :: "('p mb_op \<Rightarrow> 's \<Rightarrow> ('s \<times> 'p mdat option) option) \<Rightarrow> ('p mb_op \<Rightarrow> 's \<Rightarrow> bool)
  \<Rightarrow> 'p mb_op list \<Rightarrow> 's \<Rightarrow> ('s \<times> 'p mdat mb_event list) option" where
  "mb_run exec enabled [] s = Some (s, [])"
| "mb_run exec enabled (op # ops) s =
     (if enabled op s then
        (case exec op s of
           None \<Rightarrow> None
         | Some (s', r) \<Rightarrow> map_option (apsnd (\<lambda>ev. op_events op r @ ev)) (mb_run exec enabled ops s'))
      else mb_run exec enabled ops s)"

fun sent_of :: "'d mb_event list \<Rightarrow> 'd list" where
  "sent_of [] = []"
| "sent_of (Sent d # es) = d # sent_of es"
| "sent_of (Got d # es) = sent_of es"

fun got_of :: "'d mb_event list \<Rightarrow> 'd list" where
  "got_of [] = []"
| "got_of (Sent d # es) = got_of es"
| "got_of (Got d # es) = d # got_of es"

lemma sent_got_append [simp]:
  "sent_of (xs @ ys) = sent_of xs @ sent_of ys" "got_of (xs @ ys) = got_of xs @ got_of ys"
  by (induction xs rule: sent_of.induct) auto

definition of_tag :: "u64 \<Rightarrow> 'p mdat list \<Rightarrow> 'p mdat list" where
  "of_tag g ds = filter (\<lambda>d. fst d = g) ds"

definition queued :: "'p mdat list \<times> 'p mdat list \<Rightarrow> 'p mdat list" where
  "queued q = snd q @ rev (fst q)"

lemma of_tag_Nil_Cons [simp]:
  "of_tag g [] = []" "of_tag g (d # ds) = (if fst d = g then d # of_tag g ds else of_tag g ds)"
  by (simp_all add: of_tag_def)

lemma append_shift: "a @ b = c @ d \<Longrightarrow> d @ e = f @ g \<Longrightarrow> a @ b @ e = c @ f @ g"
  by (metis append_assoc)

lemma of_tag_append [simp]: "of_tag g (xs @ ys) = of_tag g xs @ of_tag g ys"
  by (simp add: of_tag_def)

lemma find_Some_P: "find P xs = Some x \<Longrightarrow> P x"
  by (erule find_SomeE)

lemma of_tag_remove_first:
  "of_tag g xs = of_tag g (case find (\<lambda>d. fst d = tag) xs of None \<Rightarrow> [] | Some d \<Rightarrow> [d])
     @ of_tag g (remove_first (\<lambda>d. fst d = tag) xs)"
  by (induction xs) (auto split: option.splits dest: find_Some_P)

text \<open>One step of the specification keeps the order of the messages with each tag.\<close>

lemma aq_step_of_tag:
  "of_tag g (queued q @ sent_of (op_events op (snd (aq_step op q))))
   = of_tag g (got_of (op_events op (snd (aq_step op q))) @ queued (fst (aq_step op q)))"
proof (cases "(op, q)" rule: aq_step.cases)
  case (4 t tag sg pv)
  then show ?thesis
    using of_tag_remove_first [of g pv tag]
    by (cases "find (\<lambda>d. fst d = tag) pv") (auto simp: queued_def)
qed (auto simp: queued_def split: list.splits)

lemma aq_step_queued:
  assumes "\<forall>t tag. op \<noteq> Op_recv_tagged t tag"
  shows "queued q @ sent_of (op_events op (snd (aq_step op q)))
    = got_of (op_events op (snd (aq_step op q))) @ queued (fst (aq_step op q))"
  using assms by (cases "(op, q)" rule: aq_step.cases) (auto simp: queued_def split: list.splits)

text \<open>
  What a client of the mailbox relies on: each operation that is enabled returns, and it acts on
  the message contents as the two-list specification does. Delivery in order follows once.
\<close>

locale fifo_mailbox =
  fixes exec :: "'p mb_op \<Rightarrow> 's \<Rightarrow> ('s \<times> 'p mdat option) option"
    and enabled :: "'p mb_op \<Rightarrow> 's \<Rightarrow> bool"
    and abs_rel :: "'s \<Rightarrow> 'p mdat list \<times> 'p mdat list \<Rightarrow> bool"
  assumes exec_sim: "abs_rel s q \<Longrightarrow> enabled op s \<Longrightarrow>
      \<exists>s'. exec op s = Some (s', snd (aq_step op q)) \<and> abs_rel s' (fst (aq_step op q))"
begin

lemma run_tag_order:
  "abs_rel s q \<Longrightarrow> \<exists>s' ev q'. mb_run exec enabled ops s = Some (s', ev) \<and> abs_rel s' q'
     \<and> (\<forall>g. of_tag g (queued q @ sent_of ev) = of_tag g (got_of ev @ queued q'))"
proof (induction ops arbitrary: s q)
  case (Cons op ops)
  show ?case
  proof (cases "enabled op s")
    case True
    then obtain s1 where s1: "exec op s = Some (s1, snd (aq_step op q))" "abs_rel s1 (fst (aq_step op q))"
      using exec_sim [OF Cons.prems] by blast
    obtain s' ev q' where r: "mb_run exec enabled ops s1 = Some (s', ev)" "abs_rel s' q'"
        "\<forall>g. of_tag g (queued (fst (aq_step op q)) @ sent_of ev) = of_tag g (got_of ev @ queued q')"
      using Cons.IH [OF s1(2)] by blast
    let ?e = "op_events op (snd (aq_step op q))"
    have "of_tag g (queued q @ sent_of (?e @ ev)) = of_tag g (got_of (?e @ ev) @ queued q')" for g
      using append_shift [OF aq_step_of_tag [of g q op, simplified] r(3) [rule_format, of g, simplified]]
      by simp
    then show ?thesis
      using True s1 r(1,2) by (intro exI [of _ s'] exI [of _ "?e @ ev"] exI [of _ q']) simp
  qed (use Cons in auto)
qed auto

lemma run_order:
  "abs_rel s q \<Longrightarrow> \<forall>op\<in>set ops. \<forall>t tag. op \<noteq> Op_recv_tagged t tag \<Longrightarrow>
     \<exists>s' ev q'. mb_run exec enabled ops s = Some (s', ev) \<and> abs_rel s' q'
     \<and> queued q @ sent_of ev = got_of ev @ queued q'"
proof (induction ops arbitrary: s q)
  case (Cons op ops)
  have op: "\<forall>t tag. op \<noteq> Op_recv_tagged t tag" and ops: "\<forall>op\<in>set ops. \<forall>t tag. op \<noteq> Op_recv_tagged t tag"
    using Cons.prems(2) by simp_all
  show ?case
  proof (cases "enabled op s")
    case True
    then obtain s1 where s1: "exec op s = Some (s1, snd (aq_step op q))" "abs_rel s1 (fst (aq_step op q))"
      using exec_sim [OF Cons.prems(1)] by blast
    obtain s' ev q' where r: "mb_run exec enabled ops s1 = Some (s', ev)" "abs_rel s' q'"
        "queued (fst (aq_step op q)) @ sent_of ev = got_of ev @ queued q'"
      using Cons.IH [OF s1(2) ops] by blast
    let ?e = "op_events op (snd (aq_step op q))"
    have "queued q @ sent_of (?e @ ev) = got_of (?e @ ev) @ queued q'"
      using append_shift [OF aq_step_queued [OF op, of q] r(3)] by simp
    then show ?thesis
      using True s1 r(1,2) by (intro exI [of _ s'] exI [of _ "?e @ ev"] exI [of _ q']) simp
  qed (use Cons.IH [OF Cons.prems(1) ops] in auto)
qed auto

end

fun mb_enabled :: "'p mb_op \<Rightarrow> 'p mb_sys \<Rightarrow> bool" where
  "mb_enabled (Op_send t olds fresh d) s \<longleftrightarrow> fresh \<notin> ms_alloc s"
| "mb_enabled _ s \<longleftrightarrow> True"

lemma mb_exec1_sim:
  assumes "mb_abs s q" "mb_enabled op s"
  shows "\<exists>s'. mb_exec1 op s = Some (s', snd (aq_step op q)) \<and> mb_abs s' (fst (aq_step op q))"
proof (cases "(op, q)" rule: aq_step.cases)
  case (1 t olds fresh d sg pv)
  then show ?thesis using assms post_msg_abs [of s sg pv fresh t olds d] by simp
next
  case (2 sg pv)
  then show ?thesis using assms drain_sys_abs [of s sg pv] by auto
next
  case (3 t sg pv)
  obtain s' r where "take_first t s = (s', r)" by (rule prod.exhaust)
  then show ?thesis using 3 assms take_first_abs [of s sg pv t s' r] by (auto split: list.splits)
next
  case (4 t tag sg pv)
  then show ?thesis using assms take_tagged_abs [of s sg pv t tag] by auto
qed

interpretation mbox: fifo_mailbox mb_exec1 mb_enabled mb_abs
  by unfold_locales (rule mb_exec1_sim)

text \<open>The mailbox of a fresh process, with empty free lists.\<close>

definition mb_start :: "'p mb_sys" where
  "mb_start = \<lparr>ms_heap = (\<lambda>_. \<lparr>msg_tag = 0, msg_payload = None, msg_from = 0, msg_next = None,
                               msg_prev = None, sig_next = None\<rparr>),
     ms_pool = (\<lambda>_. \<lparr>tls_msg_free = None, tls_msg_free_count = 0\<rparr>), ms_alloc = {},
     ms_mb = \<lparr>sig_head = None, priv_head = None, priv_tail = None, mb_waiting = False, mb_count = 0\<rparr>\<rparr>"

lemma mb_start_abs: "mb_abs mb_start ([], [])"
proof -
  have "sys_rep mb_start [] [] (\<lambda>_. [])"
    by (simp add: sys_rep_def mb_start_def mb_rep_def priv_rep_def pool_rep_def)
  then show ?thesis unfolding mb_abs_def by fastforce
qed

section \<open>Properties\<close>

text \<open>
  C2. Exactly-once delivery, in order per tag: for every history of sends (by any threads, with any
  failed compare-and-swap attempts), drains, plain receives and selective receives on a fresh
  mailbox, every operation returns, and for each tag the messages sent with it are, in the order
  they were pushed, the ones received followed by the ones still queued. Node reuse through the
  per-thread free lists never mixes messages up.
\<close>

theorem mailbox_exactly_once_in_order:
  "\<exists>s' ev sg pv. mb_run mb_exec1 mb_enabled ops mb_start = Some (s', ev) \<and> mb_abs s' (sg, pv)
     \<and> (of_tag g (sent_of ev) = of_tag g (got_of ev) @ of_tag g (pv @ rev sg))"
  using mbox.run_tag_order [OF mb_start_abs, of ops] by (force simp: queued_def)

text \<open>
  Without selective receives the mailbox is first-in first-out across tags too: what was
  received is a prefix of what was sent, and the rest is still queued.
\<close>

theorem mailbox_fifo:
  assumes "\<forall>op\<in>set ops. \<forall>t tag. op \<noteq> Op_recv_tagged t tag"
  shows "\<exists>s' ev sg pv. mb_run mb_exec1 mb_enabled ops mb_start = Some (s', ev)
     \<and> mb_abs s' (sg, pv) \<and> sent_of ev = got_of ev @ pv @ rev sg"
  using mbox.run_order [OF mb_start_abs assms] by (force simp: queued_def)

definition demo_ops :: "nat mb_op list" where
  "demo_ops = [Op_send 0 [] 7 (1, Some 10, 0), Op_send 1 [(None, True), (None, False)] 8 (2, Some 20, 0),
     Op_drain, Op_recv 2, Op_send 2 [] 9 (1, Some 30, 0), Op_drain, Op_recv 2]"

theorem mailbox_fifo_witness:
  "\<exists>s' ev sg pv. mb_run mb_exec1 mb_enabled demo_ops mb_start = Some (s', ev)
     \<and> mb_abs s' (sg, pv) \<and> sent_of ev = got_of ev @ pv @ rev sg"
  by (rule mailbox_fifo) (simp add: demo_ops_def)

text \<open>
  Selective receive takes the first message of the private queue with the wanted tag, leaves
  every other message in place and in order, and returns whatever the queue looks like.
\<close>

theorem take_tagged_refines:
  assumes "mb_abs s (sg, pv)"
  shows "\<exists>s'. take_tagged t tag s = Some (s', find (\<lambda>d. fst d = tag) pv)
    \<and> mb_abs s' (sg, remove_first (\<lambda>d. fst d = tag) pv)"
  using assms by (rule take_tagged_abs)

theorem take_tagged_refines_witness:
  "\<exists>s'. take_tagged 0 5 (mb_start :: nat mb_sys) = Some (s', find (\<lambda>d. fst d = 5) [])
    \<and> mb_abs s' ([], remove_first (\<lambda>d. fst d = 5) [])"
  by (rule take_tagged_refines [OF mb_start_abs])

end
