(* ===== verification/Runq.thy ===== *)
theory Runq
  imports Swarm_Prelude
begin

text \<open>
  The run queue of a scheduler in \<^verbatim>\<open>src/src/swarmrt_native.c\<close>: one intrusive multi-producer
  single-consumer queue per priority with a stub node, and the mutex-protected overflow queue that
  idle schedulers steal from. The operations are built from the atomic reads and writes of the C
  code; they are composed twice, into the whole functions and into an interleaving semantics in
  which producers and the consumer take turns between any two atomic accesses.
\<close>

section \<open>Nodes and atomic accesses\<close>

text \<open>A node of a queue is a process or the stub that the run queue keeps per priority.\<close>

datatype rq_node = PNode proc_ref | SNode nat

record sw_runq =
  rq_heads :: "nat \<Rightarrow> rq_node"
  rq_tails :: "nat \<Rightarrow> rq_node"
  rq_next :: "rq_node \<Rightarrow> rq_node option"
  rq_idle :: bool

definition set_rq_next :: "rq_node \<Rightarrow> rq_node option \<Rightarrow> sw_runq \<Rightarrow> sw_runq" where
  "set_rq_next n v rq = rq\<lparr>rq_next := (rq_next rq)(n := v)\<rparr>"

definition set_rq_head :: "nat \<Rightarrow> rq_node \<Rightarrow> sw_runq \<Rightarrow> sw_runq" where
  "set_rq_head prio n rq = rq\<lparr>rq_heads := (rq_heads rq)(prio := n)\<rparr>"

text \<open>\<^verbatim>\<open>atomic_exchange\<close> on the tail returns the old tail.\<close>

definition xchg_rq_tail :: "nat \<Rightarrow> rq_node \<Rightarrow> sw_runq \<Rightarrow> sw_runq \<times> rq_node" where
  "xchg_rq_tail prio n rq = (rq\<lparr>rq_tails := (rq_tails rq)(prio := n)\<rparr>, rq_tails rq prio)"

section \<open>The operations\<close>

definition runq_init :: sw_runq where
  "runq_init = \<lparr>rq_heads = SNode, rq_tails = SNode, rq_next = (\<lambda>_. None), rq_idle = False\<rparr>"

definition clamp_prio :: "nat \<Rightarrow> nat" where
  "clamp_prio prio = (if prio \<ge> SW_PRIO_NUM then SW_PRIO_NORMAL else prio)"

text \<open>The flag of the result is the signal to the scheduler's condition variable.\<close>

definition sw_add_to_runq :: "nat \<Rightarrow> proc_ref \<Rightarrow> sw_runq \<Rightarrow> sw_runq \<times> bool" where
  "sw_add_to_runq priority proc rq =
     (let prio = clamp_prio priority;
          rq = set_rq_next (PNode proc) None rq;
          (rq, prev) = xchg_rq_tail prio (PNode proc) rq;
          rq = set_rq_next prev (Some (PNode proc)) rq
      in (rq, rq_idle rq))"

text \<open>
  The spin loop of \<^verbatim>\<open>sw_pick_next\<close>: \<open>loads\<close> are the values that the (at most 100) loads of the
  head's link return; the first that is not null ends the loop.
\<close>

fun spin_link :: "rq_node option list \<Rightarrow> rq_node option" where
  "spin_link [] = None"
| "spin_link (None # ls) = spin_link ls"
| "spin_link (Some n # ls) = Some n"

definition SPIN_MAX :: nat where [const_simps]: "SPIN_MAX = 100"

text \<open>
  One iteration of the loop over the priorities; no other thread runs in between. \<open>pick_head\<close> is
  its part after the stub has been skipped.
\<close>

definition pick_head :: "nat \<Rightarrow> sw_runq \<Rightarrow> rq_node \<Rightarrow> rq_node option \<Rightarrow> sw_runq \<times> rq_node option" where
  "pick_head prio rq head nxt =
     (case nxt of
        Some n \<Rightarrow> (set_rq_head prio n rq, Some head)
      | None \<Rightarrow>
          if head \<noteq> rq_tails rq prio then
            (case spin_link (replicate SPIN_MAX (rq_next rq head)) of
               Some n \<Rightarrow> (set_rq_head prio n rq, Some head)
             | None \<Rightarrow> (rq, None))
          else
            let rq = set_rq_next (SNode prio) None rq;
                (rq, prev) = xchg_rq_tail prio (SNode prio) rq;
                rq = set_rq_next prev (Some (SNode prio)) rq
            in case rq_next rq head of
                 Some n \<Rightarrow> (set_rq_head prio n rq, Some head)
               | None \<Rightarrow> (rq, None))"

definition pick_prio :: "nat \<Rightarrow> sw_runq \<Rightarrow> sw_runq \<times> rq_node option" where
  "pick_prio prio rq =
     (let head = rq_heads rq prio;
          nxt = rq_next rq head
      in if head = SNode prio then
           (case nxt of
              None \<Rightarrow> (rq, None)
            | Some n \<Rightarrow> let rq = set_rq_head prio n rq in pick_head prio rq n (rq_next rq n))
         else pick_head prio rq head nxt)"

fun pick_from :: "nat list \<Rightarrow> sw_runq \<Rightarrow> sw_runq \<times> rq_node option" where
  "pick_from [] rq = (rq, None)"
| "pick_from (prio # prios) rq =
     (case pick_prio prio rq of
        (rq', Some n) \<Rightarrow> (rq', Some n)
      | (rq', None) \<Rightarrow> pick_from prios rq')"

definition sw_pick_next :: "sw_runq \<Rightarrow> sw_runq \<times> rq_node option" where
  "sw_pick_next rq = pick_from [0..<SW_PRIO_NUM] rq"

subsection \<open>The overflow queue\<close>

text \<open>
  A list linked through the same \<^verbatim>\<open>rq_next\<close> field and protected by a mutex, so each operation is
  one step.
\<close>

record overflow_rq =
  ov_head :: "proc_ref option"
  ov_tail :: "proc_ref option"
  ov_count :: u32
  ov_next :: "proc_ref \<Rightarrow> proc_ref option"

definition overflow_init :: overflow_rq where
  "overflow_init = \<lparr>ov_head = None, ov_tail = None, ov_count = 0, ov_next = (\<lambda>_. None)\<rparr>"

definition sw_steal_work :: "overflow_rq \<Rightarrow> overflow_rq \<times> proc_ref option" where
  "sw_steal_work ov =
     (case ov_head ov of
        None \<Rightarrow> (ov, None)
      | Some proc \<Rightarrow>
          let ov = ov\<lparr>ov_head := ov_next ov proc\<rparr>;
              ov = (if ov_head ov = None then ov\<lparr>ov_tail := None\<rparr> else ov);
              ov = ov\<lparr>ov_count := ov_count ov - 1, ov_next := (ov_next ov)(proc := None)\<rparr>
          in (ov, Some proc))"

definition overflow_rq_push :: "proc_ref \<Rightarrow> overflow_rq \<Rightarrow> overflow_rq" where
  "overflow_rq_push proc ov =
     (let ov = ov\<lparr>ov_next := (ov_next ov)(proc := None)\<rparr>;
          ov = (case ov_tail ov of
                  Some t \<Rightarrow> ov\<lparr>ov_next := (ov_next ov)(t := Some proc), ov_tail := Some proc\<rparr>
                | None \<Rightarrow> ov\<lparr>ov_head := Some proc, ov_tail := Some proc\<rparr>)
      in ov\<lparr>ov_count := ov_count ov + 1\<rparr>)"

section \<open>The shape of a run queue\<close>

text \<open>
  \<open>linked f w ns\<close>: the nodes \<open>ns\<close> are linked in order by \<open>f\<close>, except where a push is between its
  exchange and its store; \<open>w\<close> gives the link that such a push will store.
\<close>

fun linked :: "(rq_node \<Rightarrow> rq_node option) \<Rightarrow> (rq_node \<Rightarrow> rq_node option) \<Rightarrow> rq_node list \<Rightarrow> bool" where
  "linked f w [] \<longleftrightarrow> False"
| "linked f w [a] \<longleftrightarrow> f a = None \<and> w a = None"
| "linked f w (a # b # ns) \<longleftrightarrow>
     (f a = Some b \<and> w a = None \<or> f a = None \<and> w a = Some b) \<and> linked f w (b # ns)"

fun procs_of :: "rq_node list \<Rightarrow> proc_ref list" where
  "procs_of [] = []"
| "procs_of (PNode p # ns) = p # procs_of ns"
| "procs_of (SNode i # ns) = procs_of ns"

text \<open>The nodes of one priority level: only its own stub may occur among the processes.\<close>

definition level_ok :: "nat \<Rightarrow> rq_node list \<Rightarrow> bool" where
  "level_ok prio ns \<longleftrightarrow> distinct ns \<and> (\<forall>i. SNode i \<in> set ns \<longrightarrow> i = prio)"

definition rq_shape :: "sw_runq \<Rightarrow> (rq_node \<Rightarrow> rq_node option) \<Rightarrow> (nat \<Rightarrow> rq_node list) \<Rightarrow> bool" where
  "rq_shape rq w lv \<longleftrightarrow>
     (\<forall>prio<SW_PRIO_NUM. linked (rq_next rq) w (lv prio) \<and> level_ok prio (lv prio)
        \<and> hd (lv prio) = rq_heads rq prio \<and> last (lv prio) = rq_tails rq prio)
     \<and> (\<forall>i<SW_PRIO_NUM. \<forall>j<SW_PRIO_NUM. i \<noteq> j \<longrightarrow> set (lv i) \<inter> set (lv j) = {})"

lemma linked_nonempty: "linked f w ns \<Longrightarrow> ns \<noteq> []"
  by auto

lemma linked_cong:
  "(\<And>a. a \<in> set ns \<Longrightarrow> f' a = f a \<and> w' a = w a) \<Longrightarrow> linked f' w' ns = linked f w ns"
  by (induction f w ns rule: linked.induct) auto

lemma linked_frame:
  assumes "linked f w ns" "\<And>a. a \<in> set ns \<Longrightarrow> f' a = f a \<and> w' a = w a"
  shows "linked f' w' ns"
  using assms linked_cong [of ns f' f w' w] by blast

lemma linked_tail: "linked f w (a # b # ns) \<Longrightarrow> linked f w (b # ns)"
  by simp

lemma linked_last: "linked f w ns \<Longrightarrow> f (last ns) = None \<and> w (last ns) = None"
  by (induction f w ns rule: linked.induct) auto

text \<open>Exchanging the tail appends a node whose link is still to be stored.\<close>

lemma linked_exchange:
  assumes "linked f w ns" "distinct ns" "n \<notin> set ns" "f n = None" "w n = None"
  shows "linked f (w(last ns := Some n)) (ns @ [n])"
  using assms
proof (induction ns rule: induct_list012)
  case (3 a b ns)
  have c: "linked f w (b # ns)" "distinct (b # ns)" "n \<notin> set (b # ns)" using 3(3-5) by simp_all
  define l where "l = last (b # ns)"
  have l: "last (a # b # ns) = l" by (simp add: l_def)
  have "l \<in> set (b # ns)" unfolding l_def by (rule last_in_set) simp
  then have "a \<noteq> l" using 3(4) by auto
  then have "(w(l := Some n)) a = w a" by simp
  moreover have "linked f (w(l := Some n)) (b # (ns @ [n]))"
    using 3(2) [OF c 3(6,7)] unfolding l_def append_Cons .
  moreover have "f a = Some b \<and> w a = None \<or> f a = None \<and> w a = Some b" using 3(3) by simp
  ultimately show ?case unfolding l append_Cons linked.simps(3) by simp
qed auto

text \<open>Storing the link completes a push.\<close>

lemma linked_store:
  assumes "linked f w ns" "distinct ns" "w a = Some b" "a \<in> set ns"
  shows "linked (f(a := Some b)) (w(a := None)) ns"
  using assms
proof (induction ns rule: induct_list012)
  case (3 x y ns)
  show ?case
  proof (cases "a = x")
    case True
    have c: "linked f w (y # ns)" "a \<notin> set (y # ns)" using 3(3,4) True by simp_all
    have "linked (f(a := Some b)) (w(a := None)) (y # ns)"
      by (rule linked_frame [OF c(1)]) (use c(2) in auto)
    moreover have "y = b" using 3(3,5) True by simp
    ultimately show ?thesis unfolding linked.simps(3) using True by auto
  next
    case False
    have c: "linked f w (y # ns)" "distinct (y # ns)" "a \<in> set (y # ns)" using 3(3,4,6) False by auto
    have "linked (f(a := Some b)) (w(a := None)) (y # ns)" by (rule 3(2) [OF c(1,2) 3(5) c(3)])
    moreover have "f x = Some y \<and> w x = None \<or> f x = None \<and> w x = Some y" using 3(3) by simp
    ultimately show ?thesis unfolding linked.simps(3) using False by simp
  qed
qed auto

lemma procs_of_append [simp]: "procs_of (xs @ ys) = procs_of xs @ procs_of ys"
  by (induction xs rule: procs_of.induct) auto

lemma set_procs_of: "p \<in> set (procs_of ns) \<longleftrightarrow> PNode p \<in> set ns"
  by (induction ns rule: procs_of.induct) auto

lemma distinct_procs_of: "distinct ns \<Longrightarrow> distinct (procs_of ns)"
  by (induction ns rule: procs_of.induct) (auto simp: set_procs_of)

lemma level_ok_append:
  "level_ok prio ns \<Longrightarrow> n \<notin> set ns \<Longrightarrow> (\<forall>i. n = SNode i \<longrightarrow> i = prio) \<Longrightarrow> level_ok prio (ns @ [n])"
  by (auto simp: level_ok_def)

lemma level_ok_tail: "level_ok prio (a # ns) \<Longrightarrow> level_ok prio ns"
  by (auto simp: level_ok_def)

declare linked.simps(3) [simp del]

subsection \<open>What each atomic access does to the shape\<close>

lemma rq_shapeD:
  assumes "rq_shape rq w lv" "prio < SW_PRIO_NUM"
  shows "linked (rq_next rq) w (lv prio)" "level_ok prio (lv prio)" "distinct (lv prio)"
    "hd (lv prio) = rq_heads rq prio" "last (lv prio) = rq_tails rq prio" "lv prio \<noteq> []"
    "rq_tails rq prio \<in> set (lv prio)" "rq_heads rq prio \<in> set (lv prio)"
proof -
  show l: "linked (rq_next rq) w (lv prio)" "level_ok prio (lv prio)"
    "hd (lv prio) = rq_heads rq prio" "last (lv prio) = rq_tails rq prio"
    using assms by (simp_all add: rq_shape_def)
  show "distinct (lv prio)" using l(2) by (simp add: level_ok_def)
  show ne: "lv prio \<noteq> []" using l(1) by (rule linked_nonempty)
  show "rq_tails rq prio \<in> set (lv prio)" "rq_heads rq prio \<in> set (lv prio)"
    using l(3,4) ne last_in_set [of "lv prio"] hd_in_set [of "lv prio"] by simp_all
qed

lemma rq_shape_disj:
  "rq_shape rq w lv \<Longrightarrow> i < SW_PRIO_NUM \<Longrightarrow> j < SW_PRIO_NUM \<Longrightarrow> i \<noteq> j \<Longrightarrow> a \<in> set (lv i) \<Longrightarrow> a \<notin> set (lv j)"
  by (auto simp: rq_shape_def)

text \<open>The shape of the other levels is kept by whatever stays out of their nodes.\<close>

lemma rq_shape_update:
  assumes s: "rq_shape rq w lv" and p: "prio < SW_PRIO_NUM"
    and new: "linked (rq_next rq') w' ns" "level_ok prio ns" "hd ns = rq_heads rq' prio"
      "last ns = rq_tails rq' prio"
    and other: "\<And>j a. j < SW_PRIO_NUM \<Longrightarrow> j \<noteq> prio \<Longrightarrow> a \<in> set (lv j) \<Longrightarrow>
        rq_next rq' a = rq_next rq a \<and> w' a = w a \<and> a \<notin> set ns"
      "\<And>j. j < SW_PRIO_NUM \<Longrightarrow> j \<noteq> prio \<Longrightarrow> rq_heads rq' j = rq_heads rq j \<and> rq_tails rq' j = rq_tails rq j"
  shows "rq_shape rq' w' (lv(prio := ns))"
proof -
  have "linked (rq_next rq') w' (lv j)" if "j < SW_PRIO_NUM" "j \<noteq> prio" for j
    by (rule linked_frame [OF rq_shapeD(1) [OF s that(1)]]) (use other(1) [OF that] in simp)
  moreover have "set (lv i) \<inter> set (lv j) = {}" if "i < SW_PRIO_NUM" "j < SW_PRIO_NUM" "i \<noteq> j" for i j
    using s that by (simp add: rq_shape_def)
  moreover have "set ns \<inter> set (lv j) = {}" "set (lv j) \<inter> set ns = {}" if "j < SW_PRIO_NUM" "j \<noteq> prio" for j
    using other(1) [OF that] by blast+
  ultimately show ?thesis
    using new p rq_shapeD [OF s] other(2) by (simp add: rq_shape_def)
qed

definition in_runq :: "(nat \<Rightarrow> rq_node list) \<Rightarrow> rq_node \<Rightarrow> bool" where
  "in_runq lv n \<longleftrightarrow> (\<exists>prio<SW_PRIO_NUM. n \<in> set (lv prio))"

lemma shape_clear:
  assumes "rq_shape rq w lv" "\<not> in_runq lv n"
  shows "rq_shape (set_rq_next n None rq) w lv"
proof -
  have "linked ((rq_next rq)(n := None)) w (lv prio)" if "prio < SW_PRIO_NUM" for prio
    by (rule linked_frame [OF rq_shapeD(1) [OF assms(1) that]])
       (use assms(2) that in \<open>auto simp: in_runq_def\<close>)
  then show ?thesis using assms(1) by (simp add: rq_shape_def set_rq_next_def)
qed

lemma shape_exchange:
  assumes s: "rq_shape rq w lv" and p: "prio < SW_PRIO_NUM" and n: "\<not> in_runq lv n"
    and c: "rq_next rq n = None" "w n = None" "\<forall>i. n = SNode i \<longrightarrow> i = prio"
    and x: "xchg_rq_tail prio n rq = (rq', prev)"
  shows "rq_shape rq' (w(prev := Some n)) (lv(prio := lv prio @ [n]))" "prev = last (lv prio)"
    "rq_next rq' = rq_next rq" "rq_heads rq' = rq_heads rq" "rq_idle rq' = rq_idle rq"
proof -
  have n': "n \<notin> set (lv j)" if "j < SW_PRIO_NUM" for j using n that by (auto simp: in_runq_def)
  have r: "rq' = rq\<lparr>rq_tails := (rq_tails rq)(prio := n)\<rparr>" "prev = last (lv prio)"
    using x rq_shapeD(5) [OF s p] by (simp_all add: xchg_rq_tail_def)
  have pl: "prev \<in> set (lv prio)" using r(2) rq_shapeD(6) [OF s p] by simp
  show "rq_shape rq' (w(prev := Some n)) (lv(prio := lv prio @ [n]))"
  proof (rule rq_shape_update [OF s p])
    show "linked (rq_next rq') (w(prev := Some n)) (lv prio @ [n])"
      unfolding r using linked_exchange [OF rq_shapeD(1,3) [OF s p] n' [OF p] c(1,2)] by simp
    show "level_ok prio (lv prio @ [n])"
      using rq_shapeD(2) [OF s p] n' [OF p] c(3) by (rule level_ok_append)
    show "hd (lv prio @ [n]) = rq_heads rq' prio" using rq_shapeD(4,6) [OF s p] r by simp
    show "last (lv prio @ [n]) = rq_tails rq' prio" by (simp add: r)
    fix j a assume j: "j < SW_PRIO_NUM" "j \<noteq> prio" and a: "a \<in> set (lv j)"
    then have "a \<notin> set (lv prio)" using rq_shape_disj [OF s _ p] by blast
    then show "rq_next rq' a = rq_next rq a \<and> (w(prev := Some n)) a = w a \<and> a \<notin> set (lv prio @ [n])"
      using pl n' [OF j(1)] a by (auto simp: r(1))
  qed (simp add: r)
  show "prev = last (lv prio)" by (rule r(2))
  show "rq_next rq' = rq_next rq" "rq_heads rq' = rq_heads rq" "rq_idle rq' = rq_idle rq"
    by (simp_all add: r(1))
qed

lemma shape_store:
  assumes s: "rq_shape rq w lv" and a: "w a = Some b" "in_runq lv a"
  shows "rq_shape (set_rq_next a (Some b) rq) (w(a := None)) lv"
proof -
  obtain prio where p: "prio < SW_PRIO_NUM" "a \<in> set (lv prio)" using a(2) by (auto simp: in_runq_def)
  have "rq_shape (set_rq_next a (Some b) rq) (w(a := None)) (lv(prio := lv prio))"
  proof (rule rq_shape_update [OF s p(1)])
    show "linked (rq_next (set_rq_next a (Some b) rq)) (w(a := None)) (lv prio)"
      using linked_store [OF rq_shapeD(1,3) [OF s p(1)] a(1) p(2)] by (simp add: set_rq_next_def)
    fix j x assume j: "j < SW_PRIO_NUM" "j \<noteq> prio" "x \<in> set (lv j)"
    then have "x \<notin> set (lv prio)" using rq_shape_disj [OF s _ p(1)] by blast
    then show "rq_next (set_rq_next a (Some b) rq) x = rq_next rq x \<and> (w(a := None)) x = w x \<and> x \<notin> set (lv prio)"
      using p(2) by (auto simp: set_rq_next_def)
  qed (use rq_shapeD [OF s p(1)] in \<open>simp_all add: set_rq_next_def\<close>)
  then show ?thesis by simp
qed

lemma linked_next:
  assumes "linked f w (a # ns)" "f a = Some b"
  shows "\<exists>ns'. ns = b # ns' \<and> linked f w ns \<and> w a = None"
  using assms by (cases ns) (auto simp: linked.simps)

lemma shape_advance:
  assumes s: "rq_shape rq w lv" and p: "prio < SW_PRIO_NUM"
    and l: "lv prio = a # ns" "rq_next rq a = Some b"
  shows "rq_shape (set_rq_head prio b rq) w (lv(prio := ns)) \<and> hd ns = b \<and> ns \<noteq> [] \<and> w a = None"
proof -
  obtain ns' where n: "ns = b # ns'" "linked (rq_next rq) w ns" "w a = None"
    using linked_next [of "rq_next rq" w a ns b] rq_shapeD(1) [OF s p] l by auto
  have "rq_shape (set_rq_head prio b rq) w (lv(prio := ns))"
  proof (rule rq_shape_update [OF s p])
    show "level_ok prio ns" using rq_shapeD(2) [OF s p] l(1) by (simp add: level_ok_tail)
    fix j x assume j: "j < SW_PRIO_NUM" "j \<noteq> prio" "x \<in> set (lv j)"
    then show "rq_next (set_rq_head prio b rq) x = rq_next rq x \<and> w x = w x \<and> x \<notin> set ns"
      using rq_shape_disj [OF s j(1) p] l(1) by (auto simp: set_rq_head_def)
  qed (use n rq_shapeD(5) [OF s p] l(1) in \<open>simp_all add: set_rq_head_def\<close>)
  then show ?thesis using n by simp
qed

section \<open>The whole operations implement four lists\<close>

text \<open>Between operations no push is half done.\<close>

definition no_wait :: "rq_node \<Rightarrow> rq_node option" where
  "no_wait n = None"

definition rq_abs :: "sw_runq \<Rightarrow> (nat \<Rightarrow> proc_ref list) \<Rightarrow> bool" where
  "rq_abs rq q \<longleftrightarrow> (\<exists>lv. rq_shape rq no_wait lv \<and> (\<forall>prio. q prio = (if prio < SW_PRIO_NUM then procs_of (lv prio) else [])))"

lemma no_wait_store: "no_wait(a := Some b, a := None) = no_wait"
  by (auto simp: no_wait_def)

lemma clamp_prio_less: "clamp_prio prio < SW_PRIO_NUM"
  by (simp add: clamp_prio_def const_simps)

lemma runq_init_abs: "rq_abs runq_init (\<lambda>_. [])"
proof -
  have "rq_shape runq_init no_wait (\<lambda>prio. [SNode prio])"
    by (simp add: rq_shape_def runq_init_def no_wait_def level_ok_def)
  then show ?thesis unfolding rq_abs_def by (intro exI [of _ "\<lambda>prio. [SNode prio]"]) simp
qed

text \<open>The three accesses of a push, one after the other.\<close>

lemma shape_push:
  assumes s: "rq_shape rq no_wait lv" and p: "prio < SW_PRIO_NUM" and n: "\<not> in_runq lv n"
    and st: "\<forall>i. n = SNode i \<longrightarrow> i = prio"
    and x: "xchg_rq_tail prio n (set_rq_next n None rq) = (rq1, prev)"
  shows "rq_shape (set_rq_next prev (Some n) rq1) no_wait (lv(prio := lv prio @ [n]))"
    "prev = last (lv prio)" "rq_heads rq1 = rq_heads rq" "rq_idle rq1 = rq_idle rq"
proof -
  have s1: "rq_shape (set_rq_next n None rq) no_wait lv" by (rule shape_clear [OF s n])
  have n0: "rq_next (set_rq_next n None rq) n = None" "no_wait n = None"
    by (simp_all add: set_rq_next_def no_wait_def)
  note e = shape_exchange [OF s1 p n n0 st x]
  have "prev \<in> set (lv prio)" using e(2) rq_shapeD(6) [OF s p] by simp
  then have i: "in_runq (lv(prio := lv prio @ [n])) prev" using p by (auto simp: in_runq_def)
  have "(no_wait(prev := Some n)) prev = Some n" by simp
  from shape_store [OF e(1) this i]
  show "rq_shape (set_rq_next prev (Some n) rq1) no_wait (lv(prio := lv prio @ [n]))"
    unfolding no_wait_store .
  show "prev = last (lv prio)" by (rule e(2))
  show "rq_heads rq1 = rq_heads rq" "rq_idle rq1 = rq_idle rq"
    using e(4,5) by (simp_all add: set_rq_next_def)
qed

lemma add_abs:
  assumes "rq_abs rq q" "\<forall>prio. proc \<notin> set (q prio)"
  shows "rq_abs (fst (sw_add_to_runq prio proc rq))
      (q(clamp_prio prio := q (clamp_prio prio) @ [proc]))"
proof -
  obtain lv where lv: "rq_shape rq no_wait lv" "\<And>i. q i = (if i < SW_PRIO_NUM then procs_of (lv i) else [])"
    using assms(1) by (auto simp: rq_abs_def)
  let ?c = "clamp_prio prio" and ?n = "PNode proc"
  have n: "\<not> in_runq lv ?n" using assms(2) lv(2) by (auto simp: in_runq_def set_procs_of)
  obtain rq1 prev where x: "xchg_rq_tail ?c ?n (set_rq_next ?n None rq) = (rq1, prev)" by fastforce
  have "rq_shape (set_rq_next prev (Some ?n) rq1) no_wait (lv(?c := lv ?c @ [?n]))"
    using shape_push(1) [OF lv(1) clamp_prio_less n _ x] by blast
  moreover have "fst (sw_add_to_runq prio proc rq) = set_rq_next prev (Some ?n) rq1"
    using x by (simp add: sw_add_to_runq_def Let_def)
  ultimately show ?thesis
    unfolding rq_abs_def using lv(2) clamp_prio_less
    by (intro exI [of _ "lv(?c := lv ?c @ [?n])"]) auto
qed

text \<open>A level without a half-done push always gives up its first process.\<close>

lemma pick_head_shape:
  assumes s: "rq_shape rq no_wait lv" and p: "prio < SW_PRIO_NUM" and l: "lv prio = PNode a # ns"
  shows "\<exists>rq' ns'. pick_head prio rq (PNode a) (rq_next rq (PNode a)) = (rq', Some (PNode a))
    \<and> rq_shape rq' no_wait (lv(prio := ns')) \<and> procs_of ns' = procs_of ns"
proof (cases ns)
  case (Cons b bs)
  then have "rq_next rq (PNode a) = Some b"
    using rq_shapeD(1) [OF s p] l by (simp add: linked.simps no_wait_def)
  moreover from shape_advance [OF s p l this]
  have "rq_shape (set_rq_head prio b rq) no_wait (lv(prio := ns))" by simp
  ultimately show ?thesis by (auto simp: pick_head_def)
next
  case Nil
  let ?st = "SNode prio"
  have nx: "rq_next rq (PNode a) = None" "rq_tails rq prio = PNode a"
    using rq_shapeD(1,5) [OF s p] l Nil by simp_all
  have n: "\<not> in_runq lv ?st"
  proof
    assume "in_runq lv ?st"
    then obtain j where j: "j < SW_PRIO_NUM" "?st \<in> set (lv j)" by (auto simp: in_runq_def)
    then have "j = prio" using rq_shapeD(2) [OF s j(1)] by (auto simp: level_ok_def)
    then show False using j(2) l Nil by simp
  qed
  obtain rq1 prev where x: "xchg_rq_tail prio ?st (set_rq_next ?st None rq) = (rq1, prev)" by fastforce
  let ?rq2 = "set_rq_next prev (Some ?st) rq1"
  have sp: "rq_shape ?rq2 no_wait (lv(prio := lv prio @ [?st]))" "prev = PNode a"
    using shape_push(1,2) [OF s p n _ x] l Nil by (blast, simp)
  have l2: "(lv(prio := lv prio @ [?st])) prio = PNode a # [?st]" using l Nil by simp
  have n2: "rq_next ?rq2 (PNode a) = Some ?st" using sp(2) by (simp add: set_rq_next_def)
  have "rq_shape (set_rq_head prio ?st ?rq2) no_wait ((lv(prio := lv prio @ [?st]))(prio := [?st]))"
    using shape_advance [OF sp(1) p l2 n2] by blast
  then have "rq_shape (set_rq_head prio ?st ?rq2) no_wait (lv(prio := [?st]))" unfolding fun_upd_upd .
  moreover have "pick_head prio rq (PNode a) (rq_next rq (PNode a)) = (set_rq_head prio ?st ?rq2, Some (PNode a))"
    using nx x n2 by (simp add: pick_head_def Let_def)
  ultimately show ?thesis using Nil by auto
qed

lemma stub_free_level:
  "level_ok prio (SNode prio # ns) \<Longrightarrow> ns \<noteq> [] \<Longrightarrow> \<exists>a as. ns = PNode a # as"
  by (cases ns; cases "hd ns") (auto simp: level_ok_def)

lemma pick_prio_shape:
  assumes s: "rq_shape rq no_wait lv" and p: "prio < SW_PRIO_NUM"
  shows "case procs_of (lv prio) of
      [] \<Rightarrow> pick_prio prio rq = (rq, None)
    | a # as \<Rightarrow> \<exists>rq' ns'. pick_prio prio rq = (rq', Some (PNode a))
        \<and> rq_shape rq' no_wait (lv(prio := ns')) \<and> procs_of ns' = as"
proof -
  obtain h ns where l: "lv prio = h # ns" using rq_shapeD(6) [OF s p] by (cases "lv prio") auto
  have h: "rq_heads rq prio = h" using rq_shapeD(4) [OF s p] l by simp
  show ?thesis
  proof (cases h)
    case (PNode a)
    then show ?thesis
      using pick_head_shape [OF s p, of a ns] l h by (simp add: pick_prio_def Let_def)
  next
    case (SNode i)
    then have i: "h = SNode prio" using rq_shapeD(2) [OF s p] l by (simp add: level_ok_def)
    show ?thesis
    proof (cases "ns = []")
      case True
      then have "rq_next rq h = None" using rq_shapeD(1) [OF s p] l by simp
      then show ?thesis using True l i h by (simp add: pick_prio_def)
    next
      case False
      then obtain a as where ns: "ns = PNode a # as"
        using stub_free_level [of prio ns] rq_shapeD(2) [OF s p] l i by auto
      have nx: "rq_next rq h = Some (PNode a)"
        using rq_shapeD(1) [OF s p] l ns by (simp add: linked.simps no_wait_def)
      let ?rq = "set_rq_head prio (PNode a) rq"
      have s': "rq_shape ?rq no_wait (lv(prio := ns))" using shape_advance [OF s p l nx] by simp
      have "(lv(prio := ns)) prio = PNode a # as" using ns by simp
      then obtain rq' ns' where r: "pick_head prio ?rq (PNode a) (rq_next ?rq (PNode a)) = (rq', Some (PNode a))"
          "rq_shape rq' no_wait ((lv(prio := ns))(prio := ns'))" "procs_of ns' = procs_of as"
        using pick_head_shape [OF s' p] by blast
      have "pick_prio prio rq = (rq', Some (PNode a))" using r(1) i h nx by (simp add: pick_prio_def Let_def)
      then show ?thesis using r(2,3) l i ns unfolding fun_upd_upd by auto
    qed
  qed
qed

text \<open>The specification of \<^verbatim>\<open>sw_pick_next\<close>: the first process of the first level that has one.\<close>

fun pick_spec :: "nat list \<Rightarrow> (nat \<Rightarrow> proc_ref list) \<Rightarrow> (nat \<Rightarrow> proc_ref list) \<times> proc_ref option" where
  "pick_spec [] q = (q, None)"
| "pick_spec (prio # prios) q =
     (case q prio of [] \<Rightarrow> pick_spec prios q | p # ps \<Rightarrow> (q(prio := ps), Some p))"

lemma pick_from_abs:
  assumes "rq_abs rq q" "\<forall>prio\<in>set prios. prio < SW_PRIO_NUM"
  shows "\<exists>rq'. pick_from prios rq = (rq', map_option PNode (snd (pick_spec prios q)))
    \<and> rq_abs rq' (fst (pick_spec prios q))"
  using assms
proof (induction prios arbitrary: rq q)
  case (Cons prio prios)
  obtain lv where lv: "rq_shape rq no_wait lv" "\<And>i. q i = (if i < SW_PRIO_NUM then procs_of (lv i) else [])"
    using Cons.prems(1) by (auto simp: rq_abs_def)
  have p: "prio < SW_PRIO_NUM" using Cons.prems(2) by simp
  note ps = pick_prio_shape [OF lv(1) p]
  show ?case
  proof (cases "q prio")
    case Nil
    then have "pick_prio prio rq = (rq, None)" using ps lv(2) p by simp
    then show ?thesis using Cons Nil by simp
  next
    case (Cons a as)
    then obtain rq' ns' where r: "pick_prio prio rq = (rq', Some (PNode a))"
        "rq_shape rq' no_wait (lv(prio := ns'))" "procs_of ns' = as"
      using ps lv(2) p by auto
    have "rq_abs rq' (q(prio := as))"
      unfolding rq_abs_def using r(2,3) lv(2) p by (intro exI [of _ "lv(prio := ns')"]) auto
    moreover have "pick_spec (prio # prios) q = (q(prio := as), Some a)" using Cons by simp
    moreover have "pick_from (prio # prios) rq = (rq', Some (PNode a))" using r(1) by simp
    ultimately show ?thesis by (simp only: fst_conv snd_conv option.map prod.inject simp_thms ex_simps)
  qed
qed auto

section \<open>Producers and the consumer interleaved\<close>

text \<open>
  Every atomic access of \<^verbatim>\<open>sw_add_to_runq\<close> and \<^verbatim>\<open>sw_pick_next\<close> is a step of its own. The consumer's
  position in \<^verbatim>\<open>sw_pick_next\<close> carries its local variables; \<open>rw_cleared\<close> and \<open>rw_wait\<close> hold the
  producers that are before their exchange and before their final store. \<open>rw_lv\<close>, \<open>rw_in\<close> and
  \<open>rw_out\<close> record the order of the exchanges and of the returns.
\<close>

datatype pick_pc =
    Pick_idle
  | Pick_at nat
  | Pick_skipped nat rq_node
  | Pick_last_elem nat rq_node
  | Pick_spin nat rq_node nat
  | Pick_stub nat rq_node
  | Pick_xchg nat rq_node
  | Pick_link nat rq_node rq_node
  | Pick_check nat rq_node

record rq_world =
  rw_rq :: sw_runq
  rw_cleared :: "rq_node \<Rightarrow> nat option"
  rw_wait :: "rq_node \<Rightarrow> rq_node option"
  rw_pc :: pick_pc
  rw_lv :: "nat \<Rightarrow> rq_node list"
  rw_in :: "nat \<Rightarrow> proc_ref list"
  rw_out :: "nat \<Rightarrow> proc_ref list"

definition world_init :: rq_world where
  "world_init = \<lparr>rw_rq = runq_init, rw_cleared = (\<lambda>_. None), rw_wait = no_wait, rw_pc = Pick_idle,
     rw_lv = (\<lambda>prio. [SNode prio]), rw_in = (\<lambda>_. []), rw_out = (\<lambda>_. [])\<rparr>"

text \<open>The consumer returns the head: it advances past it.\<close>

definition pick_return :: "nat \<Rightarrow> rq_node \<Rightarrow> rq_node \<Rightarrow> rq_world \<Rightarrow> rq_world" where
  "pick_return prio head n s =
     s\<lparr>rw_rq := set_rq_head prio n (rw_rq s), rw_pc := Pick_idle,
       rw_lv := (rw_lv s)(prio := tl (rw_lv s prio)),
       rw_out := (rw_out s)(prio := rw_out s prio @ procs_of [head])\<rparr>"

text \<open>The \<^verbatim>\<open>continue\<close> of the loop over the priorities, or the final \<^verbatim>\<open>return NULL\<close>.\<close>

definition pick_continue :: "nat \<Rightarrow> rq_world \<Rightarrow> rq_world" where
  "pick_continue prio s = s\<lparr>rw_pc := (if Suc prio < SW_PRIO_NUM then Pick_at (Suc prio) else Pick_idle)\<rparr>"

inductive rq_step :: "rq_world \<Rightarrow> rq_world \<Rightarrow> bool" where
  add_clear: "rq_step s (s\<lparr>rw_rq := set_rq_next (PNode p) None (rw_rq s),
      rw_cleared := (rw_cleared s)(PNode p := Some (clamp_prio prio))\<rparr>)"
  if "\<not> in_runq (rw_lv s) (PNode p)" "rw_cleared s (PNode p) = None"
| add_exchange: "rq_step s (s\<lparr>rw_rq := rq', rw_cleared := (rw_cleared s)(n := None),
      rw_wait := (rw_wait s)(prev := Some n), rw_lv := (rw_lv s)(prio := rw_lv s prio @ [n]),
      rw_in := (rw_in s)(prio := rw_in s prio @ procs_of [n])\<rparr>)"
  if "rw_cleared s n = Some prio" "xchg_rq_tail prio n (rw_rq s) = (rq', prev)"
| add_link: "rq_step s (s\<lparr>rw_rq := set_rq_next a (Some (PNode p)) (rw_rq s), rw_wait := (rw_wait s)(a := None)\<rparr>)"
  if "rw_wait s a = Some (PNode p)"
| pick_start: "rq_step s (s\<lparr>rw_pc := Pick_at 0\<rparr>)" if "rw_pc s = Pick_idle"
| pick_empty: "rq_step s (pick_continue prio s)"
  if "rw_pc s = Pick_at prio" "rq_heads (rw_rq s) prio = SNode prio" "rq_next (rw_rq s) (SNode prio) = None"
| pick_skip: "rq_step s (s\<lparr>rw_rq := set_rq_head prio n (rw_rq s), rw_pc := Pick_skipped prio n,
      rw_lv := (rw_lv s)(prio := tl (rw_lv s prio))\<rparr>)"
  if "rw_pc s = Pick_at prio" "rq_heads (rw_rq s) prio = SNode prio" "rq_next (rw_rq s) (SNode prio) = Some n"
| pick_noskip: "rq_step s (s\<lparr>rw_pc := Pick_skipped prio head\<rparr>)"
  if "rw_pc s = Pick_at prio" "rq_heads (rw_rq s) prio = head" "head \<noteq> SNode prio"
| pick_take: "rq_step s (pick_return prio head n s)"
  if "rw_pc s = Pick_skipped prio head" "rq_next (rw_rq s) head = Some n"
| pick_no_next: "rq_step s (s\<lparr>rw_pc := Pick_last_elem prio head\<rparr>)"
  if "rw_pc s = Pick_skipped prio head" "rq_next (rw_rq s) head = None"
| pick_busy: "rq_step s (s\<lparr>rw_pc := Pick_spin prio head 0\<rparr>)"
  if "rw_pc s = Pick_last_elem prio head" "rq_tails (rw_rq s) prio \<noteq> head"
| pick_spin: "rq_step s (s\<lparr>rw_pc := Pick_spin prio head (Suc k)\<rparr>)"
  if "rw_pc s = Pick_spin prio head k" "k < SPIN_MAX" "rq_next (rw_rq s) head = None"
| pick_spin_out: "rq_step s (pick_continue prio s)"
  if "rw_pc s = Pick_spin prio head k" "\<not> k < SPIN_MAX"
| pick_spin_take: "rq_step s (pick_return prio head n s)"
  if "rw_pc s = Pick_spin prio head k" "k < SPIN_MAX" "rq_next (rw_rq s) head = Some n"
| pick_single: "rq_step s (s\<lparr>rw_pc := Pick_stub prio head\<rparr>)"
  if "rw_pc s = Pick_last_elem prio head" "rq_tails (rw_rq s) prio = head"
| pick_stub: "rq_step s (s\<lparr>rw_rq := set_rq_next (SNode prio) None (rw_rq s), rw_pc := Pick_xchg prio head\<rparr>)"
  if "rw_pc s = Pick_stub prio head"
| pick_exchange: "rq_step s (s\<lparr>rw_rq := rq', rw_pc := Pick_link prio head prev,
      rw_wait := (rw_wait s)(prev := Some (SNode prio)),
      rw_lv := (rw_lv s)(prio := rw_lv s prio @ [SNode prio])\<rparr>)"
  if "rw_pc s = Pick_xchg prio head" "xchg_rq_tail prio (SNode prio) (rw_rq s) = (rq', prev)"
| pick_store: "rq_step s (s\<lparr>rw_rq := set_rq_next prev (Some (SNode prio)) (rw_rq s),
      rw_wait := (rw_wait s)(prev := None), rw_pc := Pick_check prio head\<rparr>)"
  if "rw_pc s = Pick_link prio head prev"
| pick_check_take: "rq_step s (pick_return prio head n s)"
  if "rw_pc s = Pick_check prio head" "rq_next (rw_rq s) head = Some n"
| pick_check_fail: "rq_step s (pick_continue prio s)"
  if "rw_pc s = Pick_check prio head" "rq_next (rw_rq s) head = None"

inductive_cases rq_stepE: "rq_step s s'"

inductive rq_reach :: "rq_world \<Rightarrow> bool" where
  reach_init: "rq_reach world_init"
| reach_step: "rq_reach s \<Longrightarrow> rq_step s s' \<Longrightarrow> rq_reach s'"

subsection \<open>Invariant\<close>

text \<open>What the consumer knows at each position.\<close>

definition at_head :: "rq_world \<Rightarrow> nat \<Rightarrow> rq_node \<Rightarrow> bool" where
  "at_head s prio head \<longleftrightarrow> prio < SW_PRIO_NUM \<and> head = hd (rw_lv s prio) \<and> head \<noteq> SNode prio"

fun pc_ok :: "rq_world \<Rightarrow> pick_pc \<Rightarrow> bool" where
  "pc_ok s Pick_idle \<longleftrightarrow> True"
| "pc_ok s (Pick_at prio) \<longleftrightarrow> prio < SW_PRIO_NUM"
| "pc_ok s (Pick_skipped prio head) \<longleftrightarrow> at_head s prio head"
| "pc_ok s (Pick_last_elem prio head) \<longleftrightarrow> at_head s prio head"
| "pc_ok s (Pick_spin prio head k) \<longleftrightarrow> at_head s prio head"
| "pc_ok s (Pick_stub prio head) \<longleftrightarrow> at_head s prio head \<and> SNode prio \<notin> set (rw_lv s prio)"
| "pc_ok s (Pick_xchg prio head) \<longleftrightarrow> at_head s prio head \<and> SNode prio \<notin> set (rw_lv s prio)
     \<and> rq_next (rw_rq s) (SNode prio) = None"
| "pc_ok s (Pick_link prio head prev) \<longleftrightarrow> at_head s prio head \<and> rw_wait s prev = Some (SNode prio)"
| "pc_ok s (Pick_check prio head) \<longleftrightarrow> at_head s prio head"

text \<open>Producers between their clearing store and their exchange own their node.\<close>

definition cleared_ok :: "rq_world \<Rightarrow> bool" where
  "cleared_ok s \<longleftrightarrow> (\<forall>n prio. rw_cleared s n = Some prio \<longrightarrow> prio < SW_PRIO_NUM \<and> (\<exists>p. n = PNode p)
     \<and> \<not> in_runq (rw_lv s) n \<and> rq_next (rw_rq s) n = None)"

definition wait_ok :: "rq_world \<Rightarrow> bool" where
  "wait_ok s \<longleftrightarrow> (\<forall>a b. rw_wait s a = Some b \<longrightarrow> in_runq (rw_lv s) a
     \<and> (\<forall>i. b = SNode i \<longrightarrow> (\<exists>head. rw_pc s = Pick_link i head a)))"

definition order_ok :: "rq_world \<Rightarrow> bool" where
  "order_ok s \<longleftrightarrow> (\<forall>prio<SW_PRIO_NUM. rw_in s prio = rw_out s prio @ procs_of (rw_lv s prio))"

definition world_inv :: "rq_world \<Rightarrow> bool" where
  "world_inv s \<longleftrightarrow> rq_shape (rw_rq s) (rw_wait s) (rw_lv s) \<and> cleared_ok s \<and> wait_ok s
     \<and> order_ok s \<and> pc_ok s (rw_pc s)"

lemma world_invD:
  assumes "world_inv s"
  shows "rq_shape (rw_rq s) (rw_wait s) (rw_lv s)" "cleared_ok s" "wait_ok s" "order_ok s" "pc_ok s (rw_pc s)"
  using assms by (simp_all add: world_inv_def)

lemma stub_level:
  assumes "rq_shape rq w lv" "in_runq lv (SNode prio)"
  shows "prio < SW_PRIO_NUM \<and> SNode prio \<in> set (lv prio)"
proof -
  obtain j where j: "j < SW_PRIO_NUM" "SNode prio \<in> set (lv j)" using assms(2) by (auto simp: in_runq_def)
  with rq_shapeD(2) [OF assms(1) j(1)] show ?thesis by (auto simp: level_ok_def)
qed

lemma world_init_inv: "world_inv world_init"
proof -
  have "rq_shape runq_init no_wait (\<lambda>prio. [SNode prio])"
    by (simp add: rq_shape_def runq_init_def no_wait_def level_ok_def)
  then show ?thesis
    by (simp add: world_inv_def world_init_def cleared_ok_def wait_ok_def order_ok_def no_wait_def)
qed

text \<open>Positions of the consumer that a change of the other parts of the state leaves valid.\<close>

lemma pc_ok_frame:
  assumes "pc_ok s pc" and "\<And>prio. prio < SW_PRIO_NUM \<Longrightarrow> hd (rw_lv s' prio) = hd (rw_lv s prio)"
    and "\<And>prio. SNode prio \<notin> set (rw_lv s prio) \<Longrightarrow> SNode prio \<notin> set (rw_lv s' prio)
        \<and> rq_next (rw_rq s') (SNode prio) = rq_next (rw_rq s) (SNode prio)"
    and "\<And>a prio. rw_wait s a = Some (SNode prio) \<Longrightarrow> rw_wait s' a = Some (SNode prio)"
  shows "pc_ok s' pc"
  using assms by (cases pc) (auto simp: at_head_def)

lemma inv_add_clear:
  assumes inv: "world_inv s" and "\<not> in_runq (rw_lv s) (PNode p)" "rw_cleared s (PNode p) = None"
  shows "world_inv (s\<lparr>rw_rq := set_rq_next (PNode p) None (rw_rq s),
      rw_cleared := (rw_cleared s)(PNode p := Some (clamp_prio prio))\<rparr>)" (is "world_inv ?s")
proof -
  note d = world_invD [OF inv]
  have "rq_shape (rw_rq ?s) (rw_wait ?s) (rw_lv ?s)" using shape_clear [OF d(1) assms(2)] by simp
  moreover have "cleared_ok ?s"
    using d(2) assms(2) clamp_prio_less by (auto simp: cleared_ok_def set_rq_next_def)
  moreover have "pc_ok ?s (rw_pc s)" by (rule pc_ok_frame [OF d(5)]) (simp_all add: set_rq_next_def)
  moreover have "wait_ok ?s" "order_ok ?s" using d(3,4) by (simp_all add: wait_ok_def order_ok_def)
  ultimately show ?thesis by (simp add: world_inv_def)
qed

lemma in_runq_append:
  "prio < SW_PRIO_NUM \<Longrightarrow> in_runq (lv(prio := lv prio @ [n])) a \<longleftrightarrow> in_runq lv a \<or> a = n"
  by (auto simp: in_runq_def)

text \<open>An exchange, by a producer or by the consumer: everything but the consumer's position.\<close>

lemma exchange_parts:
  assumes inv: "world_inv s" and p: "prio < SW_PRIO_NUM" and n: "\<not> in_runq (rw_lv s) n"
      "rq_next (rw_rq s) n = None" "\<forall>i. n = SNode i \<longrightarrow> i = prio"
    and x: "xchg_rq_tail prio n (rw_rq s) = (rq', prev)"
  shows "rq_shape rq' ((rw_wait s)(prev := Some n)) ((rw_lv s)(prio := rw_lv s prio @ [n]))"
    "rw_wait s prev = None" "in_runq (rw_lv s) prev" "rq_next rq' = rq_next (rw_rq s)"
    "hd (rw_lv s prio @ [n]) = hd (rw_lv s prio)"
proof -
  note d = world_invD [OF inv]
  have w: "rw_wait s n = None"
  proof (cases "rw_wait s n")
    case (Some b)
    with d(3) n(1) show ?thesis by (auto simp: wait_ok_def)
  qed simp
  note e = shape_exchange [OF d(1) p n(1,2) w n(3) x]
  show "rq_shape rq' ((rw_wait s)(prev := Some n)) ((rw_lv s)(prio := rw_lv s prio @ [n]))" by (rule e(1))
  show "rw_wait s prev = None" using linked_last [OF rq_shapeD(1) [OF d(1) p]] e(2) by simp
  show "in_runq (rw_lv s) prev"
    using e(2) rq_shapeD(6) [OF d(1) p] p by (auto simp: in_runq_def)
  show "rq_next rq' = rq_next (rw_rq s)" by (rule e(3))
  show "hd (rw_lv s prio @ [n]) = hd (rw_lv s prio)" using rq_shapeD(6) [OF d(1) p] by simp
qed

lemma inv_add_exchange:
  assumes inv: "world_inv s" and c: "rw_cleared s n = Some prio"
    and x: "xchg_rq_tail prio n (rw_rq s) = (rq', prev)"
  shows "world_inv (s\<lparr>rw_rq := rq', rw_cleared := (rw_cleared s)(n := None),
      rw_wait := (rw_wait s)(prev := Some n), rw_lv := (rw_lv s)(prio := rw_lv s prio @ [n]),
      rw_in := (rw_in s)(prio := rw_in s prio @ procs_of [n])\<rparr>)" (is "world_inv ?s")
proof -
  note d = world_invD [OF inv]
  obtain p where n: "n = PNode p" "prio < SW_PRIO_NUM" "\<not> in_runq (rw_lv s) n" "rq_next (rw_rq s) n = None"
    using d(2) c by (auto simp: cleared_ok_def)
  have st: "\<forall>i. n = SNode i \<longrightarrow> i = prio" using n(1) by simp
  note e = exchange_parts [OF inv n(2-4) st x]
  have "rq_shape (rw_rq ?s) (rw_wait ?s) (rw_lv ?s)" using e(1) by simp
  moreover have "cleared_ok ?s"
    using d(2) n(2) e(4) by (auto simp: cleared_ok_def in_runq_append)
  moreover have "wait_ok ?s"
    using d(3) n(1,2) e(3) by (auto simp: wait_ok_def in_runq_append)
  moreover have "order_ok ?s" using d(4) by (auto simp: order_ok_def)
  moreover have "pc_ok ?s (rw_pc s)"
    by (rule pc_ok_frame [OF d(5)]) (use n(1) e(2,4,5) in auto)
  ultimately show ?thesis by (simp add: world_inv_def)
qed

lemma inv_add_link:
  assumes inv: "world_inv s" and w: "rw_wait s a = Some (PNode p)"
  shows "world_inv (s\<lparr>rw_rq := set_rq_next a (Some (PNode p)) (rw_rq s), rw_wait := (rw_wait s)(a := None)\<rparr>)"
    (is "world_inv ?s")
proof -
  note d = world_invD [OF inv]
  have a: "in_runq (rw_lv s) a" using d(3) w by (auto simp: wait_ok_def)
  have "rq_shape (rw_rq ?s) (rw_wait ?s) (rw_lv ?s)" using shape_store [OF d(1) w a] by simp
  moreover have "cleared_ok ?s"
    using d(2) a by (cases "rw_cleared s a") (auto simp: cleared_ok_def set_rq_next_def)
  moreover have "wait_ok ?s" "order_ok ?s" using d(3,4) by (auto simp: wait_ok_def order_ok_def)
  moreover have "pc_ok ?s (rw_pc s)"
    by (rule pc_ok_frame [OF d(5)]) (use w stub_level [OF d(1)] a in \<open>auto simp: set_rq_next_def\<close>)
  ultimately show ?thesis by (simp add: world_inv_def)
qed

text \<open>The consumer moves on without touching the queue.\<close>

lemma wait_ok_pc:
  assumes "wait_ok s" "\<forall>i head a. rw_pc s \<noteq> Pick_link i head a"
  shows "wait_ok (s\<lparr>rw_pc := pc\<rparr>)"
  using assms by (auto simp: wait_ok_def)

lemma inv_pc:
  assumes inv: "world_inv s" and "\<forall>i head a. rw_pc s \<noteq> Pick_link i head a" "pc_ok s pc"
  shows "world_inv (s\<lparr>rw_pc := pc\<rparr>)"
proof -
  note d = world_invD [OF inv]
  have "pc_ok (s\<lparr>rw_pc := pc\<rparr>) pc" by (rule pc_ok_frame [OF assms(3)]) simp_all
  moreover have "cleared_ok (s\<lparr>rw_pc := pc\<rparr>)" "order_ok (s\<lparr>rw_pc := pc\<rparr>)"
    using d(2,4) by (simp_all add: cleared_ok_def order_ok_def)
  ultimately show ?thesis using d(1) wait_ok_pc [OF d(3) assms(2)] by (simp add: world_inv_def)
qed

lemma inv_continue:
  assumes "world_inv s" "\<forall>i head a. rw_pc s \<noteq> Pick_link i head a"
  shows "world_inv (pick_continue prio s)"
  unfolding pick_continue_def by (rule inv_pc [OF assms]) simp

text \<open>Advancing past the head, to skip the stub or to return a process.\<close>

lemma advance_parts:
  assumes inv: "world_inv s" and p: "prio < SW_PRIO_NUM" and h: "hd (rw_lv s prio) = h" "rq_next (rw_rq s) h = Some n"
  shows "rq_shape (set_rq_head prio n (rw_rq s)) (rw_wait s) ((rw_lv s)(prio := tl (rw_lv s prio)))"
    "rw_lv s prio = h # tl (rw_lv s prio)" "hd (tl (rw_lv s prio)) = n" "rw_wait s h = None"
    "in_runq ((rw_lv s)(prio := tl (rw_lv s prio))) a \<longleftrightarrow> in_runq (rw_lv s) a \<and> a \<noteq> h" "h \<noteq> n"
proof -
  note d = world_invD [OF inv]
  show l: "rw_lv s prio = h # tl (rw_lv s prio)"
    using h(1) rq_shapeD(6) [OF d(1) p] by (metis list.collapse)
  note a = shape_advance [OF d(1) p l h(2)]
  show "rq_shape (set_rq_head prio n (rw_rq s)) (rw_wait s) ((rw_lv s)(prio := tl (rw_lv s prio)))"
    and n: "hd (tl (rw_lv s prio)) = n" and "rw_wait s h = None"
    using a by blast+
  have dist: "distinct (h # tl (rw_lv s prio))" using rq_shapeD(3) [OF d(1) p] l by metis
  then show "h \<noteq> n" using n a by (metis distinct.simps(2) hd_in_set)
  have hj: "h \<notin> set (rw_lv s j)" if "j < SW_PRIO_NUM" "j \<noteq> prio" for j
    using rq_shape_disj [OF d(1) p that(1)] that(2) l by (metis list.set_intros(1))
  obtain ns where ns: "rw_lv s prio = h # ns" "h \<notin> set ns" using l dist by (metis distinct.simps(2))
  have "a \<in> set (((rw_lv s)(prio := tl (rw_lv s prio))) j) \<longleftrightarrow> a \<in> set (rw_lv s j) \<and> a \<noteq> h"
    if "j < SW_PRIO_NUM" for j
    using ns hj [OF that] by (cases "j = prio") auto
  then show "in_runq ((rw_lv s)(prio := tl (rw_lv s prio))) a \<longleftrightarrow> in_runq (rw_lv s) a \<and> a \<noteq> h"
    unfolding in_runq_def by blast
qed

lemma procs_of_node: "procs_of (n # ns) = procs_of [n] @ procs_of ns"
  by (cases n) simp_all

lemma order_ok_advance:
  assumes "order_ok s" "rw_lv s prio = h # ns"
  shows "order_ok (s\<lparr>rw_rq := rq', rw_pc := pc, rw_lv := (rw_lv s)(prio := ns),
      rw_out := (rw_out s)(prio := rw_out s prio @ procs_of [h])\<rparr>)"
  using assms procs_of_node [of h ns] by (auto simp: order_ok_def)

lemma inv_return:
  assumes inv: "world_inv s" and p: "at_head s prio head" and n: "rq_next (rw_rq s) head = Some n"
    and pc: "\<forall>i head a. rw_pc s \<noteq> Pick_link i head a"
  shows "world_inv (pick_return prio head n s)"
proof -
  note d = world_invD [OF inv]
  have h: "hd (rw_lv s prio) = head" "prio < SW_PRIO_NUM" using p by (simp_all add: at_head_def)
  note a = advance_parts [OF inv h(2,1) n]
  have "cleared_ok (pick_return prio head n s)"
    using d(2) a(5) by (simp add: cleared_ok_def pick_return_def set_rq_head_def)
  moreover have "wait_ok (pick_return prio head n s)"
    using d(3) a(4,5) pc by (auto simp: wait_ok_def pick_return_def)
  moreover have "order_ok (pick_return prio head n s)"
    unfolding pick_return_def by (rule order_ok_advance [OF d(4) a(2)])
  ultimately show ?thesis using a(1) by (simp add: world_inv_def pick_return_def)
qed

lemma inv_skip:
  assumes inv: "world_inv s" and pc: "rw_pc s = Pick_at prio"
    and h: "rq_heads (rw_rq s) prio = SNode prio" and n: "rq_next (rw_rq s) (SNode prio) = Some n"
  shows "world_inv (s\<lparr>rw_rq := set_rq_head prio n (rw_rq s), rw_pc := Pick_skipped prio n,
      rw_lv := (rw_lv s)(prio := tl (rw_lv s prio))\<rparr>)" (is "world_inv ?s")
proof -
  note d = world_invD [OF inv]
  have p: "prio < SW_PRIO_NUM" using d(5) pc by simp
  have hd: "hd (rw_lv s prio) = SNode prio" using rq_shapeD(4) [OF d(1) p] h by simp
  note a = advance_parts [OF inv p hd n]
  have "rq_shape (rw_rq ?s) (rw_wait ?s) (rw_lv ?s)" using a(1) by simp
  moreover have "cleared_ok ?s" using d(2) a(5) by (simp add: cleared_ok_def set_rq_head_def)
  moreover have "wait_ok ?s" using d(3) a(4,5) pc by (auto simp: wait_ok_def)
  moreover have "order_ok ?s"
    using d(4) a(2) procs_of_node [of "SNode prio" "tl (rw_lv s prio)"] by (auto simp: order_ok_def)
  moreover have "pc_ok ?s (rw_pc ?s)" using p a(3,6) by (auto simp: at_head_def)
  ultimately show ?thesis by (simp add: world_inv_def)
qed

lemma inv_stub:
  assumes inv: "world_inv s" and pc: "rw_pc s = Pick_stub prio head"
  shows "world_inv (s\<lparr>rw_rq := set_rq_next (SNode prio) None (rw_rq s), rw_pc := Pick_xchg prio head\<rparr>)"
    (is "world_inv ?s")
proof -
  note d = world_invD [OF inv]
  have st: "\<not> in_runq (rw_lv s) (SNode prio)" using stub_level [OF d(1)] d(5) pc by auto
  have "rq_shape (rw_rq ?s) (rw_wait ?s) (rw_lv ?s)" using shape_clear [OF d(1) st] by simp
  moreover have "cleared_ok ?s" using d(2) by (auto simp: cleared_ok_def set_rq_next_def)
  moreover have "wait_ok ?s" using d(3) pc by (auto simp: wait_ok_def)
  moreover have "order_ok ?s" using d(4) by (simp add: order_ok_def)
  moreover have "pc_ok ?s (rw_pc ?s)" using d(5) pc by (auto simp: at_head_def set_rq_next_def)
  ultimately show ?thesis by (simp add: world_inv_def)
qed

lemma inv_exchange:
  assumes inv: "world_inv s" and pc: "rw_pc s = Pick_xchg prio head"
    and x: "xchg_rq_tail prio (SNode prio) (rw_rq s) = (rq', prev)"
  shows "world_inv (s\<lparr>rw_rq := rq', rw_pc := Pick_link prio head prev,
      rw_wait := (rw_wait s)(prev := Some (SNode prio)),
      rw_lv := (rw_lv s)(prio := rw_lv s prio @ [SNode prio])\<rparr>)" (is "world_inv ?s")
proof -
  note d = world_invD [OF inv]
  have p: "prio < SW_PRIO_NUM" and st: "\<not> in_runq (rw_lv s) (SNode prio)" "rq_next (rw_rq s) (SNode prio) = None"
    using stub_level [OF d(1)] d(5) pc by (auto simp: at_head_def)
  note e = exchange_parts [OF inv p st _ x]
  have "rq_shape (rw_rq ?s) (rw_wait ?s) (rw_lv ?s)" using e(1) by simp
  moreover have "cleared_ok ?s" using d(2) p e(4) by (auto simp: cleared_ok_def in_runq_append)
  moreover have "wait_ok ?s" using d(3) p e(3) pc by (auto simp: wait_ok_def in_runq_append)
  moreover have "order_ok ?s" using d(4) by (auto simp: order_ok_def)
  moreover have "pc_ok ?s (rw_pc ?s)" using d(5) pc e(5) by (auto simp: at_head_def)
  ultimately show ?thesis by (simp add: world_inv_def)
qed

lemma inv_store:
  assumes inv: "world_inv s" and pc: "rw_pc s = Pick_link prio head prev"
  shows "world_inv (s\<lparr>rw_rq := set_rq_next prev (Some (SNode prio)) (rw_rq s),
      rw_wait := (rw_wait s)(prev := None), rw_pc := Pick_check prio head\<rparr>)" (is "world_inv ?s")
proof -
  note d = world_invD [OF inv]
  have w: "rw_wait s prev = Some (SNode prio)" using d(5) pc by simp
  have a: "in_runq (rw_lv s) prev" using d(3) w by (auto simp: wait_ok_def)
  have "rq_shape (rw_rq ?s) (rw_wait ?s) (rw_lv ?s)" using shape_store [OF d(1) w a] by simp
  moreover have "cleared_ok ?s"
    using d(2) a by (cases "rw_cleared s prev") (auto simp: cleared_ok_def set_rq_next_def)
  moreover have "wait_ok ?s" using d(3) pc by (auto simp: wait_ok_def)
  moreover have "order_ok ?s" using d(4) by (simp add: order_ok_def)
  moreover have "pc_ok ?s (rw_pc ?s)" using d(5) pc by (auto simp: at_head_def)
  ultimately show ?thesis by (simp add: world_inv_def)
qed

text \<open>When the consumer sees the head as the tail too, the level holds nothing else.\<close>

lemma single_level:
  assumes "world_inv s" "at_head s prio head" "rq_tails (rw_rq s) prio = head"
  shows "SNode prio \<notin> set (rw_lv s prio)"
proof -
  note d = world_invD [OF assms(1)]
  have p: "prio < SW_PRIO_NUM" "hd (rw_lv s prio) = head" "head \<noteq> SNode prio"
    using assms(2) by (auto simp: at_head_def)
  have "last (rw_lv s prio) = hd (rw_lv s prio)" using rq_shapeD(5) [OF d(1) p(1)] assms(3) p(2) by simp
  then have "rw_lv s prio = [head]"
    using rq_shapeD(3,6) [OF d(1) p(1)] p(2) by (cases "rw_lv s prio") (auto split: if_splits)
  then show ?thesis using p(3) by simp
qed

lemma world_inv_step: "rq_step s s' \<Longrightarrow> world_inv s \<Longrightarrow> world_inv s'"
proof (induction rule: rq_step.induct)
  case (pick_noskip s prio head)
  then show ?case
    using rq_shapeD(4) [OF world_invD(1), of s prio] world_invD(5) [of s]
    by (intro inv_pc) (auto simp: at_head_def)
next
  case (pick_single s prio head)
  then show ?case
    using world_invD(5) [of s] single_level [of s prio head] by (intro inv_pc) auto
qed (use world_invD(5) in \<open>fastforce intro: inv_add_clear inv_add_exchange inv_add_link inv_pc inv_continue
      inv_return inv_skip inv_stub inv_exchange inv_store simp: const_simps\<close>)+

lemma reach_inv: "rq_reach s \<Longrightarrow> world_inv s"
  by (induction rule: rq_reach.induct) (auto intro: world_init_inv world_inv_step)

section \<open>Queues of runnable processes as an interface\<close>

text \<open>
  What the scheduler loop needs of a place that holds runnable processes: a push of a process that
  is not there adds it, a pop takes the first one and finds one whenever there is one.
\<close>

fun take_n :: "('s \<Rightarrow> 's \<times> proc_ref option) \<Rightarrow> nat \<Rightarrow> 's \<Rightarrow> 's \<times> proc_ref list" where
  "take_n pop 0 s = (s, [])"
| "take_n pop (Suc n) s =
     (case pop s of
        (s', None) \<Rightarrow> (s', [])
      | (s', Some p) \<Rightarrow> apsnd (Cons p) (take_n pop n s'))"

locale work_pool =
  fixes push :: "proc_ref \<Rightarrow> 's \<Rightarrow> 's"
    and pop :: "'s \<Rightarrow> 's \<times> proc_ref option"
    and holds :: "'s \<Rightarrow> proc_ref list \<Rightarrow> bool"
  assumes push_holds: "holds s q \<Longrightarrow> p \<notin> set q \<Longrightarrow>
      \<exists>q'. holds (push p s) q' \<and> mset q' = add_mset p (mset q)"
    and pop_empty: "holds s [] \<Longrightarrow> \<exists>s'. pop s = (s', None) \<and> holds s' []"
    and pop_first: "holds s (p # q) \<Longrightarrow> \<exists>s'. pop s = (s', Some p) \<and> holds s' q"
begin

lemma take_all: "holds s q \<Longrightarrow> \<exists>s'. take_n pop (length q) s = (s', q) \<and> holds s' []"
proof (induction q arbitrary: s)
  case (Cons p q)
  then obtain s1 where s1: "pop s = (s1, Some p)" "holds s1 q" using pop_first by blast
  with Cons.IH [OF s1(2)] show ?case by auto
qed auto

lemma push_all:
  "holds s q \<Longrightarrow> distinct (ps @ q) \<Longrightarrow> \<exists>q'. holds (fold push ps s) q' \<and> mset q' = mset ps + mset q"
proof (induction ps arbitrary: s q)
  case (Cons p ps)
  then obtain q1 where q1: "holds (push p s) q1" "mset q1 = add_mset p (mset q)"
    using push_holds [of s q p] by auto
  have "set q1 = insert p (set q)" "distinct q1"
    using q1(2) Cons.prems(2) mset_eq_setD [of q1 "p # q"] mset_eq_imp_distinct_iff [of q1 "p # q"] by auto
  then have "distinct (ps @ q1)" using Cons.prems(2) by auto
  from Cons.IH [OF q1(1) this] q1(2) show ?case by auto
qed auto

text \<open>Whatever is pushed comes out again, each process once.\<close>

lemma push_take:
  assumes "holds s []" "distinct ps"
  shows "\<exists>s' out. take_n pop (length ps) (fold push ps s) = (s', out) \<and> mset out = mset ps \<and> holds s' []"
proof -
  obtain q where q: "holds (fold push ps s) q" "mset q = mset ps"
    using push_all [OF assms(1), of ps] assms(2) by auto
  have "length q = length ps" using q(2) by (rule mset_eq_length)
  with take_all [OF q(1)] q(2) show ?thesis by auto
qed

end

subsection \<open>The run queue is such a place\<close>

fun node_proc :: "rq_node \<Rightarrow> proc_ref" where
  "node_proc (PNode p) = p"
| "node_proc (SNode i) = i"

definition runq_push :: "(proc_ref \<Rightarrow> nat) \<Rightarrow> proc_ref \<Rightarrow> sw_runq \<Rightarrow> sw_runq" where
  "runq_push prio_of p rq = fst (sw_add_to_runq (prio_of p) p rq)"

definition runq_pop :: "sw_runq \<Rightarrow> sw_runq \<times> proc_ref option" where
  "runq_pop rq = apsnd (map_option node_proc) (sw_pick_next rq)"

definition by_prio :: "(nat \<Rightarrow> proc_ref list) \<Rightarrow> proc_ref list" where
  "by_prio q = concat (map q [0..<SW_PRIO_NUM])"

definition runq_holds :: "sw_runq \<Rightarrow> proc_ref list \<Rightarrow> bool" where
  "runq_holds rq ps \<longleftrightarrow> (\<exists>q. rq_abs rq q \<and> ps = by_prio q)"

lemma pick_spec_concat:
  "distinct prios \<Longrightarrow> concat (map q prios) =
     (case snd (pick_spec prios q) of None \<Rightarrow> [] | Some p \<Rightarrow> p # concat (map (fst (pick_spec prios q)) prios))"
proof (induction prios)
  case (Cons prio prios)
  have dist: "prio \<notin> set prios" using Cons.prems by simp
  show ?case
  proof (cases "q prio")
    case Nil
    moreover have "fst (pick_spec prios q) prio = q prio"
      using Cons.prems by (induction prios) (auto split: list.splits)
    ultimately show ?thesis using Cons by (auto split: option.splits)
  next
    case (Cons p ps)
    have "map (q(prio := ps)) prios = map q prios" using dist by auto
    then have "concat (map (q(prio := ps)) prios) = concat (map q prios)" by metis
    then show ?thesis by (simp add: Cons)
  qed
qed simp

lemma runq_pop_cases:
  assumes "rq_abs rq q"
  shows "\<exists>rq' q'. runq_pop rq = (rq', snd (pick_spec [0..<SW_PRIO_NUM] q)) \<and> rq_abs rq' q'
    \<and> by_prio q = (case snd (pick_spec [0..<SW_PRIO_NUM] q) of None \<Rightarrow> [] | Some p \<Rightarrow> p # by_prio q')
    \<and> (snd (pick_spec [0..<SW_PRIO_NUM] q) = None \<longrightarrow> q' = q)"
proof -
  have none: "snd (pick_spec prios q) = None \<Longrightarrow> fst (pick_spec prios q) = q" for prios
    by (induction prios) (auto split: list.splits)
  obtain rq' where r: "pick_from [0..<SW_PRIO_NUM] rq = (rq', map_option PNode (snd (pick_spec [0..<SW_PRIO_NUM] q)))"
      "rq_abs rq' (fst (pick_spec [0..<SW_PRIO_NUM] q))"
    using pick_from_abs [OF assms, of "[0..<SW_PRIO_NUM]"] by auto
  have "runq_pop rq = (rq', snd (pick_spec [0..<SW_PRIO_NUM] q))"
    using r(1) by (simp add: runq_pop_def sw_pick_next_def option.map_comp comp_def option.map_ident)
  then show ?thesis
    using r(2) none [of "[0..<SW_PRIO_NUM]"] pick_spec_concat [of "[0..<SW_PRIO_NUM]" q]
    unfolding by_prio_def
    by (intro exI [of _ rq'] exI [of _ "fst (pick_spec [0..<SW_PRIO_NUM] q)"]) simp
qed

lemma by_prio_update:
  assumes "prio < SW_PRIO_NUM"
  shows "mset (by_prio (q(prio := q prio @ [p]))) = add_mset p (mset (by_prio q))"
proof -
  have l: "[0..<SW_PRIO_NUM] = [0..<prio] @ prio # [Suc prio..<SW_PRIO_NUM]"
    using assms upt_add_eq_append [of 0 prio "SW_PRIO_NUM - prio"] by (simp add: upt_conv_Cons)
  have "map (q(prio := x)) [0..<prio] = map q [0..<prio]"
    "map (q(prio := x)) [Suc prio..<SW_PRIO_NUM] = map q [Suc prio..<SW_PRIO_NUM]" for x
    by auto
  then show ?thesis unfolding by_prio_def l by simp
qed

lemma set_by_prio: "p \<in> set (by_prio q) \<longleftrightarrow> (\<exists>prio<SW_PRIO_NUM. p \<in> set (q prio))"
  by (auto simp: by_prio_def)

lemma rq_abs_bound: "rq_abs rq q \<Longrightarrow> p \<in> set (q prio) \<Longrightarrow> prio < SW_PRIO_NUM"
  by (auto simp: rq_abs_def split: if_splits)

lemma by_prio_empty: "rq_abs rq q \<Longrightarrow> by_prio q = [] \<Longrightarrow> snd (pick_spec [0..<SW_PRIO_NUM] q) = None"
  using pick_spec_concat [of "[0..<SW_PRIO_NUM]" q] by (auto simp: by_prio_def split: option.splits)

interpretation runq: work_pool "runq_push prio_of" runq_pop runq_holds for prio_of
proof
  fix s q p assume h: "runq_holds s q" "p \<notin> set q"
  then obtain lq where lq: "rq_abs s lq" "q = by_prio lq" by (auto simp: runq_holds_def)
  have "\<forall>prio. p \<notin> set (lq prio)" using h(2) lq rq_abs_bound set_by_prio by blast
  from add_abs [OF lq(1) this, of "prio_of p"] by_prio_update [OF clamp_prio_less] lq(2)
  show "\<exists>q'. runq_holds (runq_push prio_of p s) q' \<and> mset q' = add_mset p (mset q)"
    unfolding runq_holds_def runq_push_def by metis
next
  fix s assume "runq_holds s []"
  then obtain lq where lq: "rq_abs s lq" "by_prio lq = []" by (auto simp: runq_holds_def)
  with runq_pop_cases [OF lq(1)] by_prio_empty show "\<exists>s'. runq_pop s = (s', None) \<and> runq_holds s' []"
    unfolding runq_holds_def by metis
next
  fix s p q assume "runq_holds s (p # q)"
  then obtain lq where lq: "rq_abs s lq" "by_prio lq = p # q" by (auto simp: runq_holds_def)
  with runq_pop_cases [OF lq(1)] show "\<exists>s'. runq_pop s = (s', Some p) \<and> runq_holds s' q"
    unfolding runq_holds_def by (auto split: option.splits)
qed

subsection \<open>The overflow queue is such a place\<close>

definition ov_rep :: "overflow_rq \<Rightarrow> proc_ref list \<Rightarrow> bool" where
  "ov_rep ov ps \<longleftrightarrow> chain (ov_next ov) (ov_head ov) ps \<and> distinct ps
     \<and> ov_tail ov = (if ps = [] then None else Some (last ps)) \<and> ov_count ov = of_nat (length ps)"

lemma overflow_push_rep:
  assumes r: "ov_rep ov ps" and p: "p \<notin> set ps"
  shows "ov_rep (overflow_rq_push p ov) (ps @ [p])"
proof (cases ps rule: rev_exhaust)
  case Nil
  with r show ?thesis by (simp add: ov_rep_def overflow_rq_push_def Let_def)
next
  case (snoc qs t)
  let ?f = "(ov_next ov)(p := None)"
  have "chain ?f (ov_head ov) (qs @ [t])"
    by (rule chain_upd [of "ov_next ov"]) (use r p snoc in \<open>auto simp: ov_rep_def\<close>)
  then have "chain (?f(t := Some p)) (ov_head ov) (qs @ [t, p])"
    by (rule chain_snoc) (use r p snoc in \<open>auto simp: ov_rep_def\<close>)
  with r p snoc show ?thesis by (simp add: ov_rep_def overflow_rq_push_def Let_def)
qed

lemma steal_work_rep:
  assumes "ov_rep ov (p # ps)"
  shows "\<exists>ov'. sw_steal_work ov = (ov', Some p) \<and> ov_rep ov' ps"
proof -
  have h: "ov_head ov = Some p" using assms by (simp add: ov_rep_def)
  obtain ov' where o: "sw_steal_work ov = (ov', Some p)" using h by (simp add: sw_steal_work_def Let_def)
  have c: "chain ((ov_next ov)(p := None)) (ov_next ov p) ps"
    by (rule chain_upd [of "ov_next ov"]) (use assms in \<open>auto simp: ov_rep_def\<close>)
  have "ov_rep ov' ps"
    using assms o h c by (cases ps) (auto simp: ov_rep_def sw_steal_work_def Let_def)
  with o show ?thesis by blast
qed

interpretation overflow: work_pool overflow_rq_push sw_steal_work ov_rep
proof
  fix s q p assume "ov_rep s q" "p \<notin> set q"
  then show "\<exists>q'. ov_rep (overflow_rq_push p s) q' \<and> mset q' = add_mset p (mset q)"
    using overflow_push_rep [of s q p] by (intro exI [of _ "q @ [p]"]) simp
next
  fix s assume "ov_rep s []"
  then show "\<exists>s'. sw_steal_work s = (s', None) \<and> ov_rep s' []" by (simp add: ov_rep_def sw_steal_work_def)
next
  fix s p q assume "ov_rep s (p # q)"
  then show "\<exists>s'. sw_steal_work s = (s', Some p) \<and> ov_rep s' q" by (rule steal_work_rep)
qed

section \<open>Properties\<close>

lemma sum_length_filter:
  assumes "\<And>p. f p < (n :: nat)"
  shows "(\<Sum>k<n. length (filter (\<lambda>p. f p = k) ps)) = length ps"
proof (induction ps)
  case (Cons p ps)
  have "length (filter (\<lambda>p. f p = k) (p # ps)) = (if k = f p then 1 else 0) + length (filter (\<lambda>p. f p = k) ps)" for k
    by simp
  then show ?case using Cons assms [of p] by (simp only: sum.distrib sum.delta) simp
qed simp

lemma fold_push_abs:
  assumes "distinct ps"
  shows "rq_abs (fold (runq_push prio_of) ps runq_init) (\<lambda>prio. filter (\<lambda>p. clamp_prio (prio_of p) = prio) ps)"
  using assms
proof (induction ps rule: rev_induct)
  case Nil
  then show ?case using runq_init_abs by simp
next
  case (snoc p ps)
  let ?q = "\<lambda>prio. filter (\<lambda>p. clamp_prio (prio_of p) = prio) ps"
  have "rq_abs (fold (runq_push prio_of) ps runq_init) ?q" "\<forall>prio. p \<notin> set (?q prio)" using snoc by auto
  from add_abs [OF this, of "prio_of p"]
  have "rq_abs (fold (runq_push prio_of) (ps @ [p]) runq_init)
      (?q(clamp_prio (prio_of p) := ?q (clamp_prio (prio_of p)) @ [p]))"
    by (simp add: runq_push_def)
  moreover have "?q(clamp_prio (prio_of p) := ?q (clamp_prio (prio_of p)) @ [p])
      = (\<lambda>prio. filter (\<lambda>p. clamp_prio (prio_of p) = prio) (ps @ [p]))"
    by auto
  ultimately show ?case by (simp only:)
qed


lemma world_one_push:
  "rq_reach (world_init\<lparr>rw_rq := set_rq_next (PNode 5) None runq_init,
     rw_cleared := (\<lambda>_. None)(PNode 5 := Some (clamp_prio 1))\<rparr>)"
  using reach_step [OF reach_init add_clear [of world_init 5 1]] by (simp add: world_init_def in_runq_def)


text \<open>
  Once every push in progress has stored its link, the queue that the interleaving left behind
  is a well-formed one for the whole operations: it holds, per priority, the processes put in and
  not yet taken, oldest first, so the next \<^verbatim>\<open>sw_pick_next\<close> finds them.
\<close>

theorem runq_quiescent:
  assumes "rq_reach s" "\<forall>a. rw_wait s a = None"
  shows "rq_abs (rw_rq s) (\<lambda>prio. if prio < SW_PRIO_NUM then drop (length (rw_out s prio)) (rw_in s prio) else [])"
proof -
  note d = world_invD [OF reach_inv [OF assms(1)]]
  have "rw_wait s = no_wait" using assms(2) by (auto simp: no_wait_def)
  then show ?thesis
    using d(1,4) unfolding rq_abs_def order_ok_def by (intro exI [of _ "rw_lv s"]) simp
qed

theorem runq_quiescent_witness:
  "rq_abs (rw_rq world_init)
     (\<lambda>prio. if prio < SW_PRIO_NUM then drop (length (rw_out world_init prio)) (rw_in world_init prio) else [])"
  by (rule runq_quiescent [OF reach_init]) (simp add: world_init_def no_wait_def)

text \<open>
  The scheduler's order: processes put on an empty run queue come out by priority, first-in
  first-out within a priority, and an unknown priority counts as normal; every one comes out.
\<close>

theorem runq_priority_order:
  assumes "distinct ps"
  shows "snd (take_n runq_pop (length ps) (fold (runq_push prio_of) ps runq_init))
    = concat (map (\<lambda>prio. filter (\<lambda>p. clamp_prio (prio_of p) = prio) ps) [0..<SW_PRIO_NUM])"
proof -
  let ?q = "\<lambda>prio. filter (\<lambda>p. clamp_prio (prio_of p) = prio) ps"
  have h: "runq_holds (fold (runq_push prio_of) ps runq_init) (by_prio ?q)"
    using fold_push_abs [OF assms] unfolding runq_holds_def by blast
  have "runq_holds runq_init []"
    unfolding runq_holds_def using runq_init_abs by (force simp: by_prio_def)
  then obtain s' out where o: "take_n runq_pop (length ps) (fold (runq_push prio_of) ps runq_init) = (s', out)"
      "mset out = mset ps"
    using runq.push_take [OF _ assms] by blast
  obtain s'' where "take_n runq_pop (length (by_prio ?q)) (fold (runq_push prio_of) ps runq_init) = (s'', by_prio ?q)"
    using runq.take_all [OF h] by blast
  moreover have "length (by_prio ?q) = length ps"
  proof -
    have "length (by_prio ?q) = (\<Sum>prio<SW_PRIO_NUM. length (?q prio))"
      by (simp add: by_prio_def length_concat comp_def interv_sum_list_conv_sum_set_nat atLeast0LessThan)
    also have "\<dots> = length ps" using clamp_prio_less by (intro sum_length_filter) simp
    finally show ?thesis .
  qed
  ultimately show ?thesis by (simp add: by_prio_def)
qed

theorem runq_priority_order_witness:
  "snd (take_n runq_pop (length [7 :: nat, 3, 9]) (fold (runq_push (\<lambda>p. if p = 9 then 1 else 8)) [7, 3, 9] runq_init)) = [9, 7, 3]"
  using runq_priority_order [of "[7, 3, 9]" "\<lambda>p. if p = 9 then 1 else 8"]
  by (simp add: clamp_prio_def const_simps upt_rec)

text \<open>
  The overflow queue is first-in first-out and loses nothing: stealing as often as there were
  pushes returns the pushed processes, and the queue is empty again.
\<close>

theorem overflow_steals_all:
  assumes "distinct ps"
  shows "\<exists>ov out. take_n sw_steal_work (length ps) (fold overflow_rq_push ps overflow_init) = (ov, out)
    \<and> mset out = mset ps \<and> ov_head ov = None"
proof -
  have "ov_rep overflow_init []" by (simp add: ov_rep_def overflow_init_def)
  from overflow.push_take [OF this assms] show ?thesis by (auto simp: ov_rep_def)
qed

theorem overflow_steals_all_witness:
  "\<exists>ov out. take_n sw_steal_work (length [4 :: nat, 2]) (fold overflow_rq_push [4, 2] overflow_init) = (ov, out)
    \<and> mset out = mset [4, 2] \<and> ov_head ov = None"
  by (rule overflow_steals_all) simp

end
