(* ===== verification/Receive.thy ===== *)
theory Receive
  imports Mailbox
begin

text \<open>
  The blocking protocol of \<^verbatim>\<open>src/src/swarmrt_native.c\<close>: a process that receives, the senders,
  killers and timers that wake it, and the scheduler that runs it. Every access to shared state
  (the signal stack, the \<^verbatim>\<open>waiting\<close> flag, the run queue) is a step of its own, so a run interleaves
  them in any order. One reordering by the processor is a step as well: \<^verbatim>\<open>sw_mailbox_wait_new\<close> stores its flag and then
  loads the signal stack, with no full barrier between the two, so the load may come first. In the other functions the
  exchange of \<^verbatim>\<open>mailbox_drain\<close> stands between store and load, which is a full barrier on x86-64, the memory model assumed here.
  The mailbox is used at the level of its two lists of contents, which
  the theory Mailbox shows the pointer code to implement.
\<close>

section \<open>State\<close>

text \<open>\<open>Rx_any\<close> stands for \<^verbatim>\<open>sw_receive\<close> and \<^verbatim>\<open>sw_receive_any\<close>.\<close>

datatype rx_mode = Rx_any | Rx_tagged u64 | Rx_wait_new

text \<open>Where the process goes on after the context switch.\<close>

datatype rx_cont =
    K_user
  | K_loop rx_mode u64
  | K_null
  | K_wait_raced
  | K_wait_end u64

text \<open>Positions in the receive functions, in the scheduler loop, and outside both.\<close>

datatype 'p rx_pc =
    Pc_user
  | Pc_top rx_mode u64
  | Pc_announce rx_mode u64
  | Pc_late u64
  | Pc_final rx_mode u64
  | Pc_cancel rx_mode u64 "'p mdat option"
  | Pc_idle rx_mode u64
  | Pc_expired rx_mode
  | Pc_blocked rx_cont
  | Pc_post rx_cont
  | Pc_off rx_cont
  | Pc_resumed rx_cont
  | Pc_dead

text \<open>
  \<open>rx_wakes\<close> counts the \<^verbatim>\<open>mailbox_wake\<close> calls that senders, killers and timers still have to make,
  \<open>rx_adding\<close> the wakers between their exchange and \<^verbatim>\<open>sw_add_to_runq\<close>, \<open>rx_runq\<close> the entries of the
  process on its run queue. \<open>rx_ret\<close> is the result of the last \<^verbatim>\<open>sw_mailbox_wait_new\<close>. \<open>rx_sent\<close> and \<open>rx_got\<close> record what was sent and what was received.
\<close>

record 'p rx =
  rx_sig :: "'p mdat list"
  rx_priv :: "'p mdat list"
  rx_waiting :: bool
  rx_state :: sw_proc_state
  rx_kill :: bool
  rx_timer :: bool
  rx_wakes :: nat
  rx_adding :: nat
  rx_runq :: nat
  rx_pc :: "'p rx_pc"
  rx_ret :: bool
  rx_sent :: "'p mdat list"
  rx_got :: "'p mdat list"

definition SW_INFINITE :: u64 where "SW_INFINITE = - 1"

text \<open>A process that the scheduler has just started.\<close>

definition rx_start :: "'p rx" where
  "rx_start = \<lparr>rx_sig = [], rx_priv = [], rx_waiting = False, rx_state = SW_PROC_RUNNING, rx_kill = False,
     rx_timer = False, rx_wakes = 0, rx_adding = 0, rx_runq = 0, rx_pc = Pc_user, rx_ret = False, rx_sent = [], rx_got = []\<rparr>"

section \<open>Steps\<close>

subsection \<open>Senders, killers, timers\<close>

definition rx_push :: "'p mdat \<Rightarrow> 'p rx \<Rightarrow> 'p rx" where
  "rx_push d s = s\<lparr>rx_sig := d # rx_sig s, rx_sent := rx_sent s @ [d], rx_wakes := Suc (rx_wakes s)\<rparr>"

definition rx_wake :: "'p rx \<Rightarrow> 'p rx" where
  "rx_wake s = (if rx_waiting s then s\<lparr>rx_waiting := False, rx_adding := Suc (rx_adding s)\<rparr> else s)"

definition rx_set_kill :: "'p rx \<Rightarrow> 'p rx" where
  "rx_set_kill s = s\<lparr>rx_kill := True, rx_wakes := Suc (rx_wakes s)\<rparr>"

text \<open>The timer of a time limit carries no message: when it fires it only wakes the process.\<close>

definition rx_fire_timer :: "'p rx \<Rightarrow> 'p rx" where
  "rx_fire_timer s = s\<lparr>rx_timer := False, rx_wakes := Suc (rx_wakes s)\<rparr>"

subsection \<open>The receiver\<close>

definition rx_drain :: "'p rx \<Rightarrow> 'p rx" where
  "rx_drain s = s\<lparr>rx_sig := [], rx_priv := rx_priv s @ rev (rx_sig s)\<rparr>"

fun rx_pop :: "rx_mode \<Rightarrow> 'p mdat list \<Rightarrow> 'p mdat option \<times> 'p mdat list" where
  "rx_pop Rx_any [] = (None, [])"
| "rx_pop Rx_any (d # ds) = (Some d, ds)"
| "rx_pop (Rx_tagged tag) ds = (find (\<lambda>d. fst d = tag) ds, remove_first (\<lambda>d. fst d = tag) ds)"
| "rx_pop Rx_wait_new ds = (None, ds)"

definition rx_deliver :: "'p mdat \<Rightarrow> 'p rx \<Rightarrow> 'p rx" where
  "rx_deliver d s = s\<lparr>rx_got := rx_got s @ [d], rx_pc := Pc_user\<rparr>"

text \<open>The first drain and scan of an iteration: return a message, give up, or get ready to sleep.\<close>

definition rx_top :: "rx_mode \<Rightarrow> u64 \<Rightarrow> 'p rx \<Rightarrow> 'p rx" where
  "rx_top mode tmo s =
     (let s = rx_drain s; (r, ds) = rx_pop mode (rx_priv s); s = s\<lparr>rx_priv := ds\<rparr>
      in case r of
           Some d \<Rightarrow> rx_deliver d s
         | None \<Rightarrow> if tmo = 0 then s\<lparr>rx_pc := Pc_user\<rparr>
                   else s\<lparr>rx_state := SW_PROC_WAITING, rx_pc := Pc_announce mode tmo\<rparr>)"

text \<open>The scan after the flag is up; \<^verbatim>\<open>sw_mailbox_wait_new\<close> only looks at the signal stack.\<close>

definition rx_final :: "rx_mode \<Rightarrow> u64 \<Rightarrow> 'p rx \<Rightarrow> 'p rx" where
  "rx_final mode tmo s =
     (if mode = Rx_wait_new then
        s\<lparr>rx_pc := (if rx_sig s \<noteq> [] then Pc_cancel mode tmo None else Pc_idle mode tmo)\<rparr>
      else
        let s = rx_drain s; (r, ds) = rx_pop mode (rx_priv s); s = s\<lparr>rx_priv := ds\<rparr>
        in s\<lparr>rx_pc := (if r = None then Pc_idle mode tmo else Pc_cancel mode tmo r)\<rparr>)"

text \<open>The race-safe cancel: the exchange tells whether a waker was faster.\<close>

definition rx_cancel :: "rx_mode \<Rightarrow> u64 \<Rightarrow> 'p mdat option \<Rightarrow> 'p rx \<Rightarrow> 'p rx" where
  "rx_cancel mode tmo r s =
     (if rx_waiting s then
        let s = s\<lparr>rx_waiting := False, rx_state := SW_PROC_RUNNING\<rparr>
        in case r of
             Some d \<Rightarrow> rx_deliver d s
           | None \<Rightarrow> (rx_drain s)\<lparr>rx_ret := True, rx_pc := Pc_user\<rparr>
      else
        case r of
          Some d \<Rightarrow> s\<lparr>rx_priv := d # rx_priv s, rx_pc := Pc_blocked (K_loop mode tmo)\<rparr>
        | None \<Rightarrow> s\<lparr>rx_pc := Pc_blocked K_wait_raced\<rparr>)"

definition wait_cont :: "rx_mode \<Rightarrow> u64 \<Rightarrow> rx_cont" where
  "wait_cont mode tmo = (if mode = Rx_wait_new then K_wait_end tmo else K_loop mode tmo)"

text \<open>Nothing to receive: wait for ever, find the time expired, or arm a timer.\<close>

definition rx_idle :: "bool \<Rightarrow> rx_mode \<Rightarrow> u64 \<Rightarrow> 'p rx \<Rightarrow> 'p rx" where
  "rx_idle expired mode tmo s =
     (if tmo = SW_INFINITE then s\<lparr>rx_pc := Pc_blocked (wait_cont mode tmo)\<rparr>
      else if expired then s\<lparr>rx_pc := Pc_expired mode\<rparr>
      else s\<lparr>rx_timer := True, rx_pc := Pc_blocked (wait_cont mode tmo)\<rparr>)"

definition rx_expired :: "'p rx \<Rightarrow> 'p rx" where
  "rx_expired s =
     (if rx_waiting s
      then s\<lparr>rx_waiting := False, rx_state := SW_PROC_RUNNING, rx_ret := False, rx_pc := Pc_user\<rparr>
      else s\<lparr>rx_pc := Pc_blocked K_null\<rparr>)"

text \<open>After the context switch back.\<close>

fun rx_resume :: "rx_cont \<Rightarrow> 'p rx \<Rightarrow> 'p rx" where
  "rx_resume K_user s = s\<lparr>rx_pc := Pc_user\<rparr>"
| "rx_resume (K_loop mode tmo) s =
     s\<lparr>rx_state := SW_PROC_RUNNING, rx_timer := False, rx_pc := (if rx_kill s then Pc_user else Pc_top mode tmo)\<rparr>"
| "rx_resume K_null s = s\<lparr>rx_state := SW_PROC_RUNNING, rx_ret := False, rx_pc := Pc_user\<rparr>"
| "rx_resume K_wait_raced s = (rx_drain s)\<lparr>rx_state := SW_PROC_RUNNING, rx_ret := True, rx_pc := Pc_user\<rparr>"
| "rx_resume (K_wait_end tmo) s =
     (if rx_kill s
      then s\<lparr>rx_state := SW_PROC_RUNNING, rx_timer := False, rx_ret := False, rx_pc := Pc_user\<rparr>
      else (rx_drain s)\<lparr>rx_state := SW_PROC_RUNNING, rx_timer := False, rx_ret := True, rx_pc := Pc_user\<rparr>)"

text \<open>
  The calls themselves: they enter the loop above at its top, or at the announcement. Between
  two calls the process runs user code, which may also yield or end.
\<close>

definition sw_receive :: "u64 \<Rightarrow> 'p rx \<Rightarrow> 'p rx" where
  "sw_receive tmo s = s\<lparr>rx_pc := Pc_top Rx_any tmo\<rparr>"

definition sw_receive_any :: "u64 \<Rightarrow> 'p rx \<Rightarrow> 'p rx" where
  "sw_receive_any tmo s = s\<lparr>rx_pc := Pc_top Rx_any tmo\<rparr>"

definition sw_receive_tagged :: "u64 \<Rightarrow> u64 \<Rightarrow> 'p rx \<Rightarrow> 'p rx" where
  "sw_receive_tagged tag tmo s = s\<lparr>rx_pc := Pc_top (Rx_tagged tag) tmo\<rparr>"

definition sw_mailbox_wait_new :: "u64 \<Rightarrow> 'p rx \<Rightarrow> 'p rx" where
  "sw_mailbox_wait_new tmo s =
     (if tmo = 0 then s\<lparr>rx_ret := False\<rparr>
      else s\<lparr>rx_state := SW_PROC_WAITING, rx_pc := Pc_announce Rx_wait_new tmo\<rparr>)"

definition sw_yield :: "'p rx \<Rightarrow> 'p rx" where
  "sw_yield s = s\<lparr>rx_state := SW_PROC_RUNNABLE, rx_pc := Pc_blocked K_user\<rparr>"

definition sw_process_done :: "'p rx \<Rightarrow> 'p rx" where
  "sw_process_done s = s\<lparr>rx_state := SW_PROC_EXITING, rx_pc := Pc_blocked K_user\<rparr>"

subsection \<open>The scheduler\<close>

text \<open>What \<^verbatim>\<open>scheduler_loop\<close> does after the process has switched back to it.\<close>

definition rx_post :: "rx_cont \<Rightarrow> 'p rx \<Rightarrow> 'p rx" where
  "rx_post k s =
     (if rx_state s = SW_PROC_EXITING then s\<lparr>rx_pc := Pc_dead\<rparr>
      else if rx_state s = SW_PROC_RUNNABLE then s\<lparr>rx_runq := Suc (rx_runq s), rx_pc := Pc_off k\<rparr>
      else s\<lparr>rx_pc := Pc_off k\<rparr>)"

text \<open>What it does with the process it picked.\<close>

definition rx_run :: "rx_cont \<Rightarrow> 'p rx \<Rightarrow> 'p rx" where
  "rx_run k s =
     (if rx_kill s then s\<lparr>rx_state := SW_PROC_EXITING, rx_pc := Pc_dead\<rparr>
      else s\<lparr>rx_state := SW_PROC_RUNNING, rx_pc := Pc_resumed k\<rparr>)"

subsection \<open>The interleaving\<close>

inductive rx_step :: "'p rx \<Rightarrow> 'p rx \<Rightarrow> bool" where
  st_send: "rx_step s (rx_push d s)"
| st_kill: "rx_step s (rx_set_kill s)"
| st_timer: "rx_timer s \<Longrightarrow> rx_step s (rx_fire_timer s)"
| st_wake: "rx_wakes s = Suc n \<Longrightarrow> rx_step s (rx_wake (s\<lparr>rx_wakes := n\<rparr>))"
| st_enqueue: "rx_adding s = Suc n \<Longrightarrow> rx_step s (s\<lparr>rx_adding := n, rx_runq := Suc (rx_runq s)\<rparr>)"
| st_receive: "rx_pc s = Pc_user \<Longrightarrow> rx_step s (sw_receive tmo s)"
| st_receive_any: "rx_pc s = Pc_user \<Longrightarrow> rx_step s (sw_receive_any tmo s)"
| st_receive_tagged: "rx_pc s = Pc_user \<Longrightarrow> rx_step s (sw_receive_tagged tag tmo s)"
| st_wait_new: "rx_pc s = Pc_user \<Longrightarrow> rx_step s (sw_mailbox_wait_new tmo s)"
| st_yield: "rx_pc s = Pc_user \<Longrightarrow> rx_step s (sw_yield s)"
| st_done: "rx_pc s = Pc_user \<Longrightarrow> rx_step s (sw_process_done s)"
| st_top: "rx_pc s = Pc_top mode tmo \<Longrightarrow> rx_step s (rx_top mode tmo s)"
| st_announce: "rx_pc s = Pc_announce mode tmo \<Longrightarrow> rx_step s (s\<lparr>rx_waiting := True, rx_pc := Pc_final mode tmo\<rparr>)"
| st_reorder: "rx_pc s = Pc_announce Rx_wait_new tmo \<Longrightarrow> rx_sig s = [] \<Longrightarrow> rx_step s (s\<lparr>rx_pc := Pc_late tmo\<rparr>)"
| st_late: "rx_pc s = Pc_late tmo \<Longrightarrow> rx_step s (s\<lparr>rx_waiting := True, rx_pc := Pc_idle Rx_wait_new tmo\<rparr>)"
| st_final: "rx_pc s = Pc_final mode tmo \<Longrightarrow> rx_step s (rx_final mode tmo s)"
| st_cancel: "rx_pc s = Pc_cancel mode tmo r \<Longrightarrow> rx_step s (rx_cancel mode tmo r s)"
| st_idle: "rx_pc s = Pc_idle mode tmo \<Longrightarrow> rx_step s (rx_idle expired mode tmo s)"
| st_expired: "rx_pc s = Pc_expired mode \<Longrightarrow> rx_step s (rx_expired s)"
| st_swap: "rx_pc s = Pc_blocked k \<Longrightarrow> rx_step s (s\<lparr>rx_pc := Pc_post k\<rparr>)"
| st_post: "rx_pc s = Pc_post k \<Longrightarrow> rx_step s (rx_post k s)"
| st_pick: "rx_pc s = Pc_off k \<Longrightarrow> rx_runq s = Suc n \<Longrightarrow> rx_step s (rx_run k (s\<lparr>rx_runq := n\<rparr>))"
| st_resume: "rx_pc s = Pc_resumed k \<Longrightarrow> rx_step s (rx_resume k s)"

inductive rx_reach :: "'p rx \<Rightarrow> bool" where
  rx_reach_start: "rx_reach rx_start"
| rx_reach_step: "rx_reach s \<Longrightarrow> rx_step s s' \<Longrightarrow> rx_reach s'"

section \<open>Invariant\<close>

text \<open>
  The token of a process: its \<^verbatim>\<open>waiting\<close> flag, a waker that took the flag, or its run queue entry.
  It has none while it runs undisturbed and exactly one from the moment it announces that it waits.
\<close>

definition rx_token :: "'p rx \<Rightarrow> nat" where
  "rx_token s = (if rx_waiting s then 1 else 0) + rx_adding s + rx_runq s"

definition cont_ok :: "nat \<Rightarrow> rx_cont \<Rightarrow> 'p rx \<Rightarrow> bool" where
  "cont_ok yields k s \<longleftrightarrow>
     (\<forall>mode tmo. k = K_loop mode tmo \<longrightarrow> mode \<noteq> Rx_wait_new) \<and>
     (if k = K_user then rx_token s = yields \<and> \<not> rx_waiting s
      else rx_token s = 1 \<and> rx_state s = SW_PROC_WAITING)"

fun pc_inv :: "'p rx \<Rightarrow> 'p rx_pc \<Rightarrow> bool" where
  "pc_inv s Pc_user \<longleftrightarrow> rx_token s = 0 \<and> rx_state s = SW_PROC_RUNNING"
| "pc_inv s (Pc_top mode tmo) \<longleftrightarrow> rx_token s = 0 \<and> rx_state s = SW_PROC_RUNNING \<and> mode \<noteq> Rx_wait_new"
| "pc_inv s (Pc_announce mode tmo) \<longleftrightarrow> rx_token s = 0 \<and> rx_state s = SW_PROC_WAITING"
| "pc_inv s (Pc_late tmo) \<longleftrightarrow> rx_token s = 0 \<and> rx_state s = SW_PROC_WAITING"
| "pc_inv s (Pc_final mode tmo) \<longleftrightarrow> rx_token s = 1 \<and> rx_state s = SW_PROC_WAITING"
| "pc_inv s (Pc_cancel mode tmo r) \<longleftrightarrow> rx_token s = 1 \<and> rx_state s = SW_PROC_WAITING
     \<and> (r = None \<longleftrightarrow> mode = Rx_wait_new)"
| "pc_inv s (Pc_idle mode tmo) \<longleftrightarrow> rx_token s = 1 \<and> rx_state s = SW_PROC_WAITING"
| "pc_inv s (Pc_expired mode) \<longleftrightarrow> rx_token s = 1 \<and> rx_state s = SW_PROC_WAITING"
| "pc_inv s (Pc_blocked k) \<longleftrightarrow> cont_ok 0 k s \<and> (k = K_user \<longrightarrow> rx_state s \<in> {SW_PROC_RUNNABLE, SW_PROC_EXITING})"
| "pc_inv s (Pc_post k) \<longleftrightarrow> cont_ok 0 k s \<and> (k = K_user \<longrightarrow> rx_state s \<in> {SW_PROC_RUNNABLE, SW_PROC_EXITING})"
| "pc_inv s (Pc_off k) \<longleftrightarrow> cont_ok 1 k s"
| "pc_inv s (Pc_resumed k) \<longleftrightarrow> rx_token s = 0 \<and> rx_state s = SW_PROC_RUNNING
     \<and> (\<forall>mode tmo. k = K_loop mode tmo \<longrightarrow> mode \<noteq> Rx_wait_new)"
| "pc_inv s Pc_dead \<longleftrightarrow> rx_token s = 0"

text \<open>Positions between the final scan and the switch back, where only a waker can help, with the messages asked for.\<close>

fun accepts :: "rx_mode \<Rightarrow> 'p mdat \<Rightarrow> bool" where
  "accepts Rx_any d = True"
| "accepts (Rx_tagged tag) d = (fst d = tag)"
| "accepts Rx_wait_new d = False"

fun cont_mode :: "rx_cont \<Rightarrow> rx_mode option" where
  "cont_mode (K_loop mode tmo) = Some mode"
| "cont_mode _ = None"

fun listening :: "'p rx_pc \<Rightarrow> rx_mode option" where
  "listening (Pc_idle mode tmo) = (if mode = Rx_wait_new then None else Some mode)"
| "listening (Pc_blocked k) = cont_mode k"
| "listening (Pc_post k) = cont_mode k"
| "listening (Pc_off k) = cont_mode k"
| "listening _ = None"

text \<open>A process that listens with its flag up has looked at all messages but those whose senders have not woken it yet.\<close>

definition wake_inv :: "'p rx \<Rightarrow> bool" where
  "wake_inv s \<longleftrightarrow>
     (case listening (rx_pc s) of
        None \<Rightarrow> True
      | Some mode \<Rightarrow> rx_waiting s \<longrightarrow> list_all (\<lambda>d. \<not> accepts mode d) (rx_priv s) \<and> (rx_sig s \<noteq> [] \<longrightarrow> rx_wakes s > 0))"

text \<open>The time limit of a process that sleeps.\<close>

fun cont_limit :: "rx_cont \<Rightarrow> u64" where
  "cont_limit (K_loop mode tmo) = tmo"
| "cont_limit (K_wait_end tmo) = tmo"
| "cont_limit _ = SW_INFINITE"

fun pc_limit :: "'p rx_pc \<Rightarrow> u64" where
  "pc_limit (Pc_blocked k) = cont_limit k"
| "pc_limit (Pc_post k) = cont_limit k"
| "pc_limit (Pc_off k) = cont_limit k"
| "pc_limit _ = SW_INFINITE"

definition timer_inv :: "'p rx \<Rightarrow> bool" where
  "timer_inv s \<longleftrightarrow> (rx_waiting s \<and> pc_limit (rx_pc s) \<noteq> SW_INFINITE \<longrightarrow> rx_timer s \<or> rx_wakes s > 0)"

text \<open>The message a receiver holds between its final scan and the outcome of the race.\<close>

fun held :: "'p rx_pc \<Rightarrow> 'p mdat multiset" where
  "held (Pc_cancel mode tmo (Some d)) = {#d#}"
| "held _ = {#}"

definition all_inv :: "'p rx \<Rightarrow> bool" where
  "all_inv s \<longleftrightarrow> mset (rx_sent s) = mset (rx_got s) + mset (rx_priv s) + mset (rx_sig s) + held (rx_pc s)"

lemmas rx_defs = rx_push_def rx_fire_timer_def rx_set_kill_def rx_wake_def rx_drain_def rx_deliver_def rx_top_def rx_final_def
  rx_cancel_def rx_idle_def rx_expired_def rx_post_def rx_run_def wait_cont_def
  sw_receive_def sw_receive_any_def sw_receive_tagged_def sw_mailbox_wait_new_def sw_yield_def sw_process_done_def
  Let_def

lemma rx_token_simps [simp]:
  "rx_token (s\<lparr>rx_sig := a\<rparr>) = rx_token s" "rx_token (s\<lparr>rx_priv := b\<rparr>) = rx_token s"
  "rx_token (s\<lparr>rx_state := c\<rparr>) = rx_token s" "rx_token (s\<lparr>rx_kill := d\<rparr>) = rx_token s"
  "rx_token (s\<lparr>rx_timer := e\<rparr>) = rx_token s" "rx_token (s\<lparr>rx_wakes := f\<rparr>) = rx_token s"
  "rx_token (s\<lparr>rx_pc := g\<rparr>) = rx_token s" "rx_token (s\<lparr>rx_sent := h\<rparr>) = rx_token s"
  "rx_token (s\<lparr>rx_got := i\<rparr>) = rx_token s" "rx_token (s\<lparr>rx_ret := j\<rparr>) = rx_token s"
  by (simp_all add: rx_token_def)

text \<open>The position's invariant reads the token, the state and nothing else.\<close>

lemma pc_inv_cong:
  assumes "rx_token s' = rx_token s" "rx_state s' = rx_state s" "rx_waiting s' \<longrightarrow> rx_waiting s"
  shows "pc_inv s pc \<Longrightarrow> pc_inv s' pc"
  using assms by (cases pc) (auto simp: cont_ok_def)

lemma pc_inv_step: "rx_step s s' \<Longrightarrow> pc_inv s (rx_pc s) \<Longrightarrow> pc_inv s' (rx_pc s')"
proof (induction rule: rx_step.induct)
  case (st_send s d)
  show ?case by (rule pc_inv_cong [of _ s]) (use st_send in \<open>simp_all add: rx_defs rx_token_def\<close>)
next
  case (st_kill s)
  show ?case by (rule pc_inv_cong [of _ s]) (use st_kill in \<open>simp_all add: rx_defs rx_token_def\<close>)
next
  case (st_timer s)
  show ?case by (rule pc_inv_cong [of _ s]) (use st_timer in \<open>simp_all add: rx_defs rx_token_def\<close>)
next
  case (st_wake s n)
  show ?case by (rule pc_inv_cong [of _ s]) (use st_wake in \<open>simp_all add: rx_defs rx_token_def\<close>)
next
  case (st_enqueue s n)
  show ?case by (rule pc_inv_cong [of _ s]) (use st_enqueue in \<open>simp_all add: rx_defs rx_token_def\<close>)
next
  case (st_resume s k)
  then show ?case by (cases k) (auto simp: rx_defs)
qed (auto simp: rx_defs cont_ok_def rx_token_def split: option.splits prod.splits if_splits)

lemma rx_pop_None: "mode \<noteq> Rx_wait_new \<Longrightarrow> rx_pop mode ds = (None, ds') \<Longrightarrow> ds' = ds \<and> list_all (\<lambda>d. \<not> accepts mode d) ds"
proof (induction mode ds rule: rx_pop.induct)
  case (3 tag ds)
  then show ?case by (auto simp: find_None_iff list_all_iff intro: remove_first_id)
qed auto

text \<open>Going to sleep: the final scan found nothing to receive and left the signal stack empty.\<close>

lemma wake_inv_final:
  assumes "mode \<noteq> Rx_wait_new"
  shows "wake_inv (rx_final mode tmo s)"
proof -
  obtain r ds where p: "rx_pop mode (rx_priv s @ rev (rx_sig s)) = (r, ds)" by (rule prod.exhaust)
  show ?thesis
  proof (cases r)
    case None
    then show ?thesis using p rx_pop_None [OF assms, of "rx_priv s @ rev (rx_sig s)" ds] assms by (simp add: rx_defs wake_inv_def)
  next
    case (Some d)
    then show ?thesis using p assms by (simp add: rx_defs wake_inv_def)
  qed
qed

lemma wake_inv_step: "rx_step s s' \<Longrightarrow> wake_inv s \<Longrightarrow> pc_inv s (rx_pc s) \<Longrightarrow> wake_inv s'"
proof (induction rule: rx_step.induct)
  case (st_final s mode tmo)
  show ?case
  proof (cases "mode = Rx_wait_new")
    case True
    then show ?thesis by (simp add: rx_final_def wake_inv_def)
  qed (rule wake_inv_final)
next
  case (st_cancel s mode tmo r)
  then show ?case by (cases r) (auto simp: rx_defs wake_inv_def)
next
  case (st_resume s k)
  then show ?case by (cases k) (auto simp: rx_defs wake_inv_def)
qed (auto simp: rx_defs wake_inv_def cont_ok_def split: option.splits prod.splits if_splits)

lemma timer_inv_step: "rx_step s s' \<Longrightarrow> timer_inv s \<Longrightarrow> pc_inv s (rx_pc s) \<Longrightarrow> timer_inv s'"
proof (induction rule: rx_step.induct)
  case (st_resume s k)
  then show ?case by (cases k) (auto simp: rx_defs timer_inv_def)
qed (auto simp: rx_defs timer_inv_def cont_ok_def split: option.splits prod.splits if_splits)

lemma rx_pop_mset:
  "rx_pop mode ds = (r, ds') \<Longrightarrow> mset ds = mset ds' + (case r of None \<Rightarrow> {#} | Some d \<Rightarrow> {#d#})"
proof (induction mode ds rule: rx_pop.induct)
  case (3 tag ds)
  let ?P = "\<lambda>d. fst d = tag"
  have r: "r = find ?P ds" "ds' = remove_first ?P ds" using 3 by simp_all
  show ?case
  proof (cases "find ?P ds")
    case None
    then have "remove_first ?P ds = ds" by (intro remove_first_id) (auto simp: find_None_iff)
    then show ?thesis using r None by simp
  next
    case (Some d)
    then show ?thesis using r find_remove_first_mset [OF Some] by simp
  qed
qed auto

text \<open>Messages are conserved: a pop moves one from the queue to the receiver, a race puts it back.\<close>

lemma all_inv_pop:
  assumes "all_inv s" "rx_pop mode (rx_priv s @ rev (rx_sig s)) = (r, ds)" "held (rx_pc s) = {#}"
  shows "mset (rx_sent s) = mset (rx_got s) + mset ds + (case r of None \<Rightarrow> {#} | Some d \<Rightarrow> {#d#})"
  using assms(1,3) rx_pop_mset [OF assms(2)] by (simp add: all_inv_def add.assoc)

lemma held_cancel: "held (Pc_cancel mode tmo r) = (case r of None \<Rightarrow> {#} | Some d \<Rightarrow> {#d#})"
  by (cases r) simp_all

lemma all_inv_step: "rx_step s s' \<Longrightarrow> all_inv s \<Longrightarrow> all_inv s'"
proof (induction rule: rx_step.induct)
  case (st_top s mode tmo)
  obtain r ds where p: "rx_pop mode (rx_priv s @ rev (rx_sig s)) = (r, ds)" by (rule prod.exhaust)
  have "mset (rx_sent s) = mset (rx_got s) + mset ds + (case r of None \<Rightarrow> {#} | Some d \<Rightarrow> {#d#})"
    using all_inv_pop [OF st_top(2) p] st_top(1) by simp
  then show ?case using p by (cases r) (simp_all add: rx_defs all_inv_def)
next
  case (st_final s mode tmo)
  obtain r ds where p: "rx_pop mode (rx_priv s @ rev (rx_sig s)) = (r, ds)" by (rule prod.exhaust)
  have "mset (rx_sent s) = mset (rx_got s) + mset ds + (case r of None \<Rightarrow> {#} | Some d \<Rightarrow> {#d#})"
    using all_inv_pop [OF st_final(2) p] st_final(1) by simp
  then show ?case
    using p st_final by (cases r) (simp_all add: rx_defs all_inv_def)
next
  case (st_cancel s mode tmo r)
  then show ?case by (cases r) (simp_all add: rx_defs all_inv_def)
next
  case (st_resume s k)
  then show ?case by (cases k) (simp_all add: rx_defs all_inv_def)
qed (simp_all add: rx_defs all_inv_def)

lemma rx_reach_inv:
  "rx_reach s \<Longrightarrow> pc_inv s (rx_pc s) \<and> wake_inv s \<and> timer_inv s \<and> all_inv s"
proof (induction rule: rx_reach.induct)
  case rx_reach_start
  show ?case by (simp add: rx_start_def rx_token_def wake_inv_def timer_inv_def all_inv_def)
next
  case (rx_reach_step s s')
  then show ?case
    using pc_inv_step wake_inv_step timer_inv_step all_inv_step by blast
qed

section \<open>Concrete runs\<close>

text \<open>A process that found nothing and went to sleep.\<close>

definition asleep :: "bool \<Rightarrow> rx_mode \<Rightarrow> u64 \<Rightarrow> 'p rx" where
  "asleep killed mode tmo = rx_start\<lparr>rx_kill := killed, rx_waiting := True, rx_state := SW_PROC_WAITING,
     rx_timer := (tmo \<noteq> SW_INFINITE), rx_pc := Pc_off (wait_cont mode tmo)\<rparr>"

lemma infinite_nonzero [simp]: "SW_INFINITE \<noteq> 0"
  by (simp add: SW_INFINITE_def)

lemma rx_pop_nil [simp]: "rx_pop m [] = (None, [])"
  by (cases m) simp_all

text \<open>From user code, nothing queued, a blocking call reaches its sleep.\<close>

lemma reach_announce:
  assumes "rx_reach ((rx_start :: 'p rx)\<lparr>rx_kill := killed\<rparr>)" and t: "t \<noteq> 0"
  shows "rx_reach ((rx_start :: 'p rx)\<lparr>rx_kill := killed, rx_state := SW_PROC_WAITING, rx_pc := Pc_announce m t\<rparr>)"
proof -
  let ?s0 = "(rx_start :: 'p rx)\<lparr>rx_kill := killed\<rparr>"
  have u: "rx_pc ?s0 = Pc_user" by (simp add: rx_start_def)
  show ?thesis
  proof (cases "m = Rx_wait_new")
    case True
    then show ?thesis
      using rx_reach_step [OF assms(1) st_wait_new [OF u, of t]] t by (simp add: sw_mailbox_wait_new_def)
  next
    case False
    have "rx_reach (?s0\<lparr>rx_pc := Pc_top m t\<rparr>)"
      using rx_reach_step [OF assms(1) st_receive [OF u, of t]]
        rx_reach_step [OF assms(1) st_receive_tagged [OF u, of _ t]] False
      by (cases m) (simp_all add: sw_receive_def sw_receive_tagged_def)
    then have "rx_reach (rx_top m t (?s0\<lparr>rx_pc := Pc_top m t\<rparr>))"
      by (rule rx_reach_step [OF _ st_top]) simp
    then show ?thesis by (simp add: rx_defs rx_start_def t)
  qed
qed

lemma reach_asleep:
  assumes "rx_reach ((rx_start :: 'p rx)\<lparr>rx_kill := killed\<rparr>)" and t: "t \<noteq> 0"
  shows "rx_reach (asleep killed m t :: 'p rx)"
proof -
  let ?w = "(rx_start :: 'p rx)\<lparr>rx_kill := killed, rx_state := SW_PROC_WAITING, rx_waiting := True\<rparr>"
  let ?k = "wait_cont m t"
  have "rx_reach (?w\<lparr>rx_pc := Pc_final m t\<rparr>)"
    using rx_reach_step [OF reach_announce [OF assms, of m] st_announce] by fastforce
  then have "rx_reach (rx_final m t (?w\<lparr>rx_pc := Pc_final m t\<rparr>))"
    by (rule rx_reach_step [OF _ st_final]) simp
  then have "rx_reach (?w\<lparr>rx_pc := Pc_idle m t\<rparr>)"
    by (simp add: rx_defs rx_start_def split: if_splits)
  then have "rx_reach (rx_idle False m t (?w\<lparr>rx_pc := Pc_idle m t\<rparr>))"
    by (rule rx_reach_step [OF _ st_idle]) simp
  then have "rx_reach (?w\<lparr>rx_timer := (t \<noteq> SW_INFINITE), rx_pc := Pc_blocked ?k\<rparr>)"
    by (simp add: rx_idle_def rx_start_def split: if_splits)
  then have "rx_reach (?w\<lparr>rx_timer := (t \<noteq> SW_INFINITE), rx_pc := Pc_post ?k\<rparr>)"
    using rx_reach_step [OF _ st_swap] by fastforce
  then have "rx_reach (rx_post ?k (?w\<lparr>rx_timer := (t \<noteq> SW_INFINITE), rx_pc := Pc_post ?k\<rparr>))"
    by (rule rx_reach_step [OF _ st_post]) simp
  then show ?thesis by (simp add: rx_post_def rx_start_def asleep_def)
qed

lemma reach_asleep_start: "t \<noteq> 0 \<Longrightarrow> rx_reach (asleep False m t :: 'p rx)"
proof -
  have "rx_start\<lparr>rx_kill := False\<rparr> = (rx_start :: 'p rx)" by (simp add: rx_start_def)
  then show "t \<noteq> 0 \<Longrightarrow> rx_reach (asleep False m t :: 'p rx)"
    using reach_asleep [of False] rx_reach_start by metis
qed

text \<open>The process of the concrete examples: asleep in \<^verbatim>\<open>sw_receive(-1)\<close>.\<close>

abbreviation sleeper :: "bool rx" where
  "sleeper \<equiv> asleep False Rx_any SW_INFINITE"

lemma reach_sleeper: "rx_reach sleeper"
  by (rule reach_asleep_start) simp_all

text \<open>A process whose \<^verbatim>\<open>sw_mailbox_wait_new\<close> ran into its time limit, with nothing ever sent to it.\<close>

lemma reach_wait_limit:
  "\<exists>s. rx_reach (s :: 'p rx) \<and> rx_pc s = Pc_user \<and> rx_ret s \<and> rx_sent s = []"
proof -
  let ?k = "wait_cont Rx_wait_new 5"
  let ?s = "asleep False Rx_wait_new 5 :: 'p rx"
  have t: "(5 :: u64) \<noteq> SW_INFINITE" by (simp add: SW_INFINITE_def)
  have "rx_reach (rx_fire_timer ?s)"
    by (rule rx_reach_step [OF reach_asleep_start st_timer]) (simp_all add: asleep_def t)
  then have r: "rx_reach (?s\<lparr>rx_timer := False, rx_wakes := Suc 0\<rparr>)" (is "rx_reach ?s1")
    by (simp add: rx_fire_timer_def asleep_def rx_start_def)
  have "rx_reach (rx_wake (?s1\<lparr>rx_wakes := 0\<rparr>))" by (rule rx_reach_step [OF r st_wake]) simp
  then have r2: "rx_reach (?s1\<lparr>rx_wakes := 0, rx_waiting := False, rx_adding := Suc 0\<rparr>)" (is "rx_reach ?s2")
    by (simp add: rx_wake_def asleep_def rx_start_def)
  have "rx_reach (?s2\<lparr>rx_adding := 0, rx_runq := Suc (rx_runq ?s2)\<rparr>)"
    by (rule rx_reach_step [OF r2 st_enqueue]) simp
  then have r3: "rx_reach (?s2\<lparr>rx_adding := 0, rx_runq := Suc 0\<rparr>)" (is "rx_reach ?s3")
    by (simp add: asleep_def rx_start_def)
  have "rx_reach (rx_run ?k (?s3\<lparr>rx_runq := 0\<rparr>))"
    by (rule rx_reach_step [OF r3 st_pick]) (simp_all add: asleep_def)
  then have r4: "rx_reach (?s3\<lparr>rx_runq := 0, rx_state := SW_PROC_RUNNING, rx_pc := Pc_resumed ?k\<rparr>)" (is "rx_reach ?s4")
    by (simp add: rx_run_def asleep_def rx_start_def)
  have "rx_reach (rx_resume ?k ?s4)" by (rule rx_reach_step [OF r4 st_resume]) simp
  then show ?thesis
    by (intro exI [of _ "rx_resume ?k ?s4"]) (simp add: wait_cont_def rx_drain_def asleep_def rx_start_def)
qed

lemma reach_killed_running: "rx_reach (rx_start\<lparr>rx_kill := True\<rparr>)"
proof -
  have "rx_reach (rx_set_kill rx_start)" by (rule rx_reach_step [OF rx_reach_start st_kill])
  then have "rx_reach (rx_start\<lparr>rx_kill := True, rx_wakes := Suc 0\<rparr>)" by (simp add: rx_defs rx_start_def)
  then have "rx_reach (rx_wake (rx_start\<lparr>rx_kill := True, rx_wakes := Suc 0\<rparr>\<lparr>rx_wakes := 0\<rparr>))"
    by (rule rx_reach_step [OF _ st_wake]) simp
  then show ?thesis by (simp add: rx_defs rx_start_def)
qed

section \<open>Properties\<close>

text \<open>
  C6. A process is enqueued at most once: however senders, killers, timers, the receiver and the
  scheduler interleave, the process has at most one run queue entry (present or being added), none
  while it runs user code or is dead, and exactly one wake-up source while it is switched out.
\<close>

theorem rx_enqueued_once:
  assumes "rx_reach s"
  shows "rx_adding s + rx_runq s \<le> 1
    \<and> (rx_pc s = Pc_user \<or> rx_pc s = Pc_dead \<longrightarrow> rx_adding s + rx_runq s = 0 \<and> \<not> rx_waiting s)
    \<and> (\<forall>k. rx_pc s = Pc_off k \<longrightarrow> (if rx_waiting s then 1 else 0) + rx_adding s + rx_runq s = 1)"
  using rx_reach_inv [OF assms]
  by (cases "rx_pc s") (auto simp: rx_token_def cont_ok_def split: if_splits)

theorem rx_enqueued_once_witness:
  "(if rx_waiting sleeper then 1 else 0) + rx_adding sleeper
     + rx_runq sleeper = (1 :: nat)"
  using rx_enqueued_once [OF reach_sleeper] by (auto simp: asleep_def rx_start_def)

text \<open>
  C5. No wake-up is lost in \<^verbatim>\<open>sw_receive\<close>, \<^verbatim>\<open>sw_receive_any\<close> and \<^verbatim>\<open>sw_receive_tagged\<close>: when a process sleeps in one of them and is on no
  run queue, its \<^verbatim>\<open>waiting\<close> flag is up; as long as a message it accepts was sent to it and not received, a sender is still about
  to wake it; nothing it accepts is in its private queue; and if it sleeps with a time limit then its timer is armed or
  a waker is on its way. (Sequential consistency and the reordering described above; \<^verbatim>\<open>sw_mailbox_wait_new\<close> is not
  covered, it can lose a wake-up.)
\<close>

theorem rx_no_lost_wakeup:
  assumes "rx_reach s" "rx_pc s = Pc_off (K_loop mode tmo)" "rx_runq s = 0" "rx_adding s = 0"
  shows "rx_waiting s \<and> list_all (\<lambda>d. \<not> accepts mode d) (rx_priv s)
    \<and> ((\<exists>d. d \<in># mset (rx_sent s) - mset (rx_got s) \<and> accepts mode d) \<longrightarrow> rx_wakes s > 0)
    \<and> (tmo \<noteq> SW_INFINITE \<longrightarrow> rx_timer s \<or> rx_wakes s > 0)"
proof -
  have inv: "pc_inv s (rx_pc s)" "wake_inv s" "timer_inv s" "all_inv s" using rx_reach_inv [OF assms(1)] by auto
  have w: "rx_waiting s" using inv(1) assms(2-4) by (auto simp: rx_token_def cont_ok_def split: if_splits)
  then have priv: "list_all (\<lambda>d. \<not> accepts mode d) (rx_priv s)" and sig: "rx_sig s \<noteq> [] \<longrightarrow> rx_wakes s > 0"
    using inv(2) assms(2) by (simp_all add: wake_inv_def)
  have "mset (rx_sent s) - mset (rx_got s) = mset (rx_priv s) + mset (rx_sig s)" using inv(4) assms(2) by (simp add: all_inv_def)
  then have "rx_sig s \<noteq> []" if "d \<in># mset (rx_sent s) - mset (rx_got s)" "accepts mode d" for d
    using that priv by (auto simp: list_all_iff)
  then show ?thesis using w priv sig inv(3) assms(2) by (auto simp: timer_inv_def)
qed

theorem rx_no_lost_wakeup_witness:
  "rx_waiting (rx_push (1, Some True, 0) sleeper) \<and> rx_wakes (rx_push (1, Some True, 0) sleeper) > 0"
  using rx_no_lost_wakeup [OF rx_reach_step [OF reach_sleeper st_send], of "(1, Some True, 0)" Rx_any SW_INFINITE]
  by (simp add: asleep_def rx_start_def rx_push_def wait_cont_def)

text \<open>
  \<^verbatim>\<open>sw_mailbox_wait_new\<close> can lose a wake-up: its load of the signal stack is carried out before its store of the flag is seen;
  a sender that pushes and finds the flag down in between wakes nobody, and the process sleeps for ever with the
  message on its stack.
\<close>

theorem rx_wait_new_lost_wakeup:
  "\<exists>s. rx_reach s \<and> rx_pc s = Pc_off (K_wait_end SW_INFINITE) \<and> rx_waiting s \<and> rx_sig s = [d]
     \<and> rx_wakes s = 0 \<and> rx_adding s = 0 \<and> rx_runq s = 0 \<and> \<not> rx_timer s"
proof -
  let ?a = "(rx_start :: 'a rx)\<lparr>rx_state := SW_PROC_WAITING, rx_pc := Pc_announce Rx_wait_new SW_INFINITE\<rparr>"
  have "(rx_start :: 'a rx)\<lparr>rx_kill := False\<rparr> = rx_start" by (simp add: rx_start_def)
  then have "rx_reach ((rx_start :: 'a rx)\<lparr>rx_kill := False, rx_state := SW_PROC_WAITING, rx_pc := Pc_announce Rx_wait_new SW_INFINITE\<rparr>)"
    by (intro reach_announce) (simp_all add: rx_reach_start)
  then have "rx_reach ?a" by (simp add: rx_start_def)
  then have "rx_reach (?a\<lparr>rx_pc := Pc_late SW_INFINITE\<rparr>)" (is "rx_reach ?b")
    by (rule rx_reach_step [OF _ st_reorder]) (simp_all add: rx_start_def)
  then have "rx_reach (rx_push d ?b)" (is "rx_reach ?c") by (rule rx_reach_step [OF _ st_send])
  then have "rx_reach (rx_wake (?c\<lparr>rx_wakes := 0\<rparr>))" by (rule rx_reach_step [OF _ st_wake]) (simp add: rx_push_def rx_start_def)
  then have r: "rx_reach (?b\<lparr>rx_sig := [d], rx_sent := [d]\<rparr>)" by (simp add: rx_wake_def rx_push_def rx_start_def)
  let ?e = "?b\<lparr>rx_sig := [d], rx_sent := [d], rx_waiting := True\<rparr>"
  from r have "rx_reach (?b\<lparr>rx_sig := [d], rx_sent := [d], rx_waiting := True, rx_pc := Pc_idle Rx_wait_new SW_INFINITE\<rparr>)"
    by (rule rx_reach_step [OF _ st_late]) simp
  then have "rx_reach (rx_idle False Rx_wait_new SW_INFINITE (?e\<lparr>rx_pc := Pc_idle Rx_wait_new SW_INFINITE\<rparr>))"
    by (rule rx_reach_step [OF _ st_idle]) simp
  then have "rx_reach (?e\<lparr>rx_pc := Pc_blocked (K_wait_end SW_INFINITE)\<rparr>)" by (simp add: rx_idle_def wait_cont_def)
  then have "rx_reach (?e\<lparr>rx_pc := Pc_post (K_wait_end SW_INFINITE)\<rparr>)" using rx_reach_step [OF _ st_swap] by fastforce
  then have "rx_reach (rx_post (K_wait_end SW_INFINITE) (?e\<lparr>rx_pc := Pc_post (K_wait_end SW_INFINITE)\<rparr>))"
    by (rule rx_reach_step [OF _ st_post]) simp
  then have "rx_reach (?e\<lparr>rx_pc := Pc_off (K_wait_end SW_INFINITE)\<rparr>)" by (simp add: rx_post_def)
  then show ?thesis by (intro exI [of _ "?e\<lparr>rx_pc := Pc_off (K_wait_end SW_INFINITE)\<rparr>"]) (simp add: rx_start_def)
qed

text \<open>
  Messages are conserved: at every moment the messages sent to a process are those it received,
  those queued, and the one it holds while it races with a waker for its own resumption.
\<close>

theorem rx_messages_conserved:
  assumes "rx_reach s"
  shows "mset (rx_sent s) = mset (rx_got s) + mset (rx_priv s) + mset (rx_sig s) + held (rx_pc s)"
  using rx_reach_inv [OF assms] by (simp add: all_inv_def)

theorem rx_messages_conserved_witness:
  "mset (rx_sent (rx_push (1, Some True, 0) sleeper)) = {#(1, Some True, 0)#}"
  using rx_messages_conserved [OF rx_reach_step [OF reach_sleeper st_send], of "(1, Some True, 0)"]
  by (simp add: asleep_def rx_start_def rx_push_def wait_cont_def)

text \<open>
  A kill can be missed: \<^verbatim>\<open>sw_process_kill\<close> of a process that runs user code only sets the flag.
  The process may then block in a receive without a time limit and sleep with the flag set, with no
  waker on its way and no run queue entry; only a later message brings it back to the scheduler's check.
\<close>

theorem rx_kill_can_be_missed:
  "\<exists>s. rx_reach s \<and> rx_kill s \<and> rx_pc s = Pc_off (K_loop Rx_any SW_INFINITE)
     \<and> rx_wakes s = 0 \<and> rx_adding s = 0 \<and> rx_runq s = 0 \<and> \<not> rx_timer s"
  using reach_asleep [OF reach_killed_running, of SW_INFINITE Rx_any]
  by (intro exI [of _ "asleep True Rx_any SW_INFINITE"]) (simp add: asleep_def rx_start_def wait_cont_def)

text \<open>
  \<^verbatim>\<open>sw_mailbox_wait_new\<close> reports a message when its time limit ends it: there is a run in which
  nothing is ever sent to the process and the call returns 1, not the 0 that stands for a time-out.
\<close>

theorem rx_wait_new_ignores_timeout:
  "\<exists>s. rx_reach s \<and> rx_pc s = Pc_user \<and> rx_ret s \<and> rx_sent s = []"
  by (rule reach_wait_limit)

end
