(* ===== verification/Registry.thy ===== *)
theory Registry
  imports Swarm_Prelude
begin

text \<open>
  The name registry of \<^verbatim>\<open>src/src/swarmrt_native.c\<close>: a hash table of chained entries with names of at
  most 63 characters, and the pointer from a process to its entry. Every operation runs under the
  registry's lock.
\<close>

section \<open>State and operations\<close>

text \<open>\<open>e_addr\<close> is the address of the entry, which \<^verbatim>\<open>registry_remove_proc\<close> compares.\<close>

record sw_reg_entry =
  e_addr :: nat
  e_name :: string
  e_proc :: proc_ref

record sw_registry =
  rg_buckets :: "nat \<Rightarrow> sw_reg_entry list"
  num_buckets :: nat
  rg_entry :: "proc_ref \<Rightarrow> sw_reg_entry option"
  rg_fresh :: nat

definition SW_REGISTRY_BUCKETS :: nat where [const_simps]: "SW_REGISTRY_BUCKETS = 4096"

definition registry_init :: sw_registry where
  "registry_init = \<lparr>rg_buckets = (\<lambda>_. []), num_buckets = SW_REGISTRY_BUCKETS, rg_entry = (\<lambda>_. None), rg_fresh = 0\<rparr>"

definition registry_hash :: "string \<Rightarrow> u32" where
  "registry_hash name = fnv1a_step 2166136261 name"

definition reg_index :: "sw_registry \<Rightarrow> string \<Rightarrow> nat" where
  "reg_index rg name = unat (registry_hash name) mod num_buckets rg"

definition name_match :: "string \<Rightarrow> sw_reg_entry \<Rightarrow> bool" where
  "name_match name e = strncmp_eq (e_name e) name (SW_REG_NAME_MAX - 1)"

definition sw_register :: "string \<Rightarrow> proc_ref \<Rightarrow> sw_registry \<Rightarrow> sw_registry \<times> int" where
  "sw_register name proc rg =
     (if rg_entry rg proc \<noteq> None then (rg, -1)
      else
        let idx = reg_index rg name
        in if find (name_match name) (rg_buckets rg idx) \<noteq> None then (rg, -1)
           else
             let entry = \<lparr>e_addr = rg_fresh rg, e_name = strncpy name (SW_REG_NAME_MAX - 1), e_proc = proc\<rparr>
             in (rg\<lparr>rg_buckets := (rg_buckets rg)(idx := entry # rg_buckets rg idx),
                    rg_entry := (rg_entry rg)(proc := Some entry),
                    rg_fresh := Suc (rg_fresh rg)\<rparr>, 0))"

definition sw_unregister :: "string \<Rightarrow> sw_registry \<Rightarrow> sw_registry \<times> int" where
  "sw_unregister name rg =
     (let idx = reg_index rg name
      in case find (name_match name) (rg_buckets rg idx) of
           Some rm \<Rightarrow>
             (rg\<lparr>rg_buckets := (rg_buckets rg)(idx := remove_first (name_match name) (rg_buckets rg idx)),
                 rg_entry := (rg_entry rg)(e_proc rm := None)\<rparr>, 0)
         | None \<Rightarrow> (rg, -1))"

definition sw_whereis :: "string \<Rightarrow> sw_registry \<Rightarrow> proc_ref option" where
  "sw_whereis name rg = map_option e_proc (find (name_match name) (rg_buckets rg (reg_index rg name)))"

definition registry_remove_proc :: "proc_ref \<Rightarrow> sw_registry \<Rightarrow> sw_registry" where
  "registry_remove_proc proc rg =
     (case rg_entry rg proc of
        None \<Rightarrow> rg
      | Some e \<Rightarrow>
          let idx = reg_index rg (e_name e)
          in rg\<lparr>rg_buckets := (rg_buckets rg)(idx := remove_first (\<lambda>x. e_addr x = e_addr e) (rg_buckets rg idx)),
               rg_entry := (rg_entry rg)(proc := None)\<rparr>)"

text \<open>
  \<^verbatim>\<open>sw_send_named\<close>: its result and the message that it puts into a mailbox, if any (\<^verbatim>\<open>sw_send\<close> drops a
  null payload, \<^verbatim>\<open>sw_send_tagged\<close> does not).
\<close>

definition sw_send_named ::
  "string \<Rightarrow> u64 \<Rightarrow> 'p option \<Rightarrow> sw_registry \<Rightarrow> int \<times> (proc_ref \<times> u64 \<times> 'p option) option" where
  "sw_send_named name tag msg rg =
     (case sw_whereis name rg of
        None \<Rightarrow> (-1, None)
      | Some proc \<Rightarrow>
          (0, if tag = SW_TAG_NONE then (if msg = None then None else Some (proc, SW_TAG_NONE, msg))
              else Some (proc, tag, msg)))"

section \<open>Invariant\<close>

definition valid_name :: "string \<Rightarrow> bool" where
  "valid_name name \<longleftrightarrow> length name < SW_REG_NAME_MAX"

text \<open>
  Entries sit in the bucket of their name, names and processes are unique, and the pointers of the
  processes are exactly the entries in the table.
\<close>

definition reg_inv :: "sw_registry \<Rightarrow> bool" where
  "reg_inv rg \<longleftrightarrow>
     (\<forall>i. distinct (map e_name (rg_buckets rg i)) \<and> distinct (map e_addr (rg_buckets rg i)))
     \<and> (\<forall>i e. e \<in> set (rg_buckets rg i) \<longrightarrow>
          reg_index rg (e_name e) = i \<and> valid_name (e_name e) \<and> rg_entry rg (e_proc e) = Some e \<and> e_addr e < rg_fresh rg)
     \<and> (\<forall>p e. rg_entry rg p = Some e \<longrightarrow> e_proc e = p \<and> e \<in> set (rg_buckets rg (reg_index rg (e_name e))))"

text \<open>The abstract registry: a partial map from names to processes.\<close>

definition reg_map :: "sw_registry \<Rightarrow> string \<rightharpoonup> proc_ref" where
  "reg_map rg name = sw_whereis name rg"

lemma reg_invD:
  assumes "reg_inv rg"
  shows "distinct (map e_name (rg_buckets rg i))" "distinct (map e_addr (rg_buckets rg i))"
    "e \<in> set (rg_buckets rg i) \<Longrightarrow> reg_index rg (e_name e) = i"
    "e \<in> set (rg_buckets rg i) \<Longrightarrow> valid_name (e_name e)"
    "e \<in> set (rg_buckets rg i) \<Longrightarrow> rg_entry rg (e_proc e) = Some e"
    "e \<in> set (rg_buckets rg i) \<Longrightarrow> e_addr e < rg_fresh rg"
    "rg_entry rg p = Some e \<Longrightarrow> e_proc e = p"
    "rg_entry rg p = Some e \<Longrightarrow> e \<in> set (rg_buckets rg (reg_index rg (e_name e)))"
  using assms by (auto simp: reg_inv_def)

lemma reg_invI:
  assumes "\<And>i. distinct (map e_name (rg_buckets rg i))" "\<And>i. distinct (map e_addr (rg_buckets rg i))"
    "\<And>i e. e \<in> set (rg_buckets rg i) \<Longrightarrow> reg_index rg (e_name e) = i \<and> valid_name (e_name e)
        \<and> rg_entry rg (e_proc e) = Some e \<and> e_addr e < rg_fresh rg"
    "\<And>p e. rg_entry rg p = Some e \<Longrightarrow> e_proc e = p \<and> e \<in> set (rg_buckets rg (reg_index rg (e_name e)))"
  shows "reg_inv rg"
  unfolding reg_inv_def using assms by blast

lemma name_match_valid:
  "valid_name name \<Longrightarrow> valid_name (e_name e) \<Longrightarrow> name_match name e \<longleftrightarrow> e_name e = name"
  unfolding name_match_def valid_name_def by (intro strncmp_eq_short) simp_all

lemma find_name:
  assumes "reg_inv rg" "valid_name name"
  shows "find (name_match name) (rg_buckets rg i) = find (\<lambda>e. e_name e = name) (rg_buckets rg i)"
  using reg_invD(4) [OF assms(1), of _ i] name_match_valid [OF assms(2)]
  by (intro find_cong) auto

lemma find_distinct_key:
  "distinct (map f xs) \<Longrightarrow> find (\<lambda>x. f x = k) xs = Some x \<longleftrightarrow> x \<in> set xs \<and> f x = k"
  by (induction xs) (auto simp: image_iff)

lemma whereis_iff:
  assumes "reg_inv rg" "valid_name name"
  shows "sw_whereis name rg = Some p \<longleftrightarrow> (\<exists>e. rg_entry rg p = Some e \<and> e_name e = name)"
proof
  assume "sw_whereis name rg = Some p"
  then obtain e where "e \<in> set (rg_buckets rg (reg_index rg name))" "e_name e = name" "e_proc e = p"
    using find_distinct_key [OF reg_invD(1) [OF assms(1)]] find_name [OF assms]
    by (auto simp: sw_whereis_def)
  then show "\<exists>e. rg_entry rg p = Some e \<and> e_name e = name" using reg_invD(5) [OF assms(1)] by blast
next
  assume "\<exists>e. rg_entry rg p = Some e \<and> e_name e = name"
  then obtain e where e: "rg_entry rg p = Some e" "e_name e = name" by blast
  then have "e \<in> set (rg_buckets rg (reg_index rg name))" "e_proc e = p"
    using reg_invD(7,8) [OF assms(1) e(1)] by auto
  moreover from this have "find (\<lambda>e. e_name e = name) (rg_buckets rg (reg_index rg name)) = Some e"
    using find_distinct_key [OF reg_invD(1) [OF assms(1)], where k = name and x = e] e(2) by simp
  ultimately show "sw_whereis name rg = Some p" by (simp add: sw_whereis_def find_name [OF assms])
qed

lemma registry_init_inv: "reg_inv registry_init"
  by (simp add: reg_inv_def registry_init_def)

section \<open>The operations keep the invariant\<close>

lemma reg_index_simps [simp]:
  "reg_index (rg\<lparr>rg_buckets := b\<rparr>) name = reg_index rg name"
  "reg_index (rg\<lparr>rg_entry := t\<rparr>) name = reg_index rg name"
  "reg_index (rg\<lparr>rg_fresh := n\<rparr>) name = reg_index rg name"
  by (simp_all add: reg_index_def)

lemma register_cases:
  assumes "reg_inv rg" "valid_name name"
  shows "sw_register name proc rg =
     (if rg_entry rg proc \<noteq> None \<or> sw_whereis name rg \<noteq> None then (rg, -1)
      else let entry = \<lparr>e_addr = rg_fresh rg, e_name = name, e_proc = proc\<rparr>; idx = reg_index rg name
           in (rg\<lparr>rg_buckets := (rg_buckets rg)(idx := entry # rg_buckets rg idx),
                  rg_entry := (rg_entry rg)(proc := Some entry), rg_fresh := Suc (rg_fresh rg)\<rparr>, 0))"
  using assms(2) by (simp add: sw_register_def sw_whereis_def valid_name_def Let_def)

lemma register_inv:
  assumes inv: "reg_inv rg" and v: "valid_name name"
  shows "reg_inv (fst (sw_register name proc rg))"
proof (cases "rg_entry rg proc \<noteq> None \<or> sw_whereis name rg \<noteq> None")
  case True
  then show ?thesis using inv by (simp add: register_cases [OF inv v])
next
  case False
  note d = reg_invD [OF inv]
  let ?e = "\<lparr>e_addr = rg_fresh rg, e_name = name, e_proc = proc\<rparr>" and ?i = "reg_index rg name"
  have nm: "e_name e \<noteq> name" if "e \<in> set (rg_buckets rg ?i)" for e
  proof
    assume "e_name e = name"
    then have "rg_entry rg (e_proc e) = Some e \<and> e_name e = name" using d(5) that by simp
    then show False using whereis_iff [OF inv v, of "e_proc e"] False by auto
  qed
  have pr: "e_proc e \<noteq> proc" if "e \<in> set (rg_buckets rg i)" for e i using d(5) [OF that] False by auto
  have ad: "e_addr e \<noteq> rg_fresh rg" if "e \<in> set (rg_buckets rg i)" for e i using d(6) [OF that] by simp
  let ?rg = "rg\<lparr>rg_buckets := (rg_buckets rg)(?i := ?e # rg_buckets rg ?i),
      rg_entry := (rg_entry rg)(proc := Some ?e), rg_fresh := Suc (rg_fresh rg)\<rparr>"
  have "reg_inv ?rg"
  proof (rule reg_invI)
    show "distinct (map e_name (rg_buckets ?rg i))" for i using d(1) nm by auto
    show "distinct (map e_addr (rg_buckets ?rg i))" for i using d(2) by (auto dest: ad)
    show "reg_index ?rg (e_name e) = i \<and> valid_name (e_name e) \<and> rg_entry ?rg (e_proc e) = Some e \<and> e_addr e < rg_fresh ?rg"
      if "e \<in> set (rg_buckets ?rg i)" for i e
      using that d(3-6) [of e i] v pr [of e i] by (auto split: if_splits simp: less_SucI)
    show "e_proc e = p \<and> e \<in> set (rg_buckets ?rg (reg_index ?rg (e_name e)))" if "rg_entry ?rg p = Some e" for p e
      using that d(7,8) [of p e] by (auto split: if_splits)
  qed
  then show ?thesis using False by (simp add: register_cases [OF inv v] Let_def)
qed

text \<open>Taking one entry out of its bucket, by name or by address.\<close>

lemma remove_entry_inv:
  assumes inv: "reg_inv rg" and e: "e \<in> set (rg_buckets rg i)"
    and r: "\<And>x. x \<in> set (rg_buckets rg i) \<Longrightarrow> P x \<longleftrightarrow> x = e"
  shows "reg_inv (rg\<lparr>rg_buckets := (rg_buckets rg)(i := remove_first P (rg_buckets rg i)),
      rg_entry := (rg_entry rg)(e_proc e := None)\<rparr>)" (is "reg_inv ?rg")
proof -
  note d = reg_invD [OF inv]
  have "distinct (rg_buckets rg i)" using d(1) by (simp add: distinct_map)
  then have "remove_first P (rg_buckets rg i) = filter (\<lambda>x. x \<noteq> e) (rg_buckets rg i)"
    using remove_first_filter [of "\<lambda>x. x" "rg_buckets rg i" e] remove_first_cong [of "rg_buckets rg i" P "\<lambda>x. x = e"] r
    by simp
  then have b: "rg_buckets ?rg j = (if j = i then filter (\<lambda>x. x \<noteq> e) (rg_buckets rg i) else rg_buckets rg j)" for j
    by simp
  have pr: "e_proc x \<noteq> e_proc e" if "x \<in> set (rg_buckets rg j)" "x \<noteq> e" for x j
    using d(5) [OF that(1)] d(5) [OF e] that(2) by auto
  show ?thesis
  proof (rule reg_invI)
    show "distinct (map e_name (rg_buckets ?rg j))" for j
      unfolding b using d(1) by (simp add: distinct_map_filter)
    show "distinct (map e_addr (rg_buckets ?rg j))" for j
      unfolding b using d(2) by (simp add: distinct_map_filter)
    show "reg_index ?rg (e_name x) = j \<and> valid_name (e_name x) \<and> rg_entry ?rg (e_proc x) = Some x \<and> e_addr x < rg_fresh ?rg"
      if "x \<in> set (rg_buckets ?rg j)" for j x
      using that d(3-6) [of x j] pr [of x j] e d(3) [OF e] unfolding b by (auto split: if_splits)
    show "e_proc x = p \<and> x \<in> set (rg_buckets ?rg (reg_index ?rg (e_name x)))" if "rg_entry ?rg p = Some x" for p x
      using that d(7,8) [of p x] d(5) [OF e] unfolding b by (auto split: if_splits)
  qed
qed

lemma unregister_inv:
  assumes inv: "reg_inv rg" and v: "valid_name name"
  shows "reg_inv (fst (sw_unregister name rg))"
proof (cases "find (name_match name) (rg_buckets rg (reg_index rg name))")
  case None
  then show ?thesis using inv by (simp add: sw_unregister_def)
next
  case (Some e)
  let ?i = "reg_index rg name"
  have e: "e \<in> set (rg_buckets rg ?i)" "e_name e = name"
    using Some find_distinct_key [OF reg_invD(1) [OF inv], where k = name and x = e] find_name [OF inv v] by auto
  have "name_match name x \<longleftrightarrow> x = e" if "x \<in> set (rg_buckets rg ?i)" for x
    using name_match_valid [OF v reg_invD(4) [OF inv that]] e that reg_invD(1) [OF inv, of ?i]
    by (auto simp: distinct_map dest: inj_onD)
  from remove_entry_inv [OF inv e(1) this] show ?thesis using Some by (simp add: sw_unregister_def Let_def)
qed

lemma remove_proc_inv:
  assumes inv: "reg_inv rg"
  shows "reg_inv (registry_remove_proc proc rg)"
proof (cases "rg_entry rg proc")
  case None
  then show ?thesis using inv by (simp add: registry_remove_proc_def)
next
  case (Some e)
  let ?i = "reg_index rg (e_name e)"
  have e: "e \<in> set (rg_buckets rg ?i)" "e_proc e = proc" using reg_invD(7,8) [OF inv Some] by simp_all
  have "e_addr x = e_addr e \<longleftrightarrow> x = e" if "x \<in> set (rg_buckets rg ?i)" for x
    using reg_invD(2) [OF inv, of ?i] e(1) that by (auto simp: distinct_map dest: inj_onD)
  from remove_entry_inv [OF inv e(1) this] show ?thesis using Some e(2) by (simp add: registry_remove_proc_def Let_def)
qed

lemma register_entry:
  assumes "reg_inv rg" "valid_name name" "rg_entry rg proc = None" "sw_whereis name rg = None"
  shows "snd (sw_register name proc rg) = 0"
    "rg_entry (fst (sw_register name proc rg)) =
       (rg_entry rg)(proc := Some \<lparr>e_addr = rg_fresh rg, e_name = name, e_proc = proc\<rparr>)"
  using assms by (simp_all add: register_cases Let_def)

lemma unregister_entry:
  assumes "reg_inv rg" "valid_name name"
  shows "rg_entry (fst (sw_unregister name rg)) =
      (case sw_whereis name rg of None \<Rightarrow> rg_entry rg | Some p \<Rightarrow> (rg_entry rg)(p := None))"
    "snd (sw_unregister name rg) = (if sw_whereis name rg = None then -1 else 0)"
  by (auto simp: sw_unregister_def sw_whereis_def Let_def split: option.splits)

lemma remove_proc_entry: "rg_entry (registry_remove_proc proc rg) = (rg_entry rg)(proc := None)"
  by (auto simp: registry_remove_proc_def Let_def split: option.splits)

section \<open>Name services as an interface\<close>

text \<open>
  What the users of names rely on (\<^verbatim>\<open>sw_send_named\<close>, the name-based calls of the OTP layer, process
  exit): registration binds a free name to a process without one, removal frees it again.
\<close>

locale name_service =
  fixes inv :: "'s \<Rightarrow> bool"
    and valid :: "string \<Rightarrow> bool"
    and look :: "string \<Rightarrow> 's \<Rightarrow> proc_ref option"
    and register :: "string \<Rightarrow> proc_ref \<Rightarrow> 's \<Rightarrow> 's \<times> int"
    and unregister :: "string \<Rightarrow> 's \<Rightarrow> 's \<times> int"
    and forget :: "proc_ref \<Rightarrow> 's \<Rightarrow> 's"
  assumes inv_ops: "inv s \<Longrightarrow> valid n \<Longrightarrow> inv (fst (register n p s))" "inv s \<Longrightarrow> valid n \<Longrightarrow> inv (fst (unregister n s))"
      "inv s \<Longrightarrow> inv (forget p s)"
    and look_register: "inv s \<Longrightarrow> valid n \<Longrightarrow> valid m \<Longrightarrow> look m (fst (register n p s)) =
        (if snd (register n p s) = 0 \<and> m = n then Some p else look m s)"
    and register_ok: "inv s \<Longrightarrow> valid n \<Longrightarrow> snd (register n p s) = 0 \<longleftrightarrow>
        look n s = None \<and> (\<forall>m. valid m \<longrightarrow> look m s \<noteq> Some p)"
    and look_unregister: "inv s \<Longrightarrow> valid n \<Longrightarrow> valid m \<Longrightarrow> look m (fst (unregister n s)) = (if m = n then None else look m s)"
    and look_forget: "inv s \<Longrightarrow> valid m \<Longrightarrow> look m (forget p s) = (if look m s = Some p then None else look m s)"
begin

text \<open>A restarted process can take over the name of the one that exited.\<close>

lemma takeover:
  assumes "inv s" "valid n" "look n s = Some p" "\<forall>m. valid m \<longrightarrow> look m s \<noteq> Some q" "q \<noteq> p"
  shows "snd (register n q (forget p s)) = 0 \<and> look n (fst (register n q (forget p s))) = Some q"
proof -
  have i: "inv (forget p s)" using assms(1) by (rule inv_ops(3))
  have "snd (register n q (forget p s)) = 0"
    using register_ok [OF i assms(2)] look_forget [OF assms(1)] assms by auto
  then show ?thesis using look_register [OF i assms(2,2)] by simp
qed

lemma no_names_left: "inv s \<Longrightarrow> valid m \<Longrightarrow> look m (forget p s) \<noteq> Some p"
  by (simp add: look_forget)

lemma name_unique:
  assumes "inv s" "valid n" "valid m" "look m s = Some p" "m \<noteq> n"
  shows "snd (register n p s) \<noteq> 0 \<and> look m (fst (register n p s)) = Some p"
  using register_ok [OF assms(1,2)] look_register [OF assms(1-3)] assms(3,4) by auto

end

lemma entry_whereis:
  assumes "reg_inv rg" "rg_entry rg p = Some e"
  shows "valid_name (e_name e) \<and> sw_whereis (e_name e) rg = Some p"
proof -
  have "valid_name (e_name e)" using reg_invD(4) [OF assms(1) reg_invD(8) [OF assms]] .
  with whereis_iff [OF assms(1)] assms(2) show ?thesis by blast
qed

lemma whereis_cong:
  assumes "reg_inv rg" "reg_inv rg'" "valid_name m"
    and "\<And>p. (\<exists>e. rg_entry rg' p = Some e \<and> e_name e = m) \<longleftrightarrow> x = Some p"
  shows "sw_whereis m rg' = x"
  using whereis_iff [OF assms(2,3)] assms(4) by (metis not_Some_eq)

lemma register_fail:
  assumes "reg_inv rg" "valid_name name" "\<not> (rg_entry rg proc = None \<and> sw_whereis name rg = None)"
  shows "sw_register name proc rg = (rg, -1)"
  using assms by (simp add: register_cases)

lemma whereis_remove:
  assumes "reg_inv s" "reg_inv s'" "rg_entry s' = (rg_entry s)(p := None)" "valid_name m"
  shows "sw_whereis m s' = (if sw_whereis m s = Some p then None else sw_whereis m s)"
proof (rule whereis_cong [OF assms(1,2,4)])
  show "(\<exists>e. rg_entry s' q = Some e \<and> e_name e = m)
      \<longleftrightarrow> (if sw_whereis m s = Some p then None else sw_whereis m s) = Some q" for q
  proof (cases "q = p")
    case False
    then have "(\<exists>e. rg_entry s' q = Some e \<and> e_name e = m) \<longleftrightarrow> sw_whereis m s = Some q"
      using whereis_iff [OF assms(1,4), of q] by (simp add: assms(3))
    then show ?thesis using False by auto
  qed (auto simp: assms(3))
qed

lemma whereis_inj:
  assumes "reg_inv s" "valid_name m" "valid_name n" "sw_whereis m s = Some p" "sw_whereis n s = Some p"
  shows "m = n"
  using whereis_iff [OF assms(1,2), of p] whereis_iff [OF assms(1,3), of p] assms(4,5) by auto

lemma whereis_unregister:
  assumes s: "reg_inv s" and n: "valid_name n" and m: "valid_name m"
  shows "sw_whereis m (fst (sw_unregister n s)) = (if m = n then None else sw_whereis m s)"
proof (cases "sw_whereis n s")
  case None
  then have "fst (sw_unregister n s) = s" by (simp add: sw_unregister_def sw_whereis_def Let_def)
  then show ?thesis using None by simp
next
  case (Some p)
  have "rg_entry (fst (sw_unregister n s)) = (rg_entry s)(p := None)"
    using unregister_entry(1) [OF s n] Some by simp
  then have r: "sw_whereis m (fst (sw_unregister n s)) = (if sw_whereis m s = Some p then None else sw_whereis m s)"
    by (rule whereis_remove [OF s unregister_inv [OF s n] _ m])
  have "sw_whereis m s = Some p \<longleftrightarrow> m = n" using whereis_inj [OF s m n _ Some] Some by blast
  then show ?thesis by (simp only: r)
qed

lemma whereis_register:
  assumes s: "reg_inv s" and n: "valid_name n" and m: "valid_name m"
    and free: "rg_entry s p = None" "sw_whereis n s = None"
  shows "sw_whereis m (fst (sw_register n p s)) = (if m = n then Some p else sw_whereis m s)"
proof (rule whereis_cong [OF s register_inv [OF s n] m])
  note e = register_entry(2) [OF s n free]
  show "(\<exists>e. rg_entry (fst (sw_register n p s)) q = Some e \<and> e_name e = m)
      \<longleftrightarrow> (if m = n then Some p else sw_whereis m s) = Some q" for q
  proof (cases "q = p")
    case True
    then show ?thesis using whereis_iff [OF s m, of p] free(1) by (auto simp: e)
  next
    case False
    then have "(\<exists>e. rg_entry (fst (sw_register n p s)) q = Some e \<and> e_name e = m) \<longleftrightarrow> sw_whereis m s = Some q"
      using whereis_iff [OF s m, of q] by (simp add: e)
    then show ?thesis using False free(2) by auto
  qed
qed

interpretation registry: name_service reg_inv valid_name sw_whereis sw_register sw_unregister registry_remove_proc
proof
  fix s n m p assume s: "reg_inv s"
  show "reg_inv (registry_remove_proc p s)" using s by (rule remove_proc_inv)
  show look_f: "sw_whereis m (registry_remove_proc p s) = (if sw_whereis m s = Some p then None else sw_whereis m s)"
    if "valid_name m" for m
    by (rule whereis_remove [OF s remove_proc_inv [OF s] remove_proc_entry that])
  assume n: "valid_name n"
  show ri: "reg_inv (fst (sw_register n p s))" using s n by (rule register_inv)
  show ui: "reg_inv (fst (sw_unregister n s))" using s n by (rule unregister_inv)
  have free: "rg_entry s p = None \<longleftrightarrow> (\<forall>m. valid_name m \<longrightarrow> sw_whereis m s \<noteq> Some p)"
    using entry_whereis [OF s] whereis_iff [OF s] by (metis not_Some_eq)
  have ok: "snd (sw_register n p s) = 0 \<longleftrightarrow> rg_entry s p = None \<and> sw_whereis n s = None"
    by (cases "rg_entry s p = None \<and> sw_whereis n s = None")
       (auto simp: register_entry(1) [OF s n] register_fail [OF s n])
  show "snd (sw_register n p s) = 0 \<longleftrightarrow> sw_whereis n s = None \<and> (\<forall>m. valid_name m \<longrightarrow> sw_whereis m s \<noteq> Some p)"
    using ok free by blast
  assume m: "valid_name m"
  show "sw_whereis m (fst (sw_unregister n s)) = (if m = n then None else sw_whereis m s)"
    by (rule whereis_unregister [OF s n m])
  show "sw_whereis m (fst (sw_register n p s)) =
      (if snd (sw_register n p s) = 0 \<and> m = n then Some p else sw_whereis m s)"
  proof (cases "rg_entry s p = None \<and> sw_whereis n s = None")
    case True
    then show ?thesis using whereis_register [OF s n m] ok by simp
  qed (simp add: register_fail [OF s n])
qed

text \<open>The registry's part of process exit.\<close>

definition reg_refers :: "sw_registry \<Rightarrow> proc_ref \<Rightarrow> bool" where
  "reg_refers rg p \<longleftrightarrow> (\<exists>i. \<exists>e\<in>set (rg_buckets rg i). e_proc e = p) \<or> rg_entry rg p \<noteq> None"

lemma reg_refers_iff: "reg_inv rg \<Longrightarrow> reg_refers rg p \<longleftrightarrow> rg_entry rg p \<noteq> None"
  using reg_invD(5) by (fastforce simp: reg_refers_def)

interpretation registry_exit: exit_cleanup reg_inv reg_refers registry_remove_proc
proof
  fix s p q assume i: "reg_inv s"
  show i': "reg_inv (registry_remove_proc p s)" using i by (rule remove_proc_inv)
  show "\<not> reg_refers (registry_remove_proc p s) p" by (simp add: reg_refers_iff [OF i'] remove_proc_entry)
  show "reg_refers (registry_remove_proc p s) q \<Longrightarrow> reg_refers s q"
    by (simp add: reg_refers_iff [OF i'] reg_refers_iff [OF i] remove_proc_entry split: if_splits)
qed

section \<open>Properties\<close>

text \<open>
  C10. The registry is a partial map on names of fewer than 64 characters: registration succeeds
  exactly when the name is free and the process has no name, binds only that name, and otherwise
  changes nothing; unregistering frees only the name.
\<close>

theorem registry_is_map:
  assumes "reg_inv rg" "valid_name n" "valid_name m"
  shows "(snd (sw_register n p rg) = 0 \<longleftrightarrow> sw_whereis n rg = None \<and> rg_entry rg p = None)
    \<and> sw_whereis m (fst (sw_register n p rg)) =
        (if snd (sw_register n p rg) = 0 \<and> m = n then Some p else sw_whereis m rg)
    \<and> sw_whereis m (fst (sw_unregister n rg)) = (if m = n then None else sw_whereis m rg)
    \<and> reg_inv (fst (sw_register n p rg)) \<and> reg_inv (fst (sw_unregister n rg))"
proof -
  have "rg_entry rg p = None \<longleftrightarrow> (\<forall>m. valid_name m \<longrightarrow> sw_whereis m rg \<noteq> Some p)"
    using entry_whereis [OF assms(1)] whereis_iff [OF assms(1)] by (metis not_Some_eq)
  then show ?thesis
    using registry.register_ok [OF assms(1,2), of p] registry.look_register [OF assms, of p]
      registry.look_unregister [OF assms] registry.inv_ops(1,2) [OF assms(1,2)]
    by auto
qed

theorem registry_is_map_witness:
  "sw_whereis ''logger'' (fst (sw_register ''logger'' 3 registry_init)) = Some 3"
proof -
  have "sw_whereis ''logger'' registry_init = None" "rg_entry registry_init 3 = None"
    by (simp_all add: registry_init_def sw_whereis_def)
  then show ?thesis
    using registry_is_map [OF registry_init_inv, of "''logger''" "''logger''" 3]
    by (simp add: valid_name_def const_simps)
qed

text \<open>
  Process exit frees the name: afterwards no name leads to the dead process, other bindings
  are unchanged, and a restarted process can register the same name at once.
\<close>

theorem registry_exit_frees_name:
  assumes "reg_inv rg" "valid_name n" "sw_whereis n rg = Some p" "rg_entry rg q = None" "valid_name m"
  shows "sw_whereis m (registry_remove_proc p rg) = (if sw_whereis m rg = Some p then None else sw_whereis m rg)
    \<and> snd (sw_register n q (registry_remove_proc p rg)) = 0
    \<and> sw_whereis n (fst (sw_register n q (registry_remove_proc p rg))) = Some q"
proof -
  have "\<forall>m. valid_name m \<longrightarrow> sw_whereis m rg \<noteq> Some q" using assms(4) whereis_iff [OF assms(1)] by auto
  moreover from this have "q \<noteq> p" using assms(2,3) by auto
  ultimately show ?thesis
    using registry.takeover [OF assms(1-3)] registry.look_forget [OF assms(1,5)] by blast
qed

theorem registry_exit_frees_name_witness:
  "sw_whereis ''logger'' (fst (sw_register ''logger'' 4
     (registry_remove_proc 3 (fst (sw_register ''logger'' 3 registry_init))))) = Some 4"
proof -
  let ?rg = "fst (sw_register ''logger'' 3 registry_init)"
  have v: "valid_name ''logger''" by (simp add: valid_name_def const_simps)
  have free: "rg_entry registry_init 3 = None" "sw_whereis ''logger'' registry_init = None"
    by (simp_all add: registry_init_def sw_whereis_def)
  note e = register_entry [OF registry_init_inv v free]
  have i: "reg_inv ?rg" using registry_init_inv v by (rule register_inv)
  have "sw_whereis ''logger'' ?rg = Some 3" using whereis_iff [OF i v, of 3] e(2) by simp
  moreover have "rg_entry ?rg 4 = None" using e(2) by (simp add: registry_init_def)
  ultimately show ?thesis using registry_exit_frees_name [OF i v _ _ v, of 3 4] by blast
qed

lemma even_unat: "even (unat (w :: u32)) \<longleftrightarrow> even w"
  by transfer (simp add: even_take_bit_eq even_nat_iff)

lemma even_mod_4096: "even (n mod (4096 :: nat)) \<longleftrightarrow> even n"
  by (simp add: dvd_mod_iff)

definition long_name :: string where
  "long_name = ''aaaaaaaaaaaaaaaaaaaaaaaaaaaaaaaaaaaaaaaaaaaaaaaaaaaaaaaaaaaaaaaa''"

text \<open>
  A name of 64 characters or more outlives its process: registration files the entry under the
  hash of the whole name, process exit looks for it under the hash of the stored, shortened name. The
  lookup then returns the dead process, whose slot the arena gives to the next spawn.
\<close>

theorem registry_long_name_dangles:
  "sw_whereis long_name (registry_remove_proc 3 (fst (sw_register long_name 3 registry_init))) = Some 3"
proof -
  let ?x = "registry_hash (take 63 long_name)"
  have "long_name = take 63 long_name @ ''a''" by (simp add: long_name_def)
  then have "registry_hash long_name = fnv1a_step ?x ''a''"
    unfolding registry_hash_def by (metis fnv1a_step_append)
  then have "registry_hash long_name = (?x XOR 97) * 16777619" by (simp add: of_char_def)
  then have "odd (registry_hash long_name) \<longleftrightarrow> even ?x" by (simp add: even_xor_iff)
  then have "odd (unat (registry_hash long_name) mod 4096) \<longleftrightarrow> even (unat ?x mod 4096)"
    by (simp add: even_mod_4096 even_unat)
  then have h: "unat (registry_hash long_name) mod 4096 \<noteq> unat (registry_hash (take 63 long_name)) mod 4096"
    by metis
  then show ?thesis
    by (auto simp: sw_register_def registry_remove_proc_def sw_whereis_def registry_init_def reg_index_def
        strncpy_def name_match_def strncmp_eq_def const_simps Let_def)
qed

end
