(* ===== verification/Timers.thy ===== *)
theory Timers
  imports Swarm_Prelude
begin

text \<open>
  The timers of \<^verbatim>\<open>src/src/swarmrt_native.c\<close>: a list sorted by deadline under a mutex, unsigned 64-bit
  nanosecond deadlines, and the per-thread free list of timer nodes.
\<close>

section \<open>State and operations\<close>

record 'p sw_timer =
  tm_ref :: u64
  fire_at_ns :: u64
  tm_dest :: proc_ref
  tm_tag :: u64
  tm_msg :: "'p option"

record 'p sw_timer_list =
  tl_head :: "'p sw_timer list"
  next_timer_ref :: u64

definition timers_init :: "'p sw_timer_list" where
  "timers_init = \<lparr>tl_head = [], next_timer_ref = 1\<rparr>"

text \<open>The loop that looks for the place of a new timer: behind every timer due no later.\<close>

fun timer_insert :: "'p sw_timer \<Rightarrow> 'p sw_timer list \<Rightarrow> 'p sw_timer list" where
  "timer_insert t [] = [t]"
| "timer_insert t (u # us) = (if fire_at_ns u \<le> fire_at_ns t then u # timer_insert t us else t # u # us)"

text \<open>\<open>now\<close> is the reading of the monotonic clock in nanoseconds.\<close>

definition sw_send_after ::
  "u64 \<Rightarrow> u64 \<Rightarrow> proc_ref \<Rightarrow> u64 \<Rightarrow> 'p option \<Rightarrow> 'p sw_timer_list \<Rightarrow> 'p sw_timer_list \<times> u64" where
  "sw_send_after now delay_ms dest tag msg tq =
     (let ref = next_timer_ref tq;
          t = \<lparr>tm_ref = ref, fire_at_ns = now + delay_ms * 1000000, tm_dest = dest, tm_tag = tag, tm_msg = msg\<rparr>
      in (tq\<lparr>tl_head := timer_insert t (tl_head tq), next_timer_ref := ref + 1\<rparr>, ref))"

definition sw_cancel_timer :: "u64 \<Rightarrow> 'p sw_timer_list \<Rightarrow> 'p sw_timer_list \<times> int" where
  "sw_cancel_timer ref tq =
     (if ref = 0 then (tq, -1)
      else case find (\<lambda>t. tm_ref t = ref) (tl_head tq) of
             Some rm \<Rightarrow> (tq\<lparr>tl_head := remove_first (\<lambda>t. tm_ref t = ref) (tl_head tq)\<rparr>, 0)
           | None \<Rightarrow> (tq, -1))"

text \<open>What a timer that is due does: wake its process, or send it the message.\<close>

datatype 'p timer_action = Wake proc_ref | Deliver proc_ref u64 "'p option"

definition timer_fire :: "'p sw_timer \<Rightarrow> 'p timer_action" where
  "timer_fire t =
     (if tm_msg t = None \<and> tm_tag t = SW_TAG_NONE then Wake (tm_dest t)
      else Deliver (tm_dest t) (tm_tag t) (tm_msg t))"

fun fire_loop :: "u64 \<Rightarrow> 'p sw_timer list \<Rightarrow> 'p sw_timer list \<times> 'p timer_action list" where
  "fire_loop now [] = ([], [])"
| "fire_loop now (t # ts) =
     (if fire_at_ns t \<le> now then apsnd (Cons (timer_fire t)) (fire_loop now ts) else (t # ts, []))"

definition fire_timers :: "u64 \<Rightarrow> 'p sw_timer_list \<Rightarrow> 'p sw_timer_list \<times> 'p timer_action list" where
  "fire_timers now tq = (case fire_loop now (tl_head tq) of (ts, as) \<Rightarrow> (tq\<lparr>tl_head := ts\<rparr>, as))"

subsection \<open>The free list of timer nodes\<close>

definition TIMER_FREELIST_MAX :: nat where [const_simps]: "TIMER_FREELIST_MAX = 64"

record timer_pool =
  tls_timer_free :: "nat list"
  tls_timer_free_count :: nat

definition timer_alloc :: "nat \<Rightarrow> timer_pool \<Rightarrow> timer_pool \<times> nat" where
  "timer_alloc fresh pool =
     (case tls_timer_free pool of
        t # ts \<Rightarrow> (pool\<lparr>tls_timer_free := ts, tls_timer_free_count := tls_timer_free_count pool - 1\<rparr>, t)
      | [] \<Rightarrow> (pool, fresh))"

definition timer_free :: "timer_pool \<Rightarrow> nat \<Rightarrow> timer_pool \<times> bool" where
  "timer_free pool t =
     (if tls_timer_free_count pool < TIMER_FREELIST_MAX
      then (pool\<lparr>tls_timer_free := t # tls_timer_free pool,
                 tls_timer_free_count := tls_timer_free_count pool + 1\<rparr>, False)
      else (pool, True))"

section \<open>Invariant\<close>

definition by_deadline :: "'p sw_timer list \<Rightarrow> bool" where
  "by_deadline ts = sorted_wrt (\<lambda>t u. fire_at_ns t \<le> fire_at_ns u) ts"

definition timers_inv :: "'p sw_timer_list \<Rightarrow> bool" where
  "timers_inv tq \<longleftrightarrow> by_deadline (tl_head tq) \<and> distinct (map tm_ref (tl_head tq))
     \<and> (\<forall>t\<in>set (tl_head tq). 0 < tm_ref t \<and> tm_ref t < next_timer_ref tq) \<and> 0 < next_timer_ref tq"

lemma timers_init_inv: "timers_inv timers_init"
  by (simp add: timers_inv_def timers_init_def by_deadline_def)

lemma set_timer_insert [simp]: "set (timer_insert t ts) = insert t (set ts)"
  by (induction ts) auto

lemma timer_insert_sorted: "by_deadline ts \<Longrightarrow> by_deadline (timer_insert t ts)"
  unfolding by_deadline_def
proof (induction ts)
  case (Cons u us)
  then show ?case by (cases "fire_at_ns u \<le> fire_at_ns t") (auto dest: order_trans)
qed simp

text \<open>The list is a stable one: a new timer goes behind all timers due no later.\<close>

lemma timer_insert_split:
  "by_deadline ts \<Longrightarrow> timer_insert t ts =
     filter (\<lambda>u. fire_at_ns u \<le> fire_at_ns t) ts @ t # filter (\<lambda>u. \<not> fire_at_ns u \<le> fire_at_ns t) ts"
proof (induction ts)
  case (Cons u us)
  show ?case
  proof (cases "fire_at_ns u \<le> fire_at_ns t")
    case False
    then have "\<forall>v\<in>set us. \<not> fire_at_ns v \<le> fire_at_ns t"
      using Cons.prems by (fastforce simp: by_deadline_def)
    then show ?thesis using False by (simp add: filter_empty_conv)
  qed (use Cons in \<open>simp add: by_deadline_def\<close>)
qed simp

lemma distinct_refs_insert:
  "distinct (map tm_ref (timer_insert t ts)) \<longleftrightarrow> tm_ref t \<notin> tm_ref ` set ts \<and> distinct (map tm_ref ts)"
  by (induction ts) auto

lemma fire_loop_sorted:
  "by_deadline ts \<Longrightarrow> fire_loop now ts =
     (filter (\<lambda>t. \<not> fire_at_ns t \<le> now) ts, map timer_fire (filter (\<lambda>t. fire_at_ns t \<le> now) ts))"
proof (induction ts)
  case (Cons t ts)
  show ?case
  proof (cases "fire_at_ns t \<le> now")
    case False
    then have "\<forall>u\<in>set ts. \<not> fire_at_ns u \<le> now" using Cons.prems by (fastforce simp: by_deadline_def)
    then show ?thesis using False by (simp add: filter_empty_conv)
  qed (use Cons in \<open>simp add: by_deadline_def\<close>)
qed simp

lemma by_deadline_filter: "by_deadline ts \<Longrightarrow> by_deadline (filter P ts)"
  unfolding by_deadline_def by (rule sorted_wrt_filter)

lemma send_after_inv:
  assumes inv: "timers_inv tq" and no_wrap: "next_timer_ref tq + 1 \<noteq> 0"
  shows "timers_inv (fst (sw_send_after now delay dest tag msg tq))"
proof -
  have "y < y + 1" if "y + 1 \<noteq> 0" for y :: u64 using that by (rule word_less_succ)
  moreover have "0 < next_timer_ref tq + 1" using no_wrap by (simp add: word_gt_0)
  moreover have "tm_ref t < next_timer_ref tq + 1" if "t \<in> set (tl_head tq)" for t
    using inv that word_less_add_one no_wrap by (auto simp: timers_inv_def)
  ultimately show ?thesis
    using inv no_wrap timer_insert_sorted
    by (auto simp: timers_inv_def sw_send_after_def Let_def distinct_refs_insert)
qed

lemma cancel_filter:
  assumes "timers_inv tq" "ref \<noteq> 0"
  shows "sw_cancel_timer ref tq =
    (tq\<lparr>tl_head := filter (\<lambda>t. tm_ref t \<noteq> ref) (tl_head tq)\<rparr>,
     if ref \<in> tm_ref ` set (tl_head tq) then 0 else -1)"
proof (cases "find (\<lambda>t. tm_ref t = ref) (tl_head tq)")
  case None
  then have "\<forall>t\<in>set (tl_head tq). tm_ref t \<noteq> ref" by (auto simp: find_None_iff)
  then have "filter (\<lambda>t. tm_ref t \<noteq> ref) (tl_head tq) = tl_head tq" by (simp add: filter_id_conv)
  moreover have "ref \<notin> tm_ref ` set (tl_head tq)" using \<open>\<forall>t\<in>_. _\<close> by auto
  ultimately show ?thesis using None assms(2) by (simp add: sw_cancel_timer_def)
next
  case (Some t)
  then have "ref \<in> tm_ref ` set (tl_head tq)" by (auto simp: find_Some_iff)
  moreover have "remove_first (\<lambda>t. tm_ref t = ref) (tl_head tq) = filter (\<lambda>t. tm_ref t \<noteq> ref) (tl_head tq)"
    using assms(1) by (intro remove_first_filter) (simp add: timers_inv_def)
  ultimately show ?thesis using Some assms(2) by (simp add: sw_cancel_timer_def)
qed

lemma timers_inv_filter: "timers_inv tq \<Longrightarrow> timers_inv (tq\<lparr>tl_head := filter P (tl_head tq)\<rparr>)"
  by (auto simp: timers_inv_def by_deadline_filter distinct_map_filter)

lemma fire_timers_filter:
  assumes "timers_inv tq"
  shows "fire_timers now tq =
    (tq\<lparr>tl_head := filter (\<lambda>t. \<not> fire_at_ns t \<le> now) (tl_head tq)\<rparr>,
     map timer_fire (filter (\<lambda>t. fire_at_ns t \<le> now) (tl_head tq)))"
  using assms by (simp add: fire_timers_def fire_loop_sorted timers_inv_def)

section \<open>Timer services as an interface\<close>

text \<open>
  What \<^verbatim>\<open>sw_receive\<close> with a time limit and the delayed sends rely on: a timer that is armed is pending
  until it fires or is cancelled, and it does one of the two once.
\<close>

locale timer_service =
  fixes inv :: "'s \<Rightarrow> bool"
    and pending :: "'s \<Rightarrow> 'p sw_timer set"
    and cancel :: "u64 \<Rightarrow> 's \<Rightarrow> 's \<times> int"
    and fire :: "u64 \<Rightarrow> 's \<Rightarrow> 's \<times> 'p timer_action list"
  assumes inv_cancel: "inv s \<Longrightarrow> inv (fst (cancel ref s))"
    and inv_fire: "inv s \<Longrightarrow> inv (fst (fire now s))"
    and pending_cancel: "inv s \<Longrightarrow> ref \<noteq> 0 \<Longrightarrow> pending (fst (cancel ref s)) = {t \<in> pending s. tm_ref t \<noteq> ref}"
    and pending_fire: "inv s \<Longrightarrow> pending (fst (fire now s)) = {t \<in> pending s. \<not> fire_at_ns t \<le> now}"
    and actions_fire: "inv s \<Longrightarrow> set (snd (fire now s)) = timer_fire ` {t \<in> pending s. fire_at_ns t \<le> now}"
begin

lemma fires_once:
  "inv s \<Longrightarrow> now' \<le> now \<Longrightarrow> snd (fire now' (fst (fire now s))) = []" (is "_ \<Longrightarrow> _ \<Longrightarrow> ?thesis")
proof -
  assume i: "inv s" and le: "now' \<le> now"
  have "{t \<in> pending (fst (fire now s)). fire_at_ns t \<le> now'} = {}"
    unfolding pending_fire [OF i] using le by (auto dest: order_trans)
  then have "set (snd (fire now' (fst (fire now s)))) = {}" using actions_fire [OF inv_fire [OF i]] by simp
  then show ?thesis by simp
qed

lemma cancelled_never_fires:
  assumes "inv s" "ref \<noteq> 0" "a \<in> set (snd (fire now (fst (cancel ref s))))"
  shows "\<exists>t\<in>pending s. a = timer_fire t \<and> tm_ref t \<noteq> ref"
  using actions_fire [OF inv_cancel [OF assms(1)]] pending_cancel [OF assms(1,2)] assms(3) by auto

end

interpretation timers: timer_service timers_inv "\<lambda>tq. set (tl_head tq)" sw_cancel_timer fire_timers
proof
  fix s :: "'p sw_timer_list" and ref now assume s: "timers_inv s"
  show "timers_inv (fst (sw_cancel_timer ref s))"
    using s cancel_filter [OF s, of ref] timers_inv_filter [OF s] by (cases "ref = 0") (simp_all add: sw_cancel_timer_def)
  show "timers_inv (fst (fire_timers now s))" using s by (simp add: fire_timers_filter timers_inv_filter)
  show "set (tl_head (fst (sw_cancel_timer ref s))) = {t \<in> set (tl_head s). tm_ref t \<noteq> ref}" if "ref \<noteq> 0"
    using cancel_filter [OF s that] by simp
  show "set (tl_head (fst (fire_timers now s))) = {t \<in> set (tl_head s). \<not> fire_at_ns t \<le> now}"
    "set (snd (fire_timers now s)) = timer_fire ` {t \<in> set (tl_head s). fire_at_ns t \<le> now}"
    using s by (simp_all add: fire_timers_filter)
qed

section \<open>Properties\<close>

text \<open>
  C28. Firing is exact: \<^verbatim>\<open>fire_timers\<close> fires precisely the timers that are due, in the order of the
  list, keeps precisely the others, and fires nothing when it is called again at that time; the
  early exit at the first timer that is not due misses none.
\<close>

theorem fire_timers_exact:
  assumes "timers_inv tq"
  shows "snd (fire_timers now tq) = map timer_fire (filter (\<lambda>t. fire_at_ns t \<le> now) (tl_head tq))
    \<and> tl_head (fst (fire_timers now tq)) = filter (\<lambda>t. \<not> fire_at_ns t \<le> now) (tl_head tq)
    \<and> snd (fire_timers now (fst (fire_timers now tq))) = [] \<and> timers_inv (fst (fire_timers now tq))"
  using fire_timers_filter [OF assms] timers.fires_once [OF assms] timers.inv_fire [OF assms] by simp

definition demo_timers :: "bool sw_timer_list" where
  "demo_timers = fst (sw_send_after 100 1 4 7 (Some True) (fst (sw_send_after 100 2 5 8 None timers_init)))"

lemma demo_timers_inv: "timers_inv demo_timers"
  unfolding demo_timers_def
  by (intro send_after_inv timers_init_inv) (simp_all add: timers_init_def sw_send_after_def)

theorem fire_timers_exact_witness: "snd (fire_timers 1500000 demo_timers) = [Deliver 4 7 (Some True)]"
  using fire_timers_exact [OF demo_timers_inv, of 1500000]
  by (simp add: demo_timers_def sw_send_after_def timers_init_def timer_fire_def)

text \<open>
  A new timer is placed behind all timers that are due no later and before the others, so
  timers with the same deadline fire in the order they were set; the new reference is not in use, and the
  list stays sorted (as long as fewer than \<open>2 ^ 64 - 1\<close> references were handed out).
\<close>

theorem send_after_stable:
  assumes "timers_inv tq" "next_timer_ref tq + 1 \<noteq> 0" "sw_send_after now delay dest tag msg tq = (tq', ref)"
  shows "tl_head tq' = filter (\<lambda>u. fire_at_ns u \<le> now + delay * 1000000) (tl_head tq)
      @ \<lparr>tm_ref = ref, fire_at_ns = now + delay * 1000000, tm_dest = dest, tm_tag = tag, tm_msg = msg\<rparr>
      # filter (\<lambda>u. \<not> fire_at_ns u \<le> now + delay * 1000000) (tl_head tq)
    \<and> ref \<notin> tm_ref ` set (tl_head tq) \<and> ref \<noteq> 0 \<and> timers_inv tq'"
proof -
  have "by_deadline (tl_head tq)" using assms(1) by (simp add: timers_inv_def)
  moreover have "timers_inv tq'" using send_after_inv [OF assms(1,2), of now delay dest tag msg] assms(3) by simp
  ultimately show ?thesis
    using assms(1,3) by (auto simp: sw_send_after_def Let_def timer_insert_split timers_inv_def)
qed

theorem send_after_stable_witness:
  "map tm_ref (tl_head (fst (sw_send_after 100 1 9 3 (Some False) demo_timers))) = [2, 3, 1]"
  using send_after_stable [OF demo_timers_inv, of 100 1 9 3 "Some False", OF _ surjective_pairing]
  by (simp add: demo_timers_def sw_send_after_def timers_init_def)

text \<open>
  Cancelling removes the timer with that reference and no other; the result tells whether it
  was pending, and a cancelled timer does not fire later.
\<close>

theorem cancel_timer_exact:
  assumes "timers_inv tq" "ref \<noteq> 0"
  shows "tl_head (fst (sw_cancel_timer ref tq)) = filter (\<lambda>t. tm_ref t \<noteq> ref) (tl_head tq)
    \<and> (snd (sw_cancel_timer ref tq) = 0 \<longleftrightarrow> ref \<in> tm_ref ` set (tl_head tq))
    \<and> (\<forall>a\<in>set (snd (fire_timers now (fst (sw_cancel_timer ref tq)))).
         \<exists>t\<in>set (tl_head tq). a = timer_fire t \<and> tm_ref t \<noteq> ref)"
  using cancel_filter [OF assms] timers.cancelled_never_fires [OF assms] by auto

theorem cancel_timer_exact_witness: "map tm_ref (tl_head (fst (sw_cancel_timer 2 demo_timers))) = [1]"
  using cancel_timer_exact [OF demo_timers_inv, of 2]
  by (simp add: demo_timers_def sw_send_after_def timers_init_def)

text \<open>
  The deadline wraps: the product of the delay in milliseconds and 1000000 is taken modulo
  \<open>2 ^ 64\<close>, so a delay of 18446744073710 ms (about 584 years) set at time 1000 ns is due at time 449384 ns.
\<close>

theorem timer_delay_wraps:
  "snd (fire_timers 501000 (fst (sw_send_after 1000 18446744073710 dest tag (Some m) timers_init)))
     = [Deliver dest tag (Some m)]"
  by (simp add: fire_timers_def sw_send_after_def timers_init_def timer_fire_def)

end
