(* ===== verification/Links.thy ===== *)
theory Links
  imports Swarm_Prelude
begin

text \<open>
  Links, monitors and exit signals of \<^verbatim>\<open>src/src/swarmrt_native.c\<close>. A process's link list and its two
  monitor lists are lists of references; the monitor nodes, which are on two lists at once, live in a
  heap. All of it is guarded by the link lock, so an operation is one step; the check of the peer's
  state that \<^verbatim>\<open>sw_link\<close> and \<^verbatim>\<open>sw_monitor\<close> make before they take the lock is a step of its own.
\<close>

section \<open>State\<close>

record sw_signal =
  sg_tag :: u64
  sg_pid :: u64
  sg_ref :: u64
  sg_reason :: int

record sw_monitor_node =
  mn_ref :: u64
  mn_watcher :: proc_ref
  mn_watched :: proc_ref

type_synonym mon_addr = nat

record sw_lproc =
  p_pid :: u64
  p_state :: sw_proc_state
  p_flags :: u32
  p_links :: "proc_ref list"
  monitors_me :: "mon_addr list"
  my_monitors :: "mon_addr list"
  p_parent :: "proc_ref option"
  kill_flag :: bool
  exit_reason :: int
  p_mail :: "sw_signal list"

record link_world =
  lw_proc :: "proc_ref \<Rightarrow> sw_lproc"
  lw_mon :: "mon_addr \<Rightarrow> sw_monitor_node option"
  lw_fresh :: mon_addr
  next_monitor_ref :: u64
  lw_woken :: "proc_ref list"

definition upd_proc :: "proc_ref \<Rightarrow> (sw_lproc \<Rightarrow> sw_lproc) \<Rightarrow> link_world \<Rightarrow> link_world" where
  "upd_proc p f w = w\<lparr>lw_proc := (lw_proc w)(p := f (lw_proc w p))\<rparr>"

definition traps_exit :: "link_world \<Rightarrow> proc_ref \<Rightarrow> bool" where
  "traps_exit w p \<longleftrightarrow> p_flags (lw_proc w p) AND SW_FLAG_TRAP_EXIT \<noteq> 0"

section \<open>Operations\<close>

text \<open>A signal is appended to the target's mail, and the target is woken.\<close>

definition deliver_signal :: "proc_ref \<Rightarrow> u64 \<Rightarrow> u64 \<Rightarrow> u64 \<Rightarrow> int \<Rightarrow> link_world \<Rightarrow> link_world" where
  "deliver_signal target tag from_pid ref reason w =
     (upd_proc target (\<lambda>p. p\<lparr>p_mail := p_mail p @ [\<lparr>sg_tag = tag, sg_pid = from_pid, sg_ref = ref, sg_reason = reason\<rparr>]\<rparr>) w)
       \<lparr>lw_woken := lw_woken w @ [target]\<rparr>"

definition remove_link :: "proc_ref \<Rightarrow> proc_ref \<Rightarrow> link_world \<Rightarrow> link_world" where
  "remove_link p q = upd_proc p (\<lambda>r. r\<lparr>p_links := remove_first (\<lambda>x. x = q) (p_links r)\<rparr>)"

subsection \<open>Exit\<close>

definition kill_peer :: "proc_ref \<Rightarrow> int \<Rightarrow> link_world \<Rightarrow> link_world" where
  "kill_peer peer reason w =
     (upd_proc peer (\<lambda>p. p\<lparr>kill_flag := True, exit_reason := reason\<rparr>) w)\<lparr>lw_woken := lw_woken w @ [peer]\<rparr>"

text \<open>The body of the loop over the links of the process that exits.\<close>

definition exit_link :: "proc_ref \<Rightarrow> int \<Rightarrow> proc_ref \<Rightarrow> link_world \<Rightarrow> link_world" where
  "exit_link proc reason peer w =
     (let w = remove_link peer proc w; pid = p_pid (lw_proc w proc)
      in if reason \<noteq> 0 then
           (if traps_exit w peer then deliver_signal peer SW_TAG_EXIT pid 0 reason w else kill_peer peer reason w)
         else (if traps_exit w peer then deliver_signal peer SW_TAG_EXIT pid 0 0 w else w))"

definition exit_links :: "proc_ref \<Rightarrow> int \<Rightarrow> link_world \<Rightarrow> link_world" where
  "exit_links proc reason w =
     upd_proc proc (\<lambda>p. p\<lparr>p_links := []\<rparr>) (fold (exit_link proc reason) (p_links (lw_proc w proc)) w)"

text \<open>The body of the loop over the monitors that watch it.\<close>

definition exit_watched :: "proc_ref \<Rightarrow> int \<Rightarrow> mon_addr \<Rightarrow> link_world \<Rightarrow> link_world" where
  "exit_watched proc reason m w =
     (case lw_mon w m of
        None \<Rightarrow> w
      | Some mon \<Rightarrow>
          let w = deliver_signal (mn_watcher mon) SW_TAG_DOWN (p_pid (lw_proc w proc)) (mn_ref mon) reason w;
              w = upd_proc (mn_watcher mon) (\<lambda>p. p\<lparr>my_monitors := remove_first (\<lambda>x. x = m) (my_monitors p)\<rparr>) w
          in w\<lparr>lw_mon := (lw_mon w)(m := None)\<rparr>)"

definition exit_monitors_me :: "proc_ref \<Rightarrow> int \<Rightarrow> link_world \<Rightarrow> link_world" where
  "exit_monitors_me proc reason w =
     upd_proc proc (\<lambda>p. p\<lparr>monitors_me := []\<rparr>) (fold (exit_watched proc reason) (monitors_me (lw_proc w proc)) w)"

text \<open>The body of the loop over the monitors it made.\<close>

definition exit_watcher :: "mon_addr \<Rightarrow> link_world \<Rightarrow> link_world" where
  "exit_watcher m w =
     (case lw_mon w m of
        None \<Rightarrow> w
      | Some mon \<Rightarrow>
          let w = upd_proc (mn_watched mon) (\<lambda>p. p\<lparr>monitors_me := remove_first (\<lambda>x. x = m) (monitors_me p)\<rparr>) w
          in w\<lparr>lw_mon := (lw_mon w)(m := None)\<rparr>)"

definition exit_my_monitors :: "proc_ref \<Rightarrow> link_world \<Rightarrow> link_world" where
  "exit_my_monitors proc w =
     upd_proc proc (\<lambda>p. p\<lparr>my_monitors := []\<rparr>) (fold exit_watcher (my_monitors (lw_proc w proc)) w)"

text \<open>Steps 1 to 3 of \<^verbatim>\<open>process_exit\<close>; steps 4 to 6 belong to the components that they clean up.\<close>

definition process_exit_signals :: "proc_ref \<Rightarrow> int \<Rightarrow> link_world \<Rightarrow> link_world" where
  "process_exit_signals proc reason w =
     exit_my_monitors proc (exit_monitors_me proc reason
       (exit_links proc reason (upd_proc proc (\<lambda>p. p\<lparr>exit_reason := reason\<rparr>) w)))"

subsection \<open>Links\<close>

definition is_dead :: "link_world \<Rightarrow> proc_ref \<Rightarrow> bool" where
  "is_dead w p \<longleftrightarrow> p_state (lw_proc w p) = SW_PROC_EXITING \<or> p_state (lw_proc w p) = SW_PROC_FREE"

definition add_link :: "proc_ref \<Rightarrow> proc_ref \<Rightarrow> link_world \<Rightarrow> link_world" where
  "add_link p q = upd_proc p (\<lambda>r. r\<lparr>p_links := q # p_links r\<rparr>)"

text \<open>The part of \<^verbatim>\<open>sw_link\<close> before the lock for a dead peer, and the part under the lock.\<close>

definition link_dead :: "proc_ref \<Rightarrow> proc_ref \<Rightarrow> link_world \<Rightarrow> link_world" where
  "link_dead self other w =
     (if traps_exit w self
      then deliver_signal self SW_TAG_EXIT (p_pid (lw_proc w other)) 0 (exit_reason (lw_proc w other)) w
      else if exit_reason (lw_proc w other) \<noteq> 0
      then upd_proc self (\<lambda>p. p\<lparr>kill_flag := True, exit_reason := exit_reason (lw_proc w other)\<rparr>) w
      else w)"

definition link_insert :: "proc_ref \<Rightarrow> proc_ref \<Rightarrow> link_world \<Rightarrow> link_world" where
  "link_insert self other w =
     (if other \<in> set (p_links (lw_proc w self)) then w else add_link other self (add_link self other w))"

definition sw_link :: "proc_ref \<Rightarrow> proc_ref \<Rightarrow> link_world \<Rightarrow> link_world \<times> int" where
  "sw_link self other w =
     (if self = other then (w, -1)
      else if is_dead w other then (link_dead self other w, 0)
      else (link_insert self other w, 0))"

definition sw_unlink :: "proc_ref \<Rightarrow> proc_ref \<Rightarrow> link_world \<Rightarrow> link_world \<times> int" where
  "sw_unlink self other w = (remove_link other self (remove_link self other w), 0)"

text \<open>The link that \<^verbatim>\<open>sw_spawn_link\<close> makes to the child it spawned.\<close>

definition spawn_link_insert :: "proc_ref \<Rightarrow> proc_ref \<Rightarrow> link_world \<Rightarrow> link_world" where
  "spawn_link_insert self child w =
     upd_proc child (\<lambda>p. p\<lparr>p_parent := Some self\<rparr>) (add_link child self (add_link self child w))"

subsection \<open>Monitors\<close>

definition monitor_insert :: "proc_ref \<Rightarrow> proc_ref \<Rightarrow> u64 \<Rightarrow> link_world \<Rightarrow> link_world" where
  "monitor_insert self target ref w =
     (let m = lw_fresh w;
          w = w\<lparr>lw_mon := (lw_mon w)(m := Some \<lparr>mn_ref = ref, mn_watcher = self, mn_watched = target\<rparr>), lw_fresh := Suc m\<rparr>;
          w = upd_proc self (\<lambda>p. p\<lparr>my_monitors := m # my_monitors p\<rparr>) w
      in upd_proc target (\<lambda>p. p\<lparr>monitors_me := m # monitors_me p\<rparr>) w)"

definition sw_monitor :: "proc_ref \<Rightarrow> proc_ref \<Rightarrow> link_world \<Rightarrow> link_world \<times> u64" where
  "sw_monitor self target w =
     (let ref = next_monitor_ref w; w = w\<lparr>next_monitor_ref := ref + 1\<rparr>
      in if is_dead w target
         then (deliver_signal self SW_TAG_DOWN (p_pid (lw_proc w target)) ref (exit_reason (lw_proc w target)) w, ref)
         else (monitor_insert self target ref w, ref))"

definition mon_has_ref :: "link_world \<Rightarrow> u64 \<Rightarrow> mon_addr \<Rightarrow> bool" where
  "mon_has_ref w ref m = (case lw_mon w m of None \<Rightarrow> False | Some mon \<Rightarrow> mn_ref mon = ref)"

definition sw_demonitor :: "proc_ref \<Rightarrow> u64 \<Rightarrow> link_world \<Rightarrow> link_world \<times> int" where
  "sw_demonitor self ref w =
     (if ref = 0 then (w, -1)
      else case find (mon_has_ref w ref) (my_monitors (lw_proc w self)) of
             None \<Rightarrow> (w, -1)
           | Some m \<Rightarrow>
               (exit_watcher m
                  (upd_proc self (\<lambda>p. p\<lparr>my_monitors := remove_first (mon_has_ref w ref) (my_monitors p)\<rparr>) w), 0))"

definition sw_process_flag :: "proc_ref \<Rightarrow> u32 \<Rightarrow> bool \<Rightarrow> link_world \<Rightarrow> link_world" where
  "sw_process_flag self flag value =
     upd_proc self (\<lambda>p. p\<lparr>p_flags := (if value then p_flags p OR flag else p_flags p AND NOT flag)\<rparr>)"

section \<open>What the operations change\<close>

named_theorems link_simps \<open>effects of the link operations on the parts of the state\<close>

lemma upd_proc_simps [link_simps]:
  "lw_proc (upd_proc p f w) = (lw_proc w)(p := f (lw_proc w p))" "lw_mon (upd_proc p f w) = lw_mon w"
  "lw_fresh (upd_proc p f w) = lw_fresh w" "next_monitor_ref (upd_proc p f w) = next_monitor_ref w"
  by (simp_all add: upd_proc_def)

lemma deliver_simps [link_simps]:
  "lw_proc (deliver_signal q tag pid ref reason w) = (lw_proc w)(q := (lw_proc w q)
     \<lparr>p_mail := p_mail (lw_proc w q) @ [\<lparr>sg_tag = tag, sg_pid = pid, sg_ref = ref, sg_reason = reason\<rparr>]\<rparr>)"
  "lw_mon (deliver_signal q tag pid ref reason w) = lw_mon w"
  "lw_fresh (deliver_signal q tag pid ref reason w) = lw_fresh w"
  "next_monitor_ref (deliver_signal q tag pid ref reason w) = next_monitor_ref w"
  by (simp_all add: deliver_signal_def link_simps)

text \<open>What happens to a peer of a process that exits.\<close>

definition exit_signal :: "u64 \<Rightarrow> int \<Rightarrow> sw_signal" where
  "exit_signal pid reason = \<lparr>sg_tag = SW_TAG_EXIT, sg_pid = pid, sg_ref = 0, sg_reason = reason\<rparr>"

definition exit_peer :: "proc_ref \<Rightarrow> u64 \<Rightarrow> int \<Rightarrow> sw_lproc \<Rightarrow> sw_lproc" where
  "exit_peer proc pid reason r =
     (let r = r\<lparr>p_links := remove_first (\<lambda>x. x = proc) (p_links r)\<rparr>
      in if p_flags r AND SW_FLAG_TRAP_EXIT \<noteq> 0 then r\<lparr>p_mail := p_mail r @ [exit_signal pid reason]\<rparr>
         else if reason \<noteq> 0 then r\<lparr>kill_flag := True, exit_reason := reason\<rparr>
         else r)"

lemma exit_link_simps:
  assumes "peer \<noteq> proc"
  shows "lw_proc (exit_link proc reason peer w) =
      (lw_proc w)(peer := exit_peer proc (p_pid (lw_proc w proc)) reason (lw_proc w peer))"
    "lw_mon (exit_link proc reason peer w) = lw_mon w" "lw_fresh (exit_link proc reason peer w) = lw_fresh w"
    "next_monitor_ref (exit_link proc reason peer w) = next_monitor_ref w"
  using assms
  by (auto simp: exit_link_def remove_link_def kill_peer_def traps_exit_def exit_peer_def exit_signal_def Let_def link_simps)

text \<open>The loop over the links: a peer is told as often as it is on the list.\<close>

lemma exit_links_fold:
  assumes "proc \<notin> set L"
  shows "lw_proc (fold (exit_link proc reason) L w) q =
      (exit_peer proc (p_pid (lw_proc w proc)) reason ^^ count (mset L) q) (lw_proc w q)"
    "lw_mon (fold (exit_link proc reason) L w) = lw_mon w"
    "lw_fresh (fold (exit_link proc reason) L w) = lw_fresh w"
    "next_monitor_ref (fold (exit_link proc reason) L w) = next_monitor_ref w"
  using assms by (induction L arbitrary: w) (auto simp: exit_link_simps funpow_swap1)

text \<open>The DOWN messages that the watchers of a process get, one per monitor.\<close>

definition down_signal :: "u64 \<Rightarrow> int \<Rightarrow> sw_monitor_node \<Rightarrow> sw_signal" where
  "down_signal pid reason mon = \<lparr>sg_tag = SW_TAG_DOWN, sg_pid = pid, sg_ref = mn_ref mon, sg_reason = reason\<rparr>"

definition watcher_of :: "link_world \<Rightarrow> mon_addr \<Rightarrow> proc_ref \<Rightarrow> bool" where
  "watcher_of w m q \<longleftrightarrow> (\<exists>mon. lw_mon w m = Some mon \<and> mn_watcher mon = q)"

definition watched_of :: "link_world \<Rightarrow> mon_addr \<Rightarrow> proc_ref \<Rightarrow> bool" where
  "watched_of w m q \<longleftrightarrow> (\<exists>mon. lw_mon w m = Some mon \<and> mn_watched mon = q)"

section \<open>Invariants\<close>

text \<open>Each link is on both sides equally often, and nobody is linked to itself. A link may be there twice: \<^verbatim>\<open>sw_spawn_link\<close> does not look for one.\<close>

definition links_sym :: "link_world \<Rightarrow> bool" where
  "links_sym w \<longleftrightarrow> (\<forall>p. p \<notin> set (p_links (lw_proc w p)))
     \<and> (\<forall>p q. count (mset (p_links (lw_proc w p))) q = count (mset (p_links (lw_proc w q))) p)"

text \<open>The two lists of every process hold exactly the monitors that name it, each once.\<close>

definition mons_ok :: "link_world \<Rightarrow> bool" where
  "mons_ok w \<longleftrightarrow>
     (\<forall>p. distinct (my_monitors (lw_proc w p)) \<and> set (my_monitors (lw_proc w p)) = {m. watcher_of w m p})
     \<and> (\<forall>p. distinct (monitors_me (lw_proc w p)) \<and> set (monitors_me (lw_proc w p)) = {m. watched_of w m p})
     \<and> (\<forall>m mon. lw_mon w m = Some mon \<longrightarrow> m < lw_fresh w \<and> 0 < mn_ref mon \<and> mn_ref mon < next_monitor_ref w)
     \<and> (\<forall>m n mon mon'. lw_mon w m = Some mon \<longrightarrow> lw_mon w n = Some mon' \<longrightarrow> mn_ref mon = mn_ref mon' \<longrightarrow> m = n)
     \<and> 0 < next_monitor_ref w"

lemma mons_okD:
  assumes "mons_ok w"
  shows "distinct (my_monitors (lw_proc w p))" "set (my_monitors (lw_proc w p)) = {m. watcher_of w m p}"
    "distinct (monitors_me (lw_proc w p))" "set (monitors_me (lw_proc w p)) = {m. watched_of w m p}"
    "lw_mon w m = Some mon \<Longrightarrow> m < lw_fresh w" "lw_mon w m = Some mon \<Longrightarrow> 0 < mn_ref mon"
    "lw_mon w m = Some mon \<Longrightarrow> mn_ref mon < next_monitor_ref w"
    "lw_mon w m = Some mon \<Longrightarrow> lw_mon w n = Some mon' \<Longrightarrow> mn_ref mon = mn_ref mon' \<Longrightarrow> m = n"
    "0 < next_monitor_ref w"
  using assms by (simp_all add: mons_ok_def) (metis+)?

section \<open>The loops of exit\<close>

lemma exit_watched_simps:
  assumes "lw_mon w m = Some mon"
  shows "lw_proc (exit_watched proc reason m w) = (lw_proc w)(mn_watcher mon := (lw_proc w (mn_watcher mon))
      \<lparr>p_mail := p_mail (lw_proc w (mn_watcher mon)) @ [down_signal (p_pid (lw_proc w proc)) reason mon],
       my_monitors := remove_first (\<lambda>x. x = m) (my_monitors (lw_proc w (mn_watcher mon)))\<rparr>)"
    "lw_mon (exit_watched proc reason m w) = (lw_mon w)(m := None)"
    "lw_fresh (exit_watched proc reason m w) = lw_fresh w"
    "next_monitor_ref (exit_watched proc reason m w) = next_monitor_ref w"
  using assms by (auto simp: exit_watched_def link_simps down_signal_def Let_def)

definition downs :: "link_world \<Rightarrow> u64 \<Rightarrow> int \<Rightarrow> mon_addr list \<Rightarrow> proc_ref \<Rightarrow> sw_signal list" where
  "downs w pid reason M q = map (\<lambda>m. down_signal pid reason (the (lw_mon w m))) (filter (\<lambda>m. watcher_of w m q) M)"

lemma downs_cong:
  assumes "\<And>m. m \<in> set M \<Longrightarrow> lw_mon w' m = lw_mon w m"
  shows "downs w' pid reason M q = downs w pid reason M q"
  using assms by (induction M) (auto simp: downs_def watcher_of_def)

lemma exit_watched_fold:
  assumes "distinct M" "\<And>m. m \<in> set M \<Longrightarrow> lw_mon w m \<noteq> None" "\<And>q. distinct (my_monitors (lw_proc w q))"
  shows "lw_proc (fold (exit_watched proc reason) M w) q =
      (lw_proc w q)\<lparr>p_mail := p_mail (lw_proc w q) @ downs w (p_pid (lw_proc w proc)) reason M q,
        my_monitors := filter (\<lambda>m. \<not> (m \<in> set M \<and> watcher_of w m q)) (my_monitors (lw_proc w q))\<rparr>
    \<and> (\<forall>n. lw_mon (fold (exit_watched proc reason) M w) n = (if n \<in> set M then None else lw_mon w n))
    \<and> lw_fresh (fold (exit_watched proc reason) M w) = lw_fresh w
    \<and> next_monitor_ref (fold (exit_watched proc reason) M w) = next_monitor_ref w"
  using assms
proof (induction M arbitrary: w)
  case Nil
  then show ?case by (simp add: downs_def)
next
  case (Cons m M)
  obtain mon where mon: "lw_mon w m = Some mon" using Cons.prems(2) by fastforce
  let ?w = "exit_watched proc reason m w"
  note s = exit_watched_simps [OF mon, of proc reason]
  have pid: "p_pid (lw_proc ?w proc) = p_pid (lw_proc w proc)" by (simp add: s)
  have d: "distinct (my_monitors (lw_proc ?w r))" for r
    using Cons.prems(3) by (simp add: s distinct_remove_first)
  have al: "lw_mon ?w n \<noteq> None" if "n \<in> set M" for n
    using Cons.prems(1,2) that by (auto simp: s)
  have dw: "downs ?w pid' reason M q = downs w pid' reason M q" for pid'
    using Cons.prems(1) by (intro downs_cong) (auto simp: s)
  have wt: "watcher_of ?w n q \<longleftrightarrow> watcher_of w n q" if "n \<noteq> m" for n using that by (simp add: watcher_of_def s)
  note IH = Cons.IH [of ?w, OF _ al d, unfolded pid dw]
  have "downs w pid' reason (m # M) q =
      (if mn_watcher mon = q then [down_signal pid' reason mon] else []) @ downs w pid' reason M q" for pid'
    by (simp add: downs_def watcher_of_def mon)
  moreover have "filter (\<lambda>n. \<not> (n \<in> set M \<and> watcher_of ?w n q)) (my_monitors (lw_proc ?w q))
      = filter (\<lambda>n. \<not> (n \<in> set (m # M) \<and> watcher_of w n q)) (my_monitors (lw_proc w q))"
    using wt Cons.prems(1) mon
    by (auto simp: s remove_first_distinct [OF Cons.prems(3)] watcher_of_def intro!: filter_cong)
  ultimately show ?case using IH Cons.prems(1) by (auto simp: s)
qed

lemma exit_watcher_simps:
  assumes "lw_mon w m = Some mon"
  shows "lw_proc (exit_watcher m w) = (lw_proc w)(mn_watched mon := (lw_proc w (mn_watched mon))
      \<lparr>monitors_me := remove_first (\<lambda>x. x = m) (monitors_me (lw_proc w (mn_watched mon)))\<rparr>)"
    "lw_mon (exit_watcher m w) = (lw_mon w)(m := None)" "lw_fresh (exit_watcher m w) = lw_fresh w"
    "next_monitor_ref (exit_watcher m w) = next_monitor_ref w"
  using assms by (auto simp: exit_watcher_def link_simps Let_def)

lemma exit_watcher_fold:
  assumes "distinct M" "\<And>m. m \<in> set M \<Longrightarrow> lw_mon w m \<noteq> None" "\<And>q. distinct (monitors_me (lw_proc w q))"
  shows "lw_proc (fold exit_watcher M w) q =
      (lw_proc w q)\<lparr>monitors_me := filter (\<lambda>m. \<not> (m \<in> set M \<and> watched_of w m q)) (monitors_me (lw_proc w q))\<rparr>
    \<and> (\<forall>n. lw_mon (fold exit_watcher M w) n = (if n \<in> set M then None else lw_mon w n))
    \<and> lw_fresh (fold exit_watcher M w) = lw_fresh w
    \<and> next_monitor_ref (fold exit_watcher M w) = next_monitor_ref w"
  using assms
proof (induction M arbitrary: w)
  case Nil
  then show ?case by simp
next
  case (Cons m M)
  obtain mon where mon: "lw_mon w m = Some mon" using Cons.prems(2) by fastforce
  let ?w = "exit_watcher m w"
  note s = exit_watcher_simps [OF mon]
  have d: "distinct (monitors_me (lw_proc ?w r))" for r
    using Cons.prems(3) by (simp add: s distinct_remove_first)
  have al: "lw_mon ?w n \<noteq> None" if "n \<in> set M" for n
    using Cons.prems(1,2) that by (auto simp: s)
  have wt: "watched_of ?w n q \<longleftrightarrow> watched_of w n q" if "n \<noteq> m" for n using that by (simp add: watched_of_def s)
  note IH = Cons.IH [of ?w, OF _ al d]
  have "filter (\<lambda>n. \<not> (n \<in> set M \<and> watched_of ?w n q)) (monitors_me (lw_proc ?w q))
      = filter (\<lambda>n. \<not> (n \<in> set (m # M) \<and> watched_of w n q)) (monitors_me (lw_proc w q))"
    using wt Cons.prems(1) mon
    by (auto simp: s remove_first_distinct [OF Cons.prems(3)] watched_of_def intro!: filter_cong)
  then show ?case using IH Cons.prems(1) by (auto simp: s)
qed

lemma exit_links_stage:
  assumes "links_sym w"
  shows "lw_proc (exit_links proc reason w) q =
      (if q = proc then (lw_proc w proc)\<lparr>p_links := []\<rparr>
       else (exit_peer proc (p_pid (lw_proc w proc)) reason ^^ count (mset (p_links (lw_proc w proc))) q) (lw_proc w q))"
    "lw_mon (exit_links proc reason w) = lw_mon w" "lw_fresh (exit_links proc reason w) = lw_fresh w"
    "next_monitor_ref (exit_links proc reason w) = next_monitor_ref w"
proof -
  have L: "proc \<notin> set (p_links (lw_proc w proc))" using assms by (simp add: links_sym_def)
  then have c: "count (mset (p_links (lw_proc w proc))) proc = 0" by (simp add: count_eq_zero_iff)
  show "lw_proc (exit_links proc reason w) q =
      (if q = proc then (lw_proc w proc)\<lparr>p_links := []\<rparr>
       else (exit_peer proc (p_pid (lw_proc w proc)) reason ^^ count (mset (p_links (lw_proc w proc))) q) (lw_proc w q))"
    using L by (simp add: exit_links_def link_simps exit_links_fold c del: count_mset_0_iff)
  show "lw_mon (exit_links proc reason w) = lw_mon w" "lw_fresh (exit_links proc reason w) = lw_fresh w"
    "next_monitor_ref (exit_links proc reason w) = next_monitor_ref w"
    using L by (simp_all add: exit_links_def link_simps exit_links_fold)
qed

lemma exit_me_stage:
  assumes ok: "mons_ok w"
  shows "lw_proc (exit_monitors_me proc reason w) q =
      (lw_proc w q)\<lparr>p_mail := p_mail (lw_proc w q) @ downs w (p_pid (lw_proc w proc)) reason (monitors_me (lw_proc w proc)) q,
        my_monitors := filter (\<lambda>m. \<not> watched_of w m proc) (my_monitors (lw_proc w q)),
        monitors_me := (if q = proc then [] else monitors_me (lw_proc w q))\<rparr>"
    "lw_mon (exit_monitors_me proc reason w) m = (if watched_of w m proc then None else lw_mon w m)"
    "lw_fresh (exit_monitors_me proc reason w) = lw_fresh w"
    "next_monitor_ref (exit_monitors_me proc reason w) = next_monitor_ref w"
proof -
  let ?M = "monitors_me (lw_proc w proc)"
  have M: "distinct ?M" "set ?M = {m. watched_of w m proc}" using mons_okD(3,4) [OF ok] by simp_all
  have al: "lw_mon w m \<noteq> None" if "m \<in> set ?M" for m using that M(2) by (auto simp: watched_of_def)
  note F = exit_watched_fold [of ?M w proc reason, OF M(1) al mons_okD(1) [OF ok]]
  have "filter (\<lambda>m. \<not> (m \<in> set ?M \<and> watcher_of w m r)) (my_monitors (lw_proc w r))
      = filter (\<lambda>m. \<not> watched_of w m proc) (my_monitors (lw_proc w r))" for r
    using M(2) mons_okD(2) [OF ok, of r] by (auto intro!: filter_cong)
  then have "lw_proc (fold (exit_watched proc reason) ?M w) r =
      (lw_proc w r)\<lparr>p_mail := p_mail (lw_proc w r) @ downs w (p_pid (lw_proc w proc)) reason ?M r,
        my_monitors := filter (\<lambda>m. \<not> watched_of w m proc) (my_monitors (lw_proc w r))\<rparr>" for r
    using F [of r] by simp
  then show "lw_proc (exit_monitors_me proc reason w) q =
      (lw_proc w q)\<lparr>p_mail := p_mail (lw_proc w q) @ downs w (p_pid (lw_proc w proc)) reason ?M q,
        my_monitors := filter (\<lambda>m. \<not> watched_of w m proc) (my_monitors (lw_proc w q)),
        monitors_me := (if q = proc then [] else monitors_me (lw_proc w q))\<rparr>"
    by (simp add: exit_monitors_me_def link_simps)
  show "lw_mon (exit_monitors_me proc reason w) m = (if watched_of w m proc then None else lw_mon w m)"
    "lw_fresh (exit_monitors_me proc reason w) = lw_fresh w"
    "next_monitor_ref (exit_monitors_me proc reason w) = next_monitor_ref w"
    using F M(2) by (simp_all add: exit_monitors_me_def link_simps)
qed

lemma exit_my_stage:
  assumes "\<And>q. distinct (my_monitors (lw_proc w q))" "\<And>q. distinct (monitors_me (lw_proc w q))"
    and M: "set (my_monitors (lw_proc w proc)) = {m. watcher_of w m proc}"
  shows "lw_proc (exit_my_monitors proc w) q =
      (lw_proc w q)\<lparr>my_monitors := (if q = proc then [] else my_monitors (lw_proc w q)),
        monitors_me := filter (\<lambda>m. \<not> (watcher_of w m proc \<and> watched_of w m q)) (monitors_me (lw_proc w q))\<rparr>"
    "lw_mon (exit_my_monitors proc w) m = (if watcher_of w m proc then None else lw_mon w m)"
    "lw_fresh (exit_my_monitors proc w) = lw_fresh w"
    "next_monitor_ref (exit_my_monitors proc w) = next_monitor_ref w"
proof -
  let ?M = "my_monitors (lw_proc w proc)"
  have al: "lw_mon w m \<noteq> None" if "m \<in> set ?M" for m using that M by (auto simp: watcher_of_def)
  note F = exit_watcher_fold [of ?M w, OF assms(1) al assms(2)]
  show "lw_proc (exit_my_monitors proc w) q =
      (lw_proc w q)\<lparr>my_monitors := (if q = proc then [] else my_monitors (lw_proc w q)),
        monitors_me := filter (\<lambda>m. \<not> (watcher_of w m proc \<and> watched_of w m q)) (monitors_me (lw_proc w q))\<rparr>"
    using F [of q] F [of proc] M by (simp add: exit_my_monitors_def link_simps)
  show "lw_mon (exit_my_monitors proc w) m = (if watcher_of w m proc then None else lw_mon w m)"
    "lw_fresh (exit_my_monitors proc w) = lw_fresh w"
    "next_monitor_ref (exit_my_monitors proc w) = next_monitor_ref w"
    using F M by (simp_all add: exit_my_monitors_def link_simps)
qed

text \<open>A change of the processes that leaves the monitor lists alone keeps their invariant.\<close>

lemma mons_ok_frame:
  assumes "mons_ok w" "lw_mon w' = lw_mon w" "lw_fresh w' = lw_fresh w" "next_monitor_ref w' = next_monitor_ref w"
    and "\<And>q. my_monitors (lw_proc w' q) = my_monitors (lw_proc w q)"
    and "\<And>q. monitors_me (lw_proc w' q) = monitors_me (lw_proc w q)"
  shows "mons_ok w'"
proof -
  have "watcher_of w' = watcher_of w" "watched_of w' = watched_of w"
    using assms(2) by (auto simp: fun_eq_iff watcher_of_def watched_of_def)
  then show ?thesis using assms by (simp add: mons_ok_def)
qed

lemma exit_peer_simps [simp]:
  "p_links (exit_peer proc pid reason r) = remove_first (\<lambda>x. x = proc) (p_links r)"
  "my_monitors (exit_peer proc pid reason r) = my_monitors r" "monitors_me (exit_peer proc pid reason r) = monitors_me r"
  "p_pid (exit_peer proc pid reason r) = p_pid r" "p_flags (exit_peer proc pid reason r) = p_flags r"
  "p_state (exit_peer proc pid reason r) = p_state r"
  "p_mail (exit_peer proc pid reason r) =
     p_mail r @ (if p_flags r AND SW_FLAG_TRAP_EXIT \<noteq> 0 then [exit_signal pid reason] else [])"
  "kill_flag (exit_peer proc pid reason r) \<longleftrightarrow> kill_flag r \<or> p_flags r AND SW_FLAG_TRAP_EXIT = 0 \<and> reason \<noteq> 0"
  by (auto simp: exit_peer_def Let_def)

lemma exit_peer_pow:
  "my_monitors ((exit_peer proc pid reason ^^ n) r) = my_monitors r" "monitors_me ((exit_peer proc pid reason ^^ n) r) = monitors_me r"
  "p_pid ((exit_peer proc pid reason ^^ n) r) = p_pid r" "p_flags ((exit_peer proc pid reason ^^ n) r) = p_flags r"
  "p_mail ((exit_peer proc pid reason ^^ n) r) =
     p_mail r @ (if p_flags r AND SW_FLAG_TRAP_EXIT \<noteq> 0 then replicate n (exit_signal pid reason) else [])"
  "kill_flag ((exit_peer proc pid reason ^^ n) r) \<longleftrightarrow> kill_flag r \<or> 0 < n \<and> p_flags r AND SW_FLAG_TRAP_EXIT = 0 \<and> reason \<noteq> 0"
  "count (mset (p_links ((exit_peer proc pid reason ^^ n) r))) x = count (mset (p_links r)) x - (if x = proc then n else 0)"
  by (induction n) (auto simp: replicate_append_same count_remove_first)

section \<open>The whole exit\<close>

lemma watched_unique: "watched_of w m q \<Longrightarrow> watched_of w m r \<Longrightarrow> q = r"
  by (auto simp: watched_of_def)

lemma watcher_unique: "watcher_of w m q \<Longrightarrow> watcher_of w m r \<Longrightarrow> q = r"
  by (auto simp: watcher_of_def)

text \<open>The two loops over the monitors, whatever the links are.\<close>

lemma exit_mons_result:
  fixes proc :: proc_ref and reason :: int and w :: link_world
  assumes ok: "mons_ok w"
  defines "w' \<equiv> exit_my_monitors proc (exit_monitors_me proc reason w)"
  shows "lw_proc w' q = (lw_proc w q)
      \<lparr>p_mail := p_mail (lw_proc w q) @ downs w (p_pid (lw_proc w proc)) reason (monitors_me (lw_proc w proc)) q,
       my_monitors := (if q = proc then [] else filter (\<lambda>m. \<not> watched_of w m proc) (my_monitors (lw_proc w q))),
       monitors_me := (if q = proc then [] else filter (\<lambda>m. \<not> watcher_of w m proc) (monitors_me (lw_proc w q)))\<rparr>"
    "lw_mon w' m = (if watcher_of w m proc \<or> watched_of w m proc then None else lw_mon w m)"
    "lw_fresh w' = lw_fresh w" "next_monitor_ref w' = next_monitor_ref w"
proof -
  let ?w3 = "exit_monitors_me proc reason w"
  note s3 = exit_me_stage [OF ok, of proc reason]
  have my3: "my_monitors (lw_proc ?w3 r) = filter (\<lambda>m. \<not> watched_of w m proc) (my_monitors (lw_proc w r))"
    and me3: "monitors_me (lw_proc ?w3 r) = (if r = proc then [] else monitors_me (lw_proc w r))" for r
    by (simp_all add: s3)
  have o3: "watcher_of ?w3 m r \<longleftrightarrow> watcher_of w m r \<and> \<not> watched_of w m proc"
      "watched_of ?w3 m r \<longleftrightarrow> watched_of w m r \<and> \<not> watched_of w m proc" for m r
    by (auto simp: watcher_of_def watched_of_def s3(2) split: if_splits)
  have s4: "lw_proc (exit_my_monitors proc ?w3) r =
      (lw_proc ?w3 r)\<lparr>my_monitors := (if r = proc then [] else my_monitors (lw_proc ?w3 r)),
        monitors_me := filter (\<lambda>m. \<not> (watcher_of ?w3 m proc \<and> watched_of ?w3 m r)) (monitors_me (lw_proc ?w3 r))\<rparr>"
    "lw_mon (exit_my_monitors proc ?w3) m = (if watcher_of ?w3 m proc then None else lw_mon ?w3 m)"
    "lw_fresh (exit_my_monitors proc ?w3) = lw_fresh ?w3"
    "next_monitor_ref (exit_my_monitors proc ?w3) = next_monitor_ref ?w3" for r m
    by (rule exit_my_stage; use mons_okD(1-4) [OF ok] in \<open>auto simp: my3 me3 o3\<close>)+
  have f: "filter (\<lambda>m. \<not> (watcher_of ?w3 m proc \<and> watched_of ?w3 m q)) (monitors_me (lw_proc w q))
      = filter (\<lambda>m. \<not> watcher_of w m proc) (monitors_me (lw_proc w q))" if "q \<noteq> proc"
    using mons_okD(4) [OF ok, of q] that by (intro filter_cong) (auto simp: o3 dest: watched_unique)
  show "lw_proc w' q = (lw_proc w q)
      \<lparr>p_mail := p_mail (lw_proc w q) @ downs w (p_pid (lw_proc w proc)) reason (monitors_me (lw_proc w proc)) q,
       my_monitors := (if q = proc then [] else filter (\<lambda>m. \<not> watched_of w m proc) (my_monitors (lw_proc w q))),
       monitors_me := (if q = proc then [] else filter (\<lambda>m. \<not> watcher_of w m proc) (monitors_me (lw_proc w q)))\<rparr>"
  proof (cases "q = proc")
    case True
    then show ?thesis by (simp add: w'_def s4 me3) (simp add: s3)
  next
    case False
    then show ?thesis using f by (simp add: w'_def s4 me3 my3) (simp add: s3)
  qed
  show "lw_mon w' m = (if watcher_of w m proc \<or> watched_of w m proc then None else lw_mon w m)"
    by (auto simp: w'_def s4 s3 o3)
  show "lw_fresh w' = lw_fresh w" "next_monitor_ref w' = next_monitor_ref w"
    by (simp_all add: w'_def s4 s3)
qed

lemma exit_mons_ok: "mons_ok w \<Longrightarrow> mons_ok (exit_my_monitors proc (exit_monitors_me proc reason w))"
proof -
  assume ok: "mons_ok w"
  note r = exit_mons_result [OF ok, of proc reason]
  let ?w = "exit_my_monitors proc (exit_monitors_me proc reason w)"
  have o: "watcher_of ?w m q \<longleftrightarrow> watcher_of w m q \<and> \<not> watcher_of w m proc \<and> \<not> watched_of w m proc"
      "watched_of ?w m q \<longleftrightarrow> watched_of w m q \<and> \<not> watcher_of w m proc \<and> \<not> watched_of w m proc" for m q
    unfolding watcher_of_def watched_of_def r(2) by auto
  show ?thesis
    using mons_okD [OF ok] unfolding mons_ok_def r o
    by (auto simp: watcher_of_def watched_of_def split: if_splits)
qed

lemma exit_result:
  fixes proc :: proc_ref and reason :: int and w :: link_world
  assumes L: "links_sym w" and ok: "mons_ok w"
  defines "w' \<equiv> process_exit_signals proc reason w"
  shows "count (mset (p_links (lw_proc w' q))) x = (if q = proc \<or> x = proc then 0 else count (mset (p_links (lw_proc w q))) x)"
    "q \<noteq> proc \<Longrightarrow> p_mail (lw_proc w' q) = p_mail (lw_proc w q)
       @ (if traps_exit w q then replicate (count (mset (p_links (lw_proc w proc))) q) (exit_signal (p_pid (lw_proc w proc)) reason) else [])
       @ downs w (p_pid (lw_proc w proc)) reason (monitors_me (lw_proc w proc)) q"
    "q \<noteq> proc \<Longrightarrow> kill_flag (lw_proc w' q) \<longleftrightarrow> kill_flag (lw_proc w q)
       \<or> q \<in> set (p_links (lw_proc w proc)) \<and> \<not> traps_exit w q \<and> reason \<noteq> 0"
    "lw_mon w' m = (if watcher_of w m proc \<or> watched_of w m proc then None else lw_mon w m)" "mons_ok w'"
proof -
  let ?w1 = "upd_proc proc (\<lambda>p. p\<lparr>exit_reason := reason\<rparr>) w"
  let ?w2 = "exit_links proc reason ?w1"
  have L1: "links_sym ?w1" using L by (simp add: links_sym_def link_simps)
  note s2 = exit_links_stage [OF L1, of proc reason]
  have f2: "monitors_me (lw_proc ?w2 r) = monitors_me (lw_proc w r)" "my_monitors (lw_proc ?w2 r) = my_monitors (lw_proc w r)"
      "p_pid (lw_proc ?w2 r) = p_pid (lw_proc w r)" for r
    by (simp_all add: s2 link_simps exit_peer_pow)
  have m2: "lw_mon ?w2 = lw_mon w" by (simp add: s2 link_simps)
  then have o2: "watcher_of ?w2 = watcher_of w" "watched_of ?w2 = watched_of w" "downs ?w2 = downs w"
    by (auto simp: fun_eq_iff watcher_of_def watched_of_def downs_def)
  have ok2: "mons_ok ?w2" by (rule mons_ok_frame [OF ok]) (simp_all add: s2 link_simps exit_peer_pow)
  note r = exit_mons_result [OF ok2, of proc reason, unfolded f2 o2]
  have w': "w' = exit_my_monitors proc (exit_monitors_me proc reason ?w2)" by (simp add: w'_def process_exit_signals_def)
  have c: "count (mset (p_links (lw_proc w q))) proc = count (mset (p_links (lw_proc w proc))) q" using L by (simp add: links_sym_def)
  show "count (mset (p_links (lw_proc w' q))) x = (if q = proc \<or> x = proc then 0 else count (mset (p_links (lw_proc w q))) x)"
    using c by (simp add: w' r s2 link_simps exit_peer_pow del: count_mset_0_iff)
  show "p_mail (lw_proc w' q) = p_mail (lw_proc w q)
       @ (if traps_exit w q then replicate (count (mset (p_links (lw_proc w proc))) q) (exit_signal (p_pid (lw_proc w proc)) reason) else [])
       @ downs w (p_pid (lw_proc w proc)) reason (monitors_me (lw_proc w proc)) q" if "q \<noteq> proc"
    using that by (simp add: w' r) (simp add: s2 link_simps traps_exit_def exit_peer_pow)
  have "0 < count (mset (p_links (lw_proc w proc))) q \<longleftrightarrow> q \<in> set (p_links (lw_proc w proc))" by simp
  then show "kill_flag (lw_proc w' q) \<longleftrightarrow> kill_flag (lw_proc w q)
       \<or> q \<in> set (p_links (lw_proc w proc)) \<and> \<not> traps_exit w q \<and> reason \<noteq> 0" if "q \<noteq> proc"
    using that by (simp add: w' r s2 link_simps traps_exit_def exit_peer_pow)
  show "lw_mon w' m = (if watcher_of w m proc \<or> watched_of w m proc then None else lw_mon w m)"
    by (simp add: w' r(2) m2)
  show "mons_ok w'" unfolding w' by (rule exit_mons_ok [OF ok2])
qed

lemma link_absent: "q \<notin> set (p_links (lw_proc w p)) \<longleftrightarrow> count (mset (p_links (lw_proc w p))) q = 0"
  by (simp add: count_eq_zero_iff)

lemma links_sym_exit: "links_sym w \<Longrightarrow> mons_ok w \<Longrightarrow> links_sym (process_exit_signals proc reason w)"
  using exit_result(1) [of w proc reason] unfolding links_sym_def link_absent by simp

section \<open>The other operations keep the invariants\<close>

definition link_inv :: "link_world \<Rightarrow> bool" where
  "link_inv w \<longleftrightarrow> links_sym w \<and> mons_ok w"

lemma links_sym_frame:
  "links_sym w \<Longrightarrow> (\<And>q. p_links (lw_proc w' q) = p_links (lw_proc w q)) \<Longrightarrow> links_sym w'"
  by (simp add: links_sym_def)

lemma mons_ok_upd:
  assumes "mons_ok w" "\<And>r. my_monitors (f r) = my_monitors r" "\<And>r. monitors_me (f r) = monitors_me r"
  shows "mons_ok (upd_proc p f w)"
  by (rule mons_ok_frame [OF assms(1)]) (simp_all add: link_simps assms(2,3))

lemma deliver_inv: "link_inv w \<Longrightarrow> link_inv (deliver_signal q tag pid ref reason w)"
  unfolding link_inv_def by (auto intro!: links_sym_frame [of w] mons_ok_frame [of w] simp: link_simps)

lemma links_sym_add: "links_sym w \<Longrightarrow> p \<noteq> q \<Longrightarrow> links_sym (add_link q p (add_link p q w))"
  unfolding links_sym_def add_link_def by (auto simp: link_simps)

lemma add_link_mons: "mons_ok w \<Longrightarrow> mons_ok (add_link p q w)"
  unfolding add_link_def by (rule mons_ok_upd) simp_all

lemma link_inv_insert: "link_inv w \<Longrightarrow> self \<noteq> other \<Longrightarrow> link_inv (link_insert self other w)"
  unfolding link_insert_def link_inv_def by (auto intro: links_sym_add add_link_mons)

lemma link_inv_link: "link_inv w \<Longrightarrow> link_inv (fst (sw_link self other w))"
proof -
  assume i: "link_inv w"
  have "link_inv (link_dead self other w)"
    using i deliver_inv [OF i] unfolding link_dead_def link_inv_def
    by (auto intro!: links_sym_frame [of w] mons_ok_upd simp: link_simps)
  then show ?thesis using i link_inv_insert [OF i] by (simp add: sw_link_def)
qed

lemma link_inv_unlink: "link_inv w \<Longrightarrow> link_inv (fst (sw_unlink self other w))"
proof -
  assume i: "link_inv w"
  have c: "count (mset (p_links (lw_proc (fst (sw_unlink self other w)) p))) q = count (mset (p_links (lw_proc w p))) q
      - (if p = self \<and> q = other then 1 else 0) - (if p = other \<and> q = self then 1 else 0)" for p q
    unfolding sw_unlink_def remove_link_def fst_conv link_simps fun_upd_apply
    by (cases "p = self"; cases "p = other") (simp_all add: count_remove_first del: count_mset_0_iff)
  have "links_sym (fst (sw_unlink self other w))"
    unfolding links_sym_def link_absent c
  proof (intro conjI allI)
    fix p q
    have z: "count (mset (p_links (lw_proc w p))) p = 0" using i unfolding link_inv_def links_sym_def link_absent by blast
    show "count (mset (p_links (lw_proc w p))) p - (if p = self \<and> p = other then 1 else 0)
        - (if p = other \<and> p = self then 1 else 0) = 0" unfolding z by simp
    have y: "count (mset (p_links (lw_proc w p))) q = count (mset (p_links (lw_proc w q))) p"
      using i unfolding link_inv_def links_sym_def by blast
    show "count (mset (p_links (lw_proc w p))) q - (if p = self \<and> q = other then 1 else 0) - (if p = other \<and> q = self then 1 else 0)
        = count (mset (p_links (lw_proc w q))) p - (if q = self \<and> p = other then 1 else 0) - (if q = other \<and> p = self then 1 else 0)"
      unfolding y conj_commute [of "q = self"] conj_commute [of "q = other"] by (rule diff_commute)
  qed
  moreover have "mons_ok (fst (sw_unlink self other w))"
    using i unfolding link_inv_def sw_unlink_def remove_link_def by (auto intro!: mons_ok_upd)
  ultimately show ?thesis by (simp add: link_inv_def)
qed

lemma link_inv_spawn_link:
  assumes "link_inv w" "self \<noteq> child"
  shows "link_inv (spawn_link_insert self child w)"
proof -
  have "links_sym (add_link child self (add_link self child w))"
    using assms by (intro links_sym_add) (simp_all add: link_inv_def)
  then have "links_sym (spawn_link_insert self child w)"
    unfolding spawn_link_insert_def by (rule links_sym_frame) (simp add: link_simps)
  moreover have "mons_ok (spawn_link_insert self child w)"
    using assms(1) unfolding spawn_link_insert_def link_inv_def by (intro mons_ok_upd add_link_mons) simp_all
  ultimately show ?thesis by (simp add: link_inv_def)
qed

lemma monitor_insert_simps [link_simps]:
  "lw_mon (monitor_insert self target ref w) =
     (lw_mon w)(lw_fresh w := Some \<lparr>mn_ref = ref, mn_watcher = self, mn_watched = target\<rparr>)"
  "lw_fresh (monitor_insert self target ref w) = Suc (lw_fresh w)"
  "next_monitor_ref (monitor_insert self target ref w) = next_monitor_ref w"
  "p_links (lw_proc (monitor_insert self target ref w) q) = p_links (lw_proc w q)"
  "my_monitors (lw_proc (monitor_insert self target ref w) q) =
     (if q = self then lw_fresh w # my_monitors (lw_proc w q) else my_monitors (lw_proc w q))"
  "monitors_me (lw_proc (monitor_insert self target ref w) q) =
     (if q = target then lw_fresh w # monitors_me (lw_proc w q) else monitors_me (lw_proc w q))"
  by (simp_all add: monitor_insert_def Let_def link_simps)

lemma monitor_ref_less:
  assumes "mons_ok w" "next_monitor_ref w + 1 \<noteq> 0"
  shows "mons_ok (w\<lparr>next_monitor_ref := next_monitor_ref w + 1\<rparr>)"
proof -
  let ?n = "next_monitor_ref w"
  have "?n < ?n + 1" using unatSuc [of ?n] assms(2) by (simp add: word_less_nat_alt add.commute)
  moreover have "0 < ?n + 1" using assms(2) by (simp add: word_gt_0)
  moreover have "mn_ref mon < ?n + 1" if "lw_mon w m = Some mon" for m mon
    using mons_okD(7) [OF assms(1) that] calculation(1) by (rule order.strict_trans)
  ultimately show ?thesis
    using assms(1) unfolding mons_ok_def watcher_of_def watched_of_def by simp
qed

lemma monitor_insert_mons:
  assumes ok: "mons_ok w" and ref: "0 < ref" "ref < next_monitor_ref w" "\<forall>m mon. lw_mon w m = Some mon \<longrightarrow> mn_ref mon \<noteq> ref"
  shows "mons_ok (monitor_insert self target ref w)"
proof -
  have fresh: "lw_mon w (lw_fresh w) = None" using mons_okD(5) [OF ok] by (cases "lw_mon w (lw_fresh w)") auto
  have o: "watcher_of (monitor_insert self target ref w) m q \<longleftrightarrow> (if m = lw_fresh w then q = self else watcher_of w m q)"
    "watched_of (monitor_insert self target ref w) m q \<longleftrightarrow> (if m = lw_fresh w then q = target else watched_of w m q)" for m q
    by (auto simp: watcher_of_def watched_of_def link_simps)
  have nf: "\<not> watcher_of w (lw_fresh w) q" "\<not> watched_of w (lw_fresh w) q" for q
    using fresh by (simp_all add: watcher_of_def watched_of_def)
  show ?thesis
    unfolding mons_ok_def link_simps o
    using mons_okD [OF ok] nf ref fresh by (auto split: if_splits simp: less_SucI)
qed

lemma link_inv_monitor:
  assumes i: "link_inv w" and n: "next_monitor_ref w + 1 \<noteq> 0"
  shows "link_inv (fst (sw_monitor self target w))"
    "link_inv (monitor_insert self target (next_monitor_ref w) (w\<lparr>next_monitor_ref := next_monitor_ref w + 1\<rparr>))"
proof -
  let ?w = "w\<lparr>next_monitor_ref := next_monitor_ref w + 1\<rparr>"
  have ok: "mons_ok ?w" using i n by (intro monitor_ref_less) (simp_all add: link_inv_def)
  have "link_inv ?w" using i ok by (simp add: link_inv_def links_sym_def)
  moreover show "link_inv (monitor_insert self target (next_monitor_ref w) ?w)"
  proof -
    have "next_monitor_ref w < next_monitor_ref w + 1"
      using unatSuc [of "next_monitor_ref w"] n by (simp add: word_less_nat_alt add.commute)
    moreover have "0 < next_monitor_ref w" "\<forall>m mon. lw_mon w m = Some mon \<longrightarrow> mn_ref mon < next_monitor_ref w"
      using i mons_okD(7,9) [of w] by (simp_all add: link_inv_def)
    moreover from this(2) have "\<forall>m mon. lw_mon w m = Some mon \<longrightarrow> mn_ref mon \<noteq> next_monitor_ref w" by force
    ultimately have "mons_ok (monitor_insert self target (next_monitor_ref w) ?w)"
      by (intro monitor_insert_mons [OF ok]) simp_all
    moreover have "links_sym (monitor_insert self target (next_monitor_ref w) ?w)"
      by (rule links_sym_frame [of w]) (use i in \<open>simp_all add: link_inv_def link_simps\<close>)
    ultimately show ?thesis by (simp add: link_inv_def)
  qed
  ultimately show "link_inv (fst (sw_monitor self target w))" using deliver_inv by (simp add: sw_monitor_def Let_def)
qed

text \<open>Within the monitors of one process the reference identifies the node.\<close>

lemma demonitor_cases:
  assumes ok: "mons_ok w" and "ref \<noteq> 0"
  shows "(\<exists>m mon. lw_mon w m = Some mon \<and> mn_watcher mon = self \<and> mn_ref mon = ref
        \<and> sw_demonitor self ref w = (exit_watcher m
            (upd_proc self (\<lambda>p. p\<lparr>my_monitors := filter (\<lambda>x. x \<noteq> m) (my_monitors p)\<rparr>) w), 0))
    \<or> (\<forall>m mon. lw_mon w m = Some mon \<longrightarrow> mn_watcher mon = self \<longrightarrow> mn_ref mon \<noteq> ref) \<and> sw_demonitor self ref w = (w, -1)"
proof (cases "find (mon_has_ref w ref) (my_monitors (lw_proc w self))")
  case None
  then have "\<forall>m. watcher_of w m self \<longrightarrow> \<not> mon_has_ref w ref m"
    using mons_okD(2) [OF ok, of self] by (auto simp: find_None_iff)
  then have "\<forall>m mon. lw_mon w m = Some mon \<longrightarrow> mn_watcher mon = self \<longrightarrow> mn_ref mon \<noteq> ref"
    by (auto simp: watcher_of_def mon_has_ref_def)
  then show ?thesis using None assms(2) by (simp add: sw_demonitor_def)
next
  case (Some m)
  then have m: "m \<in> set (my_monitors (lw_proc w self))" "mon_has_ref w ref m"
    by (auto simp: find_Some_iff)
  then obtain mon where mon: "lw_mon w m = Some mon" "mn_watcher mon = self" "mn_ref mon = ref"
    using mons_okD(2) [OF ok, of self] by (auto simp: watcher_of_def mon_has_ref_def)
  have "mon_has_ref w ref x \<longleftrightarrow> x = m" if x: "x \<in> set (my_monitors (lw_proc w self))" for x
  proof -
    obtain mon' where "lw_mon w x = Some mon'"
      using x mons_okD(2) [OF ok, of self] by (auto simp: watcher_of_def)
    then show ?thesis using mons_okD(8) [OF ok mon(1), of x mon'] mon(1,3) by (auto simp: mon_has_ref_def)
  qed
  then have "remove_first (mon_has_ref w ref) (my_monitors (lw_proc w self)) = filter (\<lambda>x. x \<noteq> m) (my_monitors (lw_proc w self))"
    using remove_first_cong [of "my_monitors (lw_proc w self)" "mon_has_ref w ref" "\<lambda>x. x = m"]
      remove_first_distinct [OF mons_okD(1) [OF ok]] by simp
  then have "sw_demonitor self ref w = (exit_watcher m
      (upd_proc self (\<lambda>p. p\<lparr>my_monitors := filter (\<lambda>x. x \<noteq> m) (my_monitors p)\<rparr>) w), 0)"
    using Some assms(2) by (simp add: sw_demonitor_def upd_proc_def)
  then show ?thesis using mon by blast
qed

lemma demonitor_mons:
  assumes ok: "mons_ok w" and mon: "lw_mon w m = Some mon" "mn_watcher mon = self"
  shows "mons_ok (exit_watcher m (upd_proc self (\<lambda>p. p\<lparr>my_monitors := filter (\<lambda>x. x \<noteq> m) (my_monitors p)\<rparr>) w))"
    (is "mons_ok ?w")
proof -
  note s = exit_watcher_simps [of "upd_proc self (\<lambda>p. p\<lparr>my_monitors := filter (\<lambda>x. x \<noteq> m) (my_monitors p)\<rparr>) w" m mon]
  have s': "lw_mon ?w = (lw_mon w)(m := None)" "lw_fresh ?w = lw_fresh w" "next_monitor_ref ?w = next_monitor_ref w"
    using s mon(1) by (simp_all add: link_simps)
  have o: "watcher_of ?w n q \<longleftrightarrow> watcher_of w n q \<and> n \<noteq> m" "watched_of ?w n q \<longleftrightarrow> watched_of w n q \<and> n \<noteq> m" for n q
    by (auto simp: watcher_of_def watched_of_def s')
  have my: "my_monitors (lw_proc ?w q) = filter (\<lambda>x. x \<noteq> m) (my_monitors (lw_proc w q))" for q
  proof (cases "q = self")
    case False
    then have "m \<notin> set (my_monitors (lw_proc w q))" using mons_okD(2) [OF ok, of q] mon by (simp add: watcher_of_def)
    then have "filter (\<lambda>x. x \<noteq> m) (my_monitors (lw_proc w q)) = my_monitors (lw_proc w q)"
      by (auto simp: filter_id_conv)
    then show ?thesis using s(1) mon(1) False by (simp add: link_simps)
  qed (use s(1) mon(1) in \<open>simp add: link_simps\<close>)
  have me: "monitors_me (lw_proc ?w q) = filter (\<lambda>x. x \<noteq> m) (monitors_me (lw_proc w q))" for q
  proof (cases "q = mn_watched mon")
    case False
    then have "m \<notin> set (monitors_me (lw_proc w q))" using mons_okD(4) [OF ok, of q] mon by (simp add: watched_of_def)
    then have "filter (\<lambda>x. x \<noteq> m) (monitors_me (lw_proc w q)) = monitors_me (lw_proc w q)"
      by (auto simp: filter_id_conv)
    then show ?thesis using s(1) mon(1) False by (simp add: link_simps)
  qed (use s(1) mon(1) remove_first_distinct [OF mons_okD(3) [OF ok]] in \<open>simp add: link_simps\<close>)
  show ?thesis
    unfolding mons_ok_def my me o s' using mons_okD [OF ok] by (auto split: if_splits)
qed

lemma link_inv_demonitor: "link_inv w \<Longrightarrow> link_inv (fst (sw_demonitor self ref w))"
proof (cases "ref = 0")
  case False
  assume i: "link_inv w"
  then have ok: "mons_ok w" by (simp add: link_inv_def)
  from demonitor_cases [OF ok False, of self] show ?thesis
  proof
    assume "\<exists>m mon. lw_mon w m = Some mon \<and> mn_watcher mon = self \<and> mn_ref mon = ref
        \<and> sw_demonitor self ref w = (exit_watcher m
            (upd_proc self (\<lambda>p. p\<lparr>my_monitors := filter (\<lambda>x. x \<noteq> m) (my_monitors p)\<rparr>) w), 0)"
    then obtain m mon where m: "lw_mon w m = Some mon" "mn_watcher mon = self"
        "fst (sw_demonitor self ref w) = exit_watcher m
            (upd_proc self (\<lambda>p. p\<lparr>my_monitors := filter (\<lambda>x. x \<noteq> m) (my_monitors p)\<rparr>) w)" by auto
    have "links_sym (fst (sw_demonitor self ref w))"
      unfolding m(3) by (rule links_sym_frame [of w])
        (use i m(1) in \<open>auto simp: link_inv_def exit_watcher_def link_simps Let_def\<close>)
    then show ?thesis using demonitor_mons [OF ok m(1,2)] m(3) by (simp add: link_inv_def)
  qed (use i in simp)
qed (simp add: sw_demonitor_def)

lemma link_inv_flag: "link_inv w \<Longrightarrow> link_inv (sw_process_flag self flag value w)"
  unfolding link_inv_def sw_process_flag_def
  by (auto intro!: links_sym_frame [of w] mons_ok_upd simp: link_simps)

section \<open>Histories\<close>

datatype link_op =
    L_link proc_ref proc_ref
  | L_unlink proc_ref proc_ref
  | L_spawn_link proc_ref proc_ref
  | L_link_late proc_ref proc_ref
  | L_monitor proc_ref proc_ref
  | L_monitor_late proc_ref proc_ref
  | L_demonitor proc_ref u64
  | L_flag proc_ref u32 bool
  | L_exit proc_ref int

text \<open>
  A spawned child is another process than its parent. It may already run when it is linked, so nothing is
  said of its links. \<open>L_link_late\<close> and \<open>L_monitor_late\<close> are a \<^verbatim>\<open>sw_link\<close> or \<^verbatim>\<open>sw_monitor\<close> whose check of the
  peer's state was made earlier than its part under the lock, when the peer may have exited since.
  References are handed out until the 64-bit counter is used up.
\<close>

fun link_enabled :: "link_op \<Rightarrow> link_world \<Rightarrow> bool" where
  "link_enabled (L_spawn_link self child) w \<longleftrightarrow> self \<noteq> child"
| "link_enabled (L_link_late self other) w \<longleftrightarrow> self \<noteq> other"
| "link_enabled (L_monitor self target) w \<longleftrightarrow> next_monitor_ref w + 1 \<noteq> 0"
| "link_enabled (L_monitor_late self target) w \<longleftrightarrow> next_monitor_ref w + 1 \<noteq> 0"
| "link_enabled _ w \<longleftrightarrow> True"

fun link_exec :: "link_op \<Rightarrow> link_world \<Rightarrow> link_world" where
  "link_exec (L_link self other) w = fst (sw_link self other w)"
| "link_exec (L_unlink self other) w = fst (sw_unlink self other w)"
| "link_exec (L_spawn_link self child) w = spawn_link_insert self child w"
| "link_exec (L_link_late self other) w = link_insert self other w"
| "link_exec (L_monitor self target) w = fst (sw_monitor self target w)"
| "link_exec (L_monitor_late self target) w = monitor_insert self target (next_monitor_ref w) (w\<lparr>next_monitor_ref := next_monitor_ref w + 1\<rparr>)"
| "link_exec (L_demonitor self ref) w = fst (sw_demonitor self ref w)"
| "link_exec (L_flag self flag value) w = sw_process_flag self flag value w"
| "link_exec (L_exit proc reason) w = process_exit_signals proc reason w"

definition link_run :: "link_op list \<Rightarrow> link_world \<Rightarrow> link_world" where
  "link_run ops w = fold (\<lambda>op w. if link_enabled op w then link_exec op w else w) ops w"

lemma link_inv_exit: "link_inv w \<Longrightarrow> link_inv (process_exit_signals proc reason w)"
  using links_sym_exit exit_result(5) by (simp add: link_inv_def)

lemmas link_inv_ops = link_inv_link link_inv_insert link_inv_unlink link_inv_spawn_link link_inv_monitor link_inv_demonitor
  link_inv_flag link_inv_exit

lemma link_exec_inv: "link_inv w \<Longrightarrow> link_enabled op w \<Longrightarrow> link_inv (link_exec op w)"
  by (cases op) (simp_all add: link_inv_ops)

lemma link_run_inv: "link_inv w \<Longrightarrow> link_inv (link_run ops w)"
  unfolding link_run_def using link_exec_inv by (induction ops arbitrary: w) simp_all

definition fresh_proc :: sw_lproc where
  "fresh_proc = \<lparr>p_pid = 0, p_state = SW_PROC_RUNNABLE, p_flags = 0, p_links = [], monitors_me = [], my_monitors = [],
     p_parent = None, kill_flag = False, exit_reason = 0, p_mail = []\<rparr>"

definition link_start :: link_world where
  "link_start = \<lparr>lw_proc = (\<lambda>p. fresh_proc\<lparr>p_pid := of_nat p\<rparr>), lw_mon = (\<lambda>_. None), lw_fresh = 0,
     next_monitor_ref = 1, lw_woken = []\<rparr>"

lemma link_start_inv: "link_inv link_start"
  by (simp add: link_inv_def links_sym_def mons_ok_def link_start_def fresh_proc_def watcher_of_def watched_of_def)

text \<open>Everything in the graph that names a process.\<close>

definition link_refers :: "link_world \<Rightarrow> proc_ref \<Rightarrow> bool" where
  "link_refers w p \<longleftrightarrow> (\<exists>q. p \<in> set (p_links (lw_proc w q))) \<or> (\<exists>m. watcher_of w m p \<or> watched_of w m p)"

lemma link_member: "q \<in> set (p_links (lw_proc w p)) \<longleftrightarrow> 0 < count (mset (p_links (lw_proc w p))) q"
  by simp

interpretation link_exit: exit_cleanup link_inv link_refers "\<lambda>p w. process_exit_signals p reason w" for reason
proof
  fix w p q assume i: "link_inv w"
  then have i': "links_sym w" "mons_ok w" by (simp_all add: link_inv_def)
  note r = exit_result [OF i', where proc = p and reason = reason]
  show "link_inv (process_exit_signals p reason w)" using i by (rule link_inv_exit)
  show "\<not> link_refers (process_exit_signals p reason w) p"
    unfolding link_refers_def link_member watcher_of_def watched_of_def r(1,4) by (auto simp: watcher_of_def watched_of_def)
  show "link_refers (process_exit_signals p reason w) q \<Longrightarrow> link_refers w q"
    unfolding link_refers_def link_member watcher_of_def watched_of_def r(1,4) by (auto split: if_splits)
qed

section \<open>Properties\<close>

text \<open>
  C8. Links stay symmetric and monitors consistent: after any history of links, unlinks, linked
  spawns (also of a child that has linked itself to its parent in the meantime), monitors, demonitors,
  flag changes and exits, also with links and monitors inserted after their peer has exited, \<open>q\<close> is in \<open>p\<close>'s link list as often as
  \<open>p\<close> is in \<open>q\<close>'s, nobody is linked to itself, and a monitor node is on its watcher's and its watched
  process's list, once, and on no other. A link may be there twice (\<open>spawn_link_twice\<close>), and a
  process keeps its slot throughout the history.
\<close>

theorem link_graph_consistent:
  fixes ops :: "link_op list"
  defines "w \<equiv> link_run ops link_start"
  shows "count (mset (p_links (lw_proc w p))) q = count (mset (p_links (lw_proc w q))) p
    \<and> p \<notin> set (p_links (lw_proc w p))
    \<and> (m \<in> set (my_monitors (lw_proc w p)) \<longleftrightarrow> watcher_of w m p) \<and> distinct (my_monitors (lw_proc w p))
    \<and> (m \<in> set (monitors_me (lw_proc w p)) \<longleftrightarrow> watched_of w m p) \<and> distinct (monitors_me (lw_proc w p))"
  using link_run_inv [OF link_start_inv, of ops] mons_okD(1-4) [of w p]
  unfolding w_def [symmetric] by (simp add: link_inv_def links_sym_def)

text \<open>
  C7. What exit tells whom: every other process gets, appended to its mail, one EXIT signal per link if it is
  linked and traps exits, followed by one DOWN signal per monitor of its on the process, with that
  monitor's reference; it is marked to be killed iff it is linked, does not trap exits and the exit is
  abnormal. Afterwards nothing in the link and monitor graph names the process any more.
\<close>

theorem exit_notifies_exactly:
  assumes "link_inv w" "q \<noteq> proc"
  shows "p_mail (lw_proc (process_exit_signals proc reason w) q) = p_mail (lw_proc w q)
      @ (if traps_exit w q then replicate (count (mset (p_links (lw_proc w proc))) q) (exit_signal (p_pid (lw_proc w proc)) reason) else [])
      @ map (\<lambda>m. down_signal (p_pid (lw_proc w proc)) reason (the (lw_mon w m)))
          (filter (\<lambda>m. watcher_of w m q) (monitors_me (lw_proc w proc)))
    \<and> (kill_flag (lw_proc (process_exit_signals proc reason w) q) \<longleftrightarrow> kill_flag (lw_proc w q)
        \<or> q \<in> set (p_links (lw_proc w proc)) \<and> \<not> traps_exit w q \<and> reason \<noteq> 0)
    \<and> \<not> link_refers (process_exit_signals proc reason w) proc"
  using exit_result(2,3) [of w q proc reason] link_exit.refers_cleanup [OF assms(1)] assms
  by (simp add: link_inv_def downs_def)

text \<open>
  A link may be made twice: a child that links itself to its parent before \<^verbatim>\<open>sw_spawn_link\<close> does is linked twice, and its exit
  is reported twice to a parent that traps exits.
\<close>

theorem spawn_link_twice:
  "p_links (lw_proc (link_run [L_flag 1 1 True, L_link 2 1, L_spawn_link 1 2] link_start) 1) = [2, 2]
   \<and> p_mail (lw_proc (link_run [L_flag 1 1 True, L_link 2 1, L_spawn_link 1 2, L_exit 2 0] link_start) 1) = [exit_signal 2 0, exit_signal 2 0]"
proof -
  let ?w = "link_run [L_flag 1 1 True, L_link 2 1, L_spawn_link 1 2] link_start"
  have w: "p_links (lw_proc ?w 1) = [2, 2]" "p_links (lw_proc ?w 2) = [1, 1]" "traps_exit ?w 1" "p_mail (lw_proc ?w 1) = []"
    "monitors_me (lw_proc ?w 2) = []" "p_pid (lw_proc ?w 2) = 2"
    by (simp_all add: link_run_def sw_link_def is_dead_def link_insert_def add_link_def spawn_link_insert_def sw_process_flag_def
        link_start_def fresh_proc_def upd_proc_def traps_exit_def const_simps)
  have i: "link_inv ?w" by (rule link_run_inv [OF link_start_inv])
  have "link_run [L_flag 1 1 True, L_link 2 1, L_spawn_link 1 2, L_exit 2 0] link_start = process_exit_signals 2 0 ?w"
    by (simp add: link_run_def)
  then show ?thesis
    using exit_result(2) [of ?w 1 2 0] i w by (simp add: link_inv_def downs_def numeral_2_eq_2)
qed

definition demo_links :: link_world where
  "demo_links = link_run [L_link 1 2, L_monitor 3 1, L_monitor 3 1, L_flag 2 1 True] link_start"

theorem exit_notifies_exactly_witness:
  "p_mail (lw_proc (process_exit_signals 1 (-1) demo_links) 2) = [exit_signal 1 (-1)]
   \<and> length (p_mail (lw_proc (process_exit_signals 1 (-1) demo_links) 3)) = 2"
proof -
  have i: "link_inv demo_links" unfolding demo_links_def by (rule link_run_inv [OF link_start_inv])
  show ?thesis
    using exit_notifies_exactly [OF i, of 2 1 "-1"] exit_notifies_exactly [OF i, of 3 1 "-1"]
    by (simp add: demo_links_def link_run_def sw_link_def is_dead_def link_insert_def add_link_def sw_monitor_def
        monitor_insert_def sw_process_flag_def link_start_def fresh_proc_def upd_proc_def traps_exit_def
        watcher_of_def const_simps Let_def)
qed

text \<open>
  The check of the peer's state races with its exit: \<^verbatim>\<open>sw_link\<close> reads the state before it takes
  the link lock. If the peer exits in between, the link is made to a process that has already told its
  peers: the caller holds a link to a dead process and gets neither an EXIT signal nor a kill, for every
  exit reason and whether it traps exits or not.
\<close>

theorem link_races_with_exit:
  assumes "link_inv w" "self \<noteq> other" "\<not> is_dead w other" "\<not> link_refers w other"
  shows "other \<in> set (p_links (lw_proc (link_insert self other (process_exit_signals other reason w)) self))
    \<and> p_mail (lw_proc (link_insert self other (process_exit_signals other reason w)) self) = p_mail (lw_proc w self)
    \<and> kill_flag (lw_proc (link_insert self other (process_exit_signals other reason w)) self) = kill_flag (lw_proc w self)"
proof -
  let ?w = "process_exit_signals other reason w"
  have i: "links_sym w" "mons_ok w" using assms(1) by (simp_all add: link_inv_def)
  note r = exit_result [OF i, where proc = other and reason = reason]
  have n: "\<not> (\<exists>q. other \<in> set (p_links (lw_proc w q)))" "\<And>m. \<not> watched_of w m other"
    using assms(4) by (auto simp: link_refers_def)
  have "count (mset (p_links (lw_proc w other))) self = count (mset (p_links (lw_proc w self))) other"
    using i(1) by (simp add: links_sym_def)
  then have "self \<notin> set (p_links (lw_proc w other))" using n(1) unfolding link_absent [symmetric] by (metis link_absent)
  moreover have "monitors_me (lw_proc w other) = []" using mons_okD(4) [OF i(2), of other] n(2) by auto
  ultimately have "p_mail (lw_proc ?w self) = p_mail (lw_proc w self)" "kill_flag (lw_proc ?w self) = kill_flag (lw_proc w self)"
    using r(2,3) [of self] assms(2) by (simp_all add: downs_def count_eq_zero_iff)
  then show ?thesis using assms(2) by (simp add: link_insert_def add_link_def link_simps)
qed

theorem link_races_with_exit_witness:
  "2 \<in> set (p_links (lw_proc (link_insert 1 2 (process_exit_signals 2 (-1) link_start)) 1))
   \<and> p_mail (lw_proc (link_insert 1 2 (process_exit_signals 2 (-1) link_start)) 1) = []"
  using link_races_with_exit [OF link_start_inv, of 1 2 "-1"]
  by (simp add: is_dead_def link_refers_def watcher_of_def watched_of_def link_start_def fresh_proc_def)

end
