(* ===== verification/Ets.thy ===== *)
theory Ets
  imports Swarm_Prelude "HOL-Library.Product_Lexorder" "HOL-Library.List_Lexorder"
begin

text \<open>
  In-memory tables of \<^verbatim>\<open>src/src/swarmrt_ets.c\<close>: hash tables of 64 chained buckets, of type set,
  ordered set or bag, with an owner process and an access mode. A key is a pointer; what it points
  to is read through a memory \<open>M\<close>, which the operations take as an argument because keys are never
  written by them. A table's lock makes each operation one step; the global list and the owners'
  lists are guarded by the meta lock.
\<close>

section \<open>Keys\<close>

type_synonym addr = u64

text \<open>
  What a key points to, as far as this component reads it. A double is its 64 bits; a string or atom
  may have a null text; any other value, or memory that is no language value, only has its type tag
  (0 is nil, and \<open>n + 4\<close> the tags above those of atoms).
\<close>

datatype sw_kval =
    K_int "64 word"
  | K_float u64
  | K_string "string option"
  | K_atom "string option"
  | K_other nat

type_synonym kmem = "addr \<Rightarrow> sw_kval"

fun kval_type :: "sw_kval \<Rightarrow> int" where
  "kval_type (K_int _) = 1"
| "kval_type (K_float _) = 2"
| "kval_type (K_string _) = 3"
| "kval_type (K_atom _) = 4"
| "kval_type (K_other t) = (if t = 0 then 0 else int t + 4)"

text \<open>Comparison of doubles from their bits: the magnitude is ordered as an integer, the sign bit negates it.\<close>

definition f64_mag :: "u64 \<Rightarrow> int" where
  "f64_mag b = uint (take_bit 63 b)"

definition f64_nan :: "u64 \<Rightarrow> bool" where
  "f64_nan b \<longleftrightarrow> 0x7FF0000000000000 < f64_mag b"

definition f64_ord :: "u64 \<Rightarrow> int" where
  "f64_ord b = (if bit b 63 then - f64_mag b else f64_mag b)"

definition f64_eq :: "u64 \<Rightarrow> u64 \<Rightarrow> bool" where
  "f64_eq a b \<longleftrightarrow> \<not> f64_nan a \<and> \<not> f64_nan b \<and> f64_ord a = f64_ord b"

definition f64_lt :: "u64 \<Rightarrow> u64 \<Rightarrow> bool" where
  "f64_lt a b \<longleftrightarrow> \<not> f64_nan a \<and> \<not> f64_nan b \<and> f64_ord a < f64_ord b"

text \<open>\<^verbatim>\<open>strcmp\<close> compares the bytes as unsigned; only the sign of its result is specified.\<close>

fun strcmp :: "string \<Rightarrow> string \<Rightarrow> int" where
  "strcmp [] [] = 0"
| "strcmp [] (_ # _) = -1"
| "strcmp (_ # _) [] = 1"
| "strcmp (c # cs) (d # ds) =
     (if (of_char c :: nat) < of_char d then -1 else if (of_char d :: nat) < of_char c then 1 else strcmp cs ds)"

definition str_or_empty :: "string option \<Rightarrow> string" where
  "str_or_empty s = (case s of None \<Rightarrow> [] | Some t \<Rightarrow> t)"

definition str_eq :: "string option \<Rightarrow> string option \<Rightarrow> bool" where
  "str_eq s t \<longleftrightarrow> (case (s, t) of (Some a, Some b) \<Rightarrow> strcmp a b = 0 | _ \<Rightarrow> False)"

definition ets_key_eq :: "kmem \<Rightarrow> addr \<Rightarrow> addr \<Rightarrow> bool" where
  "ets_key_eq M a b =
     (if a = b then True
      else if a = 0 \<or> b = 0 then False
      else if kval_type (M a) \<noteq> kval_type (M b) then False
      else case (M a, M b) of
             (K_int i, K_int j) \<Rightarrow> i = j
           | (K_float f, K_float g) \<Rightarrow> f64_eq f g
           | (K_atom s, K_atom t) \<Rightarrow> str_eq s t
           | (K_string s, K_string t) \<Rightarrow> str_eq s t
           | _ \<Rightarrow> a = b)"

definition cmp3 :: "bool \<Rightarrow> bool \<Rightarrow> int" where
  "cmp3 lt gt = (if lt then -1 else if gt then 1 else 0)"

definition ets_key_cmp :: "kmem \<Rightarrow> addr \<Rightarrow> addr \<Rightarrow> int" where
  "ets_key_cmp M a b =
     (if a = b then 0
      else if a = 0 \<or> b = 0 then (if a \<noteq> 0 then 1 else -1)
      else if kval_type (M a) \<noteq> kval_type (M b) then kval_type (M a) - kval_type (M b)
      else case (M a, M b) of
             (K_int i, K_int j) \<Rightarrow> cmp3 (sint i < sint j) (sint i > sint j)
           | (K_float f, K_float g) \<Rightarrow> cmp3 (f64_lt f g) (f64_lt g f)
           | (K_atom s, K_atom t) \<Rightarrow> strcmp (str_or_empty s) (str_or_empty t)
           | (K_string s, K_string t) \<Rightarrow> strcmp (str_or_empty s) (str_or_empty t)
           | _ \<Rightarrow> cmp3 (a < b) (a > b))"

subsection \<open>Hash\<close>

definition SW_ETS_BUCKETS :: nat where [const_simps]: "SW_ETS_BUCKETS = 64"

fun fnv64 :: "u64 \<Rightarrow> string \<Rightarrow> u64" where
  "fnv64 k [] = k"
| "fnv64 k (c # cs) = fnv64 ((k XOR of_char c) * 0x100000001b3) cs"

definition hash_word :: "kmem \<Rightarrow> addr \<Rightarrow> u64" where
  "hash_word M key =
     (if key = 0 then key
      else case M key of
             K_int i \<Rightarrow> i
           | K_atom (Some s) \<Rightarrow> fnv64 0xcbf29ce484222325 s
           | K_string (Some s) \<Rightarrow> fnv64 0xcbf29ce484222325 s
           | _ \<Rightarrow> key)"

definition hash_mix :: "u64 \<Rightarrow> u64" where
  "hash_mix k = (let k = k XOR drop_bit 33 k; k = k * 0xff51afd7ed558ccd in k XOR drop_bit 33 k)"

definition ets_hash_key :: "kmem \<Rightarrow> addr \<Rightarrow> nat" where
  "ets_hash_key M key = unat (hash_mix (hash_word M key)) mod SW_ETS_BUCKETS"

section \<open>Tables\<close>

datatype sw_ets_type = SW_ETS_SET | SW_ETS_ORDERED_SET | SW_ETS_BAG
datatype sw_ets_access = SW_ETS_PUBLIC | SW_ETS_PROTECTED | SW_ETS_PRIVATE

record sw_ets_opts =
  opt_type :: sw_ets_type
  opt_access :: sw_ets_access

record sw_ets_entry =
  e_key :: addr
  e_value :: addr

record sw_ets_table =
  et_tid :: u32
  et_opts :: sw_ets_opts
  et_owner :: "proc_ref option"
  et_buckets :: "sw_ets_entry list list"
  et_count :: u32

type_synonym table_ref = nat

record ets_world =
  ew_heap :: "table_ref \<Rightarrow> sw_ets_table option"
  g_ets_tables :: "table_ref list"
  g_next_ets_tid :: u32
  ets_tables :: "proc_ref \<Rightarrow> table_ref list"
  ew_fresh :: table_ref

definition ets_world0 :: ets_world where
  "ets_world0 = \<lparr>ew_heap = (\<lambda>_. None), g_ets_tables = [], g_next_ets_tid = 1, ets_tables = (\<lambda>_. []), ew_fresh = 0\<rparr>"

subsection \<open>Buckets\<close>

definition mk_entry :: "addr \<Rightarrow> addr \<Rightarrow> sw_ets_entry" where
  "mk_entry k v = \<lparr>e_key = k, e_value = v\<rparr>"

text \<open>The loop of a set: replace the value of the first entry with an equal key, if there is one.\<close>

fun find_replace :: "kmem \<Rightarrow> addr \<Rightarrow> addr \<Rightarrow> sw_ets_entry list \<Rightarrow> sw_ets_entry list option" where
  "find_replace M k v [] = None"
| "find_replace M k v (e # es) =
     (if ets_key_eq M (e_key e) k then Some (e\<lparr>e_value := v\<rparr> # es) else map_option ((#) e) (find_replace M k v es))"

definition set_insert :: "kmem \<Rightarrow> addr \<Rightarrow> addr \<Rightarrow> sw_ets_entry list \<Rightarrow> sw_ets_entry list \<times> bool" where
  "set_insert M k v b = (case find_replace M k v b of Some b' \<Rightarrow> (b', False) | None \<Rightarrow> (mk_entry k v # b, True))"

fun ordered_insert :: "kmem \<Rightarrow> addr \<Rightarrow> addr \<Rightarrow> sw_ets_entry list \<Rightarrow> sw_ets_entry list \<times> bool" where
  "ordered_insert M k v [] = ([mk_entry k v], True)"
| "ordered_insert M k v (e # es) =
     (if ets_key_eq M (e_key e) k then (e\<lparr>e_value := v\<rparr> # es, False)
      else if ets_key_cmp M k (e_key e) < 0 then (mk_entry k v # e # es, True)
      else case ordered_insert M k v es of (es', new) \<Rightarrow> (e # es', new))"

definition bag_insert :: "addr \<Rightarrow> addr \<Rightarrow> sw_ets_entry list \<Rightarrow> sw_ets_entry list \<times> bool" where
  "bag_insert k v b = (mk_entry k v # b, True)"

definition bucket_insert :: "sw_ets_type \<Rightarrow> kmem \<Rightarrow> addr \<Rightarrow> addr \<Rightarrow> sw_ets_entry list \<Rightarrow> sw_ets_entry list \<times> bool" where
  "bucket_insert ty M k v b =
     (case ty of SW_ETS_BAG \<Rightarrow> bag_insert k v b | SW_ETS_ORDERED_SET \<Rightarrow> ordered_insert M k v b | SW_ETS_SET \<Rightarrow> set_insert M k v b)"

fun bucket_lookup :: "kmem \<Rightarrow> addr \<Rightarrow> sw_ets_entry list \<Rightarrow> addr option" where
  "bucket_lookup M k [] = None"
| "bucket_lookup M k (e # es) = (if ets_key_eq M (e_key e) k then Some (e_value e) else bucket_lookup M k es)"

text \<open>Deletion: the first equal entry, and in a bag every later one too; with the number removed.\<close>

fun purge :: "kmem \<Rightarrow> addr \<Rightarrow> sw_ets_entry list \<Rightarrow> sw_ets_entry list \<times> nat" where
  "purge M k [] = ([], 0)"
| "purge M k (e # es) =
     (case purge M k es of (es', n) \<Rightarrow> if ets_key_eq M (e_key e) k then (es', Suc n) else (e # es', n))"

fun bucket_delete :: "bool \<Rightarrow> kmem \<Rightarrow> addr \<Rightarrow> sw_ets_entry list \<Rightarrow> (sw_ets_entry list \<times> nat) option" where
  "bucket_delete bag M k [] = None"
| "bucket_delete bag M k (e # es) =
     (if ets_key_eq M (e_key e) k
      then Some (if bag then case purge M k es of (es', n) \<Rightarrow> (es', Suc n) else (es, 1))
      else map_option (\<lambda>(es', n). (e # es', n)) (bucket_delete bag M k es))"

subsection \<open>Operations on one table\<close>

definition table_insert :: "kmem \<Rightarrow> addr \<Rightarrow> addr \<Rightarrow> sw_ets_table \<Rightarrow> sw_ets_table" where
  "table_insert M k v t =
     (let b = ets_hash_key M k; (es, new) = bucket_insert (opt_type (et_opts t)) M k v (et_buckets t ! b)
      in t\<lparr>et_buckets := (et_buckets t)[b := es], et_count := (if new then et_count t + 1 else et_count t)\<rparr>)"

definition table_lookup :: "kmem \<Rightarrow> addr \<Rightarrow> sw_ets_table \<Rightarrow> addr option" where
  "table_lookup M k t = bucket_lookup M k (et_buckets t ! ets_hash_key M k)"

definition table_delete :: "kmem \<Rightarrow> addr \<Rightarrow> sw_ets_table \<Rightarrow> sw_ets_table option" where
  "table_delete M k t =
     (let b = ets_hash_key M k
      in case bucket_delete (opt_type (et_opts t) = SW_ETS_BAG) M k (et_buckets t ! b) of
           None \<Rightarrow> None
         | Some (es, n) \<Rightarrow> Some (t\<lparr>et_buckets := (et_buckets t)[b := es], et_count := et_count t - of_nat n\<rparr>))"

subsection \<open>Interface functions\<close>

definition set_table :: "table_ref \<Rightarrow> sw_ets_table \<Rightarrow> ets_world \<Rightarrow> ets_world" where
  "set_table r t w = w\<lparr>ew_heap := (ew_heap w)(r \<mapsto> t)\<rparr>"


definition table_has_tid :: "ets_world \<Rightarrow> u32 \<Rightarrow> table_ref \<Rightarrow> bool" where
  "table_has_tid w tid r = (case ew_heap w r of None \<Rightarrow> False | Some t \<Rightarrow> et_tid t = tid)"

definition ets_find_table :: "u32 \<Rightarrow> ets_world \<Rightarrow> (table_ref \<times> sw_ets_table) option" where
  "ets_find_table tid w =
     (case find (table_has_tid w tid) (g_ets_tables w) of
        None \<Rightarrow> None
      | Some r \<Rightarrow> map_option (\<lambda>t. (r, t)) (ew_heap w r))"

definition ets_check_read :: "proc_ref option \<Rightarrow> sw_ets_table \<Rightarrow> bool" where
  "ets_check_read self t =
     (if opt_access (et_opts t) = SW_ETS_PUBLIC then True
      else if opt_access (et_opts t) = SW_ETS_PROTECTED then True
      else self = et_owner t)"

definition ets_check_write :: "proc_ref option \<Rightarrow> sw_ets_table \<Rightarrow> bool" where
  "ets_check_write self t = (if opt_access (et_opts t) = SW_ETS_PUBLIC then True else self = et_owner t)"

text \<open>The argument \<open>mem\<close> of the operations that allocate says whether \<^verbatim>\<open>malloc\<close> succeeds.\<close>

definition sw_ets_new :: "bool \<Rightarrow> proc_ref option \<Rightarrow> sw_ets_opts \<Rightarrow> ets_world \<Rightarrow> ets_world \<times> u32" where
  "sw_ets_new mem self opts w =
     (if \<not> mem then (w, 0)
      else
        let r = ew_fresh w;
            tid = g_next_ets_tid w;
            t = \<lparr>et_tid = tid, et_opts = opts, et_owner = self, et_buckets = replicate SW_ETS_BUCKETS [], et_count = 0\<rparr>;
            w = w\<lparr>ew_heap := (ew_heap w)(r \<mapsto> t), ew_fresh := Suc r, g_next_ets_tid := tid + 1,
                  g_ets_tables := r # g_ets_tables w\<rparr>
        in (case self of
              None \<Rightarrow> w
            | Some p \<Rightarrow> w\<lparr>ets_tables := (ets_tables w)(p := r # ets_tables w p)\<rparr>, tid))"

text \<open>An insert allocates only when it does not replace the value of an entry.\<close>

definition insert_allocates :: "kmem \<Rightarrow> addr \<Rightarrow> addr \<Rightarrow> sw_ets_table \<Rightarrow> bool" where
  "insert_allocates M k v t = snd (bucket_insert (opt_type (et_opts t)) M k v (et_buckets t ! ets_hash_key M k))"

definition sw_ets_insert :: "kmem \<Rightarrow> bool \<Rightarrow> proc_ref option \<Rightarrow> u32 \<Rightarrow> addr \<Rightarrow> addr \<Rightarrow> ets_world \<Rightarrow> ets_world \<times> int" where
  "sw_ets_insert M mem self tid key value w =
     (case ets_find_table tid w of
        None \<Rightarrow> (w, -1)
      | Some (r, t) \<Rightarrow>
          if \<not> ets_check_write self t then (w, -1)
          else if insert_allocates M key value t \<and> \<not> mem then (w, -1)
          else (set_table r (table_insert M key value t) w, 0))"

definition sw_ets_lookup :: "kmem \<Rightarrow> proc_ref option \<Rightarrow> u32 \<Rightarrow> addr \<Rightarrow> ets_world \<Rightarrow> addr" where
  "sw_ets_lookup M self tid key w =
     (case ets_find_table tid w of
        None \<Rightarrow> 0
      | Some (r, t) \<Rightarrow>
          if \<not> ets_check_read self t then 0
          else case table_lookup M key t of None \<Rightarrow> 0 | Some v \<Rightarrow> v)"

definition sw_ets_delete :: "kmem \<Rightarrow> proc_ref option \<Rightarrow> u32 \<Rightarrow> addr \<Rightarrow> ets_world \<Rightarrow> ets_world \<times> int" where
  "sw_ets_delete M self tid key w =
     (case ets_find_table tid w of
        None \<Rightarrow> (w, -1)
      | Some (r, t) \<Rightarrow>
          if \<not> ets_check_write self t then (w, -1)
          else case table_delete M key t of
                 None \<Rightarrow> (w, -1)
               | Some t' \<Rightarrow> (set_table r t' w, 0))"

definition sw_ets_drop :: "u32 \<Rightarrow> ets_world \<Rightarrow> ets_world \<times> int" where
  "sw_ets_drop tid w =
     (case ets_find_table tid w of
        None \<Rightarrow> (w, -1)
      | Some (r, t) \<Rightarrow>
          let w = w\<lparr>g_ets_tables := remove_first (\<lambda>x. x = r) (g_ets_tables w)\<rparr>;
              w = (case et_owner t of
                     None \<Rightarrow> w
                   | Some p \<Rightarrow> w\<lparr>ets_tables := (ets_tables w)(p := remove_first (\<lambda>x. x = r) (ets_tables w p))\<rparr>)
          in (w\<lparr>ew_heap := (ew_heap w)(r := None)\<rparr>, 0))"

definition sw_ets_info_count :: "u32 \<Rightarrow> ets_world \<Rightarrow> int" where
  "sw_ets_info_count tid w = (case ets_find_table tid w of None \<Rightarrow> -1 | Some (r, t) \<Rightarrow> sint (et_count t))"

definition table_tid :: "ets_world \<Rightarrow> table_ref \<Rightarrow> u32" where
  "table_tid w r = (case ew_heap w r of None \<Rightarrow> 0 | Some t \<Rightarrow> et_tid t)"

definition sw_ets_list_tids :: "nat \<Rightarrow> ets_world \<Rightarrow> u32 list" where
  "sw_ets_list_tids mx w = map (table_tid w) (take mx (g_ets_tables w))"

definition sw_ets_cleanup_owner :: "proc_ref \<Rightarrow> ets_world \<Rightarrow> ets_world" where
  "sw_ets_cleanup_owner p w =
     (let tids = map (table_tid w) (take 256 (ets_tables w p));
          w = fold (\<lambda>tid w. fst (sw_ets_drop tid w)) tids w
      in w\<lparr>ets_tables := (ets_tables w)(p := [])\<rparr>)"

section \<open>Keys as values of a linear order\<close>

text \<open>
  The rank of a key that is neither a float nor has a null text: two such keys are equal iff their
  ranks are, and are compared as their ranks.
\<close>

definition key_good :: "kmem \<Rightarrow> addr \<Rightarrow> bool" where
  "key_good M a \<longleftrightarrow> a = 0 \<or> (case M a of K_float _ \<Rightarrow> False | K_string s \<Rightarrow> s \<noteq> None | K_atom s \<Rightarrow> s \<noteq> None | _ \<Rightarrow> True)"

definition key_rank :: "kmem \<Rightarrow> addr \<Rightarrow> int \<times> int \<times> nat list \<times> nat" where
  "key_rank M a =
     (if a = 0 then (-1, 0, [], 0)
      else case M a of
             K_int i \<Rightarrow> (1, sint i, [], 0)
           | K_string (Some s) \<Rightarrow> (3, 0, map of_char s, 0)
           | K_atom (Some s) \<Rightarrow> (4, 0, map of_char s, 0)
           | v \<Rightarrow> (kval_type v, 0, [], unat a))"

lemma strcmp_eq_0: "strcmp a b = 0 \<longleftrightarrow> a = b"
  by (induction a b rule: strcmp.induct) (auto simp: not_less_iff_gr_or_eq)

lemma strcmp_less: "strcmp a b < 0 \<longleftrightarrow> (map of_char a :: nat list) < map of_char b"
  by (induction a b rule: strcmp.induct) auto

lemma map_of_char_inject: "(map of_char a :: nat list) = map of_char b \<longleftrightarrow> a = b"
  by (rule inj_map_eq_map) (rule inj_of_char)

lemma cmp3_less [simp]: "cmp3 lt gt < 0 \<longleftrightarrow> lt"
  by (simp add: cmp3_def)

lemma kval_type_ge: "0 \<le> kval_type v"
  by (cases v) auto

lemma kval_type_other: "kval_type (K_other t) \<notin> {1, 2, 3, 4}"
  by auto

lemma sint_inject: "sint (x :: u64) = sint y \<longleftrightarrow> x = y"
proof
  assume "sint x = sint y"
  then have "(of_int (sint x) :: u64) = of_int (sint y)" by simp
  then show "x = y" by simp
qed simp

lemma unat_inject: "unat (x :: u64) = unat y \<longleftrightarrow> x = y"
  by (simp add: word_unat_eq_iff)

lemma ets_key_eq_rank:
  assumes "key_good M a" "key_good M b"
  shows "ets_key_eq M a b \<longleftrightarrow> key_rank M a = key_rank M b"
  using assms
  by (auto simp: ets_key_eq_def key_rank_def key_good_def str_eq_def strcmp_eq_0 map_of_char_inject sint_inject unat_inject
      split: sw_kval.splits option.splits if_splits)

lemma ets_key_cmp_rank:
  assumes "key_good M a" "key_good M b"
  shows "ets_key_cmp M a b < 0 \<longleftrightarrow> key_rank M a < key_rank M b"
  using assms
  by (auto simp: ets_key_cmp_def key_rank_def key_good_def str_or_empty_def strcmp_less word_less_nat_alt
      split: sw_kval.splits option.splits if_splits)

lemma ets_hash_rank:
  assumes "key_good M a" "key_good M b" "key_rank M a = key_rank M b"
  shows "ets_hash_key M a = ets_hash_key M b"
proof -
  have "hash_word M a = hash_word M b"
    using assms
    by (auto simp: hash_word_def key_rank_def key_good_def map_of_char_inject sint_inject unat_inject
        split: sw_kval.splits option.splits if_splits)
  then show ?thesis by (simp add: ets_hash_key_def)
qed

section \<open>Buckets\<close>

definition bucket_ok :: "sw_ets_type \<Rightarrow> kmem \<Rightarrow> sw_ets_entry list \<Rightarrow> bool" where
  "bucket_ok ty M b \<longleftrightarrow> (\<forall>e\<in>set b. key_good M (e_key e)) \<and>
     (case ty of
        SW_ETS_BAG \<Rightarrow> True
      | SW_ETS_SET \<Rightarrow> distinct (map (key_rank M \<circ> e_key) b)
      | SW_ETS_ORDERED_SET \<Rightarrow> sorted_wrt (<) (map (key_rank M \<circ> e_key) b))"

lemma bucket_ok_distinct: "bucket_ok ty M b \<Longrightarrow> ty \<noteq> SW_ETS_BAG \<Longrightarrow> distinct (map (key_rank M \<circ> e_key) b)"
  by (auto simp: bucket_ok_def strict_sorted_iff split: sw_ets_type.splits)

lemma bucket_lookup_None:
  assumes "\<forall>e\<in>set b. key_good M (e_key e)" "key_good M k"
  shows "bucket_lookup M k b = None \<longleftrightarrow> key_rank M k \<notin> (key_rank M \<circ> e_key) ` set b"
  using assms by (induction b) (auto simp: ets_key_eq_rank)

lemma find_replace_cases:
  assumes "\<forall>e\<in>set b. key_good M (e_key e)" "key_good M k"
  shows "case find_replace M k v b of
      None \<Rightarrow> bucket_lookup M k b = None
    | Some b' \<Rightarrow> bucket_lookup M k b \<noteq> None \<and> map e_key b' = map e_key b
        \<and> (\<forall>k'. key_good M k' \<longrightarrow> bucket_lookup M k' b' = (if key_rank M k = key_rank M k' then Some v else bucket_lookup M k' b))"
  using assms
proof (induction b)
  case (Cons e b)
  show ?case
  proof (cases "ets_key_eq M (e_key e) k")
    case True
    then show ?thesis using Cons.prems by (auto simp: ets_key_eq_rank)
  next
    case False
    then show ?thesis using Cons by (auto simp: ets_key_eq_rank split: option.splits)
  qed
qed simp

text \<open>What an insert into one bucket does: the laws that both kinds of set share.\<close>

definition insert_ok :: "kmem \<Rightarrow> addr \<Rightarrow> addr \<Rightarrow> sw_ets_entry list \<Rightarrow> sw_ets_entry list \<times> bool \<Rightarrow> bool" where
  "insert_ok M k v b r \<longleftrightarrow>
     (\<forall>k'. key_good M k' \<longrightarrow> bucket_lookup M k' (fst r) = (if key_rank M k = key_rank M k' then Some v else bucket_lookup M k' b))
     \<and> (snd r \<longleftrightarrow> bucket_lookup M k b = None)
     \<and> mset (map e_key (fst r)) = mset (map e_key b) + (if snd r then {#k#} else {#})"

lemma mk_entry_simps [simp]: "e_key (mk_entry k v) = k" "e_value (mk_entry k v) = v"
  by (simp_all add: mk_entry_def)

lemma set_insert_ok:
  assumes "\<forall>e\<in>set b. key_good M (e_key e)" "key_good M k"
  shows "insert_ok M k v b (set_insert M k v b)"
  using find_replace_cases [OF assms, of v] assms
  by (auto simp: insert_ok_def set_insert_def ets_key_eq_rank simp del: mset_map split: option.splits)

lemma rank_above_lookup:
  assumes "\<forall>e\<in>set b. key_good M (e_key e)" "key_good M k" "\<forall>e\<in>set b. key_rank M k < key_rank M (e_key e)"
  shows "bucket_lookup M k b = None"
  using assms(3) unfolding bucket_lookup_None [OF assms(1,2)] by force

lemma ordered_insert_ok:
  assumes "bucket_ok SW_ETS_ORDERED_SET M b" "key_good M k"
  shows "insert_ok M k v b (ordered_insert M k v b)"
  using assms
proof (induction b)
  case (Cons e b)
  have g: "key_good M (e_key e)" "\<forall>x\<in>set b. key_good M (e_key x)"
    and up: "\<forall>x\<in>set b. key_rank M (e_key e) < key_rank M (e_key x)"
    and ok: "bucket_ok SW_ETS_ORDERED_SET M b"
    using Cons.prems(1) by (auto simp: bucket_ok_def)
  note r = ets_key_eq_rank [OF g(1) Cons.prems(2)] ets_key_cmp_rank [OF Cons.prems(2) g(1)]
  consider "key_rank M (e_key e) = key_rank M k" | "key_rank M k < key_rank M (e_key e)" | "key_rank M (e_key e) < key_rank M k"
    by (metis linorder_less_linear)
  then show ?case
  proof cases
    case 1
    then show ?thesis using g by (auto simp: insert_ok_def r ets_key_eq_rank)
  next
    case 2
    then have "\<forall>x\<in>set b. key_rank M k < key_rank M (e_key x)" using up by force
    then have n: "bucket_lookup M k b = None" by (rule rank_above_lookup [OF g(2) Cons.prems(2)])
    have "ordered_insert M k v (e # b) = (mk_entry k v # e # b, True)" using 2 by (simp add: r)
    then show ?thesis using 2 n Cons.prems(2) by (simp add: insert_ok_def r ets_key_eq_rank)
  next
    case 3
    then have "ordered_insert M k v (e # b) = (e # fst (ordered_insert M k v b), snd (ordered_insert M k v b))"
      by (auto simp: r split: prod.splits)
    then show ?thesis using 3 Cons.IH [OF ok Cons.prems(2)] by (auto simp: insert_ok_def r ets_key_eq_rank g(1))
  qed
qed (simp add: insert_ok_def ets_key_eq_rank)

lemma insert_ok_keys:
  assumes "insert_ok M k v b r"
  shows "e_key ` set (fst r) \<subseteq> insert k (e_key ` set b)" "length (fst r) = length b + (if snd r then 1 else 0)"
proof -
  have m: "mset (map e_key (fst r)) = mset (map e_key b) + (if snd r then {#k#} else {#})"
    using assms by (simp add: insert_ok_def)
  show "e_key ` set (fst r) \<subseteq> insert k (e_key ` set b)"
    using arg_cong [OF m, of set_mset] by (auto split: if_splits)
  show "length (fst r) = length b + (if snd r then 1 else 0)"
    using arg_cong [OF m, of size] by auto
qed

text \<open>Both inserts keep their bucket in shape.\<close>

lemma set_insert_bucket_ok:
  assumes "bucket_ok SW_ETS_SET M b" "key_good M k"
  shows "bucket_ok SW_ETS_SET M (fst (set_insert M k v b))"
proof -
  have g: "\<forall>e\<in>set b. key_good M (e_key e)" using assms(1) by (simp add: bucket_ok_def)
  show ?thesis
  proof (cases "find_replace M k v b")
    case None
    then have "bucket_lookup M k b = None" using find_replace_cases [OF g assms(2), of v] by simp
    then show ?thesis
      using None assms bucket_lookup_None [OF g assms(2)] by (auto simp: set_insert_def bucket_ok_def)
  next
    case (Some b')
    then have k: "map e_key b' = map e_key b" using find_replace_cases [OF g assms(2), of v] by simp
    then have "map (key_rank M \<circ> e_key) b' = map (key_rank M \<circ> e_key) b" by (simp flip: map_map)
    moreover have "e_key ` set b' = e_key ` set b" using arg_cong [OF k, of set] by simp
    then have "\<forall>e\<in>set b'. key_good M (e_key e)" using g by (metis (mono_tags, lifting) image_iff)
    ultimately show ?thesis using assms(1) Some by (simp add: set_insert_def bucket_ok_def)
  qed
qed

lemma ordered_insert_bucket_ok:
  assumes "bucket_ok SW_ETS_ORDERED_SET M b" "key_good M k"
  shows "bucket_ok SW_ETS_ORDERED_SET M (fst (ordered_insert M k v b))"
  using assms
proof (induction b)
  case (Cons e b)
  have g: "key_good M (e_key e)" and ok: "bucket_ok SW_ETS_ORDERED_SET M b"
    and up: "\<forall>x\<in>set b. key_rank M (e_key e) < key_rank M (e_key x)"
    using Cons.prems(1) by (auto simp: bucket_ok_def)
  note r = ets_key_eq_rank [OF g Cons.prems(2)] ets_key_cmp_rank [OF Cons.prems(2) g]
  have ks: "e_key ` set (fst (ordered_insert M k v b)) \<subseteq> insert k (e_key ` set b)"
    by (rule insert_ok_keys [OF ordered_insert_ok [OF ok Cons.prems(2)]])
  consider "key_rank M (e_key e) = key_rank M k" | "key_rank M k < key_rank M (e_key e)" | "key_rank M (e_key e) < key_rank M k"
    by (metis linorder_less_linear)
  then show ?case
  proof cases
    case 1
    then show ?thesis using Cons.prems by (simp add: r bucket_ok_def)
  next
    case 2
    then show ?thesis using Cons.prems up by (auto simp: r bucket_ok_def dest: less_trans)
  next
    case 3
    then have e: "fst (ordered_insert M k v (e # b)) = e # fst (ordered_insert M k v b)"
      by (auto simp: r split: prod.splits)
    have "key_rank M (e_key e) < key_rank M (e_key x)" if x: "x \<in> set (fst (ordered_insert M k v b))" for x
    proof -
      have "e_key x \<in> insert k (e_key ` set b)" using ks x by blast
      then show ?thesis using 3 up by auto
    qed
    then show ?thesis using e Cons.IH [OF ok Cons.prems(2)] g by (simp add: bucket_ok_def)
  qed
qed (simp add: bucket_ok_def)

lemma bucket_insert_ok:
  assumes "bucket_ok ty M b" "key_good M k" "ty \<noteq> SW_ETS_BAG"
  shows "insert_ok M k v b (bucket_insert ty M k v b)" "bucket_ok ty M (fst (bucket_insert ty M k v b))"
  using assms set_insert_ok [of b M k v] ordered_insert_ok [of M b k v] set_insert_bucket_ok [of M b k v]
    ordered_insert_bucket_ok [of M b k v]
  by (cases ty; simp add: bucket_insert_def bucket_ok_def)+

subsection \<open>Deletion\<close>

lemma purge_filter:
  "purge M k b = (filter (\<lambda>e. \<not> ets_key_eq M (e_key e) k) b, length (filter (\<lambda>e. ets_key_eq M (e_key e) k) b))"
  by (induction b) auto

lemma bucket_lookup_find: "bucket_lookup M k b = map_option e_value (find (\<lambda>e. ets_key_eq M (e_key e) k) b)"
  by (induction b) auto

text \<open>Deletion from a bag takes out every equal entry, from a set the only one: the result is the same filter.\<close>

lemma bucket_delete_bag:
  "bucket_delete True M k b =
     (if bucket_lookup M k b = None then None
      else Some (filter (\<lambda>e. \<not> ets_key_eq M (e_key e) k) b, length (filter (\<lambda>e. ets_key_eq M (e_key e) k) b)))"
  by (induction b) (auto simp: purge_filter)

lemma bucket_delete_set:
  assumes "distinct (map (key_rank M \<circ> e_key) b)" "\<forall>e\<in>set b. key_good M (e_key e)" "key_good M k"
  shows "bucket_delete False M k b =
     (if bucket_lookup M k b = None then None else Some (filter (\<lambda>e. \<not> ets_key_eq M (e_key e) k) b, 1))"
  using assms
proof (induction b)
  case (Cons e b)
  show ?case
  proof (cases "ets_key_eq M (e_key e) k")
    case True
    then have "filter (\<lambda>e. \<not> ets_key_eq M (e_key e) k) b = b"
      using Cons.prems by (auto simp: filter_id_conv ets_key_eq_rank) (metis (mono_tags, lifting) image_iff)
    then show ?thesis using True by simp
  qed (use Cons in auto)
qed simp

lemma filter_one:
  assumes "distinct (map (key_rank M \<circ> e_key) b)" "\<forall>e\<in>set b. key_good M (e_key e)" "key_good M k"
    and "bucket_lookup M k b \<noteq> None"
  shows "length (filter (\<lambda>e. ets_key_eq M (e_key e) k) b) = 1"
  using assms
proof (induction b)
  case (Cons e b)
  show ?case
  proof (cases "ets_key_eq M (e_key e) k")
    case True
    then have "filter (\<lambda>e. ets_key_eq M (e_key e) k) b = []"
      using Cons.prems by (auto simp: filter_empty_conv ets_key_eq_rank) (metis (mono_tags, lifting) image_iff)
    then show ?thesis using True by simp
  qed (use Cons in auto)
qed simp

lemma bucket_delete_filter:
  assumes "bucket_ok ty M b" "key_good M k"
  shows "bucket_delete (ty = SW_ETS_BAG) M k b =
     (if bucket_lookup M k b = None then None
      else Some (filter (\<lambda>e. \<not> ets_key_eq M (e_key e) k) b, length (filter (\<lambda>e. ets_key_eq M (e_key e) k) b)))"
proof (cases "ty = SW_ETS_BAG")
  case False
  have g: "\<forall>e\<in>set b. key_good M (e_key e)" using assms(1) by (simp add: bucket_ok_def)
  show ?thesis
    using bucket_delete_set [OF bucket_ok_distinct [OF assms(1) False] g assms(2)]
      filter_one [OF bucket_ok_distinct [OF assms(1) False] g assms(2)] False by auto
qed (simp add: bucket_delete_bag)

lemma bucket_lookup_filter:
  assumes "\<forall>e\<in>set b. key_good M (e_key e)" "key_good M k" "key_good M k'"
  shows "bucket_lookup M k' (filter (\<lambda>e. \<not> ets_key_eq M (e_key e) k) b) =
     (if key_rank M k = key_rank M k' then None else bucket_lookup M k' b)"
  using assms by (induction b) (auto simp: ets_key_eq_rank)

lemma bucket_ok_filter: "bucket_ok ty M b \<Longrightarrow> bucket_ok ty M (filter P b)"
  unfolding bucket_ok_def by (auto simp: sorted_wrt_map sorted_wrt_filter distinct_map_filter split: sw_ets_type.splits)

section \<open>Table invariant\<close>

definition table_size :: "sw_ets_table \<Rightarrow> nat" where
  "table_size t = sum_list (map length (et_buckets t))"

definition table_inv :: "kmem \<Rightarrow> sw_ets_table \<Rightarrow> bool" where
  "table_inv M t \<longleftrightarrow> length (et_buckets t) = SW_ETS_BUCKETS
     \<and> (\<forall>i<SW_ETS_BUCKETS. bucket_ok (opt_type (et_opts t)) M (et_buckets t ! i)
          \<and> (\<forall>e\<in>set (et_buckets t ! i). ets_hash_key M (e_key e) = i))
     \<and> et_count t = of_nat (table_size t)"

lemma ets_hash_bound [simp]: "ets_hash_key M k < SW_ETS_BUCKETS"
  by (simp add: ets_hash_key_def const_simps)

lemma table_invD:
  assumes "table_inv M t"
  shows "length (et_buckets t) = SW_ETS_BUCKETS" "bucket_ok (opt_type (et_opts t)) M (et_buckets t ! ets_hash_key M k)"
    "e \<in> set (et_buckets t ! ets_hash_key M k) \<Longrightarrow> ets_hash_key M (e_key e) = ets_hash_key M k"
    "et_count t = of_nat (table_size t)"
  using assms by (auto simp: table_inv_def)

lemma table_inv_update:
  assumes t: "table_inv M t" and es: "bucket_ok (opt_type (et_opts t)) M es"
    and h: "\<forall>e\<in>set es. ets_hash_key M (e_key e) = ets_hash_key M k"
    and n: "n = et_count t + of_nat (length es) - of_nat (length (et_buckets t ! ets_hash_key M k))"
  shows "table_inv M (t\<lparr>et_buckets := (et_buckets t)[ets_hash_key M k := es], et_count := n\<rparr>)"
proof -
  let ?t = "t\<lparr>et_buckets := (et_buckets t)[ets_hash_key M k := es], et_count := n\<rparr>"
  have "table_size ?t + length (et_buckets t ! ets_hash_key M k) = table_size t + length es"
    using sum_list_update_add [of "ets_hash_key M k" "et_buckets t" length es] table_invD(1) [OF t]
    by (simp add: table_size_def)
  then have "(of_nat (table_size ?t) :: u32) = of_nat (table_size t) + of_nat (length es) - of_nat (length (et_buckets t ! ets_hash_key M k))"
    by (metis add_diff_cancel_right' of_nat_add)
  then show ?thesis using t es h n by (auto simp: table_inv_def nth_list_update)
qed

definition table_remove :: "kmem \<Rightarrow> addr \<Rightarrow> sw_ets_table \<Rightarrow> sw_ets_table" where
  "table_remove M k t = (case table_delete M k t of None \<Rightarrow> t | Some t' \<Rightarrow> t')"

lemma bucket_insert_hash:
  assumes "table_inv M t" "key_good M k"
  shows "\<forall>e\<in>set (fst (bucket_insert (opt_type (et_opts t)) M k v (et_buckets t ! ets_hash_key M k))).
    ets_hash_key M (e_key e) = ets_hash_key M k"
proof (cases "opt_type (et_opts t) = SW_ETS_BAG")
  case True
  then show ?thesis using table_invD(3) [OF assms(1), of _ k] by (auto simp: bucket_insert_def bag_insert_def)
next
  case False
  have "e_key ` set (fst (bucket_insert (opt_type (et_opts t)) M k v (et_buckets t ! ets_hash_key M k)))
      \<subseteq> insert k (e_key ` set (et_buckets t ! ets_hash_key M k))"
    by (rule insert_ok_keys [OF bucket_insert_ok(1) [OF table_invD(2) [OF assms(1)] assms(2) False]])
  then show ?thesis using table_invD(3) [OF assms(1), of _ k] by auto
qed

lemma bucket_insert_length:
  assumes "table_inv M t" "key_good M k"
  shows "length (fst (bucket_insert (opt_type (et_opts t)) M k v (et_buckets t ! ets_hash_key M k))) =
    length (et_buckets t ! ets_hash_key M k)
      + (if snd (bucket_insert (opt_type (et_opts t)) M k v (et_buckets t ! ets_hash_key M k)) then 1 else 0)"
  using insert_ok_keys(2) [OF bucket_insert_ok(1) [OF table_invD(2) [OF assms(1)] assms(2)], of v k]
  by (cases "opt_type (et_opts t)") (simp_all add: bucket_insert_def bag_insert_def)

lemma table_inv_insert:
  assumes "table_inv M t" "key_good M k"
  shows "table_inv M (table_insert M k v t)"
proof -
  let ?r = "bucket_insert (opt_type (et_opts t)) M k v (et_buckets t ! ets_hash_key M k)"
  have ok: "bucket_ok (opt_type (et_opts t)) M (fst ?r)"
    using bucket_insert_ok(2) [OF table_invD(2) [OF assms(1)] assms(2)] table_invD(2) [OF assms(1), of k] assms(2)
    by (cases "opt_type (et_opts t)") (auto simp: bucket_ok_def bucket_insert_def bag_insert_def)
  have "table_insert M k v t = t\<lparr>et_buckets := (et_buckets t)[ets_hash_key M k := fst ?r],
      et_count := et_count t + of_nat (length (fst ?r)) - of_nat (length (et_buckets t ! ets_hash_key M k))\<rparr>"
    unfolding bucket_insert_length [OF assms] by (simp add: table_insert_def Let_def split: prod.split)
  then show ?thesis using table_inv_update [OF assms(1) ok bucket_insert_hash [OF assms] refl] by simp
qed

lemma table_delete_filter:
  fixes M k t
  defines "b \<equiv> et_buckets t ! ets_hash_key M k"
  assumes "table_inv M t" "key_good M k"
  shows "table_delete M k t =
    (if table_lookup M k t = None then None
     else Some (t\<lparr>et_buckets := (et_buckets t)[ets_hash_key M k := filter (\<lambda>e. \<not> ets_key_eq M (e_key e) k) b],
                  et_count := et_count t - of_nat (length (filter (\<lambda>e. ets_key_eq M (e_key e) k) b))\<rparr>))"
  unfolding table_delete_def table_lookup_def Let_def b_def bucket_delete_filter [OF table_invD(2) [OF assms(2)] assms(3)]
  by simp

lemma table_inv_delete:
  assumes "table_inv M t" "key_good M k" "table_delete M k t = Some t'"
  shows "table_inv M t'"
proof -
  let ?b = "et_buckets t ! ets_hash_key M k"
  let ?es = "filter (\<lambda>e. \<not> ets_key_eq M (e_key e) k) ?b"
  have len: "(of_nat (length ?b) :: u32) = of_nat (length (filter (\<lambda>e. ets_key_eq M (e_key e) k) ?b)) + of_nat (length ?es)"
    unfolding of_nat_add [symmetric] by (simp only: sum_length_filter_compl)
  have "t' = t\<lparr>et_buckets := (et_buckets t)[ets_hash_key M k := ?es],
      et_count := et_count t - of_nat (length (filter (\<lambda>e. ets_key_eq M (e_key e) k) ?b))\<rparr>"
    using assms(3) by (simp add: table_delete_filter [OF assms(1,2)] split: if_splits)
  moreover have "table_inv M (t\<lparr>et_buckets := (et_buckets t)[ets_hash_key M k := ?es],
      et_count := et_count t - of_nat (length (filter (\<lambda>e. ets_key_eq M (e_key e) k) ?b))\<rparr>)"
  proof (rule table_inv_update [OF assms(1)])
    show "bucket_ok (opt_type (et_opts t)) M ?es" by (rule bucket_ok_filter [OF table_invD(2) [OF assms(1)]])
    show "\<forall>e\<in>set ?es. ets_hash_key M (e_key e) = ets_hash_key M k" using table_invD(3) [OF assms(1), of _ k] by simp
    show "et_count t - of_nat (length (filter (\<lambda>e. ets_key_eq M (e_key e) k) ?b)) = et_count t + of_nat (length ?es) - of_nat (length ?b)"
      unfolding len by simp
  qed
  ultimately show ?thesis by simp
qed

section \<open>A set or ordered set is a store\<close>

definition is_set_table :: "kmem \<Rightarrow> sw_ets_table \<Rightarrow> bool" where
  "is_set_table M t \<longleftrightarrow> table_inv M t \<and> opt_type (et_opts t) \<noteq> SW_ETS_BAG"

lemma table_insert_opts [simp]: "et_opts (table_insert M k v t) = et_opts t" "et_owner (table_insert M k v t) = et_owner t"
    "et_tid (table_insert M k v t) = et_tid t"
  by (simp_all add: table_insert_def Let_def split: prod.split)

lemma table_remove_opts [simp]: "et_opts (table_remove M k t) = et_opts t" "et_owner (table_remove M k t) = et_owner t"
    "et_tid (table_remove M k t) = et_tid t"
  by (auto simp: table_remove_def table_delete_def Let_def split: option.splits)

lemma table_lookup_insert:
  assumes "is_set_table M t" "key_good M k" "key_good M k'"
  shows "table_lookup M k' (table_insert M k v t) = (if ets_key_eq M k k' then Some v else table_lookup M k' t)"
proof -
  have i: "table_inv M t" and n: "opt_type (et_opts t) \<noteq> SW_ETS_BAG" using assms(1) by (simp_all add: is_set_table_def)
  let ?r = "bucket_insert (opt_type (et_opts t)) M k v (et_buckets t ! ets_hash_key M k)"
  have r: "insert_ok M k v (et_buckets t ! ets_hash_key M k) ?r"
    by (rule bucket_insert_ok [OF table_invD(2) [OF i] assms(2) n])
  have "et_buckets (table_insert M k v t) = (et_buckets t)[ets_hash_key M k := fst ?r]"
    by (simp add: table_insert_def Let_def split: prod.split)
  then have b: "et_buckets (table_insert M k v t) ! ets_hash_key M k' =
      (if ets_hash_key M k' = ets_hash_key M k then fst ?r else et_buckets t ! ets_hash_key M k')"
    using table_invD(1) [OF i] by (simp add: nth_list_update)
  have "key_rank M k = key_rank M k' \<Longrightarrow> ets_hash_key M k = ets_hash_key M k'" by (rule ets_hash_rank [OF assms(2,3)])
  moreover have "bucket_lookup M k' (fst ?r) =
      (if key_rank M k = key_rank M k' then Some v else bucket_lookup M k' (et_buckets t ! ets_hash_key M k))"
    using r assms(3) unfolding insert_ok_def by blast
  ultimately show ?thesis
    unfolding table_lookup_def b ets_key_eq_rank [OF assms(2,3)] by (cases "ets_hash_key M k' = ets_hash_key M k") auto
qed

lemma table_remove_eq:
  assumes "table_inv M t" "key_good M k"
  shows "table_lookup M k t = None \<Longrightarrow> table_remove M k t = t"
    "table_lookup M k t \<noteq> None \<Longrightarrow> table_remove M k t =
      t\<lparr>et_buckets := (et_buckets t)[ets_hash_key M k := filter (\<lambda>e. \<not> ets_key_eq M (e_key e) k) (et_buckets t ! ets_hash_key M k)],
        et_count := et_count t - of_nat (length (filter (\<lambda>e. ets_key_eq M (e_key e) k) (et_buckets t ! ets_hash_key M k)))\<rparr>"
  unfolding table_remove_def table_delete_filter [OF assms] by auto

lemma table_inv_remove: "table_inv M t \<Longrightarrow> key_good M k \<Longrightarrow> table_inv M (table_remove M k t)"
  using table_inv_delete [of M t k] by (auto simp: table_remove_def split: option.split)

lemma table_lookup_remove:
  assumes "table_inv M t" "key_good M k" "key_good M k'"
  shows "table_lookup M k' (table_remove M k t) = (if ets_key_eq M k k' then None else table_lookup M k' t)"
proof -
  let ?b = "et_buckets t ! ets_hash_key M k"
  have g: "\<forall>e\<in>set ?b. key_good M (e_key e)" using table_invD(2) [OF assms(1)] by (simp add: bucket_ok_def)
  have h: "key_rank M k = key_rank M k' \<Longrightarrow> ets_hash_key M k = ets_hash_key M k'" by (rule ets_hash_rank [OF assms(2,3)])
  show ?thesis
  proof (cases "table_lookup M k t = None")
    case True
    then have "table_remove M k t = t" by (rule table_remove_eq [OF assms(1,2)])
    moreover have "key_rank M k = key_rank M k' \<Longrightarrow> table_lookup M k' t = None"
      using True h bucket_lookup_None [OF g assms(2)] bucket_lookup_None [OF g assms(3)] by (simp add: table_lookup_def)
    ultimately show ?thesis by (simp add: ets_key_eq_rank [OF assms(2,3)])
  next
    case False
    then have "et_buckets (table_remove M k t) = (et_buckets t)[ets_hash_key M k := filter (\<lambda>e. \<not> ets_key_eq M (e_key e) k) ?b]"
      by (simp add: table_remove_eq(2) [OF assms(1,2) False])
    then show ?thesis
      using table_invD(1) [OF assms(1)] bucket_lookup_filter [OF g assms(2,3)] h
      unfolding table_lookup_def ets_key_eq_rank [OF assms(2,3)]
      by (cases "ets_hash_key M k = ets_hash_key M k'") (auto simp: nth_list_update)
  qed
qed

lemma table_size_update:
  assumes "table_inv M t"
  shows "table_size (t\<lparr>et_buckets := (et_buckets t)[ets_hash_key M k := es], et_count := n\<rparr>)
    + length (et_buckets t ! ets_hash_key M k) = table_size t + length es"
  using sum_list_update_add [of "ets_hash_key M k" "et_buckets t" length es] table_invD(1) [OF assms]
  by (simp add: table_size_def)

lemma table_size_insert:
  assumes "is_set_table M t" "key_good M k"
  shows "table_size (table_insert M k v t) = (if table_lookup M k t = None then Suc (table_size t) else table_size t)"
proof -
  have i: "table_inv M t" and n: "opt_type (et_opts t) \<noteq> SW_ETS_BAG" using assms(1) by (simp_all add: is_set_table_def)
  let ?r = "bucket_insert (opt_type (et_opts t)) M k v (et_buckets t ! ets_hash_key M k)"
  have r: "insert_ok M k v (et_buckets t ! ets_hash_key M k) ?r"
    by (rule bucket_insert_ok [OF table_invD(2) [OF i] assms(2) n])
  have "table_insert M k v t = t\<lparr>et_buckets := (et_buckets t)[ets_hash_key M k := fst ?r],
      et_count := (if snd ?r then et_count t + 1 else et_count t)\<rparr>"
    by (simp add: table_insert_def Let_def split: prod.split)
  then have "table_size (table_insert M k v t) + length (et_buckets t ! ets_hash_key M k) = table_size t + length (fst ?r)"
    by (simp only: table_size_update [OF i])
  then show ?thesis using bucket_insert_length [OF i assms(2), of v] r by (auto simp: insert_ok_def table_lookup_def)
qed

lemma table_size_remove:
  assumes "is_set_table M t" "key_good M k"
  shows "table_size t = (if table_lookup M k t = None then table_size (table_remove M k t) else Suc (table_size (table_remove M k t)))"
proof (cases "table_lookup M k t = None")
  case True
  then show ?thesis using assms by (simp add: table_remove_eq is_set_table_def)
next
  case False
  have i: "table_inv M t" and n: "opt_type (et_opts t) \<noteq> SW_ETS_BAG" using assms(1) by (simp_all add: is_set_table_def)
  let ?b = "et_buckets t ! ets_hash_key M k"
  have one: "length (filter (\<lambda>e. ets_key_eq M (e_key e) k) ?b) = 1"
    by (rule filter_one [OF bucket_ok_distinct [OF table_invD(2) [OF i] n] _ assms(2)])
      (use False table_invD(2) [OF i, of k] in \<open>auto simp: bucket_ok_def table_lookup_def\<close>)
  have "table_size (table_remove M k t) + length ?b = table_size t + length (filter (\<lambda>e. \<not> ets_key_eq M (e_key e) k) ?b)"
    by (simp only: table_remove_eq(2) [OF i assms(2) False] table_size_update [OF i])
  then show ?thesis using False one sum_length_filter_compl [of "\<lambda>e. ets_key_eq M (e_key e) k" ?b] by simp
qed

interpretation ets: kv_store "is_set_table M" "key_good M" "ets_key_eq M" "table_insert M" "table_lookup M" "table_remove M" table_size for M
proof
  fix t k k' :: addr and v
  fix s :: sw_ets_table
  assume s: "is_set_table M s" "key_good M k"
  show "is_set_table M (table_insert M k v s)" using s by (simp add: is_set_table_def table_inv_insert)
  show "is_set_table M (table_remove M k s)" using s by (simp add: is_set_table_def table_inv_remove)
  show "key_good M k' \<Longrightarrow> table_lookup M k' (table_insert M k v s) = (if ets_key_eq M k k' then Some v else table_lookup M k' s)"
    by (rule table_lookup_insert [OF s])
  show "key_good M k' \<Longrightarrow> table_lookup M k' (table_remove M k s) = (if ets_key_eq M k k' then None else table_lookup M k' s)"
    using s by (simp add: table_lookup_remove is_set_table_def)
  show "table_size (table_insert M k v s) = (if table_lookup M k s = None then Suc (table_size s) else table_size s)"
    by (rule table_size_insert [OF s])
  show "table_size s = (if table_lookup M k s = None then table_size (table_remove M k s) else Suc (table_size (table_remove M k s)))"
    by (rule table_size_remove [OF s])
qed

section \<open>The tables of the system\<close>

text \<open>
  The global list holds every live table once; a table is on its owner's list and on no other; table
  identifiers differ.
\<close>

definition ets_inv :: "kmem \<Rightarrow> ets_world \<Rightarrow> bool" where
  "ets_inv M w \<longleftrightarrow>
     distinct (g_ets_tables w) \<and> set (g_ets_tables w) = dom (ew_heap w)
     \<and> (\<forall>r t. ew_heap w r = Some t \<longrightarrow> table_inv M t \<and> r < ew_fresh w \<and> et_tid t < g_next_ets_tid w \<and> et_tid t \<noteq> 0)
     \<and> (\<forall>r t s u. ew_heap w r = Some t \<longrightarrow> ew_heap w s = Some u \<longrightarrow> et_tid t = et_tid u \<longrightarrow> r = s)
     \<and> (\<forall>p. distinct (ets_tables w p) \<and> set (ets_tables w p) = {r. \<exists>t. ew_heap w r = Some t \<and> et_owner t = Some p})
     \<and> 0 < g_next_ets_tid w"

lemma ets_invD:
  assumes "ets_inv M w"
  shows "distinct (g_ets_tables w)" "set (g_ets_tables w) = dom (ew_heap w)"
    "ew_heap w r = Some t \<Longrightarrow> table_inv M t" "ew_heap w r = Some t \<Longrightarrow> r < ew_fresh w"
    "ew_heap w r = Some t \<Longrightarrow> et_tid t < g_next_ets_tid w" "ew_heap w r = Some t \<Longrightarrow> et_tid t \<noteq> 0"
    "ew_heap w r = Some t \<Longrightarrow> ew_heap w s = Some u \<Longrightarrow> et_tid t = et_tid u \<Longrightarrow> r = s"
    "distinct (ets_tables w p)" "set (ets_tables w p) = {r. \<exists>t. ew_heap w r = Some t \<and> et_owner t = Some p}"
  using assms unfolding ets_inv_def by blast+

lemma find_table_heap:
  assumes "ets_inv M w"
  shows "ets_find_table tid w = Some (r, t) \<longleftrightarrow> ew_heap w r = Some t \<and> et_tid t = tid"
proof (cases "find (table_has_tid w tid) (g_ets_tables w)")
  case None
  then have "\<forall>r\<in>dom (ew_heap w). \<not> table_has_tid w tid r" using ets_invD(2) [OF assms] by (auto simp: find_None_iff)
  then have "\<not> (ew_heap w r = Some t \<and> et_tid t = tid)" by (auto simp: table_has_tid_def dom_def)
  then show ?thesis using None by (simp add: ets_find_table_def)
next
  case (Some q)
  then have "table_has_tid w tid q" by (auto simp: find_Some_iff)
  then obtain u where u: "ew_heap w q = Some u" "et_tid u = tid" by (auto simp: table_has_tid_def split: option.splits)
  then show ?thesis using Some ets_invD(7) [OF assms u(1), of r t] by (auto simp: ets_find_table_def)
qed

lemma ets_inv_world0: "ets_inv M ets_world0"
  by (simp add: ets_inv_def ets_world0_def)

lemma table_inv_new:
  "table_inv M \<lparr>et_tid = tid, et_opts = opts, et_owner = self, et_buckets = replicate SW_ETS_BUCKETS [], et_count = 0\<rparr>"
  by (simp add: table_inv_def bucket_ok_def table_size_def sum_list_replicate split: sw_ets_type.split)

lemma ets_inv_new:
  assumes i: "ets_inv M w" and n: "g_next_ets_tid w + 1 \<noteq> 0"
  shows "ets_inv M (fst (sw_ets_new mem self opts w))"
proof (cases mem)
  case True
  let ?r = "ew_fresh w"
  have less: "g_next_ets_tid w < g_next_ets_tid w + 1"
    using unatSuc [of "g_next_ets_tid w"] n by (simp add: word_less_nat_alt add.commute)
  have fresh: "ew_heap w ?r = None" using ets_invD(4) [OF i] by (metis less_irrefl option.exhaust)
  have pos: "0 < g_next_ets_tid w" using i by (simp add: ets_inv_def)
  have g: "?r \<notin> set (g_ets_tables w)" "?r \<notin> set (ets_tables w p)" for p
    using fresh ets_invD(2,9) [OF i] by (auto simp: dom_def)
  note d = ets_invD [OF i] and lt = less_trans [OF ets_invD(5) [OF i] less] and lr = ets_invD(4) [OF i]
  show ?thesis
    unfolding ets_inv_def sw_ets_new_def using True less pos fresh g d(1,2,3,6,7,8,9) lt
    by (auto simp: Let_def table_inv_new less_Suc_eq lr split: option.splits if_splits dest: d(5))
qed (use i in \<open>simp add: sw_ets_new_def\<close>)

text \<open>Replacing a table by one with the same identifier and owner.\<close>

lemma set_table_simps [simp]:
  "ew_heap (set_table r t w) s = (if s = r then Some t else ew_heap w s)" "g_ets_tables (set_table r t w) = g_ets_tables w"
  "ets_tables (set_table r t w) = ets_tables w" "g_next_ets_tid (set_table r t w) = g_next_ets_tid w"
  "ew_fresh (set_table r t w) = ew_fresh w" "set_table r t (set_table r u w) = set_table r t w"
  by (simp_all add: set_table_def)

lemma set_table_id: "ew_heap w r = Some t \<Longrightarrow> set_table r t w = w"
  by (simp add: set_table_def fun_upd_idem)

lemma ets_inv_upd:
  assumes i: "ets_inv M w" and t: "ew_heap w r = Some t" "table_inv M t'" "et_tid t' = et_tid t" "et_owner t' = et_owner t"
  shows "ets_inv M (set_table r t' w)"
proof -
  note d = ets_invD [OF i]
  have own: "{s. \<exists>u. ew_heap (set_table r t' w) s = Some u \<and> et_owner u = Some p}
      = {s. \<exists>u. ew_heap w s = Some u \<and> et_owner u = Some p}" for p
    using t by auto
  have "dom (ew_heap (set_table r t' w)) = dom (ew_heap w)" using t(1) by (auto simp: dom_def)
  moreover have "table_inv M u \<and> s < ew_fresh w \<and> et_tid u < g_next_ets_tid w \<and> et_tid u \<noteq> 0"
    if "ew_heap (set_table r t' w) s = Some u" for s u
    using that d(3-6) t by (auto split: if_splits)
  moreover have "s = s'" if "ew_heap (set_table r t' w) s = Some u" "ew_heap (set_table r t' w) s' = Some u'" "et_tid u = et_tid u'" for s u s' u'
    using that d(7) [of s u s' u'] d(7) [OF t(1), of s' u'] d(7) [OF _ t(1), of s u] t(3) by (auto split: if_splits)
  moreover have "0 < g_next_ets_tid w" using i by (simp add: ets_inv_def)
  ultimately show ?thesis
    unfolding ets_inv_def own set_table_simps(2-5) using d(1,2,8,9) by blast
qed

lemma ets_insert_eq:
  assumes "ets_inv M w" "ew_heap w r = Some t" "ets_check_write self t"
  shows "sw_ets_insert M True self (et_tid t) k v w = (set_table r (table_insert M k v t) w, 0)"
  using find_table_heap [OF assms(1), of "et_tid t" r t] assms(2,3) by (simp add: sw_ets_insert_def)

lemma ets_delete_eq:
  assumes "ets_inv M w" "ew_heap w r = Some t" "ets_check_write self t" "key_good M k"
  shows "fst (sw_ets_delete M self (et_tid t) k w) = set_table r (table_remove M k t) w"
  using find_table_heap [OF assms(1), of "et_tid t" r t] assms(2,3)
  by (auto simp: sw_ets_delete_def table_remove_def set_table_id split: option.split)

lemma ets_lookup_eq:
  assumes "ets_inv M w" "ew_heap w r = Some t" "ets_check_read self t"
  shows "sw_ets_lookup M self (et_tid t) k w = (case table_lookup M k t of None \<Rightarrow> 0 | Some v \<Rightarrow> v)"
  using find_table_heap [OF assms(1), of "et_tid t" r t] assms(2,3) by (simp add: sw_ets_lookup_def)

lemma check_write_read: "ets_check_write self t \<Longrightarrow> ets_check_read self t"
  by (auto simp: ets_check_write_def ets_check_read_def split: if_splits)

subsection \<open>Histories of one table\<close>

fun ets_apply :: "kmem \<Rightarrow> proc_ref option \<Rightarrow> u32 \<Rightarrow> (addr, addr) kv_op \<Rightarrow> ets_world \<Rightarrow> ets_world" where
  "ets_apply M self tid (KV_put k v) w = fst (sw_ets_insert M True self tid k v w)"
| "ets_apply M self tid (KV_del k) w = fst (sw_ets_delete M self tid k w)"

lemma ets_apply_table:
  assumes i: "ets_inv M w" and t: "ew_heap w r = Some t" "ets_check_write self t" and k: "key_good M (kv_key op)"
  shows "ets_apply M self (et_tid t) op w = set_table r (kv_exec (table_insert M) (table_remove M) op t) w"
  using ets_insert_eq [OF i t] ets_delete_eq [OF i t] k by (cases op) simp_all

lemma ets_apply_fold:
  assumes "ets_inv M w" "ew_heap w r = Some t" "ets_check_write self t" "\<forall>op\<in>set ops. key_good M (kv_key op)"
  shows "fold (ets_apply M self (et_tid t)) ops w =
      set_table r (fold (kv_exec (table_insert M) (table_remove M)) ops t) w
    \<and> ets_inv M (fold (ets_apply M self (et_tid t)) ops w)"
  using assms
proof (induction ops arbitrary: w t)
  case Nil
  then show ?case by (simp add: set_table_id)
next
  case (Cons op ops)
  let ?t = "kv_exec (table_insert M) (table_remove M) op t"
  have e: "ets_apply M self (et_tid t) op w = set_table r ?t w"
    by (rule ets_apply_table [OF Cons.prems(1-3)]) (use Cons.prems(4) in simp)
  have k: "key_good M (kv_key op)" using Cons.prems(4) by simp
  have ti: "table_inv M t" by (rule ets_invD(3) [OF Cons.prems(1,2)])
  have s: "table_inv M ?t" "et_tid ?t = et_tid t" "et_owner ?t = et_owner t" "et_opts ?t = et_opts t"
    using table_inv_insert [OF ti] table_inv_remove [OF ti] k by (cases op; simp)+
  have i: "ets_inv M (set_table r ?t w)" by (rule ets_inv_upd [OF Cons.prems(1,2) s(1-3)])
  have "ets_check_write self ?t" using Cons.prems(3) s by (simp add: ets_check_write_def)
  then have "fold (ets_apply M self (et_tid t)) ops (set_table r ?t w) =
      set_table r (fold (kv_exec (table_insert M) (table_remove M)) ops ?t) (set_table r ?t w)
    \<and> ets_inv M (fold (ets_apply M self (et_tid t)) ops (set_table r ?t w))"
    using Cons.IH [OF i, of ?t] Cons.prems(4) s(2) by auto
  then show ?case by (auto simp: e)
qed

text \<open>The entries of a set are as many as the keys that have a value.\<close>

definition table_keys :: "kmem \<Rightarrow> sw_ets_table \<Rightarrow> (int \<times> int \<times> nat list \<times> nat) set" where
  "table_keys M t = {key_rank M k |k. key_good M k \<and> table_lookup M k t \<noteq> None}"

lemma table_keys_concat:
  assumes "table_inv M t"
  shows "table_keys M t = set (map (key_rank M \<circ> e_key) (concat (et_buckets t)))"
proof -
  have g: "\<forall>e\<in>set (et_buckets t ! ets_hash_key M k). key_good M (e_key e)" for k
    using table_invD(2) [OF assms] by (simp add: bucket_ok_def)
  have "x \<in> table_keys M t" if x: "x \<in> set (map (key_rank M \<circ> e_key) (concat (et_buckets t)))" for x
  proof -
    obtain b e where b: "b \<in> set (et_buckets t)" "e \<in> set b" "x = key_rank M (e_key e)" using x by auto
    then obtain i where i: "i < SW_ETS_BUCKETS" "et_buckets t ! i = b" using table_invD(1) [OF assms] by (metis in_set_conv_nth)
    then have e: "key_good M (e_key e)" "ets_hash_key M (e_key e) = i" using assms b by (auto simp: table_inv_def bucket_ok_def)
    have "table_lookup M (e_key e) t \<noteq> None"
      unfolding table_lookup_def bucket_lookup_None [OF g e(1)] using i e b by force
    then show ?thesis using b(3) e(1) by (auto simp: table_keys_def)
  qed
  moreover have "x \<in> set (map (key_rank M \<circ> e_key) (concat (et_buckets t)))" if x: "x \<in> table_keys M t" for x
  proof -
    obtain k where k: "key_good M k" "table_lookup M k t \<noteq> None" "x = key_rank M k" using x by (auto simp: table_keys_def)
    then have "x \<in> (key_rank M \<circ> e_key) ` set (et_buckets t ! ets_hash_key M k)"
      using bucket_lookup_None [OF g k(1)] by (simp add: table_lookup_def)
    moreover have "et_buckets t ! ets_hash_key M k \<in> set (et_buckets t)" using table_invD(1) [OF assms] by simp
    ultimately show ?thesis by auto
  qed
  ultimately show ?thesis by blast
qed

lemma distinct_concat_nth:
  assumes "\<And>i. i < length bs \<Longrightarrow> distinct (map f (bs ! i))"
    and "\<And>i j x y. i < length bs \<Longrightarrow> j < length bs \<Longrightarrow> x \<in> set (bs ! i) \<Longrightarrow> y \<in> set (bs ! j) \<Longrightarrow> f x = f y \<Longrightarrow> i = j"
  shows "distinct (map f (concat bs))"
  using assms
proof (induction bs rule: rev_induct)
  case (snoc b bs)
  have "distinct (map f (concat bs))"
  proof (rule snoc.IH)
    fix i assume "i < length bs"
    then show "distinct (map f (bs ! i))" using snoc.prems(1) [of i] by (simp add: nth_append)
  next
    fix i j x y assume "i < length bs" "j < length bs" "x \<in> set (bs ! i)" "y \<in> set (bs ! j)" "f x = f y"
    then show "i = j" using snoc.prems(2) [of i j x y] by (simp add: nth_append)
  qed
  moreover have "f x \<noteq> f y" if h: "x \<in> set (concat bs)" "y \<in> set b" for x y
  proof -
    obtain i where "i < length bs" "x \<in> set (bs ! i)" using h(1) by (auto simp: in_set_conv_nth [of _ bs])
    then show ?thesis using snoc.prems(2) [of i "length bs" x y] h(2) by (auto simp: nth_append)
  qed
  ultimately show ?case using snoc.prems(1) [of "length bs"] by (auto simp: nth_append)
qed simp

lemma table_size_card:
  assumes "is_set_table M t"
  shows "table_size t = card (table_keys M t)"
proof -
  have i: "table_inv M t" and n: "opt_type (et_opts t) \<noteq> SW_ETS_BAG" using assms by (simp_all add: is_set_table_def)
  have "distinct (map (key_rank M \<circ> e_key) (concat (et_buckets t)))"
  proof (rule distinct_concat_nth)
    fix j assume "j < length (et_buckets t)"
    then show "distinct (map (key_rank M \<circ> e_key) (et_buckets t ! j))"
      using i n by (auto simp: table_inv_def intro: bucket_ok_distinct)
  next
    fix a b x y assume h: "a < length (et_buckets t)" "b < length (et_buckets t)" "x \<in> set (et_buckets t ! a)"
      "y \<in> set (et_buckets t ! b)" "(key_rank M \<circ> e_key) x = (key_rank M \<circ> e_key) y"
    then have "key_good M (e_key x)" "key_good M (e_key y)" "ets_hash_key M (e_key x) = a" "ets_hash_key M (e_key y) = b"
      using i by (auto simp: table_inv_def bucket_ok_def)
    then show "a = b" using ets_hash_rank [of M "e_key x" "e_key y"] h(5) by simp
  qed
  from distinct_card [OF this] show ?thesis
    unfolding table_keys_concat [OF i] by (simp add: table_size_def length_concat)
qed

section \<open>Dropping tables\<close>

lemma ets_drop_eq:
  assumes i: "ets_inv M w" and t: "ew_heap w r = Some t"
  shows "sw_ets_drop (et_tid t) w =
    (w\<lparr>g_ets_tables := filter (\<lambda>x. x \<noteq> r) (g_ets_tables w), ets_tables := (\<lambda>p. filter (\<lambda>x. x \<noteq> r) (ets_tables w p)),
       ew_heap := (ew_heap w)(r := None)\<rparr>, 0)"
proof -
  have other: "filter (\<lambda>x. x \<noteq> r) (ets_tables w p) = ets_tables w p" if "et_owner t \<noteq> Some p" for p
  proof -
    have "r \<notin> set (ets_tables w p)" using ets_invD(9) [OF i, of p] t that by auto
    then show ?thesis by (auto simp: filter_id_conv)
  qed
  have "find_table = Some (r, t)" if "find_table = ets_find_table (et_tid t) w" for find_table
    using find_table_heap [OF i] t that by simp
  moreover have "(\<lambda>p. filter (\<lambda>x. x \<noteq> r) (ets_tables w p)) =
      (case et_owner t of None \<Rightarrow> ets_tables w | Some p \<Rightarrow> (ets_tables w)(p := filter (\<lambda>x. x \<noteq> r) (ets_tables w p)))"
    using other by (auto simp: fun_eq_iff split: option.split)
  ultimately show ?thesis
    by (auto simp: sw_ets_drop_def Let_def remove_first_distinct [OF ets_invD(1) [OF i]]
        remove_first_distinct [OF ets_invD(8) [OF i]] split: option.split)
qed

definition drop_tables :: "table_ref set \<Rightarrow> ets_world \<Rightarrow> ets_world" where
  "drop_tables R w = w\<lparr>g_ets_tables := filter (\<lambda>x. x \<notin> R) (g_ets_tables w),
     ets_tables := (\<lambda>p. filter (\<lambda>x. x \<notin> R) (ets_tables w p)), ew_heap := (\<lambda>r. if r \<in> R then None else ew_heap w r)\<rparr>"

lemma drop_tables_inv: "ets_inv M w \<Longrightarrow> ets_inv M (drop_tables R w)"
  unfolding ets_inv_def drop_tables_def by (auto simp: dom_def split: if_splits)

lemma dom_drop_tables: "dom (ew_heap (drop_tables R w)) = dom (ew_heap w) - R"
  by (auto simp: drop_tables_def split: if_splits)

lemma drop_fold:
  assumes "ets_inv M w" "distinct rs" "set rs \<subseteq> dom (ew_heap w)"
  shows "fold (\<lambda>tid w. fst (sw_ets_drop tid w)) (map (table_tid w) rs) w = drop_tables (set rs) w"
  using assms
proof (induction rs arbitrary: w)
  case (Cons r rs)
  obtain t where t: "ew_heap w r = Some t" using Cons.prems(3) by auto
  have tid: "table_tid w r = et_tid t" by (simp add: table_tid_def t)
  have d: "fst (sw_ets_drop (et_tid t) w) = drop_tables {r} w"
    unfolding ets_drop_eq [OF Cons.prems(1) t] by (auto simp: drop_tables_def fun_eq_iff)
  have same: "map (table_tid w) rs = map (table_tid (drop_tables {r} w)) rs"
    using Cons.prems(2) by (auto simp: table_tid_def drop_tables_def)
  have "fold (\<lambda>tid w. fst (sw_ets_drop tid w)) (map (table_tid w) (r # rs)) w = drop_tables (set rs) (drop_tables {r} w)"
    using Cons.IH [OF drop_tables_inv [OF Cons.prems(1)], of "{r}"] Cons.prems(2,3)
    by (auto simp: tid d same dom_drop_tables)
  moreover have "drop_tables (set rs) (drop_tables {r} w) = drop_tables (set (r # rs)) w"
    by (auto simp: drop_tables_def fun_eq_iff intro!: filter_cong)
  ultimately show ?case by simp
qed (simp add: drop_tables_def)

lemma cleanup_owner_eq:
  assumes "ets_inv M w"
  shows "sw_ets_cleanup_owner p w =
    (drop_tables (set (take 256 (ets_tables w p))) w)\<lparr>ets_tables := (ets_tables (drop_tables (set (take 256 (ets_tables w p))) w))(p := [])\<rparr>"
proof -
  have "set (take 256 (ets_tables w p)) \<subseteq> dom (ew_heap w)"
    using set_take_subset [of 256 "ets_tables w p"] ets_invD(9) [OF assms, of p] by auto
  from drop_fold [OF assms distinct_take [OF ets_invD(8) [OF assms]] this] show ?thesis
    by (simp add: sw_ets_cleanup_owner_def Let_def)
qed

text \<open>With at most 256 tables every table of the owner is dropped.\<close>

lemma cleanup_owner_all:
  assumes "ets_inv M w" "length (ets_tables w p) \<le> 256"
  shows "sw_ets_cleanup_owner p w = drop_tables (set (ets_tables w p)) w"
proof -
  have "filter (\<lambda>x. x \<notin> set (ets_tables w p)) (ets_tables w p) = []" by (auto simp: filter_empty_conv)
  then have "ets_tables (drop_tables (set (ets_tables w p)) w) p = []" by (simp add: drop_tables_def)
  then have "(ets_tables (drop_tables (set (ets_tables w p)) w))(p := []) = ets_tables (drop_tables (set (ets_tables w p)) w)"
    by (auto simp: fun_eq_iff)
  then show ?thesis unfolding cleanup_owner_eq [OF assms(1)] using assms(2) by simp
qed

definition ets_refers :: "ets_world \<Rightarrow> proc_ref \<Rightarrow> bool" where
  "ets_refers w p \<longleftrightarrow> (\<exists>r t. ew_heap w r = Some t \<and> et_owner t = Some p)"

definition few_tables :: "kmem \<Rightarrow> ets_world \<Rightarrow> bool" where
  "few_tables M w \<longleftrightarrow> ets_inv M w \<and> (\<forall>p. length (ets_tables w p) \<le> 256)"

interpretation ets_exit: exit_cleanup "few_tables M" ets_refers sw_ets_cleanup_owner for M
proof
  fix w p q assume "few_tables M w"
  then have w: "ets_inv M w" "\<And>p. length (ets_tables w p) \<le> 256" by (auto simp: few_tables_def)
  note e = cleanup_owner_all [OF w(1) w(2), of p]
  have "length (ets_tables (drop_tables R w) q) \<le> 256" for R q
    using order_trans [OF length_filter_le w(2)] by (simp add: drop_tables_def)
  then show "few_tables M (sw_ets_cleanup_owner p w)"
    unfolding e few_tables_def using drop_tables_inv [OF w(1)] by simp
  show "\<not> ets_refers (sw_ets_cleanup_owner p w) p"
    unfolding e ets_refers_def drop_tables_def using ets_invD(9) [OF w(1), of p] by auto
  show "ets_refers (sw_ets_cleanup_owner p w) q \<Longrightarrow> ets_refers w q"
    unfolding e ets_refers_def drop_tables_def by (auto split: if_splits)
qed

section \<open>Properties\<close>

text \<open>
  C12. A set or ordered set remembers the last write of every key: after any history of inserts and
  deletes by a process that may write, a lookup returns the value last inserted for an equal key, or
  null when it was deleted or never inserted; the count is the number of keys that have a value, and
  no other table changes. Two keys are equal as the comment on \<^verbatim>\<open>ets_key_eq\<close> (\<^verbatim>\<open>swarmrt_ets.c:48\<close>) says and its
  code does: integers, atoms and strings by their contents, every other pointer by its address; the
  older remark in the file's first comment (line 9) that all keys go by address is out of date. Float keys are
  excluded: they are hashed by address but compared by contents (\<open>ets_float_key_lost\<close>).
\<close>

theorem ets_last_write_wins:
  fixes ops :: "(addr, addr) kv_op list"
  assumes "ets_inv M w" "ets_find_table tid w = Some (r, t)" "opt_type (et_opts t) \<noteq> SW_ETS_BAG"
    and "ets_check_write self t" "\<forall>op\<in>set ops. key_good M (kv_key op)" "key_good M k"
  shows "sw_ets_lookup M self tid k (fold (ets_apply M self tid) ops w) =
      (case kv_last (ets_key_eq M) k ops (table_lookup M k t) of None \<Rightarrow> 0 | Some v \<Rightarrow> v)
    \<and> (\<exists>t'. ets_find_table tid (fold (ets_apply M self tid) ops w) = Some (r, t')
        \<and> sw_ets_info_count tid (fold (ets_apply M self tid) ops w) = sint (of_nat (card (table_keys M t')) :: u32))
    \<and> (\<forall>s. s \<noteq> r \<longrightarrow> ew_heap (fold (ets_apply M self tid) ops w) s = ew_heap w s)"
proof -
  have t: "ew_heap w r = Some t" "et_tid t = tid" using find_table_heap [OF assms(1)] assms(2) by auto
  let ?t = "fold (kv_exec (table_insert M) (table_remove M)) ops t" and ?w = "fold (ets_apply M self tid) ops w"
  have e: "?w = set_table r ?t w" "ets_inv M ?w"
    using ets_apply_fold [OF assms(1) t(1) assms(4,5)] unfolding t(2) by blast+
  have s: "is_set_table M t" using ets_invD(3) [OF assms(1) t(1)] assms(3) by (simp add: is_set_table_def)
  have h: "is_set_table M ?t" "table_lookup M k ?t = kv_last (ets_key_eq M) k ops (table_lookup M k t)"
    using ets.kv_history [OF s assms(5)] assms(6) by auto
  have f: "et_tid ?t = tid" "et_opts ?t = et_opts t" "et_owner ?t = et_owner t"
    using t(2) by (induction ops arbitrary: t) (auto, (case_tac a; simp)+)
  have p: "ew_heap ?w r = Some ?t" by (simp add: e(1))
  have "ets_find_table tid ?w = Some (r, ?t)" using find_table_heap [OF e(2), of tid r ?t] p f(1) by blast
  moreover have "ets_check_read self ?t" using check_write_read [OF assms(4)] f(2,3) by (simp add: ets_check_read_def)
  moreover have "et_count ?t = of_nat (card (table_keys M ?t))"
    using h(1) table_size_card [OF h(1)] by (simp add: is_set_table_def table_inv_def)
  ultimately show ?thesis using h(2) e(1) by (simp add: sw_ets_lookup_def sw_ets_info_count_def)
qed

definition demo_mem :: kmem where
  "demo_mem a = K_int (drop_bit 4 a)"

definition demo_opts :: sw_ets_opts where
  "demo_opts = \<lparr>opt_type = SW_ETS_ORDERED_SET, opt_access = SW_ETS_PRIVATE\<rparr>"

definition demo_ets :: ets_world where
  "demo_ets = fst (sw_ets_new True (Some 1) demo_opts ets_world0)"

lemma demo_ets_inv: "ets_inv demo_mem demo_ets"
  unfolding demo_ets_def by (rule ets_inv_new [OF ets_inv_world0]) (simp add: ets_world0_def)

theorem ets_last_write_wins_witness:
  "sw_ets_lookup demo_mem (Some 1) 1 16
     (fold (ets_apply demo_mem (Some 1) 1) [KV_put 16 100, KV_put 32 7, KV_put 17 200] demo_ets) = 200"
proof -
  obtain t where t: "ets_find_table 1 demo_ets = Some (0, t)" "opt_type (et_opts t) = SW_ETS_ORDERED_SET" "et_owner t = Some 1"
    by (simp add: demo_ets_def sw_ets_new_def ets_world0_def ets_find_table_def table_has_tid_def demo_opts_def Let_def)
  have "ets_key_eq demo_mem 16 16" "ets_key_eq demo_mem 17 16" "\<not> ets_key_eq demo_mem 32 16"
    by (simp_all add: ets_key_eq_def demo_mem_def drop_bit_eq_div)
  moreover have "\<forall>op\<in>set [KV_put 16 100, KV_put 32 7, KV_put 17 200]. key_good demo_mem (kv_key op)"
    by (simp add: key_good_def demo_mem_def)
  ultimately show ?thesis
    using ets_last_write_wins [OF demo_ets_inv t(1), of "Some 1" "[KV_put 16 100, KV_put 32 7, KV_put 17 200]" 16] t(2,3)
    by (simp add: ets_check_write_def key_good_def demo_mem_def)
qed

text \<open>
  A process's tables die with it: when it exits, exactly the tables it owns disappear, from the
  global list, from its own list and from memory, and every other table stays as it is, provided it
  owns at most 256 tables.
\<close>

theorem ets_exit_drops_tables:
  assumes "few_tables M w"
  shows "ew_heap (sw_ets_cleanup_owner p w) r =
      (case ew_heap w r of None \<Rightarrow> None | Some t \<Rightarrow> if et_owner t = Some p then None else Some t)
    \<and> (r \<in> set (g_ets_tables (sw_ets_cleanup_owner p w)) \<longleftrightarrow> ew_heap (sw_ets_cleanup_owner p w) r \<noteq> None)
    \<and> ets_tables (sw_ets_cleanup_owner p w) p = [] \<and> \<not> ets_refers (sw_ets_cleanup_owner p w) p"
proof -
  have w: "ets_inv M w" "length (ets_tables w p) \<le> 256" using assms by (auto simp: few_tables_def)
  have "ew_heap (sw_ets_cleanup_owner p w) r =
      (case ew_heap w r of None \<Rightarrow> None | Some t \<Rightarrow> if et_owner t = Some p then None else Some t)"
    unfolding cleanup_owner_all [OF w] drop_tables_def using ets_invD(9) [OF w(1), of p] by (auto split: option.split)
  moreover have "few_tables M (sw_ets_cleanup_owner p w)" by (rule ets_exit.inv_cleanup [OF assms])
  then have "set (g_ets_tables (sw_ets_cleanup_owner p w)) = dom (ew_heap (sw_ets_cleanup_owner p w))"
    unfolding few_tables_def using ets_invD(2) by blast
  moreover have "ets_tables (sw_ets_cleanup_owner p w) p = []" by (simp add: sw_ets_cleanup_owner_def Let_def)
  ultimately show ?thesis using ets_exit.refers_cleanup [OF assms, of p] by (simp add: dom_def)
qed

lemma demo_few: "few_tables demo_mem demo_ets"
  using demo_ets_inv by (auto simp: few_tables_def demo_ets_def sw_ets_new_def ets_world0_def Let_def)

theorem ets_exit_drops_tables_witness:
  "ew_heap demo_ets 0 \<noteq> None \<and> ew_heap (sw_ets_cleanup_owner 1 demo_ets) 0 = None"
  using ets_exit_drops_tables [OF demo_few, of 1 0]
  by (simp add: demo_ets_def sw_ets_new_def ets_world0_def Let_def)

text \<open>
  More than 256 tables leak: when a process that owns more than 256 tables exits, a table of its
  stays in the global list and in memory with the dead process as its owner, while the process's own
  list is emptied, so that nothing will ever drop it.
\<close>

theorem ets_exit_leaks_tables:
  assumes "ets_inv M w" "256 < length (ets_tables w p)"
  shows "\<exists>r t. ew_heap (sw_ets_cleanup_owner p w) r = Some t \<and> et_owner t = Some p
    \<and> r \<in> set (g_ets_tables (sw_ets_cleanup_owner p w)) \<and> ets_tables (sw_ets_cleanup_owner p w) p = []"
proof -
  let ?r = "ets_tables w p ! 256"
  have r: "?r \<notin> set (take 256 (ets_tables w p))"
    using id_take_nth_drop [OF assms(2)] ets_invD(8) [OF assms(1), of p] by (metis distinct_append disjoint_iff list.set_intros(1))
  have "?r \<in> set (ets_tables w p)" using assms(2) by simp
  then obtain t where t: "ew_heap w ?r = Some t" "et_owner t = Some p" using ets_invD(9) [OF assms(1), of p] by auto
  then have "?r \<in> set (g_ets_tables w)" using ets_invD(2) [OF assms(1)] by auto
  then show ?thesis unfolding cleanup_owner_eq [OF assms(1)] using r t by (auto simp: drop_tables_def)
qed

definition many_tables :: "nat \<Rightarrow> ets_world" where
  "many_tables n = ((\<lambda>w. fst (sw_ets_new True (Some 1) demo_opts w)) ^^ n) ets_world0"

lemma many_tables_ok:
  "n < 1000 \<Longrightarrow> ets_inv M (many_tables n) \<and> length (ets_tables (many_tables n) 1) = n \<and> g_next_ets_tid (many_tables n) = of_nat n + 1"
proof (induction n)
  case (Suc n)
  then have i: "ets_inv M (many_tables n)" "g_next_ets_tid (many_tables n) = of_nat n + 1" "length (ets_tables (many_tables n) 1) = n"
    by auto
  have s: "many_tables (Suc n) = fst (sw_ets_new True (Some 1) demo_opts (many_tables n))" by (simp add: many_tables_def)
  have "g_next_ets_tid (many_tables n) + 1 = of_nat (n + 2)" by (simp add: i(2))
  moreover have "unat (of_nat (n + 2) :: u32) = n + 2" using Suc.prems by (simp only: unat_of_nat) simp
  then have "(of_nat (n + 2) :: u32) \<noteq> 0" by (metis Suc_eq_plus1 add_2_eq_Suc' nat.distinct(1) unat_0)
  ultimately have "ets_inv M (many_tables (Suc n))" unfolding s using ets_inv_new [OF i(1)] by simp
  then show ?case using i by (simp add: s sw_ets_new_def Let_def add.commute)
qed (use ets_inv_world0 in \<open>simp add: many_tables_def ets_world0_def\<close>)

theorem ets_exit_leaks_tables_witness:
  "\<exists>r t. ew_heap (sw_ets_cleanup_owner 1 (many_tables 257)) r = Some t \<and> et_owner t = Some 1"
  using ets_exit_leaks_tables [of demo_mem "many_tables 257" 1] many_tables_ok [of 257 demo_mem] by auto

definition float_mem :: kmem where
  "float_mem a = K_float 0x3FF0000000000000"

lemma float_eq: "ets_key_eq float_mem a b \<longleftrightarrow> a = b \<or> a \<noteq> 0 \<and> b \<noteq> 0"
  by (simp add: ets_key_eq_def float_mem_def f64_eq_def f64_nan_def f64_mag_def)

lemma float_hash: "ets_hash_key float_mem 16 = 47" "ets_hash_key float_mem 32 = 30"
  by (simp_all add: ets_hash_key_def hash_mix_def hash_word_def float_mem_def Let_def const_simps)

text \<open>
  A float key is found only through the pointer it was inserted with: two keys that both point to
  the float 1.0 are equal for the table but hashed by their addresses, so a value inserted under one is
  not found under the other, and a second insert makes a second entry for the same key.
\<close>

theorem ets_float_key_lost:
  "ets_key_eq float_mem 16 32 \<and>
   sw_ets_lookup float_mem (Some 1) 1 16 (fst (sw_ets_insert float_mem True (Some 1) 1 16 100 demo_ets)) = 100 \<and>
   sw_ets_lookup float_mem (Some 1) 1 32 (fst (sw_ets_insert float_mem True (Some 1) 1 16 100 demo_ets)) = 0 \<and>
   sw_ets_info_count 1 (fst (sw_ets_insert float_mem True (Some 1) 1 32 200
     (fst (sw_ets_insert float_mem True (Some 1) 1 16 100 demo_ets)))) = 2"
  by (simp add: demo_ets_def sw_ets_new_def ets_world0_def demo_opts_def Let_def sw_ets_insert_def sw_ets_lookup_def
      sw_ets_info_count_def ets_find_table_def table_has_tid_def insert_allocates_def ets_check_write_def ets_check_read_def
      table_insert_def table_lookup_def bucket_insert_def float_hash float_eq set_table_def const_simps)

end
