(* ===== verification/Proc_Groups.thy ===== *)
theory Proc_Groups
  imports Swarm_Prelude
begin

text \<open>
  Named process groups of \<^verbatim>\<open>src/src/swarmrt_phase5.c\<close>: a hash table of 256 chains of groups, each with
  the list of its members and their number, behind one lock. Sends of a dispatch are returned as the
  list of the messages handed to \<^verbatim>\<open>sw_send_tagged\<close>, in order.
\<close>

section \<open>State\<close>

definition SW_PG_BUCKETS :: nat where [const_simps]: "SW_PG_BUCKETS = 256"

record sw_pg_group =
  pg_name :: string
  pg_members :: "proc_ref list"
  pg_cnt :: u32

type_synonym pg_table = "sw_pg_group list list"

definition pg_empty :: pg_table where
  "pg_empty = replicate SW_PG_BUCKETS []"

section \<open>Operations\<close>

text \<open>The hash adds the characters as \<^verbatim>\<open>char\<close>, which is signed on the platforms of the runtime.\<close>

fun pg_hash_loop :: "u32 \<Rightarrow> string \<Rightarrow> u32" where
  "pg_hash_loop h [] = h"
| "pg_hash_loop h (c # cs) = pg_hash_loop ((push_bit 5 h + h) + of_int (sint (of_char c :: u8))) cs"

definition pg_hash :: "string \<Rightarrow> nat" where
  "pg_hash name = unat (pg_hash_loop 5381 name) mod SW_PG_BUCKETS"

definition pg_find :: "string \<Rightarrow> pg_table \<Rightarrow> sw_pg_group option" where
  "pg_find name B = find (\<lambda>g. pg_name g = name) (B ! pg_hash name)"

text \<open>An update through the pointer that \<^verbatim>\<open>pg_find\<close> returns.\<close>

fun upd_first :: "('a \<Rightarrow> bool) \<Rightarrow> ('a \<Rightarrow> 'a) \<Rightarrow> 'a list \<Rightarrow> 'a list" where
  "upd_first P f [] = []"
| "upd_first P f (x # xs) = (if P x then f x # xs else x # upd_first P f xs)"

definition pg_update :: "string \<Rightarrow> (sw_pg_group \<Rightarrow> sw_pg_group) \<Rightarrow> pg_table \<Rightarrow> pg_table" where
  "pg_update name f B = B[pg_hash name := upd_first (\<lambda>g. pg_name g = name) f (B ! pg_hash name)]"

definition pg_create :: "string \<Rightarrow> sw_pg_group" where
  "pg_create name = \<lparr>pg_name = strncpy name (SW_REG_NAME_MAX - 1), pg_members = [], pg_cnt = 0\<rparr>"

definition pg_add :: "proc_ref \<Rightarrow> sw_pg_group \<Rightarrow> sw_pg_group" where
  "pg_add p g = (if p \<in> set (pg_members g) then g else g\<lparr>pg_members := p # pg_members g, pg_cnt := pg_cnt g + 1\<rparr>)"

text \<open>A group that is not found is created at the head of its chain, and joined through that pointer.\<close>

definition sw_pg_join :: "string \<Rightarrow> proc_ref \<Rightarrow> pg_table \<Rightarrow> pg_table \<times> int" where
  "sw_pg_join name p B =
     (case pg_find name B of
        Some g \<Rightarrow> (pg_update name (pg_add p) B, 0)
      | None \<Rightarrow> (B[pg_hash name := pg_add p (pg_create name) # B ! pg_hash name], 0))"

definition pg_remove :: "proc_ref \<Rightarrow> sw_pg_group \<Rightarrow> sw_pg_group" where
  "pg_remove p g = g\<lparr>pg_members := remove_first (\<lambda>x. x = p) (pg_members g), pg_cnt := pg_cnt g - 1\<rparr>"

definition sw_pg_leave :: "string \<Rightarrow> proc_ref \<Rightarrow> pg_table \<Rightarrow> pg_table \<times> int" where
  "sw_pg_leave name p B =
     (case pg_find name B of
        None \<Rightarrow> (B, -1)
      | Some g \<Rightarrow> if p \<in> set (pg_members g) then (pg_update name (pg_remove p) B, 0) else (B, -1))"

definition gets_messages :: "(proc_ref \<Rightarrow> sw_proc_state) \<Rightarrow> proc_ref \<Rightarrow> bool" where
  "gets_messages st p \<longleftrightarrow> st p \<noteq> SW_PROC_FREE \<and> st p \<noteq> SW_PROC_EXITING"

fun pg_send_loop :: "(proc_ref \<Rightarrow> sw_proc_state) \<Rightarrow> u64 \<Rightarrow> 'm \<Rightarrow> proc_ref list \<Rightarrow> (proc_ref \<times> u64 \<times> 'm) list \<times> nat" where
  "pg_send_loop st tag msg [] = ([], 0)"
| "pg_send_loop st tag msg (p # ps) =
     (case pg_send_loop st tag msg ps of (out, n) \<Rightarrow> if gets_messages st p then ((p, tag, msg) # out, Suc n) else (out, n))"

definition sw_pg_dispatch :: "(proc_ref \<Rightarrow> sw_proc_state) \<Rightarrow> string \<Rightarrow> u64 \<Rightarrow> 'm \<Rightarrow> pg_table \<Rightarrow> (proc_ref \<times> u64 \<times> 'm) list \<times> nat" where
  "sw_pg_dispatch st name tag msg B = (case pg_find name B of None \<Rightarrow> ([], 0) | Some g \<Rightarrow> pg_send_loop st tag msg (pg_members g))"

definition sw_pg_members :: "string \<Rightarrow> nat \<Rightarrow> pg_table \<Rightarrow> proc_ref list" where
  "sw_pg_members name mx B = (case pg_find name B of None \<Rightarrow> [] | Some g \<Rightarrow> take mx (pg_members g))"

definition sw_pg_count :: "string \<Rightarrow> pg_table \<Rightarrow> u32" where
  "sw_pg_count name B = (case pg_find name B of None \<Rightarrow> 0 | Some g \<Rightarrow> pg_cnt g)"

text \<open>The loop over one group's members that removes every occurrence of the process.\<close>

fun pg_purge :: "proc_ref \<Rightarrow> proc_ref list \<Rightarrow> u32 \<Rightarrow> proc_ref list \<times> u32" where
  "pg_purge p [] n = ([], n)"
| "pg_purge p (q # qs) n =
     (if q = p then pg_purge p qs (n - 1) else case pg_purge p qs n of (qs', n') \<Rightarrow> (q # qs', n'))"

definition pg_cleanup_group :: "proc_ref \<Rightarrow> sw_pg_group \<Rightarrow> sw_pg_group" where
  "pg_cleanup_group p g = (case pg_purge p (pg_members g) (pg_cnt g) of (ms, n) \<Rightarrow> g\<lparr>pg_members := ms, pg_cnt := n\<rparr>)"

definition sw_pg_cleanup_proc :: "proc_ref \<Rightarrow> pg_table \<Rightarrow> pg_table" where
  "sw_pg_cleanup_proc p B = map (map (pg_cleanup_group p)) B"

section \<open>Invariant\<close>

definition pg_inv :: "pg_table \<Rightarrow> bool" where
  "pg_inv B \<longleftrightarrow> length B = SW_PG_BUCKETS
     \<and> (\<forall>b\<in>set B. \<forall>g\<in>set b. distinct (pg_members g) \<and> pg_cnt g = of_nat (length (pg_members g))
          \<and> length (pg_name g) < SW_REG_NAME_MAX)"

lemma pg_hash_bound [simp]: "pg_hash name < SW_PG_BUCKETS"
  by (simp add: pg_hash_def const_simps)

lemma pg_purge_filter: "pg_purge p ms n = (filter (\<lambda>x. x \<noteq> p) ms, n - of_nat (length (filter (\<lambda>x. x = p) ms)))"
  by (induction ms arbitrary: n) (auto simp: algebra_simps)

lemma pg_cleanup_group_eq:
  "pg_cleanup_group p g = g\<lparr>pg_members := filter (\<lambda>x. x \<noteq> p) (pg_members g),
     pg_cnt := pg_cnt g - of_nat (length (filter (\<lambda>x. x = p) (pg_members g)))\<rparr>"
  by (simp add: pg_cleanup_group_def pg_purge_filter)

definition group_ok :: "sw_pg_group \<Rightarrow> bool" where
  "group_ok g \<longleftrightarrow> distinct (pg_members g) \<and> pg_cnt g = of_nat (length (pg_members g)) \<and> length (pg_name g) < SW_REG_NAME_MAX"

lemma pg_inv_iff: "pg_inv B \<longleftrightarrow> length B = SW_PG_BUCKETS \<and> (\<forall>b\<in>set B. \<forall>g\<in>set b. group_ok g)"
  by (simp add: pg_inv_def group_ok_def)

lemma group_ok_add: "group_ok g \<Longrightarrow> group_ok (pg_add p g)"
  by (simp add: group_ok_def pg_add_def add.commute)

lemma group_ok_create: "group_ok (pg_create name)"
  by (simp add: group_ok_def pg_create_def strncpy_def const_simps)

lemma group_ok_remove:
  assumes "group_ok g" "p \<in> set (pg_members g)"
  shows "group_ok (pg_remove p g)"
proof -
  obtain n where n: "length (pg_members g) = Suc n" using assms(2) by (cases "pg_members g") auto
  then have "length (remove_first (\<lambda>x. x = p) (pg_members g)) = n" using assms(2) by (auto simp: length_remove_first)
  then show ?thesis using assms n by (simp add: group_ok_def pg_remove_def distinct_remove_first)
qed

lemma group_ok_cleanup: "group_ok g \<Longrightarrow> group_ok (pg_cleanup_group p g)"
proof -
  assume g: "group_ok g"
  have "(of_nat (length (pg_members g)) :: u32) =
      of_nat (length (filter (\<lambda>x. x = p) (pg_members g))) + of_nat (length (filter (\<lambda>x. x \<noteq> p) (pg_members g)))"
    unfolding of_nat_add [symmetric] by (simp only: sum_length_filter_compl)
  then show ?thesis using g by (simp add: group_ok_def pg_cleanup_group_eq)
qed

lemma set_upd_first: "x \<in> set (upd_first P f xs) \<Longrightarrow> x \<in> set xs \<or> (\<exists>y\<in>set xs. find P xs = Some y \<and> P y \<and> x = f y)"
  by (induction xs) (auto split: if_splits)

lemma find_upd_first:
  assumes "\<And>g. pg_name (f g) = pg_name g"
  shows "find (\<lambda>g. pg_name g = n) (upd_first (\<lambda>g. pg_name g = m) f xs) =
    (if n = m then map_option f (find (\<lambda>g. pg_name g = n) xs) else find (\<lambda>g. pg_name g = n) xs)"
  using assms by (induction xs) auto

lemma pg_find_update:
  assumes "length B = SW_PG_BUCKETS" "\<And>g. pg_name (f g) = pg_name g"
  shows "pg_find n (pg_update m f B) = (if n = m then map_option f (pg_find n B) else pg_find n B)"
proof (cases "pg_hash n = pg_hash m")
  case True
  then show ?thesis
    using find_upd_first [of f n m "B ! pg_hash m", OF assms(2)] assms(1) by (simp add: pg_find_def pg_update_def)
qed (auto simp: pg_find_def pg_update_def)

lemma names_kept [simp]:
  "pg_name (pg_add p g) = pg_name g" "pg_name (pg_remove p g) = pg_name g" "pg_name (pg_cleanup_group p g) = pg_name g"
  by (simp_all add: pg_add_def pg_remove_def pg_cleanup_group_eq)

lemma pg_find_cleanup:
  assumes "length B = SW_PG_BUCKETS"
  shows "pg_find n (sw_pg_cleanup_proc p B) = map_option (pg_cleanup_group p) (pg_find n B)"
proof -
  have "find (\<lambda>g. pg_name g = n) (map (pg_cleanup_group p) xs) = map_option (pg_cleanup_group p) (find (\<lambda>g. pg_name g = n) xs)" for xs
    by (induction xs) auto
  then show ?thesis using assms by (simp add: pg_find_def sw_pg_cleanup_proc_def)
qed

lemma pg_find_ok:
  assumes "pg_inv B" "pg_find n B = Some g"
  shows "group_ok g" "pg_name g = n"
proof -
  have "g \<in> set (B ! pg_hash n)" "pg_name g = n" using assms(2) by (auto simp: pg_find_def find_Some_iff)
  moreover have "B ! pg_hash n \<in> set B" using assms(1) by (simp add: pg_inv_iff)
  ultimately show "group_ok g" "pg_name g = n" using assms(1) by (auto simp: pg_inv_iff)
qed

lemma pg_inv_set: "pg_inv B \<Longrightarrow> \<forall>g\<in>set b. group_ok g \<Longrightarrow> pg_inv (B[i := b])"
  using set_update_subset_insert [of B i b] unfolding pg_inv_iff by (simp; blast)

lemma pg_inv_update:
  assumes i: "pg_inv B" and f: "\<And>g. pg_find m B = Some g \<Longrightarrow> group_ok (f g)"
  shows "pg_inv (pg_update m f B)"
proof -
  have b: "B ! pg_hash m \<in> set B" using i by (simp add: pg_inv_iff)
  have "group_ok g" if "g \<in> set (upd_first (\<lambda>g. pg_name g = m) f (B ! pg_hash m))" for g
    using set_upd_first [OF that] f i b by (auto simp: pg_find_def pg_inv_iff)
  then show ?thesis unfolding pg_update_def by (intro pg_inv_set [OF i]) blast
qed

lemma pg_inv_join: "pg_inv B \<Longrightarrow> pg_inv (fst (sw_pg_join name p B))"
proof (cases "pg_find name B")
  case None
  assume i: "pg_inv B"
  have "\<forall>g\<in>set (pg_add p (pg_create name) # B ! pg_hash name). group_ok g"
    using i group_ok_add [OF group_ok_create] by (auto simp: pg_inv_iff)
  then show ?thesis using pg_inv_set [OF i, of "pg_add p (pg_create name) # B ! pg_hash name" "pg_hash name"] None
    by (simp add: sw_pg_join_def)
next
  case (Some g)
  assume i: "pg_inv B"
  show ?thesis using Some pg_inv_update [OF i, of name "pg_add p"] pg_find_ok(1) [OF i] group_ok_add
    by (auto simp: sw_pg_join_def)
qed

lemma pg_inv_leave: "pg_inv B \<Longrightarrow> pg_inv (fst (sw_pg_leave name p B))"
  using pg_inv_update [of B name "pg_remove p"] pg_find_ok(1) [of B name] group_ok_remove
  by (auto simp: sw_pg_leave_def split: option.split)

lemma pg_inv_cleanup: "pg_inv B \<Longrightarrow> pg_inv (sw_pg_cleanup_proc p B)"
  by (auto simp: pg_inv_iff sw_pg_cleanup_proc_def group_ok_cleanup)

lemma pg_inv_empty: "pg_inv pg_empty"
  by (auto simp: pg_inv_iff pg_empty_def const_simps)

section \<open>Groups as lists of members\<close>

definition pg_abs :: "pg_table \<Rightarrow> string \<Rightarrow> proc_ref list" where
  "pg_abs B name = (case pg_find name B of None \<Rightarrow> [] | Some g \<Rightarrow> pg_members g)"

datatype pg_op = PG_join string proc_ref | PG_leave string proc_ref | PG_exit proc_ref

fun pg_exec :: "pg_op \<Rightarrow> pg_table \<Rightarrow> pg_table" where
  "pg_exec (PG_join n p) B = fst (sw_pg_join n p B)"
| "pg_exec (PG_leave n p) B = fst (sw_pg_leave n p B)"
| "pg_exec (PG_exit p) B = sw_pg_cleanup_proc p B"

text \<open>The specification: a group is the list of the processes that joined it and have not left or exited, latest first.\<close>

fun pg_spec :: "pg_op \<Rightarrow> (string \<Rightarrow> proc_ref list) \<Rightarrow> string \<Rightarrow> proc_ref list" where
  "pg_spec (PG_join n p) G = G(n := (if p \<in> set (G n) then G n else p # G n))"
| "pg_spec (PG_leave n p) G = G(n := remove1 p (G n))"
| "pg_spec (PG_exit p) G = (\<lambda>n. filter (\<lambda>x. x \<noteq> p) (G n))"

fun pg_short :: "pg_op \<Rightarrow> bool" where
  "pg_short (PG_join n p) \<longleftrightarrow> length n < SW_REG_NAME_MAX"
| "pg_short _ \<longleftrightarrow> True"

lemma pg_abs_join:
  assumes "pg_inv B" "length m < SW_REG_NAME_MAX"
  shows "pg_abs (fst (sw_pg_join m p B)) = pg_spec (PG_join m p) (pg_abs B)"
proof
  fix n
  have l: "length B = SW_PG_BUCKETS" using assms(1) by (simp add: pg_inv_iff)
  have c: "pg_name (pg_create m) = m" using assms(2) by (simp add: pg_create_def const_simps)
  show "pg_abs (fst (sw_pg_join m p B)) n = pg_spec (PG_join m p) (pg_abs B) n"
  proof (cases "pg_find m B")
    case None
    have "pg_find n (B[pg_hash m := pg_add p (pg_create m) # B ! pg_hash m]) = (if n = m then Some (pg_add p (pg_create m)) else pg_find n B)"
      using l c by (auto simp: pg_find_def nth_list_update)
    then show ?thesis using None by (auto simp: sw_pg_join_def pg_abs_def pg_add_def pg_create_def)
  next
    case (Some g)
    then show ?thesis by (auto simp: sw_pg_join_def pg_abs_def pg_find_update [OF l] pg_add_def)
  qed
qed

lemma pg_abs_leave:
  assumes "pg_inv B"
  shows "pg_abs (fst (sw_pg_leave m p B)) = pg_spec (PG_leave m p) (pg_abs B)"
proof
  fix n
  have l: "length B = SW_PG_BUCKETS" using assms(1) by (simp add: pg_inv_iff)
  show "pg_abs (fst (sw_pg_leave m p B)) n = pg_spec (PG_leave m p) (pg_abs B) n"
    by (cases "pg_find m B")
      (auto simp: sw_pg_leave_def pg_abs_def pg_find_update [OF l] pg_remove_def remove_first_eq_remove1 remove1_idem)
qed

lemma pg_abs_cleanup:
  assumes "pg_inv B"
  shows "pg_abs (sw_pg_cleanup_proc p B) = pg_spec (PG_exit p) (pg_abs B)"
proof
  fix n
  have l: "length B = SW_PG_BUCKETS" using assms(1) by (simp add: pg_inv_iff)
  show "pg_abs (sw_pg_cleanup_proc p B) n = pg_spec (PG_exit p) (pg_abs B) n"
    by (simp add: pg_abs_def pg_find_cleanup [OF l] pg_cleanup_group_eq split: option.split)
qed

lemma pg_run:
  assumes "\<forall>op\<in>set ops. pg_short op" "pg_inv B"
  shows "pg_inv (fold pg_exec ops B) \<and> pg_abs (fold pg_exec ops B) = fold pg_spec ops (pg_abs B)"
  using assms
proof (induction ops arbitrary: B)
  case (Cons op ops)
  have "pg_inv (pg_exec op B)" "pg_abs (pg_exec op B) = pg_spec op (pg_abs B)"
    using Cons.prems by (cases op; simp add: pg_inv_join pg_inv_leave pg_inv_cleanup pg_abs_join pg_abs_leave pg_abs_cleanup)+
  then show ?case using Cons.IH [of "pg_exec op B"] Cons.prems(1) by simp
qed simp

definition pg_refers :: "pg_table \<Rightarrow> proc_ref \<Rightarrow> bool" where
  "pg_refers B p \<longleftrightarrow> (\<exists>b\<in>set B. \<exists>g\<in>set b. p \<in> set (pg_members g))"

interpretation pg_exit: exit_cleanup pg_inv pg_refers sw_pg_cleanup_proc
  by (unfold_locales, erule pg_inv_cleanup)
    (auto simp: pg_refers_def sw_pg_cleanup_proc_def pg_cleanup_group_eq)

lemma pg_send_loop_eq:
  "pg_send_loop st tag msg ps = (map (\<lambda>p. (p, tag, msg)) (filter (gets_messages st) ps), length (filter (gets_messages st) ps))"
  by (induction ps) auto

section \<open>Properties\<close>

text \<open>
  C36. Groups hold exactly who joined: after any history of joins, leaves and exits (group names shorter
  than 64), the members of every group are those the specification gives, a dispatch sends the message
  once to each of them that is neither free nor exiting and returns how many it sent, and the count is
  the number of members.
\<close>

theorem pg_groups_exact:
  fixes ops :: "pg_op list"
  defines "B \<equiv> fold pg_exec ops pg_empty" and "G \<equiv> fold pg_spec ops (\<lambda>_. [])"
  assumes "\<forall>op\<in>set ops. pg_short op"
  shows "sw_pg_dispatch st name tag msg B =
      (map (\<lambda>p. (p, tag, msg)) (filter (gets_messages st) (G name)), length (filter (gets_messages st) (G name)))
    \<and> sw_pg_members name mx B = take mx (G name) \<and> sw_pg_count name B = of_nat (length (G name)) \<and> distinct (G name)"
proof -
  have "pg_abs pg_empty = (\<lambda>_. [])" by (rule ext) (simp add: pg_abs_def pg_find_def pg_empty_def)
  then have r: "pg_inv B" "pg_abs B = G"
    using pg_run [OF assms(3) pg_inv_empty] by (simp_all add: B_def G_def)
  then have "G name = (case pg_find name B of None \<Rightarrow> [] | Some g \<Rightarrow> pg_members g)" by (auto simp: pg_abs_def)
  then show ?thesis
    using pg_find_ok(1) [OF r(1), of name]
    by (auto simp: sw_pg_dispatch_def sw_pg_members_def sw_pg_count_def pg_send_loop_eq group_ok_def split: option.splits)
qed

theorem pg_groups_exact_witness:
  "fst (sw_pg_dispatch (\<lambda>p. if p = 2 then SW_PROC_EXITING else SW_PROC_WAITING) ''g'' 11 ''hi''
     (fold pg_exec [PG_join ''g'' 1, PG_join ''g'' 2, PG_join ''g'' 3, PG_join ''h'' 4, PG_exit 1] pg_empty)) = [(3, 11, ''hi'')]"
  using pg_groups_exact [of "[PG_join ''g'' 1, PG_join ''g'' 2, PG_join ''g'' 3, PG_join ''h'' 4, PG_exit 1]"
      "\<lambda>p. if p = 2 then SW_PROC_EXITING else SW_PROC_WAITING" "''g''" 11 "''hi''"]
  by (simp add: gets_messages_def const_simps)

text \<open>
  A group with a name of 64 or more characters loses its members: joining it succeeds, yet the
  group counts no members, a dispatch to it reaches nobody, and leaving it fails, because the stored
  name is cut to 63 characters and never equals the name asked for.
\<close>

theorem pg_long_name_lost:
  assumes "pg_inv B" "SW_REG_NAME_MAX \<le> length name"
  shows "snd (sw_pg_join name p B) = 0 \<and> sw_pg_count name (fst (sw_pg_join name p B)) = 0
    \<and> sw_pg_dispatch st name tag msg (fst (sw_pg_join name p B)) = ([], 0)
    \<and> snd (sw_pg_leave name p (fst (sw_pg_join name p B))) = -1"
proof -
  have "pg_inv (fst (sw_pg_join name p B))" by (rule pg_inv_join [OF assms(1)])
  then have "pg_find name (fst (sw_pg_join name p B)) = None"
  proof (rule contrapos_pp)
    assume "pg_find name (fst (sw_pg_join name p B)) \<noteq> None"
    then obtain g where g: "pg_find name (fst (sw_pg_join name p B)) = Some g" by blast
    show "\<not> pg_inv (fst (sw_pg_join name p B))"
    proof
      assume "pg_inv (fst (sw_pg_join name p B))"
      from pg_find_ok [OF this g] show False using assms(2) by (simp add: group_ok_def)
    qed
  qed
  then show ?thesis
    by (simp add: sw_pg_count_def sw_pg_dispatch_def sw_pg_leave_def sw_pg_join_def split: option.split)
qed

theorem pg_long_name_lost_witness:
  "sw_pg_count (replicate 64 CHR ''x'') (fst (sw_pg_join (replicate 64 CHR ''x'') 1 pg_empty)) = 0"
  using pg_long_name_lost [OF pg_inv_empty, of "replicate 64 CHR ''x''" 1 "\<lambda>_. SW_PROC_FREE" 0 "()"] by (simp add: const_simps)

end
