(* ===== verification/Hotload.thy ===== *)
theory Hotload
  imports Swarm_Prelude
begin

text \<open>
  Hot code reload of \<^verbatim>\<open>src/src/swarmrt_hotload.c\<close>: a table of at most 256 modules, each with its current
  and previous entry function, a version and the processes spawned under it, behind one lock. Functions
  are code addresses, 0 being null; the notifications of an upgrade are returned as the list of the
  messages handed to \<^verbatim>\<open>sw_send_tagged\<close>, in order.
\<close>

section \<open>State\<close>

definition SW_MODULE_NAME_MAX :: nat where [const_simps]: "SW_MODULE_NAME_MAX = 64"
definition SW_MODULE_MAX :: nat where [const_simps]: "SW_MODULE_MAX = 256"

type_synonym code_ptr = u64

record sw_module =
  mod_name :: string
  current_func :: code_ptr
  previous_func :: code_ptr
  mod_version :: u32

record sw_mod_entry =
  mod_info :: sw_module
  mod_procs :: "proc_ref list"
  proc_count :: u32
  mod_active :: bool

text \<open>
  The payload of a notification. It is filled by \<^verbatim>\<open>strncpy\<close> into memory that is not cleared, so its name
  is terminated only when it is shorter than the 63 characters copied.
\<close>

record sw_code_change =
  old_version :: u32
  new_version :: u32
  new_func :: code_ptr
  cc_name :: string
  cc_terminated :: bool

text \<open>The used prefix of the array \<^verbatim>\<open>g_modules\<close>.\<close>

type_synonym modules = "sw_mod_entry list"

section \<open>Operations\<close>

definition mod_match :: "string \<Rightarrow> sw_mod_entry \<Rightarrow> bool" where
  "mod_match name e \<longleftrightarrow> mod_active e \<and> mod_name (mod_info e) = name"

definition mod_find_locked :: "string \<Rightarrow> modules \<Rightarrow> sw_mod_entry option" where
  "mod_find_locked name ms = find (mod_match name) ms"

fun mod_update :: "string \<Rightarrow> (sw_mod_entry \<Rightarrow> sw_mod_entry) \<Rightarrow> modules \<Rightarrow> modules" where
  "mod_update name f [] = []"
| "mod_update name f (e # es) = (if mod_match name e then f e # es else e # mod_update name f es)"

definition new_entry :: "string \<Rightarrow> code_ptr \<Rightarrow> sw_mod_entry" where
  "new_entry name func =
     \<lparr>mod_info = \<lparr>mod_name = strncpy name (SW_MODULE_NAME_MAX - 1), current_func = func, previous_func = 0, mod_version = 1\<rparr>,
      mod_procs = [], proc_count = 0, mod_active = True\<rparr>"

definition sw_module_register :: "string \<Rightarrow> code_ptr \<Rightarrow> modules \<Rightarrow> modules \<times> sw_module option" where
  "sw_module_register name func ms =
     (if func = 0 then (ms, None)
      else case mod_find_locked name ms of
             Some e \<Rightarrow> (ms, Some (mod_info e))
           | None \<Rightarrow> if SW_MODULE_MAX \<le> length ms then (ms, None)
                     else (ms @ [new_entry name func], Some (mod_info (new_entry name func))))"

definition sw_module_find :: "string \<Rightarrow> modules \<Rightarrow> sw_module option" where
  "sw_module_find name ms = map_option mod_info (mod_find_locked name ms)"

definition sw_module_version :: "string \<Rightarrow> modules \<Rightarrow> u32" where
  "sw_module_version name ms = (case sw_module_find name ms of None \<Rightarrow> 0 | Some m \<Rightarrow> mod_version m)"

definition code_change :: "string \<Rightarrow> u32 \<Rightarrow> u32 \<Rightarrow> code_ptr \<Rightarrow> sw_code_change" where
  "code_change name old new func =
     \<lparr>old_version = old, new_version = new, new_func = func, cc_name = strncpy name (SW_MODULE_NAME_MAX - 1),
      cc_terminated = (length name < SW_MODULE_NAME_MAX - 1)\<rparr>"

fun notify_loop :: "(proc_ref \<Rightarrow> bool) \<Rightarrow> sw_code_change \<Rightarrow> proc_ref list \<Rightarrow> (proc_ref \<times> u64 \<times> sw_code_change) list" where
  "notify_loop tell msg [] = []"
| "notify_loop tell msg (p # ps) =
     (if tell p then (p, SW_TAG_CODE_CHANGE, msg) # notify_loop tell msg ps else notify_loop tell msg ps)"

definition upgrade_entry :: "code_ptr \<Rightarrow> sw_mod_entry \<Rightarrow> sw_mod_entry" where
  "upgrade_entry func e =
     (let m = mod_info e
      in e\<lparr>mod_info := m\<lparr>previous_func := current_func m, current_func := func, mod_version := mod_version m + 1\<rparr>\<rparr>)"

definition sw_module_upgrade ::
    "(proc_ref \<Rightarrow> sw_proc_state) \<Rightarrow> string \<Rightarrow> code_ptr \<Rightarrow> modules \<Rightarrow> modules \<times> (proc_ref \<times> u64 \<times> sw_code_change) list \<times> int" where
  "sw_module_upgrade st name func ms =
     (if func = 0 then (ms, [], -1)
      else case mod_find_locked name ms of
             None \<Rightarrow> (ms, [], -1)
           | Some e \<Rightarrow>
               (mod_update name (upgrade_entry func) ms,
                notify_loop (\<lambda>p. st p \<noteq> SW_PROC_FREE \<and> st p \<noteq> SW_PROC_EXITING)
                  (code_change name (mod_version (mod_info e)) (mod_version (mod_info e) + 1) func) (mod_procs e), 0))"

definition rollback_entry :: "sw_mod_entry \<Rightarrow> sw_mod_entry" where
  "rollback_entry e =
     (let m = mod_info e
      in e\<lparr>mod_info := m\<lparr>current_func := previous_func m, previous_func := current_func m, mod_version := mod_version m + 1\<rparr>\<rparr>)"

definition sw_module_rollback ::
    "(proc_ref \<Rightarrow> sw_proc_state) \<Rightarrow> string \<Rightarrow> modules \<Rightarrow> modules \<times> (proc_ref \<times> u64 \<times> sw_code_change) list \<times> int" where
  "sw_module_rollback st name ms =
     (case mod_find_locked name ms of
        None \<Rightarrow> (ms, [], -1)
      | Some e \<Rightarrow>
          if previous_func (mod_info e) = 0 then (ms, [], -1)
          else let m = mod_info (rollback_entry e)
               in (mod_update name rollback_entry ms,
                   notify_loop (\<lambda>p. st p \<noteq> SW_PROC_FREE)
                     (code_change name (mod_version m - 1) (mod_version m) (current_func m)) (mod_procs e), 0))"

text \<open>
  A spawn under a module: the function to start is read, the process is spawned by \<^verbatim>\<open>sw_spawn_link\<close> (its
  result, null on failure, is the argument), and the process is entered in the module's list.
\<close>

definition track_entry :: "proc_ref \<Rightarrow> sw_mod_entry \<Rightarrow> sw_mod_entry" where
  "track_entry p e = e\<lparr>mod_procs := p # mod_procs e, proc_count := proc_count e + 1\<rparr>"

definition sw_module_spawn :: "(code_ptr \<Rightarrow> proc_ref option) \<Rightarrow> string \<Rightarrow> modules \<Rightarrow> modules \<times> proc_ref option" where
  "sw_module_spawn spawn name ms =
     (case mod_find_locked name ms of
        None \<Rightarrow> (ms, None)
      | Some e \<Rightarrow>
          (case spawn (current_func (mod_info e)) of
             None \<Rightarrow> (ms, None)
           | Some p \<Rightarrow> (mod_update name (track_entry p) ms, Some p)))"

text \<open>\<^verbatim>\<open>mod_purge\<close>: the loop over one module's processes on exit.\<close>

fun mod_purge :: "proc_ref \<Rightarrow> proc_ref list \<Rightarrow> u32 \<Rightarrow> proc_ref list \<times> u32" where
  "mod_purge p [] n = ([], n)"
| "mod_purge p (q # qs) n =
     (if q = p then mod_purge p qs (n - 1) else case mod_purge p qs n of (qs', n') \<Rightarrow> (q # qs', n'))"

definition mod_cleanup_entry :: "proc_ref \<Rightarrow> sw_mod_entry \<Rightarrow> sw_mod_entry" where
  "mod_cleanup_entry p e =
     (if \<not> mod_active e then e
      else case mod_purge p (mod_procs e) (proc_count e) of (ps, n) \<Rightarrow> e\<lparr>mod_procs := ps, proc_count := n\<rparr>)"

definition sw_module_cleanup_proc :: "proc_ref \<Rightarrow> modules \<Rightarrow> modules" where
  "sw_module_cleanup_proc p ms = map (mod_cleanup_entry p) ms"

section \<open>Lemmas\<close>

text \<open>Every entry is active, counts its processes and has a name that fits; names of modules differ.\<close>

definition entry_ok :: "sw_mod_entry \<Rightarrow> bool" where
  "entry_ok e \<longleftrightarrow> mod_active e \<and> proc_count e = of_nat (length (mod_procs e))
     \<and> length (mod_name (mod_info e)) < SW_MODULE_NAME_MAX \<and> current_func (mod_info e) \<noteq> 0"

definition mod_inv :: "modules \<Rightarrow> bool" where
  "mod_inv ms \<longleftrightarrow> length ms \<le> SW_MODULE_MAX \<and> (\<forall>e\<in>set ms. entry_ok e)"

lemma mod_purge_filter: "mod_purge p ps n = (filter (\<lambda>x. x \<noteq> p) ps, n - of_nat (length (filter (\<lambda>x. x = p) ps)))"
  by (induction ps arbitrary: n) (auto simp: algebra_simps)

lemma notify_loop_eq: "notify_loop tell msg ps = map (\<lambda>p. (p, SW_TAG_CODE_CHANGE, msg)) (filter tell ps)"
  by (induction ps) auto

lemma mod_match_unique: "mod_match n e \<Longrightarrow> mod_match m e \<Longrightarrow> n = m"
  by (simp add: mod_match_def)

lemma mod_find_update:
  assumes "\<And>e. mod_match n (f e) = mod_match n e" "\<And>e. mod_match m (f e) = mod_match m e"
  shows "mod_find_locked n (mod_update m f ms) = (if n = m then map_option f (mod_find_locked n ms) else mod_find_locked n ms)"
proof (induction ms)
  case (Cons e ms)
  then show ?case using assms mod_match_unique [of n e m] by (cases "n = m") (auto simp: mod_find_locked_def)
qed (simp add: mod_find_locked_def)

lemma mod_find_SomeD: "mod_find_locked n ms = Some e \<Longrightarrow> e \<in> set ms \<and> mod_match n e"
  by (auto simp: mod_find_locked_def find_Some_iff)

lemma match_kept [simp]:
  "mod_match n (upgrade_entry f e) = mod_match n e" "mod_match n (rollback_entry e) = mod_match n e"
  "mod_match n (track_entry p e) = mod_match n e" "mod_match n (mod_cleanup_entry p e) = mod_match n e"
  by (simp_all add: mod_match_def upgrade_entry_def rollback_entry_def track_entry_def mod_cleanup_entry_def Let_def mod_purge_filter)

lemma mod_inv_update:
  assumes "mod_inv ms" "\<forall>e. mod_find_locked n ms = Some e \<longrightarrow> entry_ok e \<longrightarrow> entry_ok (f e)"
  shows "mod_inv (mod_update n f ms)"
proof -
  have "(\<forall>e\<in>set ms. entry_ok e) \<Longrightarrow> \<forall>e. mod_find_locked n ms = Some e \<longrightarrow> entry_ok e \<longrightarrow> entry_ok (f e)
      \<Longrightarrow> \<forall>e\<in>set (mod_update n f ms). entry_ok e"
  proof (induction ms)
    case (Cons e ms)
    show ?case
    proof (cases "mod_match n e")
      case True
      then show ?thesis using Cons.prems by (auto simp: mod_find_locked_def)
    next
      case False
      then show ?thesis using Cons by (auto simp: mod_find_locked_def)
    qed
  qed simp
  moreover have "length (mod_update n f ms) = length ms" by (induction ms) simp_all
  ultimately show ?thesis using assms by (simp add: mod_inv_def)
qed

lemma mod_inv_cleanup: "mod_inv ms \<Longrightarrow> mod_inv (sw_module_cleanup_proc p ms)"
proof -
  assume i: "mod_inv ms"
  have "entry_ok (mod_cleanup_entry p e)" if "entry_ok e" for e
  proof -
    have "(of_nat (length (mod_procs e)) :: u32) =
        of_nat (length (filter (\<lambda>x. x = p) (mod_procs e))) + of_nat (length (filter (\<lambda>x. x \<noteq> p) (mod_procs e)))"
      unfolding of_nat_add [symmetric] by (simp only: sum_length_filter_compl)
    then show ?thesis using that by (simp add: entry_ok_def mod_cleanup_entry_def mod_purge_filter)
  qed
  then show ?thesis using i by (auto simp: mod_inv_def sw_module_cleanup_proc_def)
qed

definition mod_refers :: "modules \<Rightarrow> proc_ref \<Rightarrow> bool" where
  "mod_refers ms p \<longleftrightarrow> (\<exists>e\<in>set ms. p \<in> set (mod_procs e))"

interpretation module_exit: exit_cleanup mod_inv mod_refers sw_module_cleanup_proc
  by (unfold_locales, erule mod_inv_cleanup)
    (auto simp: mod_refers_def sw_module_cleanup_proc_def mod_cleanup_entry_def mod_purge_filter mod_inv_def entry_ok_def)

lemma mod_inv_register: "mod_inv ms \<Longrightarrow> mod_inv (fst (sw_module_register name func ms))"
  by (auto simp: sw_module_register_def mod_inv_def entry_ok_def new_entry_def strncpy_def const_simps split: option.split)

lemma mod_inv_upgrade: "mod_inv ms \<Longrightarrow> mod_inv (fst (sw_module_upgrade st name func ms))"
  by (auto simp: sw_module_upgrade_def entry_ok_def upgrade_entry_def Let_def intro!: mod_inv_update split: option.split)

lemma mod_inv_spawn: "mod_inv ms \<Longrightarrow> mod_inv (fst (sw_module_spawn spawn name ms))"
  by (auto simp: sw_module_spawn_def entry_ok_def track_entry_def intro!: mod_inv_update split: option.split)

lemma mod_inv_rollback: "mod_inv ms \<Longrightarrow> mod_inv (fst (sw_module_rollback st name ms))"
  by (auto simp: sw_module_rollback_def entry_ok_def rollback_entry_def Let_def intro!: mod_inv_update split: option.split)

section \<open>Properties\<close>

text \<open>
  An upgrade tells everybody and can be undone: upgrading a registered module makes the new
  function current at the next version, sends one notification with both versions to each tracked
  process that is neither free nor exiting, and leaves other modules alone; a rollback right after it
  makes the old function current again, at the version after that.
\<close>

theorem module_upgrade_rollback:
  assumes "mod_find_locked name ms = Some e" "func \<noteq> 0" "current_func (mod_info e) \<noteq> 0"
  shows "\<exists>ms1 ms2 msgs.
      sw_module_upgrade st name func ms = (ms1, map (\<lambda>p. (p, SW_TAG_CODE_CHANGE,
          code_change name (mod_version (mod_info e)) (mod_version (mod_info e) + 1) func))
        (filter (\<lambda>p. st p \<noteq> SW_PROC_FREE \<and> st p \<noteq> SW_PROC_EXITING) (mod_procs e)), 0)
    \<and> map_option current_func (sw_module_find name ms1) = Some func
    \<and> sw_module_version name ms1 = sw_module_version name ms + 1
    \<and> sw_module_rollback st name ms1 = (ms2, msgs, 0)
    \<and> map_option current_func (sw_module_find name ms2) = map_option current_func (sw_module_find name ms)
    \<and> sw_module_version name ms2 = sw_module_version name ms + 2
    \<and> (\<forall>n. n \<noteq> name \<longrightarrow> sw_module_find n ms2 = sw_module_find n ms)"
proof -
  let ?ms1 = "mod_update name (upgrade_entry func) ms"
  have f1: "mod_find_locked n ?ms1 = (if n = name then map_option (upgrade_entry func) (mod_find_locked n ms) else mod_find_locked n ms)" for n
    by (rule mod_find_update) simp_all
  let ?ms2 = "mod_update name rollback_entry ?ms1"
  have f2: "mod_find_locked n ?ms2 = (if n = name then map_option rollback_entry (mod_find_locked n ?ms1) else mod_find_locked n ?ms1)" for n
    by (rule mod_find_update) simp_all
  have "sw_module_rollback st name ?ms1 = (?ms2, fst (snd (sw_module_rollback st name ?ms1)), 0)"
    using assms f1 by (simp add: sw_module_rollback_def upgrade_entry_def Let_def)
  moreover have "sw_module_upgrade st name func ms = (?ms1, map (\<lambda>p. (p, SW_TAG_CODE_CHANGE,
      code_change name (mod_version (mod_info e)) (mod_version (mod_info e) + 1) func))
        (filter (\<lambda>p. st p \<noteq> SW_PROC_FREE \<and> st p \<noteq> SW_PROC_EXITING) (mod_procs e)), 0)"
    using assms by (simp add: sw_module_upgrade_def notify_loop_eq)
  ultimately show ?thesis
    using assms f1 f2
    by (intro exI [of _ ?ms1] exI [of _ ?ms2] exI [of _ "fst (snd (sw_module_rollback st name ?ms1))"])
      (simp add: sw_module_find_def sw_module_version_def upgrade_entry_def rollback_entry_def Let_def)
qed

definition demo_modules :: modules where
  "demo_modules = fst (sw_module_spawn (\<lambda>f. Some 5) ''m'' (fst (sw_module_register ''m'' 100 [])))"

theorem module_upgrade_rollback_witness:
  "fst (snd (sw_module_upgrade (\<lambda>_. SW_PROC_WAITING) ''m'' 200 demo_modules)) = [(5, SW_TAG_CODE_CHANGE, code_change ''m'' 1 2 200)]"
proof -
  have "mod_find_locked ''m'' demo_modules =
      Some (track_entry 5 (new_entry ''m'' 100))"
    by (simp add: demo_modules_def sw_module_spawn_def sw_module_register_def mod_find_locked_def mod_match_def new_entry_def
        track_entry_def const_simps)
  from module_upgrade_rollback [OF this, of 200 "\<lambda>_. SW_PROC_WAITING"] show ?thesis
    by (auto simp: track_entry_def new_entry_def)
qed

end
