(* ===== verification/Gc.thy ===== *)
theory Gc
  imports Swarm_Prelude
begin

text \<open>
  Process heaps and their collector, \<^verbatim>\<open>src/src/swarmrt_gc.c\<close>. Memory is a map from word addresses to
  64-bit words; the heap's pointers are word addresses, of which there are \<open>2\<^sup>6\<^sup>1\<close>, and a message payload is a byte address, 0 being
  null. The sum of a pointer and a number of words wraps around as it does in 64-bit arithmetic. A write outside the mark bitmap is a fault, and the calls of \<^verbatim>\<open>free\<close> on heap blocks are recorded.
\<close>

section \<open>State\<close>

record sw_heap =
  h_start :: nat
  h_top :: nat
  h_end :: nat
  h_size :: nat
  old_heap :: nat
  old_top :: nat
  old_size :: nat
  gen_gcs :: u32
  arena_backed :: bool

record sw_gc_stats =
  minor_gcs :: u64
  major_gcs :: u64
  words_reclaimed :: u64
  total_gc_time_us :: u64

text \<open>\<open>gc_roots\<close> are the payloads of the private mailbox queue.\<close>

record gc_state =
  gc_heap :: sw_heap
  gc_mem :: "nat \<Rightarrow> u64"
  gc_roots :: "nat list"
  gc_frees :: "nat list"
  gc_stats :: sw_gc_stats

datatype gc_fault = Bitmap_overrun nat

section \<open>Heap queries\<close>

definition sw_heap_contains :: "sw_heap \<Rightarrow> nat \<Rightarrow> bool" where
  "sw_heap_contains h ptr \<longleftrightarrow> ptr \<noteq> 0 \<and> 8 * h_start h \<le> ptr \<and> ptr < 8 * h_end h"

definition sw_heap_used :: "sw_heap \<Rightarrow> nat" where
  "sw_heap_used h = h_top h - h_start h"

definition sw_heap_size :: "sw_heap \<Rightarrow> nat" where
  "sw_heap_size h = h_size h"

section \<open>Mark bitmap\<close>

type_synonym gc_bitmap = "u64 list"

definition bitmap_alloc :: "nat \<Rightarrow> gc_bitmap" where
  "bitmap_alloc heap_words = replicate ((heap_words + 63) div 64) 0"

definition bitmap_set :: "nat \<Rightarrow> gc_bitmap \<Rightarrow> gc_fault + gc_bitmap" where
  "bitmap_set idx bm =
     (if idx div 64 < length bm
      then Inr (bm[idx div 64 := bm ! (idx div 64) OR push_bit (idx mod 64) 1])
      else Inl (Bitmap_overrun idx))"

definition bitmap_get :: "gc_bitmap \<Rightarrow> nat \<Rightarrow> bool" where
  "bitmap_get bm idx \<longleftrightarrow> drop_bit (idx mod 64) (bm ! (idx div 64)) AND 1 \<noteq> 0"

definition bind_fault :: "'e + 'a \<Rightarrow> ('a \<Rightarrow> 'e + 'b) \<Rightarrow> 'e + 'b" where
  "bind_fault r f = (case r of Inl e \<Rightarrow> Inl e | Inr a \<Rightarrow> f a)"

text \<open>The conservative scan of a range: every word that looks like a heap pointer marks itself and its neighbours.\<close>

fun gc_mark_range :: "gc_bitmap \<Rightarrow> (nat \<Rightarrow> u64) \<Rightarrow> nat \<Rightarrow> nat \<Rightarrow> nat \<Rightarrow> nat \<Rightarrow> gc_fault + gc_bitmap" where
  "gc_mark_range bm mem start 0 heap_start heap_end = Inr bm"
| "gc_mark_range bm mem start (Suc n) heap_start heap_end =
     (let val = unat (mem start)
      in if 8 * heap_start \<le> val \<and> val < 8 * heap_end then
           let idx = (val - 8 * heap_start) div 8
           in bind_fault (bitmap_set idx bm) (\<lambda>bm.
              bind_fault (if 0 < idx then bitmap_set (idx - 1) bm else Inr bm) (\<lambda>bm.
              bind_fault (if idx + 1 < heap_end - heap_start then bitmap_set (idx + 1) bm else Inr bm) (\<lambda>bm.
                gc_mark_range bm mem (Suc start) n heap_start heap_end)))
         else gc_mark_range bm mem (Suc start) n heap_start heap_end)"

text \<open>The loop over the mailbox that both collections start with.\<close>

definition root_idx :: "sw_heap \<Rightarrow> nat \<Rightarrow> nat" where
  "root_idx h p = (p - 8 * h_start h) div 8"

fun mark_roots :: "sw_heap \<Rightarrow> nat list \<Rightarrow> gc_bitmap \<Rightarrow> gc_fault + gc_bitmap" where
  "mark_roots h [] bm = Inr bm"
| "mark_roots h (p # ps) bm =
     (if p \<noteq> 0 \<and> 8 * h_start h \<le> p \<and> p < 8 * h_end h
      then bind_fault (bitmap_set (root_idx h p) bm) (mark_roots h ps)
      else mark_roots h ps bm)"

definition count_live :: "gc_bitmap \<Rightarrow> nat \<Rightarrow> nat" where
  "count_live bm heap_words = length (filter (bitmap_get bm) [0..<heap_words])"

section \<open>Collections\<close>

text \<open>The copy loop: from \<open>src\<close> on, \<open>n\<close> words; \<open>dst\<close> words have been kept. \<open>from\<close> and \<open>to\<close> are the two blocks.\<close>

fun copy_live :: "gc_bitmap \<Rightarrow> nat \<Rightarrow> nat \<Rightarrow> nat \<Rightarrow> nat \<Rightarrow> nat \<Rightarrow> (nat \<Rightarrow> u64) \<Rightarrow> (nat \<Rightarrow> u64) \<times> nat" where
  "copy_live bm a b src 0 dst mem = (mem, dst)"
| "copy_live bm a b src (Suc n) dst mem =
     (if bitmap_get bm src then copy_live bm a b (Suc src) n (Suc dst) (mem(b + dst := mem (a + src)))
      else copy_live bm a b (Suc src) n dst mem)"

text \<open>The number of words as the \<^verbatim>\<open>int\<close> that a collection returns.\<close>

definition to_int :: "nat \<Rightarrow> int" where
  "to_int n = sint (of_nat n :: u32)"

text \<open>\<open>t\<close> is the time the collection took.\<close>

definition account_minor :: "nat \<Rightarrow> u64 \<Rightarrow> sw_gc_stats \<Rightarrow> sw_gc_stats" where
  "account_minor reclaimed t st =
     st\<lparr>minor_gcs := minor_gcs st + 1, words_reclaimed := words_reclaimed st + of_nat reclaimed,
        total_gc_time_us := total_gc_time_us st + t\<rparr>"

definition account_major :: "nat \<Rightarrow> u64 \<Rightarrow> sw_gc_stats \<Rightarrow> sw_gc_stats" where
  "account_major reclaimed t st =
     st\<lparr>major_gcs := major_gcs st + 1, words_reclaimed := words_reclaimed st + of_nat reclaimed,
        total_gc_time_us := total_gc_time_us st + t\<rparr>"

definition sw_gc_minor :: "u64 \<Rightarrow> gc_state \<Rightarrow> gc_fault + (gc_state \<times> int)" where
  "sw_gc_minor t s =
     (let h = gc_heap s; heap_words = h_top h - h_start h
      in if heap_words = 0 then Inr (s, 0)
         else bind_fault (mark_roots h (gc_roots s) (bitmap_alloc heap_words)) (\<lambda>bm.
           let reclaimed = heap_words - count_live bm heap_words;
               s = (if reclaimed > heap_words div 4
                    then let (mem, dst) = copy_live bm (h_start h) (h_start h) 0 heap_words 0 (gc_mem s)
                         in s\<lparr>gc_mem := mem, gc_heap := h\<lparr>h_top := h_start h + dst\<rparr>\<rparr>
                    else s)
           in Inr (s\<lparr>gc_stats := account_minor reclaimed t (gc_stats s)\<rparr>, to_int reclaimed)))"

text \<open>\<open>new\<close> is the block that \<^verbatim>\<open>calloc\<close> returns, \<^term>\<open>None\<close> when it fails.\<close>

definition zero_block :: "nat \<Rightarrow> nat \<Rightarrow> (nat \<Rightarrow> u64) \<Rightarrow> nat \<Rightarrow> u64" where
  "zero_block a n mem x = (if a \<le> x \<and> x < a + n then 0 else mem x)"

definition sw_gc_major :: "nat option \<Rightarrow> u64 \<Rightarrow> gc_state \<Rightarrow> gc_fault + (gc_state \<times> int)" where
  "sw_gc_major new t s =
     (let h = gc_heap s; heap_words = h_top h - h_start h
      in if heap_words = 0 then Inr (s, 0)
         else bind_fault (mark_roots h (gc_roots s) (bitmap_alloc heap_words)) (\<lambda>bm.
           case new of
             None \<Rightarrow> Inr (s, -1)
           | Some b \<Rightarrow>
               let (mem, dst) = copy_live bm (h_start h) b 0 heap_words 0 (zero_block b (h_size h) (gc_mem s));
                   frees = (if old_heap h \<noteq> 0 \<and> \<not> arena_backed h then gc_frees s @ [old_heap h] else gc_frees s);
                   h' = h\<lparr>old_heap := h_start h, old_top := h_top h, old_size := h_size h,
                          h_start := b, h_top := b + dst, h_end := b + h_size h, arena_backed := False,
                          gen_gcs := gen_gcs h + 1\<rparr>;
                   reclaimed = heap_words - count_live bm heap_words
               in Inr (s\<lparr>gc_heap := h', gc_mem := mem, gc_frees := frees, gc_stats := account_major reclaimed t (gc_stats s)\<rparr>,
                       to_int reclaimed)))"

section \<open>Allocation\<close>

definition heap_full :: "gc_state \<Rightarrow> nat \<Rightarrow> bool" where
  "heap_full s n \<longleftrightarrow> h_end (gc_heap s) < (h_top (gc_heap s) + n) mod 2 ^ 61"

text \<open>The word address of the new block, or \<^term>\<open>None\<close> for null.\<close>

definition sw_heap_alloc :: "nat option \<Rightarrow> u64 \<Rightarrow> u64 \<Rightarrow> nat \<Rightarrow> gc_state \<Rightarrow> gc_fault + (gc_state \<times> nat option)" where
  "sw_heap_alloc new t1 t2 n s =
     bind_fault
       (if heap_full s n then
          bind_fault (sw_gc_minor t1 s) (\<lambda>(s, _).
            if heap_full s n then
              bind_fault (sw_gc_major new t2 s) (\<lambda>(s, _). Inr (s, heap_full s n))
            else Inr (s, False))
        else Inr (s, False))
       (\<lambda>(s, full).
          if full then Inr (s, None)
          else let p = h_top (gc_heap s) in Inr (s\<lparr>gc_heap := (gc_heap s)\<lparr>h_top := (p + n) mod 2 ^ 61\<rparr>\<rparr>, Some p))"

section \<open>Lemmas\<close>

lemma bind_fault_simps [simp]: "bind_fault (Inr a) f = f a" "bind_fault (Inl e) f = Inl e"
  by (simp_all add: bind_fault_def)

lemma bitmap_get_bit: "bitmap_get bm idx \<longleftrightarrow> bit (bm ! (idx div 64)) (idx mod 64)"
  by (simp add: bitmap_get_def and_one_eq bit_iff_odd_drop_bit mod_2_eq_odd)

lemma bitmap_set_ok:
  assumes "idx div 64 < length bm"
  shows "\<exists>bm'. bitmap_set idx bm = Inr bm' \<and> length bm' = length bm
    \<and> (\<forall>i. bitmap_get bm' i \<longleftrightarrow> i = idx \<or> bitmap_get bm i)"
proof -
  have "bit (bm ! (idx div 64) OR push_bit (idx mod 64) 1) (i mod 64) \<longleftrightarrow> i = idx \<or> bit (bm ! (i div 64)) (i mod 64)"
    if "i div 64 = idx div 64" for i
  proof -
    have "i = idx \<longleftrightarrow> i mod 64 = idx mod 64" using that by (metis div_mult_mod_eq)
    then show ?thesis using that by (auto simp: bit_or_iff bit_push_bit_iff bit_1_iff bit_exp_iff)
  qed
  then have "bitmap_get (bm[idx div 64 := bm ! (idx div 64) OR push_bit (idx mod 64) 1]) i \<longleftrightarrow> i = idx \<or> bitmap_get bm i" for i
    using assms by (cases "i div 64 = idx div 64") (auto simp: bitmap_get_bit)
  then show ?thesis using assms by (simp add: bitmap_set_def)
qed

lemma bitmap_alloc_get: "i < n \<Longrightarrow> \<not> bitmap_get (bitmap_alloc n) i"
  by (simp add: bitmap_alloc_def bitmap_get_bit)

lemma bitmap_alloc_room: "i < n \<Longrightarrow> i div 64 < length (bitmap_alloc n)"
  by (simp add: bitmap_alloc_def)

text \<open>The roots that point into the heap.\<close>

definition heap_roots :: "gc_state \<Rightarrow> nat list" where
  "heap_roots s = filter (sw_heap_contains (gc_heap s)) (gc_roots s)"

text \<open>A heap in shape, and roots that point below its top.\<close>

definition heap_inv :: "sw_heap \<Rightarrow> bool" where
  "heap_inv h \<longleftrightarrow> h_start h \<le> h_top h \<and> h_top h \<le> h_end h \<and> h_end h = h_start h + h_size h"

definition roots_below_top :: "gc_state \<Rightarrow> bool" where
  "roots_below_top s \<longleftrightarrow> (\<forall>p\<in>set (heap_roots s). root_idx (gc_heap s) p < sw_heap_used (gc_heap s))"

definition live_idx :: "gc_state \<Rightarrow> nat list" where
  "live_idx s = filter (\<lambda>i. i \<in> root_idx (gc_heap s) ` set (heap_roots s)) [0..<sw_heap_used (gc_heap s)]"

lemma mark_roots_ok:
  assumes "\<forall>p\<in>set ps. sw_heap_contains h p \<longrightarrow> root_idx h p div 64 < length bm"
  shows "\<exists>bm'. mark_roots h ps bm = Inr bm' \<and> length bm' = length bm
    \<and> (\<forall>i. bitmap_get bm' i \<longleftrightarrow> bitmap_get bm i \<or> i \<in> root_idx h ` {p\<in>set ps. sw_heap_contains h p})"
  using assms
proof (induction ps arbitrary: bm)
  case (Cons p ps)
  show ?case
  proof (cases "sw_heap_contains h p")
    case True
    then have "root_idx h p div 64 < length bm" using Cons.prems by simp
    then obtain bm' where b: "bitmap_set (root_idx h p) bm = Inr bm'" "length bm' = length bm"
        "\<forall>i. bitmap_get bm' i \<longleftrightarrow> i = root_idx h p \<or> bitmap_get bm i"
      using bitmap_set_ok by blast
    then obtain bm'' where c: "mark_roots h ps bm' = Inr bm''" "length bm'' = length bm'"
        "\<forall>i. bitmap_get bm'' i \<longleftrightarrow> bitmap_get bm' i \<or> i \<in> root_idx h ` {p\<in>set ps. sw_heap_contains h p}"
      using Cons.IH [of bm'] Cons.prems by auto
    have "mark_roots h (p # ps) bm = Inr bm''" using True b c by (simp add: sw_heap_contains_def)
    moreover have "bitmap_get bm'' i \<longleftrightarrow> bitmap_get bm i \<or> i \<in> root_idx h ` {q\<in>set (p # ps). sw_heap_contains h q}" for i
      using True b(3) c(3) by auto
    ultimately show ?thesis using b(2) c(2) by auto
  next
    case False
    then have "mark_roots h (p # ps) bm = mark_roots h ps bm" by (auto simp: sw_heap_contains_def)
    moreover have "{q \<in> set (p # ps). sw_heap_contains h q} = {q \<in> set ps. sw_heap_contains h q}" using False by auto
    ultimately show ?thesis using Cons.IH [of bm] Cons.prems by (simp only:) simp
  qed
qed simp

lemma mark_live:
  assumes "roots_below_top s"
  shows "\<exists>bm. mark_roots (gc_heap s) (gc_roots s) (bitmap_alloc (sw_heap_used (gc_heap s))) = Inr bm
    \<and> filter (bitmap_get bm) [0..<sw_heap_used (gc_heap s)] = live_idx s"
proof -
  let ?n = "sw_heap_used (gc_heap s)"
  have "\<forall>p\<in>set (gc_roots s). sw_heap_contains (gc_heap s) p \<longrightarrow> root_idx (gc_heap s) p div 64 < length (bitmap_alloc ?n)"
    using assms by (auto simp: roots_below_top_def heap_roots_def intro: bitmap_alloc_room)
  from mark_roots_ok [OF this] obtain bm where
    bm: "mark_roots (gc_heap s) (gc_roots s) (bitmap_alloc ?n) = Inr bm"
      "\<forall>i. bitmap_get bm i \<longleftrightarrow> bitmap_get (bitmap_alloc ?n) i \<or> i \<in> root_idx (gc_heap s) ` {p\<in>set (gc_roots s). sw_heap_contains (gc_heap s) p}"
    by blast
  then have "filter (bitmap_get bm) [0..<?n] = live_idx s"
    unfolding live_idx_def heap_roots_def by (intro filter_cong) (auto simp: bitmap_alloc_get)
  then show ?thesis using bm(1) by blast
qed

lemma copy_live_eq:
  assumes "b + dst \<le> a + src \<or> b + dst + n \<le> a + src \<or> a + src + n \<le> b + dst"
    and "L = filter (bitmap_get bm) [src..<src + n]"
  shows "copy_live bm a b src n dst mem =
    (\<lambda>x. if b + dst \<le> x \<and> x < b + dst + length L then mem (a + L ! (x - (b + dst))) else mem x, dst + length L)"
  using assms
proof (induction n arbitrary: src dst mem L)
  case (Suc n)
  define K where "K = filter (bitmap_get bm) [Suc src..<Suc src + n]"
  have K: "set K \<subseteq> {Suc src..<src + Suc n}" by (auto simp: K_def)
  have up: "filter (bitmap_get bm) [src..<src + Suc n] = (if bitmap_get bm src then src # K else K)"
    unfolding K_def using upt_conv_Cons [of src "src + Suc n"] by (simp del: upt_Suc)
  show ?case
  proof (cases "bitmap_get bm src")
    case True
    let ?m = "mem(b + dst := mem (a + src))"
    have "copy_live bm a b (Suc src) n (Suc dst) ?m =
      (\<lambda>x. if b + Suc dst \<le> x \<and> x < b + Suc dst + length K then ?m (a + K ! (x - (b + Suc dst))) else ?m x, Suc dst + length K)"
      by (rule Suc.IH) (use Suc.prems(1) K_def in auto)
    moreover have "?m (a + K ! (x - (b + Suc dst))) = mem (a + K ! (x - (b + Suc dst)))"
      if x: "b + Suc dst \<le> x \<and> x < b + Suc dst + length K" for x
    proof -
      have "x - (b + Suc dst) < length K" using x by auto
      then have "K ! (x - (b + Suc dst)) \<in> {Suc src..<src + Suc n}" using nth_mem K by blast
      then have "a + K ! (x - (b + Suc dst)) \<noteq> b + dst" using Suc.prems(1) by auto
      then show ?thesis by simp
    qed
    ultimately have c: "copy_live bm a b (Suc src) n (Suc dst) ?m =
      (\<lambda>x. if b + Suc dst \<le> x \<and> x < b + Suc dst + length K then mem (a + K ! (x - (b + Suc dst))) else ?m x, Suc dst + length K)"
      by (simp only: cong: if_cong)
    have L: "L = src # K" using True up Suc.prems(2) by simp
    have n: "(src # K) ! (x - (b + dst)) = (if x = b + dst then src else K ! (x - (b + Suc dst)))" if "b + dst \<le> x" for x
      using that by (cases "x = b + dst") (auto simp: nth_Cons' diff_diff_left)
    show ?thesis unfolding L using True c by (auto simp: fun_eq_iff n)
  next
    case False
    have "copy_live bm a b (Suc src) n dst mem =
      (\<lambda>x. if b + dst \<le> x \<and> x < b + dst + length K then mem (a + K ! (x - (b + dst))) else mem x, dst + length K)"
      by (rule Suc.IH) (use Suc.prems(1) K_def in auto)
    then have c: "copy_live bm a b src (Suc n) dst mem =
      (\<lambda>x. if b + dst \<le> x \<and> x < b + dst + length K then mem (a + K ! (x - (b + dst))) else mem x, dst + length K)"
      using False by simp
    have "L = K" using False up Suc.prems(2) by simp
    then show ?thesis using c by (simp only:)
  qed
qed (auto simp: fun_eq_iff)

lemma live_idx_length: "length (live_idx s) \<le> sw_heap_used (gc_heap s)"
  unfolding live_idx_def by (rule order_trans [OF length_filter_le]) simp

lemma minor_result:
  assumes "roots_below_top s" "0 < sw_heap_used (gc_heap s)"
    and "h = gc_heap s" "reclaimed = sw_heap_used (gc_heap s) - length (live_idx s)"
  shows "sw_gc_minor t s = Inr (
    (if sw_heap_used h div 4 < reclaimed
     then s\<lparr>gc_mem := (\<lambda>x. if h_start h \<le> x \<and> x < h_start h + length (live_idx s)
                then gc_mem s (h_start h + live_idx s ! (x - h_start h)) else gc_mem s x),
            gc_heap := h\<lparr>h_top := h_start h + length (live_idx s)\<rparr>, gc_stats := account_minor reclaimed t (gc_stats s)\<rparr>
     else s\<lparr>gc_stats := account_minor reclaimed t (gc_stats s)\<rparr>), to_int reclaimed)"
proof -
  obtain bm where bm: "mark_roots h (gc_roots s) (bitmap_alloc (sw_heap_used h)) = Inr bm"
      "filter (bitmap_get bm) [0..<sw_heap_used h] = live_idx s"
    using mark_live [OF assms(1)] unfolding assms(3) by blast
  have c: "copy_live bm (h_start h) (h_start h) 0 (sw_heap_used h) 0 (gc_mem s) =
      (\<lambda>x. if h_start h \<le> x \<and> x < h_start h + length (live_idx s)
         then gc_mem s (h_start h + live_idx s ! (x - h_start h)) else gc_mem s x, length (live_idx s))"
    using copy_live_eq [of "h_start h" 0 "h_start h" 0 "sw_heap_used h" "live_idx s" bm "gc_mem s"] bm(2)
    unfolding add_0_right add_0 by simp
  have "count_live bm (sw_heap_used h) = length (live_idx s)" by (simp add: count_live_def bm(2))
  then show ?thesis
    using assms(2) bm(1) c unfolding sw_gc_minor_def Let_def assms(3,4) by (simp add: sw_heap_used_def)
qed

lemma copy_live_bound: "snd (copy_live bm a b src n dst mem) \<le> dst + n"
proof (induction n arbitrary: src dst mem)
  case (Suc n)
  have "snd (copy_live bm a b (Suc src) n (Suc dst) m) \<le> Suc dst + n" "snd (copy_live bm a b (Suc src) n dst mem) \<le> dst + n" for m
    by (rule Suc.IH)+
  then show ?case by (simp add: le_SucI)
qed simp

lemma heap_inv_minor:
  assumes "heap_inv (gc_heap s)" "sw_gc_minor t s = Inr (s', k)"
  shows "heap_inv (gc_heap s')"
proof (cases "sw_heap_used (gc_heap s) = 0")
  case False
  then obtain bm where "mark_roots (gc_heap s) (gc_roots s) (bitmap_alloc (sw_heap_used (gc_heap s))) = Inr bm"
    using assms(2) by (cases "mark_roots (gc_heap s) (gc_roots s) (bitmap_alloc (sw_heap_used (gc_heap s)))")
      (auto simp: sw_gc_minor_def Let_def sw_heap_used_def)
  then show ?thesis
    using assms False copy_live_bound [of bm "h_start (gc_heap s)" "h_start (gc_heap s)" 0 "sw_heap_used (gc_heap s)" 0 "gc_mem s"]
    by (auto simp: sw_gc_minor_def Let_def sw_heap_used_def heap_inv_def split: prod.splits if_splits)
qed (use assms in \<open>simp add: sw_gc_minor_def Let_def sw_heap_used_def\<close>)

lemma heap_inv_major:
  assumes "heap_inv (gc_heap s)" "sw_gc_major new t s = Inr (s', k)"
  shows "heap_inv (gc_heap s')"
proof (cases "sw_heap_used (gc_heap s) = 0")
  case False
  then obtain bm where "mark_roots (gc_heap s) (gc_roots s) (bitmap_alloc (sw_heap_used (gc_heap s))) = Inr bm"
    using assms(2) by (cases "mark_roots (gc_heap s) (gc_roots s) (bitmap_alloc (sw_heap_used (gc_heap s)))")
      (auto simp: sw_gc_major_def Let_def sw_heap_used_def)
  moreover have "snd (copy_live bm (h_start (gc_heap s)) b 0 (sw_heap_used (gc_heap s)) 0 mem) \<le> h_size (gc_heap s)" for b mem
    by (rule order_trans [OF copy_live_bound]) (use assms(1) in \<open>auto simp: heap_inv_def sw_heap_used_def\<close>)
  ultimately show ?thesis
    using assms False
    by (auto simp: sw_gc_major_def Let_def sw_heap_used_def heap_inv_def split: prod.splits if_splits option.splits) (metis snd_conv)+
qed (use assms in \<open>simp add: sw_gc_major_def Let_def sw_heap_used_def\<close>)

lemma minor_frame:
  "sw_gc_minor t s = Inr (s', k) \<Longrightarrow> h_end (gc_heap s') = h_end (gc_heap s) \<and> h_size (gc_heap s') = h_size (gc_heap s)"
  by (cases "mark_roots (gc_heap s) (gc_roots s) (bitmap_alloc (sw_heap_used (gc_heap s)))")
    (auto simp: sw_gc_minor_def Let_def sw_heap_used_def split: prod.splits if_splits)

lemma major_frame:
  "sw_gc_major new t s = Inr (s', k) \<Longrightarrow> h_end (gc_heap s') = h_end (gc_heap s) \<or> (\<exists>b. new = Some b \<and> h_end (gc_heap s') = b + h_size (gc_heap s))"
  by (cases "mark_roots (gc_heap s) (gc_roots s) (bitmap_alloc (sw_heap_used (gc_heap s)))")
    (auto simp: sw_gc_major_def Let_def sw_heap_used_def split: prod.splits if_splits option.splits)

lemma no_wrap: "heap_inv h \<Longrightarrow> h_end h \<le> 2 ^ 60 \<Longrightarrow> n < 2 ^ 60 \<Longrightarrow> (h_top h + n) mod 2 ^ 61 = h_top h + n"
  by (simp add: heap_inv_def)

text \<open>An allocation ends in the state it began with or in one after its collections, and takes its block there if it fits.\<close>

definition bump :: "nat \<Rightarrow> gc_state \<Rightarrow> gc_state" where
  "bump n s = s\<lparr>gc_heap := (gc_heap s)\<lparr>h_top := (h_top (gc_heap s) + n) mod 2 ^ 61\<rparr>\<rparr>"

lemma alloc_ends:
  assumes i: "heap_inv (gc_heap s)" and a: "sw_heap_alloc new t1 t2 n s = Inr (s', r)"
    and e: "h_end (gc_heap s) \<le> B" and b: "\<And>b. new = Some b \<Longrightarrow> b + h_size (gc_heap s) \<le> B"
  shows "\<exists>u. heap_inv (gc_heap u) \<and> h_end (gc_heap u) \<le> B \<and> (heap_full s n \<or> u = s)
    \<and> (s', r) = (if heap_full u n then (u, None) else (bump n u, Some (h_top (gc_heap u))))"
proof (cases "heap_full s n")
  case False
  then show ?thesis using i a e by (intro exI [of _ s]) (simp add: sw_heap_alloc_def Let_def bump_def)
next
  case True
  obtain u k where u: "sw_gc_minor t1 s = Inr (u, k)" using a True by (cases "sw_gc_minor t1 s") (auto simp: sw_heap_alloc_def)
  have iu: "heap_inv (gc_heap u)" "h_end (gc_heap u) \<le> B" "h_size (gc_heap u) = h_size (gc_heap s)"
    using heap_inv_minor [OF i u] minor_frame [OF u] e by simp_all
  show ?thesis
  proof (cases "heap_full u n")
    case False
    then show ?thesis using iu a True u by (intro exI [of _ u]) (simp add: sw_heap_alloc_def Let_def bump_def)
  next
    case f: True
    obtain v j where v: "sw_gc_major new t2 u = Inr (v, j)"
      using a True f u by (cases "sw_gc_major new t2 u") (auto simp: sw_heap_alloc_def)
    have "heap_inv (gc_heap v)" "h_end (gc_heap v) \<le> B"
      using heap_inv_major [OF iu(1) v] major_frame [OF v] iu(2,3) b by auto
    then show ?thesis using a True f u v
      by (intro exI [of _ v]) (cases "heap_full v n"; simp add: sw_heap_alloc_def Let_def bump_def)
  qed
qed

section \<open>Properties\<close>

text \<open>
  What a minor collection keeps: only the words that a queued message points to are marked, neither the stack nor
  registered references, which \<^verbatim>\<open>swarmrt_gc.h\<close> also calls roots. With payloads below
  the heap's top it does not fault and returns the number of other words; when these are more than a
  quarter of the heap, the kept words are slid down in their order to the start of the heap, the top is
  set behind them and nothing above is written; otherwise nothing moves.
\<close>

theorem gc_minor_keeps_live:
  assumes "heap_inv (gc_heap s)" "roots_below_top s"
  shows "\<exists>s'. sw_gc_minor t s = Inr (s', to_int (sw_heap_used (gc_heap s) - length (live_idx s)))
    \<and> heap_inv (gc_heap s') \<and> h_start (gc_heap s') = h_start (gc_heap s) \<and> gc_roots s' = gc_roots s
    \<and> (if sw_heap_used (gc_heap s) div 4 < sw_heap_used (gc_heap s) - length (live_idx s)
       then map (gc_mem s') [h_start (gc_heap s')..<h_top (gc_heap s')] = map (\<lambda>i. gc_mem s (h_start (gc_heap s) + i)) (live_idx s)
         \<and> (\<forall>x. x \<notin> {h_start (gc_heap s)..<h_top (gc_heap s')} \<longrightarrow> gc_mem s' x = gc_mem s x)
       else gc_mem s' = gc_mem s \<and> gc_heap s' = gc_heap s)"
proof (cases "0 < sw_heap_used (gc_heap s)")
  case True
  show ?thesis
    unfolding minor_result [OF assms(2) True refl refl]
    using heap_inv_minor [OF assms(1) minor_result [OF assms(2) True refl refl]]
    by (auto simp: intro!: nth_equalityI)
next
  case False
  then have "live_idx s = []" by (simp add: live_idx_def)
  then show ?thesis using False assms(1) by (simp add: sw_gc_minor_def Let_def sw_heap_used_def to_int_def)
qed

definition demo_heap :: sw_heap where
  "demo_heap = \<lparr>h_start = 100, h_top = 104, h_end = 356, h_size = 256, old_heap = 0, old_top = 0, old_size = 0,
     gen_gcs = 0, arena_backed = True\<rparr>"

definition demo_gc :: gc_state where
  "demo_gc = \<lparr>gc_heap = demo_heap, gc_mem = (\<lambda>x. of_nat x), gc_roots = [824], gc_frees = [],
     gc_stats = \<lparr>minor_gcs = 0, major_gcs = 0, words_reclaimed = 0, total_gc_time_us = 0\<rparr>\<rparr>"

lemma demo_gc_ok: "heap_inv (gc_heap demo_gc)" "roots_below_top demo_gc" "live_idx demo_gc = [3]"
  "sw_heap_used (gc_heap demo_gc) = 4" "h_end (gc_heap demo_gc) < 2 ^ 61"
proof -
  show "heap_inv (gc_heap demo_gc)" "sw_heap_used (gc_heap demo_gc) = 4" "h_end (gc_heap demo_gc) < 2 ^ 61"
    by (simp_all add: demo_gc_def demo_heap_def heap_inv_def sw_heap_used_def)
  have r: "heap_roots demo_gc = [824]" "root_idx (gc_heap demo_gc) 824 = 3"
    by (simp_all add: heap_roots_def sw_heap_contains_def root_idx_def demo_gc_def demo_heap_def)
  show "roots_below_top demo_gc" using r by (simp add: roots_below_top_def sw_heap_used_def) (simp add: demo_gc_def demo_heap_def)
  have "[0..<sw_heap_used (gc_heap demo_gc)] = [0, 1, 2, 3]"
    by (simp add: demo_gc_def demo_heap_def sw_heap_used_def upt_rec)
  then show "live_idx demo_gc = [3]" using r by (simp add: live_idx_def)
qed

theorem gc_minor_keeps_live_witness:
  "\<exists>s'. sw_gc_minor 5 demo_gc = Inr (s', 3) \<and> heap_inv (gc_heap s') \<and> gc_roots s' = gc_roots demo_gc"
  using gc_minor_keeps_live [OF demo_gc_ok(1,2), of 5] demo_gc_ok(3,4) by (auto simp: to_int_def)

text \<open>
  C39. An allocation stays inside the heap: when it returns a block, the block lies between the heap's
  start and its end and the top moves right behind it, whatever collections ran; and with room left no
  collection runs and the block begins at the old top. This is for requests of fewer than \<open>2\<^sup>6\<^sup>0\<close> words on a
  heap (and a new block for a major collection) in the lower half of the address space: the comparison
  of the pointers wraps around for larger ones and lets them pass (\<open>heap_alloc_wraps\<close>).
\<close>

theorem heap_alloc_in_bounds:
  assumes "heap_inv (gc_heap s)" "sw_heap_alloc new t1 t2 n s = Inr (s', r)"
    and "n < 2 ^ 60" "h_end (gc_heap s) \<le> 2 ^ 60" "\<And>b. new = Some b \<Longrightarrow> b + h_size (gc_heap s) \<le> 2 ^ 60"
  shows "heap_inv (gc_heap s')
    \<and> (\<forall>p. r = Some p \<longrightarrow> h_start (gc_heap s') \<le> p \<and> p + n = h_top (gc_heap s') \<and> p + n \<le> h_end (gc_heap s'))
    \<and> (h_top (gc_heap s) + n \<le> h_end (gc_heap s) \<longrightarrow>
        s' = s\<lparr>gc_heap := (gc_heap s)\<lparr>h_top := h_top (gc_heap s) + n\<rparr>\<rparr> \<and> r = Some (h_top (gc_heap s)))"
proof -
  obtain u where u: "heap_inv (gc_heap u)" "h_end (gc_heap u) \<le> 2 ^ 60" "heap_full s n \<or> u = s"
      "(s', r) = (if heap_full u n then (u, None) else (bump n u, Some (h_top (gc_heap u))))"
    using alloc_ends [OF assms(1,2,4,5)] by blast
  note top = no_wrap [OF u(1,2) assms(3)] no_wrap [OF assms(1,4,3)]
  have "heap_inv (gc_heap s') \<and> (\<forall>p. r = Some p \<longrightarrow> h_start (gc_heap s') \<le> p \<and> p + n = h_top (gc_heap s') \<and> p + n \<le> h_end (gc_heap s'))"
    using u(1,4) unfolding heap_full_def bump_def top by (auto simp: heap_inv_def split: if_splits)
  moreover have "s' = s\<lparr>gc_heap := (gc_heap s)\<lparr>h_top := h_top (gc_heap s) + n\<rparr>\<rparr> \<and> r = Some (h_top (gc_heap s))"
    if "h_top (gc_heap s) + n \<le> h_end (gc_heap s)"
  proof -
    have "\<not> heap_full s n" using that unfolding heap_full_def top by simp
    moreover from this have "u = s" using u(3) by simp
    ultimately have "s' = bump n s" "r = Some (h_top (gc_heap s))" using u(4) by simp_all
    then show ?thesis unfolding bump_def top by simp
  qed
  ultimately show ?thesis by blast
qed

theorem heap_alloc_in_bounds_witness:
  "\<exists>s'. sw_heap_alloc None 0 0 10 demo_gc = Inr (s', Some 104) \<and> h_top (gc_heap s') = 114"
proof -
  obtain s' r where r: "sw_heap_alloc None 0 0 10 demo_gc = Inr (s', r)"
    by (simp add: sw_heap_alloc_def heap_full_def demo_gc_def demo_heap_def Let_def)
  from heap_alloc_in_bounds [OF demo_gc_ok(1) r] r show ?thesis by (simp add: demo_gc_def demo_heap_def)
qed

text \<open>
  A request of nearly as many words as there are addresses passes the check, because the sum wraps around: the
  caller gets a block, and the top moves back, here by four words to the start of the heap, over data in use.
\<close>

theorem heap_alloc_wraps:
  "\<exists>s'. sw_heap_alloc None 0 0 (2 ^ 61 - 4) demo_gc = Inr (s', Some 104) \<and> h_top (gc_heap s') = 100 \<and> h_end (gc_heap s') = 356"
  by (simp add: sw_heap_alloc_def heap_full_def demo_gc_def demo_heap_def Let_def)

text \<open>
  A collection strands the payloads it keeps: compaction moves the words but leaves the payload
  pointers of the queued messages alone. A payload whose index is not below the number of kept words
  ends up above the new top, and the next allocation hands out the word it points to.
\<close>

theorem gc_minor_strands_payload:
  assumes "heap_inv (gc_heap s)" "roots_below_top s" "p \<in> set (heap_roots s)"
    and "sw_heap_used (gc_heap s) div 4 < sw_heap_used (gc_heap s) - length (live_idx s)"
    and "length (live_idx s) \<le> root_idx (gc_heap s) p" "h_end (gc_heap s) < 2 ^ 61"
  shows "\<exists>s' k s'' q n. sw_gc_minor t s = Inr (s', k) \<and> p \<in> set (gc_roots s')
    \<and> sw_heap_alloc new t1 t2 n s' = Inr (s'', Some q) \<and> p \<in> set (gc_roots s'') \<and> q \<le> p div 8 \<and> p div 8 < q + n"
proof -
  let ?h = "gc_heap s"
  have u: "0 < sw_heap_used ?h" using assms(4) by simp
  note m = minor_result [OF assms(2) u refl refl, of t]
  define s1 where "s1 = fst (projr (sw_gc_minor t s))"
  have s1: "sw_gc_minor t s = Inr (s1, to_int (sw_heap_used ?h - length (live_idx s)))" "gc_roots s1 = gc_roots s"
      "gc_heap s1 = ?h\<lparr>h_top := h_start ?h + length (live_idx s)\<rparr>"
    using m assms(4) by (simp_all add: s1_def)
  have p: "p \<in> set (gc_roots s)" "8 * h_start ?h \<le> p" using assms(3) by (auto simp: heap_roots_def sw_heap_contains_def)
  then have d: "p div 8 = h_start ?h + root_idx ?h p" by (simp add: root_idx_def)
  let ?n = "Suc (root_idx ?h p) - length (live_idx s)"
  have "root_idx ?h p < sw_heap_used ?h" using assms(2,3) by (auto simp: roots_below_top_def)
  then have le: "h_top (gc_heap s1) + ?n \<le> h_end ?h" using s1(3) assms(1,5) by (auto simp: heap_inv_def sw_heap_used_def)
  then have w: "(h_top (gc_heap s1) + ?n) mod 2 ^ 61 = h_top (gc_heap s1) + ?n" using assms(6) by (intro mod_less) linarith
  have "\<not> heap_full s1 ?n" unfolding heap_full_def w using le s1(3) by simp
  then have "sw_heap_alloc new t1 t2 ?n s1 =
      Inr (s1\<lparr>gc_heap := (gc_heap s1)\<lparr>h_top := h_top (gc_heap s1) + ?n\<rparr>\<rparr>, Some (h_top (gc_heap s1)))"
    unfolding sw_heap_alloc_def Let_def by (simp only: if_False bind_fault_simps prod.case w)
  moreover have "h_top (gc_heap s1) \<le> p div 8" "p div 8 < h_top (gc_heap s1) + ?n" using s1(3) d assms(5) by auto
  ultimately show ?thesis
    using s1(1,2) p(1)
    by (intro exI [of _ s1] exI [of _ "to_int (sw_heap_used ?h - length (live_idx s))"]
        exI [of _ "s1\<lparr>gc_heap := (gc_heap s1)\<lparr>h_top := h_top (gc_heap s1) + ?n\<rparr>\<rparr>"] exI [of _ "h_top (gc_heap s1)"] exI [of _ ?n]) simp
qed

theorem gc_minor_strands_payload_witness:
  "\<exists>s' k s'' q n. sw_gc_minor 5 demo_gc = Inr (s', k) \<and> sw_heap_alloc None 0 0 n s' = Inr (s'', Some q)
     \<and> 824 \<in> set (gc_roots s'') \<and> q \<le> 103 \<and> 103 < q + n"
proof -
  have "824 \<in> set (heap_roots demo_gc)" "root_idx (gc_heap demo_gc) 824 = 3"
    by (simp_all add: heap_roots_def sw_heap_contains_def root_idx_def demo_gc_def demo_heap_def)
  from gc_minor_strands_payload [OF demo_gc_ok(1,2) this(1), of 5 None 0 0] this(2) demo_gc_ok(3,4) demo_gc_ok(5) show ?thesis by auto
qed

text \<open>
  The second major collection frees arena memory: the first one keeps the arena block as the old
  heap and marks the heap as malloc'd; after any later allocation the next one therefore passes the
  arena block, which \<^verbatim>\<open>malloc\<close> never returned, to \<^verbatim>\<open>free\<close>.
\<close>

theorem gc_second_major_frees_arena:
  assumes "heap_inv (gc_heap s)" "arena_backed (gc_heap s)" "old_heap (gc_heap s) = 0" "h_start (gc_heap s) \<noteq> 0"
    and "gc_roots s = []" "h_start (gc_heap s) < h_top (gc_heap s)" "0 < n" "n \<le> h_size (gc_heap s)"
    and "b + h_size (gc_heap s) < 2 ^ 61"
  shows "\<exists>s1 k1 s2 p s3 k3. sw_gc_major (Some b) t s = Inr (s1, k1) \<and> gc_frees s1 = gc_frees s
    \<and> sw_heap_alloc new t1 t2 n s1 = Inr (s2, Some p)
    \<and> sw_gc_major (Some c) t3 s2 = Inr (s3, k3) \<and> gc_frees s3 = gc_frees s @ [h_start (gc_heap s)]"
proof -
  define s1 where "s1 = fst (projr (sw_gc_major (Some b) t s))"
  have none: "copy_live (bitmap_alloc m) x y 0 m 0 mem = (mem, 0)" for m x y mem
  proof -
    have "filter (bitmap_get (bitmap_alloc m)) [0..<m] = []" using bitmap_alloc_get by (auto simp: filter_empty_conv)
    moreover have "copy_live (bitmap_alloc m) x y src k dst mem = (mem, dst)" if "src + k \<le> m" for src k dst
      using that by (induction k arbitrary: src) (auto simp: bitmap_alloc_get)
    ultimately show ?thesis by simp
  qed
  have "\<exists>k1. sw_gc_major (Some b) t s = Inr (s1, k1) \<and> gc_frees s1 = gc_frees s \<and> gc_roots s1 = []
    \<and> old_heap (gc_heap s1) = h_start (gc_heap s) \<and> \<not> arena_backed (gc_heap s1) \<and> h_start (gc_heap s1) = b
    \<and> h_top (gc_heap s1) = b \<and> h_end (gc_heap s1) = b + h_size (gc_heap s) \<and> h_size (gc_heap s1) = h_size (gc_heap s)"
    using assms(2-6) by (simp add: sw_gc_major_def Let_def none s1_def)
  then obtain k1 where s1: "sw_gc_major (Some b) t s = Inr (s1, k1)" "gc_frees s1 = gc_frees s" "gc_roots s1 = []"
      "old_heap (gc_heap s1) = h_start (gc_heap s)" "\<not> arena_backed (gc_heap s1)" "h_start (gc_heap s1) = b"
      "h_top (gc_heap s1) = b" "h_end (gc_heap s1) = b + h_size (gc_heap s)" by blast
  let ?s2 = "s1\<lparr>gc_heap := (gc_heap s1)\<lparr>h_top := b + n\<rparr>\<rparr>"
  have "sw_heap_alloc new t1 t2 n s1 = Inr (?s2, Some b)"
    using s1(7,8) assms(8,9) by (simp add: sw_heap_alloc_def heap_full_def Let_def)
  moreover have "\<exists>s3 k3. sw_gc_major (Some c) t3 ?s2 = Inr (s3, k3) \<and> gc_frees s3 = gc_frees s @ [h_start (gc_heap s)]"
    using s1 assms(4,7) by (simp add: sw_gc_major_def Let_def none)
  ultimately show ?thesis using s1(1,2) by blast
qed

theorem gc_second_major_frees_arena_witness:
  "\<exists>s1 k1 s2 p s3 k3. sw_gc_major (Some 1000) 0 (demo_gc\<lparr>gc_roots := []\<rparr>) = Inr (s1, k1)
    \<and> sw_heap_alloc None 0 0 1 s1 = Inr (s2, Some p) \<and> sw_gc_major (Some 2000) 0 s2 = Inr (s3, k3) \<and> gc_frees s3 = [100]"
proof -
  have "heap_inv (gc_heap (demo_gc\<lparr>gc_roots := []\<rparr>))" using demo_gc_ok(1) by simp
  from gc_second_major_frees_arena [OF this, of 1 1000 0 None 0 0 2000 0] show ?thesis
    by (simp add: demo_gc_def demo_heap_def) blast
qed

end
