(* ===== verification/Process.thy ===== *)
theory Process
  imports Arena Mailbox Gc
begin

text \<open>
  The life of a process in \<^verbatim>\<open>src/src/swarmrt_native.c\<close>: the process control block and its initialisation,
  spawning (scheduler choice, slot and block, identifier, first run-queue entry), the choice of the
  scheduler of a linked child, lookup by identifier, the reduction counter, and the return of the slot.
  It composes the arena allocator and the mailbox; run queues appear as the sequences of entries that
  the run-queue theory shows them to be.
\<close>

section \<open>The process control block\<close>

definition SWARM_CONTEXT_REDS :: int where [const_simps]: "SWARM_CONTEXT_REDS = 2000"
definition SW_PROC_STACK_SIZE :: nat where [const_simps]: "SW_PROC_STACK_SIZE = 65536"

text \<open>The saved registers that initialisation sets (x86-64).\<close>

record sw_context =
  ctx_rsp :: nat
  ctx_r12 :: nat
  stack_limit :: nat
  stack_base :: nat

record sw_process =
  pr_heap :: sw_heap
  pr_htop :: nat
  fcalls :: int
  pr_flags :: u32
  pr_state :: sw_proc_state
  pr_priority :: nat
  pr_scheduler :: nat
  pr_pid :: u64
  pr_ctx :: sw_context
  pr_entry :: u64
  pr_arg :: u64
  stack_mem :: nat
  stack_size :: nat
  arena_slot :: nat
  heap_block_idx :: nat
  pr_mailbox :: sw_mailbox
  reductions_done :: u64
  context_switches :: u64
  messages_sent :: u64
  messages_recv :: u64
  pr_parent :: "proc_ref option"
  pr_has_links :: bool
  pr_kill_flag :: bool
  pr_exit_reason :: int

section \<open>Initialisation\<close>

text \<open>
  The stack is mapped once per slot: one guard page below at least 64 KiB, rounded up to whole pages.
  \<open>page\<close> is the page size, a power of two, and \<open>mem\<close> the mapping, \<^term>\<open>None\<close> when it fails.
\<close>

definition stack_total :: "nat \<Rightarrow> nat" where
  "stack_total page = (page + SW_PROC_STACK_SIZE + page - 1) div page * page"

definition init_stack :: "nat \<Rightarrow> nat option \<Rightarrow> sw_process \<Rightarrow> sw_process option" where
  "init_stack page mem p =
     (if stack_mem p \<noteq> 0 then Some p
      else case mem of
             None \<Rightarrow> None
           | Some m \<Rightarrow> Some (p\<lparr>stack_mem := m + page, stack_size := stack_total page - page\<rparr>))"

definition init_ctx :: "sw_process \<Rightarrow> sw_context" where
  "init_ctx p =
     (let top = (stack_mem p + stack_size p) div 16 * 16; sp = top - 8
      in \<lparr>ctx_rsp = sp, ctx_r12 = arena_slot p, stack_limit = stack_mem p, stack_base = sp\<rparr>)"

definition init_heap :: "nat \<Rightarrow> sw_heap" where
  "init_heap block =
     \<lparr>h_start = block, h_top = block, h_end = block + SWARM_HEAP_MIN_SIZE, h_size = SWARM_HEAP_MIN_SIZE,
      old_heap = 0, old_top = 0, old_size = 0, gen_gcs = 0, arena_backed = True\<rparr>"

definition init_mailbox :: sw_mailbox where
  "init_mailbox = \<lparr>sig_head = None, priv_head = None, priv_tail = None, mb_waiting = False, mb_count = 0\<rparr>"

text \<open>The word address of a block of the arena.\<close>

definition block_addr :: "sw_arena \<Rightarrow> nat \<Rightarrow> nat" where
  "block_addr a block_idx = (block_base a + block_idx * block_size a) div 8"

text \<open>When the stack cannot be mapped, the function returns early and leaves the rest as it was.\<close>

definition process_init_arena ::
    "nat \<Rightarrow> nat option \<Rightarrow> sw_arena \<Rightarrow> nat \<Rightarrow> u64 \<Rightarrow> u64 \<Rightarrow> sw_process \<Rightarrow> sw_process \<times> int" where
  "process_init_arena page mem a block_idx entry arg p =
     (let p = p\<lparr>pr_heap := init_heap (block_addr a block_idx), pr_htop := block_addr a block_idx,
                heap_block_idx := block_idx, pr_entry := entry, pr_arg := arg\<rparr>
      in case init_stack page mem p of
           None \<Rightarrow> (p, -1)
         | Some p \<Rightarrow>
             (p\<lparr>pr_ctx := init_ctx p, pr_state := SW_PROC_RUNNABLE, pr_priority := SW_PRIO_NORMAL,
                fcalls := SWARM_CONTEXT_REDS, pr_flags := 0, pr_mailbox := init_mailbox,
                pr_parent := None, pr_has_links := False, pr_kill_flag := False, pr_exit_reason := 0,
                reductions_done := 0, context_switches := 0, messages_sent := 0, messages_recv := 0\<rparr>, 0))"

section \<open>The system\<close>

record sw_swarm =
  sw_arena_of :: sw_arena
  slab :: "nat \<Rightarrow> sw_process"
  next_sched :: u32
  num_schedulers :: nat
  total_spawns :: u64
  enqueued :: "nat \<Rightarrow> (nat \<times> nat) list"

text \<open>The atomic fetch-and-add on the round-robin counter.\<close>

definition next_target :: "sw_swarm \<Rightarrow> sw_swarm \<times> nat" where
  "next_target s = (s\<lparr>next_sched := next_sched s + 1\<rparr>, unat (next_sched s) mod num_schedulers s)"

text \<open>\<open>runq_add\<close> is the entry that \<^verbatim>\<open>sw_add_to_runq\<close> makes: behind those of its priority.\<close>

definition runq_add :: "nat \<Rightarrow> nat \<Rightarrow> nat \<Rightarrow> sw_swarm \<Rightarrow> sw_swarm" where
  "runq_add sched prio slot s = s\<lparr>enqueued := (enqueued s)(sched := enqueued s sched @ [(prio, slot)])\<rparr>"

definition sw_spawn_opts :: "nat \<Rightarrow> nat option \<Rightarrow> u64 \<Rightarrow> u64 \<Rightarrow> nat \<Rightarrow> sw_swarm \<Rightarrow> sw_swarm \<times> nat option" where
  "sw_spawn_opts page mem entry arg prio s =
     (let (s, sched_id) = next_target s;
          (a, res) = spawn_alloc sched_id (sw_arena_of s);
          s = s\<lparr>sw_arena_of := a\<rparr>
      in case res of
           None \<Rightarrow> (s, None)
         | Some (slot, block_idx) \<Rightarrow>
             let p = (slab s slot)\<lparr>arena_slot := slot\<rparr>;
                 p = fst (process_init_arena page mem a block_idx entry arg p);
                 p = p\<lparr>pr_pid := next_pid a, pr_priority := prio, pr_scheduler := sched_id\<rparr>;
                 s = s\<lparr>sw_arena_of := a\<lparr>next_pid := next_pid a + 1\<rparr>, total_spawns := total_spawns s + 1,
                       slab := (slab s)(slot := p)\<rparr>
             in (runq_add sched_id prio slot s, Some slot))"

definition sw_spawn :: "nat \<Rightarrow> nat option \<Rightarrow> u64 \<Rightarrow> u64 \<Rightarrow> sw_swarm \<Rightarrow> sw_swarm \<times> nat option" where
  "sw_spawn page mem entry arg = sw_spawn_opts page mem entry arg SW_PRIO_NORMAL"

subsection \<open>The scheduler of a linked child\<close>

text \<open>The loop that skips the parent's scheduler; it returns the counter it leaves behind.\<close>

partial_function (option) skip_sched :: "nat \<Rightarrow> nat \<Rightarrow> u32 \<Rightarrow> (u32 \<times> nat) option" where
  "skip_sched n self c =
     (if unat c mod n \<noteq> self then Some (c + 1, unat c mod n) else skip_sched n self (c + 1))"

text \<open>
  The spawn inside \<^verbatim>\<open>sw_spawn_link\<close>, by a process that runs on scheduler \<open>self\<close>. The scheduler chosen here
  is only stored in the thread-local \<^verbatim>\<open>tls_scheduler\<close>, which \<^verbatim>\<open>sw_spawn_opts\<close> does not read.
\<close>

definition spawn_link_child :: "nat \<Rightarrow> nat option \<Rightarrow> nat \<Rightarrow> u64 \<Rightarrow> u64 \<Rightarrow> sw_swarm \<Rightarrow> (sw_swarm \<times> nat option) option" where
  "spawn_link_child page mem self entry arg s =
     (if 1 < num_schedulers s
      then map_option (\<lambda>(c, tls). sw_spawn page mem entry arg (s\<lparr>next_sched := c\<rparr>)) (skip_sched (num_schedulers s) self (next_sched s))
      else Some (sw_spawn page mem entry arg s))"

subsection \<open>Lookup, reductions, the end of a process\<close>

definition pid_match :: "sw_swarm \<Rightarrow> u64 \<Rightarrow> nat \<Rightarrow> bool" where
  "pid_match s pid i \<longleftrightarrow> pr_pid (slab s i) = pid \<and> pr_state (slab s i) \<noteq> SW_PROC_EXITING \<and> pr_entry (slab s i) \<noteq> 0"

definition sw_find_by_pid :: "u64 \<Rightarrow> sw_swarm \<Rightarrow> nat option" where
  "sw_find_by_pid pid s = (if pid = 0 then None else find (pid_match s pid) [0..<proc_capacity (sw_arena_of s)])"

definition sw_check_reds :: "sw_process \<Rightarrow> sw_process \<times> bool" where
  "sw_check_reds p =
     (let p = p\<lparr>fcalls := fcalls p - 1, reductions_done := reductions_done p + 1\<rparr> in (p, fcalls p \<le> 0))"

text \<open>The scheduler gives the process a time slice.\<close>

definition sched_start :: "nat \<Rightarrow> sw_process \<Rightarrow> sw_process" where
  "sched_start sched p = p\<lparr>pr_state := SW_PROC_RUNNING, pr_scheduler := sched, fcalls := SWARM_CONTEXT_REDS\<rparr>"

definition sw_process_kill :: "int \<Rightarrow> sw_process \<Rightarrow> sw_process" where
  "sw_process_kill reason p = p\<lparr>pr_kill_flag := True, pr_exit_reason := reason\<rparr>"

text \<open>The loops of \<^verbatim>\<open>process_destroy\<close> that free the messages left in the mailbox.\<close>

partial_function (option) free_sig :: "addr option \<Rightarrow> 'p msg_heap \<Rightarrow> msg_pool \<Rightarrow> ('p msg_heap \<times> msg_pool) option" where
  "free_sig x h pool =
     (case x of
        None \<Rightarrow> Some (h, pool)
      | Some m \<Rightarrow> free_sig (sig_next (h m)) (fst (msg_free h pool m)) (fst (snd (msg_free h pool m))))"

partial_function (option) free_priv :: "addr option \<Rightarrow> 'p msg_heap \<Rightarrow> msg_pool \<Rightarrow> ('p msg_heap \<times> msg_pool) option" where
  "free_priv x h pool =
     (case x of
        None \<Rightarrow> Some (h, pool)
      | Some m \<Rightarrow> free_priv (msg_next (h m)) (fst (msg_free h pool m)) (fst (snd (msg_free h pool m))))"

definition clear_mailbox :: "sw_mailbox \<Rightarrow> 'p msg_heap \<Rightarrow> msg_pool \<Rightarrow> (sw_mailbox \<times> 'p msg_heap \<times> msg_pool) option" where
  "clear_mailbox mb h pool =
     Option.bind (free_sig (sig_head mb) h pool) (\<lambda>(h, pool).
     Option.bind (free_priv (priv_head mb) h pool) (\<lambda>(h, pool).
       Some (mb\<lparr>sig_head := None, priv_head := None, priv_tail := None, mb_count := 0\<rparr>, h, pool)))"

definition release_slot :: "nat option \<Rightarrow> nat \<Rightarrow> sw_mailbox \<Rightarrow> sw_swarm \<Rightarrow> sw_swarm" where
  "release_slot sched slot mb s =
     (let p = slab s slot
      in s\<lparr>slab := (slab s)(slot := p\<lparr>pr_mailbox := mb\<rparr>),
           sw_arena_of := arena_release sched (arena_slot p) (heap_block_idx p) (sw_arena_of s)\<rparr>)"

definition process_destroy ::
    "nat option \<Rightarrow> nat \<Rightarrow> 'p msg_heap \<Rightarrow> msg_pool \<Rightarrow> sw_swarm \<Rightarrow> (sw_swarm \<times> 'p msg_heap \<times> msg_pool) option" where
  "process_destroy sched slot h pool s =
     Option.bind (clear_mailbox (pr_mailbox (slab s slot)) h pool) (\<lambda>(mb, h, pool). Some (release_slot sched slot mb s, h, pool))"

section \<open>Lemmas\<close>

subsection \<open>Clearing the mailbox ends\<close>

lemma msg_free_keeps:
  "a \<noteq> m \<Longrightarrow> fst (msg_free h pool m) a = h a"
  "sig_next (fst (msg_free h pool m) a) = sig_next (h a)"
  by (simp_all add: msg_free_def)

lemma free_sig_ends:
  assumes "chain (\<lambda>a. sig_next (h a)) x xs"
  shows "\<exists>h' pool'. free_sig x h pool = Some (h', pool') \<and> (\<forall>a. a \<notin> set xs \<longrightarrow> h' a = h a)"
  using assms
proof (induction xs arbitrary: x h pool)
  case Nil
  then show ?case by (simp add: free_sig.simps)
next
  case (Cons m xs)
  let ?h = "fst (msg_free h pool m)" and ?pool = "fst (snd (msg_free h pool m))"
  have "chain (\<lambda>a. sig_next (?h a)) (sig_next (h m)) xs" using Cons.prems by (simp add: msg_free_keeps)
  from Cons.IH [OF this, of ?pool] show ?case
    using Cons.prems by (subst free_sig.simps) (auto simp: msg_free_keeps)
qed

lemma free_priv_ends:
  assumes "chain (\<lambda>a. msg_next (h a)) x xs" "distinct xs"
  shows "\<exists>h' pool'. free_priv x h pool = Some (h', pool')"
  using assms
proof (induction xs arbitrary: x h pool)
  case Nil
  then show ?case by (simp add: free_priv.simps)
next
  case (Cons m xs)
  let ?h = "fst (msg_free h pool m)" and ?pool = "fst (snd (msg_free h pool m))"
  have "chain (\<lambda>a. msg_next (?h a)) (msg_next (h m)) xs"
  proof (rule chain_upd [of "\<lambda>a. msg_next (h a)"])
    show "chain (\<lambda>a. msg_next (h a)) (msg_next (h m)) xs" using Cons.prems by simp
    fix a assume "a \<in> set xs"
    then have "a \<noteq> m" using Cons.prems(2) by auto
    then show "msg_next (?h a) = msg_next (h a)" by (simp add: msg_free_keeps(1))
  qed
  from Cons.IH [OF this, of ?pool] show ?case using Cons.prems by (subst free_priv.simps) auto
qed

text \<open>A mailbox whose two lists are finite and share no node is cleared in finitely many steps.\<close>

lemma process_destroy_returns:
  assumes "chain (\<lambda>a. sig_next (h a)) (sig_head (pr_mailbox (slab s slot))) xs"
    and "chain (\<lambda>a. msg_next (h a)) (priv_head (pr_mailbox (slab s slot))) ys" "distinct ys" "set xs \<inter> set ys = {}"
  shows "\<exists>s' h' pool'. process_destroy sched slot h pool s = Some (s', h', pool')
    \<and> sig_head (pr_mailbox (slab s' slot)) = None \<and> priv_head (pr_mailbox (slab s' slot)) = None"
proof -
  obtain h1 pool1 where 1: "free_sig (sig_head (pr_mailbox (slab s slot))) h pool = Some (h1, pool1)"
      "\<forall>a. a \<notin> set xs \<longrightarrow> h1 a = h a"
    using free_sig_ends [OF assms(1)] by blast
  have "chain (\<lambda>a. msg_next (h1 a)) (priv_head (pr_mailbox (slab s slot))) ys"
    by (rule chain_upd [OF assms(2)]) (use 1(2) assms(4) in auto)
  then obtain h2 pool2 where "free_priv (priv_head (pr_mailbox (slab s slot))) h1 pool1 = Some (h2, pool2)"
    using free_priv_ends [OF _ assms(3)] by blast
  then show ?thesis using 1(1) by (simp add: process_destroy_def clear_mailbox_def release_slot_def Let_def)
qed

subsection \<open>Histories of spawns and exits\<close>

text \<open>
  \<open>P_tick\<close> stands for the other users of the round-robin counter. The second component of the state is
  the set of slots in use.
\<close>

datatype proc_op =
    P_spawn nat "nat option" u64 u64 nat
  | P_tick u32
  | P_done nat
  | P_destroy "nat option" nat sw_mailbox

fun proc_exec :: "proc_op \<Rightarrow> sw_swarm \<times> nat set \<Rightarrow> sw_swarm \<times> nat set" where
  "proc_exec (P_spawn page mem entry arg prio) (s, live) =
     (if entry \<noteq> 0 \<and> next_pid (sw_arena_of s) + 1 \<noteq> 0
      then case sw_spawn_opts page mem entry arg prio s of (s', None) \<Rightarrow> (s', live) | (s', Some i) \<Rightarrow> (s', insert i live)
      else (s, live))"
| "proc_exec (P_tick c) (s, live) = (s\<lparr>next_sched := c\<rparr>, live)"
| "proc_exec (P_done i) (s, live) =
     (if i \<in> live then (s\<lparr>slab := (slab s)(i := (slab s i)\<lparr>pr_state := SW_PROC_EXITING\<rparr>)\<rparr>, live) else (s, live))"
| "proc_exec (P_destroy sched i mb) (s, live) =
     (if i \<in> live \<and> pr_state (slab s i) = SW_PROC_EXITING then (release_slot sched i mb s, live - {i}) else (s, live))"

definition sys_inv :: "sw_swarm \<Rightarrow> nat set \<Rightarrow> bool" where
  "sys_inv s live \<longleftrightarrow>
     arena_inv live ((\<lambda>i. heap_block_idx (slab s i)) ` live) (sw_arena_of s)
     \<and> inj_on (\<lambda>i. heap_block_idx (slab s i)) live \<and> inj_on (\<lambda>i. pr_pid (slab s i)) live
     \<and> (\<forall>i\<in>live. arena_slot (slab s i) = i \<and> pr_pid (slab s i) < next_pid (sw_arena_of s) \<and> pr_entry (slab s i) \<noteq> 0)
     \<and> (\<forall>i. i \<notin> live \<longrightarrow> pr_entry (slab s i) = 0 \<or> pr_state (slab s i) = SW_PROC_EXITING)"

lemma init_arena_fields [simp]:
  "heap_block_idx (fst (process_init_arena page mem a b entry arg p)) = b"
  "pr_entry (fst (process_init_arena page mem a b entry arg p)) = entry"
  "arena_slot (fst (process_init_arena page mem a b entry arg p)) = arena_slot p"
  by (auto simp: process_init_arena_def init_stack_def Let_def split: option.split)

lemma alloc_next_pid: "arena_inv L B a \<Longrightarrow> spawn_alloc k a = (a', r) \<Longrightarrow> next_pid a' = next_pid a \<and> proc_capacity a' = proc_capacity a"
  using spawn_alloc_cases [of L B a k] by auto

lemma alloc_none: "arena_inv L B a \<Longrightarrow> spawn_alloc k a = (a', None) \<Longrightarrow> a' = a"
  using spawn_alloc_cases [of L B a k] by auto

lemma arena_inv_next_pid [simp]: "arena_inv L B (a\<lparr>next_pid := n\<rparr>) = arena_inv L B a"
  by (simp add: arena_inv_def)

lemma spawn_opts_result:
  assumes i: "sys_inv s live"
  shows "(\<exists>slot p a'. sw_spawn_opts page mem entry arg prio s =
        (s\<lparr>next_sched := next_sched s + 1, sw_arena_of := a'\<lparr>next_pid := next_pid (sw_arena_of s) + 1\<rparr>, total_spawns := total_spawns s + 1,
           slab := (slab s)(slot := p),
           enqueued := (enqueued s)(pr_scheduler p := enqueued s (pr_scheduler p) @ [(prio, slot)])\<rparr>, Some slot)
      \<and> slot \<notin> live \<and> slot < proc_capacity (sw_arena_of s) \<and> proc_capacity a' = proc_capacity (sw_arena_of s)
      \<and> heap_block_idx p \<notin> (\<lambda>i. heap_block_idx (slab s i)) ` live
      \<and> arena_inv (insert slot live) (insert (heap_block_idx p) ((\<lambda>i. heap_block_idx (slab s i)) ` live)) a'
      \<and> arena_slot p = slot \<and> pr_pid p = next_pid (sw_arena_of s) \<and> pr_entry p = entry
      \<and> pr_scheduler p = unat (next_sched s) mod num_schedulers s)
    \<or> sw_spawn_opts page mem entry arg prio s = (s\<lparr>next_sched := next_sched s + 1\<rparr>, None)"
proof -
  let ?k = "unat (next_sched s) mod num_schedulers s"
  obtain a' r where al: "spawn_alloc ?k (sw_arena_of s) = (a', r)" by (cases "spawn_alloc ?k (sw_arena_of s)")
  have ai: "arena_inv live ((\<lambda>i. heap_block_idx (slab s i)) ` live) (sw_arena_of s)" using i by (simp add: sys_inv_def)
  show ?thesis
  proof (cases r)
    case None
    then have "a' = sw_arena_of s" using alloc_none [OF ai] al by simp
    then have "sw_spawn_opts page mem entry arg prio s = (s\<lparr>next_sched := next_sched s + 1\<rparr>, None)"
      using al None by (simp add: sw_spawn_opts_def next_target_def)
    then show ?thesis ..
  next
    case (Some sb)
    obtain slot b where sb: "sb = (slot, b)" by (cases sb)
    let ?p = "(fst (process_init_arena page mem a' b entry arg ((slab s slot)\<lparr>arena_slot := slot\<rparr>)))
        \<lparr>pr_pid := next_pid (sw_arena_of s), pr_priority := prio, pr_scheduler := ?k\<rparr>"
    have f: "slot \<notin> live \<and> b \<notin> (\<lambda>i. heap_block_idx (slab s i)) ` live \<and> slot < proc_capacity (sw_arena_of s)
        \<and> arena_inv (insert slot live) (insert b ((\<lambda>i. heap_block_idx (slab s i)) ` live)) a'"
      by (rule spawn_alloc_inv [OF ai]) (use al Some sb in simp)
    have n: "next_pid a' = next_pid (sw_arena_of s)" "proc_capacity a' = proc_capacity (sw_arena_of s)"
      using alloc_next_pid [OF ai al] by simp_all
    have "sw_spawn_opts page mem entry arg prio s =
        (s\<lparr>next_sched := next_sched s + 1, sw_arena_of := a'\<lparr>next_pid := next_pid (sw_arena_of s) + 1\<rparr>, total_spawns := total_spawns s + 1,
           slab := (slab s)(slot := ?p),
           enqueued := (enqueued s)(?k := enqueued s ?k @ [(prio, slot)])\<rparr>, Some slot)"
      using al Some sb n by (simp add: sw_spawn_opts_def next_target_def runq_add_def Let_def)
    then show ?thesis using f n by (intro disjI1 exI [of _ slot] exI [of _ ?p] exI [of _ a']) simp
  qed
qed

lemma sys_inv_spawn:
  assumes i: "sys_inv s live" and e: "entry \<noteq> 0" "next_pid (sw_arena_of s) + 1 \<noteq> 0"
    and sp: "sw_spawn_opts page mem entry arg prio s = (s', r)"
  shows "sys_inv s' (case r of None \<Rightarrow> live | Some k \<Rightarrow> insert k live)"
  using spawn_opts_result [OF i, of page mem entry arg prio]
proof (elim disjE exE conjE)
  assume "sw_spawn_opts page mem entry arg prio s = (s\<lparr>next_sched := next_sched s + 1\<rparr>, None)"
  then show ?thesis using i sp by (auto simp: sys_inv_def)
next
  fix slot p a'
  assume h: "sw_spawn_opts page mem entry arg prio s =
        (s\<lparr>next_sched := next_sched s + 1, sw_arena_of := a'\<lparr>next_pid := next_pid (sw_arena_of s) + 1\<rparr>, total_spawns := total_spawns s + 1,
           slab := (slab s)(slot := p),
           enqueued := (enqueued s)(pr_scheduler p := enqueued s (pr_scheduler p) @ [(prio, slot)])\<rparr>, Some slot)"
      "slot \<notin> live" "heap_block_idx p \<notin> (\<lambda>i. heap_block_idx (slab s i)) ` live"
      "arena_inv (insert slot live) (insert (heap_block_idx p) ((\<lambda>i. heap_block_idx (slab s i)) ` live)) a'"
      "arena_slot p = slot" "pr_pid p = next_pid (sw_arena_of s)" "pr_entry p = entry"
  have s': "s' = s\<lparr>next_sched := next_sched s + 1, sw_arena_of := a'\<lparr>next_pid := next_pid (sw_arena_of s) + 1\<rparr>,
      total_spawns := total_spawns s + 1, slab := (slab s)(slot := p),
      enqueued := (enqueued s)(pr_scheduler p := enqueued s (pr_scheduler p) @ [(prio, slot)])\<rparr>" "r = Some slot"
    using h(1) sp by simp_all
  have less: "next_pid (sw_arena_of s) < next_pid (sw_arena_of s) + 1"
    using unatSuc [of "next_pid (sw_arena_of s)"] e(2) by (simp add: word_less_nat_alt add.commute)
  have pid: "pr_pid (slab s j) < next_pid (sw_arena_of s)" if "j \<in> live" for j using i that by (simp add: sys_inv_def)
  have im: "(\<lambda>j. heap_block_idx (((slab s)(slot := p)) j)) ` insert slot live
      = insert (heap_block_idx p) ((\<lambda>i. heap_block_idx (slab s i)) ` live)"
    using h(2) by auto
  have inj1: "inj_on (\<lambda>j. heap_block_idx (((slab s)(slot := p)) j)) (insert slot live)"
    by (rule inj_on_upd_insert) (use i h(2,3) in \<open>simp_all add: sys_inv_def\<close>)
  have inj2: "inj_on (\<lambda>j. pr_pid (((slab s)(slot := p)) j)) (insert slot live)"
  proof (rule inj_on_upd_insert)
    show "inj_on (\<lambda>i. pr_pid (slab s i)) live" using i by (simp add: sys_inv_def)
    show "slot \<notin> live" by (rule h(2))
    show "pr_pid p \<notin> (\<lambda>i. pr_pid (slab s i)) ` live" using h(6) pid by (metis (no_types, lifting) image_iff less_irrefl)
  qed
  have d: "arena_slot (((slab s)(slot := p)) j) = j \<and> pr_pid (((slab s)(slot := p)) j) < next_pid (sw_arena_of s) + 1
      \<and> pr_entry (((slab s)(slot := p)) j) \<noteq> 0" if "j \<in> insert slot live" for j
    using that h(5-7) e(1) less less_trans [OF pid less, of j] i by (auto simp: sys_inv_def)
  have o: "pr_entry (((slab s)(slot := p)) j) = 0 \<or> pr_state (((slab s)(slot := p)) j) = SW_PROC_EXITING" if "j \<notin> insert slot live" for j
    using that i by (simp add: sys_inv_def)
  have sl: "slab s' = (slab s)(slot := p)" "sw_arena_of s' = a'\<lparr>next_pid := next_pid (sw_arena_of s) + 1\<rparr>" by (simp_all add: s'(1))
  have "next_pid (sw_arena_of s') = next_pid (sw_arena_of s) + 1" by (simp add: sl)
  then show ?thesis
    unfolding sys_inv_def s'(2) option.case sl(1) im using inj1 inj2 d o h(4) by (simp add: sl(2) del: fun_upd_apply)
qed

lemma sys_inv_release:
  assumes i: "sys_inv s live" and l: "k \<in> live" "pr_state (slab s k) = SW_PROC_EXITING"
  shows "sys_inv (release_slot sched k mb s) (live - {k})"
proof -
  let ?b = "\<lambda>i. heap_block_idx (slab s i)"
  have a: "arena_inv live (?b ` live) (sw_arena_of s)" "inj_on ?b live" "arena_slot (slab s k) = k"
    using i l by (simp_all add: sys_inv_def)
  have "?b ` live - {?b k} = ?b ` (live - {k})" using a(2) l(1) by (auto simp: inj_on_def)
  then have ar: "arena_inv (live - {k}) (?b ` (live - {k})) (arena_release sched k (?b k) (sw_arena_of s))"
    using release_arena_inv [OF a(1) l(1), of "?b k" sched] l(1) by simp
  have im: "(\<lambda>j. heap_block_idx (slab (release_slot sched k mb s) j)) = ?b"
    "(\<lambda>j. pr_pid (slab (release_slot sched k mb s) j)) = (\<lambda>j. pr_pid (slab s j))"
    by (auto simp: release_slot_def Let_def)
  have np: "next_pid (arena_release sched k (?b k) (sw_arena_of s)) = next_pid (sw_arena_of s)"
    by (simp add: arena_release_def Let_def)
  have sub: "inj_on ?b (live - {k})" "inj_on (\<lambda>j. pr_pid (slab s j)) (live - {k})"
    using i by (auto simp: sys_inv_def inj_on_def)
  show ?thesis
    unfolding sys_inv_def im using ar sub i l a(3) np by (auto simp: sys_inv_def release_slot_def Let_def)
qed

lemma sys_inv_exec: "sys_inv s live \<Longrightarrow> proc_exec op (s, live) = (s', live') \<Longrightarrow> sys_inv s' live'"
proof (cases op)
  case (P_spawn page mem entry arg prio)
  assume i: "sys_inv s live" and e: "proc_exec op (s, live) = (s', live')"
  show ?thesis
  proof (cases "entry \<noteq> 0 \<and> next_pid (sw_arena_of s) + 1 \<noteq> 0")
    case True
    obtain u r where u: "sw_spawn_opts page mem entry arg prio s = (u, r)" by (cases "sw_spawn_opts page mem entry arg prio s")
    have "sys_inv u (case r of None \<Rightarrow> live | Some k \<Rightarrow> insert k live)"
      using sys_inv_spawn [OF i _ _ u] True by blast
    then show ?thesis using e True u P_spawn by (auto split: option.splits)
  qed (use i e P_spawn in auto)
next
  case (P_destroy sched k mb)
  assume i: "sys_inv s live" and e: "proc_exec op (s, live) = (s', live')"
  show ?thesis using e P_destroy sys_inv_release [OF i, of k sched mb] i by (auto split: if_splits)
next
  case (P_done k)
  assume i: "sys_inv s live" and e: "proc_exec op (s, live) = (s', live')"
  have "sys_inv (s\<lparr>slab := (slab s)(k := (slab s k)\<lparr>pr_state := SW_PROC_EXITING\<rparr>)\<rparr>) live" if "k \<in> live"
  proof -
    have "(\<lambda>j. heap_block_idx (((slab s)(k := (slab s k)\<lparr>pr_state := SW_PROC_EXITING\<rparr>)) j)) = (\<lambda>j. heap_block_idx (slab s j))"
      "(\<lambda>j. pr_pid (((slab s)(k := (slab s k)\<lparr>pr_state := SW_PROC_EXITING\<rparr>)) j)) = (\<lambda>j. pr_pid (slab s j))" by auto
    then show ?thesis using i that unfolding sys_inv_def by (auto simp: fun_eq_iff)
  qed
  then show ?thesis using i e P_done by (auto split: if_splits)
qed (auto simp: sys_inv_def)

text \<open>A zeroed slab over a fresh arena.\<close>

definition zero_proc :: sw_process where
  "zero_proc = \<lparr>pr_heap = init_heap 0, pr_htop = 0, fcalls = 0, pr_flags = 0, pr_state = SW_PROC_FREE, pr_priority = 0,
     pr_scheduler = 0, pr_pid = 0, pr_ctx = \<lparr>ctx_rsp = 0, ctx_r12 = 0, stack_limit = 0, stack_base = 0\<rparr>, pr_entry = 0, pr_arg = 0,
     stack_mem = 0, stack_size = 0, arena_slot = 0, heap_block_idx = 0, pr_mailbox = init_mailbox, reductions_done = 0,
     context_switches = 0, messages_sent = 0, messages_recv = 0, pr_parent = None, pr_has_links = False,
     pr_kill_flag = False, pr_exit_reason = 0\<rparr>"

definition swarm_start :: "sw_arena \<Rightarrow> nat \<Rightarrow> sw_swarm" where
  "swarm_start a n = \<lparr>sw_arena_of = a, slab = (\<lambda>_. zero_proc), next_sched = 0, num_schedulers = n, total_spawns = 0,
     enqueued = (\<lambda>_. [])\<rparr>"

lemma sys_inv_start: "sw_arena_init sz mem n m = Some a \<Longrightarrow> sys_inv (swarm_start a k) {}"
  using init_arena_inv [of sz mem n m a] by (simp add: sys_inv_def swarm_start_def zero_proc_def)

lemma sys_inv_run: "sys_inv s live \<Longrightarrow> sys_inv (fst (fold proc_exec ops (s, live))) (snd (fold proc_exec ops (s, live)))"
proof (induction ops arbitrary: s live)
  case (Cons op ops)
  obtain s' live' where e: "proc_exec op (s, live) = (s', live')" by (cases "proc_exec op (s, live)")
  show ?case using Cons.IH [OF sys_inv_exec [OF Cons.prems e]] e by simp
qed simp

lemma find_unique:
  assumes "i < n" "P i" "\<And>j. j < n \<Longrightarrow> P j \<Longrightarrow> j = i"
  shows "find P [0..<n] = Some i"
proof (cases "find P [0..<n]")
  case None
  then show ?thesis using assms(1,2) by (auto simp: find_None_iff)
next
  case (Some j)
  then have "j < n" "P j" by (auto simp: find_Some_iff)
  then show ?thesis using assms(3) Some by simp
qed

subsection \<open>Choosing a scheduler\<close>

lemma unat_succ: "unat (c + 1 :: u32) = (if c = - 1 then 0 else Suc (unat c))"
proof (cases "c + 1 = 0")
  case True
  then show ?thesis by (simp add: eq_neg_iff_add_eq_0)
next
  case False
  then show ?thesis using unatSuc [of c] by (auto simp: add.commute eq_neg_iff_add_eq_0)
qed

lemma skip_sched_two:
  assumes "self < 2"
  shows "\<exists>c'. skip_sched 2 self c = Some (c', 1 - self) \<and> unat c' mod 2 = self"
proof -
  have par: "unat (c + 1 :: u32) mod 2 \<noteq> unat c mod 2" for c :: u32
  proof (cases "c = - 1")
    case True
    have "unat (- 1 :: u32) = 4294967295" by (simp add: unat_eq_nat_uint uint_word_ariths)
    then show ?thesis unfolding unat_succ using True by simp
  next
    case False
    then show ?thesis unfolding unat_succ by (simp add: mod_Suc)
  qed
  show ?thesis
  proof (cases "unat c mod 2 = self")
    case True
    have "unat (c + 1) mod 2 = 1 - self" "unat (c + 1 + 1) mod 2 = self"
      using par [of c] par [of "c + 1"] True assms by linarith+
    moreover have "skip_sched 2 self c = skip_sched 2 self (c + 1)" using True by (subst skip_sched.simps) simp
    moreover have "skip_sched 2 self (c + 1) = Some (c + 1 + 1, 1 - self)"
    proof -
      have "1 - self \<noteq> self" using assms by (cases self) auto
      then show ?thesis using calculation(1) by (subst skip_sched.simps) simp
    qed
    ultimately show ?thesis by simp
  next
    case False
    then have "unat c mod 2 = 1 - self" "unat (c + 1) mod 2 = self" using par [of c] assms by linarith+
    then show ?thesis using False by (subst skip_sched.simps) auto
  qed
qed

section \<open>Properties\<close>

text \<open>
  C3. Identifiers name processes: after any history of spawns, exits and returned slots, a lookup by the
  non-zero identifier of a process in use that is not exiting returns exactly that process, no two processes in use
  share an identifier, a slot or a heap block, and a lookup never returns a slot that is not in use.
\<close>

theorem find_by_pid_exact:
  fixes ops :: "proc_op list"
  assumes "sw_arena_init sz mem n m = Some a" "fold proc_exec ops (swarm_start a k, {}) = (s, live)"
  shows "(\<forall>i\<in>live. pr_pid (slab s i) \<noteq> 0 \<and> pr_state (slab s i) \<noteq> SW_PROC_EXITING \<longrightarrow> sw_find_by_pid (pr_pid (slab s i)) s = Some i)
    \<and> (\<forall>i\<in>live. \<forall>j\<in>live. i \<noteq> j \<longrightarrow> pr_pid (slab s i) \<noteq> pr_pid (slab s j) \<and> heap_block_idx (slab s i) \<noteq> heap_block_idx (slab s j))
    \<and> (\<forall>pid i. sw_find_by_pid pid s = Some i \<longrightarrow> i \<in> live \<and> pr_pid (slab s i) = pid)"
proof -
  have i: "sys_inv s live" using sys_inv_run [OF sys_inv_start [OF assms(1)], of ops k] assms(2) by simp
  have cap: "live \<subseteq> {..<proc_capacity (sw_arena_of s)}" using i by (simp add: sys_inv_def arena_inv_def)
  have m: "j \<in> live \<and> pr_pid (slab s j) = pid" if "pid_match s pid j" for pid j
    using that i by (auto simp: sys_inv_def pid_match_def)
  have "sw_find_by_pid (pr_pid (slab s j)) s = Some j"
    if j: "j \<in> live" "pr_pid (slab s j) \<noteq> 0" "pr_state (slab s j) \<noteq> SW_PROC_EXITING" for j
  proof -
    have "find (pid_match s (pr_pid (slab s j))) [0..<proc_capacity (sw_arena_of s)] = Some j"
    proof (rule find_unique)
      show "j < proc_capacity (sw_arena_of s)" using cap j(1) by auto
      show "pid_match s (pr_pid (slab s j)) j" using i j by (simp add: sys_inv_def pid_match_def)
      fix l assume "pid_match s (pr_pid (slab s j)) l"
      then show "l = j" using m [of "pr_pid (slab s j)" l] i j(1) by (auto simp: sys_inv_def inj_on_def)
    qed
    then show ?thesis using j(2) by (simp add: sw_find_by_pid_def)
  qed
  moreover have "i \<in> live \<and> pr_pid (slab s i) = pid" if "sw_find_by_pid pid s = Some i" for pid i
    using that m [of pid i] by (auto simp: sw_find_by_pid_def find_Some_iff split: if_splits)
  ultimately show ?thesis using i by (auto simp: sys_inv_def inj_on_def)
qed

definition demo_run :: "sw_swarm \<times> nat set" where
  "demo_run = fold proc_exec [P_spawn 4096 (Some 65536) 1 0 2, P_spawn 4096 (Some 262144) 1 0 2, P_done 1] (swarm_start demo_arena 2, {})"

theorem find_by_pid_exact_witness:
  "inj_on (\<lambda>i. pr_pid (slab (fst demo_run) i)) (snd demo_run) \<and> inj_on (\<lambda>i. heap_block_idx (slab (fst demo_run) i)) (snd demo_run)
   \<and> {i. sw_find_by_pid 1 (fst demo_run) = Some i} \<subseteq> snd demo_run"
proof -
  obtain s live where e: "demo_run = (s, live)" by (rule prod.exhaust)
  have "sw_arena_init 472 (Some 4096) 2 4 = Some demo_arena" by (simp add: demo_arena_def sw_arena_init_def Let_def)
  note f = find_by_pid_exact [OF this e [unfolded demo_run_def]]
  then have "inj_on (\<lambda>i. pr_pid (slab s i)) live" "inj_on (\<lambda>i. heap_block_idx (slab s i)) live" by (auto intro!: inj_onI)
  then show ?thesis unfolding e using f by auto
qed

text \<open>
  With two schedulers a linked child always lands on its parent's scheduler: \<^verbatim>\<open>sw_spawn_link\<close> advances
  the round-robin counter past the parent's scheduler and stores its choice where \<^verbatim>\<open>sw_spawn_opts\<close> does not
  look; that takes the next value of the counter, which is the parent's scheduler again, for every value of the
  counter. (The code means to force a different scheduler, to avoid a deadlock.)
\<close>

theorem spawn_link_same_scheduler:
  assumes "sys_inv s live" "num_schedulers s = 2" "self < 2"
  shows "\<exists>s' r. spawn_link_child page mem self entry arg s = Some (s', r)
    \<and> (\<forall>i. r = Some i \<longrightarrow> pr_scheduler (slab s' i) = self)"
proof -
  obtain c where c: "skip_sched 2 self (next_sched s) = Some (c, 1 - self)" "unat c mod 2 = self"
    using skip_sched_two [OF assms(3)] by blast
  let ?s = "s\<lparr>next_sched := c\<rparr>"
  have "sys_inv ?s live" using assms(1) by (simp add: sys_inv_def)
  from spawn_opts_result [OF this, of page mem entry arg SW_PRIO_NORMAL]
  have "\<exists>s' r. sw_spawn_opts page mem entry arg SW_PRIO_NORMAL ?s = (s', r) \<and> (\<forall>i. r = Some i \<longrightarrow> pr_scheduler (slab s' i) = self)"
    using c(2) assms(2) by auto
  then show ?thesis using c(1) assms(2) by (simp add: spawn_link_child_def sw_spawn_def)
qed

theorem spawn_link_same_scheduler_witness:
  "\<exists>s' r. spawn_link_child 4096 (Some 65536) 1 7 0 (swarm_start demo_arena 2) = Some (s', r)
    \<and> r \<in> insert None (Some ` {i. pr_scheduler (slab s' i) = 1})"
proof -
  have "sw_arena_init 472 (Some 4096) 2 4 = Some demo_arena" by (simp add: demo_arena_def sw_arena_init_def Let_def)
  from spawn_link_same_scheduler [OF sys_inv_start [OF this, of 2], of 1 4096 "Some 65536" 7 0]
  obtain s' r where "spawn_link_child 4096 (Some 65536) 1 7 0 (swarm_start demo_arena 2) = Some (s', r)"
    "\<forall>i. r = Some i \<longrightarrow> pr_scheduler (slab s' i) = 1" by (auto simp: swarm_start_def)
  then show ?thesis by (cases r) auto
qed

end
