(* ===== verification/Exit.thy ===== *)
theory Exit
  imports Links Registry Timers Ets Proc_Groups Hotload
begin

text \<open>
  \<^verbatim>\<open>process_exit\<close> of \<^verbatim>\<open>src/src/swarmrt_native.c\<close> as a whole: it runs the cleanup of every component that may
  refer to the process, in the order of the code. Each cleanup satisfies the contract \<open>exit_cleanup\<close>, and so
  does their composition.
\<close>

record run_time =
  rt_links :: link_world
  rt_ets :: ets_world
  rt_groups :: pg_table
  rt_modules :: modules
  rt_registry :: sw_registry
  rt_timers :: "nat sw_timer_list"

text \<open>Steps 4 and 6 are skipped when the process's own pointers are null.\<close>

definition exit_ets :: "proc_ref \<Rightarrow> ets_world \<Rightarrow> ets_world" where
  "exit_ets p w = (if ets_tables w p \<noteq> [] then sw_ets_cleanup_owner p w else w)"

definition exit_registry :: "proc_ref \<Rightarrow> sw_registry \<Rightarrow> sw_registry" where
  "exit_registry p rg = (if rg_entry rg p \<noteq> None then registry_remove_proc p rg else rg)"

definition process_exit :: "proc_ref \<Rightarrow> int \<Rightarrow> run_time \<Rightarrow> run_time" where
  "process_exit p reason s =
     (let s = s\<lparr>rt_links := process_exit_signals p reason (rt_links s)\<rparr>;
          s = s\<lparr>rt_ets := exit_ets p (rt_ets s)\<rparr>;
          s = s\<lparr>rt_groups := sw_pg_cleanup_proc p (rt_groups s)\<rparr>;
          s = s\<lparr>rt_modules := sw_module_cleanup_proc p (rt_modules s)\<rparr>
      in s\<lparr>rt_registry := exit_registry p (rt_registry s)\<rparr>)"

text \<open>
  The invariants of the components. That of the registry says that every entry is filed under the hash
  of its stored name, so every name was registered with fewer than 64 characters: the code stores
  a longer name cut off and leaves it behind at exit (\<open>registry_long_name_dangles\<close>).
\<close>

definition rt_inv :: "kmem \<Rightarrow> run_time \<Rightarrow> bool" where
  "rt_inv M s \<longleftrightarrow> link_inv (rt_links s) \<and> ets_inv M (rt_ets s) \<and> pg_inv (rt_groups s) \<and> mod_inv (rt_modules s)
     \<and> reg_inv (rt_registry s)"

definition rt_refers :: "run_time \<Rightarrow> proc_ref \<Rightarrow> bool" where
  "rt_refers s p \<longleftrightarrow> link_refers (rt_links s) p \<or> ets_refers (rt_ets s) p \<or> pg_refers (rt_groups s) p
     \<or> mod_refers (rt_modules s) p \<or> reg_refers (rt_registry s) p"

text \<open>The guards change nothing: a cleanup they skip would have had nothing to do.\<close>

lemma exit_ets_cleanup: "exit_ets p w = sw_ets_cleanup_owner p w"
  by (auto simp: exit_ets_def sw_ets_cleanup_owner_def Let_def fun_upd_idem)

lemma exit_registry_cleanup: "exit_registry p rg = registry_remove_proc p rg"
  by (auto simp: exit_registry_def registry_remove_proc_def)

lemma process_exit_parts:
  "rt_links (process_exit p reason s) = process_exit_signals p reason (rt_links s)"
    "rt_ets (process_exit p reason s) = sw_ets_cleanup_owner p (rt_ets s)"
    "rt_groups (process_exit p reason s) = sw_pg_cleanup_proc p (rt_groups s)"
    "rt_modules (process_exit p reason s) = sw_module_cleanup_proc p (rt_modules s)"
    "rt_registry (process_exit p reason s) = registry_remove_proc p (rt_registry s)"
    "rt_timers (process_exit p reason s) = rt_timers s"
  by (simp_all add: process_exit_def Let_def exit_registry_cleanup exit_ets_cleanup)

text \<open>With at most 256 tables per owner, the size of the array that \<^verbatim>\<open>sw_ets_cleanup_owner\<close> collects them in, the exit is a cleanup.\<close>

interpretation whole_exit: exit_cleanup "\<lambda>s. rt_inv M s \<and> few_tables M (rt_ets s)" rt_refers "\<lambda>p s. process_exit p reason s" for M reason
proof
  fix s p q assume i: "rt_inv M s \<and> few_tables M (rt_ets s)"
  then have c: "link_inv (rt_links s)" "few_tables M (rt_ets s)" "pg_inv (rt_groups s)" "mod_inv (rt_modules s)" "reg_inv (rt_registry s)"
    by (simp_all add: rt_inv_def)
  note parts = process_exit_parts
  show "rt_inv M (process_exit p reason s) \<and> few_tables M (rt_ets (process_exit p reason s))"
    using link_exit.inv_cleanup [OF c(1)] ets_exit.inv_cleanup [OF c(2)] pg_exit.inv_cleanup [OF c(3)]
      module_exit.inv_cleanup [OF c(4)] registry_exit.inv_cleanup [OF c(5)]
    by (simp add: rt_inv_def parts few_tables_def)
  show "\<not> rt_refers (process_exit p reason s) p"
    using link_exit.refers_cleanup [OF c(1)] ets_exit.refers_cleanup [OF c(2)] pg_exit.refers_cleanup [OF c(3)]
      module_exit.refers_cleanup [OF c(4)] registry_exit.refers_cleanup [OF c(5)]
    by (simp add: rt_refers_def parts)
  show "rt_refers (process_exit p reason s) q \<Longrightarrow> rt_refers s q"
    using link_exit.refers_less [OF c(1)] ets_exit.refers_less [OF c(2)] pg_exit.refers_less [OF c(3)]
      module_exit.refers_less [OF c(4)] registry_exit.refers_less [OF c(5)]
    unfolding rt_refers_def parts by blast
qed

section \<open>Properties\<close>

text \<open>
  C9. Exit leaves no trace: after any sequence of processes has exited, in any order and for any reason,
  no link, monitor, table, group, module or registered name refers to any of them, every component is
  still in shape, and nobody else is referred to who was not before. This needs two bounds that the code
  does not enforce: every owner has at most 256 tables (the rest leak, \<open>ets_exit_leaks_tables\<close>) and every
  registered name has fewer than 64 characters (part of \<open>rt_inv\<close>; longer ones stay behind,
  \<open>registry_long_name_dangles\<close>). Timers are not cleaned up by the code and not claimed.
\<close>

theorem exit_leaves_no_reference:
  assumes "rt_inv M s" "\<forall>p. length (ets_tables (rt_ets s) p) \<le> 256"
  shows "rt_inv M (fold (\<lambda>p. process_exit p reason) ps s)
    \<and> (\<forall>p\<in>set ps. \<not> rt_refers (fold (\<lambda>p. process_exit p reason) ps s) p)
    \<and> (\<forall>q. rt_refers (fold (\<lambda>p. process_exit p reason) ps s) q \<longrightarrow> rt_refers s q)"
  using whole_exit.cleanup_all [of M s reason ps] assms by (simp add: few_tables_def rt_inv_def)

definition rt_demo :: run_time where
  "rt_demo = \<lparr>rt_links = demo_links, rt_ets = demo_ets, rt_groups = fst (sw_pg_join ''g'' 1 pg_empty),
     rt_modules = [], rt_registry = fst (sw_register ''srv'' 1 registry_init), rt_timers = timers_init\<rparr>"

lemma rt_demo_inv: "rt_inv demo_mem rt_demo" "\<forall>p. length (ets_tables (rt_ets rt_demo) p) \<le> 256"
proof -
  have "reg_inv (fst (sw_register ''srv'' 1 registry_init))"
    by (rule registry.inv_ops) (simp_all add: registry_init_inv valid_name_def const_simps)
  moreover have "link_inv demo_links" unfolding demo_links_def by (rule link_run_inv [OF link_start_inv])
  ultimately show "rt_inv demo_mem rt_demo"
    by (simp add: rt_inv_def rt_demo_def demo_ets_inv pg_inv_join pg_inv_empty mod_inv_def)
  show "\<forall>p. length (ets_tables (rt_ets rt_demo) p) \<le> 256" using demo_few by (simp add: few_tables_def rt_demo_def)
qed

theorem exit_leaves_no_reference_witness:
  "pg_refers (rt_groups rt_demo) 1 \<and> \<not> rt_refers (process_exit 1 (-1) rt_demo) 1"
proof -
  have "pg_refers (rt_groups rt_demo) 1"
    by (auto simp: rt_demo_def pg_refers_def sw_pg_join_def pg_find_def pg_empty_def pg_add_def pg_create_def set_update_distinct
        intro!: bexI [of _ "[pg_add 1 (pg_create ''g'')]"] set_update_memI)
  then show ?thesis using exit_leaves_no_reference [OF rt_demo_inv, of "-1" "[1]"] by simp
qed

end
