(* ===== verification/Supervisor.thy ===== *)
theory Supervisor
  imports Swarm_Prelude
begin

text \<open>
  The supervisor of \<^verbatim>\<open>src/src/swarmrt_otp.c\<close>: children with restart policies, the three restart
  strategies, and the circuit breaker over a ring of restart times. What the supervisor asks of the
  runtime (start, register, demonitor, unlink, kill) is logged in order; the results of the spawns, a
  process and the reference of its monitor or a failure, are a supply that the model consumes.
\<close>

section \<open>State\<close>

definition SW_MAX_CHILDREN :: nat where [const_simps]: "SW_MAX_CHILDREN = 64"

datatype sw_restart_strategy = SW_ONE_FOR_ONE | SW_ONE_FOR_ALL | SW_REST_FOR_ONE
datatype sw_child_restart = SW_PERMANENT | SW_TEMPORARY | SW_TRANSIENT

record sw_child_spec =
  cs_name :: string
  start_func :: u64
  start_arg :: u64
  cs_restart :: sw_child_restart

record sw_sup_spec =
  sup_strategy :: sw_restart_strategy
  max_restarts :: u32
  max_seconds :: u32
  sup_children :: "sw_child_spec list"

record sw_sup_child =
  ch_spec :: sw_child_spec
  ch_proc :: "proc_ref option"
  monitor_ref :: u64
  ch_alive :: bool

record sw_sup_state =
  st_spec :: sw_sup_spec
  st_children :: "sw_sup_child list"
  restart_times :: "u32 list"
  restart_idx :: u32
  restart_count :: u32

datatype sup_action =
    A_start u64 u64
  | A_register string proc_ref
  | A_demonitor u64
  | A_unlink proc_ref
  | A_kill proc_ref int

record sup_env =
  se_spawns :: "(proc_ref \<times> u64) option list"
  se_log :: "sup_action list"

definition log_act :: "sup_action \<Rightarrow> sup_env \<Rightarrow> sup_env" where
  "log_act a e = e\<lparr>se_log := se_log e @ [a]\<rparr>"

section \<open>Circuit breaker\<close>

text \<open>
  The loop over the ring, from the newest entry back; \<open>n\<close> iterations are left and \<open>i\<close> were made. The
  differences are taken modulo \<open>2\<^sup>3\<^sup>2\<close>, as the unsigned C expressions are.
\<close>

fun breaker_loop :: "sw_sup_state \<Rightarrow> u32 \<Rightarrow> u32 \<Rightarrow> nat \<Rightarrow> nat \<Rightarrow> nat" where
  "breaker_loop st now window i 0 = 0"
| "breaker_loop st now window i (Suc n) =
     (let idx = unat ((restart_idx st - 1 - of_nat i + 64) mod 64)
      in if now - restart_times st ! idx \<le> window then Suc (breaker_loop st now window (Suc i) n) else 0)"

definition sup_check_circuit_breaker :: "u32 \<Rightarrow> sw_sup_state \<Rightarrow> bool" where
  "sup_check_circuit_breaker now st =
     (if max_restarts (st_spec st) = 0 then False
      else let window = (if max_seconds (st_spec st) = 0 then 1 else max_seconds (st_spec st))
           in unat (max_restarts (st_spec st)) \<le> breaker_loop st now window 0 (min (unat (restart_count st)) 64))"

definition sup_record_restart :: "u32 \<Rightarrow> sw_sup_state \<Rightarrow> sw_sup_state" where
  "sup_record_restart now st =
     st\<lparr>restart_times := (restart_times st)[unat (restart_idx st) := now],
        restart_idx := (restart_idx st + 1) mod 64,
        restart_count := (if restart_count st < 64 then restart_count st + 1 else restart_count st)\<rparr>"

section \<open>Children\<close>

definition sup_start_child :: "sw_sup_child \<Rightarrow> sup_env \<Rightarrow> sw_sup_child \<times> sup_env \<times> int" where
  "sup_start_child c e =
     (let e = log_act (A_start (start_func (ch_spec c)) (start_arg (ch_spec c))) e
      in case se_spawns e of
           [] \<Rightarrow> (c\<lparr>ch_proc := None\<rparr>, e, -1)
         | None # rest \<Rightarrow> (c\<lparr>ch_proc := None\<rparr>, e\<lparr>se_spawns := rest\<rparr>, -1)
         | Some (p, ref) # rest \<Rightarrow>
             let c = c\<lparr>ch_proc := Some p, monitor_ref := ref, ch_alive := True\<rparr>;
                 e = e\<lparr>se_spawns := rest\<rparr>;
                 e = (if cs_name (ch_spec c) \<noteq> [] then log_act (A_register (cs_name (ch_spec c)) p) e else e)
             in (c, e, 0))"

definition sup_kill_child :: "sw_sup_child \<Rightarrow> sup_env \<Rightarrow> sw_sup_child \<times> sup_env" where
  "sup_kill_child c e =
     (if \<not> ch_alive c then (c, e)
      else case ch_proc c of
             None \<Rightarrow> (c, e)
           | Some p \<Rightarrow>
               (c\<lparr>ch_alive := False, ch_proc := None\<rparr>,
                log_act (A_kill p (-1)) (log_act (A_unlink p) (log_act (A_demonitor (monitor_ref c)) e))))"

text \<open>The loops over an index range: kill the children that are alive, start those that are not.\<close>

fun kill_range :: "nat list \<Rightarrow> sw_sup_child list \<Rightarrow> sup_env \<Rightarrow> sw_sup_child list \<times> sup_env" where
  "kill_range [] cs e = (cs, e)"
| "kill_range (i # is) cs e =
     (case sup_kill_child (cs ! i) e of (c, e') \<Rightarrow> kill_range is (cs[i := c]) e')"

fun start_range :: "nat list \<Rightarrow> sw_sup_child list \<Rightarrow> sup_env \<Rightarrow> sw_sup_child list \<times> sup_env" where
  "start_range [] cs e = (cs, e)"
| "start_range (i # is) cs e =
     (if ch_alive (cs ! i) then start_range is cs e
      else case sup_start_child (cs ! i) e of (c, e', r) \<Rightarrow> start_range is (cs[i := c]) e')"

fun start_all :: "nat list \<Rightarrow> sw_sup_child list \<Rightarrow> sup_env \<Rightarrow> sw_sup_child list \<times> sup_env" where
  "start_all [] cs e = (cs, e)"
| "start_all (i # is) cs e = (case sup_start_child (cs ! i) e of (c, e', r) \<Rightarrow> start_all is (cs[i := c]) e')"

section \<open>The supervisor process\<close>

datatype sup_fault = Too_many_children nat

text \<open>Start-up: more children than the array has room for is a write outside it.\<close>

definition sup_init_state :: "sw_sup_spec \<Rightarrow> sw_sup_state" where
  "sup_init_state spec =
     \<lparr>st_spec = spec, st_children = map (\<lambda>c. \<lparr>ch_spec = c, ch_proc = None, monitor_ref = 0, ch_alive = False\<rparr>) (sup_children spec),
      restart_times = replicate 64 0, restart_idx = 0, restart_count = 0\<rparr>"

definition sup_start :: "sw_sup_spec \<Rightarrow> sup_env \<Rightarrow> sup_fault + (sw_sup_state \<times> sup_env)" where
  "sup_start spec e =
     (if SW_MAX_CHILDREN < length (sup_children spec) then Inl (Too_many_children (length (sup_children spec)))
      else let st = sup_init_state spec;
               (cs, e) = start_all [0..<length (st_children st)] (st_children st) e
           in Inr (st\<lparr>st_children := cs\<rparr>, e))"

definition sw_supervisor_start :: "(sw_sup_spec \<times> name_buf \<Rightarrow> proc_ref option) \<Rightarrow> string option \<Rightarrow> sw_sup_spec \<Rightarrow> proc_ref option" where
  "sw_supervisor_start spawn name spec = spawn (spec, name_init name)"

definition sw_supervisor_start_link :: "(sw_sup_spec \<times> name_buf \<Rightarrow> proc_ref option) \<Rightarrow> string option \<Rightarrow> sw_sup_spec \<Rightarrow> proc_ref option" where
  "sw_supervisor_start_link spawn_link name spec = spawn_link (spec, name_init name)"

definition should_restart :: "sw_child_restart \<Rightarrow> int \<Rightarrow> bool" where
  "should_restart policy reason =
     (case policy of SW_PERMANENT \<Rightarrow> True | SW_TRANSIENT \<Rightarrow> reason \<noteq> 0 | SW_TEMPORARY \<Rightarrow> False)"

definition child_down :: "u64 \<Rightarrow> sw_sup_child \<Rightarrow> bool" where
  "child_down ref c \<longleftrightarrow> ch_alive c \<and> monitor_ref c = ref"

definition find_child :: "u64 \<Rightarrow> sw_sup_child list \<Rightarrow> nat option" where
  "find_child ref cs = find (\<lambda>i. child_down ref (cs ! i)) [0..<length cs]"

text \<open>The strategies, after the dead child has been marked.\<close>

definition apply_strategy :: "sw_restart_strategy \<Rightarrow> nat \<Rightarrow> sw_sup_child list \<Rightarrow> sup_env \<Rightarrow> sw_sup_child list \<times> sup_env" where
  "apply_strategy strategy idx cs e =
     (let n = length cs
      in case strategy of
           SW_ONE_FOR_ONE \<Rightarrow> (case sup_start_child (cs ! idx) e of (c, e, r) \<Rightarrow> (cs[idx := c], e))
         | SW_ONE_FOR_ALL \<Rightarrow>
             (case kill_range (filter (\<lambda>i. i \<noteq> idx \<and> ch_alive (cs ! i)) [0..<n]) cs e of (cs, e) \<Rightarrow> start_range [0..<n] cs e)
         | SW_REST_FOR_ONE \<Rightarrow>
             (case kill_range (filter (\<lambda>i. ch_alive (cs ! i)) [Suc idx..<n]) cs e of (cs, e) \<Rightarrow> start_range [idx..<n] cs e))"

text \<open>One iteration of the monitor loop; the result says whether the supervisor goes on, and its exit reason if not.\<close>

datatype sup_msg =
    M_killed
  | M_down u64 int
  | M_exit
  | M_stop
  | M_other

datatype sup_next = Sup_goes_on | Sup_ends int

definition sup_down :: "u32 \<Rightarrow> u64 \<Rightarrow> int \<Rightarrow> sw_sup_state \<Rightarrow> sup_env \<Rightarrow> sw_sup_state \<times> sup_env \<times> sup_next" where
  "sup_down now ref reason st e =
     (case find_child ref (st_children st) of
        None \<Rightarrow> (st, e, Sup_goes_on)
      | Some idx \<Rightarrow>
          let child = (st_children st ! idx)\<lparr>ch_alive := False, ch_proc := None\<rparr>;
              st = st\<lparr>st_children := (st_children st)[idx := child]\<rparr>
          in if \<not> should_restart (cs_restart (ch_spec child)) reason then (st, e, Sup_goes_on)
             else if sup_check_circuit_breaker now st then
               (case kill_range [0..<length (st_children st)] (st_children st) e of
                  (cs, e) \<Rightarrow> (st\<lparr>st_children := cs\<rparr>, e, Sup_ends (-2)))
             else
               let st = sup_record_restart now st
               in (case apply_strategy (sup_strategy (st_spec st)) idx (st_children st) e of
                     (cs, e) \<Rightarrow> (st\<lparr>st_children := cs\<rparr>, e, Sup_goes_on)))"

fun sup_step :: "u32 \<Rightarrow> sup_msg \<Rightarrow> sw_sup_state \<Rightarrow> sup_env \<Rightarrow> sw_sup_state \<times> sup_env \<times> sup_next" where
  "sup_step now M_killed st e = (st, e, Sup_ends 0)"
| "sup_step now (M_down ref reason) st e = sup_down now ref reason st e"
| "sup_step now M_exit st e = (st, e, Sup_goes_on)"
| "sup_step now M_stop st e =
     (case kill_range [0..<length (st_children st)] (st_children st) e of (cs, e) \<Rightarrow> (st\<lparr>st_children := cs\<rparr>, e, Sup_ends 0))"
| "sup_step now M_other st e = (st, e, Sup_goes_on)"

section \<open>The restart ring holds the last 64 restart times\<close>

definition sup_wf :: "sw_sup_state \<Rightarrow> bool" where
  "sup_wf st \<longleftrightarrow> length (restart_times st) = 64 \<and> unat (restart_idx st) < 64 \<and> unat (restart_count st) \<le> 64"

definition ring_slot :: "sw_sup_state \<Rightarrow> nat \<Rightarrow> u32" where
  "ring_slot st i = restart_times st ! ((unat (restart_idx st) + 63 - i) mod 64)"

definition restart_history :: "sw_sup_state \<Rightarrow> u32 list" where
  "restart_history st = map (ring_slot st) [0..<unat (restart_count st)]"

lemma length_restart_history [simp]: "length (restart_history st) = unat (restart_count st)"
  by (simp add: restart_history_def)

lemma ring_index:
  assumes "unat (r :: u32) < 64" "i < 64"
  shows "unat ((r - 1 - of_nat i + 64) mod 64) = (unat r + 63 - i) mod 64"
proof -
  have "r - 1 - of_nat i + 64 = of_nat (unat r + 63 - i)"
    using assms by (simp add: of_nat_diff)
  then have "unat (r - 1 - of_nat i + 64) = unat r + 63 - i"
    using assms by (simp only: unat_of_nat) simp
  then show ?thesis by (simp only: unat_mod) simp
qed

lemma breaker_loop_takeWhile:
  assumes "sup_wf st" "i + n \<le> 64"
  shows "breaker_loop st now window i n = length (takeWhile (\<lambda>t. now - t \<le> window) (map (ring_slot st) [i..<i + n]))"
  using assms(2)
proof (induction n arbitrary: i)
  case (Suc n)
  have "unat ((restart_idx st - 1 - of_nat i + 64) mod 64) = (unat (restart_idx st) + 63 - i) mod 64"
    using assms(1) Suc.prems by (intro ring_index) (simp_all add: sup_wf_def)
  moreover have "[i..<i + Suc n] = i # [Suc i..<Suc i + n]" by (simp add: upt_conv_Cons)
  moreover have "breaker_loop st now window (Suc i) n =
      length (takeWhile (\<lambda>t. now - t \<le> window) (map (ring_slot st) [Suc i..<Suc i + n]))"
    using Suc.prems by (intro Suc.IH) simp
  moreover have "restart_times st ! ((unat (restart_idx st) + 63 - i) mod 64) = ring_slot st i" by (simp add: ring_slot_def)
  ultimately show ?case by (simp only: breaker_loop.simps Let_def list.map takeWhile.simps) simp
qed simp

definition breaker_window :: "sw_sup_spec \<Rightarrow> u32" where
  "breaker_window spec = (if max_seconds spec = 0 then 1 else max_seconds spec)"

lemma circuit_breaker_history:
  assumes "sup_wf st"
  shows "sup_check_circuit_breaker now st \<longleftrightarrow> max_restarts (st_spec st) \<noteq> 0 \<and>
    unat (max_restarts (st_spec st)) \<le>
      length (takeWhile (\<lambda>t. now - t \<le> breaker_window (st_spec st)) (restart_history st))"
proof -
  have m: "min (unat (restart_count st)) 64 = unat (restart_count st)" using assms by (simp add: sup_wf_def)
  have "breaker_loop st now (breaker_window (st_spec st)) 0 (min (unat (restart_count st)) 64) =
      length (takeWhile (\<lambda>t. now - t \<le> breaker_window (st_spec st)) (restart_history st))"
    using breaker_loop_takeWhile [OF assms, of 0] assms by (simp add: m restart_history_def sup_wf_def)
  then show ?thesis unfolding sup_check_circuit_breaker_def Let_def breaker_window_def [symmetric] by simp
qed

lemma sup_wf_init [simp]: "sup_wf (sup_init_state spec)"
  by (simp add: sup_wf_def sup_init_state_def)

lemma record_fields:
  assumes "sup_wf st"
  shows "unat (restart_idx (sup_record_restart now st)) = (unat (restart_idx st) + 1) mod 64"
    and "unat (restart_count (sup_record_restart now st)) = min 64 (Suc (unat (restart_count st)))"
proof -
  have "unat (restart_idx st + 1) = unat (restart_idx st) + 1"
    using assms by (simp add: sup_wf_def unat_word_ariths)
  then show "unat (restart_idx (sup_record_restart now st)) = (unat (restart_idx st) + 1) mod 64"
    by (simp add: sup_record_restart_def unat_mod)
  have "unat (restart_count st + 1) = unat (restart_count st) + 1"
    using assms by (simp add: sup_wf_def unat_word_ariths)
  then show "unat (restart_count (sup_record_restart now st)) = min 64 (Suc (unat (restart_count st)))"
    using assms by (auto simp: sup_record_restart_def sup_wf_def word_less_nat_alt)
qed

lemma sup_wf_record:
  assumes "sup_wf st"
  shows "sup_wf (sup_record_restart now st)"
  using assms record_fields [OF assms, of now] by (simp add: sup_wf_def) (simp add: sup_record_restart_def)

lemma record_slot:
  assumes "sup_wf st" "i < 64"
  shows "ring_slot (sup_record_restart now st) i = (case i of 0 \<Rightarrow> now | Suc j \<Rightarrow> ring_slot st j)"
proof -
  let ?r = "unat (restart_idx st)"
  have r: "?r < 64" "length (restart_times st) = 64" using assms(1) by (simp_all add: sup_wf_def)
  have times: "restart_times (sup_record_restart now st) = (restart_times st)[?r := now]"
    by (simp add: sup_record_restart_def)
  have idx: "((?r + 1) mod 64 + 63 - i) mod 64 = (?r + 64 - i) mod 64"
    using r assms(2) by (cases "?r = 63") (auto simp: mod_if)
  show ?thesis
  proof (cases i)
    case 0
    then have "((?r + 1) mod 64 + 63 - i) mod 64 = ?r" using idx r by simp
    then show ?thesis using 0 r by (simp add: ring_slot_def times record_fields(1) [OF assms(1)])
  next
    case (Suc j)
    have "(?r + 64 - i) mod 64 \<noteq> ?r" using r assms(2) Suc by (cases "i \<le> ?r") (auto simp: mod_if)
    moreover have "(?r + 64 - i) mod 64 = (?r + 63 - j) mod 64" using Suc by (simp add: add.commute)
    ultimately have "((restart_times st)[?r := now]) ! (((?r + 1) mod 64 + 63 - i) mod 64) = restart_times st ! ((?r + 63 - j) mod 64)"
      unfolding idx by simp
    then show ?thesis unfolding ring_slot_def times record_fields(1) [OF assms(1)] by (simp only: Suc nat.case)
  qed
qed

lemma restart_history_record:
  assumes "sup_wf st"
  shows "restart_history (sup_record_restart now st) = take 64 (now # restart_history st)"
proof (rule nth_equalityI)
  show "length (restart_history (sup_record_restart now st)) = length (take 64 (now # restart_history st))"
    by (simp add: record_fields(2) [OF assms])
next
  fix i assume "i < length (restart_history (sup_record_restart now st))"
  then have i: "i < 64" "i < Suc (unat (restart_count st))" by (simp_all add: record_fields(2) [OF assms])
  then have "restart_history (sup_record_restart now st) ! i = ring_slot (sup_record_restart now st) i"
    by (simp add: restart_history_def record_fields(2) [OF assms] del: upt_Suc)
  then show "restart_history (sup_record_restart now st) ! i = take 64 (now # restart_history st) ! i"
    using i record_slot [OF assms i(1), of now] by (cases i) (simp_all add: restart_history_def)
qed

section \<open>Runs of the supervisor and the restart intensity\<close>

text \<open>A message makes the supervisor restart children when it reports a child whose policy asks for it and the breaker holds.\<close>

fun sup_restarts :: "u32 \<Rightarrow> sup_msg \<Rightarrow> sw_sup_state \<Rightarrow> bool" where
  "sup_restarts now (M_down ref reason) st =
     (case find_child ref (st_children st) of
        None \<Rightarrow> False
      | Some idx \<Rightarrow> should_restart (cs_restart (ch_spec (st_children st ! idx))) reason \<and> \<not> sup_check_circuit_breaker now st)"
| "sup_restarts now _ st = False"

text \<open>The messages the supervisor takes, with the clock at each, up to its end; the restart times are collected.\<close>

fun sup_run :: "(u32 \<times> sup_msg) list \<Rightarrow> sw_sup_state \<Rightarrow> sup_env \<Rightarrow> u32 list \<times> sw_sup_state \<times> sup_env" where
  "sup_run [] st e = ([], st, e)"
| "sup_run ((now, m) # ms) st e =
     (let rs = (if sup_restarts now m st then [now] else [])
      in case sup_step now m st e of
           (st', e', Sup_goes_on) \<Rightarrow> (case sup_run ms st' e' of (ts, r) \<Rightarrow> (rs @ ts, r))
         | (st', e', Sup_ends _) \<Rightarrow> (rs, st', e'))"

lemma breaker_children [simp]: "sup_check_circuit_breaker now (st\<lparr>st_children := cs\<rparr>) = sup_check_circuit_breaker now st"
proof -
  have "breaker_loop (st\<lparr>st_children := cs\<rparr>) now w i n = breaker_loop st now w i n" for w i n
    by (induction n arbitrary: i) (simp_all add: Let_def)
  then show ?thesis by (simp add: sup_check_circuit_breaker_def)
qed

lemma history_children [simp]: "restart_history (st\<lparr>st_children := cs\<rparr>) = restart_history st"
  by (simp add: restart_history_def ring_slot_def cong: map_cong)

lemma sup_wf_children [simp]: "sup_wf (st\<lparr>st_children := cs\<rparr>) = sup_wf st"
  by (simp add: sup_wf_def)

lemma record_children: "sup_record_restart now (st\<lparr>st_children := cs\<rparr>) = (sup_record_restart now st)\<lparr>st_children := cs\<rparr>"
  by (simp add: sup_record_restart_def)

lemma record_spec [simp]: "st_spec (sup_record_restart now st) = st_spec st"
  by (simp add: sup_record_restart_def)

lemma same_children: "\<exists>cs. st = st\<lparr>st_children := cs\<rparr>"
  by (rule exI [of _ "st_children st"]) simp

lemma find_child_less: "find_child ref cs = Some idx \<Longrightarrow> idx < length cs"
  by (auto simp: find_child_def find_Some_iff)

lemma sup_step_fields:
  assumes "sup_step now m st e = (st', e', r)"
  shows "\<exists>cs. st' = (if sup_restarts now m st then sup_record_restart now st else st)\<lparr>st_children := cs\<rparr>"
proof (cases m)
  case (M_down ref reason)
  show ?thesis
  proof (cases "find_child ref (st_children st)")
    case None
    then show ?thesis using assms M_down by (simp add: sup_down_def same_children)
  next
    case (Some idx)
    then show ?thesis using assms M_down find_child_less [OF Some]
      by (auto simp: sup_down_def Let_def record_children split: if_splits prod.splits)
  qed
qed (use assms in \<open>auto simp: same_children split: prod.splits\<close>)

definition intensity_ok :: "sw_sup_spec \<Rightarrow> u32 list \<Rightarrow> bool" where
  "intensity_ok spec ts \<longleftrightarrow>
     (\<forall>i. i + unat (max_restarts spec) < length ts \<longrightarrow> breaker_window spec < ts ! (i + unat (max_restarts spec)) - ts ! i)"

text \<open>What the supervisor knows of the restarts so far, and that the limit holds for them.\<close>

definition intensity_inv :: "sw_sup_spec \<Rightarrow> u32 list \<Rightarrow> sw_sup_state \<Rightarrow> bool" where
  "intensity_inv spec hs st \<longleftrightarrow> sup_wf st \<and> st_spec st = spec \<and> restart_history st = take 64 (rev hs) \<and> sorted hs \<and> intensity_ok spec hs"

lemma sub_le_mono_word:
  fixes now t t' :: u32
  assumes "t' \<le> t" "t \<le> now" "w < now - t"
  shows "w < now - t'"
proof -
  have "unat (now - t) = unat now - unat t" using assms(2) by (rule unat_sub)
  moreover have "unat (now - t') = unat now - unat t'" using order_trans [OF assms(1,2)] by (rule unat_sub)
  ultimately show ?thesis using assms by (simp add: word_less_nat_alt word_le_nat_alt)
qed

lemma breaker_open_spaced:
  assumes inv: "intensity_inv spec hs st" and open_: "\<not> sup_check_circuit_breaker now st"
    and lim: "max_restarts spec \<noteq> 0" "unat (max_restarts spec) \<le> 64" and mono: "\<forall>t\<in>set hs. t \<le> now"
    and len: "unat (max_restarts spec) \<le> length hs"
  shows "breaker_window spec < now - hs ! (length hs - unat (max_restarts spec))"
proof -
  let ?m = "unat (max_restarts spec)" and ?P = "\<lambda>t. now - t \<le> breaker_window spec"
  have "length (takeWhile ?P (take 64 (rev hs))) < ?m"
    using open_ lim inv circuit_breaker_history [of st now] by (simp add: intensity_inv_def)
  moreover define j where "j = length (takeWhile ?P (take 64 (rev hs)))"
  ultimately have j: "j < ?m" by simp
  then have jl: "j < length (take 64 (rev hs))" using lim len by simp
  have "\<not> ?P (take 64 (rev hs) ! j)" unfolding j_def using jl by (intro nth_length_takeWhile) (simp add: j_def)
  moreover have "take 64 (rev hs) ! j = hs ! (length hs - Suc j)" using jl by (simp add: rev_nth)
  ultimately have far: "breaker_window spec < now - hs ! (length hs - Suc j)" by simp
  have "0 < ?m" using j by simp
  then have "hs ! (length hs - ?m) \<le> hs ! (length hs - Suc j)"
    using inv j len by (intro sorted_nth_mono) (auto simp: intensity_inv_def)
  moreover have "hs ! (length hs - Suc j) \<in> set hs" using jl by (intro nth_mem) auto
  then have "hs ! (length hs - Suc j) \<le> now" using mono by blast
  ultimately show ?thesis using far by (rule sub_le_mono_word)
qed

lemma intensity_record:
  assumes inv: "intensity_inv spec hs st" and open_: "\<not> sup_check_circuit_breaker now st"
    and lim: "max_restarts spec \<noteq> 0" "unat (max_restarts spec) \<le> 64" and mono: "\<forall>t\<in>set hs. t \<le> now"
  shows "intensity_inv spec (hs @ [now]) (sup_record_restart now st)"
proof -
  have "intensity_ok spec (hs @ [now])"
    unfolding intensity_ok_def
  proof (intro allI impI)
    fix i assume i: "i + unat (max_restarts spec) < length (hs @ [now])"
    show "breaker_window spec < (hs @ [now]) ! (i + unat (max_restarts spec)) - (hs @ [now]) ! i"
    proof (cases "i + unat (max_restarts spec) = length hs")
      case True
      then have "i = length hs - unat (max_restarts spec)" by simp
      moreover have "i < length hs" using True lim(1) by (simp add: unat_gt_0 flip: True)
      ultimately show ?thesis using True breaker_open_spaced [OF inv open_ lim mono] by (simp add: nth_append)
    next
      case False
      then show ?thesis using i inv by (simp add: intensity_inv_def intensity_ok_def nth_append)
    qed
  qed
  then show ?thesis using inv mono restart_history_record [of st now]
    by (simp add: intensity_inv_def sup_wf_record sorted_append take_Cons')
qed

lemma intensity_step:
  assumes inv: "intensity_inv spec hs st" and lim: "max_restarts spec \<noteq> 0" "unat (max_restarts spec) \<le> 64"
    and mono: "\<forall>t\<in>set hs. t \<le> now" and step: "sup_step now m st e = (st', e', r)"
  shows "intensity_inv spec (hs @ (if sup_restarts now m st then [now] else [])) st'"
proof -
  obtain cs where st': "st' = (if sup_restarts now m st then sup_record_restart now st else st)\<lparr>st_children := cs\<rparr>"
    using sup_step_fields [OF step] by blast
  have frame: "intensity_inv spec ts (s\<lparr>st_children := cs\<rparr>) = intensity_inv spec ts s" for ts s
    by (simp add: intensity_inv_def)
  show ?thesis
  proof (cases "sup_restarts now m st")
    case True
    then have "\<not> sup_check_circuit_breaker now st" by (cases m) (simp_all split: option.splits)
    then show ?thesis using True intensity_record [OF inv _ lim mono] by (simp add: st' frame)
  next
    case False
    then show ?thesis using inv by (simp add: st' frame)
  qed
qed

lemma intensity_run:
  assumes "intensity_inv spec hs st" "max_restarts spec \<noteq> 0" "unat (max_restarts spec) \<le> 64"
    and "sorted (hs @ map fst ms)"
  shows "intensity_ok spec (hs @ fst (sup_run ms st e))"
  using assms
proof (induction ms arbitrary: hs st e)
  case Nil
  then show ?case by (simp add: intensity_inv_def)
next
  case (Cons x ms)
  obtain now m where x: "x = (now, m)" by (cases x)
  obtain st' e' r where step: "sup_step now m st e = (st', e', r)" by (cases "sup_step now m st e") auto
  let ?rs = "if sup_restarts now m st then [now] else []"
  have mono: "\<forall>t\<in>set hs. t \<le> now" using Cons.prems(4) by (simp add: x sorted_append)
  have inv': "intensity_inv spec (hs @ ?rs) st'"
    by (rule intensity_step [OF Cons.prems(1-3) mono step])
  show ?case
  proof (cases r)
    case Sup_goes_on
    have "sorted ((hs @ ?rs) @ map fst ms)" using Cons.prems(4) by (auto simp: x sorted_append)
    then have "intensity_ok spec ((hs @ ?rs) @ fst (sup_run ms st' e'))"
      by (rule Cons.IH [OF inv' Cons.prems(2,3)])
    then show ?thesis by (cases "sup_run ms st' e'") (simp add: x step Sup_goes_on Let_def)
  next
    case (Sup_ends k)
    then show ?thesis using inv' by (simp add: x step intensity_inv_def)
  qed
qed

section \<open>Restart strategies\<close>

text \<open>The children a strategy replaces, in the order the code starts them.\<close>

definition restart_set :: "sw_restart_strategy \<Rightarrow> nat \<Rightarrow> nat \<Rightarrow> nat list" where
  "restart_set strategy idx n =
     (case strategy of SW_ONE_FOR_ONE \<Rightarrow> [idx] | SW_ONE_FOR_ALL \<Rightarrow> [0..<n] | SW_REST_FOR_ONE \<Rightarrow> [idx..<n])"

definition children_wf :: "sw_sup_child list \<Rightarrow> bool" where
  "children_wf cs \<longleftrightarrow> (\<forall>c\<in>set cs. ch_alive c \<longleftrightarrow> ch_proc c \<noteq> None)"

definition stopped :: "sw_sup_child \<Rightarrow> sw_sup_child" where
  "stopped c = c\<lparr>ch_alive := False, ch_proc := None\<rparr>"

definition started :: "proc_ref \<times> u64 \<Rightarrow> sw_sup_child \<Rightarrow> sw_sup_child" where
  "started x c = c\<lparr>ch_proc := Some (fst x), monitor_ref := snd x, ch_alive := True\<rparr>"

definition kill_acts :: "sw_sup_child \<Rightarrow> sup_action list" where
  "kill_acts c = [A_demonitor (monitor_ref c), A_unlink (the (ch_proc c)), A_kill (the (ch_proc c)) (-1)]"

definition start_acts :: "proc_ref \<times> u64 \<Rightarrow> sw_sup_child \<Rightarrow> sup_action list" where
  "start_acts x c = A_start (start_func (ch_spec c)) (start_arg (ch_spec c)) #
     (if cs_name (ch_spec c) = [] then [] else [A_register (cs_name (ch_spec c)) (fst x)])"

lemma started_stopped [simp]: "started x (stopped c) = started x c"
  by (simp add: started_def stopped_def)

lemma start_acts_stopped [simp]: "start_acts x (stopped c) = start_acts x c"
  by (simp add: start_acts_def stopped_def)

lemma stopped_alive [simp]: "\<not> ch_alive (stopped c)"
  by (simp add: stopped_def)

lemma started_alive [simp]: "ch_alive (started x c)" "ch_spec (started x c) = ch_spec c" "ch_proc (started x c) = Some (fst x)"
  by (simp_all add: started_def)

lemma kill_child_alive:
  assumes "ch_alive c" "ch_proc c \<noteq> None"
  shows "sup_kill_child c e = (stopped c, e\<lparr>se_log := se_log e @ kill_acts c\<rparr>)"
  using assms by (auto simp: sup_kill_child_def stopped_def kill_acts_def log_act_def)

lemma start_child_ok:
  assumes "se_spawns e = Some x # rest"
  shows "sup_start_child c e = (started x c, e\<lparr>se_spawns := rest, se_log := se_log e @ start_acts x c\<rparr>, 0)"
  using assms by (cases x) (simp add: sup_start_child_def started_def start_acts_def log_act_def Let_def)

lemma kill_range_alive:
  assumes "distinct is" "\<forall>i\<in>set is. i < length cs \<and> ch_alive (cs ! i) \<and> ch_proc (cs ! i) \<noteq> None"
  shows "kill_range is cs e =
    (map (\<lambda>i. if i \<in> set is then stopped (cs ! i) else cs ! i) [0..<length cs],
     e\<lparr>se_log := se_log e @ concat (map (\<lambda>i. kill_acts (cs ! i)) is)\<rparr>)"
  using assms
proof (induction "is" arbitrary: cs e)
  case Nil
  then show ?case by (simp add: map_nth)
next
  case (Cons i "is")
  have kill: "sup_kill_child (cs ! i) e = (stopped (cs ! i), e\<lparr>se_log := se_log e @ kill_acts (cs ! i)\<rparr>)"
    using Cons.prems by (intro kill_child_alive) auto
  let ?cs = "cs[i := stopped (cs ! i)]" and ?e = "e\<lparr>se_log := se_log e @ kill_acts (cs ! i)\<rparr>"
  have same: "j \<in> set is \<Longrightarrow> ?cs ! j = cs ! j" for j using Cons.prems(1) by (intro nth_list_update_neq) auto
  have "kill_range is ?cs ?e = (map (\<lambda>j. if j \<in> set is then stopped (?cs ! j) else ?cs ! j) [0..<length ?cs],
     ?e\<lparr>se_log := se_log ?e @ concat (map (\<lambda>j. kill_acts (?cs ! j)) is)\<rparr>)"
    using Cons.prems by (intro Cons.IH) (auto simp: same)
  moreover have "map (\<lambda>j. kill_acts (?cs ! j)) is = map (\<lambda>j. kill_acts (cs ! j)) is"
    using same by (intro map_cong) simp_all
  moreover have "(if j \<in> set is then stopped (?cs ! j) else ?cs ! j) = (if j \<in> set (i # is) then stopped (cs ! j) else cs ! j)"
    if "j < length cs" for j using that Cons.prems(1) by (auto simp: nth_list_update same)
  ultimately show ?case by (simp add: kill cong: map_cong)
qed

lemma start_range_dead:
  assumes "distinct is" "\<forall>i\<in>set is. i < length cs \<and> \<not> ch_alive (cs ! i)"
    and "se_spawns e = map Some ps @ rest" "length ps = length is"
  shows "start_range is cs e =
    (map (\<lambda>i. case map_of (zip is ps) i of None \<Rightarrow> cs ! i | Some x \<Rightarrow> started x (cs ! i)) [0..<length cs],
     e\<lparr>se_spawns := rest, se_log := se_log e @ concat (map (\<lambda>(i, x). start_acts x (cs ! i)) (zip is ps))\<rparr>)"
  using assms
proof (induction "is" arbitrary: cs e ps)
  case Nil
  then show ?case by (simp add: map_nth)
next
  case (Cons i "is")
  then obtain x qs where ps: "ps = x # qs" by (cases ps) auto
  let ?cs = "cs[i := started x (cs ! i)]"
    and ?e = "e\<lparr>se_spawns := map Some qs @ rest, se_log := se_log e @ start_acts x (cs ! i)\<rparr>"
  have start: "sup_start_child (cs ! i) e = (started x (cs ! i), ?e, 0)"
    using Cons.prems ps by (intro start_child_ok) simp
  have i: "i < length cs" "\<not> ch_alive (cs ! i)" "i \<notin> set is" using Cons.prems(1,2) by auto
  have same: "j \<in> set is \<Longrightarrow> ?cs ! j = cs ! j" for j using i(3) by (intro nth_list_update_neq) auto
  have IH: "start_range is ?cs ?e = (map (\<lambda>j. case map_of (zip is qs) j of None \<Rightarrow> ?cs ! j | Some x \<Rightarrow> started x (?cs ! j)) [0..<length ?cs],
     ?e\<lparr>se_spawns := rest, se_log := se_log ?e @ concat (map (\<lambda>(j, x). start_acts x (?cs ! j)) (zip is qs))\<rparr>)"
    using Cons.prems ps i by (intro Cons.IH) (auto simp: same)
  have acts: "map (\<lambda>(j, x). start_acts x (?cs ! j)) (zip is qs) = map (\<lambda>(j, x). start_acts x (cs ! j)) (zip is qs)"
    by (intro map_cong) (auto simp: same dest: set_zip_leftD)
  have none: "map_of (zip is qs) i = None" using i(3) by (auto simp: map_of_eq_None_iff dest: set_zip_leftD)
  have "(case map_of (zip is qs) j of None \<Rightarrow> ?cs ! j | Some x \<Rightarrow> started x (?cs ! j)) =
      (case map_of (zip (i # is) ps) j of None \<Rightarrow> cs ! j | Some x \<Rightarrow> started x (cs ! j))"
    if "j < length cs" for j using that i none by (auto simp: ps nth_list_update split: option.splits)
  then have "map (\<lambda>j. case map_of (zip is qs) j of None \<Rightarrow> ?cs ! j | Some x \<Rightarrow> started x (?cs ! j)) [0..<length cs] =
      map (\<lambda>j. case map_of (zip (i # is) ps) j of None \<Rightarrow> cs ! j | Some x \<Rightarrow> started x (cs ! j)) [0..<length cs]"
    by (intro map_cong) simp_all
  then show ?case using i by (simp only: start_range.simps start IH acts if_False prod.case length_list_update) (simp add: ps)
qed

definition replaced :: "nat list \<Rightarrow> (proc_ref \<times> u64) list \<Rightarrow> sw_sup_child list \<Rightarrow> sw_sup_child list" where
  "replaced R ps cs = map (\<lambda>i. case map_of (zip R ps) i of None \<Rightarrow> cs ! i | Some x \<Rightarrow> started x (cs ! i)) [0..<length cs]"

definition replace_log :: "nat list \<Rightarrow> (proc_ref \<times> u64) list \<Rightarrow> sw_sup_child list \<Rightarrow> sup_action list" where
  "replace_log R ps cs =
     concat (map (\<lambda>i. kill_acts (cs ! i)) (filter (\<lambda>i. ch_alive (cs ! i)) R)) @
     concat (map (\<lambda>(i, x). start_acts x (cs ! i)) (zip R ps))"

lemma kill_then_start:
  assumes wf: "children_wf cs" and R: "distinct R" "set R \<subseteq> {..<length cs}"
    and sup: "se_spawns e = map Some ps @ rest" "length ps = length R"
  shows "(case kill_range (filter (\<lambda>i. ch_alive (cs ! i)) R) cs e of (cs, e) \<Rightarrow> start_range R cs e) =
    (replaced R ps cs, e\<lparr>se_spawns := rest, se_log := se_log e @ replace_log R ps cs\<rparr>)"
proof -
  let ?K = "filter (\<lambda>i. ch_alive (cs ! i)) R"
  let ?cs = "map (\<lambda>i. if i \<in> set ?K then stopped (cs ! i) else cs ! i) [0..<length cs]"
  let ?e = "e\<lparr>se_log := se_log e @ concat (map (\<lambda>i. kill_acts (cs ! i)) ?K)\<rparr>"
  have kill: "kill_range ?K cs e = (?cs, ?e)"
    using wf R by (intro kill_range_alive) (auto simp: children_wf_def subset_iff)
  have nth: "i < length cs \<Longrightarrow> ?cs ! i = (if i \<in> set ?K then stopped (cs ! i) else cs ! i)" for i by simp
  have start: "start_range R ?cs ?e = (map (\<lambda>i. case map_of (zip R ps) i of None \<Rightarrow> ?cs ! i | Some x \<Rightarrow> started x (?cs ! i)) [0..<length ?cs],
     ?e\<lparr>se_spawns := rest, se_log := se_log ?e @ concat (map (\<lambda>(i, x). start_acts x (?cs ! i)) (zip R ps))\<rparr>)"
    using R sup by (intro start_range_dead) (auto simp: subset_iff)
  have acts: "map (\<lambda>(i, x). start_acts x (?cs ! i)) (zip R ps) = map (\<lambda>(i, x). start_acts x (cs ! i)) (zip R ps)"
  proof (intro map_cong refl)
    fix z assume "z \<in> set (zip R ps)"
    then have "fst z \<in> set R" using set_zip_leftD [of "fst z" "snd z" R ps] by simp
    then have "fst z < length cs" using R(2) by blast
    then show "(case z of (i, x) \<Rightarrow> start_acts x (?cs ! i)) = (case z of (i, x) \<Rightarrow> start_acts x (cs ! i))"
      by (cases z) (simp only: prod.case fst_conv nth, simp)
  qed
  have "(case map_of (zip R ps) i of None \<Rightarrow> ?cs ! i | Some x \<Rightarrow> started x (?cs ! i)) =
      (case map_of (zip R ps) i of None \<Rightarrow> cs ! i | Some x \<Rightarrow> started x (cs ! i))" if "i < length cs" for i
  proof (cases "map_of (zip R ps) i")
    case None
    then have "i \<notin> set R" using sup(2) by (simp add: map_of_zip_is_None)
    then show ?thesis using None that by (simp only: option.case nth [OF that]) simp
  next
    case (Some x)
    then show ?thesis by (simp only: option.case nth [OF that]) simp
  qed
  then have "map (\<lambda>i. case map_of (zip R ps) i of None \<Rightarrow> ?cs ! i | Some x \<Rightarrow> started x (?cs ! i)) [0..<length ?cs] = replaced R ps cs"
    unfolding replaced_def by (intro map_cong) simp_all
  then show ?thesis unfolding kill prod.case start acts by (simp add: replace_log_def)
qed

lemma apply_strategy_replaces:
  assumes wf: "children_wf cs" and idx: "idx < length cs" "\<not> ch_alive (cs ! idx)"
    and R: "R = restart_set strategy idx (length cs)"
    and sup: "se_spawns e = map Some ps @ rest" "length ps = length R"
  shows "apply_strategy strategy idx cs e =
    (replaced R ps cs, e\<lparr>se_spawns := rest, se_log := se_log e @ replace_log R ps cs\<rparr>)"
proof -
  have "distinct R" "set R \<subseteq> {..<length cs}"
    using idx by (auto simp: R restart_set_def split: sw_restart_strategy.splits)
  note main = kill_then_start [OF wf this sup]
  have "apply_strategy strategy idx cs e =
      (case kill_range (filter (\<lambda>i. ch_alive (cs ! i)) R) cs e of (cs, e) \<Rightarrow> start_range R cs e)"
  proof (cases strategy)
    case SW_ONE_FOR_ONE
    then show ?thesis using idx by (simp add: apply_strategy_def R restart_set_def Let_def)
  next
    case SW_ONE_FOR_ALL
    have "filter (\<lambda>i. i \<noteq> idx \<and> ch_alive (cs ! i)) [0..<length cs] = filter (\<lambda>i. ch_alive (cs ! i)) [0..<length cs]"
      using idx by (intro filter_cong) auto
    then show ?thesis using SW_ONE_FOR_ALL by (simp add: apply_strategy_def R restart_set_def Let_def)
  next
    case SW_REST_FOR_ONE
    have "filter (\<lambda>i. ch_alive (cs ! i)) [Suc idx..<length cs] = filter (\<lambda>i. ch_alive (cs ! i)) [idx..<length cs]"
      using idx by (simp add: upt_conv_Cons)
    then show ?thesis using SW_REST_FOR_ONE by (simp add: apply_strategy_def R restart_set_def Let_def)
  qed
  then show ?thesis by (simp only: main)
qed

lemma children_wf_stopped: "children_wf cs \<Longrightarrow> children_wf (cs[i := stopped c])"
  by (auto simp: children_wf_def stopped_def dest: set_update_subset_insert [THEN subsetD])

lemma find_child_unique:
  assumes "i < length cs" "child_down ref (cs ! i)" "\<And>j. j < length cs \<Longrightarrow> child_down ref (cs ! j) \<Longrightarrow> j = i"
  shows "find_child ref cs = Some i"
proof -
  have "find_child ref cs \<noteq> None" using assms(1,2) by (auto simp: find_child_def find_None_iff)
  then obtain k where k: "find_child ref cs = Some k" by blast
  then have "child_down ref (cs ! k)" by (auto simp: find_child_def find_Some_iff)
  then show ?thesis using k assms(3) find_child_less [OF k] by simp
qed

section \<open>Properties\<close>


definition demo_spec :: sw_sup_spec where
  "demo_spec = \<lparr>sup_strategy = SW_ONE_FOR_ONE, max_restarts = 1, max_seconds = 5,
     sup_children = [\<lparr>cs_name = ''w'', start_func = 7, start_arg = 0, cs_restart = SW_PERMANENT\<rparr>]\<rparr>"

definition demo_env :: sup_env where
  "demo_env = \<lparr>se_spawns = [Some (3, 100), Some (4, 101), Some (5, 102)], se_log = []\<rparr>"

definition demo_msgs :: "(u32 \<times> sup_msg) list" where
  "demo_msgs = [(10, M_down 100 (-1)), (20, M_down 101 0), (21, M_down 102 0)]"

definition demo_state :: "sw_sup_state \<times> sup_env" where
  "demo_state = (case sup_start demo_spec demo_env of Inr r \<Rightarrow> r | Inl _ \<Rightarrow> (sup_init_state demo_spec, demo_env))"

lemma demo_start: "sup_start demo_spec demo_env = Inr (fst demo_state, snd demo_state)"
  by code_simp

lemma demo_run: "fst (sup_run demo_msgs (fst demo_state) (snd demo_state)) = [10, 20]"
  by code_simp


text \<open>
  C15. A child reported dead whose policy asks for a restart, with the breaker closed: exactly the children of
  the strategy's set are replaced, each by the process started for it, the living ones among them after a
  demonitor, an unlink and a kill, in that order and before the first start; every other child is untouched.
  The policy of each child that is started asks for it, given how it ended: the reported child for the
  reported reason, the others by the kill. No child of the set is temporary, and a transient one
  is still alive: the code does not look at the policies of the other children of the set and starts
  these too (\<open>temporary_child_restarted\<close>).
\<close>

theorem supervisor_strategy_exact:
  assumes wf: "children_wf (st_children st)" and i: "i < length (st_children st)"
    and down: "child_down ref (st_children st ! i)"
    and uniq: "\<forall>j<length (st_children st). child_down ref (st_children st ! j) \<longrightarrow> j = i"
    and again: "should_restart (cs_restart (ch_spec (st_children st ! i))) reason"
    and closed: "\<not> sup_check_circuit_breaker now st"
    and R: "R = restart_set (sup_strategy (st_spec st)) i (length (st_children st))"
    and policies: "\<forall>j\<in>set R. cs_restart (ch_spec (st_children st ! j)) = SW_PERMANENT
        \<or> cs_restart (ch_spec (st_children st ! j)) = SW_TRANSIENT \<and> ch_alive (st_children st ! j)"
    and sup: "se_spawns e = map Some ps @ rest" "length ps = length R"
  shows "sup_step now (M_down ref reason) st e =
    ((sup_record_restart now st)\<lparr>st_children := replaced R ps ((st_children st)[i := stopped (st_children st ! i)])\<rparr>,
     e\<lparr>se_spawns := rest, se_log := se_log e @ replace_log R ps ((st_children st)[i := stopped (st_children st ! i)])\<rparr>,
     Sup_goes_on)
    \<and> (\<forall>j\<in>set R. should_restart (cs_restart (ch_spec (st_children st ! j))) (if j = i then reason else -1))"
proof -
  let ?cs = "(st_children st)[i := stopped (st_children st ! i)]"
  have find: "find_child ref (st_children st) = Some i"
    using uniq by (intro find_child_unique [OF i down]) blast
  have "apply_strategy (sup_strategy (st_spec st)) i ?cs e =
      (replaced R ps ?cs, e\<lparr>se_spawns := rest, se_log := se_log e @ replace_log R ps ?cs\<rparr>)"
    using wf i R sup by (intro apply_strategy_replaces) (simp_all add: children_wf_stopped)
  then have "sup_step now (M_down ref reason) st e =
      ((sup_record_restart now st)\<lparr>st_children := replaced R ps ?cs\<rparr>,
       e\<lparr>se_spawns := rest, se_log := se_log e @ replace_log R ps ?cs\<rparr>, Sup_goes_on)"
    using find again closed by (simp add: sup_down_def Let_def stopped_def record_children)
  then show ?thesis using again policies by (auto simp: should_restart_def)
qed

definition demo3_spec :: "sw_restart_strategy \<Rightarrow> sw_child_restart \<Rightarrow> sw_sup_spec" where
  "demo3_spec strategy last_policy = \<lparr>sup_strategy = strategy, max_restarts = 3, max_seconds = 5,
     sup_children = [\<lparr>cs_name = [], start_func = 7, start_arg = 0, cs_restart = SW_PERMANENT\<rparr>,
                     \<lparr>cs_name = [], start_func = 8, start_arg = 0, cs_restart = SW_TRANSIENT\<rparr>,
                     \<lparr>cs_name = [], start_func = 9, start_arg = 0, cs_restart = last_policy\<rparr>]\<rparr>"

definition demo3 :: "sw_restart_strategy \<Rightarrow> sw_child_restart \<Rightarrow> sw_sup_state \<times> sup_env" where
  "demo3 strategy last_policy =
     (case sup_start (demo3_spec strategy last_policy)
             \<lparr>se_spawns = [Some (3, 100), Some (4, 101), Some (5, 102), Some (6, 103), Some (7, 104), Some (8, 105)], se_log = []\<rparr> of
        Inr r \<Rightarrow> r | Inl _ \<Rightarrow> (sup_init_state (demo3_spec strategy last_policy), \<lparr>se_spawns = [], se_log = []\<rparr>))"

lemma st_children_upd: "st_children (st\<lparr>st_children := cs\<rparr>) = cs"
  by simp

lemma demo3_children: "children_wf (st_children (fst (demo3 SW_REST_FOR_ONE SW_PERMANENT)))"
  unfolding children_wf_def by code_simp

lemma demo3_uniq:
  "\<forall>j<length (st_children (fst (demo3 SW_REST_FOR_ONE SW_PERMANENT))). child_down 101 (st_children (fst (demo3 SW_REST_FOR_ONE SW_PERMANENT)) ! j) \<longrightarrow> j = 1"
proof -
  have "\<forall>j\<in>set [0..<length (st_children (fst (demo3 SW_REST_FOR_ONE SW_PERMANENT)))]. child_down 101 (st_children (fst (demo3 SW_REST_FOR_ONE SW_PERMANENT)) ! j) \<longrightarrow> j = 1"
    by code_simp
  then show ?thesis by (simp only: set_upt atLeastLessThan_iff Ball_def) simp
qed

theorem supervisor_strategy_exact_witness:
  "map ch_proc (st_children (fst (sup_step 9 (M_down 101 1) (fst (demo3 SW_REST_FOR_ONE SW_PERMANENT)) (snd (demo3 SW_REST_FOR_ONE SW_PERMANENT))))) =
    [Some 3, Some 6, Some 7]"
proof -
  have 1: "1 < length (st_children (fst (demo3 SW_REST_FOR_ONE SW_PERMANENT)))" by code_simp
  have 2: "child_down 101 (st_children (fst (demo3 SW_REST_FOR_ONE SW_PERMANENT)) ! 1)" by code_simp
  have 3: "should_restart (cs_restart (ch_spec (st_children (fst (demo3 SW_REST_FOR_ONE SW_PERMANENT)) ! 1))) 1" by code_simp
  have 4: "\<not> sup_check_circuit_breaker 9 (fst (demo3 SW_REST_FOR_ONE SW_PERMANENT))" by code_simp
  have 5: "[1, 2] = restart_set (sup_strategy (st_spec (fst (demo3 SW_REST_FOR_ONE SW_PERMANENT)))) 1 (length (st_children (fst (demo3 SW_REST_FOR_ONE SW_PERMANENT))))"
    by code_simp
  have p: "\<forall>j\<in>set [1, 2]. cs_restart (ch_spec (st_children (fst (demo3 SW_REST_FOR_ONE SW_PERMANENT)) ! j)) = SW_PERMANENT
      \<or> cs_restart (ch_spec (st_children (fst (demo3 SW_REST_FOR_ONE SW_PERMANENT)) ! j)) = SW_TRANSIENT
        \<and> ch_alive (st_children (fst (demo3 SW_REST_FOR_ONE SW_PERMANENT)) ! j)" by code_simp
  have 6: "se_spawns (snd (demo3 SW_REST_FOR_ONE SW_PERMANENT)) = map Some [(6, 103), (7, 104)] @ [Some (8, 105)]" by code_simp
  have 7: "map ch_proc (replaced [1, 2] [(6, 103), (7, 104)] ((st_children (fst (demo3 SW_REST_FOR_ONE SW_PERMANENT)))
       [1 := stopped (st_children (fst (demo3 SW_REST_FOR_ONE SW_PERMANENT)) ! 1)])) = [Some 3, Some 6, Some 7]" by code_simp
  have "length [(6 :: nat, 103 :: u64), (7, 104)] = length [1, 2 :: nat]" by simp
  note supervisor_strategy_exact [OF demo3_children 1 2 demo3_uniq 3 4 5 p 6 this, THEN conjunct1]
  then show ?thesis using 7 by (simp only: fst_conv st_children_upd)
qed

text \<open>
  The policy is only consulted for the child that was reported. A child that must never be restarted, and that
  ended long ago, is started again when another one crashes under \<open>SW_ONE_FOR_ALL\<close>.
\<close>

theorem temporary_child_restarted:
  "\<exists>ms. map fst ms = [1, 2] \<and>
     ch_alive (st_children (fst (snd (sup_run ms (fst (demo3 SW_ONE_FOR_ALL SW_TEMPORARY)) (snd (demo3 SW_ONE_FOR_ALL SW_TEMPORARY))))) ! 2) \<and>
     map snd ms = [M_down 102 0, M_down 100 1] \<and> cs_restart (sup_children (demo3_spec SW_ONE_FOR_ALL SW_TEMPORARY) ! 2) = SW_TEMPORARY"
  by (rule exI [of _ "[(1, M_down 102 0), (2, M_down 100 1)]"]) code_simp

end
