(* ===== verification/Genserver.thy ===== *)
theory Genserver
  imports Swarm_Prelude
begin

text \<open>
  The generic server of \<^verbatim>\<open>src/src/swarmrt_otp.c\<close>: the message loop over the user's callbacks, the client
  calls, and the system of one server and any number of clients whose steps interleave. A mailbox is the
  queue that theory Mailbox shows it to be. The callbacks are parameters; of what they do only the state
  and the reply they return matter here.
\<close>

section \<open>Server\<close>

text \<open>A message body is a pointer: to a call, to a cast, to data of the sender, or null.\<close>

datatype 'v gs_body =
    B_call u64 proc_ref 'v
  | B_cast 'v
  | B_val 'v
  | B_null

type_synonym 'v gs_msg = "u64 \<times> 'v gs_body"

record 'v sw_gs_callbacks =
  gs_init :: "('v \<Rightarrow> 'v) option"
  handle_call :: "('v \<Rightarrow> proc_ref \<Rightarrow> 'v \<Rightarrow> 'v \<times> 'v) option"
  handle_cast :: "('v \<Rightarrow> 'v \<Rightarrow> 'v) option"
  handle_info :: "('v \<Rightarrow> u64 \<Rightarrow> 'v gs_body \<Rightarrow> 'v) option"

datatype gs_fault = Not_a_call | Not_a_cast

datatype 'v gs_out =
    Gs_continue 'v "(proc_ref \<times> u64 \<times> 'v) list"
  | Gs_stopped 'v

text \<open>One turn of the loop: the new state and the replies sent, or the end of the loop.\<close>

definition gs_call_case :: "'v sw_gs_callbacks \<Rightarrow> 'v gs_body \<Rightarrow> 'v \<Rightarrow> gs_fault + 'v gs_out" where
  "gs_call_case cbs body st =
     (case handle_call cbs of
        None \<Rightarrow> Inr (Gs_continue st [])
      | Some h \<Rightarrow>
          (case body of
             B_call ref from req \<Rightarrow> (case h st from req of (reply, new_state) \<Rightarrow> Inr (Gs_continue new_state [(from, ref, reply)]))
           | _ \<Rightarrow> Inl Not_a_call))"

definition gs_cast_case :: "'v sw_gs_callbacks \<Rightarrow> 'v gs_body \<Rightarrow> 'v \<Rightarrow> gs_fault + 'v gs_out" where
  "gs_cast_case cbs body st =
     (case handle_cast cbs of
        None \<Rightarrow> Inr (Gs_continue st [])
      | Some h \<Rightarrow> (case body of B_cast msg \<Rightarrow> Inr (Gs_continue (h st msg) []) | _ \<Rightarrow> Inl Not_a_cast))"

definition gs_info_case :: "'v sw_gs_callbacks \<Rightarrow> u64 \<Rightarrow> 'v gs_body \<Rightarrow> 'v \<Rightarrow> gs_fault + 'v gs_out" where
  "gs_info_case cbs tag body st =
     (case handle_info cbs of None \<Rightarrow> Inr (Gs_continue st []) | Some h \<Rightarrow> Inr (Gs_continue (h st tag body) []))"

definition gs_null :: "'v gs_body \<Rightarrow> bool" where
  "gs_null body = (case body of B_null \<Rightarrow> True | _ \<Rightarrow> False)"

definition gs_handle :: "'v sw_gs_callbacks \<Rightarrow> 'v gs_msg \<Rightarrow> 'v \<Rightarrow> gs_fault + 'v gs_out" where
  "gs_handle cbs m st =
     (let (tag, body) = m
      in if gs_null body \<and> tag = SW_TAG_NONE then Inr (Gs_stopped st)
         else if tag = SW_TAG_CALL then gs_call_case cbs body st
         else if tag = SW_TAG_CAST then gs_cast_case cbs body st
         else if tag = SW_TAG_STOP then Inr (Gs_stopped st)
         else gs_info_case cbs tag body st)"

definition gs_start_state :: "'v sw_gs_callbacks \<Rightarrow> 'v \<Rightarrow> 'v" where
  "gs_start_state cbs init_arg = (case gs_init cbs of None \<Rightarrow> init_arg | Some f \<Rightarrow> f init_arg)"

text \<open>
  The whole loop on the messages that arrive, in order: the state given to \<open>terminate\<close> (with reason 0), the
  replies, and what was left unread; or that it still waits.
\<close>

datatype 'v gs_result =
    Gs_terminated 'v "(proc_ref \<times> u64 \<times> 'v) list" "'v gs_msg list"
  | Gs_waiting 'v "(proc_ref \<times> u64 \<times> 'v) list"
  | Gs_faulted gs_fault

fun gs_loop :: "'v sw_gs_callbacks \<Rightarrow> 'v gs_msg list \<Rightarrow> 'v \<Rightarrow> (proc_ref \<times> u64 \<times> 'v) list \<Rightarrow> 'v gs_result" where
  "gs_loop cbs [] st sent = Gs_waiting st sent"
| "gs_loop cbs (m # ms) st sent =
     (case gs_handle cbs m st of
        Inl f \<Rightarrow> Gs_faulted f
      | Inr (Gs_stopped st') \<Rightarrow> Gs_terminated st' sent ms
      | Inr (Gs_continue st' out) \<Rightarrow> gs_loop cbs ms st' (sent @ out))"

definition genserver_entry :: "'v sw_gs_callbacks \<Rightarrow> 'v \<Rightarrow> 'v gs_msg list \<Rightarrow> 'v gs_result" where
  "genserver_entry cbs init_arg ms = gs_loop cbs ms (gs_start_state cbs init_arg) []"

text \<open>Start-up: \<open>spawn\<close> starts the process with its start block, linked to the caller or not, and the entry registers the name.\<close>

definition sw_genserver_start ::
  "('v sw_gs_callbacks \<times> 'v \<times> bool \<times> name_buf \<Rightarrow> proc_ref option) \<Rightarrow> string option \<Rightarrow> 'v sw_gs_callbacks \<Rightarrow> 'v \<Rightarrow> proc_ref option" where
  "sw_genserver_start spawn name cbs init_arg = spawn (cbs, init_arg, False, name_init name)"

definition sw_genserver_start_link ::
  "('v sw_gs_callbacks \<times> 'v \<times> bool \<times> name_buf \<Rightarrow> proc_ref option) \<Rightarrow> string option \<Rightarrow> 'v sw_gs_callbacks \<Rightarrow> 'v \<Rightarrow> proc_ref option" where
  "sw_genserver_start_link spawn_link name cbs init_arg = spawn_link (cbs, init_arg, True, name_init name)"

section \<open>Clients and the system\<close>

text \<open>
  A client is idle, has taken a reference from the global counter, or waits for the message tagged with it.
  The history fields record the calls made, the messages the server took and the results of the calls.
\<close>

datatype 'v cl_phase =
    Cl_idle
  | Cl_alloc u64 'v
  | Cl_wait u64 'v

record 'v gs_sys =
  next_call_ref :: u64
  srv_queue :: "'v gs_msg list"
  srv_state :: 'v
  srv_running :: bool
  cl_phase_of :: "proc_ref \<Rightarrow> 'v cl_phase"
  cl_mail :: "proc_ref \<Rightarrow> (u64 \<times> 'v) list"
  h_calls :: "(u64 \<times> proc_ref \<times> 'v) list"
  h_taken :: "'v gs_msg list"
  h_results :: "(proc_ref \<times> u64 \<times> 'v \<times> 'v option) list"

definition gs_sys0 :: "'v \<Rightarrow> 'v gs_sys" where
  "gs_sys0 st = \<lparr>next_call_ref = 1000, srv_queue = [], srv_state = st, srv_running = True,
     cl_phase_of = (\<lambda>_. Cl_idle), cl_mail = (\<lambda>_. []), h_calls = [], h_taken = [], h_results = []\<rparr>"

text \<open>\<^verbatim>\<open>sw_call_proc\<close>: take a reference, send the call, then receive by tag.\<close>

definition call_ref :: "proc_ref \<Rightarrow> 'v \<Rightarrow> 'v gs_sys \<Rightarrow> 'v gs_sys" where
  "call_ref p req s =
     (let ref = next_call_ref s
      in s\<lparr>next_call_ref := ref + 1, cl_phase_of := (cl_phase_of s)(p := Cl_alloc ref req), h_calls := h_calls s @ [(ref, p, req)]\<rparr>)"

definition call_send :: "proc_ref \<Rightarrow> u64 \<Rightarrow> 'v \<Rightarrow> 'v gs_sys \<Rightarrow> 'v gs_sys" where
  "call_send p ref req s =
     s\<lparr>srv_queue := srv_queue s @ [(SW_TAG_CALL, B_call ref p req)], cl_phase_of := (cl_phase_of s)(p := Cl_wait ref req)\<rparr>"

definition call_recv :: "proc_ref \<Rightarrow> u64 \<Rightarrow> 'v \<Rightarrow> 'v gs_sys \<Rightarrow> 'v gs_sys" where
  "call_recv p ref req s =
     s\<lparr>cl_phase_of := (cl_phase_of s)(p := Cl_idle),
       h_results := h_results s @ [(p, ref, req, map_option snd (find (\<lambda>m. fst m = ref) (cl_mail s p)))],
       cl_mail := (cl_mail s)(p := remove_first (\<lambda>m. fst m = ref) (cl_mail s p))\<rparr>"

text \<open>\<^verbatim>\<open>sw_cast_proc\<close>, and any other message to the server.\<close>

definition sw_cast_proc :: "'v \<Rightarrow> 'v gs_sys \<Rightarrow> 'v gs_sys" where
  "sw_cast_proc msg s = s\<lparr>srv_queue := srv_queue s @ [(SW_TAG_CAST, B_cast msg)]\<rparr>"

definition send_info :: "u64 \<Rightarrow> 'v gs_body \<Rightarrow> 'v gs_sys \<Rightarrow> 'v gs_sys" where
  "send_info tag body s = s\<lparr>srv_queue := srv_queue s @ [(tag, body)]\<rparr>"

definition sw_genserver_stop :: "'v gs_sys \<Rightarrow> 'v gs_sys" where
  "sw_genserver_stop s = s\<lparr>srv_queue := srv_queue s @ [(SW_TAG_STOP, B_null)]\<rparr>"

fun deliver :: "(proc_ref \<times> u64 \<times> 'v) list \<Rightarrow> (proc_ref \<Rightarrow> (u64 \<times> 'v) list) \<Rightarrow> proc_ref \<Rightarrow> (u64 \<times> 'v) list" where
  "deliver [] mail = mail"
| "deliver ((p, tag, v) # out) mail = deliver out (mail(p := mail p @ [(tag, v)]))"

definition serve :: "'v sw_gs_callbacks \<Rightarrow> 'v gs_sys \<Rightarrow> 'v gs_sys" where
  "serve cbs s =
     (case srv_queue s of
        [] \<Rightarrow> s
      | m # q \<Rightarrow>
          (let s = s\<lparr>srv_queue := q, h_taken := h_taken s @ [m]\<rparr>
           in case gs_handle cbs m (srv_state s) of
                Inl _ \<Rightarrow> s\<lparr>srv_running := False\<rparr>
              | Inr (Gs_stopped st) \<Rightarrow> s\<lparr>srv_running := False, srv_state := st\<rparr>
              | Inr (Gs_continue st out) \<Rightarrow> s\<lparr>srv_state := st, cl_mail := deliver out (cl_mail s)\<rparr>))"

definition client_mail :: "proc_ref \<Rightarrow> u64 \<Rightarrow> 'v \<Rightarrow> 'v gs_sys \<Rightarrow> 'v gs_sys" where
  "client_mail p tag v s = s\<lparr>cl_mail := (cl_mail s)(p := cl_mail s p @ [(tag, v)])\<rparr>"

text \<open>
  The steps. A waiting client may give up at any time: \<^verbatim>\<open>call_recv\<close> then finds no message. Other senders
  use tags below 1000, the first call reference.
\<close>

inductive gs_step :: "'v sw_gs_callbacks \<Rightarrow> 'v gs_sys \<Rightarrow> 'v gs_sys \<Rightarrow> bool" for cbs where
  G_call: "cl_phase_of s p = Cl_idle \<Longrightarrow> gs_step cbs s (call_ref p req s)"
| G_send: "cl_phase_of s p = Cl_alloc ref req \<Longrightarrow> gs_step cbs s (call_send p ref req s)"
| G_recv: "cl_phase_of s p = Cl_wait ref req \<Longrightarrow> gs_step cbs s (call_recv p ref req s)"
| G_cast: "gs_step cbs s (sw_cast_proc msg s)"
| G_info: "tag \<noteq> SW_TAG_CALL \<Longrightarrow> gs_step cbs s (send_info tag body s)"
| G_stop: "gs_step cbs s (sw_genserver_stop s)"
| G_serve: "srv_running s \<Longrightarrow> gs_step cbs s (serve cbs s)"
| G_mail: "unat tag < 1000 \<Longrightarrow> gs_step cbs s (client_mail p tag v s)"

inductive gs_reach :: "'v sw_gs_callbacks \<Rightarrow> 'v \<Rightarrow> 'v gs_sys \<Rightarrow> bool" for cbs st0 where
  R_init: "gs_reach cbs st0 (gs_sys0 st0)"
| R_step: "gs_reach cbs st0 s \<Longrightarrow> gs_step cbs s s' \<Longrightarrow> gs_reach cbs st0 s'"

section \<open>Sequential specification\<close>

text \<open>The server's state after a sequence of messages, each handled alone.\<close>

fun gs_replay :: "'v sw_gs_callbacks \<Rightarrow> 'v gs_msg list \<Rightarrow> 'v \<Rightarrow> 'v" where
  "gs_replay cbs [] st = st"
| "gs_replay cbs (m # ms) st =
     (case gs_handle cbs m st of Inr (Gs_continue st' _) \<Rightarrow> gs_replay cbs ms st' | Inr (Gs_stopped st') \<Rightarrow> st' | Inl _ \<Rightarrow> st)"

text \<open>A reply was computed by the call handler for this request, in the state the earlier messages left.\<close>

definition answered :: "'v sw_gs_callbacks \<Rightarrow> 'v \<Rightarrow> 'v gs_msg list \<Rightarrow> proc_ref \<Rightarrow> u64 \<Rightarrow> 'v \<Rightarrow> 'v \<Rightarrow> bool" where
  "answered cbs st0 taken p ref req v \<longleftrightarrow>
     (\<exists>pre post h. taken = pre @ (SW_TAG_CALL, B_call ref p req) # post \<and> handle_call cbs = Some h
        \<and> v = fst (h (gs_replay cbs pre st0) p req))"

lemma answered_more: "answered cbs st0 taken p ref req v \<Longrightarrow> answered cbs st0 (taken @ ms) p ref req v"
  unfolding answered_def by (metis append.assoc append_Cons)

lemma answered_mem: "answered cbs st0 taken p ref req v \<Longrightarrow> (SW_TAG_CALL, B_call ref p req) \<in> set taken"
  by (auto simp: answered_def)

lemma gs_handle_out:
  assumes "gs_handle cbs m st = Inr (Gs_continue st' out)" "x \<in> set out"
  shows "\<exists>p ref req h. m = (SW_TAG_CALL, B_call ref p req) \<and> handle_call cbs = Some h \<and> out = [(p, ref, fst (h st p req))]"
  using assms
  by (auto simp: gs_handle_def gs_call_case_def gs_cast_case_def gs_info_case_def
      split: if_splits option.splits gs_body.splits prod.splits)

section \<open>Invariant\<close>

definition running_replay :: "'v sw_gs_callbacks \<Rightarrow> 'v \<Rightarrow> 'v gs_sys \<Rightarrow> bool" where
  "running_replay cbs st0 s \<longleftrightarrow> (\<forall>ms. srv_running s \<longrightarrow> gs_replay cbs (h_taken s @ ms) st0 = gs_replay cbs ms (srv_state s))"

definition calls_numbered :: "'v gs_sys \<Rightarrow> bool" where
  "calls_numbered s \<longleftrightarrow> next_call_ref s = 1000 + of_nat (length (h_calls s))
     \<and> map fst (h_calls s) = map (\<lambda>k. 1000 + of_nat k) [0..<length (h_calls s)]"

definition calls_known :: "'v gs_sys \<Rightarrow> bool" where
  "calls_known s \<longleftrightarrow>
     (\<forall>ref p req. (SW_TAG_CALL, B_call ref p req) \<in> set (h_taken s @ srv_queue s) \<longrightarrow> (ref, p, req) \<in> set (h_calls s))
     \<and> (\<forall>p ref req. cl_phase_of s p = Cl_alloc ref req \<or> cl_phase_of s p = Cl_wait ref req \<longrightarrow> (ref, p, req) \<in> set (h_calls s))"

definition mail_ok :: "'v sw_gs_callbacks \<Rightarrow> 'v \<Rightarrow> 'v gs_sys \<Rightarrow> bool" where
  "mail_ok cbs st0 s \<longleftrightarrow>
     (\<forall>p tag v. (tag, v) \<in> set (cl_mail s p) \<longrightarrow> unat tag < 1000 \<or> (\<exists>req. answered cbs st0 (h_taken s) p tag req v))"

definition results_ok :: "'v sw_gs_callbacks \<Rightarrow> 'v \<Rightarrow> 'v gs_sys \<Rightarrow> bool" where
  "results_ok cbs st0 s \<longleftrightarrow>
     (\<forall>p ref req v. (p, ref, req, Some v) \<in> set (h_results s) \<longrightarrow> answered cbs st0 (h_taken s) p ref req v)"

definition calls_bound :: "'v gs_sys \<Rightarrow> bool" where
  "calls_bound s \<longleftrightarrow> length (h_calls s) + 1000 \<le> 2 ^ 64"

definition gs_inv :: "'v sw_gs_callbacks \<Rightarrow> 'v \<Rightarrow> 'v gs_sys \<Rightarrow> bool" where
  "gs_inv cbs st0 s \<longleftrightarrow> running_replay cbs st0 s \<and> calls_numbered s \<and> calls_known s \<and> mail_ok cbs st0 s
     \<and> (calls_bound s \<longrightarrow> results_ok cbs st0 s)"

lemmas gs_inv_defs = gs_inv_def running_replay_def calls_numbered_def calls_known_def mail_ok_def results_ok_def calls_bound_def

lemma call_refs_distinct:
  assumes "calls_numbered s" "calls_bound s"
  shows "distinct (map fst (h_calls s))"
    and "\<forall>ref\<in>set (map fst (h_calls s)). 1000 \<le> unat ref"
proof -
  have u: "unat (1000 + of_nat k :: u64) = 1000 + k" if "k < length (h_calls s)" for k
  proof -
    have "1000 + of_nat k = (of_nat (1000 + k) :: u64)" by simp
    also have "unat \<dots> = 1000 + k" using that assms(2) by (simp only: unat_of_nat) (simp add: calls_bound_def)
    finally show ?thesis .
  qed
  have refs: "map fst (h_calls s) = map (\<lambda>k. 1000 + of_nat k) [0..<length (h_calls s)]"
    using assms(1) by (simp add: calls_numbered_def)
  have "inj_on (\<lambda>k. 1000 + of_nat k :: u64) {0..<length (h_calls s)}"
    by (intro inj_onI) (metis u add_left_cancel atLeastLessThan_iff)
  then show "distinct (map fst (h_calls s))" unfolding refs by (simp add: distinct_map)
  show "\<forall>ref\<in>set (map fst (h_calls s)). 1000 \<le> unat ref" unfolding refs by (auto simp: u)
qed

lemma call_of_ref:
  assumes "calls_numbered s" "calls_bound s" "(ref, p, req) \<in> set (h_calls s)" "(ref, p', req') \<in> set (h_calls s)"
  shows "p' = p \<and> req' = req"
  using eq_key_imp_eq_value [OF call_refs_distinct(1) [OF assms(1,2)] assms(3,4)] by simp

lemma gs_inv_init: "gs_inv cbs st0 (gs_sys0 st0)"
  by (simp add: gs_inv_defs gs_sys0_def)

lemma gs_inv_call_ref: "gs_inv cbs st0 s \<Longrightarrow> gs_inv cbs st0 (call_ref p req s)"
  by (auto simp: gs_inv_defs call_ref_def Let_def)

lemma gs_inv_call_send:
  "gs_inv cbs st0 s \<Longrightarrow> cl_phase_of s p = Cl_alloc ref req \<Longrightarrow> gs_inv cbs st0 (call_send p ref req s)"
  by (auto simp: gs_inv_defs call_send_def)

lemma gs_inv_enqueue:
  "gs_inv cbs st0 s \<Longrightarrow> tag \<noteq> SW_TAG_CALL \<Longrightarrow> gs_inv cbs st0 (s\<lparr>srv_queue := srv_queue s @ [(tag, body)]\<rparr>)"
  by (auto simp: gs_inv_defs)

lemma gs_inv_client_mail: "gs_inv cbs st0 s \<Longrightarrow> unat tag < 1000 \<Longrightarrow> gs_inv cbs st0 (client_mail p tag v s)"
  by (auto simp: gs_inv_defs client_mail_def)

lemma own_reply:
  assumes inv: "gs_inv cbs st0 s" and bound: "calls_bound s" and wait: "cl_phase_of s p = Cl_wait ref req"
    and mail: "(ref, v) \<in> set (cl_mail s p)"
  shows "answered cbs st0 (h_taken s) p ref req v"
proof -
  have num: "calls_numbered s" using inv by (simp add: gs_inv_def)
  have mine: "(ref, p, req) \<in> set (h_calls s)" using inv wait by (simp add: gs_inv_defs)
  have "ref \<in> set (map fst (h_calls s))" using imageI [OF mine, of fst] by simp
  then have "1000 \<le> unat ref" using call_refs_distinct(2) [OF num bound] by blast
  moreover have "unat ref < 1000 \<or> (\<exists>req. answered cbs st0 (h_taken s) p ref req v)"
    using inv mail by (simp add: gs_inv_def mail_ok_def)
  ultimately obtain req' where a: "answered cbs st0 (h_taken s) p ref req' v" by auto
  then have "(ref, p, req') \<in> set (h_calls s)" using inv answered_mem [OF a] unfolding gs_inv_def calls_known_def by simp
  then have "req' = req" using call_of_ref [OF num bound mine] by blast
  then show ?thesis using a by simp
qed

lemma gs_inv_call_recv:
  assumes inv: "gs_inv cbs st0 s" and wait: "cl_phase_of s p = Cl_wait ref req"
  shows "gs_inv cbs st0 (call_recv p ref req s)"
proof -
  have "results_ok cbs st0 (call_recv p ref req s)" if "calls_bound s"
  proof -
    have "answered cbs st0 (h_taken s) p ref req v"
      if found: "Some v = map_option snd (find (\<lambda>m. fst m = ref) (cl_mail s p))" for v
    proof -
      obtain x where x: "find (\<lambda>m. fst m = ref) (cl_mail s p) = Some x" "v = snd x" using found [symmetric] by auto
      then have "x \<in> set (cl_mail s p)" "fst x = ref" by (auto simp: find_Some_iff)
      then have "(ref, v) \<in> set (cl_mail s p)" using x(2) by (metis prod.collapse)
      then show ?thesis by (rule own_reply [OF inv \<open>calls_bound s\<close> wait])
    qed
    then show ?thesis using inv that by (auto simp: gs_inv_def results_ok_def call_recv_def)
  qed
  moreover have "mail_ok cbs st0 (call_recv p ref req s)"
    using inv by (auto simp: gs_inv_def mail_ok_def call_recv_def dest!: subsetD [OF set_remove_first_subset])
  ultimately show ?thesis using inv by (simp add: gs_inv_defs call_recv_def)
qed

lemma deliver_nil: "(\<And>x. x \<notin> set out) \<Longrightarrow> deliver out mail = mail"
  by (cases out) auto

lemma replay_snoc:
  assumes "gs_replay cbs taken st0 = st" "\<forall>ms. gs_replay cbs (taken @ ms) st0 = gs_replay cbs ms st"
    and "gs_handle cbs m st = Inr (Gs_continue st' out)"
  shows "gs_replay cbs ((taken @ [m]) @ ms) st0 = gs_replay cbs ms st'"
  using assms by simp

lemma gs_inv_serve:
  assumes inv: "gs_inv cbs st0 s" and run: "srv_running s"
  shows "gs_inv cbs st0 (serve cbs s)"
proof (cases "srv_queue s")
  case Nil
  then show ?thesis using inv by (simp add: serve_def)
next
  case (Cons m q)
  let ?s = "s\<lparr>srv_queue := q, h_taken := h_taken s @ [m]\<rparr>"
  have frame: "calls_numbered ?s \<and> calls_known ?s \<and> mail_ok cbs st0 ?s \<and> (calls_bound ?s \<longrightarrow> results_ok cbs st0 ?s)"
  proof (intro conjI)
    show "mail_ok cbs st0 ?s" using inv answered_more unfolding gs_inv_def mail_ok_def by fastforce
  qed (use inv Cons in \<open>auto simp: gs_inv_defs intro: answered_more\<close>)
  show ?thesis
  proof (cases "gs_handle cbs m (srv_state s)")
    case (Inl f)
    then have "serve cbs s = ?s\<lparr>srv_running := False\<rparr>" by (simp add: serve_def Cons)
    then show ?thesis using frame by (simp add: gs_inv_defs)
  next
    case (Inr out)
    show ?thesis
    proof (cases out)
      case (Gs_stopped st)
      then have "serve cbs s = ?s\<lparr>srv_running := False, srv_state := st\<rparr>" using Inr by (simp add: serve_def Cons)
      then show ?thesis using frame by (simp add: gs_inv_defs)
    next
      case (Gs_continue st out')
      have h: "gs_handle cbs m (srv_state s) = Inr (Gs_continue st out')" using Inr Gs_continue by simp
      have eq: "serve cbs s = ?s\<lparr>srv_state := st, cl_mail := deliver out' (cl_mail s)\<rparr>"
        using h by (simp add: serve_def Cons)
      have rep: "gs_replay cbs (h_taken s @ ms) st0 = gs_replay cbs ms (srv_state s)" for ms
        using inv run by (simp add: gs_inv_def running_replay_def)
      have "mail_ok cbs st0 (serve cbs s)"
      proof (cases "out' = []")
        case True
        then show ?thesis using frame by (simp add: eq mail_ok_def)
      next
        case False
        then obtain p ref req f where m: "m = (SW_TAG_CALL, B_call ref p req)" "handle_call cbs = Some f"
          "out' = [(p, ref, fst (f (srv_state s) p req))]"
          using gs_handle_out [OF h, of "hd out'"] by auto
        have "srv_state s = gs_replay cbs (h_taken s) st0" using rep [of "[]"] by simp
        then have "answered cbs st0 (h_taken s @ [m]) p ref req (fst (f (srv_state s) p req))"
          unfolding answered_def using m by auto
        then show ?thesis using frame by (auto simp: eq mail_ok_def m(3))
      qed
      moreover have "running_replay cbs st0 (serve cbs s)"
        using rep h by (simp add: running_replay_def eq)
      ultimately show ?thesis using frame by (simp add: gs_inv_def) (simp add: eq gs_inv_defs)
    qed
  qed
qed

lemma gs_inv_step: "gs_step cbs s s' \<Longrightarrow> gs_inv cbs st0 s \<Longrightarrow> gs_inv cbs st0 s'"
  by (induction rule: gs_step.induct)
    (simp_all add: gs_inv_call_ref gs_inv_call_send gs_inv_call_recv gs_inv_client_mail gs_inv_serve
      sw_cast_proc_def send_info_def sw_genserver_stop_def gs_inv_enqueue const_simps)

lemma gs_reach_inv: "gs_reach cbs st0 s \<Longrightarrow> gs_inv cbs st0 s"
  by (induction rule: gs_reach.induct) (blast intro: gs_inv_init gs_inv_step)+

section \<open>Properties\<close>

text \<open>
  C13. Calls and replies are never mixed up. Clients call, time out and call again in any interleaving with the
  server and with other senders. Whenever a call returns a value, that value is the reply that the call handler
  computed for this very request of this very client, in the state reached by handling the messages the server
  took before it one after the other; a reply that comes too late for its own call is never taken for a later one.
  The call counter must not have wrapped around.
\<close>

theorem genserver_call_own_reply:
  assumes "gs_reach cbs st0 s" "length (h_calls s) + 1000 \<le> 2 ^ 64" "(p, ref, req, Some v) \<in> set (h_results s)"
  shows "(ref, p, req) \<in> set (h_calls s) \<and>
    (\<exists>pre post h. h_taken s = pre @ (SW_TAG_CALL, B_call ref p req) # post \<and> handle_call cbs = Some h
       \<and> v = fst (h (gs_replay cbs pre st0) p req))"
proof -
  have inv: "gs_inv cbs st0 s" by (rule gs_reach_inv [OF assms(1)])
  then have a: "answered cbs st0 (h_taken s) p ref req v" using assms(2,3) by (simp add: gs_inv_def calls_bound_def results_ok_def)
  then have "(ref, p, req) \<in> set (h_calls s)" using inv answered_mem [OF a] unfolding gs_inv_def calls_known_def by simp
  then show ?thesis using a by (simp add: answered_def)
qed

definition demo_cbs :: "int sw_gs_callbacks" where
  "demo_cbs = \<lparr>gs_init = None, handle_call = Some (\<lambda>st p req. (st + req, st + req)), handle_cast = Some (\<lambda>st m. st - m), handle_info = None\<rparr>"

definition demo_s :: "int gs_sys" where
  "demo_s = call_recv 1 1000 5 (serve demo_cbs (serve demo_cbs (call_send 1 1000 5 (call_ref 1 5 (sw_cast_proc 2 (gs_sys0 10))))))"

lemma demo_s_reach: "gs_reach demo_cbs 10 demo_s"
proof -
  let ?a = "sw_cast_proc 2 (gs_sys0 (10 :: int))"
  let ?b = "call_ref 1 5 ?a" let ?c = "call_send 1 1000 5 ?b"
  let ?d = "serve demo_cbs ?c" let ?e = "serve demo_cbs ?d"
  have "gs_reach demo_cbs 10 ?a" by (rule R_step [OF R_init G_cast])
  moreover have "cl_phase_of ?a 1 = Cl_idle" by (simp add: sw_cast_proc_def gs_sys0_def)
  ultimately have "gs_reach demo_cbs 10 ?b" by (intro R_step [OF _ G_call])
  moreover have "cl_phase_of ?b 1 = Cl_alloc 1000 5" by (simp add: sw_cast_proc_def gs_sys0_def call_ref_def)
  ultimately have "gs_reach demo_cbs 10 ?c" by (intro R_step [OF _ G_send])
  moreover have "srv_running ?c" by code_simp
  ultimately have "gs_reach demo_cbs 10 ?d" by (rule R_step [OF _ G_serve])
  moreover have "srv_running ?d" by code_simp
  ultimately have "gs_reach demo_cbs 10 ?e" by (rule R_step [OF _ G_serve])
  moreover have "cl_phase_of ?e 1 = Cl_wait 1000 5" by code_simp
  ultimately show ?thesis unfolding demo_s_def by (intro R_step [OF _ G_recv])
qed

theorem genserver_call_own_reply_witness:
  "h_results demo_s = [(1, 1000, 5, Some 13)] \<and>
   (\<exists>pre post h. h_taken demo_s = pre @ (SW_TAG_CALL, B_call 1000 1 5) # post \<and> handle_call demo_cbs = Some h
      \<and> 13 = fst (h (gs_replay demo_cbs pre 10) 1 5))"
proof -
  have r: "h_results demo_s = [(1, 1000, 5, Some 13)]" "length (h_calls demo_s) = 1" by code_simp+
  then show ?thesis using genserver_call_own_reply [OF demo_s_reach, of 1 1000 5 13] by simp
qed

text \<open>The calls among a sequence of messages, as the reply tags and the callers.\<close>

fun calls_in :: "'v gs_msg list \<Rightarrow> (proc_ref \<times> u64) list" where
  "calls_in [] = []"
| "calls_in ((tag, body) # ms) =
     (case body of B_call ref p req \<Rightarrow> (if tag = SW_TAG_CALL then (p, ref) # calls_in ms else calls_in ms) | _ \<Rightarrow> calls_in ms)"

text \<open>A message that the clients' functions send, other than a request to stop.\<close>

fun gs_regular :: "'v gs_msg \<Rightarrow> bool" where
  "gs_regular (tag, body) \<longleftrightarrow> tag \<noteq> SW_TAG_STOP \<and> \<not> (gs_null body \<and> tag = SW_TAG_NONE)
     \<and> (tag = SW_TAG_CALL \<longrightarrow> (case body of B_call _ _ _ \<Rightarrow> True | _ \<Rightarrow> False))
     \<and> (tag = SW_TAG_CAST \<longrightarrow> (case body of B_cast _ \<Rightarrow> True | _ \<Rightarrow> False))"

lemma regular_continues:
  assumes "gs_regular m" "handle_call cbs \<noteq> None"
  shows "\<exists>st' out. gs_handle cbs m st = Inr (Gs_continue st' out) \<and> map (\<lambda>(p, ref, v). (p, ref)) out = calls_in [m]"
proof -
  obtain tag body where m: "m = (tag, body)" by (cases m)
  obtain h where h: "handle_call cbs = Some h" using assms(2) by auto
  consider "tag = SW_TAG_CALL" | "tag = SW_TAG_CAST" | "tag \<noteq> SW_TAG_CALL" "tag \<noteq> SW_TAG_CAST" by blast
  then show ?thesis
  proof cases
    case 1
    then obtain ref p req where "body = B_call ref p req" using assms(1) m by (cases body) auto
    then show ?thesis using 1 h m by (cases "h st p req") (simp add: gs_handle_def gs_null_def gs_call_case_def)
  next
    case 2
    then obtain x where "body = B_cast x" using assms(1) m by (cases body) auto
    then show ?thesis using 2 m by (simp add: gs_handle_def gs_null_def gs_cast_case_def const_simps split: option.split)
  next
    case 3
    then have "gs_handle cbs m st = gs_info_case cbs tag body st" using assms(1) m by (auto simp: gs_handle_def)
    moreover have "calls_in [m] = []" using 3 m by (simp split: gs_body.split)
    ultimately show ?thesis by (simp add: gs_info_case_def split: option.split)
  qed
qed

lemma calls_in_append: "calls_in (ms @ ns) = calls_in ms @ calls_in ns"
  by (induction ms) (auto split: gs_body.splits)

lemma gs_loop_regular:
  assumes "\<forall>m\<in>set ms. gs_regular m" "handle_call cbs \<noteq> None" "\<And>st. gs_handle cbs stop st = Inr (Gs_stopped st)"
  shows "\<exists>out. gs_loop cbs (ms @ stop # rest) st sent = Gs_terminated (gs_replay cbs ms st) (sent @ out) rest
    \<and> map (\<lambda>(p, ref, v). (p, ref)) out = calls_in ms"
  using assms(1)
proof (induction ms arbitrary: st sent)
  case Nil
  then show ?case by (simp add: assms(3))
next
  case (Cons m ms)
  obtain st' out where h: "gs_handle cbs m st = Inr (Gs_continue st' out)" "map (\<lambda>(p, ref, v). (p, ref)) out = calls_in [m]"
    using regular_continues [OF _ assms(2), of m st] Cons.prems by (meson list.set_intros(1))
  obtain out' where "gs_loop cbs (ms @ stop # rest) st' (sent @ out) = Gs_terminated (gs_replay cbs ms st') ((sent @ out) @ out') rest"
    "map (\<lambda>(p, ref, v). (p, ref)) out' = calls_in ms"
    using Cons.IH [of st' "sent @ out"] Cons.prems by auto
  then show ?case using h calls_in_append [of "[m]" ms] by (intro exI [of _ "out @ out'"]) simp
qed

text \<open>
  C31. The server reads up to the first stop message, or up to a null message without a tag, which it takes for a
  kill. It then ends with the state that the messages before it left, one reply sent for each call among them
  and no other, in order, and what is behind it stays unread: callers there get no answer.
\<close>

theorem genserver_stops:
  assumes "\<forall>m\<in>set ms. gs_regular m" "handle_call cbs \<noteq> None" "stop = (SW_TAG_STOP, body) \<or> stop = (SW_TAG_NONE, B_null)"
  shows "\<exists>sent. genserver_entry cbs arg (ms @ stop # rest) = Gs_terminated (gs_replay cbs ms (gs_start_state cbs arg)) sent rest
    \<and> map (\<lambda>(p, ref, v). (p, ref)) sent = calls_in ms"
proof -
  have "gs_handle cbs stop st = Inr (Gs_stopped st)" for st
    using assms(3) by (auto simp: gs_handle_def gs_null_def const_simps)
  from gs_loop_regular [OF assms(1,2) this, of rest "gs_start_state cbs arg" "[]"] show ?thesis
    by (simp add: genserver_entry_def)
qed

theorem genserver_stops_witness:
  "\<exists>sent. genserver_entry demo_cbs 0 [(SW_TAG_CALL, B_call 1000 1 4), (SW_TAG_CAST, B_cast 3), (SW_TAG_STOP, B_null), (SW_TAG_CALL, B_call 1001 1 4)] =
     Gs_terminated 1 sent [(SW_TAG_CALL, B_call 1001 1 4)] \<and> map (\<lambda>(p, ref, v). (p, ref)) sent = [(1, 1000)]"
  using genserver_stops [of "[(SW_TAG_CALL, B_call 1000 1 4), (SW_TAG_CAST, B_cast 3)]" demo_cbs "(SW_TAG_STOP, B_null)" B_null 0
      "[(SW_TAG_CALL, B_call 1001 1 4)]"]
  by (simp add: demo_cbs_def const_simps gs_null_def gs_handle_def gs_call_case_def gs_cast_case_def gs_start_state_def)

end
