(* ===== verification/Agent.thy ===== *)
theory Agent
  imports Genserver
begin

text \<open>
  Agents of \<^verbatim>\<open>src/src/swarmrt_phase4.c\<close>: a generic server that holds one value and applies the functions its clients
  send. Functions of the clients are values of the model, as function pointers are in the code; \<open>'p\<close> stands for the data
  that pointers refer to. An agent is an atomic cell: every answer is that of its function applied to the value that the
  requests taken before have left.
\<close>

section \<open>Requests and callbacks\<close>

text \<open>
  What a pointer handled by the server refers to: data, a request of a call, or one of a cast. \<open>Ag_wild\<close> is what the
  code gets when it reads memory of another kind.
\<close>

datatype 'p agent_val =
    Ag_ptr 'p
  | Ag_get "'p \<Rightarrow> 'p \<Rightarrow> 'p" 'p
  | Ag_gau "'p \<Rightarrow> 'p \<Rightarrow> 'p \<times> 'p" 'p
  | Ag_update "'p \<Rightarrow> 'p \<Rightarrow> 'p" 'p
  | Ag_wild

definition agent_init :: "'p agent_val \<Rightarrow> 'p agent_val" where
  "agent_init arg = arg"

fun agent_handle_call :: "'p agent_val \<Rightarrow> proc_ref \<Rightarrow> 'p agent_val \<Rightarrow> 'p agent_val \<times> 'p agent_val" where
  "agent_handle_call (Ag_ptr st) from (Ag_get f arg) = (Ag_ptr (f st arg), Ag_ptr st)"
| "agent_handle_call (Ag_ptr st) from (Ag_gau f arg) = (case f st arg of (reply, new_state) \<Rightarrow> (Ag_ptr reply, Ag_ptr new_state))"
| "agent_handle_call _ _ _ = (Ag_wild, Ag_wild)"

fun agent_handle_cast :: "'p agent_val \<Rightarrow> 'p agent_val \<Rightarrow> 'p agent_val" where
  "agent_handle_cast (Ag_ptr st) (Ag_update f arg) = Ag_ptr (f st arg)"
| "agent_handle_cast _ _ = Ag_wild"

definition agent_callbacks :: "'p agent_val sw_gs_callbacks" where
  "agent_callbacks =
     \<lparr>gs_init = Some agent_init, handle_call = Some agent_handle_call, handle_cast = Some agent_handle_cast, handle_info = None\<rparr>"

text \<open>Start-up: an agent is started linked; without a link the caller unlinks it again, which is the second result.\<close>

definition sw_agent_start_link ::
  "('p agent_val sw_gs_callbacks \<times> 'p agent_val \<times> bool \<times> name_buf \<Rightarrow> proc_ref option) \<Rightarrow> string option \<Rightarrow> 'p \<Rightarrow> proc_ref option" where
  "sw_agent_start_link spawn_link name initial_state = sw_genserver_start_link spawn_link name agent_callbacks (Ag_ptr initial_state)"

definition sw_agent_start ::
  "('p agent_val sw_gs_callbacks \<times> 'p agent_val \<times> bool \<times> name_buf \<Rightarrow> proc_ref option) \<Rightarrow> proc_ref option \<Rightarrow> string option \<Rightarrow> 'p \<Rightarrow>
     proc_ref option \<times> proc_ref option" where
  "sw_agent_start spawn_link self name initial_state =
     (let agent = sw_agent_start_link spawn_link name initial_state in (agent, if self \<noteq> None then agent else None))"

section \<open>Clients\<close>

text \<open>
  Calls and casts on the system of a server and its clients. A call is \<^verbatim>\<open>sw_call_proc\<close>: its first step takes the reference,
  the others are those of the generic server.
\<close>

definition sw_agent_get_proc :: "proc_ref \<Rightarrow> ('p \<Rightarrow> 'p \<Rightarrow> 'p) \<Rightarrow> 'p \<Rightarrow> 'p agent_val gs_sys \<Rightarrow> 'p agent_val gs_sys" where
  "sw_agent_get_proc p f arg s = call_ref p (Ag_get f arg) s"

definition sw_agent_get_and_update_proc :: "proc_ref \<Rightarrow> ('p \<Rightarrow> 'p \<Rightarrow> 'p \<times> 'p) \<Rightarrow> 'p \<Rightarrow> 'p agent_val gs_sys \<Rightarrow> 'p agent_val gs_sys" where
  "sw_agent_get_and_update_proc p f arg s = call_ref p (Ag_gau f arg) s"

definition sw_agent_update_proc :: "('p \<Rightarrow> 'p \<Rightarrow> 'p) \<Rightarrow> 'p \<Rightarrow> 'p agent_val gs_sys \<Rightarrow> 'p agent_val gs_sys \<times> int" where
  "sw_agent_update_proc f arg s = (sw_cast_proc (Ag_update f arg) s, 0)"

definition sw_agent_stop :: "'p agent_val gs_sys \<Rightarrow> 'p agent_val gs_sys" where
  "sw_agent_stop s = sw_genserver_stop s"

definition sw_agent_stop_proc :: "proc_ref option \<Rightarrow> 'p agent_val gs_sys \<Rightarrow> 'p agent_val gs_sys" where
  "sw_agent_stop_proc agent s = (case agent of None \<Rightarrow> s | Some _ \<Rightarrow> send_info SW_TAG_STOP B_null s)"

text \<open>By name: \<open>agent\<close> is the result of the lookup; without one nothing is sent.\<close>

definition sw_agent_get ::
  "proc_ref option \<Rightarrow> proc_ref \<Rightarrow> ('p \<Rightarrow> 'p \<Rightarrow> 'p) \<Rightarrow> 'p \<Rightarrow> 'p agent_val gs_sys \<Rightarrow> 'p agent_val gs_sys option" where
  "sw_agent_get agent p f arg s = (case agent of None \<Rightarrow> None | Some _ \<Rightarrow> Some (sw_agent_get_proc p f arg s))"

definition sw_agent_get_and_update ::
  "proc_ref option \<Rightarrow> proc_ref \<Rightarrow> ('p \<Rightarrow> 'p \<Rightarrow> 'p \<times> 'p) \<Rightarrow> 'p \<Rightarrow> 'p agent_val gs_sys \<Rightarrow> 'p agent_val gs_sys option" where
  "sw_agent_get_and_update agent p f arg s = (case agent of None \<Rightarrow> None | Some _ \<Rightarrow> Some (sw_agent_get_and_update_proc p f arg s))"

definition sw_agent_update ::
  "proc_ref option \<Rightarrow> ('p \<Rightarrow> 'p \<Rightarrow> 'p) \<Rightarrow> 'p \<Rightarrow> 'p agent_val gs_sys \<Rightarrow> 'p agent_val gs_sys \<times> int" where
  "sw_agent_update agent f arg s = (case agent of None \<Rightarrow> (s, -1) | Some _ \<Rightarrow> sw_agent_update_proc f arg s)"

section \<open>The agent as an atomic cell\<close>

text \<open>The effect of a message on the value, as its sender means it.\<close>

definition agent_effect :: "'p agent_val gs_msg \<Rightarrow> 'p \<Rightarrow> 'p" where
  "agent_effect m v =
     (case m of
        (tag, B_call ref p (Ag_gau f arg)) \<Rightarrow> if tag = SW_TAG_CALL then snd (f v arg) else v
      | (tag, B_cast (Ag_update f arg)) \<Rightarrow> if tag = SW_TAG_CAST then f v arg else v
      | _ \<Rightarrow> v)"

definition agent_stops :: "'p agent_val gs_msg \<Rightarrow> bool" where
  "agent_stops m \<longleftrightarrow> gs_null (snd m) \<and> fst m = SW_TAG_NONE \<or> fst m = SW_TAG_STOP"

definition agent_value :: "'p agent_val gs_msg list \<Rightarrow> 'p \<Rightarrow> 'p" where
  "agent_value ms v = fold agent_effect (takeWhile (\<lambda>m. \<not> agent_stops m) ms) v"

text \<open>Messages as the functions above send them, and others that the server ignores.\<close>

fun agent_msg :: "'p agent_val gs_msg \<Rightarrow> bool" where
  "agent_msg (tag, body) =
     (if tag = SW_TAG_CALL then (case body of B_call _ _ (Ag_get _ _) \<Rightarrow> True | B_call _ _ (Ag_gau _ _) \<Rightarrow> True | _ \<Rightarrow> False)
      else if tag = SW_TAG_CAST then (case body of B_cast (Ag_update _ _) \<Rightarrow> True | _ \<Rightarrow> False)
      else True)"

fun agent_answer :: "'p agent_val \<Rightarrow> 'p \<Rightarrow> 'p" where
  "agent_answer (Ag_get f arg) v = f v arg"
| "agent_answer (Ag_gau f arg) v = fst (f v arg)"
| "agent_answer _ v = v"

lemma agent_handle:
  assumes "agent_msg m"
  shows "if agent_stops m then gs_handle agent_callbacks m (Ag_ptr v) = Inr (Gs_stopped (Ag_ptr v))
    else \<exists>out. gs_handle agent_callbacks m (Ag_ptr v) = Inr (Gs_continue (Ag_ptr (agent_effect m v)) out)"
proof (cases m)
  case (Pair tag body)
  show ?thesis using assms Pair
    by (cases body; cases "tag = SW_TAG_CALL"; cases "tag = SW_TAG_CAST")
      (auto simp: gs_handle_def gs_null_def gs_call_case_def gs_cast_case_def gs_info_case_def agent_callbacks_def const_simps
        agent_effect_def agent_stops_def split: agent_val.splits prod.splits)
qed

lemma agent_replay: "list_all agent_msg ms \<Longrightarrow> gs_replay agent_callbacks ms (Ag_ptr v) = Ag_ptr (agent_value ms v)"
proof (induction ms arbitrary: v)
  case (Cons m ms)
  then have "if agent_stops m then gs_handle agent_callbacks m (Ag_ptr v) = Inr (Gs_stopped (Ag_ptr v))
    else \<exists>out. gs_handle agent_callbacks m (Ag_ptr v) = Inr (Gs_continue (Ag_ptr (agent_effect m v)) out)"
    by (intro agent_handle) simp
  then show ?case using Cons by (auto simp: agent_value_def split: if_splits)
qed (simp add: agent_value_def)

text \<open>
  A request is in the memory of its caller, who frees it when the call comes back (\<^verbatim>\<open>sw_agent_get_proc\<close>, \<^verbatim>\<open>sw_agent_get_and_update_proc\<close>): it
  is valid when the agent takes it unless the call has come back without an answer.
\<close>

definition requests_valid :: "'v agent_val gs_sys \<Rightarrow> bool" where
  "requests_valid s \<longleftrightarrow> (\<forall>p ref req. (p, ref, req, None) \<in> set (h_results s) \<longrightarrow> (SW_TAG_CALL, B_call ref p req) \<notin> set (h_taken s))"

section \<open>Properties\<close>

text \<open>
  C29. An agent is an atomic cell: in every interleaving of clients that get, update, get and update, time out and stop,
  whenever a call returns a value, it is the answer of its function on the value that the updates taken before it have
  left, applied one after the other; and as long as the agent runs it holds the value that all updates taken have left.
  This is for histories in which the agent has taken no request of a call that came back without an answer: the
  caller frees its request when it gives up, so the agent would read freed memory (\<open>agent_request_freed_while_queued\<close>),
  for which the values of the model do not stand.
\<close>

theorem agent_atomic:
  assumes "gs_reach agent_callbacks (Ag_ptr v0) s" "length (h_calls s) + 1000 \<le> 2 ^ 64" "list_all agent_msg (h_taken s)"
    and "requests_valid s"
  shows "((p, ref, req, Some r) \<in> set (h_results s) \<longrightarrow>
      (\<exists>pre post. h_taken s = pre @ (SW_TAG_CALL, B_call ref p req) # post \<and> r = Ag_ptr (agent_answer req (agent_value pre v0)))) \<and>
    (srv_running s \<longrightarrow> srv_state s = Ag_ptr (agent_value (h_taken s) v0))"
proof (intro conjI impI)
  have inv: "gs_inv agent_callbacks (Ag_ptr v0) s" by (rule gs_reach_inv [OF assms(1)])
  assume "(p, ref, req, Some r) \<in> set (h_results s)"
  then have "answered agent_callbacks (Ag_ptr v0) (h_taken s) p ref req r"
    using inv assms(2) by (simp add: gs_inv_def calls_bound_def results_ok_def)
  then obtain pre post where t: "h_taken s = pre @ (SW_TAG_CALL, B_call ref p req) # post"
    "r = fst (agent_handle_call (gs_replay agent_callbacks pre (Ag_ptr v0)) p req)"
    by (auto simp: answered_def agent_callbacks_def)
  have "gs_replay agent_callbacks pre (Ag_ptr v0) = Ag_ptr (agent_value pre v0)"
    using assms(3) t(1) by (intro agent_replay) simp
  moreover have "agent_msg (SW_TAG_CALL, B_call ref p req)" using assms(3) t(1) by simp
  ultimately have "r = Ag_ptr (agent_answer req (agent_value pre v0))" using t(2) by (cases req) (simp_all split: prod.splits)
  then show "\<exists>pre post. h_taken s = pre @ (SW_TAG_CALL, B_call ref p req) # post \<and> r = Ag_ptr (agent_answer req (agent_value pre v0))"
    using t(1) by blast
next
  assume "srv_running s"
  then have "gs_replay agent_callbacks (h_taken s @ []) (Ag_ptr v0) = gs_replay agent_callbacks [] (srv_state s)"
    using gs_reach_inv [OF assms(1)] unfolding gs_inv_def running_replay_def by blast
  then show "srv_state s = Ag_ptr (agent_value (h_taken s) v0)" using agent_replay [OF assms(3), of v0] by simp
qed

definition agent_demo :: "int agent_val gs_sys" where
  "agent_demo = call_recv 1 1000 (Ag_gau (\<lambda>v a. (v, v * a)) 3)
     (serve agent_callbacks (serve agent_callbacks (call_send 1 1000 (Ag_gau (\<lambda>v a. (v, v * a)) 3)
       (sw_agent_get_and_update_proc 1 (\<lambda>v a. (v, v * a)) 3 (fst (sw_agent_update_proc (+) 2 (gs_sys0 (Ag_ptr 10))))))))"

lemmas agent_demo_simps = agent_demo_def sw_agent_get_and_update_proc_def sw_agent_update_proc_def sw_cast_proc_def gs_sys0_def
  call_ref_def call_send_def call_recv_def serve_def gs_handle_def gs_null_def gs_cast_case_def gs_call_case_def agent_callbacks_def
  const_simps Let_def

lemma agent_demo_reach: "gs_reach agent_callbacks (Ag_ptr 10) agent_demo"
proof -
  let ?r = "Ag_gau (\<lambda>v a. (v, v * a)) (3 :: int)"
  let ?a = "sw_cast_proc (Ag_update (+) 2) (gs_sys0 (Ag_ptr (10 :: int)))"
  let ?b = "call_ref 1 ?r ?a" let ?c = "call_send 1 1000 ?r ?b"
  let ?d = "serve agent_callbacks ?c" let ?e = "serve agent_callbacks ?d"
  have "gs_reach agent_callbacks (Ag_ptr 10) ?a" by (rule R_step [OF R_init G_cast])
  moreover have "cl_phase_of ?a 1 = Cl_idle" by (simp add: sw_cast_proc_def gs_sys0_def)
  ultimately have "gs_reach agent_callbacks (Ag_ptr 10) ?b" by (intro R_step [OF _ G_call])
  moreover have "cl_phase_of ?b 1 = Cl_alloc 1000 ?r" by (simp add: sw_cast_proc_def gs_sys0_def call_ref_def)
  ultimately have "gs_reach agent_callbacks (Ag_ptr 10) ?c" by (intro R_step [OF _ G_send])
  moreover have "srv_running ?c" by (simp add: agent_demo_simps)
  ultimately have "gs_reach agent_callbacks (Ag_ptr 10) ?d" by (rule R_step [OF _ G_serve])
  moreover have "srv_running ?d" by (simp add: agent_demo_simps)
  ultimately have "gs_reach agent_callbacks (Ag_ptr 10) ?e" by (rule R_step [OF _ G_serve])
  moreover have "cl_phase_of ?e 1 = Cl_wait 1000 ?r" by (simp add: agent_demo_simps)
  ultimately show ?thesis unfolding agent_demo_def sw_agent_get_and_update_proc_def sw_agent_update_proc_def fst_conv
    by (intro R_step [OF _ G_recv])
qed

theorem agent_atomic_witness:
  "h_results agent_demo = [(1, 1000, Ag_gau (\<lambda>v a. (v, v * a)) 3, Some (Ag_ptr 12))] \<and>
   srv_state agent_demo = Ag_ptr (agent_value (h_taken agent_demo) 10) \<and> srv_state agent_demo = Ag_ptr 36"
proof -
  have r: "h_results agent_demo = [(1, 1000, Ag_gau (\<lambda>v a. (v, v * a)) 3, Some (Ag_ptr 12))]" "srv_state agent_demo = Ag_ptr 36"
    "length (h_calls agent_demo) + 1000 \<le> 2 ^ 64" "list_all agent_msg (h_taken agent_demo)" "srv_running agent_demo"
    by (simp_all add: agent_demo_simps)
  have "requests_valid agent_demo" by (simp add: requests_valid_def r(1))
  then show ?thesis using r agent_atomic [OF agent_demo_reach r(3,4)] by blast
qed

text \<open>
  A client that times out frees its request, which is still in the agent's queue: the agent will read freed memory.
\<close>

theorem agent_request_freed_while_queued:
  "\<exists>s. gs_reach agent_callbacks (Ag_ptr v0) s \<and> (p, 1000, Ag_get f arg, None) \<in> set (h_results s) \<and>
     (SW_TAG_CALL, B_call 1000 p (Ag_get f arg)) \<in> set (srv_queue s)"
proof -
  let ?r = "Ag_get f arg" let ?a = "sw_agent_get_proc p f arg (gs_sys0 (Ag_ptr v0))"
  let ?b = "call_send p 1000 ?r ?a" let ?c = "call_recv p 1000 ?r ?b"
  have "gs_reach agent_callbacks (Ag_ptr v0) ?a"
    unfolding sw_agent_get_proc_def by (rule R_step [OF R_init G_call]) (simp add: gs_sys0_def)
  moreover have "cl_phase_of ?a p = Cl_alloc 1000 ?r" by (simp add: sw_agent_get_proc_def call_ref_def gs_sys0_def Let_def)
  ultimately have "gs_reach agent_callbacks (Ag_ptr v0) ?b" by (intro R_step [OF _ G_send])
  then have "gs_reach agent_callbacks (Ag_ptr v0) ?c" by (intro R_step [OF _ G_recv]) (simp_all add: call_send_def)
  then show ?thesis
    by (intro exI [of _ ?c]) (simp add: call_recv_def call_send_def sw_agent_get_proc_def call_ref_def gs_sys0_def Let_def)
qed

end
