(* ===== verification/Application.thy ===== *)
theory Application
  imports Supervisor Registry
begin

text \<open>
  Applications of \<^verbatim>\<open>src/src/swarmrt_phase4.c\<close>: a controller process that starts a root supervisor under the name of the
  application, registers itself under that name with \<^verbatim>\<open>_app\<close> behind it, and waits for a stop or for the end of the
  supervisor.
\<close>

section \<open>Start\<close>

record sw_app_spec =
  ap_name :: string
  ap_children :: "sw_child_spec list"
  ap_strategy :: sw_restart_strategy
  ap_max_restarts :: u32
  ap_max_seconds :: u32

record sw_app_init =
  ai_name :: string
  ai_sup_name :: string
  ai_sup_spec :: sw_sup_spec

text \<open>The block is cleared before the names are copied; children beyond the room for them are dropped.\<close>

definition app_init :: "sw_app_spec \<Rightarrow> sw_app_init" where
  "app_init spec =
     \<lparr>ai_name = strncpy (ap_name spec) (SW_REG_NAME_MAX - 1), ai_sup_name = strncpy (ap_name spec) (SW_REG_NAME_MAX - 1),
      ai_sup_spec =
        \<lparr>sup_strategy = ap_strategy spec,
         max_restarts = (if ap_max_restarts spec \<noteq> 0 then ap_max_restarts spec else 3),
         max_seconds = (if ap_max_seconds spec \<noteq> 0 then ap_max_seconds spec else 5),
         sup_children = take SW_MAX_CHILDREN (ap_children spec)\<rparr>\<rparr>"

text \<open>\<open>spawn\<close> starts the controller and links it; the second result is the process unlinked again.\<close>

definition sw_app_start ::
  "(sw_app_init \<Rightarrow> proc_ref option) \<Rightarrow> proc_ref option \<Rightarrow> sw_app_spec option \<Rightarrow> proc_ref option \<times> proc_ref option" where
  "sw_app_start spawn self spec =
     (case spec of
        None \<Rightarrow> (None, None)
      | Some sp \<Rightarrow> let p = spawn (app_init sp) in (p, if self \<noteq> None then p else None))"

section \<open>Controller\<close>

definition ctrl_name :: "string \<Rightarrow> string" where
  "ctrl_name name = take (SW_REG_NAME_MAX - 1) (name @ ''_app'')"

datatype app_msg = Ap_killed | Ap_stop | Ap_exit | Ap_other

text \<open>
  The loop on the messages that arrive: the stop it forwards, and what is left when it ends, or \<^term>\<open>None\<close> while it waits.
  Unlike the other servers it does not look for the empty message of a killed process.
\<close>

fun app_loop :: "string \<Rightarrow> app_msg list \<Rightarrow> (string \<times> u64) list \<times> app_msg list option" where
  "app_loop sup_name [] = ([], None)"
| "app_loop sup_name (Ap_stop # ms) = ([(sup_name, SW_TAG_STOP)], Some ms)"
| "app_loop sup_name (Ap_exit # ms) = ([], Some ms)"
| "app_loop sup_name (Ap_other # ms) = app_loop sup_name ms"
| "app_loop sup_name (Ap_killed # ms) = app_loop sup_name ms"

text \<open>
  The controller \<open>ctl\<close> registers itself and starts the supervisor, \<open>root\<close> when that succeeds, which registers itself.
\<close>

definition app_controller_entry ::
  "sw_app_init \<Rightarrow> proc_ref \<Rightarrow> proc_ref option \<Rightarrow> app_msg list \<Rightarrow> sw_registry \<Rightarrow> sw_registry \<times> (string \<times> u64) list \<times> app_msg list option" where
  "app_controller_entry init ctl root ms rg =
     (let rg = fst (sw_register (ctrl_name (ai_name init)) ctl rg)
      in case root of
           None \<Rightarrow> (rg, [], Some ms)
         | Some sv \<Rightarrow>
             (if ai_sup_name init \<noteq> [] then fst (sw_register (ai_sup_name init) sv rg) else rg, app_loop (ai_sup_name init) ms))"

definition sw_app_stop :: "string \<Rightarrow> sw_registry \<Rightarrow> int \<times> (proc_ref \<times> u64 \<times> 'p option) option" where
  "sw_app_stop name rg = sw_send_named (ctrl_name name) SW_TAG_STOP None rg"

definition sw_app_get_supervisor :: "string \<Rightarrow> sw_registry \<Rightarrow> proc_ref option" where
  "sw_app_get_supervisor name rg = sw_whereis name rg"

section \<open>Names\<close>

lemma ctrl_name_valid: "valid_name (ctrl_name name)"
  by (simp add: valid_name_def ctrl_name_def const_simps)

lemma ctrl_name_trunc: "ctrl_name (strncpy name (SW_REG_NAME_MAX - 1)) = ctrl_name name"
  by (simp add: ctrl_name_def strncpy_def const_simps min_def)

text \<open>The two names differ exactly when the name of the application leaves room for more.\<close>

lemma ctrl_name_differs: "ctrl_name name = strncpy name (SW_REG_NAME_MAX - 1) \<longleftrightarrow> SW_REG_NAME_MAX - 1 \<le> length name"
proof
  assume eq: "ctrl_name name = strncpy name (SW_REG_NAME_MAX - 1)"
  show "SW_REG_NAME_MAX - 1 \<le> length name"
  proof (rule ccontr)
    assume "\<not> SW_REG_NAME_MAX - 1 \<le> length name"
    then have "length (ctrl_name name) > length name" "length (strncpy name (SW_REG_NAME_MAX - 1)) = length name"
      by (simp_all add: ctrl_name_def strncpy_def const_simps)
    then show False using eq by simp
  qed
qed (simp add: ctrl_name_def strncpy_def)

lemma kill_range_dead:
  "\<forall>i\<in>set is. i < length cs \<Longrightarrow> j \<in> set is \<or> \<not> ch_alive (cs ! j) \<or> ch_proc (cs ! j) = None \<Longrightarrow> j < length cs \<Longrightarrow>
    \<not> ch_alive (fst (kill_range is cs e) ! j) \<or> ch_proc (fst (kill_range is cs e) ! j) = None"
proof (induction "is" arbitrary: cs e)
  case (Cons i "is")
  obtain c e' where k: "sup_kill_child (cs ! i) e = (c, e')" by (cases "sup_kill_child (cs ! i) e")
  then have c: "\<not> ch_alive c \<or> ch_proc c = None" by (auto simp: sup_kill_child_def split: if_splits option.splits)
  have "j \<in> set is \<or> \<not> ch_alive (cs[i := c] ! j) \<or> ch_proc (cs[i := c] ! j) = None"
    using Cons.prems c by (cases "i = j") auto
  then show ?case using Cons.IH [of "cs[i := c]" e'] Cons.prems k by simp
qed simp

lemma kill_range_length: "length (fst (kill_range is cs e)) = length cs"
  by (induction "is" arbitrary: cs e) (simp_all split: prod.split)

lemma stop_kills_all:
  assumes "sup_step now M_stop st e = (st', e', r)"
  shows "r = Sup_ends 0 \<and> (\<forall>c\<in>set (st_children st'). \<not> ch_alive c \<or> ch_proc c = None)"
proof -
  obtain cs e1 where k: "kill_range [0..<length (st_children st)] (st_children st) e = (cs, e1)"
    by (cases "kill_range [0..<length (st_children st)] (st_children st) e")
  have len: "length cs = length (st_children st)" using kill_range_length [of _ "st_children st" e] k by (metis fst_conv)
  have "\<not> ch_alive (cs ! j) \<or> ch_proc (cs ! j) = None" if "j < length (st_children st)" for j
    using kill_range_dead [of "[0..<length (st_children st)]" "st_children st" j e] that k by simp
  then show ?thesis using assms k len by (auto simp: in_set_conv_nth)
qed

section \<open>Properties\<close>

text \<open>
  Stopping an application stops its tree. The supervisor of an application never gets more children than its array
  holds. Once the controller runs, with a name of fewer than 63 characters that is free (and so is the one with \<open>_app\<close>
  behind it): a stop of the application reaches the controller; the controller, whatever else it was sent before, forwards
  it to the name of the application, which is that of the supervisor; and the supervisor then ends with no child running.
\<close>

theorem app_stop_stops_tree:
  assumes "reg_inv rg" "ap_name spec = name" "name \<noteq> []" "length name < SW_REG_NAME_MAX - 1"
    and "sw_whereis name rg = None" "sw_whereis (ctrl_name name) rg = None" "rg_entry rg ctl = None" "rg_entry rg sv = None" "ctl \<noteq> sv"
    and "Ap_stop \<notin> set early" "Ap_exit \<notin> set early"
    and run: "app_controller_entry (app_init spec) ctl (Some sv) (early @ Ap_stop # behind) rg = (rg', sent, rest)"
    and stop: "sup_step now M_stop st e = (st', e', next)"
  shows "(\<exists>st0 e0. sup_start (ai_sup_spec (app_init spec)) e = Inr (st0, e0)) \<and>
    sw_app_stop name rg' = (0, Some (ctl, SW_TAG_STOP, None :: 'p option)) \<and>
    sent = [(name, SW_TAG_STOP)] \<and> rest = Some behind \<and>
    sw_send_named name SW_TAG_STOP (None :: 'p option) rg' = (0, Some (sv, SW_TAG_STOP, None)) \<and> sw_app_get_supervisor name rg' = Some sv \<and>
    next = Sup_ends 0 \<and> (\<forall>c\<in>set (st_children st'). \<not> ch_alive c \<or> ch_proc c = None)"
proof -
  let ?c = "ctrl_name name" and ?rg = "fst (sw_register (ctrl_name name) ctl rg)"
  have names: "ai_name (app_init spec) = name" "ai_sup_name (app_init spec) = name" using assms(2,4) by (simp_all add: app_init_def)
  have v: "valid_name name" "valid_name ?c" using assms(4) ctrl_name_valid by (simp_all add: valid_name_def)
  have ne: "?c \<noteq> name" using ctrl_name_differs [of name] assms(4) by simp
  have 1: "reg_inv ?rg" "rg_entry ?rg sv = None" "sw_whereis name ?rg = None" "sw_whereis ?c ?rg = Some ctl"
    using register_inv [OF assms(1) v(2)] register_entry [OF assms(1) v(2) assms(7,6)] whereis_register [OF assms(1) v(2) _ assms(7,6)]
      assms(5,8,9) v ne by simp_all
  have loop: "app_loop name (early @ Ap_stop # behind) = ([(name, SW_TAG_STOP)], Some behind)"
    using assms(10,11) by (induction early) (auto elim: app_msg.exhaust, metis app_loop.simps(4,5) app_msg.exhaust)
  have rg': "rg' = fst (sw_register name sv ?rg)" "sent = [(name, SW_TAG_STOP)]" "rest = Some behind"
    using run assms(3) loop by (simp_all add: app_controller_entry_def names Let_def)
  have w: "sw_whereis name rg' = Some sv" "sw_whereis ?c rg' = Some ctl"
    using whereis_register [OF 1(1) v(1) _ 1(2,3)] v ne 1(4) by (simp_all add: rg'(1))
  have "length (sup_children (ai_sup_spec (app_init spec))) \<le> SW_MAX_CHILDREN" by (simp add: app_init_def)
  then have "\<exists>st0 e0. sup_start (ai_sup_spec (app_init spec)) e = Inr (st0, e0)" by (simp add: sup_start_def Let_def split: prod.split)
  then show ?thesis using stop_kills_all [OF stop] w rg'
    by (simp add: sw_app_stop_def sw_send_named_def sw_app_get_supervisor_def const_simps)
qed

definition shop_spec :: sw_app_spec where
  "shop_spec = \<lparr>ap_name = ''shop'', ap_children = [\<lparr>cs_name = [], start_func = 7, start_arg = 0, cs_restart = SW_PERMANENT\<rparr>],
     ap_strategy = SW_ONE_FOR_ONE, ap_max_restarts = 0, ap_max_seconds = 0\<rparr>"

definition shop_state :: sw_sup_state where
  "shop_state = (sup_init_state (ai_sup_spec (app_init shop_spec)))\<lparr>st_children :=
     [\<lparr>ch_spec = \<lparr>cs_name = [], start_func = 7, start_arg = 0, cs_restart = SW_PERMANENT\<rparr>, ch_proc = Some 5, monitor_ref = 1, ch_alive = True\<rparr>]\<rparr>"

definition shop_env :: sup_env where
  "shop_env = \<lparr>se_spawns = [Some (5, 1)], se_log = []\<rparr>"

theorem app_stop_stops_tree_witness:
  "case app_controller_entry (app_init shop_spec) 1 (Some 2) [Ap_other, Ap_stop] registry_init of
     (rg', sent, rest) \<Rightarrow> sw_app_stop ''shop'' rg' = (0, Some (1, SW_TAG_STOP, None :: unit option)) \<and> sent = [(''shop'', SW_TAG_STOP)] \<and>
       (case sup_step 9 M_stop shop_state shop_env of (st', e', next) \<Rightarrow>
          next = Sup_ends 0 \<and> list_all (\<lambda>c. ch_alive c = False \<or> ch_proc c = None) (st_children st'))"
proof -
  obtain rg' sent rest where r: "app_controller_entry (app_init shop_spec) 1 (Some 2) ([Ap_other] @ Ap_stop # []) registry_init = (rg', sent, rest)"
    by (cases "app_controller_entry (app_init shop_spec) 1 (Some 2) ([Ap_other] @ Ap_stop # []) registry_init") auto
  obtain st' e' n where s: "sup_step 9 M_stop shop_state shop_env = (st', e', n)" by (cases "sup_step 9 M_stop shop_state shop_env") auto
  have "sw_whereis m registry_init = None" "rg_entry registry_init p = None" for m p
    by (simp_all add: sw_whereis_def registry_init_def)
  then show ?thesis
    using app_stop_stops_tree [OF registry_init_inv, where name = "''shop''" and 'p = unit, OF _ _ _ _ _ _ _ _ _ _ r s] r s
    by (simp add: shop_spec_def const_simps list_all_iff)
qed

text \<open>With a name that fills the buffer the controller and the supervisor have the same name.\<close>

theorem app_names_clash: "SW_REG_NAME_MAX - 1 \<le> length (ap_name spec) \<Longrightarrow>
    ctrl_name (ai_name (app_init spec)) = ai_sup_name (app_init spec)"
  using ctrl_name_differs [of "ap_name spec"] ctrl_name_trunc [of "ap_name spec"] by (simp add: app_init_def)

end
