(* ===== verification/Dynsup.thy ===== *)
theory Dynsup
  imports Supervisor
begin

text \<open>
  The dynamic supervisor of \<^verbatim>\<open>src/src/swarmrt_phase4.c\<close>: children that come and go at run time, kept in a linked list,
  with the restart policies and the circuit breaker of the static supervisor. What it asks of the runtime, and the replies
  it sends, are logged in order; the results of its spawns (a process and the reference of its monitor, or a failure) are a
  supply that the model consumes.
\<close>

section \<open>State\<close>

definition SW_DYNSUP_MAX_CHILDREN :: u32 where [const_simps]: "SW_DYNSUP_MAX_CHILDREN = 4096"

record sw_dynsup_spec =
  dy_max_restarts :: u32
  dy_max_seconds :: u32
  dy_max_children :: u32

record sw_dynsup_child =
  dc_spec :: sw_child_spec
  dc_proc :: "proc_ref option"
  dc_ref :: u64

record sw_dynsup_state =
  dy_spec :: sw_dynsup_spec
  dy_name :: string
  dy_children :: "sw_dynsup_child list"
  dy_child_count :: u32
  dy_times :: "u32 list"
  dy_idx :: u32
  dy_count :: u32

datatype dy_reply = R_null | R_proc proc_ref | R_one | R_count u32

datatype dy_action =
    D_spawn u64 u64 "(proc_ref \<times> u64) option"
  | D_register string proc_ref
  | D_demonitor u64
  | D_unlink proc_ref
  | D_kill proc_ref int
  | D_reply proc_ref u64 dy_reply

record dy_env =
  de_spawns :: "(proc_ref \<times> u64) option list"
  de_log :: "dy_action list"
  de_restarts :: "u32 list"

definition dlog :: "dy_action \<Rightarrow> dy_env \<Rightarrow> dy_env" where
  "dlog a e = e\<lparr>de_log := de_log e @ [a]\<rparr>"

section \<open>Circuit breaker\<close>

fun dynsup_breaker_loop :: "sw_dynsup_state \<Rightarrow> u32 \<Rightarrow> u32 \<Rightarrow> nat \<Rightarrow> nat \<Rightarrow> nat" where
  "dynsup_breaker_loop st now window i 0 = 0"
| "dynsup_breaker_loop st now window i (Suc n) =
     (let idx = unat ((dy_idx st - 1 - of_nat i + 64) mod 64)
      in if now - dy_times st ! idx \<le> window then Suc (dynsup_breaker_loop st now window (Suc i) n) else 0)"

definition dynsup_check_circuit_breaker :: "u32 \<Rightarrow> sw_dynsup_state \<Rightarrow> bool" where
  "dynsup_check_circuit_breaker now st =
     (if dy_max_restarts (dy_spec st) = 0 then False
      else let window = (if dy_max_seconds (dy_spec st) = 0 then 1 else dy_max_seconds (dy_spec st))
           in unat (dy_max_restarts (dy_spec st)) \<le> dynsup_breaker_loop st now window 0 (min (unat (dy_count st)) 64))"

definition dynsup_record_restart :: "u32 \<Rightarrow> sw_dynsup_state \<Rightarrow> sw_dynsup_state" where
  "dynsup_record_restart now st =
     st\<lparr>dy_times := (dy_times st)[unat (dy_idx st) := now],
        dy_idx := (dy_idx st + 1) mod 64,
        dy_count := (if dy_count st < 64 then dy_count st + 1 else dy_count st)\<rparr>"

section \<open>Children\<close>

definition dynsup_kill_child :: "sw_dynsup_child \<Rightarrow> dy_env \<Rightarrow> dy_env" where
  "dynsup_kill_child c e =
     (case dc_proc c of
        None \<Rightarrow> e
      | Some p \<Rightarrow> dlog (D_kill p (-1)) (dlog (D_unlink p) (dlog (D_demonitor (dc_ref c)) e)))"

definition dynsup_kill_all :: "sw_dynsup_state \<Rightarrow> dy_env \<Rightarrow> sw_dynsup_state \<times> dy_env" where
  "dynsup_kill_all st e = (st\<lparr>dy_children := [], dy_child_count := 0\<rparr>, fold dynsup_kill_child (dy_children st) e)"

text \<open>Removal of the first child that fits, and the child that was removed.\<close>

definition dynsup_remove :: "(sw_dynsup_child \<Rightarrow> bool) \<Rightarrow> sw_dynsup_state \<Rightarrow> sw_dynsup_state \<times> sw_dynsup_child option" where
  "dynsup_remove P st =
     (case find P (dy_children st) of
        None \<Rightarrow> (st, None)
      | Some c \<Rightarrow> (st\<lparr>dy_children := remove_first P (dy_children st), dy_child_count := dy_child_count st - 1\<rparr>, Some c))"

definition dynsup_remove_child :: "sw_dynsup_state \<Rightarrow> proc_ref \<Rightarrow> sw_dynsup_state \<times> sw_dynsup_child option" where
  "dynsup_remove_child st p = dynsup_remove (\<lambda>c. dc_proc c = Some p) st"

definition dynsup_remove_by_ref :: "sw_dynsup_state \<Rightarrow> u64 \<Rightarrow> sw_dynsup_state \<times> sw_dynsup_child option" where
  "dynsup_remove_by_ref st ref = dynsup_remove (\<lambda>c. dc_ref c = ref) st"

definition dynsup_find_by_ref :: "sw_dynsup_state \<Rightarrow> u64 \<Rightarrow> sw_dynsup_child option" where
  "dynsup_find_by_ref st ref = find (\<lambda>c. dc_ref c = ref) (dy_children st)"

text \<open>A spawn with its monitor, and the registration of the name.\<close>

definition dy_spawn :: "sw_child_spec \<Rightarrow> dy_env \<Rightarrow> (proc_ref \<times> u64) option \<times> dy_env" where
  "dy_spawn spec e =
     (case de_spawns e of
        [] \<Rightarrow> (None, dlog (D_spawn (start_func spec) (start_arg spec) None) e)
      | r # rest \<Rightarrow> (r, dlog (D_spawn (start_func spec) (start_arg spec) r) (e\<lparr>de_spawns := rest\<rparr>)))"

definition dy_register :: "sw_child_spec \<Rightarrow> proc_ref \<Rightarrow> dy_env \<Rightarrow> dy_env" where
  "dy_register spec p e = (if cs_name spec \<noteq> [] then dlog (D_register (cs_name spec) p) e else e)"

section \<open>The supervisor process\<close>

datatype dy_op = Op_start_child sw_child_spec | Op_term_child proc_ref | Op_count

datatype dy_msg =
    Dm_killed
  | Dm_call proc_ref u64 dy_op
  | Dm_down u64 int
  | Dm_exit
  | Dm_stop
  | Dm_other

definition dynsup_init :: "sw_dynsup_spec \<Rightarrow> string \<Rightarrow> sw_dynsup_state" where
  "dynsup_init spec name =
     \<lparr>dy_spec = spec, dy_name = strncpy name (SW_REG_NAME_MAX - 1), dy_children = [], dy_child_count = 0,
      dy_times = replicate 64 0, dy_idx = 0, dy_count = 0\<rparr>"

definition dy_limit :: "sw_dynsup_spec \<Rightarrow> u32" where
  "dy_limit spec = (if dy_max_children spec = 0 then SW_DYNSUP_MAX_CHILDREN else dy_max_children spec)"

definition dy_start_child :: "proc_ref \<Rightarrow> u64 \<Rightarrow> sw_child_spec \<Rightarrow> sw_dynsup_state \<Rightarrow> dy_env \<Rightarrow> sw_dynsup_state \<times> dy_env" where
  "dy_start_child from ref spec st e =
     (if dy_limit (dy_spec st) \<le> dy_child_count st then (st, dlog (D_reply from ref R_null) e)
      else case dy_spawn spec e of
             (None, e) \<Rightarrow> (st, dlog (D_reply from ref R_null) e)
           | (Some (p, mref), e) \<Rightarrow>
               (st\<lparr>dy_children := \<lparr>dc_spec = spec, dc_proc = Some p, dc_ref = mref\<rparr> # dy_children st,
                   dy_child_count := dy_child_count st + 1\<rparr>,
                dlog (D_reply from ref (R_proc p)) (dy_register spec p e)))"

definition dy_term_child :: "proc_ref \<Rightarrow> u64 \<Rightarrow> proc_ref \<Rightarrow> sw_dynsup_state \<Rightarrow> dy_env \<Rightarrow> sw_dynsup_state \<times> dy_env" where
  "dy_term_child from ref child st e =
     (case dynsup_remove_child st child of
        (st, Some node) \<Rightarrow> (st, dlog (D_reply from ref R_one) (dynsup_kill_child node e))
      | (st, None) \<Rightarrow> (st, dlog (D_reply from ref R_null) e))"

fun dy_call :: "proc_ref \<Rightarrow> u64 \<Rightarrow> dy_op \<Rightarrow> sw_dynsup_state \<Rightarrow> dy_env \<Rightarrow> sw_dynsup_state \<times> dy_env" where
  "dy_call from ref (Op_start_child spec) st e = dy_start_child from ref spec st e"
| "dy_call from ref (Op_term_child child) st e = dy_term_child from ref child st e"
| "dy_call from ref Op_count st e = (st, dlog (D_reply from ref (R_count (dy_child_count st))) e)"

text \<open>A write to the node that a search by reference found.\<close>

fun dy_replace :: "u64 \<Rightarrow> (sw_dynsup_child \<Rightarrow> sw_dynsup_child) \<Rightarrow> sw_dynsup_child list \<Rightarrow> sw_dynsup_child list" where
  "dy_replace ref f [] = []"
| "dy_replace ref f (c # cs) = (if dc_ref c = ref then f c # cs else c # dy_replace ref f cs)"

text \<open>
  The report of a dead child. The child found keeps its place in the list when it is restarted; the process pointer is
  cleared first, so that the breaker's kill of all children passes it over.
\<close>

definition dy_down :: "u32 \<Rightarrow> u64 \<Rightarrow> int \<Rightarrow> sw_dynsup_state \<Rightarrow> dy_env \<Rightarrow> sw_dynsup_state \<times> dy_env \<times> sup_next" where
  "dy_down now ref reason st e =
     (case dynsup_find_by_ref st ref of
        None \<Rightarrow> (st, e, Sup_goes_on)
      | Some child \<Rightarrow>
          let st = st\<lparr>dy_children := dy_replace ref (\<lambda>c. c\<lparr>dc_proc := None\<rparr>) (dy_children st)\<rparr>
          in if \<not> should_restart (cs_restart (dc_spec child)) reason then (fst (dynsup_remove_by_ref st ref), e, Sup_goes_on)
             else if dynsup_check_circuit_breaker now st then
               (case dynsup_kill_all st e of (st, e) \<Rightarrow> (st, e, Sup_ends (-2)))
             else
               let st = dynsup_record_restart now st; e = e\<lparr>de_restarts := de_restarts e @ [now]\<rparr>
               in case dy_spawn (dc_spec child) e of
                    (None, e) \<Rightarrow> (fst (dynsup_remove_by_ref st ref), e, Sup_goes_on)
                  | (Some (p, mref), e) \<Rightarrow>
                      (st\<lparr>dy_children := dy_replace ref (\<lambda>c. c\<lparr>dc_proc := Some p, dc_ref := mref\<rparr>) (dy_children st)\<rparr>,
                       dy_register (dc_spec child) p e, Sup_goes_on))"

fun dynsup_step :: "u32 \<Rightarrow> dy_msg \<Rightarrow> sw_dynsup_state \<Rightarrow> dy_env \<Rightarrow> sw_dynsup_state \<times> dy_env \<times> sup_next" where
  "dynsup_step now Dm_killed st e = (st, e, Sup_ends 0)"
| "dynsup_step now (Dm_call from ref op) st e = (case dy_call from ref op st e of (st, e) \<Rightarrow> (st, e, Sup_goes_on))"
| "dynsup_step now (Dm_down ref reason) st e = dy_down now ref reason st e"
| "dynsup_step now Dm_exit st e = (st, e, Sup_goes_on)"
| "dynsup_step now Dm_stop st e = (case dynsup_kill_all st e of (st, e) \<Rightarrow> (st, e, Sup_ends 0))"
| "dynsup_step now Dm_other st e = (st, e, Sup_goes_on)"

text \<open>The loop on the messages that arrive, with the clock at each: the state it ends in, and whether it still waits.\<close>

fun dynsup_loop :: "(u32 \<times> dy_msg) list \<Rightarrow> sw_dynsup_state \<Rightarrow> dy_env \<Rightarrow> sw_dynsup_state \<times> dy_env \<times> sup_next" where
  "dynsup_loop [] st e = (st, e, Sup_goes_on)"
| "dynsup_loop ((now, m) # ms) st e =
     (case dynsup_step now m st e of
        (st, e, Sup_goes_on) \<Rightarrow> dynsup_loop ms st e
      | (st, e, Sup_ends r) \<Rightarrow> (st, e, Sup_ends r))"

text \<open>The process \<open>self\<close>: it traps exits, which is why they arrive as messages, registers its name and runs the loop.\<close>

definition dynsup_entry ::
  "sw_dynsup_spec \<Rightarrow> string \<Rightarrow> proc_ref \<Rightarrow> (u32 \<times> dy_msg) list \<Rightarrow> dy_env \<Rightarrow> sw_dynsup_state \<times> dy_env \<times> sup_next" where
  "dynsup_entry spec name self ms e =
     dynsup_loop ms (dynsup_init spec name) (if name \<noteq> [] then dlog (D_register name self) e else e)"

text \<open>Start-up: the block given to the new process, which \<open>spawn\<close> starts and links; without a link it is unlinked again.\<close>

definition sw_dynsup_start_link ::
  "(sw_dynsup_spec \<times> name_buf \<Rightarrow> proc_ref option) \<Rightarrow> string option \<Rightarrow> sw_dynsup_spec \<Rightarrow> proc_ref option" where
  "sw_dynsup_start_link spawn name spec = spawn (spec, name_init name)"

definition sw_dynsup_start ::
  "(sw_dynsup_spec \<times> name_buf \<Rightarrow> proc_ref option) \<Rightarrow> proc_ref option \<Rightarrow> string option \<Rightarrow> sw_dynsup_spec \<Rightarrow>
     proc_ref option \<times> dy_action list" where
  "sw_dynsup_start spawn self name spec =
     (case spawn (spec, name_init name) of
        Some p \<Rightarrow> (Some p, if self \<noteq> None then [D_unlink p] else [])
      | None \<Rightarrow> (None, []))"

section \<open>Clients\<close>

text \<open>
  The client side, over the call of a generic server: \<open>call\<close> sends the request to the supervisor and gives its reply, or
  \<^term>\<open>None\<close> when there is none within 5 seconds. A null pointer is \<^term>\<open>None\<close>.
\<close>

definition sw_dynsup_start_child_proc ::
  "(proc_ref \<Rightarrow> dy_op \<Rightarrow> dy_reply option) \<Rightarrow> proc_ref option \<Rightarrow> sw_child_spec option \<Rightarrow> proc_ref option" where
  "sw_dynsup_start_child_proc call sv spec =
     (case (sv, spec) of
        (Some s, Some sp) \<Rightarrow> (case call s (Op_start_child sp) of Some (R_proc p) \<Rightarrow> Some p | _ \<Rightarrow> None)
      | _ \<Rightarrow> None)"

definition sw_dynsup_terminate_child_proc ::
  "(proc_ref \<Rightarrow> dy_op \<Rightarrow> dy_reply option) \<Rightarrow> proc_ref option \<Rightarrow> proc_ref option \<Rightarrow> int" where
  "sw_dynsup_terminate_child_proc call sv child =
     (case (sv, child) of
        (Some s, Some c) \<Rightarrow> (case call s (Op_term_child c) of Some R_one \<Rightarrow> 0 | _ \<Rightarrow> -1)
      | _ \<Rightarrow> -1)"

definition sw_dynsup_count_children_proc :: "(proc_ref \<Rightarrow> dy_op \<Rightarrow> dy_reply option) \<Rightarrow> proc_ref option \<Rightarrow> u32" where
  "sw_dynsup_count_children_proc call sv =
     (case sv of None \<Rightarrow> 0 | Some s \<Rightarrow> (case call s Op_count of Some (R_count n) \<Rightarrow> n | _ \<Rightarrow> 0))"

definition sw_dynsup_start_child ::
  "(string \<Rightarrow> proc_ref option) \<Rightarrow> (proc_ref \<Rightarrow> dy_op \<Rightarrow> dy_reply option) \<Rightarrow> string \<Rightarrow> sw_child_spec option \<Rightarrow> proc_ref option" where
  "sw_dynsup_start_child whereis call name spec = sw_dynsup_start_child_proc call (whereis name) spec"

definition sw_dynsup_terminate_child ::
  "(string \<Rightarrow> proc_ref option) \<Rightarrow> (proc_ref \<Rightarrow> dy_op \<Rightarrow> dy_reply option) \<Rightarrow> string \<Rightarrow> proc_ref option \<Rightarrow> int" where
  "sw_dynsup_terminate_child whereis call name child = sw_dynsup_terminate_child_proc call (whereis name) child"

definition sw_dynsup_count_children ::
  "(string \<Rightarrow> proc_ref option) \<Rightarrow> (proc_ref \<Rightarrow> dy_op \<Rightarrow> dy_reply option) \<Rightarrow> string \<Rightarrow> u32" where
  "sw_dynsup_count_children whereis call name = sw_dynsup_count_children_proc call (whereis name)"

section \<open>What happens to a process once it is started\<close>

fun spawned_of :: "dy_action \<Rightarrow> (proc_ref \<times> u64) list" where
  "spawned_of (D_spawn _ _ (Some x)) = [x]"
| "spawned_of _ = []"

definition dy_spawned :: "dy_action list \<Rightarrow> (proc_ref \<times> u64) list" where
  "dy_spawned log = concat (map spawned_of log)"

definition successes :: "'a option list \<Rightarrow> 'a list" where
  "successes xs = map the (filter (\<lambda>x. x \<noteq> None) xs)"

definition supervised :: "sw_dynsup_child list \<Rightarrow> (proc_ref \<times> u64) set" where
  "supervised cs = (\<lambda>c. (the (dc_proc c), dc_ref c)) ` set cs"

definition kill_log :: "proc_ref \<times> u64 \<Rightarrow> dy_action list" where
  "kill_log x = [D_demonitor (snd x), D_unlink (fst x), D_kill (fst x) (-1)]"

definition dead :: "dy_msg list \<Rightarrow> dy_action list \<Rightarrow> proc_ref \<times> u64 \<Rightarrow> bool" where
  "dead ms log x \<longleftrightarrow> set (kill_log x) \<subseteq> set log \<or> (\<exists>r. Dm_down (snd x) r \<in> set ms)"

definition let_go :: "dy_action list \<Rightarrow> u64 set" where
  "let_go log = {r. D_demonitor r \<in> set log}"

text \<open>References are new, each child is a process that was started, and each process started is a child or dead.\<close>

definition core :: "dy_msg list \<Rightarrow> sw_dynsup_child list \<Rightarrow> dy_action list \<Rightarrow> (proc_ref \<times> u64) option list \<Rightarrow> bool" where
  "core ms cs log sp \<longleftrightarrow>
     distinct (map snd (dy_spawned log) @ map snd (successes sp)) \<and> distinct (map dc_ref cs) \<and>
     (\<forall>c\<in>set cs. dc_proc c \<noteq> None) \<and> supervised cs \<subseteq> set (dy_spawned log) \<and> dc_ref ` set cs \<inter> let_go log = {} \<and>
     let_go log \<subseteq> snd ` set (dy_spawned log) \<and> (\<forall>x\<in>set (dy_spawned log). x \<in> supervised cs \<or> dead ms log x)"

lemma spawned_append [simp]: "dy_spawned (xs @ ys) = dy_spawned xs @ dy_spawned ys"
  by (simp add: dy_spawned_def)

lemma successes_Cons [simp]: "successes (None # sp) = successes sp" "successes (Some x # sp) = x # successes sp" "successes [] = []"
  by (simp_all add: successes_def)

lemma let_go_append [simp]: "let_go (xs @ ys) = let_go xs \<union> let_go ys"
  by (auto simp: let_go_def)

lemma dead_log: "dead ms log x \<Longrightarrow> dead ms (log @ l) x"
  by (auto simp: dead_def)

lemma dead_msg: "dead ms log x \<Longrightarrow> dead (ms @ l) log x"
  by (auto simp: dead_def)

lemma core_msg: "core ms cs log sp \<Longrightarrow> core (ms @ l) cs log sp"
  by (auto simp: core_def dead_msg)

lemma core_note:
  assumes "core ms cs log sp" "spawned_of a = []" "\<And>r. a \<noteq> D_demonitor r"
  shows "core ms cs (log @ [a]) sp"
proof -
  have "dy_spawned [a] = []" "let_go [a] = {}" using assms(2,3) by (auto simp: dy_spawned_def let_go_def)
  then show ?thesis using assms(1) by (auto simp: core_def dead_log)
qed

lemma core_None: "core ms cs log (None # sp) = core ms cs log sp"
  by (simp add: core_def)

lemma core_fail: "core ms cs log sp \<Longrightarrow> core ms cs (log @ [D_spawn f a None]) sp"
  by (rule core_note) simp_all

lemma supervised_append [simp]: "supervised (cs @ cs') = supervised cs \<union> supervised cs'"
  "supervised (c # cs) = insert (the (dc_proc c), dc_ref c) (supervised cs)"
  by (auto simp: supervised_def)

lemma refs_supervised: "dc_ref ` set cs = snd ` supervised cs"
  by (force simp: supervised_def)

lemma core_spawn:
  assumes c: "core ms (cs @ cs') log (Some (p, r) # sp)"
  shows "core ms (cs @ \<lparr>dc_spec = s, dc_proc = Some p, dc_ref = r\<rparr> # cs') (log @ [D_spawn f a (Some (p, r))]) sp"
proof -
  have l: "dy_spawned [D_spawn f a (Some (p, r))] = [(p, r)]" "let_go [D_spawn f a (Some (p, r))] = {}"
    by (auto simp: dy_spawned_def let_go_def)
  have new: "r \<notin> snd ` set (dy_spawned log)" using c by (auto simp: core_def)
  then have "r \<notin> let_go log" using c unfolding core_def by blast
  moreover have "r \<notin> dc_ref ` set (cs @ cs')" using new c unfolding core_def refs_supervised by blast
  ultimately show ?thesis using c by (auto simp: core_def l dead_log)
qed

lemma dead_self: "dead ms (log @ kill_log x) x"
  by (auto simp: dead_def)

lemma core_kill:
  assumes c: "core ms (cs @ c # cs') log sp" and p: "dc_proc c = Some p"
  shows "core ms (cs @ cs') (log @ kill_log (p, dc_ref c)) sp"
proof -
  have l: "dy_spawned (kill_log x) = []" "let_go (kill_log x) = {snd x}" for x
    by (auto simp: dy_spawned_def let_go_def kill_log_def)
  have "(p, dc_ref c) \<in> set (dy_spawned log)" using c p by (simp add: core_def)
  then have mem: "dc_ref c \<in> snd ` set (dy_spawned log)" by (rule image_eqI [rotated]) simp
  have "x \<in> supervised (cs @ cs') \<or> dead ms (log @ kill_log (p, dc_ref c)) x" if x: "x \<in> set (dy_spawned log)" for x
  proof -
    consider "x \<in> supervised (cs @ cs')" | "x = (p, dc_ref c)" | "dead ms log x"
      using c p x by (auto simp: core_def)
    then show ?thesis by cases (simp_all add: dead_self dead_log)
  qed
  then show ?thesis using c mem by (auto simp: core_def l)
qed

lemma dead_down: "dead (ms @ [Dm_down (snd x) reason]) log x"
  by (auto simp: dead_def)

lemma core_drop:
  assumes "core ms (cs @ c # cs') log sp"
  shows "core (ms @ [Dm_down (dc_ref c) reason]) (cs @ cs') log sp"
  using assms dead_down [of ms "(the (dc_proc c), dc_ref c)" reason log] dead_msg by (auto simp: core_def)

lemma kill_child_log: "dc_proc c = Some p \<Longrightarrow> dynsup_kill_child c e = e\<lparr>de_log := de_log e @ kill_log (p, dc_ref c)\<rparr>"
  by (simp add: dynsup_kill_child_def dlog_def kill_log_def)

lemma core_kill_all:
  "core ms cs (de_log e) (de_spawns e) \<Longrightarrow>
    core ms [] (de_log (fold dynsup_kill_child cs e)) (de_spawns (fold dynsup_kill_child cs e))"
proof (induction cs arbitrary: e)
  case (Cons c cs)
  obtain p where p: "dc_proc c = Some p" using Cons.prems by (auto simp: core_def)
  have "core ms ([] @ cs) (de_log e @ kill_log (p, dc_ref c)) (de_spawns e)"
    using core_kill [of ms "[]" c cs "de_log e" "de_spawns e" p] Cons.prems p by simp
  then show ?case using Cons.IH [of "dynsup_kill_child c e"] by (simp add: kill_child_log [OF p])
qed simp

section \<open>Invariant\<close>

definition dy_inv :: "sw_dynsup_spec \<Rightarrow> dy_msg list \<Rightarrow> sw_dynsup_state \<Rightarrow> dy_env \<Rightarrow> bool" where
  "dy_inv spec ms st e \<longleftrightarrow> dy_spec st = spec \<and> dy_child_count st = of_nat (length (dy_children st)) \<and>
     length (dy_children st) \<le> unat (dy_limit spec) \<and> core ms (dy_children st) (de_log e) (de_spawns e)"

lemma find_split:
  assumes "find P xs = Some x"
  shows "\<exists>pre post. xs = pre @ x # post \<and> P x \<and> (\<forall>y\<in>set pre. \<not> P y)"
  using assms by (induction xs) (auto split: if_splits intro: exI [of _ "_ # _"] exI [of _ "[]"], metis append_Cons set_ConsD)

lemma replace_split:
  "\<forall>y\<in>set pre. dc_ref y \<noteq> ref \<Longrightarrow> dc_ref c = ref \<Longrightarrow> dy_replace ref f (pre @ c # post) = pre @ f c # post"
  by (induction pre) auto

lemma remove_split: "\<forall>y\<in>set pre. \<not> P y \<Longrightarrow> P c \<Longrightarrow> remove_first P (pre @ c # post) = pre @ post"
  by (induction pre) auto

lemma find_first: "\<forall>y\<in>set pre. \<not> P y \<Longrightarrow> P c \<Longrightarrow> find P (pre @ c # post) = Some c"
  by (induction pre) auto

lemma dlog_fields [simp]: "de_log (dlog a e) = de_log e @ [a]" "de_spawns (dlog a e) = de_spawns e" "de_restarts (dlog a e) = de_restarts e"
  by (simp_all add: dlog_def)

lemma count_pred: "(of_nat (Suc n) :: u32) - 1 = of_nat n"
  by simp

lemma core_reply: "core ms cs log sp \<Longrightarrow> core ms cs (log @ [D_reply f r v]) sp"
  by (rule core_note) simp_all

lemma core_register:
  "core ms cs (de_log e) (de_spawns e) \<Longrightarrow> core ms cs (de_log (dy_register s p e)) (de_spawns (dy_register s p e))"
  by (auto simp: dy_register_def intro: core_note)

lemma spawn_None:
  assumes "dy_spawn s e = (None, e')" "core ms cs (de_log e) (de_spawns e)"
  shows "core ms cs (de_log e') (de_spawns e')"
  using assms core_None by (auto simp: dy_spawn_def intro!: core_fail split: list.splits)

lemma spawn_Some:
  assumes "dy_spawn s e = (Some (p, r), e')" "core ms (cs @ cs') (de_log e) (de_spawns e)"
  shows "core ms (cs @ \<lparr>dc_spec = s', dc_proc = Some p, dc_ref = r\<rparr> # cs') (de_log e') (de_spawns e')"
  using assms by (auto simp: dy_spawn_def intro!: core_spawn split: list.splits)

lemma inv_start_child:
  assumes inv: "dy_inv spec ms st e" and "dy_start_child from ref s st e = (st', e')"
  shows "dy_inv spec ms st' e'"
proof (cases "dy_limit spec \<le> dy_child_count st")
  case True
  then show ?thesis using assms by (auto simp: dy_start_child_def dy_inv_def intro: core_reply)
next
  case False
  have lim: "length (dy_children st) < unat (dy_limit spec)"
  proof -
    have "length (dy_children st) < 2 ^ 32"
      using inv unsigned_less [of "dy_limit spec", where 'a = nat] by (simp add: dy_inv_def)
    then have "unat (of_nat (length (dy_children st)) :: u32) = length (dy_children st)" by (simp add: unat_of_nat)
    then show ?thesis using False inv by (simp add: dy_inv_def word_le_nat_alt)
  qed
  have co: "core ms ([] @ dy_children st) (de_log e) (de_spawns e)" using inv by (simp add: dy_inv_def)
  obtain r e1 where sp: "dy_spawn s e = (r, e1)" by (cases "dy_spawn s e")
  show ?thesis
  proof (cases r)
    case None
    then have "core ms (dy_children st) (de_log e1) (de_spawns e1)" using spawn_None [of s e e1 ms "dy_children st"] sp co by simp
    then show ?thesis using None sp assms False by (auto simp: dy_start_child_def dy_inv_def intro: core_reply)
  next
    case (Some x)
    obtain p m where x: "x = (p, m)" by (cases x)
    have "core ms (\<lparr>dc_spec = s, dc_proc = Some p, dc_ref = m\<rparr> # dy_children st) (de_log e1) (de_spawns e1)"
      using spawn_Some [OF _ co, of s p m e1 s] sp Some x by simp
    from core_reply [OF core_register [OF this, of s p], where f = "from" and r = ref and v = "R_proc p"]
    show ?thesis using Some x sp assms False lim by (auto simp: dy_start_child_def dy_inv_def add.commute)
  qed
qed

lemma inv_term_child:
  assumes inv: "dy_inv spec ms st e" and t: "dy_term_child from ref p st e = (st', e')"
  shows "dy_inv spec ms st' e'"
proof (cases "find (\<lambda>c. dc_proc c = Some p) (dy_children st)")
  case None
  then show ?thesis using assms
    by (auto simp: dy_term_child_def dynsup_remove_child_def dynsup_remove_def dy_inv_def intro: core_reply)
next
  case (Some c)
  then obtain pre post where cs: "dy_children st = pre @ c # post" "dc_proc c = Some p" "\<forall>y\<in>set pre. dc_proc y \<noteq> Some p"
    using find_split [OF Some] by auto
  have "core ms (pre @ c # post) (de_log e) (de_spawns e)" using inv cs(1) by (simp add: dy_inv_def)
  then have "core ms (pre @ post) (de_log e @ kill_log (p, dc_ref c)) (de_spawns e)" using cs(2) by (rule core_kill)
  then have co: "core ms (pre @ post) ((de_log e @ kill_log (p, dc_ref c)) @ [D_reply from ref R_one]) (de_spawns e)" by (rule core_reply)
  have "remove_first (\<lambda>c. dc_proc c = Some p) (pre @ c # post) = pre @ post" using cs(2,3) by (intro remove_split) auto
  then have eq: "dy_term_child from ref p st e = (st\<lparr>dy_children := pre @ post, dy_child_count := dy_child_count st - 1\<rparr>,
      dlog (D_reply from ref R_one) (e\<lparr>de_log := de_log e @ kill_log (p, dc_ref c)\<rparr>))"
    using Some cs(1) by (simp add: dy_term_child_def dynsup_remove_child_def dynsup_remove_def kill_child_log [OF cs(2)])
  then show ?thesis using t inv co cs(1) by (auto simp: dy_inv_def)
qed

lemma inv_count: "dy_inv spec ms st e \<Longrightarrow> dy_inv spec ms st (dlog (D_reply from ref v) e)"
  by (simp add: dy_inv_def core_reply)

lemma inv_call:
  assumes "dy_inv spec ms st e" "dy_call from ref op st e = (st', e')"
  shows "dy_inv spec ms st' e'"
proof (cases op)
  case (Op_start_child s)
  then show ?thesis using inv_start_child [OF assms(1)] assms(2) by simp
next
  case (Op_term_child p)
  then show ?thesis using inv_term_child [OF assms(1)] assms(2) by simp
next
  case Op_count
  then show ?thesis using inv_count [OF assms(1)] assms(2) by auto
qed

lemma inv_kill_all:
  assumes "dy_inv spec ms st e"
  shows "dy_inv spec ms (fst (dynsup_kill_all st e)) (snd (dynsup_kill_all st e))"
  using assms core_kill_all by (auto simp: dy_inv_def dynsup_kill_all_def)

lemma inv_down_parts:
  assumes inv: "dy_inv spec ms st e" and find: "dynsup_find_by_ref st ref = Some c"
  obtains pre post where "dy_children st = pre @ c # post" "dc_ref c = ref" "\<forall>y\<in>set pre. dc_ref y \<noteq> ref"
    "core (ms @ [Dm_down ref reason]) (pre @ post) (de_log e) (de_spawns e)"
proof -
  obtain pre post where cs: "dy_children st = pre @ c # post" "dc_ref c = ref" "\<forall>y\<in>set pre. dc_ref y \<noteq> ref"
    using find_split [OF find [unfolded dynsup_find_by_ref_def]] by auto
  moreover have "core (ms @ [Dm_down ref reason]) (pre @ post) (de_log e) (de_spawns e)"
    using core_drop [of ms pre c post "de_log e" "de_spawns e" reason] inv cs by (simp add: dy_inv_def)
  ultimately show ?thesis by (rule that)
qed

lemma fold_kill_skip: "dc_proc c = None \<Longrightarrow> fold dynsup_kill_child (pre @ c # post) e = fold dynsup_kill_child (pre @ post) e"
  by (simp add: dynsup_kill_child_def)

lemma record_fields_dy [simp]:
  "dy_children (dynsup_record_restart now st) = dy_children st" "dy_child_count (dynsup_record_restart now st) = dy_child_count st"
  "dy_spec (dynsup_record_restart now st) = dy_spec st"
  by (simp_all add: dynsup_record_restart_def)

lemma inv_down:
  assumes inv: "dy_inv spec ms st e" and d: "dy_down now ref reason st e = (st', e', r)"
  shows "dy_inv spec (ms @ [Dm_down ref reason]) st' e'"
proof (cases "dynsup_find_by_ref st ref")
  case None
  then show ?thesis using assms by (auto simp: dy_down_def dy_inv_def core_msg)
next
  case (Some c)
  obtain pre post where cs: "dy_children st = pre @ c # post" "dc_ref c = ref" "\<forall>y\<in>set pre. dc_ref y \<noteq> ref"
    and co: "core (ms @ [Dm_down ref reason]) (pre @ post) (de_log e) (de_spawns e)"
    by (rule inv_down_parts [OF inv Some, of reason])
  define c0 where "c0 = c\<lparr>dc_proc := None\<rparr>"
  define st0 where "st0 = st\<lparr>dy_children := pre @ c0 # post\<rparr>"
  have c0: "dc_ref c0 = ref" "dc_proc c0 = None" "dc_spec c0 = dc_spec c" using cs(2) by (simp_all add: c0_def)
  have rep: "dy_replace ref (\<lambda>c. c\<lparr>dc_proc := None\<rparr>) (dy_children st) = pre @ c0 # post"
    using cs by (simp add: replace_split c0_def)
  have rm: "fst (dynsup_remove_by_ref (f st0) ref) = (f st0)\<lparr>dy_children := pre @ post, dy_child_count := dy_child_count st - 1\<rparr>"
    if "dy_children (f st0) = pre @ c0 # post" "dy_child_count (f st0) = dy_child_count st" for f
    using that cs(3) c0 by (simp add: dynsup_remove_by_ref_def dynsup_remove_def find_first remove_split)
  have size: "dy_child_count st - 1 = of_nat (length (pre @ post))" "dy_child_count st = of_nat (Suc (length (pre @ post)))"
    "Suc (length (pre @ post)) \<le> unat (dy_limit spec)" "dy_spec st = spec"
    using inv cs(1) by (simp_all add: dy_inv_def)
  consider "\<not> should_restart (cs_restart (dc_spec c)) reason"
    | "should_restart (cs_restart (dc_spec c)) reason" "dynsup_check_circuit_breaker now st0"
    | "should_restart (cs_restart (dc_spec c)) reason" "\<not> dynsup_check_circuit_breaker now st0" by blast
  then show ?thesis
  proof cases
    case 1
    then show ?thesis using d Some rep rm [of "\<lambda>s. s"] co size
      by (simp add: dy_down_def st0_def [symmetric]) (auto simp: dy_inv_def st0_def)
  next
    case 2
    have "dynsup_kill_all st0 e = (st0\<lparr>dy_children := [], dy_child_count := 0\<rparr>, fold dynsup_kill_child (pre @ post) e)"
      using fold_kill_skip [OF c0(2)] by (simp add: dynsup_kill_all_def st0_def)
    then show ?thesis using 2 d Some rep core_kill_all [OF co] size
      by (simp add: dy_down_def st0_def [symmetric]) (auto simp: dy_inv_def st0_def)
  next
    case 3
    let ?e = "e\<lparr>de_restarts := de_restarts e @ [now]\<rparr>"
    obtain x e1 where sp: "dy_spawn (dc_spec c) ?e = (x, e1)" by (cases "dy_spawn (dc_spec c) ?e")
    have co': "core (ms @ [Dm_down ref reason]) (pre @ post) (de_log ?e) (de_spawns ?e)" using co by simp
    show ?thesis
    proof (cases x)
      case None
      have "core (ms @ [Dm_down ref reason]) (pre @ post) (de_log e1) (de_spawns e1)"
        using spawn_None [OF _ co'] sp None by simp
      then show ?thesis using 3 None sp d Some rep rm [of "dynsup_record_restart now"] size
        by (simp add: dy_down_def st0_def [symmetric] Let_def) (auto simp: dy_inv_def st0_def)
    next
      case (Some y)
      obtain p m where y: "y = (p, m)" by (cases y)
      have rep': "dy_replace ref (\<lambda>c. c\<lparr>dc_proc := Some p, dc_ref := m\<rparr>) (pre @ c0 # post) =
          pre @ \<lparr>dc_spec = dc_spec c, dc_proc = Some p, dc_ref = m\<rparr> # post"
        using cs(3) c0 by (subst replace_split) simp_all
      have "core (ms @ [Dm_down ref reason]) (pre @ \<lparr>dc_spec = dc_spec c, dc_proc = Some p, dc_ref = m\<rparr> # post) (de_log e1) (de_spawns e1)"
        using spawn_Some [OF _ co', of "dc_spec c" p m e1 "dc_spec c"] sp Some y by simp
      from core_register [OF this, of "dc_spec c" p]
      show ?thesis using 3 Some y sp d \<open>dynsup_find_by_ref st ref = Some c\<close> rep rep' size
        by (simp add: dy_down_def st0_def [symmetric] Let_def) (auto simp: dy_inv_def st0_def)
    qed
  qed
qed

lemma inv_msg: "dy_inv spec ms st e \<Longrightarrow> dy_inv spec (ms @ l) st e"
  by (simp add: dy_inv_def core_msg)

lemma inv_step:
  assumes inv: "dy_inv spec ms st e" and s: "dynsup_step now m st e = (st', e', r)"
  shows "dy_inv spec (ms @ [m]) st' e'"
proof (cases m)
  case (Dm_call f ref op)
  then show ?thesis using s inv_call [OF inv] inv_msg by (auto split: prod.splits)
next
  case (Dm_down ref reason)
  then show ?thesis using s inv_down [OF inv] by simp
next
  case Dm_stop
  then show ?thesis using s inv_msg [OF inv_kill_all [OF inv]] by (auto split: prod.splits)
qed (use s inv_msg [OF inv] in auto)

text \<open>When the supervisor ends on its own account, no child is left.\<close>

lemma step_ends:
  assumes "dynsup_step now m st e = (st', e', Sup_ends r)"
  shows "m = Dm_killed \<or> dy_children st' = []"
  using assms
  by (cases m) (auto simp: dy_down_def dynsup_kill_all_def Let_def split: option.splits if_splits prod.splits)

lemma inv_loop:
  assumes "dy_inv spec pre st e" "dynsup_loop ms st e = (st', e', next)"
  shows "dy_inv spec (pre @ map snd ms) st' e' \<and> (next = Sup_goes_on \<or> dy_children st' = [] \<or> Dm_killed \<in> set (map snd ms))"
  using assms
proof (induction ms arbitrary: pre st e)
  case Nil
  then show ?case by auto
next
  case (Cons x ms)
  obtain now m where x: "x = (now, m)" by (cases x)
  obtain st1 e1 r where s: "dynsup_step now m st e = (st1, e1, r)" by (cases "dynsup_step now m st e") auto
  have inv1: "dy_inv spec (pre @ [m]) st1 e1" by (rule inv_step [OF Cons.prems(1) s])
  show ?case
  proof (cases r)
    case Sup_goes_on
    then have "dynsup_loop ms st1 e1 = (st', e', next)" using Cons.prems(2) x s by simp
    from Cons.IH [OF inv1 this] show ?thesis using x by auto
  next
    case (Sup_ends k)
    then have "st' = st1" "e' = e1" "m = Dm_killed \<or> dy_children st' = []"
      using Cons.prems(2) x s step_ends [of now m st e st1 e1 k] by auto
    then show ?thesis using inv_msg [OF inv1, of "map snd ms"] x by auto
  qed
qed

lemma inv_init:
  assumes "distinct (map snd (successes (de_spawns e)))" "de_log e = []"
  shows "dy_inv spec [] (dynsup_init spec name) (if name \<noteq> [] then dlog (D_register name self) e else e)"
  using assms by (auto simp: dy_inv_def dynsup_init_def core_def supervised_def dy_spawned_def let_go_def)

section \<open>Restart intensity\<close>

text \<open>The breaker is that of the static supervisor, on the part of the state it reads.\<close>

definition as_sup :: "sw_dynsup_state \<Rightarrow> sw_sup_state" where
  "as_sup st =
     \<lparr>st_spec = \<lparr>sup_strategy = SW_ONE_FOR_ONE, max_restarts = dy_max_restarts (dy_spec st), max_seconds = dy_max_seconds (dy_spec st),
        sup_children = []\<rparr>,
      st_children = [], restart_times = dy_times st, restart_idx = dy_idx st, restart_count = dy_count st\<rparr>"

lemma breaker_as_sup: "dynsup_check_circuit_breaker now st = sup_check_circuit_breaker now (as_sup st)"
proof -
  have "dynsup_breaker_loop st now w i n = breaker_loop (as_sup st) now w i n" for w i n
    by (induction n arbitrary: i) (simp_all add: as_sup_def Let_def)
  then show ?thesis by (simp add: dynsup_check_circuit_breaker_def sup_check_circuit_breaker_def as_sup_def)
qed

lemma record_as_sup: "as_sup (dynsup_record_restart now st) = sup_record_restart now (as_sup st)"
  by (simp add: as_sup_def dynsup_record_restart_def sup_record_restart_def)

lemma as_sup_children [simp]: "as_sup (st\<lparr>dy_children := cs\<rparr>) = as_sup st" "as_sup (st\<lparr>dy_child_count := n\<rparr>) = as_sup st"
  by (simp_all add: as_sup_def)

lemma remove_as_sup [simp]: "as_sup (fst (dynsup_remove P st)) = as_sup st"
  by (simp add: dynsup_remove_def split: option.split)

text \<open>A step either restarts one child, with the breaker closed, or leaves the ring alone.\<close>

definition ring_step :: "u32 \<Rightarrow> sw_dynsup_state \<Rightarrow> dy_env \<Rightarrow> sw_dynsup_state \<Rightarrow> dy_env \<Rightarrow> bool" where
  "ring_step now st e st' e' \<longleftrightarrow>
     as_sup st' = as_sup st \<and> de_restarts e' = de_restarts e \<or>
     \<not> sup_check_circuit_breaker now (as_sup st) \<and> as_sup st' = sup_record_restart now (as_sup st) \<and> de_restarts e' = de_restarts e @ [now]"

lemma spawn_restarts: "dy_spawn s e = (r, e') \<Longrightarrow> de_restarts e' = de_restarts e"
  by (auto simp: dy_spawn_def split: list.splits)

lemma register_restarts [simp]: "de_restarts (dy_register s p e) = de_restarts e"
  by (simp add: dy_register_def)

lemma kill_restarts [simp]: "de_restarts (dynsup_kill_child c e) = de_restarts e"
  by (simp add: dynsup_kill_child_def split: option.split)

lemma kills_restarts [simp]: "de_restarts (fold dynsup_kill_child cs e) = de_restarts e"
  by (induction cs arbitrary: e) simp_all

lemma call_ring: "dy_call f ref op st e = (st', e') \<Longrightarrow> ring_step now st e st' e'"
  by (cases op) (auto simp: ring_step_def dy_start_child_def dy_term_child_def dynsup_remove_child_def dynsup_remove_def
      dest: spawn_restarts split: if_splits option.splits prod.splits)

lemma down_ring:
  assumes "dy_down now ref reason st e = (st', e', r)"
  shows "ring_step now st e st' e'"
proof (cases "dynsup_find_by_ref st ref")
  case None
  then show ?thesis using assms by (simp add: dy_down_def ring_step_def)
next
  case (Some c)
  then show ?thesis using assms
    by (auto simp: dy_down_def ring_step_def Let_def breaker_as_sup record_as_sup dynsup_remove_by_ref_def dynsup_kill_all_def
        dest: spawn_restarts split: if_splits option.splits prod.splits)
qed

lemma step_ring: "dynsup_step now m st e = (st', e', r) \<Longrightarrow> ring_step now st e st' e'"
  using call_ring down_ring by (cases m) (auto simp: ring_step_def dynsup_kill_all_def split: prod.splits)

lemma intensity_ring:
  assumes "intensity_inv spec (de_restarts e) (as_sup st)" "max_restarts spec \<noteq> 0" "unat (max_restarts spec) \<le> 64"
    and "\<forall>t\<in>set (de_restarts e). t \<le> now" "ring_step now st e st' e'"
  shows "intensity_inv spec (de_restarts e') (as_sup st') \<and> set (de_restarts e') \<subseteq> insert now (set (de_restarts e))"
  using assms(5) intensity_record [OF assms(1) _ assms(2-4)] assms(1) by (auto simp: ring_step_def)

lemma intensity_loop:
  assumes "intensity_inv spec (de_restarts e) (as_sup st)" "max_restarts spec \<noteq> 0" "unat (max_restarts spec) \<le> 64"
    and "\<forall>t\<in>set (de_restarts e). \<forall>x\<in>set ms. t \<le> fst x" "sorted (map fst ms)" "dynsup_loop ms st e = (st', e', r)"
  shows "intensity_ok spec (de_restarts e')"
  using assms
proof (induction ms arbitrary: st e)
  case Nil
  then show ?case by (simp add: intensity_inv_def)
next
  case (Cons x ms)
  obtain now m where x: "x = (now, m)" by (cases x)
  obtain st1 e1 k where s: "dynsup_step now m st e = (st1, e1, k)" by (cases "dynsup_step now m st e") auto
  have "intensity_inv spec (de_restarts e1) (as_sup st1) \<and> set (de_restarts e1) \<subseteq> insert now (set (de_restarts e))"
    using Cons.prems(4) x by (intro intensity_ring [OF Cons.prems(1-3) _ step_ring [OF s]]) simp
  then have inv: "intensity_inv spec (de_restarts e1) (as_sup st1)" and sub: "set (de_restarts e1) \<subseteq> insert now (set (de_restarts e))" by auto
  show ?case
  proof (cases k)
    case Sup_goes_on
    have "\<forall>t\<in>set (de_restarts e1). \<forall>x\<in>set ms. t \<le> fst x" using sub Cons.prems(4,5) x by auto
    then show ?thesis using Cons.IH [OF inv Cons.prems(2,3)] Cons.prems(5,6) x s Sup_goes_on by simp
  next
    case (Sup_ends i)
    then show ?thesis using inv Cons.prems(6) x s by (auto simp: intensity_inv_def)
  qed
qed

section \<open>Properties\<close>

text \<open>
  C18. No orphans: after any messages, with references of monitors that are all different, every process that the dynamic
  supervisor started is one of its children, or was let go in order (monitor and link removed, killed), or was reported
  dead; every child is a process it started whose monitor is in place; the count is the number of children and never
  exceeds the limit; and when it stops on request or gives up, no child is left. This last part is only for histories
  without an empty untagged message, as which the loop also sees its own kill: that ends it
  at once, with its children as they are (\<open>dynsup_kill_leaves_children\<close>).
\<close>

theorem dynsup_no_orphans:
  assumes "distinct (map snd (successes (de_spawns e)))" "de_log e = []" "dynsup_entry spec name self ms e = (st, e', next)"
  shows "(\<forall>x\<in>set (dy_spawned (de_log e')). x \<in> supervised (dy_children st) \<or> dead (map snd ms) (de_log e') x) \<and>
    supervised (dy_children st) \<subseteq> set (dy_spawned (de_log e')) \<and>
    (\<forall>c\<in>set (dy_children st). dc_proc c \<noteq> None \<and> D_demonitor (dc_ref c) \<notin> set (de_log e')) \<and>
    dy_child_count st = of_nat (length (dy_children st)) \<and> length (dy_children st) \<le> unat (dy_limit spec) \<and>
    (next \<noteq> Sup_goes_on \<and> Dm_killed \<notin> set (map snd ms) \<longrightarrow> dy_children st = [])"
proof -
  have "dy_inv spec [] (dynsup_init spec name) (if name \<noteq> [] then dlog (D_register name self) e else e)"
    using assms(1,2) by (rule inv_init)
  from inv_loop [OF this assms(3) [unfolded dynsup_entry_def]]
  show ?thesis by (auto simp: dy_inv_def core_def let_go_def)
qed

definition dyn_child :: sw_child_spec where
  "dyn_child = \<lparr>cs_name = [], start_func = 7, start_arg = 0, cs_restart = SW_TRANSIENT\<rparr>"

definition dyn_env :: dy_env where
  "dyn_env = \<lparr>de_spawns = [Some (3, 100), Some (4, 101), None, Some (3, 102)], de_log = [], de_restarts = []\<rparr>"

definition dyn_msgs :: "(u32 \<times> dy_msg) list" where
  "dyn_msgs = [(1, Dm_call 9 1000 (Op_start_child dyn_child)), (2, Dm_call 9 1001 (Op_start_child dyn_child)),
     (3, Dm_down 100 (-1)), (5, Dm_call 8 1002 Op_count), (9, Dm_call 9 1003 (Op_start_child dyn_child)), (30, Dm_down 102 (-1))]"

definition dyn_spec :: sw_dynsup_spec where
  "dyn_spec = \<lparr>dy_max_restarts = 1, dy_max_seconds = 5, dy_max_children = 2\<rparr>"

definition dyn_result :: "sw_dynsup_state \<times> dy_env \<times> sup_next" where
  "dyn_result = dynsup_entry dyn_spec ''sv'' 1 dyn_msgs dyn_env"

theorem dynsup_no_orphans_witness:
  "case dyn_result of (st, e', next) \<Rightarrow>
     set (dy_spawned (de_log e')) \<subseteq> supervised (dy_children st) \<union> {x. dead (map snd dyn_msgs) (de_log e') x} \<and>
     length (dy_children st) \<le> 2"
proof -
  obtain st e' r where d: "dynsup_entry dyn_spec ''sv'' 1 dyn_msgs dyn_env = (st, e', r)"
    by (cases "dynsup_entry dyn_spec ''sv'' 1 dyn_msgs dyn_env") auto
  have "distinct (map snd (successes (de_spawns dyn_env)))" "de_log dyn_env = []" by (simp_all add: dyn_env_def successes_def)
  from dynsup_no_orphans [OF this d] have "(\<forall>x\<in>set (dy_spawned (de_log e')). x \<in> supervised (dy_children st) \<or>
      dead (map snd dyn_msgs) (de_log e') x)" "length (dy_children st) \<le> unat (dy_limit dyn_spec)" by blast+
  moreover have "unat (dy_limit dyn_spec) = 2" by (simp add: dyn_spec_def dy_limit_def)
  ultimately show ?thesis unfolding dyn_result_def d by auto
qed

text \<open>
  An empty untagged message ends the loop without a kill of the children: the child started before it is still
  there, monitored and linked, and nothing was sent to it.
\<close>

theorem dynsup_kill_leaves_children:
  "case dynsup_entry dyn_spec ''sv'' 1 [(1, Dm_call 9 1000 (Op_start_child dyn_child)), (2, Dm_killed)] dyn_env of
     (st, e', next) \<Rightarrow> next = Sup_ends 0 \<and> supervised (dy_children st) = {(3, 100)}
       \<and> dy_spawned (de_log e') = [(3, 100)] \<and> D_kill 3 (-1) \<notin> set (de_log e')"
  unfolding supervised_def by code_simp

text \<open>
  Restart intensity of the dynamic supervisor: with a clock that does not run backwards, any \<open>max_restarts + 1\<close>
  successive restarts, of whatever children, spread over more than \<open>max_seconds\<close> (one second when that is 0), for limits
  of 1 to 64 restarts.
\<close>

theorem dynsup_restart_intensity:
  assumes "dy_max_restarts spec \<noteq> 0" "unat (dy_max_restarts spec) \<le> 64" "sorted (map fst ms)" "de_restarts e = []"
    and "dynsup_entry spec name self ms e = (st, e', next)" "i + unat (dy_max_restarts spec) < length (de_restarts e')"
  shows "(if dy_max_seconds spec = 0 then 1 else dy_max_seconds spec)
    < de_restarts e' ! (i + unat (dy_max_restarts spec)) - de_restarts e' ! i"
proof -
  let ?st = "dynsup_init spec name"
  let ?sp = "st_spec (as_sup ?st)"
  have sp: "max_restarts ?sp = dy_max_restarts spec" "max_seconds ?sp = dy_max_seconds spec" by (simp_all add: as_sup_def dynsup_init_def)
  have "intensity_inv ?sp [] (as_sup ?st)"
    by (simp add: intensity_inv_def intensity_ok_def sup_wf_def as_sup_def dynsup_init_def restart_history_def)
  then have "intensity_ok ?sp (de_restarts e')"
    using assms(1-4) sp by (intro intensity_loop [OF _ _ _ _ _ assms(5) [unfolded dynsup_entry_def]]) auto
  then show ?thesis using assms(6) unfolding intensity_ok_def breaker_window_def sp by blast
qed

definition dyn_times :: "(u32 \<times> dy_msg) list" where
  "dyn_times = [(1, Dm_call 9 1000 (Op_start_child dyn_child)), (3, Dm_down 100 (-1)), (10, Dm_down 101 (-1))]"

definition dyn_supply :: dy_env where
  "dyn_supply = \<lparr>de_spawns = [Some (3, 100), Some (4, 101), Some (5, 102)], de_log = [], de_restarts = []\<rparr>"

lemma dyn_restarts: "de_restarts (fst (snd (dynsup_entry dyn_spec ''sv'' 1 dyn_times dyn_supply))) = [3, 10]"
  by code_simp

theorem dynsup_restart_intensity_witness:
  "case dynsup_entry dyn_spec ''sv'' 1 dyn_times dyn_supply of (st, e', next) \<Rightarrow> (5 :: u32) < de_restarts e' ! 1 - de_restarts e' ! 0"
proof -
  obtain st e' r where d: "dynsup_entry dyn_spec ''sv'' 1 dyn_times dyn_supply = (st, e', r)"
    by (cases "dynsup_entry dyn_spec ''sv'' 1 dyn_times dyn_supply") auto
  have "de_restarts e' = [3, 10]" using dyn_restarts d by simp
  then show ?thesis unfolding d using dynsup_restart_intensity [OF _ _ _ _ d, of 0]
    by (simp add: dyn_spec_def dyn_times_def dyn_supply_def)
qed

end
