(* ===== verification/Statem.thy ===== *)
theory Statem
  imports Genserver Timers
begin

text \<open>
  The state machine of \<^verbatim>\<open>src/src/swarmrt_phase5.c\<close>: a server loop over one callback, which is given the kind of event, the
  event, the current state and the data, and says what the next state is, what to reply and after what time without a
  change of state it wants a time-out. Messages are those of the generic server, time-outs are timers of the runtime.
\<close>

section \<open>Callbacks and results\<close>

datatype sw_sm_event_type = SW_SM_CALL | SW_SM_CAST | SW_SM_INFO | SW_SM_TIMEOUT

datatype sw_sm_action = SW_SM_NEXT_STATE | SW_SM_KEEP_STATE | SW_SM_STOP

record 'v sw_sm_result =
  sr_action :: sw_sm_action
  sr_next_state :: int
  sr_new_data :: 'v
  sr_reply :: "'v option"
  sr_timeout_ms :: u64

text \<open>The start callback returns the data and the first state; a null callback is \<^term>\<open>None\<close>.\<close>

record 'v sw_sm_callbacks =
  sm_init :: "('v \<Rightarrow> 'v \<times> int) option"
  handle_event :: "(sw_sm_event_type \<Rightarrow> 'v gs_body \<Rightarrow> int \<Rightarrow> 'v \<Rightarrow> proc_ref option \<Rightarrow> 'v sw_sm_result) option"

record 'v sm_mach =
  sm_state :: int
  sm_data :: 'v
  timeout_ref :: u64

definition sm_start :: "'v sw_sm_callbacks \<Rightarrow> 'v \<Rightarrow> 'v sm_mach" where
  "sm_start cbs arg =
     (case sm_init cbs of
        None \<Rightarrow> \<lparr>sm_state = 0, sm_data = arg, timeout_ref = 0\<rparr>
      | Some f \<Rightarrow> (case f arg of (data, state) \<Rightarrow> \<lparr>sm_state = state, sm_data = data, timeout_ref = 0\<rparr>))"

section \<open>One turn of the loop\<close>

text \<open>The event of a message: its kind, what the callback is given, and the call that waits for a reply.\<close>

fun sm_event :: "'v gs_msg \<Rightarrow> gs_fault + sw_sm_event_type \<times> 'v gs_body \<times> (proc_ref \<times> u64) option" where
  "sm_event (tag, body) =
     (if tag = SW_TAG_CALL then (case body of B_call ref from req \<Rightarrow> Inr (SW_SM_CALL, B_val req, Some (from, ref)) | _ \<Rightarrow> Inl Not_a_call)
      else if tag = SW_TAG_CAST then (case body of B_cast x \<Rightarrow> Inr (SW_SM_CAST, B_val x, None) | _ \<Rightarrow> Inl Not_a_cast)
      else if tag = SW_TAG_TIMER then Inr (SW_SM_TIMEOUT, body, None)
      else Inr (SW_SM_INFO, body, None))"

text \<open>
  The time-out: an old timer is cancelled when the state changes or a new timer is asked for; the new one is set unless the
  machine stops. The last result is the reference of a timer that was set.
\<close>

definition sm_timeout ::
  "sw_sm_action \<Rightarrow> u64 \<Rightarrow> proc_ref \<Rightarrow> u64 \<Rightarrow> u64 \<Rightarrow> 'v sw_timer_list \<Rightarrow> u64 \<times> 'v sw_timer_list \<times> u64 option" where
  "sm_timeout action ms self now tref tq =
     (let (tref, tq) = (if (action = SW_SM_NEXT_STATE \<or> 0 < ms) \<and> tref \<noteq> 0 then (0, fst (sw_cancel_timer tref tq)) else (tref, tq))
      in if 0 < ms \<and> action \<noteq> SW_SM_STOP then (case sw_send_after now ms self SW_TAG_TIMER None tq of (tq, r) \<Rightarrow> (r, tq, Some r))
         else (tref, tq, None))"

record 'v sm_out =
  o_mach :: "'v sm_mach"
  o_tq :: "'v sw_timer_list"
  o_replies :: "(proc_ref \<times> u64 \<times> 'v option) list"
  o_run :: bool
  o_action :: "sw_sm_action"
  o_set :: "u64 option"

definition sm_quiet :: "'v sm_mach \<Rightarrow> 'v sw_timer_list \<Rightarrow> bool \<Rightarrow> 'v sm_out" where
  "sm_quiet m tq run = \<lparr>o_mach = m, o_tq = tq, o_replies = [], o_run = run, o_action = SW_SM_KEEP_STATE, o_set = None\<rparr>"

definition sm_apply :: "'v sw_sm_result \<Rightarrow> (proc_ref \<times> u64) option \<Rightarrow> proc_ref \<Rightarrow> u64 \<Rightarrow> 'v sm_mach \<Rightarrow> 'v sw_timer_list \<Rightarrow> 'v sm_out" where
  "sm_apply r call self now m tq =
     (case sm_timeout (sr_action r) (sr_timeout_ms r) self now (timeout_ref m) tq of
        (tref, tq, armed) \<Rightarrow>
          \<lparr>o_mach = \<lparr>sm_state = (if sr_action r = SW_SM_NEXT_STATE then sr_next_state r else sm_state m), sm_data = sr_new_data r,
              timeout_ref = tref\<rparr>,
           o_tq = tq,
           o_replies = (case call of Some (from, ref) \<Rightarrow> [(from, ref, sr_reply r)] | None \<Rightarrow> []),
           o_run = (sr_action r \<noteq> SW_SM_STOP), o_action = sr_action r, o_set = armed\<rparr>)"

definition sm_turn :: "'v sw_sm_callbacks \<Rightarrow> proc_ref \<Rightarrow> u64 \<Rightarrow> 'v gs_msg \<Rightarrow> 'v sm_mach \<Rightarrow> 'v sw_timer_list \<Rightarrow> gs_fault + 'v sm_out" where
  "sm_turn cbs self now msg m tq =
     (if gs_null (snd msg) \<and> fst msg = SW_TAG_NONE \<or> fst msg = SW_TAG_STOP then Inr (sm_quiet m tq False)
      else case sm_event msg of
             Inl f \<Rightarrow> Inl f
           | Inr (etype, event, call) \<Rightarrow>
               (case handle_event cbs of
                  None \<Rightarrow> Inr (sm_quiet m tq True)
                | Some h \<Rightarrow> Inr (sm_apply (h etype event (sm_state m) (sm_data m) (map_option fst call)) call self now m tq)))"

text \<open>The whole loop on the messages that arrive, with the clock at each; the state at the end is given to \<^verbatim>\<open>terminate\<close>.\<close>

datatype 'v sm_result =
    Sm_terminated "'v sm_mach" "'v sw_timer_list" "(proc_ref \<times> u64 \<times> 'v option) list" "(u64 \<times> 'v gs_msg) list"
  | Sm_waiting "'v sm_mach" "'v sw_timer_list" "(proc_ref \<times> u64 \<times> 'v option) list"
  | Sm_faulted gs_fault

fun sm_loop :: "'v sw_sm_callbacks \<Rightarrow> proc_ref \<Rightarrow> (u64 \<times> 'v gs_msg) list \<Rightarrow> 'v sm_mach \<Rightarrow> 'v sw_timer_list \<Rightarrow>
    (proc_ref \<times> u64 \<times> 'v option) list \<Rightarrow> 'v sm_result" where
  "sm_loop cbs self [] m tq sent = Sm_waiting m tq sent"
| "sm_loop cbs self ((now, msg) # ms) m tq sent =
     (case sm_turn cbs self now msg m tq of
        Inl f \<Rightarrow> Sm_faulted f
      | Inr out \<Rightarrow>
          if o_run out then sm_loop cbs self ms (o_mach out) (o_tq out) (sent @ o_replies out)
          else Sm_terminated (o_mach out) (o_tq out) (sent @ o_replies out) ms)"

definition statemachine_entry :: "'v sw_sm_callbacks \<Rightarrow> 'v \<Rightarrow> proc_ref \<Rightarrow> (u64 \<times> 'v gs_msg) list \<Rightarrow> 'v sw_timer_list \<Rightarrow> 'v sm_result" where
  "statemachine_entry cbs arg self ms tq = sm_loop cbs self ms (sm_start cbs arg) tq []"

text \<open>Start-up: \<open>spawn\<close> starts and links the process; the second result is the process unlinked again.\<close>

definition sw_statemachine_start_link ::
  "('v sw_sm_callbacks \<times> 'v \<times> name_buf \<Rightarrow> proc_ref option) \<Rightarrow> string option \<Rightarrow> 'v sw_sm_callbacks \<Rightarrow> 'v \<Rightarrow> proc_ref option" where
  "sw_statemachine_start_link spawn name cbs arg = spawn (cbs, arg, name_init name)"

definition sw_statemachine_start ::
  "('v sw_sm_callbacks \<times> 'v \<times> name_buf \<Rightarrow> proc_ref option) \<Rightarrow> proc_ref option \<Rightarrow> string option \<Rightarrow> 'v sw_sm_callbacks \<Rightarrow> 'v \<Rightarrow>
     proc_ref option \<times> proc_ref option" where
  "sw_statemachine_start spawn self name cbs arg =
     (let p = sw_statemachine_start_link spawn name cbs arg in (p, if self \<noteq> None then p else None))"

section \<open>The machine and its timers\<close>

text \<open>
  The machine \<open>self\<close> with its mailbox and the timers of the runtime. The history records the messages taken, the timers the
  machine has set, each with the number of the visit to a state in which it was set, and the current number.
\<close>

record 'v sm_sys =
  y_mach :: "'v sm_mach"
  y_run :: bool
  y_queue :: "'v gs_msg list"
  y_tq :: "'v sw_timer_list"
  y_replies :: "(proc_ref \<times> u64 \<times> 'v option) list"
  y_taken :: "'v gs_msg list"
  y_set :: "(u64 \<times> nat) list"
  y_visit :: nat

definition sm_sys0 :: "'v sw_sm_callbacks \<Rightarrow> 'v \<Rightarrow> 'v sm_sys" where
  "sm_sys0 cbs arg = \<lparr>y_mach = sm_start cbs arg, y_run = True, y_queue = [], y_tq = timers_init, y_replies = [], y_taken = [],
     y_set = [], y_visit = 0\<rparr>"

definition timer_msg :: "proc_ref \<Rightarrow> 'v timer_action \<Rightarrow> 'v gs_msg list" where
  "timer_msg self a =
     (case a of Deliver p tag msg \<Rightarrow> if p = self then [(tag, case msg of None \<Rightarrow> B_null | Some v \<Rightarrow> B_val v)] else [] | Wake _ \<Rightarrow> [])"

definition sm_serve :: "'v sw_sm_callbacks \<Rightarrow> proc_ref \<Rightarrow> u64 \<Rightarrow> 'v sm_sys \<Rightarrow> 'v sm_sys" where
  "sm_serve cbs self now s =
     (case y_queue s of
        [] \<Rightarrow> s
      | m # q \<Rightarrow>
          (let s = s\<lparr>y_queue := q, y_taken := y_taken s @ [m]\<rparr>
           in case sm_turn cbs self now m (y_mach s) (y_tq s) of
                Inl _ \<Rightarrow> s\<lparr>y_run := False\<rparr>
              | Inr out \<Rightarrow>
                  let visit = (if o_action out = SW_SM_NEXT_STATE then Suc (y_visit s) else y_visit s)
                  in s\<lparr>y_mach := o_mach out, y_run := o_run out, y_tq := o_tq out, y_replies := y_replies s @ o_replies out,
                       y_visit := visit, y_set := y_set s @ (case o_set out of None \<Rightarrow> [] | Some r \<Rightarrow> [(r, visit)])\<rparr>))"

definition sm_fire :: "proc_ref \<Rightarrow> u64 \<Rightarrow> 'v sm_sys \<Rightarrow> 'v sm_sys" where
  "sm_fire self now s =
     (case fire_timers now (y_tq s) of (tq, as) \<Rightarrow> s\<lparr>y_tq := tq, y_queue := y_queue s @ concat (map (timer_msg self) as)\<rparr>)"

text \<open>
  The steps: turns of the machine, the scheduler firing timers, messages from others, and others setting and cancelling
  timers. Fewer than \<open>2 ^ 64 - 1\<close> timers are set in all.
\<close>

inductive sm_step :: "'v sw_sm_callbacks \<Rightarrow> proc_ref \<Rightarrow> 'v sm_sys \<Rightarrow> 'v sm_sys \<Rightarrow> bool" for cbs self where
  Y_turn: "y_run s \<Longrightarrow> next_timer_ref (y_tq s) + 1 \<noteq> 0 \<Longrightarrow> sm_step cbs self s (sm_serve cbs self now s)"
| Y_fire: "sm_step cbs self s (sm_fire self now s)"
| Y_send: "sm_step cbs self s (s\<lparr>y_queue := y_queue s @ [m]\<rparr>)"
| Y_after: "next_timer_ref (y_tq s) + 1 \<noteq> 0 \<Longrightarrow> sm_step cbs self s (s\<lparr>y_tq := fst (sw_send_after now delay p tag msg (y_tq s))\<rparr>)"
| Y_cancel: "sm_step cbs self s (s\<lparr>y_tq := fst (sw_cancel_timer ref (y_tq s))\<rparr>)"

inductive sm_reach :: "'v sw_sm_callbacks \<Rightarrow> proc_ref \<Rightarrow> 'v \<Rightarrow> 'v sm_sys \<Rightarrow> bool" for cbs self arg where
  SR_init: "sm_reach cbs self arg (sm_sys0 cbs arg)"
| SR_step: "sm_reach cbs self arg s \<Longrightarrow> sm_step cbs self s s' \<Longrightarrow> sm_reach cbs self arg s'"

text \<open>The clients: what \<^verbatim>\<open>sw_call_proc\<close> and \<^verbatim>\<open>sw_cast_proc\<close> of the generic server put into the mailbox. By name, \<open>sm\<close> is the result of the lookup.\<close>

definition sw_sm_call_proc :: "proc_ref \<Rightarrow> u64 \<Rightarrow> 'v \<Rightarrow> 'v sm_sys \<Rightarrow> 'v sm_sys" where
  "sw_sm_call_proc from ref request s = s\<lparr>y_queue := y_queue s @ [(SW_TAG_CALL, B_call ref from request)]\<rparr>"

definition sw_sm_call :: "proc_ref option \<Rightarrow> proc_ref \<Rightarrow> u64 \<Rightarrow> 'v \<Rightarrow> 'v sm_sys \<Rightarrow> 'v sm_sys option" where
  "sw_sm_call sm from ref request s = (case sm of None \<Rightarrow> None | Some _ \<Rightarrow> Some (sw_sm_call_proc from ref request s))"

definition sw_sm_cast_proc :: "'v \<Rightarrow> 'v sm_sys \<Rightarrow> 'v sm_sys" where
  "sw_sm_cast_proc event s = s\<lparr>y_queue := y_queue s @ [(SW_TAG_CAST, B_cast event)]\<rparr>"

definition sw_sm_cast :: "proc_ref option \<Rightarrow> 'v \<Rightarrow> 'v sm_sys \<Rightarrow> 'v sm_sys" where
  "sw_sm_cast sm event s = (case sm of None \<Rightarrow> s | Some _ \<Rightarrow> sw_sm_cast_proc event s)"

definition sw_sm_stop :: "proc_ref option \<Rightarrow> 'v sm_sys \<Rightarrow> 'v sm_sys" where
  "sw_sm_stop sm s = (case sm of None \<Rightarrow> s | Some _ \<Rightarrow> s\<lparr>y_queue := y_queue s @ [(SW_TAG_STOP, B_null)]\<rparr>)"

section \<open>Invariant\<close>

text \<open>
  A pending timer that the machine has set is the one whose reference it keeps, and was set in the current visit.
\<close>

definition sm_timer_inv :: "u64 \<Rightarrow> 'v sw_timer_list \<Rightarrow> (u64 \<times> nat) list \<Rightarrow> nat \<Rightarrow> bool" where
  "sm_timer_inv tref tq armed visit \<longleftrightarrow> timers_inv tq \<and> (\<forall>(r, v)\<in>set armed. r < next_timer_ref tq) \<and>
     (\<forall>t\<in>set (tl_head tq). \<forall>v. (tm_ref t, v) \<in> set armed \<longrightarrow> tm_ref t = tref \<and> v = visit)"

lemma sm_timer_inv_cancel:
  assumes "sm_timer_inv tref tq armed visit"
  shows "sm_timer_inv tref (fst (sw_cancel_timer ref tq)) armed visit"
proof (cases "ref = 0")
  case False
  have i: "timers_inv tq" using assms by (simp add: sm_timer_inv_def)
  then show ?thesis using assms cancel_filter [OF i False] timers_inv_filter [OF i] by (auto simp: sm_timer_inv_def)
qed (use assms in \<open>simp add: sw_cancel_timer_def\<close>)

text \<open>After the machine has cancelled its own timer, none that it set is pending, and a new visit may begin.\<close>

lemma sm_timer_inv_own:
  assumes "sm_timer_inv tref tq armed visit" "tref \<noteq> 0"
  shows "sm_timer_inv 0 (fst (sw_cancel_timer tref tq)) armed visit'"
proof -
  have i: "timers_inv tq" using assms by (simp add: sm_timer_inv_def)
  then show ?thesis using assms cancel_filter [OF i assms(2)] timers_inv_filter [OF i] by (auto simp: sm_timer_inv_def)
qed

lemma sm_timer_inv_none: "sm_timer_inv 0 tq armed visit \<Longrightarrow> sm_timer_inv 0 tq armed visit'"
  by (fastforce simp: sm_timer_inv_def timers_inv_def)

lemma sm_timer_inv_fire: "sm_timer_inv tref tq armed visit \<Longrightarrow> sm_timer_inv tref (fst (fire_timers now tq)) armed visit"
  by (auto simp: sm_timer_inv_def fire_timers_filter timers_inv_filter)

lemma send_after_fields:
  assumes "timers_inv tq" "sw_send_after now delay p tag msg tq = (tq', r)"
  shows "r = next_timer_ref tq" "next_timer_ref tq' = next_timer_ref tq + 1"
    "tm_ref ` set (tl_head tq') = insert r (tm_ref ` set (tl_head tq))"
    "set (tl_head tq') = insert \<lparr>tm_ref = r, fire_at_ns = now + delay * 1000000, tm_dest = p, tm_tag = tag, tm_msg = msg\<rparr> (set (tl_head tq))"
  using assms by (auto simp: sw_send_after_def Let_def)

text \<open>A timer set by another process has a reference that the machine never got.\<close>

lemma sm_timer_inv_after:
  assumes "sm_timer_inv tref tq armed visit" "next_timer_ref tq + 1 \<noteq> 0"
  shows "sm_timer_inv tref (fst (sw_send_after now delay p tag msg tq)) armed visit"
proof -
  have i: "timers_inv tq" using assms by (simp add: sm_timer_inv_def)
  obtain tq' r where s: "sw_send_after now delay p tag msg tq = (tq', r)" by (cases "sw_send_after now delay p tag msg tq")
  have "timers_inv tq'" using send_after_inv [OF i assms(2), of now delay p tag msg] s by simp
  moreover have "\<forall>(a, v)\<in>set armed. a < next_timer_ref tq + 1"
    using assms word_less_add_one by (auto simp: sm_timer_inv_def)
  ultimately show ?thesis using assms(1) send_after_fields [OF i s] s by (auto simp: sm_timer_inv_def)
qed

text \<open>A timer that the machine sets when it has none pending.\<close>

lemma sm_timer_inv_set:
  assumes "sm_timer_inv 0 tq armed visit" "next_timer_ref tq + 1 \<noteq> 0" "sw_send_after now delay p tag msg tq = (tq', r)"
  shows "sm_timer_inv r tq' (armed @ [(r, visit)]) visit"
proof -
  have i: "timers_inv tq" using assms by (simp add: sm_timer_inv_def)
  have i': "timers_inv tq'" using send_after_inv [OF i assms(2), of now delay p tag msg] assms(3) by simp
  note f = send_after_fields [OF i assms(3)]
  have less: "\<forall>(a, v)\<in>set armed. a < next_timer_ref tq + 1" "r < next_timer_ref tq + 1"
    using assms word_less_add_one i' f by (auto simp: sm_timer_inv_def timers_inv_def)
  have "(tm_ref t, v) \<notin> set armed" if "t \<in> set (tl_head tq)" for t v
    using assms(1) that by (force simp: sm_timer_inv_def timers_inv_def)
  moreover have "(r, v) \<notin> set armed" for v using assms(1) f(1) by (auto simp: sm_timer_inv_def)
  moreover have "tm_ref t \<noteq> r" if "t \<in> set (tl_head tq)" for t using i that f(1) by (auto simp: timers_inv_def)
  ultimately show ?thesis using i' less f by (auto simp: sm_timer_inv_def)
qed

lemma sm_timer_inv_timeout:
  assumes inv: "sm_timer_inv tref tq armed visit" and nw: "next_timer_ref tq + 1 \<noteq> 0"
    and t: "sm_timeout action ms self now tref tq = (tref', tq', r)"
    and v: "visit' = (if action = SW_SM_NEXT_STATE then Suc visit else visit)"
  shows "sm_timer_inv tref' tq' (armed @ (case r of None \<Rightarrow> [] | Some x \<Rightarrow> [(x, visit')])) visit'"
proof -
  have i: "timers_inv tq" using inv by (simp add: sm_timer_inv_def)
  obtain a q where aq: "(if (action = SW_SM_NEXT_STATE \<or> 0 < ms) \<and> tref \<noteq> 0 then (0, fst (sw_cancel_timer tref tq)) else (tref, tq)) = (a, q)"
    by fastforce
  have next_q: "next_timer_ref q = next_timer_ref tq"
    using aq cancel_filter [OF i, of tref] by (auto split: if_splits)
  have q: "sm_timer_inv a q armed visit'" and a: "action = SW_SM_NEXT_STATE \<or> 0 < ms \<Longrightarrow> a = 0"
    using aq inv v sm_timer_inv_own [OF inv] sm_timer_inv_none by (auto split: if_splits)
  show ?thesis
  proof (cases "0 < ms \<and> action \<noteq> SW_SM_STOP")
    case True
    obtain q' x where s: "sw_send_after now ms self SW_TAG_TIMER None q = (q', x)"
      by (cases "sw_send_after now ms self SW_TAG_TIMER (None :: 'a option) q") auto
    have "sm_timer_inv x q' (armed @ [(x, visit')]) visit'"
      using q a True nw next_q s by (intro sm_timer_inv_set [where tq = q]) simp_all
    then show ?thesis using t aq True s by (auto simp: sm_timeout_def)
  next
    case False
    then show ?thesis using t aq q by (auto simp: sm_timeout_def)
  qed
qed

definition sm_inv :: "'v sw_sm_callbacks \<Rightarrow> 'v sm_sys \<Rightarrow> bool" where
  "sm_inv cbs s \<longleftrightarrow> sm_timer_inv (timeout_ref (y_mach s)) (y_tq s) (y_set s) (y_visit s) \<and>
     (handle_event cbs \<noteq> None \<longrightarrow> map (\<lambda>(p, ref, v). (p, ref)) (y_replies s) = calls_in (y_taken s))"

lemma turn_replies:
  assumes "handle_event cbs \<noteq> None"
  shows "case sm_turn cbs self now m mach tq of Inl _ \<Rightarrow> calls_in [m] = [] | Inr out \<Rightarrow> map (\<lambda>(p, ref, v). (p, ref)) (o_replies out) = calls_in [m]"
proof -
  obtain tag body where m: "m = (tag, body)" by (cases m)
  obtain h where h: "handle_event cbs = Some h" using assms by blast
  have app: "map (\<lambda>(p, ref, v). (p, ref)) (o_replies (sm_apply r call self now mach tq)) = (case call of None \<Rightarrow> [] | Some c \<Rightarrow> [c])" for r call
    by (auto simp: sm_apply_def split: prod.split option.split)
  show ?thesis
    by (cases body) (auto simp: m sm_turn_def sm_quiet_def app h gs_null_def const_simps)
qed

lemma turn_timers:
  assumes "sm_timer_inv (timeout_ref mach) tq armed visit" "next_timer_ref tq + 1 \<noteq> 0" "sm_turn cbs self now m mach tq = Inr out"
    and "visit' = (if o_action out = SW_SM_NEXT_STATE then Suc visit else visit)"
  shows "sm_timer_inv (timeout_ref (o_mach out)) (o_tq out) (armed @ (case o_set out of None \<Rightarrow> [] | Some r \<Rightarrow> [(r, visit')])) visit'"
proof -
  consider run where "out = sm_quiet mach tq run" | r call where "out = sm_apply r call self now mach tq"
    using assms(3) by (auto simp: sm_turn_def split: if_splits sum.splits option.splits)
  then show ?thesis
  proof cases
    case 1
    then show ?thesis using assms(1,4) by (simp add: sm_quiet_def)
  next
    case 2
    obtain a q x where to: "sm_timeout (sr_action r) (sr_timeout_ms r) self now (timeout_ref mach) tq = (a, q, x)"
      by (cases "sm_timeout (sr_action r) (sr_timeout_ms r) self now (timeout_ref mach) tq") auto
    then have out: "o_action out = sr_action r" "timeout_ref (o_mach out) = a" "o_tq out = q" "o_set out = x"
      using 2 by (simp_all add: sm_apply_def)
    show ?thesis using sm_timer_inv_timeout [OF assms(1,2) to] assms(4) unfolding out by blast
  qed
qed

lemma sm_inv_serve:
  assumes inv: "sm_inv cbs s" and nw: "next_timer_ref (y_tq s) + 1 \<noteq> 0"
  shows "sm_inv cbs (sm_serve cbs self now s)"
proof (cases "y_queue s")
  case Nil
  then show ?thesis using inv by (simp add: sm_serve_def)
next
  case (Cons m q)
  note r = turn_replies [where cbs = cbs and self = self and now = now and m = m and mach = "y_mach s" and tq = "y_tq s"]
  show ?thesis
  proof (cases "sm_turn cbs self now m (y_mach s) (y_tq s)")
    case (Inl f)
    then show ?thesis using inv r Cons calls_in_append [of "y_taken s" "[m]"] by (simp add: sm_serve_def sm_inv_def)
  next
    case (Inr out)
    have "sm_timer_inv (timeout_ref (y_mach s)) (y_tq s) (y_set s) (y_visit s)" using inv by (simp add: sm_inv_def)
    from turn_timers [OF this nw Inr refl] show ?thesis
      using Inr inv r Cons calls_in_append [of "y_taken s" "[m]"]
      by (cases "o_action out = SW_SM_NEXT_STATE"; cases "o_set out") (simp_all add: sm_serve_def sm_inv_def Let_def)
  qed
qed

lemma sm_inv_step: "sm_step cbs self s s' \<Longrightarrow> sm_inv cbs s \<Longrightarrow> sm_inv cbs s'"
proof (induction rule: sm_step.induct)
  case (Y_turn s now)
  then show ?case by (intro sm_inv_serve)
next
  case (Y_fire s now)
  obtain tq as where f: "fire_timers now (y_tq s) = (tq, as)" by (cases "fire_timers now (y_tq s)")
  have "sm_timer_inv (timeout_ref (y_mach s)) (fst (fire_timers now (y_tq s))) (y_set s) (y_visit s)"
    using Y_fire by (intro sm_timer_inv_fire) (simp add: sm_inv_def)
  then show ?case using Y_fire f by (simp add: sm_inv_def sm_fire_def)
qed (auto simp: sm_inv_def sm_timer_inv_after sm_timer_inv_cancel)

lemma sm_inv_init: "sm_inv cbs (sm_sys0 cbs arg)"
  using timers_init_inv by (simp add: sm_inv_def sm_sys0_def sm_timer_inv_def timers_init_def)

lemma sm_reach_inv: "sm_reach cbs self arg s \<Longrightarrow> sm_inv cbs s"
  by (induction rule: sm_reach.induct) (auto intro: sm_inv_init sm_inv_step)

section \<open>Properties\<close>

text \<open>
  C32. State time-outs: in every interleaving of the machine, the scheduler that fires timers and other processes, a timer
  of the machine that is still pending is the last one it set, and it was set in the current visit to a state; so at most
  one is pending, and none survives a change of state. And every call that the machine has taken was answered exactly
  once, in order, when there is an event handler.
\<close>

theorem sm_one_timeout:
  assumes "sm_reach cbs self arg s"
  shows "(\<forall>t\<in>set (tl_head (y_tq s)). \<forall>v. (tm_ref t, v) \<in> set (y_set s) \<longrightarrow> tm_ref t = timeout_ref (y_mach s) \<and> v = y_visit s) \<and>
    distinct (map tm_ref (tl_head (y_tq s))) \<and>
    (handle_event cbs \<noteq> None \<longrightarrow> map (\<lambda>(p, ref, v). (p, ref)) (y_replies s) = calls_in (y_taken s))"
  using sm_reach_inv [OF assms] by (simp add: sm_inv_def sm_timer_inv_def timers_inv_def)

text \<open>A door that opens on a call, closes after 50 ms, and can be shut at once.\<close>

definition door :: "sw_sm_event_type \<Rightarrow> int gs_body \<Rightarrow> int \<Rightarrow> int \<Rightarrow> proc_ref option \<Rightarrow> int sw_sm_result" where
  "door etype event state data from =
     (case etype of
        SW_SM_CALL \<Rightarrow> \<lparr>sr_action = SW_SM_NEXT_STATE, sr_next_state = 1, sr_new_data = data + 1, sr_reply = Some data, sr_timeout_ms = 50\<rparr>
      | SW_SM_CAST \<Rightarrow> \<lparr>sr_action = SW_SM_NEXT_STATE, sr_next_state = 0, sr_new_data = data, sr_reply = None, sr_timeout_ms = 0\<rparr>
      | _ \<Rightarrow> \<lparr>sr_action = SW_SM_KEEP_STATE, sr_next_state = 0, sr_new_data = data + 100, sr_reply = None, sr_timeout_ms = 0\<rparr>)"

definition door_cbs :: "int sw_sm_callbacks" where
  "door_cbs = \<lparr>sm_init = None, handle_event = Some door\<rparr>"

definition door_open :: "int sm_sys" where
  "door_open = sm_serve door_cbs 4 1000 (sw_sm_call_proc 7 1000 0 (sm_sys0 door_cbs 0))"

lemma door_open_reach: "sm_reach door_cbs 4 0 door_open"
proof -
  have "sm_reach door_cbs 4 0 (sw_sm_call_proc 7 1000 0 (sm_sys0 door_cbs 0))"
    unfolding sw_sm_call_proc_def by (rule SR_step [OF SR_init Y_send])
  then show ?thesis unfolding door_open_def
    by (rule SR_step) (rule Y_turn, simp_all add: sw_sm_call_proc_def sm_sys0_def timers_init_def)
qed

lemmas sm_simps = door_open_def sw_sm_call_proc_def sw_sm_cast_proc_def sm_sys0_def sm_serve_def sm_turn_def sm_apply_def sm_timeout_def sm_start_def door_cbs_def
  door_def sw_send_after_def sw_cancel_timer_def timers_init_def gs_null_def const_simps

theorem sm_one_timeout_witness:
  "map tm_ref (tl_head (y_tq door_open)) = [timeout_ref (y_mach door_open)] \<and>
   {v. \<exists>t. t \<in> set (tl_head (y_tq door_open)) \<and> (tm_ref t, v) \<in> set (y_set door_open)} \<subseteq> {1} \<and>
   map (\<lambda>(p, ref, v). (p, ref)) (y_replies door_open) = [(7, 1000)]"
proof -
  have f: "map tm_ref (tl_head (y_tq door_open)) = [timeout_ref (y_mach door_open)]" "y_visit door_open = 1"
    "calls_in (y_taken door_open) = [(7, 1000)]" "handle_event door_cbs \<noteq> None"
    by (simp_all add: sm_simps)
  then show ?thesis using sm_one_timeout [OF door_open_reach] by auto
qed

text \<open>
  A time-out that has fired and waits in the mailbox survives the change of state: here the door is shut again before the
  machine takes the message, and the handler is told of a time-out in a state that asked for none.
\<close>

definition door_shut :: "int sm_sys" where
  "door_shut = sm_serve door_cbs 4 51000100 (sm_fire 4 51000001 (sw_sm_cast_proc 0 door_open))"

theorem sm_stale_timeout:
  "sm_reach door_cbs 4 0 door_shut \<and> sm_state (y_mach door_shut) = 0 \<and> tl_head (y_tq door_shut) = [] \<and>
   y_queue door_shut = [(SW_TAG_TIMER, B_null)] \<and>
   sm_data (y_mach (sm_serve door_cbs 4 51000200 door_shut)) = sm_data (y_mach door_shut) + 100"
proof -
  let ?a = "sw_sm_cast_proc 0 door_open"
  have "sm_reach door_cbs 4 0 ?a" unfolding sw_sm_cast_proc_def by (rule SR_step [OF door_open_reach Y_send])
  then have "sm_reach door_cbs 4 0 (sm_fire 4 51000001 ?a)" by (rule SR_step) (rule Y_fire)
  then have "sm_reach door_cbs 4 0 door_shut" unfolding door_shut_def
    by (rule SR_step) (rule Y_turn, simp_all add: sm_simps sm_fire_def fire_timers_def)
  then show ?thesis by (simp add: door_shut_def sm_simps sm_fire_def fire_timers_def timer_fire_def timer_msg_def)
qed

end
