(* ===== verification/Task.thy ===== *)
theory Task
  imports Swarm_Prelude
begin

text \<open>
  Tasks of \<^verbatim>\<open>src/src/swarmrt_task.c\<close>: a linked and monitored child runs a function and sends its result to the parent, tagged with
  the reference of the monitor; the parent awaits either that message or the report of the child's death, and puts every
  other message back into its own mailbox. A mailbox is the queue that theory Mailbox shows it to be.
\<close>

section \<open>Tasks and messages\<close>

datatype sw_task_status = SW_TASK_OK | SW_TASK_CRASH | SW_TASK_TIMEOUT

record sw_task =
  tk_child :: "proc_ref option"
  tk_ref :: u64
  tk_completed :: bool

text \<open>A message body is a result with its reference, a signal with reference and reason, something else, or null.\<close>

datatype 'v tk_body = T_result 'v u64 | T_down u64 int | T_other nat | T_null

type_synonym 'v tk_msg = "u64 \<times> 'v tk_body"

datatype tk_action = K_demonitor u64 | K_unlink proc_ref | K_kill proc_ref int

text \<open>\<open>spawn\<close> is the linked child, \<open>monitor\<close> the reference of its monitor.\<close>

definition sw_task_async :: "proc_ref option \<Rightarrow> proc_ref option \<Rightarrow> u64 \<Rightarrow> sw_task" where
  "sw_task_async self spawn monitor =
     (case (self, spawn) of
        (Some _, Some child) \<Rightarrow> \<lparr>tk_child = Some child, tk_ref = monitor, tk_completed = False\<rparr>
      | _ \<Rightarrow> \<lparr>tk_child = None, tk_ref = 0, tk_completed = False\<rparr>)"

text \<open>What the child sends when its function has returned \<open>value\<close> and left \<open>exit_reason\<close>.\<close>

definition task_child_entry :: "u64 \<Rightarrow> 'v \<Rightarrow> int \<Rightarrow> 'v tk_msg list" where
  "task_child_entry ref value exit_reason = (if exit_reason \<noteq> 0 then [] else [(SW_TAG_TASK_RESULT, T_result value ref)])"

section \<open>Await\<close>

datatype 'v await_out =
    Aw_done sw_task_status "'v option" sw_task "'v tk_msg list" "tk_action list"
  | Aw_again "'v tk_msg list"
  | Aw_fault

text \<open>One turn of the loop, from the receive on; the list is the mailbox when the receive returns.\<close>

fun await_turn :: "sw_task \<Rightarrow> u64 \<Rightarrow> 'v tk_msg list \<Rightarrow> 'v await_out" where
  "await_turn task timeout_ms [] = Aw_done SW_TASK_TIMEOUT None task [] []"
| "await_turn task timeout_ms ((tag, body) # q) =
     (if body = T_null \<and> tag = SW_TAG_NONE then Aw_done SW_TASK_TIMEOUT None task q []
      else if tag = SW_TAG_TASK_RESULT then
        (case body of
           T_result v ref \<Rightarrow>
             if ref = tk_ref task then
               Aw_done SW_TASK_OK (Some v) (task\<lparr>tk_completed := True\<rparr>) q
                 (K_demonitor ref # (case tk_child task of Some c \<Rightarrow> [K_unlink c] | None \<Rightarrow> []))
             else Aw_again (q @ [(tag, body)])
         | _ \<Rightarrow> Aw_fault)
      else if tag = SW_TAG_DOWN then
        (case body of
           T_down ref reason \<Rightarrow>
             if ref = tk_ref task then
               if reason \<noteq> 0 then Aw_done SW_TASK_CRASH None (task\<lparr>tk_completed := True\<rparr>) q [] else Aw_again q
             else Aw_again (q @ [(tag, body)])
         | _ \<Rightarrow> Aw_fault)
      else if timeout_ms = 0 then Aw_done SW_TASK_TIMEOUT None task (q @ [(tag, body)]) []
      else Aw_again (q @ [(tag, body)]))"

text \<open>
  The loop. Each turn has the time elapsed at its start and the messages that arrive before its receive returns; a receive
  that returns nothing has timed out, or its process was killed. \<^term>\<open>None\<close>: the loop is still running.
\<close>

fun await_loop :: "(u64 \<times> 'v tk_msg list) list \<Rightarrow> sw_task \<Rightarrow> u64 \<Rightarrow> 'v tk_msg list \<Rightarrow> 'v await_out option" where
  "await_loop [] task timeout_ms mail = None"
| "await_loop ((elapsed, new) # turns) task timeout_ms mail =
     (if timeout_ms \<noteq> -1 \<and> 0 < timeout_ms \<and> timeout_ms \<le> elapsed then Some (Aw_done SW_TASK_TIMEOUT None task (mail @ new) [])
      else case await_turn task timeout_ms (mail @ new) of
             Aw_again mail' \<Rightarrow> await_loop turns task timeout_ms mail'
           | r \<Rightarrow> Some r)"

definition sw_task_await :: "(u64 \<times> 'v tk_msg list) list \<Rightarrow> sw_task \<Rightarrow> u64 \<Rightarrow> 'v tk_msg list \<Rightarrow> 'v await_out option" where
  "sw_task_await turns task timeout_ms mail =
     (if tk_child task = None \<or> tk_completed task then Some (Aw_done SW_TASK_CRASH None task mail [])
      else await_loop turns task timeout_ms mail)"

definition sw_task_yield :: "(u64 \<times> 'v tk_msg list) list \<Rightarrow> sw_task \<Rightarrow> 'v tk_msg list \<Rightarrow> 'v await_out option" where
  "sw_task_yield turns task mail = sw_task_await turns task 0 mail"

definition sw_task_shutdown :: "sw_task \<Rightarrow> sw_task \<times> tk_action list" where
  "sw_task_shutdown task =
     (case tk_child task of
        None \<Rightarrow> (task, [])
      | Some c \<Rightarrow>
          if tk_completed task then (task, [])
          else (task\<lparr>tk_completed := True\<rparr>, [K_demonitor (tk_ref task), K_unlink c, K_kill c (-1)]))"

section \<open>Parent and children\<close>

text \<open>
  The parent and its children interleave. A child that was spawned waits until the parent has set its reference; it then
  runs, sends its result or not, and exits. \<open>k_value\<close> and \<open>k_reason\<close> are what its function returns and leaves. The results
  of the awaits are recorded with the reference of their task.
\<close>

datatype kid_phase = Kp_ready | Kp_sent | Kp_failed | Kp_gone

record 'v kid =
  k_value :: 'v
  k_reason :: int
  k_phase :: kid_phase
  k_sent :: bool
  k_killed :: bool

record 'v tk_sys =
  t_new :: "('v \<times> int) list"
  t_next :: u64
  t_kids :: "u64 \<Rightarrow> 'v kid option"
  t_mail :: "'v tk_msg list"
  t_log :: "(u64 \<times> sw_task_status \<times> 'v option) list"

definition tk_sys0 :: "'v tk_sys" where
  "tk_sys0 = \<lparr>t_new = [], t_next = 1, t_kids = (\<lambda>_. None), t_mail = [], t_log = []\<rparr>"

definition kid_start :: "nat \<Rightarrow> 'v tk_sys \<Rightarrow> 'v tk_sys" where
  "kid_start i s =
     s\<lparr>t_new := take i (t_new s) @ drop (Suc i) (t_new s), t_next := t_next s + 1,
       t_kids := (t_kids s)(t_next s \<mapsto> \<lparr>k_value = fst (t_new s ! i), k_reason = snd (t_new s ! i), k_phase = Kp_ready,
         k_sent = False, k_killed = False\<rparr>)\<rparr>"

definition kid_run :: "u64 \<Rightarrow> 'v kid \<Rightarrow> 'v tk_sys \<Rightarrow> 'v tk_sys" where
  "kid_run ref k s =
     s\<lparr>t_kids := (t_kids s)(ref \<mapsto> k\<lparr>k_phase := (if k_reason k \<noteq> 0 then Kp_failed else Kp_sent), k_sent := (k_reason k = 0)\<rparr>),
       t_mail := t_mail s @ task_child_entry ref (k_value k) (k_reason k)\<rparr>"

text \<open>An exit, normal or by a kill; the report is sent when the monitor is still there.\<close>

definition kid_exit :: "u64 \<Rightarrow> 'v kid \<Rightarrow> bool \<Rightarrow> 'v tk_sys \<Rightarrow> 'v tk_sys" where
  "kid_exit ref k monitored s =
     s\<lparr>t_kids := (t_kids s)(ref \<mapsto> k\<lparr>k_phase := Kp_gone\<rparr>),
       t_mail := t_mail s @ (if monitored then [(SW_TAG_DOWN, T_down ref (if k_phase k = Kp_sent then 0 else k_reason k))] else [])\<rparr>"

definition kid_kill :: "u64 \<Rightarrow> 'v kid \<Rightarrow> int \<Rightarrow> bool \<Rightarrow> 'v tk_sys \<Rightarrow> 'v tk_sys" where
  "kid_kill ref k reason monitored s =
     s\<lparr>t_kids := (t_kids s)(ref \<mapsto> k\<lparr>k_phase := Kp_gone, k_killed := True\<rparr>),
       t_mail := t_mail s @ (if monitored then [(SW_TAG_DOWN, T_down ref reason)] else [])\<rparr>"

definition parent_turn :: "sw_task \<Rightarrow> u64 \<Rightarrow> 'v tk_sys \<Rightarrow> 'v tk_sys" where
  "parent_turn task timeout_ms s =
     (case await_turn task timeout_ms (t_mail s) of
        Aw_done st v _ mail _ \<Rightarrow> s\<lparr>t_mail := mail, t_log := t_log s @ [(tk_ref task, st, v)]\<rparr>
      | Aw_again mail \<Rightarrow> s\<lparr>t_mail := mail\<rparr>
      | Aw_fault \<Rightarrow> s)"

inductive tk_step :: "'v tk_sys \<Rightarrow> 'v tk_sys \<Rightarrow> bool" where
  K_spawn: "tk_step s (s\<lparr>t_new := t_new s @ [(v, reason)]\<rparr>)"
| K_start: "i < length (t_new s) \<Longrightarrow> t_next s + 1 \<noteq> 0 \<Longrightarrow> tk_step s (kid_start i s)"
| K_run: "t_kids s ref = Some k \<Longrightarrow> k_phase k = Kp_ready \<Longrightarrow> tk_step s (kid_run ref k s)"
| K_exit: "t_kids s ref = Some k \<Longrightarrow> k_phase k = Kp_sent \<or> k_phase k = Kp_failed \<Longrightarrow> tk_step s (kid_exit ref k monitored s)"
| K_die: "t_kids s ref = Some k \<Longrightarrow> k_phase k \<noteq> Kp_gone \<Longrightarrow> tk_step s (kid_kill ref k reason monitored s)"
| K_other: "tag \<noteq> SW_TAG_TASK_RESULT \<Longrightarrow> tag \<noteq> SW_TAG_DOWN \<Longrightarrow> tk_step s (s\<lparr>t_mail := t_mail s @ [(tag, body)]\<rparr>)"
| K_monitor: "t_next s + 1 \<noteq> 0 \<Longrightarrow> tk_step s (s\<lparr>t_next := t_next s + 1\<rparr>)"
| K_down: "t_kids s ref = None \<Longrightarrow> ref < t_next s \<Longrightarrow> tk_step s (s\<lparr>t_mail := t_mail s @ [(SW_TAG_DOWN, T_down ref reason)]\<rparr>)"
| K_await: "t_kids s (tk_ref task) \<noteq> None \<Longrightarrow> tk_step s (parent_turn task timeout_ms s)"
| K_timeout: "tk_step s (s\<lparr>t_log := t_log s @ [(ref, SW_TASK_TIMEOUT, None)]\<rparr>)"

inductive tk_reach :: "'v tk_sys \<Rightarrow> bool" where
  KR_init: "tk_reach tk_sys0"
| KR_step: "tk_reach s \<Longrightarrow> tk_step s s' \<Longrightarrow> tk_reach s'"

section \<open>Invariant\<close>

definition is_result :: "u64 \<Rightarrow> 'v tk_msg \<Rightarrow> bool" where
  "is_result ref m \<longleftrightarrow> fst m = SW_TAG_TASK_RESULT \<and> (case snd m of T_result _ r \<Rightarrow> r = ref | _ \<Rightarrow> False)"

definition is_ok :: "u64 \<Rightarrow> u64 \<times> sw_task_status \<times> 'v option \<Rightarrow> bool" where
  "is_ok ref x \<longleftrightarrow> fst x = ref \<and> fst (snd x) = SW_TASK_OK"

text \<open>Where the result of a task is: in the mailbox, or returned by an await.\<close>

definition places :: "u64 \<Rightarrow> 'v tk_sys \<Rightarrow> nat" where
  "places ref s = length (filter (is_result ref) (t_mail s)) + length (filter (is_ok ref) (t_log s))"

text \<open>What a message and a recorded result say of the child they are about.\<close>

definition msg_ok :: "(u64 \<Rightarrow> 'v kid option) \<Rightarrow> u64 \<Rightarrow> 'v tk_msg \<Rightarrow> bool" where
  "msg_ok kids nxt m \<longleftrightarrow>
     (fst m = SW_TAG_TASK_RESULT \<longrightarrow> (\<exists>ref k. kids ref = Some k \<and> snd m = T_result (k_value k) ref \<and> k_sent k)) \<and>
     (fst m = SW_TAG_DOWN \<longrightarrow> (\<exists>ref reason. snd m = T_down ref reason \<and> ref < nxt \<and>
        (\<forall>k. kids ref = Some k \<longrightarrow> reason \<noteq> 0 \<longrightarrow> k_reason k \<noteq> 0 \<or> k_killed k)))"

definition log_ok :: "(u64 \<Rightarrow> 'v kid option) \<Rightarrow> u64 \<times> sw_task_status \<times> 'v option \<Rightarrow> bool" where
  "log_ok kids x \<longleftrightarrow>
     (fst (snd x) = SW_TASK_OK \<longrightarrow> (\<exists>k. kids (fst x) = Some k \<and> snd (snd x) = Some (k_value k) \<and> k_sent k)) \<and>
     (fst (snd x) = SW_TASK_CRASH \<longrightarrow> (\<exists>k. kids (fst x) = Some k \<and> (k_reason k \<noteq> 0 \<or> k_killed k)))"

definition kid_ok :: "'v kid \<Rightarrow> bool" where
  "kid_ok k \<longleftrightarrow> (k_sent k \<longrightarrow> k_reason k = 0) \<and> (k_phase k = Kp_ready \<longrightarrow> \<not> k_sent k) \<and> (k_phase k = Kp_failed \<longrightarrow> k_reason k \<noteq> 0)"

definition tk_inv :: "'v tk_sys \<Rightarrow> bool" where
  "tk_inv s \<longleftrightarrow> (\<forall>ref k. t_kids s ref = Some k \<longrightarrow> ref < t_next s \<and> kid_ok k \<and> places ref s = (if k_sent k then 1 else 0)) \<and>
     (\<forall>m\<in>set (t_mail s). msg_ok (t_kids s) (t_next s) m) \<and> (\<forall>x\<in>set (t_log s). log_ok (t_kids s) x)"

text \<open>Children keep their function; what they have done stays done; new ones get new references.\<close>

definition kids_ext :: "u64 \<Rightarrow> (u64 \<Rightarrow> 'v kid option) \<Rightarrow> (u64 \<Rightarrow> 'v kid option) \<Rightarrow> bool" where
  "kids_ext nxt kids kids' \<longleftrightarrow>
     (\<forall>ref k. kids ref = Some k \<longrightarrow> (\<exists>k'. kids' ref = Some k' \<and> k_value k' = k_value k \<and> k_reason k' = k_reason k \<and>
        (k_sent k \<longrightarrow> k_sent k') \<and> (k_killed k \<longrightarrow> k_killed k'))) \<and>
     (\<forall>ref. kids ref = None \<longrightarrow> ref < nxt \<longrightarrow> kids' ref = None)"

lemma kids_extD:
  assumes "kids_ext nxt kids kids'" "kids ref = Some k"
  obtains k' where "kids' ref = Some k'" "k_value k' = k_value k" "k_reason k' = k_reason k" "k_sent k \<Longrightarrow> k_sent k'" "k_killed k \<Longrightarrow> k_killed k'"
  using assms unfolding kids_ext_def by blast

lemma msg_ok_ext:
  assumes m: "msg_ok kids nxt m" and e: "kids_ext nxt kids kids'"
  shows "msg_ok kids' nxt m"
proof -
  have "\<exists>ref k. kids' ref = Some k \<and> snd m = T_result (k_value k) ref \<and> k_sent k" if t: "fst m = SW_TAG_TASK_RESULT"
  proof -
    obtain ref k where k: "kids ref = Some k" "snd m = T_result (k_value k) ref" "k_sent k" using m t by (auto simp: msg_ok_def)
    obtain k' where "kids' ref = Some k'" "k_value k' = k_value k" "k_sent k'" using kids_extD [OF e k(1)] k(3) by blast
    then show ?thesis using k(2) by auto
  qed
  moreover have "\<exists>ref reason. snd m = T_down ref reason \<and> ref < nxt \<and>
      (\<forall>k. kids' ref = Some k \<longrightarrow> reason \<noteq> 0 \<longrightarrow> k_reason k \<noteq> 0 \<or> k_killed k)" if t: "fst m = SW_TAG_DOWN"
  proof -
    obtain ref reason where d: "snd m = T_down ref reason" "ref < nxt"
      "\<forall>k. kids ref = Some k \<longrightarrow> reason \<noteq> 0 \<longrightarrow> k_reason k \<noteq> 0 \<or> k_killed k" using m t by (auto simp: msg_ok_def)
    have "k_reason k' \<noteq> 0 \<or> k_killed k'" if k': "kids' ref = Some k'" "reason \<noteq> 0" for k'
    proof (cases "kids ref")
      case None
      then show ?thesis using e d(2) k'(1) by (auto simp: kids_ext_def)
    next
      case (Some k)
      then show ?thesis using kids_extD [OF e Some] d(3) k' by force
    qed
    then show ?thesis using d by blast
  qed
  ultimately show ?thesis by (simp add: msg_ok_def)
qed

lemma log_ok_ext:
  assumes x: "log_ok kids x" and e: "kids_ext nxt kids kids'"
  shows "log_ok kids' x"
  unfolding log_ok_def
proof (intro conjI impI)
  assume "fst (snd x) = SW_TASK_OK"
  then obtain k where k: "kids (fst x) = Some k" "snd (snd x) = Some (k_value k)" "k_sent k" using x by (auto simp: log_ok_def)
  from e k(1) show "\<exists>k. kids' (fst x) = Some k \<and> snd (snd x) = Some (k_value k) \<and> k_sent k"
    by (rule kids_extD) (use k in auto)
next
  assume "fst (snd x) = SW_TASK_CRASH"
  then obtain k where k: "kids (fst x) = Some k" "k_reason k \<noteq> 0 \<or> k_killed k" using x by (auto simp: log_ok_def)
  from e k(1) show "\<exists>k. kids' (fst x) = Some k \<and> (k_reason k \<noteq> 0 \<or> k_killed k)"
    by (rule kids_extD) (use k in auto)
qed

lemma msg_ok_next: "msg_ok kids nxt m \<Longrightarrow> nxt + 1 \<noteq> 0 \<Longrightarrow> msg_ok kids (nxt + 1) m"
  unfolding msg_ok_def by (auto intro: word_less_add_one)

lemma kids_ext_refl: "kids_ext nxt kids kids"
  by (simp add: kids_ext_def)

lemma kids_ext_upd:
  assumes "kids ref = Some k" "k_value k' = k_value k" "k_reason k' = k_reason k" "k_sent k \<Longrightarrow> k_sent k'" "k_killed k \<Longrightarrow> k_killed k'"
  shows "kids_ext nxt kids (kids(ref \<mapsto> k'))"
  using assms by (auto simp: kids_ext_def)

text \<open>A step that changes one child and appends messages that agree with the children.\<close>

lemma tk_inv_kid:
  assumes inv: "tk_inv s" and k: "t_kids s ref = Some k" and k': "kid_ok k'" "k_value k' = k_value k" "k_reason k' = k_reason k"
      "k_sent k \<Longrightarrow> k_sent k'" "k_killed k \<Longrightarrow> k_killed k'"
    and new: "\<forall>m\<in>set new. msg_ok ((t_kids s)(ref \<mapsto> k')) (t_next s) m"
    and cnt: "\<And>r. length (filter (is_result r) new) = (if r = ref \<and> k_sent k' \<and> \<not> k_sent k then 1 else 0)"
  shows "tk_inv (s\<lparr>t_kids := (t_kids s)(ref \<mapsto> k'), t_mail := t_mail s @ new\<rparr>)"
proof -
  have e: "kids_ext (t_next s) (t_kids s) ((t_kids s)(ref \<mapsto> k'))" using k k' by (intro kids_ext_upd [where k = k]) simp_all
  have "\<forall>m\<in>set (t_mail s). msg_ok ((t_kids s)(ref \<mapsto> k')) (t_next s) m" "\<forall>x\<in>set (t_log s). log_ok ((t_kids s)(ref \<mapsto> k')) x"
    using inv msg_ok_ext [OF _ e] log_ok_ext [OF _ e] by (auto simp: tk_inv_def)
  moreover have "r < t_next s \<and> kid_ok x \<and> places r (s\<lparr>t_kids := (t_kids s)(ref \<mapsto> k'), t_mail := t_mail s @ new\<rparr>) = (if k_sent x then 1 else 0)"
    if x: "((t_kids s)(ref \<mapsto> k')) r = Some x" for r x
  proof (cases "r = ref")
    case True
    then show ?thesis using x inv k k' cnt [of r] by (auto simp: tk_inv_def places_def)
  next
    case False
    then show ?thesis using x inv cnt [of r] by (auto simp: tk_inv_def places_def)
  qed
  ultimately show ?thesis using new by (auto simp: tk_inv_def)
qed

lemma msg_ok_down:
  assumes "ref < nxt" "\<And>k. kids ref = Some k \<Longrightarrow> reason \<noteq> 0 \<Longrightarrow> k_reason k \<noteq> 0 \<or> k_killed k"
  shows "msg_ok kids nxt (SW_TAG_DOWN, T_down ref reason)"
  using assms by (auto simp: msg_ok_def const_simps)

lemma tk_inv_kidD: "tk_inv s \<Longrightarrow> t_kids s ref = Some k \<Longrightarrow> ref < t_next s \<and> kid_ok k"
  by (simp add: tk_inv_def)

lemma tk_inv_run:
  assumes inv: "tk_inv s" and k: "t_kids s ref = Some k" "k_phase k = Kp_ready"
  shows "tk_inv (kid_run ref k s)"
proof -
  have "kid_ok k" using tk_inv_kidD [OF inv k(1)] by simp
  then show ?thesis unfolding kid_run_def
    by (intro tk_inv_kid [OF inv k(1)])
      (use k in \<open>auto simp: kid_ok_def task_child_entry_def msg_ok_def is_result_def const_simps\<close>)
qed

lemma tk_inv_exit:
  assumes inv: "tk_inv s" and k: "t_kids s ref = Some k" "k_phase k = Kp_sent \<or> k_phase k = Kp_failed"
  shows "tk_inv (kid_exit ref k monitored s)"
proof -
  have ok: "kid_ok k" "ref < t_next s" using tk_inv_kidD [OF inv k(1)] by simp_all
  then show ?thesis unfolding kid_exit_def
    by (intro tk_inv_kid [OF inv k(1)])
      (use k in \<open>auto simp: kid_ok_def is_result_def const_simps intro!: msg_ok_down [unfolded const_simps]\<close>)
qed

lemma tk_inv_kill:
  assumes inv: "tk_inv s" and k: "t_kids s ref = Some k"
  shows "tk_inv (kid_kill ref k reason monitored s)"
proof -
  have ok: "kid_ok k" "ref < t_next s" using tk_inv_kidD [OF inv k(1)] by simp_all
  then show ?thesis unfolding kid_kill_def
    by (intro tk_inv_kid [OF inv k(1)])
      (auto simp: kid_ok_def is_result_def const_simps intro!: msg_ok_down [unfolded const_simps])
qed

text \<open>A new child gets a reference that no message and no result mentions.\<close>

lemma tk_inv_start:
  assumes inv: "tk_inv s" and nw: "t_next s + 1 \<noteq> 0"
  shows "tk_inv (kid_start i s)"
proof -
  let ?r = "t_next s" and ?s = "kid_start i s"
  have none: "t_kids s ?r = None" using inv by (cases "t_kids s ?r") (auto simp: tk_inv_def)
  have e: "kids_ext ?r (t_kids s) (t_kids ?s)" using none by (auto simp: kids_ext_def kid_start_def)
  have "msg_ok (t_kids ?s) (?r + 1) m" if "m \<in> set (t_mail s)" for m
    using msg_ok_next [OF msg_ok_ext [OF _ e] nw] inv that by (auto simp: tk_inv_def)
  moreover have "log_ok (t_kids ?s) x" if "x \<in> set (t_log s)" for x using log_ok_ext [OF _ e] inv that by (auto simp: tk_inv_def)
  moreover have "\<not> is_result ?r m" if "m \<in> set (t_mail s)" for m
    using inv that none by (fastforce simp: tk_inv_def msg_ok_def is_result_def)
  moreover have "\<not> is_ok ?r x" if "x \<in> set (t_log s)" for x using inv that none by (fastforce simp: tk_inv_def log_ok_def is_ok_def)
  ultimately show ?thesis using inv nw word_less_add_one
    by (auto simp: tk_inv_def kid_start_def kid_ok_def places_def filter_empty_conv word_less_succ)
qed

text \<open>
  Three things a turn can do to mailbox and record: move a message or drop one that is no result, note something that
  is no success, or hand out a result.
\<close>

lemma tk_inv_mail:
  assumes inv: "tk_inv s" and sub: "set mail \<subseteq> set (t_mail s)"
    and cnt: "\<And>r. length (filter (is_result r) mail) = length (filter (is_result r) (t_mail s))"
  shows "tk_inv (s\<lparr>t_mail := mail\<rparr>)"
  using assms by (auto simp: tk_inv_def places_def)

lemma tk_inv_log:
  assumes "tk_inv s" "log_ok (t_kids s) x" "fst (snd x) \<noteq> SW_TASK_OK"
  shows "tk_inv (s\<lparr>t_log := t_log s @ [x]\<rparr>)"
  using assms by (auto simp: tk_inv_def places_def is_ok_def)

lemma tk_inv_result:
  assumes inv: "tk_inv s" and mail: "t_mail s = m # q" "is_result ref m"
  shows "\<exists>k. t_kids s ref = Some k \<and> snd m = T_result (k_value k) ref \<and> k_sent k \<and>
    tk_inv (s\<lparr>t_mail := q, t_log := t_log s @ [(ref, SW_TASK_OK, Some (k_value k))]\<rparr>)"
proof -
  have "msg_ok (t_kids s) (t_next s) m" using inv mail(1) by (simp add: tk_inv_def)
  then obtain k where k: "t_kids s ref = Some k" "snd m = T_result (k_value k) ref" "k_sent k"
    using mail(2) by (auto simp: msg_ok_def is_result_def)
  have m: "is_result r m \<longleftrightarrow> r = ref" for r using mail(2) k(2) by (auto simp: is_result_def)
  have "tk_inv (s\<lparr>t_mail := q, t_log := t_log s @ [(ref, SW_TASK_OK, Some (k_value k))]\<rparr>)"
    (is "tk_inv ?s")
  proof -
    have "places r ?s = places r s" for r using mail(1) m [of r] by (auto simp: places_def is_ok_def)
    moreover have "log_ok (t_kids s) (ref, SW_TASK_OK, Some (k_value k))" using k by (simp add: log_ok_def)
    ultimately show ?thesis using inv mail(1) by (auto simp: tk_inv_def)
  qed
  then show ?thesis using k by blast
qed

lemma timeout_ok [simp]: "log_ok kids (ref, SW_TASK_TIMEOUT, v)"
  by (simp add: log_ok_def)

lemma tk_inv_await:
  assumes inv: "tk_inv s" and task: "t_kids s (tk_ref task) \<noteq> None"
  shows "tk_inv (parent_turn task timeout_ms s)"
proof (cases "t_mail s")
  case Nil
  have "tk_inv (s\<lparr>t_mail := []\<rparr>)" using Nil by (intro tk_inv_mail [OF inv]) simp_all
  from tk_inv_log [OF this, of "(tk_ref task, SW_TASK_TIMEOUT, None)"] show ?thesis using Nil by (simp add: parent_turn_def)
next
  case (Cons m q)
  obtain tag body where m: "m = (tag, body)" by (cases m)
  have ok: "msg_ok (t_kids s) (t_next s) m" using inv Cons by (simp add: tk_inv_def)
  have rotate: "tk_inv (s\<lparr>t_mail := q @ [m]\<rparr>)" using Cons by (intro tk_inv_mail [OF inv]) auto
  have drop: "tk_inv (s\<lparr>t_mail := q\<rparr>)" if "tag \<noteq> SW_TAG_TASK_RESULT"
    using Cons m that by (intro tk_inv_mail [OF inv]) (auto simp: is_result_def)
  have quiet: "tk_inv (s'\<lparr>t_log := t_log s' @ [(tk_ref task, SW_TASK_TIMEOUT, None)]\<rparr>)" if "tk_inv s'" for s' :: "'a tk_sys"
    using tk_inv_log [OF that, of "(tk_ref task, SW_TASK_TIMEOUT, None)"] by simp
  consider "body = T_null \<and> tag = SW_TAG_NONE" | "tag = SW_TAG_TASK_RESULT" | "tag = SW_TAG_DOWN"
    | "\<not> (body = T_null \<and> tag = SW_TAG_NONE)" "tag \<noteq> SW_TAG_TASK_RESULT" "tag \<noteq> SW_TAG_DOWN" by blast
  then show ?thesis
  proof cases
    case 1
    then show ?thesis using Cons m quiet [OF drop] by (simp add: parent_turn_def const_simps)
  next
    case 2
    then obtain v r where b: "body = T_result v r" using ok m by (auto simp: msg_ok_def)
    show ?thesis
    proof (cases "r = tk_ref task")
      case True
      then have "is_result (tk_ref task) m" using m b 2 by (simp add: is_result_def)
      from tk_inv_result [OF inv Cons this] show ?thesis using Cons m b 2 True by (auto simp: parent_turn_def)
    next
      case False
      then show ?thesis using Cons m b 2 rotate by (simp add: parent_turn_def)
    qed
  next
    case 3
    then obtain r reason where b: "body = T_down r reason" "\<forall>k. t_kids s r = Some k \<longrightarrow> reason \<noteq> 0 \<longrightarrow> k_reason k \<noteq> 0 \<or> k_killed k"
      using ok m by (auto simp: msg_ok_def)
    have d: "tk_inv (s\<lparr>t_mail := q\<rparr>)" using 3 by (intro drop) (simp add: const_simps)
    have "log_ok (t_kids s) (tk_ref task, SW_TASK_CRASH, None)" if "r = tk_ref task" "reason \<noteq> 0"
      using task b(2) that by (auto simp: log_ok_def)
    then have "tk_inv (s\<lparr>t_mail := q, t_log := t_log s @ [(tk_ref task, SW_TASK_CRASH, None)]\<rparr>)" if "r = tk_ref task" "reason \<noteq> 0"
      using that tk_inv_log [OF d, of "(tk_ref task, SW_TASK_CRASH, None)"] by simp
    then show ?thesis using Cons m b 3 d rotate by (auto simp: parent_turn_def const_simps)
  next
    case 4
    then show ?thesis using Cons m rotate quiet [OF rotate] by (auto simp: parent_turn_def)
  qed
qed

lemma tk_inv_step: "tk_step s s' \<Longrightarrow> tk_inv s \<Longrightarrow> tk_inv s'"
proof (induction rule: tk_step.induct)
  case (K_spawn s v reason)
  then show ?case by (simp add: tk_inv_def places_def)
next
  case (K_other tag s body)
  then have "msg_ok (t_kids s) (t_next s) (tag, body)" "\<not> is_result r (tag, body)" for r by (auto simp: msg_ok_def is_result_def)
  then show ?case using K_other by (auto simp: tk_inv_def places_def)
next
  case (K_monitor s)
  have "\<forall>m\<in>set (t_mail s). msg_ok (t_kids s) (t_next s + 1) m"
    using K_monitor by (auto simp: tk_inv_def intro: msg_ok_next)
  then show ?case using K_monitor word_less_add_one by (auto simp: tk_inv_def places_def)
next
  case (K_down s ref reason)
  then have "msg_ok (t_kids s) (t_next s) (SW_TAG_DOWN, T_down ref reason)" by (intro msg_ok_down) auto
  then show ?case using K_down by (auto simp: tk_inv_def places_def is_result_def const_simps)
next
  case (K_timeout s ref)
  then show ?case by (intro tk_inv_log) simp_all
qed (auto intro: tk_inv_start tk_inv_run tk_inv_exit tk_inv_kill tk_inv_await)

lemma tk_reach_inv: "tk_reach s \<Longrightarrow> tk_inv s"
proof (induction rule: tk_reach.induct)
  case KR_init
  show ?case by (simp add: tk_inv_def tk_sys0_def)
next
  case (KR_step s s')
  then show ?case by (blast intro: tk_inv_step)
qed

section \<open>The loop finds its message\<close>

text \<open>A message that ends the wait for a task: its result, or the report that it failed.\<close>

definition ends_wait :: "sw_task \<Rightarrow> 'v tk_msg \<Rightarrow> bool" where
  "ends_wait task m \<longleftrightarrow> is_result (tk_ref task) m \<or>
     fst m = SW_TAG_DOWN \<and> (case snd m of T_down r reason \<Rightarrow> r = tk_ref task \<and> reason \<noteq> 0 | _ \<Rightarrow> False)"

text \<open>Messages as processes send them: results and reports have their bodies, and none is empty and untagged.\<close>

definition tk_wf :: "'v tk_msg \<Rightarrow> bool" where
  "tk_wf m \<longleftrightarrow> (fst m = SW_TAG_TASK_RESULT \<longrightarrow> (\<exists>v r. snd m = T_result v r)) \<and> (fst m = SW_TAG_DOWN \<longrightarrow> (\<exists>r x. snd m = T_down r x)) \<and>
     \<not> (snd m = T_null \<and> fst m = SW_TAG_NONE)"

lemma turn_ends:
  assumes "tk_wf m" "ends_wait task m"
  shows "\<exists>st v task' acts. await_turn task tmo (m # q) = Aw_done st v task' q acts \<and> st \<noteq> SW_TASK_TIMEOUT"
proof -
  obtain tag body where m: "m = (tag, body)" by (cases m)
  show ?thesis using assms m by (auto simp: tk_wf_def ends_wait_def is_result_def const_simps split: tk_body.splits)
qed

lemma turn_goes_on:
  assumes "tk_wf m" "\<not> ends_wait task m" "tmo \<noteq> 0"
  shows "\<exists>bk. await_turn task tmo (m # q) = Aw_again (q @ bk) \<and> set bk \<subseteq> {m}"
proof -
  obtain tag body where m: "m = (tag, body)" by (cases m)
  show ?thesis using assms m
    by (auto simp: tk_wf_def ends_wait_def is_result_def const_simps split: tk_body.splits)
qed

section \<open>Properties\<close>


definition task_demo :: "nat tk_sys" where
  "task_demo = parent_turn \<lparr>tk_child = Some 5, tk_ref = 1, tk_completed = False\<rparr> 100
     (kid_run 1 \<lparr>k_value = 42, k_reason = 0, k_phase = Kp_ready, k_sent = False, k_killed = False\<rparr>
       (kid_start 0 (tk_sys0\<lparr>t_new := [(42, 0)]\<rparr>)))"

lemmas task_demo_simps = task_demo_def parent_turn_def kid_run_def kid_start_def tk_sys0_def task_child_entry_def const_simps

lemma task_demo_reach: "tk_reach task_demo"
proof -
  have "tk_reach (tk_sys0\<lparr>t_new := t_new tk_sys0 @ [(42, 0)]\<rparr> :: nat tk_sys)" by (rule KR_step [OF KR_init K_spawn])
  then have "tk_reach (kid_start 0 (tk_sys0\<lparr>t_new := [(42, 0)]\<rparr>) :: nat tk_sys)"
    by (intro KR_step [OF _ K_start]) (simp_all add: tk_sys0_def)
  then have "tk_reach (kid_run 1 \<lparr>k_value = 42, k_reason = 0, k_phase = Kp_ready, k_sent = False, k_killed = False\<rparr>
       (kid_start 0 (tk_sys0\<lparr>t_new := [(42, 0)]\<rparr>) :: nat tk_sys))"
    by (rule KR_step) (rule K_run, simp_all add: kid_start_def tk_sys0_def)
  then show ?thesis unfolding task_demo_def by (rule KR_step) (rule K_await, simp add: kid_run_def)
qed


text \<open>
  C35. An await returns: when the message that ends the wait, the task's result or the report of its failure, is at position
  \<open>i\<close> of the mailbox, the loop returns success or a crash after at most \<open>i + 1\<close> turns, whatever arrives meanwhile, as long as
  its time has not run out.
\<close>

theorem task_await_returns:
  assumes "i < length mail" "ends_wait task (mail ! i)" "\<forall>m\<in>set mail. tk_wf m" "\<forall>(el, new)\<in>set turns. \<forall>m\<in>set new. tk_wf m"
    and "tk_child task \<noteq> None" "\<not> tk_completed task" "tmo \<noteq> 0" "\<forall>(el, new)\<in>set turns. tmo = -1 \<or> el < tmo" "i < length turns"
  shows "\<exists>st v task' rest acts. sw_task_await turns task tmo mail = Some (Aw_done st v task' rest acts) \<and> st \<noteq> SW_TASK_TIMEOUT"
proof -
  have "\<exists>st v task' rest acts. await_loop turns task tmo mail = Some (Aw_done st v task' rest acts) \<and> st \<noteq> SW_TASK_TIMEOUT"
    using assms(1-4,8,9)
  proof (induction turns arbitrary: mail i)
    case (Cons x turns)
    obtain el new where x: "x = (el, new)" by (cases x)
    obtain m q where mail: "mail = m # q" using Cons.prems(1) by (cases mail) auto
    have time: "\<not> (tmo \<noteq> -1 \<and> 0 < tmo \<and> tmo \<le> el)" using Cons.prems(5) x by (auto simp: not_le)
    have wf: "tk_wf m" using Cons.prems(3) mail by simp
    show ?case
    proof (cases "ends_wait task m")
      case True
      then obtain st v task' acts where "await_turn task tmo (m # q @ new) = Aw_done st v task' (q @ new) acts" "st \<noteq> SW_TASK_TIMEOUT"
        using turn_ends [OF wf] by blast
      then show ?thesis using x mail time by auto
    next
      case False
      then obtain bk where b: "await_turn task tmo (m # q @ new) = Aw_again ((q @ new) @ bk)" "set bk \<subseteq> {m}"
        using turn_goes_on [OF wf _ assms(7)] by blast
      obtain j where i: "i = Suc j" using False Cons.prems(2) mail by (cases i) auto
      have "\<exists>st v task' rest acts. await_loop turns task tmo ((q @ new) @ bk) = Some (Aw_done st v task' rest acts) \<and> st \<noteq> SW_TASK_TIMEOUT"
        using Cons.prems i x mail b(2) wf by (intro Cons.IH [of j]) (auto simp: nth_append)
      then show ?thesis using x mail time b(1) by auto
    qed
  qed simp
  then show ?thesis using assms(5,6) by (simp add: sw_task_await_def)
qed

theorem task_await_returns_witness:
  "\<exists>st v task' rest acts. sw_task_await [(0, []), (3, [(20, T_other 1)])] \<lparr>tk_child = Some 5, tk_ref = 7, tk_completed = False\<rparr> 50
     [(20, T_other 0), (SW_TAG_TASK_RESULT, T_result (42 :: nat) 7)] = Some (Aw_done st v task' rest acts) \<and> st \<noteq> SW_TASK_TIMEOUT"
  by (rule task_await_returns [of 1]) (simp_all add: ends_wait_def is_result_def tk_wf_def const_simps)

text \<open>
  A poll that meets the result of another task puts it back and takes it again, without end, until its own result comes.
\<close>

theorem task_yield_spins:
  assumes "r \<noteq> tk_ref task" "tk_child task \<noteq> None" "\<not> tk_completed task"
  shows "sw_task_yield (replicate n (0, [])) task [(SW_TAG_TASK_RESULT, T_result v r)] = None"
proof -
  have "await_loop (replicate n (0, [])) task 0 [(SW_TAG_TASK_RESULT, T_result v r)] = None"
    using assms(1) by (induction n) (simp_all add: const_simps)
  then show ?thesis using assms by (simp add: sw_task_yield_def sw_task_await_def)
qed

end
