(* ===== verification/Lang_Value.thy ===== *)
theory Lang_Value
  imports Swarm_Prelude "HOL-Library.FSet"
begin

text \<open>
  Syntax trees and values of the \<^verbatim>\<open>.sw\<close> language, \<^verbatim>\<open>src/src/swarmrt_lang.h\<close> and the value section of
  \<^verbatim>\<open>src/src/swarmrt_lang.c\<close>: maps, truth, equality and printing. A double is its 64-bit pattern. Values are
  never changed in place by the code of this file, so they are plain data; what a closure captures is the
  number of an environment, which theory Lang_Eval keeps.
\<close>

section \<open>Syntax trees\<close>

type_synonym int64 = "64 word"
type_synonym double = "64 word"

text \<open>
  The source line of a node is only used by the assertion builtins, which calls and pipes reach, so only these
  carry it. The function of a call is always an identifier node, of which the evaluator reads the text.
\<close>

datatype node =
    N_INT int64
  | N_FLOAT double
  | N_STRING string
  | N_ATOM string
  | N_IDENT string
  | N_SELF
  | N_TUPLE "node list"
  | N_LIST "node list"
  | N_LIST_CONS node node
  | N_MAP "(node \<times> node) list"
  | N_BINOP node node string
  | N_UNARY node char
  | N_PIPE nat node node
  | N_CALL nat string "node list"
  | N_ASSIGN string node
  | N_BLOCK "node list"
  | N_IF node node "node option"
  | N_FOR string node node
  | N_RANGE node node
  | N_TRY node string node
  | N_SPAWN node
  | N_SEND node node
  | N_RECEIVE "(node \<times> node option \<times> node) list" "node option" int
  | N_FUN string "(string \<times> node option) list" node

section \<open>Values\<close>

datatype sw_val =
    V_nil
  | V_int int64
  | V_float double
  | V_string string
  | V_atom string
  | V_pid "proc_ref option"
  | V_tuple "sw_val list"
  | V_list "sw_val list"
  | V_fun node nat
  | V_map "(sw_val \<times> sw_val) list"

text \<open>
  Comparison of doubles as \<^verbatim>\<open>==\<close> does it: a NaN (all exponent bits set, fraction not zero) equals nothing, and
  the two zeros are equal.
\<close>

definition f_nan :: "double \<Rightarrow> bool" where
  "f_nan x \<longleftrightarrow> x AND 0x7FF0000000000000 = 0x7FF0000000000000 \<and> x AND 0x000FFFFFFFFFFFFF \<noteq> 0"

definition f_zero :: "double \<Rightarrow> bool" where
  "f_zero x \<longleftrightarrow> x = 0 \<or> x = 0x8000000000000000"

definition f_eq :: "double \<Rightarrow> double \<Rightarrow> bool" where
  "f_eq x y \<longleftrightarrow> \<not> f_nan x \<and> \<not> f_nan y \<and> (x = y \<or> f_zero x \<and> f_zero y)"

fun sw_val_is_truthy :: "sw_val \<Rightarrow> bool" where
  "sw_val_is_truthy V_nil = False"
| "sw_val_is_truthy (V_int i) = (i \<noteq> 0)"
| "sw_val_is_truthy (V_float f) = (\<not> f_zero f)"
| "sw_val_is_truthy (V_atom s) = (s \<noteq> ''false'' \<and> s \<noteq> ''nil'')"
| "sw_val_is_truthy _ = True"

text \<open>
  Equality. \<open>entry_equal\<close> is the body of the loop over a map: the value of a key against the value that
  \<^verbatim>\<open>sw_val_map_get\<close> finds in the other map, which is nil for a key that is not there.
\<close>

function sw_val_equal :: "sw_val \<Rightarrow> sw_val \<Rightarrow> bool"
  and items_equal :: "sw_val list \<Rightarrow> sw_val list \<Rightarrow> bool"
  and entries_equal :: "(sw_val \<times> sw_val) list \<Rightarrow> (sw_val \<times> sw_val) list \<Rightarrow> bool"
  and entry_equal :: "sw_val \<Rightarrow> sw_val \<Rightarrow> (sw_val \<times> sw_val) list \<Rightarrow> bool" where
  "sw_val_equal a b =
     (case (a, b) of
        (V_nil, V_atom s) \<Rightarrow> s = ''nil''
      | (V_atom s, V_nil) \<Rightarrow> s = ''nil''
      | (V_nil, V_nil) \<Rightarrow> True
      | (V_int i, V_int j) \<Rightarrow> i = j
      | (V_float x, V_float y) \<Rightarrow> f_eq x y
      | (V_string s, V_string t) \<Rightarrow> s = t
      | (V_atom s, V_atom t) \<Rightarrow> s = t
      | (V_pid p, V_pid q) \<Rightarrow> p = q
      | (V_tuple xs, V_tuple ys) \<Rightarrow> length xs = length ys \<and> items_equal xs ys
      | (V_list xs, V_list ys) \<Rightarrow> length xs = length ys \<and> items_equal xs ys
      | (V_map es, V_map fs) \<Rightarrow> length es = length fs \<and> entries_equal es fs
      | _ \<Rightarrow> False)"
| "items_equal [] ys = True"
| "items_equal (x # xs) [] = False"
| "items_equal (x # xs) (y # ys) = (sw_val_equal x y \<and> items_equal xs ys)"
| "entries_equal [] fs = True"
| "entries_equal ((k, v) # es) fs = (entry_equal k v fs \<and> entries_equal es fs)"
| "entry_equal k v [] = sw_val_equal v V_nil"
| "entry_equal k v ((k', v') # fs) = (if sw_val_equal k' k then sw_val_equal v v' else entry_equal k v fs)"
  by pat_completeness auto
termination
  by (relation "measure (\<lambda>x. case x of
        Inl (Inl (a, b)) \<Rightarrow> 2 * (size a + size b) + 1
      | Inl (Inr (xs, ys)) \<Rightarrow> 2 * (size_list size xs + size_list size ys) + 1
      | Inr (Inl (es, fs)) \<Rightarrow> 2 * (size_list (size_prod size size) es + size_list (size_prod size size) fs) + 1
      | Inr (Inr (k, v, fs)) \<Rightarrow> 2 * (size k + size v + size_list (size_prod size size) fs) + 2)") auto

declare sw_val_equal.simps [simp del]

fun map_lookup :: "(sw_val \<times> sw_val) list \<Rightarrow> sw_val \<Rightarrow> sw_val" where
  "map_lookup [] key = V_nil"
| "map_lookup ((k, v) # es) key = (if sw_val_equal k key then v else map_lookup es key)"

fun sw_val_map_get :: "sw_val \<Rightarrow> sw_val \<Rightarrow> sw_val" where
  "sw_val_map_get (V_map es) key = map_lookup es key"
| "sw_val_map_get _ key = V_nil"

fun map_replace :: "(sw_val \<times> sw_val) list \<Rightarrow> sw_val \<Rightarrow> sw_val \<Rightarrow> (sw_val \<times> sw_val) list" where
  "map_replace [] key val = [(key, val)]"
| "map_replace ((k, v) # es) key val = (if sw_val_equal k key then (k, val) # es else (k, v) # map_replace es key val)"

fun sw_val_map_put :: "sw_val \<Rightarrow> sw_val \<Rightarrow> sw_val \<Rightarrow> sw_val" where
  "sw_val_map_put (V_map es) key val = V_map (map_replace es key val)"
| "sw_val_map_put _ key val = V_map [(key, val)]"

text \<open>The loop body is the comparison with the result of the lookup.\<close>

lemma entry_equal_lookup: "entry_equal k v fs = sw_val_equal v (map_lookup fs k)"
  by (induction fs) (auto split: if_splits)

lemma items_equal_list_all2: "length xs = length ys \<Longrightarrow> items_equal xs ys = list_all2 sw_val_equal xs ys"
  by (induction xs ys rule: list_induct2) auto

lemma entries_equal_iff: "entries_equal es fs = (\<forall>(k, v)\<in>set es. sw_val_equal v (map_lookup fs k))"
  by (induction es) (auto simp: entry_equal_lookup)

section \<open>Equality decides equality of the values meant\<close>

text \<open>
  The value that a representation means: nil and the atom \<open>nil\<close> are the same, so are the two zeros, and a map
  is a finite set of entries. Not meaningful are functions, NaNs, maps with two equal keys and maps that hold nil.
\<close>

datatype mval =
    M_nil
  | M_int int64
  | M_float double
  | M_string string
  | M_atom string
  | M_pid "proc_ref option"
  | M_tuple "mval list"
  | M_list "mval list"
  | M_fun
  | M_map "(mval \<times> mval) fset"

fun meaning :: "sw_val \<Rightarrow> mval" where
  "meaning V_nil = M_nil"
| "meaning (V_int i) = M_int i"
| "meaning (V_float x) = M_float (if f_zero x then 0 else x)"
| "meaning (V_string s) = M_string s"
| "meaning (V_atom s) = (if s = ''nil'' then M_nil else M_atom s)"
| "meaning (V_pid p) = M_pid p"
| "meaning (V_tuple xs) = M_tuple (map meaning xs)"
| "meaning (V_list xs) = M_list (map meaning xs)"
| "meaning (V_fun _ _) = M_fun"
| "meaning (V_map es) = M_map (fset_of_list (map (\<lambda>(k, v). (meaning k, meaning v)) es))"

fun proper :: "sw_val \<Rightarrow> bool" where
  "proper (V_float x) = (\<not> f_nan x)"
| "proper (V_tuple xs) = (\<forall>x\<in>set xs. proper x)"
| "proper (V_list xs) = (\<forall>x\<in>set xs. proper x)"
| "proper (V_fun _ _) = False"
| "proper (V_map es) = ((\<forall>(k, v)\<in>set es. proper k \<and> proper v \<and> meaning v \<noteq> M_nil) \<and> distinct (map (\<lambda>(k, v). meaning k) es))"
| "proper _ = True"

abbreviation mean_entries :: "(sw_val \<times> sw_val) list \<Rightarrow> (mval \<times> mval) list" where
  "mean_entries es \<equiv> map (\<lambda>(k, v). (meaning k, meaning v)) es"

lemma map_fst_mean: "map fst (mean_entries es) = map (\<lambda>(k, v). meaning k) es"
  by (induction es) auto

lemma f_zero_not_nan: "f_zero x \<Longrightarrow> \<not> f_nan x"
proof -
  have "\<not> f_nan 0" "\<not> f_nan 0x8000000000000000" by code_simp+
  then show "f_zero x \<Longrightarrow> \<not> f_nan x" unfolding f_zero_def by blast
qed

lemma f_eq_meaning: "\<not> f_nan x \<Longrightarrow> \<not> f_nan y \<Longrightarrow> f_eq x y \<longleftrightarrow> (if f_zero x then 0 else x) = (if f_zero y then 0 else y)"
  by (auto simp: f_eq_def f_zero_def)

text \<open>A lookup by an equal key is a lookup by the key's meaning.\<close>

lemma meaning_lookup:
  assumes "\<forall>(k', v)\<in>set fs. sw_val_equal k' k \<longleftrightarrow> meaning k' = meaning k"
  shows "meaning (map_lookup fs k) = (case map_of (mean_entries fs) (meaning k) of None \<Rightarrow> M_nil | Some m \<Rightarrow> m)"
  using assms
proof (induction fs)
  case (Cons f fs)
  then show ?case by (cases f) simp
qed simp

lemma entries_same_card:
  fixes xs ys :: "('a \<times> 'b) list"
  assumes "distinct (map fst xs)" "distinct (map fst ys)" "length xs = length ys"
  shows "(\<forall>(k, v)\<in>set xs. map_of ys k = Some v) \<longleftrightarrow> set xs = set ys"
proof
  assume "\<forall>(k, v)\<in>set xs. map_of ys k = Some v"
  then have "set xs \<subseteq> set ys" by (auto dest: map_of_SomeD)
  moreover have "card (set xs) = card (set ys)"
    using assms by (simp add: distinct_card distinct_map)
  ultimately show "set xs = set ys" by (intro card_subset_eq) auto
next
  assume "set xs = set ys"
  then show "\<forall>(k, v)\<in>set xs. map_of ys k = Some v" using assms(2) by auto
qed

text \<open>The step for two maps, given the claim for their parts.\<close>

lemma map_equal_meaning:
  assumes pe: "proper (V_map es)" and pf: "proper (V_map fs)" and len: "length es = length fs"
    and keys: "\<And>k v k' v'. (k, v) \<in> set es \<Longrightarrow> (k', v') \<in> set fs \<Longrightarrow> sw_val_equal k' k \<longleftrightarrow> meaning k' = meaning k"
    and vals: "\<And>k v. (k, v) \<in> set es \<Longrightarrow> sw_val_equal v (map_lookup fs k) \<longleftrightarrow> meaning v = meaning (map_lookup fs k)"
  shows "entries_equal es fs \<longleftrightarrow> meaning (V_map es) = meaning (V_map fs)"
proof -
  have look: "meaning (map_lookup fs k) = (case map_of (mean_entries fs) (meaning k) of None \<Rightarrow> M_nil | Some m \<Rightarrow> m)"
    if "(k, v) \<in> set es" for k v
    using keys [OF that] by (intro meaning_lookup) auto
  have "entries_equal es fs \<longleftrightarrow> (\<forall>(k, v)\<in>set es. map_of (mean_entries fs) (meaning k) = Some (meaning v))"
    unfolding entries_equal_iff
  proof (rule ball_cong [OF refl], clarify)
    fix k v assume kv: "(k, v) \<in> set es"
    then have "meaning v \<noteq> M_nil" using pe by auto
    then show "sw_val_equal v (map_lookup fs k) \<longleftrightarrow> map_of (mean_entries fs) (meaning k) = Some (meaning v)"
      using vals [OF kv] look [OF kv] by (auto split: option.splits)
  qed
  also have "\<dots> \<longleftrightarrow> (\<forall>(k, v)\<in>set (mean_entries es). map_of (mean_entries fs) k = Some v)" by auto
  also have "\<dots> \<longleftrightarrow> set (mean_entries es) = set (mean_entries fs)"
  proof (rule entries_same_card)
    show "distinct (map fst (mean_entries es))" "distinct (map fst (mean_entries fs))"
      unfolding map_fst_mean using pe pf by simp_all
  qed (simp add: len)
  also have "\<dots> \<longleftrightarrow> meaning (V_map es) = meaning (V_map fs)" by (simp add: fset_of_list.rep_eq fset_inject [symmetric])
  finally show ?thesis .
qed

lemma map_lookup_cases: "map_lookup fs k \<in> insert V_nil (snd ` set fs)"
proof (induction fs)
  case (Cons f fs)
  then show ?case by (cases f) auto
qed simp

lemma meaning_map_length:
  assumes "proper (V_map es)" "proper (V_map fs)" "meaning (V_map es) = meaning (V_map fs)"
  shows "length es = length fs"
proof -
  have "set (mean_entries es) = set (mean_entries fs)"
    using assms(3) by (simp add: fset_of_list.rep_eq fset_inject [symmetric])
  moreover have "distinct (map fst (mean_entries es))" "distinct (map fst (mean_entries fs))"
    unfolding map_fst_mean using assms(1,2) by simp_all
  then have "distinct (mean_entries es)" "distinct (mean_entries fs)" by (simp_all only: distinct_map)
  ultimately show ?thesis by (metis distinct_card length_map)
qed

lemma size_lookup: "size (map_lookup fs k) \<le> size_list (size_prod size size) fs"
  by (induction fs) auto

lemma size_entry: "(k, v) \<in> set es \<Longrightarrow> size k + size v < size_list (size_prod size size) es"
  by (induction es) auto

lemma size_item: "x \<in> set xs \<Longrightarrow> size x < size_list size xs"
  by (induction xs) auto

lemma equal_meaning_bounded:
  "size a + size b < n \<Longrightarrow> proper a \<Longrightarrow> proper b \<Longrightarrow> sw_val_equal a b \<longleftrightarrow> meaning a = meaning b"
proof (induction n arbitrary: a b)
  case (Suc n)
  have items: "items_equal xs ys \<longleftrightarrow> map meaning xs = map meaning ys"
    if "length xs = length ys" "size_list size xs + size_list size ys < Suc n" "\<forall>x\<in>set xs. proper x" "\<forall>y\<in>set ys. proper y" for xs ys
  proof -
    have "sw_val_equal x y = (meaning x = meaning y)" if "x \<in> set xs" "y \<in> set ys" for x y
      using that \<open>size_list size xs + size_list size ys < Suc n\<close> \<open>\<forall>x\<in>set xs. proper x\<close> \<open>\<forall>y\<in>set ys. proper y\<close>
        size_item [of x xs] size_item [of y ys] by (intro Suc.IH) auto
    then show ?thesis using that(1) by (auto simp: items_equal_list_all2 list_all2_conv_all_nth list_eq_iff_nth_eq)
  qed
  have maps: "entries_equal es fs \<longleftrightarrow> meaning (V_map es) = meaning (V_map fs)"
    if "length es = length fs" "size (V_map es) + size (V_map fs) < Suc n" "proper (V_map es)" "proper (V_map fs)" for es fs
  proof (rule map_equal_meaning [OF that(3,4,1)])
    fix k v k' v' assume "(k, v) \<in> set es" "(k', v') \<in> set fs"
    then show "sw_val_equal k' k = (meaning k' = meaning k)"
      using that size_entry [of k v es] size_entry [of k' v' fs] by (intro Suc.IH) auto
  next
    fix k v assume kv: "(k, v) \<in> set es"
    have "proper (map_lookup fs k)" using map_lookup_cases [of fs k] that(4) by auto
    then show "sw_val_equal v (map_lookup fs k) = (meaning v = meaning (map_lookup fs k))"
      using that kv size_entry [OF kv] size_lookup [of fs k] by (intro Suc.IH) auto
  qed
  have map_case: "sw_val_equal a b \<longleftrightarrow> meaning a = meaning b" if "a = V_map es" "b = V_map fs" for es fs
    using that Suc.prems maps [of es fs] meaning_map_length [of es fs]
    by (simp add: sw_val_equal.simps del: meaning.simps proper.simps) blast
  have list_case: "length xs = length ys \<and> items_equal xs ys \<longleftrightarrow> map meaning xs = map meaning ys"
    if "size_list size xs + size_list size ys < Suc n" "\<forall>x\<in>set xs. proper x" "\<forall>y\<in>set ys. proper y" for xs ys
    using that items [of xs ys] by (auto dest: map_eq_imp_length_eq)
  show ?case
  proof (cases "\<exists>es fs. a = V_map es \<and> b = V_map fs")
    case True
    then show ?thesis using map_case by blast
  next
    case False
    then show ?thesis using Suc.prems
      by (cases a; cases b) (simp_all add: sw_val_equal.simps f_eq_meaning list_case)
  qed
qed simp

lemma equal_meaning: "proper a \<Longrightarrow> proper b \<Longrightarrow> sw_val_equal a b \<longleftrightarrow> meaning a = meaning b"
  by (rule equal_meaning_bounded [of a b "Suc (size a + size b)"]) simp_all

section \<open>Printing\<close>

text \<open>\<^verbatim>\<open>%lld\<close>: decimal digits, most significant first. The format of a double and the identifier of a process are arguments.\<close>

definition digit :: "nat \<Rightarrow> char" where
  "digit d = char_of (48 + d)"

fun show_nat :: "nat \<Rightarrow> string" where
  "show_nat n = (if n < 10 then [digit n] else show_nat (n div 10) @ [digit (n mod 10)])"

declare show_nat.simps [simp del]

definition show_int :: "int64 \<Rightarrow> string" where
  "show_int i = (if sint i < 0 then CHR ''-'' # show_nat (nat (- sint i)) else show_nat (nat (sint i)))"

text \<open>The loops that print \<^verbatim>\<open>", "\<close> before every item but the first.\<close>

fun comma_sep :: "string list \<Rightarrow> string" where
  "comma_sep [] = []"
| "comma_sep [x] = x"
| "comma_sep (x # xs) = x @ '', '' @ comma_sep xs"

fun sw_val_print :: "(double \<Rightarrow> string) \<Rightarrow> (proc_ref \<Rightarrow> nat) \<Rightarrow> sw_val \<Rightarrow> string" where
  "sw_val_print ff pn V_nil = ''nil''"
| "sw_val_print ff pn (V_int i) = show_int i"
| "sw_val_print ff pn (V_float x) = ff x"
| "sw_val_print ff pn (V_string s) = s"
| "sw_val_print ff pn (V_atom s) = CHR '':'' # s"
| "sw_val_print ff pn (V_pid p) = ''<pid:'' @ show_nat (case p of None \<Rightarrow> 0 | Some q \<Rightarrow> pn q) @ ''>''"
| "sw_val_print ff pn (V_tuple xs) = ''{'' @ comma_sep (map (sw_val_print ff pn) xs) @ ''}''"
| "sw_val_print ff pn (V_list xs) = ''['' @ comma_sep (map (sw_val_print ff pn) xs) @ '']''"
| "sw_val_print ff pn (V_fun _ _) = ''?''"
| "sw_val_print ff pn (V_map es) = ''%{'' @ comma_sep (map (\<lambda>(k, v). sw_val_print ff pn k @ '': '' @ sw_val_print ff pn v) es) @ ''}''"

section \<open>Properties\<close>

text \<open>
  C25. Equality of values is equality of what they mean: for values without functions, NaNs, duplicate keys and
  nil entries, \<^verbatim>\<open>sw_val_equal\<close> holds exactly if both mean the same, maps as finite sets of entries whatever
  their order, nil and the atom \<open>nil\<close> as one, the zeros as one. So it is an equivalence on them.
\<close>

theorem val_equal_decides:
  assumes "proper a" "proper b"
  shows "sw_val_equal a b \<longleftrightarrow> meaning a = meaning b"
  using assms by (rule equal_meaning)

definition demo_map1 :: sw_val where
  "demo_map1 = V_map [(V_atom ''x'', V_int 1), (V_atom ''y'', V_list [V_atom ''nil'', V_float 0])]"

definition demo_map2 :: sw_val where
  "demo_map2 = V_map [(V_atom ''y'', V_list [V_nil, V_float 0x8000000000000000]), (V_atom ''x'', V_int 1)]"

theorem val_equal_decides_witness: "meaning demo_map1 = meaning demo_map2"
proof -
  have "proper demo_map1" "proper demo_map2" "sw_val_equal demo_map1 demo_map2" by code_simp+
  then show ?thesis using val_equal_decides by blast
qed

text \<open>
  Maps of the language: after a put of a key, a get with an equal key returns the value and a get with any
  other key what it returned before; the keys already there keep their places.
\<close>

theorem map_put_get:
  assumes "\<forall>(k, v)\<in>set es. proper k" "proper key" "proper key'"
  shows "sw_val_map_get (sw_val_map_put (V_map es) key val) key' =
    (if meaning key = meaning key' then val else sw_val_map_get (V_map es) key')
    \<and> (\<exists>es'. sw_val_map_put (V_map es) key val = V_map es' \<and> take (length es) (map fst es') = map fst es)"
  using assms(1)
proof (induction es)
  case Nil
  then show ?case using assms(2,3) by (simp add: equal_meaning)
next
  case (Cons e es)
  obtain k v where "e = (k, v)" by (cases e)
  then show ?case using Cons assms(2,3) by (auto simp: equal_meaning)
qed

theorem map_put_get_witness:
  "sw_val_map_get (sw_val_map_put (V_map [(V_nil, V_int 1), (V_int 4, V_int 5)]) (V_atom ''nil'') (V_int 2)) V_nil = V_int 2"
  using map_put_get [of "[(V_nil, V_int 1), (V_int 4, V_int 5)]" "V_atom ''nil''" V_nil "V_int 2"] by simp

text \<open>Without these conditions it is no equivalence: a missing key counts as nil, and with duplicate keys the order of the arguments matters.\<close>

theorem val_equal_nil_entries:
  "sw_val_equal (V_map [(V_atom ''a'', V_nil)]) (V_map [(V_atom ''b'', V_nil)])"
  by code_simp

theorem val_equal_asymmetric:
  "sw_val_equal (V_map [(V_int 1, V_int 1), (V_int 1, V_int 1)]) (V_map [(V_int 1, V_int 1), (V_int 2, V_int 2)])
   \<and> \<not> sw_val_equal (V_map [(V_int 1, V_int 1), (V_int 2, V_int 2)]) (V_map [(V_int 1, V_int 1), (V_int 1, V_int 1)])"
  by code_simp

end
