(* ===== verification/Json.thy ===== *)
theory Json
  imports Lang_Value Bytes
begin

text \<open>
  The text form in which values travel between nodes: the encoder \<^verbatim>\<open>_json_encode_val\<close> and the decoder
  \<^verbatim>\<open>_json_parse\<close> of \<^verbatim>\<open>src/src/swarmrt_builtins_studio.h\<close>, and the decoder \<^verbatim>\<open>_jd_parse\<close> of
  \<^verbatim>\<open>src/src/swarmrt_lang.c\<close> that the distribution layer uses, which has fixed buffers. A C string is the list
  of its characters before the terminator.
\<close>

section \<open>Encoder\<close>

text \<open>\<^verbatim>\<open>_json_append\<close> drops a piece that does not fit the buffer; single characters are stored without a check.\<close>

definition json_append :: "nat \<Rightarrow> string \<Rightarrow> string \<Rightarrow> string" where
  "json_append cap s buf = (if length buf + length s < cap then buf @ s else buf)"

definition hex_digit :: "nat \<Rightarrow> char" where
  "hex_digit d = (if d < 10 then char_of (48 + d) else char_of (87 + d))"

definition json_escape :: "char \<Rightarrow> string" where
  "json_escape c =
     (if c = CHR 0x22 then [CHR 0x5C, CHR 0x22]
      else if c = CHR 0x5C then [CHR 0x5C, CHR 0x5C]
      else if c = CHR 0x0A then [CHR 0x5C, CHR ''n'']
      else if c = CHR 0x0D then [CHR 0x5C, CHR ''r'']
      else if c = CHR 0x09 then [CHR 0x5C, CHR ''t'']
      else if of_char c < (32 :: nat) then [CHR 0x5C, CHR ''u'', CHR ''0'', CHR ''0'', hex_digit (of_char c div 16), hex_digit (of_char c mod 16)]
      else [c])"

fun json_chars :: "nat \<Rightarrow> string \<Rightarrow> string \<Rightarrow> string" where
  "json_chars cap [] buf = buf"
| "json_chars cap (c # cs) buf =
     (if length buf < cap - 6 then
        json_chars cap cs (if length (json_escape c) = 1 then buf @ json_escape c else json_append cap (json_escape c) buf)
      else buf)"

text \<open>A map key that is neither a string nor an atom is printed as the integer in the value's union.\<close>

definition json_key :: "(sw_val \<Rightarrow> int64) \<Rightarrow> sw_val \<Rightarrow> string" where
  "json_key raw k = (case k of V_string s \<Rightarrow> s | V_atom s \<Rightarrow> s | V_int i \<Rightarrow> show_int i | _ \<Rightarrow> show_int (raw k))"

function json_encode_val :: "(double \<Rightarrow> string) \<Rightarrow> (sw_val \<Rightarrow> int64) \<Rightarrow> nat \<Rightarrow> sw_val \<Rightarrow> string \<Rightarrow> string"
  and json_items :: "(double \<Rightarrow> string) \<Rightarrow> (sw_val \<Rightarrow> int64) \<Rightarrow> nat \<Rightarrow> bool \<Rightarrow> sw_val list \<Rightarrow> string \<Rightarrow> string"
  and json_entries :: "(double \<Rightarrow> string) \<Rightarrow> (sw_val \<Rightarrow> int64) \<Rightarrow> nat \<Rightarrow> bool \<Rightarrow> (sw_val \<times> sw_val) list \<Rightarrow> string \<Rightarrow> string" where
  "json_encode_val ff raw cap v buf =
     (case v of
        V_nil \<Rightarrow> json_append cap ''null'' buf
      | V_int i \<Rightarrow> json_append cap (show_int i) buf
      | V_float x \<Rightarrow> json_append cap (ff x) buf
      | V_string s \<Rightarrow> json_append cap [CHR 0x22] (json_chars cap s (json_append cap [CHR 0x22] buf))
      | V_atom s \<Rightarrow>
          (if s = ''true'' then json_append cap ''true'' buf
           else if s = ''false'' then json_append cap ''false'' buf
           else if s = ''nil'' then json_append cap ''null'' buf
           else json_append cap [CHR 0x22] (json_append cap s (json_append cap [CHR 0x22] buf)))
      | V_list xs \<Rightarrow> json_append cap '']'' (json_items ff raw cap True xs (json_append cap ''['' buf))
      | V_tuple xs \<Rightarrow> json_append cap '']'' (json_items ff raw cap True xs (json_append cap ''['' buf))
      | V_map es \<Rightarrow> json_append cap ''}'' (json_entries ff raw cap True es (json_append cap ''{'' buf))
      | _ \<Rightarrow> json_append cap ''null'' buf)"
| "json_items ff raw cap first [] buf = buf"
| "json_items ff raw cap first (x # xs) buf =
     json_items ff raw cap False xs (json_encode_val ff raw cap x (if first then buf else json_append cap '','' buf))"
| "json_entries ff raw cap first [] buf = buf"
| "json_entries ff raw cap first ((k, v) # es) buf =
     (let buf = (if first then buf else json_append cap '','' buf);
          buf = json_append cap [CHR 0x22, CHR '':''] (json_append cap (json_key raw k) (json_append cap [CHR 0x22] buf))
      in json_entries ff raw cap False es (json_encode_val ff raw cap v buf))"
  by pat_completeness auto
termination
  by (relation "measure (\<lambda>x. case x of
        Inl (_, _, _, v, _) \<Rightarrow> size v
      | Inr (Inl (_, _, _, _, xs, _)) \<Rightarrow> size_list size xs
      | Inr (Inr (_, _, _, _, es, _)) \<Rightarrow> size_list (size_prod size size) es)") auto

declare json_encode_val.simps [simp del]

definition JSON_CAP :: nat where [const_simps]: "JSON_CAP = 262144"

definition builtin_json_encode :: "(double \<Rightarrow> string) \<Rightarrow> (sw_val \<Rightarrow> int64) \<Rightarrow> sw_val list \<Rightarrow> sw_val" where
  "builtin_json_encode ff raw args =
     (case args of [] \<Rightarrow> V_string ''null'' | v # _ \<Rightarrow> V_string (json_encode_val ff raw JSON_CAP v []))"

section \<open>Decoders\<close>

text \<open>
  The two decoders differ in their limits: \<^verbatim>\<open>_jd_parse\<close> keeps at most 256 items, 128 entries and 8190 characters
  of a string, the other one grows its buffers. They also differ in one call of the white space loop.
\<close>

record json_limits =
  lim_string :: "nat option"
  lim_items :: "nat option"
  lim_entries :: "nat option"
  ws_after_comma :: bool

definition json_lim :: json_limits where
  "json_lim = \<lparr>lim_string = None, lim_items = None, lim_entries = None, ws_after_comma = True\<rparr>"

definition jd_lim :: json_limits where
  "jd_lim = \<lparr>lim_string = Some 8190, lim_items = Some 256, lim_entries = Some 128, ws_after_comma = False\<rparr>"

definition below :: "nat \<Rightarrow> nat option \<Rightarrow> bool" where
  "below n lim = (case lim of None \<Rightarrow> True | Some l \<Rightarrow> n < l)"

text \<open>The character under the pointer; at the end it is the terminator.\<close>

definition cur :: "string \<Rightarrow> char" where
  "cur s = (case s of [] \<Rightarrow> CHR 0x00 | c # _ \<Rightarrow> c)"

definition is_ws :: "char \<Rightarrow> bool" where
  "is_ws c \<longleftrightarrow> c = CHR '' '' \<or> c = CHR 0x09 \<or> c = CHR 0x0A \<or> c = CHR 0x0D"

definition skip_ws :: "string \<Rightarrow> string" where
  "skip_ws s = dropWhile is_ws s"

definition skip_char :: "char \<Rightarrow> string \<Rightarrow> string" where
  "skip_char c s = (if cur s = c then tl s else s)"

definition unescape :: "char \<Rightarrow> char" where
  "unescape c = (if c = CHR ''n'' then CHR 0x0A else if c = CHR ''t'' then CHR 0x09 else if c = CHR ''r'' then CHR 0x0D else c)"

text \<open>
  The string loop, after the opening quote. A backslash before the terminator makes it step over the terminator and
  read on: \<^term>\<open>None\<close>.
\<close>

fun json_parse_string :: "nat option \<Rightarrow> string \<Rightarrow> string \<Rightarrow> (string \<times> string) option" where
  "json_parse_string lim [] buf = Some (buf, [])"
| "json_parse_string lim (c # s) buf =
     (if c = CHR 0x22 \<or> \<not> below (length buf) lim then Some (buf, skip_char (CHR 0x22) (c # s))
      else if c = CHR 0x5C then (case s of [] \<Rightarrow> None | d # s' \<Rightarrow> json_parse_string lim s' (buf @ [unescape d]))
      else json_parse_string lim s (buf @ [c]))"

text \<open>\<^verbatim>\<open>strtoll\<close> of an optional minus sign and digits, saturating at the limits of the type.\<close>

definition strtoll :: "string \<Rightarrow> int64" where
  "strtoll s =
     (if cur s = CHR ''-'' then (if 2 ^ 63 < digits_val 0 (tl s) then of_int (- (2 ^ 63)) else of_int (- int (digits_val 0 (tl s))))
      else (if 2 ^ 63 - 1 < digits_val 0 s then of_int (2 ^ 63 - 1) else of_int (int (digits_val 0 s))))"

text \<open>The number at the pointer: its text, whether it has a fraction or an exponent, and the rest.\<close>

definition skip_fraction :: "string \<Rightarrow> string" where
  "skip_fraction s = (if cur s = CHR ''.'' then dropWhile is_digit (tl s) else s)"

definition skip_sign :: "string \<Rightarrow> string" where
  "skip_sign s = (if cur s = CHR ''+'' \<or> cur s = CHR ''-'' then tl s else s)"

definition skip_exponent :: "string \<Rightarrow> string" where
  "skip_exponent s = (if cur s = CHR ''e'' \<or> cur s = CHR ''E'' then dropWhile is_digit (skip_sign (tl s)) else s)"

definition scan_number :: "string \<Rightarrow> string \<times> bool \<times> string" where
  "scan_number s0 =
     (let s2 = dropWhile is_digit (skip_char (CHR ''-'') s0);
          s3 = skip_fraction s2;
          s4 = skip_exponent s3
      in (take (length s0 - length s4) s0, cur s2 = CHR ''.'' \<or> cur s3 = CHR ''e'' \<or> cur s3 = CHR ''E'', s4))"

text \<open>
  Where a call leaves the pointer: at the rest of the text, just past the terminator (the caller may not read there),
  or it has read beyond the terminator.
\<close>

datatype json_result =
    J_val sw_val string
  | J_end sw_val
  | J_overrun

definition json_number :: "(string \<Rightarrow> double) \<Rightarrow> string \<Rightarrow> json_result" where
  "json_number sd s =
     (case scan_number s of
        (tok, is_float, rest) \<Rightarrow>
          if tok = [] then (case s of [] \<Rightarrow> J_end V_nil | _ # s' \<Rightarrow> J_val V_nil s')
          else J_val (if is_float then V_float (sd (take 63 tok)) else V_int (strtoll (take 63 tok))) rest)"

text \<open>The recursive descent; \<open>n\<close> bounds the nesting of calls and loop turns.\<close>

fun json_parse :: "(string \<Rightarrow> double) \<Rightarrow> json_limits \<Rightarrow> nat \<Rightarrow> string \<Rightarrow> json_result option"
  and json_parse_array :: "(string \<Rightarrow> double) \<Rightarrow> json_limits \<Rightarrow> nat \<Rightarrow> string \<Rightarrow> sw_val list \<Rightarrow> json_result option"
  and json_parse_object :: "(string \<Rightarrow> double) \<Rightarrow> json_limits \<Rightarrow> nat \<Rightarrow> string \<Rightarrow> (sw_val \<times> sw_val) list \<Rightarrow> json_result option" where
  "json_parse sd lim 0 s = None"
| "json_parse sd lim (Suc n) s0 =
     (let s = skip_ws s0
      in if cur s = CHR 0x22 then
           (case json_parse_string (lim_string lim) (tl s) [] of None \<Rightarrow> Some J_overrun | Some (t, r) \<Rightarrow> Some (J_val (V_string t) r))
         else if cur s = CHR ''['' then json_parse_array sd lim n (skip_ws (tl s)) []
         else if cur s = CHR ''{'' then json_parse_object sd lim n (skip_ws (tl s)) []
         else if take 4 s = ''true'' then Some (J_val (V_atom ''true'') (drop 4 s))
         else if take 5 s = ''false'' then Some (J_val (V_atom ''false'') (drop 5 s))
         else if take 4 s = ''null'' then Some (J_val V_nil (drop 4 s))
         else Some (json_number sd s))"
| "json_parse_array sd lim 0 s items = None"
| "json_parse_array sd lim (Suc n) s items =
     (if s = [] \<or> cur s = CHR '']'' \<or> \<not> below (length items) (lim_items lim)
      then Some (J_val (V_list items) (skip_char (CHR '']'') s))
      else case json_parse sd lim n s of
             None \<Rightarrow> None
           | Some (J_val v r) \<Rightarrow> json_parse_array sd lim n (skip_ws (skip_char (CHR '','') (skip_ws r))) (items @ [v])
           | Some _ \<Rightarrow> Some J_overrun)"
| "json_parse_object sd lim 0 s entries = None"
| "json_parse_object sd lim (Suc n) s entries =
     (if s = [] \<or> cur s = CHR ''}'' \<or> \<not> below (length entries) (lim_entries lim)
      then Some (J_val (V_map entries) (skip_char (CHR ''}'') s))
      else let s1 = skip_ws s
           in if cur s1 \<noteq> CHR 0x22 then Some (J_val (V_map entries) (skip_char (CHR ''}'') s1))
              else case json_parse_string (lim_string lim) (tl s1) [] of
                     None \<Rightarrow> Some J_overrun
                   | Some (k, r) \<Rightarrow>
                       (case json_parse sd lim n (skip_char (CHR '':'') (skip_ws r)) of
                          None \<Rightarrow> None
                        | Some (J_val v r) \<Rightarrow>
                            let r = skip_char (CHR '','') (skip_ws r)
                            in json_parse_object sd lim n (if ws_after_comma lim then skip_ws r else r) (entries @ [(V_atom k, v)])
                        | Some _ \<Rightarrow> Some J_overrun))"

text \<open>\<^verbatim>\<open>json_decode\<close> of the language and \<^verbatim>\<open>sw_lang_json_decode\<close> of the distribution layer; the bound is shown to suffice.\<close>

definition json_fuel :: "string \<Rightarrow> nat" where
  "json_fuel s = 2 * length s + 2"

definition builtin_json_decode :: "(string \<Rightarrow> double) \<Rightarrow> string \<Rightarrow> json_result option" where
  "builtin_json_decode sd s = json_parse sd json_lim (json_fuel s) s"

definition sw_lang_json_decode :: "(string \<Rightarrow> double) \<Rightarrow> string \<Rightarrow> json_result option" where
  "sw_lang_json_decode sd s = json_parse sd jd_lim (json_fuel s) s"

section \<open>Decoding always ends\<close>

fun rest_less :: "nat \<Rightarrow> json_result \<Rightarrow> bool" where
  "rest_less n (J_val v r) = (length r < n)"
| "rest_less n _ = True"

lemma skip_ws_length: "length (skip_ws s) \<le> length s"
  by (simp add: skip_ws_def length_dropWhile_le)

lemma skip_char_length: "length (skip_char c s) \<le> length s"
  by (simp add: skip_char_def)

lemma parse_string_length: "json_parse_string lim s buf = Some (t, r) \<Longrightarrow> length r \<le> length s"
proof (induction lim s buf rule: json_parse_string.induct)
  case (2 lim c s buf)
  show ?case
  proof (cases "c = CHR 0x22 \<or> \<not> below (length buf) lim")
    case True
    then show ?thesis using 2 skip_char_length [of "CHR 0x22" "c # s"] by auto
  next
    case False
    then show ?thesis using 2 by (cases "c = CHR 0x5C"; cases s) auto
  qed
qed simp

lemma skip_number_length:
  "length (dropWhile is_digit (skip_char c s)) \<le> length s"
  "length (skip_fraction s) \<le> length s"
  "length (skip_exponent s) \<le> length s"
proof -
  have d: "length (dropWhile is_digit u) \<le> length u" for u by (rule length_dropWhile_le)
  show "length (dropWhile is_digit (skip_char c s)) \<le> length s"
    using d [of "skip_char c s"] skip_char_length [of c s] by simp
  show "length (skip_fraction s) \<le> length s"
    using d [of "tl s"] by (auto simp: skip_fraction_def)
  show "length (skip_exponent s) \<le> length s"
    using d [of "tl s"] d [of "tl (tl s)"] by (auto simp: skip_exponent_def skip_sign_def)
qed

lemma scan_number_length:
  assumes "scan_number s = (tok, f, r)"
  shows "length r \<le> length s" "length tok = length s - length r"
proof -
  have r: "r = skip_exponent (skip_fraction (dropWhile is_digit (skip_char (CHR ''-'') s)))"
    and tok: "tok = take (length s - length r) s"
    using assms by (auto simp: scan_number_def Let_def)
  show "length r \<le> length s" unfolding r
    by (rule order_trans [OF skip_number_length(3) order_trans [OF skip_number_length(2) skip_number_length(1)]])
  then show "length tok = length s - length r" using tok by simp
qed

lemma number_rest: "rest_less (length s) (json_number sd s)"
proof -
  obtain tok f r where sc: "scan_number s = (tok, f, r)" by (cases "scan_number s")
  have "length r < length s" if "tok \<noteq> []" using that scan_number_length [OF sc] by (cases tok) auto
  then show ?thesis using sc by (auto simp: json_number_def split: list.split)
qed

lemma skip_length: "length (skip_ws (skip_char c (skip_ws r))) \<le> length r"
  using skip_ws_length skip_char_length by (meson order_trans)

lemma rest_less_mono: "rest_less m r \<Longrightarrow> m \<le> n \<Longrightarrow> rest_less n r"
  by (cases r) auto

text \<open>The three claims of the induction on the bound, for a text of a given length.\<close>

definition total_at :: "(string \<Rightarrow> double) \<Rightarrow> json_limits \<Rightarrow> nat \<Rightarrow> bool" where
  "total_at sd lim n \<longleftrightarrow> (\<forall>s. 2 * length s + 2 \<le> n \<longrightarrow> (\<exists>r. json_parse sd lim n s = Some r \<and> rest_less (length s) r))"

definition total_array_at :: "(string \<Rightarrow> double) \<Rightarrow> json_limits \<Rightarrow> nat \<Rightarrow> bool" where
  "total_array_at sd lim n \<longleftrightarrow>
     (\<forall>s items. 2 * length s + 3 \<le> n \<longrightarrow> (\<exists>r. json_parse_array sd lim n s items = Some r \<and> rest_less (Suc (length s)) r))"

definition total_object_at :: "(string \<Rightarrow> double) \<Rightarrow> json_limits \<Rightarrow> nat \<Rightarrow> bool" where
  "total_object_at sd lim n \<longleftrightarrow>
     (\<forall>s entries. 2 * length s + 3 \<le> n \<longrightarrow> (\<exists>r. json_parse_object sd lim n s entries = Some r \<and> rest_less (Suc (length s)) r))"

lemma total_parse_step:
  assumes "total_array_at sd lim n" "total_object_at sd lim n"
  shows "total_at sd lim (Suc n)"
  unfolding total_at_def
proof (intro allI impI)
  fix s0 :: string assume n: "2 * length s0 + 2 \<le> Suc n"
  define s where "s = skip_ws s0"
  have ls: "length s \<le> length s0" by (simp add: s_def skip_ws_length)
  have inner: "\<exists>r. f = Some r \<and> rest_less (length s0) r"
    if "s \<noteq> []" "\<And>m. 2 * length (skip_ws (tl s)) + 3 \<le> n \<Longrightarrow> \<exists>r. f = Some r \<and> rest_less (Suc (length (skip_ws (tl s)))) r" for f
  proof -
    have l: "Suc (length (skip_ws (tl s))) \<le> length s" using skip_ws_length [of "tl s"] that(1) by (cases s) auto
    then have "2 * length (skip_ws (tl s)) + 3 \<le> n" using ls n by simp
    then show ?thesis using that(2) rest_less_mono l ls by (meson order_trans)
  qed
  have ne: "cur s = c \<Longrightarrow> c \<noteq> CHR 0x00 \<Longrightarrow> s \<noteq> []" for c by (auto simp: cur_def)
  consider (str) "cur s = CHR 0x22" | (arr) "cur s = CHR ''[''" | (obj) "cur s = CHR ''{''"
    | (lit) "cur s \<noteq> CHR 0x22" "cur s \<noteq> CHR ''[''" "cur s \<noteq> CHR ''{''" by blast
  then show "\<exists>r. json_parse sd lim (Suc n) s0 = Some r \<and> rest_less (length s0) r"
  proof cases
    case str
    then have "length (tl s) < length s0" using ne [OF str] ls by (cases s) auto
    then show ?thesis using str parse_string_length [of "lim_string lim" "tl s" "[]"]
      by (auto simp: s_def [symmetric] split: option.split)
  next
    case arr
    then show ?thesis using inner [of "json_parse_array sd lim n (skip_ws (tl s)) []"] ne [OF arr] assms(1)
      by (simp add: s_def [symmetric] total_array_at_def)
  next
    case obj
    then show ?thesis using inner [of "json_parse_object sd lim n (skip_ws (tl s)) []"] ne [OF obj] assms(2)
      by (simp add: s_def [symmetric] total_object_at_def)
  next
    case lit
    have pos: "length s - Suc m < length s0" if "take k s = c # cs" for k c cs m using that ls by (cases s) auto
    have "rest_less (length s0) (json_number sd s)" using number_rest ls by (rule rest_less_mono)
    then show ?thesis using lit pos [of 4 _ _ 3] pos [of 5 _ _ 4] by (auto simp: s_def [symmetric])
  qed
qed

lemma total_array_step:
  assumes "total_at sd lim n" "total_array_at sd lim n"
  shows "total_array_at sd lim (Suc n)"
  unfolding total_array_at_def
proof (intro allI impI)
  fix s :: string and items assume n: "2 * length s + 3 \<le> Suc n"
  show "\<exists>r. json_parse_array sd lim (Suc n) s items = Some r \<and> rest_less (Suc (length s)) r"
  proof (cases "s = [] \<or> cur s = CHR '']'' \<or> \<not> below (length items) (lim_items lim)")
    case True
    then show ?thesis using skip_char_length [of "CHR '']''" s] by auto
  next
    case False
    obtain r where r: "json_parse sd lim n s = Some r" "rest_less (length s) r"
      using assms(1) n by (auto simp: total_at_def)
    show ?thesis
    proof (cases r)
      case (J_val v r')
      let ?r = "skip_ws (skip_char (CHR '','') (skip_ws r'))"
      have l: "length ?r < length s" using skip_length [of "CHR '',''" r'] r(2) J_val by simp
      then have "2 * length ?r + 3 \<le> n" using n by simp
      then obtain q where "json_parse_array sd lim n ?r (items @ [v]) = Some q" "rest_less (Suc (length ?r)) q"
        using assms(2) unfolding total_array_at_def by blast
      then show ?thesis using False r(1) J_val l rest_less_mono [of "Suc (length ?r)" q "Suc (length s)"] by simp
    qed (use False r in simp_all)
  qed
qed

lemma total_object_step:
  assumes "total_at sd lim n" "total_object_at sd lim n"
  shows "total_object_at sd lim (Suc n)"
  unfolding total_object_at_def
proof (intro allI impI)
  fix s :: string and entries assume n: "2 * length s + 3 \<le> Suc n"
  define s1 where "s1 = skip_ws s"
  have ls: "length s1 \<le> length s" by (simp add: s1_def skip_ws_length)
  show "\<exists>r. json_parse_object sd lim (Suc n) s entries = Some r \<and> rest_less (Suc (length s)) r"
  proof (cases "s = [] \<or> cur s = CHR ''}'' \<or> \<not> below (length entries) (lim_entries lim)")
    case True
    then show ?thesis using skip_char_length [of "CHR ''}''" s] by auto
  next
    case False
    show ?thesis
    proof (cases "cur s1 = CHR 0x22")
      case q: True
      show ?thesis
      proof (cases "json_parse_string (lim_string lim) (tl s1) []")
        case None
        then show ?thesis using False q by (simp add: s1_def [symmetric])
      next
        case (Some kr)
        obtain k t where kr: "kr = (k, t)" by (cases kr)
        let ?t = "skip_char (CHR '':'') (skip_ws t)"
        have "s1 \<noteq> []" using q by (auto simp: cur_def)
        then have lt: "length ?t < length s"
          using parse_string_length [of "lim_string lim" "tl s1" "[]" k t] Some kr ls skip_char_length [of "CHR '':''" "skip_ws t"]
            skip_ws_length [of t] by (cases s1) auto
        then have "2 * length ?t + 2 \<le> n" using n by simp
        then obtain r where r: "json_parse sd lim n ?t = Some r" "rest_less (length ?t) r"
          using assms(1) unfolding total_at_def by blast
        show ?thesis
        proof (cases r)
          case (J_val v r')
          let ?u = "skip_char (CHR '','') (skip_ws r')"
          let ?r = "if ws_after_comma lim then skip_ws ?u else ?u"
          have "length ?u \<le> length r'" using skip_char_length [of "CHR '',''" "skip_ws r'"] skip_ws_length [of r'] by linarith
          then have l: "length ?r < length s" using skip_ws_length [of ?u] r(2) J_val lt by auto
          then have "2 * length ?r + 3 \<le> n" using n by linarith
          then obtain z where "json_parse_object sd lim n ?r (entries @ [(V_atom k, v)]) = Some z" "rest_less (Suc (length ?r)) z"
            using assms(2) unfolding total_object_at_def by blast
          then show ?thesis
            using False q Some kr r(1) J_val l rest_less_mono [of "Suc (length ?r)" z "Suc (length s)"]
            by (simp add: s1_def [symmetric] Let_def)
        qed (use False q Some kr r in \<open>simp_all add: s1_def [symmetric]\<close>)
      qed
    next
      case nq: False
      then show ?thesis using False skip_char_length [of "CHR ''}''" s1] ls by (simp add: s1_def [symmetric])
    qed
  qed
qed

lemma json_total: "total_at sd lim n \<and> total_array_at sd lim n \<and> total_object_at sd lim n"
proof (induction n)
  case 0
  then show ?case by (simp add: total_at_def total_array_at_def total_object_at_def)
next
  case (Suc n)
  then show ?case using total_parse_step total_array_step total_object_step by blast
qed

section \<open>What the encoder writes\<close>

fun join_comma :: "string list \<Rightarrow> string" where
  "join_comma [] = []"
| "join_comma [x] = x"
| "join_comma (x # xs) = x @ CHR '','' # join_comma xs"

definition quoted :: "string \<Rightarrow> string" where
  "quoted s = CHR 0x22 # s @ [CHR 0x22]"

text \<open>The text of a value when nothing is dropped.\<close>

fun json_text :: "(double \<Rightarrow> string) \<Rightarrow> (sw_val \<Rightarrow> int64) \<Rightarrow> sw_val \<Rightarrow> string" where
  "json_text ff raw V_nil = ''null''"
| "json_text ff raw (V_int i) = show_int i"
| "json_text ff raw (V_float x) = ff x"
| "json_text ff raw (V_string s) = quoted (concat (map json_escape s))"
| "json_text ff raw (V_atom s) = (if s = ''true'' \<or> s = ''false'' then s else if s = ''nil'' then ''null'' else quoted s)"
| "json_text ff raw (V_pid p) = ''null''"
| "json_text ff raw (V_fun f e) = ''null''"
| "json_text ff raw (V_tuple xs) = ''['' @ join_comma (map (json_text ff raw) xs) @ '']''"
| "json_text ff raw (V_list xs) = ''['' @ join_comma (map (json_text ff raw) xs) @ '']''"
| "json_text ff raw (V_map es) = ''{'' @ join_comma (map (\<lambda>(k, v). quoted (json_key raw k) @ CHR '':'' # json_text ff raw v) es) @ ''}''"

definition sep :: "bool \<Rightarrow> 'a list \<Rightarrow> string" where
  "sep first xs = (if first \<or> xs = [] then [] else '','')"

lemma join_comma_Cons: "join_comma (x # xs) = x @ sep False xs @ join_comma xs"
  by (cases xs) (simp_all add: sep_def)

lemma json_append_fits: "length buf + length s < cap \<Longrightarrow> json_append cap s buf = buf @ s"
  by (simp add: json_append_def)

lemma json_escape_ne: "json_escape c \<noteq> []"
  by (simp add: json_escape_def)

lemma json_chars_fits:
  "length buf + length (concat (map json_escape s)) + 6 < cap \<Longrightarrow> json_chars cap s buf = buf @ concat (map json_escape s)"
proof (induction s arbitrary: buf)
  case (Cons c s)
  then show ?case using json_escape_ne [of c] by (auto simp: json_append_fits)
qed simp

lemma json_encode_fits:
  "length buf + length (json_text ff raw v) + 6 < cap \<Longrightarrow> json_encode_val ff raw cap v buf = buf @ json_text ff raw v"
  "length buf + length (sep first xs @ join_comma (map (json_text ff raw) xs)) + 6 < cap \<Longrightarrow>
     json_items ff raw cap first xs buf = buf @ sep first xs @ join_comma (map (json_text ff raw) xs)"
  "length buf + length (sep first es @ join_comma (map (\<lambda>(k, v). quoted (json_key raw k) @ CHR '':'' # json_text ff raw v) es)) + 6 < cap \<Longrightarrow>
     json_entries ff raw cap first es buf = buf @ sep first es @ join_comma (map (\<lambda>(k, v). quoted (json_key raw k) @ CHR '':'' # json_text ff raw v) es)"
proof (induction ff raw cap v buf and ff raw cap first xs buf and ff raw cap first es buf
    rule: json_encode_val_json_items_json_entries.induct)
  case (1 ff raw cap v buf)
  then show ?case
    by (cases v) (auto simp: json_encode_val.simps json_append_fits json_chars_fits quoted_def sep_def)
next
  case (3 ff raw cap first x xs buf)
  then show ?case
    by (auto simp: json_append_fits join_comma_Cons sep_def split: if_splits)
next
  case (5 ff raw cap first k v es buf)
  then show ?case
    by (auto simp: json_append_fits join_comma_Cons sep_def quoted_def Let_def split: if_splits)
qed (simp_all add: sep_def)

section \<open>Round trip\<close>

subsection \<open>Numbers\<close>

lemma is_digit_digit [simp]: "d < 10 \<Longrightarrow> is_digit (digit d)"
  by (simp add: is_digit_def digit_def)

lemma of_char_digit [simp]: "d < 10 \<Longrightarrow> (of_char (digit d) :: nat) = 48 + d"
  by (simp add: digit_def)

lemma show_nat_digits: "\<forall>c\<in>set (show_nat n). is_digit c"
  by (induction n rule: show_nat.induct) (subst show_nat.simps, auto)

lemma show_nat_ne: "show_nat n \<noteq> []"
  by (subst show_nat.simps) simp

lemma digits_val_append: "\<forall>c\<in>set xs. is_digit c \<Longrightarrow> digits_val n (xs @ ys) = digits_val (digits_val n xs) ys"
  by (induction xs arbitrary: n) auto

lemma digits_val_show: "digits_val 0 (show_nat n) = n"
proof (induction n rule: show_nat.induct)
  case (1 n)
  then show ?case
    by (subst show_nat.simps) (simp add: digits_val_append [OF show_nat_digits])
qed

lemma length_show_nat: "n < 10 ^ Suc k \<Longrightarrow> length (show_nat n) \<le> Suc k"
proof (induction k arbitrary: n)
  case 0
  then show ?case by (subst show_nat.simps) simp
next
  case (Suc k)
  then have "n div 10 < 10 ^ Suc k" by (simp add: div_less_iff_less_mult)
  then show ?case using Suc.IH [of "n div 10"] by (subst show_nat.simps) simp
qed

lemma show_int_cases:
  obtains "sint i < 0" "show_int i = CHR ''-'' # show_nat (nat (- sint i))" "nat (- sint i) \<le> 2 ^ 63"
  | "0 \<le> sint i" "show_int i = show_nat (nat (sint i))" "nat (sint i) < 2 ^ 63"
proof (cases "sint i < 0")
  case True
  have "- (2 ^ 63) \<le> sint i" using sint_ge [of i] by simp
  then show ?thesis using True that(1) by (simp add: show_int_def nat_le_iff)
next
  case False
  have "sint i < 2 ^ 63" using sint_lt [of i] by simp
  then show ?thesis using False that(2) by (simp add: show_int_def nat_less_iff)
qed

lemma length_show_int: "length (show_int i) \<le> 20"
proof (rule show_int_cases [of i])
  assume "show_int i = CHR ''-'' # show_nat (nat (- sint i))" "nat (- sint i) \<le> 2 ^ 63"
  moreover have "nat (- sint i) < 10 ^ Suc 18" using calculation(2) by simp
  ultimately show ?thesis using length_show_nat [of "nat (- sint i)" 18] by simp
next
  assume "show_int i = show_nat (nat (sint i))" "nat (sint i) < 2 ^ 63"
  moreover have "nat (sint i) < 10 ^ Suc 18" using calculation(2) by simp
  ultimately show ?thesis using length_show_nat [of "nat (sint i)" 18] by simp
qed

lemma cur_show_nat: "is_digit (cur (show_nat n @ r))"
  using show_nat_digits [of n] show_nat_ne [of n] by (cases "show_nat n") (auto simp: cur_def)

lemma strtoll_show_int: "strtoll (show_int i) = i"
proof (rule show_int_cases [of i])
  assume "sint i < 0" "show_int i = CHR ''-'' # show_nat (nat (- sint i))" "nat (- sint i) \<le> 2 ^ 63"
  then show ?thesis by (simp add: strtoll_def cur_def digits_val_show)
next
  assume i: "0 \<le> sint i" "show_int i = show_nat (nat (sint i))" "nat (sint i) < 2 ^ 63"
  have "cur (show_nat (nat (sint i))) \<noteq> CHR ''-''" using cur_show_nat [of "nat (sint i)" "[]"] by (auto simp: is_digit_def)
  then show ?thesis using i by (simp add: strtoll_def digits_val_show)
qed

definition delim :: "string \<Rightarrow> bool" where
  "delim rest \<longleftrightarrow> rest = [] \<or> cur rest = CHR '','' \<or> cur rest = CHR '']'' \<or> cur rest = CHR ''}''"

lemma delim_cur: "delim rest \<Longrightarrow> \<not> is_digit (cur rest) \<and> cur rest \<noteq> CHR ''.'' \<and> cur rest \<noteq> CHR ''e'' \<and> cur rest \<noteq> CHR ''E'' \<and> \<not> is_ws (cur rest)"
  by (auto simp: delim_def cur_def is_digit_def is_ws_def split: list.splits)

lemma drop_digits: "\<forall>c\<in>set ds. is_digit c \<Longrightarrow> \<not> is_digit (cur r) \<Longrightarrow> dropWhile is_digit (ds @ r) = r"
  by (cases r) (simp_all add: dropWhile_append3 cur_def)

lemma scan_show_int:
  assumes "delim rest"
  shows "scan_number (show_int i @ rest) = (show_int i, False, rest)"
proof -
  have "dropWhile is_digit (skip_char (CHR ''-'') (show_int i @ rest)) = rest"
  proof (rule show_int_cases [of i])
    assume "show_int i = CHR ''-'' # show_nat (nat (- sint i))"
    then show ?thesis using drop_digits [OF show_nat_digits] delim_cur [OF assms] by (simp add: skip_char_def cur_def)
  next
    assume i: "show_int i = show_nat (nat (sint i))"
    have "cur (show_nat (nat (sint i)) @ rest) \<noteq> CHR ''-''" using cur_show_nat [of "nat (sint i)" rest] by (auto simp: is_digit_def)
    then show ?thesis using i drop_digits [OF show_nat_digits] delim_cur [OF assms] by (simp add: skip_char_def)
  qed
  then show ?thesis using delim_cur [OF assms] by (simp add: scan_number_def Let_def skip_fraction_def skip_exponent_def)
qed

lemma number_show_int: "delim rest \<Longrightarrow> json_number sd (show_int i @ rest) = J_val (V_int i) rest"
proof -
  have ne: "show_int i \<noteq> []" by (rule show_int_cases [of i]) (simp_all add: show_nat_ne)
  assume "delim rest"
  then show ?thesis using length_show_int [of i] ne by (simp add: json_number_def scan_show_int strtoll_show_int)
qed

subsection \<open>Strings\<close>

definition fits :: "nat \<Rightarrow> nat option \<Rightarrow> bool" where
  "fits n lim = (case lim of None \<Rightarrow> True | Some l \<Rightarrow> n \<le> l)"

lemma fits_below: "fits (Suc n) lim \<Longrightarrow> below n lim"
  by (auto simp: fits_def below_def split: option.splits)

lemma fits_mono: "fits n lim \<Longrightarrow> m \<le> n \<Longrightarrow> fits m lim"
  by (auto simp: fits_def split: option.splits)

definition printable :: "char \<Rightarrow> bool" where
  "printable c \<longleftrightarrow> 32 \<le> (of_char c :: nat) \<or> c = CHR 0x0A \<or> c = CHR 0x0D \<or> c = CHR 0x09"

lemma escape_cases:
  assumes "printable c"
  obtains "json_escape c = [c]" "c \<noteq> CHR 0x22" "c \<noteq> CHR 0x5C" | d where "json_escape c = [CHR 0x5C, d]" "unescape d = c"
proof -
  consider "c = CHR 0x22" | "c = CHR 0x5C" | "c = CHR 0x0A" | "c = CHR 0x0D" | "c = CHR 0x09"
    | "c \<noteq> CHR 0x22" "c \<noteq> CHR 0x5C" "c \<noteq> CHR 0x0A" "c \<noteq> CHR 0x0D" "c \<noteq> CHR 0x09" by blast
  then show ?thesis
  proof cases
    case 1
    then show ?thesis using that(2) [of "CHR 0x22"] by (simp add: json_escape_def unescape_def)
  next
    case 2
    then show ?thesis using that(2) [of "CHR 0x5C"] by (simp add: json_escape_def unescape_def)
  next
    case 3
    then show ?thesis using that(2) [of "CHR ''n''"] by (simp add: json_escape_def unescape_def)
  next
    case 4
    then show ?thesis using that(2) [of "CHR ''r''"] by (simp add: json_escape_def unescape_def)
  next
    case 5
    then show ?thesis using that(2) [of "CHR ''t''"] by (simp add: json_escape_def unescape_def)
  next
    case 6
    then have "32 \<le> (of_char c :: nat)" using assms by (simp add: printable_def)
    then show ?thesis using 6 that(1) by (simp add: json_escape_def)
  qed
qed

lemma parse_escaped:
  "\<forall>c\<in>set s. printable c \<Longrightarrow> fits (length buf + length s) lim \<Longrightarrow>
   json_parse_string lim (concat (map json_escape s) @ CHR 0x22 # rest) buf = Some (buf @ s, rest)"
proof (induction s arbitrary: buf)
  case Nil
  then show ?case by (simp add: skip_char_def cur_def)
next
  case (Cons c s)
  have below: "below (length buf) lim" using Cons.prems(2) by (intro fits_below) (auto elim: fits_mono)
  have "json_parse_string lim (concat (map json_escape s) @ CHR 0x22 # rest) (buf @ [c]) = Some ((buf @ [c]) @ s, rest)"
    using Cons by simp
  note IH = this
  have "printable c" using Cons.prems(1) by simp
  then show ?case
  proof (cases rule: escape_cases)
    case 1
    then show ?thesis using IH below by simp
  next
    case (2 d)
    then show ?thesis using IH below by simp
  qed
qed

definition plain :: "string \<Rightarrow> bool" where
  "plain s \<longleftrightarrow> CHR 0x22 \<notin> set s \<and> CHR 0x5C \<notin> set s"

lemma parse_plain:
  "plain s \<Longrightarrow> fits (length buf + length s) lim \<Longrightarrow> json_parse_string lim (s @ CHR 0x22 # rest) buf = Some (buf @ s, rest)"
proof (induction s arbitrary: buf)
  case Nil
  then show ?case by (simp add: skip_char_def cur_def)
next
  case (Cons c s)
  have "below (length buf) lim" using Cons.prems(2) by (intro fits_below) (auto elim: fits_mono)
  moreover have "plain s" using Cons.prems(1) by (simp add: plain_def)
  ultimately show ?case using Cons by (auto simp: plain_def)
qed

subsection \<open>Values\<close>

text \<open>What arrives: tuples become lists, atoms other than the truth values and nil become strings, keys become atoms.\<close>

fun wire :: "sw_val \<Rightarrow> sw_val" where
  "wire (V_int i) = V_int i"
| "wire (V_string s) = V_string s"
| "wire (V_atom s) = (if s = ''true'' \<or> s = ''false'' then V_atom s else if s = ''nil'' then V_nil else V_string s)"
| "wire (V_tuple xs) = V_list (map wire xs)"
| "wire (V_list xs) = V_list (map wire xs)"
| "wire (V_map es) = V_map (map (\<lambda>(k, v). (V_atom (json_key (\<lambda>_. 0) k), wire v)) es)"
| "wire _ = V_nil"

text \<open>The values that have a JSON form of their own, and arrive as they are.\<close>

fun json_value :: "sw_val \<Rightarrow> bool" where
  "json_value V_nil = True"
| "json_value (V_int i) = True"
| "json_value (V_string s) = True"
| "json_value (V_atom s) = (s = ''true'' \<or> s = ''false'')"
| "json_value (V_list xs) = (\<forall>x\<in>set xs. json_value x)"
| "json_value (V_map es) = (\<forall>(k, v)\<in>set es. (case k of V_atom _ \<Rightarrow> True | _ \<Rightarrow> False) \<and> json_value v)"
| "json_value _ = False"

lemma wire_json_value: "json_value v \<Longrightarrow> wire v = v"
proof (induction v)
  case (V_list xs)
  then show ?case by (simp add: map_idI)
next
  case (V_map es)
  have "(\<lambda>(k, v). (V_atom (json_key (\<lambda>_. 0) k), wire v)) e = e" if "e \<in> set es" for e
    using V_map that by (cases e; cases "fst e") (fastforce simp: json_key_def)+
  then show ?case by (simp only: wire.simps map_idI)
qed auto

text \<open>
  Values that arrive: no floating-point numbers, no pids and no functions (these two are written as null), no control characters in strings but newline, return and
  tab, no quote or backslash in atoms and keys, keys that are strings, atoms or integers, and within the limits.
\<close>

fun wire_safe :: "json_limits \<Rightarrow> sw_val \<Rightarrow> bool" where
  "wire_safe lim (V_float x) = False"
| "wire_safe lim (V_string s) = ((\<forall>c\<in>set s. printable c) \<and> fits (length s) (lim_string lim))"
| "wire_safe lim (V_atom s) = (plain s \<and> fits (length s) (lim_string lim))"
| "wire_safe lim (V_tuple xs) = ((\<forall>x\<in>set xs. wire_safe lim x) \<and> fits (length xs) (lim_items lim))"
| "wire_safe lim (V_list xs) = ((\<forall>x\<in>set xs. wire_safe lim x) \<and> fits (length xs) (lim_items lim))"
| "wire_safe lim (V_map es) =
     ((\<forall>(k, v)\<in>set es. wire_safe lim v \<and> plain (json_key (\<lambda>_. 0) k) \<and> fits (length (json_key (\<lambda>_. 0) k)) (lim_string lim)
         \<and> (case k of V_string _ \<Rightarrow> True | V_atom _ \<Rightarrow> True | V_int _ \<Rightarrow> True | _ \<Rightarrow> False))
      \<and> fits (length es) (lim_entries lim))"
| "wire_safe lim V_nil = True"
| "wire_safe lim (V_int i) = True"
| "wire_safe lim _ = False"

lemma json_key_raw: "(case k of V_string _ \<Rightarrow> True | V_atom _ \<Rightarrow> True | V_int _ \<Rightarrow> True | _ \<Rightarrow> False) \<Longrightarrow> json_key raw k = json_key (\<lambda>_. 0) k"
  by (cases k) (simp_all add: json_key_def)

text \<open>The first character of a text: no white space and no closing bracket.\<close>

definition starts :: "string \<Rightarrow> bool" where
  "starts s \<longleftrightarrow> s \<noteq> [] \<and> \<not> is_ws (cur s) \<and> cur s \<noteq> CHR '']'' \<and> cur s \<noteq> CHR ''}'' \<and> cur s \<noteq> CHR '','' "

lemma starts_append: "starts s \<Longrightarrow> starts (s @ t)"
  by (cases s) (simp_all add: starts_def cur_def)

lemma starts_show_int: "starts (show_int i)"
proof (rule show_int_cases [of i])
  assume "show_int i = show_nat (nat (sint i))"
  then show ?thesis using cur_show_nat [of "nat (sint i)" "[]"] show_nat_ne [of "nat (sint i)"]
    by (auto simp: starts_def is_digit_def is_ws_def)
qed (simp add: starts_def cur_def is_ws_def)

lemma starts_text: "wire_safe lim v \<Longrightarrow> starts (json_text ff raw v)"
  by (cases v) (auto simp: starts_show_int, auto simp: starts_def cur_def is_ws_def quoted_def)

lemma skip_ws_id: "\<not> is_ws (cur s) \<Longrightarrow> skip_ws s = s"
  by (cases s) (simp_all add: skip_ws_def cur_def)

text \<open>What is shown of one value: it is read back in front of any delimiter, with enough fuel.\<close>

definition reads :: "(double \<Rightarrow> string) \<Rightarrow> (sw_val \<Rightarrow> int64) \<Rightarrow> (string \<Rightarrow> double) \<Rightarrow> json_limits \<Rightarrow> sw_val \<Rightarrow> bool" where
  "reads ff raw sd lim v \<longleftrightarrow>
     (\<forall>n rest. 2 * length (json_text ff raw v) + 2 \<le> n \<longrightarrow> delim rest \<longrightarrow>
        json_parse sd lim n (json_text ff raw v @ rest) = Some (J_val (wire v) rest))"

lemma reads_array:
  assumes "\<forall>x\<in>set xs. reads ff raw sd lim x \<and> wire_safe lim x" "fits (length items + length xs) (lim_items lim)"
    and "2 * length (join_comma (map (json_text ff raw) xs)) + 3 \<le> n"
  shows "json_parse_array sd lim n (join_comma (map (json_text ff raw) xs) @ CHR '']'' # rest) items
    = Some (J_val (V_list (items @ map wire xs)) rest)"
  using assms
proof (induction xs arbitrary: items n)
  case Nil
  then obtain m where "n = Suc m" by (cases n) auto
  then show ?case by (simp add: skip_char_def cur_def)
next
  case (Cons x xs)
  have safe: "\<forall>y\<in>set xs. wire_safe lim y" using Cons.prems(1) by simp
  obtain m where m: "n = Suc m" using Cons.prems(3) by (cases n) auto
  let ?x = "json_text ff raw x" and ?tail = "sep False xs @ join_comma (map (json_text ff raw) xs) @ CHR '']'' # rest"
  have st: "starts ?x" using Cons.prems(1) by (auto intro: starts_text)
  have joined: "join_comma (map (json_text ff raw) (x # xs)) @ CHR '']'' # rest = ?x @ ?tail"
    using join_comma_Cons [of ?x "map (json_text ff raw) xs"] by (simp add: sep_def)
  have len: "length (join_comma (map (json_text ff raw) (x # xs))) = length ?x + length (sep False xs) + length (join_comma (map (json_text ff raw) xs))"
    using join_comma_Cons [of ?x "map (json_text ff raw) xs"] by (simp add: sep_def)
  have px: "0 < length ?x" using st by (simp add: starts_def)
  have "delim ?tail" by (cases xs) (simp_all add: sep_def delim_def cur_def)
  then have parse: "json_parse sd lim m (?x @ ?tail) = Some (J_val (wire x) ?tail)"
    using Cons.prems(1,3) len m by (simp add: reads_def)
  let ?next = "skip_ws (skip_char (CHR '','') (skip_ws ?tail))"
  have "?next = join_comma (map (json_text ff raw) xs) @ CHR '']'' # rest"
  proof (cases xs)
    case Nil
    then show ?thesis by (simp add: sep_def skip_ws_id skip_char_def cur_def is_ws_def)
  next
    case (Cons y ys)
    have "starts (json_text ff raw y)" using safe \<open>xs = y # ys\<close> by (auto intro: starts_text)
    then have "starts (join_comma (map (json_text ff raw) xs) @ CHR '']'' # rest)"
      unfolding \<open>xs = y # ys\<close> using join_comma_Cons [of "json_text ff raw y"] by (simp add: starts_append)
    then show ?thesis by (simp add: sep_def Cons skip_ws_id skip_char_def cur_def is_ws_def starts_def)
  qed
  moreover have "json_parse_array sd lim m (join_comma (map (json_text ff raw) xs) @ CHR '']'' # rest) (items @ [wire x])
      = Some (J_val (V_list ((items @ [wire x]) @ map wire xs)) rest)"
  proof (intro Cons.IH)
    show "2 * length (join_comma (map (json_text ff raw) xs)) + 3 \<le> m" using Cons.prems(3) len m px by linarith
  qed (use Cons.prems in simp_all)
  moreover have "\<not> (?x @ ?tail = [] \<or> cur (?x @ ?tail) = CHR '']'' \<or> \<not> below (length items) (lim_items lim))"
    using starts_append [OF st, of ?tail] Cons.prems(2) fits_below [of "length items" "lim_items lim"]
      fits_mono [of "length items + length (x # xs)" "lim_items lim" "Suc (length items)"] by (auto simp: starts_def)
  ultimately show ?case unfolding joined m by (simp only: json_parse_array.simps parse if_False option.case json_result.case) simp
qed

abbreviation entry_text :: "(double \<Rightarrow> string) \<Rightarrow> (sw_val \<Rightarrow> int64) \<Rightarrow> sw_val \<times> sw_val \<Rightarrow> string" where
  "entry_text ff raw \<equiv> (\<lambda>(k, v). quoted (json_key raw k) @ CHR '':'' # json_text ff raw v)"

abbreviation entry_safe :: "json_limits \<Rightarrow> sw_val \<times> sw_val \<Rightarrow> bool" where
  "entry_safe lim \<equiv> (\<lambda>(k, v). wire_safe lim v \<and> plain (json_key (\<lambda>_. 0) k) \<and> fits (length (json_key (\<lambda>_. 0) k)) (lim_string lim)
         \<and> (case k of V_string _ \<Rightarrow> True | V_atom _ \<Rightarrow> True | V_int _ \<Rightarrow> True | _ \<Rightarrow> False))"

lemma reads_object:
  assumes "\<forall>e\<in>set es. reads ff raw sd lim (snd e) \<and> entry_safe lim e" "fits (length entries + length es) (lim_entries lim)"
    and "2 * length (join_comma (map (entry_text ff raw) es)) + 3 \<le> n"
  shows "json_parse_object sd lim n (join_comma (map (entry_text ff raw) es) @ CHR ''}'' # rest) entries
    = Some (J_val (V_map (entries @ map (\<lambda>(k, v). (V_atom (json_key (\<lambda>_. 0) k), wire v)) es)) rest)"
  using assms
proof (induction es arbitrary: entries n)
  case Nil
  then obtain m where "n = Suc m" by (cases n) auto
  then show ?case by (simp add: skip_char_def cur_def)
next
  case (Cons e es)
  obtain k v where e: "e = (k, v)" by (cases e)
  obtain m where m: "n = Suc m" using Cons.prems(3) by (cases n) auto
  have k: "json_key raw k = json_key (\<lambda>_. 0) k" "plain (json_key (\<lambda>_. 0) k)" "fits (length (json_key (\<lambda>_. 0) k)) (lim_string lim)"
    and v: "reads ff raw sd lim v" "wire_safe lim v"
    using Cons.prems(1) e json_key_raw [of k raw] by auto
  let ?tail = "sep False es @ join_comma (map (entry_text ff raw) es) @ CHR ''}'' # rest"
  let ?s = "quoted (json_key raw k) @ CHR '':'' # json_text ff raw v @ ?tail"
  have joined: "join_comma (map (entry_text ff raw) (e # es)) @ CHR ''}'' # rest = ?s"
    using join_comma_Cons [of "entry_text ff raw e" "map (entry_text ff raw) es"] by (simp add: sep_def e)
  have len: "length (join_comma (map (entry_text ff raw) (e # es))) =
      length (quoted (json_key raw k)) + 1 + length (json_text ff raw v) + length (sep False es) + length (join_comma (map (entry_text ff raw) es))"
    using join_comma_Cons [of "entry_text ff raw e" "map (entry_text ff raw) es"] by (simp add: sep_def e)
  have str: "json_parse_string (lim_string lim) (tl ?s) [] = Some (json_key (\<lambda>_. 0) k, CHR '':'' # json_text ff raw v @ ?tail)"
    using parse_plain [OF k(2), of "[]" "lim_string lim"] k(1,3) by (simp add: quoted_def)
  have colon: "skip_char (CHR '':'') (skip_ws (CHR '':'' # json_text ff raw v @ ?tail)) = json_text ff raw v @ ?tail"
    by (simp add: skip_ws_id cur_def is_ws_def skip_char_def)
  have "delim ?tail" by (cases es) (simp_all add: sep_def delim_def cur_def)
  then have parse: "json_parse sd lim m (json_text ff raw v @ ?tail) = Some (J_val (wire v) ?tail)"
    using v(1) Cons.prems(3) len m by (simp add: reads_def)
  have head: "cur ?s = CHR 0x22" "?s \<noteq> []" "skip_ws ?s = ?s" by (simp_all add: quoted_def cur_def skip_ws_id is_ws_def)
  have nxt: "(let r = skip_char (CHR '','') (skip_ws ?tail) in if ws_after_comma lim then skip_ws r else r)
      = join_comma (map (entry_text ff raw) es) @ CHR ''}'' # rest"
  proof (cases es)
    case Nil
    then show ?thesis by (simp add: sep_def skip_ws_id skip_char_def cur_def is_ws_def Let_def)
  next
    case (Cons f fs)
    let ?j = "join_comma (map (entry_text ff raw) es) @ CHR ''}'' # rest"
    have "cur ?j = CHR 0x22"
      using join_comma_Cons [of "entry_text ff raw f"] by (cases f) (simp add: Cons quoted_def cur_def)
    then have "skip_ws ?j = ?j" by (intro skip_ws_id) (simp add: is_ws_def)
    moreover have "skip_char (CHR '','') (skip_ws (CHR '','' # ?j)) = ?j"
      by (simp add: skip_ws_id skip_char_def cur_def is_ws_def)
    moreover have "?tail = CHR '','' # ?j" by (simp add: sep_def Cons)
    ultimately show ?thesis by (simp only: Let_def if_cancel)
  qed
  have "json_parse_object sd lim m (join_comma (map (entry_text ff raw) es) @ CHR ''}'' # rest) (entries @ [(V_atom (json_key (\<lambda>_. 0) k), wire v)])
      = Some (J_val (V_map ((entries @ [(V_atom (json_key (\<lambda>_. 0) k), wire v)]) @ map (\<lambda>(k, v). (V_atom (json_key (\<lambda>_. 0) k), wire v)) es)) rest)"
  proof (intro Cons.IH)
    show "2 * length (join_comma (map (entry_text ff raw) es)) + 3 \<le> m" using Cons.prems(3) len m by (simp add: quoted_def)
  qed (use Cons.prems in simp_all)
  moreover have "below (length entries) (lim_entries lim)"
    using Cons.prems(2) fits_mono [of "length entries + length (e # es)" "lim_entries lim" "Suc (length entries)"]
    by (intro fits_below) simp
  ultimately show ?case unfolding joined m
    using head nxt by (simp only: json_parse_object.simps head Let_def str colon parse option.case prod.case json_result.case nxt) (simp add: e nxt)
qed

lemma parse_quoted:
  assumes "json_parse_string (lim_string lim) (s @ CHR 0x22 # rest) [] = Some (t, rest)" "0 < n"
  shows "json_parse sd lim n (quoted s @ rest) = Some (J_val (V_string t) rest)"
proof -
  obtain m where "n = Suc m" using assms(2) by (cases n) auto
  moreover have "skip_ws (quoted s @ rest) = quoted s @ rest" by (simp add: quoted_def skip_ws_id cur_def is_ws_def)
  ultimately show ?thesis using assms(1) by (simp add: Let_def) (simp add: quoted_def cur_def)
qed

lemma parse_literal:
  assumes "s \<in> {''true'', ''false'', ''null''}" "0 < n"
  shows "json_parse sd lim n (s @ rest) = Some (J_val (if s = ''null'' then V_nil else V_atom s) rest)"
proof -
  obtain m where m: "n = Suc m" using assms(2) by (cases n) auto
  have ws: "skip_ws (s @ rest) = s @ rest" using assms(1) by (auto simp: skip_ws_id cur_def is_ws_def)
  have *: "json_parse sd lim (Suc m) (s @ rest) = Some (J_val (if s = ''null'' then V_nil else V_atom s) rest)"
    if "s = ''true'' \<or> s = ''false'' \<or> s = ''null''" using that
  proof (elim disjE)
    assume s: "s = ''true''" show ?thesis unfolding json_parse.simps ws Let_def unfolding s by (simp add: cur_def)
  next
    assume s: "s = ''false''" show ?thesis unfolding json_parse.simps ws Let_def unfolding s by (simp add: cur_def)
  next
    assume s: "s = ''null''" show ?thesis unfolding json_parse.simps ws Let_def unfolding s by (simp add: cur_def)
  qed
  then show ?thesis using assms(1) m by simp
qed

lemma parse_number:
  assumes "delim rest" "0 < n"
  shows "json_parse sd lim n (show_int i @ rest) = Some (J_val (V_int i) rest)"
proof -
  obtain m where m: "n = Suc m" using assms(2) by (cases n) auto
  let ?c = "cur (show_int i @ rest)"
  have c: "is_digit ?c \<or> ?c = CHR ''-''"
    by (rule show_int_cases [of i]) (auto simp: cur_show_nat, simp add: cur_def)
  have ws: "skip_ws (show_int i @ rest) = show_int i @ rest"
    using c by (intro skip_ws_id) (auto simp: is_digit_def is_ws_def)
  have lit: "take k (show_int i @ rest) \<noteq> x # xs" if "\<not> is_digit x" "x \<noteq> CHR ''-''" for k x xs
    using c that by (cases k; cases "show_int i @ rest") (auto simp: cur_def)
  have "\<not> is_digit (CHR ''t'')" "\<not> is_digit (CHR ''f'')" "\<not> is_digit (CHR ''n'')" by (simp_all add: is_digit_def)
  then show ?thesis using c number_show_int [OF assms(1)] lit unfolding m
    by (auto simp: ws Let_def is_digit_def)
qed

lemma parse_list:
  assumes "\<forall>x\<in>set xs. reads ff raw sd lim x \<and> wire_safe lim x" "fits (length xs) (lim_items lim)"
    and "2 * length (join_comma (map (json_text ff raw) xs)) + 4 \<le> n"
  shows "json_parse sd lim n (''['' @ join_comma (map (json_text ff raw) xs) @ '']'' @ rest) = Some (J_val (V_list (map wire xs)) rest)"
proof -
  let ?j = "join_comma (map (json_text ff raw) xs) @ CHR '']'' # rest"
  obtain m where m: "n = Suc m" using assms(3) by (cases n) auto
  have "\<not> is_ws (cur ?j)"
  proof (cases xs)
    case Nil
    then show ?thesis by (simp add: cur_def is_ws_def)
  next
    case (Cons y ys)
    then have "starts (json_text ff raw y)" using assms(1) by (auto intro: starts_text)
    then have "starts ?j" unfolding Cons using join_comma_Cons [of "json_text ff raw y"] by (simp add: starts_append)
    then show ?thesis by (simp add: starts_def)
  qed
  then have j: "skip_ws ?j = ?j" by (rule skip_ws_id)
  have "json_parse_array sd lim m ?j [] = Some (J_val (V_list (map wire xs)) rest)"
    using reads_array [of xs ff raw sd lim "[]" m rest] assms m by simp
  moreover have "skip_ws (CHR ''['' # ?j) = CHR ''['' # ?j" by (simp add: skip_ws_id cur_def is_ws_def)
  ultimately show ?thesis using j by (simp add: m) (simp add: cur_def)
qed

lemma parse_map:
  assumes "\<forall>e\<in>set es. reads ff raw sd lim (snd e) \<and> entry_safe lim e" "fits (length es) (lim_entries lim)"
    and "2 * length (join_comma (map (entry_text ff raw) es)) + 4 \<le> n"
  shows "json_parse sd lim n (''{'' @ join_comma (map (entry_text ff raw) es) @ ''}'' @ rest)
    = Some (J_val (V_map (map (\<lambda>(k, v). (V_atom (json_key (\<lambda>_. 0) k), wire v)) es)) rest)"
proof -
  let ?j = "join_comma (map (entry_text ff raw) es) @ CHR ''}'' # rest"
  obtain m where m: "n = Suc m" using assms(3) by (cases n) auto
  have "\<not> is_ws (cur ?j)"
  proof (cases es)
    case Nil
    then show ?thesis by (simp add: cur_def is_ws_def)
  next
    case (Cons e fs)
    then show ?thesis using join_comma_Cons [of "entry_text ff raw e"] by (cases e) (simp add: quoted_def cur_def is_ws_def)
  qed
  then have j: "skip_ws ?j = ?j" by (rule skip_ws_id)
  have "json_parse_object sd lim m ?j [] = Some (J_val (V_map (map (\<lambda>(k, v). (V_atom (json_key (\<lambda>_. 0) k), wire v)) es)) rest)"
    using reads_object [of es ff raw sd lim "[]" m rest] assms m by simp
  moreover have "skip_ws (CHR ''{'' # ?j) = CHR ''{'' # ?j" by (simp add: skip_ws_id cur_def is_ws_def)
  ultimately show ?thesis using j by (simp add: m) (simp add: cur_def)
qed

lemma wire_reads: "wire_safe lim v \<Longrightarrow> reads ff raw sd lim v"
proof (induction v)
  case (V_string s)
  have "json_parse_string (lim_string lim) (concat (map json_escape s) @ CHR 0x22 # rest) [] = Some (s, rest)" for rest
    using parse_escaped [of s "[]" "lim_string lim" rest] V_string by simp
  then show ?case unfolding reads_def by (simp add: parse_quoted)
next
  case (V_atom s)
  have q: "json_parse_string (lim_string lim) (s @ CHR 0x22 # rest) [] = Some (s, rest)" for rest
    using parse_plain [of s "[]" "lim_string lim" rest] V_atom by simp
  consider "s = ''true'' \<or> s = ''false''" | "s = ''nil''" | "s \<noteq> ''true''" "s \<noteq> ''false''" "s \<noteq> ''nil''" by blast
  then show ?case
  proof cases
    case 1
    then have "json_text ff raw (V_atom s) = s" "wire (V_atom s) = V_atom s" "s \<in> {''true'', ''false'', ''null''}" "s \<noteq> ''null''" by auto
    then show ?thesis unfolding reads_def using parse_literal [of s] by simp
  next
    case 2
    then have "json_text ff raw (V_atom s) = ''null''" "wire (V_atom s) = V_nil" by simp_all
    then show ?thesis unfolding reads_def using parse_literal [of "''null''"] by simp
  next
    case 3
    then have "json_text ff raw (V_atom s) = quoted s" "wire (V_atom s) = V_string s" by simp_all
    then show ?thesis unfolding reads_def using parse_quoted [OF q] by simp
  qed
next
  case (V_tuple xs)
  then have "\<forall>x\<in>set xs. reads ff raw sd lim x \<and> wire_safe lim x" "fits (length xs) (lim_items lim)" by simp_all
  note r = parse_list [OF this]
  show ?case by (subst reads_def) (use r in simp)
next
  case (V_list xs)
  then have "\<forall>x\<in>set xs. reads ff raw sd lim x \<and> wire_safe lim x" "fits (length xs) (lim_items lim)" by simp_all
  note r = parse_list [OF this]
  show ?case by (subst reads_def) (use r in simp)
next
  case (V_map es)
  then have "\<forall>e\<in>set es. reads ff raw sd lim (snd e) \<and> entry_safe lim e" by (fastforce elim: snds.cases)
  moreover have "fits (length es) (lim_entries lim)" using V_map.prems by simp
  ultimately have r: "2 * length (join_comma (map (entry_text ff raw) es)) + 4 \<le> n \<Longrightarrow>
      json_parse sd lim n (''{'' @ join_comma (map (entry_text ff raw) es) @ ''}'' @ rest)
      = Some (J_val (V_map (map (\<lambda>(k, v). (V_atom (json_key (\<lambda>_. 0) k), wire v)) es)) rest)" for n rest
    by (rule parse_map)
  show ?case by (subst reads_def) (use r in simp)
next
  case (V_int i)
  then show ?case unfolding reads_def by (simp add: parse_number)
qed (use parse_literal [of "''null''"] in \<open>simp_all add: reads_def\<close>)

lemma safe_more: "wire_safe jd_lim v \<Longrightarrow> wire_safe json_lim v"
proof -
  have "fits n None" for n by (simp add: fits_def)
  then show "wire_safe jd_lim v \<Longrightarrow> wire_safe json_lim v"
    by (induction v) (auto simp: json_lim_def split: prod.splits)
qed

section \<open>Properties\<close>

text \<open>
  C19. Round trip between nodes: a value without floating-point numbers, pids, functions, control characters
  other than newline, return and tab, quotes or backslashes in atoms and keys, with at most 256 items per list,
  128 entries per map, keyed by strings, atoms or integers, and 8190 characters per string, whose text fits the
  256 KiB buffer, is encoded in full and read back by both decoders, up to the end of the text, as the value that
  \<open>wire\<close> gives: tuples have become lists, the atom nil the value nil, atoms other than true and false strings, and
  keys of every kind atoms. A value made of nil, integers, strings, true, false, lists and maps with atom keys
  comes back as it was.
\<close>

theorem json_round_trip:
  assumes "wire_safe jd_lim v" "length (json_text ff raw v) + 6 < JSON_CAP"
  shows "(\<exists>t. builtin_json_encode ff raw [v] = V_string t
      \<and> sw_lang_json_decode sd t = Some (J_val (wire v) []) \<and> builtin_json_decode sd t = Some (J_val (wire v) []))
    \<and> (json_value v \<longrightarrow> wire v = v)"
proof -
  have "json_encode_val ff raw JSON_CAP v [] = json_text ff raw v"
    using json_encode_fits(1) [of "[]" ff raw v JSON_CAP] assms(2) by simp
  moreover have "delim []" by (simp add: delim_def)
  then have "json_parse sd lim (json_fuel (json_text ff raw v)) (json_text ff raw v) = Some (J_val (wire v) [])"
    if "wire_safe lim v" for lim
    using wire_reads [OF that, of ff raw sd] unfolding reads_def json_fuel_def by (metis append_Nil2 order_refl)
  ultimately show ?thesis using assms(1) safe_more [OF assms(1)]
    by (simp add: builtin_json_encode_def sw_lang_json_decode_def builtin_json_decode_def wire_json_value)
qed

definition demo_json :: sw_val where
  "demo_json = V_tuple [V_atom ''ok'', V_int (- 42), V_map [(V_string ''a'', V_string [CHR 0x22, CHR 0x0A, CHR ''x'']), (V_int 7, V_nil)]]"

theorem json_round_trip_witness:
  "wire demo_json = V_list [V_string ''ok'', V_int (- 42), V_map [(V_atom ''a'', V_string [CHR 0x22, CHR 0x0A, CHR ''x'']), (V_atom ''7'', V_nil)]]
   \<and> (\<exists>t. builtin_json_encode (\<lambda>_. []) (\<lambda>_. 0) [demo_json] = V_string t
        \<and> sw_lang_json_decode (\<lambda>_. 0) t = Some (J_val (wire demo_json) []) \<and> builtin_json_decode (\<lambda>_. 0) t = Some (J_val (wire demo_json) []))"
proof -
  have 1: "wire demo_json = V_list [V_string ''ok'', V_int (- 42), V_map [(V_atom ''a'', V_string [CHR 0x22, CHR 0x0A, CHR ''x'']), (V_atom ''7'', V_nil)]]"
    by code_simp
  have "show_int 7 = ''7''" by code_simp
  then have 2: "wire_safe jd_lim demo_json"
    by (simp add: demo_json_def jd_lim_def fits_def printable_def plain_def json_key_def)
  have "length (json_text (\<lambda>_. []) (\<lambda>_. 0) demo_json) = 33" by code_simp
  then have 3: "length (json_text (\<lambda>_. []) (\<lambda>_. 0) demo_json) + 6 < JSON_CAP" by (simp add: JSON_CAP_def)
  show ?thesis using json_round_trip [OF 2 3, of "\<lambda>_. 0"] 1 by simp
qed

text \<open>
  C33. Decoding ends on every text whatsoever, well-formed or not: with twice its length as a bound on nested calls
  and loop turns both decoders return, and what they leave unread is shorter than what they were given, unless they have read
  beyond its end (a result of its own, which \<open>json_decode_overruns\<close> shows to occur).
\<close>

theorem json_decode_returns:
  "(\<exists>r. sw_lang_json_decode sd s = Some r \<and> rest_less (length s) r) \<and> (\<exists>r. builtin_json_decode sd s = Some r \<and> rest_less (length s) r)"
  using json_total unfolding total_at_def sw_lang_json_decode_def builtin_json_decode_def json_fuel_def by (meson order_refl)

text \<open>
  An incomplete text makes the decoders read beyond its end: after a key with nothing behind the colon, and after
  a backslash as the last character of a string. The texts come from other nodes.
\<close>

theorem json_decode_overruns:
  "sw_lang_json_decode sd [CHR ''{'', CHR 0x22, CHR ''a'', CHR 0x22, CHR '':''] = Some J_overrun
   \<and> sw_lang_json_decode sd [CHR 0x22, CHR 0x5C] = Some J_overrun
   \<and> builtin_json_decode sd [CHR ''{'', CHR 0x22, CHR ''a'', CHR 0x22, CHR '':''] = Some J_overrun"
  unfolding sw_lang_json_decode_def builtin_json_decode_def json_fuel_def
  by (simp add: numeral_eq_Suc skip_ws_def is_ws_def cur_def skip_char_def below_def jd_lim_def json_lim_def
      json_number_def scan_number_def skip_fraction_def skip_exponent_def Let_def)

end
