(* ===== verification/Node.thy ===== *)
theory Node
  imports Registry Json
begin

text \<open>
  Distribution, \<^verbatim>\<open>src/src/swarmrt_node.c\<close>: the table of peers, the frames that carry messages between nodes and
  their dispatch. The byte order of integers in a header is that of the machine (little endian), the length in front
  of it is in network order. What the sockets do is data of the model: the result of a connection attempt and the
  pieces in which the bytes arrive.
\<close>

section \<open>Names\<close>

text \<open>A character array of 64 bytes that was zeroed and then filled by \<^verbatim>\<open>strncpy\<close> of at most 63.\<close>

definition name_field :: "string \<Rightarrow> bytes" where
  "name_field s = (let t = strncpy s 63 in t @ replicate (64 - length t) (CHR 0x00))"

lemma length_name_field [simp]: "length (name_field s) = 64"
  by (simp add: name_field_def strncpy_def Let_def)

lemma c_string_field: "CHR 0x00 \<notin> set s \<Longrightarrow> c_string (name_field s) = strncpy s 63"
  unfolding c_string_def name_field_def Let_def
  by (subst takeWhile_append2) (auto simp: strncpy_def takeWhile_eq_Nil_iff dest: in_set_takeD)

section \<open>Frames\<close>

record sw_remote_msg =
  from_node :: string
  from_pid :: u64
  to_node :: string
  to_pid :: u64
  to_name :: string
  rm_tag :: u64
  payload_len :: u32

definition HDR_SIZE :: nat where [const_simps]: "HDR_SIZE = 224"

text \<open>The bytes of the structure: its fields in order and four bytes of padding.\<close>

definition hdr_bytes :: "sw_remote_msg \<Rightarrow> bytes" where
  "hdr_bytes h = name_field (from_node h) @ le_bytes 8 (unat (from_pid h)) @ name_field (to_node h) @ le_bytes 8 (unat (to_pid h))
     @ name_field (to_name h) @ le_bytes 8 (unat (rm_tag h)) @ le_bytes 4 (unat (payload_len h)) @ replicate 4 (CHR 0x00)"

definition hdr_of :: "bytes \<Rightarrow> sw_remote_msg" where
  "hdr_of bs = \<lparr>from_node = c_string (take 64 bs), from_pid = of_nat (le_value (take 8 (drop 64 bs))),
     to_node = c_string (take 64 (drop 72 bs)), to_pid = of_nat (le_value (take 8 (drop 136 bs))),
     to_name = c_string (take 64 (drop 144 bs)), rm_tag = of_nat (le_value (take 8 (drop 208 bs))),
     payload_len = of_nat (le_value (take 4 (drop 216 bs)))\<rparr>"

text \<open>\<^verbatim>\<open>send_remote_msg\<close>: three writes, the length, the header and the payload.\<close>

definition send_remote_msg :: "sw_remote_msg \<Rightarrow> bytes \<Rightarrow> bytes list" where
  "send_remote_msg hdr payload =
     (let total = (of_nat HDR_SIZE + of_nat (length payload) :: u32);
          hdr = hdr\<lparr>payload_len := of_nat (length payload)\<rparr>
      in [be_bytes 4 (unat total), hdr_bytes hdr] @ (if payload \<noteq> [] then [payload] else []))"

section \<open>Receiving\<close>

text \<open>
  What a chunk of data leads to: nothing, a message for a process (with a value or with a null payload), or a read
  beyond the end of the chunk or of the copied payload.
\<close>

datatype remote_out =
    R_none
  | R_send proc_ref u64 "sw_val option"
  | R_overrun

definition looks_like_json :: "char \<Rightarrow> bool" where
  "looks_like_json c \<longleftrightarrow> c = CHR ''{'' \<or> c = CHR ''['' \<or> c = CHR 0x22 \<or> is_digit c \<or> c = CHR ''-''
     \<or> c = CHR ''t'' \<or> c = CHR ''f'' \<or> c = CHR ''n''"

text \<open>The payload is used as a C string; without a terminator in it the functions read on behind it.\<close>

definition decode_payload :: "(string \<Rightarrow> double) \<Rightarrow> bytes \<Rightarrow> sw_val option" where
  "decode_payload sd payload =
     (if CHR 0x00 \<notin> set payload then None
      else let p = c_string payload
           in if p \<noteq> [] \<and> looks_like_json (hd p) then
                (case sw_lang_json_decode sd p of
                   Some (J_val v _) \<Rightarrow> Some v | Some (J_end v) \<Rightarrow> Some v | _ \<Rightarrow> None)
              else Some (V_string p))"

definition route_target :: "(u64 \<Rightarrow> proc_ref option) \<Rightarrow> sw_registry \<Rightarrow> sw_remote_msg \<Rightarrow> proc_ref option" where
  "route_target by_pid rg hdr =
     (case (if to_pid hdr > 0 then by_pid (to_pid hdr) else None) of
        Some p \<Rightarrow> Some p
      | None \<Rightarrow> (if to_name hdr \<noteq> [] then sw_whereis (to_name hdr) rg else None))"

text \<open>\<open>mem\<close> is what follows the length in the chunk, \<open>len\<close> the length that the sender claims.\<close>

definition handle_remote_data ::
  "(string \<Rightarrow> double) \<Rightarrow> (u64 \<Rightarrow> proc_ref option) \<Rightarrow> sw_registry \<Rightarrow> bytes \<Rightarrow> u32 \<Rightarrow> remote_out" where
  "handle_remote_data sd by_pid rg mem len =
     (if unat len < HDR_SIZE then R_none
      else if length mem < HDR_SIZE then R_overrun
      else let hdr = hdr_of mem;
               plen = unat (payload_len hdr);
               has_payload = (plen > 0 \<and> HDR_SIZE + plen \<le> unat len)
           in if has_payload \<and> length mem < HDR_SIZE + plen then R_overrun
              else case route_target by_pid rg hdr of
                     None \<Rightarrow> R_none
                   | Some p \<Rightarrow>
                       if has_payload then
                         (case decode_payload sd (take plen (drop HDR_SIZE mem)) of
                            None \<Rightarrow> R_overrun | Some v \<Rightarrow> R_send p (rm_tag hdr) (Some v))
                       else R_send p (rm_tag hdr) None)"

text \<open>The handler process on one chunk of data. The sum in the check is of 32 bits.\<close>

definition dist_handler ::
  "(string \<Rightarrow> double) \<Rightarrow> (u64 \<Rightarrow> proc_ref option) \<Rightarrow> sw_registry \<Rightarrow> bytes \<Rightarrow> remote_out" where
  "dist_handler sd by_pid rg data =
     (if 4 \<le> length data then
        let msg_len = (of_nat (be_value (take 4 data)) :: u32)
        in if unat (4 + msg_len) \<le> length data then handle_remote_data sd by_pid rg (drop 4 data) msg_len else R_none
      else R_none)"

section \<open>Peers\<close>

definition SW_NODE_NAME_MAX :: nat where [const_simps]: "SW_NODE_NAME_MAX = 64"
definition SW_NODE_MAX_PEERS :: nat where [const_simps]: "SW_NODE_MAX_PEERS = 32"

record sw_peer =
  pe_name :: string
  pe_host :: string
  pe_port :: "16 word"
  pe_conn :: "nat option"
  pe_connected :: bool

record sw_node =
  nd_name :: string
  nd_active :: bool
  nd_peers :: "sw_peer list"

definition find_peer :: "string \<Rightarrow> sw_peer list \<Rightarrow> nat option" where
  "find_peer name peers = find (\<lambda>i. pe_name (peers ! i) = name) [0..<length peers]"

text \<open>\<open>conn\<close> is the result of the connection attempt, made only when the table has room and no such peer.\<close>

definition sw_node_connect :: "string \<Rightarrow> string \<Rightarrow> 16 word \<Rightarrow> nat option \<Rightarrow> sw_node \<Rightarrow> sw_node \<times> int" where
  "sw_node_connect name host port conn nd =
     (if find_peer name (nd_peers nd) \<noteq> None then (nd, 0)
      else if SW_NODE_MAX_PEERS \<le> length (nd_peers nd) then (nd, -1)
      else case conn of
             None \<Rightarrow> (nd, -1)
           | Some c \<Rightarrow>
               (nd\<lparr>nd_peers := nd_peers nd @
                  [\<lparr>pe_name = strncpy name (SW_NODE_NAME_MAX - 1), pe_host = strncpy host 63, pe_port = port,
                    pe_conn = Some c, pe_connected = True\<rparr>]\<rparr>, 0))"

definition sw_node_disconnect :: "string \<Rightarrow> sw_node \<Rightarrow> sw_node \<times> int" where
  "sw_node_disconnect name nd =
     (case find_peer name (nd_peers nd) of
        None \<Rightarrow> (nd, -1)
      | Some i \<Rightarrow> (nd\<lparr>nd_peers := (nd_peers nd)[i := (nd_peers nd ! i)\<lparr>pe_conn := None, pe_connected := False\<rparr>]\<rparr>, 0))"

definition sw_node_is_connected :: "string \<Rightarrow> sw_node \<Rightarrow> bool" where
  "sw_node_is_connected name nd =
     (case find_peer name (nd_peers nd) of None \<Rightarrow> False | Some i \<Rightarrow> pe_connected (nd_peers nd ! i))"

definition sw_node_peers :: "nat \<Rightarrow> sw_node \<Rightarrow> string list" where
  "sw_node_peers mx nd = take mx (map (\<lambda>p. strncpy (pe_name p) (SW_NODE_NAME_MAX - 1)) (filter pe_connected (nd_peers nd)))"

definition sw_node_stop :: "sw_node \<Rightarrow> sw_node" where
  "sw_node_stop nd = (if \<not> nd_active nd then nd else nd\<lparr>nd_peers := [], nd_active := False\<rparr>)"

definition peer_conn :: "string \<Rightarrow> sw_node \<Rightarrow> nat option" where
  "peer_conn node nd =
     (case find_peer node (nd_peers nd) of
        None \<Rightarrow> None
      | Some i \<Rightarrow> if pe_connected (nd_peers nd ! i) then pe_conn (nd_peers nd ! i) else None)"

text \<open>The two sends: the writes to the peer's connection, or -1.\<close>

definition sw_node_send :: "u64 \<Rightarrow> string \<Rightarrow> string \<Rightarrow> u64 \<Rightarrow> bytes \<Rightarrow> sw_node \<Rightarrow> (nat \<times> bytes list) option" where
  "sw_node_send self node name tag data nd =
     (case peer_conn node nd of
        None \<Rightarrow> None
      | Some c \<Rightarrow>
          Some (c, send_remote_msg \<lparr>from_node = strncpy (nd_name nd) (SW_NODE_NAME_MAX - 1), from_pid = self,
             to_node = strncpy node (SW_NODE_NAME_MAX - 1), to_pid = 0, to_name = strncpy name (SW_REG_NAME_MAX - 1),
             rm_tag = tag, payload_len = 0\<rparr> data))"

definition sw_node_send_pid :: "u64 \<Rightarrow> string \<Rightarrow> u64 \<Rightarrow> u64 \<Rightarrow> bytes \<Rightarrow> sw_node \<Rightarrow> (nat \<times> bytes list) option" where
  "sw_node_send_pid self node pid tag data nd =
     (case peer_conn node nd of
        None \<Rightarrow> None
      | Some c \<Rightarrow>
          Some (c, send_remote_msg \<lparr>from_node = strncpy (nd_name nd) (SW_NODE_NAME_MAX - 1), from_pid = self,
             to_node = strncpy node (SW_NODE_NAME_MAX - 1), to_pid = pid, to_name = [], rm_tag = tag, payload_len = 0\<rparr> data))"

text \<open>\<^verbatim>\<open>node_send\<close> of the language: the value as text with its terminator.\<close>

definition builtin_node_send ::
  "(double \<Rightarrow> string) \<Rightarrow> (sw_val \<Rightarrow> int64) \<Rightarrow> u64 \<Rightarrow> string \<Rightarrow> string \<Rightarrow> sw_val \<Rightarrow> sw_node \<Rightarrow> (nat \<times> bytes list) option" where
  "builtin_node_send ff raw self node name v nd =
     sw_node_send self node name SW_TAG_NONE (json_encode_val ff raw JSON_CAP v [] @ [CHR 0x00]) nd"

section \<open>Round trip of a frame\<close>

definition good_name :: "string \<Rightarrow> bool" where
  "good_name s \<longleftrightarrow> CHR 0x00 \<notin> set s \<and> length s \<le> 63"

lemma c_string_good: "good_name s \<Longrightarrow> c_string (name_field s) = s"
  by (simp add: good_name_def c_string_field)

lemma good_strncpy: "CHR 0x00 \<notin> set s \<Longrightarrow> good_name (strncpy s 63)"
  by (auto simp: good_name_def strncpy_def dest: in_set_takeD)

lemma length_hdr_bytes [simp]: "length (hdr_bytes h) = HDR_SIZE"
  by (simp add: hdr_bytes_def HDR_SIZE_def)

lemma of_nat_le_value:
  "of_nat (le_value (le_bytes 8 (unat (x :: u64)))) = x"
  "of_nat (le_value (le_bytes 4 (unat (y :: u32)))) = y"
proof -
  have "unat x < 256 ^ 8" by (rule less_le_trans [OF unsigned_less]) simp
  then show "of_nat (le_value (le_bytes 8 (unat x))) = x" by (simp add: le_value_bytes)
  have "unat y < 256 ^ 4" by (rule less_le_trans [OF unsigned_less]) simp
  then show "of_nat (le_value (le_bytes 4 (unat y))) = y" by (simp add: le_value_bytes)
qed

lemma hdr_of_bytes:
  assumes "good_name (from_node h)" "good_name (to_node h)" "good_name (to_name h)"
  shows "hdr_of (hdr_bytes h @ rest) = h"
proof -
  have f: "take 64 (hdr_bytes h @ rest) = name_field (from_node h)"
    "take 8 (drop 64 (hdr_bytes h @ rest)) = le_bytes 8 (unat (from_pid h))"
    "take 64 (drop 72 (hdr_bytes h @ rest)) = name_field (to_node h)"
    "take 8 (drop 136 (hdr_bytes h @ rest)) = le_bytes 8 (unat (to_pid h))"
    "take 64 (drop 144 (hdr_bytes h @ rest)) = name_field (to_name h)"
    "take 8 (drop 208 (hdr_bytes h @ rest)) = le_bytes 8 (unat (rm_tag h))"
    "take 4 (drop 216 (hdr_bytes h @ rest)) = le_bytes 4 (unat (payload_len h))"
    unfolding hdr_bytes_def by simp_all
  show ?thesis unfolding hdr_of_def f using assms by (simp add: c_string_good of_nat_le_value)
qed

definition frame :: "sw_remote_msg \<Rightarrow> bytes \<Rightarrow> bytes" where
  "frame hdr payload = concat (send_remote_msg hdr payload)"

lemma frame_bytes:
  "frame hdr payload = be_bytes 4 (unat (of_nat HDR_SIZE + of_nat (length payload) :: u32))
     @ hdr_bytes (hdr\<lparr>payload_len := of_nat (length payload)\<rparr>) @ payload"
  by (simp add: frame_def send_remote_msg_def Let_def)

text \<open>The sizes involved, for a payload that leaves room in the 32-bit length.\<close>

lemma frame_sizes:
  assumes "length payload + 228 < 2 ^ 32"
  shows "unat (of_nat HDR_SIZE + of_nat (length payload) :: u32) = HDR_SIZE + length payload"
    and "unat (of_nat (length payload) :: u32) = length payload"
    and "unat (4 + (of_nat HDR_SIZE + of_nat (length payload)) :: u32) = 4 + HDR_SIZE + length payload"
proof -
  have "(of_nat HDR_SIZE + of_nat (length payload) :: u32) = of_nat (HDR_SIZE + length payload)" by simp
  then show "unat (of_nat HDR_SIZE + of_nat (length payload) :: u32) = HDR_SIZE + length payload"
    using assms by (simp only: unat_of_nat) (simp add: HDR_SIZE_def)
  show "unat (of_nat (length payload) :: u32) = length payload"
    using assms by (simp only: unat_of_nat) simp
  have "(4 + (of_nat HDR_SIZE + of_nat (length payload)) :: u32) = of_nat (4 + HDR_SIZE + length payload)" by simp
  then show "unat (4 + (of_nat HDR_SIZE + of_nat (length payload)) :: u32) = 4 + HDR_SIZE + length payload"
    using assms by (simp only: unat_of_nat) (simp add: HDR_SIZE_def)
qed

lemma of_nat_unat32: "(of_nat (unat (x :: u32)) :: u32) = x"
  by simp

lemma frame_len: "be_value (take 4 (frame hdr payload @ extra)) = unat (of_nat HDR_SIZE + of_nat (length payload) :: u32)"
proof -
  let ?n = "unat (of_nat HDR_SIZE + of_nat (length payload) :: u32)"
  have "take 4 (frame hdr payload @ extra) = be_bytes 4 ?n" by (simp add: frame_bytes be_bytes_def)
  moreover have "?n < 256 ^ 4" by (rule less_le_trans [OF unsigned_less]) simp
  ultimately show ?thesis by (simp add: be_value_bytes)
qed

lemma dist_handler_frame:
  assumes "good_name (from_node hdr)" "good_name (to_node hdr)" "good_name (to_name hdr)" "length payload + 228 < 2 ^ 32"
  shows "dist_handler sd by_pid rg (frame hdr payload @ extra) =
    (case route_target by_pid rg hdr of
       None \<Rightarrow> R_none
     | Some p \<Rightarrow> if payload = [] then R_send p (rm_tag hdr) None
                else case decode_payload sd payload of None \<Rightarrow> R_overrun | Some v \<Rightarrow> R_send p (rm_tag hdr) (Some v))"
proof -
  note sz = frame_sizes [OF assms(4)]
  let ?h = "hdr\<lparr>payload_len := of_nat (length payload)\<rparr>"
  let ?len = "of_nat HDR_SIZE + of_nat (length payload) :: u32"
  have mem: "drop 4 (frame hdr payload @ extra) = hdr_bytes ?h @ payload @ extra"
    by (simp add: frame_bytes be_bytes_def)
  have hdr: "hdr_of (hdr_bytes ?h @ payload @ extra) = ?h" using assms(1-3) by (intro hdr_of_bytes) simp_all
  have tgt: "route_target by_pid rg ?h = route_target by_pid rg hdr" by (simp add: route_target_def split: option.split)
  have lens: "length (frame hdr payload @ extra) = 4 + HDR_SIZE + length payload + length extra"
    by (simp add: frame_bytes be_bytes_def)
  have "dist_handler sd by_pid rg (frame hdr payload @ extra) = handle_remote_data sd by_pid rg (hdr_bytes ?h @ payload @ extra) ?len"
    unfolding dist_handler_def frame_len Let_def of_nat_unat32 sz(3) mem lens by simp
  also have "\<dots> = (case route_target by_pid rg hdr of
       None \<Rightarrow> R_none
     | Some p \<Rightarrow> if payload = [] then R_send p (rm_tag hdr) None
                else case decode_payload sd payload of None \<Rightarrow> R_overrun | Some v \<Rightarrow> R_send p (rm_tag hdr) (Some v))"
    unfolding handle_remote_data_def Let_def hdr tgt using sz by (simp split: option.split)
  finally show ?thesis .
qed

lemma dist_handler_short:
  assumes "length payload + 228 < 2 ^ 32" "n < length (frame hdr payload)"
  shows "dist_handler sd by_pid rg (take n (frame hdr payload)) = R_none"
proof (cases "4 \<le> n")
  case True
  then have "take 4 (take n (frame hdr payload)) = take 4 (frame hdr payload)" by (simp add: min_def)
  then have "be_value (take 4 (take n (frame hdr payload))) = unat (of_nat HDR_SIZE + of_nat (length payload) :: u32)"
    using frame_len [of hdr payload "[]"] by simp
  moreover have "length (frame hdr payload) = 4 + HDR_SIZE + length payload" by (simp add: frame_bytes be_bytes_def)
  ultimately show ?thesis using assms frame_sizes(3) [OF assms(1)]
    unfolding dist_handler_def Let_def by (simp only: of_nat_unat32) simp
next
  case False
  then show ?thesis by (simp add: dist_handler_def)
qed

section \<open>Text as payload\<close>

lemma c_string_nul: "CHR 0x00 \<notin> set s \<Longrightarrow> c_string (s @ CHR 0x00 # r) = s"
  unfolding c_string_def by (subst takeWhile_append2) auto

lemma cur_hd: "s \<noteq> [] \<Longrightarrow> cur s = hd s"
  by (cases s) (simp_all add: cur_def)

lemma looks_like_json_text: "wire_safe lim v \<Longrightarrow> json_text ff raw v \<noteq> [] \<and> looks_like_json (hd (json_text ff raw v))"
proof (cases v)
  case (V_int i)
  have "is_digit (cur (show_int i)) \<or> cur (show_int i) = CHR ''-''"
    by (rule show_int_cases [of i]) (use cur_show_nat [of _ "[]"] in \<open>auto simp: cur_def\<close>)
  moreover have "show_int i \<noteq> []" using starts_show_int [of i] by (simp add: starts_def)
  ultimately show ?thesis using V_int by (auto simp: looks_like_json_def cur_hd)
qed (auto simp: looks_like_json_def quoted_def)

lemma decode_text:
  assumes "wire_safe jd_lim v" "CHR 0x00 \<notin> set (json_text ff raw v)"
  shows "decode_payload sd (json_text ff raw v @ [CHR 0x00]) = Some (wire v)"
proof -
  have "sw_lang_json_decode sd (json_text ff raw v) = Some (J_val (wire v) [])"
    using wire_reads [OF assms(1), of ff raw sd] unfolding reads_def sw_lang_json_decode_def json_fuel_def
    by (metis append_Nil2 delim_def order_refl)
  then show ?thesis using looks_like_json_text [OF assms(1), of ff raw] c_string_nul [OF assms(2), of "[]"]
    by (simp add: decode_payload_def Let_def)
qed

section \<open>Properties\<close>

text \<open>
  C17. A value sent to a registered name on a connected node arrives there: when the bytes written are in front of a
  chunk that the receiver reads, its handler sends to the process of that name the value that \<open>wire\<close> gives, whatever
  follows in the chunk: tuples arrive as lists, the atom nil as nil, atoms other than true and false as strings, keys of
  every kind as atoms. The value has no floating-point numbers, pids, functions, NUL bytes, control characters other than
  newline, return and tab, quotes or backslashes in atoms and keys, at most 256 items per list, 128 entries per map and 8190 characters per
  string; its text fits the 256 KiB buffer; and the three names have at most 63 characters.
\<close>

theorem node_message_arrives:
  assumes "peer_conn node nd = Some c" "good_name (nd_name nd)" "good_name node" "good_name name" "name \<noteq> []"
    and "wire_safe jd_lim v" "length (json_text ff raw v) + 6 < JSON_CAP" "CHR 0x00 \<notin> set (json_text ff raw v)"
    and "sw_whereis name rg = Some p"
  shows "\<exists>ws. builtin_node_send ff raw self node name v nd = Some (c, ws)
    \<and> dist_handler sd by_pid rg (concat ws @ extra) = R_send p SW_TAG_NONE (Some (wire v))"
proof -
  let ?text = "json_text ff raw v @ [CHR 0x00]"
  let ?hdr = "\<lparr>from_node = strncpy (nd_name nd) 63, from_pid = self, to_node = strncpy node 63, to_pid = 0,
    to_name = strncpy name 63, rm_tag = SW_TAG_NONE, payload_len = 0\<rparr>"
  have enc: "json_encode_val ff raw JSON_CAP v [] = json_text ff raw v"
    using json_encode_fits(1) [of "[]" ff raw v JSON_CAP] assms(7) by simp
  have names: "strncpy (nd_name nd) 63 = nd_name nd" "strncpy node 63 = node" "strncpy name 63 = name"
    using assms(2-4) by (simp_all add: good_name_def)
  have "builtin_node_send ff raw self node name v nd = Some (c, send_remote_msg ?hdr ?text)"
    by (simp add: builtin_node_send_def sw_node_send_def assms(1) enc SW_NODE_NAME_MAX_def SW_REG_NAME_MAX_def)
  moreover have "dist_handler sd by_pid rg (frame ?hdr ?text @ extra) = R_send p SW_TAG_NONE (Some (wire v))"
    using assms(2-6,7,9) decode_text [OF assms(6,8)]
    by (subst dist_handler_frame) (simp_all add: names route_target_def JSON_CAP_def)
  ultimately show ?thesis by (auto simp: frame_def)
qed

definition demo_node :: sw_node where
  "demo_node = \<lparr>nd_name = ''a'', nd_active = True,
     nd_peers = [\<lparr>pe_name = ''b'', pe_host = ''h'', pe_port = 9, pe_conn = Some 5, pe_connected = True\<rparr>]\<rparr>"

theorem node_message_arrives_witness:
  "\<exists>ws. builtin_node_send (\<lambda>_. []) (\<lambda>_. 0) 1 ''b'' ''srv'' (V_tuple [V_atom ''ok'']) demo_node = Some (5, ws)
    \<and> dist_handler (\<lambda>_. 0) (\<lambda>_. None) (fst (sw_register ''srv'' 3 registry_init)) (concat ws @ ''x'') = R_send 3 SW_TAG_NONE (Some (V_list [V_string ''ok'']))"
proof -
  have 1: "peer_conn ''b'' demo_node = Some 5" by (simp add: peer_conn_def find_peer_def demo_node_def)
  have 2: "sw_whereis ''srv'' (fst (sw_register ''srv'' 3 registry_init)) = Some 3"
    by (simp add: sw_whereis_def sw_register_def registry_init_def reg_index_def Let_def name_match_def)
  have 3: "good_name (nd_name demo_node)" "good_name ''b''" "good_name ''srv''" by (simp_all add: good_name_def demo_node_def)
  have 4: "wire_safe jd_lim (V_tuple [V_atom ''ok''])" by (simp add: jd_lim_def plain_def fits_def)
  show ?thesis
    using node_message_arrives [OF 1 3 _ 4 _ _ 2, of "\<lambda>_. []" "\<lambda>_. 0" 1 "\<lambda>_. 0" "\<lambda>_. None" "''x''"] by (simp add: quoted_def JSON_CAP_def)
qed

text \<open>
  A frame must be complete at the front of one chunk: a chunk with any shorter part of it is dropped, without the
  rest being waited for, although the sender writes a frame in three pieces; and only the first frame of a chunk is
  handled, those behind it are dropped.
\<close>

theorem node_frame_boundaries:
  assumes "length payload + 228 < 2 ^ 32" "good_name (from_node hdr)" "good_name (to_node hdr)" "good_name (to_name hdr)"
  shows "(\<forall>n<length (frame hdr payload). dist_handler sd by_pid rg (take n (frame hdr payload)) = R_none)
    \<and> dist_handler sd by_pid rg (frame hdr payload @ frame hdr' payload') = dist_handler sd by_pid rg (frame hdr payload)"
  using dist_handler_short [OF assms(1)] dist_handler_frame [OF assms(2-4,1), of sd by_pid rg "frame hdr' payload'"]
    dist_handler_frame [OF assms(2-4,1), of sd by_pid rg "[]"]
  by simp

definition demo_hdr :: sw_remote_msg where
  "demo_hdr = \<lparr>from_node = ''a'', from_pid = 1, to_node = ''b'', to_pid = 0, to_name = ''srv'', rm_tag = 0, payload_len = 0\<rparr>"

theorem node_frame_boundaries_witness:
  "dist_handler (\<lambda>_. 0) (\<lambda>_. None) registry_init (take 4 (frame demo_hdr ''1'')) = R_none"
  using node_frame_boundaries [of "''1''" demo_hdr "\<lambda>_. 0" "\<lambda>_. None" registry_init]
  by (simp add: good_name_def frame_bytes HDR_SIZE_def demo_hdr_def)

text \<open>
  Four bytes from the network make the handler read outside its buffer: the sum of the length and 4 wraps around,
  so the check lets a length near the top of the range pass, and a header is read where there are no bytes.
\<close>

theorem node_length_wraps: "dist_handler sd by_pid rg [CHR 0xFF, CHR 0xFF, CHR 0xFF, CHR 0xFF] = R_overrun"
proof -
  have v: "be_value (take 4 [CHR 0xFF, CHR 0xFF, CHR 0xFF, CHR 0xFF]) = 4294967295" by (simp add: be_value_def)
  have w: "(of_nat 4294967295 :: u32) = - 1" by simp
  have "unat (- 1 :: u32) = 4294967295" by (simp add: unat_eq_nat_uint uint_word_ariths)
  moreover have "unat (4 + - 1 :: u32) = 3" by simp
  ultimately show ?thesis unfolding dist_handler_def Let_def v w by (simp add: handle_remote_data_def HDR_SIZE_def)
qed

text \<open>
  C0. A node that was disconnected cannot be connected again: its entry stays in the table without a connection, so
  \<^verbatim>\<open>sw_node_connect\<close> reports success and does nothing, and every send to it fails.
\<close>

theorem node_reconnect_fails:
  assumes "find_peer name (nd_peers nd) = Some i" "sw_node_disconnect name nd = (nd', r)"
  shows "sw_node_connect name host port conn nd' = (nd', 0) \<and> \<not> sw_node_is_connected name nd' \<and> sw_node_send self name rn tag data nd' = None"
proof -
  have i: "i < length (nd_peers nd)" "pe_name (nd_peers nd ! i) = name" using assms(1) by (auto simp: find_peer_def find_Some_iff)
  have peers: "nd_peers nd' = (nd_peers nd)[i := (nd_peers nd ! i)\<lparr>pe_conn := None, pe_connected := False\<rparr>]"
    using assms by (auto simp: sw_node_disconnect_def)
  have "pe_name (nd_peers nd' ! j) = pe_name (nd_peers nd ! j)" for j
    using i by (cases "j = i") (simp_all add: peers)
  then have "find_peer name (nd_peers nd') = Some i" using assms(1) by (simp add: find_peer_def peers)
  then show ?thesis using i
    by (simp add: sw_node_connect_def sw_node_is_connected_def sw_node_send_def peer_conn_def peers)
qed

theorem node_reconnect_fails_witness:
  "\<not> sw_node_is_connected ''b'' (fst (sw_node_connect ''b'' ''h'' 9 (Some 6) (fst (sw_node_disconnect ''b'' demo_node))))"
proof -
  have 1: "find_peer ''b'' (nd_peers demo_node) = Some 0" by (simp add: find_peer_def demo_node_def)
  have 2: "sw_node_disconnect ''b'' demo_node = (fst (sw_node_disconnect ''b'' demo_node), snd (sw_node_disconnect ''b'' demo_node))" by simp
  show ?thesis using node_reconnect_fails [OF 1 2, of "''h''" 9 "Some 6"] by simp
qed

end
