(* ===== verification/Lang_Lexer.thy ===== *)
theory Lang_Lexer
  imports Json
begin

text \<open>
  The lexer of the \<^verbatim>\<open>.sw\<close> language, \<^verbatim>\<open>lnext\<close> of \<^verbatim>\<open>src/src/swarmrt_lang.c\<close>. The lexer's position is the rest of
  the source; of line and column only the line is used by its callers. The text of a token sits in an array of 2048
  bytes that most branches fill without a check.
\<close>

section \<open>Tokens\<close>

datatype tok_type =
    TOK_EOF | TOK_IDENT | TOK_NUMBER | TOK_STRING | TOK_ATOM
  | TOK_SPAWN | TOK_RECEIVE | TOK_SEND | TOK_AFTER | TOK_SWARM | TOK_MODULE | TOK_EXPORT | TOK_FUN | TOK_WHEN
  | TOK_CASE | TOK_END | TOK_IF | TOK_ELSE | TOK_SELF
  | TOK_ARROW | TOK_FARROW | TOK_PIPE | TOK_ASSIGN | TOK_EQ | TOK_NEQ | TOK_LT | TOK_GT | TOK_LE | TOK_GE
  | TOK_PLUS | TOK_MINUS | TOK_STAR | TOK_SLASH | TOK_CONCAT | TOK_AND | TOK_OR
  | TOK_LPAREN | TOK_RPAREN | TOK_LBRACE | TOK_RBRACE | TOK_LBRACKET | TOK_RBRACKET | TOK_COMMA | TOK_DOT | TOK_COLON | TOK_SEMI
  | TOK_ELSIF | TOK_FOR | TOK_IN | TOK_TRY | TOK_CATCH | TOK_IMPORT | TOK_DOTDOT | TOK_BAR | TOK_PERCENT

record tok =
  tk_type :: tok_type
  tk_text :: string
  tk_line :: nat

definition TOK_TEXT_MAX :: nat where [const_simps]: "TOK_TEXT_MAX = 2048"

definition kw_table :: "(string \<times> tok_type) list" where
  "kw_table = [(''spawn'', TOK_SPAWN), (''receive'', TOK_RECEIVE), (''send'', TOK_SEND), (''after'', TOK_AFTER),
     (''swarm'', TOK_SWARM), (''module'', TOK_MODULE), (''export'', TOK_EXPORT), (''fun'', TOK_FUN), (''when'', TOK_WHEN),
     (''case'', TOK_CASE), (''end'', TOK_END), (''if'', TOK_IF), (''else'', TOK_ELSE), (''self'', TOK_SELF),
     (''elsif'', TOK_ELSIF), (''for'', TOK_FOR), (''in'', TOK_IN), (''try'', TOK_TRY), (''catch'', TOK_CATCH),
     (''import'', TOK_IMPORT), (''true'', TOK_ATOM), (''false'', TOK_ATOM), (''nil'', TOK_ATOM)]"

definition keyword_type :: "string \<Rightarrow> tok_type" where
  "keyword_type w = (case map_of kw_table w of Some t \<Rightarrow> t | None \<Rightarrow> TOK_IDENT)"

definition op2_table :: "(string \<times> tok_type) list" where
  "op2_table = [(''->'', TOK_ARROW), (''=>'', TOK_FARROW), (''=='', TOK_EQ), (''!='', TOK_NEQ), (''<='', TOK_LE), (''>='', TOK_GE),
     (''|>'', TOK_PIPE), (''++'', TOK_CONCAT), (''&&'', TOK_AND), (''||'', TOK_OR), (''..'', TOK_DOTDOT)]"

definition op1_table :: "(char \<times> tok_type) list" where
  "op1_table = [(CHR ''='', TOK_ASSIGN), (CHR ''<'', TOK_LT), (CHR ''>'', TOK_GT), (CHR ''+'', TOK_PLUS), (CHR ''-'', TOK_MINUS),
     (CHR ''*'', TOK_STAR), (CHR ''/'', TOK_SLASH), (CHR ''('', TOK_LPAREN), (CHR '')'', TOK_RPAREN), (CHR ''{'', TOK_LBRACE),
     (CHR ''}'', TOK_RBRACE), (CHR ''['', TOK_LBRACKET), (CHR '']'', TOK_RBRACKET), (CHR '','', TOK_COMMA), (CHR ''.'', TOK_DOT),
     (CHR '':'', TOK_COLON), (CHR '';'', TOK_SEMI), (CHR ''|'', TOK_BAR), (CHR ''%'', TOK_PERCENT)]"

section \<open>Characters\<close>

definition is_alpha :: "char \<Rightarrow> bool" where
  "is_alpha c \<longleftrightarrow> (let n = (of_char c :: nat) in 65 \<le> n \<and> n \<le> 90 \<or> 97 \<le> n \<and> n \<le> 122)"

definition ident_start :: "char \<Rightarrow> bool" where
  "ident_start c \<longleftrightarrow> is_alpha c \<or> c = CHR ''_''"

definition ident_char :: "char \<Rightarrow> bool" where
  "ident_char c \<longleftrightarrow> is_alpha c \<or> is_digit c \<or> c = CHR ''_'' \<or> c = CHR ''?''"

definition is_blank :: "char \<Rightarrow> bool" where
  "is_blank c \<longleftrightarrow> c = CHR '' '' \<or> c = CHR 0x09 \<or> c = CHR 0x0D"

text \<open>Blanks and comments, then newlines, which \<^verbatim>\<open>lnext\<close> skips by calling itself.\<close>

function lskip :: "string \<Rightarrow> nat \<Rightarrow> string \<times> nat" where
  "lskip [] line = ([], line)"
| "lskip (c # s) line =
     (if is_blank c then lskip s line
      else if c = CHR ''#'' then lskip (dropWhile (\<lambda>d. d \<noteq> CHR 0x0A) s) line
      else if c = CHR 0x0A then lskip s (Suc line)
      else (c # s, line))"
  by pat_completeness auto
termination
  by (relation "measure (\<lambda>(s, line). length s)") (auto simp: less_Suc_eq_le length_dropWhile_le)

section \<open>Token bodies\<close>

datatype lex_fault = Lex_overflow | Lex_overrun

fun num_span :: "string \<Rightarrow> string \<times> string" where
  "num_span [] = ([], [])"
| "num_span (c # s) =
     (if is_digit c \<or> c = CHR ''.'' \<and> cur s \<noteq> CHR ''.'' then (case num_span s of (t, r) \<Rightarrow> (c # t, r)) else ([], c # s))"

definition str_escape :: "char \<Rightarrow> char" where
  "str_escape c =
     (if c = CHR ''n'' then CHR 0x0A else if c = CHR ''t'' then CHR 0x09 else if c = CHR ''r'' then CHR 0x0D
      else if c = CHR ''e'' then CHR 0x1B else if c = CHR ''0'' then CHR 0x00 else if c = CHR ''#'' then CHR 0x01 else c)"

text \<open>
  The body of a string after the opening quote: the text, how many newlines it holds and the rest. It stops at 2046
  characters. A backslash at the end of the source makes it step over the terminator.
\<close>

fun str_body :: "string \<Rightarrow> string \<Rightarrow> nat \<Rightarrow> (string \<times> nat \<times> string) option" where
  "str_body [] buf nl = Some (buf, nl, [])"
| "str_body (c # s) buf nl =
     (if c = CHR 0x22 \<or> \<not> length buf < TOK_TEXT_MAX - 2 then Some (buf, nl, c # s)
      else if c = CHR 0x5C then
        (case s of [] \<Rightarrow> None
         | d # s' \<Rightarrow> str_body s' (buf @ [str_escape d]) (if d = CHR 0x0A then Suc nl else nl))
      else str_body s (buf @ [c]) (if c = CHR 0x0A then Suc nl else nl))"

definition newlines :: "string \<Rightarrow> nat" where
  "newlines s = length (filter (\<lambda>c. c = CHR 0x0A) s)"

text \<open>The text of a token is read as a C string, so an escaped NUL in a string literal ends it.\<close>

definition c_text :: "string \<Rightarrow> string" where
  "c_text s = takeWhile (\<lambda>c. c \<noteq> CHR 0x00) s"

section \<open>The lexer\<close>

type_synonym lex = "string \<times> nat"

definition mk_tok :: "tok_type \<Rightarrow> string \<Rightarrow> nat \<Rightarrow> tok" where
  "mk_tok ty text line = \<lparr>tk_type = ty, tk_text = text, tk_line = line\<rparr>"

definition bounded_tok :: "tok_type \<Rightarrow> string \<Rightarrow> nat \<Rightarrow> lex \<Rightarrow> lex_fault + (tok \<times> lex)" where
  "bounded_tok ty text line l = (if length text < TOK_TEXT_MAX then Inr (mk_tok ty text line, l) else Inl Lex_overflow)"

definition lex_number :: "string \<Rightarrow> nat \<Rightarrow> lex_fault + (tok \<times> lex)" where
  "lex_number s line = (case num_span s of (t, r) \<Rightarrow> bounded_tok TOK_NUMBER t line (r, line))"

definition lex_string :: "string \<Rightarrow> nat \<Rightarrow> lex_fault + (tok \<times> lex)" where
  "lex_string s line =
     (case str_body (tl s) [] 0 of
        None \<Rightarrow> Inl Lex_overrun
      | Some (t, nl, r) \<Rightarrow> Inr (mk_tok TOK_STRING (c_text t) line, skip_char (CHR 0x22) r, line + nl))"

definition lex_atom :: "string \<Rightarrow> nat \<Rightarrow> lex_fault + (tok \<times> lex)" where
  "lex_atom s line =
     (let t = takeWhile (\<lambda>c. c \<noteq> CHR 0x27) (tl s); r = dropWhile (\<lambda>c. c \<noteq> CHR 0x27) (tl s)
      in bounded_tok TOK_ATOM t line (skip_char (CHR 0x27) r, line + newlines t))"

definition lex_ident :: "string \<Rightarrow> nat \<Rightarrow> lex_fault + (tok \<times> lex)" where
  "lex_ident s line =
     (let t = takeWhile ident_char s in bounded_tok (keyword_type t) t line (dropWhile ident_char s, line))"

definition lex_op :: "string \<Rightarrow> nat \<Rightarrow> tok \<times> lex" where
  "lex_op s line =
     (case map_of op2_table (take 2 s) of
        Some ty \<Rightarrow> (mk_tok ty (take 2 s) line, drop 2 s, line)
      | None \<Rightarrow> (mk_tok (case map_of op1_table (hd s) of Some ty \<Rightarrow> ty | None \<Rightarrow> TOK_EOF) [hd s] line, tl s, line))"

definition lnext :: "lex \<Rightarrow> lex_fault + (tok \<times> lex)" where
  "lnext l =
     (case lskip (fst l) (snd l) of
        ([], line) \<Rightarrow> Inr (mk_tok TOK_EOF [] line, [], line)
      | (c # s, line) \<Rightarrow>
          if is_digit c then lex_number (c # s) line
          else if c = CHR 0x22 then lex_string (c # s) line
          else if c = CHR 0x27 then lex_atom (c # s) line
          else if ident_start c then lex_ident (c # s) line
          else Inr (lex_op (c # s) line))"

section \<open>Progress\<close>

lemma lskip_length: "lskip s line = (r, line') \<Longrightarrow> length r \<le> length s"
proof (induction s line rule: lskip.induct)
  case (2 c s line)
  then show ?case
    using length_dropWhile_le [of "\<lambda>d. d \<noteq> CHR 0x0A" s] by (auto split: if_splits)
qed simp

lemma num_span_append: "num_span s = (t, r) \<Longrightarrow> s = t @ r"
  by (induction s arbitrary: t r) (auto split: if_splits prod.splits)

lemma num_span_ne: "is_digit c \<Longrightarrow> num_span (c # s) = (t, r) \<Longrightarrow> t \<noteq> []"
  by (auto split: prod.splits)

lemma str_body_length: "str_body s buf nl = Some (t, n, r) \<Longrightarrow> length t + length r \<le> length buf + length s"
proof (induction s buf nl rule: str_body.induct)
  case (2 c s buf nl)
  show ?case
  proof (cases "c = CHR 0x22 \<or> \<not> length buf < TOK_TEXT_MAX - 2")
    case True
    then show ?thesis using 2 by auto
  next
    case False
    then show ?thesis using 2 by (cases "c = CHR 0x5C"; cases s) auto
  qed
qed simp

text \<open>A token takes at least one character, and a string at least one more than its text holds.\<close>

definition tok_cost :: "tok \<Rightarrow> nat" where
  "tok_cost t = (if tk_type t = TOK_STRING then Suc (length (tk_text t)) else 1)"

lemma bounded_tokD:
  "bounded_tok ty text line l = Inr (t, l') \<Longrightarrow> t = mk_tok ty text line \<and> l' = l"
  by (simp add: bounded_tok_def split: if_splits)

lemma keyword_not_string: "keyword_type w \<noteq> TOK_STRING"
proof -
  have "t \<noteq> TOK_STRING" if "map_of kw_table w = Some t" for t
    using map_of_SomeD [OF that] by (auto simp: kw_table_def)
  then show ?thesis by (auto simp: keyword_type_def split: option.split)
qed

lemma op_not_string: "tk_type (fst (lex_op s line)) \<noteq> TOK_STRING"
proof -
  have "t \<noteq> TOK_STRING" if "map_of op2_table w = Some t" for t w
    using map_of_SomeD [OF that] by (auto simp: op2_table_def)
  moreover have "t \<noteq> TOK_STRING" if "map_of op1_table c = Some t" for t c
    using map_of_SomeD [OF that] by (auto simp: op1_table_def)
  ultimately show ?thesis by (auto simp: lex_op_def mk_tok_def split: option.split)
qed

lemma skip_char_le: "length (skip_char c r) \<le> length r"
  by (rule skip_char_length)

lemma lnext_progress:
  assumes "lnext (s, line) = Inr (t, s', line')" "fst (lskip s line) \<noteq> []"
  shows "tok_cost t + length s' \<le> length s"
proof -
  obtain c r l where sk: "lskip s line = (c # r, l)" using assms(2) by (cases "lskip s line"; cases "fst (lskip s line)") auto
  have le: "Suc (length r) \<le> length s" using lskip_length [OF sk] by simp
  consider (num) "is_digit c" | (str) "\<not> is_digit c" "c = CHR 0x22" | (atom) "\<not> is_digit c" "c = CHR 0x27"
    | (ident) "\<not> is_digit c" "c \<noteq> CHR 0x22" "c \<noteq> CHR 0x27" "ident_start c"
    | (op) "\<not> is_digit c" "c \<noteq> CHR 0x22" "c \<noteq> CHR 0x27" "\<not> ident_start c" by blast
  then show ?thesis
  proof cases
    case num
    obtain t1 r1 where sp: "num_span (c # r) = (t1, r1)" by (cases "num_span (c # r)")
    have "t = mk_tok TOK_NUMBER t1 l" "s' = r1"
      using assms(1) num sk sp by (auto simp: lnext_def lex_number_def dest!: bounded_tokD)
    moreover have "length r1 < length (c # r)" using num_span_append [OF sp] num_span_ne [OF num sp] by (cases t1) auto
    ultimately show ?thesis using le by (simp add: tok_cost_def mk_tok_def)
  next
    case str
    obtain t1 n r1 where sb: "str_body r [] 0 = Some (t1, n, r1)"
      using assms(1) str sk by (auto simp: lnext_def lex_string_def split: option.splits)
    have "t = mk_tok TOK_STRING (c_text t1) l" "s' = skip_char (CHR 0x22) r1"
      using assms(1) str sk sb by (auto simp: lnext_def lex_string_def)
    moreover have "length (c_text t1) \<le> length t1" by (simp add: c_text_def length_takeWhile_le)
    ultimately show ?thesis using le str_body_length [OF sb] skip_char_le [of "CHR 0x22" r1] by (simp add: tok_cost_def mk_tok_def)
  next
    case atom
    have "t = mk_tok TOK_ATOM (takeWhile (\<lambda>c. c \<noteq> CHR 0x27) r) l" "s' = skip_char (CHR 0x27) (dropWhile (\<lambda>c. c \<noteq> CHR 0x27) r)"
      using assms(1) atom sk by (auto simp: lnext_def lex_atom_def Let_def is_digit_def dest!: bounded_tokD)
    then show ?thesis using le skip_char_le [of "CHR 0x27" "dropWhile (\<lambda>c. c \<noteq> CHR 0x27) r"]
        length_dropWhile_le [of "\<lambda>c. c \<noteq> CHR 0x27" r] by (simp add: tok_cost_def mk_tok_def)
  next
    case ident
    have "ident_char c" using ident by (auto simp: ident_start_def ident_char_def)
    then have "t = mk_tok (keyword_type (takeWhile ident_char (c # r))) (takeWhile ident_char (c # r)) l" "s' = dropWhile ident_char r"
      using assms(1) ident sk by (auto simp: lnext_def lex_ident_def Let_def dest!: bounded_tokD)
    then show ?thesis using le length_dropWhile_le [of ident_char r] keyword_not_string by (simp add: tok_cost_def mk_tok_def)
  next
    case op
    have "(t, s', line') = lex_op (c # r) l" using assms(1) op sk by (simp add: lnext_def)
    then have "tk_type t \<noteq> TOK_STRING" "length s' \<le> length r"
      using op_not_string [of "c # r" l] by (auto simp: lex_op_def split: option.splits)
    then show ?thesis using le by (simp add: tok_cost_def)
  qed
qed

section \<open>All tokens of a text\<close>

text \<open>
  The tokens that repeated calls return up to the end of the text, where every call returns \<^const>\<open>TOK_EOF\<close>, or up to
  the call that leaves the token array or the text. A character that starts no token also gives \<^const>\<open>TOK_EOF\<close>, in the
  middle of the text.
\<close>

function lex_stream :: "string \<Rightarrow> nat \<Rightarrow> tok list \<times> lex_fault option" where
  "lex_stream s line =
     (if fst (lskip s line) = [] then ([], None)
      else case lnext (s, line) of
             Inl f \<Rightarrow> ([], Some f)
           | Inr (t, s', line') \<Rightarrow> (case lex_stream s' line' of (ts, f) \<Rightarrow> (t # ts, f)))"
  by pat_completeness auto
termination
proof (relation "measure (\<lambda>(s, line). length s)")
  fix s line x t sl s' line'
  assume "fst (lskip s line) \<noteq> []" "lnext (s, line) = Inr x" "(t, sl) = x" "(s', line') = sl"
  then have "tok_cost t + length s' \<le> length s" using lnext_progress by blast
  moreover have "0 < tok_cost t" by (simp add: tok_cost_def)
  ultimately show "((s', line'), (s, line)) \<in> measure (\<lambda>(s, line). length s)" by simp
qed simp

declare lex_stream.simps [simp del]

lemma lex_stream_cost: "sum_list (map tok_cost (fst (lex_stream s line))) \<le> length s"
proof (induction s line rule: lex_stream.induct)
  case (1 s line)
  show ?case
  proof (cases "fst (lskip s line) = [] \<or> (\<exists>f. lnext (s, line) = Inl f)")
    case True
    then show ?thesis by (auto simp: lex_stream.simps [of s])
  next
    case False
    then obtain t s' line' where n: "lnext (s, line) = Inr (t, s', line')" by (cases "lnext (s, line)") auto
    then show ?thesis using "1.IH" [OF _ n refl refl] lnext_progress [OF n] False
      by (cases "lex_stream s' line'") (simp add: lex_stream.simps [of s])
  qed
qed

text \<open>The same as a result: the tokens of a text that is lexed to its end.\<close>

definition tokens :: "string \<Rightarrow> nat \<Rightarrow> lex_fault + tok list" where
  "tokens s line = (case lex_stream s line of (ts, None) \<Rightarrow> Inr ts | (ts, Some f) \<Rightarrow> Inl f)"

lemma tokens_rec:
  "tokens s line =
     (if fst (lskip s line) = [] then Inr []
      else case lnext (s, line) of
             Inl f \<Rightarrow> Inl f
           | Inr (t, s', line') \<Rightarrow> (case tokens s' line' of Inl f \<Rightarrow> Inl f | Inr ts \<Rightarrow> Inr (t # ts)))"
  by (simp add: tokens_def lex_stream.simps [of s] split: sum.split prod.split option.split)

section \<open>Writing tokens\<close>

definition str_quote :: "char \<Rightarrow> string" where
  "str_quote c =
     (if c = CHR 0x0A then [CHR 0x5C, CHR ''n''] else if c = CHR 0x09 then [CHR 0x5C, CHR ''t'']
      else if c = CHR 0x0D then [CHR 0x5C, CHR ''r''] else if c = CHR 0x1B then [CHR 0x5C, CHR ''e'']
      else if c = CHR 0x01 then [CHR 0x5C, CHR ''#''] else if c = CHR 0x22 \<or> c = CHR 0x5C then [CHR 0x5C, c] else [c])"

definition spell :: "tok \<Rightarrow> string" where
  "spell t =
     (case tk_type t of
        TOK_STRING \<Rightarrow> CHR 0x22 # concat (map str_quote (tk_text t)) @ [CHR 0x22]
      | TOK_ATOM \<Rightarrow> CHR 0x27 # tk_text t @ [CHR 0x27]
      | _ \<Rightarrow> tk_text t)"

definition op_tok :: "tok \<Rightarrow> bool" where
  "op_tok t \<longleftrightarrow> (tk_text t, tk_type t) \<in> set op2_table \<or> (tk_text t, tk_type t) \<in> (\<lambda>(c, ty). ([c], ty)) ` set op1_table"

text \<open>The tokens that the lexer can return for a text that fits, apart from the end of the text.\<close>

definition wf_tok :: "tok \<Rightarrow> bool" where
  "wf_tok t \<longleftrightarrow>
     (case tk_type t of
        TOK_STRING \<Rightarrow> CHR 0x00 \<notin> set (tk_text t) \<and> length (tk_text t) \<le> TOK_TEXT_MAX - 2
      | TOK_ATOM \<Rightarrow> CHR 0x27 \<notin> set (tk_text t) \<and> CHR 0x0A \<notin> set (tk_text t) \<and> length (tk_text t) < TOK_TEXT_MAX
      | TOK_NUMBER \<Rightarrow> tk_text t \<noteq> [] \<and> is_digit (hd (tk_text t)) \<and> num_span (tk_text t @ '' '') = (tk_text t, '' '') \<and> length (tk_text t) < TOK_TEXT_MAX
      | _ \<Rightarrow> op_tok t \<or>
          tk_text t \<noteq> [] \<and> ident_start (hd (tk_text t)) \<and> (\<forall>c\<in>set (tk_text t). ident_char c)
            \<and> keyword_type (tk_text t) = tk_type t \<and> length (tk_text t) < TOK_TEXT_MAX)"

lemma str_quote_cases:
  assumes "c \<noteq> CHR 0x00"
  obtains "str_quote c = [c]" "c \<noteq> CHR 0x22" "c \<noteq> CHR 0x5C" "c \<noteq> CHR 0x0A" | d where "str_quote c = [CHR 0x5C, d]" "str_escape d = c" "d \<noteq> CHR 0x0A"
proof -
  consider "c = CHR 0x0A" | "c = CHR 0x09" | "c = CHR 0x0D" | "c = CHR 0x1B" | "c = CHR 0x01" | "c = CHR 0x22" | "c = CHR 0x5C"
    | "c \<noteq> CHR 0x0A" "c \<noteq> CHR 0x09" "c \<noteq> CHR 0x0D" "c \<noteq> CHR 0x1B" "c \<noteq> CHR 0x01" "c \<noteq> CHR 0x22" "c \<noteq> CHR 0x5C" by blast
  then show ?thesis
  proof cases
    case 1 then show ?thesis using that(2) [of "CHR ''n''"] by (simp add: str_quote_def str_escape_def)
  next
    case 2 then show ?thesis using that(2) [of "CHR ''t''"] by (simp add: str_quote_def str_escape_def)
  next
    case 3 then show ?thesis using that(2) [of "CHR ''r''"] by (simp add: str_quote_def str_escape_def)
  next
    case 4 then show ?thesis using that(2) [of "CHR ''e''"] by (simp add: str_quote_def str_escape_def)
  next
    case 5 then show ?thesis using that(2) [of "CHR ''#''"] by (simp add: str_quote_def str_escape_def)
  next
    case 6 then show ?thesis using that(2) [of "CHR 0x22"] by (simp add: str_quote_def str_escape_def)
  next
    case 7 then show ?thesis using that(2) [of "CHR 0x5C"] by (simp add: str_quote_def str_escape_def)
  next
    case 8 then show ?thesis using that(1) by (simp add: str_quote_def)
  qed
qed

lemma str_body_quoted:
  "CHR 0x00 \<notin> set s \<Longrightarrow> length buf + length s \<le> TOK_TEXT_MAX - 2 \<Longrightarrow>
   str_body (concat (map str_quote s) @ CHR 0x22 # r) buf nl = Some (buf @ s, nl, CHR 0x22 # r)"
proof (induction s arbitrary: buf)
  case (Cons c s)
  have IH: "str_body (concat (map str_quote s) @ CHR 0x22 # r) (buf @ [c]) nl = Some ((buf @ [c]) @ s, nl, CHR 0x22 # r)"
    using Cons by simp
  have "c \<noteq> CHR 0x00" using Cons.prems(1) by auto
  then show ?case
  proof (cases rule: str_quote_cases)
    case 1
    then show ?thesis using IH Cons.prems(2) by simp
  next
    case (2 d)
    then show ?thesis using IH Cons.prems(2) by simp
  qed
qed simp

lemma lskip_id: "\<not> is_blank c \<Longrightarrow> c \<noteq> CHR ''#'' \<Longrightarrow> c \<noteq> CHR 0x0A \<Longrightarrow> lskip (c # s) line = (c # s, line)"
  by simp

lemma num_span_space: "num_span (t @ '' '') = (t, '' '') \<Longrightarrow> num_span (t @ CHR '' '' # r) = (t, CHR '' '' # r)"
proof (induction t)
  case Nil
  then show ?case by (simp add: is_digit_def)
next
  case (Cons c t)
  have "cur (t @ '' '') = cur (t @ CHR '' '' # r)" by (cases t) (simp_all add: cur_def)
  then show ?case using Cons by (auto split: if_splits prod.splits)
qed

lemma ident_blank: "ident_char c \<Longrightarrow> \<not> is_blank c \<and> c \<noteq> CHR ''#'' \<and> c \<noteq> CHR 0x0A \<and> c \<noteq> CHR 0x22 \<and> c \<noteq> CHR 0x27"
  by (auto simp: ident_char_def is_blank_def is_alpha_def is_digit_def Let_def)

lemma ident_start_not_digit: "ident_start c \<Longrightarrow> \<not> is_digit c \<and> ident_char c"
  by (auto simp: ident_start_def ident_char_def is_alpha_def is_digit_def Let_def)

lemma lnext_ident:
  assumes "t \<noteq> []" "ident_start (hd t)" "\<forall>c\<in>set t. ident_char c" "length t < TOK_TEXT_MAX"
  shows "lnext (t @ CHR '' '' # r, line) = Inr (mk_tok (keyword_type t) t line, CHR '' '' # r, line)"
proof -
  obtain c u where t: "t = c # u" using assms(1) by (cases t) auto
  have c: "ident_char c" "\<not> is_digit c" using ident_start_not_digit assms(2) t by auto
  have "\<not> ident_char (CHR '' '')" by (simp add: ident_char_def is_alpha_def is_digit_def)
  then have "takeWhile ident_char (t @ CHR '' '' # r) = t" "dropWhile ident_char (t @ CHR '' '' # r) = CHR '' '' # r"
    using assms(3) by (simp_all add: takeWhile_append2 dropWhile_append2)
  then show ?thesis using ident_blank [OF c(1)] c assms(2,4) t
    by (simp add: lnext_def lex_ident_def Let_def bounded_tok_def)
qed

lemma lnext_number:
  assumes "t \<noteq> []" "is_digit (hd t)" "num_span (t @ '' '') = (t, '' '')" "length t < TOK_TEXT_MAX"
  shows "lnext (t @ CHR '' '' # r, line) = Inr (mk_tok TOK_NUMBER t line, CHR '' '' # r, line)"
proof -
  obtain c u where t: "t = c # u" using assms(1) by (cases t) auto
  have "ident_char c" "is_digit c" using assms(2) t by (simp_all add: ident_char_def)
  then show ?thesis using ident_blank [of c] assms(4) num_span_space [OF assms(3), of r] t
    by (simp add: lnext_def lex_number_def bounded_tok_def del: num_span.simps)
qed

lemma lnext_string:
  assumes "CHR 0x00 \<notin> set t" "length t \<le> TOK_TEXT_MAX - 2"
  shows "lnext (CHR 0x22 # concat (map str_quote t) @ CHR 0x22 # r, line) = Inr (mk_tok TOK_STRING t line, r, line)"
proof -
  have "c_text t = t" unfolding c_text_def takeWhile_eq_all_conv using assms(1) by auto
  then show ?thesis using str_body_quoted [of t "[]" r 0] assms
    by (simp add: lnext_def is_blank_def is_digit_def lex_string_def skip_char_def cur_def)
qed

lemma lnext_atom:
  assumes "CHR 0x27 \<notin> set t" "CHR 0x0A \<notin> set t" "length t < TOK_TEXT_MAX"
  shows "lnext (CHR 0x27 # t @ CHR 0x27 # r, line) = Inr (mk_tok TOK_ATOM t line, r, line)"
proof -
  have "\<forall>c\<in>set t. c \<noteq> CHR 0x27" using assms(1) by auto
  then have "takeWhile (\<lambda>c. c \<noteq> CHR 0x27) (t @ CHR 0x27 # r) = t" "dropWhile (\<lambda>c. c \<noteq> CHR 0x27) (t @ CHR 0x27 # r) = CHR 0x27 # r"
    by (simp_all add: takeWhile_append2 dropWhile_append2)
  moreover have "newlines t = 0" using assms(2) by (auto simp: newlines_def filter_empty_conv)
  ultimately show ?thesis using assms(3)
    by (simp add: lnext_def is_blank_def is_digit_def lex_atom_def Let_def bounded_tok_def skip_char_def cur_def)
qed

definition op_start :: "char \<Rightarrow> bool" where
  "op_start c \<longleftrightarrow> \<not> is_blank c \<and> c \<noteq> CHR ''#'' \<and> c \<noteq> CHR 0x0A \<and> \<not> is_digit c \<and> c \<noteq> CHR 0x22 \<and> c \<noteq> CHR 0x27 \<and> \<not> ident_start c"

lemma lnext_op: "op_start c \<Longrightarrow> lnext (c # s, line) = Inr (lex_op (c # s) line)"
  by (simp add: lnext_def op_start_def)

lemma op_tables:
  "\<forall>(w, ty)\<in>set op2_table. length w = 2 \<and> op_start (hd w) \<and> map_of op2_table w = Some ty"
  "\<forall>(c, ty)\<in>set op1_table. op_start c \<and> map_of op1_table c = Some ty \<and> map_of op2_table [c, CHR '' ''] = None"
  by code_simp+

lemma lnext_op_tok:
  assumes "op_tok t"
  shows "lnext (tk_text t @ CHR '' '' # r, tk_line t) = Inr (mk_tok (tk_type t) (tk_text t) (tk_line t), CHR '' '' # r, tk_line t)"
proof (cases "(tk_text t, tk_type t) \<in> set op2_table")
  case True
  then have f: "length (tk_text t) = 2" "op_start (hd (tk_text t))" "map_of op2_table (tk_text t) = Some (tk_type t)"
    using op_tables(1) by auto
  then obtain c d where "tk_text t = [c, d]" by (auto simp: numeral_2_eq_2 length_Suc_conv)
  then show ?thesis using f by (simp add: lnext_op lex_op_def)
next
  case False
  then obtain c where c: "tk_text t = [c]" "(c, tk_type t) \<in> set op1_table" using assms by (auto simp: op_tok_def)
  then have "op_start c" "map_of op1_table c = Some (tk_type t)" "map_of op2_table [c, CHR '' ''] = None"
    using op_tables(2) by auto
  then show ?thesis using c(1) by (simp add: lnext_op lex_op_def)
qed

lemma mk_tok_id: "mk_tok (tk_type t) (tk_text t) (tk_line t) = t"
  by (simp add: mk_tok_def)

lemma lnext_spell:
  assumes "wf_tok t"
  shows "lnext (spell t @ CHR '' '' # r, tk_line t) = Inr (t, CHR '' '' # r, tk_line t)"
proof -
  have op: "tk_type t \<notin> {TOK_STRING, TOK_ATOM, TOK_NUMBER}" if "op_tok t"
    using that by (auto simp: op_tok_def op1_table_def op2_table_def)
  consider (str) "tk_type t = TOK_STRING" | (atom) "tk_type t = TOK_ATOM" | (num) "tk_type t = TOK_NUMBER"
    | (rest) "tk_type t \<notin> {TOK_STRING, TOK_ATOM, TOK_NUMBER}" by auto
  then show ?thesis
  proof cases
    case str
    then show ?thesis using assms lnext_string [of "tk_text t" "CHR '' '' # r" "tk_line t"] mk_tok_id [of t]
      by (simp add: wf_tok_def spell_def)
  next
    case atom
    then show ?thesis using assms lnext_atom [of "tk_text t" "CHR '' '' # r" "tk_line t"] mk_tok_id [of t]
      by (simp add: wf_tok_def spell_def)
  next
    case num
    then show ?thesis using assms lnext_number [of "tk_text t" r "tk_line t"] mk_tok_id [of t]
      by (simp add: wf_tok_def spell_def)
  next
    case rest
    have sp: "spell t = tk_text t" using rest by (cases "tk_type t") (simp_all add: spell_def)
    have "op_tok t \<or> tk_text t \<noteq> [] \<and> ident_start (hd (tk_text t)) \<and> (\<forall>c\<in>set (tk_text t). ident_char c)
            \<and> keyword_type (tk_text t) = tk_type t \<and> length (tk_text t) < TOK_TEXT_MAX"
      using rest assms by (cases "tk_type t") (simp_all add: wf_tok_def)
    then show ?thesis
      using lnext_op_tok [of t r] lnext_ident [of "tk_text t" r "tk_line t"] mk_tok_id [of t] unfolding sp by auto
  qed
qed

lemma lskip_spell:
  assumes "wf_tok t"
  shows "fst (lskip (spell t @ CHR '' '' # r) (tk_line t)) \<noteq> []"
proof
  assume "fst (lskip (spell t @ CHR '' '' # r) (tk_line t)) = []"
  then obtain l where "lskip (spell t @ CHR '' '' # r) (tk_line t) = ([], l)"
    by (cases "lskip (spell t @ CHR '' '' # r) (tk_line t)") auto
  then show False using lnext_spell [OF assms, of r] by (simp add: lnext_def)
qed

lemma tokens_space: "tokens (CHR '' '' # s) line = tokens s line"
proof -
  have "lskip (CHR '' '' # s) line = lskip s line" by (simp add: is_blank_def)
  moreover have "lnext (CHR '' '' # s, line) = lnext (s, line)" by (simp add: lnext_def is_blank_def)
  ultimately show ?thesis by (simp add: tokens_rec [of "CHR '' '' # s"] tokens_rec [of s])
qed

lemma tokens_spell:
  assumes "\<forall>t\<in>set ts. wf_tok t \<and> tk_line t = line"
  shows "tokens (concat (map (\<lambda>t. spell t @ '' '') ts)) line = Inr ts"
  using assms
proof (induction ts)
  case Nil
  then show ?case by (simp add: tokens_rec)
next
  case (Cons t ts)
  let ?r = "concat (map (\<lambda>t. spell t @ '' '') ts)"
  have "lnext (spell t @ CHR '' '' # ?r, line) = Inr (t, CHR '' '' # ?r, line)"
    using lnext_spell [of t ?r] Cons.prems by simp
  moreover have "fst (lskip (spell t @ CHR '' '' # ?r) line) \<noteq> []" using lskip_spell [of t ?r] Cons.prems by simp
  moreover have "tokens ?r line = Inr ts" using Cons by simp
  ultimately show ?case by (simp add: tokens_rec [of "spell t @ _"] tokens_space)
qed

section \<open>Properties\<close>

text \<open>
  C22. Round trip of the lexer: any sequence of tokens, spelled with a blank after each (strings quoted and escaped,
  atoms in quotes), is read back exactly, up to the end of the text.
\<close>

theorem lexer_round_trip:
  assumes "\<forall>t\<in>set ts. wf_tok t \<and> tk_line t = 1"
  shows "tokens (concat (map (\<lambda>t. spell t @ '' '') ts)) 1 = Inr ts"
  using assms by (rule tokens_spell)

definition demo_toks :: "tok list" where
  "demo_toks = [mk_tok TOK_IDENT ''x'' 1, mk_tok TOK_ASSIGN ''='' 1, mk_tok TOK_NUMBER ''1.5'' 1, mk_tok TOK_DOTDOT ''..'' 1,
     mk_tok TOK_STRING [CHR ''a'', CHR 0x0A, CHR 0x22] 1, mk_tok TOK_ATOM ''true'' 1]"

theorem lexer_round_trip_witness: "tokens (concat (map (\<lambda>t. spell t @ '' '') demo_toks)) 1 = Inr demo_toks"
proof -
  have "\<forall>t\<in>set demo_toks. wf_tok t \<and> tk_line t = 1" by code_simp
  then show ?thesis by (rule lexer_round_trip)
qed

text \<open>
  A character that starts no token is reported as the end of the text, so what follows it is not compiled and no error
  is shown; and a backslash at the end of an open string makes the lexer read beyond the end of the source.
\<close>

theorem lexer_junk_is_eof:
  "map_sum id (map tk_type) (tokens ''1 @ 2'' 1) = Inr [TOK_NUMBER, TOK_EOF, TOK_NUMBER] \<and> tokens [CHR 0x22, CHR 0x5C] 1 = Inl Lex_overrun"
  by code_simp

end
