(* ===== verification/Lang_Parser.thy ===== *)
theory Lang_Parser
  imports Lang_Lexer
begin

text \<open>
  The parser of the \<^verbatim>\<open>.sw\<close> language, \<^verbatim>\<open>src/src/swarmrt_lang.c\<close>: recursive descent with one token of lookahead and
  backtracking, which goes on after an error and only remembers that there was one. Its position is the list of tokens
  that the lexer returns from there on, with the fault of the lexer that may wait at the end of the list. The functions call each other through \<open>rec\<close>, one argument per function of the
  source or loop in it; \<open>par_run\<close> ties the knot with a bound on the depth of calls.
\<close>

section \<open>Parser state\<close>

record par =
  p_toks :: "tok list"
  p_end :: "lex_fault option"
  p_err :: bool

definition par_init :: "string \<Rightarrow> par" where
  "par_init src = (case lex_stream src 1 of (ts, f) \<Rightarrow> \<lparr>p_toks = ts, p_end = f, p_err = False\<rparr>)"

definition p_cur :: "par \<Rightarrow> tok" where
  "p_cur p = (case p_toks p of [] \<Rightarrow> mk_tok TOK_EOF [] 0 | t # _ \<Rightarrow> t)"

definition p_type :: "par \<Rightarrow> tok_type" where
  "p_type p = tk_type (p_cur p)"

definition par_adv :: "par \<Rightarrow> par" where
  "par_adv p = p\<lparr>p_toks := tl (p_toks p)\<rparr>"

definition set_err :: "par \<Rightarrow> par" where
  "set_err p = p\<lparr>p_err := True\<rparr>"

definition par_expect :: "tok_type \<Rightarrow> par \<Rightarrow> par" where
  "par_expect ty p = (if p_type p = ty then par_adv p else set_err p)"

text \<open>Faults: those of the lexer on the text inside a string, and a write past the 16 parameters of a function.\<close>

datatype par_fault = Par_lex lex_fault | Par_params

type_synonym pres = "(par_fault + (node \<times> par)) option"

text \<open>
  A function that has run into the place where the lexer faults does not return. (Having got there it sees no further
  tokens, so that no fault of its own can come in between.)
\<close>

definition ret :: "node \<Rightarrow> par \<Rightarrow> pres" where
  "ret x p = (case p_end p of Some f \<Rightarrow> if p_toks p = [] then Some (Inl (Par_lex f)) else Some (Inr (x, p))
              | None \<Rightarrow> Some (Inr (x, p)))"

definition bindp :: "pres \<Rightarrow> (node \<Rightarrow> par \<Rightarrow> pres) \<Rightarrow> pres" where
  "bindp r k = (case r of None \<Rightarrow> None | Some (Inl f) \<Rightarrow> Some (Inl f) | Some (Inr (x, p)) \<Rightarrow> k x p)"

text \<open>
  The functions and loops. Loops carry what they have built; a list of nodes is returned as \<^const>\<open>N_LIST\<close>, the entries
  of a map as \<^const>\<open>N_MAP\<close>, parameters as \<^const>\<open>N_FUN\<close>, clauses as \<^const>\<open>N_RECEIVE\<close>.
\<close>

datatype nt =
    NT_primary
  | NT_mul | NT_mul_loop node
  | NT_add | NT_add_loop node
  | NT_range
  | NT_cmp | NT_cmp_loop node
  | NT_logic | NT_logic_loop node
  | NT_pipe | NT_pipe_loop node
  | NT_stmt
  | NT_block "node list"
  | NT_args "node list"
  | NT_items "node list"
  | NT_entries "(node \<times> node) list"
  | NT_params bool "(string \<times> node option) list"
  | NT_clauses "(node \<times> node option \<times> node) list"
  | NT_body "node list"
  | NT_interp string nat "node option"
  | NT_funs "node list"

type_synonym prec = "nt \<Rightarrow> par \<Rightarrow> pres"

fun list_of :: "node \<Rightarrow> node list" where
  "list_of (N_LIST xs) = xs"
| "list_of _ = []"

fun entries_of :: "node \<Rightarrow> (node \<times> node) list" where
  "entries_of (N_MAP es) = es"
| "entries_of _ = []"

fun params_of :: "node \<Rightarrow> (string \<times> node option) list" where
  "params_of (N_FUN _ ps _) = ps"
| "params_of _ = []"

fun clauses_of :: "node \<Rightarrow> (node \<times> node option \<times> node) list" where
  "clauses_of (N_RECEIVE cs _ _) = cs"
| "clauses_of _ = []"

section \<open>String interpolation\<close>

definition restore_hash :: "string \<Rightarrow> string" where
  "restore_hash s = map (\<lambda>c. if c = CHR 0x01 then CHR ''#'' else c) s"

text \<open>\<^verbatim>\<open>strstr (s, "#{")\<close>: what is before and behind its first occurrence.\<close>

fun find_interp :: "string \<Rightarrow> (string \<times> string) option" where
  "find_interp [] = None"
| "find_interp (c # s) =
     (if c = CHR ''#'' \<and> cur s = CHR ''{'' then Some ([], tl s) else map_option (\<lambda>(a, b). (c # a, b)) (find_interp s))"

text \<open>The text up to the matching brace, and the rest from that brace on.\<close>

fun brace_end :: "nat \<Rightarrow> string \<Rightarrow> string \<times> string" where
  "brace_end depth [] = ([], [])"
| "brace_end depth (c # s) =
     (let d = (if c = CHR ''{'' then Suc depth else if c = CHR ''}'' then depth - 1 else depth)
      in if d = 0 then ([], c # s) else (case brace_end d s of (a, b) \<Rightarrow> (c # a, b)))"

definition cat_node :: "node option \<Rightarrow> node \<Rightarrow> node" where
  "cat_node res x = (case res of None \<Rightarrow> x | Some r \<Rightarrow> N_BINOP r x ''++'')"

definition par_interp :: "prec \<Rightarrow> string \<Rightarrow> nat \<Rightarrow> node option \<Rightarrow> par \<Rightarrow> pres" where
  "par_interp rec s line res p =
     (if s = [] then ret (case res of None \<Rightarrow> N_STRING [] | Some r \<Rightarrow> r) p
      else case find_interp s of
             None \<Rightarrow> ret (cat_node res (N_STRING s)) p
           | Some (front, rest) \<Rightarrow>
               let res = (if front \<noteq> [] then Some (cat_node res (N_STRING (restore_hash front))) else res);
                   (inner, rest) = brace_end 1 rest
               in bindp (rec NT_pipe (par_init inner))
                    (\<lambda>e ep. rec (NT_interp (tl rest) line (Some (cat_node res (N_CALL line ''to_string'' [e])))) p))"

section \<open>Primary expressions\<close>

text \<open>\<open>atof\<close> and the conversion of a double to an integer are arguments, as in the evaluator.\<close>

record num_ops =
  n_atof :: "string \<Rightarrow> double"
  n_to_int :: "double \<Rightarrow> int64"

definition par_number :: "num_ops \<Rightarrow> par \<Rightarrow> pres" where
  "par_number ops p =
     (let text = tk_text (p_cur p)
      in if CHR ''.'' \<in> set text then ret (N_FLOAT (n_atof ops text)) (par_adv p)
         else ret (N_INT (n_to_int ops (n_atof ops text))) (par_adv p))"

definition par_string :: "prec \<Rightarrow> par \<Rightarrow> pres" where
  "par_string rec p =
     (let t = p_cur p
      in if find_interp (tk_text t) \<noteq> None then rec (NT_interp (tk_text t) (tk_line t) None) (par_adv p)
         else ret (N_STRING (restore_hash (tk_text t))) (par_adv p))"

definition par_self :: "par \<Rightarrow> pres" where
  "par_self p =
     (let p = par_adv p in ret N_SELF (if p_type p = TOK_LPAREN then par_expect TOK_RPAREN (par_adv p) else p))"

text \<open>The arguments of a call, after its opening parenthesis.\<close>

definition par_call :: "prec \<Rightarrow> nat \<Rightarrow> string \<Rightarrow> par \<Rightarrow> pres" where
  "par_call rec line fname p =
     (if p_type p = TOK_RPAREN then ret (N_CALL line fname []) (par_expect TOK_RPAREN p)
      else bindp (rec (NT_args []) p) (\<lambda>args p. ret (N_CALL line fname (list_of args)) (par_expect TOK_RPAREN p)))"

definition par_ident :: "prec \<Rightarrow> par \<Rightarrow> pres" where
  "par_ident rec p =
     (let t = p_cur p; p = par_adv p
      in if p_type p = TOK_DOT then
           (let p = par_adv p; fname = p_cur p; p = par_expect TOK_IDENT p
            in if p_type p = TOK_LPAREN then par_call rec (tk_line t) (take 255 (tk_text t @ ''.'' @ tk_text fname)) (par_adv p)
               else ret (N_CALL (tk_line t) ''map_get'' [N_IDENT (tk_text t), N_ATOM (tk_text fname)]) p)
         else if p_type p = TOK_LPAREN then par_call rec (tk_line t) (tk_text t) (par_adv p)
         else ret (N_IDENT (tk_text t)) p)"

text \<open>A block in braces.\<close>

definition braced :: "prec \<Rightarrow> par \<Rightarrow> (node \<Rightarrow> par \<Rightarrow> pres) \<Rightarrow> pres" where
  "braced rec p k =
     bindp (rec (NT_block []) (par_expect TOK_LBRACE p)) (\<lambda>b p. k (N_BLOCK (list_of b)) (par_expect TOK_RBRACE p))"

definition par_anon_fun :: "prec \<Rightarrow> par \<Rightarrow> pres" where
  "par_anon_fun rec p =
     (let p = par_adv p
      in if p_type p = TOK_LPAREN then
           (let p = par_adv p
            in bindp (if p_type p = TOK_RPAREN then ret (N_FUN [] [] (N_BLOCK [])) p else rec (NT_params False []) p)
                 (\<lambda>ps p. braced rec (par_expect TOK_RPAREN p) (\<lambda>body. ret (N_FUN [] (params_of ps) body))))
         else ret (N_INT 0) (set_err p))"

definition par_for :: "prec \<Rightarrow> par \<Rightarrow> pres" where
  "par_for rec p =
     (let p = par_adv p; var = p_cur p; p = par_expect TOK_IN (par_expect TOK_IDENT p)
      in bindp (rec NT_pipe p) (\<lambda>iter p. braced rec p (\<lambda>body. ret (N_FOR (strncpy (tk_text var) 127) iter body))))"

definition par_try :: "prec \<Rightarrow> par \<Rightarrow> pres" where
  "par_try rec p =
     braced rec (par_adv p) (\<lambda>try_body p.
       let p = par_expect TOK_CATCH p; err_var = p_cur p
       in braced rec (par_expect TOK_IDENT p) (\<lambda>catch_body. ret (N_TRY try_body (strncpy (tk_text err_var) 127) catch_body)))"

definition par_spawn :: "prec \<Rightarrow> par \<Rightarrow> pres" where
  "par_spawn rec p =
     bindp (rec NT_pipe (par_expect TOK_LPAREN (par_adv p))) (\<lambda>e p. ret (N_SPAWN e) (par_expect TOK_RPAREN p))"

definition par_send :: "prec \<Rightarrow> par \<Rightarrow> pres" where
  "par_send rec p =
     bindp (rec NT_pipe (par_expect TOK_LPAREN (par_adv p))) (\<lambda>to p.
       bindp (rec NT_pipe (par_expect TOK_COMMA p)) (\<lambda>msg p. ret (N_SEND to msg) (par_expect TOK_RPAREN p)))"

definition clause_stop :: "par \<Rightarrow> bool" where
  "clause_stop p \<longleftrightarrow> p_type p = TOK_RBRACE \<or> p_type p = TOK_AFTER \<or> p_type p = TOK_EOF"

text \<open>
  The statements of a clause, up to one that an arrow follows: that one was the pattern of the next clause, and the
  parser goes back to its start, the error flag included.
\<close>

definition par_body :: "prec \<Rightarrow> node list \<Rightarrow> par \<Rightarrow> pres" where
  "par_body rec stmts p =
     (if clause_stop p \<or> p_err p then ret (N_LIST stmts) p
      else bindp (rec NT_stmt p) (\<lambda>e p'. if p_type p' = TOK_ARROW then ret (N_LIST stmts) p else rec (NT_body (stmts @ [e])) p'))"

definition clause_body :: "node list \<Rightarrow> node" where
  "clause_body stmts = (case stmts of [s] \<Rightarrow> s | _ \<Rightarrow> N_BLOCK stmts)"

definition par_clauses :: "prec \<Rightarrow> (node \<times> node option \<times> node) list \<Rightarrow> par \<Rightarrow> pres" where
  "par_clauses rec cs p =
     (if clause_stop p then ret (N_RECEIVE cs None (-1)) p
      else bindp (rec NT_pipe p) (\<lambda>pat p.
        let fin = (\<lambda>guard p. bindp (rec (NT_body []) (par_expect TOK_ARROW p))
                     (\<lambda>b p. rec (NT_clauses (cs @ [(pat, guard, clause_body (list_of b))])) p))
        in if p_type p = TOK_WHEN then bindp (rec NT_pipe (par_adv p)) (\<lambda>g p. fin (Some g) p) else fin None p))"

definition after_ms :: "node \<Rightarrow> int" where
  "after_ms n = (case n of N_INT i \<Rightarrow> sint (ucast i :: 32 word) | _ \<Rightarrow> -1)"

definition par_receive :: "prec \<Rightarrow> par \<Rightarrow> pres" where
  "par_receive rec p =
     bindp (rec (NT_clauses []) (par_expect TOK_LBRACE (par_adv p))) (\<lambda>cs p.
       if p_type p = TOK_AFTER then
         bindp (rec NT_pipe (par_adv p)) (\<lambda>tmo p.
           bindp (rec NT_pipe (par_expect TOK_LBRACE p)) (\<lambda>b p.
             ret (N_RECEIVE (clauses_of cs) (Some b) (after_ms tmo)) (par_expect TOK_RBRACE (par_expect TOK_RBRACE p))))
       else ret (N_RECEIVE (clauses_of cs) None (-1)) (par_expect TOK_RBRACE p))"

definition as_if :: "par \<Rightarrow> par" where
  "as_if p = p\<lparr>p_toks := (case p_toks p of [] \<Rightarrow> [] | t # ts \<Rightarrow> t\<lparr>tk_type := TOK_IF\<rparr> # ts)\<rparr>"

definition par_if :: "prec \<Rightarrow> par \<Rightarrow> pres" where
  "par_if rec p =
     bindp (rec NT_pipe (par_expect TOK_LPAREN (par_adv p))) (\<lambda>cnd p.
       braced rec (par_expect TOK_RPAREN p) (\<lambda>th p.
         if p_type p = TOK_ELSE then
           (let p = par_adv p
            in if p_type p = TOK_IF then bindp (rec NT_primary p) (\<lambda>el. ret (N_IF cnd th (Some el)))
               else braced rec p (\<lambda>el. ret (N_IF cnd th (Some el))))
         else if p_type p = TOK_ELSIF then bindp (rec NT_primary (as_if p)) (\<lambda>el. ret (N_IF cnd th (Some el)))
         else ret (N_IF cnd th None) p))"

text \<open>The entries of a map literal: a shorthand key, a literal key or an expression with an arrow.\<close>

definition par_entry_rest :: "prec \<Rightarrow> (node \<times> node) list \<Rightarrow> node \<Rightarrow> par \<Rightarrow> pres" where
  "par_entry_rest rec es key p =
     bindp (rec NT_pipe p) (\<lambda>val p.
       if p_type p = TOK_COMMA then rec (NT_entries (es @ [(key, val)])) (par_adv p) else ret (N_MAP (es @ [(key, val)])) p)"

definition par_entries :: "prec \<Rightarrow> (node \<times> node) list \<Rightarrow> par \<Rightarrow> pres" where
  "par_entries rec es p =
     (if p_type p = TOK_IDENT \<and> p_type (par_adv p) = TOK_COLON then
        par_entry_rest rec es (N_ATOM (tk_text (p_cur p))) (par_adv (par_adv p))
      else bindp (rec (if p_type p = TOK_STRING \<or> p_type p = TOK_ATOM then NT_primary else NT_pipe) p)
             (\<lambda>key p. par_entry_rest rec es key (par_expect TOK_FARROW p)))"

definition par_map :: "prec \<Rightarrow> par \<Rightarrow> pres" where
  "par_map rec p =
     (let p = par_expect TOK_LBRACE (par_adv p)
      in if p_type p = TOK_RBRACE then ret (N_MAP []) (par_expect TOK_RBRACE p)
         else bindp (rec (NT_entries []) p) (\<lambda>m p. ret (N_MAP (entries_of m)) (par_expect TOK_RBRACE p)))"

definition par_tuple :: "prec \<Rightarrow> par \<Rightarrow> pres" where
  "par_tuple rec p =
     (let p = par_adv p
      in if p_type p = TOK_RBRACE then ret (N_TUPLE []) (par_expect TOK_RBRACE p)
         else bindp (rec (NT_args []) p) (\<lambda>xs p. ret (N_TUPLE (list_of xs)) (par_expect TOK_RBRACE p)))"

definition par_list :: "prec \<Rightarrow> par \<Rightarrow> pres" where
  "par_list rec p =
     (let p = par_adv p
      in if p_type p = TOK_RBRACKET then ret (N_LIST []) (par_adv p)
         else bindp (rec NT_pipe p) (\<lambda>first p.
           if p_type p = TOK_BAR then bindp (rec NT_pipe (par_adv p)) (\<lambda>tail p. ret (N_LIST_CONS first tail) (par_expect TOK_RBRACKET p))
           else bindp (rec (NT_items [first]) p) (\<lambda>xs p. ret (N_LIST (list_of xs)) (par_expect TOK_RBRACKET p))))"

definition par_items :: "prec \<Rightarrow> node list \<Rightarrow> par \<Rightarrow> pres" where
  "par_items rec xs p =
     (if p_type p = TOK_COMMA then bindp (rec NT_pipe (par_adv p)) (\<lambda>x p. rec (NT_items (xs @ [x])) p) else ret (N_LIST xs) p)"

definition par_group :: "prec \<Rightarrow> par \<Rightarrow> pres" where
  "par_group rec p = bindp (rec NT_pipe (par_adv p)) (\<lambda>e p. ret e (par_expect TOK_RPAREN p))"

definition par_neg :: "prec \<Rightarrow> par \<Rightarrow> pres" where
  "par_neg rec p = bindp (rec NT_primary (par_adv p)) (\<lambda>e p. ret (N_UNARY e (CHR ''-'')) p)"

definition par_primary :: "num_ops \<Rightarrow> prec \<Rightarrow> par \<Rightarrow> pres" where
  "par_primary ops rec p =
     (case p_type p of
        TOK_NUMBER \<Rightarrow> par_number ops p
      | TOK_STRING \<Rightarrow> par_string rec p
      | TOK_ATOM \<Rightarrow> ret (N_ATOM (tk_text (p_cur p))) (par_adv p)
      | TOK_SELF \<Rightarrow> par_self p
      | TOK_IDENT \<Rightarrow> par_ident rec p
      | TOK_FUN \<Rightarrow> par_anon_fun rec p
      | TOK_FOR \<Rightarrow> par_for rec p
      | TOK_TRY \<Rightarrow> par_try rec p
      | TOK_SPAWN \<Rightarrow> par_spawn rec p
      | TOK_SEND \<Rightarrow> par_send rec p
      | TOK_RECEIVE \<Rightarrow> par_receive rec p
      | TOK_IF \<Rightarrow> par_if rec p
      | TOK_PERCENT \<Rightarrow> par_map rec p
      | TOK_LBRACE \<Rightarrow> par_tuple rec p
      | TOK_LBRACKET \<Rightarrow> par_list rec p
      | TOK_LPAREN \<Rightarrow> par_group rec p
      | TOK_MINUS \<Rightarrow> par_neg rec p
      | _ \<Rightarrow> ret (N_ATOM []) (par_adv (set_err p)))"

section \<open>Operators\<close>

text \<open>The loops of the left-associative levels: an operator of the level, then its right operand.\<close>

definition bin_loop :: "tok_type list \<Rightarrow> nt \<Rightarrow> (node \<Rightarrow> nt) \<Rightarrow> prec \<Rightarrow> node \<Rightarrow> par \<Rightarrow> pres" where
  "bin_loop ops sub loop rec left p =
     (if p_type p \<in> set ops
      then bindp (rec sub (par_adv p)) (\<lambda>right p'. rec (loop (N_BINOP left right (strncpy (tk_text (p_cur p)) 3))) p')
      else ret left p)"

definition mul_ops :: "tok_type list" where "mul_ops = [TOK_STAR, TOK_SLASH]"
definition add_ops :: "tok_type list" where "add_ops = [TOK_PLUS, TOK_MINUS, TOK_CONCAT]"
definition cmp_ops :: "tok_type list" where "cmp_ops = [TOK_EQ, TOK_NEQ, TOK_LT, TOK_GT, TOK_LE, TOK_GE]"
definition logic_ops :: "tok_type list" where "logic_ops = [TOK_AND, TOK_OR]"

definition par_mul :: "prec \<Rightarrow> par \<Rightarrow> pres" where
  "par_mul rec p = bindp (rec NT_primary p) (\<lambda>left p. rec (NT_mul_loop left) p)"

definition par_add :: "prec \<Rightarrow> par \<Rightarrow> pres" where
  "par_add rec p = bindp (rec NT_mul p) (\<lambda>left p. rec (NT_add_loop left) p)"

definition par_range :: "prec \<Rightarrow> par \<Rightarrow> pres" where
  "par_range rec p =
     bindp (rec NT_add p) (\<lambda>left p.
       if p_type p = TOK_DOTDOT then bindp (rec NT_add (par_adv p)) (\<lambda>right. ret (N_RANGE left right)) else ret left p)"

definition par_cmp :: "prec \<Rightarrow> par \<Rightarrow> pres" where
  "par_cmp rec p = bindp (rec NT_range p) (\<lambda>left p. rec (NT_cmp_loop left) p)"

definition par_logic :: "prec \<Rightarrow> par \<Rightarrow> pres" where
  "par_logic rec p = bindp (rec NT_cmp p) (\<lambda>left p. rec (NT_logic_loop left) p)"

definition par_pipe :: "prec \<Rightarrow> par \<Rightarrow> pres" where
  "par_pipe rec p = bindp (rec NT_logic p) (\<lambda>left p. rec (NT_pipe_loop left) p)"

definition par_pipe_loop :: "prec \<Rightarrow> node \<Rightarrow> par \<Rightarrow> pres" where
  "par_pipe_loop rec left p =
     (if p_type p = TOK_PIPE then
        (let p = par_adv p; line = tk_line (p_cur p)
         in bindp (rec NT_logic p) (\<lambda>f p. rec (NT_pipe_loop (N_PIPE line left f)) p))
      else ret left p)"

section \<open>Statements, functions, modules\<close>

definition par_stmt :: "prec \<Rightarrow> par \<Rightarrow> pres" where
  "par_stmt rec p =
     (if p_type p = TOK_IDENT \<and> p_type (par_adv p) = TOK_ASSIGN then
        bindp (rec NT_pipe (par_adv (par_adv p))) (\<lambda>v. ret (N_ASSIGN (strncpy (tk_text (p_cur p)) 127) v))
      else rec NT_pipe p)"

definition par_block :: "prec \<Rightarrow> node list \<Rightarrow> par \<Rightarrow> pres" where
  "par_block rec stmts p =
     (if p_type p = TOK_RBRACE \<or> p_type p = TOK_EOF \<or> p_err p then ret (N_LIST stmts) p
      else bindp (rec NT_stmt p) (\<lambda>s p. rec (NT_block (stmts @ [s])) p))"

definition par_args :: "prec \<Rightarrow> node list \<Rightarrow> par \<Rightarrow> pres" where
  "par_args rec xs p =
     bindp (rec NT_pipe p) (\<lambda>x p. if p_type p = TOK_COMMA then rec (NT_args (xs @ [x])) (par_adv p) else ret (N_LIST (xs @ [x])) p)"

text \<open>Parameters; only those of named functions may have defaults. There is room for 16 names.\<close>

definition par_params :: "prec \<Rightarrow> bool \<Rightarrow> (string \<times> node option) list \<Rightarrow> par \<Rightarrow> pres" where
  "par_params rec defaults ps p =
     (if 16 \<le> length ps then Some (Inl Par_params)
      else let name = strncpy (tk_text (p_cur p)) 127;
               p = par_expect TOK_IDENT p;
               more = (\<lambda>d p. if p_type p = TOK_COMMA then rec (NT_params defaults (ps @ [(name, d)])) (par_adv p)
                              else ret (N_FUN [] (ps @ [(name, d)]) (N_BLOCK [])) p)
           in if defaults \<and> p_type p = TOK_ASSIGN then bindp (rec NT_pipe (par_adv p)) (\<lambda>d p. more (Some d) p)
              else more None p)"

definition par_fun :: "prec \<Rightarrow> par \<Rightarrow> pres" where
  "par_fun rec p =
     (let p = par_expect TOK_FUN p; name = p_cur p; p = par_expect TOK_LPAREN (par_expect TOK_IDENT p)
      in bindp (if p_type p = TOK_RPAREN then ret (N_FUN [] [] (N_BLOCK [])) p else rec (NT_params True []) p)
           (\<lambda>ps p. braced rec (par_expect TOK_RPAREN p) (\<lambda>body. ret (N_FUN (strncpy (tk_text name) 127) (params_of ps) body))))"

definition par_funs :: "prec \<Rightarrow> node list \<Rightarrow> par \<Rightarrow> pres" where
  "par_funs rec fs p =
     (if p_type p = TOK_FUN \<and> \<not> p_err p then bindp (par_fun rec p) (\<lambda>f p. rec (NT_funs (fs @ [f])) p) else ret (N_LIST fs) p)"

section \<open>The knot\<close>

definition par_step :: "num_ops \<Rightarrow> prec \<Rightarrow> prec" where
  "par_step ops rec nt =
     (case nt of
        NT_primary \<Rightarrow> par_primary ops rec
      | NT_mul \<Rightarrow> par_mul rec | NT_mul_loop l \<Rightarrow> bin_loop mul_ops NT_primary NT_mul_loop rec l
      | NT_add \<Rightarrow> par_add rec | NT_add_loop l \<Rightarrow> bin_loop add_ops NT_mul NT_add_loop rec l
      | NT_range \<Rightarrow> par_range rec
      | NT_cmp \<Rightarrow> par_cmp rec | NT_cmp_loop l \<Rightarrow> bin_loop cmp_ops NT_range NT_cmp_loop rec l
      | NT_logic \<Rightarrow> par_logic rec | NT_logic_loop l \<Rightarrow> bin_loop logic_ops NT_cmp NT_logic_loop rec l
      | NT_pipe \<Rightarrow> par_pipe rec | NT_pipe_loop l \<Rightarrow> par_pipe_loop rec l
      | NT_stmt \<Rightarrow> par_stmt rec
      | NT_block ss \<Rightarrow> par_block rec ss
      | NT_args xs \<Rightarrow> par_args rec xs
      | NT_items xs \<Rightarrow> par_items rec xs
      | NT_entries es \<Rightarrow> par_entries rec es
      | NT_params d ps \<Rightarrow> par_params rec d ps
      | NT_clauses cs \<Rightarrow> par_clauses rec cs
      | NT_body ss \<Rightarrow> par_body rec ss
      | NT_interp s line res \<Rightarrow> par_interp rec s line res
      | NT_funs fs \<Rightarrow> par_funs rec fs)"

primrec par_run :: "num_ops \<Rightarrow> nat \<Rightarrow> prec" where
  "par_run ops 0 = (\<lambda>_ _. None)"
| "par_run ops (Suc n) = par_step ops (par_run ops n)"

section \<open>Parsing always ends\<close>

text \<open>
  The size of what is left: its tokens, with a string counting its characters, since these may be parsed too. A call
  needs depth for the size of its position and for its place in the order of the levels.
\<close>

definition p_cost :: "par \<Rightarrow> nat" where
  "p_cost p = sum_list (map tok_cost (p_toks p))"

fun nt_size :: "nt \<Rightarrow> nat" where
  "nt_size (NT_interp s _ _) = length s"
| "nt_size _ = 0"

fun nt_rank :: "nt \<Rightarrow> nat" where
  "nt_rank NT_primary = 1" | "nt_rank NT_mul = 2" | "nt_rank NT_add = 3" | "nt_rank NT_range = 4" | "nt_rank NT_cmp = 5"
| "nt_rank NT_logic = 6" | "nt_rank NT_pipe = 7" | "nt_rank NT_stmt = 8"
| "nt_rank (NT_block _) = 9" | "nt_rank (NT_args _) = 9" | "nt_rank (NT_entries _) = 9" | "nt_rank (NT_clauses _) = 9"
| "nt_rank (NT_body _) = 9" | "nt_rank (NT_params _ _) = 9" | "nt_rank (NT_funs _) = 10"
| "nt_rank _ = 1"

definition need :: "nt \<Rightarrow> par \<Rightarrow> nat" where
  "need nt p = 16 * (nt_size nt + p_cost p) + nt_rank nt"

text \<open>The calls that take at least one token when there is one.\<close>

fun eats :: "nt \<Rightarrow> bool" where
  "eats NT_primary = True" | "eats NT_mul = True" | "eats NT_add = True" | "eats NT_range = True" | "eats NT_cmp = True"
| "eats NT_logic = True" | "eats NT_pipe = True" | "eats NT_stmt = True" | "eats _ = False"

definition runs :: "(par \<Rightarrow> bool) \<Rightarrow> pres \<Rightarrow> bool" where
  "runs Q r \<longleftrightarrow> (case r of None \<Rightarrow> False | Some (Inl f) \<Rightarrow> True | Some (Inr (x, p)) \<Rightarrow> Q p)"

definition shrinks :: "nt \<Rightarrow> par \<Rightarrow> par \<Rightarrow> bool" where
  "shrinks nt p p' \<longleftrightarrow> p_cost p' \<le> p_cost p \<and> (eats nt \<and> p_toks p \<noteq> [] \<longrightarrow> p_cost p' < p_cost p)"

definition good_rec :: "nat \<Rightarrow> prec \<Rightarrow> bool" where
  "good_rec n rec \<longleftrightarrow> (\<forall>nt p. need nt p \<le> n \<longrightarrow> runs (shrinks nt p) (rec nt p))"

lemma good_recD: "good_rec n rec \<Longrightarrow> need nt p \<le> n \<Longrightarrow> runs (shrinks nt p) (rec nt p)"
  by (simp add: good_rec_def)

lemma runs_ret [simp, intro!]: "Q p \<Longrightarrow> runs Q (ret x p)"
  by (simp add: runs_def ret_def split: option.split)

lemma runs_bind: "runs P r \<Longrightarrow> (\<And>x p. P p \<Longrightarrow> runs Q (k x p)) \<Longrightarrow> runs Q (bindp r k)"
proof (cases r)
  case (Some a)
  assume "runs P r" "\<And>x p. P p \<Longrightarrow> runs Q (k x p)"
  then show "runs Q (bindp r k)" using Some
    by (cases a) (auto simp: runs_def [of P] runs_def [of Q "Some (Inl _)"] bindp_def)
qed (simp add: runs_def)

lemma runs_mono: "runs P r \<Longrightarrow> (\<And>p. P p \<Longrightarrow> Q p) \<Longrightarrow> runs Q r"
  by (auto simp: runs_def split: option.splits sum.splits prod.splits)

text \<open>Calling \<open>rec\<close> and going on: the continuation gets a position that is no larger.\<close>

lemma rec_bind:
  assumes "good_rec n rec" "need nt p \<le> n" "\<And>x p'. shrinks nt p p' \<Longrightarrow> runs Q (k x p')"
  shows "runs Q (bindp (rec nt p) k)"
  by (rule runs_bind [OF good_recD [OF assms(1,2)] assms(3)])

lemma rec_last:
  assumes "good_rec n rec" "need nt p \<le> n" "\<And>p'. shrinks nt p p' \<Longrightarrow> Q p'"
  shows "runs Q (rec nt p)"
  by (rule runs_mono [OF good_recD [OF assms(1,2)] assms(3)])

lemma cost_adv: "p_cost (par_adv p) \<le> p_cost p" and cost_adv_less: "p_toks p \<noteq> [] \<Longrightarrow> p_cost (par_adv p) < p_cost p"
proof -
  have "0 < tok_cost t" for t by (simp add: tok_cost_def)
  then show "p_cost (par_adv p) \<le> p_cost p" "p_toks p \<noteq> [] \<Longrightarrow> p_cost (par_adv p) < p_cost p"
    by (cases "p_toks p"; simp add: p_cost_def par_adv_def)+
qed

lemma cost_err [simp]: "p_cost (set_err p) = p_cost p"
  by (simp add: p_cost_def set_err_def)

lemma cost_expect: "p_cost (par_expect ty p) \<le> p_cost p"
  by (simp add: par_expect_def cost_adv)

lemma cost_as_if: "p_type p \<noteq> TOK_STRING \<Longrightarrow> p_cost (as_if p) = p_cost p"
  by (cases "p_toks p") (simp_all add: p_cost_def as_if_def tok_cost_def p_type_def p_cur_def)

lemma type_ne: "p_type p \<noteq> TOK_EOF \<Longrightarrow> p_toks p \<noteq> []"
  by (auto simp: p_type_def p_cur_def mk_tok_def)

lemma cost_zero: "p_toks p = [] \<longleftrightarrow> p_cost p = 0"
proof -
  have "0 < tok_cost t" for t by (simp add: tok_cost_def)
  then show ?thesis by (cases "p_toks p") (auto simp: p_cost_def)
qed

subsection \<open>Positions below a given one\<close>

text \<open>
  Below a position: what is left is smaller. Past it: smaller, unless nothing was left already, which is where a call
  that takes a token leads to.
\<close>

definition below_p :: "par \<Rightarrow> par \<Rightarrow> bool" where
  "below_p q p \<longleftrightarrow> p_cost p < p_cost q"

definition past_p :: "par \<Rightarrow> par \<Rightarrow> bool" where
  "past_p q p \<longleftrightarrow> p_cost p \<le> p_cost q \<and> (p_toks q \<noteq> [] \<longrightarrow> p_cost p < p_cost q)"

lemma below_move:
  "below_p q p \<Longrightarrow> below_p q (par_adv p)"
  "below_p q p \<Longrightarrow> below_p q (par_expect ty p)"
  "below_p q p \<Longrightarrow> below_p q (set_err p)"
  using cost_adv [of p] cost_expect [of ty p] by (simp_all add: below_p_def)

lemma past_move:
  "past_p q p \<Longrightarrow> past_p q (par_adv p)"
  "past_p q p \<Longrightarrow> past_p q (par_expect ty p)"
  "below_p q p \<Longrightarrow> past_p q p"
  using cost_adv [of p] cost_expect [of ty p] by (auto simp: past_p_def below_p_def)

lemma below_adv: "p_type q \<noteq> TOK_EOF \<Longrightarrow> below_p q (par_adv q)"
  using cost_adv_less [of q] type_ne [of q] by (simp add: below_p_def)

lemma below_past: "past_p q p \<Longrightarrow> p_type p \<noteq> TOK_EOF \<Longrightarrow> below_p q p"
  using type_ne [of p] cost_zero [of p] cost_zero [of q] by (auto simp: past_p_def below_p_def)

lemma below_as_if: "below_p q p \<Longrightarrow> p_type p = TOK_ELSIF \<Longrightarrow> below_p q (as_if p)"
  using cost_as_if [of p] by (simp add: below_p_def)

lemma shrinksI: "past_p q p \<Longrightarrow> shrinks nt q p"
  by (simp add: past_p_def shrinks_def)

lemma shrinks_below: "below_p q p \<Longrightarrow> shrinks nt q p"
  by (simp add: below_p_def shrinks_def)

lemma shrinks_past: "eats nt \<Longrightarrow> shrinks nt q p \<Longrightarrow> past_p q p"
  by (simp add: past_p_def shrinks_def)

lemma shrinks_refl: "\<not> eats nt \<Longrightarrow> shrinks nt q q"
  by (simp add: shrinks_def)

text \<open>What a definition may rely on while it parses for a call \<open>nt\<close> at \<open>q\<close>, and how it calls on.\<close>

definition ctx :: "nat \<Rightarrow> prec \<Rightarrow> nt \<Rightarrow> par \<Rightarrow> bool" where
  "ctx n rec nt q \<longleftrightarrow> good_rec n rec \<and> need nt q \<le> Suc n \<and> nt_size nt = 0"

lemma rank_bound: "nt_rank nt \<le> 10"
  by (cases nt) simp_all

lemma rank_pos: "1 \<le> nt_rank nt"
  by (cases nt) simp_all

lemma need_below: "ctx n rec nt0 q \<Longrightarrow> below_p q p \<Longrightarrow> nt_size nt = 0 \<Longrightarrow> need nt p \<le> n"
  using rank_bound [of nt] by (simp add: ctx_def need_def below_p_def)

lemma need_rank: "ctx n rec nt0 q \<Longrightarrow> nt_rank nt < nt_rank nt0 \<Longrightarrow> nt_size nt = 0 \<Longrightarrow> need nt q \<le> n"
  by (simp add: ctx_def need_def)

lemma bind_below:
  assumes "ctx n rec nt0 q" "below_p q p" "nt_size nt = 0" "\<And>x p'. below_p q p' \<Longrightarrow> runs Q (k x p')"
  shows "runs Q (bindp (rec nt p) k)"
proof (rule rec_bind [of n])
  show "good_rec n rec" using assms(1) by (simp add: ctx_def)
  show "need nt p \<le> n" using need_below [OF assms(1-3)] .
  show "runs Q (k x p')" if "shrinks nt p p'" for x p'
    using that assms(2) by (intro assms(4)) (simp add: shrinks_def below_p_def)
qed

lemma last_below:
  assumes "ctx n rec nt0 q" "below_p q p" "nt_size nt = 0" "\<And>p'. below_p q p' \<Longrightarrow> Q p'"
  shows "runs Q (rec nt p)"
proof (rule rec_last [of n])
  show "good_rec n rec" using assms(1) by (simp add: ctx_def)
  show "need nt p \<le> n" using need_below [OF assms(1-3)] .
  show "Q p'" if "shrinks nt p p'" for p'
    using that assms(2) by (intro assms(4)) (simp add: shrinks_def below_p_def)
qed

text \<open>A call at a position past \<open>q\<close>, of a lower rank.\<close>

lemma need_past: "ctx n rec nt0 q \<Longrightarrow> past_p q p \<Longrightarrow> nt_rank nt < nt_rank nt0 \<Longrightarrow> nt_size nt = 0 \<Longrightarrow> need nt p \<le> n"
  by (simp add: ctx_def need_def past_p_def)

lemma rec_past:
  assumes "ctx n rec nt0 q" "past_p q p" "nt_rank nt < nt_rank nt0" "nt_size nt = 0"
  shows "runs (past_p q) (rec nt p)"
proof (rule rec_last [of n])
  show "good_rec n rec" using assms(1) by (simp add: ctx_def)
  show "need nt p \<le> n" using need_past [OF assms] .
  show "past_p q p'" if "shrinks nt p p'" for p'
    using that assms(2) by (auto simp: shrinks_def past_p_def)
qed

lemma last_past:
  "ctx n rec nt0 q \<Longrightarrow> past_p q p \<Longrightarrow> nt_rank nt < nt_rank nt0 \<Longrightarrow> nt_size nt = 0 \<Longrightarrow> (\<And>p'. past_p q p' \<Longrightarrow> Q p') \<Longrightarrow>
    runs Q (rec nt p)"
  by (rule runs_mono [OF rec_past])

lemma bind_past:
  "ctx n rec nt0 q \<Longrightarrow> past_p q p \<Longrightarrow> nt_rank nt < nt_rank nt0 \<Longrightarrow> nt_size nt = 0 \<Longrightarrow>
    (\<And>x p'. past_p q p' \<Longrightarrow> runs Q (k x p')) \<Longrightarrow> runs Q (bindp (rec nt p) k)"
  by (rule runs_bind [OF rec_past])

text \<open>A first call at \<open>q\<close> itself, of a lower rank, that takes a token: everything behind it is past \<open>q\<close>.\<close>

lemma rec_first:
  assumes "ctx n rec nt0 q" "nt_rank nt < nt_rank nt0" "eats nt"
  shows "runs (past_p q) (rec nt q)"
proof (rule rec_last [of n])
  show "good_rec n rec" using assms(1) by (simp add: ctx_def)
  have "nt_size nt = 0" using assms(3) by (cases nt) simp_all
  then show "need nt q \<le> n" using need_rank [OF assms(1,2)] by simp
  show "past_p q p'" if "shrinks nt q p'" for p' using shrinks_past [OF assms(3) that] .
qed

lemma bind_first:
  "ctx n rec nt0 q \<Longrightarrow> nt_rank nt < nt_rank nt0 \<Longrightarrow> eats nt \<Longrightarrow> (\<And>x p'. past_p q p' \<Longrightarrow> runs Q (k x p')) \<Longrightarrow>
    runs Q (bindp (rec nt q) k)"
  by (rule runs_bind [OF rec_first])

lemma braced_below:
  assumes "ctx n rec nt0 q" "below_p q p" "\<And>x p'. below_p q p' \<Longrightarrow> runs Q (k x p')"
  shows "runs Q (braced rec p k)"
  unfolding braced_def
proof (rule bind_below [OF assms(1)])
  show "below_p q (par_expect TOK_LBRACE p)" using assms(2) by (rule below_move)
  show "runs Q (k (N_BLOCK (list_of b)) (par_expect TOK_RBRACE p'))" if "below_p q p'" for b p'
    using that by (intro assms(3) below_move)
qed simp

subsection \<open>Primary expressions\<close>

lemma call_below:
  assumes c: "ctx n rec nt0 q" and "below_p q p"
  shows "runs (below_p q) (par_call rec line f p)"
  using assms(2) by (auto simp: par_call_def intro!: bind_below [OF c] below_move)

lemma ident_below:
  assumes c: "ctx n rec nt0 q" and "p_type q \<noteq> TOK_EOF"
  shows "runs (below_p q) (par_ident rec q)"
  using below_adv [OF assms(2)] by (auto simp: par_ident_def Let_def intro!: call_below [OF c] below_move)

lemma anon_below:
  assumes c: "ctx n rec nt0 q" and "p_type q \<noteq> TOK_EOF"
  shows "runs (below_p q) (par_anon_fun rec q)"
proof -
  note b = below_adv [OF assms(2)]
  have "runs (below_p q) (braced rec (par_expect TOK_RPAREN p) (\<lambda>body. ret (N_FUN [] ps body)))" if "below_p q p" for ps p
    using that by (auto intro!: braced_below [OF c] below_move)
  then show ?thesis using b
    by (auto simp: par_anon_fun_def Let_def intro!: runs_bind [where P = "below_p q"] last_below [OF c] below_move)
qed

lemma construct_below:
  assumes c: "ctx n rec nt0 q" and "p_type q \<noteq> TOK_EOF"
  shows "runs (below_p q) (par_for rec q)" "runs (below_p q) (par_try rec q)" "runs (below_p q) (par_spawn rec q)"
    "runs (below_p q) (par_send rec q)" "runs (below_p q) (par_receive rec q)" "runs (below_p q) (par_if rec q)"
    "runs (below_p q) (par_map rec q)" "runs (below_p q) (par_tuple rec q)" "runs (below_p q) (par_list rec q)"
    "runs (below_p q) (par_group rec q)" "runs (below_p q) (par_neg rec q)"
  using below_adv [OF assms(2)]
  by (auto simp: par_for_def par_try_def par_spawn_def par_send_def par_receive_def par_if_def par_map_def par_tuple_def
      par_list_def par_group_def par_neg_def Let_def
      intro!: bind_below [OF c] braced_below [OF c] below_move below_as_if)

lemma string_below:
  assumes c: "ctx n rec NT_primary q" and s: "p_type q = TOK_STRING"
  shows "runs (below_p q) (par_string rec q)"
proof -
  define t where "t = p_cur q"
  obtain ts where q: "p_toks q = t # ts" using s by (cases "p_toks q") (auto simp: p_type_def p_cur_def mk_tok_def t_def)
  have ty: "tk_type t = TOK_STRING" using s by (simp add: t_def p_type_def)
  have cost: "p_cost q = Suc (length (tk_text t)) + p_cost (par_adv q)"
    using q ty by (simp add: p_cost_def par_adv_def tok_cost_def)
  have "runs (below_p q) (rec (NT_interp (tk_text t) (tk_line t) None) (par_adv q))"
  proof (rule rec_last [of n])
    show "good_rec n rec" using c by (simp add: ctx_def)
    show "need (NT_interp (tk_text t) (tk_line t) None) (par_adv q) \<le> n" using c cost by (simp add: ctx_def need_def)
    show "below_p q p'" if "shrinks (NT_interp (tk_text t) (tk_line t) None) (par_adv q) p'" for p'
      using that cost by (simp add: shrinks_def below_p_def)
  qed
  moreover have "below_p q (par_adv q)" using s by (intro below_adv) simp
  ultimately show ?thesis by (simp add: par_string_def Let_def t_def)
qed

lemma primary_runs:
  assumes c: "ctx n rec NT_primary q"
  shows "runs (past_p q) (par_primary ops rec q)"
proof (cases "p_type q = TOK_EOF")
  case True
  have "past_p q (par_adv (set_err q))"
    using cost_adv [of "set_err q"] cost_adv_less [of "set_err q"] by (simp add: past_p_def) (simp add: set_err_def)
  then show ?thesis using True by (simp add: par_primary_def)
next
  case False
  note b = below_adv [OF False]
  have "below_p q (par_adv (set_err q))" using b by (simp add: below_p_def p_cost_def par_adv_def set_err_def)
  moreover have "runs (below_p q) (par_self q)" using b by (auto simp: par_self_def Let_def intro: below_move)
  moreover have "runs (below_p q) (par_number ops q)" using b by (simp add: par_number_def Let_def)
  ultimately have "runs (below_p q) (par_primary ops rec q)"
    using b construct_below [OF c False] ident_below [OF c False] anon_below [OF c False] string_below [OF c]
    by (simp add: par_primary_def split: tok_type.split)
  then show ?thesis by (rule runs_mono) (rule past_move)
qed

subsection \<open>Operators, statements and the loops\<close>

lemma bin_loop_runs:
  assumes c: "ctx n rec nt0 q" and "TOK_EOF \<notin> set ops" "nt_size sub = 0" "\<And>l. nt_size (loop l) = 0" "\<not> eats nt0"
  shows "runs (shrinks nt0 q) (bin_loop ops sub loop rec left q)"
proof (cases "p_type q \<in> set ops")
  case True
  then have "below_p q (par_adv q)" using assms(2) by (intro below_adv) auto
  then show ?thesis using True assms(3,4)
    by (auto simp: bin_loop_def intro!: bind_below [OF c] last_below [OF c] intro: shrinks_below)
qed (simp add: bin_loop_def shrinks_refl [OF assms(5)])

lemma level_runs:
  "ctx n rec NT_mul q \<Longrightarrow> runs (past_p q) (par_mul rec q)"
  "ctx n rec NT_add q \<Longrightarrow> runs (past_p q) (par_add rec q)"
  "ctx n rec NT_range q \<Longrightarrow> runs (past_p q) (par_range rec q)"
  "ctx n rec NT_cmp q \<Longrightarrow> runs (past_p q) (par_cmp rec q)"
  "ctx n rec NT_logic q \<Longrightarrow> runs (past_p q) (par_logic rec q)"
  "ctx n rec NT_pipe q \<Longrightarrow> runs (past_p q) (par_pipe rec q)"
proof -
  note up = bind_first last_past bind_past
  show "runs (past_p q) (par_mul rec q)" if c: "ctx n rec NT_mul q" by (auto simp: par_mul_def intro!: up [OF c])
  show "runs (past_p q) (par_add rec q)" if c: "ctx n rec NT_add q" by (auto simp: par_add_def intro!: up [OF c])
  show "runs (past_p q) (par_range rec q)" if c: "ctx n rec NT_range q"
    by (auto simp: par_range_def intro!: up [OF c] past_move(1))
  show "runs (past_p q) (par_cmp rec q)" if c: "ctx n rec NT_cmp q" by (auto simp: par_cmp_def intro!: up [OF c])
  show "runs (past_p q) (par_logic rec q)" if c: "ctx n rec NT_logic q" by (auto simp: par_logic_def intro!: up [OF c])
  show "runs (past_p q) (par_pipe rec q)" if c: "ctx n rec NT_pipe q" by (auto simp: par_pipe_def intro!: up [OF c])
qed

lemma pipe_loop_runs:
  assumes c: "ctx n rec nt q" and "\<not> eats nt"
  shows "runs (shrinks nt q) (par_pipe_loop rec left q)"
proof (cases "p_type q = TOK_PIPE")
  case True
  then have "below_p q (par_adv q)" by (intro below_adv) simp
  then show ?thesis using True
    by (auto simp: par_pipe_loop_def Let_def intro!: bind_below [OF c] last_below [OF c] shrinks_below)
qed (simp add: par_pipe_loop_def shrinks_refl [OF assms(2)])

lemma stmt_runs:
  assumes c: "ctx n rec NT_stmt q"
  shows "runs (past_p q) (par_stmt rec q)"
proof (cases "p_type q = TOK_IDENT \<and> p_type (par_adv q) = TOK_ASSIGN")
  case True
  then have "below_p q (par_adv q)" by (intro below_adv) simp
  then show ?thesis using True by (auto simp: par_stmt_def intro!: bind_below [OF c] below_move past_move)
next
  case False
  then show ?thesis using rec_first [OF c, of NT_pipe] by (auto simp: par_stmt_def)
qed

text \<open>The loops over statements stop at the end of the text, so each of their rounds takes a token.\<close>

lemma stmts_runs:
  "ctx n rec (NT_block ss) q \<Longrightarrow> runs (shrinks (NT_block ss) q) (par_block rec ss q)"
  "ctx n rec (NT_body ss) q \<Longrightarrow> runs (shrinks (NT_body ss) q) (par_body rec ss q)"
proof -
  have 1: "below_p q p" if "past_p q p" "p_type q \<noteq> TOK_EOF" for p
    using that type_ne [of q] by (simp add: past_p_def below_p_def)
  show "runs (shrinks (NT_block ss) q) (par_block rec ss q)" if c: "ctx n rec (NT_block ss) q"
    by (auto simp: par_block_def shrinks_refl intro!: bind_first [OF c] last_below [OF c] 1 shrinks_below)
  show "runs (shrinks (NT_body ss) q) (par_body rec ss q)" if c: "ctx n rec (NT_body ss) q"
    by (auto simp: par_body_def clause_stop_def shrinks_refl intro!: bind_first [OF c] last_below [OF c] 1 shrinks_below)
qed

lemma clauses_runs:
  assumes c: "ctx n rec (NT_clauses cs) q"
  shows "runs (shrinks (NT_clauses cs) q) (par_clauses rec cs q)"
proof (cases "clause_stop q")
  case False
  have 1: "below_p q p" if "past_p q p" for p
    using that False type_ne [of q] by (simp add: past_p_def below_p_def clause_stop_def)
  show ?thesis unfolding par_clauses_def if_not_P [OF False] Let_def
  proof (rule bind_first [OF c])
    fix pat p' assume "past_p q p'"
    then have b: "below_p q p'" by (rule 1)
    have fin: "runs (shrinks (NT_clauses cs) q)
        (bindp (rec (NT_body []) (par_expect TOK_ARROW p)) (\<lambda>b p. rec (NT_clauses (cs @ [(pat, g, clause_body (list_of b))])) p))"
      if "below_p q p" for g p
      using that by (auto intro!: bind_below [OF c] last_below [OF c] below_move shrinks_below)
    show "runs (shrinks (NT_clauses cs) q)
        (if p_type p' = TOK_WHEN then bindp (rec NT_pipe (par_adv p')) (\<lambda>g p.
           bindp (rec (NT_body []) (par_expect TOK_ARROW p)) (\<lambda>b p. rec (NT_clauses (cs @ [(pat, Some g, clause_body (list_of b))])) p))
         else bindp (rec (NT_body []) (par_expect TOK_ARROW p')) (\<lambda>b p. rec (NT_clauses (cs @ [(pat, None, clause_body (list_of b))])) p))"
      using b by (auto intro!: fin bind_below [OF c, of "par_adv p'"] below_move)
  qed simp_all
qed (auto simp: par_clauses_def shrinks_refl)

lemma lists_runs:
  "ctx n rec (NT_args xs) q \<Longrightarrow> runs (shrinks (NT_args xs) q) (par_args rec xs q)"
  "ctx n rec (NT_items xs) q \<Longrightarrow> runs (shrinks (NT_items xs) q) (par_items rec xs q)"
proof -
  show "runs (shrinks (NT_args xs) q) (par_args rec xs q)" if c: "ctx n rec (NT_args xs) q"
    by (auto simp: par_args_def intro!: bind_first [OF c] last_below [OF c] below_move below_past
        intro: shrinks_below shrinksI)
  have "below_p q (par_adv q)" if "p_type q = TOK_COMMA" using that by (intro below_adv) simp
  then show "runs (shrinks (NT_items xs) q) (par_items rec xs q)" if c: "ctx n rec (NT_items xs) q"
    by (auto simp: par_items_def shrinks_refl intro!: bind_below [OF c] last_below [OF c] shrinks_below)
qed

lemma below_step: "p_cost p \<le> p_cost q \<Longrightarrow> p_type p \<noteq> TOK_EOF \<Longrightarrow> below_p q (par_adv p)"
  using cost_adv_less [of p] type_ne [of p] by (simp add: below_p_def)

lemma entries_runs:
  assumes c: "ctx n rec (NT_entries es) q"
  shows "runs (shrinks (NT_entries es) q) (par_entries rec es q)"
proof -
  have rest: "runs (shrinks (NT_entries es) q) (par_entry_rest rec es key p)" if "past_p q p" for key p
    using that by (auto simp: par_entry_rest_def intro!: bind_past [OF c] last_below [OF c] below_move below_past
        intro: shrinks_below shrinksI)
  show ?thesis
  proof (cases "p_type q = TOK_IDENT \<and> p_type (par_adv q) = TOK_COLON")
    case True
    then have "below_p q (par_adv q)" by (intro below_adv) simp
    then have "past_p q (par_adv (par_adv q))" using below_move(1) past_move(3) by blast
    then show ?thesis using True rest by (simp add: par_entries_def)
  next
    case False
    have "runs (shrinks (NT_entries es) q) (bindp (rec nt q) (\<lambda>key p. par_entry_rest rec es key (par_expect TOK_FARROW p)))"
      if "nt = NT_primary \<or> nt = NT_pipe" for nt
      using that by (intro bind_first [OF c] rest past_move(2)) auto
    then show ?thesis unfolding par_entries_def if_not_P [OF False] by simp
  qed
qed

lemma params_runs:
  assumes c: "ctx n rec (NT_params d ps) q"
  shows "runs (shrinks (NT_params d ps) q) (par_params rec d ps q)"
proof (cases "16 \<le> length ps")
  case False
  define p where "p = par_expect TOK_IDENT q"
  define name where "name = strncpy (tk_text (p_cur q)) 127"
  define more where "more = (\<lambda>x p. if p_type p = TOK_COMMA then rec (NT_params d (ps @ [(name, x)])) (par_adv p)
                              else ret (N_FUN [] (ps @ [(name, x)]) (N_BLOCK [])) p)"
  have le: "p_cost p \<le> p_cost q" by (simp add: p_def cost_expect)
  have more: "runs (shrinks (NT_params d ps) q) (more x p')" if "p_cost p' \<le> p_cost q" for x p'
    using that by (auto simp: more_def shrinks_def intro!: last_below [OF c] below_step) (auto simp: below_p_def)
  have "runs (shrinks (NT_params d ps) q) (bindp (rec NT_pipe (par_adv p)) (\<lambda>x. more (Some x)))" if "p_type p = TOK_ASSIGN"
    using that le by (intro bind_below [OF c] more below_step) (auto simp: below_p_def)
  then have "runs (shrinks (NT_params d ps) q)
      (if d \<and> p_type p = TOK_ASSIGN then bindp (rec NT_pipe (par_adv p)) (\<lambda>x. more (Some x)) else more None p)"
    using more [OF le] unfolding if_split [of "runs (shrinks (NT_params d ps) q)"] by blast
  then show ?thesis unfolding par_params_def if_not_P [OF False] Let_def more_def p_def name_def .
qed (simp add: par_params_def runs_def)

lemma funs_runs:
  assumes c: "ctx n rec (NT_funs fs) q"
  shows "runs (shrinks (NT_funs fs) q) (par_funs rec fs q)"
proof (cases "p_type q = TOK_FUN \<and> \<not> p_err q")
  case True
  then have "below_p q (par_adv q)" by (intro below_adv) simp
  then have b: "below_p q (par_expect TOK_FUN q)" using True by (simp add: par_expect_def)
  have body: "runs (below_p q) (braced rec (par_expect TOK_RPAREN p) (\<lambda>body. ret (N_FUN name ps body)))" if "below_p q p" for name ps p
    using that by (auto intro!: braced_below [OF c] below_move)
  have "runs (below_p q) (par_fun rec q)" unfolding par_fun_def Let_def
    by (rule runs_bind [where P = "below_p q"]) (auto intro!: b body last_below [OF c] below_move)
  then have "runs (shrinks (NT_funs fs) q) (bindp (par_fun rec q) (\<lambda>f. rec (NT_funs (fs @ [f]))))"
    by (rule runs_bind) (auto intro!: last_below [OF c] shrinks_below)
  then show ?thesis using True by (simp add: par_funs_def)
qed (auto simp: par_funs_def shrinks_refl)

subsection \<open>Interpolated strings\<close>

lemma find_interp_length: "find_interp s = Some (a, b) \<Longrightarrow> length a + length b + 2 = length s"
proof (induction s arbitrary: a)
  case (Cons c s)
  then show ?case by (cases s) (auto simp: cur_def split: if_splits)
qed simp

lemma brace_end_length: "brace_end d s = (a, b) \<Longrightarrow> length a + length b = length s"
  by (induction s arbitrary: d a b) (auto simp: Let_def split: if_splits prod.splits)

lemma init_cost: "p_cost (par_init s) \<le> length s"
  using lex_stream_cost [of s 1] by (cases "lex_stream s 1") (simp add: par_init_def p_cost_def)

lemma interp_runs:
  assumes "good_rec n rec" and need: "need (NT_interp s line res) q \<le> Suc n"
  shows "runs (shrinks (NT_interp s line res) q) (par_interp rec s line res q)"
proof (cases "s = [] \<or> find_interp s = None")
  case False
  then obtain a b where f: "find_interp s = Some (a, b)" by (cases "find_interp s") auto
  obtain inner rest where e: "brace_end 1 b = (inner, rest)" by (cases "brace_end 1 b")
  have len: "length inner + length rest + 2 \<le> length s" using find_interp_length [OF f] brace_end_length [OF e] by simp
  define k where "k = (\<lambda>x. Some (cat_node (if a \<noteq> [] then Some (cat_node res (N_STRING (restore_hash a))) else res) x))"
  have "runs (shrinks (NT_interp s line res) q)
      (bindp (rec NT_pipe (par_init inner)) (\<lambda>e ep. rec (NT_interp (tl rest) line (k (N_CALL line ''to_string'' [e]))) q))"
  proof (rule rec_bind [OF assms(1)])
    show "need NT_pipe (par_init inner) \<le> n" using need len init_cost [of inner] by (simp add: need_def)
    show "runs (shrinks (NT_interp s line res) q) (rec (NT_interp (tl rest) line (k (N_CALL line ''to_string'' [e]))) q)" for e
    proof (rule rec_last [OF assms(1)])
      show "need (NT_interp (tl rest) line (k (N_CALL line ''to_string'' [e]))) q \<le> n" using need len by (simp add: need_def)
    qed (simp add: shrinks_def)
  qed
  then show ?thesis using False f e by (simp add: par_interp_def k_def)
qed (auto simp: par_interp_def shrinks_def)

subsection \<open>All of it\<close>

lemma step_runs:
  assumes "good_rec n rec" "need nt q \<le> Suc n"
  shows "runs (shrinks nt q) (par_step ops rec nt q)"
proof -
  have c: "ctx n rec nt q" if "nt_size nt = 0" using assms that by (simp add: ctx_def)
  note up = runs_mono [OF _ shrinksI]
  show ?thesis
  proof (cases nt)
    case NT_primary
    then show ?thesis using up [OF primary_runs] c by (simp add: par_step_def)
  next
    case (NT_interp s line res)
    then show ?thesis using interp_runs [OF assms(1)] assms(2) by (simp add: par_step_def)
  qed (use c in \<open>auto simp: par_step_def mul_ops_def add_ops_def cmp_ops_def logic_ops_def
      intro: up [OF level_runs(1)] up [OF level_runs(2)] up [OF level_runs(3)] up [OF level_runs(4)] up [OF level_runs(5)]
        up [OF level_runs(6)] up [OF stmt_runs] bin_loop_runs pipe_loop_runs stmts_runs clauses_runs lists_runs entries_runs
        params_runs funs_runs\<close>)
qed

lemma par_run_good: "good_rec n (par_run ops n)"
proof (induction n)
  case 0
  have "need nt p \<noteq> 0" for nt p using rank_pos [of nt] by (simp add: need_def)
  then show ?case by (simp add: good_rec_def del: neq0_conv)
next
  case (Suc n)
  then show ?case using step_runs [OF Suc] by (simp add: good_rec_def)
qed

section \<open>A larger bound changes nothing\<close>

definition le_res :: "pres \<Rightarrow> pres \<Rightarrow> bool" where
  "le_res r r' \<longleftrightarrow> r = None \<or> r = r'"

definition le_rec :: "prec \<Rightarrow> prec \<Rightarrow> bool" where
  "le_rec rec rec' \<longleftrightarrow> (\<forall>nt p. le_res (rec nt p) (rec' nt p))"

lemma le_refl [simp]: "le_res r r"
  by (simp add: le_res_def)

lemma le_recD: "le_rec rec rec' \<Longrightarrow> le_res (rec nt p) (rec' nt p)"
  by (simp add: le_rec_def)

lemma le_bind: "le_res r r' \<Longrightarrow> (\<And>x p. le_res (k x p) (k' x p)) \<Longrightarrow> le_res (bindp r k) (bindp r' k')"
  unfolding le_res_def bindp_def by (cases r) (force split: sum.splits prod.splits)+

lemma le_if: "(b \<Longrightarrow> le_res x x') \<Longrightarrow> (\<not> b \<Longrightarrow> le_res y y') \<Longrightarrow> le_res (if b then x else y) (if b then x' else y')"
  by simp

lemma le_braced: "le_rec rec rec' \<Longrightarrow> (\<And>x p. le_res (k x p) (k' x p)) \<Longrightarrow> le_res (braced rec p k) (braced rec' p k')"
  unfolding braced_def by (intro le_bind) (simp_all add: le_recD)

lemmas le_intros = le_if le_bind le_refl

lemma le_constructs:
  assumes r: "le_rec rec rec'"
  shows "le_res (par_for rec p) (par_for rec' p)" "le_res (par_try rec p) (par_try rec' p)"
    "le_res (par_spawn rec p) (par_spawn rec' p)" "le_res (par_send rec p) (par_send rec' p)"
    "le_res (par_receive rec p) (par_receive rec' p)" "le_res (par_if rec p) (par_if rec' p)"
    "le_res (par_map rec p) (par_map rec' p)" "le_res (par_tuple rec p) (par_tuple rec' p)"
    "le_res (par_list rec p) (par_list rec' p)" "le_res (par_group rec p) (par_group rec' p)"
    "le_res (par_neg rec p) (par_neg rec' p)" "le_res (par_string rec p) (par_string rec' p)"
    "le_res (par_ident rec p) (par_ident rec' p)" "le_res (par_anon_fun rec p) (par_anon_fun rec' p)"
  unfolding par_for_def par_try_def par_spawn_def par_send_def par_receive_def par_if_def par_map_def par_tuple_def par_list_def
    par_group_def par_neg_def par_string_def par_ident_def par_call_def par_anon_fun_def Let_def
  by (intro le_intros le_braced [OF r] le_recD [OF r])+

lemma le_step:
  assumes r: "le_rec rec rec'"
  shows "le_res (par_step ops rec nt p) (par_step ops rec' nt p)"
proof -
  note rules = le_intros le_braced [OF r] le_recD [OF r]
  have "le_res (par_primary ops rec p) (par_primary ops rec' p)"
    using le_constructs [OF r] by (simp add: par_primary_def split: tok_type.split)
  moreover have "le_res (bin_loop os sub loop rec left p) (bin_loop os sub loop rec' left p)" for os sub loop left
    unfolding bin_loop_def by (intro rules)
  moreover have "le_res (par_interp rec s line res p) (par_interp rec' s line res p)" for s line res
    by (auto simp: par_interp_def split: option.split prod.split intro!: rules)
  ultimately show ?thesis
    unfolding par_step_def par_mul_def par_add_def par_range_def par_cmp_def par_logic_def par_pipe_def par_pipe_loop_def
      par_stmt_def par_block_def par_args_def par_items_def par_entries_def par_entry_rest_def par_params_def par_clauses_def
      par_body_def par_funs_def par_fun_def Let_def
    by (cases nt) (auto intro!: rules)
qed

lemma par_run_mono: "le_rec (par_run ops n) (par_run ops (n + k))"
proof (induction n)
  case 0
  show ?case by (simp add: le_rec_def le_res_def)
next
  case (Suc n)
  then show ?case using le_step [OF Suc] by (simp add: le_rec_def)
qed

section \<open>Modules\<close>

record lang_module =
  m_name :: string
  m_imports :: "string list"
  m_funs :: "node list"

text \<open>Imports, of which the first 16 are kept, and the export list, which is skipped.\<close>

function par_imports :: "string list \<Rightarrow> par \<Rightarrow> string list \<times> par" where
  "par_imports is p =
     (if p_type p = TOK_IMPORT \<and> \<not> p_err p then
        (let p = par_adv p
         in par_imports (if length is < 16 then is @ [strncpy (tk_text (p_cur p)) 127] else is) (par_expect TOK_IDENT p))
      else (is, p))"
  by pat_completeness auto
termination
proof (relation "measure (\<lambda>(is, p). p_cost p)")
  fix p x :: par
  assume "p_type p = TOK_IMPORT \<and> \<not> p_err p" "x = par_adv p"
  then have "p_cost (par_expect TOK_IDENT x) \<le> p_cost (par_adv p)" "p_cost (par_adv p) < p_cost p"
    using cost_expect type_ne [of p] cost_adv_less [of p] by auto
  then show "((if length is < 16 then is @ [strncpy (tk_text (p_cur x)) 127] else is, par_expect TOK_IDENT x), is, p)
      \<in> measure (\<lambda>(is, p). p_cost p)" for "is" by simp
qed simp

function par_exports :: "par \<Rightarrow> par" where
  "par_exports p =
     (if p_type p = TOK_RBRACKET \<or> p_type p = TOK_EOF then p
      else let p = par_adv p in par_exports (if p_type p = TOK_COMMA then par_adv p else p))"
  by pat_completeness auto
termination
proof (relation "measure p_cost")
  fix p x :: par
  assume "\<not> (p_type p = TOK_RBRACKET \<or> p_type p = TOK_EOF)" "x = par_adv p"
  then have "p_cost x < p_cost p" using type_ne [of p] cost_adv_less [of p] by auto
  then show "(if p_type x = TOK_COMMA then par_adv x else x, p) \<in> measure p_cost" using cost_adv [of x] by simp
qed simp

declare par_imports.simps [simp del] par_exports.simps [simp del]

definition par_module :: "num_ops \<Rightarrow> nat \<Rightarrow> par \<Rightarrow> (par_fault + (lang_module \<times> par)) option" where
  "par_module ops n p =
     (let p = par_expect TOK_MODULE p;
          name = p_cur p;
          (is, p) = par_imports [] (par_expect TOK_IDENT p);
          p = (if p_type p = TOK_EXPORT then par_expect TOK_RBRACKET (par_exports (par_expect TOK_LBRACKET (par_adv p))) else p)
      in case par_run ops n (NT_funs []) p of
           None \<Rightarrow> None
         | Some (Inl f) \<Rightarrow> Some (Inl f)
         | Some (Inr (fs, p)) \<Rightarrow> Some (Inr (\<lparr>m_name = strncpy (tk_text name) 127, m_imports = is, m_funs = list_of fs\<rparr>, p)))"

text \<open>The depth of calls that is enough for a text: 16 for each of its characters and the rank of the outermost call.\<close>

definition par_depth :: "string \<Rightarrow> nat" where
  "par_depth src = 16 * length src + 10"

definition sw_lang_parse :: "num_ops \<Rightarrow> string \<Rightarrow> (par_fault + lang_module option) option" where
  "sw_lang_parse ops src =
     (case par_module ops (par_depth src) (par_init src) of
        None \<Rightarrow> None
      | Some (Inl f) \<Rightarrow> Some (Inl f)
      | Some (Inr (m, p)) \<Rightarrow> Some (Inr (if p_err p then None else Some m)))"

definition par_expr_string :: "num_ops \<Rightarrow> string \<Rightarrow> (par_fault + node option) option" where
  "par_expr_string ops src =
     (case par_run ops (par_depth src) NT_pipe (par_init src) of
        None \<Rightarrow> None
      | Some (Inl f) \<Rightarrow> Some (Inl f)
      | Some (Inr (e, p)) \<Rightarrow> Some (Inr (if p_err p then None else Some e)))"

lemma imports_cost: "p_cost (snd (par_imports is p)) \<le> p_cost p"
proof (induction "is" p rule: par_imports.induct)
  case (1 "is" p)
  show ?case
  proof (cases "p_type p = TOK_IMPORT \<and> \<not> p_err p")
    case True
    have "p_cost (snd (par_imports is p)) \<le> p_cost (par_expect TOK_IDENT (par_adv p))"
      using "1.IH" [OF True refl] True by (simp add: par_imports.simps [of "is" p] Let_def)
    then show ?thesis using cost_expect [of TOK_IDENT "par_adv p"] cost_adv [of p] by linarith
  qed (auto simp: par_imports.simps [of "is" p])
qed

lemma exports_cost: "p_cost (par_exports p) \<le> p_cost p"
proof (induction p rule: par_exports.induct)
  case (1 p)
  show ?case
  proof (cases "p_type p = TOK_RBRACKET \<or> p_type p = TOK_EOF")
    case False
    let ?q = "if p_type (par_adv p) = TOK_COMMA then par_adv (par_adv p) else par_adv p"
    have "p_cost (par_exports p) \<le> p_cost ?q"
      using "1.IH" [OF False refl] False by (simp add: par_exports.simps [of p] Let_def)
    moreover have "p_cost ?q \<le> p_cost p" using cost_adv [of "par_adv p"] cost_adv [of p] by simp
    ultimately show ?thesis by linarith
  qed (auto simp: par_exports.simps [of p])
qed

lemma par_run_enough:
  assumes "need nt p \<le> n"
  shows "par_run ops n nt p \<noteq> None \<and> par_run ops (n + k) nt p = par_run ops n nt p"
proof -
  have "runs (shrinks nt p) (par_run ops n nt p)" using good_recD [OF par_run_good assms] .
  then have "par_run ops n nt p \<noteq> None" by (simp add: runs_def split: option.splits)
  then show ?thesis using le_recD [OF par_run_mono, of ops n nt p k] by (auto simp: le_res_def)
qed

lemma module_enough:
  assumes "16 * p_cost p + 10 \<le> n"
  shows "par_module ops n p \<noteq> None \<and> par_module ops (n + k) p = par_module ops n p"
proof -
  define p1 where "p1 = par_expect TOK_IDENT (par_expect TOK_MODULE p)"
  obtain "is" p2 where i: "par_imports [] p1 = (is, p2)" by (cases "par_imports [] p1")
  define p3 where "p3 = (if p_type p2 = TOK_EXPORT
    then par_expect TOK_RBRACKET (par_exports (par_expect TOK_LBRACKET (par_adv p2))) else p2)"
  have "p_cost p1 \<le> p_cost p" using cost_expect order_trans unfolding p1_def by blast
  moreover have "p_cost p2 \<le> p_cost p1" using imports_cost [of "[]" p1] i by simp
  moreover have "p_cost (par_expect TOK_RBRACKET (par_exports (par_expect TOK_LBRACKET (par_adv p2)))) \<le> p_cost p2"
    using cost_expect exports_cost cost_adv order_trans by meson
  ultimately have "need (NT_funs []) p3 \<le> n" using assms by (simp add: need_def p3_def)
  from par_run_enough [OF this, of ops k] show ?thesis
    using i unfolding par_module_def Let_def p1_def [symmetric]
    by (auto simp: p3_def [symmetric] split: option.split sum.split prod.split)
qed

text \<open>
  C24. Parsing ends: on every text the parser returns a module, reports an error, or runs into one of the listed faults;
  the depth of its calls stays below 16 times the length of the text, and allowing more changes nothing.
\<close>

theorem parser_terminates:
  "sw_lang_parse ops src \<noteq> None \<and> par_expr_string ops src \<noteq> None \<and>
   par_module ops (par_depth src + k) (par_init src) = par_module ops (par_depth src) (par_init src)"
proof -
  have "16 * p_cost (par_init src) + 10 \<le> par_depth src" using init_cost [of src] by (simp add: par_depth_def)
  from module_enough [OF this, of ops k] have 1: "par_module ops (par_depth src) (par_init src) \<noteq> None"
    "par_module ops (par_depth src + k) (par_init src) = par_module ops (par_depth src) (par_init src)" by simp_all
  have "need NT_pipe (par_init src) \<le> par_depth src" using init_cost [of src] by (simp add: need_def par_depth_def)
  from par_run_enough [OF this, of ops 0] have "par_run ops (par_depth src) NT_pipe (par_init src) \<noteq> None" by simp
  with 1 show ?thesis by (auto simp: sw_lang_parse_def par_expr_string_def split: option.split sum.split)
qed

end
