(* ===== verification/Lang_Print.thy ===== *)
theory Lang_Print
  imports Lang_Parser
begin

text \<open>
  The parser of \<open>Lang_Parser\<close> against the grammar it means to read: operator expressions are written out with the
  parentheses that the precedence of the operators asks for, and reading that text back gives the expression. The
  parser's bounded runs are first replaced by their limit, which satisfies the recursion equations without a bound.
\<close>

section \<open>The parser without a bound\<close>

definition par_lim :: "num_ops \<Rightarrow> prec" where
  "par_lim ops nt p = par_run ops (need nt p) nt p"

lemma par_lim_eq: "need nt p \<le> n \<Longrightarrow> par_run ops n nt p = par_lim ops nt p"
  using par_run_enough [OF order_refl, where nt = nt and p = p and ops = ops and k = "n - need nt p"] by (simp add: par_lim_def)

lemma par_run_le_lim: "le_rec (par_run ops n) (par_lim ops)"
proof -
  have "le_res (par_run ops n nt p) (par_lim ops nt p)" for nt p
  proof (cases "need nt p \<le> n")
    case True
    then show ?thesis by (simp add: par_lim_eq)
  next
    case False
    then show ?thesis
      using le_recD [OF par_run_mono, of ops n nt p "need nt p - n"] by (simp add: par_lim_def)
  qed
  then show ?thesis by (simp add: le_rec_def)
qed

lemma par_lim_step: "par_lim ops nt p = par_step ops (par_lim ops) nt p"
proof -
  let ?n = "need nt p"
  have run: "par_run ops (Suc ?n) nt p = par_lim ops nt p" by (rule par_lim_eq) simp
  have "par_lim ops nt p \<noteq> None" using par_run_enough [OF order_refl, where nt = nt and p = p and ops = ops and k = 0] by (simp add: par_lim_def)
  moreover have "le_res (par_step ops (par_run ops ?n) nt p) (par_step ops (par_lim ops) nt p)"
    by (rule le_step [OF par_run_le_lim])
  ultimately show ?thesis using run by (auto simp: le_res_def)
qed

section \<open>Writing expressions\<close>

definition tk :: "tok_type \<Rightarrow> string \<Rightarrow> tok" where
  "tk ty s = mk_tok ty s 1"

abbreviation pos :: "tok list \<Rightarrow> par" where
  "pos ts \<equiv> \<lparr>p_toks = ts, p_end = None, p_err = False\<rparr>"

text \<open>The levels of the grammar, from primary expressions to pipes, and the level of an operator.\<close>

definition op_info :: "(string \<times> tok_type \<times> nat) list" where
  "op_info = [(''*'', TOK_STAR, 1), (''/'', TOK_SLASH, 1), (''+'', TOK_PLUS, 2), (''-'', TOK_MINUS, 2), (''++'', TOK_CONCAT, 2),
     (''=='', TOK_EQ, 4), (''!='', TOK_NEQ, 4), (''<'', TOK_LT, 4), (''>'', TOK_GT, 4), (''<='', TOK_LE, 4), (''>='', TOK_GE, 4),
     (''&&'', TOK_AND, 5), (''||'', TOK_OR, 5)]"

definition op_level :: "string \<Rightarrow> nat" where
  "op_level op = (case map_of op_info op of Some (ty, k) \<Rightarrow> k | None \<Rightarrow> 0)"

definition op_type :: "string \<Rightarrow> tok_type" where
  "op_type op = (case map_of op_info op of Some (ty, k) \<Rightarrow> ty | None \<Rightarrow> TOK_EOF)"

fun level :: "node \<Rightarrow> nat" where
  "level (N_BINOP _ _ op) = op_level op"
| "level (N_RANGE _ _) = 3"
| "level (N_PIPE _ _ _) = 6"
| "level _ = 0"

definition wrap :: "nat \<Rightarrow> node \<Rightarrow> tok list \<Rightarrow> tok list" where
  "wrap k e ts = (if level e \<le> k then ts else tk TOK_LPAREN ''('' # ts @ [tk TOK_RPAREN '')''])"

fun sep_by :: "tok list list \<Rightarrow> tok list" where
  "sep_by [] = []"
| "sep_by [ts] = ts"
| "sep_by (ts # tss) = ts @ tk TOK_COMMA '','' # sep_by tss"

fun written :: "node \<Rightarrow> tok list" where
  "written (N_INT i) = [tk TOK_NUMBER (show_nat (nat (sint i)))]"
| "written (N_STRING s) = [tk TOK_STRING s]"
| "written (N_ATOM a) = [tk TOK_ATOM a]"
| "written (N_IDENT x) = [tk TOK_IDENT x]"
| "written N_SELF = [tk TOK_SELF ''self'']"
| "written (N_TUPLE es) = tk TOK_LBRACE ''{'' # sep_by (map written es) @ [tk TOK_RBRACE ''}'']"
| "written (N_LIST es) = tk TOK_LBRACKET ''['' # sep_by (map written es) @ [tk TOK_RBRACKET '']'']"
| "written (N_LIST_CONS h t) =
     tk TOK_LBRACKET ''['' # written h @ tk TOK_BAR ''|'' # written t @ [tk TOK_RBRACKET '']'']"
| "written (N_MAP es) =
     tk TOK_PERCENT ''%'' # tk TOK_LBRACE ''{'' #
       sep_by (map (\<lambda>(k, v). wrap 0 k (written k) @ tk TOK_FARROW ''=>'' # written v) es) @ [tk TOK_RBRACE ''}'']"
| "written (N_UNARY e c) = tk TOK_MINUS ''-'' # wrap 0 e (written e)"
| "written (N_CALL line f es) = tk TOK_IDENT f # tk TOK_LPAREN ''('' # sep_by (map written es) @ [tk TOK_RPAREN '')'']"
| "written (N_SPAWN e) = tk TOK_SPAWN ''spawn'' # tk TOK_LPAREN ''('' # written e @ [tk TOK_RPAREN '')'']"
| "written (N_SEND a b) =
     tk TOK_SEND ''send'' # tk TOK_LPAREN ''('' # written a @ tk TOK_COMMA '','' # written b @ [tk TOK_RPAREN '')'']"
| "written (N_BINOP l r op) =
     wrap (op_level op) l (written l) @ tk (op_type op) op # wrap (op_level op - 1) r (written r)"
| "written (N_RANGE a b) = wrap 2 a (written a) @ tk TOK_DOTDOT ''..'' # wrap 2 b (written b)"
| "written (N_PIPE line a b) = wrap 6 a (written a) @ tk TOK_PIPE ''|>'' # wrap 5 b (written b)"
| "written _ = []"

text \<open>The expressions that are written out: names are identifiers and no keywords, texts hold nothing that would be read as an
  interpolation, integers are those a double holds exactly.\<close>

definition is_name :: "string \<Rightarrow> bool" where
  "is_name x \<longleftrightarrow> x \<noteq> [] \<and> ident_start (hd x) \<and> list_all ident_char x \<and> keyword_type x = TOK_IDENT \<and> length x < TOK_TEXT_MAX"

definition plain_string :: "string \<Rightarrow> bool" where
  "plain_string s \<longleftrightarrow> CHR 0x00 \<notin> set s \<and> CHR 0x01 \<notin> set s \<and> length s \<le> TOK_TEXT_MAX - 2 \<and> find_interp s = None"

definition plain_atom :: "string \<Rightarrow> bool" where
  "plain_atom a \<longleftrightarrow> CHR 0x27 \<notin> set a \<and> CHR 0x0A \<notin> set a \<and> length a < TOK_TEXT_MAX"

inductive writable :: "node \<Rightarrow> bool" where
  w_int: "0 \<le> sint i \<Longrightarrow> sint i < 2 ^ 53 \<Longrightarrow> writable (N_INT i)"
| w_string: "plain_string s \<Longrightarrow> writable (N_STRING s)"
| w_atom: "plain_atom a \<Longrightarrow> writable (N_ATOM a)"
| w_ident: "is_name x \<Longrightarrow> writable (N_IDENT x)"
| w_self: "writable N_SELF"
| w_tuple: "list_all writable es \<Longrightarrow> writable (N_TUPLE es)"
| w_list: "list_all writable es \<Longrightarrow> writable (N_LIST es)"
| w_cons: "writable h \<Longrightarrow> writable t \<Longrightarrow> writable (N_LIST_CONS h t)"
| w_map: "list_all (\<lambda>(k, v). writable k \<and> writable v) es \<Longrightarrow> writable (N_MAP es)"
| w_unary: "writable e \<Longrightarrow> writable (N_UNARY e (CHR ''-''))"
| w_call: "is_name f \<Longrightarrow> list_all writable es \<Longrightarrow> writable (N_CALL 1 f es)"
| w_spawn: "writable e \<Longrightarrow> writable (N_SPAWN e)"
| w_send: "writable a \<Longrightarrow> writable b \<Longrightarrow> writable (N_SEND a b)"
| w_binop: "op \<in> set (map fst op_info) \<Longrightarrow> writable l \<Longrightarrow> writable r \<Longrightarrow> writable (N_BINOP l r op)"
| w_range: "writable a \<Longrightarrow> writable b \<Longrightarrow> writable (N_RANGE a b)"
| w_pipe: "writable a \<Longrightarrow> writable b \<Longrightarrow> writable (N_PIPE 1 a b)"
monos list.pred_mono

section \<open>Reading them back\<close>

lemma pos_simps [simp]:
  "p_type (pos (t # ts)) = tk_type t" "p_type (pos []) = TOK_EOF" "p_cur (pos (t # ts)) = t" "par_adv (pos (t # ts)) = pos ts"
  "tk_type t = ty \<Longrightarrow> par_expect ty (pos (t # ts)) = pos ts" "ret x (pos ts) = Some (Inr (x, pos ts))"
  "bindp (Some (Inr (x, p))) k = k x p"
  by (simp_all add: p_type_def p_cur_def mk_tok_def par_adv_def par_expect_def ret_def bindp_def)

lemma tk_simps [simp]: "tk_type (tk ty s) = ty" "tk_text (tk ty s) = s" "tk_line (tk ty s) = 1"
  by (simp_all add: tk_def mk_tok_def)

text \<open>The level at which a token goes on with an expression, and that nothing goes on at levels up to \<open>k\<close>.\<close>

definition tok_level :: "tok_type \<Rightarrow> nat" where
  "tok_level ty =
     (case ty of TOK_LPAREN \<Rightarrow> 0 | TOK_DOT \<Rightarrow> 0 | TOK_STAR \<Rightarrow> 1 | TOK_SLASH \<Rightarrow> 1 | TOK_PLUS \<Rightarrow> 2 | TOK_MINUS \<Rightarrow> 2 | TOK_CONCAT \<Rightarrow> 2
      | TOK_DOTDOT \<Rightarrow> 3 | TOK_EQ \<Rightarrow> 4 | TOK_NEQ \<Rightarrow> 4 | TOK_LT \<Rightarrow> 4 | TOK_GT \<Rightarrow> 4 | TOK_LE \<Rightarrow> 4 | TOK_GE \<Rightarrow> 4
      | TOK_AND \<Rightarrow> 5 | TOK_OR \<Rightarrow> 5 | TOK_PIPE \<Rightarrow> 6 | _ \<Rightarrow> 7)"

definition stops :: "nat \<Rightarrow> tok list \<Rightarrow> bool" where
  "stops k ts \<longleftrightarrow> k < tok_level (p_type (pos ts))"

fun nt_of :: "nat \<Rightarrow> nt" where
  "nt_of k = [NT_primary, NT_mul, NT_add, NT_range, NT_cmp, NT_logic, NT_pipe] ! k"

fun loop_of :: "nat \<Rightarrow> node \<Rightarrow> nt" where
  "loop_of k e = (if k = 1 then NT_mul_loop e else if k = 2 then NT_add_loop e else if k = 4 then NT_cmp_loop e
     else if k = 5 then NT_logic_loop e else NT_pipe_loop e)"

definition loop_levels :: "nat set" where
  "loop_levels = {1, 2, 4, 5, 6}"

lemma lim_level:
  assumes "k \<in> loop_levels"
  shows "par_lim ops (nt_of k) p = bindp (par_lim ops (nt_of (k - 1)) p) (\<lambda>l p. par_lim ops (loop_of k l) p)"
  using assms
  by (subst par_lim_step)
    (auto simp: loop_levels_def par_step_def par_mul_def par_add_def par_cmp_def par_logic_def par_pipe_def numeral_eq_Suc)

lemma lim_range:
  "par_lim ops NT_range p = bindp (par_lim ops NT_add p) (\<lambda>l p.
     if p_type p = TOK_DOTDOT then bindp (par_lim ops NT_add (par_adv p)) (\<lambda>r. ret (N_RANGE l r)) else ret l p)"
  by (subst par_lim_step) (simp add: par_step_def par_range_def)

lemma lim_primary: "par_lim ops NT_primary p = par_primary ops (par_lim ops) p"
  by (subst par_lim_step) (simp add: par_step_def)

lemma loop_stops: "k \<in> loop_levels \<Longrightarrow> stops k ts \<Longrightarrow> par_lim ops (loop_of k e) (pos ts) = ret e (pos ts)"
  by (subst par_lim_step) (auto simp: loop_levels_def par_step_def bin_loop_def par_pipe_loop_def mul_ops_def add_ops_def
      cmp_ops_def logic_ops_def stops_def tok_level_def)

lemma stops_less: "stops k ts \<Longrightarrow> j \<le> k \<Longrightarrow> stops j ts"
  by (simp add: stops_def)

lemma climb:
  assumes "par_lim ops (nt_of k) p = ret e (pos ts)" "k < 6" "stops (Suc k) ts"
  shows "par_lim ops (nt_of (Suc k)) p = ret e (pos ts)"
proof (cases "Suc k \<in> loop_levels")
  case True
  then show ?thesis unfolding lim_level [OF True] using assms loop_stops [OF True] by simp
next
  case False
  then have "k = 2" using assms(2) by (auto simp: loop_levels_def)
  then show ?thesis using assms(1,3) by (auto simp: lim_range stops_def tok_level_def numeral_eq_Suc)
qed

lemma climb_to:
  assumes "par_lim ops (nt_of j) p = ret e (pos ts)" "j \<le> k" "k \<le> 6" "stops k ts"
  shows "par_lim ops (nt_of k) p = ret e (pos ts)"
  using assms(2-4)
proof (induction k rule: dec_induct)
  case base
  then show ?case using assms(1) by simp
next
  case (step k)
  then show ?case using climb [of ops k p e ts] stops_less [of "Suc k" ts k] by simp
qed

text \<open>What is shown of an expression: it is read at every level, and a left-associative level goes on with it.\<close>

definition reads_back :: "num_ops \<Rightarrow> node \<Rightarrow> bool" where
  "reads_back ops e \<longleftrightarrow>
     (\<forall>k ts. k \<le> 6 \<longrightarrow> stops k ts \<longrightarrow> par_lim ops (nt_of k) (pos (wrap k e (written e) @ ts)) = ret e (pos ts)) \<and>
     (\<forall>k ts. k \<in> loop_levels \<longrightarrow> stops (k - 1) ts \<longrightarrow>
        par_lim ops (nt_of k) (pos (wrap k e (written e) @ ts)) = par_lim ops (loop_of k e) (pos ts))"

text \<open>It is enough to read an expression at its own level.\<close>

lemma reads_backI:
  assumes own: "\<And>ts. stops (level e) ts \<Longrightarrow> par_lim ops (nt_of (level e)) (pos (written e @ ts)) = ret e (pos ts)"
    and left: "\<And>ts. level e \<in> loop_levels \<Longrightarrow> stops (level e - 1) ts \<Longrightarrow>
       par_lim ops (nt_of (level e)) (pos (written e @ ts)) = par_lim ops (loop_of (level e) e) (pos ts)"
    and le: "level e \<le> 6"
  shows "reads_back ops e"
proof -
  have full: "par_lim ops (nt_of k) (pos (wrap k e (written e) @ ts)) = ret e (pos ts)" if "k \<le> 6" "stops k ts" for k ts
  proof (cases "level e \<le> k")
    case True
    then show ?thesis using climb_to [OF own True that] stops_less [OF that(2) True] by (simp add: wrap_def)
  next
    case False
    let ?r = "tk TOK_RPAREN '')'' # ts"
    have "par_lim ops NT_pipe (pos (written e @ ?r)) = ret e (pos ?r)"
      using climb_to [OF own le, of ?r] le by (simp add: stops_def tok_level_def)
    then have "par_lim ops (nt_of 0) (pos (wrap k e (written e) @ ts)) = ret e (pos ts)"
      using False by (simp add: wrap_def lim_primary par_primary_def par_group_def)
    then show ?thesis using climb_to that by blast
  qed
  moreover have "par_lim ops (nt_of k) (pos (wrap k e (written e) @ ts)) = par_lim ops (loop_of k e) (pos ts)"
    if k: "k \<in> loop_levels" and "stops (k - 1) ts" for k ts
  proof (cases "level e = k")
    case True
    then show ?thesis using left that by (simp add: wrap_def)
  next
    case False
    then have "wrap k e (written e) = wrap (k - 1) e (written e)" by (auto simp: wrap_def)
    moreover have "k - 1 \<le> 6" using k by (auto simp: loop_levels_def)
    ultimately show ?thesis unfolding lim_level [OF k] using full [of "k - 1" ts] that(2) by simp
  qed
  ultimately show ?thesis by (simp add: reads_back_def)
qed

lemma op_level_le: "op_level op \<le> 5"
proof -
  have "k \<le> 5" if "map_of op_info op = Some (ty, k)" for ty k using map_of_SomeD [OF that] by (auto simp: op_info_def)
  then show ?thesis by (auto simp: op_level_def split: option.split)
qed

lemma level_le: "level e \<le> 6"
  using op_level_le order_trans by (cases e) (auto intro: le_SucI simp: numeral_eq_Suc)

lemma read_expr:
  assumes "reads_back ops e" "stops 6 ts"
  shows "par_lim ops NT_pipe (pos (written e @ ts)) = ret e (pos ts)"
proof -
  have "wrap 6 e (written e) = written e" by (simp add: wrap_def level_le)
  then show ?thesis using assms unfolding reads_back_def by (auto dest!: spec [of _ 6] simp: numeral_eq_Suc)
qed

lemma read_at: "reads_back ops e \<Longrightarrow> k \<le> 6 \<Longrightarrow> stops k ts \<Longrightarrow>
    par_lim ops (nt_of k) (pos (wrap k e (written e) @ ts)) = ret e (pos ts)"
  by (simp add: reads_back_def)

subsection \<open>The tokens of an expression\<close>

definition tok_ok :: "tok \<Rightarrow> bool" where
  "tok_ok t \<longleftrightarrow> wf_tok t \<and> tk_line t = 1 \<and> tk_type t \<noteq> TOK_COLON"

definition opens :: "tok list \<Rightarrow> bool" where
  "opens ts \<longleftrightarrow> ts \<noteq> [] \<and> tk_type (hd ts) \<notin> {TOK_RBRACE, TOK_RPAREN, TOK_RBRACKET}"

lemma sep_by_Cons: "sep_by (x # xs) = x @ concat (map (\<lambda>y. tk TOK_COMMA '','' # y) xs)"
  by (induction xs arbitrary: x) simp_all

lemma punct_ok:
  "tok_ok (tk TOK_LPAREN ''('')" "tok_ok (tk TOK_RPAREN '')'')" "tok_ok (tk TOK_COMMA '','')" "tok_ok (tk TOK_LBRACE ''{'')"
  "tok_ok (tk TOK_RBRACE ''}'')" "tok_ok (tk TOK_LBRACKET ''['')" "tok_ok (tk TOK_RBRACKET '']'')" "tok_ok (tk TOK_BAR ''|'')"
  "tok_ok (tk TOK_PERCENT ''%'')" "tok_ok (tk TOK_FARROW ''=>'')" "tok_ok (tk TOK_MINUS ''-'')" "tok_ok (tk TOK_DOTDOT ''..'')"
  "tok_ok (tk TOK_PIPE ''|>'')" "tok_ok (tk TOK_SELF ''self'')" "tok_ok (tk TOK_SPAWN ''spawn'')" "tok_ok (tk TOK_SEND ''send'')"
  by code_simp+

lemma op_ok: "op \<in> set (map fst op_info) \<Longrightarrow> tok_ok (tk (op_type op) op)"
proof -
  have "list_all (\<lambda>op. tok_ok (tk (op_type op) op)) (map fst op_info)" by code_simp
  then show "op \<in> set (map fst op_info) \<Longrightarrow> tok_ok (tk (op_type op) op)" by (auto simp: list_all_iff)
qed

lemma name_ok: "is_name x \<Longrightarrow> tok_ok (tk TOK_IDENT x)"
  by (auto simp: is_name_def tok_ok_def wf_tok_def list_all_iff)

lemma number_ok:
  assumes "n < 2 ^ 53"
  shows "tok_ok (tk TOK_NUMBER (show_nat n))"
proof -
  have span: "num_span (xs @ '' '') = (xs, '' '')" if "\<forall>c\<in>set xs. is_digit c" for xs
    using that by (induction xs) (simp_all add: is_digit_def cur_def)
  have "(2::nat) ^ 53 < 10 ^ Suc 18" by simp
  then have "length (show_nat n) \<le> Suc 18" using length_show_nat [of n 18] assms by linarith
  then show ?thesis
    using show_nat_digits [of n] show_nat_ne [of n] span
    by (simp add: tok_ok_def wf_tok_def TOK_TEXT_MAX_def list_all_iff)
qed

lemma sep_ok: "(\<forall>t\<in>set (sep_by tss). tok_ok t) \<longleftrightarrow> (\<forall>ts\<in>set tss. \<forall>t\<in>set ts. tok_ok t)"
  using punct_ok(3) by (cases tss) (auto simp: sep_by_Cons)

lemma wrap_ok: "(\<forall>t\<in>set (wrap k e ts). tok_ok t) \<longleftrightarrow> (\<forall>t\<in>set ts. tok_ok t)"
  using punct_ok(1,2) by (simp add: wrap_def)

lemma written_ok: "writable e \<Longrightarrow> \<forall>t\<in>set (written e). tok_ok t"
proof (induction rule: writable.induct)
  case (w_int i)
  then show ?case using number_ok [of "nat (sint i)"] by simp
next
  case (w_string s)
  then show ?case by (simp add: plain_string_def tok_ok_def wf_tok_def)
next
  case (w_atom s)
  then show ?case by (simp add: plain_atom_def tok_ok_def wf_tok_def)
next
  case (w_binop op l r)
  then show ?case by (simp add: ball_Un wrap_ok op_ok)
qed (simp_all add: punct_ok name_ok list_all_iff ball_Un sep_ok wrap_ok split_beta)

lemma opens_wrap: "opens ts \<Longrightarrow> opens (wrap k e ts)"
  by (auto simp: opens_def wrap_def)

lemma opens_append: "opens ts \<Longrightarrow> opens (ts @ us)"
  by (auto simp: opens_def)

lemma written_opens: "writable e \<Longrightarrow> opens (written e)"
proof (induction rule: writable.induct)
qed (simp_all add: opens_append opens_wrap, simp_all add: opens_def)

subsection \<open>Sequences\<close>

definition commas :: "tok list list \<Rightarrow> tok list" where
  "commas tss = concat (map (\<lambda>y. tk TOK_COMMA '','' # y) tss)"

lemma commas_simps [simp]: "commas [] = []" "commas (ts # tss) = tk TOK_COMMA '','' # ts @ commas tss"
  by (simp_all add: commas_def)

lemma sep_by_commas: "sep_by (x # xs) = x @ commas xs"
  by (simp add: sep_by_Cons commas_def)

definition closes :: "tok list \<Rightarrow> bool" where
  "closes ts \<longleftrightarrow> p_type (pos ts) \<in> {TOK_RPAREN, TOK_RBRACE, TOK_RBRACKET}"

lemma closes_D: "closes ts \<Longrightarrow> p_type (pos ts) \<noteq> TOK_COMMA \<and> p_type (pos ts) \<noteq> TOK_BAR"
  by (auto simp: closes_def)

lemma stops_commas: "closes ts \<Longrightarrow> stops 6 (commas tss @ ts)"
  by (cases tss) (auto simp: closes_def stops_def tok_level_def)

lemma read_args:
  assumes "reads_back ops e" "list_all (reads_back ops) es" "closes ts"
  shows "par_lim ops (NT_args acc) (pos (sep_by (map written (e # es)) @ ts)) = ret (N_LIST (acc @ e # es)) (pos ts)"
  using assms(1,2)
proof (induction es arbitrary: e acc)
  case Nil
  then show ?case using read_expr [OF Nil(1) stops_commas [OF assms(3), of "[]"]] closes_D [OF assms(3)]
    by (subst par_lim_step) (simp add: par_step_def par_args_def)
next
  case (Cons f es)
  have "par_lim ops NT_pipe (pos (written e @ commas (map written (f # es)) @ ts)) = ret e (pos (commas (map written (f # es)) @ ts))"
    using Cons.prems by (intro read_expr stops_commas assms(3)) simp
  then show ?case using Cons.IH [of f "acc @ [e]"] Cons.prems
    by (subst par_lim_step) (simp add: par_step_def par_args_def sep_by_commas)
qed

lemma read_items:
  assumes "list_all (reads_back ops) es" "closes ts"
  shows "par_lim ops (NT_items acc) (pos (commas (map written es) @ ts)) = ret (N_LIST (acc @ es)) (pos ts)"
  using assms(1)
proof (induction es arbitrary: acc)
  case Nil
  then show ?case using closes_D [OF assms(2)] by (subst par_lim_step) (simp add: par_step_def par_items_def)
next
  case (Cons e es)
  have "par_lim ops NT_pipe (pos (written e @ commas (map written es) @ ts)) = ret e (pos (commas (map written es) @ ts))"
    using Cons.prems by (intro read_expr stops_commas assms(2)) simp
  then show ?case using Cons by (subst par_lim_step) (simp add: par_step_def par_items_def)
qed

definition entry_toks :: "node \<times> node \<Rightarrow> tok list" where
  "entry_toks = (\<lambda>(k, v). wrap 0 k (written k) @ tk TOK_FARROW ''=>'' # written v)"

lemma read_entry:
  assumes "reads_back ops k" "reads_back ops v" "writable k" "stops 6 ts"
  shows "par_lim ops (NT_entries acc) (pos (entry_toks (k, v) @ ts)) =
    (if p_type (pos ts) = TOK_COMMA then par_lim ops (NT_entries (acc @ [(k, v)])) (par_adv (pos ts))
     else ret (N_MAP (acc @ [(k, v)])) (pos ts))"
proof -
  let ?w = "wrap 0 k (written k)" and ?r = "tk TOK_FARROW ''=>'' # written v @ ts"
  have far: "stops j ?r" if "j \<le> 6" for j using that by (simp add: stops_def tok_level_def)
  have prim: "par_lim ops (nt_of 0) (pos (?w @ ?r)) = ret k (pos ?r)" using read_at [OF assms(1), of 0 ?r] far [of 0] by simp
  then have pipe: "par_lim ops (nt_of 6) (pos (?w @ ?r)) = ret k (pos ?r)" by (rule climb_to) (simp_all add: far)
  have key: "par_lim ops nt (pos (?w @ ?r)) = ret k (pos ?r)" if "nt = NT_primary \<or> nt = NT_pipe" for nt
    using that prim pipe by (auto simp: numeral_eq_Suc)
  have val: "par_lim ops NT_pipe (pos (written v @ ts)) = ret v (pos ts)" using read_expr [OF assms(2,4)] .
  have ok: "\<forall>t\<in>set ?w. tok_ok t" using written_ok [OF assms(3)] by (simp only: wrap_ok)
  have "?w \<noteq> []" using opens_wrap [OF written_opens [OF assms(3)]] by (simp add: opens_def)
  then obtain t us where w: "?w = t # us" by (cases ?w) auto
  have "p_type (par_adv (pos (?w @ ?r))) \<noteq> TOK_COLON" using ok w by (cases us) (auto simp: tok_ok_def)
  then show ?thesis using key val
    by (subst par_lim_step) (auto simp: par_step_def par_entries_def par_entry_rest_def entry_toks_def)
qed

lemma read_entries:
  assumes "list_all (\<lambda>(k, v). reads_back ops k \<and> reads_back ops v \<and> writable k) (x # es)" "closes ts"
  shows "par_lim ops (NT_entries acc) (pos (sep_by (map entry_toks (x # es)) @ ts)) = ret (N_MAP (acc @ x # es)) (pos ts)"
  using assms(1)
proof (induction es arbitrary: x acc)
  case Nil
  obtain k v where "x = (k, v)" by (cases x)
  then show ?case using Nil read_entry [of ops k v ts acc] stops_commas [OF assms(2), of "[]"] closes_D [OF assms(2)] by simp
next
  case (Cons y es)
  obtain k v where x: "x = (k, v)" by (cases x)
  let ?r = "commas (map entry_toks (y # es)) @ ts"
  have "par_lim ops (NT_entries acc) (pos (entry_toks (k, v) @ ?r)) = par_lim ops (NT_entries (acc @ [(k, v)])) (par_adv (pos ?r))"
    using read_entry [of ops k v ?r acc] Cons.prems x stops_commas [OF assms(2), of "map entry_toks (y # es)"] by simp
  moreover have "par_adv (pos ?r) = pos (sep_by (map entry_toks (y # es)) @ ts)" by (simp add: sep_by_commas)
  ultimately show ?case using Cons.IH [of y "acc @ [x]"] Cons.prems x by (simp add: sep_by_commas)
qed

subsection \<open>Every writable expression\<close>

text \<open>What is assumed of \<^verbatim>\<open>atof\<close> and the conversion: the integers that a double holds exactly are read exactly.\<close>

definition num_exact :: "num_ops \<Rightarrow> bool" where
  "num_exact ops \<longleftrightarrow> (\<forall>n < 2 ^ 53. n_to_int ops (n_atof ops (show_nat n)) = of_nat n)"

lemma primary_backI:
  assumes "level e = 0" "\<And>ts. stops 0 ts \<Longrightarrow> par_lim ops NT_primary (pos (written e @ ts)) = ret e (pos ts)"
  shows "reads_back ops e"
  using assms by (intro reads_backI) (auto simp: loop_levels_def)

lemma int_back:
  assumes "num_exact ops" "0 \<le> sint i" "sint i < 2 ^ 53"
  shows "reads_back ops (N_INT i)"
proof (rule primary_backI)
  have n: "nat (sint i) < 2 ^ 53" using assms(2,3) by (simp add: nat_less_iff)
  have "n_to_int ops (n_atof ops (show_nat (nat (sint i)))) = i"
    using assms(1) n assms(2) unfolding num_exact_def by simp
  moreover have "CHR ''.'' \<notin> set (show_nat n)" for n using show_nat_digits [of n] by (auto simp: is_digit_def)
  ultimately show "par_lim ops NT_primary (pos (written (N_INT i) @ ts)) = ret (N_INT i) (pos ts)" for ts
    by (simp add: lim_primary par_primary_def par_number_def)
qed simp

lemma string_back:
  assumes "plain_string s"
  shows "reads_back ops (N_STRING s)"
proof (rule primary_backI)
  have "restore_hash s = s" using assms by (induction s) (auto simp: restore_hash_def plain_string_def split: if_splits option.splits)
  then show "par_lim ops NT_primary (pos (written (N_STRING s) @ ts)) = ret (N_STRING s) (pos ts)" for ts
    using assms by (simp add: lim_primary par_primary_def par_string_def plain_string_def)
qed simp

lemma word_back: "reads_back ops (N_ATOM a)" "reads_back ops (N_IDENT x)" "reads_back ops N_SELF"
  by (rule primary_backI; auto simp: lim_primary par_primary_def par_ident_def par_self_def stops_def tok_level_def Let_def)+

lemma p_type_opens: "opens ts \<Longrightarrow> p_type (pos (ts @ us)) \<notin> {TOK_RBRACE, TOK_RPAREN, TOK_RBRACKET}"
  by (cases ts) (auto simp: opens_def)

lemma p_type_sep:
  assumes "writable e"
  shows "p_type (pos (sep_by (map written (e # es)) @ ts)) \<notin> {TOK_RBRACE, TOK_RPAREN, TOK_RBRACKET}"
  using p_type_opens [OF written_opens [OF assms]] by (simp add: sep_by_commas)

lemma coll_back:
  assumes "list_all (\<lambda>e. writable e \<and> reads_back ops e) es"
  shows "reads_back ops (N_TUPLE es)" "reads_back ops (N_LIST es)" "reads_back ops (N_CALL 1 f es)"
proof -
  have rb: "list_all (reads_back ops) es" using assms by (auto simp: list_all_iff)
  have cl: "closes (tk TOK_RBRACE ''}'' # ts)" "closes (tk TOK_RBRACKET '']'' # ts)" "closes (tk TOK_RPAREN '')'' # ts)" for ts
    by (simp_all add: closes_def)
  have args: "par_lim ops (NT_args []) (pos (sep_by (map written es) @ ts)) = ret (N_LIST es) (pos ts) \<and>
      p_type (pos (sep_by (map written es) @ ts)) \<notin> {TOK_RBRACE, TOK_RPAREN, TOK_RBRACKET}"
    if "es \<noteq> []" "closes ts" for ts
    using that rb read_args [where acc = "[]"] p_type_sep assms by (cases es) auto
  show "reads_back ops (N_TUPLE es)"
    using args [OF _ cl(1)] by (intro primary_backI) (cases "es = []"; simp add: lim_primary par_primary_def par_tuple_def)+
  show "reads_back ops (N_CALL 1 f es)"
    using args [OF _ cl(3)] by (intro primary_backI) (cases "es = []"; simp add: lim_primary par_primary_def par_ident_def par_call_def)+
  show "reads_back ops (N_LIST es)"
  proof (rule primary_backI)
    fix ts
    show "par_lim ops NT_primary (pos (written (N_LIST es) @ ts)) = ret (N_LIST es) (pos ts)"
    proof (cases es)
      case (Cons x xs)
      let ?r = "commas (map written xs) @ tk TOK_RBRACKET '']'' # ts"
      have "par_lim ops NT_pipe (pos (written x @ ?r)) = ret x (pos ?r)"
        using rb Cons stops_commas [OF cl(2)] by (intro read_expr) simp_all
      moreover have "par_lim ops (NT_items [x]) (pos ?r) = ret (N_LIST (x # xs)) (pos (tk TOK_RBRACKET '']'' # ts))"
        using read_items [OF _ cl(2), of ops xs "[x]"] rb Cons by simp
      moreover have "p_type (pos ?r) \<noteq> TOK_BAR" by (cases xs) simp_all
      moreover have "p_type (pos (written x @ ?r)) \<noteq> TOK_RBRACKET"
        using p_type_opens [OF written_opens] assms Cons by auto
      ultimately show ?thesis using Cons by (simp add: lim_primary par_primary_def par_list_def sep_by_commas)
    qed (simp add: lim_primary par_primary_def par_list_def)
  qed simp
qed

lemma closed_back:
  assumes "reads_back ops a" "reads_back ops b" "writable a"
  shows "reads_back ops (N_LIST_CONS a b)" "reads_back ops (N_SPAWN a)" "reads_back ops (N_SEND a b)"
    "reads_back ops (N_UNARY a (CHR ''-''))"
proof -
  have stop: "stops 6 (tk ty s # ts)" if "ty \<in> {TOK_BAR, TOK_RBRACKET, TOK_RPAREN, TOK_COMMA}" for ty s ts
    using that by (auto simp: stops_def tok_level_def)
  note rd = read_expr [OF assms(1) stop] read_expr [OF assms(2) stop]
  have "p_type (pos (written a @ ts)) \<noteq> TOK_RBRACKET" for ts using p_type_opens [OF written_opens [OF assms(3)]] by auto
  then show "reads_back ops (N_LIST_CONS a b)"
    by (intro primary_backI) (simp_all add: lim_primary par_primary_def par_list_def rd)
  show "reads_back ops (N_SPAWN a)" by (intro primary_backI) (simp_all add: lim_primary par_primary_def par_spawn_def rd)
  show "reads_back ops (N_SEND a b)" by (intro primary_backI) (simp_all add: lim_primary par_primary_def par_send_def rd)
  have "par_lim ops NT_primary (pos (wrap 0 a (written a) @ ts)) = ret a (pos ts)" if "stops 0 ts" for ts
    using read_at [OF assms(1), of 0 ts] that by simp
  then show "reads_back ops (N_UNARY a (CHR ''-''))"
    by (intro primary_backI) (simp_all add: lim_primary [of _ "pos (_ # _)"] par_primary_def par_neg_def)
qed

lemma map_back:
  assumes "list_all (\<lambda>(k, v). (writable k \<and> reads_back ops k) \<and> writable v \<and> reads_back ops v) es"
  shows "reads_back ops (N_MAP es)"
proof (rule primary_backI)
  fix ts
  have w: "written (N_MAP es) = tk TOK_PERCENT ''%'' # tk TOK_LBRACE ''{'' # sep_by (map entry_toks es) @ [tk TOK_RBRACE ''}'']"
    by (simp add: entry_toks_def)
  show "par_lim ops NT_primary (pos (written (N_MAP es) @ ts)) = ret (N_MAP es) (pos ts)"
  proof (cases es)
    case Nil
    then show ?thesis by (simp add: lim_primary par_primary_def par_map_def)
  next
    case (Cons x xs)
    let ?r = "tk TOK_RBRACE ''}'' # ts"
    obtain k v where x: "x = (k, v)" by (cases x)
    have "closes ?r" by (simp add: closes_def)
    moreover have "list_all (\<lambda>(k, v). reads_back ops k \<and> reads_back ops v \<and> writable k) (x # xs)"
      using assms Cons by (auto simp: list_all_iff)
    ultimately have "par_lim ops (NT_entries []) (pos (sep_by (map entry_toks es) @ ?r)) = ret (N_MAP es) (pos ?r)"
      using read_entries [where acc = "[]"] Cons by simp
    moreover have "opens (entry_toks x)"
      using opens_append [OF opens_wrap [OF written_opens]] assms Cons x by (simp add: entry_toks_def)
    then have "p_type (pos (sep_by (map entry_toks es) @ ?r)) \<noteq> TOK_RBRACE"
      using p_type_opens [of "entry_toks x"] Cons by (simp add: sep_by_commas)
    ultimately show ?thesis unfolding w using Cons by (simp add: lim_primary par_primary_def par_map_def)
  qed
qed simp

text \<open>Operators: the loop of their level takes them and their right operand.\<close>

lemma loop_op:
  assumes "op \<in> set (map fst op_info)"
  shows "par_lim ops (loop_of (op_level op) l) (pos (tk (op_type op) op # ts)) =
    bindp (par_lim ops (nt_of (op_level op - 1)) (pos ts)) (\<lambda>r p. par_lim ops (loop_of (op_level op) (N_BINOP l r op)) p)"
  using assms
  by (subst par_lim_step)
    (auto simp: op_info_def op_level_def op_type_def par_step_def bin_loop_def mul_ops_def add_ops_def cmp_ops_def logic_ops_def
      strncpy_def numeral_eq_Suc)

lemma op_facts: "op \<in> set (map fst op_info) \<Longrightarrow> op_level op \<in> loop_levels \<and> tok_level (op_type op) = op_level op \<and> 0 < op_level op"
proof -
  have "list_all (\<lambda>op. op_level op \<in> {1, 2, 4, 5, 6} \<and> tok_level (op_type op) = op_level op \<and> 0 < op_level op) (map fst op_info)"
    by code_simp
  then show "op \<in> set (map fst op_info) \<Longrightarrow> op_level op \<in> loop_levels \<and> tok_level (op_type op) = op_level op \<and> 0 < op_level op"
    by (auto simp: list_all_iff loop_levels_def)
qed

lemma go_on: "reads_back ops e \<Longrightarrow> k \<in> loop_levels \<Longrightarrow> stops (k - 1) ts \<Longrightarrow>
    par_lim ops (nt_of k) (pos (wrap k e (written e) @ ts)) = par_lim ops (loop_of k e) (pos ts)"
  by (simp add: reads_back_def)

lemma infix_back:
  assumes "level e = k" "k \<in> loop_levels"
    and left: "\<And>ts. stops (k - 1) ts \<Longrightarrow> par_lim ops (nt_of k) (pos (written e @ ts)) = par_lim ops (loop_of k e) (pos ts)"
  shows "reads_back ops e"
proof (rule reads_backI)
  fix ts assume "stops (level e) ts"
  then show "par_lim ops (nt_of (level e)) (pos (written e @ ts)) = ret e (pos ts)"
    using left [of ts] loop_stops [OF assms(2), of ts ops e] stops_less [of k ts "k - 1"] assms(1) by simp
next
  fix ts assume "level e \<in> loop_levels" "stops (level e - 1) ts"
  then show "par_lim ops (nt_of (level e)) (pos (written e @ ts)) = par_lim ops (loop_of (level e) e) (pos ts)"
    using left assms(1) by simp
qed (rule level_le)

lemma binop_back:
  assumes "op \<in> set (map fst op_info)" "reads_back ops l" "reads_back ops r"
  shows "reads_back ops (N_BINOP l r op)"
proof (rule infix_back)
  let ?k = "op_level op"
  have k: "?k \<in> loop_levels" "tok_level (op_type op) = ?k" "0 < ?k" using op_facts [OF assms(1)] by simp_all
  show "level (N_BINOP l r op) = ?k" by simp
  show "?k \<in> loop_levels" by (rule k)
  fix ts assume s: "stops (?k - 1) ts"
  let ?r = "wrap (?k - 1) r (written r) @ ts"
  have "stops (?k - 1) (tk (op_type op) op # ?r)" using k by (simp add: stops_def)
  then have "par_lim ops (nt_of ?k) (pos (written (N_BINOP l r op) @ ts)) = par_lim ops (loop_of ?k l) (pos (tk (op_type op) op # ?r))"
    using go_on [OF assms(2) k(1), of "tk (op_type op) op # ?r"] by simp
  also have "\<dots> = par_lim ops (loop_of ?k (N_BINOP l r op)) (pos ts)"
    unfolding loop_op [OF assms(1)] using read_at [OF assms(3) _ s] op_level_le [of op] by simp
  finally show "par_lim ops (nt_of ?k) (pos (written (N_BINOP l r op) @ ts)) = par_lim ops (loop_of ?k (N_BINOP l r op)) (pos ts)" .
qed

lemma range_back:
  assumes "reads_back ops a" "reads_back ops b"
  shows "reads_back ops (N_RANGE a b)"
proof (rule reads_backI)
  fix ts assume "stops (level (N_RANGE a b)) ts"
  then have "stops 2 ts" by (simp add: stops_def)
  then have "par_lim ops NT_add (pos (wrap 2 b (written b) @ ts)) = ret b (pos ts)" using read_at [OF assms(2), of 2 ts] by simp
  moreover have "stops 2 (tk TOK_DOTDOT ''..'' # us)" for us by (simp add: stops_def tok_level_def)
  then have "par_lim ops NT_add (pos (wrap 2 a (written a) @ tk TOK_DOTDOT ''..'' # us)) = ret a (pos (tk TOK_DOTDOT ''..'' # us))" for us
    using read_at [OF assms(1), of 2] by simp
  ultimately show "par_lim ops (nt_of (level (N_RANGE a b))) (pos (written (N_RANGE a b) @ ts)) = ret (N_RANGE a b) (pos ts)"
    by (simp add: lim_range)
qed (simp_all add: loop_levels_def)

lemma pipe_back:
  assumes "reads_back ops a" "reads_back ops b" "writable b"
  shows "reads_back ops (N_PIPE 1 a b)"
proof (rule infix_back)
  show "level (N_PIPE 1 a b) = 6" by simp
  show k: "6 \<in> loop_levels" by (simp add: loop_levels_def)
  fix ts assume s: "stops (6 - 1) ts"
  let ?w = "wrap 5 b (written b)"
  obtain t us where w: "?w = t # us" using opens_wrap [OF written_opens [OF assms(3)], of 5 b] by (cases ?w) (auto simp: opens_def)
  have line: "tk_line t = 1"
    using written_ok [OF assms(3)] wrap_ok [of 5 b "written b"] w by (simp add: tok_ok_def)
  have "par_lim ops (nt_of 6) (pos (written (N_PIPE 1 a b) @ ts)) = par_lim ops (loop_of 6 a) (pos (tk TOK_PIPE ''|>'' # ?w @ ts))"
    using go_on [OF assms(1) k, of "tk TOK_PIPE ''|>'' # ?w @ ts"] by (simp add: stops_def tok_level_def)
  also have "\<dots> = bindp (par_lim ops NT_logic (pos (?w @ ts))) (\<lambda>f p. par_lim ops (NT_pipe_loop (N_PIPE 1 a f)) p)"
    using w line by (subst par_lim_step) (simp add: par_step_def par_pipe_loop_def)
  also have "\<dots> = par_lim ops (loop_of 6 (N_PIPE 1 a b)) (pos ts)"
    using read_at [OF assms(2), of 5 ts] s by (simp add: numeral_eq_Suc)
  finally show "par_lim ops (nt_of 6) (pos (written (N_PIPE 1 a b) @ ts)) = par_lim ops (loop_of 6 (N_PIPE 1 a b)) (pos ts)" .
qed

lemma writable_back:
  assumes "num_exact ops"
  shows "writable e \<Longrightarrow> reads_back ops e"
proof (induction rule: writable.induct)
  case (w_int i)
  then show ?case using int_back [OF assms] by blast
next
  case (w_send a b)
  then show ?case by (intro closed_back) simp_all
qed (blast intro: string_back word_back coll_back closed_back map_back binop_back range_back pipe_back)+

section \<open>Property\<close>

text \<open>
  C20. Round trip of the parser: an expression, written out with parentheses only where the precedence and the left
  associativity of the operators need them, is read back from that text, given that \<^verbatim>\<open>atof\<close> reads integers below
  \<open>2\<^sup>5\<^sup>3\<close> exactly.
\<close>

theorem parser_round_trip:
  assumes "num_exact ops" "writable e"
  shows "par_expr_string ops (concat (map (\<lambda>t. spell t @ '' '') (written e))) = Some (Inr (Some e))"
proof -
  let ?s = "concat (map (\<lambda>t. spell t @ '' '') (written e))"
  have "tokens ?s 1 = Inr (written e)" using written_ok [OF assms(2)] by (intro tokens_spell) (simp add: tok_ok_def)
  then have "lex_stream ?s 1 = (written e, None)" by (auto simp: tokens_def split: prod.splits option.splits)
  then have init: "par_init ?s = pos (written e)" by (simp add: par_init_def)
  have "need NT_pipe (par_init ?s) \<le> par_depth ?s" using init_cost [of ?s] by (simp add: need_def par_depth_def)
  then have "par_run ops (par_depth ?s) NT_pipe (par_init ?s) = par_lim ops NT_pipe (pos (written e))"
    using par_lim_eq init by simp
  also have "\<dots> = ret e (pos [])"
    using read_expr [OF writable_back [OF assms], of "[]"] by (simp add: stops_def tok_level_def)
  finally show ?thesis by (simp add: par_expr_string_def)
qed

definition demo_ops :: num_ops where
  "demo_ops = \<lparr>n_atof = (\<lambda>s. of_nat (digits_val 0 s)), n_to_int = id\<rparr>"

definition demo_expr :: node where
  "demo_expr =
     N_PIPE 1 (N_BINOP (N_BINOP (N_INT 1) (N_INT 2) ''+'') (N_UNARY (N_BINOP (N_IDENT ''x'') (N_INT 3) ''-'') (CHR ''-'')) ''*'')
       (N_CALL 1 ''show'' [N_LIST [N_STRING ''a b'', N_ATOM ''ok''], N_MAP [(N_ATOM ''k'', N_RANGE (N_INT 1) (N_INT 9))]])"

theorem parser_round_trip_witness:
  "par_expr_string demo_ops (concat (map (\<lambda>t. spell t @ '' '') (written demo_expr))) = Some (Inr (Some demo_expr))"
proof (rule parser_round_trip)
  show "num_exact demo_ops" by (simp add: num_exact_def demo_ops_def digits_val_show)
  have n: "is_name ''x''" "is_name ''show''" "plain_string ''a b''" "plain_atom ''ok''" "plain_atom ''k''" by code_simp+
  have o: "''+'' \<in> set (map fst op_info)" "''-'' \<in> set (map fst op_info)" "''*'' \<in> set (map fst op_info)" by (simp_all add: op_info_def)
  have i: "writable (N_INT 1)" "writable (N_INT 2)" "writable (N_INT 3)" "writable (N_INT 9)" by (intro w_int; simp)+
  show "writable demo_expr" unfolding demo_expr_def
    by (intro w_pipe w_binop w_unary w_ident w_call w_list w_map w_range n o i) (simp_all add: i n w_list w_string w_atom w_map w_range)
qed

end
