(* ===== verification/Lang_Eval.thy ===== *)
theory Lang_Eval
  imports Lang_Parser "HOL-Library.Signed_Division"
begin

text \<open>
  The evaluator of the \<^verbatim>\<open>.sw\<close> language, \<^verbatim>\<open>src/src/swarmrt_lang.c\<close>: environments, pattern matching, builtins and \<^verbatim>\<open>eval\<close>.
  Environments are numbered in the order of their creation and stay in the store when they are freed, marked; a
  reference to a freed one is a fault. What a process receives is a supply in the state; what it sends and prints is
  logged. Floating-point operations and the format of doubles are arguments. Integers wrap at 64 bits, as the compiled
  code computes.
\<close>

section \<open>Environments\<close>

definition SW_ENV_SLOTS :: nat where [const_simps]: "SW_ENV_SLOTS = 32"

record sw_env =
  e_buckets :: "(string \<times> sw_val) list list"
  e_parent :: "nat option"
  e_freed :: bool

definition env_new :: "nat option \<Rightarrow> sw_env" where
  "env_new parent = \<lparr>e_buckets = replicate SW_ENV_SLOTS [], e_parent = parent, e_freed = False\<rparr>"

fun env_hash_step :: "u32 \<Rightarrow> string \<Rightarrow> u32" where
  "env_hash_step h [] = h"
| "env_hash_step h (c # s) = env_hash_step (h * 33 + of_nat (of_char c)) s"

definition env_hash :: "string \<Rightarrow> nat" where
  "env_hash s = unat (env_hash_step 5381 s) mod SW_ENV_SLOTS"

fun chain_set :: "(string \<times> sw_val) list \<Rightarrow> string \<Rightarrow> sw_val \<Rightarrow> (string \<times> sw_val) list option" where
  "chain_set [] name val = None"
| "chain_set ((x, v) # ents) name val =
     (if x = name then Some ((x, val) # ents) else map_option ((#) (x, v)) (chain_set ents name val))"

definition env_set :: "string \<Rightarrow> sw_val \<Rightarrow> sw_env \<Rightarrow> sw_env" where
  "env_set name val e =
     (let h = env_hash name; b = e_buckets e ! h
      in e\<lparr>e_buckets := (e_buckets e)[h := (case chain_set b name val of Some b' \<Rightarrow> b' | None \<Rightarrow> (name, val) # b)]\<rparr>)"

definition env_find :: "sw_env \<Rightarrow> string \<Rightarrow> sw_val option" where
  "env_find e name = map_of (e_buckets e ! env_hash name) name"

section \<open>State of the interpreter\<close>

datatype ev_fault = Ev_freed_env | Ev_div_trap | Ev_concat_overrun

datatype sw_val_type =
  SW_VAL_NIL | SW_VAL_INT | SW_VAL_FLOAT | SW_VAL_STRING | SW_VAL_ATOM | SW_VAL_PID | SW_VAL_TUPLE | SW_VAL_LIST | SW_VAL_FUN | SW_VAL_MAP

fun val_type :: "sw_val \<Rightarrow> sw_val_type" where
  "val_type V_nil = SW_VAL_NIL" | "val_type (V_int _) = SW_VAL_INT" | "val_type (V_float _) = SW_VAL_FLOAT"
| "val_type (V_string _) = SW_VAL_STRING" | "val_type (V_atom _) = SW_VAL_ATOM" | "val_type (V_pid _) = SW_VAL_PID"
| "val_type (V_tuple _) = SW_VAL_TUPLE" | "val_type (V_list _) = SW_VAL_LIST" | "val_type (V_fun _ _) = SW_VAL_FUN"
| "val_type (V_map _) = SW_VAL_MAP"

text \<open>A message as it is sent: one flat value.\<close>

record sw_msg_val =
  mv_type :: sw_val_type
  mv_ival :: int64
  mv_fval :: double
  mv_count :: nat
  mv_sval :: string

record istate =
  i_envs :: "sw_env list"
  i_error :: bool
  i_error_msg :: string
  i_assert_failed :: bool
  i_assert_msg :: string
  i_assert_line :: nat
  i_out :: string
  i_sent :: "(proc_ref \<times> sw_msg_val) list"
  i_inbox :: "sw_msg_val option list"

text \<open>
  The floating-point operations of the machine and the C library; \<open>f_show\<close> is the format \<^verbatim>\<open>%.17g\<close> of \<^verbatim>\<open>sw_val_print\<close>, \<open>f_show_g\<close>
  the format \<^verbatim>\<open>%g\<close> of \<^verbatim>\<open>to_string\<close> and of assertion messages.
\<close>

record fp_ops =
  f_add :: "double \<Rightarrow> double \<Rightarrow> double"
  f_sub :: "double \<Rightarrow> double \<Rightarrow> double"
  f_mul :: "double \<Rightarrow> double \<Rightarrow> double"
  f_div :: "double \<Rightarrow> double \<Rightarrow> double"
  f_of_int :: "int64 \<Rightarrow> double"
  f_show :: "double \<Rightarrow> string"
  f_show_g :: "double \<Rightarrow> string"

record iconf =
  c_mod :: lang_module
  c_global :: nat
  c_self :: "proc_ref option"
  c_fp :: fp_ops
  c_pid_num :: "proc_ref \<Rightarrow> nat"

type_synonym 'a eres = "(ev_fault + 'a \<times> istate) option"

definition retE :: "'a \<Rightarrow> istate \<Rightarrow> 'a eres" where
  "retE x s = Some (Inr (x, s))"

definition faultE :: "ev_fault \<Rightarrow> 'a eres" where
  "faultE f = Some (Inl f)"

definition bindE :: "'a eres \<Rightarrow> ('a \<Rightarrow> istate \<Rightarrow> 'b eres) \<Rightarrow> 'b eres" where
  "bindE r k = (case r of None \<Rightarrow> None | Some (Inl f) \<Rightarrow> Some (Inl f) | Some (Inr (x, s)) \<Rightarrow> k x s)"

definition env_live :: "istate \<Rightarrow> nat \<Rightarrow> bool" where
  "env_live s e \<longleftrightarrow> e < length (i_envs s) \<and> \<not> e_freed (i_envs s ! e)"

text \<open>A lookup along the parents, which are older and so have smaller numbers.\<close>

function env_get :: "istate \<Rightarrow> nat \<Rightarrow> string \<Rightarrow> ev_fault + sw_val option" where
  "env_get s e name =
     (if \<not> env_live s e then Inl Ev_freed_env
      else case env_find (i_envs s ! e) name of
             Some v \<Rightarrow> Inr (Some v)
           | None \<Rightarrow> (case e_parent (i_envs s ! e) of
                        None \<Rightarrow> Inr None
                      | Some p \<Rightarrow> if p < e then env_get s p name else Inl Ev_freed_env))"
  by pat_completeness auto
termination
  by (relation "measure (\<lambda>(s, e, name). e)") auto

declare env_get.simps [simp del]

definition env_put :: "nat \<Rightarrow> string \<Rightarrow> sw_val \<Rightarrow> istate \<Rightarrow> unit eres" where
  "env_put e name val s =
     (if env_live s e then retE () (s\<lparr>i_envs := (i_envs s)[e := env_set name val (i_envs s ! e)]\<rparr>) else faultE Ev_freed_env)"

definition env_alloc :: "sw_env \<Rightarrow> istate \<Rightarrow> istate" where
  "env_alloc e s = s\<lparr>i_envs := i_envs s @ [e]\<rparr>"

definition env_free :: "nat \<Rightarrow> istate \<Rightarrow> istate" where
  "env_free e s = s\<lparr>i_envs := (i_envs s)[e := (i_envs s ! e)\<lparr>e_freed := True\<rparr>]\<rparr>"

section \<open>Functions, patterns, messages\<close>

fun fun_name :: "node \<Rightarrow> string" where
  "fun_name (N_FUN name _ _) = name"
| "fun_name _ = []"

fun fun_params :: "node \<Rightarrow> (string \<times> node option) list" where
  "fun_params (N_FUN _ ps _) = ps"
| "fun_params _ = []"

fun fun_body :: "node \<Rightarrow> node" where
  "fun_body (N_FUN _ _ b) = b"
| "fun_body _ = N_BLOCK []"

definition find_fun :: "lang_module \<Rightarrow> string \<Rightarrow> node option" where
  "find_fun m name = List.find (\<lambda>f. fun_name f = name) (m_funs m)"

fun pattern_key :: "node \<Rightarrow> sw_val option" where
  "pattern_key (N_ATOM a) = Some (V_atom a)"
| "pattern_key (N_STRING s) = Some (V_string s)"
| "pattern_key (N_INT i) = Some (V_int i)"
| "pattern_key _ = None"

text \<open>Whether a value matches, and the environment with the bindings made so far, also when it does not.\<close>

fun pattern_match :: "node \<Rightarrow> sw_val \<Rightarrow> sw_env \<Rightarrow> bool \<times> sw_env"
  and match_all :: "node list \<Rightarrow> sw_val list \<Rightarrow> sw_env \<Rightarrow> bool \<times> sw_env"
  and match_entries :: "(node \<times> node) list \<Rightarrow> sw_val \<Rightarrow> sw_env \<Rightarrow> bool \<times> sw_env" where
  "pattern_match (N_IDENT x) val e = (True, env_set x val e)"
| "pattern_match (N_INT i) val e = (val = V_int i, e)"
| "pattern_match (N_FLOAT f) val e = ((case val of V_float g \<Rightarrow> f_eq g f | _ \<Rightarrow> False), e)"
| "pattern_match (N_STRING t) val e = (val = V_string t, e)"
| "pattern_match (N_ATOM t) val e = (val = V_atom t, e)"
| "pattern_match (N_TUPLE ps) val e =
     (case val of V_tuple vs \<Rightarrow> if length vs = length ps then match_all ps vs e else (False, e) | _ \<Rightarrow> (False, e))"
| "pattern_match (N_LIST ps) val e =
     (case val of V_list vs \<Rightarrow> if length vs = length ps then match_all ps vs e else (False, e) | _ \<Rightarrow> (False, e))"
| "pattern_match (N_LIST_CONS h t) val e =
     (case val of
        V_list (v # vs) \<Rightarrow> (case pattern_match h v e of (m, e') \<Rightarrow> if m then pattern_match t (V_list vs) e' else (False, e'))
      | _ \<Rightarrow> (False, e))"
| "pattern_match (N_MAP es) val e = (case val of V_map _ \<Rightarrow> match_entries es val e | _ \<Rightarrow> (False, e))"
| "pattern_match _ val e = (False, e)"
| "match_all [] vs e = (True, e)"
| "match_all (p # ps) vs e =
     (case vs of
        [] \<Rightarrow> (False, e)
      | v # vs' \<Rightarrow> (case pattern_match p v e of (m, e') \<Rightarrow> if m then match_all ps vs' e' else (False, e')))"
| "match_entries [] val e = (True, e)"
| "match_entries ((k, p) # es) val e =
     (case pattern_key k of
        None \<Rightarrow> (False, e)
      | Some key \<Rightarrow>
          let found = sw_val_map_get val key
          in if found = V_nil then (False, e)
             else (case pattern_match p found e of (m, e') \<Rightarrow> if m then match_entries es val e' else (False, e')))"

definition serialize_val :: "sw_val \<Rightarrow> sw_msg_val" where
  "serialize_val v =
     (let m = \<lparr>mv_type = val_type v, mv_ival = 0, mv_fval = 0, mv_count = 0, mv_sval = []\<rparr>
      in case v of
           V_int i \<Rightarrow> m\<lparr>mv_ival := i\<rparr>
         | V_float f \<Rightarrow> m\<lparr>mv_fval := f\<rparr>
         | V_string t \<Rightarrow> m\<lparr>mv_sval := strncpy t 127\<rparr>
         | V_atom t \<Rightarrow> m\<lparr>mv_sval := strncpy t 127\<rparr>
         | V_tuple xs \<Rightarrow> m\<lparr>mv_count := length xs\<rparr>
         | V_list xs \<Rightarrow> m\<lparr>mv_count := length xs\<rparr>
         | _ \<Rightarrow> m)"

definition deserialize_val :: "sw_msg_val \<Rightarrow> sw_val" where
  "deserialize_val m =
     (case mv_type m of
        SW_VAL_INT \<Rightarrow> V_int (mv_ival m)
      | SW_VAL_FLOAT \<Rightarrow> V_float (mv_fval m)
      | SW_VAL_STRING \<Rightarrow> V_string (mv_sval m)
      | SW_VAL_ATOM \<Rightarrow> V_atom (mv_sval m)
      | _ \<Rightarrow> V_nil)"

section \<open>Builtins\<close>

definition out :: "string \<Rightarrow> istate \<Rightarrow> istate" where
  "out t s = s\<lparr>i_out := i_out s @ t\<rparr>"

fun space_sep :: "string list \<Rightarrow> string" where
  "space_sep [] = []"
| "space_sep [x] = x"
| "space_sep (x # xs) = x @ '' '' @ space_sep xs"

definition builtin_print :: "iconf \<Rightarrow> sw_val list \<Rightarrow> istate \<Rightarrow> sw_val eres" where
  "builtin_print c args s =
     retE (V_atom ''ok'') (out (space_sep (map (sw_val_print (f_show (c_fp c)) (c_pid_num c)) args) @ [CHR 0x0A]) s)"

definition builtin_length :: "sw_val list \<Rightarrow> sw_val" where
  "builtin_length args =
     (case args of
        V_list xs # _ \<Rightarrow> V_int (of_nat (length xs))
      | V_tuple xs # _ \<Rightarrow> V_int (of_nat (length xs))
      | V_string t # _ \<Rightarrow> V_int (of_nat (length t))
      | _ \<Rightarrow> V_int 0)"

definition builtin_hd :: "sw_val list \<Rightarrow> sw_val" where
  "builtin_hd args = (case args of V_list (x # _) # _ \<Rightarrow> x | _ \<Rightarrow> V_nil)"

definition builtin_tl :: "sw_val list \<Rightarrow> sw_val" where
  "builtin_tl args = (case args of V_list (_ # xs) # _ \<Rightarrow> V_list xs | _ \<Rightarrow> V_list [])"

definition builtin_elem :: "sw_val list \<Rightarrow> sw_val" where
  "builtin_elem args =
     (case args of
        V_tuple xs # V_int i # _ \<Rightarrow>
          let idx = sint (ucast i :: 32 word) in if idx < 0 \<or> int (length xs) \<le> idx then V_nil else xs ! nat idx
      | _ \<Rightarrow> V_nil)"

definition assert_fail :: "string \<Rightarrow> nat \<Rightarrow> istate \<Rightarrow> sw_val eres" where
  "assert_fail msg line s =
     retE (V_atom ''error'') (s\<lparr>i_assert_failed := True, i_assert_line := line, i_assert_msg := take 511 msg\<rparr>)"

definition builtin_assert :: "sw_val list \<Rightarrow> nat \<Rightarrow> istate \<Rightarrow> sw_val eres" where
  "builtin_assert args line s =
     (if args = [] \<or> \<not> sw_val_is_truthy (hd args) then
        (case args of _ # V_string t # _ \<Rightarrow> assert_fail (''assertion failed: '' @ t) line s | _ \<Rightarrow> assert_fail ''assertion failed'' line s)
      else retE (V_atom ''ok'') s)"

definition val_to_str :: "iconf \<Rightarrow> sw_val \<Rightarrow> string" where
  "val_to_str c v =
     take 127 (case v of
        V_nil \<Rightarrow> ''nil''
      | V_int i \<Rightarrow> show_int i
      | V_float x \<Rightarrow> f_show_g (c_fp c) x
      | V_string t \<Rightarrow> [CHR 0x22] @ t @ [CHR 0x22]
      | V_atom t \<Rightarrow> CHR '':'' # t
      | V_pid _ \<Rightarrow> ''#PID''
      | V_fun _ _ \<Rightarrow> ''#Fun''
      | _ \<Rightarrow> ''<val>'')"

definition builtin_assert_eq :: "iconf \<Rightarrow> sw_val list \<Rightarrow> nat \<Rightarrow> istate \<Rightarrow> sw_val eres" where
  "builtin_assert_eq c args line s =
     (case args of
        a # b # _ \<Rightarrow>
          if sw_val_equal a b then retE (V_atom ''ok'') s
          else assert_fail (''expected '' @ val_to_str c b @ '', got '' @ val_to_str c a) line s
      | _ \<Rightarrow> assert_fail ''assert_eq requires 2 arguments'' line s)"

definition builtin_assert_ne :: "sw_val list \<Rightarrow> nat \<Rightarrow> istate \<Rightarrow> sw_val eres" where
  "builtin_assert_ne args line s =
     (case args of
        a # b # _ \<Rightarrow> if sw_val_equal a b then assert_fail ''expected values to differ, but both are equal'' line s else retE (V_atom ''ok'') s
      | _ \<Rightarrow> assert_fail ''expected values to differ, but both are equal'' line s)"

definition builtin_to_string :: "iconf \<Rightarrow> sw_val \<Rightarrow> sw_val" where
  "builtin_to_string c v =
     (case v of
        V_int i \<Rightarrow> V_string (show_int i)
      | V_float x \<Rightarrow> V_string (take 255 (f_show_g (c_fp c) x))
      | V_string t \<Rightarrow> V_string t
      | V_atom t \<Rightarrow> V_string t
      | V_nil \<Rightarrow> V_string ''nil''
      | _ \<Rightarrow> V_string ''<val>'')"

definition type_name :: "sw_val \<Rightarrow> string" where
  "type_name v =
     (case val_type v of
        SW_VAL_NIL \<Rightarrow> ''nil'' | SW_VAL_INT \<Rightarrow> ''int'' | SW_VAL_FLOAT \<Rightarrow> ''float'' | SW_VAL_STRING \<Rightarrow> ''string'' | SW_VAL_ATOM \<Rightarrow> ''atom''
      | SW_VAL_PID \<Rightarrow> ''pid'' | SW_VAL_TUPLE \<Rightarrow> ''tuple'' | SW_VAL_LIST \<Rightarrow> ''list'' | SW_VAL_FUN \<Rightarrow> ''fun'' | SW_VAL_MAP \<Rightarrow> ''map'')"

text \<open>The builtins without effects, in the order of the tests; \<^term>\<open>None\<close> when none applies and the search for a function goes on.\<close>

definition pure_builtin :: "iconf \<Rightarrow> string \<Rightarrow> sw_val list \<Rightarrow> sw_val option" where
  "pure_builtin c f args =
     (if f = ''length'' then Some (builtin_length args)
      else if f = ''hd'' then Some (builtin_hd args)
      else if f = ''tl'' then Some (builtin_tl args)
      else if f = ''elem'' then Some (builtin_elem args)
      else if f = ''map_new'' then Some (V_map [])
      else case args of
             [] \<Rightarrow> None
           | a # as \<Rightarrow>
               if f = ''to_string'' then Some (builtin_to_string c a)
               else if f = ''typeof'' then Some (V_string (type_name a))
               else if f = ''abs'' then (case a of V_int i \<Rightarrow> Some (V_int (if sint i < 0 then - i else i)) | _ \<Rightarrow> None)
               else if f = ''map_keys'' then (case a of V_map es \<Rightarrow> Some (V_list (map fst es)) | _ \<Rightarrow> None)
               else if f = ''map_values'' then (case a of V_map es \<Rightarrow> Some (V_list (map snd es)) | _ \<Rightarrow> None)
               else (case as of
                       [] \<Rightarrow> None
                     | b # bs \<Rightarrow>
                         if f = ''map_get'' then Some (sw_val_map_get a b)
                         else if f = ''list_append'' then (case a of V_list xs \<Rightarrow> Some (V_list (xs @ [b])) | _ \<Rightarrow> None)
                         else if f = ''map_put'' then (case bs of v # _ \<Rightarrow> Some (sw_val_map_put a b v) | [] \<Rightarrow> None)
                         else None))"

section \<open>Operators\<close>

text \<open>
  Concatenation in a buffer of 4096 bytes. A string is cut to what fits; the digits of an integer are counted even when
  they did not fit, and the terminator is then written beyond the buffer.
\<close>

definition concat_part :: "sw_val \<Rightarrow> string \<Rightarrow> string + nat" where
  "concat_part v buf =
     (case v of
        V_string t \<Rightarrow> Inl (buf @ take (4095 - length buf) t)
      | V_int i \<Rightarrow> if length buf + length (show_int i) \<le> 4095 then Inl (buf @ show_int i) else Inr (length buf + length (show_int i))
      | _ \<Rightarrow> Inl buf)"

definition eval_concat :: "sw_val \<Rightarrow> sw_val \<Rightarrow> istate \<Rightarrow> sw_val eres" where
  "eval_concat l r s =
     (case concat_part l [] of
        Inr _ \<Rightarrow> faultE Ev_concat_overrun
      | Inl buf \<Rightarrow> (case concat_part r buf of Inr _ \<Rightarrow> faultE Ev_concat_overrun | Inl buf' \<Rightarrow> retE (V_string buf') s))"

definition v_bool :: "bool \<Rightarrow> sw_val" where
  "v_bool b = V_atom (if b then ''true'' else ''false'')"

definition int_div :: "int64 \<Rightarrow> int64 \<Rightarrow> int64" where
  "int_div a b = word_of_int (sint a sdiv sint b)"

definition int_op :: "string \<Rightarrow> int64 \<Rightarrow> int64 \<Rightarrow> (ev_fault + sw_val) option" where
  "int_op op a b =
     (if op = ''+'' then Some (Inr (V_int (a + b)))
      else if op = ''-'' then Some (Inr (V_int (a - b)))
      else if op = ''*'' then Some (Inr (V_int (a * b)))
      else if op = ''/'' then
        Some (if b = 0 then Inr V_nil
              else if sint a = - (2 ^ 63) \<and> sint b = -1 then Inl Ev_div_trap
              else Inr (V_int (int_div a b)))
      else if op = ''=='' then Some (Inr (v_bool (a = b)))
      else if op = ''!='' then Some (Inr (v_bool (a \<noteq> b)))
      else if op = ''<'' then Some (Inr (v_bool (sint a < sint b)))
      else if op = ''>'' then Some (Inr (v_bool (sint a > sint b)))
      else if op = ''<='' then Some (Inr (v_bool (sint a \<le> sint b)))
      else if op = ''>='' then Some (Inr (v_bool (sint a \<ge> sint b)))
      else None)"

definition as_float :: "fp_ops \<Rightarrow> sw_val \<Rightarrow> double option" where
  "as_float fp v = (case v of V_int i \<Rightarrow> Some (f_of_int fp i) | V_float x \<Rightarrow> Some x | _ \<Rightarrow> None)"

definition float_op :: "fp_ops \<Rightarrow> string \<Rightarrow> double \<Rightarrow> double \<Rightarrow> sw_val option" where
  "float_op fp op a b =
     (if op = ''+'' then Some (V_float (f_add fp a b))
      else if op = ''-'' then Some (V_float (f_sub fp a b))
      else if op = ''*'' then Some (V_float (f_mul fp a b))
      else if op = ''/'' then Some (if f_zero b then V_nil else V_float (f_div fp a b))
      else None)"

definition other_op :: "string \<Rightarrow> sw_val \<Rightarrow> sw_val \<Rightarrow> sw_val" where
  "other_op op l r =
     (if op = ''=='' then v_bool (sw_val_equal l r)
      else if op = ''!='' then v_bool (\<not> sw_val_equal l r)
      else if op = ''&&'' then v_bool (sw_val_is_truthy l \<and> sw_val_is_truthy r)
      else if op = ''||'' then v_bool (sw_val_is_truthy l \<or> sw_val_is_truthy r)
      else V_nil)"

definition float_or_other :: "fp_ops \<Rightarrow> string \<Rightarrow> sw_val \<Rightarrow> sw_val \<Rightarrow> sw_val" where
  "float_or_other fp op l r =
     (case (as_float fp l, as_float fp r) of
        (Some a, Some b) \<Rightarrow> (case float_op fp op a b of Some v \<Rightarrow> v | None \<Rightarrow> other_op op l r)
      | _ \<Rightarrow> other_op op l r)"

definition eval_binop :: "iconf \<Rightarrow> string \<Rightarrow> sw_val \<Rightarrow> sw_val \<Rightarrow> istate \<Rightarrow> sw_val eres" where
  "eval_binop c op l r s =
     (if op = ''++'' then eval_concat l r s
      else case (l, r) of
             (V_int a, V_int b) \<Rightarrow>
               (case int_op op a b of
                  Some (Inl f) \<Rightarrow> faultE f
                | Some (Inr v) \<Rightarrow> retE v s
                | None \<Rightarrow> retE (float_or_other (c_fp c) op l r) s)
           | _ \<Rightarrow> retE (float_or_other (c_fp c) op l r) s)"

definition eval_neg :: "char \<Rightarrow> sw_val \<Rightarrow> sw_val" where
  "eval_neg op v =
     (if op = CHR ''-'' then (case v of V_int i \<Rightarrow> V_int (- i) | V_float x \<Rightarrow> V_float (x XOR 0x8000000000000000) | _ \<Rightarrow> v) else v)"

text \<open>The elements of a range: the number of elements is cut to 32 bits before it is tested, and to 10000 after.\<close>

definition range_list :: "int64 \<Rightarrow> int64 \<Rightarrow> sw_val" where
  "range_list lo hi =
     (let cnt = sint (ucast (hi - lo + 1) :: 32 word)
      in if cnt \<le> 0 then V_list [] else V_list (map (\<lambda>i. V_int (lo + of_nat i)) [0..<min (nat cnt) 10000]))"

section \<open>Evaluation\<close>

type_synonym erec = "node \<Rightarrow> nat \<Rightarrow> istate \<Rightarrow> sw_val eres"

text \<open>Loops: the items of a collection or the arguments of a call, the entries of a map, the statements of a block.\<close>

fun eval_all :: "erec \<Rightarrow> node list \<Rightarrow> nat \<Rightarrow> istate \<Rightarrow> sw_val list eres" where
  "eval_all rec [] e s = retE [] s"
| "eval_all rec (n # ns) e s = bindE (rec n e s) (\<lambda>v s. bindE (eval_all rec ns e s) (\<lambda>vs s. retE (v # vs) s))"

fun eval_entries :: "erec \<Rightarrow> (node \<times> node) list \<Rightarrow> nat \<Rightarrow> istate \<Rightarrow> (sw_val \<times> sw_val) list eres" where
  "eval_entries rec [] e s = retE [] s"
| "eval_entries rec ((k, n) # es) e s =
     bindE (rec k e s) (\<lambda>kv s. bindE (rec n e s) (\<lambda>v s. bindE (eval_entries rec es e s) (\<lambda>vs s. retE ((kv, v) # vs) s)))"

fun eval_block :: "erec \<Rightarrow> node list \<Rightarrow> nat \<Rightarrow> sw_val \<Rightarrow> istate \<Rightarrow> sw_val eres" where
  "eval_block rec [] e v s = retE v s"
| "eval_block rec (n # ns) e v s = bindE (rec n e s) (\<lambda>v s. eval_block rec ns e v s)"

fun eval_for :: "erec \<Rightarrow> string \<Rightarrow> node \<Rightarrow> sw_val list \<Rightarrow> nat \<Rightarrow> sw_val \<Rightarrow> istate \<Rightarrow> sw_val eres" where
  "eval_for rec var body [] e v s = retE v s"
| "eval_for rec var body (x # xs) e v s =
     bindE (env_put e var x s) (\<lambda>_ s. bindE (rec body e s) (\<lambda>v s. eval_for rec var body xs e v s))"

text \<open>
  Calls: a fresh environment, the parameters bound in it, the body, and the environment freed. The parameters that have
  no argument are left unbound by a pipe and by the call of a closure; a call by name gives them their default, evaluated
  in the new environment, or nil.
\<close>

definition bind_params :: "(string \<times> node option) list \<Rightarrow> sw_val list \<Rightarrow> sw_env \<Rightarrow> sw_env" where
  "bind_params ps args e = fold (\<lambda>((x, d), v). env_set x v) (zip ps args) e"

definition run_body :: "erec \<Rightarrow> node \<Rightarrow> nat \<Rightarrow> istate \<Rightarrow> sw_val eres" where
  "run_body rec body fenv s = bindE (rec body fenv s) (\<lambda>v s. retE v (env_free fenv s))"

definition apply_fun :: "erec \<Rightarrow> node \<Rightarrow> sw_val list \<Rightarrow> nat \<Rightarrow> istate \<Rightarrow> sw_val eres" where
  "apply_fun rec fn args parent s =
     run_body rec (fun_body fn) (length (i_envs s)) (env_alloc (bind_params (fun_params fn) args (env_new (Some parent))) s)"

fun bind_defaults :: "erec \<Rightarrow> (string \<times> node option) list \<Rightarrow> nat \<Rightarrow> istate \<Rightarrow> unit eres" where
  "bind_defaults rec [] fenv s = retE () s"
| "bind_defaults rec ((x, d) # ps) fenv s =
     bindE (case d of None \<Rightarrow> retE V_nil s | Some n \<Rightarrow> rec n fenv s)
       (\<lambda>v s. bindE (env_put fenv x v s) (\<lambda>_ s. bind_defaults rec ps fenv s))"

definition call_fun :: "iconf \<Rightarrow> erec \<Rightarrow> node \<Rightarrow> sw_val list \<Rightarrow> istate \<Rightarrow> sw_val eres" where
  "call_fun c rec fn args s =
     (let fenv = length (i_envs s); ps = fun_params fn
      in bindE (bind_defaults rec (drop (length args) ps) fenv
                  (env_alloc (bind_params ps args (env_new (Some (c_global c)))) s))
           (\<lambda>_ s. run_body rec (fun_body fn) fenv s))"

definition undefined_fun :: "string \<Rightarrow> nat \<Rightarrow> istate \<Rightarrow> sw_val eres" where
  "undefined_fun f nargs s =
     retE V_nil (s\<lparr>i_error := True, i_error_msg := take 255 (''undefined function: '' @ f @ ''/'' @ show_nat nargs)\<rparr>)"

text \<open>The function of a call by name, once the arguments are known: builtins, then the module, then a closure in a variable.\<close>

definition call_named :: "iconf \<Rightarrow> erec \<Rightarrow> nat \<Rightarrow> string \<Rightarrow> sw_val list \<Rightarrow> nat \<Rightarrow> istate \<Rightarrow> sw_val eres" where
  "call_named c rec line f args e s =
     (if f = ''print'' then builtin_print c args s
      else case pure_builtin c f args of
             Some v \<Rightarrow> retE v s
           | None \<Rightarrow>
               if f = ''assert'' then builtin_assert args line s
               else if f = ''assert_eq'' then builtin_assert_eq c args line s
               else if f = ''assert_ne'' then builtin_assert_ne args line s
               else (case find_fun (c_mod c) f of
                       Some fn \<Rightarrow> call_fun c rec fn args s
                     | None \<Rightarrow>
                         (case env_get s e f of
                            Inl flt \<Rightarrow> faultE flt
                          | Inr (Some (V_fun fn cenv)) \<Rightarrow> apply_fun rec fn args cenv s
                          | Inr _ \<Rightarrow> undefined_fun f (length args) s)))"

definition eval_call :: "iconf \<Rightarrow> erec \<Rightarrow> nat \<Rightarrow> string \<Rightarrow> node list \<Rightarrow> nat \<Rightarrow> istate \<Rightarrow> sw_val eres" where
  "eval_call c rec line f ns e s =
     bindE (eval_all rec (take 16 ns) e s) (\<lambda>args s. call_named c rec line f args e s)"

text \<open>The function of a pipe: the module first, then some of the builtins; otherwise the value itself.\<close>

definition call_piped :: "iconf \<Rightarrow> erec \<Rightarrow> nat \<Rightarrow> string \<Rightarrow> sw_val \<Rightarrow> sw_val list \<Rightarrow> istate \<Rightarrow> sw_val eres" where
  "call_piped c rec line f v vs s =
     (case find_fun (c_mod c) f of
        Some fn \<Rightarrow> apply_fun rec fn (v # vs) (c_global c) s
      | None \<Rightarrow>
          if f = ''print'' then builtin_print c (v # vs) s
          else if f = ''length'' then retE (builtin_length (v # vs)) s
          else if f = ''assert'' then builtin_assert (v # vs) line s
          else if f = ''assert_eq'' then builtin_assert_eq c (v # vs) line s
          else if f = ''assert_ne'' then builtin_assert_ne (v # vs) line s
          else retE v s)"

definition eval_pipe :: "iconf \<Rightarrow> erec \<Rightarrow> nat \<Rightarrow> node \<Rightarrow> node \<Rightarrow> nat \<Rightarrow> istate \<Rightarrow> sw_val eres" where
  "eval_pipe c rec line val fn e s =
     bindE (rec val e s) (\<lambda>v s.
       case fn of
         N_CALL _ f ns \<Rightarrow>
           bindE (rec (N_IDENT f) e s) (\<lambda>_ s. bindE (eval_all rec (take 15 ns) e s) (\<lambda>vs s. call_piped c rec line f v vs s))
       | _ \<Rightarrow> retE v s)"

definition eval_try :: "erec \<Rightarrow> node \<Rightarrow> string \<Rightarrow> node \<Rightarrow> nat \<Rightarrow> istate \<Rightarrow> sw_val eres" where
  "eval_try rec body var handler e s =
     bindE (rec body e s) (\<lambda>v s.
       if i_error s then
         run_body rec handler (length (i_envs s))
           (env_alloc (env_set var (V_string (i_error_msg s)) (env_new (Some e))) (s\<lparr>i_error := False, i_error_msg := []\<rparr>))
       else retE v s)"

text \<open>The clauses of a receive, each tried in an environment of its own.\<close>

fun eval_clauses :: "erec \<Rightarrow> (node \<times> node option \<times> node) list \<Rightarrow> sw_val \<Rightarrow> nat \<Rightarrow> istate \<Rightarrow> sw_val eres" where
  "eval_clauses rec [] msg e s = retE msg s"
| "eval_clauses rec ((pat, guard, body) # cs) msg e s =
     (case pattern_match pat msg (env_new (Some e)) of
        (False, ce) \<Rightarrow> eval_clauses rec cs msg e (env_free (length (i_envs s)) (env_alloc ce s))
      | (True, ce) \<Rightarrow>
          let cl = length (i_envs s); s = env_alloc ce s
          in case guard of
               None \<Rightarrow> run_body rec body cl s
             | Some g \<Rightarrow> bindE (rec g cl s) (\<lambda>gv s.
                 if sw_val_is_truthy gv then run_body rec body cl s else eval_clauses rec cs msg e (env_free cl s)))"

definition eval_receive :: "erec \<Rightarrow> (node \<times> node option \<times> node) list \<Rightarrow> node option \<Rightarrow> nat \<Rightarrow> istate \<Rightarrow> sw_val eres" where
  "eval_receive rec cs after e s =
     (case i_inbox s of
        Some m # ms \<Rightarrow> eval_clauses rec cs (deserialize_val m) e (s\<lparr>i_inbox := ms\<rparr>)
      | _ \<Rightarrow> (let s = s\<lparr>i_inbox := tl (i_inbox s)\<rparr> in case after of Some b \<Rightarrow> rec b e s | None \<Rightarrow> retE V_nil s))"

definition eval_send :: "sw_val \<Rightarrow> sw_val \<Rightarrow> istate \<Rightarrow> sw_val eres" where
  "eval_send to msg s =
     (case to of
        V_pid (Some p) \<Rightarrow> retE msg (s\<lparr>i_sent := i_sent s @ [(p, serialize_val msg)]\<rparr>)
      | _ \<Rightarrow> retE msg s)"

definition eval_step :: "iconf \<Rightarrow> erec \<Rightarrow> erec" where
  "eval_step c rec n e s =
     (if i_error s then retE V_nil s
      else case n of
        N_INT i \<Rightarrow> retE (V_int i) s
      | N_FLOAT f \<Rightarrow> retE (V_float f) s
      | N_STRING t \<Rightarrow> retE (V_string t) s
      | N_ATOM t \<Rightarrow> retE (V_atom t) s
      | N_SELF \<Rightarrow> retE (V_pid (c_self c)) s
      | N_IDENT x \<Rightarrow> (case env_get s e x of Inl f \<Rightarrow> faultE f | Inr None \<Rightarrow> retE V_nil s | Inr (Some v) \<Rightarrow> retE v s)
      | N_ASSIGN x m \<Rightarrow> bindE (rec m e s) (\<lambda>v s. bindE (env_put e x v s) (\<lambda>_ s. retE v s))
      | N_BLOCK ns \<Rightarrow> eval_block rec ns e V_nil s
      | N_BINOP l r op \<Rightarrow> bindE (rec l e s) (\<lambda>lv s. bindE (rec r e s) (\<lambda>rv s. eval_binop c op lv rv s))
      | N_UNARY m op \<Rightarrow> bindE (rec m e s) (\<lambda>v s. retE (eval_neg op v) s)
      | N_IF b t f \<Rightarrow>
          bindE (rec b e s) (\<lambda>v s. if sw_val_is_truthy v then rec t e s
            else case f of Some m \<Rightarrow> rec m e s | None \<Rightarrow> retE V_nil s)
      | N_TUPLE ns \<Rightarrow> bindE (eval_all rec (take 64 ns) e s) (\<lambda>vs s. retE (V_tuple vs) s)
      | N_LIST ns \<Rightarrow> bindE (eval_all rec (take 256 ns) e s) (\<lambda>vs s. retE (V_list vs) s)
      | N_PIPE line val fn \<Rightarrow> eval_pipe c rec line val fn e s
      | N_CALL line f ns \<Rightarrow> eval_call c rec line f ns e s
      | N_SPAWN m \<Rightarrow> bindE (rec m e s) (\<lambda>_ s. retE (V_pid None) s)
      | N_SEND a b \<Rightarrow> bindE (rec a e s) (\<lambda>to s. bindE (rec b e s) (\<lambda>msg s. eval_send to msg s))
      | N_MAP es \<Rightarrow> bindE (eval_entries rec (take 64 es) e s) (\<lambda>vs s. retE (V_map vs) s)
      | N_FOR var it body \<Rightarrow>
          bindE (rec it e s) (\<lambda>v s. case v of V_list xs \<Rightarrow> eval_for rec var body xs e V_nil s | _ \<Rightarrow> retE V_nil s)
      | N_RANGE a b \<Rightarrow>
          bindE (rec a e s) (\<lambda>av s. bindE (rec b e s) (\<lambda>bv s.
            retE (case (av, bv) of (V_int lo, V_int hi) \<Rightarrow> range_list lo hi | _ \<Rightarrow> V_list []) s))
      | N_TRY body var handler \<Rightarrow> eval_try rec body var handler e s
      | N_LIST_CONS h t \<Rightarrow>
          bindE (rec h e s) (\<lambda>hv s. bindE (rec t e s) (\<lambda>tv s.
            retE (case tv of V_list xs \<Rightarrow> V_list (hv # xs) | _ \<Rightarrow> V_list [hv]) s))
      | N_FUN name ps body \<Rightarrow> retE (V_fun n e) s
      | N_RECEIVE cs after ms \<Rightarrow> eval_receive rec cs after e s)"

text \<open>Programs of the language may run forever, so evaluation has a bound on the depth of its calls.\<close>

primrec eval :: "iconf \<Rightarrow> nat \<Rightarrow> erec" where
  "eval c 0 = (\<lambda>_ _ _. None)"
| "eval c (Suc k) = eval_step c (eval c k)"

section \<open>The interpreter\<close>

definition sw_lang_new :: istate where
  "sw_lang_new = \<lparr>i_envs = [env_new None], i_error = False, i_error_msg = [], i_assert_failed = False, i_assert_msg = [],
     i_assert_line = 0, i_out = [], i_sent = [], i_inbox = []\<rparr>"

definition sw_lang_call :: "iconf \<Rightarrow> nat \<Rightarrow> string \<Rightarrow> sw_val list \<Rightarrow> istate \<Rightarrow> sw_val eres" where
  "sw_lang_call c k f args s =
     (case find_fun (c_mod c) f of
        None \<Rightarrow>
          retE V_nil (s\<lparr>i_error := True, i_error_msg := take 255 (''function '' @ [CHR 0x27] @ f @ [CHR 0x27] @ '' not found in module '' @
            [CHR 0x27] @ m_name (c_mod c) @ [CHR 0x27])\<rparr>)
      | Some fn \<Rightarrow> apply_fun (eval c k) fn args (c_global c) s)"

definition eval_wrap :: "nat \<Rightarrow> string \<Rightarrow> string" where
  "eval_wrap room src =
     take room (''module _Eval'' @ [CHR 0x0A] @ ''fun _eval() {'' @ [CHR 0x0A] @ src @ [CHR 0x0A] @ ''}'' @ [CHR 0x0A])"

text \<open>The source is wrapped into a module of its own, in a buffer of 2048 bytes, and replaces the module while it runs.\<close>

definition sw_lang_eval :: "num_ops \<Rightarrow> iconf \<Rightarrow> nat \<Rightarrow> string \<Rightarrow> istate \<Rightarrow> (par_fault + sw_val eres) option" where
  "sw_lang_eval ops c k src s =
     (case sw_lang_parse ops (eval_wrap 2047 src) of
        None \<Rightarrow> None
      | Some (Inl f) \<Rightarrow> Some (Inl f)
      | Some (Inr None) \<Rightarrow> Some (Inr (retE V_nil s))
      | Some (Inr (Some m)) \<Rightarrow> Some (Inr (sw_lang_call (c\<lparr>c_mod := m\<rparr>) k ''_eval'' [] s)))"

definition sw_lang_eval_repl :: "num_ops \<Rightarrow> iconf \<Rightarrow> nat \<Rightarrow> string \<Rightarrow> istate \<Rightarrow> (par_fault + sw_val eres) option" where
  "sw_lang_eval_repl ops c k src s =
     (case sw_lang_parse ops (eval_wrap 4095 src) of
        None \<Rightarrow> None
      | Some (Inl f) \<Rightarrow> Some (Inl f)
      | Some (Inr None) \<Rightarrow> Some (Inr (retE V_nil (s\<lparr>i_error := True, i_error_msg := ''parse error''\<rparr>)))
      | Some (Inr (Some m)) \<Rightarrow>
          Some (Inr (case find_fun m ''_eval'' of
                       None \<Rightarrow> retE V_nil s
                     | Some fn \<Rightarrow> eval c k (fun_body fn) (c_global c) s)))"

end
