(* ===== verification/Lang_Scope.thy ===== *)
theory Lang_Scope
  imports Lang_Eval
begin

text \<open>
  What evaluation does to environments: lookups see the latest assignment, a function changes no environment but its
  own, every environment made on the way is freed at the end, and programs without anonymous functions never reach a
  freed one.
\<close>

section \<open>Environments as maps\<close>

definition env_wf :: "sw_env \<Rightarrow> bool" where
  "env_wf e \<longleftrightarrow> length (e_buckets e) = SW_ENV_SLOTS"

lemma env_hash_less: "env_hash x < SW_ENV_SLOTS"
  by (simp add: env_hash_def const_simps)

lemma chain_set_lookup: "chain_set b x v = Some b' \<Longrightarrow> map_of b' y = (if y = x then Some v else map_of b y)"
  by (induction b arbitrary: b') (auto split: if_splits)

lemma env_wf_new [simp]: "env_wf (env_new p)"
  by (simp add: env_wf_def env_new_def)

lemma env_wf_set [simp]: "env_wf (env_set x v e) \<longleftrightarrow> env_wf e"
  by (simp add: env_wf_def env_set_def Let_def)

lemma env_set_fields [simp]: "e_parent (env_set x v e) = e_parent e" "e_freed (env_set x v e) = e_freed e"
  by (simp_all add: env_set_def Let_def)

lemma env_new_fields [simp]: "e_parent (env_new p) = p" "e_freed (env_new p) = False"
  by (simp_all add: env_new_def)

lemma env_find_new [simp]: "env_find (env_new p) x = None"
  by (simp add: env_find_def env_new_def env_hash_less)

lemma env_find_set: "env_wf e \<Longrightarrow> env_find (env_set x v e) y = (if y = x then Some v else env_find e y)"
proof -
  assume "env_wf e"
  then have b: "env_hash x < length (e_buckets e)" using env_hash_less by (simp add: env_wf_def)
  have "map_of (case chain_set b x v of None \<Rightarrow> (x, v) # b | Some b' \<Rightarrow> b') y = (if y = x then Some v else map_of b y)" for b
    by (cases "chain_set b x v") (simp_all add: chain_set_lookup)
  then show ?thesis using b by (cases "env_hash y = env_hash x") (auto simp: env_find_def env_set_def Let_def)
qed

section \<open>Reasoning about results\<close>

definition okE :: "('a \<Rightarrow> istate \<Rightarrow> bool) \<Rightarrow> 'a eres \<Rightarrow> bool" where
  "okE P r \<longleftrightarrow> (\<forall>x s. r = Some (Inr (x, s)) \<longrightarrow> P x s)"

lemma okE_ret [simp, intro!]: "P x s \<Longrightarrow> okE P (retE x s)"
  by (simp add: okE_def retE_def)

lemma okE_fault [simp]: "okE P (faultE f)"
  by (simp add: okE_def faultE_def)

lemma okE_None [simp]: "okE P None"
  by (simp add: okE_def)

lemma okE_bind: "okE P r \<Longrightarrow> (\<And>x s. P x s \<Longrightarrow> okE Q (k x s)) \<Longrightarrow> okE Q (bindE r k)"
  by (auto simp: okE_def bindE_def split: option.splits sum.splits prod.splits)

lemma okE_mono: "okE P r \<Longrightarrow> (\<And>x s. P x s \<Longrightarrow> Q x s) \<Longrightarrow> okE Q r"
  by (auto simp: okE_def)

section \<open>The frame of an evaluation\<close>

text \<open>
  From \<open>s\<close> to \<open>s'\<close> only environment \<open>e\<close> may have changed, and of it only the bindings; environments that are new in
  \<open>s'\<close> are freed.
\<close>

definition same_link :: "sw_env \<Rightarrow> sw_env \<Rightarrow> bool" where
  "same_link a b \<longleftrightarrow> e_parent b = e_parent a \<and> e_freed b = e_freed a"

definition frame :: "nat \<Rightarrow> istate \<Rightarrow> istate \<Rightarrow> bool" where
  "frame e s s' \<longleftrightarrow>
     length (i_envs s) \<le> length (i_envs s') \<and>
     (\<forall>i < length (i_envs s). (i \<noteq> e \<longrightarrow> i_envs s' ! i = i_envs s ! i) \<and> same_link (i_envs s ! i) (i_envs s' ! i)) \<and>
     (\<forall>i. length (i_envs s) \<le> i \<longrightarrow> i < length (i_envs s') \<longrightarrow> e_freed (i_envs s' ! i))"

lemma same_link_refl [simp]: "same_link a a"
  by (simp add: same_link_def)

lemma frame_same: "i_envs s' = i_envs s \<Longrightarrow> frame e s s'"
  by (auto simp: frame_def)

lemma frame_refl [simp]: "frame e s s"
  by (simp add: frame_same)

lemma frame_trans [trans]: "frame e s s1 \<Longrightarrow> frame e s1 s2 \<Longrightarrow> frame e s s2"
  unfolding frame_def same_link_def by (metis (no_types, lifting) le_trans less_le_trans not_le_imp_less)

lemma frame_put: "env_live s e \<Longrightarrow> frame e s (s\<lparr>i_envs := (i_envs s)[e := env_set x v (i_envs s ! e)]\<rparr>)"
  by (auto simp: frame_def same_link_def nth_list_update env_live_def)

text \<open>A fresh environment that is freed at the end leaves nothing behind, whatever was current before.\<close>

lemma frame_scope:
  assumes "frame (length (i_envs s)) (env_alloc ne s) s'"
  shows "frame e s (env_free (length (i_envs s)) s')"
proof -
  let ?f = "length (i_envs s)"
  have len: "Suc ?f \<le> length (i_envs s')" using assms by (simp add: frame_def env_alloc_def)
  have old: "i_envs s' ! i = i_envs s ! i" if "i < ?f" for i
    using assms that by (auto simp: frame_def env_alloc_def nth_append)
  have new: "e_freed (i_envs s' ! i)" if "Suc ?f \<le> i" "i < length (i_envs s')" for i
    using assms that by (auto simp: frame_def env_alloc_def)
  show ?thesis
    using len old new by (auto simp: frame_def env_free_def nth_list_update less_Suc_eq_le Suc_le_eq)
qed

definition frames :: "erec \<Rightarrow> bool" where
  "frames rec \<longleftrightarrow> (\<forall>n e s. okE (\<lambda>v s'. frame e s s') (rec n e s))"

lemma framesD: "frames rec \<Longrightarrow> okE (\<lambda>v s'. frame e s s') (rec n e s)"
  by (simp add: frames_def)

text \<open>Steps compose: what follows starts from a state in the frame of the first.\<close>

lemma frame_bind:
  assumes "okE (\<lambda>x s'. frame e s s') r" "\<And>x s'. okE (\<lambda>y s''. frame e s' s'') (k x s')"
  shows "okE (\<lambda>y s'. frame e s s') (bindE r k)"
  by (rule okE_bind [OF assms(1)]) (rule okE_mono [OF assms(2)], rule frame_trans)

lemma frame_put_ok: "okE (\<lambda>u s'. frame e s s') (env_put e x v s)"
  by (simp add: env_put_def frame_put)

lemma frame_all:
  assumes r: "frames rec"
  shows "okE (\<lambda>vs s'. frame e s s') (eval_all rec ns e s)"
  by (induction ns arbitrary: s) (auto intro!: frame_bind framesD [OF r])

lemma frame_entries:
  assumes r: "frames rec"
  shows "okE (\<lambda>vs s'. frame e s s') (eval_entries rec es e s)"
  by (induction es arbitrary: s) (auto intro!: frame_bind framesD [OF r])

lemma frame_block:
  assumes r: "frames rec"
  shows "okE (\<lambda>w s'. frame e s s') (eval_block rec ns e v s)"
  by (induction ns arbitrary: v s) (auto intro!: frame_bind framesD [OF r])

lemma frame_for:
  assumes r: "frames rec"
  shows "okE (\<lambda>w s'. frame e s s') (eval_for rec x body vs e v s)"
  by (induction vs arbitrary: v s) (auto intro!: frame_bind framesD [OF r] frame_put_ok)

lemma frame_run_body: "frames rec \<Longrightarrow> okE (\<lambda>v s'. frame e s s') (run_body rec body (length (i_envs s)) (env_alloc ne s))"
  unfolding run_body_def by (rule okE_bind [OF framesD]) (auto intro: frame_scope)

lemma frame_apply: "frames rec \<Longrightarrow> okE (\<lambda>v s'. frame e s s') (apply_fun rec fn args p s)"
  unfolding apply_fun_def by (rule frame_run_body)

lemma frame_defaults:
  assumes r: "frames rec"
  shows "okE (\<lambda>u s'. frame f s s') (bind_defaults rec ps f s)"
  by (induction ps arbitrary: s) (auto intro!: frame_bind framesD [OF r] frame_put_ok split: option.split)

lemma frame_call: "frames rec \<Longrightarrow> okE (\<lambda>v s'. frame e s s') (call_fun c rec fn args s)"
proof -
  assume r: "frames rec"
  have "okE (\<lambda>v s'. frame e s s') (run_body rec body (length (i_envs s)) s1)"
    if "frame (length (i_envs s)) (env_alloc ne s) s1" for body s1 ne
    unfolding run_body_def by (rule okE_bind [OF framesD [OF r]]) (auto intro: frame_scope frame_trans [OF that])
  then show ?thesis unfolding call_fun_def Let_def by (rule okE_bind [OF frame_defaults [OF r]])
qed

lemma frame_builtins:
  "okE (\<lambda>v s'. frame e s s') (builtin_print c args s)" "okE (\<lambda>v s'. frame e s s') (builtin_assert args line s)"
  "okE (\<lambda>v s'. frame e s s') (builtin_assert_eq c args line s)" "okE (\<lambda>v s'. frame e s s') (builtin_assert_ne args line s)"
  "okE (\<lambda>v s'. frame e s s') (undefined_fun f m s)" "okE (\<lambda>v s'. frame e s s') (eval_send a b s)"
  "okE (\<lambda>v s'. frame e s s') (eval_binop c op a b s)"
  by (auto simp: builtin_print_def out_def builtin_assert_def builtin_assert_eq_def builtin_assert_ne_def assert_fail_def
      undefined_fun_def eval_send_def eval_binop_def eval_concat_def frame_same split: list.split sw_val.split option.split sum.split)

lemma frame_clauses:
  assumes r: "frames rec"
  shows "okE (\<lambda>v s'. frame e s s') (eval_clauses rec cs msg e s)"
proof (induction cs arbitrary: s)
  case (Cons cl cs)
  obtain pat guard body where cl: "cl = (pat, guard, body)" by (cases cl)
  obtain m ce where m: "pattern_match pat msg (env_new (Some e)) = (m, ce)" by (cases "pattern_match pat msg (env_new (Some e))")
  let ?f = "length (i_envs s)" and ?s = "env_alloc ce s"
  have again: "okE (\<lambda>v s'. frame e s s') (eval_clauses rec cs msg e (env_free ?f s1))" if "frame ?f ?s s1" for s1
    by (rule okE_mono [OF Cons.IH]) (rule frame_trans [OF frame_scope [OF that]])
  have body: "okE (\<lambda>v s'. frame e s s') (run_body rec body ?f s1)" if "frame ?f ?s s1" for s1
    unfolding run_body_def by (rule okE_bind [OF framesD [OF r]]) (auto intro: frame_scope frame_trans [OF that])
  have guard: "okE (\<lambda>v s'. frame e s s') (bindE (rec g ?f ?s) (\<lambda>gv s1.
      if sw_val_is_truthy gv then run_body rec body ?f s1 else eval_clauses rec cs msg e (env_free ?f s1)))" for g
    by (rule okE_bind [OF framesD [OF r]]) (simp add: body again)
  show ?case using cl m again [OF frame_refl] body [OF frame_refl] guard
    by (cases m) (auto simp: Let_def split: option.split)
qed simp

lemma frame_receive:
  assumes r: "frames rec"
  shows "okE (\<lambda>v s'. frame e s s') (eval_receive rec cs after e s)"
proof -
  have "okE (\<lambda>v s'. frame e s s') x" if "okE (\<lambda>v s'. frame e (s\<lparr>i_inbox := ms\<rparr>) s') x" for x :: "sw_val eres" and ms
    by (rule okE_mono [OF that]) (rule frame_trans, auto intro: frame_same)
  note inbox = this
  show ?thesis
    by (auto simp: eval_receive_def Let_def frame_same split: list.split option.split
        intro!: inbox [OF frame_clauses [OF r]] inbox [OF framesD [OF r]])
qed

lemma frame_try:
  assumes r: "frames rec"
  shows "okE (\<lambda>v s'. frame e s s') (eval_try rec body var handler e s)"
proof -
  have h: "okE (\<lambda>v s'. frame e s1 s') (run_body rec handler (length (i_envs s1)) (env_alloc ne (s1\<lparr>i_error := False, i_error_msg := []\<rparr>)))"
    for s1 ne
    using frame_run_body [OF r, where e = e and s = "s1\<lparr>i_error := False, i_error_msg := []\<rparr>" and body = handler and ne = ne]
    by (simp add: frame_def)
  then show ?thesis unfolding eval_try_def by (intro frame_bind framesD [OF r]) auto
qed

lemma frame_eval_call:
  assumes r: "frames rec"
  shows "okE (\<lambda>v s'. frame e s s') (eval_call c rec line f ns e s)"
  unfolding eval_call_def call_named_def
  by (rule frame_bind [OF frame_all [OF r]])
    (auto simp: frame_builtins frame_call [OF r] frame_apply [OF r] split: option.split sum.split sw_val.split)

lemma frame_pipe:
  assumes r: "frames rec"
  shows "okE (\<lambda>v s'. frame e s s') (eval_pipe c rec line val fn e s)"
  unfolding eval_pipe_def call_piped_def
  by (rule frame_bind [OF framesD [OF r]])
    (auto simp: frame_builtins frame_apply [OF r] split: option.split node.split intro!: frame_bind framesD [OF r] frame_all [OF r])

lemma frame_step:
  assumes r: "frames rec"
  shows "frames (eval_step c rec)"
proof -
  have "okE (\<lambda>v s'. frame e s s') (eval_step c rec n e s)" for n e s
  proof (cases "i_error s")
    case False
    then show ?thesis unfolding eval_step_def
      by (cases n) (auto intro!: frame_bind framesD [OF r] frame_put_ok frame_all [OF r] frame_entries [OF r] frame_block [OF r]
          frame_for [OF r] frame_eval_call [OF r] frame_pipe [OF r] frame_receive [OF r] frame_try [OF r] frame_builtins
          split: option.split sum.split sw_val.split)
  qed (simp add: eval_step_def)
  then show ?thesis by (simp add: frames_def)
qed

lemma frames_eval: "frames (eval c k)"
proof (induction k)
  case 0
  show ?case by (simp add: frames_def)
next
  case (Suc k)
  then show ?case using frame_step by simp
qed

section \<open>Programs without anonymous functions\<close>

text \<open>Syntax without anonymous functions, also in the functions of the module, and values without functions.\<close>

fun fun_free :: "node \<Rightarrow> bool" where
  "fun_free (N_TUPLE ns) = list_all fun_free ns"
| "fun_free (N_LIST ns) = list_all fun_free ns"
| "fun_free (N_LIST_CONS a b) = (fun_free a \<and> fun_free b)"
| "fun_free (N_MAP es) = list_all (\<lambda>(k, v). fun_free k \<and> fun_free v) es"
| "fun_free (N_BINOP a b _) = (fun_free a \<and> fun_free b)"
| "fun_free (N_UNARY a _) = fun_free a"
| "fun_free (N_PIPE _ a b) = (fun_free a \<and> fun_free b)"
| "fun_free (N_CALL _ _ ns) = list_all fun_free ns"
| "fun_free (N_ASSIGN _ a) = fun_free a"
| "fun_free (N_BLOCK ns) = list_all fun_free ns"
| "fun_free (N_IF a b d) = (fun_free a \<and> fun_free b \<and> (case d of None \<Rightarrow> True | Some m \<Rightarrow> fun_free m))"
| "fun_free (N_FOR _ a b) = (fun_free a \<and> fun_free b)"
| "fun_free (N_RANGE a b) = (fun_free a \<and> fun_free b)"
| "fun_free (N_TRY a _ b) = (fun_free a \<and> fun_free b)"
| "fun_free (N_SPAWN a) = fun_free a"
| "fun_free (N_SEND a b) = (fun_free a \<and> fun_free b)"
| "fun_free (N_RECEIVE cs d _) =
     (list_all (\<lambda>(p, g, b). fun_free p \<and> (case g of None \<Rightarrow> True | Some m \<Rightarrow> fun_free m) \<and> fun_free b) cs \<and> (case d of None \<Rightarrow> True | Some m \<Rightarrow> fun_free m))"
| "fun_free (N_FUN _ _ _) = False"
| "fun_free _ = True"

definition plain_fun :: "node \<Rightarrow> bool" where
  "plain_fun fn \<longleftrightarrow> fun_free (fun_body fn) \<and> list_all (\<lambda>(x, d). case d of None \<Rightarrow> True | Some m \<Rightarrow> fun_free m) (fun_params fn)"

definition plain_mod :: "lang_module \<Rightarrow> bool" where
  "plain_mod m \<longleftrightarrow> list_all plain_fun (m_funs m)"

fun data :: "sw_val \<Rightarrow> bool" where
  "data (V_tuple vs) = list_all data vs"
| "data (V_list vs) = list_all data vs"
| "data (V_map es) = list_all (\<lambda>(k, v). data k \<and> data v) es"
| "data (V_fun _ _) = False"
| "data _ = True"

definition data_env :: "sw_env \<Rightarrow> bool" where
  "data_env e \<longleftrightarrow> env_wf e \<and> (\<forall>x v. env_find e x = Some v \<longrightarrow> data v)"

text \<open>Live environments have live parents, and hold data.\<close>

definition parent_ok :: "sw_env list \<Rightarrow> nat \<Rightarrow> bool" where
  "parent_ok es i \<longleftrightarrow> e_freed (es ! i) \<or> (\<forall>p. e_parent (es ! i) = Some p \<longrightarrow> p < i \<and> \<not> e_freed (es ! p))"

definition envs_ok :: "sw_env list \<Rightarrow> bool" where
  "envs_ok es \<longleftrightarrow> (\<forall>i < length es. data_env (es ! i) \<and> parent_ok es i)"

lemma env_get_data: "envs_ok (i_envs s) \<Longrightarrow> env_live s e \<Longrightarrow> \<exists>r. env_get s e x = Inr r \<and> (\<forall>v. r = Some v \<longrightarrow> data v)"
proof (induction e rule: less_induct)
  case (less e)
  show ?case
  proof (cases "env_find (i_envs s ! e) x")
    case (Some v)
    then have "data v" using less.prems by (auto simp: envs_ok_def data_env_def env_live_def)
    then show ?thesis using Some less.prems by (simp add: env_get.simps [of s e])
  next
    case None
    then show ?thesis
    proof (cases "e_parent (i_envs s ! e)")
      case (Some p)
      then have "p < e" "env_live s p" using less.prems by (auto simp: envs_ok_def parent_ok_def env_live_def)
      then show ?thesis using less.IH [OF _ less.prems(1)] None Some less.prems by (simp add: env_get.simps [of s e])
    qed (use less.prems in \<open>simp add: env_get.simps [of s e]\<close>)
  qed
qed

text \<open>A result that is no fault of a freed environment, and of which a predicate holds.\<close>

definition safeE :: "('a \<Rightarrow> istate \<Rightarrow> bool) \<Rightarrow> 'a eres \<Rightarrow> bool" where
  "safeE P r \<longleftrightarrow> r \<noteq> Some (Inl Ev_freed_env) \<and> okE P r"

lemma safeE_ret [simp, intro!]: "P x s \<Longrightarrow> safeE P (retE x s)"
  by (simp add: safeE_def) (simp add: retE_def)

lemma safeE_None [simp]: "safeE P None"
  by (simp add: safeE_def)

lemma safeE_fault: "f \<noteq> Ev_freed_env \<Longrightarrow> safeE P (faultE f)"
  by (simp add: safeE_def) (simp add: faultE_def)

lemma safeE_bind: "safeE P r \<Longrightarrow> (\<And>x s. P x s \<Longrightarrow> safeE Q (k x s)) \<Longrightarrow> safeE Q (bindE r k)"
  unfolding safeE_def okE_def bindE_def by (cases r) (auto split: sum.splits prod.splits)

lemma safeE_mono: "safeE P r \<Longrightarrow> (\<And>x s. P x s \<Longrightarrow> Q x s) \<Longrightarrow> safeE Q r"
  by (auto simp: safeE_def okE_def)

text \<open>The state in which code of the current environment \<open>e\<close> runs, given the global one \<open>g\<close>.\<close>

definition ready :: "nat \<Rightarrow> nat \<Rightarrow> istate \<Rightarrow> bool" where
  "ready g e s \<longleftrightarrow> envs_ok (i_envs s) \<and> env_live s e \<and> env_live s g"

lemma ready_updates [simp]:
  "ready g e (s\<lparr>i_error := b\<rparr>) = ready g e s" "ready g e (s\<lparr>i_error_msg := m\<rparr>) = ready g e s"
  "ready g e (s\<lparr>i_assert_failed := b\<rparr>) = ready g e s" "ready g e (s\<lparr>i_assert_line := l\<rparr>) = ready g e s"
  "ready g e (s\<lparr>i_assert_msg := m\<rparr>) = ready g e s" "ready g e (s\<lparr>i_out := m\<rparr>) = ready g e s"
  "ready g e (s\<lparr>i_sent := ms\<rparr>) = ready g e s" "ready g e (s\<lparr>i_inbox := is\<rparr>) = ready g e s"
  by (simp_all add: ready_def env_live_def)

lemma ready_frame:
  assumes "ready g e s" "frame e s s'" "\<forall>i < length (i_envs s'). data_env (i_envs s' ! i)"
  shows "ready g e s'"
proof -
  have live: "env_live s' i" if "env_live s i" for i using assms(2) that by (auto simp: env_live_def frame_def same_link_def)
  have "parent_ok (i_envs s') i" if "i < length (i_envs s')" for i
  proof (cases "i < length (i_envs s)")
    case True
    then have l: "same_link (i_envs s ! i) (i_envs s' ! i)" using assms(2) by (simp add: frame_def)
    have "parent_ok (i_envs s) i" using assms(1) True by (simp add: ready_def envs_ok_def)
    moreover have "\<not> e_freed (i_envs s' ! p)" if "p < i" "\<not> e_freed (i_envs s ! p)" for p
      using live [of p] that True by (simp add: env_live_def)
    ultimately show ?thesis using l by (auto simp: parent_ok_def same_link_def)
  next
    case False
    then show ?thesis using assms(2) that by (simp add: frame_def parent_ok_def)
  qed
  then show ?thesis using assms(1,3) live by (simp add: ready_def envs_ok_def)
qed

lemma data_set: "data_env e \<Longrightarrow> data v \<Longrightarrow> data_env (env_set x v e)"
  by (auto simp: data_env_def env_find_set split: if_splits)

lemma data_new [simp]: "data_env (env_new p)"
  by (simp add: data_env_def)

lemma ready_put:
  assumes "ready g e s" "data v"
  shows "safeE (\<lambda>u s'. ready g e s') (env_put e x v s)"
proof -
  have l: "env_live s e" using assms(1) by (simp add: ready_def)
  let ?s = "s\<lparr>i_envs := (i_envs s)[e := env_set x v (i_envs s ! e)]\<rparr>"
  have "\<forall>i < length (i_envs ?s). data_env (i_envs ?s ! i)"
    using assms l by (auto simp: nth_list_update ready_def envs_ok_def env_live_def intro: data_set)
  then have "ready g e ?s" using ready_frame [OF assms(1) frame_put [OF l]] by simp
  then show ?thesis using l by (simp add: env_put_def)
qed

text \<open>Entering a fresh environment and leaving it again.\<close>

lemma ready_alloc:
  assumes "ready g e s" "data_env ne" "e_parent ne = Some p" "env_live s p" "\<not> e_freed ne"
  shows "ready g (length (i_envs s)) (env_alloc ne s)"
proof -
  have "env_live (env_alloc ne s) i" if "env_live s i" for i using that by (auto simp: env_live_def env_alloc_def nth_append)
  moreover have "env_live (env_alloc ne s) (length (i_envs s))" using assms(5) by (simp add: env_live_def env_alloc_def)
  moreover have "envs_ok (i_envs (env_alloc ne s))"
    using assms by (auto simp: ready_def envs_ok_def parent_ok_def env_alloc_def env_live_def nth_append less_Suc_eq)
  ultimately show ?thesis using assms(1) by (simp add: ready_def)
qed

lemma ready_leave:
  assumes "ready g e s" "frame (length (i_envs s)) (env_alloc ne s) s'" "ready g f s'"
  shows "ready g e (env_free (length (i_envs s)) s')"
proof (rule ready_frame [OF assms(1) frame_scope [OF assms(2)]])
  have "data_env (x\<lparr>e_freed := b\<rparr>) = data_env x" for x b by (simp add: data_env_def env_wf_def env_find_def)
  moreover have "length (i_envs s) < length (i_envs s')" using assms(2) by (simp add: frame_def env_alloc_def Suc_le_eq)
  ultimately show "\<forall>i < length (i_envs (env_free (length (i_envs s)) s')). data_env (i_envs (env_free (length (i_envs s)) s') ! i)"
    using assms(3) by (auto simp: env_free_def ready_def envs_ok_def nth_list_update)
qed

subsection \<open>Data stays data\<close>

lemma data_lookup: "list_all (\<lambda>(k, v). data k \<and> data v) es \<Longrightarrow> data (map_lookup es key)"
  by (induction es) auto

lemma data_map_get: "data m \<Longrightarrow> data (sw_val_map_get m key)"
  by (cases m) (simp_all add: data_lookup)

lemma data_map_put: "data m \<Longrightarrow> data k \<Longrightarrow> data v \<Longrightarrow> data (sw_val_map_put m k v)"
proof -
  have "list_all (\<lambda>(k, v). data k \<and> data v) (map_replace es k v)"
    if "list_all (\<lambda>(k, v). data k \<and> data v) es" "data k" "data v" for es
    using that by (induction es) auto
  then show "data m \<Longrightarrow> data k \<Longrightarrow> data v \<Longrightarrow> data (sw_val_map_put m k v)" by (cases m) simp_all
qed

lemma data_pure_builtin:
  assumes "pure_builtin c f args = Some v" "list_all data args"
  shows "data v"
proof -
  have "data (builtin_length args)" "data (builtin_hd args)" "data (builtin_tl args)"
    using assms(2) by (auto simp: builtin_length_def builtin_hd_def builtin_tl_def split: list.split sw_val.split)
  moreover have "data (builtin_elem args)"
    using assms(2) by (auto simp: builtin_elem_def Let_def list_all_length [of data "_ :: sw_val list"] nat_less_iff not_le
        split: list.split sw_val.split)
  moreover have "data (builtin_to_string c a)" for a by (simp add: builtin_to_string_def split: sw_val.split)
  moreover have "list_all data (map fst es)" "list_all data (map snd es)" if "list_all (\<lambda>(k, v). data k \<and> data v) es" for es
    using that by (induction es) auto
  ultimately show ?thesis using assms
    by (auto simp: pure_builtin_def data_map_get data_map_put split: if_splits list.splits sw_val.splits)
qed

lemma data_ops:
  "data l \<Longrightarrow> data r \<Longrightarrow> ready g e s \<Longrightarrow> safeE (\<lambda>v s'. data v \<and> ready g e s') (eval_binop c op l r s)"
  "data v \<Longrightarrow> data (eval_neg ch v)" "data (range_list lo hi)" "data (deserialize_val m)"
proof -
  have f: "data (float_or_other fp op l r)" for fp op l r
    by (auto simp: float_or_other_def float_op_def other_op_def v_bool_def split: option.splits if_splits)
  have i: "data v" if "int_op op a b = Some (Inr v)" for op a b v using that by (auto simp: int_op_def v_bool_def split: if_splits)
  have t: "ft \<noteq> Ev_freed_env" if "int_op op a b = Some (Inl ft)" for op a b ft using that by (auto simp: int_op_def split: if_splits)
  show "safeE (\<lambda>v s'. data v \<and> ready g e s') (eval_binop c op l r s)" if "data l" "data r" "ready g e s"
    using that f i t by (auto simp: eval_binop_def eval_concat_def safeE_fault split: sw_val.split option.split sum.split)
  show "data v \<Longrightarrow> data (eval_neg ch v)" by (auto simp: eval_neg_def split: sw_val.split)
  show "data (range_list lo hi)" by (simp add: range_list_def Let_def list_all_iff)
  show "data (deserialize_val m)" by (simp add: deserialize_val_def split: sw_val_type.split)
qed

definition keeps :: "sw_env \<Rightarrow> sw_env \<Rightarrow> bool" where
  "keeps e e' \<longleftrightarrow> (data_env e \<longrightarrow> data_env e') \<and> e_parent e' = e_parent e \<and> e_freed e' = e_freed e"

lemma keeps_refl [simp]: "keeps e e"
  by (simp add: keeps_def)

lemma keeps_trans: "keeps a b \<Longrightarrow> keeps b c \<Longrightarrow> keeps a c"
  by (simp add: keeps_def)

lemma keeps_set: "data v \<Longrightarrow> keeps e (env_set x v e)"
  by (simp add: keeps_def data_set)

lemma match_keeps:
  "data v \<Longrightarrow> keeps e (snd (pattern_match p v e))"
  "list_all data vs \<Longrightarrow> keeps e (snd (match_all ps vs e))"
  "data v \<Longrightarrow> keeps e (snd (match_entries es v e))"
proof (induction p v e and ps vs e and es v e rule: pattern_match_match_all_match_entries.induct)
  case (8 h t val e)
  then show ?case
  proof (cases "\<exists>v vs. val = V_list (v # vs)")
    case True
    then obtain v vs where v: "val = V_list (v # vs)" by blast
    obtain m e' where m: "pattern_match h v e = (m, e')" by (cases "pattern_match h v e")
    have "keeps e e'" using 8 v m by force
    moreover have "keeps e' (snd (pattern_match t (V_list vs) e'))" if m using 8 v m that by simp
    ultimately show ?thesis using v m by (auto intro: keeps_trans)
  qed (auto split: sw_val.split list.split)
next
  case (12 p ps vs e)
  then show ?case
  proof (cases vs)
    case (Cons v vs')
    obtain m e' where m: "pattern_match p v e = (m, e')" by (cases "pattern_match p v e")
    have "keeps e e'" using 12 Cons m by force
    moreover have "keeps e' (snd (match_all ps vs' e'))" if m using 12 Cons m that by simp
    ultimately show ?thesis using Cons m by (auto intro: keeps_trans)
  qed simp
next
  case (14 k p es val e)
  then show ?case
  proof (cases "\<exists>key. pattern_key k = Some key \<and> sw_val_map_get val key \<noteq> V_nil")
    case True
    then obtain key where k: "pattern_key k = Some key" "sw_val_map_get val key \<noteq> V_nil" by blast
    obtain m e' where m: "pattern_match p (sw_val_map_get val key) e = (m, e')"
      by (cases "pattern_match p (sw_val_map_get val key) e")
    have "keeps e e'" using 14 k m data_map_get by force
    moreover have "keeps e' (snd (match_entries es val e'))" if m using 14 k m that by simp
    ultimately show ?thesis using k m by (auto simp: Let_def intro: keeps_trans)
  qed (auto simp: Let_def split: option.split)
qed (auto simp: keeps_set split: sw_val.split)

subsection \<open>Evaluation of data\<close>

definition typed :: "nat \<Rightarrow> erec \<Rightarrow> bool" where
  "typed g rec \<longleftrightarrow> frames rec \<and> (\<forall>n e s. fun_free n \<longrightarrow> ready g e s \<longrightarrow> safeE (\<lambda>v s'. data v \<and> ready g e s') (rec n e s))"

lemma typedD: "typed g rec \<Longrightarrow> fun_free n \<Longrightarrow> ready g e s \<Longrightarrow> safeE (\<lambda>v s'. data v \<and> ready g e s') (rec n e s)"
  by (simp add: typed_def)

lemma typed_frames: "typed g rec \<Longrightarrow> frames rec"
  by (simp add: typed_def)

lemma typed_all:
  assumes t: "typed g rec"
  shows "list_all fun_free ns \<Longrightarrow> ready g e s \<Longrightarrow> safeE (\<lambda>vs s'. list_all data vs \<and> ready g e s') (eval_all rec ns e s)"
proof (induction ns arbitrary: s)
  case (Cons n ns)
  then show ?case by (auto intro!: safeE_bind [OF typedD [OF t]] safeE_bind [OF Cons.IH])
qed simp

lemma typed_entries:
  assumes t: "typed g rec"
  shows "list_all (\<lambda>(k, v). fun_free k \<and> fun_free v) es \<Longrightarrow> ready g e s \<Longrightarrow>
    safeE (\<lambda>vs s'. list_all (\<lambda>(k, v). data k \<and> data v) vs \<and> ready g e s') (eval_entries rec es e s)"
proof (induction es arbitrary: s)
  case (Cons x es)
  then show ?case by (cases x) (auto intro!: safeE_bind [OF typedD [OF t]] safeE_bind [OF Cons.IH])
qed simp

lemma typed_block:
  assumes t: "typed g rec"
  shows "list_all fun_free ns \<Longrightarrow> ready g e s \<Longrightarrow> data v \<Longrightarrow> safeE (\<lambda>w s'. data w \<and> ready g e s') (eval_block rec ns e v s)"
  by (induction ns arbitrary: v s) (auto intro!: safeE_bind [OF typedD [OF t]])

lemma typed_for:
  assumes t: "typed g rec" and "fun_free body"
  shows "list_all data vs \<Longrightarrow> ready g e s \<Longrightarrow> data v \<Longrightarrow> safeE (\<lambda>w s'. data w \<and> ready g e s') (eval_for rec x body vs e v s)"
  using assms(2) by (induction vs arbitrary: v s) (auto intro!: safeE_bind [OF ready_put] safeE_bind [OF typedD [OF t]])

lemma safeE_conj: "safeE P r \<Longrightarrow> okE Q r \<Longrightarrow> safeE (\<lambda>x s. P x s \<and> Q x s) r"
  by (auto simp: safeE_def okE_def)

text \<open>A body in its fresh environment \<open>f\<close>, entered from \<open>s\<close>.\<close>

lemma typed_run_body:
  assumes t: "typed g rec" and "fun_free body" "ready g e s" "frame (length (i_envs s)) (env_alloc ne s) s1" "ready g (length (i_envs s)) s1"
  shows "safeE (\<lambda>v s'. data v \<and> ready g e s') (run_body rec body (length (i_envs s)) s1)"
  unfolding run_body_def
proof (rule safeE_bind)
  let ?f = "length (i_envs s)"
  show "safeE (\<lambda>v s'. (data v \<and> ready g ?f s') \<and> frame ?f s1 s') (rec body ?f s1)"
    by (rule safeE_conj [OF typedD [OF t assms(2,5)] framesD [OF typed_frames [OF t]]])
  show "safeE (\<lambda>v s'. data v \<and> ready g e s') (retE x (env_free ?f s'))" if "(data x \<and> ready g ?f s') \<and> frame ?f s1 s'" for x s'
    using that ready_leave [OF assms(3) frame_trans [OF assms(4)], of s' ?f] by blast
qed

lemma params_env:
  assumes "list_all data args" "data_env e"
  shows "data_env (bind_params ps args e) \<and> e_parent (bind_params ps args e) = e_parent e \<and> e_freed (bind_params ps args e) = e_freed e"
  using assms
proof (induction args arbitrary: ps e)
  case (Cons a args)
  then show ?case by (cases ps) (auto simp: bind_params_def data_set split: prod.split)
qed (simp add: bind_params_def)

lemma typed_apply:
  assumes t: "typed g rec" and "plain_fun fn" "list_all data args" "ready g e s" "env_live s p"
  shows "safeE (\<lambda>v s'. data v \<and> ready g e s') (apply_fun rec fn args p s)"
  unfolding apply_fun_def using params_env [OF assms(3), of "env_new (Some p)" "fun_params fn"] assms
  by (intro typed_run_body [OF t, where ne = "bind_params (fun_params fn) args (env_new (Some p))"] ready_alloc [OF assms(4)])
    (simp_all add: plain_fun_def)

lemma typed_defaults:
  assumes t: "typed g rec"
  shows "list_all (\<lambda>(x, d). case d of None \<Rightarrow> True | Some m \<Rightarrow> fun_free m) ps \<Longrightarrow> ready g f s \<Longrightarrow>
    safeE (\<lambda>u s'. ready g f s') (bind_defaults rec ps f s)"
proof (induction ps arbitrary: s)
  case (Cons a ps)
  obtain x d where a: "a = (x, d)" by (cases a)
  have "safeE (\<lambda>v s'. data v \<and> ready g f s') (case d of None \<Rightarrow> retE V_nil s | Some n \<Rightarrow> rec n f s)"
    using Cons.prems a typedD [OF t] by (auto split: option.split)
  then show ?case unfolding a bind_defaults.simps
    by (rule safeE_bind) (use Cons a in \<open>auto intro!: safeE_bind [OF ready_put]\<close>)
qed simp

lemma typed_call_fun:
  assumes t: "typed (c_global c) rec" and "plain_fun fn" "list_all data args" "ready (c_global c) e s"
  shows "safeE (\<lambda>v s'. data v \<and> ready (c_global c) e s') (call_fun c rec fn args s)"
proof -
  define ne where "ne = bind_params (fun_params fn) args (env_new (Some (c_global c)))"
  let ?f = "length (i_envs s)" and ?ps = "drop (length args) (fun_params fn)"
  have ne: "data_env ne" "e_parent ne = Some (c_global c)" "\<not> e_freed ne"
    using params_env [OF assms(3), of "env_new (Some (c_global c))" "fun_params fn"] by (simp_all add: ne_def)
  have rd: "ready (c_global c) ?f (env_alloc ne s)" using ready_alloc [OF assms(4) ne(1,2) _ ne(3)] assms(4) by (simp add: ready_def)
  have "list_all (\<lambda>(x, d). case d of None \<Rightarrow> True | Some m \<Rightarrow> fun_free m) ?ps"
    using assms(2) by (auto simp: plain_fun_def list_all_iff dest: in_set_dropD)
  from safeE_conj [OF typed_defaults [OF t this rd] frame_defaults [OF typed_frames [OF t]]]
  show ?thesis unfolding call_fun_def Let_def ne_def [symmetric]
    by (rule safeE_bind) (use assms(2) in \<open>auto intro!: typed_run_body [OF t _ assms(4), where ne = ne] simp: plain_fun_def\<close>)
qed

definition clause_free :: "node \<times> node option \<times> node \<Rightarrow> bool" where
  "clause_free = (\<lambda>(p, g, b). fun_free p \<and> (case g of None \<Rightarrow> True | Some m \<Rightarrow> fun_free m) \<and> fun_free b)"

lemma typed_clauses:
  assumes t: "typed g rec" and "data msg"
  shows "list_all clause_free cs \<Longrightarrow> ready g e s \<Longrightarrow> safeE (\<lambda>v s'. data v \<and> ready g e s') (eval_clauses rec cs msg e s)"
proof (induction cs arbitrary: s)
  case (Cons cl cs)
  obtain pat guard body where cl: "cl = (pat, guard, body)" by (cases cl)
  obtain m ce where m: "pattern_match pat msg (env_new (Some e)) = (m, ce)" by (cases "pattern_match pat msg (env_new (Some e))")
  have "keeps (env_new (Some e)) ce" using match_keeps(1) [OF assms(2), of "env_new (Some e)" pat] m by simp
  then have ce: "data_env ce" "e_parent ce = Some e" "\<not> e_freed ce" by (simp_all add: keeps_def)
  let ?f = "length (i_envs s)" and ?s = "env_alloc ce s"
  have rd: "ready g ?f ?s" using ready_alloc [OF Cons.prems(2) ce(1,2) _ ce(3)] Cons.prems(2) by (simp add: ready_def)
  have again: "safeE (\<lambda>v s'. data v \<and> ready g e s') (eval_clauses rec cs msg e (env_free ?f s1))"
    if "frame ?f ?s s1" "ready g ?f s1" for s1
    using Cons.prems ready_leave [OF Cons.prems(2) that] by (intro Cons.IH) simp_all
  have body: "safeE (\<lambda>v s'. data v \<and> ready g e s') (run_body rec body ?f s1)" if "frame ?f ?s s1" "ready g ?f s1" for s1
    using typed_run_body [OF t _ Cons.prems(2) that] Cons.prems(1) cl by (simp add: clause_free_def)
  have guard: "safeE (\<lambda>v s'. data v \<and> ready g e s') (bindE (rec gd ?f ?s) (\<lambda>gv s1.
      if sw_val_is_truthy gv then run_body rec body ?f s1 else eval_clauses rec cs msg e (env_free ?f s1)))"
    if "guard = Some gd" for gd
  proof (rule safeE_bind [OF safeE_conj [OF typedD [OF t _ rd] framesD [OF typed_frames [OF t]]]])
    show "fun_free gd" using Cons.prems(1) cl that by (simp add: clause_free_def)
  qed (auto intro!: body again)
  show ?case
  proof (cases m)
    case True
    then show ?thesis using cl m guard body [OF frame_refl rd] by (cases guard) (simp_all add: Let_def)
  next
    case False
    then show ?thesis using cl m again [OF frame_refl rd] by simp
  qed
qed (simp add: assms(2))

lemma typed_receive:
  assumes t: "typed g rec" and "list_all clause_free cs" "case after of None \<Rightarrow> True | Some m \<Rightarrow> fun_free m" "ready g e s"
  shows "safeE (\<lambda>v s'. data v \<and> ready g e s') (eval_receive rec cs after e s)"
proof -
  have a: "safeE (\<lambda>v s'. data v \<and> ready g e s') (case after of Some b \<Rightarrow> rec b e s1 | None \<Rightarrow> retE V_nil s1)" if "ready g e s1" for s1
    using assms(3) that typedD [OF t] by (cases after) auto
  show ?thesis using assms(4) a typed_clauses [OF t data_ops(4) assms(2)]
    by (auto simp: eval_receive_def Let_def split: list.split option.split)
qed

lemma typed_try:
  assumes t: "typed g rec" and "fun_free body" "fun_free handler" "ready g e s"
  shows "safeE (\<lambda>v s'. data v \<and> ready g e s') (eval_try rec body var handler e s)"
  unfolding eval_try_def
proof (rule safeE_bind [OF typedD [OF t assms(2,4)]])
  fix v s1 assume v: "data v \<and> ready g e s1"
  let ?s = "s1\<lparr>i_error := False, i_error_msg := []\<rparr>"
  let ?ne = "env_set var (V_string (i_error_msg s1)) (env_new (Some e))"
  have "ready g e ?s" using v by simp
  moreover from this have "ready g (length (i_envs ?s)) (env_alloc ?ne ?s)"
    by (rule ready_alloc) (use v in \<open>auto simp: data_set ready_def env_live_def\<close>)
  ultimately have "safeE (\<lambda>v s'. data v \<and> ready g e s') (run_body rec handler (length (i_envs ?s)) (env_alloc ?ne ?s))"
    using assms(3) by (intro typed_run_body [OF t, where ne = ?ne]) simp_all
  then show "safeE (\<lambda>v s'. data v \<and> ready g e s')
     (if i_error s1 then run_body rec handler (length (i_envs s1)) (env_alloc ?ne ?s) else retE v s1)"
    using v by simp
qed

lemma typed_builtins:
  assumes "ready g e s"
  shows "safeE (\<lambda>v s'. data v \<and> ready g e s') (builtin_print c args s)"
    "safeE (\<lambda>v s'. data v \<and> ready g e s') (builtin_assert args line s)"
    "safeE (\<lambda>v s'. data v \<and> ready g e s') (builtin_assert_eq c args line s)"
    "safeE (\<lambda>v s'. data v \<and> ready g e s') (builtin_assert_ne args line s)"
    "safeE (\<lambda>v s'. data v \<and> ready g e s') (undefined_fun f m s)"
    "data b \<Longrightarrow> safeE (\<lambda>v s'. data v \<and> ready g e s') (eval_send a b s)"
proof -
  have af: "safeE (\<lambda>v s'. data v \<and> ready g e s') (assert_fail msg line s)" for msg using assms by (simp add: assert_fail_def)
  show "safeE (\<lambda>v s'. data v \<and> ready g e s') (builtin_print c args s)" using assms by (simp add: builtin_print_def out_def)
  show "safeE (\<lambda>v s'. data v \<and> ready g e s') (builtin_assert args line s)"
    using assms af by (auto simp: builtin_assert_def split: list.split sw_val.split)
  show "safeE (\<lambda>v s'. data v \<and> ready g e s') (builtin_assert_eq c args line s)"
    using assms af by (simp add: builtin_assert_eq_def split: list.split)
  show "safeE (\<lambda>v s'. data v \<and> ready g e s') (builtin_assert_ne args line s)"
    using assms af by (simp add: builtin_assert_ne_def split: list.split)
  show "safeE (\<lambda>v s'. data v \<and> ready g e s') (undefined_fun f m s)" using assms by (simp add: undefined_fun_def)
  show "data b \<Longrightarrow> safeE (\<lambda>v s'. data v \<and> ready g e s') (eval_send a b s)"
    using assms by (simp add: eval_send_def split: sw_val.split option.split)
qed

lemma find_fun_free: "plain_mod m \<Longrightarrow> find_fun m f = Some fn \<Longrightarrow> plain_fun fn"
  by (auto simp: plain_mod_def find_fun_def list_all_iff find_Some_iff)

lemma take_free: "list_all P xs \<Longrightarrow> list_all P (take k xs)"
  by (auto simp: list_all_iff dest: in_set_takeD)

lemma typed_eval_call:
  assumes t: "typed (c_global c) rec" and "plain_mod (c_mod c)" "list_all fun_free ns" "ready (c_global c) e s"
  shows "safeE (\<lambda>v s'. data v \<and> ready (c_global c) e s') (eval_call c rec line f ns e s)"
  unfolding eval_call_def
proof (rule safeE_bind [OF typed_all [OF t take_free [OF assms(3)] assms(4)]])
  fix args s1 assume a: "list_all data args \<and> ready (c_global c) e s1"
  obtain r where r: "env_get s1 e f = Inr r" "\<And>v. r = Some v \<Longrightarrow> data v" using env_get_data [of s1 e f] a by (auto simp: ready_def)
  have look: "safeE (\<lambda>v s'. data v \<and> ready (c_global c) e s') (case env_get s1 e f of Inl flt \<Rightarrow> faultE flt
      | Inr (Some (V_fun fn cenv)) \<Rightarrow> apply_fun rec fn args cenv s1 | Inr _ \<Rightarrow> undefined_fun f (length args) s1)"
    using r a typed_builtins(5) by (cases r) (auto split: sw_val.split)
  show "safeE (\<lambda>v s'. data v \<and> ready (c_global c) e s') (call_named c rec line f args e s1)"
    unfolding call_named_def
    using a look typed_builtins data_pure_builtin typed_call_fun [OF t] find_fun_free [OF assms(2)]
    by (auto simp del: sum.case split: option.split)
qed

lemma typed_piped:
  assumes t: "typed (c_global c) rec" and "plain_mod (c_mod c)" "list_all data (v # vs)" "ready (c_global c) e s"
  shows "safeE (\<lambda>v s'. data v \<and> ready (c_global c) e s') (call_piped c rec line f v vs s)"
proof -
  have len: "data (builtin_length args)" for args by (auto simp: builtin_length_def split: list.split sw_val.split)
  have "env_live s (c_global c)" using assms(4) by (simp add: ready_def)
  then show ?thesis unfolding call_piped_def
    using typed_builtins [OF assms(4)] len assms(3,4) typed_apply [OF t find_fun_free [OF assms(2)] assms(3,4)]
    by (auto split: option.split)
qed

lemma typed_pipe:
  assumes t: "typed (c_global c) rec" and m: "plain_mod (c_mod c)" "fun_free val" "fun_free fn" "ready (c_global c) e s"
  shows "safeE (\<lambda>v s'. data v \<and> ready (c_global c) e s') (eval_pipe c rec line val fn e s)"
  unfolding eval_pipe_def
proof (rule safeE_bind [OF typedD [OF t m(2,4)]])
  fix v s1 assume v: "data v \<and> ready (c_global c) e s1"
  have "safeE (\<lambda>v s'. data v \<and> ready (c_global c) e s')
      (bindE (rec (N_IDENT f) e s1) (\<lambda>_ s. bindE (eval_all rec (take 15 ns) e s) (\<lambda>vs s. call_piped c rec line f v vs s)))"
    if "fn = N_CALL l f ns" for l f ns
  proof (rule safeE_bind [OF typedD [OF t]])
    fix u s2 assume "data u \<and> ready (c_global c) e s2"
    then show "safeE (\<lambda>v s'. data v \<and> ready (c_global c) e s') (bindE (eval_all rec (take 15 ns) e s2) (\<lambda>vs s. call_piped c rec line f v vs s))"
      using m(3) that v by (intro safeE_bind [OF typed_all [OF t]] typed_piped [OF t m(1)]) (simp_all add: take_free)
  qed (use v in simp_all)
  then show "safeE (\<lambda>v s'. data v \<and> ready (c_global c) e s')
     (case fn of N_CALL l f ns \<Rightarrow>
        bindE (rec (N_IDENT f) e s1) (\<lambda>_ s. bindE (eval_all rec (take 15 ns) e s) (\<lambda>vs s. call_piped c rec line f v vs s))
      | _ \<Rightarrow> retE v s1)"
    using v by (cases fn) simp_all
qed

lemma typed_step:
  assumes t: "typed (c_global c) rec" and m: "plain_mod (c_mod c)"
  shows "typed (c_global c) (eval_step c rec)"
proof -
  let ?g = "c_global c"
  have "safeE (\<lambda>v s'. data v \<and> ready ?g e s') (eval_step c rec n e s)" if n: "fun_free n" "ready ?g e s" for n e s
  proof (cases "i_error s")
    case False
    note rules = safeE_bind [OF typedD [OF t]] typedD [OF t] safeE_bind [OF typed_all [OF t]] safeE_bind [OF typed_entries [OF t]]
      safeE_bind [OF ready_put] typed_for [OF t] typed_block [OF t] typed_eval_call [OF t m] typed_pipe [OF t m] typed_try [OF t]
      typed_receive [OF t] typed_builtins(6) data_ops
    show ?thesis
    proof (cases n)
      case (N_IDENT x)
      obtain r where "env_get s e x = Inr r" "\<And>v. r = Some v \<Longrightarrow> data v" using env_get_data [of s e x] n(2) by (auto simp: ready_def)
      then show ?thesis using N_IDENT n(2) False by (cases r) (auto simp: eval_step_def)
    next
      case (N_IF a b d)
      then show ?thesis using n False by (cases d) (auto simp: eval_step_def intro!: rules)
    next
      case (N_RECEIVE cs d ms)
      then show ?thesis using n False by (auto simp: eval_step_def clause_free_def list_all_iff intro!: rules)
    qed (use n False in \<open>auto simp: eval_step_def take_free intro!: rules split: sw_val.split\<close>)
  qed (use n in \<open>simp add: eval_step_def\<close>)
  then show ?thesis using frame_step [OF typed_frames [OF t]] by (simp add: typed_def)
qed

lemma typed_eval:
  assumes "plain_mod (c_mod c)"
  shows "typed (c_global c) (eval c k)"
proof (induction k)
  case 0
  show ?case by (simp add: typed_def frames_def)
next
  case (Suc k)
  then show ?case using typed_step [OF Suc assms] by simp
qed

section \<open>Pipes\<close>

definition builtin_names :: "string set" where
  "builtin_names = {''print'', ''length'', ''hd'', ''tl'', ''elem'', ''abs'', ''to_string'', ''map_get'', ''map_put'', ''map_new'',
     ''map_keys'', ''map_values'', ''typeof'', ''list_append'', ''assert'', ''assert_eq'', ''assert_ne''}"

lemma pure_builtin_other: "f \<notin> builtin_names \<Longrightarrow> pure_builtin c f args = None"
  by (auto simp: pure_builtin_def builtin_names_def split: list.split)

lemma bindE_assoc: "bindE (bindE r k) h = bindE r (\<lambda>x s. bindE (k x s) h)"
  by (simp add: bindE_def split: option.split sum.split prod.split)

lemma bindE_ret: "bindE (retE x s) k = k x s"
  by (simp add: bindE_def retE_def)

lemma bindE_okE_cong: "okE P r \<Longrightarrow> (\<And>x s. P x s \<Longrightarrow> k x s = h x s) \<Longrightarrow> bindE r k = bindE r h"
  by (simp add: okE_def bindE_def split: option.split sum.split prod.split)

lemma call_fun_all: "length (fun_params fn) \<le> length args \<Longrightarrow> call_fun c rec fn args s = apply_fun rec fn args (c_global c) s"
  by (simp add: call_fun_def apply_fun_def bindE_ret)

lemma eval_all_length: "eval_all rec ns e s = Some (Inr (vs, s')) \<Longrightarrow> length vs = length ns"
  by (induction ns arbitrary: s vs s') (auto simp: bindE_def retE_def split: option.splits sum.splits prod.splits)

lemma env_get_total:
  assumes "\<forall>i < length (i_envs s). parent_ok (i_envs s) i" "env_live s e"
  shows "\<exists>r. env_get s e x = Inr r"
  using assms(2)
proof (induction e rule: less_induct)
  case (less e)
  have "p < e \<and> env_live s p" if "e_parent (i_envs s ! e) = Some p" for p
    using assms(1) less.prems that by (auto simp: parent_ok_def env_live_def)
  then show ?case using less by (auto simp: env_get.simps [of s e] split: option.split)
qed

lemma links_frame: "\<forall>i < length (i_envs s). parent_ok (i_envs s) i \<Longrightarrow> frame e s s' \<Longrightarrow> \<forall>i < length (i_envs s'). parent_ok (i_envs s') i"
proof (intro allI impI)
  fix i assume a: "\<forall>i < length (i_envs s). parent_ok (i_envs s) i" "frame e s s'" "i < length (i_envs s')"
  show "parent_ok (i_envs s') i"
  proof (cases "i < length (i_envs s)")
    case True
    then have "same_link (i_envs s ! j) (i_envs s' ! j)" if "j \<le> i" for j using a(2) that by (simp add: frame_def)
    then show ?thesis using a(1) True unfolding parent_ok_def same_link_def by (metis less_imp_le order_refl)
  next
    case False
    then show ?thesis using a by (simp add: frame_def parent_ok_def)
  qed
qed

lemma live_frame: "env_live s i \<Longrightarrow> frame e s s' \<Longrightarrow> env_live s' i"
  by (auto simp: env_live_def frame_def same_link_def)

lemma ident_returns:
  assumes "\<forall>i < length (i_envs s). parent_ok (i_envs s) i" "env_live s e" "k \<noteq> 0"
  shows "\<exists>u. eval c k (N_IDENT f) e s = retE u s"
proof -
  obtain r where "env_get s e f = Inr r" using env_get_total [OF assms(1,2)] by blast
  then show ?thesis using assms(3) by (cases k; cases r) (auto simp: eval_step_def)
qed

section \<open>Properties\<close>

text \<open>
  C23. Scoping: whatever an evaluation in environment \<open>e\<close> does, calls of functions and closures included, every other
  environment that existed keeps its bindings, none of them is freed or moved, and every environment made on the way is
  freed when it returns.
\<close>

theorem eval_changes_only_own_env:
  assumes "eval c k n e s = Some (Inr (v, s'))"
  shows "(\<forall>i < length (i_envs s). i \<noteq> e \<longrightarrow> i_envs s' ! i = i_envs s ! i) \<and>
    (\<forall>i. env_live s' i \<longleftrightarrow> env_live s i) \<and>
    (\<forall>i < length (i_envs s). e_parent (i_envs s' ! i) = e_parent (i_envs s ! i))"
proof -
  have f: "frame e s s'" using framesD [OF frames_eval, of e s c k n] assms by (simp add: okE_def)
  have "env_live s' i \<longleftrightarrow> env_live s i" for i
    using f by (cases "i < length (i_envs s)") (auto simp: frame_def same_link_def env_live_def)
  then show ?thesis using f by (simp add: frame_def same_link_def)
qed

text \<open>A program that shadows a variable in a function, and one that calls a closure after its environment is gone.\<close>

definition demo_fp :: fp_ops where
  "demo_fp = \<lparr>f_add = (\<lambda>a b. a), f_sub = (\<lambda>a b. a), f_mul = (\<lambda>a b. a), f_div = (\<lambda>a b. a), f_of_int = (\<lambda>i. i), f_show = (\<lambda>x. []), f_show_g = (\<lambda>x. [])\<rparr>"

definition demo_conf :: "lang_module \<Rightarrow> iconf" where
  "demo_conf m = \<lparr>c_mod = m, c_global = 0, c_self = None, c_fp = demo_fp, c_pid_num = (\<lambda>p. p)\<rparr>"

definition demo_num :: num_ops where
  "demo_num = \<lparr>n_atof = (\<lambda>t. of_nat (digits_val 0 t)), n_to_int = id\<rparr>"

definition demo_mod :: lang_module where
  "demo_mod = \<lparr>m_name = ''m'', m_imports = [],
     m_funs = [N_FUN ''f'' [(''x'', None)] (N_BLOCK [N_ASSIGN ''y'' (N_BINOP (N_IDENT ''x'') (N_INT 1) ''+''), N_IDENT ''y''])]\<rparr>"

definition demo_node :: node where
  "demo_node = N_BLOCK [N_ASSIGN ''y'' (N_INT 5), N_ASSIGN ''z'' (N_CALL 1 ''f'' [N_INT 2]), N_BINOP (N_IDENT ''y'') (N_IDENT ''z'') ''-'']"

definition demo_eval :: "sw_val eres" where
  "demo_eval = eval (demo_conf demo_mod) 9 demo_node 0 sw_lang_new"

lemma eval_numeral: "eval c (numeral k) = eval_step c (eval c (pred_numeral k))"
  by (simp add: numeral_eq_Suc)

lemma bindE_weak_cong: "r = r' \<Longrightarrow> bindE r k = bindE r' k"
  by simp

lemmas eval_simps = eval_numeral eval_step_def retE_def bindE_def env_put_def env_get.simps env_live_def env_alloc_def env_free_def
  find_fun_def call_named_def call_fun_def eval_call_def run_body_def apply_fun_def bind_params_def eval_binop_def int_op_def
  pure_builtin_def env_find_set

lemma demo_eval_value: "\<exists>s'. demo_eval = Some (Inr (V_int 2, s'))"
  by (simp add: demo_eval_def demo_node_def demo_conf_def demo_mod_def sw_lang_new_def eval_simps cong: bindE_weak_cong)

theorem eval_changes_only_own_env_witness:
  "case demo_eval of Some (Inr (v, s')) \<Rightarrow> v = V_int 2 \<and> (\<forall>i. env_live s' i \<longleftrightarrow> env_live sw_lang_new i) | _ \<Rightarrow> False"
proof -
  obtain s' where d: "demo_eval = Some (Inr (V_int 2, s'))"
    using demo_eval_value by blast
  from eval_changes_only_own_env [OF d [unfolded demo_eval_def]] show ?thesis unfolding d by simp
qed

text \<open>
  C26. Without anonymous functions evaluation never reaches a freed environment: if neither the module nor the expression
  holds one, and the environments hold none, then no lookup meets a freed environment, the value is data, and the
  environments are as good as before.
\<close>

theorem eval_data_only:
  assumes "plain_mod (c_mod c)" "fun_free n" "ready (c_global c) e s"
  shows "eval c k n e s \<noteq> Some (Inl Ev_freed_env) \<and>
    (\<forall>v s'. eval c k n e s = Some (Inr (v, s')) \<longrightarrow> data v \<and> ready (c_global c) e s')"
  using typedD [OF typed_eval [OF assms(1)] assms(2,3), of k] by (simp add: safeE_def okE_def)

theorem eval_data_only_witness:
  "case demo_eval of Some (Inr (v, s')) \<Rightarrow> data v \<and> ready 0 0 s' | _ \<Rightarrow> False"
proof -
  have "plain_mod (c_mod (demo_conf demo_mod))" by code_simp
  moreover have "fun_free demo_node" by code_simp
  moreover have "ready (c_global (demo_conf demo_mod)) 0 sw_lang_new"
    by (simp add: ready_def envs_ok_def parent_ok_def env_live_def sw_lang_new_def demo_conf_def)
  ultimately have all: "\<forall>v s'. demo_eval = Some (Inr (v, s')) \<longrightarrow> data v \<and> ready (c_global (demo_conf demo_mod)) 0 s'"
    using eval_data_only [of "demo_conf demo_mod" demo_node 0 sw_lang_new 9] unfolding demo_eval_def by blast
  obtain s' where d: "demo_eval = Some (Inr (V_int 2, s'))" using demo_eval_value by blast
  have "data (V_int 2) \<and> ready (c_global (demo_conf demo_mod)) 0 s'" using all d by blast
  then show ?thesis unfolding d by (simp add: demo_conf_def)
qed

text \<open>
  A pipe is a call: for a function of the module whose name is no builtin's and whose parameters are all given,
  \<open>x |> f (a, ...)\<close> and \<open>f (x, a, ...)\<close> give the same result and the same state, whatever the arguments do.
\<close>

theorem pipe_is_call:
  assumes "find_fun (c_mod c) f = Some fn" "f \<notin> builtin_names" "length (fun_params fn) \<le> min 16 (Suc (length ns))"
    and "\<forall>i < length (i_envs s). parent_ok (i_envs s) i" "env_live s e"
  shows "eval c k (N_PIPE line x (N_CALL l f ns)) e s = eval c k (N_CALL l f (x # ns)) e s"
proof (cases k)
  case (Suc j)
  let ?rec = "eval c j"
  have named: "call_named c ?rec l f args e s1 = apply_fun ?rec fn args (c_global c) s1" if "length (fun_params fn) \<le> length args" for args s1
    using that assms(1,2) by (simp add: call_named_def pure_builtin_other call_fun_all apply_fun_def builtin_names_def)
  have rest: "bindE (?rec (N_IDENT f) e s1) (\<lambda>_ s2. bindE (eval_all ?rec (take 15 ns) e s2) (\<lambda>vs s3. call_piped c ?rec line f v vs s3)) =
      bindE (eval_all ?rec (take 15 ns) e s1) (\<lambda>vs s2. call_named c ?rec l f (v # vs) e s2)"
    if fr: "frame e s s1" and j0: "j \<noteq> 0" for v s1
  proof -
    obtain u where "?rec (N_IDENT f) e s1 = retE u s1"
      using ident_returns [OF links_frame [OF assms(4) fr] live_frame [OF assms(5) fr] j0, of c f] by blast
    then show ?thesis using assms(1,3) named
      by (auto simp: bindE_def retE_def call_piped_def split: option.split sum.split prod.split dest!: eval_all_length)
  qed
  have "bindE (?rec x e s) (\<lambda>v s1. bindE (?rec (N_IDENT f) e s1) (\<lambda>_ s2. bindE (eval_all ?rec (take 15 ns) e s2) (\<lambda>vs s3. call_piped c ?rec line f v vs s3))) =
      bindE (?rec x e s) (\<lambda>v s1. bindE (eval_all ?rec (take 15 ns) e s1) (\<lambda>vs s2. call_named c ?rec l f (v # vs) e s2))"
  proof (cases "j = 0")
    case False
    then show ?thesis using rest by (intro bindE_okE_cong [OF framesD [OF frames_eval]])
  qed (simp add: bindE_def)
  then show ?thesis using Suc
    by (auto simp: eval_step_def eval_pipe_def eval_call_def bindE_assoc bindE_ret)
qed simp

theorem pipe_is_call_witness:
  "eval (demo_conf demo_mod) 9 (N_PIPE 1 (N_INT 2) (N_CALL 1 ''f'' [])) 0 sw_lang_new =
   eval (demo_conf demo_mod) 9 (N_CALL 1 ''f'' [N_INT 2]) 0 sw_lang_new"
  by (rule pipe_is_call [where fn = "hd (m_funs demo_mod)"]) (simp_all add: demo_conf_def demo_mod_def find_fun_def builtin_names_def sw_lang_new_def parent_ok_def env_live_def)

text \<open>
  A function that returns a closure: its environment is freed on return, while the closure still refers to it, so that
  the call of the closure reads freed memory.
\<close>

definition closure_prog :: string where
  "closure_prog = ''module m fun mk(x) { fun(y) { x + y } } fun main() { f = mk(1) f(2) }''"

theorem closure_outlives_env:
  "case sw_lang_parse demo_num closure_prog of
     Some (Inr (Some m)) \<Rightarrow> sw_lang_call (demo_conf m) 20 ''main'' [] sw_lang_new = faultE Ev_freed_env
   | _ \<Rightarrow> False"
proof -
  let ?m = "\<lparr>m_name = ''m'', m_imports = [], m_funs =
     [N_FUN ''mk'' [(''x'', None)] (N_BLOCK [N_FUN [] [(''y'', None)] (N_BLOCK [N_BINOP (N_IDENT ''x'') (N_IDENT ''y'') ''+''])]),
      N_FUN ''main'' [] (N_BLOCK [N_ASSIGN ''f'' (N_CALL 1 ''mk'' [N_INT 1]), N_CALL 1 ''f'' [N_INT 2]])]\<rparr>"
  have "sw_lang_parse demo_num closure_prog = Some (Inr (Some ?m))" by code_simp
  moreover have "sw_lang_call (demo_conf ?m) 20 ''main'' [] sw_lang_new = faultE Ev_freed_env"
    by (simp add: sw_lang_call_def demo_conf_def sw_lang_new_def faultE_def eval_simps cong: bindE_weak_cong)
  ultimately show ?thesis by simp
qed

text \<open>Joining a long text and a number writes the terminator beyond the buffer.\<close>

theorem concat_overruns:
  assumes "length t \<le> 4095" "4095 < length t + length (show_int i)"
  shows "eval_binop c ''++'' (V_string t) (V_int i) s = faultE Ev_concat_overrun"
  using assms by (simp add: eval_binop_def eval_concat_def concat_part_def)

end
