(* ===== verification/Lang_Total.thy ===== *)
theory Lang_Total
  imports Lang_Scope
begin

text \<open>
  Evaluation returns when functions do not call each other in a cycle: with a rank on names that falls along calls, and a
  bound on the size of function bodies, the depth of \<^verbatim>\<open>eval\<close> is bounded by their product.
\<close>

section \<open>Ranked modules\<close>

text \<open>The names that an expression calls, directly or by a pipe.\<close>

fun calls :: "node \<Rightarrow> string list" where
  "calls (N_TUPLE ns) = concat (map calls ns)"
| "calls (N_LIST ns) = concat (map calls ns)"
| "calls (N_LIST_CONS a b) = calls a @ calls b"
| "calls (N_MAP es) = concat (map (\<lambda>(k, v). calls k @ calls v) es)"
| "calls (N_BINOP a b _) = calls a @ calls b"
| "calls (N_UNARY a _) = calls a"
| "calls (N_PIPE _ a b) = calls a @ calls b"
| "calls (N_CALL _ f ns) = f # concat (map calls ns)"
| "calls (N_ASSIGN _ a) = calls a"
| "calls (N_BLOCK ns) = concat (map calls ns)"
| "calls (N_IF a b d) = calls a @ calls b @ (case d of None \<Rightarrow> [] | Some m \<Rightarrow> calls m)"
| "calls (N_FOR _ a b) = calls a @ calls b"
| "calls (N_RANGE a b) = calls a @ calls b"
| "calls (N_TRY a _ b) = calls a @ calls b"
| "calls (N_SPAWN a) = calls a"
| "calls (N_SEND a b) = calls a @ calls b"
| "calls (N_RECEIVE cs d _) =
     concat (map (\<lambda>(p, g, b). (case g of None \<Rightarrow> [] | Some m \<Rightarrow> calls m) @ calls b) cs) @ (case d of None \<Rightarrow> [] | Some m \<Rightarrow> calls m)"
| "calls _ = []"

definition calls_below :: "lang_module \<Rightarrow> (string \<Rightarrow> nat) \<Rightarrow> nat \<Rightarrow> node \<Rightarrow> bool" where
  "calls_below m rk r n \<longleftrightarrow> list_all (\<lambda>f. find_fun m f = None \<or> rk f < r) (calls n)"

definition ranked_code :: "lang_module \<Rightarrow> (string \<Rightarrow> nat) \<Rightarrow> nat \<Rightarrow> nat \<Rightarrow> node \<Rightarrow> bool" where
  "ranked_code m rk B r n \<longleftrightarrow> fun_free n \<and> size n < B \<and> calls_below m rk r n"

definition ranked :: "lang_module \<Rightarrow> (string \<Rightarrow> nat) \<Rightarrow> nat \<Rightarrow> bool" where
  "ranked m rk B \<longleftrightarrow>
     list_all (\<lambda>fn. ranked_code m rk B (rk (fun_name fn)) (fun_body fn) \<and>
       list_all (\<lambda>(x, d). case d of None \<Rightarrow> True | Some n \<Rightarrow> ranked_code m rk B (rk (fun_name fn)) n) (fun_params fn)) (m_funs m)"

section \<open>Returning\<close>

text \<open>
  \<open>rec\<close> returns on all code of rank at most \<open>r\<close>, in depth \<open>K\<close>; ready states keep closures out of the variables.
\<close>

definition returnsE :: "'a eres \<Rightarrow> bool" where
  "returnsE r \<longleftrightarrow> r \<noteq> None"

definition rets :: "iconf \<Rightarrow> (string \<Rightarrow> nat) \<Rightarrow> nat \<Rightarrow> nat \<Rightarrow> erec \<Rightarrow> bool" where
  "rets c rk B K rec \<longleftrightarrow> typed (c_global c) rec \<and>
     (\<forall>n e s r. fun_free n \<longrightarrow> calls_below (c_mod c) rk r n \<longrightarrow> r * B + size n < K \<longrightarrow> ready (c_global c) e s \<longrightarrow> returnsE (rec n e s))"

lemma bind_rets: "returnsE r \<Longrightarrow> safeE P r \<Longrightarrow> (\<And>x s. P x s \<Longrightarrow> returnsE (k x s)) \<Longrightarrow> returnsE (bindE r k)"
  by (auto simp: returnsE_def bindE_def safeE_def okE_def split: option.splits sum.splits prod.splits)

lemma ret_rets [simp]: "returnsE (retE x s)" "returnsE (faultE f)"
  by (simp_all add: returnsE_def retE_def faultE_def)

text \<open>Code that may run in the depth left.\<close>

definition runnable :: "iconf \<Rightarrow> (string \<Rightarrow> nat) \<Rightarrow> nat \<Rightarrow> nat \<Rightarrow> nat \<Rightarrow> node \<Rightarrow> bool" where
  "runnable c rk B K r n \<longleftrightarrow> fun_free n \<and> calls_below (c_mod c) rk r n \<and> r * B + size n < K"

lemma rec_rets: "rets c rk B K rec \<Longrightarrow> runnable c rk B K r n \<Longrightarrow> ready (c_global c) e s \<Longrightarrow> returnsE (rec n e s)"
  unfolding rets_def runnable_def by blast

lemma rec_safe:
  "rets c rk B K rec \<Longrightarrow> runnable c rk B K r n \<Longrightarrow> ready (c_global c) e s \<Longrightarrow>
    safeE (\<lambda>v s'. data v \<and> ready (c_global c) e s') (rec n e s)"
  unfolding rets_def runnable_def using typedD by blast

lemma rets_typed: "rets c rk B K rec \<Longrightarrow> typed (c_global c) rec"
  by (simp add: rets_def)

lemma bind_rec:
  assumes "rets c rk B K rec" "runnable c rk B K r n" "ready (c_global c) e s"
    "\<And>v s'. data v \<and> ready (c_global c) e s' \<Longrightarrow> returnsE (k v s')"
  shows "returnsE (bindE (rec n e s) k)"
  by (rule bind_rets [OF rec_rets [OF assms(1-3)] rec_safe [OF assms(1-3)] assms(4)])

lemma all_rets:
  assumes t: "rets c rk B K rec"
  shows "list_all (runnable c rk B K r) ns \<Longrightarrow> ready (c_global c) e s \<Longrightarrow> returnsE (eval_all rec ns e s)"
proof (induction ns arbitrary: s)
  case (Cons n ns)
  have "list_all fun_free ns" using Cons.prems(1) by (auto simp: list_all_iff runnable_def)
  note ns = typed_all [OF rets_typed [OF t] this]
  show ?case unfolding eval_all.simps
    by (rule bind_rec [OF t, of r]) (use Cons in \<open>auto intro!: bind_rets [OF _ ns]\<close>)
qed simp

definition runnable2 :: "iconf \<Rightarrow> (string \<Rightarrow> nat) \<Rightarrow> nat \<Rightarrow> nat \<Rightarrow> nat \<Rightarrow> node \<times> node \<Rightarrow> bool" where
  "runnable2 c rk B K r = (\<lambda>(k, v). runnable c rk B K r k \<and> runnable c rk B K r v)"

lemma entries_rets:
  assumes t: "rets c rk B K rec"
  shows "list_all (runnable2 c rk B K r) es \<Longrightarrow> ready (c_global c) e s \<Longrightarrow> returnsE (eval_entries rec es e s)"
proof (induction es arbitrary: s)
  case (Cons x es)
  obtain k v where x: "x = (k, v)" by (cases x)
  have "list_all (\<lambda>(k, v). fun_free k \<and> fun_free v) es" using Cons.prems(1) by (auto simp: list_all_iff runnable_def runnable2_def)
  note es = typed_entries [OF rets_typed [OF t] this]
  have kv: "runnable c rk B K r k" "runnable c rk B K r v" using Cons.prems(1) x by (simp_all add: runnable2_def)
  show ?case unfolding x eval_entries.simps
    by (rule bind_rec [OF t kv(1) Cons.prems(2)], rule bind_rec [OF t kv(2)]) (use Cons in \<open>auto intro!: bind_rets [OF _ es]\<close>)
qed simp

lemma block_rets:
  assumes t: "rets c rk B K rec"
  shows "list_all (runnable c rk B K r) ns \<Longrightarrow> ready (c_global c) e s \<Longrightarrow> returnsE (eval_block rec ns e v s)"
  by (induction ns arbitrary: v s) (auto intro!: bind_rec [OF t])

lemma put_rets: "ready g e s \<Longrightarrow> returnsE (env_put e x v s)"
  by (simp add: env_put_def)

lemma for_rets:
  assumes t: "rets c rk B K rec" and b: "runnable c rk B K r body"
  shows "list_all data vs \<Longrightarrow> ready (c_global c) e s \<Longrightarrow> returnsE (eval_for rec x body vs e v s)"
proof (induction vs arbitrary: v s)
  case (Cons a vs)
  then have "data a" "ready (c_global c) e s" by simp_all
  then show ?case unfolding eval_for.simps
    by (intro bind_rets [OF put_rets ready_put] bind_rec [OF t b]) (use Cons in auto)
qed simp

lemma run_body_rets:
  assumes t: "rets c rk B K rec" and "runnable c rk B K r body" "ready (c_global c) f s"
  shows "returnsE (run_body rec body f s)"
  unfolding run_body_def by (rule bind_rec [OF assms]) simp

lemma apply_rets:
  assumes t: "rets c rk B K rec" and "runnable c rk B K r (fun_body fn)" "list_all data args" "ready (c_global c) e s" "env_live s p"
  shows "returnsE (apply_fun rec fn args p s)"
  unfolding apply_fun_def using params_env [OF assms(3), of "env_new (Some p)" "fun_params fn"] assms
  by (intro run_body_rets [OF t assms(2)] ready_alloc [OF assms(4)]) simp_all

definition opt_runnable :: "iconf \<Rightarrow> (string \<Rightarrow> nat) \<Rightarrow> nat \<Rightarrow> nat \<Rightarrow> nat \<Rightarrow> node option \<Rightarrow> bool" where
  "opt_runnable c rk B K r d = (case d of None \<Rightarrow> True | Some n \<Rightarrow> runnable c rk B K r n)"

lemma defaults_rets:
  assumes t: "rets c rk B K rec"
  shows "list_all (\<lambda>(x, d). opt_runnable c rk B K r d) ps \<Longrightarrow> ready (c_global c) f s \<Longrightarrow> returnsE (bind_defaults rec ps f s)"
proof (induction ps arbitrary: s)
  case (Cons a ps)
  obtain x d where a: "a = (x, d)" by (cases a)
  have d: "opt_runnable c rk B K r d" using Cons.prems a by simp
  have 1: "returnsE (case d of None \<Rightarrow> retE V_nil s | Some n \<Rightarrow> rec n f s)"
    using rec_rets [OF t] d Cons.prems(2) by (auto simp: opt_runnable_def split: option.splits)
  have 2: "safeE (\<lambda>v s'. data v \<and> ready (c_global c) f s') (case d of None \<Rightarrow> retE V_nil s | Some n \<Rightarrow> rec n f s)"
    using rec_safe [OF t] d Cons.prems(2) by (auto simp: opt_runnable_def split: option.splits)
  show ?case unfolding a bind_defaults.simps
    by (rule bind_rets [OF 1 2]) (use Cons in \<open>auto intro!: bind_rets [OF put_rets ready_put]\<close>)
qed simp

lemma call_fun_rets:
  assumes t: "rets c rk B K rec" and fn: "runnable c rk B K r (fun_body fn)" "list_all (\<lambda>(x, d). opt_runnable c rk B K r d) (fun_params fn)"
    and "list_all data args" "ready (c_global c) e s"
  shows "returnsE (call_fun c rec fn args s)"
proof -
  define ne where "ne = bind_params (fun_params fn) args (env_new (Some (c_global c)))"
  let ?f = "length (i_envs s)" and ?ps = "drop (length args) (fun_params fn)"
  have ne: "data_env ne" "e_parent ne = Some (c_global c)" "\<not> e_freed ne"
    using params_env [OF assms(4), of "env_new (Some (c_global c))" "fun_params fn"] by (simp_all add: ne_def)
  have rd: "ready (c_global c) ?f (env_alloc ne s)" using ready_alloc [OF assms(5) ne(1,2) _ ne(3)] assms(5) by (simp add: ready_def)
  have ps: "list_all (\<lambda>(x, d). opt_runnable c rk B K r d) ?ps" using fn(2) by (auto simp: list_all_iff dest: in_set_dropD)
  then have "list_all (\<lambda>(x, d). case d of None \<Rightarrow> True | Some m \<Rightarrow> fun_free m) ?ps"
    by (auto simp: list_all_iff opt_runnable_def runnable_def split: option.splits)
  note def = typed_defaults [OF rets_typed [OF t] this rd]
  show ?thesis unfolding call_fun_def Let_def ne_def [symmetric]
    by (rule bind_rets [OF defaults_rets [OF t ps rd] def]) (rule run_body_rets [OF t fn(1)])
qed

definition clause_runnable :: "iconf \<Rightarrow> (string \<Rightarrow> nat) \<Rightarrow> nat \<Rightarrow> nat \<Rightarrow> nat \<Rightarrow> node \<times> node option \<times> node \<Rightarrow> bool" where
  "clause_runnable c rk B K r = (\<lambda>(p, g, b). opt_runnable c rk B K r g \<and> runnable c rk B K r b)"

lemma clauses_rets:
  assumes t: "rets c rk B K rec" and "data msg"
  shows "list_all (clause_runnable c rk B K r) cs \<Longrightarrow> ready (c_global c) e s \<Longrightarrow> returnsE (eval_clauses rec cs msg e s)"
proof (induction cs arbitrary: s)
  case (Cons cl cs)
  obtain pat guard body where cl: "cl = (pat, guard, body)" by (cases cl)
  obtain m ce where m: "pattern_match pat msg (env_new (Some e)) = (m, ce)" by (cases "pattern_match pat msg (env_new (Some e))")
  have "keeps (env_new (Some e)) ce" using match_keeps(1) [OF assms(2), of "env_new (Some e)" pat] m by simp
  then have ce: "data_env ce" "e_parent ce = Some e" "\<not> e_freed ce" by (simp_all add: keeps_def)
  let ?f = "length (i_envs s)" and ?s = "env_alloc ce s"
  have rd: "ready (c_global c) ?f ?s" using ready_alloc [OF Cons.prems(2) ce(1,2) _ ce(3)] Cons.prems(2) by (simp add: ready_def)
  have again: "returnsE (eval_clauses rec cs msg e (env_free ?f s1))" if "frame ?f ?s s1" "ready (c_global c) ?f s1" for s1
    using Cons.prems ready_leave [OF Cons.prems(2) that] by (intro Cons.IH) simp_all
  have b: "runnable c rk B K r body" using Cons.prems(1) cl by (simp add: clause_runnable_def)
  have guard: "returnsE (bindE (rec gd ?f ?s) (\<lambda>gv s1.
      if sw_val_is_truthy gv then run_body rec body ?f s1 else eval_clauses rec cs msg e (env_free ?f s1)))"
    if "guard = Some gd" for gd
  proof -
    have gd: "runnable c rk B K r gd" using Cons.prems(1) cl that by (simp add: clause_runnable_def opt_runnable_def)
    show ?thesis
      by (rule bind_rets [OF rec_rets [OF t gd rd] safeE_conj [OF rec_safe [OF t gd rd] framesD [OF typed_frames [OF rets_typed [OF t]]]]])
        (auto intro!: again run_body_rets [OF t b])
  qed
  show ?case
  proof (cases m)
    case True
    then show ?thesis using cl m guard run_body_rets [OF t b rd] by (cases guard) (simp_all add: Let_def)
  next
    case False
    then show ?thesis using cl m again [OF frame_refl rd] by simp
  qed
qed simp

lemma receive_rets:
  assumes t: "rets c rk B K rec" and "list_all (clause_runnable c rk B K r) cs" "opt_runnable c rk B K r after" "ready (c_global c) e s"
  shows "returnsE (eval_receive rec cs after e s)"
proof -
  have "returnsE (case after of Some b \<Rightarrow> rec b e s1 | None \<Rightarrow> retE V_nil s1)" if "ready (c_global c) e s1" for s1
    using assms(3) that rec_rets [OF t] by (cases after) (auto simp: opt_runnable_def)
  then show ?thesis using assms(4) clauses_rets [OF t data_ops(4) assms(2)]
    by (auto simp: eval_receive_def Let_def split: list.split option.split)
qed

lemma try_rets:
  assumes t: "rets c rk B K rec" and "runnable c rk B K r body" "runnable c rk B K r handler" "ready (c_global c) e s"
  shows "returnsE (eval_try rec body var handler e s)"
  unfolding eval_try_def
proof (rule bind_rec [OF t assms(2,4)])
  fix v s1 assume v: "data v \<and> ready (c_global c) e s1"
  let ?s = "s1\<lparr>i_error := False, i_error_msg := []\<rparr>"
  let ?ne = "env_set var (V_string (i_error_msg s1)) (env_new (Some e))"
  have "ready (c_global c) e ?s" using v by simp
  then have "ready (c_global c) (length (i_envs ?s)) (env_alloc ?ne ?s)"
    by (rule ready_alloc) (use v in \<open>auto simp: data_set ready_def env_live_def\<close>)
  then show "returnsE (if i_error s1 then run_body rec handler (length (i_envs s1)) (env_alloc ?ne ?s) else retE v s1)"
    using run_body_rets [OF t assms(3)] by simp
qed

lemma builtin_rets [simp]:
  "returnsE (builtin_print c args s)" "returnsE (builtin_assert args line s)" "returnsE (builtin_assert_eq c args line s)"
  "returnsE (builtin_assert_ne args line s)" "returnsE (undefined_fun f m s)" "returnsE (eval_send a b s)"
  "returnsE (eval_binop c op a b s)"
  by (auto simp: builtin_print_def builtin_assert_def builtin_assert_eq_def builtin_assert_ne_def assert_fail_def undefined_fun_def
      eval_send_def eval_binop_def eval_concat_def split: list.split sw_val.split option.split sum.split)

text \<open>The functions of the module that code of rank \<open>r\<close> may call.\<close>

lemma ranked_fun:
  assumes "ranked (c_mod c) rk B" "find_fun (c_mod c) f = Some fn" "rk f < r" "r * B \<le> K"
  shows "runnable c rk B K (rk f) (fun_body fn)" "list_all (\<lambda>(x, d). opt_runnable c rk B K (rk f) d) (fun_params fn)"
proof -
  have fn: "fn \<in> set (m_funs (c_mod c))" "fun_name fn = f" using assms(2) by (auto simp: find_fun_def find_Some_iff)
  have "Suc (rk f) * B \<le> r * B" using assms(3) by (intro mult_le_mono1) simp
  then have K: "runnable c rk B K (rk f) n" if "ranked_code (c_mod c) rk B (rk f) n" for n
    using that assms(4) by (simp add: ranked_code_def runnable_def)
  have "ranked_code (c_mod c) rk B (rk f) (fun_body fn)"
    "list_all (\<lambda>(x, d). case d of None \<Rightarrow> True | Some n \<Rightarrow> ranked_code (c_mod c) rk B (rk f) n) (fun_params fn)"
    using assms(1) fn by (auto simp: ranked_def list_all_iff)
  then show "runnable c rk B K (rk f) (fun_body fn)" "list_all (\<lambda>(x, d). opt_runnable c rk B K (rk f) d) (fun_params fn)"
    using K by (auto simp: opt_runnable_def list_all_iff split: option.splits)
qed

lemma named_rets:
  assumes t: "rets c rk B K rec" and m: "ranked (c_mod c) rk B" and f: "find_fun (c_mod c) f = None \<or> rk f < r" "r * B \<le> K"
    and "list_all data args" "ready (c_global c) e s"
  shows "returnsE (call_named c rec line f args e s)"
proof -
  obtain q where q: "env_get s e f = Inr q" "\<And>v. q = Some v \<Longrightarrow> data v" using env_get_data [of s e f] assms(6) by (auto simp: ready_def)
  have look: "returnsE (case env_get s e f of Inl flt \<Rightarrow> faultE flt
      | Inr (Some (V_fun fn cenv)) \<Rightarrow> apply_fun rec fn args cenv s | Inr _ \<Rightarrow> undefined_fun f (length args) s)"
    using q by (cases q) (auto split: sw_val.split)
  have "returnsE (call_fun c rec fn args s)" if "find_fun (c_mod c) f = Some fn" for fn
    using that f ranked_fun [OF m that _ f(2)] by (intro call_fun_rets [OF t _ _ assms(5,6)]) auto
  with look show ?thesis unfolding call_named_def by (auto simp del: sum.case split: option.split)
qed

lemma piped_rets:
  assumes t: "rets c rk B K rec" and m: "ranked (c_mod c) rk B" and f: "find_fun (c_mod c) f = None \<or> rk f < r" "r * B \<le> K"
    and "list_all data (v # vs)" "ready (c_global c) e s"
  shows "returnsE (call_piped c rec line f v vs s)"
proof -
  have "env_live s (c_global c)" using assms(6) by (simp add: ready_def)
  then have "returnsE (apply_fun rec fn (v # vs) (c_global c) s)" if "find_fun (c_mod c) f = Some fn" for fn
    using that f ranked_fun(1) [OF m that _ f(2)] by (intro apply_rets [OF t _ assms(5,6)]) auto
  then show ?thesis unfolding call_piped_def by (auto split: option.split)
qed

lemma size_mem: "x \<in> set xs \<Longrightarrow> f x < size_list f xs"
  by (induction xs) auto

text \<open>The parts of an expression are runnable in one level less.\<close>

lemma runnable_part:
  assumes "runnable c rk B (Suc K) r n" "fun_free m" "set (calls m) \<subseteq> set (calls n)" "size m < size n"
  shows "runnable c rk B K r m"
  using assms by (auto simp: runnable_def calls_below_def list_all_iff)

lemma runnable_items:
  assumes "runnable c rk B (Suc K) r n" "list_all fun_free ns" "set (concat (map calls ns)) \<subseteq> set (calls n)" "size_list size ns \<le> size n"
  shows "list_all (runnable c rk B K r) (take j ns)"
proof -
  have "runnable c rk B K r m" if "m \<in> set (take j ns)" for m
  proof -
    have "m \<in> set ns" using that by (rule in_set_takeD)
    then show ?thesis using assms size_mem [of m ns size] by (intro runnable_part [OF assms(1)]) (auto simp: list_all_iff)
  qed
  then show ?thesis by (simp add: list_all_iff)
qed

lemma entry_parts:
  assumes "runnable c rk B (Suc K) r n" "n = N_MAP es"
  shows "list_all (runnable2 c rk B K r) (take j es)"
proof -
  have "runnable2 c rk B K r (k, v)" if kv: "(k, v) \<in> set (take j es)" for k v
  proof -
    have e: "(k, v) \<in> set es" using kv by (rule in_set_takeD)
    then have "fun_free k" "fun_free v" "set (calls k) \<subseteq> set (calls n)" "set (calls v) \<subseteq> set (calls n)"
      using assms by (auto simp: runnable_def list_all_iff)
    moreover have "size k < size n" "size v < size n" using size_mem [OF e, of "size_prod size size"] assms(2) by simp_all
    ultimately show ?thesis using runnable_part [OF assms(1)] by (simp add: runnable2_def)
  qed
  then show ?thesis by (auto simp: list_all_iff)
qed

lemma clause_parts:
  assumes "runnable c rk B (Suc K) r n" "n = N_RECEIVE cs d ms"
  shows "list_all (clause_runnable c rk B K r) cs" "opt_runnable c rk B K r d"
proof -
  have "clause_runnable c rk B K r (p, g, b)" if e: "(p, g, b) \<in> set cs" for p g b
  proof -
    have ff: "fun_free b" "\<And>x. g = Some x \<Longrightarrow> fun_free x" using assms e by (auto simp: runnable_def list_all_iff)
    have cl: "set (calls b) \<subseteq> set (calls n)" "\<And>x. g = Some x \<Longrightarrow> set (calls x) \<subseteq> set (calls n)" using assms(2) e by force+
    have sz: "size b < size n" "\<And>x. g = Some x \<Longrightarrow> size x < size n"
      using size_mem [OF e, of "size_prod size (size_prod (size_option size) size)"] assms(2) by auto
    show ?thesis using ff cl sz runnable_part [OF assms(1)] by (auto simp: clause_runnable_def opt_runnable_def split: option.split)
  qed
  then show "list_all (clause_runnable c rk B K r) cs" by (auto simp: list_all_iff)
  have "runnable c rk B K r x" if x: "d = Some x" for x
  proof (rule runnable_part [OF assms(1)])
    show "fun_free x" using assms x by (simp add: runnable_def)
    show "set (calls x) \<subseteq> set (calls n)" "size x < size n" using assms(2) x by simp_all
  qed
  then show "opt_runnable c rk B K r d" by (cases d) (simp_all add: opt_runnable_def)
qed

lemma step_rets:
  assumes t: "rets c rk B K rec" and m: "ranked (c_mod c) rk B" "plain_mod (c_mod c)"
  shows "rets c rk B (Suc K) (eval_step c rec)"
proof -
  have "returnsE (eval_step c rec n e s)" if n: "fun_free n" "calls_below (c_mod c) rk r n" "r * B + size n < Suc K" and rd: "ready (c_global c) e s"
    for n e s r
  proof (cases "i_error s")
    case False
    have ru: "runnable c rk B (Suc K) r n" using n by (simp add: runnable_def)
    note part = runnable_part [OF ru] and items = runnable_items [OF ru]
    have rB: "r * B \<le> K" using n(3) by simp
    note rules = bind_rec [OF t part] rec_rets [OF t part] bind_rets [OF all_rets [OF t items] typed_all [OF rets_typed [OF t]]]
    show ?thesis
    proof (cases n)
      case (N_IDENT x)
      obtain q where "env_get s e x = Inr q" using env_get_data [of s e x] rd by (auto simp: ready_def)
      then show ?thesis using N_IDENT False by (cases q) (auto simp: eval_step_def)
    next
      case (N_TUPLE ns)
      then show ?thesis using n rd False by (auto simp: eval_step_def take_free intro!: rules)
    next
      case (N_LIST ns)
      then show ?thesis using n rd False by (auto simp: eval_step_def take_free intro!: rules)
    next
      case (N_BLOCK ns)
      then have "list_all (runnable c rk B K r) ns" using items [of ns "length ns"] n(1) by auto
      then show ?thesis using N_BLOCK rd False block_rets [OF t] by (simp add: eval_step_def)
    next
      case (N_CALL line f ns)
      then have "find_fun (c_mod c) f = None \<or> rk f < r" using n(2) by (simp add: calls_below_def)
      note call = named_rets [OF t m(1) this rB]
      show ?thesis using N_CALL n rd False by (auto simp: eval_step_def eval_call_def take_free intro!: rules call)
    next
      case (N_PIPE line a b)
      have a: "runnable c rk B K r a" using N_PIPE n(1) by (intro part) auto
      have "returnsE (case b of
            N_CALL l f ns \<Rightarrow>
              bindE (rec (N_IDENT f) e s1) (\<lambda>_ s. bindE (eval_all rec (take 15 ns) e s) (\<lambda>vs s. call_piped c rec line f v vs s))
          | _ \<Rightarrow> retE v s1)" if v: "data v \<and> ready (c_global c) e s1" for v s1
      proof (cases "\<exists>l f ns. b = N_CALL l f ns")
        case True
        then obtain l f ns where b: "b = N_CALL l f ns" by blast
        have f: "find_fun (c_mod c) f = None \<or> rk f < r" using n(2) N_PIPE b by (simp add: calls_below_def)
        have id: "runnable c rk B K r (N_IDENT f)" using N_PIPE by (intro part) auto
        have ns: "list_all (runnable c rk B K r) (take 15 ns)" "list_all fun_free (take 15 ns)"
          using items [of ns 15] n(1) N_PIPE b by (auto simp: take_free)
        show ?thesis unfolding b node.case
          by (rule bind_rec [OF t id], use v in simp, rule bind_rets [OF all_rets [OF t ns(1)] typed_all [OF rets_typed [OF t] ns(2)]])
            (use v in \<open>auto intro!: piped_rets [OF t m(1) f rB]\<close>)
      qed (auto split: node.split)
      then have "returnsE (eval_pipe c rec line a b e s)" unfolding eval_pipe_def by (rule bind_rec [OF t a rd])
      then show ?thesis using N_PIPE False by (simp add: eval_step_def)
    next
      case (N_MAP es)
      have "list_all (runnable2 c rk B K r) (take 64 es)" using entry_parts [OF ru N_MAP] .
      moreover have "list_all (\<lambda>(k, v). fun_free k \<and> fun_free v) (take 64 es)" using n(1) N_MAP by (simp add: take_free)
      ultimately show ?thesis using N_MAP rd False
        by (auto simp: eval_step_def intro!: bind_rets [OF entries_rets [OF t] typed_entries [OF rets_typed [OF t]]])
    next
      case (N_IF a b d)
      have "runnable c rk B K r a" "runnable c rk B K r b" "opt_runnable c rk B K r d"
        using N_IF n(1) by (auto simp: opt_runnable_def intro!: part split: option.split)
      then show ?thesis using N_IF rd False
        by (auto simp: eval_step_def opt_runnable_def intro!: bind_rec [OF t] rec_rets [OF t] split: option.splits)
    next
      case (N_FOR x a b)
      have "runnable c rk B K r a" "runnable c rk B K r b" using N_FOR n(1) by (auto intro!: part)
      then show ?thesis using N_FOR rd False
        by (auto simp: eval_step_def intro!: bind_rec [OF t] for_rets [OF t] split: sw_val.split)
    next
      case (N_TRY a x b)
      have "runnable c rk B K r a" "runnable c rk B K r b" using N_TRY n(1) by (auto intro!: part)
      then show ?thesis using N_TRY rd False try_rets [OF t] by (simp add: eval_step_def)
    next
      case (N_RECEIVE cs d ms)
      then show ?thesis using rd False receive_rets [OF t clause_parts [OF ru N_RECEIVE]] by (simp add: eval_step_def)
    next
      case (N_ASSIGN x a)
      have "runnable c rk B K r a" using N_ASSIGN n(1) by (auto intro!: part)
      then show ?thesis using N_ASSIGN rd False
        by (auto simp: eval_step_def intro!: bind_rec [OF t] bind_rets [OF put_rets ready_put])
    qed (use n rd False in \<open>auto simp: eval_step_def intro!: rules\<close>)
  qed (simp add: eval_step_def)
  then show ?thesis using typed_step [OF rets_typed [OF t] m(2)] by (auto simp: rets_def)
qed

lemma ranked_plain: "ranked m rk B \<Longrightarrow> plain_mod m"
  by (fastforce simp: ranked_def plain_mod_def plain_fun_def ranked_code_def list_all_iff split: option.splits prod.splits)

lemma eval_rets:
  assumes "ranked (c_mod c) rk B"
  shows "rets c rk B k (eval c k)"
proof (induction k)
  case 0
  show ?case using typed_eval [OF ranked_plain [OF assms], of 0] by (simp add: rets_def)
next
  case (Suc k)
  show ?case using step_rets [OF Suc assms ranked_plain [OF assms]] by simp
qed

section \<open>Programs that return\<close>

text \<open>
  C21. Programs without recursion end: when the functions of the module hold no anonymous functions, are smaller than \<open>B\<close>
  and only call functions of a smaller rank, evaluating an expression that calls functions of rank below \<open>r\<close> returns as
  soon as the depth exceeds \<open>r\<close> times \<open>B\<close> and the size of the expression, whatever the variables and messages are.
\<close>

theorem acyclic_program_returns:
  assumes "ranked (c_mod c) rk B" "fun_free n" "calls_below (c_mod c) rk r n" "ready (c_global c) e s" "r * B + size n < k"
  shows "\<exists>x. eval c k n e s = Some x"
  using eval_rets [OF assms(1), of k] assms(2-5) unfolding rets_def returnsE_def by blast

theorem acyclic_program_returns_witness:
  "\<exists>x. eval (demo_conf demo_mod) 100 demo_node 0 sw_lang_new = Some x"
proof (rule acyclic_program_returns [where rk = "\<lambda>_. 0" and B = 20 and r = 1])
  show "ranked (c_mod (demo_conf demo_mod)) (\<lambda>_. 0) 20" by code_simp
  show "fun_free demo_node" by code_simp
  show "calls_below (c_mod (demo_conf demo_mod)) (\<lambda>_. 0) 1 demo_node" by code_simp
  show "ready (c_global (demo_conf demo_mod)) 0 sw_lang_new"
    by (simp add: ready_def envs_ok_def parent_ok_def env_live_def sw_lang_new_def demo_conf_def)
  show "1 * 20 + size demo_node < 100" by (simp add: demo_node_def)
qed

end
