(* ===== verification/Io.thy ===== *)
theory Io
  imports Bytes
begin

text \<open>
  Ports, \<^verbatim>\<open>src/src/swarmrt_io.c\<close>: sockets owned by processes, the list of open ports, the set of descriptors that are
  watched for reading, and the events of the I/O thread. The results of system calls are arguments. Events and watch set are
  those of epoll: adding a descriptor that is watched changes nothing, and closing a descriptor removes it. Every operation is
  one step. The code takes no lock on the state of a port, so the theorems about histories are for operations that run one after the
  other; what an event that overlaps a close does is shown at the end.
\<close>

section \<open>Ports\<close>

datatype sw_port_type = SW_PORT_TCP_LISTEN | SW_PORT_TCP_CONN | SW_PORT_PIPE
datatype sw_port_state = SW_PORT_OPEN | SW_PORT_CLOSING | SW_PORT_CLOSED

text \<open>Ports are allocated one by one and only given back at shutdown, so a pointer to one is its place in the order of allocation.\<close>

type_synonym port_ref = nat

record sw_port =
  pt_fd :: int
  pt_type :: sw_port_type
  pt_state :: sw_port_state
  pt_owner :: "proc_ref option"
  pt_id :: u32
  recv_buf :: bool
  recv_buf_size :: u32

definition SW_IO_RECV_BUF :: nat where [const_simps]: "SW_IO_RECV_BUF = 4096"
definition SW_INVALID_FD :: int where [const_simps]: "SW_INVALID_FD = -1"
definition SW_TAG_PORT_DATA :: u64 where [const_simps]: "SW_TAG_PORT_DATA = 20"
definition SW_TAG_PORT_ACCEPT :: u64 where [const_simps]: "SW_TAG_PORT_ACCEPT = 21"
definition SW_TAG_PORT_CLOSED :: u64 where [const_simps]: "SW_TAG_PORT_CLOSED = 22"

text \<open>The messages to the owner: the new connection of a listener, data, and the end of a connection with an error number.\<close>

datatype port_msg =
    Port_accept port_ref port_ref
  | Port_data port_ref bytes
  | Port_closed port_ref int

fun port_tag :: "port_msg \<Rightarrow> u64" where
  "port_tag (Port_accept l c) = SW_TAG_PORT_ACCEPT"
| "port_tag (Port_data p d) = SW_TAG_PORT_DATA"
| "port_tag (Port_closed p e) = SW_TAG_PORT_CLOSED"

text \<open>
  The state: the ports in memory, the list \<^verbatim>\<open>g_ports\<close>, the counter of identifiers, the watch set, the messages sent so far, the
  bytes that the kernel took from writes, and the ports given back at shutdown.
\<close>

record io_state =
  io_mem :: "sw_port list"
  g_ports :: "port_ref list"
  g_next_port_id :: u32
  io_watch :: "int \<rightharpoonup> port_ref"
  io_sent :: "(proc_ref \<times> port_msg) list"
  io_wire :: "(int \<times> bytes) list"
  io_freed :: "port_ref list"

definition io_init :: io_state where
  "io_init = \<lparr>io_mem = [], g_ports = [], g_next_port_id = 1, io_watch = Map.empty, io_sent = [], io_wire = [], io_freed = []\<rparr>"

definition upd_port :: "port_ref \<Rightarrow> (sw_port \<Rightarrow> sw_port) \<Rightarrow> io_state \<Rightarrow> io_state" where
  "upd_port p f s = s\<lparr>io_mem := (io_mem s)[p := f (io_mem s ! p)]\<rparr>"

definition port_alloc :: "int \<Rightarrow> sw_port_type \<Rightarrow> proc_ref option \<Rightarrow> io_state \<Rightarrow> port_ref \<times> io_state" where
  "port_alloc fd type owner s =
     (let p = length (io_mem s)
      in (p, s\<lparr>io_mem := io_mem s @ [\<lparr>pt_fd = fd, pt_type = type, pt_state = SW_PORT_OPEN, pt_owner = owner, pt_id = g_next_port_id s,
                  recv_buf = (type = SW_PORT_TCP_CONN), recv_buf_size = (if type = SW_PORT_TCP_CONN then of_nat SW_IO_RECV_BUF else 0)\<rparr>],
               g_next_port_id := g_next_port_id s + 1, g_ports := p # g_ports s\<rparr>))"

definition port_remove :: "port_ref \<Rightarrow> io_state \<Rightarrow> io_state" where
  "port_remove p s = s\<lparr>g_ports := remove_first (\<lambda>q. q = p) (g_ports s)\<rparr>"

definition ev_register_read :: "int \<Rightarrow> port_ref \<Rightarrow> io_state \<Rightarrow> io_state" where
  "ev_register_read fd p s = (if fd < 0 \<or> io_watch s fd \<noteq> None then s else s\<lparr>io_watch := (io_watch s)(fd \<mapsto> p)\<rparr>)"

definition ev_deregister :: "int \<Rightarrow> io_state \<Rightarrow> io_state" where
  "ev_deregister fd s = s\<lparr>io_watch := (io_watch s)(fd := None)\<rparr>"

definition close_fd :: "int \<Rightarrow> io_state \<Rightarrow> io_state" where
  "close_fd fd s = s\<lparr>io_watch := (io_watch s)(fd := None)\<rparr>"

text \<open>\<^verbatim>\<open>sw_send_tagged\<close> to the owner of a port; a null pointer is ignored.\<close>

definition port_send :: "proc_ref option \<Rightarrow> port_msg \<Rightarrow> io_state \<Rightarrow> io_state" where
  "port_send owner m s = (case owner of None \<Rightarrow> s | Some q \<Rightarrow> s\<lparr>io_sent := io_sent s @ [(q, m)]\<rparr>)"

section \<open>Events\<close>

text \<open>\<open>fd\<close> is what \<^verbatim>\<open>accept\<close> returned.\<close>

definition handle_accept :: "int \<Rightarrow> port_ref \<Rightarrow> io_state \<Rightarrow> io_state" where
  "handle_accept fd listener s =
     (if fd < 0 then s
      else let owner = pt_owner (io_mem s ! listener);
               (conn, s) = port_alloc fd SW_PORT_TCP_CONN owner s
           in port_send owner (Port_accept listener conn) (ev_register_read fd conn s))"

text \<open>What \<^verbatim>\<open>read\<close> returned: bytes, of which there are none at the end of the stream, or an error number.\<close>

datatype rd_result = Rd_bytes bytes | Rd_error int

definition EAGAIN :: int where [const_simps]: "EAGAIN = 11"

definition handle_read :: "rd_result \<Rightarrow> port_ref \<Rightarrow> io_state \<Rightarrow> io_state" where
  "handle_read r p s =
     (let po = io_mem s ! p
      in if pt_state po \<noteq> SW_PORT_OPEN \<or> pt_owner po = None then s
         else if (case r of Rd_bytes d \<Rightarrow> d \<noteq> [] | Rd_error e \<Rightarrow> False) then
           (case r of Rd_bytes d \<Rightarrow> port_send (pt_owner po) (Port_data p d) s | Rd_error e \<Rightarrow> s)
         else if (case r of Rd_bytes d \<Rightarrow> True | Rd_error e \<Rightarrow> e \<noteq> EAGAIN) then
           let s = upd_port p (\<lambda>po. po\<lparr>pt_state := SW_PORT_CLOSING\<rparr>) (ev_deregister (pt_fd po) s)
           in port_send (pt_owner po) (Port_closed p (case r of Rd_bytes d \<Rightarrow> 0 | Rd_error e \<Rightarrow> e)) s
         else s)"

text \<open>
  One event of the loop: the wake-up pipe, whose registration has a null pointer, or a port, with the flag of a hang-up and
  what the system call made for it returns.
\<close>

record io_event =
  ev_port :: "port_ref option"
  ev_hup :: bool
  ev_accept :: int
  ev_read :: rd_result

definition io_dispatch :: "io_event \<Rightarrow> io_state \<Rightarrow> io_state" where
  "io_dispatch ev s =
     (case ev_port ev of
        None \<Rightarrow> s
      | Some p \<Rightarrow>
          (if ev_hup ev then (if pt_type (io_mem s ! p) = SW_PORT_TCP_CONN then handle_read (ev_read ev) p s else s)
           else case pt_type (io_mem s ! p) of
                  SW_PORT_TCP_LISTEN \<Rightarrow> handle_accept (ev_accept ev) p s
                | SW_PORT_TCP_CONN \<Rightarrow> handle_read (ev_read ev) p s
                | SW_PORT_PIPE \<Rightarrow> handle_read (ev_read ev) p s))"

definition io_loop :: "io_event list \<Rightarrow> io_state \<Rightarrow> io_state" where
  "io_loop evs s = fold io_dispatch evs s"

section \<open>Operations of processes\<close>

text \<open>\<open>fd\<close> is what \<^verbatim>\<open>socket\<close> returned, the flags say whether \<^verbatim>\<open>bind\<close>, \<^verbatim>\<open>listen\<close> and \<^verbatim>\<open>connect\<close> succeeded.\<close>

definition sw_tcp_listen :: "proc_ref option \<Rightarrow> int \<Rightarrow> bool \<Rightarrow> bool \<Rightarrow> io_state \<Rightarrow> port_ref option \<times> io_state" where
  "sw_tcp_listen self fd bound listening s =
     (if fd < 0 then (None, s)
      else if \<not> bound then (None, close_fd fd s)
      else if \<not> listening then (None, close_fd fd s)
      else let (p, s) = port_alloc fd SW_PORT_TCP_LISTEN self s in (Some p, ev_register_read fd p s))"

definition sw_tcp_connect :: "proc_ref option \<Rightarrow> int \<Rightarrow> bool \<Rightarrow> io_state \<Rightarrow> port_ref option \<times> io_state" where
  "sw_tcp_connect self fd connected s =
     (if fd < 0 then (None, s)
      else if \<not> connected then (None, close_fd fd s)
      else let (p, s) = port_alloc fd SW_PORT_TCP_CONN self s in (Some p, ev_register_read fd p s))"

text \<open>\<open>kw\<close> is the kernel: the number of bytes of a \<^verbatim>\<open>write\<close> that it takes, or a negative number.\<close>

type_synonym kernel_write = "io_state \<Rightarrow> int \<Rightarrow> bytes \<Rightarrow> int"

definition sw_tcp_send :: "kernel_write \<Rightarrow> port_ref option \<Rightarrow> bytes \<Rightarrow> io_state \<Rightarrow> int \<times> io_state" where
  "sw_tcp_send kw port data s =
     (case port of
        None \<Rightarrow> (-1, s)
      | Some p \<Rightarrow>
          (let po = io_mem s ! p
           in if pt_state po \<noteq> SW_PORT_OPEN \<or> pt_type po \<noteq> SW_PORT_TCP_CONN then (-1, s)
              else let sent = kw s (pt_fd po) data
                   in if sent < 0 then (-1, s) else (sent, s\<lparr>io_wire := io_wire s @ [(pt_fd po, take (nat sent) data)]\<rparr>)))"

definition sw_port_set_active :: "port_ref option \<Rightarrow> bool \<Rightarrow> io_state \<Rightarrow> io_state" where
  "sw_port_set_active port active s =
     (case port of
        None \<Rightarrow> s
      | Some p \<Rightarrow> if active then ev_register_read (pt_fd (io_mem s ! p)) p s else ev_deregister (pt_fd (io_mem s ! p)) s)"

definition sw_port_close :: "port_ref option \<Rightarrow> io_state \<Rightarrow> io_state" where
  "sw_port_close port s =
     (case port of
        None \<Rightarrow> s
      | Some p \<Rightarrow>
          (let po = io_mem s ! p
           in if pt_state po = SW_PORT_CLOSED then s
              else let s = ev_deregister (pt_fd po) s;
                       s = upd_port p (\<lambda>po. po\<lparr>pt_state := SW_PORT_CLOSING\<rparr>) s;
                       s = close_fd (pt_fd po) s;
                       s = upd_port p (\<lambda>po. po\<lparr>pt_fd := SW_INVALID_FD\<rparr>) s;
                       s = port_send (pt_owner po) (Port_closed p 0) s;
                       s = port_remove p s
                   in upd_port p (\<lambda>po. po\<lparr>recv_buf := False, pt_state := SW_PORT_CLOSED\<rparr>) s))"

definition sw_port_controlling_process :: "port_ref option \<Rightarrow> proc_ref option \<Rightarrow> io_state \<Rightarrow> io_state" where
  "sw_port_controlling_process port new_owner s =
     (case port of None \<Rightarrow> s | Some p \<Rightarrow> upd_port p (\<lambda>po. po\<lparr>pt_owner := new_owner\<rparr>) s)"

text \<open>At most 256 ports are collected; each is then closed without a message.\<close>

definition cleanup_ports :: "proc_ref \<Rightarrow> io_state \<Rightarrow> port_ref list" where
  "cleanup_ports q s =
     take 256 (filter (\<lambda>p. pt_owner (io_mem s ! p) = Some q \<and> pt_state (io_mem s ! p) = SW_PORT_OPEN) (g_ports s))"

definition cleanup_port :: "port_ref \<Rightarrow> io_state \<Rightarrow> io_state" where
  "cleanup_port p s =
     (let s = upd_port p (\<lambda>po. po\<lparr>pt_owner := None\<rparr>) s;
          s = ev_deregister (pt_fd (io_mem s ! p)) s;
          s = (if pt_fd (io_mem s ! p) \<noteq> SW_INVALID_FD
               then upd_port p (\<lambda>po. po\<lparr>pt_fd := SW_INVALID_FD\<rparr>) (close_fd (pt_fd (io_mem s ! p)) s) else s);
          s = upd_port p (\<lambda>po. po\<lparr>pt_state := SW_PORT_CLOSED\<rparr>) s
      in port_remove p s)"

definition sw_io_cleanup_owner :: "proc_ref option \<Rightarrow> io_state \<Rightarrow> io_state" where
  "sw_io_cleanup_owner proc s = (case proc of None \<Rightarrow> s | Some q \<Rightarrow> fold cleanup_port (cleanup_ports q s) s)"

definition sw_io_shutdown :: "io_state \<Rightarrow> io_state" where
  "sw_io_shutdown s = s\<lparr>io_watch := Map.empty, io_freed := io_freed s @ g_ports s, g_ports := []\<rparr>"

section \<open>Consistency\<close>

text \<open>
  The list holds exactly the ports that are not closed, each with a descriptor of its own; a closed port has none; what is
  watched is the descriptor of a port of the list.
\<close>

definition io_inv :: "io_state \<Rightarrow> bool" where
  "io_inv s \<longleftrightarrow> distinct (g_ports s)
     \<and> (\<forall>p. p \<in> set (g_ports s) \<longleftrightarrow> p < length (io_mem s) \<and> pt_state (io_mem s ! p) \<noteq> SW_PORT_CLOSED)
     \<and> (\<forall>p<length (io_mem s). pt_state (io_mem s ! p) = SW_PORT_CLOSED \<longrightarrow> pt_fd (io_mem s ! p) = SW_INVALID_FD)
     \<and> (\<forall>p\<in>set (g_ports s). 0 \<le> pt_fd (io_mem s ! p)) \<and> inj_on (\<lambda>p. pt_fd (io_mem s ! p)) (set (g_ports s))
     \<and> (\<forall>fd p. io_watch s fd = Some p \<longrightarrow> p \<in> set (g_ports s) \<and> pt_fd (io_mem s ! p) = fd)"

text \<open>The descriptors in use.\<close>

definition io_fds :: "io_state \<Rightarrow> int set" where
  "io_fds s = (\<lambda>p. pt_fd (io_mem s ! p)) ` set (g_ports s)"

lemma io_inv_init: "io_inv io_init"
  by (simp add: io_inv_def io_init_def)

lemma io_inv_frame [simp]:
  "io_inv (s\<lparr>io_sent := ms\<rparr>) = io_inv s" "io_inv (s\<lparr>io_wire := w\<rparr>) = io_inv s" "io_inv (port_send q m s) = io_inv s"
  by (simp_all add: io_inv_def port_send_def split: option.split)

lemma io_inv_alloc:
  assumes inv: "io_inv s" and fd: "0 \<le> fd" "fd \<notin> io_fds s" and pa: "port_alloc fd type owner s = (p, s')"
  shows "io_inv (ev_register_read fd p s')"
proof -
  let ?n = "length (io_mem s)"
  have p: "p = ?n" and gp: "g_ports s' = ?n # g_ports s" and w: "io_watch s' = io_watch s"
    and len: "length (io_mem s') = Suc ?n" and old: "\<And>q. q < ?n \<Longrightarrow> io_mem s' ! q = io_mem s ! q"
    and new: "pt_fd (io_mem s' ! ?n) = fd" "pt_state (io_mem s' ! ?n) = SW_PORT_OPEN"
    using pa by (auto simp: port_alloc_def Let_def nth_append)
  have nw: "io_watch s fd = None"
  proof (rule ccontr)
    assume "io_watch s fd \<noteq> None"
    then obtain q where "io_watch s fd = Some q" by blast
    then have "q \<in> set (g_ports s)" "pt_fd (io_mem s ! q) = fd" using inv unfolding io_inv_def by blast+
    then show False using fd(2) by (auto simp: io_fds_def)
  qed
  have lt: "q < ?n" if "q \<in> set (g_ports s)" for q using inv that by (auto simp: io_inv_def)
  have fds: "pt_fd (io_mem s' ! q) \<noteq> fd" if "q \<in> set (g_ports s)" for q
    using fd(2) that old [OF lt [OF that]] by (auto simp: io_fds_def)
  have "\<forall>q. q \<in> set (g_ports s') \<longleftrightarrow> q < length (io_mem s') \<and> pt_state (io_mem s' ! q) \<noteq> SW_PORT_CLOSED"
    using inv new(2) old by (auto simp: len less_Suc_eq gp io_inv_def)
  moreover have "inj_on (\<lambda>q. pt_fd (io_mem s' ! q)) (set (g_ports s'))"
  proof -
    have "inj_on (\<lambda>q. pt_fd (io_mem s ! q)) (set (g_ports s))" using inv by (simp only: io_inv_def)
    then have "inj_on (\<lambda>q. pt_fd (io_mem s' ! q)) (set (g_ports s))"
      using old lt by (subst inj_on_cong [of _ _ "\<lambda>q. pt_fd (io_mem s ! q)"]) auto
    then show ?thesis using fds new(1) unfolding gp by force
  qed
  ultimately show ?thesis using inv fd(1) new old lt nw
    by (auto simp: io_inv_def ev_register_read_def p gp w len less_Suc_eq)
qed

lemma io_inv_update:
  assumes inv: "io_inv s" and p: "p < length (io_mem s)"
    and same: "pt_fd (f (io_mem s ! p)) = pt_fd (io_mem s ! p)"
      "(pt_state (f (io_mem s ! p)) = SW_PORT_CLOSED) = (pt_state (io_mem s ! p) = SW_PORT_CLOSED)"
  shows "io_inv (upd_port p f s)"
proof -
  have fs: "pt_fd (io_mem (upd_port p f s) ! q) = pt_fd (io_mem s ! q)"
    "(pt_state (io_mem (upd_port p f s) ! q) = SW_PORT_CLOSED) = (pt_state (io_mem s ! q) = SW_PORT_CLOSED)" for q
    using same p by (cases "q = p"; simp add: upd_port_def)+
  have gs: "length (io_mem (upd_port p f s)) = length (io_mem s)" "g_ports (upd_port p f s) = g_ports s"
    "io_watch (upd_port p f s) = io_watch s" by (simp_all add: upd_port_def)
  show ?thesis using inv unfolding io_inv_def fs gs .
qed

lemma io_inv_deregister: "io_inv s \<Longrightarrow> io_inv (ev_deregister fd s)"
  by (auto simp: io_inv_def ev_deregister_def split: if_splits)

lemma io_inv_close_fd: "io_inv s \<Longrightarrow> io_inv (close_fd fd s)"
  by (auto simp: io_inv_def close_fd_def split: if_splits)

lemma io_inv_register:
  "io_inv s \<Longrightarrow> p < length (io_mem s) \<Longrightarrow> io_inv (ev_register_read (pt_fd (io_mem s ! p)) p s)"
  by (auto simp: io_inv_def ev_register_read_def const_simps)

text \<open>A port that leaves the list: closed, without descriptor and not watched.\<close>

lemma io_inv_close:
  assumes inv: "io_inv s" and p: "p \<in> set (g_ports s)"
    and s': "g_ports s' = remove_first (\<lambda>q. q = p) (g_ports s)" "io_watch s' = (io_watch s)(pt_fd (io_mem s ! p) := None)"
      "io_mem s' = (io_mem s)[p := po]" "pt_fd po = SW_INVALID_FD" "pt_state po = SW_PORT_CLOSED"
  shows "io_inv s'"
proof -
  have d: "distinct (g_ports s)" and lt: "p < length (io_mem s)" using inv p by (auto simp: io_inv_def)
  have gp: "set (g_ports s') = set (g_ports s) - {p}" using d by (auto simp: s'(1) remove_first_distinct)
  have other: "io_mem s' ! q = io_mem s ! q" if "q \<noteq> p" for q using that by (simp add: s'(3))
  have self: "io_mem s' ! p = po" using lt by (simp add: s'(3))
  have w: "io_watch s' fd = Some q \<Longrightarrow> io_watch s fd = Some q \<and> q \<noteq> p" for fd q
    using inv by (auto simp: s'(2) io_inv_def split: if_splits)
  have len: "length (io_mem s') = length (io_mem s)" by (simp add: s'(3))
  have "q \<in> set (g_ports s') \<longleftrightarrow> q < length (io_mem s') \<and> pt_state (io_mem s' ! q) \<noteq> SW_PORT_CLOSED" for q
    using inv s'(5) self other [of q] by (cases "q = p") (auto simp: gp io_inv_def len)
  moreover have "inj_on (\<lambda>q. pt_fd (io_mem s' ! q)) (set (g_ports s'))"
    using inv other unfolding gp by (auto simp: io_inv_def inj_on_def)
  moreover have "distinct (g_ports s')" using d by (simp add: s'(1) distinct_remove_first)
  moreover have "pt_fd (io_mem s' ! q) = SW_INVALID_FD" if "q < length (io_mem s')" "pt_state (io_mem s' ! q) = SW_PORT_CLOSED" for q
    using inv that self other [of q] s'(4) by (cases "q = p") (auto simp: io_inv_def len)
  moreover have "\<forall>q\<in>set (g_ports s'). 0 \<le> pt_fd (io_mem s' ! q)" using inv other by (auto simp: io_inv_def gp)
  moreover have "q \<in> set (g_ports s') \<and> pt_fd (io_mem s' ! q) = fd" if "io_watch s' fd = Some q" for fd q
    using inv w [OF that] other [of q] by (auto simp: io_inv_def gp)
  ultimately show ?thesis by (simp add: io_inv_def)
qed

lemma sw_port_close_closes:
  assumes "p < length (io_mem s)" "pt_state (io_mem s ! p) \<noteq> SW_PORT_CLOSED"
  defines "s' \<equiv> sw_port_close (Some p) s"
  shows "g_ports s' = remove_first (\<lambda>q. q = p) (g_ports s)" "io_watch s' = (io_watch s)(pt_fd (io_mem s ! p) := None)"
    "io_mem s' = (io_mem s)[p := (io_mem s ! p)\<lparr>pt_fd := SW_INVALID_FD, recv_buf := False, pt_state := SW_PORT_CLOSED\<rparr>]"
  using assms unfolding s'_def
  by (simp_all add: sw_port_close_def Let_def ev_deregister_def upd_port_def close_fd_def port_send_def port_remove_def
      split: option.split)

lemma io_inv_port_close: "io_inv s \<Longrightarrow> (\<forall>p. port = Some p \<longrightarrow> p < length (io_mem s)) \<Longrightarrow> io_inv (sw_port_close port s)"
proof (cases port)
  case (Some p)
  assume inv: "io_inv s" and lt: "\<forall>p. port = Some p \<longrightarrow> p < length (io_mem s)"
  show ?thesis
  proof (cases "pt_state (io_mem s ! p) = SW_PORT_CLOSED")
    case False
    moreover have p: "p < length (io_mem s)" using lt Some by simp
    ultimately have "p \<in> set (g_ports s)" using inv by (simp add: io_inv_def)
    from io_inv_close [OF inv this sw_port_close_closes [OF p False]] show ?thesis using Some by simp
  qed (use inv Some in \<open>simp add: sw_port_close_def\<close>)
qed (simp add: sw_port_close_def)

lemma cleanup_port_closes:
  assumes "p < length (io_mem s)" "0 \<le> pt_fd (io_mem s ! p)"
  shows "g_ports (cleanup_port p s) = remove_first (\<lambda>q. q = p) (g_ports s)"
    "io_watch (cleanup_port p s) = (io_watch s)(pt_fd (io_mem s ! p) := None)"
    "io_mem (cleanup_port p s) = (io_mem s)[p := (io_mem s ! p)\<lparr>pt_owner := None, pt_fd := SW_INVALID_FD, pt_state := SW_PORT_CLOSED\<rparr>]"
    "io_sent (cleanup_port p s) = io_sent s"
  using assms by (simp_all add: cleanup_port_def Let_def ev_deregister_def upd_port_def close_fd_def port_remove_def const_simps)

lemma io_inv_cleanup_port: "io_inv s \<Longrightarrow> p \<in> set (g_ports s) \<Longrightarrow> io_inv (cleanup_port p s)"
  by (rule io_inv_close [OF _ _ cleanup_port_closes(1-3)]) (auto simp: io_inv_def)

lemma cleanup_ports_fold:
  assumes "io_inv s" "distinct ps" "set ps \<subseteq> set (g_ports s)"
  shows "io_inv (fold cleanup_port ps s) \<and> g_ports (fold cleanup_port ps s) = filter (\<lambda>p. p \<notin> set ps) (g_ports s)
    \<and> io_sent (fold cleanup_port ps s) = io_sent s
    \<and> (\<forall>p. p \<notin> set ps \<longrightarrow> io_mem (fold cleanup_port ps s) ! p = io_mem s ! p)"
  using assms
proof (induction ps arbitrary: s)
  case (Cons p ps)
  have p: "p \<in> set (g_ports s)" using Cons.prems by simp
  then have lt: "p < length (io_mem s)" "0 \<le> pt_fd (io_mem s ! p)" using Cons.prems(1) by (auto simp: io_inv_def)
  note c = cleanup_port_closes [OF lt]
  have d: "distinct (g_ports s)" using Cons.prems(1) by (simp add: io_inv_def)
  have g: "g_ports (cleanup_port p s) = filter (\<lambda>q. q \<noteq> p) (g_ports s)" using d by (simp add: c(1) remove_first_distinct)
  have "set ps \<subseteq> set (g_ports (cleanup_port p s))" using Cons.prems(2,3) by (auto simp: g)
  from Cons.IH [OF io_inv_cleanup_port [OF Cons.prems(1) p] _ this] Cons.prems(2)
  show ?case by (auto simp: g c(3,4) intro: filter_cong)
qed simp

text \<open>After the clean-up of an owner with at most 256 open ports none of its ports is open.\<close>

lemma cleanup_owner_closes:
  assumes inv: "io_inv s" and few: "length (filter (\<lambda>p. pt_owner (io_mem s ! p) = Some q \<and> pt_state (io_mem s ! p) = SW_PORT_OPEN) (g_ports s)) \<le> 256"
  shows "\<forall>p\<in>set (g_ports (sw_io_cleanup_owner (Some q) s)). pt_owner (io_mem (sw_io_cleanup_owner (Some q) s) ! p) = Some q
           \<longrightarrow> pt_state (io_mem (sw_io_cleanup_owner (Some q) s) ! p) \<noteq> SW_PORT_OPEN"
proof -
  have c: "cleanup_ports q s = filter (\<lambda>p. pt_owner (io_mem s ! p) = Some q \<and> pt_state (io_mem s ! p) = SW_PORT_OPEN) (g_ports s)"
    using few by (simp add: cleanup_ports_def)
  have "distinct (cleanup_ports q s)" "set (cleanup_ports q s) \<subseteq> set (g_ports s)" using inv by (auto simp: c io_inv_def)
  from cleanup_ports_fold [OF inv this] show ?thesis by (auto simp: sw_io_cleanup_owner_def c)
qed

section \<open>Histories\<close>

text \<open>
  What processes and the I/O thread do. The kernel's part of the contract: a new descriptor is not one that is in use, and a call
  on a descriptor that is closed fails. Shutdown ends a history.
\<close>

datatype io_op =
    Io_event io_event
  | Io_listen "proc_ref option" int bool bool
  | Io_connect "proc_ref option" int bool
  | Io_send "port_ref option" bytes
  | Io_active "port_ref option" bool
  | Io_close "port_ref option"
  | Io_owner "port_ref option" "proc_ref option"
  | Io_cleanup "proc_ref option"

fun io_exec :: "kernel_write \<Rightarrow> io_op \<Rightarrow> io_state \<Rightarrow> io_state" where
  "io_exec kw (Io_event ev) s = io_dispatch ev s"
| "io_exec kw (Io_listen self fd b l) s = snd (sw_tcp_listen self fd b l s)"
| "io_exec kw (Io_connect self fd c) s = snd (sw_tcp_connect self fd c s)"
| "io_exec kw (Io_send p d) s = snd (sw_tcp_send kw p d s)"
| "io_exec kw (Io_active p a) s = sw_port_set_active p a s"
| "io_exec kw (Io_close p) s = sw_port_close p s"
| "io_exec kw (Io_owner p q) s = sw_port_controlling_process p q s"
| "io_exec kw (Io_cleanup q) s = sw_io_cleanup_owner q s"

definition port_ok :: "port_ref option \<Rightarrow> io_state \<Rightarrow> bool" where
  "port_ok port s = (case port of None \<Rightarrow> True | Some p \<Rightarrow> p < length (io_mem s))"

fun io_ok :: "io_op \<Rightarrow> io_state \<Rightarrow> bool" where
  "io_ok (Io_event ev) s = (port_ok (ev_port ev) s \<and> ev_accept ev \<notin> io_fds s
     \<and> (case ev_port ev of None \<Rightarrow> True | Some p \<Rightarrow> pt_fd (io_mem s ! p) < 0 \<longrightarrow> ev_accept ev < 0))"
| "io_ok (Io_listen self fd b l) s = (fd \<notin> io_fds s)"
| "io_ok (Io_connect self fd c) s = (fd \<notin> io_fds s)"
| "io_ok (Io_send p d) s = port_ok p s"
| "io_ok (Io_active p a) s = port_ok p s"
| "io_ok (Io_close p) s = port_ok p s"
| "io_ok (Io_owner p q) s = port_ok p s"
| "io_ok (Io_cleanup q) s = True"

inductive io_reach :: "kernel_write \<Rightarrow> io_state \<Rightarrow> bool" for kw where
  io_start: "io_reach kw io_init"
| io_step: "io_reach kw s \<Longrightarrow> io_ok op s \<Longrightarrow> io_reach kw (io_exec kw op s)"

lemma io_inv_handle_accept:
  assumes "io_inv s" "fd \<notin> io_fds s"
  shows "io_inv (handle_accept fd p s)"
proof (cases "fd < 0")
  case False
  obtain c s' where "port_alloc fd SW_PORT_TCP_CONN (pt_owner (io_mem s ! p)) s = (c, s')" by fastforce
  with io_inv_alloc [OF assms(1) _ assms(2) this] False show ?thesis by (simp add: handle_accept_def)
qed (use assms in \<open>simp add: handle_accept_def\<close>)

lemma io_inv_handle_read:
  assumes "io_inv s" "p < length (io_mem s)"
  shows "io_inv (handle_read r p s)"
proof -
  have "io_inv (upd_port p (\<lambda>po. po\<lparr>pt_state := SW_PORT_CLOSING\<rparr>) (ev_deregister fd s))"
    if "pt_state (io_mem s ! p) = SW_PORT_OPEN" for fd
    using that assms by (intro io_inv_update io_inv_deregister) (simp_all add: ev_deregister_def)
  then show ?thesis using assms(1) by (auto simp: handle_read_def Let_def split: rd_result.splits)
qed

lemma io_inv_exec:
  assumes inv: "io_inv s" and ok: "io_ok op s"
  shows "io_inv (io_exec kw op s)"
proof (cases op)
  case (Io_event ev)
  then show ?thesis using inv ok io_inv_handle_accept io_inv_handle_read
    by (auto simp: io_dispatch_def port_ok_def split: option.splits sw_port_type.splits)
next
  case (Io_listen self fd b l)
  obtain p s' where "port_alloc fd SW_PORT_TCP_LISTEN self s = (p, s')" by fastforce
  then show ?thesis using inv ok Io_listen io_inv_alloc [OF inv, of fd] io_inv_close_fd [OF inv] by (simp add: sw_tcp_listen_def)
next
  case (Io_connect self fd c)
  obtain p s' where "port_alloc fd SW_PORT_TCP_CONN self s = (p, s')" by fastforce
  then show ?thesis using inv ok Io_connect io_inv_alloc [OF inv, of fd] io_inv_close_fd [OF inv] by (simp add: sw_tcp_connect_def)
next
  case (Io_send p d)
  then show ?thesis using inv by (simp add: sw_tcp_send_def Let_def split: option.split)
next
  case (Io_active p a)
  then show ?thesis using inv ok io_inv_register io_inv_deregister
    by (auto simp: sw_port_set_active_def port_ok_def split: option.splits)
next
  case (Io_close p)
  then show ?thesis using inv ok by (auto simp: port_ok_def intro!: io_inv_port_close split: option.splits)
next
  case (Io_owner p q)
  then show ?thesis using inv ok
    by (auto simp: sw_port_controlling_process_def port_ok_def intro!: io_inv_update split: option.splits)
next
  case (Io_cleanup q)
  have "distinct (cleanup_ports q s)" "set (cleanup_ports q s) \<subseteq> set (g_ports s)" for q
    using inv by (auto simp: cleanup_ports_def io_inv_def distinct_take dest!: in_set_takeD)
  then show ?thesis using Io_cleanup inv cleanup_ports_fold [OF inv] by (auto simp: sw_io_cleanup_owner_def split: option.split)
qed

lemma io_reach_inv: "io_reach kw s \<Longrightarrow> io_inv s"
  by (induction rule: io_reach.induct) (simp_all add: io_inv_init io_inv_exec)

text \<open>The messages of one operation go to the owner of a port that was not closed before.\<close>

fun msg_port :: "port_msg \<Rightarrow> port_ref" where
  "msg_port (Port_accept l c) = l"
| "msg_port (Port_data p d) = p"
| "msg_port (Port_closed p e) = p"

definition sends_to_owner :: "io_state \<Rightarrow> io_state \<Rightarrow> bool" where
  "sends_to_owner s s' \<longleftrightarrow> (\<exists>ms. io_sent s' = io_sent s @ ms
     \<and> list_all (\<lambda>(q, m). msg_port m \<in> set (g_ports s) \<and> pt_owner (io_mem s ! msg_port m) = Some q) ms)"

lemma sends_none: "io_sent s' = io_sent s \<Longrightarrow> sends_to_owner s s'"
  unfolding sends_to_owner_def by (intro exI [of _ "[]"]) simp

lemma sends_one:
  assumes "io_sent s' = io_sent s @ (case pt_owner (io_mem s ! msg_port m) of None \<Rightarrow> [] | Some q \<Rightarrow> [(q, m)])"
    and "msg_port m \<in> set (g_ports s)"
  shows "sends_to_owner s s'"
proof (cases "pt_owner (io_mem s ! msg_port m)")
  case (Some q)
  with assms show ?thesis unfolding sends_to_owner_def by (intro exI [of _ "[(q, m)]"]) simp
qed (use assms in \<open>simp add: sends_none\<close>)

lemma io_sent_frame [simp]:
  "io_sent (upd_port p f s) = io_sent s" "io_sent (ev_deregister fd s) = io_sent s" "io_sent (close_fd fd s) = io_sent s"
  "io_sent (ev_register_read fd p s) = io_sent s" "io_sent (port_remove p s) = io_sent s"
  "io_sent (snd (port_alloc fd ty ow s)) = io_sent s"
  by (simp_all add: upd_port_def ev_deregister_def close_fd_def ev_register_read_def port_remove_def port_alloc_def Let_def)

lemma io_sent_port_send: "io_sent (port_send q m s) = io_sent s @ (case q of None \<Rightarrow> [] | Some q \<Rightarrow> [(q, m)])"
  by (simp add: port_send_def split: option.split)

lemma io_sent_alloc: "port_alloc fd ty ow s = (p, s') \<Longrightarrow> io_sent s' = io_sent s"
  using io_sent_frame(6) [of fd ty ow s] by simp

lemma accept_sends:
  assumes "io_inv s" "p < length (io_mem s)" "pt_fd (io_mem s ! p) < 0 \<longrightarrow> fd < 0"
  shows "sends_to_owner s (handle_accept fd p s)"
proof (cases "fd < 0")
  case False
  obtain c s' where a: "port_alloc fd SW_PORT_TCP_CONN (pt_owner (io_mem s ! p)) s = (c, s')" by fastforce
  then have "io_sent s' = io_sent s" by (rule io_sent_alloc)
  moreover have "p \<in> set (g_ports s)" using assms False by (auto simp: io_inv_def const_simps)
  ultimately show ?thesis using a False
    by (intro sends_one [of _ s "Port_accept p c"]) (simp_all add: handle_accept_def io_sent_port_send)
qed (simp add: sends_none handle_accept_def)

lemma read_sends:
  assumes "io_inv s" "p < length (io_mem s)"
  shows "sends_to_owner s (handle_read r p s)"
proof (cases "pt_state (io_mem s ! p) = SW_PORT_OPEN")
  case True
  then have p: "p \<in> set (g_ports s)" using assms by (simp add: io_inv_def)
  show ?thesis
  proof (cases r)
    case (Rd_bytes d)
    then show ?thesis using p
      by (cases "d = []") (auto simp: handle_read_def Let_def sends_none io_sent_port_send
          intro: sends_one [of _ s "Port_data p d"] sends_one [of _ s "Port_closed p 0"])
  next
    case (Rd_error e)
    then show ?thesis using p
      by (auto simp: handle_read_def Let_def sends_none io_sent_port_send intro: sends_one [of _ s "Port_closed p e"])
  qed
qed (simp add: sends_none handle_read_def)

lemma close_sends:
  assumes "io_inv s" "port_ok port s"
  shows "sends_to_owner s (sw_port_close port s)"
proof (cases port)
  case (Some p)
  then have p: "p < length (io_mem s)" using assms(2) by (simp add: port_ok_def)
  show ?thesis
  proof (cases "pt_state (io_mem s ! p) = SW_PORT_CLOSED")
    case False
    then have "p \<in> set (g_ports s)" using assms(1) p by (simp add: io_inv_def)
    then show ?thesis using Some False
      by (intro sends_one [of _ s "Port_closed p 0"]) (simp_all add: sw_port_close_def Let_def io_sent_port_send)
  qed (use Some in \<open>simp add: sends_none sw_port_close_def\<close>)
qed (simp add: sends_none sw_port_close_def)

lemma io_exec_sends:
  assumes inv: "io_inv s" and ok: "io_ok op s"
  shows "sends_to_owner s (io_exec kw op s)"
proof (cases op)
  case (Io_event ev)
  then show ?thesis using inv ok accept_sends read_sends
    by (auto simp: io_dispatch_def port_ok_def sends_none split: option.splits sw_port_type.splits)
next
  case (Io_listen self fd b l)
  then show ?thesis by (intro sends_none) (auto simp: sw_tcp_listen_def dest: io_sent_alloc split: prod.split)
next
  case (Io_connect self fd c)
  then show ?thesis by (intro sends_none) (auto simp: sw_tcp_connect_def dest: io_sent_alloc split: prod.split)
next
  case (Io_cleanup q)
  have "distinct (cleanup_ports q s)" "set (cleanup_ports q s) \<subseteq> set (g_ports s)" for q
    using inv by (auto simp: cleanup_ports_def io_inv_def distinct_take dest!: in_set_takeD)
  then show ?thesis using Io_cleanup inv cleanup_ports_fold [OF inv]
    by (auto simp: sw_io_cleanup_owner_def intro!: sends_none split: option.split)
qed (use inv ok close_sends in \<open>auto simp: sw_tcp_send_def sw_port_set_active_def sw_port_controlling_process_def Let_def
       intro!: sends_none split: option.split\<close>)

text \<open>
  In every history of I/O operations that run one after the other, the list of ports holds exactly those that are not closed, no two of them share a
  descriptor, only their descriptors are watched, and whatever comes next, an event that the kernel reported before a port was
  closed included, sends messages only about ports that are not closed, to their owners.
\<close>

theorem io_ports_consistent:
  assumes "io_reach kw s" "io_ok op s"
  shows "io_inv s \<and> sends_to_owner s (io_exec kw op s)"
  using io_reach_inv [OF assms(1)] io_exec_sends [OF _ assms(2)] by simp

text \<open>A listener accepts a connection, which sends data and is closed; the event of the data comes after the close.\<close>

definition demo_kw :: kernel_write where
  "demo_kw s fd d = int (length d)"

definition demo_io :: io_state where
  "demo_io = fold (io_exec demo_kw)
     [Io_listen (Some 7) 3 True True, Io_event \<lparr>ev_port = Some 0, ev_hup = False, ev_accept = 4, ev_read = Rd_error EAGAIN\<rparr>,
      Io_event \<lparr>ev_port = Some 1, ev_hup = False, ev_accept = -1, ev_read = Rd_bytes ''GET''\<rparr>, Io_close (Some 1)] io_init"

definition demo_late :: io_op where
  "demo_late = Io_event \<lparr>ev_port = Some 1, ev_hup = False, ev_accept = -1, ev_read = Rd_bytes ''/''\<rparr>"

lemmas io_eval = io_dispatch_def handle_accept_def handle_read_def port_alloc_def ev_register_read_def ev_deregister_def
  close_fd_def port_send_def upd_port_def port_remove_def sw_port_close_def sw_tcp_listen_def io_init_def io_fds_def port_ok_def
  demo_kw_def Let_def const_simps

lemma io_ok_iff_fds: "fd \<notin> io_fds s \<longleftrightarrow> list_all (\<lambda>p. pt_fd (io_mem s ! p) \<noteq> fd) (g_ports s)"
  by (auto simp: io_fds_def list_all_iff)

theorem io_ports_consistent_witness:
  "io_inv demo_io \<and> sends_to_owner demo_io (io_exec demo_kw demo_late demo_io)
     \<and> io_sent demo_io = [(7, Port_accept 0 1), (7, Port_data 1 ''GET''), (7, Port_closed 1 0)]
     \<and> io_sent (io_exec demo_kw demo_late demo_io) = io_sent demo_io"
proof -
  have "io_reach demo_kw demo_io"
    unfolding demo_io_def fold.simps o_apply id_apply
    by (intro io_reach.intros) (simp_all add: io_eval)
  moreover have "io_ok demo_late demo_io" by (simp add: demo_io_def demo_late_def io_eval)
  ultimately have "io_inv demo_io \<and> sends_to_owner demo_io (io_exec demo_kw demo_late demo_io)" by (rule io_ports_consistent)
  then show ?thesis by (simp add: demo_io_def demo_late_def io_eval)
qed

section \<open>Events that overlap a close\<close>

text \<open>\<^verbatim>\<open>handle_read\<close> after its check of the state.\<close>

definition read_deliver :: "rd_result \<Rightarrow> port_ref \<Rightarrow> io_state \<Rightarrow> io_state" where
  "read_deliver r p s =
     (let po = io_mem s ! p
      in case r of
           Rd_bytes (b # d) \<Rightarrow> port_send (pt_owner po) (Port_data p (b # d)) s
         | _ \<Rightarrow>
             if r = Rd_error EAGAIN then s
             else port_send (pt_owner po) (Port_closed p (case r of Rd_bytes d \<Rightarrow> 0 | Rd_error e \<Rightarrow> e))
                    (upd_port p (\<lambda>po. po\<lparr>pt_state := SW_PORT_CLOSING\<rparr>) (ev_deregister (pt_fd po) s)))"

lemma handle_read_split:
  "handle_read r p s =
     (if pt_state (io_mem s ! p) \<noteq> SW_PORT_OPEN \<or> pt_owner (io_mem s ! p) = None then s else read_deliver r p s)"
  by (auto simp: handle_read_def read_deliver_def Let_def split: rd_result.splits list.splits)

text \<open>
  The I/O thread and the processes share ports without a lock: when a process closes a port between the check of its state and
  the delivery of what was read, the owner gets data of a port after the message that it is closed.
\<close>

theorem io_read_races_with_close:
  "\<exists>s. io_reach demo_kw s \<and> pt_state (io_mem s ! 1) = SW_PORT_OPEN
     \<and> pt_state (io_mem (sw_port_close (Some 1) s) ! 1) = SW_PORT_CLOSED
     \<and> io_sent (read_deliver (Rd_bytes ''GET'') 1 (sw_port_close (Some 1) s))
         = [(7, Port_accept 0 1), (7, Port_closed 1 0), (7, Port_data 1 ''GET'')]"
proof -
  let ?s = "fold (io_exec demo_kw)
     [Io_listen (Some 7) 3 True True, Io_event \<lparr>ev_port = Some 0, ev_hup = False, ev_accept = 4, ev_read = Rd_error EAGAIN\<rparr>] io_init"
  have "io_reach demo_kw ?s"
    unfolding fold.simps o_apply id_apply by (intro io_reach.intros) (simp_all add: io_eval)
  then show ?thesis by (intro exI [of _ ?s]) (simp add: io_eval read_deliver_def)
qed

end
