(* ===== verification/Http.thy ===== *)
theory Http
  imports Io Lang_Value
begin

text \<open>
  The HTTP and WebSocket server, \<^verbatim>\<open>src/src/swarmrt_http.c\<close>: the table of connections, the parsers that a connection's buffer
  feeds, and the operations that write to a connection. A buffer is two lists, the \<^verbatim>\<open>buf_len\<close> bytes in use and the rest of the
  block, which C string functions may reach; reading behind the block is a fault. Memory that is not initialised, what the
  kernel does with a write, SHA-1 and a shift by more than the width of its operand are arguments.
\<close>

section \<open>Connections\<close>

definition SW_HTTP_MAX_CONNS :: nat where [const_simps]: "SW_HTTP_MAX_CONNS = 256"

datatype sw_http_mode = SW_HTTP_MODE_HTTP | SW_HTTP_MODE_WS

record sw_http_conn =
  hc_id :: nat
  hc_port :: "port_ref option"
  hc_mode :: sw_http_mode
  hc_handler :: "proc_ref option"
  hc_buf :: bytes
  hc_slack :: bytes
  content_length :: u32
  body_pending :: bool
  keep_alive :: bool
  ws_key :: string
  hc_active :: bool

record http_st =
  g_http_conns :: "sw_http_conn list"
  h_io :: io_state
  h_sent :: "(proc_ref \<times> sw_val) list"

record http_env =
  he_write :: kernel_write
  he_fresh :: "nat \<Rightarrow> bytes"
  he_sha1 :: "string \<Rightarrow> bytes"
  he_shift :: "u32 \<Rightarrow> nat \<Rightarrow> u32"

datatype http_fault = H_grow | H_scan | H_head

text \<open>The contents of a new block.\<close>

definition fresh_bytes :: "http_env \<Rightarrow> nat \<Rightarrow> bytes" where
  "fresh_bytes e n = take n (he_fresh e n @ replicate n (CHR 0x00))"

definition upd_conn :: "nat \<Rightarrow> (sw_http_conn \<Rightarrow> sw_http_conn) \<Rightarrow> http_st \<Rightarrow> http_st" where
  "upd_conn cid f st = st\<lparr>g_http_conns := (g_http_conns st)[cid := f (g_http_conns st ! cid)]\<rparr>"

definition conn_alloc :: "http_env \<Rightarrow> port_ref option \<Rightarrow> proc_ref option \<Rightarrow> http_st \<Rightarrow> nat option \<times> http_st" where
  "conn_alloc e port handler st =
     (case find_index (\<lambda>c. \<not> hc_active c) (g_http_conns st) of
        None \<Rightarrow> (None, st)
      | Some i \<Rightarrow> (Some i, upd_conn i (\<lambda>c. \<lparr>hc_id = i, hc_port = port, hc_mode = SW_HTTP_MODE_HTTP, hc_handler = handler, hc_buf = [],
                     hc_slack = fresh_bytes e 4096, content_length = 0, body_pending = False, keep_alive = True, ws_key = [],
                     hc_active = True\<rparr>) st))"

definition conn_free :: "int \<Rightarrow> http_st \<Rightarrow> http_st" where
  "conn_free cid st =
     (if cid < 0 \<or> cid \<ge> int SW_HTTP_MAX_CONNS then st
      else upd_conn (nat cid) (\<lambda>c. c\<lparr>hc_buf := [], hc_slack := [], hc_active := False, hc_port := None, hc_handler := None\<rparr>) st)"

definition conn_find_by_port :: "port_ref \<Rightarrow> http_st \<Rightarrow> nat option" where
  "conn_find_by_port port st = find_index (\<lambda>c. hc_active c \<and> hc_port c = Some port) (g_http_conns st)"

text \<open>\<^verbatim>\<open>sw_send_tagged\<close> of a value to a handler, and a write to a port whose result is not looked at.\<close>

definition to_handler :: "proc_ref option \<Rightarrow> sw_val \<Rightarrow> http_st \<Rightarrow> http_st" where
  "to_handler h v st = (case h of None \<Rightarrow> st | Some q \<Rightarrow> st\<lparr>h_sent := h_sent st @ [(q, v)]\<rparr>)"

definition to_peer :: "http_env \<Rightarrow> port_ref option \<Rightarrow> bytes \<Rightarrow> http_st \<Rightarrow> http_st" where
  "to_peer e port data st = st\<lparr>h_io := snd (sw_tcp_send (he_write e) port data (h_io st))\<rparr>"

section \<open>Handshake\<close>

definition b64_char :: "nat \<Rightarrow> char" where
  "b64_char n = ''ABCDEFGHIJKLMNOPQRSTUVWXYZabcdefghijklmnopqrstuvwxyz0123456789+/'' ! n"

fun base64_encode :: "bytes \<Rightarrow> string" where
  "base64_encode [] = []"
| "base64_encode (a # xs) =
     (let n = of_char a * 65536 + (if 1 \<le> length xs then of_char (xs ! 0) * 256 else 0) + (if 2 \<le> length xs then of_char (xs ! 1) else 0)
      in [b64_char (n div 262144 mod 64), b64_char (n div 4096 mod 64),
          if 1 \<le> length xs then b64_char (n div 64 mod 64) else CHR ''='',
          if 2 \<le> length xs then b64_char (n mod 64) else CHR ''=''] @ base64_encode (drop 2 xs))"

definition WS_MAGIC :: string where
  "WS_MAGIC = ''258EAFA5-E914-47DA-95CA-C5AB0DC85B11''"

definition crlf :: string where
  "crlf = [CHR 0x0D, CHR 0x0A]"

definition ws_do_handshake :: "http_env \<Rightarrow> nat \<Rightarrow> http_st \<Rightarrow> http_st" where
  "ws_do_handshake e cid st =
     (let c = g_http_conns st ! cid;
          combined = take 255 (ws_key c @ WS_MAGIC);
          accept = base64_encode (he_sha1 e combined)
      in to_peer e (hc_port c)
           (''HTTP/1.1 101 Switching Protocols'' @ crlf @ ''Upgrade: websocket'' @ crlf @ ''Connection: Upgrade'' @ crlf
              @ ''Sec-WebSocket-Accept: '' @ accept @ crlf @ crlf) st)"

section \<open>WebSocket frames\<close>

text \<open>The length of the payload and of the header with its mask; \<^term>\<open>None\<close> while the length is incomplete.\<close>

definition ws_masked :: "bytes \<Rightarrow> bool" where
  "ws_masked p \<longleftrightarrow> 128 \<le> (of_char (p ! 1) :: nat)"

definition ws_header :: "bytes \<Rightarrow> (nat \<times> nat) option" where
  "ws_header p =
     (let len7 = of_char (p ! 1) mod 128; m = (if ws_masked p then 4 else 0)
      in if len7 = 126 then (if length p < 4 then None else Some (be_value (take 2 (drop 2 p)), 4 + m))
         else if len7 = 127 then (if length p < 10 then None else Some (be_value (take 8 (drop 2 p)), 10 + m))
         else Some (len7, 2 + m))"

definition WS_MAX :: nat where [const_simps]: "WS_MAX = 16 * 1024 * 1024"

definition ws_unmask :: "bytes \<Rightarrow> bytes \<Rightarrow> bytes" where
  "ws_unmask key payload = map (\<lambda>i. xor_char (payload ! i) (key ! (i mod 4))) [0..<length payload]"

datatype ws_act = To_handler sw_val | To_peer bytes

definition ws_event :: "nat \<Rightarrow> nat \<Rightarrow> bytes \<Rightarrow> ws_act list" where
  "ws_event cid opcode payload =
     (if opcode = 1 then [To_handler (V_tuple [V_atom ''ws_message'', V_int (of_nat cid), V_string (c_string payload)])]
      else if opcode = 8 then [To_handler (V_tuple [V_atom ''ws_close'', V_int (of_nat cid)]), To_peer [CHR 0x88, CHR 0x00]]
      else if opcode = 9 then
        (if length payload < 126 then
           To_peer [CHR 0x8A, char_of (length payload)] # (if length payload > 0 then [To_peer payload] else [])
         else [])
      else [])"

text \<open>One turn of the loop: whether it goes on, the connection and what it does. The payload is unmasked in the buffer.\<close>

definition ws_iter :: "nat \<Rightarrow> sw_http_conn \<Rightarrow> bool \<times> sw_http_conn \<times> ws_act list" where
  "ws_iter cid c =
     (let p = hc_buf c; opcode = of_char (p ! 0) mod 16
      in case ws_header p of
           None \<Rightarrow> (False, c, [])
         | Some (payload_len, hdr_len) \<Rightarrow>
             if payload_len > WS_MAX then (False, c\<lparr>hc_active := False\<rparr>, [])
             else if length p < hdr_len + payload_len then (False, c, [])
             else let payload = take payload_len (drop hdr_len p);
                      payload = (if ws_masked p then ws_unmask (take 4 (drop (hdr_len - 4) p)) payload else payload);
                      frame_len = hdr_len + payload_len;
                      p' = take hdr_len p @ payload @ drop frame_len p
                  in (True, c\<lparr>hc_buf := drop frame_len p', hc_slack := drop (length p - frame_len) p' @ hc_slack c\<rparr>,
                      ws_event cid opcode payload))"

lemma ws_header_ge: "ws_header p = Some (n, h) \<Longrightarrow> 2 \<le> h"
  by (auto simp: ws_header_def Let_def split: if_splits)

lemma length_ws_unmask [simp]: "length (ws_unmask m p) = length p"
  by (simp add: ws_unmask_def)

lemma ws_iter_less: "ws_iter cid c = (True, c', as) \<Longrightarrow> length (hc_buf c') < length (hc_buf c)"
  by (auto simp: ws_iter_def Let_def dest!: ws_header_ge split: option.splits if_splits)

function ws_loop :: "nat \<Rightarrow> sw_http_conn \<Rightarrow> sw_http_conn \<times> ws_act list" where
  "ws_loop cid c =
     (if length (hc_buf c) < 2 then (c, [])
      else case ws_iter cid c of
             (False, c', as) \<Rightarrow> (c', as)
           | (True, c', as) \<Rightarrow> (let (c'', bs) = ws_loop cid c' in (c'', as @ bs)))"
  by pat_completeness auto
termination
  by (relation "measure (\<lambda>(cid, c). length (hc_buf c))") (auto dest: ws_iter_less [OF sym])

declare ws_loop.simps [simp del]

fun ws_do :: "http_env \<Rightarrow> sw_http_conn \<Rightarrow> ws_act \<Rightarrow> http_st \<Rightarrow> http_st" where
  "ws_do e c (To_handler v) st = to_handler (hc_handler c) v st"
| "ws_do e c (To_peer d) st = to_peer e (hc_port c) d st"

definition ws_try_parse :: "http_env \<Rightarrow> nat \<Rightarrow> http_st \<Rightarrow> http_st" where
  "ws_try_parse e cid st =
     (let (c, as) = ws_loop cid (g_http_conns st ! cid) in fold (ws_do e c) as (upd_conn cid (\<lambda>_. c) st))"

section \<open>HTTP requests\<close>

fun find_header_end :: "bytes \<Rightarrow> nat option" where
  "find_header_end [] = None"
| "find_header_end (c # buf) = (if take 4 (c # buf) = crlf @ crlf then Some 0 else map_option Suc (find_header_end buf))"

text \<open>\<^verbatim>\<open>sscanf (mem, "%15s %511s %15s")\<close>; \<^term>\<open>None\<close> when it runs off the block.\<close>

definition scan_word :: "nat \<Rightarrow> bytes \<Rightarrow> (string \<times> bytes) option" where
  "scan_word n mem =
     (let mem = dropWhile is_space mem;
          w = take n (takeWhile (\<lambda>c. \<not> is_space c \<and> c \<noteq> CHR 0x00) mem)
      in if mem = [] \<or> length w = length mem \<and> length w < n then None else Some (w, drop (length w) mem))"

definition scan_request :: "bytes \<Rightarrow> (string \<times> string \<times> string) option" where
  "scan_request mem =
     (case scan_word 15 mem of None \<Rightarrow> None
      | Some (m, r) \<Rightarrow> if m = [] then Some ([], [], []) else
          (case scan_word 511 r of None \<Rightarrow> None
           | Some (p, r) \<Rightarrow> if p = [] then Some (m, [], []) else
               (case scan_word 15 r of None \<Rightarrow> None | Some (v, r) \<Rightarrow> Some (m, p, v))))"

definition starts_ci :: "string \<Rightarrow> nat \<Rightarrow> bytes \<Rightarrow> bool" where
  "starts_ci lit n s \<longleftrightarrow> map to_lower (take n s) = map to_lower (take n lit)"

definition http_blank :: "char \<Rightarrow> bool" where
  "http_blank c \<longleftrightarrow> c = CHR 0x20 \<or> c = CHR 0x09"

text \<open>\<^verbatim>\<open>strtoul (s, NULL, 10)\<close>, which saturates; \<^term>\<open>None\<close> when it runs off the block.\<close>

definition strtoul :: "bytes \<Rightarrow> nat option" where
  "strtoul s =
     (let s = dropWhile is_space s;
          neg = (s \<noteq> [] \<and> hd s = CHR ''-'');
          s = (if s \<noteq> [] \<and> (hd s = CHR ''-'' \<or> hd s = CHR ''+'') then tl s else s);
          v = digits_val 0 s
      in if list_all is_digit s then None
         else if v \<ge> 2 ^ 64 then Some (2 ^ 64 - 1) else Some (if neg then (2 ^ 64 - v) mod 2 ^ 64 else v))"

record hdr_info =
  hi_upgrade :: bool
  hi_key :: string
  hi_length :: u32
  hi_keep :: bool

definition hdr_init :: "string \<Rightarrow> hdr_info" where
  "hdr_init version = \<lparr>hi_upgrade = False, hi_key = [], hi_length = 0, hi_keep = (strstr version ''1.1'' \<noteq> None)\<rparr>"

text \<open>The texts of one header line; \<open>line_end\<close> is what follows the line, its CR and LF included.\<close>

definition scan_key :: "bytes \<Rightarrow> bytes \<Rightarrow> string" where
  "scan_key line line_end =
     (let val = dropWhile http_blank (drop 18 line)
      in rev (dropWhile (\<lambda>c. http_blank c \<or> c = CHR 0x0D) (rev (take (length val - length line_end) val))))"

definition scan_line :: "bytes \<Rightarrow> bytes \<Rightarrow> hdr_info \<Rightarrow> hdr_info option" where
  "scan_line line line_end hi =
     (let hi = (if starts_ci ''Upgrade:'' 8 line \<and> starts_ci ''websocket'' 9 (dropWhile (\<lambda>c. c = CHR 0x20) (drop 8 line))
                then hi\<lparr>hi_upgrade := True\<rparr> else hi);
          hi = (if starts_ci ''Sec-WebSocket-Key:'' 18 line
                then let k = scan_key line line_end in if 0 < length k \<and> length k < 128 then hi\<lparr>hi_key := k\<rparr> else hi
                else hi);
          cl = (if starts_ci ''Content-Length:'' 14 line
                then map_option (\<lambda>v. hi\<lparr>hi_length := of_nat v\<rparr>) (strtoul (dropWhile http_blank (drop 14 line)))
                else Some hi)
      in map_option (\<lambda>hi. if starts_ci ''Connection:'' 11 line
                           then let val = dropWhile http_blank (drop 11 line)
                                in if starts_ci ''close'' 5 val then hi\<lparr>hi_keep := False\<rparr>
                                   else if starts_ci ''keep-alive'' 10 val then hi\<lparr>hi_keep := True\<rparr> else hi
                           else hi) cl)"

text \<open>
  The loop over the lines in front of the last \<open>hl\<close> bytes. \<^verbatim>\<open>strstr\<close> and \<^verbatim>\<open>strchr\<close> see the C string at the line: they find nothing
  behind a NUL byte.
\<close>

definition line_end_of :: "bytes \<Rightarrow> bytes option" where
  "line_end_of line = map_option (\<lambda>r. drop (length (c_string line) - length r) line) (strstr (c_string line) crlf)"

lemma line_end_shorter: "line_end_of line = Some le \<Longrightarrow> line \<noteq> [] \<Longrightarrow> length (drop 2 le) < length line"
  by (auto simp: line_end_of_def)

function scan_lines :: "nat \<Rightarrow> bytes \<Rightarrow> hdr_info \<Rightarrow> hdr_info option" where
  "scan_lines hl line hi =
     (if length line \<le> hl then Some hi
      else case line_end_of line of
             None \<Rightarrow> Some hi
           | Some le \<Rightarrow> if length le < hl then Some hi
                        else case scan_line line le hi of None \<Rightarrow> None | Some hi \<Rightarrow> scan_lines hl (drop 2 le) hi)"
  by pat_completeness auto
termination
  by (relation "measure (\<lambda>(hl, line, hi). length line)") (auto dest: line_end_shorter)

declare scan_lines.simps [simp del]

definition first_line_skipped :: "bytes \<Rightarrow> bytes" where
  "first_line_skipped mem =
     (case strchr (c_string mem) (CHR 0x0A) of None \<Rightarrow> [] | Some r \<Rightarrow> drop (length (c_string mem) - length r + 1) mem)"

text \<open>Removal of bytes in front of the buffer by \<^verbatim>\<open>memmove\<close>: what is behind stays in memory.\<close>

definition consume :: "nat \<Rightarrow> sw_http_conn \<Rightarrow> sw_http_conn" where
  "consume n c = c\<lparr>hc_buf := drop n (hc_buf c), hc_slack := drop (length (hc_buf c) - n) (hc_buf c) @ hc_slack c\<rparr>"

definition request_msg :: "nat \<Rightarrow> string \<Rightarrow> string \<Rightarrow> bytes \<Rightarrow> sw_val" where
  "request_msg cid method path body =
     V_tuple [V_atom ''http_request'', V_int (of_nat cid), V_atom method, V_string path, V_string [], V_string (c_string body)]"

definition deliver_body :: "nat \<Rightarrow> http_st \<Rightarrow> http_st" where
  "deliver_body cid st =
     (let c = g_http_conns st ! cid;
          (method, path) = (case strchr (ws_key c) (CHR 0x01) of
                              None \<Rightarrow> ([], [])
                            | Some sep \<Rightarrow> (take 15 (take (length (ws_key c) - length sep) (ws_key c)), take 511 (tl sep)));
          n = unat (content_length c);
          body = take n (hc_buf c);
          c' = (consume n c)\<lparr>body_pending := False, content_length := 0, ws_key := []\<rparr>
      in to_handler (hc_handler c) (request_msg cid method path body) (upd_conn cid (\<lambda>_. c') st))"

definition http_try_parse :: "http_env \<Rightarrow> nat \<Rightarrow> http_st \<Rightarrow> http_fault + http_st" where
  "http_try_parse e cid st =
     (let c = g_http_conns st ! cid
      in if body_pending c then
           (if length (hc_buf c) < unat (content_length c) then Inr st else Inr (deliver_body cid st))
         else case find_header_end (hc_buf c) of
           None \<Rightarrow> Inr st
         | Some end_at \<Rightarrow>
             (let mem = hc_buf c @ hc_slack c
              in case scan_request mem of None \<Rightarrow> Inl H_scan
               | Some (method, path, version) \<Rightarrow>
                   (case scan_lines (length mem - end_at) (first_line_skipped mem) (hdr_init version) of
                      None \<Rightarrow> Inl H_scan
                    | Some hi \<Rightarrow>
                        (let c = consume (end_at + 4) (c\<lparr>keep_alive := hi_keep hi\<rparr>)
                         in if hi_upgrade hi \<and> hi_key hi \<noteq> [] then
                              let st = ws_do_handshake e cid (upd_conn cid (\<lambda>_. c\<lparr>ws_key := hi_key hi\<rparr>) st);
                                  st = upd_conn cid (\<lambda>c. c\<lparr>hc_mode := SW_HTTP_MODE_WS\<rparr>) st
                              in Inr (to_handler (hc_handler c) (V_tuple [V_atom ''ws_connect'', V_int (of_nat cid), V_string path]) st)
                            else if 0 < hi_length hi \<and> length (hc_buf c) < unat (hi_length hi) then
                              Inr (upd_conn cid (\<lambda>_. c\<lparr>content_length := hi_length hi, body_pending := True,
                                                    ws_key := take 127 (method @ [CHR 0x01] @ path)\<rparr>) st)
                            else let n = unat (hi_length hi); body = take n (hc_buf c)
                                 in Inr (to_handler (hc_handler c) (request_msg cid method path body)
                                          (upd_conn cid (\<lambda>_. consume n c) st))))))"

section \<open>Events of the ports\<close>

text \<open>Appending to the buffer: the sizes are 32-bit numbers, and writing behind the block is a fault.\<close>

definition conn_append :: "http_env \<Rightarrow> bytes \<Rightarrow> sw_http_conn \<Rightarrow> http_fault + sw_http_conn" where
  "conn_append e data c =
     (let used = length (hc_buf c) + length data; cap = length (hc_buf c) + length (hc_slack c);
          need = (of_nat (length (hc_buf c)) + of_nat (length data) :: u32)
      in if need > of_nat cap then
           (if unat (need * 2) < used then Inl H_grow
            else Inr (c\<lparr>hc_buf := hc_buf c @ data, hc_slack := fresh_bytes e (unat (need * 2) - used)\<rparr>))
         else if cap < used then Inl H_grow
         else Inr (c\<lparr>hc_buf := hc_buf c @ data, hc_slack := drop (length data) (hc_slack c)\<rparr>))"

definition conn_on_data :: "http_env \<Rightarrow> nat \<Rightarrow> bytes \<Rightarrow> http_st \<Rightarrow> http_fault + http_st" where
  "conn_on_data e cid data st =
     (case conn_append e data (g_http_conns st ! cid) of
        Inl f \<Rightarrow> Inl f
      | Inr c \<Rightarrow>
          (let st = upd_conn cid (\<lambda>_. c) st
           in if hc_mode c = SW_HTTP_MODE_HTTP then
                (case http_try_parse e cid st of
                   Inl f \<Rightarrow> Inl f
                 | Inr st \<Rightarrow>
                     if hc_mode (g_http_conns st ! cid) = SW_HTTP_MODE_WS \<and> 0 < length (hc_buf (g_http_conns st ! cid))
                     then Inr (ws_try_parse e cid st) else Inr st)
              else Inr (ws_try_parse e cid st)))"

definition conn_on_close :: "nat \<Rightarrow> http_st \<Rightarrow> http_st" where
  "conn_on_close cid st =
     (let c = g_http_conns st ! cid;
          st = (if hc_mode c = SW_HTTP_MODE_WS \<and> hc_handler c \<noteq> None
                then to_handler (hc_handler c) (V_tuple [V_atom ''ws_close'', V_int (of_nat cid)]) st else st)
      in conn_free (int cid) st)"

text \<open>One message of the bridge process, whose handler is \<open>handler\<close>.\<close>

fun http_bridge_msg :: "http_env \<Rightarrow> proc_ref option \<Rightarrow> port_msg \<Rightarrow> http_st \<Rightarrow> http_fault + http_st" where
  "http_bridge_msg e handler (Port_accept l conn) st =
     (case conn_alloc e (Some conn) handler st of
        (None, st) \<Rightarrow> Inr (st\<lparr>h_io := sw_port_close (Some conn) (h_io st)\<rparr>)
      | (Some cid, st) \<Rightarrow> Inr st)"
| "http_bridge_msg e handler (Port_data port data) st =
     (case conn_find_by_port port st of None \<Rightarrow> Inr st | Some cid \<Rightarrow> conn_on_data e cid data st)"
| "http_bridge_msg e handler (Port_closed port err) st =
     (case conn_find_by_port port st of None \<Rightarrow> Inr st | Some cid \<Rightarrow> Inr (conn_on_close cid st))"

fun http_bridge_entry :: "http_env \<Rightarrow> proc_ref option \<Rightarrow> port_msg list \<Rightarrow> http_st \<Rightarrow> http_fault + http_st" where
  "http_bridge_entry e handler [] st = Inr st"
| "http_bridge_entry e handler (m # ms) st =
     (case http_bridge_msg e handler m st of Inl f \<Rightarrow> Inl f | Inr st \<Rightarrow> http_bridge_entry e handler ms st)"

section \<open>Operations of the language\<close>

text \<open>\<open>bp\<close> is the new bridge process, the results of the system calls are as in \<^term>\<open>sw_tcp_listen\<close>.\<close>

definition sw_http_listen :: "proc_ref option \<Rightarrow> int \<Rightarrow> bool \<Rightarrow> bool \<Rightarrow> proc_ref option \<Rightarrow> http_st \<Rightarrow> proc_ref option \<times> http_st" where
  "sw_http_listen self fd bound listening bp st =
     (case sw_tcp_listen self fd bound listening (h_io st) of
        (None, io) \<Rightarrow> (None, st\<lparr>h_io := io\<rparr>)
      | (Some l, io) \<Rightarrow> (bp, st\<lparr>h_io := sw_port_controlling_process (Some l) bp io\<rparr>))"

definition status_text :: "int \<Rightarrow> string" where
  "status_text status =
     (if status = 200 then ''OK'' else if status = 301 then ''Moved Permanently'' else if status = 302 then ''Found''
      else if status = 304 then ''Not Modified'' else if status = 400 then ''Bad Request'' else if status = 404 then ''Not Found''
      else if status = 500 then ''Internal Server Error'' else ''OK'')"

definition status_text_raw :: "int \<Rightarrow> string" where
  "status_text_raw status =
     (if status = 200 then ''OK'' else if status = 404 then ''Not Found'' else if status = 413 then ''Payload Too Large'' else ''OK'')"

definition response_head :: "int \<Rightarrow> string \<Rightarrow> nat \<Rightarrow> bool \<Rightarrow> string option \<Rightarrow> string" where
  "response_head status text len keep headers =
     ''HTTP/1.1 '' @ show_int (of_int status) @ '' '' @ text @ crlf @ ''Content-Length: '' @ show_nat len @ crlf
       @ ''Connection: '' @ (if keep then ''keep-alive'' else ''close'') @ crlf @ (case headers of None \<Rightarrow> [] | Some h \<Rightarrow> h) @ crlf"

text \<open>
  The head is printed into 1024 bytes and then sent with the length that \<^verbatim>\<open>snprintf\<close> returns, that of the whole text.
\<close>

definition send_response ::
  "http_env \<Rightarrow> int \<Rightarrow> (int \<Rightarrow> string) \<Rightarrow> int \<Rightarrow> string option \<Rightarrow> bytes option \<Rightarrow> nat \<Rightarrow> http_st \<Rightarrow> http_fault + int \<times> http_st" where
  "send_response e conn_id text status headers data len st =
     (if conn_id < 0 \<or> conn_id \<ge> int SW_HTTP_MAX_CONNS then Inr (-1, st)
      else let c = g_http_conns st ! nat conn_id
           in if \<not> hc_active c \<or> hc_port c = None then Inr (-1, st)
              else let head = response_head status (text status) len (keep_alive c) headers
                   in if length head > 1024 then Inl H_head
                      else let head = (if length head = 1024 then take 1023 head @ [CHR 0x00] else head);
                               st = to_peer e (hc_port c) head st;
                               st = (case data of Some d \<Rightarrow> if len > 0 then to_peer e (hc_port c) (take len d) st else st | None \<Rightarrow> st)
                           in if \<not> keep_alive c then Inr (0, conn_free conn_id (st\<lparr>h_io := sw_port_close (hc_port c) (h_io st)\<rparr>))
                              else Inr (0, st))"

definition sw_http_respond ::
  "http_env \<Rightarrow> int \<Rightarrow> int \<Rightarrow> string option \<Rightarrow> string option \<Rightarrow> http_st \<Rightarrow> http_fault + int \<times> http_st" where
  "sw_http_respond e conn_id status headers body st =
     send_response e conn_id status_text status headers body (case body of None \<Rightarrow> 0 | Some b \<Rightarrow> length b) st"

definition sw_http_respond_raw ::
  "http_env \<Rightarrow> int \<Rightarrow> int \<Rightarrow> string option \<Rightarrow> bytes option \<Rightarrow> nat \<Rightarrow> http_st \<Rightarrow> http_fault + int \<times> http_st" where
  "sw_http_respond_raw e conn_id status headers data len st =
     send_response e conn_id status_text_raw status headers data len st"

text \<open>The shift of a 32-bit number; by 32 and more the language leaves the result open.\<close>

definition shr32 :: "http_env \<Rightarrow> u32 \<Rightarrow> nat \<Rightarrow> u32" where
  "shr32 e x n = (if n < 32 then drop_bit n x else he_shift e x n)"

definition byte_of :: "u32 \<Rightarrow> char" where
  "byte_of x = char_of (unat (x AND 0xFF))"

definition ws_frame_header :: "http_env \<Rightarrow> u32 \<Rightarrow> bytes" where
  "ws_frame_header e len =
     CHR 0x81 #
       (if len < 126 then [byte_of len]
        else if len < 65536 then [CHR 0x7E, byte_of (shr32 e len 8), byte_of len]
        else CHR 0x7F # map (\<lambda>i. byte_of (shr32 e len (56 - i * 8))) [0..<8])"

definition sw_ws_send_text :: "http_env \<Rightarrow> int \<Rightarrow> bytes \<Rightarrow> http_st \<Rightarrow> int \<times> http_st" where
  "sw_ws_send_text e conn_id data st =
     (if conn_id < 0 \<or> conn_id \<ge> int SW_HTTP_MAX_CONNS then (-1, st)
      else let c = g_http_conns st ! nat conn_id
           in if \<not> hc_active c \<or> hc_mode c \<noteq> SW_HTTP_MODE_WS \<or> hc_port c = None then (-1, st)
              else (0, to_peer e (hc_port c) data (to_peer e (hc_port c) (ws_frame_header e (of_nat (length data))) st)))"

definition sw_ws_close :: "http_env \<Rightarrow> int \<Rightarrow> http_st \<Rightarrow> int \<times> http_st" where
  "sw_ws_close e conn_id st =
     (if conn_id < 0 \<or> conn_id \<ge> int SW_HTTP_MAX_CONNS then (-1, st)
      else let c = g_http_conns st ! nat conn_id
           in if \<not> hc_active c then (-1, st)
              else let st = (if hc_mode c = SW_HTTP_MODE_WS \<and> hc_port c \<noteq> None then to_peer e (hc_port c) [CHR 0x88, CHR 0x00] st else st);
                       st = st\<lparr>h_io := sw_port_close (hc_port c) (h_io st)\<rparr>
                   in (0, conn_free conn_id st))"

definition sw_ws_set_handler :: "int \<Rightarrow> proc_ref option \<Rightarrow> http_st \<Rightarrow> int \<times> http_st" where
  "sw_ws_set_handler conn_id handler st =
     (if conn_id < 0 \<or> conn_id \<ge> int SW_HTTP_MAX_CONNS then (-1, st)
      else if \<not> hc_active (g_http_conns st ! nat conn_id) then (-1, st)
      else (0, upd_conn (nat conn_id) (\<lambda>c. c\<lparr>hc_handler := handler\<rparr>) st))"

definition http_init :: "io_state \<Rightarrow> http_st" where
  "http_init io = \<lparr>g_http_conns = replicate SW_HTTP_MAX_CONNS \<lparr>hc_id = 0, hc_port = None, hc_mode = SW_HTTP_MODE_HTTP,
     hc_handler = None, hc_buf = [], hc_slack = [], content_length = 0, body_pending = False, keep_alive = False, ws_key = [],
     hc_active = False\<rparr>, h_io = io, h_sent = []\<rparr>"

section \<open>Base64\<close>

text \<open>The decoder of RFC 4648, group by group.\<close>

definition b64_value :: "char \<Rightarrow> nat" where
  "b64_value c = the (find_index (\<lambda>d. d = c) ''ABCDEFGHIJKLMNOPQRSTUVWXYZabcdefghijklmnopqrstuvwxyz0123456789+/'')"

fun base64_decode :: "string \<Rightarrow> bytes" where
  "base64_decode (a # b # c # d # s) =
     (let n = b64_value a * 262144 + b64_value b * 4096 + (if c = CHR ''='' then 0 else b64_value c * 64)
                + (if d = CHR ''='' then 0 else b64_value d)
      in char_of (n div 65536) # (if c = CHR ''='' then [] else char_of (n div 256) #
           (if d = CHR ''='' then [] else [char_of n])) @ base64_decode s)"
| "base64_decode _ = []"

lemma b64_table: "list_all (\<lambda>n. b64_value (b64_char n) = n \<and> b64_char n \<noteq> CHR ''='') [0..<64]"
  by code_simp

lemma b64_value_char [simp]: "n < 64 \<Longrightarrow> b64_value (b64_char n) = n" "n < 64 \<Longrightarrow> b64_char n \<noteq> CHR ''=''"
  using b64_table by (simp_all add: list_all_iff)

lemma split_64: "(n::nat) < 16777216 \<Longrightarrow>
  n div 262144 mod 64 * 262144 + n div 4096 mod 64 * 4096 + n div 64 mod 64 * 64 + n mod 64 = n"
proof -
  assume "n < 16777216"
  then have "n div 262144 < 64" by (simp add: less_mult_imp_div_less)
  moreover have "n div 4096 = n div 262144 * 64 + n div 4096 mod 64" using div_mult2_eq [of n 4096 64] by simp
  moreover have "n div 64 = n div 4096 * 64 + n div 64 mod 64" using div_mult2_eq [of n 64 64] by simp
  moreover have "n = n div 64 * 64 + n mod 64" by simp
  ultimately show ?thesis by (simp only: mod_less)
qed

lemma digits_256:
  assumes "(b :: nat) < 256" "c < 256"
  shows "(a * 65536 + b * 256 + c) div 65536 = a" "(a * 65536 + b * 256 + c) div 256 = a * 256 + b"
    "(a * 65536 + b * 256 + c) mod 256 = c"
proof -
  have "(a * 65536 + (b * 256 + c)) div 65536 = a" using assms by (subst div_mult_self3) simp_all
  then show "(a * 65536 + b * 256 + c) div 65536 = a" by (simp add: add.assoc)
  have "((a * 256 + b) * 256 + c) div 256 = a * 256 + b" using assms by (subst div_mult_self3) simp_all
  then show "(a * 65536 + b * 256 + c) div 256 = a * 256 + b" by (simp add: algebra_simps)
  have "((a * 256 + b) * 256 + c) mod 256 = c" using assms by (subst mod_mult_self3) simp
  then show "(a * 65536 + b * 256 + c) mod 256 = c" by (simp add: algebra_simps)
qed

declare of_char_less [simp]

lemma char_of_modI: "(n :: nat) mod 256 = of_char c \<Longrightarrow> char_of n = c"
  by (metis char_of_mod_256 char_of_char)

lemma base64_decode_group:
  assumes "n < 16777216"
  shows "base64_decode (b64_char (n div 262144 mod 64) # b64_char (n div 4096 mod 64) # b64_char (n div 64 mod 64) # b64_char (n mod 64) # s)
      = char_of (n div 65536) # char_of (n div 256) # char_of n # base64_decode s"
    and "n mod 64 = 0 \<Longrightarrow>
      base64_decode (b64_char (n div 262144 mod 64) # b64_char (n div 4096 mod 64) # b64_char (n div 64 mod 64) # CHR ''='' # s)
      = char_of (n div 65536) # char_of (n div 256) # base64_decode s"
    and "n div 64 mod 64 = 0 \<Longrightarrow> n mod 64 = 0 \<Longrightarrow>
      base64_decode (b64_char (n div 262144 mod 64) # b64_char (n div 4096 mod 64) # CHR ''='' # CHR ''='' # s)
      = char_of (n div 65536) # base64_decode s"
proof -
  define p q r t where "p = n div 262144 mod 64" "q = n div 4096 mod 64" "r = n div 64 mod 64" "t = n mod 64"
  note d = this
  have lt: "p < 64" "q < 64" "r < 64" "t < 64" by (simp_all add: d)
  have n: "n = p * 262144 + q * 4096 + r * 64 + t" unfolding d by (rule split_64 [OF assms, symmetric])
  show "base64_decode (b64_char (n div 262144 mod 64) # b64_char (n div 4096 mod 64) # b64_char (n div 64 mod 64) # b64_char (n mod 64) # s)
      = char_of (n div 65536) # char_of (n div 256) # char_of n # base64_decode s"
    using lt unfolding d [symmetric] by (simp add: Let_def n [symmetric])
  show "base64_decode (b64_char (n div 262144 mod 64) # b64_char (n div 4096 mod 64) # b64_char (n div 64 mod 64) # CHR ''='' # s)
      = char_of (n div 65536) # char_of (n div 256) # base64_decode s" if "n mod 64 = 0"
    using lt that n unfolding d [symmetric] by (simp add: Let_def)
  show "base64_decode (b64_char (n div 262144 mod 64) # b64_char (n div 4096 mod 64) # CHR ''='' # CHR ''='' # s)
      = char_of (n div 65536) # base64_decode s" if "n div 64 mod 64 = 0" "n mod 64 = 0"
    using lt that n unfolding d [symmetric] by (simp add: Let_def)
qed

lemma base64_round_trip: "base64_decode (base64_encode bs) = bs"
proof (induction bs rule: base64_encode.induct)
  case (2 a xs)
  have IH: "base64_decode (base64_encode (drop 2 xs)) = drop 2 xs" by (rule 2) (rule refl)
  define N :: "nat \<Rightarrow> nat \<Rightarrow> nat" where "N b c = of_char a * 65536 + b * 256 + c" for b c
  have lt: "N b c < 16777216" if "b < 256" "c < 256" for b c using that of_char_less [of a] unfolding N_def by linarith
  have ch: "char_of (N b c div 65536) = a" "char_of (N b c div 256) = (char_of b :: char)" "char_of (N b c) = (char_of c :: char)"
    if "b < 256" "c < 256" for b c using that by (simp_all add: N_def digits_256)
  have m: "N b 0 mod 64 = 0" "N 0 0 div 64 mod 64 = 0" for b
  proof -
    have "N b 0 = 64 * (of_char a * 1024 + b * 4)" "N 0 0 = 64 * (64 * (of_char a * 16))" by (simp_all add: N_def)
    then show "N b 0 mod 64 = 0" "N 0 0 div 64 mod 64 = 0"
      by (simp_all only: mod_mult_self1_is_0 nonzero_mult_div_cancel_left zero_neq_numeral not_False_eq_True)
  qed
  consider "xs = []" | b where "xs = [b]" | b c zs where "xs = b # c # zs" by (cases xs; cases "tl xs") auto
  then show ?case
  proof cases
    case 1
    then have e: "base64_encode (a # xs) = b64_char (N 0 0 div 262144 mod 64) # b64_char (N 0 0 div 4096 mod 64) # CHR ''='' # CHR ''='' # []"
      by (simp add: N_def Let_def)
    have l: "N 0 0 < 16777216" by (intro lt) simp_all
    show ?thesis unfolding e base64_decode_group(3) [OF l m(2) m(1)] using ch(1) [of 0 0] 1 by simp
  next
    case (2 b)
    let ?n = "N (of_char b) 0"
    have l: "?n < 16777216" by (intro lt) simp_all
    have e: "base64_encode (a # xs) = b64_char (?n div 262144 mod 64) # b64_char (?n div 4096 mod 64) # b64_char (?n div 64 mod 64) # CHR ''='' # []"
      using 2 by (simp add: N_def Let_def)
    show ?thesis unfolding e base64_decode_group(2) [OF l m(1)] using ch(1,2) [of "of_char b" 0] 2 by simp
  next
    case (3 b c zs)
    let ?n = "N (of_char b) (of_char c)"
    have l: "?n < 16777216" by (intro lt) simp_all
    have e: "base64_encode (a # xs) = b64_char (?n div 262144 mod 64) # b64_char (?n div 4096 mod 64) # b64_char (?n div 64 mod 64)
        # b64_char (?n mod 64) # base64_encode zs"
      using 3 by (simp add: N_def Let_def)
    show ?thesis unfolding e base64_decode_group(1) [OF l] using ch [of "of_char b" "of_char c"] 3 IH by simp
  qed
qed simp

section \<open>Streams of frames\<close>

text \<open>A frame as RFC 6455 lays it out: the first byte, the mask if there is one, and the payload.\<close>

record ws_frame =
  wf_first :: char
  wf_mask :: "bytes option"
  wf_data :: bytes

definition ws_len_bytes :: "bool \<Rightarrow> nat \<Rightarrow> bytes" where
  "ws_len_bytes masked n =
     (let m = (if masked then 128 else 0)
      in if n < 126 then [char_of (m + n)] else if n < 65536 then char_of (m + 126) # be_bytes 2 n else char_of (m + 127) # be_bytes 8 n)"

definition ws_encode :: "ws_frame \<Rightarrow> bytes" where
  "ws_encode f = wf_first f # ws_len_bytes (wf_mask f \<noteq> None) (length (wf_data f))
     @ (case wf_mask f of None \<Rightarrow> wf_data f | Some key \<Rightarrow> key @ ws_unmask key (wf_data f))"

definition ws_valid :: "ws_frame \<Rightarrow> bool" where
  "ws_valid f \<longleftrightarrow> length (wf_data f) \<le> WS_MAX \<and> (case wf_mask f of None \<Rightarrow> True | Some key \<Rightarrow> length key = 4)"

definition ws_acts :: "nat \<Rightarrow> ws_frame \<Rightarrow> ws_act list" where
  "ws_acts cid f = ws_event cid (of_char (wf_first f) mod 16) (wf_data f)"

text \<open>The sizes of the fixed part, of the mask and of the whole frame.\<close>

definition ws_fixed :: "nat \<Rightarrow> nat" where
  "ws_fixed n = (if n < 126 then 2 else if n < 65536 then 4 else 10)"

definition ws_mlen :: "ws_frame \<Rightarrow> nat" where
  "ws_mlen f = (if wf_mask f = None then 0 else 4)"

lemma length_be_bytes [simp]: "length (be_bytes k n) = k"
  by (simp add: be_bytes_def)

lemma ws_unmask_twice [simp]: "ws_unmask key (ws_unmask key d) = d"
  by (rule nth_equalityI) (simp_all add: ws_unmask_def)

lemma length_ws_len [simp]: "length (ws_len_bytes m n) = ws_fixed n - 1"
  by (simp add: ws_len_bytes_def ws_fixed_def Let_def)

lemma length_ws_encode: "ws_valid f \<Longrightarrow> length (ws_encode f) = ws_fixed (length (wf_data f)) + ws_mlen f + length (wf_data f)"
  by (auto simp: ws_encode_def ws_valid_def ws_mlen_def ws_fixed_def split: option.splits)

lemma ws_second_byte:
  assumes "p ! 1 = ws_len_bytes m n ! 0"
  shows "ws_masked p = m" "of_char (p ! 1) mod (128 :: nat) = (if n < 126 then n else if n < 65536 then 126 else 127)"
  using assms by (auto simp: ws_masked_def ws_len_bytes_def Let_def)

lemma take_drop_take: "a + b \<le> k \<Longrightarrow> take a (drop b (take k xs)) = take a (drop b xs)"
  by (simp add: drop_take min_def)

text \<open>Reading the header of a frame of which \<open>k\<close> bytes, and possibly more, have arrived.\<close>

lemma ws_header_take:
  assumes v: "ws_valid f" and k: "2 \<le> k" "k \<le> length (ws_encode f @ rest)"
  defines "n \<equiv> length (wf_data f)"
  shows "ws_masked (take k (ws_encode f @ rest)) = (wf_mask f \<noteq> None)"
    and "ws_header (take k (ws_encode f @ rest)) = (if k < ws_fixed n then None else Some (n, ws_fixed n + ws_mlen f))"
proof -
  let ?p = "take k (ws_encode f @ rest)" and ?L = "ws_len_bytes (wf_mask f \<noteq> None) n"
  obtain tail where p: "ws_encode f @ rest = wf_first f # ?L @ tail" by (simp add: ws_encode_def n_def)
  have ne: "?L \<noteq> []" by (simp add: ws_len_bytes_def Let_def)
  then have "?p ! 1 = ?L ! 0" using k by (cases ?L) (simp_all add: p)
  note sb = ws_second_byte [OF this]
  have len: "length ?p = k" using k by simp
  have big: "n < 256 ^ 8" using v by (simp add: ws_valid_def n_def const_simps)
  have 2: "take 2 (drop 2 ?p) = be_bytes 2 n" if "126 \<le> n" "n < 65536" "4 \<le> k"
  proof -
    have "take 2 (drop 2 ?p) = take 2 (drop 2 (ws_encode f @ rest))" using that(3) by (intro take_drop_take) simp
    then show ?thesis using that by (simp add: p ws_len_bytes_def Let_def)
  qed
  have 8: "take 8 (drop 2 ?p) = be_bytes 8 n" if "65536 \<le> n" "10 \<le> k"
  proof -
    have "take 8 (drop 2 ?p) = take 8 (drop 2 (ws_encode f @ rest))" using that(2) by (intro take_drop_take) simp
    then show ?thesis using that by (simp add: p ws_len_bytes_def Let_def)
  qed
  show "ws_masked ?p = (wf_mask f \<noteq> None)" by (rule sb(1))
  show "ws_header ?p = (if k < ws_fixed n then None else Some (n, ws_fixed n + ws_mlen f))"
    unfolding ws_header_def Let_def sb len ws_mlen_def
    using 2 8 big k(1) by (auto simp: ws_fixed_def be_value_bytes)
qed

lemma ws_iter_partial:
  assumes "ws_valid f" "2 \<le> k" "k < length (ws_encode f)" "hc_buf c = take k (ws_encode f @ rest)"
  shows "ws_iter cid c = (False, c, [])"
proof -
  have "\<not> length (wf_data f) > WS_MAX" using assms(1) by (simp add: ws_valid_def)
  moreover have "k \<le> length (ws_encode f @ rest)" using assms(3) by simp
  moreover have "length (hc_buf c) = k" using assms(3,4) by simp
  ultimately show ?thesis using assms ws_header_take(2) [OF assms(1,2), of rest] length_ws_encode [OF assms(1)]
    by (simp add: ws_iter_def Let_def)
qed

lemma ws_iter_full:
  assumes v: "ws_valid f" and b: "hc_buf c = ws_encode f @ rest"
  shows "\<exists>sl. ws_iter cid c = (True, c\<lparr>hc_buf := rest, hc_slack := sl\<rparr>, ws_acts cid f)"
proof -
  let ?n = "length (wf_data f)"
  let ?H = "ws_fixed ?n + ws_mlen f"
  have L: "length (ws_encode f) = ?H + ?n" using length_ws_encode [OF v] by simp
  have k: "2 \<le> length (hc_buf c)" "ws_fixed ?n \<le> length (hc_buf c)" using L by (auto simp: b ws_fixed_def split: if_splits)
  have h: "ws_header (hc_buf c) = Some (?n, ?H)" "ws_masked (hc_buf c) = (wf_mask f \<noteq> None)"
    using ws_header_take [OF v k(1), of rest] k(2) by (simp_all add: b)
  have first: "hc_buf c ! 0 = wf_first f" by (simp add: b ws_encode_def)
  have pay: "(if ws_masked (hc_buf c) then ws_unmask (take 4 (drop (?H - 4) (hc_buf c))) (take ?n (drop ?H (hc_buf c)))
      else take ?n (drop ?H (hc_buf c))) = wf_data f"
  proof (cases "wf_mask f")
    case None
    then show ?thesis unfolding h by (simp add: b ws_encode_def ws_mlen_def ws_fixed_def)
  next
    case (Some key)
    then have 4: "length key = 4" using v by (simp add: ws_valid_def)
    then show ?thesis using Some unfolding h by (simp add: b ws_encode_def ws_mlen_def ws_fixed_def)
  qed
  have "\<not> ?n > WS_MAX" using v by (simp add: ws_valid_def)
  moreover have "\<not> length (hc_buf c) < ?H + ?n" by (simp add: b L)
  moreover have d: "drop (?H + ?n) (take ?H (hc_buf c) @ wf_data f @ drop (?H + ?n) (hc_buf c)) = rest" using L by (simp add: b)
  ultimately show ?thesis using pay first by (simp add: ws_iter_def h(1) Let_def ws_acts_def) blast
qed

text \<open>
  Whatever part of a stream of frames is in the buffer, the loop carries out the frames that are complete and leaves the start of
  the next one.
\<close>

definition partial :: "bytes \<Rightarrow> ws_frame list \<Rightarrow> bool" where
  "partial r fs \<longleftrightarrow> (case fs of [] \<Rightarrow> r = [] | f # _ \<Rightarrow> length r < length (ws_encode f) \<and> r = take (length r) (ws_encode f))"

lemma ws_loop_stream:
  assumes "\<forall>f\<in>set fs. ws_valid f" "concat (map ws_encode fs) = hc_buf c @ later"
  shows "\<exists>fs1 fs2 r sl. fs = fs1 @ fs2 \<and> partial r fs2 \<and> hc_buf c = concat (map ws_encode fs1) @ r
    \<and> ws_loop cid c = (c\<lparr>hc_buf := r, hc_slack := sl\<rparr>, concat (map (ws_acts cid) fs1))"
  using assms
proof (induction fs arbitrary: c)
  case Nil
  then have "ws_loop cid c = (c, [])" "hc_buf c = []" by (simp_all add: ws_loop.simps)
  then show ?case by (intro exI [of _ "[]"] exI [of _ "[]"] exI [of _ "hc_slack c"]) (simp add: partial_def)
next
  case (Cons f fs)
  have v: "ws_valid f" using Cons.prems by simp
  let ?k = "length (hc_buf c)"
  have pre: "hc_buf c = take ?k (ws_encode f @ concat (map ws_encode fs))" using Cons.prems(2) by simp
  show ?case
  proof (cases "?k < length (ws_encode f)")
    case True
    then have "ws_loop cid c = (c, [])"
      using ws_iter_partial [OF v _ True pre] by (cases "?k < 2") (simp_all add: ws_loop.simps)
    moreover have "hc_buf c = take ?k (ws_encode f)" using pre True by simp
    ultimately show ?thesis using True
      by (intro exI [of _ "[]"] exI [of _ "f # fs"] exI [of _ "hc_buf c"] exI [of _ "hc_slack c"]) (simp add: partial_def)
  next
    case False
    define rest where "rest = drop (length (ws_encode f)) (hc_buf c)"
    have b: "hc_buf c = ws_encode f @ rest" using pre False unfolding rest_def
      by (metis append_take_drop_id append_eq_conv_conj le_eq_less_or_eq not_le take_all_iff take_append take_take min.absorb2)
    have k: "\<not> ?k < 2" using length_ws_encode [OF v] by (auto simp: b ws_fixed_def)
    obtain sl where it: "ws_iter cid c = (True, c\<lparr>hc_buf := rest, hc_slack := sl\<rparr>, ws_acts cid f)"
      using ws_iter_full [OF v b] by blast
    have "concat (map ws_encode fs) = hc_buf (c\<lparr>hc_buf := rest, hc_slack := sl\<rparr>) @ later" using Cons.prems(2) by (simp add: b)
    from Cons.IH [OF _ this] Cons.prems(1) obtain fs1 fs2 r sl' where
      *: "fs = fs1 @ fs2" "partial r fs2" "rest = concat (map ws_encode fs1) @ r"
        "ws_loop cid (c\<lparr>hc_buf := rest, hc_slack := sl\<rparr>) = (c\<lparr>hc_buf := r, hc_slack := sl'\<rparr>, concat (map (ws_acts cid) fs1))"
      by auto
    have "ws_loop cid c = (c\<lparr>hc_buf := r, hc_slack := sl'\<rparr>, concat (map (ws_acts cid) (f # fs1)))"
      using k it *(4) by (subst ws_loop.simps) simp
    then show ?thesis using *(1-3) b by (intro exI [of _ "f # fs1"] exI [of _ fs2] exI [of _ r] exI [of _ sl']) simp
  qed
qed

section \<open>Delivery of frames\<close>

text \<open>An open WebSocket connection of port \<open>po\<close> with handler \<open>h\<close>, and what a frame makes the server tell the handler.\<close>

definition ws_open :: "nat \<Rightarrow> proc_ref \<Rightarrow> port_ref \<Rightarrow> http_st \<Rightarrow> bool" where
  "ws_open cid h po st \<longleftrightarrow> conn_find_by_port po st = Some cid \<and> hc_mode (g_http_conns st ! cid) = SW_HTTP_MODE_WS
     \<and> hc_handler (g_http_conns st ! cid) = Some h"

definition frame_msgs :: "nat \<Rightarrow> ws_frame \<Rightarrow> sw_val list" where
  "frame_msgs cid f =
     (let opcode = of_char (wf_first f) mod (16 :: nat)
      in if opcode = 1 then [V_tuple [V_atom ''ws_message'', V_int (of_nat cid), V_string (c_string (wf_data f))]]
         else if opcode = 8 then [V_tuple [V_atom ''ws_close'', V_int (of_nat cid)]] else [])"

fun act_msgs :: "ws_act list \<Rightarrow> sw_val list" where
  "act_msgs [] = []"
| "act_msgs (To_handler v # as) = v # act_msgs as"
| "act_msgs (To_peer d # as) = act_msgs as"

lemma act_msgs_append [simp]: "act_msgs (as @ bs) = act_msgs as @ act_msgs bs"
  by (induction as rule: act_msgs.induct) simp_all

lemma act_msgs_frame: "act_msgs (ws_acts cid f) = frame_msgs cid f"
  by (simp add: ws_acts_def frame_msgs_def ws_event_def Let_def)

lemma act_msgs_frames: "act_msgs (concat (map (ws_acts cid) fs)) = concat (map (frame_msgs cid) fs)"
  by (induction fs) (simp_all add: act_msgs_frame)

lemma fold_ws_do:
  assumes "hc_handler c = Some h"
  shows "h_sent (fold (ws_do e c) as st) = h_sent st @ map (Pair h) (act_msgs as)
    \<and> g_http_conns (fold (ws_do e c) as st) = g_http_conns st"
proof (induction as arbitrary: st)
  case (Cons a as)
  then show ?case using assms by (cases a) (simp_all add: to_handler_def to_peer_def)
qed simp

lemma find_by_port_update:
  assumes "cid < length (g_http_conns st)" "g_http_conns st' = (g_http_conns st)[cid := c]"
    and "hc_active c = hc_active (g_http_conns st ! cid)" "hc_port c = hc_port (g_http_conns st ! cid)"
  shows "conn_find_by_port po st' = conn_find_by_port po st"
  unfolding conn_find_by_port_def assms(2) using assms by (intro find_index_update) simp_all

text \<open>The buffer grows as long as the sizes fit 31 bits.\<close>

lemma conn_append_ok:
  assumes "length (hc_buf c) + length data < 2 ^ 31"
  shows "\<exists>sl. conn_append e data c = Inr (c\<lparr>hc_buf := hc_buf c @ data, hc_slack := sl\<rparr>)"
proof -
  let ?u = "length (hc_buf c) + length data" and ?cap = "length (hc_buf c) + length (hc_slack c)"
  let ?need = "of_nat (length (hc_buf c)) + of_nat (length data) :: u32"
  have need: "unat ?need = ?u" using assms by (simp add: unat_word_ariths unat_of_nat take_bit_eq_mod)
  have "unat (x * 2) = unat x * 2" if "unat x < 2 ^ 31" for x :: u32 using that by (simp add: unat_word_ariths)
  from this [of ?need] have "unat (?need * 2) = ?u * 2" using assms need by (simp only:)
  then have g: "\<not> unat (?need * 2) < ?u" by simp
  have "\<not> ?cap < ?u" if "\<not> ?need > of_nat ?cap"
  proof -
    have "unat ?need \<le> unat (of_nat ?cap :: u32)" using that by (simp add: word_le_nat_alt not_less)
    also have "unat (of_nat n :: u32) \<le> n" for n by (simp add: unat_of_nat)
    finally show ?thesis using need by simp
  qed
  then show ?thesis using g by (cases "?need > of_nat ?cap") (simp_all add: conn_append_def Let_def, blast+)
qed

lemma ws_data_event:
  assumes op: "ws_open cid h po st" and valid: "\<forall>f\<in>set fs. ws_valid f" and r: "partial (hc_buf (g_http_conns st ! cid)) fs"
    and d: "length d \<le> SW_IO_RECV_BUF" and bs: "concat (map ws_encode fs) = hc_buf (g_http_conns st ! cid) @ d @ later"
  shows "\<exists>st' fs1 fs2. http_bridge_msg e handler (Port_data po d) st = Inr st' \<and> fs = fs1 @ fs2 \<and> ws_open cid h po st'
    \<and> partial (hc_buf (g_http_conns st' ! cid)) fs2 \<and> concat (map ws_encode fs2) = hc_buf (g_http_conns st' ! cid) @ later
    \<and> h_sent st' = h_sent st @ map (Pair h) (concat (map (frame_msgs cid) fs1))"
proof -
  define c where "c = g_http_conns st ! cid"
  have find: "conn_find_by_port po st = Some cid" and c: "hc_mode c = SW_HTTP_MODE_WS" "hc_handler c = Some h"
    using op by (simp_all add: ws_open_def c_def)
  have lt: "cid < length (g_http_conns st)" using find_index_Some [OF find [unfolded conn_find_by_port_def]] by simp
  have "length (hc_buf c) + length d < 2 ^ 31"
  proof (cases fs)
    case Nil
    then show ?thesis using bs by (simp add: c_def)
  next
    case (Cons f gs)
    then have "length (hc_buf c) < length (ws_encode f)" using r by (simp add: partial_def c_def)
    also have "\<dots> \<le> 14 + WS_MAX" using valid Cons length_ws_encode [of f]
      by (simp add: ws_valid_def ws_fixed_def ws_mlen_def)
    finally show ?thesis using d by (simp add: const_simps)
  qed
  then obtain sl where ap: "conn_append e d c = Inr (c\<lparr>hc_buf := hc_buf c @ d, hc_slack := sl\<rparr>)" using conn_append_ok by blast
  let ?c = "c\<lparr>hc_buf := hc_buf c @ d, hc_slack := sl\<rparr>"
  have "concat (map ws_encode fs) = hc_buf ?c @ later" using bs by (simp add: c_def)
  from ws_loop_stream [OF valid this] obtain fs1 fs2 r' sl' where
    l: "fs = fs1 @ fs2" "partial r' fs2" "hc_buf ?c = concat (map ws_encode fs1) @ r'"
      "ws_loop cid ?c = (?c\<lparr>hc_buf := r', hc_slack := sl'\<rparr>, concat (map (ws_acts cid) fs1))" by blast
  let ?c' = "?c\<lparr>hc_buf := r', hc_slack := sl'\<rparr>" and ?as = "concat (map (ws_acts cid) fs1)"
  define st' where "st' = fold (ws_do e ?c') ?as (upd_conn cid (\<lambda>_. ?c') (upd_conn cid (\<lambda>_. ?c) st))"
  have ev: "http_bridge_msg e handler (Port_data po d) st = Inr st'"
    using find ap c lt l(4) by (simp add: conn_on_data_def ws_try_parse_def c_def [symmetric] st'_def upd_conn_def)
  have f: "h_sent st' = h_sent st @ map (Pair h) (act_msgs ?as)" "g_http_conns st' = (g_http_conns st)[cid := ?c']"
    using fold_ws_do [of ?c' h e ?as] c by (simp_all add: st'_def upd_conn_def)
  have "conn_find_by_port po st' = conn_find_by_port po st"
    by (rule find_by_port_update [OF lt f(2)]) (simp_all add: c_def)
  then have "ws_open cid h po st'" using find c lt by (simp add: ws_open_def f(2))
  moreover have "concat (map ws_encode fs2) = r' @ later" using bs l(1,3) by (simp add: c_def) (metis append.assoc same_append_eq)
  ultimately show ?thesis using ev l(1,2) lt f
    by (intro exI [of _ st'] exI [of _ fs1] exI [of _ fs2]) (simp add: act_msgs_frames)
qed

lemma ws_data_events:
  assumes "ws_open cid h po st" "\<forall>f\<in>set fs. ws_valid f" "\<forall>d\<in>set ds. length d \<le> SW_IO_RECV_BUF"
    and "partial (hc_buf (g_http_conns st ! cid)) fs" "concat (map ws_encode fs) = hc_buf (g_http_conns st ! cid) @ concat ds"
  shows "\<exists>st'. http_bridge_entry e handler (map (Port_data po) ds) st = Inr st' \<and> ws_open cid h po st'
    \<and> hc_buf (g_http_conns st' ! cid) = [] \<and> h_sent st' = h_sent st @ map (Pair h) (concat (map (frame_msgs cid) fs))"
  using assms
proof (induction ds arbitrary: st fs)
  case Nil
  have "fs = []"
  proof (cases fs)
    case (Cons f gs)
    then have "length (hc_buf (g_http_conns st ! cid)) < length (ws_encode f)" using Nil(4) by (simp add: partial_def)
    moreover have "length (ws_encode f) \<le> length (hc_buf (g_http_conns st ! cid))"
      using arg_cong [OF Nil(5), of length] Cons by simp
    ultimately show ?thesis by simp
  qed simp
  then show ?case using Nil by (simp add: partial_def)
next
  case (Cons d ds)
  have "concat (map ws_encode fs) = hc_buf (g_http_conns st ! cid) @ d @ concat ds" using Cons.prems(5) by simp
  moreover have "length d \<le> SW_IO_RECV_BUF" using Cons.prems(3) by simp
  ultimately obtain st' fs1 fs2 where
    s: "http_bridge_msg e handler (Port_data po d) st = Inr st'" "fs = fs1 @ fs2" "ws_open cid h po st'"
      "partial (hc_buf (g_http_conns st' ! cid)) fs2" "concat (map ws_encode fs2) = hc_buf (g_http_conns st' ! cid) @ concat ds"
      "h_sent st' = h_sent st @ map (Pair h) (concat (map (frame_msgs cid) fs1))"
    using ws_data_event [OF Cons.prems(1,2,4)] by blast
  from Cons.IH [OF s(3) _ _ s(4,5)] Cons.prems(2,3) s(1,2,6) show ?case by auto
qed

text \<open>
  C16. The frames that a client sends on an open WebSocket reach the handler complete and in order, however the network cuts their
  bytes into pieces of up to the size of the receive buffer: each text frame becomes one message with its unmasked payload up to
  a NUL byte, each close frame one notice, and no byte is left over.
\<close>

theorem ws_messages_in_order:
  assumes "ws_open cid h po st" "hc_buf (g_http_conns st ! cid) = []" "\<forall>f\<in>set fs. ws_valid f"
    and "concat ds = concat (map ws_encode fs)" "\<forall>d\<in>set ds. length d \<le> SW_IO_RECV_BUF"
  shows "\<exists>st'. http_bridge_entry e handler (map (Port_data po) ds) st = Inr st' \<and> ws_open cid h po st'
    \<and> hc_buf (g_http_conns st' ! cid) = [] \<and> h_sent st' = h_sent st @ map (Pair h) (concat (map (frame_msgs cid) fs))"
proof (rule ws_data_events [OF assms(1,3,5)])
  show "partial (hc_buf (g_http_conns st ! cid)) fs"
    using assms(2) by (simp add: partial_def ws_encode_def split: list.split)
qed (use assms(2,4) in simp)

text \<open>A masked text frame, a ping and a close frame, cut in the middle of the mask and of the payload.\<close>

definition demo_frames :: "ws_frame list" where
  "demo_frames = [\<lparr>wf_first = CHR 0x81, wf_mask = Some [CHR 0x01, CHR 0x02, CHR 0x03, CHR 0x04], wf_data = ''hello''\<rparr>,
     \<lparr>wf_first = CHR 0x89, wf_mask = None, wf_data = ''p''\<rparr>, \<lparr>wf_first = CHR 0x88, wf_mask = None, wf_data = []\<rparr>]"

definition demo_ws :: http_st where
  "demo_ws = \<lparr>g_http_conns = [\<lparr>hc_id = 0, hc_port = Some 1, hc_mode = SW_HTTP_MODE_WS, hc_handler = Some 7, hc_buf = [],
     hc_slack = ''stale'', content_length = 0, body_pending = False, keep_alive = True, ws_key = ''k'', hc_active = True\<rparr>],
     h_io = io_init, h_sent = []\<rparr>"

definition demo_env :: http_env where
  "demo_env = \<lparr>he_write = demo_kw, he_fresh = (\<lambda>n. []), he_sha1 = (\<lambda>s. replicate 20 (CHR 0x00)), he_shift = (\<lambda>w k. drop_bit (k mod 32) w)\<rparr>"

definition demo_chunks :: "bytes list" where
  "demo_chunks = (let bs = concat (map ws_encode demo_frames) in [take 4 bs, take 4 (drop 4 bs), drop 8 bs])"

lemma demo_chunks_bytes: "concat demo_chunks = concat (map ws_encode demo_frames)"
  by (simp add: demo_chunks_def Let_def) (metis append_take_drop_id drop_drop numeral_Bit0 append.assoc)

theorem ws_messages_in_order_witness:
  "\<exists>st'. http_bridge_entry demo_env None (map (Port_data 1) demo_chunks) demo_ws = Inr st' \<and> ws_open 0 7 1 st'
    \<and> hc_buf (g_http_conns st' ! 0) = []
    \<and> h_sent st' = [(7, V_tuple [V_atom ''ws_message'', V_int 0, V_string ''hello'']), (7, V_tuple [V_atom ''ws_close'', V_int 0])]"
proof -
  have "ws_open 0 7 1 demo_ws" "hc_buf (g_http_conns demo_ws ! 0) = []" "h_sent demo_ws = []"
    by (simp_all add: ws_open_def demo_ws_def conn_find_by_port_def)
  moreover have "\<forall>f\<in>set demo_frames. ws_valid f" by (simp add: demo_frames_def ws_valid_def const_simps)
  moreover have "\<forall>d\<in>set demo_chunks. length d \<le> SW_IO_RECV_BUF"
    by (simp add: demo_chunks_def demo_frames_def ws_encode_def ws_len_bytes_def ws_unmask_def Let_def const_simps)
  moreover have "concat (map (frame_msgs 0) demo_frames)
      = [V_tuple [V_atom ''ws_message'', V_int 0, V_string ''hello''], V_tuple [V_atom ''ws_close'', V_int 0]]"
    by (simp add: demo_frames_def frame_msgs_def c_string_def)
  ultimately show ?thesis using ws_messages_in_order [OF _ _ _ demo_chunks_bytes, of 0 7 1 demo_ws demo_env None] by simp
qed

section \<open>Requests\<close>

text \<open>
  A header line that begins with \<^verbatim>\<open>Content-Length\<close> and goes on with a colon: only fourteen characters are compared, and the number is
  looked for from the colon on.
\<close>

definition colon_at :: "bytes \<Rightarrow> bool" where
  "colon_at line \<longleftrightarrow> (starts_ci ''Content-Length:'' 14 line \<longrightarrow> take 1 (drop 14 line) = '':'')"

definition colon_ok :: "bytes \<Rightarrow> bool" where
  "colon_ok mem \<longleftrightarrow> list_all (\<lambda>i. colon_at (drop i mem)) [0..<length mem]"

lemma colon_ok_drop: "colon_ok mem \<Longrightarrow> colon_ok (drop n mem)"
  by (simp add: colon_ok_def list_all_iff add.commute less_diff_conv)

lemma colon_okD: "colon_ok line \<Longrightarrow> line \<noteq> [] \<Longrightarrow> colon_at line"
  by (force simp: colon_ok_def list_all_iff dest!: bspec [of _ _ 0])

lemma colon_ok_first: "colon_ok mem \<Longrightarrow> colon_ok (first_line_skipped mem)"
  using colon_ok_drop [of mem] by (simp add: first_line_skipped_def colon_ok_def [of "[]"] split: option.split)

lemma strtoul_colon:
  assumes "take 1 s = '':''"
  shows "strtoul (dropWhile http_blank s) = Some 0"
proof -
  obtain t where s: "s = CHR '':'' # t" using assms by (cases s) auto
  show ?thesis by (simp add: s strtoul_def http_blank_def is_space_def is_digit_def Let_def)
qed

lemma scan_line_no_length:
  assumes "colon_at line" "hi_length hi = 0"
  shows "\<exists>hi'. scan_line line le hi = Some hi' \<and> hi_length hi' = 0"
proof -
  have "strtoul (dropWhile http_blank (drop 14 line)) = Some 0" if "starts_ci ''Content-Length:'' 14 line"
    using that assms(1) by (intro strtoul_colon) (simp add: colon_at_def)
  then show ?thesis using assms(2) by (simp add: scan_line_def Let_def)
qed

lemma scan_lines_no_length:
  "colon_ok line \<Longrightarrow> hi_length hi = 0 \<Longrightarrow> \<exists>hi'. scan_lines hl line hi = Some hi' \<and> hi_length hi' = 0"
proof (induction hl line hi rule: scan_lines.induct)
  case (1 hl line hi)
  show ?case
  proof (cases "length line \<le> hl")
    case False
    show ?thesis
    proof (cases "line_end_of line")
      case (Some le)
      show ?thesis
      proof (cases "length le < hl")
        case fits: False
        obtain hi' where h: "scan_line line le hi = Some hi'" "hi_length hi' = 0"
          using scan_line_no_length [OF colon_okD [OF 1(2)] 1(3)] False by fastforce
        have "colon_ok (drop 2 le)" using Some colon_ok_drop [OF 1(2)] by (auto simp: line_end_of_def)
        from 1(1) [OF False Some fits h(1) this h(2)] show ?thesis using False Some fits h by (simp add: scan_lines.simps [of hl line])
      qed (use 1(3) False Some in \<open>simp add: scan_lines.simps [of hl line]\<close>)
    qed (use 1(3) False in \<open>simp add: scan_lines.simps [of hl line]\<close>)
  qed (use 1(3) in \<open>simp add: scan_lines.simps [of hl line]\<close>)
qed

text \<open>A request line and what \<^verbatim>\<open>sscanf\<close> makes of it.\<close>

definition word_ok :: "nat \<Rightarrow> string \<Rightarrow> bool" where
  "word_ok n w \<longleftrightarrow> w \<noteq> [] \<and> length w \<le> n \<and> list_all (\<lambda>c. \<not> is_space c \<and> c \<noteq> CHR 0x00) w"

lemma scan_word_ok:
  assumes w: "word_ok n w" and r: "r \<noteq> []" "is_space (hd r)" and s: "list_all is_space sp"
  shows "scan_word n (sp @ w @ r) = Some (w, r)"
proof -
  have "\<not> is_space (hd w)" "w \<noteq> []" using w by (cases w; simp add: word_ok_def)+
  then have "dropWhile is_space (w @ r) = w @ r" by (cases w) auto
  then have d: "dropWhile is_space (sp @ w @ r) = w @ r" using s by (simp add: dropWhile_append1 list_all_iff dropWhile_append2)
  have t: "takeWhile (\<lambda>c. \<not> is_space c \<and> c \<noteq> CHR 0x00) (w @ r) = w"
    using w r by (cases r) (auto simp: word_ok_def list_all_iff takeWhile_append)
  show ?thesis using w r unfolding scan_word_def Let_def d t by (simp add: word_ok_def)
qed

lemma scan_request_ok:
  assumes "word_ok 15 m" "word_ok 511 p" "word_ok 15 v"
  shows "scan_request (m @ '' '' @ p @ '' '' @ v @ crlf @ rest) = Some (m, p, v)"
proof -
  have sp: "is_space (CHR 0x20)" "is_space (CHR 0x0D)" by (simp_all add: is_space_def)
  have "scan_word 15 (m @ '' '' @ p @ '' '' @ v @ crlf @ rest) = Some (m, '' '' @ p @ '' '' @ v @ crlf @ rest)"
    using scan_word_ok [OF assms(1), of "'' '' @ p @ '' '' @ v @ crlf @ rest" "[]"] sp by simp
  moreover have "scan_word 511 ('' '' @ p @ '' '' @ v @ crlf @ rest) = Some (p, '' '' @ v @ crlf @ rest)"
    using scan_word_ok [OF assms(2), of "'' '' @ v @ crlf @ rest" "'' ''"] sp by simp
  moreover have "scan_word 15 ('' '' @ v @ crlf @ rest) = Some (v, crlf @ rest)"
    using scan_word_ok [OF assms(3), of "crlf @ rest" "'' ''"] sp by (simp add: crlf_def)
  ultimately show ?thesis using assms by (simp add: scan_request_def word_ok_def)
qed

text \<open>
  C38. A complete request head is answered by exactly one message to the handler, a request with its method and path or the notice
  of a WebSocket. But when \<^verbatim>\<open>Content-Length\<close> is followed by its colon, the length is always read as zero: the body is never waited
  for, the request is delivered with an empty body, and the bytes of the body stay in the buffer, where they are taken for the
  head of the next request.
\<close>

theorem http_body_never_delivered:
  fixes st :: http_st and cid :: nat
  defines "c \<equiv> g_http_conns st ! cid"
  assumes "cid < length (g_http_conns st)" "hc_handler c = Some h" "\<not> body_pending c"
    and req: "hc_buf c = m @ '' '' @ p @ '' '' @ v @ crlf @ rest" "word_ok 15 m" "word_ok 511 p" "word_ok 15 v"
    and "find_header_end (hc_buf c) = Some i" "colon_ok (hc_buf c @ hc_slack c)"
  shows "\<exists>st' msg. http_try_parse e cid st = Inr st' \<and> h_sent st' = h_sent st @ [(h, msg)]
    \<and> (msg = request_msg cid m p [] \<or> msg = V_tuple [V_atom ''ws_connect'', V_int (of_nat cid), V_string p])
    \<and> \<not> body_pending (g_http_conns st' ! cid) \<and> hc_buf (g_http_conns st' ! cid) = drop (i + 4) (hc_buf c)"
proof -
  define mem where "mem = hc_buf c @ hc_slack c"
  have sr: "scan_request mem = Some (m, p, v)"
    using scan_request_ok [OF req(2-4), of "rest @ hc_slack c"] by (simp add: req(1) mem_def)
  obtain hi where hi: "scan_lines (length mem - i) (first_line_skipped mem) (hdr_init v) = Some hi" "hi_length hi = 0"
    using scan_lines_no_length [OF colon_ok_first [OF assms(10)], of "hdr_init v" "length mem - i"]
    by (auto simp: hdr_init_def mem_def)
  note t = http_try_parse_def Let_def c_def [symmetric] mem_def [symmetric]
  show ?thesis
  proof (cases "hi_upgrade hi \<and> hi_key hi \<noteq> []")
    case True
    then show ?thesis using assms(2-4) assms(9) unfolding t
      by (simp add: sr hi consume_def upd_conn_def to_handler_def ws_do_handshake_def to_peer_def)
  next
    case False
    then show ?thesis using assms(2-4) assms(9) unfolding t
      by (auto simp: sr hi consume_def upd_conn_def to_handler_def)
  qed
qed

definition demo_post :: string where
  "demo_post = ''POST'' @ '' '' @ ''/x'' @ '' '' @ ''HTTP/1.1'' @ crlf @ (''Content-Length: 5'' @ crlf @ crlf @ ''hello'')"

definition demo_conn :: http_st where
  "demo_conn = \<lparr>g_http_conns = [\<lparr>hc_id = 0, hc_port = Some 1, hc_mode = SW_HTTP_MODE_HTTP, hc_handler = Some 7, hc_buf = demo_post,
     hc_slack = [], content_length = 0, body_pending = False, keep_alive = True, ws_key = [], hc_active = True\<rparr>],
     h_io = io_init, h_sent = []\<rparr>"

lemma demo_colon_ok: "colon_ok demo_post"
  by code_simp

lemma demo_post_end: "find_header_end demo_post = Some 35"
  by code_simp

theorem http_body_never_delivered_witness:
  "\<exists>st' msg. http_try_parse demo_env 0 demo_conn = Inr st' \<and> h_sent st' = [(7, msg)]
    \<and> (msg = request_msg 0 ''POST'' ''/x'' [] \<or> msg = V_tuple [V_atom ''ws_connect'', V_int (of_nat 0), V_string ''/x''])
    \<and> \<not> body_pending (g_http_conns st' ! 0) \<and> hc_buf (g_http_conns st' ! 0) = ''hello''"
proof -
  let ?c = "g_http_conns demo_conn ! 0"
  have c: "0 < length (g_http_conns demo_conn)" "hc_handler ?c = Some 7" "\<not> body_pending ?c" "hc_buf ?c = demo_post"
    "hc_slack ?c = []" "h_sent demo_conn = []"
    by (simp_all add: demo_conn_def)
  have w: "word_ok 15 ''POST''" "word_ok 511 ''/x''" "word_ok 15 ''HTTP/1.1''"
    by (simp_all add: word_ok_def is_space_def)
  have d: "drop (35 + 4) demo_post = ''hello''" by code_simp
  have "hc_buf ?c = ''POST'' @ '' '' @ ''/x'' @ '' '' @ ''HTTP/1.1'' @ crlf @ (''Content-Length: 5'' @ crlf @ crlf @ ''hello'')"
    by (simp only: c(4) demo_post_def)
  from http_body_never_delivered [OF c(1-3) this w, unfolded c(4-6) append_Nil2, OF demo_post_end demo_colon_ok, of demo_env]
  show ?thesis unfolding d append_Nil .
qed

section \<open>Frames sent\<close>

text \<open>Below 64 KB the header that is sent is that of the frame.\<close>

lemma byte_of_unat: "byte_of w = char_of (unat w)"
proof -
  have "w AND 0xFF = take_bit 8 w" by (simp add: take_bit_eq_mask mask_eq_exp_minus_1)
  then have "unat (w AND 0xFF) = unat w mod 256" by (simp only: unsigned_take_bit_eq) (simp add: take_bit_eq_mod)
  then show ?thesis by (simp add: byte_of_def)
qed

lemma unat_drop_bit_u32: "unat (drop_bit k w) = unat (w :: u32) div 2 ^ k"
proof -
  have "unat w < 2 ^ 32" by (rule order_less_le_trans [OF unsigned_less]) simp
  then have "take_bit 32 (unat w) = unat w" by (simp add: take_bit_nat_eq_self)
  then show ?thesis by (simp only: unsigned_drop_bit_eq) (simp add: drop_bit_eq_div)
qed

lemma be_bytes_2: "be_bytes 2 n = [char_of (n div 256), char_of n]"
  by (simp add: be_bytes_def numeral_2_eq_2)

lemma char_of_len_marks: "char_of (126 :: nat) = CHR 0x7E" "char_of (127 :: nat) = CHR 0x7F"
  by code_simp+

lemma ws_send_header:
  assumes "n < 65536"
  shows "ws_frame_header e (of_nat n) = CHR 0x81 # ws_len_bytes False n"
proof -
  have u: "unat (of_nat n :: u32) = n" using assms by (simp add: unat_of_nat take_bit_eq_mod)
  have lt: "(of_nat n :: u32) < 126 \<longleftrightarrow> n < 126" "(of_nat n :: u32) < 65536 \<longleftrightarrow> n < 65536" using u by (simp_all add: word_less_nat_alt)
  have "unat (drop_bit 8 (of_nat n :: u32)) = n div 256" using unat_drop_bit_u32 [of 8 "of_nat n"] u by (simp del: drop_bit_eq_div)
  then show ?thesis using assms lt u by (simp add: ws_frame_header_def ws_len_bytes_def shr32_def byte_of_unat be_bytes_2 char_of_len_marks)
qed

text \<open>
  From 64 KB on the header is built from shifts by up to 56 bits of a 32-bit number. On processors that take the count modulo 32
  the low half of the length appears twice, and the receiver reads a length that is four billion times too large.
\<close>

lemma ws_send_header_large:
  assumes "65536 \<le> n" "n < 2 ^ 32" and shift: "he_shift e = (\<lambda>x k. drop_bit (k mod 32) x)"
  shows "\<exists>ds. ws_frame_header e (of_nat n) = CHR 0x81 # CHR 0x7F # ds \<and> length ds = 8 \<and> be_value ds = n * (2 ^ 32 + 1)"
proof -
  let ?w = "of_nat n :: u32"
  have u: "unat ?w = n" using assms by (simp add: unat_of_nat take_bit_eq_mod)
  have lt: "\<not> ?w < 126" "\<not> ?w < 65536" using u assms(1) by (simp_all add: word_less_nat_alt)
  have d: "unat (drop_bit k ?w) = n div 2 ^ k" for k using unat_drop_bit_u32 [of k ?w] u by (simp only:)
  let ?ds = "map (\<lambda>i. byte_of (shr32 e ?w (56 - i * 8))) [0..<8]"
  have i8: "[0..<8] = [0, 1, 2, 3, 4, 5, 6, 7 :: nat]" by (simp add: upt_rec)
  have sh: "byte_of (shr32 e ?w k) = char_of (n div 2 ^ (k mod 32))" for k
    using shift d [of "k mod 32"] by (cases "k < 32") (simp_all add: shr32_def byte_of_unat)
  have ds: "?ds = be_bytes 4 n @ be_bytes 4 n" unfolding i8 sh be_bytes_4 list.map by simp
  have "be_value ?ds = n * (2 ^ 32 + 1)" unfolding ds using assms(2) by (simp add: be_value_append be_value_bytes)
  then show ?thesis using lt by (simp add: ws_frame_header_def)
qed

lemma ws_send_text_frame:
  assumes "0 \<le> conn_id" "conn_id < int SW_HTTP_MAX_CONNS" "length data < 65536"
    and c: "hc_active (g_http_conns st ! nat conn_id)" "hc_mode (g_http_conns st ! nat conn_id) = SW_HTTP_MODE_WS"
      "hc_port (g_http_conns st ! nat conn_id) = Some p"
    and p: "pt_state (io_mem (h_io st) ! p) = SW_PORT_OPEN" "pt_type (io_mem (h_io st) ! p) = SW_PORT_TCP_CONN"
    and kw: "he_write e = (\<lambda>s fd d. int (length d))"
  shows "\<exists>st' a b. sw_ws_send_text e conn_id data st = (0, st')
    \<and> io_wire (h_io st') = io_wire (h_io st) @ [(pt_fd (io_mem (h_io st) ! p), a), (pt_fd (io_mem (h_io st) ! p), b)]
    \<and> a @ b = ws_encode \<lparr>wf_first = CHR 0x81, wf_mask = None, wf_data = data\<rparr>"
  using assms by (simp add: sw_ws_send_text_def Let_def to_peer_def sw_tcp_send_def ws_send_header ws_encode_def)

text \<open>
  When the peer ends a connection the bridge frees its entry but leaves the port open: the descriptor stays in use and the port in
  the list.
\<close>

lemma bridge_close_keeps_port:
  assumes "http_bridge_msg e handler (Port_closed po err) st = Inr st'"
  shows "h_io st' = h_io st"
  using assms by (auto simp: conn_on_close_def Let_def conn_free_def upd_conn_def to_handler_def split: option.splits if_splits)

end
