(* ===== verification/Vets.thy ===== *)
theory Vets
  imports Lang_Value
begin

text \<open>
  The tables of the compiled language, \<^verbatim>\<open>ets_new\<close> to \<^verbatim>\<open>ets_delete\<close> of \<^verbatim>\<open>src/src/swarmrt_builtins_studio.h\<close>: 64 tables of 256 chains,
  keyed by values. Hash and comparison look at the address of values that they do not know by structure, so a key is a value with
  its addresses.
\<close>

section \<open>Keys\<close>

text \<open>Values as objects at an address: integers, texts, tuples and process identifiers, and the rest, of which only type and address matter.\<close>

datatype vobj =
    VO_int u64 int64
  | VO_string u64 string
  | VO_atom u64 string
  | VO_tuple u64 "vobj list"
  | VO_pid u64 "proc_ref option"
  | VO_other u64 sw_val

definition VETS_BUCKETS :: nat where [const_simps]: "VETS_BUCKETS = 256"
definition VETS_MAX_TABLES :: nat where [const_simps]: "VETS_MAX_TABLES = 64"

definition fnv_byte :: "u64 \<Rightarrow> u64 \<Rightarrow> u64" where
  "fnv_byte h b = (h XOR b) * 1099511628211"

definition hash_int :: "u64 \<Rightarrow> u64 \<Rightarrow> u64" where
  "hash_int h k = fold (\<lambda>i h. fnv_byte h (drop_bit (8 * i) k AND 0xFF)) [0..<8] h"

definition hash_str :: "u64 \<Rightarrow> string \<Rightarrow> u64" where
  "hash_str h s = fold (\<lambda>c h. fnv_byte h (of_char c)) s h"

text \<open>The hash of a value is already reduced to a bucket when a tuple combines those of its items.\<close>

fun vets_hash_val :: "vobj \<Rightarrow> u32" and hash_items :: "u32 \<Rightarrow> vobj list \<Rightarrow> u64 \<Rightarrow> u64" where
  "vets_hash_val (VO_int a i) = ucast (hash_int 14695981039346656037 i mod 256)"
| "vets_hash_val (VO_string a s) = ucast (hash_str 14695981039346656037 s mod 256)"
| "vets_hash_val (VO_atom a s) = ucast (hash_str 14695981039346656037 s mod 256)"
| "vets_hash_val (VO_tuple a xs) = ucast (hash_items 1 xs 14695981039346656037 mod 256)"
| "vets_hash_val (VO_pid a p) = ucast (fnv_byte 14695981039346656037 a mod 256)"
| "vets_hash_val (VO_other a v) = ucast (fnv_byte 14695981039346656037 a mod 256)"
| "hash_items i [] h = h"
| "hash_items i (x # xs) h = hash_items (i + 1) xs (h XOR ucast (vets_hash_val x * i))"

fun other_type :: "sw_val \<Rightarrow> nat" where
  "other_type V_nil = 0"
| "other_type (V_float f) = 1"
| "other_type (V_list xs) = 2"
| "other_type (V_fun n e) = 3"
| "other_type (V_map m) = 4"
| "other_type _ = 5"

fun vets_key_eq :: "vobj \<Rightarrow> vobj \<Rightarrow> bool" and keys_eq :: "vobj list \<Rightarrow> vobj list \<Rightarrow> bool" where
  "vets_key_eq (VO_int a i) (VO_int b j) = (i = j)"
| "vets_key_eq (VO_string a s) (VO_string b t) = (s = t)"
| "vets_key_eq (VO_atom a s) (VO_atom b t) = (s = t)"
| "vets_key_eq (VO_tuple a xs) (VO_tuple b ys) = (length xs = length ys \<and> keys_eq xs ys)"
| "vets_key_eq (VO_pid a p) (VO_pid b q) = (p = q)"
| "vets_key_eq (VO_other a v) (VO_other b w) = (other_type v = other_type w \<and> a = b)"
| "vets_key_eq _ _ = False"
| "keys_eq (x # xs) (y # ys) = (vets_key_eq x y \<and> keys_eq xs ys)"
| "keys_eq _ _ = True"

section \<open>Tables\<close>

record vets_table =
  vt_buckets :: "(vobj \<times> vobj) list list"
  vt_active :: bool

record vets =
  vets_tables :: "vets_table list"
  vets_next_id :: int

definition vets_init :: vets where
  "vets_init = \<lparr>vets_tables = replicate VETS_MAX_TABLES \<lparr>vt_buckets = replicate VETS_BUCKETS [], vt_active = False\<rparr>, vets_next_id = 0\<rparr>"

definition bucket_of :: "vobj \<Rightarrow> nat" where
  "bucket_of k = unat (vets_hash_val k)"

text \<open>The loops over a chain: replace the value of the first equal key or put a new entry in front; the first equal key's value; removal.\<close>

fun chain_replace :: "vobj \<Rightarrow> vobj \<Rightarrow> (vobj \<times> vobj) list \<Rightarrow> (vobj \<times> vobj) list option" where
  "chain_replace k v [] = None"
| "chain_replace k v ((k', v') # es) =
     (if vets_key_eq k' k then Some ((k', v) # es) else map_option ((#) (k', v')) (chain_replace k v es))"

definition chain_put :: "vobj \<Rightarrow> vobj \<Rightarrow> (vobj \<times> vobj) list \<Rightarrow> (vobj \<times> vobj) list" where
  "chain_put k v es = (case chain_replace k v es of Some es' \<Rightarrow> es' | None \<Rightarrow> (k, v) # es)"

definition chain_get :: "vobj \<Rightarrow> (vobj \<times> vobj) list \<Rightarrow> vobj option" where
  "chain_get k es = map_option snd (find (\<lambda>(k', v). vets_key_eq k' k) es)"

definition chain_delete :: "vobj \<Rightarrow> (vobj \<times> vobj) list \<Rightarrow> (vobj \<times> vobj) list" where
  "chain_delete k es = remove_first (\<lambda>(k', v). vets_key_eq k' k) es"

definition on_bucket :: "((vobj \<times> vobj) list \<Rightarrow> (vobj \<times> vobj) list) \<Rightarrow> vobj \<Rightarrow> vets_table \<Rightarrow> vets_table" where
  "on_bucket f k t = t\<lparr>vt_buckets := (vt_buckets t)[bucket_of k := f (vt_buckets t ! bucket_of k)]\<rparr>"

definition table_put :: "vobj \<Rightarrow> vobj \<Rightarrow> vets_table \<Rightarrow> vets_table" where
  "table_put k v t = on_bucket (chain_put k v) k t"

definition table_get :: "vobj \<Rightarrow> vets_table \<Rightarrow> vobj option" where
  "table_get k t = chain_get k (vt_buckets t ! bucket_of k)"

definition tbl_delete :: "vobj \<Rightarrow> vets_table \<Rightarrow> vets_table" where
  "tbl_delete k t = on_bucket (chain_delete k) k t"

text \<open>The builtins. \<open>nil_at\<close>, \<open>atom_at\<close> and \<open>int_at\<close> are the addresses of the new values they return.\<close>

definition builtin_ets_new :: "u64 \<Rightarrow> vets \<Rightarrow> vobj \<times> vets" where
  "builtin_ets_new r w =
     (let id = vets_next_id w; w = w\<lparr>vets_next_id := id + 1\<rparr>
      in if id \<ge> int VETS_MAX_TABLES then (VO_other r V_nil, w)
         else (VO_int r (of_int id), w\<lparr>vets_tables := (vets_tables w)[nat id := \<lparr>vt_buckets = replicate VETS_BUCKETS [], vt_active = True\<rparr>]\<rparr>))"

text \<open>The table that an argument names: the integer is cut to 32 bits before the range check.\<close>

definition table_of :: "vobj \<Rightarrow> vets \<Rightarrow> nat option" where
  "table_of k w =
     (case k of
        VO_int a i \<Rightarrow>
          (let id = sint (ucast i :: u32)
           in if id < 0 \<or> id \<ge> int VETS_MAX_TABLES \<or> \<not> vt_active (vets_tables w ! nat id) then None else Some (nat id))
      | _ \<Rightarrow> None)"

definition upd_table :: "nat \<Rightarrow> (vets_table \<Rightarrow> vets_table) \<Rightarrow> vets \<Rightarrow> vets" where
  "upd_table i f w = w\<lparr>vets_tables := (vets_tables w)[i := f (vets_tables w ! i)]\<rparr>"

definition builtin_ets_put :: "u64 \<Rightarrow> vobj list \<Rightarrow> vets \<Rightarrow> vobj \<times> vets" where
  "builtin_ets_put r args w =
     (case args of
        t # k # v # _ \<Rightarrow> (case table_of t w of None \<Rightarrow> (VO_atom r ''error'', w) | Some i \<Rightarrow> (VO_atom r ''ok'', upd_table i (table_put k v) w))
      | _ \<Rightarrow> (VO_atom r ''error'', w))"

definition builtin_ets_get :: "u64 \<Rightarrow> vobj list \<Rightarrow> vets \<Rightarrow> vobj" where
  "builtin_ets_get r args w =
     (case args of
        t # k # _ \<Rightarrow> (case table_of t w of None \<Rightarrow> VO_other r V_nil
                       | Some i \<Rightarrow> (case table_get k (vets_tables w ! i) of None \<Rightarrow> VO_other r V_nil | Some v \<Rightarrow> v))
      | _ \<Rightarrow> VO_other r V_nil)"

definition builtin_ets_delete :: "u64 \<Rightarrow> vobj list \<Rightarrow> vets \<Rightarrow> vobj \<times> vets" where
  "builtin_ets_delete r args w =
     (case args of
        t # k # _ \<Rightarrow> (case table_of t w of None \<Rightarrow> (VO_atom r ''error'', w) | Some i \<Rightarrow> (VO_atom r ''ok'', upd_table i (tbl_delete k) w))
      | _ \<Rightarrow> (VO_atom r ''error'', w))"

section \<open>Tables are stores\<close>

text \<open>Keys without process identifiers: equal ones have the same hash. On all keys equality is an equivalence.\<close>

fun no_pid :: "vobj \<Rightarrow> bool" where
  "no_pid (VO_tuple a xs) = list_all no_pid xs"
| "no_pid (VO_pid a p) = False"
| "no_pid _ = True"

lemma keys_eq_iff: "length xs = length ys \<Longrightarrow> keys_eq xs ys = list_all2 vets_key_eq xs ys"
  by (induction xs ys rule: list_induct2) simp_all

lemma tuple_eq: "vets_key_eq (VO_tuple a xs) (VO_tuple b ys) = list_all2 vets_key_eq xs ys"
  using list_all2_lengthD [of vets_key_eq xs ys] keys_eq_iff [of xs ys] by auto

lemma key_eq_cases:
  assumes "vets_key_eq k l"
  obtains a b i where "k = VO_int a i" "l = VO_int b i" | a b s where "k = VO_string a s" "l = VO_string b s"
    | a b s where "k = VO_atom a s" "l = VO_atom b s" | a b p where "k = VO_pid a p" "l = VO_pid b p"
    | a v w where "k = VO_other a v" "l = VO_other a w" "other_type v = other_type w"
    | a b xs ys where "k = VO_tuple a xs" "l = VO_tuple b ys" "list_all2 vets_key_eq xs ys"
  using assms by (cases k; cases l) (auto simp: tuple_eq simp del: vets_key_eq.simps(4))

lemma key_eq_refl [simp]: "vets_key_eq k k"
proof (induction k)
  case (VO_tuple a xs)
  then show ?case unfolding tuple_eq by (simp add: list_all2_same)
qed simp_all

lemma key_eq_sym: "vets_key_eq k l \<Longrightarrow> vets_key_eq l k"
proof (induction k arbitrary: l)
  case (VO_tuple a xs)
  from VO_tuple.prems obtain b ys where l: "l = VO_tuple b ys" "list_all2 vets_key_eq xs ys" by (auto elim: key_eq_cases)
  then have "list_all2 vets_key_eq ys xs" using VO_tuple.IH by (auto simp: list_all2_conv_all_nth)
  then show ?case using l(1) by (simp only: tuple_eq)
qed (auto elim!: key_eq_cases)

lemma key_eq_trans: "vets_key_eq k l \<Longrightarrow> vets_key_eq l m \<Longrightarrow> vets_key_eq k m"
proof (induction k arbitrary: l m)
  case (VO_tuple a xs)
  from VO_tuple.prems(1) obtain b ys where l: "l = VO_tuple b ys" "list_all2 vets_key_eq xs ys" by (auto elim: key_eq_cases)
  from VO_tuple.prems(2) obtain c zs where m: "m = VO_tuple c zs" "list_all2 vets_key_eq ys zs" unfolding l(1) by (auto elim: key_eq_cases)
  have "list_all2 vets_key_eq xs zs" using l(2) m(2) VO_tuple.IH by (fastforce simp: list_all2_conv_all_nth)
  then show ?case using m(1) by (simp only: tuple_eq)
qed (auto elim!: key_eq_cases)

lemma key_eq_hash: "no_pid k \<Longrightarrow> vets_key_eq k l \<Longrightarrow> vets_hash_val k = vets_hash_val l"
proof (induction k arbitrary: l)
  case (VO_tuple a xs)
  from VO_tuple.prems(2) obtain b ys where l: "l = VO_tuple b ys" "list_all2 vets_key_eq xs ys" by (auto elim: key_eq_cases)
  have "hash_items i xs h = hash_items i ys h" for i h
    using l(2) VO_tuple.IH VO_tuple.prems(1)
  proof (induction xs ys arbitrary: i h rule: list_all2_induct)
    case (Cons x xs y ys)
    have "vets_hash_val x = vets_hash_val y" using Cons by simp
    then show ?case using Cons by simp
  qed simp
  then show ?case by (simp add: l(1))
qed (auto elim!: key_eq_cases)

lemma bucket_less: "bucket_of k < VETS_BUCKETS"
proof -
  have "unat (ucast (x mod 256) :: u32) < 256" for x :: u64
  proof -
    have "unat (x mod 256) < 256" by (simp add: unat_mod)
    moreover have "unat (ucast (x mod 256) :: u32) = unat (x mod 256) mod 2 ^ 32" by (simp add: unsigned_ucast_eq take_bit_eq_mod)
    ultimately show ?thesis by simp
  qed
  then show ?thesis by (cases k) (simp_all add: bucket_of_def const_simps)
qed

text \<open>A table: entries in the bucket of their key, no two with equal keys.\<close>

fun keys_distinct :: "vobj list \<Rightarrow> bool" where
  "keys_distinct [] = True"
| "keys_distinct (k # ks) = (list_all (\<lambda>k'. \<not> vets_key_eq k' k) ks \<and> keys_distinct ks)"

definition vets_inv :: "vets_table \<Rightarrow> bool" where
  "vets_inv t \<longleftrightarrow> length (vt_buckets t) = VETS_BUCKETS
     \<and> (\<forall>b<VETS_BUCKETS. keys_distinct (map fst (vt_buckets t ! b)) \<and> list_all no_pid (map fst (vt_buckets t ! b)))"

definition vets_entries :: "vets_table \<Rightarrow> nat" where
  "vets_entries t = sum_list (map length (vt_buckets t))"

lemma chain_replace_None: "chain_replace k v es = None \<longleftrightarrow> chain_get k es = None"
  by (induction es) (auto simp: chain_get_def)

lemma key_eq_class: "vets_key_eq a k \<Longrightarrow> vets_key_eq a k' = vets_key_eq k k'"
  using key_eq_trans key_eq_sym by blast

lemma chain_put_get:
  "chain_get k' (chain_put k v es) = (if vets_key_eq k k' then Some v else chain_get k' es)"
proof (induction es)
  case (Cons e es)
  obtain a b where e: "e = (a, b)" by fastforce
  have "\<not> vets_key_eq k k'" if "\<not> vets_key_eq a k" "vets_key_eq a k'"
    using that key_eq_class [of k k' a] key_eq_sym by blast
  then show ?case using Cons unfolding e
    by (auto simp: chain_put_def chain_get_def key_eq_class split: option.splits)
qed (simp add: chain_put_def chain_get_def)

lemma chain_get_None: "chain_get k es = None \<longleftrightarrow> list_all (\<lambda>k'. \<not> vets_key_eq k' k) (map fst es)"
  by (induction es) (auto simp: chain_get_def)

lemma chain_delete_get:
  assumes "keys_distinct (map fst es)"
  shows "chain_get k' (chain_delete k es) = (if vets_key_eq k k' then None else chain_get k' es)"
  using assms
proof (induction es)
  case (Cons e es)
  obtain a b where e: "e = (a, b)" by fastforce
  show ?case
  proof (cases "vets_key_eq a k")
    case True
    have "chain_get k' es = None" if kk: "vets_key_eq k k'"
    proof -
      have "vets_key_eq k' a" using True kk key_eq_trans key_eq_sym by blast
      then have "\<not> vets_key_eq l k'" if "\<not> vets_key_eq l a" for l using that key_eq_trans by blast
      then show ?thesis using Cons.prems by (simp add: chain_get_None e list_all_iff)
    qed
    then show ?thesis using True key_eq_class [OF True] by (auto simp: e chain_delete_def chain_get_def)
  next
    case False
    have "\<not> vets_key_eq k k'" if "vets_key_eq a k'" using that False key_eq_class [of k k' a] key_eq_sym by blast
    then show ?thesis using Cons False by (auto simp: e chain_delete_def chain_get_def)
  qed
qed (simp add: chain_delete_def chain_get_def)

lemma chain_replace_keys: "chain_replace k v es = Some es' \<Longrightarrow> map fst es' = map fst es"
  by (induction es arbitrary: es') (auto split: if_splits)

lemma chain_put_keys:
  assumes "no_pid k" "keys_distinct (map fst es)" "list_all no_pid (map fst es)"
  shows "keys_distinct (map fst (chain_put k v es)) \<and> list_all no_pid (map fst (chain_put k v es))"
proof (cases "chain_replace k v es")
  case None
  then have "list_all (\<lambda>k'. \<not> vets_key_eq k' k) (map fst es)" by (simp add: chain_replace_None chain_get_None)
  then show ?thesis using assms None by (simp add: chain_put_def)
next
  case (Some es')
  then show ?thesis using assms chain_replace_keys [OF Some] by (simp add: chain_put_def)
qed

lemma chain_delete_keys:
  assumes "keys_distinct (map fst es)" "list_all no_pid (map fst es)"
  shows "keys_distinct (map fst (chain_delete k es)) \<and> list_all no_pid (map fst (chain_delete k es))"
proof -
  have sub: "set (chain_delete k es) \<subseteq> set es" by (simp add: chain_delete_def set_remove_first_subset)
  have "keys_distinct (map fst (chain_delete k es))" using assms(1)
  proof (induction es)
    case (Cons e es)
    then show ?case
      by (cases e) (auto simp: chain_delete_def list_all_iff dest!: subsetD [OF set_remove_first_subset])
  qed (simp add: chain_delete_def)
  then show ?thesis using assms(2) subsetD [OF sub] by (fastforce simp: list_all_iff)
qed

lemma chain_put_length: "length (chain_put k v es) = (if chain_get k es = None then Suc (length es) else length es)"
proof (cases "chain_replace k v es")
  case (Some es')
  then have "length es' = length es" using chain_replace_keys [OF Some] by (metis length_map)
  then show ?thesis using Some chain_replace_None [of k v es] by (simp add: chain_put_def)
qed (simp add: chain_put_def flip: chain_replace_None [of k v es])

lemma chain_delete_length: "length es = (if chain_get k es = None then length (chain_delete k es) else Suc (length (chain_delete k es)))"
  by (induction es) (auto simp: chain_get_def chain_delete_def)

text \<open>The value tables are stores: the contract is met for keys without process identifiers.\<close>

lemma on_bucket_inv:
  assumes "vets_inv t" "\<And>es. keys_distinct (map fst es) \<Longrightarrow> list_all no_pid (map fst es) \<Longrightarrow>
    keys_distinct (map fst (f es)) \<and> list_all no_pid (map fst (f es))"
  shows "vets_inv (on_bucket f k t)"
  using assms bucket_less [of k] by (simp add: vets_inv_def on_bucket_def nth_list_update)

lemma bucket_on_bucket:
  "vets_inv t \<Longrightarrow> vt_buckets (on_bucket f k t) ! bucket_of k'
     = (if bucket_of k = bucket_of k' then f (vt_buckets t ! bucket_of k') else vt_buckets t ! bucket_of k')"
  using bucket_less [of k] by (auto simp: on_bucket_def vets_inv_def)

lemma entries_on_bucket:
  assumes "vets_inv t"
  shows "vets_entries (on_bucket f k t) + length (vt_buckets t ! bucket_of k)
    = vets_entries t + length (f (vt_buckets t ! bucket_of k))"
  using sum_list_update_add [of "bucket_of k" "vt_buckets t" length] bucket_less [of k] assms
  by (simp add: vets_entries_def on_bucket_def vets_inv_def)

interpretation vt: kv_store vets_inv no_pid vets_key_eq table_put table_get tbl_delete vets_entries
proof
  fix t k v k'
  assume t: "vets_inv t" and k: "no_pid k"
  have same: "bucket_of k = bucket_of k'" if "vets_key_eq k k'" using key_eq_hash [OF k that] by (simp add: bucket_of_def)
  have d: "keys_distinct (map fst (vt_buckets t ! bucket_of l))" for l using t bucket_less [of l] by (simp add: vets_inv_def)
  show "vets_inv (table_put k v t)" unfolding table_put_def by (rule on_bucket_inv [OF t]) (rule chain_put_keys [OF k])
  show "vets_inv (tbl_delete k t)" unfolding tbl_delete_def by (rule on_bucket_inv [OF t]) (rule chain_delete_keys)
  show "table_get k' (table_put k v t) = (if vets_key_eq k k' then Some v else table_get k' t)"
    using same by (auto simp: table_put_def table_get_def bucket_on_bucket [OF t] chain_put_get)
  show "table_get k' (tbl_delete k t) = (if vets_key_eq k k' then None else table_get k' t)"
    using same d [of k'] by (auto simp: tbl_delete_def table_get_def bucket_on_bucket [OF t] chain_delete_get)
  show "vets_entries (table_put k v t) = (if table_get k t = None then Suc (vets_entries t) else vets_entries t)"
    using entries_on_bucket [OF t, of "chain_put k v" k] by (auto simp: table_put_def table_get_def chain_put_length)
  show "vets_entries t = (if table_get k t = None then vets_entries (tbl_delete k t) else Suc (vets_entries (tbl_delete k t)))"
    using entries_on_bucket [OF t, of "chain_delete k" k] chain_delete_length [of "vt_buckets t ! bucket_of k" k]
    by (auto simp: tbl_delete_def table_get_def split: if_splits)
qed

section \<open>Histories\<close>

text \<open>Calls of the language on one table: writes, and removals.\<close>

fun vets_call :: "u64 \<Rightarrow> vobj \<Rightarrow> (vobj, vobj) kv_op \<Rightarrow> vets \<Rightarrow> vets" where
  "vets_call r t (KV_put k v) w = snd (builtin_ets_put r [t, k, v] w)"
| "vets_call r t (KV_del k) w = snd (builtin_ets_delete r [t, k] w)"

lemma vets_call_table:
  assumes "table_of t w = Some i" "i < length (vets_tables w)"
  shows "vets_call r t op w = upd_table i (kv_exec table_put tbl_delete op) w"
  using assms by (cases op) (simp_all add: builtin_ets_put_def builtin_ets_delete_def upd_table_def)

lemma table_of_upd:
  assumes "\<And>tb. vt_active (f tb) = vt_active tb" "i < length (vets_tables w)"
  shows "table_of t (upd_table i f w) = table_of t w"
proof -
  have "vt_active ((vets_tables w)[i := f (vets_tables w ! i)] ! j) = vt_active (vets_tables w ! j)" for j
    using assms by (cases "j = i") simp_all
  then show ?thesis by (simp add: table_of_def upd_table_def Let_def split: vobj.split)
qed

lemma exec_active: "vt_active (kv_exec table_put tbl_delete op tb) = vt_active tb"
  by (cases op) (simp_all add: table_put_def tbl_delete_def on_bucket_def)

lemma vets_calls:
  assumes "table_of t w = Some i" "i < length (vets_tables w)"
  shows "table_of t (fold (vets_call r t) ops w) = Some i
    \<and> vets_tables (fold (vets_call r t) ops w)
        = (vets_tables w)[i := fold (kv_exec table_put tbl_delete) ops (vets_tables w ! i)]"
  using assms
proof (induction ops arbitrary: w)
  case (Cons op ops)
  let ?w = "upd_table i (kv_exec table_put tbl_delete op) w"
  have "table_of t ?w = Some i" "i < length (vets_tables ?w)"
    using Cons.prems table_of_upd [of "kv_exec table_put tbl_delete op", OF exec_active Cons.prems(2), of t]
    by (simp_all add: upd_table_def)
  from Cons.IH [OF this] show ?case
    using Cons.prems vets_call_table [OF Cons.prems] by (simp add: upd_table_def)
qed simp

text \<open>
  The keys that are compared by value, as the comment on the tables says all of them are: integers, strings, atoms and tuples of them.
\<close>

fun by_value :: "vobj \<Rightarrow> bool" where
  "by_value (VO_tuple a xs) = list_all by_value xs"
| "by_value (VO_pid a p) = False"
| "by_value (VO_other a v) = False"
| "by_value _ = True"

text \<open>The value of an object, without its addresses.\<close>

fun vvalue :: "vobj \<Rightarrow> sw_val" where
  "vvalue (VO_int a i) = V_int i"
| "vvalue (VO_string a s) = V_string s"
| "vvalue (VO_atom a s) = V_atom s"
| "vvalue (VO_tuple a xs) = V_tuple (map vvalue xs)"
| "vvalue (VO_pid a p) = V_pid p"
| "vvalue (VO_other a v) = v"

lemma by_value_no_pid: "by_value k \<Longrightarrow> no_pid k"
  by (induction k) (auto simp: list_all_iff)

lemma key_eq_value: "by_value k \<Longrightarrow> by_value l \<Longrightarrow> vets_key_eq k l \<longleftrightarrow> vvalue k = vvalue l"
proof (induction k arbitrary: l)
  case (VO_tuple a xs)
  show ?case
  proof (cases l)
    case (VO_tuple b ys)
    have "list_all2 vets_key_eq xs ys \<longleftrightarrow> map vvalue xs = map vvalue ys"
      using VO_tuple.IH VO_tuple.prems VO_tuple by (auto simp: list_all2_conv_all_nth list_eq_iff_nth_eq list_all_iff)
    then show ?thesis unfolding VO_tuple tuple_eq by simp
  qed (use VO_tuple.prems in auto)
next
  case (VO_int a i)
  then show ?case by (cases l) auto
next
  case (VO_string a s)
  then show ?case by (cases l) auto
next
  case (VO_atom a s)
  then show ?case by (cases l) auto
qed auto

lemma kv_last_value:
  "by_value k \<Longrightarrow> list_all (\<lambda>op. by_value (kv_key op)) ops \<Longrightarrow>
     kv_last vets_key_eq k ops x = kv_last (\<lambda>k l. vvalue k = vvalue l) k ops x"
proof (induction ops arbitrary: x)
  case (Cons op ops)
  then show ?case by (cases op) (simp_all add: key_eq_value)
qed simp

text \<open>
  C27. A value table returns the last value written: after any calls of put and delete on a table that satisfies its invariant,
  a get finds the value of the last put under a key of the same value, wherever in memory the two keys are, unless a delete of such a key came after it; the
  invariant holds again and other tables are not changed. All keys are integers, strings, atoms or tuples of
  these: the code compares the other kinds by address (\<open>vets_list_key_lost\<close>), pids too by their hash (\<open>vets_pid_key_lost\<close>).
\<close>

theorem vets_last_write_wins:
  fixes r :: u64 and w :: vets and ops :: "(vobj, vobj) kv_op list" and t :: vobj
  defines "w' \<equiv> fold (vets_call r t) ops w"
  assumes "table_of t w = Some i" "i < length (vets_tables w)" "vets_inv (vets_tables w ! i)"
    and "list_all (\<lambda>op. by_value (kv_key op)) ops" "by_value k"
  shows "builtin_ets_get r' [t, k] w' =
      (case kv_last (\<lambda>k l. vvalue k = vvalue l) k ops (table_get k (vets_tables w ! i)) of None \<Rightarrow> VO_other r' V_nil | Some v \<Rightarrow> v)
    \<and> vets_inv (vets_tables w' ! i) \<and> (\<forall>j. j \<noteq> i \<longrightarrow> vets_tables w' ! j = vets_tables w ! j)"
proof -
  note c = vets_calls [OF assms(2,3), of r ops, folded w'_def]
  have "\<forall>op\<in>set ops. no_pid (kv_key op)" using assms(5) by (simp add: list_all_iff by_value_no_pid)
  note h = vt.kv_history [OF assms(4) this] kv_last_value [OF assms(6,5)]
  have "vets_tables w' ! i = fold (kv_exec table_put tbl_delete) ops (vets_tables w ! i)" using c assms(3) by simp
  then show ?thesis using c h by_value_no_pid [OF assms(6)] by (simp add: builtin_ets_get_def)
qed

definition demo_table :: vets_table where
  "demo_table = \<lparr>vt_buckets = replicate VETS_BUCKETS [], vt_active = True\<rparr>"

definition demo_vets :: vets where
  "demo_vets = \<lparr>vets_tables = [demo_table], vets_next_id = 1\<rparr>"

theorem vets_last_write_wins_witness:
  "builtin_ets_get 9 [VO_int 8 0, VO_tuple 7 [VO_atom 6 ''a'', VO_int 5 1]]
     (fold (vets_call 9 (VO_int 8 0))
        [KV_put (VO_tuple 1 [VO_atom 2 ''a'', VO_int 3 1]) (VO_string 4 ''x''), KV_del (VO_int 5 2)] demo_vets) = VO_string 4 ''x''"
proof -
  have "vets_inv demo_table" by (simp add: vets_inv_def demo_table_def nth_replicate)
  moreover have "table_of (VO_int 8 0) demo_vets = Some 0" by (simp add: table_of_def demo_vets_def demo_table_def const_simps)
  ultimately show ?thesis
    using vets_last_write_wins [of "VO_int 8 0" demo_vets 0
        "[KV_put (VO_tuple 1 [VO_atom 2 ''a'', VO_int 3 1]) (VO_string 4 ''x''), KV_del (VO_int 5 2)]"
        "VO_tuple 7 [VO_atom 6 ''a'', VO_int 5 1]" 9 9]
    by (simp add: demo_vets_def)
qed

text \<open>
  A process identifier as key is compared by process but hashed by the address of the value: what was stored under it is not
  found again through another value for the same process.
\<close>

lemma vets_pid_key_lost:
  assumes "vets_inv t" "table_get (VO_pid b p) t = None" "bucket_of (VO_pid a p) \<noteq> bucket_of (VO_pid b p)"
  shows "vets_key_eq (VO_pid a p) (VO_pid b p) \<and> table_get (VO_pid b p) (table_put (VO_pid a p) v t) = None"
  using assms by (simp add: table_put_def table_get_def bucket_on_bucket)

lemma vets_pid_buckets_differ: "bucket_of (VO_pid 16 p) \<noteq> bucket_of (VO_pid 32 p)"
  by (simp add: bucket_of_def fnv_byte_def)

text \<open>
  Floats, lists, maps and nil are compared and hashed by address: a value stored under a list is not found through an equal list elsewhere in memory.
\<close>

theorem vets_list_key_lost:
  "builtin_ets_get 9 [VO_int 8 0, VO_other 32 (V_list [V_int 1])]
     (snd (builtin_ets_put 9 [VO_int 8 0, VO_other 16 (V_list [V_int 1]), VO_string 4 ''x''] demo_vets)) = VO_other 9 V_nil
   \<and> vvalue (VO_other 16 (V_list [V_int 1])) = vvalue (VO_other 32 (V_list [V_int 1]))"
proof -
  have t: "table_of (VO_int 8 0) demo_vets = Some 0" by (simp add: table_of_def demo_vets_def demo_table_def const_simps)
  have i: "vets_inv demo_table" by (simp add: vets_inv_def demo_table_def nth_replicate)
  have "table_get (VO_other 32 (V_list [V_int 1])) demo_table = None"
    using bucket_less [of "VO_other 32 (V_list [V_int 1])"] by (simp add: table_get_def chain_get_def demo_table_def)
  then have "table_get (VO_other 32 (V_list [V_int 1])) (table_put (VO_other 16 (V_list [V_int 1])) (VO_string 4 ''x'') demo_table) = None"
    using i by (simp add: vt.get_put)
  moreover have "vets_tables demo_vets = [demo_table]" by (simp add: demo_vets_def)
  moreover have "table_of (VO_int 8 0) (upd_table 0 (table_put k v) demo_vets) = Some 0" for k v
    using t by (subst table_of_upd) (simp_all add: table_put_def on_bucket_def demo_vets_def)
  ultimately show ?thesis using t by (simp add: builtin_ets_get_def builtin_ets_put_def upd_table_def)
qed

end
