(* ===== verification/Breaker.thy ===== *)
theory Breaker
  imports Lang_Value Bytes
begin

text \<open>
  Circuit breakers, \<^verbatim>\<open>breaker_new\<close>, \<^verbatim>\<open>breaker_call\<close> and \<^verbatim>\<open>breaker_state\<close> of \<^verbatim>\<open>src/src/swarmrt_builtins_studio.h\<close>. A call takes the lock twice,
  before and after it runs the function of the caller, so calls interleave at these two points. The clock is an argument.
\<close>

definition BREAKER_MAX :: nat where [const_simps]: "BREAKER_MAX = 32"

datatype breaker_state = BREAKER_CLOSED | BREAKER_OPEN | BREAKER_HALF_OPEN

record breaker =
  br_name :: string
  br_state :: breaker_state
  failure_count :: int
  max_failures :: int
  reset_timeout_ms :: u64
  opened_at :: u64
  br_active :: bool

definition text_arg :: "sw_val \<Rightarrow> string option" where
  "text_arg v = (case v of V_string s \<Rightarrow> Some s | V_atom s \<Rightarrow> Some s | _ \<Rightarrow> None)"

text \<open>The options; every key is read as a text, and \<^term>\<open>None\<close> is the access through a key that is none.\<close>

fun breaker_opts :: "(sw_val \<times> sw_val) list \<Rightarrow> int \<times> u64 \<Rightarrow> (int \<times> u64) option" where
  "breaker_opts [] acc = Some acc"
| "breaker_opts ((k, v) # es) (m, r) =
     (case text_arg k of
        None \<Rightarrow> None
      | Some s \<Rightarrow>
          breaker_opts es
            (case v of
               V_int i \<Rightarrow> if s = ''max_failures'' then (sint (ucast i :: u32), r) else if s = ''reset_timeout_ms'' then (m, i) else (m, r)
             | _ \<Rightarrow> (m, r)))"

definition find_breaker :: "string \<Rightarrow> breaker list \<Rightarrow> nat option" where
  "find_breaker name bs = find_index (\<lambda>b. br_active b \<and> br_name b = name) bs"

definition breaker_slot :: "string \<Rightarrow> breaker list \<Rightarrow> nat option" where
  "breaker_slot name bs = (case find_breaker name bs of Some i \<Rightarrow> Some i | None \<Rightarrow> find_index (\<lambda>b. \<not> br_active b) bs)"

definition breaker_init :: "string \<Rightarrow> int \<Rightarrow> u64 \<Rightarrow> breaker" where
  "breaker_init name m r = \<lparr>br_name = strncpy name 63, br_state = BREAKER_CLOSED, failure_count = 0, max_failures = m,
     reset_timeout_ms = r, opened_at = 0, br_active = True\<rparr>"

definition builtin_breaker_new :: "sw_val list \<Rightarrow> breaker list \<Rightarrow> (sw_val \<times> breaker list) option" where
  "builtin_breaker_new args bs =
     (case args of
        [] \<Rightarrow> Some (V_atom ''error'', bs)
      | a # rest \<Rightarrow>
          (case text_arg a of
             None \<Rightarrow> Some (V_atom ''error'', bs)
           | Some name \<Rightarrow>
               (case (case rest of V_map es # _ \<Rightarrow> breaker_opts es (5, 30000) | _ \<Rightarrow> Some (5, 30000)) of
                  None \<Rightarrow> None
                | Some (m, r) \<Rightarrow>
                    (case breaker_slot name bs of
                       None \<Rightarrow> Some (V_atom ''error'', bs)
                     | Some i \<Rightarrow> Some (V_atom ''ok'', bs[i := breaker_init name m r])))))"

fun breaker_is_error :: "sw_val \<Rightarrow> bool" where
  "breaker_is_error V_nil = True"
| "breaker_is_error (V_atom s) = (s = ''error'')"
| "breaker_is_error (V_tuple (V_atom s # xs)) = (s = ''error'')"
| "breaker_is_error _ = False"

text \<open>The first locked section: unknown, rejected, or the state in which the function is run.\<close>

datatype breaker_entry = Br_unknown | Br_rejected | Br_run breaker_state

definition due :: "u64 \<Rightarrow> breaker \<Rightarrow> bool" where
  "due now b \<longleftrightarrow> now - opened_at b \<ge> reset_timeout_ms b"

definition enter_one :: "u64 \<Rightarrow> breaker \<Rightarrow> breaker_entry \<times> breaker" where
  "enter_one now b =
     (if br_state b = BREAKER_OPEN then
        (if due now b then (Br_run BREAKER_HALF_OPEN, b\<lparr>br_state := BREAKER_HALF_OPEN\<rparr>) else (Br_rejected, b))
      else (Br_run (br_state b), b))"

definition breaker_enter :: "string \<Rightarrow> u64 \<Rightarrow> breaker list \<Rightarrow> breaker_entry \<times> breaker list" where
  "breaker_enter name now bs =
     (case find_breaker name bs of
        None \<Rightarrow> (Br_unknown, bs)
      | Some i \<Rightarrow> (let (r, b) = enter_one now (bs ! i) in (r, bs[i := b])))"

text \<open>The second locked section, with the state at entry and the result of the function.\<close>

definition leave_one :: "breaker_state \<Rightarrow> sw_val \<Rightarrow> u64 \<Rightarrow> breaker \<Rightarrow> breaker" where
  "leave_one prev result now b =
     (if breaker_is_error result then
        (let b = b\<lparr>failure_count := failure_count b + 1\<rparr>
         in if prev = BREAKER_HALF_OPEN \<or> failure_count b \<ge> max_failures b
            then b\<lparr>br_state := BREAKER_OPEN, opened_at := now\<rparr> else b)
      else if prev = BREAKER_HALF_OPEN then b\<lparr>br_state := BREAKER_CLOSED, failure_count := 0\<rparr>
      else if br_state b = BREAKER_CLOSED then b\<lparr>failure_count := 0\<rparr>
      else b)"

definition breaker_leave :: "string \<Rightarrow> breaker_state \<Rightarrow> sw_val \<Rightarrow> u64 \<Rightarrow> breaker list \<Rightarrow> breaker list" where
  "breaker_leave name prev result now bs =
     (case find_breaker name bs of None \<Rightarrow> bs | Some i \<Rightarrow> bs[i := leave_one prev result now (bs ! i)])"

text \<open>
  A whole call. \<open>run\<close> is what happens between the two sections: the function's result and what it and other processes did to
  the breakers. The flag says whether the function was run.
\<close>

definition builtin_breaker_call ::
  "(breaker list \<Rightarrow> sw_val \<times> breaker list) \<Rightarrow> u64 \<Rightarrow> u64 \<Rightarrow> sw_val list \<Rightarrow> breaker list \<Rightarrow> bool \<times> sw_val \<times> breaker list" where
  "builtin_breaker_call run now now' args bs =
     (case args of
        a # f # _ \<Rightarrow>
          (case text_arg a of
             None \<Rightarrow> (False, V_atom ''error'', bs)
           | Some name \<Rightarrow>
               (case breaker_enter name now bs of
                  (Br_unknown, bs) \<Rightarrow> (False, V_atom ''error'', bs)
                | (Br_rejected, bs) \<Rightarrow> (False, V_tuple [V_atom ''error'', V_atom ''circuit_open''], bs)
                | (Br_run prev, bs) \<Rightarrow> (let (result, bs) = run bs in (True, result, breaker_leave name prev result now' bs))))
      | _ \<Rightarrow> (False, V_atom ''error'', bs))"

definition state_atom :: "breaker_state \<Rightarrow> string" where
  "state_atom s = (case s of BREAKER_CLOSED \<Rightarrow> ''closed'' | BREAKER_OPEN \<Rightarrow> ''open'' | BREAKER_HALF_OPEN \<Rightarrow> ''half_open'')"

definition builtin_breaker_state :: "u64 \<Rightarrow> sw_val list \<Rightarrow> breaker list \<Rightarrow> sw_val \<times> breaker list" where
  "builtin_breaker_state now args bs =
     (case args of
        [] \<Rightarrow> (V_atom ''error'', bs)
      | a # _ \<Rightarrow>
          (case text_arg a of
             None \<Rightarrow> (V_atom ''error'', bs)
           | Some name \<Rightarrow>
               (case find_breaker name bs of
                  None \<Rightarrow> (V_atom ''error'', bs)
                | Some i \<Rightarrow>
                    (let b = bs ! i;
                         b = (if br_state b = BREAKER_OPEN \<and> due now b then b\<lparr>br_state := BREAKER_HALF_OPEN\<rparr> else b)
                     in (V_atom (state_atom (br_state b)), bs[i := b])))))"

section \<open>Interleavings\<close>

text \<open>
  One breaker used by any number of processes at once: calls that entered and have not left yet, with the state they entered in,
  and the queries.
\<close>

record br_sys =
  bs_breaker :: breaker
  bs_running :: "breaker_state list"

inductive br_step :: "br_sys \<Rightarrow> br_sys \<Rightarrow> bool" where
  br_enter: "enter_one now (bs_breaker s) = (Br_run prev, b) \<Longrightarrow> br_step s (s\<lparr>bs_breaker := b, bs_running := prev # bs_running s\<rparr>)"
| br_reject: "enter_one now (bs_breaker s) = (Br_rejected, b) \<Longrightarrow> br_step s (s\<lparr>bs_breaker := b\<rparr>)"
| br_leave: "prev \<in> set (bs_running s) \<Longrightarrow>
    br_step s (s\<lparr>bs_breaker := leave_one prev result now (bs_breaker s), bs_running := remove1 prev (bs_running s)\<rparr>)"
| br_query: "br_state (bs_breaker s) = BREAKER_OPEN \<Longrightarrow> due now (bs_breaker s) \<Longrightarrow>
    br_step s (s\<lparr>bs_breaker := (bs_breaker s)\<lparr>br_state := BREAKER_HALF_OPEN\<rparr>\<rparr>)"

text \<open>
  While the breaker is closed fewer calls in a row have failed than the limit; while it is open or half open and nothing runs
  from a half-open start, it has failed as often.
\<close>

definition br_inv :: "int \<Rightarrow> br_sys \<Rightarrow> bool" where
  "br_inv m s \<longleftrightarrow> max_failures (bs_breaker s) = m \<and> 0 \<le> failure_count (bs_breaker s)
     \<and> (br_state (bs_breaker s) = BREAKER_CLOSED \<longrightarrow> failure_count (bs_breaker s) < m)
     \<and> BREAKER_OPEN \<notin> set (bs_running s)"

lemma br_step_inv: "br_step s s' \<Longrightarrow> 0 < m \<Longrightarrow> br_inv m s \<Longrightarrow> br_inv m s'"
proof (induction rule: br_step.induct)
  case (br_enter now s prev b)
  then show ?case by (auto simp: br_inv_def enter_one_def split: if_splits)
next
  case (br_reject now s b)
  then show ?case by (auto simp: br_inv_def enter_one_def split: if_splits)
next
  case (br_leave prev s result now)
  moreover have "BREAKER_OPEN \<notin> set (remove1 prev (bs_running s))" using br_leave.prems(2) by (auto simp: br_inv_def dest: notin_set_remove1)
  ultimately show ?case by (auto simp: br_inv_def leave_one_def Let_def)
next
  case (br_query s now)
  then show ?case by (simp add: br_inv_def)
qed

section \<open>Tripping\<close>

text \<open>Calls one after the other of a function that does not use breakers: start, result and end of each.\<close>

fun breaker_calls :: "string \<Rightarrow> (u64 \<times> sw_val \<times> u64) list \<Rightarrow> breaker list \<Rightarrow> (bool \<times> sw_val) list \<times> breaker list" where
  "breaker_calls name [] bs = ([], bs)"
| "breaker_calls name ((now, v, now') # cs) bs =
     (let (ran, r, bs) = builtin_breaker_call (\<lambda>bs. (v, bs)) now now' [V_atom name, V_nil] bs;
          (rs, bs) = breaker_calls name cs bs
      in ((ran, r) # rs, bs))"

definition open_error :: sw_val where
  "open_error = V_tuple [V_atom ''error'', V_atom ''circuit_open'']"

lemma find_breaker_update:
  assumes "find_breaker name bs = Some i" "br_name b = br_name (bs ! i)" "br_active b = br_active (bs ! i)"
  shows "find_breaker name (bs[i := b]) = Some i"
  using assms find_index_Some [OF assms(1) [unfolded find_breaker_def]] unfolding find_breaker_def
  by (subst find_index_update) simp_all

lemma one_call:
  assumes "find_breaker name bs = Some i"
  shows "builtin_breaker_call (\<lambda>bs. (v, bs)) now now' [V_atom name, V_nil] bs =
    (case enter_one now (bs ! i) of
       (Br_run prev, b) \<Rightarrow> (True, v, bs[i := leave_one prev v now' b])
     | (_, b) \<Rightarrow> (False, open_error, bs[i := b]))"
proof -
  have lt: "i < length bs" using find_index_Some [OF assms [unfolded find_breaker_def]] by simp
  obtain r b where e: "enter_one now (bs ! i) = (r, b)" by fastforce
  then have nb: "br_name b = br_name (bs ! i)" "br_active b = br_active (bs ! i)" "r \<noteq> Br_unknown"
    by (auto simp: enter_one_def split: if_splits)
  have "find_breaker name (bs[i := b]) = Some i" by (rule find_breaker_update [OF assms nb(1,2)])
  then show ?thesis using assms e nb(3) lt
    by (cases r) (simp_all add: builtin_breaker_call_def text_arg_def breaker_enter_def breaker_leave_def open_error_def)
qed

lemma breaker_calls_append:
  "breaker_calls name (xs @ ys) bs =
     (let (r, bs) = breaker_calls name xs bs; (r', bs) = breaker_calls name ys bs in (r @ r', bs))"
  by (induction xs arbitrary: bs) (auto simp: Let_def split: prod.splits)

text \<open>A breaker in the table, by name.\<close>

definition breaker_at :: "string \<Rightarrow> breaker list \<Rightarrow> breaker \<Rightarrow> bool" where
  "breaker_at name bs b \<longleftrightarrow> (\<exists>i. find_breaker name bs = Some i \<and> bs ! i = b)"

lemma calls_Cons:
  assumes at: "breaker_at name bs b" and e: "enter_one now b = (r, b')" and r: "r \<noteq> Br_unknown"
  shows "\<exists>bs'. breaker_at name bs' (case r of Br_run prev \<Rightarrow> leave_one prev v now' b' | _ \<Rightarrow> b')
    \<and> breaker_calls name ((now, v, now') # cs) bs =
        (let (rs, bs) = breaker_calls name cs bs' in ((case r of Br_run _ \<Rightarrow> (True, v) | _ \<Rightarrow> (False, open_error)) # rs, bs))"
proof -
  from at obtain i where i: "find_breaker name bs = Some i" "bs ! i = b" by (auto simp: breaker_at_def)
  have lt: "i < length bs" using find_index_Some [OF i(1) [unfolded find_breaker_def]] by simp
  have nb: "br_name b' = br_name b" "br_active b' = br_active b" using e by (auto simp: enter_one_def split: if_splits)
  have lv: "br_name (leave_one p v now' b') = br_name b" "br_active (leave_one p v now' b') = br_active b" for p
    using nb by (simp_all add: leave_one_def Let_def)
  let ?b = "case r of Br_run prev \<Rightarrow> leave_one prev v now' b' | _ \<Rightarrow> b'"
  have "find_breaker name (bs[i := ?b]) = Some i"
    using nb lv i by (intro find_breaker_update) (simp_all split: breaker_entry.split)
  then have "breaker_at name (bs[i := ?b]) ?b" using lt by (auto simp: breaker_at_def)
  moreover have "builtin_breaker_call (\<lambda>bs. (v, bs)) now now' [V_atom name, V_nil] bs
      = (case r of Br_run _ \<Rightarrow> (True, v, bs[i := ?b]) | _ \<Rightarrow> (False, open_error, bs[i := ?b]))"
    using one_call [OF i(1), of v now now'] i(2) e r by (simp split: breaker_entry.split)
  ultimately show ?thesis by (intro exI [of _ "bs[i := ?b]"]) (cases r; simp split: prod.split)
qed

lemma failing_calls:
  assumes "breaker_at name bs b" "br_state b = BREAKER_CLOSED" "fs \<noteq> []" "failure_count b + int (length fs) = max_failures b"
    and "list_all (\<lambda>(_, v, _). breaker_is_error v) fs"
  shows "\<exists>bs'. breaker_calls name fs bs = (map (\<lambda>(_, v, _). (True, v)) fs, bs')
    \<and> breaker_at name bs' (b\<lparr>br_state := BREAKER_OPEN, failure_count := max_failures b, opened_at := snd (snd (last fs))\<rparr>)"
  using assms
proof (induction fs arbitrary: bs b)
  case (Cons f fs)
  obtain now v now' where f: "f = (now, v, now')" by (cases f) auto
  have e: "enter_one now b = (Br_run BREAKER_CLOSED, b)" using Cons.prems(2) by (simp add: enter_one_def)
  have err: "breaker_is_error v" using Cons.prems(5) by (simp add: f)
  obtain bs' where bs': "breaker_at name bs' (leave_one BREAKER_CLOSED v now' b)"
    "breaker_calls name (f # fs) bs = (let (rs, bs) = breaker_calls name fs bs' in ((True, v) # rs, bs))"
    using calls_Cons [OF Cons.prems(1) e, of v now' fs] by (auto simp: f)
  show ?case
  proof (cases "fs = []")
    case True
    then have "leave_one BREAKER_CLOSED v now' b = b\<lparr>br_state := BREAKER_OPEN, failure_count := max_failures b, opened_at := now'\<rparr>"
      using err Cons.prems(4) by (simp add: leave_one_def Let_def)
    then show ?thesis using bs' True by (simp add: f)
  next
    case False
    then have l: "leave_one BREAKER_CLOSED v now' b = b\<lparr>failure_count := failure_count b + 1\<rparr>"
      using err Cons.prems(4) by (cases fs) (simp_all add: leave_one_def Let_def)
    have "\<exists>bs''. breaker_calls name fs bs' = (map (\<lambda>(_, v, _). (True, v)) fs, bs'')
        \<and> breaker_at name bs'' ((b\<lparr>failure_count := failure_count b + 1\<rparr>)\<lparr>br_state := BREAKER_OPEN,
            failure_count := max_failures (b\<lparr>failure_count := failure_count b + 1\<rparr>), opened_at := snd (snd (last fs))\<rparr>)"
      using Cons.prems False bs'(1) l by (intro Cons.IH) simp_all
    then show ?thesis using bs'(2) False by (auto simp: f)
  qed
qed simp

lemma rejected_calls:
  assumes "breaker_at name bs b" "br_state b = BREAKER_OPEN" "list_all (\<lambda>(now, _, _). \<not> due now b) gs"
  shows "\<exists>bs'. breaker_calls name gs bs = (map (\<lambda>_. (False, open_error)) gs, bs') \<and> breaker_at name bs' b"
  using assms
proof (induction gs arbitrary: bs)
  case (Cons g gs)
  obtain now v now' where g: "g = (now, v, now')" by (cases g) auto
  have "enter_one now b = (Br_rejected, b)" using Cons.prems(2,3) by (simp add: enter_one_def g)
  from calls_Cons [OF Cons.prems(1) this, of v now' gs] obtain bs' where
    bs': "breaker_at name bs' b" "breaker_calls name (g # gs) bs = (let (rs, bs) = breaker_calls name gs bs' in ((False, open_error) # rs, bs))"
    by (auto simp: g)
  from Cons.IH [OF bs'(1) Cons.prems(2)] Cons.prems(3) bs'(2) show ?case by auto
qed simp

text \<open>
  C37. A closed breaker whose calls all fail runs the function exactly as often as its limit says; every later call that comes
  before the time-out is rejected without running it; and the first call after the time-out is run as a trial, which closes
  the breaker when it succeeds and opens it again when it fails.
\<close>

theorem breaker_trips:
  assumes at: "breaker_at name bs b" "br_state b = BREAKER_CLOSED" "failure_count b = 0"
    and fs: "fs \<noteq> []" "int (length fs) = max_failures b" "list_all (\<lambda>(_, v, _). breaker_is_error v) fs"
    and gs: "list_all (\<lambda>(now, _, _). now - snd (snd (last fs)) < reset_timeout_ms b) gs"
    and trial: "now - snd (snd (last fs)) \<ge> reset_timeout_ms b"
  shows "\<exists>bs' b'. breaker_calls name (fs @ gs @ [(now, v, now')]) bs
      = (map (\<lambda>(_, v, _). (True, v)) fs @ map (\<lambda>_. (False, open_error)) gs @ [(True, v)], bs')
    \<and> breaker_at name bs' b' \<and> br_state b' = (if breaker_is_error v then BREAKER_OPEN else BREAKER_CLOSED)"
proof -
  let ?o = "b\<lparr>br_state := BREAKER_OPEN, failure_count := max_failures b, opened_at := snd (snd (last fs))\<rparr>"
  obtain bs1 where 1: "breaker_calls name fs bs = (map (\<lambda>(_, v, _). (True, v)) fs, bs1)" "breaker_at name bs1 ?o"
    using failing_calls [OF at(1,2) fs(1) _ fs(3)] at(3) fs(2) by auto
  have "list_all (\<lambda>(now, _, _). \<not> due now ?o) gs" using gs by (auto simp: list_all_iff due_def not_le)
  from rejected_calls [OF 1(2) _ this] obtain bs2 where
    2: "breaker_calls name gs bs1 = (map (\<lambda>_. (False, open_error)) gs, bs2)" "breaker_at name bs2 ?o" by auto
  have "enter_one now ?o = (Br_run BREAKER_HALF_OPEN, ?o\<lparr>br_state := BREAKER_HALF_OPEN\<rparr>)" using trial by (simp add: enter_one_def due_def)
  from calls_Cons [OF 2(2) this, of v now' "[]"] obtain bs3 where
    3: "breaker_at name bs3 (leave_one BREAKER_HALF_OPEN v now' (?o\<lparr>br_state := BREAKER_HALF_OPEN\<rparr>))"
      "breaker_calls name [(now, v, now')] bs2 = ([(True, v)], bs3)" by auto
  moreover have "br_state (leave_one BREAKER_HALF_OPEN v now' (?o\<lparr>br_state := BREAKER_HALF_OPEN\<rparr>))
      = (if breaker_is_error v then BREAKER_OPEN else BREAKER_CLOSED)" by (simp add: leave_one_def Let_def)
  ultimately show ?thesis using 1(1) 2(1) by (auto simp: breaker_calls_append)
qed

theorem breaker_trips_witness:
  "\<exists>bs' b'. breaker_calls ''api'' [(0, V_nil, 10), (20, V_atom ''error'', 30), (40, V_int 1, 41), (1029, V_int 1, 1029), (1030, V_int 7, 1031)]
        [breaker_init ''api'' 2 1000]
      = ([(True, V_nil), (True, V_atom ''error''), (False, open_error), (False, open_error), (True, V_int 7)], bs')
    \<and> breaker_at ''api'' bs' b' \<and> br_state b' = BREAKER_CLOSED"
proof -
  let ?b = "breaker_init ''api'' 2 1000"
  have "breaker_at ''api'' [?b] ?b" by (simp add: breaker_at_def find_breaker_def breaker_init_def)
  from breaker_trips [OF this, of "[(0, V_nil, 10), (20, V_atom ''error'', 30)]" "[(40, V_int 1, 41), (1029, V_int 1, 1029)]" 1030 "V_int 7" 1031]
  show ?thesis by (simp add: breaker_init_def)
qed

text \<open>A name of more than 63 characters is cut when it is stored but not when it is looked up: the breaker is never found.\<close>

lemma breaker_long_name_lost:
  assumes "63 < length name" "builtin_breaker_new [V_string name] bs = Some (V_atom ''ok'', bs')" "list_all (\<lambda>b. \<not> br_active b) bs"
  shows "find_breaker name bs' = None"
proof -
  have "br_name (breaker_init name 5 30000) \<noteq> name" using assms(1)
    by (auto simp: breaker_init_def strncpy_def dest: arg_cong [of _ _ length])
  moreover obtain i where "bs' = bs[i := breaker_init name 5 30000]"
    using assms(2) by (auto simp: builtin_breaker_new_def text_arg_def split: option.splits)
  ultimately show ?thesis using assms(3)
    by (auto simp: find_breaker_def find_index_None list_all_iff dest!: subsetD [OF set_update_subset_insert])
qed

end
