(* ===== verification/Text_Builtins.thy ===== *)
theory Text_Builtins
  imports Json
begin

text \<open>
  Builtins of the compiled language on texts, lists and maps, \<^verbatim>\<open>src/src/swarmrt_builtins_studio.h\<close>: searching, replacing, splitting and
  trimming, JSON text, HTML text, and the parameters of a URL. Arguments are a list of values. Where the code can read or write
  outside of a buffer, or adds integers beyond their range, the result is an option and \<^term>\<open>None\<close> is that fault.
\<close>

section \<open>Types and conversion\<close>

definition builtin_typeof :: "sw_val list \<Rightarrow> sw_val" where
  "builtin_typeof args =
     V_string (case args of
        [] \<Rightarrow> ''null''
      | v # _ \<Rightarrow> (case v of V_nil \<Rightarrow> ''nil'' | V_int _ \<Rightarrow> ''int'' | V_float _ \<Rightarrow> ''float'' | V_string _ \<Rightarrow> ''string'' | V_atom _ \<Rightarrow> ''atom''
                   | V_tuple _ \<Rightarrow> ''tuple'' | V_list _ \<Rightarrow> ''list'' | V_pid _ \<Rightarrow> ''pid'' | V_map _ \<Rightarrow> ''map'' | _ \<Rightarrow> ''unknown''))"

definition studio_to_string :: "(double \<Rightarrow> string) \<Rightarrow> sw_val list \<Rightarrow> sw_val" where
  "studio_to_string ff args =
     V_string (case args of
        [] \<Rightarrow> []
      | v # _ \<Rightarrow> (case v of V_int i \<Rightarrow> show_int i | V_float x \<Rightarrow> ff x | V_string s \<Rightarrow> s | V_atom s \<Rightarrow> s | V_nil \<Rightarrow> ''nil''
                   | V_pid _ \<Rightarrow> ''<val:5>'' | V_tuple _ \<Rightarrow> ''<val:6>'' | V_list _ \<Rightarrow> ''<val:7>'' | V_fun _ _ \<Rightarrow> ''<val:8>'' | V_map _ \<Rightarrow> ''<val:9>''))"

definition atom_of :: "bool \<Rightarrow> sw_val" where
  "atom_of b = V_atom (if b then ''true'' else ''false'')"

section \<open>Texts\<close>

definition builtin_string_contains :: "sw_val list \<Rightarrow> sw_val" where
  "builtin_string_contains args = (case args of V_string s # V_string t # _ \<Rightarrow> atom_of (strstr s t \<noteq> None) | _ \<Rightarrow> V_atom ''false'')"

text \<open>The loop of \<^verbatim>\<open>string_replace\<close> with its buffer of \<open>cap\<close> bytes: a piece that does not fit is left out.\<close>

lemma strstr_length: "strstr s t = Some r \<Longrightarrow> length r \<le> length s"
  using strstr_Some [of s t r] by auto

function replace_loop :: "nat \<Rightarrow> string \<Rightarrow> string \<Rightarrow> string \<Rightarrow> string \<Rightarrow> string" where
  "replace_loop cap old rep p buf =
     (if p = [] \<or> old = [] then buf
      else case strstr p old of
             None \<Rightarrow> if length buf + length p < cap - 1 then buf @ p else buf
           | Some f \<Rightarrow>
               (let piece = take (length p - length f) p
                in replace_loop cap old rep (drop (length old) f)
                     (if length buf + length piece + length rep < cap - 1 then buf @ piece @ rep else buf)))"
  by pat_completeness auto
termination
  by (relation "measure (\<lambda>(cap, old, rep, p, buf). length p)") (auto dest!: strstr_length simp: length_greater_0_conv [symmetric] simp del: length_greater_0_conv)

declare replace_loop.simps [simp del]

definition replace_cap :: "string \<Rightarrow> string \<Rightarrow> nat" where
  "replace_cap src rep = (let cap = length src * 2 + length rep + 1 in if cap < 4096 then 4096 else cap)"

definition builtin_string_replace :: "sw_val list \<Rightarrow> sw_val" where
  "builtin_string_replace args =
     (case args of
        V_string src # V_string old # V_string rep # _ \<Rightarrow>
          (if old = [] then V_string src else V_string (replace_loop (replace_cap src rep) old rep src []))
      | a # _ \<Rightarrow> a
      | [] \<Rightarrow> V_string [])"

text \<open>The arguments of \<^verbatim>\<open>string_sub\<close> are cut to 32 bits; the sum of start and length is a signed 32-bit sum.\<close>

definition int_arg :: "int64 \<Rightarrow> int" where
  "int_arg i = sint (ucast i :: u32)"

definition builtin_string_sub :: "sw_val list \<Rightarrow> sw_val option" where
  "builtin_string_sub args =
     (case args of
        V_string s # V_int b # V_int l # _ \<Rightarrow>
          (let start = (if int_arg b < 0 then 0 else int_arg b); len = int_arg l
           in if start \<ge> int (length s) then Some (V_string [])
              else if start + len \<ge> 2 ^ 31 \<or> start + len < - (2 ^ 31) then None
              else let len = (if start + len > int (length s) then int (length s) - start else len)
                   in if len \<le> 0 then Some (V_string []) else Some (V_string (take (nat len) (drop (nat start) s))))
      | _ \<Rightarrow> Some (V_string []))"

definition builtin_string_length :: "sw_val list \<Rightarrow> sw_val" where
  "builtin_string_length args = V_int (case args of V_string s # _ \<Rightarrow> of_nat (length s) | _ \<Rightarrow> 0)"

definition builtin_string_trim :: "sw_val list \<Rightarrow> sw_val" where
  "builtin_string_trim args =
     V_string (case args of V_string s # _ \<Rightarrow> rev (dropWhile is_ws (rev (dropWhile is_ws s))) | _ \<Rightarrow> [])"

definition builtin_string_upper :: "sw_val list \<Rightarrow> sw_val" where
  "builtin_string_upper args = V_string (case args of V_string s # _ \<Rightarrow> map to_upper s | _ \<Rightarrow> [])"

definition builtin_string_lower :: "sw_val list \<Rightarrow> sw_val" where
  "builtin_string_lower args = V_string (case args of V_string s # _ \<Rightarrow> map to_lower s | _ \<Rightarrow> [])"

definition builtin_string_starts_with :: "sw_val list \<Rightarrow> sw_val" where
  "builtin_string_starts_with args =
     (case args of V_string s # V_string t # _ \<Rightarrow> atom_of (take (length t) s = t) | _ \<Rightarrow> V_atom ''false'')"

definition builtin_string_ends_with :: "sw_val list \<Rightarrow> sw_val" where
  "builtin_string_ends_with args =
     (case args of
        V_string s # V_string t # _ \<Rightarrow> if length t > length s then V_atom ''false'' else atom_of (drop (length s - length t) s = t)
      | _ \<Rightarrow> V_atom ''false'')"

definition builtin_string_truncate :: "sw_val list \<Rightarrow> sw_val" where
  "builtin_string_truncate args =
     (case args of
        V_string s # V_int m # _ \<Rightarrow>
          (if sint m \<le> 0 then V_string [] else if int (length s) \<le> sint m then V_string s else V_string (take (nat (sint m)) s))
      | a # _ \<Rightarrow> a
      | [] \<Rightarrow> V_string [])"

text \<open>
  Splitting. \<open>cap\<close> is the size of the array of pieces, which is doubled when it is full, except before the empty piece behind a
  delimiter at the end.
\<close>

function split_loop :: "string \<Rightarrow> nat \<Rightarrow> string list \<Rightarrow> string \<Rightarrow> string list option" where
  "split_loop dl cap items p =
     (if p = [] \<or> dl = [] then Some items
      else let f = (case strstr p dl of None \<Rightarrow> [] | Some f \<Rightarrow> f);
               seg = take (length p - length f) p;
               cap = (if length items \<ge> cap then cap * 2 else cap);
               items = items @ [seg]
           in if f = [] then Some items
              else let p = drop (length dl) f
                   in if p = [] then (if length items \<ge> cap then None else Some (items @ [[]]))
                      else split_loop dl cap items p)"
  by pat_completeness auto
termination
  by (relation "measure (\<lambda>(dl, cap, items, p). length p)")
    (auto dest!: strstr_length simp: length_greater_0_conv [symmetric] simp del: length_greater_0_conv split: option.splits)

declare split_loop.simps [simp del]

definition builtin_string_split :: "sw_val list \<Rightarrow> sw_val option" where
  "builtin_string_split args =
     (case args of
        V_string s # V_string dl # _ \<Rightarrow>
          (if dl = [] then Some (V_list [V_string s])
           else map_option (\<lambda>items. V_list (map V_string items)) (split_loop dl 32 [] s))
      | _ \<Rightarrow> Some (V_list []))"

section \<open>Lists and maps\<close>

text \<open>With a single argument \<^verbatim>\<open>list_append\<close> reads the second one.\<close>

definition builtin_list_append :: "sw_val list \<Rightarrow> sw_val option" where
  "builtin_list_append args =
     (case args of
        V_list xs # v # _ \<Rightarrow> Some (V_list (xs @ [v]))
      | _ # v # _ \<Rightarrow> Some (V_list [v])
      | _ \<Rightarrow> None)"

definition builtin_map_get :: "sw_val list \<Rightarrow> sw_val" where
  "builtin_map_get args = (case args of m # k # _ \<Rightarrow> sw_val_map_get m k | _ \<Rightarrow> V_nil)"

definition builtin_map_put :: "sw_val list \<Rightarrow> sw_val" where
  "builtin_map_put args = (case args of m # k # v # _ \<Rightarrow> sw_val_map_put m k v | _ \<Rightarrow> V_nil)"

definition builtin_map_keys :: "sw_val list \<Rightarrow> sw_val" where
  "builtin_map_keys args = V_list (case args of V_map es # _ \<Rightarrow> map fst es | _ \<Rightarrow> [])"

definition builtin_map_values :: "sw_val list \<Rightarrow> sw_val" where
  "builtin_map_values args = V_list (case args of V_map es # _ \<Rightarrow> map snd es | _ \<Rightarrow> [])"

definition builtin_map_merge :: "sw_val list \<Rightarrow> sw_val" where
  "builtin_map_merge args =
     (case args of
        V_map es # V_map fs # _ \<Rightarrow> fold (\<lambda>(k, v) m. sw_val_map_put m k v) fs (V_map es)
      | V_map es # _ # _ \<Rightarrow> V_map es
      | _ # b # _ \<Rightarrow> b
      | _ \<Rightarrow> V_nil)"

definition builtin_map_has_key :: "sw_val list \<Rightarrow> sw_val" where
  "builtin_map_has_key args =
     (case args of V_map es # k # _ \<Rightarrow> atom_of (list_ex (\<lambda>(k', v). sw_val_equal k' k) es) | _ \<Rightarrow> V_atom ''false'')"

section \<open>JSON text\<close>

definition escape_char :: "char \<Rightarrow> string" where
  "escape_char c =
     (if c = CHR 0x22 then [CHR 0x5C, CHR 0x22] else if c = CHR 0x5C then [CHR 0x5C, CHR 0x5C]
      else if c = CHR 0x0A then [CHR 0x5C, CHR ''n''] else if c = CHR 0x0D then [CHR 0x5C, CHR ''r'']
      else if c = CHR 0x09 then [CHR 0x5C, CHR ''t''] else [c])"

fun escape_loop :: "nat \<Rightarrow> string \<Rightarrow> string \<Rightarrow> string" where
  "escape_loop cap [] buf = buf"
| "escape_loop cap (c # s) buf =
     (if length buf < cap - 2 then
        escape_loop cap s (buf @ escape_char c)
      else buf)"

definition escape_text :: "string \<Rightarrow> string" where
  "escape_text s = (let cap = max 256 (length s * 2 + 3) in escape_loop cap s [CHR 0x22] @ [CHR 0x22])"

definition builtin_json_escape :: "sw_val list \<Rightarrow> sw_val" where
  "builtin_json_escape args = V_string (case args of V_string s # _ \<Rightarrow> escape_text s | _ \<Rightarrow> ''null'')"

text \<open>The three loops of \<^verbatim>\<open>json_get\<close>, for a string, for a nested array or object and for a plain word.\<close>

definition get_unescape :: "char \<Rightarrow> char" where
  "get_unescape c = (if c = CHR ''n'' then CHR 0x0A else if c = CHR ''t'' then CHR 0x09 else c)"

fun get_string :: "nat \<Rightarrow> string \<Rightarrow> string \<Rightarrow> string" where
  "get_string cap [] buf = buf"
| "get_string cap (c # p) buf =
     (if c = CHR 0x22 \<or> length buf \<ge> cap - 1 then buf
      else if c = CHR 0x5C then (case p of [] \<Rightarrow> buf @ [c] | d # p' \<Rightarrow> get_string cap p' (buf @ [get_unescape d]))
      else get_string cap p (buf @ [c]))"

text \<open>The string inside a nested value, up to and with its closing quote; \<^term>\<open>None\<close> when it ends with the text.\<close>

fun copy_quoted :: "string \<Rightarrow> string \<Rightarrow> (string \<times> string) option" where
  "copy_quoted [] buf = None"
| "copy_quoted (c # p) buf =
     (if c = CHR 0x22 then Some (buf @ [c], p)
      else if c = CHR 0x5C then (case p of [] \<Rightarrow> None | d # p' \<Rightarrow> copy_quoted p' (buf @ [c, d]))
      else copy_quoted p (buf @ [c]))"

lemma copy_quoted_length: "copy_quoted p buf = Some (buf', p') \<Longrightarrow> length p' \<le> length p"
  by (induction p buf rule: copy_quoted.induct) (auto split: if_splits list.splits)

function get_nested :: "nat \<Rightarrow> char \<Rightarrow> char \<Rightarrow> nat \<Rightarrow> string \<Rightarrow> string \<Rightarrow> string option" where
  "get_nested cap op cl depth [] buf = Some buf"
| "get_nested cap op cl depth (c # p) buf =
     (if depth = 0 \<or> length buf \<ge> cap - 1 then Some buf
      else if c = CHR 0x22 then (case copy_quoted p (buf @ [c]) of None \<Rightarrow> None | Some (buf, p) \<Rightarrow> get_nested cap op cl depth p buf)
      else get_nested cap op cl (if c = op then depth + 1 else if c = cl then depth - 1 else depth) p (buf @ [c]))"
  by pat_completeness auto
termination
  by (relation "measure (\<lambda>(cap, op, cl, depth, p, buf). length p)") (auto dest: copy_quoted_length)

text \<open>\<^verbatim>\<open>strtoll\<close> with its end pointer: the number when all of the text was read, which is so for the empty text too.\<close>

definition whole_int :: "string \<Rightarrow> int64 option" where
  "whole_int s =
     (let t = dropWhile is_space s;
          u = (if t \<noteq> [] \<and> (hd t = CHR ''-'' \<or> hd t = CHR ''+'') then tl t else t)
      in if s = [] then Some 0
         else if u \<noteq> [] \<and> list_all is_digit u then Some (strtoll (if cur t = CHR ''+'' then u else t)) else None)"

definition get_word :: "string \<Rightarrow> sw_val" where
  "get_word p =
     (let buf = take 256 (takeWhile (\<lambda>c. c \<noteq> CHR '','' \<and> c \<noteq> CHR ''}'' \<and> c \<noteq> CHR '']'' \<and> c \<noteq> CHR '' '') p)
      in if buf = ''null'' then V_nil else if buf = ''true'' then V_atom ''true'' else if buf = ''false'' then V_atom ''false''
         else case whole_int buf of Some i \<Rightarrow> V_int i | None \<Rightarrow> V_string buf)"

definition builtin_json_get :: "sw_val list \<Rightarrow> sw_val option" where
  "builtin_json_get args =
     (case args of
        V_string json # V_string key # _ \<Rightarrow>
          (let pat = take 511 (CHR 0x22 # key @ [CHR 0x22])
           in case strstr json pat of
                None \<Rightarrow> Some V_nil
              | Some f \<Rightarrow>
                  (let p = dropWhile (\<lambda>c. is_ws c \<or> c = CHR '':'') (drop (length pat) f); cap = max 4096 (length json + 1)
                   in if p = [] then Some V_nil
                      else if hd p = CHR 0x22 then Some (V_string (get_string cap (tl p) []))
                      else if hd p = CHR ''['' \<or> hd p = CHR ''{'' then
                        map_option V_string (get_nested cap (hd p) (if hd p = CHR ''['' then CHR '']'' else CHR ''}'') 1 (tl p) [hd p])
                      else Some (get_word p)))
      | _ \<Rightarrow> Some V_nil)"

text \<open>\<^verbatim>\<open>clean_json\<close> removes a fence of three backquotes around the text.\<close>

definition rtrim :: "string \<Rightarrow> string" where
  "rtrim s = rev (dropWhile is_ws (rev s))"

definition fence :: string where
  "fence = replicate 3 (CHR 0x60)"

definition clean_json :: "string \<Rightarrow> string" where
  "clean_json s =
     (let s = dropWhile is_ws s;
          s = (if take 7 s = fence @ ''json'' then drop 7 s else if take 7 s = fence @ ''JSON'' then drop 7 s
               else if take 3 s = fence then drop 3 s else s);
          b = rtrim (dropWhile is_ws s);
          b = (if length b \<ge> 3 \<and> drop (length b - 3) b = fence then take (length b - 3) b else b)
      in rtrim b)"

definition builtin_clean_json :: "sw_val list \<Rightarrow> sw_val" where
  "builtin_clean_json args = V_string (case args of [] \<Rightarrow> [] | a # _ \<Rightarrow> clean_json (case a of V_string s \<Rightarrow> s | _ \<Rightarrow> []))"

section \<open>Tool calls in a text\<close>

text \<open>The text behind the brace that closes the one at the start; a quote after a backslash does not count.\<close>

fun match_brace :: "char \<Rightarrow> nat \<Rightarrow> bool \<Rightarrow> string \<Rightarrow> string option" where
  "match_brace prev depth in_str [] = None"
| "match_brace prev depth in_str (c # q) =
     (let in_str = (if c = CHR 0x22 \<and> prev \<noteq> CHR 0x5C then \<not> in_str else in_str)
      in if in_str then match_brace c depth in_str q
         else if c = CHR ''{'' then match_brace c (depth + 1) in_str q
         else if c = CHR ''}'' then (if depth = 1 then Some q else match_brace c (depth - 1) in_str q)
         else match_brace c depth in_str q)"

lemma match_brace_length: "match_brace prev depth in_str q = Some r \<Longrightarrow> length r \<le> length q"
proof (induction q arbitrary: prev depth in_str)
  case (Cons c q)
  define i where "i = (if c = CHR 0x22 \<and> prev \<noteq> CHR 0x5C then \<not> in_str else in_str)"
  have "match_brace c depth i q = Some r \<or> match_brace c (depth + 1) i q = Some r \<or> r = q \<or> match_brace c (depth - 1) i q = Some r"
    using Cons.prems unfolding match_brace.simps Let_def i_def [symmetric] by (cases i) (simp_all split: if_splits)
  then have "length r \<le> length q" using Cons.IH by blast
  then show ?case by simp
qed simp

lemma strchr_length: "strchr s c = Some r \<Longrightarrow> length r \<le> length s"
  by (auto simp: strchr_def Let_def length_dropWhile_le split: if_splits)

lemma strchr_tl: "strchr s c = Some r \<Longrightarrow> length (tl r) < length s"
proof -
  assume r: "strchr s c = Some r"
  then have "r \<noteq> []" by (auto simp: strchr_def Let_def split: if_splits)
  then show ?thesis using strchr_length [OF r] by (cases r) simp_all
qed

lemma call_less:
  assumes "strstr p t = Some f" "f \<noteq> []"
  shows "length (drop 5 f) < length p"
    and "strchr (drop 5 f) c = Some b \<Longrightarrow> length b < length p"
    and "strchr (drop 5 f) c = Some b \<Longrightarrow> match_brace x d i b = Some q \<Longrightarrow> length q < length p"
proof -
  show d: "length (drop 5 f) < length p" using strstr_length [OF assms(1)] assms(2) by (cases f) simp_all
  show b: "length b < length p" if "strchr (drop 5 f) c = Some b" using d strchr_length [OF that] by simp
  show "length q < length p" if "strchr (drop 5 f) c = Some b" "match_brace x d i b = Some q"
    using b [OF that(1)] match_brace_length [OF that(2)] by simp
qed

text \<open>The character in front of a position of the text, at its start a line feed.\<close>

definition char_before :: "string \<Rightarrow> string \<Rightarrow> char" where
  "char_before s p = (if length p < length s then s ! (length s - length p - 1) else CHR 0x0A)"

function gemma_loop :: "(string \<Rightarrow> double) \<Rightarrow> string \<Rightarrow> string \<Rightarrow> sw_val list \<Rightarrow> sw_val list option" where
  "gemma_loop sd s p items =
     (case strstr p ''call:'' of
        None \<Rightarrow> Some items
      | Some f \<Rightarrow>
          (if f = [] then Some items
           else if char_before s f \<noteq> CHR 0x0A \<and> char_before s f \<noteq> CHR '' '' \<and> char_before s f \<noteq> CHR 0x09
           then gemma_loop sd s (drop 5 f) items
           else case strchr (drop 5 f) (CHR ''{'') of
                  None \<Rightarrow> Some items
                | Some brace \<Rightarrow>
                    (let name = take (length (drop 5 f) - length brace) (drop 5 f)
                     in if name = [] \<or> length name > 64 then gemma_loop sd s brace items
                        else case match_brace (CHR 0x00) 0 False brace of
                               None \<Rightarrow> Some items
                             | Some q \<Rightarrow>
                                 (case builtin_json_decode sd (take (length brace - length q) brace) of
                                    Some (J_val (V_map es) _) \<Rightarrow>
                                      gemma_loop sd s q (items @ [V_tuple [V_atom (rev (dropWhile (\<lambda>c. c = CHR '' '' \<or> c = CHR 0x09) (rev name))), V_map es]])
                                  | Some (J_val _ _) \<Rightarrow> gemma_loop sd s q items
                                  | Some (J_end _) \<Rightarrow> gemma_loop sd s q items
                                  | _ \<Rightarrow> None))))"
  by pat_completeness auto
termination
  by (relation "measure (\<lambda>(sd, s, p, items). length p)") (simp_all add: call_less del: length_drop)

definition builtin_parse_gemma_calls :: "(string \<Rightarrow> double) \<Rightarrow> sw_val list \<Rightarrow> sw_val option" where
  "builtin_parse_gemma_calls sd args =
     (case args of V_string s # _ \<Rightarrow> map_option V_list (gemma_loop sd s s []) | _ \<Rightarrow> Some (V_list []))"

section \<open>HTML\<close>

definition strcasestr :: "string \<Rightarrow> string \<Rightarrow> string option" where
  "strcasestr s t = map_option (\<lambda>r. drop (length s - length r) s) (strstr (map to_lower s) (map to_lower t))"

lemma strcasestr_length: "strcasestr s t = Some r \<Longrightarrow> length r \<le> length s"
  by (auto simp: strcasestr_def)

text \<open>The first pass, for one tag: blocks are overwritten with blanks.\<close>

definition nth0 :: "string \<Rightarrow> nat \<Rightarrow> char" where
  "nth0 s i = (if i < length s then s ! i else CHR 0x00)"

function blank_tag :: "string \<Rightarrow> string \<Rightarrow> string \<Rightarrow> string" where
  "blank_tag op cl p =
     (case strcasestr p op of
        None \<Rightarrow> p
      | Some r \<Rightarrow>
          (let before = take (length p - length r) p; after = nth0 r (length op)
           in if r = [] then p
              else if after \<noteq> CHR '' '' \<and> after \<noteq> CHR ''>'' \<and> after \<noteq> CHR 0x09 \<and> after \<noteq> CHR 0x0A \<and> after \<noteq> CHR 0x00
              then before @ [hd r] @ blank_tag op cl (tl r)
              else case strcasestr r cl of
                     Some e \<Rightarrow> if cl = [] \<or> e = [] then p else before @ replicate (length r - length e + length cl) (CHR '' '') @ blank_tag op cl (drop (length cl) e)
                   | None \<Rightarrow> before @ replicate (length r) (CHR '' '')))"
  by pat_completeness auto
termination
  by (relation "measure (\<lambda>(op, cl, p). length p)")
    (auto dest!: strcasestr_length simp: length_greater_0_conv [symmetric] simp del: length_greater_0_conv)

declare blank_tag.simps [simp del]

definition block_tags :: "string list" where
  "block_tags = [''script'', ''style'', ''nav'', ''header'', ''footer'']"

definition blank_blocks :: "string \<Rightarrow> string" where
  "blank_blocks html = fold (\<lambda>t w. blank_tag (''<'' @ t) (''</'' @ t @ ''>'') w) block_tags html"

text \<open>The second pass: the text of an entity at the start of the rest and its length.\<close>

definition entity :: "string \<Rightarrow> (char \<times> nat) option" where
  "entity s =
     (if length s \<le> 2 then None
      else if take 5 s = ''&amp;'' then Some (CHR ''&'', 5) else if take 4 s = ''&lt;'' then Some (CHR ''<'', 4)
      else if take 4 s = ''&gt;'' then Some (CHR ''>'', 4) else if take 6 s = ''&quot;'' then Some (CHR 0x22, 6)
      else if take 6 s = ''&apos;'' then Some (CHR 0x27, 6) else if take 5 s = ''&#39;'' then Some (CHR 0x27, 5)
      else if take 6 s = ''&nbsp;'' then Some (CHR '' '', 6) else if take 6 s = ''&#x27;'' then Some (CHR 0x27, 6) else None)"

lemma entity_pos: "entity s = Some (c, n) \<Longrightarrow> 0 < n"
  by (auto simp: entity_def split: if_splits)

function strip_tags :: "nat \<Rightarrow> bool \<Rightarrow> bool \<Rightarrow> string \<Rightarrow> string \<Rightarrow> string" where
  "strip_tags cap in_tag spc [] out = out"
| "strip_tags cap in_tag spc (c # s) out =
     (if length out \<ge> cap - 1 then out
      else if c = CHR ''<'' then strip_tags cap True spc s out
      else if c = CHR ''>'' then strip_tags cap False spc s out
      else if in_tag then strip_tags cap in_tag spc s out
      else let (d, n) = (case (if c = CHR ''&'' then entity (c # s) else None) of Some e \<Rightarrow> e | None \<Rightarrow> (c, 1))
           in if is_ws d then strip_tags cap in_tag True (drop (n - 1) s) (if spc then out else out @ [CHR '' ''])
              else strip_tags cap in_tag False (drop (n - 1) s) (out @ [d]))"
  by pat_completeness auto
termination
  by (relation "measure (\<lambda>(cap, in_tag, spc, s, out). length s)") auto

definition strip_html :: "string \<Rightarrow> string" where
  "strip_html html = (if html = [] then [] else strip_tags 8001 False True (blank_blocks html) [])"

definition builtin_strip_html :: "sw_val list \<Rightarrow> sw_val" where
  "builtin_strip_html args = V_string (case args of V_string s # _ \<Rightarrow> strip_html s | _ \<Rightarrow> [])"

section \<open>Parameters of a URL\<close>

definition url_decode_hex :: "char \<Rightarrow> nat option" where
  "url_decode_hex c =
     (let n = of_char c
      in if 48 \<le> n \<and> n \<le> 57 then Some (n - 48) else if 65 \<le> n \<and> n \<le> 70 then Some (n - 55) else if 97 \<le> n \<and> n \<le> 102 then Some (n - 87) else None)"

fun url_decode :: "string \<Rightarrow> string" where
  "url_decode [] = []"
| "url_decode (c # s) =
     (case (if c = CHR ''%'' then (case s of a # b # s' \<Rightarrow> (case (url_decode_hex a, url_decode_hex b) of (Some h, Some l) \<Rightarrow> Some (h * 16 + l) | _ \<Rightarrow> None) | _ \<Rightarrow> None) else None) of
        Some n \<Rightarrow> char_of n # url_decode (drop 2 s)
      | None \<Rightarrow> (if c = CHR ''+'' then CHR '' '' else c) # url_decode s)"

function query_loop :: "string \<Rightarrow> (sw_val \<times> sw_val) list \<Rightarrow> (sw_val \<times> sw_val) list" where
  "query_loop qs acc =
     (if qs = [] then acc
      else case (strchr qs (CHR ''=''), strchr qs (CHR ''&'')) of
             (None, None) \<Rightarrow> acc
           | (None, Some amp) \<Rightarrow> query_loop (tl amp) acc
           | (Some eq, None) \<Rightarrow>
               acc @ [(V_atom (c_string (url_decode (take (length qs - length eq) qs))), V_string (c_string (url_decode (tl eq))))]
           | (Some eq, Some amp) \<Rightarrow>
               if length amp > length eq then query_loop (tl amp) acc
               else query_loop (tl amp)
                      (acc @ [(V_atom (c_string (url_decode (take (length qs - length eq) qs))),
                               V_string (c_string (url_decode (take (length (tl eq) - length amp) (tl eq)))))]))"
  by pat_completeness auto
termination
  by (relation "measure (\<lambda>(qs, acc). length qs)") (simp_all add: strchr_tl del: length_tl)

declare query_loop.simps [simp del]

definition builtin_query_parse :: "sw_val list \<Rightarrow> sw_val" where
  "builtin_query_parse args =
     V_map (case args of V_string path # _ \<Rightarrow> (case strchr path (CHR ''?'') of None \<Rightarrow> [] | Some q \<Rightarrow> query_loop (tl q) []) | _ \<Rightarrow> [])"

definition mime_for_ext :: "string option \<Rightarrow> string" where
  "mime_for_ext ext =
     (case ext of
        None \<Rightarrow> ''application/octet-stream''
      | Some e \<Rightarrow>
          (let x = map to_lower e
           in if x = ''html'' \<or> x = ''htm'' then ''text/html; charset=utf-8'' else if x = ''css'' then ''text/css; charset=utf-8''
              else if x = ''js'' then ''application/javascript; charset=utf-8'' else if x = ''json'' then ''application/json; charset=utf-8''
              else if x = ''png'' then ''image/png'' else if x = ''jpg'' \<or> x = ''jpeg'' then ''image/jpeg'' else if x = ''gif'' then ''image/gif''
              else if x = ''svg'' then ''image/svg+xml'' else if x = ''ico'' then ''image/x-icon'' else if x = ''woff2'' then ''font/woff2''
              else if x = ''woff'' then ''font/woff'' else if x = ''txt'' then ''text/plain; charset=utf-8'' else ''application/octet-stream''))"

section \<open>Wrapped output\<close>

text \<open>The writer of streamed text: it indents lines by two blanks and breaks them at the right margin.\<close>

record stream_state =
  term_w :: int
  right_margin :: int
  ss_col :: int
  in_ansi :: bool
  line_started :: bool

definition sw_stream_init :: "int \<Rightarrow> stream_state" where
  "sw_stream_init w = \<lparr>term_w = w, right_margin = (if w > 10 then w - 2 else w), ss_col = 0, in_ansi = False, line_started = False\<rparr>"

definition sw_stream_reset_line :: "stream_state \<Rightarrow> stream_state" where
  "sw_stream_reset_line s = s\<lparr>ss_col := 0, line_started := False, in_ansi := False\<rparr>"

definition sw_stream_emit :: "stream_state \<Rightarrow> char \<Rightarrow> string \<times> stream_state" where
  "sw_stream_emit s c =
     (let (o1, s) = (if \<not> line_started s \<and> \<not> in_ansi s \<and> c \<noteq> CHR 0x0A \<and> c \<noteq> CHR 0x0D \<and> c \<noteq> CHR 0x1B
                     then (''  '', s\<lparr>ss_col := 2, line_started := True\<rparr>) else ([], s))
      in if in_ansi s then (o1 @ [c], if 64 \<le> (of_char c :: nat) \<and> (of_char c :: nat) \<le> 126 then s\<lparr>in_ansi := False\<rparr> else s)
         else if c = CHR 0x1B then (o1 @ [c], s\<lparr>in_ansi := True\<rparr>)
         else if c = CHR 0x0A then (o1 @ [c], s\<lparr>ss_col := 0, line_started := False\<rparr>)
         else if c = CHR 0x0D then (o1 @ [c], s\<lparr>ss_col := 0\<rparr>)
         else let cont = (128 \<le> (of_char c :: nat) \<and> (of_char c :: nat) < 192);
                  (o2, s) = (if \<not> cont \<and> ss_col s \<ge> right_margin s then (CHR 0x0A # ''  '', s\<lparr>ss_col := 2, line_started := True\<rparr>) else ([], s))
              in (o1 @ o2 @ [c], if cont then s else s\<lparr>ss_col := ss_col s + 1\<rparr>))"

section \<open>Replacing\<close>

text \<open>The replacement of all occurrences from left to right, without a limit.\<close>

function replace_all :: "string \<Rightarrow> string \<Rightarrow> string \<Rightarrow> string" where
  "replace_all old rep p =
     (if p = [] \<or> old = [] then p
      else case strstr p old of
             None \<Rightarrow> p
           | Some f \<Rightarrow> take (length p - length f) p @ rep @ replace_all old rep (drop (length old) f))"
  by pat_completeness auto
termination
  by (relation "measure (\<lambda>(old, rep, p). length p)") (auto dest!: strstr_length simp: length_greater_0_conv [symmetric] simp del: length_greater_0_conv)

declare replace_all.simps [simp del]

text \<open>A result that fits the buffer is the replacement of all occurrences.\<close>

lemma replace_loop_all:
  "old \<noteq> [] \<Longrightarrow> length buf + length (replace_all old rep p) < cap - 1 \<Longrightarrow> replace_loop cap old rep p buf = buf @ replace_all old rep p"
proof (induction cap old rep p buf rule: replace_loop.induct)
  case (1 cap old rep p buf)
  show ?case
  proof (cases "p = []")
    case False
    show ?thesis
    proof (cases "strstr p old")
      case None
      then show ?thesis using 1(2,3) False by (simp add: replace_loop.simps [of cap old rep p] replace_all.simps [of old rep p])
    next
      case (Some f)
      let ?piece = "take (length p - length f) p"
      have r: "replace_all old rep p = ?piece @ rep @ replace_all old rep (drop (length old) f)"
        using False Some 1(2) by (simp add: replace_all.simps [of old rep p])
      have fits: "length buf + length ?piece + length rep < cap - 1" using 1(3) by (simp add: r)
      have "replace_loop cap old rep (drop (length old) f) (buf @ ?piece @ rep) = (buf @ ?piece @ rep) @ replace_all old rep (drop (length old) f)"
        using 1(1) [OF _ Some refl] False 1(2,3) fits by (simp add: r)
      then show ?thesis using False Some 1(2) fits by (simp add: replace_loop.simps [of cap old rep p] r)
    qed
  qed (simp add: replace_loop.simps replace_all.simps)
qed

lemma string_replace_correct:
  assumes "old \<noteq> []" "length (replace_all old rep s) < replace_cap s rep - 1"
  shows "builtin_string_replace [V_string s, V_string old, V_string rep] = V_string (replace_all old rep s)"
  using assms replace_loop_all [of old "[]" rep s] by (simp add: builtin_string_replace_def)

section \<open>Splitting\<close>

fun join :: "string \<Rightarrow> string list \<Rightarrow> string" where
  "join d [] = []"
| "join d [x] = x"
| "join d (x # xs) = x @ d @ join d xs"

lemma strstr_None: "strstr s t = None \<Longrightarrow> s = a @ r \<Longrightarrow> take (length t) r \<noteq> t"
proof (induction s arbitrary: a)
  case (Cons c s)
  then show ?case by (cases a) (auto split: if_splits)
qed (auto split: if_splits)

lemma strstr_first:
  assumes "strstr s t = Some r" "t \<noteq> []"
  shows "strstr (take (length s - length r) s) t = None"
  using assms
proof (induction s arbitrary: r)
  case (Cons c s)
  show ?case
  proof (cases "take (length t) (c # s) = t")
    case True
    then show ?thesis using Cons.prems by (auto split: if_splits)
  next
    case False
    then have r: "strstr s t = Some r" using Cons.prems(1) by (simp split: if_splits)
    note le = strstr_length [OF r]
    have "take (length t) (take (length (c # s) - length r) (c # s)) \<noteq> t"
    proof
      assume a: "take (length t) (take (length (c # s) - length r) (c # s)) = t"
      then have "length t \<le> length (c # s) - length r" by (metis length_take min.bounded_iff order_refl)
      then have "take (length t) (c # s) = t" using a by (metis min.absorb1 take_take)
      then show False using False by simp
    qed
    then show ?thesis using Cons.IH [OF r Cons.prems(2)] le by (simp add: Suc_diff_le)
  qed
qed simp

text \<open>The pieces of a text: what is in front of the first delimiter, then the pieces of what is behind it.\<close>

function pieces :: "string \<Rightarrow> string \<Rightarrow> string list" where
  "pieces d p = (case strstr p d of
      None \<Rightarrow> [p]
    | Some f \<Rightarrow> if d = [] then [p] else take (length p - length f) p # pieces d (drop (length d) f))"
  by pat_completeness auto
termination
proof (relation "measure (\<lambda>(d, p). length p)")
  fix d p f
  assume "strstr p d = Some f" "d \<noteq> []"
  then obtain u where "p = u @ f" "take (length d) f = d" using strstr_Some by blast
  moreover from this have "length d > 0" "f \<noteq> []" using \<open>d \<noteq> []\<close> by auto
  ultimately show "((d, drop (length d) f), (d, p)) \<in> measure (\<lambda>(d, p). length p)" by simp (metis add_gr_0 diff_less length_greater_0_conv less_le_trans le_add2)
qed simp

declare pieces.simps [simp del]

lemma pieces_None: "strstr p d = None \<Longrightarrow> pieces d p = [p]"
  by (simp add: pieces.simps)

lemma pieces_Some: "strstr p d = Some f \<Longrightarrow> d \<noteq> [] \<Longrightarrow> pieces d p = take (length p - length f) p # pieces d (drop (length d) f)"
  by (subst pieces.simps) simp

lemma pieces_ne: "pieces d p \<noteq> []"
  by (subst pieces.simps) (simp split: option.split)

lemma pieces_join: "d \<noteq> [] \<Longrightarrow> join d (pieces d p) = p \<and> list_all (\<lambda>x. strstr x d = None) (pieces d p)"
proof (induction d p rule: pieces.induct)
  case (1 d p)
  show ?case
  proof (cases "strstr p d")
    case None
    then show ?thesis by (simp add: pieces_None)
  next
    case (Some f)
    let ?seg = "take (length p - length f) p" and ?rest = "pieces d (drop (length d) f)"
    obtain u where u: "p = u @ f" "take (length d) f = d" using strstr_Some [OF Some] by blast
    then have "p = ?seg @ d @ drop (length d) f" by simp (metis append_take_drop_id)
    moreover have "strstr ?seg d = None" by (rule strstr_first [OF Some 1(2)])
    moreover have "join d ?rest = drop (length d) f \<and> list_all (\<lambda>x. strstr x d = None) ?rest" using 1 Some by blast
    moreover have "join d (?seg # ?rest) = ?seg @ d @ join d ?rest" using pieces_ne [of d "drop (length d) f"] by (cases ?rest) simp_all
    ultimately show ?thesis using pieces_Some [OF Some 1(2)] by simp
  qed
qed

text \<open>The capacity of the array: it starts at 32 and has been doubled when it was full.\<close>

definition grown :: "nat \<Rightarrow> nat \<Rightarrow> bool" where
  "grown cap n \<longleftrightarrow> (\<exists>k. cap = 32 * 2 ^ k \<and> n \<le> cap \<and> (k = 0 \<or> cap < 2 * n))"

lemma grown_push: "grown cap n \<Longrightarrow> grown (if n \<ge> cap then cap * 2 else cap) (Suc n)"
proof -
  assume "grown cap n"
  then obtain k where k: "cap = 32 * 2 ^ k" "n \<le> cap" "k = 0 \<or> cap < 2 * n" by (auto simp: grown_def)
  show ?thesis
  proof (cases "n \<ge> cap")
    case True
    then show ?thesis unfolding grown_def using k by (intro exI [of _ "Suc k"]) simp
  next
    case False
    then show ?thesis unfolding grown_def using k by (intro exI [of _ k]) auto
  qed
qed

lemma grown_full: "grown cap n \<Longrightarrow> n \<ge> cap \<longleftrightarrow> (\<exists>k. n = 32 * 2 ^ k)"
proof -
  assume "grown cap n"
  then obtain k where k: "cap = 32 * 2 ^ k" "n \<le> cap" "k = 0 \<or> cap < 2 * n" by (auto simp: grown_def)
  have "cap \<le> n" if j: "n = 32 * 2 ^ j" for j
  proof (cases "k = 0")
    case False
    then have "(2 :: nat) ^ k < 2 ^ Suc j" using k(1,3) j by simp
    then have "k \<le> j" by (metis less_Suc_eq_le one_less_numeral_iff power_strict_increasing_iff semiring_norm(76))
    then show ?thesis using k(1) j by simp
  qed (use k j in simp)
  then show ?thesis using k(1,2) by fastforce
qed

lemma split_loop_pieces:
  "d \<noteq> [] \<Longrightarrow> p \<noteq> [] \<Longrightarrow> grown cap (length items) \<Longrightarrow> split_loop d cap items p =
     (if last (pieces d p) = [] \<and> (\<exists>k. length items + length (pieces d p) = 32 * 2 ^ k + 1) then None else Some (items @ pieces d p))"
proof (induction d cap items p rule: split_loop.induct)
  case (1 d cap items p)
  show ?case
  proof (cases "strstr p d")
    case None
    then show ?thesis using 1(2-) by (simp add: split_loop.simps [of d cap items p] pieces_None Let_def)
  next
    case (Some f)
    let ?seg = "take (length p - length f) p" and ?cap = "if length items \<ge> cap then cap * 2 else cap" and ?p = "drop (length d) f"
    have f: "f \<noteq> []" using strstr_Some [OF Some] 1(2) by auto
    have g: "grown ?cap (length (items @ [?seg]))" using grown_push [OF 1(4)] by simp
    note ps = pieces_Some [OF Some 1(2)] pieces_ne [of d ?p]
    have s: "split_loop d cap items p = (if ?p = [] then (if length (items @ [?seg]) \<ge> ?cap then None else Some ((items @ [?seg]) @ [[]]))
        else split_loop d ?cap (items @ [?seg]) ?p)"
      using 1(2,3) Some f by (subst split_loop.simps) (simp add: Let_def)
    show ?thesis
    proof (cases "?p = []")
      case True
      then have "pieces d ?p = [[]]" using 1(2) by (simp add: pieces_None)
      then show ?thesis using s True ps grown_full [OF g] by simp
    next
      case False
      have "split_loop d ?cap (items @ [?seg]) ?p =
          (if last (pieces d ?p) = [] \<and> (\<exists>k. length (items @ [?seg]) + length (pieces d ?p) = 32 * 2 ^ k + 1) then None
           else Some ((items @ [?seg]) @ pieces d ?p))"
        using 1(1) [OF _ refl refl refl refl _ refl] 1(2,3) Some f False g by simp
      then show ?thesis using s False ps by simp
    qed
  qed
qed

text \<open>
  C30. Splitting a text that is not empty at a delimiter that is not empty: the result is the list of the pieces in front of, between
  and behind the delimiters from the left, which put together with the delimiter between them are the text again and none
  of which contains the delimiter. The exception is a text that ends with a delimiter and has 32, 64, 128, ... pieces in front of the
  last, empty one: that is written behind the end of the array (\<open>None\<close>).
\<close>

theorem string_split_join:
  assumes "s \<noteq> []" "d \<noteq> []"
  shows "builtin_string_split [V_string s, V_string d] =
      (if last (pieces d s) = [] \<and> (\<exists>k. length (pieces d s) = 32 * 2 ^ k + 1) then None else Some (V_list (map V_string (pieces d s))))
    \<and> join d (pieces d s) = s \<and> list_all (\<lambda>x. strstr x d = None) (pieces d s)"
proof -
  have "grown 32 (length ([] :: string list))" by (auto simp: grown_def intro: exI [of _ 0])
  from split_loop_pieces [OF assms(2,1) this] show ?thesis
    using pieces_join [OF assms(2), of s] assms(2) by (simp add: builtin_string_split_def)
qed

theorem string_split_join_witness:
  "builtin_string_split [V_string ''a, b, '', V_string '', ''] = Some (V_list [V_string ''a'', V_string ''b'', V_string []])
   \<and> join '', '' [''a'', ''b'', []] = ''a, b, ''"
proof -
  have "pieces '', '' ''a, b, '' = [''a'', ''b'', []]" by (simp add: pieces.simps)
  then show ?thesis using string_split_join [of "''a, b, ''" "'', ''"] by (simp split: if_splits) presburger
qed

text \<open>
  The piece behind a delimiter at the end is stored without a check of the array: with 32 pieces in front of it the write goes
  outside.
\<close>

lemma string_split_overflow:
  "builtin_string_split [V_string (concat (replicate 32 ''a,'')), V_string '','' ] = None"
  by code_simp

section \<open>Substrings\<close>

lemma string_sub_correct:
  assumes "0 \<le> int_arg b" "0 \<le> int_arg l" "int_arg b + int_arg l < 2 ^ 31"
  shows "builtin_string_sub [V_string s, V_int b, V_int l] = Some (V_string (take (nat (int_arg l)) (drop (nat (int_arg b)) s)))"
proof -
  define x y where "x = nat (int_arg b)" "y = nat (int_arg l)"
  then have xy: "int_arg b = int x" "int_arg l = int y" using assms by simp_all
  have sum: "int x + int y < 2 ^ 31" using assms by (simp add: xy)
  show ?thesis
  proof (cases "length s \<le> x")
    case True
    then show ?thesis by (simp add: builtin_string_sub_def xy)
  next
    case False
    then show ?thesis using sum
      by (auto simp: builtin_string_sub_def Let_def xy nat_diff_distrib)
  qed
qed

text \<open>A length near the largest 32-bit number makes the sum overflow, and the copy then reads that many bytes.\<close>

lemma string_sub_overflow: "builtin_string_sub [V_string ''abc'', V_int 1, V_int 2147483647] = None"
  by (simp add: builtin_string_sub_def int_arg_def)

section \<open>Escaping and reading JSON strings\<close>

lemma escape_loop_all:
  assumes "length buf + 2 * length s \<le> cap - 2"
  shows "escape_loop cap s buf = buf @ concat (map escape_char s)"
  using assms
proof (induction s arbitrary: buf)
  case (Cons c s)
  have "length (escape_char c) \<le> 2" by (simp add: escape_char_def)
  then show ?case using Cons by simp
qed simp

lemma get_string_char:
  "c \<noteq> CHR 0x0D \<Longrightarrow> length buf < cap - 1 \<Longrightarrow> get_string cap (escape_char c @ p) buf = get_string cap p (buf @ [c])"
  by (auto simp: escape_char_def get_unescape_def)

lemma get_string_escaped:
  assumes "CHR 0x0D \<notin> set s" "length buf + length s < cap - 1"
  shows "get_string cap (concat (map escape_char s) @ CHR 0x22 # rest) buf = buf @ s"
  using assms
proof (induction s arbitrary: buf)
  case (Cons c s)
  then have "c \<noteq> CHR 0x0D" "length buf < cap - 1" by auto
  from get_string_char [OF this, of "concat (map escape_char s) @ CHR 0x22 # rest"] Cons show ?case by simp
qed simp

text \<open>
  A text that was escaped and put behind a key of a JSON object is read back from there unchanged, if it has no carriage
  return, which the reader turns into the letter r, and if the key does not occur before in quotes.
\<close>

theorem json_get_escaped:
  assumes "builtin_json_escape [V_string s] = V_string t" "CHR 0x0D \<notin> set s" "length k < 500"
    and first: "strstr (pre @ [CHR 0x22] @ k @ [CHR 0x22] @ '':'' @ t @ rest) (CHR 0x22 # k @ [CHR 0x22])
        = Some ([CHR 0x22] @ k @ [CHR 0x22] @ '':'' @ t @ rest)"
  shows "builtin_json_get [V_string (pre @ [CHR 0x22] @ k @ [CHR 0x22] @ '':'' @ t @ rest), V_string k] = Some (V_string s)"
proof -
  let ?e = "concat (map escape_char s)"
  have len: "length s \<le> length ?e"
  proof (induction s)
    case (Cons c s)
    have "1 \<le> length (escape_char c)" by (simp add: escape_char_def)
    then show ?case using Cons by simp
  qed simp
  have t: "t = CHR 0x22 # ?e @ [CHR 0x22]"
    using assms(1) escape_loop_all [of "[CHR 0x22]" s "max 256 (length s * 2 + 3)"]
    by (simp add: builtin_json_escape_def escape_text_def Let_def)
  have pat: "take 511 (CHR 0x22 # k @ [CHR 0x22]) = CHR 0x22 # k @ [CHR 0x22]" using assms(3) by simp
  let ?json = "pre @ [CHR 0x22] @ k @ [CHR 0x22] @ '':'' @ t @ rest"
  have ws: "dropWhile (\<lambda>c. is_ws c \<or> c = CHR '':'') (drop (length (CHR 0x22 # k @ [CHR 0x22])) ([CHR 0x22] @ k @ [CHR 0x22] @ '':'' @ t @ rest))
      = CHR 0x22 # ?e @ CHR 0x22 # rest" by (simp add: t is_ws_def)
  have "get_string (max 4096 (length ?json + 1)) (?e @ CHR 0x22 # rest) [] = s"
    using get_string_escaped [OF assms(2), of "[]" "max 4096 (length ?json + 1)" rest] len by (simp add: t)
  then show ?thesis by (simp only: builtin_json_get_def list.case sw_val.case Let_def pat first ws option.case list.sel if_True if_False
        list.distinct list.discI refl simp_thms)
qed

theorem json_get_escaped_witness:
  "builtin_json_get [V_string ([CHR ''{''] @ [CHR 0x22] @ ''k'' @ [CHR 0x22] @ '':'' @ escape_text [CHR ''a'', CHR 0x22, CHR 0x0A] @ ''}''), V_string ''k'']
     = Some (V_string [CHR ''a'', CHR 0x22, CHR 0x0A])"
  by (rule json_get_escaped) (simp_all add: builtin_json_escape_def escape_text_def escape_char_def)

section \<open>Round trip of parameters\<close>

text \<open>An encoder: every character as a percent sign and two hexadecimal digits.\<close>

definition url_hex :: "nat \<Rightarrow> char" where
  "url_hex n = (if n < 10 then char_of (48 + n) else char_of (55 + n))"

definition url_char :: "char \<Rightarrow> string" where
  "url_char c = [CHR ''%'', url_hex (of_char c div 16), url_hex (of_char c mod 16)]"

definition url_encode :: "string \<Rightarrow> string" where
  "url_encode s = concat (map url_char s)"

fun query_encode :: "(string \<times> string) list \<Rightarrow> string" where
  "query_encode [] = []"
| "query_encode [(k, v)] = url_encode k @ ''='' @ url_encode v"
| "query_encode ((k, v) # kvs) = url_encode k @ ''='' @ url_encode v @ ''&'' @ query_encode kvs"

lemma url_hex_decode: "n < 16 \<Longrightarrow> url_decode_hex (url_hex n) = Some n"
  by (auto simp: url_decode_hex_def url_hex_def Let_def)

lemma url_decode_char: "url_decode (url_char c @ s) = c # url_decode s"
proof -
  have "(of_char c :: nat) < 256" by (metis of_char_mod_256 mod_less_divisor zero_less_numeral)
  then have "(of_char c :: nat) div 16 < 16" by (simp add: less_mult_imp_div_less)
  moreover have "char_of (of_char c div 16 * 16 + of_char c mod 16 :: nat) = c" by simp
  ultimately show ?thesis by (simp add: url_char_def url_hex_decode)
qed

lemma url_decode_encode: "url_decode (url_encode s) = s"
  by (induction s) (simp_all add: url_encode_def url_decode_char)

lemma url_hex_plain: "n < 16 \<Longrightarrow> url_hex n \<noteq> CHR ''='' \<and> url_hex n \<noteq> CHR ''&''"
proof -
  assume "n < 16"
  then have "url_decode_hex (url_hex n) = Some n" by (rule url_hex_decode)
  moreover have "url_decode_hex (CHR ''='') = None" "url_decode_hex (CHR ''&'') = None" by (simp_all add: url_decode_hex_def)
  ultimately show ?thesis by auto
qed

lemma url_encode_plain: "CHR ''='' \<notin> set (url_encode s)" "CHR ''&'' \<notin> set (url_encode s)"
proof -
  have "CHR ''='' \<notin> set (url_char c) \<and> CHR ''&'' \<notin> set (url_char c)" for c
  proof -
    have "(of_char c :: nat) < 256" by (metis of_char_mod_256 mod_less_divisor zero_less_numeral)
    then have "(of_char c :: nat) div 16 < 16" by (simp add: less_mult_imp_div_less)
    then show ?thesis using url_hex_plain [of "of_char c div 16"] url_hex_plain [of "of_char c mod 16"] by (auto simp: url_char_def)
  qed
  then show "CHR ''='' \<notin> set (url_encode s)" "CHR ''&'' \<notin> set (url_encode s)" by (auto simp: url_encode_def)
qed

lemma strchr_skip: "c \<notin> set xs \<Longrightarrow> strchr (xs @ c # ys) c = Some (c # ys)" "c \<notin> set xs \<Longrightarrow> strchr xs c = None"
proof -
  assume c: "c \<notin> set xs"
  then have "dropWhile (\<lambda>d. d \<noteq> c) (xs @ zs) = dropWhile (\<lambda>d. d \<noteq> c) zs" for zs by (induction xs) auto
  from this [of "c # ys"] this [of "[]"] show "strchr (xs @ c # ys) c = Some (c # ys)" "strchr xs c = None"
    by (simp_all add: strchr_def)
qed

lemma c_string_id: "CHR 0x00 \<notin> set s \<Longrightarrow> c_string s = s"
  by (induction s) (auto simp: c_string_def)

lemma query_loop_encode:
  assumes "list_all (\<lambda>(k, v). CHR 0x00 \<notin> set k \<and> CHR 0x00 \<notin> set v) kvs"
  shows "query_loop (query_encode kvs) acc = acc @ map (\<lambda>(k, v). (V_atom k, V_string v)) kvs"
  using assms
proof (induction kvs arbitrary: acc rule: query_encode.induct)
  case 1
  then show ?case by (simp add: query_loop.simps)
next
  case (2 k v)
  have nul: "c_string k = k" "c_string v = v" using 2 by (simp_all add: c_string_id)
  let ?qs = "url_encode k @ CHR ''='' # url_encode v"
  have "strchr ?qs (CHR ''='') = Some (CHR ''='' # url_encode v)" by (rule strchr_skip(1) [OF url_encode_plain(1)])
  moreover have "strchr ?qs (CHR ''&'') = None" by (rule strchr_skip(2)) (simp add: url_encode_plain)
  ultimately show ?case by (subst query_loop.simps) (simp add: url_decode_encode nul)
next
  case (3 k v kv kvs)
  let ?rest = "query_encode (kv # kvs)"
  have nul: "c_string k = k" "c_string v = v" using 3(2) by (simp_all add: c_string_id)
  let ?qs = "url_encode k @ CHR ''='' # url_encode v @ CHR ''&'' # ?rest"
  have "strchr ?qs (CHR ''='') = Some (CHR ''='' # url_encode v @ CHR ''&'' # ?rest)" by (rule strchr_skip(1) [OF url_encode_plain(1)])
  moreover have "strchr ?qs (CHR ''&'') = Some (CHR ''&'' # ?rest)"
    using strchr_skip(1) [of "CHR ''&''" "url_encode k @ CHR ''='' # url_encode v" ?rest] by (simp add: url_encode_plain)
  ultimately have "query_loop ?qs acc = query_loop ?rest (acc @ [(V_atom k, V_string v)])"
    by (subst query_loop.simps) (simp add: url_decode_encode nul)
  then show ?case using 3 by simp
qed

text \<open>Encoded parameters behind the question mark of a path are read back.\<close>

lemma query_parse_round_trip:
  assumes "CHR ''?'' \<notin> set path" "list_all (\<lambda>(k, v). CHR 0x00 \<notin> set k \<and> CHR 0x00 \<notin> set v) kvs"
  shows "builtin_query_parse [V_string (path @ ''?'' @ query_encode kvs)] = V_map (map (\<lambda>(k, v). (V_atom k, V_string v)) kvs)"
  using assms strchr_skip(1) [OF assms(1), of "query_encode kvs"] query_loop_encode [OF assms(2), of "[]"]
  by (simp add: builtin_query_parse_def)

section \<open>Text of a page\<close>

text \<open>
  The text is at most 8000 characters long, does not begin with a blank and has no two blanks in a row; blanking keeps the
  length, so the second pass stays inside of the copy.
\<close>

fun single_spaced :: "bool \<Rightarrow> string \<Rightarrow> bool" where
  "single_spaced b [] = True"
| "single_spaced b (c # s) = ((is_ws c \<longrightarrow> \<not> b) \<and> single_spaced (is_ws c) s)"

lemma single_spaced_snoc:
  "single_spaced b (s @ [c]) = (single_spaced b s \<and> (is_ws c \<longrightarrow> \<not> (if s = [] then b else is_ws (last s))))"
  by (induction s arbitrary: b) auto

lemma strip_tags_text:
  assumes "length out \<le> cap - 1" "single_spaced True out" "spc = (out = [] \<or> is_ws (last out))"
  shows "length (strip_tags cap in_tag spc s out) \<le> cap - 1 \<and> single_spaced True (strip_tags cap in_tag spc s out)"
  using assms
proof (induction cap in_tag spc s out rule: strip_tags.induct)
  case (2 cap in_tag spc c s out)
  have sp: "is_ws (CHR '' '')" by (simp add: is_ws_def)
  obtain d n where dn: "(case (if c = CHR ''&'' then entity (c # s) else None) of Some e \<Rightarrow> e | None \<Rightarrow> (c, 1)) = (d, n)" by fastforce
  show ?case
  proof (cases "length out \<ge> cap - 1 \<or> c = CHR ''<'' \<or> c = CHR ''>'' \<or> in_tag")
    case True
    then show ?thesis using 2 by (auto split del: if_split) (simp_all split: if_split)
  next
    case False
    then have o: "length out < cap - 1" "\<not> length out \<ge> cap - 1" "c \<noteq> CHR ''<''" "c \<noteq> CHR ''>''" "\<not> in_tag" by auto
    note IH = 2(4,5) [OF o(2-5) dn [symmetric]]
    show ?thesis
    proof (cases "is_ws d")
      case True
      then have "length (strip_tags cap in_tag True (drop (n - 1) s) (if spc then out else out @ [CHR '' ''])) \<le> cap - 1
          \<and> single_spaced True (strip_tags cap in_tag True (drop (n - 1) s) (if spc then out else out @ [CHR '' '']))"
        using 2(6-8) o(1) sp by (intro IH(1)) (auto simp: single_spaced_snoc)
      then show ?thesis using o True dn by simp
    next
      case ws: False
      then have "length (strip_tags cap in_tag False (drop (n - 1) s) (out @ [d])) \<le> cap - 1
          \<and> single_spaced True (strip_tags cap in_tag False (drop (n - 1) s) (out @ [d]))"
        using 2(6-8) o(1) by (intro IH(2)) (auto simp: single_spaced_snoc)
      then show ?thesis using o ws dn by simp
    qed
  qed
qed simp

lemma strip_html_text: "length (strip_html s) \<le> 8000 \<and> single_spaced True (strip_html s)"
  using strip_tags_text [of "[]" 8001 True False "blank_blocks s"] by (simp add: strip_html_def)

lemma strcasestr_fits: "strcasestr s t = Some r \<Longrightarrow> length t \<le> length r"
proof -
  assume "strcasestr s t = Some r"
  then obtain r' where r': "strstr (map to_lower s) (map to_lower t) = Some r'" "r = drop (length s - length r') s"
    by (auto simp: strcasestr_def)
  obtain u where u: "map to_lower s = u @ r'" "take (length (map to_lower t)) r' = map to_lower t" using strstr_Some [OF r'(1)] by blast
  have "length t \<le> length r'" using u(2) by (metis length_map length_take min.bounded_iff order_refl)
  moreover have "length r' \<le> length s" using arg_cong [OF u(1), of length] by simp
  ultimately show ?thesis by (simp add: r'(2))
qed

lemma blank_tag_length: "length (blank_tag op cl p) = length p"
proof (induction op cl p rule: blank_tag.induct)
  case (1 op cl p)
  show ?case
  proof (cases "strcasestr p op")
    case (Some r)
    note le = strcasestr_length [OF Some]
    show ?thesis
    proof (cases "r = []")
      case False
      let ?a = "nth0 r (length op)"
      let ?other = "?a \<noteq> CHR '' '' \<and> ?a \<noteq> CHR ''>'' \<and> ?a \<noteq> CHR 0x09 \<and> ?a \<noteq> CHR 0x0A \<and> ?a \<noteq> CHR 0x00"
      show ?thesis
      proof (cases ?other)
        case True
        have "length (blank_tag op cl (tl r)) = length (tl r)" by (rule 1(1) [OF Some refl refl False True])
        then show ?thesis using Some False True le by (subst blank_tag.simps) (simp add: Let_def)
      next
        case other: False
        show ?thesis
        proof (cases "strcasestr r cl")
          case None
          then show ?thesis using Some False other le by (subst blank_tag.simps) (auto simp: Let_def)
        next
          case e: (Some e)
          note le' = strcasestr_length [OF e] strcasestr_fits [OF e]
          show ?thesis
          proof (cases "cl = [] \<or> e = []")
            case True
            then show ?thesis using Some False other e by (subst blank_tag.simps) (auto simp: Let_def)
          next
            case ne: False
            have "length (blank_tag op cl (drop (length cl) e)) = length (drop (length cl) e)"
              by (rule 1(2) [OF Some refl refl False other e ne])
            then show ?thesis using Some False other e ne le le' by (subst blank_tag.simps) (auto simp: Let_def)
          qed
        qed
      qed
    qed (use Some in \<open>simp add: blank_tag.simps Let_def\<close>)
  qed (simp add: blank_tag.simps)
qed

lemma blank_blocks_length: "length (blank_blocks s) = length s"
  by (simp add: blank_blocks_def block_tags_def blank_tag_length)

section \<open>Margins\<close>

text \<open>On a terminal of more than ten columns the writer never passes the right margin.\<close>

definition stream_inv :: "stream_state \<Rightarrow> bool" where
  "stream_inv s \<longleftrightarrow> 3 \<le> right_margin s \<and> 0 \<le> ss_col s \<and> ss_col s \<le> right_margin s"

lemma stream_emit_inv: "stream_inv s \<Longrightarrow> sw_stream_emit s c = (t, s') \<Longrightarrow> stream_inv s'"
  by (auto simp: stream_inv_def sw_stream_emit_def Let_def split: if_splits prod.splits)

lemma stream_within_margin:
  assumes "10 < w"
  shows "stream_inv (fold (\<lambda>c s. snd (sw_stream_emit s c)) cs (sw_stream_init w))"
proof (rule fold_invariant_list)
  show "stream_inv (sw_stream_init w)" using assms by (simp add: stream_inv_def sw_stream_init_def)
  show "stream_inv (snd (sw_stream_emit s c))" if "stream_inv s" for c s
    using stream_emit_inv [OF that] by (metis prod.collapse)
qed

end
