(* ===== verification/Studio.thy ===== *)
theory Studio
  imports Registry Links Proc_Groups Http Node Ets Supervisor Process Breaker
begin

text \<open>
  The builtins that connect the compiled language with the runtime, \<^verbatim>\<open>src/src/swarmrt_builtins_studio.h\<close>: names, links and monitors, process
  groups as publish and subscribe, the HTTP server, the distribution layer, supervisors and the introspection of processes. Each is
  its checks of the arguments around the operation of the component. An argument is used without a check of its type in a few
  places; \<^term>\<open>None\<close> is then the use of a value as a pointer that is none.
\<close>

section \<open>Arguments\<close>

definition ok_or_error :: "bool \<Rightarrow> sw_val" where
  "ok_or_error b = V_atom (if b then ''ok'' else ''error'')"

text \<open>The string and the process field of a value's union: null, a valid pointer, or other data read as a pointer.\<close>

datatype 'a field = F_null | F_ptr 'a | F_wild

fun str_field :: "sw_val \<Rightarrow> string field" where
  "str_field (V_string s) = F_ptr s"
| "str_field (V_atom s) = F_ptr s"
| "str_field V_nil = F_null"
| "str_field (V_int i) = (if i = 0 then F_null else F_wild)"
| "str_field (V_float x) = (if x = 0 then F_null else F_wild)"
| "str_field (V_pid p) = (if p = None then F_null else F_wild)"
| "str_field _ = F_wild"

fun pid_field :: "sw_val \<Rightarrow> proc_ref field" where
  "pid_field (V_pid p) = (case p of None \<Rightarrow> F_null | Some q \<Rightarrow> F_ptr q)"
| "pid_field V_nil = F_null"
| "pid_field (V_int i) = (if i = 0 then F_null else F_wild)"
| "pid_field (V_float x) = (if x = 0 then F_null else F_wild)"
| "pid_field _ = F_wild"

section \<open>Names, links and monitors\<close>

definition builtin_register :: "sw_val list \<Rightarrow> sw_registry \<Rightarrow> (sw_val \<times> sw_registry) option" where
  "builtin_register args rg =
     (case args of
        a # b # _ \<Rightarrow>
          (case (str_field a, pid_field b) of
             (F_null, _) \<Rightarrow> Some (V_atom ''error'', rg)
           | (_, F_null) \<Rightarrow> Some (V_atom ''error'', rg)
           | (F_ptr name, F_ptr p) \<Rightarrow> (let (rg, rc) = sw_register name p rg in Some (ok_or_error (rc = 0), rg))
           | _ \<Rightarrow> None)
      | _ \<Rightarrow> Some (V_atom ''error'', rg))"

definition builtin_whereis :: "sw_val list \<Rightarrow> sw_registry \<Rightarrow> sw_val option" where
  "builtin_whereis args rg =
     (case args of
        [] \<Rightarrow> Some V_nil
      | a # _ \<Rightarrow>
          (case str_field a of
             F_null \<Rightarrow> Some V_nil
           | F_ptr name \<Rightarrow> Some (case sw_whereis name rg of None \<Rightarrow> V_nil | Some p \<Rightarrow> V_pid (Some p))
           | F_wild \<Rightarrow> None))"

definition builtin_monitor :: "proc_ref \<Rightarrow> sw_val list \<Rightarrow> link_world \<Rightarrow> sw_val \<times> link_world" where
  "builtin_monitor self args w =
     (case args of
        V_pid None # _ \<Rightarrow> (V_int 0, w)
      | V_pid (Some p) # _ \<Rightarrow> (let (w, ref) = sw_monitor self p w in (V_int ref, w))
      | _ \<Rightarrow> (V_nil, w))"

definition builtin_link :: "proc_ref \<Rightarrow> sw_val list \<Rightarrow> link_world \<Rightarrow> sw_val \<times> link_world" where
  "builtin_link self args w =
     (case args of
        V_pid None # _ \<Rightarrow> (V_atom ''ok'', w)
      | V_pid (Some p) # _ \<Rightarrow> (V_atom ''ok'', fst (sw_link self p w))
      | _ \<Rightarrow> (V_atom ''error'', w))"

section \<open>Publish and subscribe\<close>

definition builtin_pubsub_subscribe :: "proc_ref \<Rightarrow> sw_val list \<Rightarrow> pg_table \<Rightarrow> sw_val \<times> pg_table" where
  "builtin_pubsub_subscribe self args B =
     (case args of
        a # _ \<Rightarrow> (case text_arg a of None \<Rightarrow> (V_atom ''error'', B) | Some topic \<Rightarrow> (V_atom ''ok'', fst (sw_pg_join topic self B)))
      | [] \<Rightarrow> (V_atom ''error'', B))"

definition builtin_pubsub_broadcast ::
  "(proc_ref \<Rightarrow> sw_proc_state) \<Rightarrow> sw_val list \<Rightarrow> pg_table \<Rightarrow> sw_val \<times> (proc_ref \<times> u64 \<times> sw_val) list" where
  "builtin_pubsub_broadcast st args B =
     (case args of
        a # ev # payload # _ \<Rightarrow>
          (case text_arg a of
             None \<Rightarrow> (V_atom ''error'', [])
           | Some topic \<Rightarrow> (V_atom ''ok'', fst (sw_pg_dispatch st topic SW_TAG_NONE (V_tuple [V_atom ''pubsub'', a, ev, payload]) B)))
      | _ \<Rightarrow> (V_atom ''error'', []))"

definition builtin_pubsub_unsubscribe :: "proc_ref \<Rightarrow> sw_val list \<Rightarrow> pg_table \<Rightarrow> sw_val \<times> pg_table" where
  "builtin_pubsub_unsubscribe self args B =
     (case args of
        a # _ \<Rightarrow> (case text_arg a of None \<Rightarrow> (V_atom ''error'', B) | Some topic \<Rightarrow> (V_atom ''ok'', fst (sw_pg_leave topic self B)))
      | [] \<Rightarrow> (V_atom ''error'', B))"

definition telemetry_topic :: "string \<Rightarrow> string" where
  "telemetry_topic ev = take 255 (''telemetry:'' @ ev)"

definition builtin_telemetry_emit ::
  "(proc_ref \<Rightarrow> sw_proc_state) \<Rightarrow> sw_val list \<Rightarrow> pg_table \<Rightarrow> sw_val \<times> (proc_ref \<times> u64 \<times> sw_val) list" where
  "builtin_telemetry_emit st args B =
     (case args of
        a # m # _ \<Rightarrow>
          (case text_arg a of
             None \<Rightarrow> (V_atom ''error'', [])
           | Some ev \<Rightarrow> (V_atom ''ok'', fst (sw_pg_dispatch st (telemetry_topic ev) SW_TAG_NONE (V_tuple [V_atom ''telemetry'', a, m]) B)))
      | _ \<Rightarrow> (V_atom ''error'', []))"

definition builtin_telemetry_subscribe :: "proc_ref \<Rightarrow> sw_val list \<Rightarrow> pg_table \<Rightarrow> sw_val \<times> pg_table" where
  "builtin_telemetry_subscribe self args B =
     (case args of
        a # _ \<Rightarrow> (case text_arg a of None \<Rightarrow> (V_atom ''error'', B) | Some ev \<Rightarrow> (V_atom ''ok'', fst (sw_pg_join (telemetry_topic ev) self B)))
      | [] \<Rightarrow> (V_atom ''error'', B))"

definition builtin_telemetry_unsubscribe :: "proc_ref \<Rightarrow> sw_val list \<Rightarrow> pg_table \<Rightarrow> sw_val \<times> pg_table" where
  "builtin_telemetry_unsubscribe self args B =
     (case args of
        a # _ \<Rightarrow> (case text_arg a of None \<Rightarrow> (V_atom ''error'', B) | Some ev \<Rightarrow> (V_atom ''ok'', fst (sw_pg_leave (telemetry_topic ev) self B)))
      | [] \<Rightarrow> (V_atom ''error'', B))"

section \<open>HTTP server\<close>

definition c_int :: "int64 \<Rightarrow> int" where
  "c_int i = sint (ucast i :: u32)"

definition builtin_http_listen :: "proc_ref option \<Rightarrow> int \<Rightarrow> bool \<Rightarrow> bool \<Rightarrow> proc_ref option \<Rightarrow> sw_val list \<Rightarrow> http_st \<Rightarrow> sw_val \<times> http_st" where
  "builtin_http_listen self fd bound listening bp args st =
     (case args of
        V_int i # _ \<Rightarrow> (let (r, st) = sw_http_listen self fd bound listening bp st in (ok_or_error (r \<noteq> None), st))
      | _ \<Rightarrow> (V_atom ''error'', st))"

definition text_or_empty :: "sw_val \<Rightarrow> string" where
  "text_or_empty v = (case v of V_string s \<Rightarrow> s | _ \<Rightarrow> [])"

definition builtin_http_respond :: "http_env \<Rightarrow> sw_val list \<Rightarrow> http_st \<Rightarrow> http_fault + sw_val \<times> http_st" where
  "builtin_http_respond e args st =
     (case args of
        V_int c # V_int s # h # b # _ \<Rightarrow>
          (case sw_http_respond e (c_int c) (c_int s) (Some (text_or_empty h)) (Some (text_or_empty b)) st of
             Inl f \<Rightarrow> Inl f
           | Inr (rc, st) \<Rightarrow> Inr (ok_or_error (rc = 0), st))
      | _ \<Rightarrow> Inr (V_atom ''error'', st))"

definition builtin_ws_send :: "http_env \<Rightarrow> sw_val list \<Rightarrow> http_st \<Rightarrow> sw_val \<times> http_st" where
  "builtin_ws_send e args st =
     (case args of
        V_int c # V_string s # _ \<Rightarrow> (let (rc, st) = sw_ws_send_text e (c_int c) s st in (ok_or_error (rc = 0), st))
      | _ \<Rightarrow> (V_atom ''error'', st))"

definition builtin_ws_close :: "http_env \<Rightarrow> sw_val list \<Rightarrow> http_st \<Rightarrow> sw_val \<times> http_st" where
  "builtin_ws_close e args st =
     (case args of
        V_int c # _ \<Rightarrow> (let (rc, st) = sw_ws_close e (c_int c) st in (ok_or_error (rc = 0), st))
      | _ \<Rightarrow> (V_atom ''error'', st))"

definition builtin_ws_set_handler :: "sw_val list \<Rightarrow> http_st \<Rightarrow> sw_val \<times> http_st" where
  "builtin_ws_set_handler args st =
     (case args of
        V_int c # V_pid p # _ \<Rightarrow> (let (rc, st) = sw_ws_set_handler (c_int c) p st in (ok_or_error (rc = 0), st))
      | _ \<Rightarrow> (V_atom ''error'', st))"

section \<open>Distribution\<close>

definition builtin_node_stop :: "sw_node \<Rightarrow> sw_val \<times> sw_node" where
  "builtin_node_stop nd = (V_atom ''ok'', sw_node_stop nd)"

text \<open>\<open>conn\<close> is the result of the connection attempt.\<close>

definition builtin_node_connect :: "nat option \<Rightarrow> sw_val list \<Rightarrow> sw_node \<Rightarrow> sw_val \<times> sw_node" where
  "builtin_node_connect conn args nd =
     (case args of
        V_string name # V_string host # V_int port # _ \<Rightarrow>
          (let (nd, rc) = sw_node_connect name host (ucast port) conn nd in (ok_or_error (rc = 0), nd))
      | _ \<Rightarrow> (V_atom ''error'', nd))"

definition builtin_node_disconnect :: "sw_val list \<Rightarrow> sw_node \<Rightarrow> sw_val \<times> sw_node" where
  "builtin_node_disconnect args nd =
     (case args of
        V_string name # _ \<Rightarrow> (let (nd, rc) = sw_node_disconnect name nd in (ok_or_error (rc = 0), nd))
      | _ \<Rightarrow> (V_atom ''error'', nd))"

definition builtin_node_is_connected :: "sw_val list \<Rightarrow> sw_node \<Rightarrow> sw_val" where
  "builtin_node_is_connected args nd =
     (case args of V_string name # _ \<Rightarrow> V_atom (if sw_node_is_connected name nd then ''true'' else ''false'') | _ \<Rightarrow> V_atom ''false'')"

definition builtin_node_peers :: "sw_node \<Rightarrow> sw_val" where
  "builtin_node_peers nd = V_list (map V_string (sw_node_peers SW_NODE_MAX_PEERS nd))"

section \<open>Tables, supervisors and processes\<close>

definition builtin_ets_list :: "ets_world \<Rightarrow> sw_val" where
  "builtin_ets_list w = V_list (map (\<lambda>t. V_int (ucast t)) (sw_ets_list_tids 256 w))"

definition builtin_ets_count :: "sw_val list \<Rightarrow> ets_world \<Rightarrow> sw_val" where
  "builtin_ets_count args w = V_int (case args of V_int i # _ \<Rightarrow> of_int (sw_ets_info_count (ucast i) w) | _ \<Rightarrow> -1)"

text \<open>\<open>entry\<close> is the address of \<^verbatim>\<open>_sup_child_entry\<close>, \<open>closure\<close> that of the block that holds a function.\<close>

definition child_of :: "u64 \<Rightarrow> (sw_val \<Rightarrow> u64) \<Rightarrow> nat \<Rightarrow> sw_val \<Rightarrow> sw_child_spec option" where
  "child_of entry closure i child =
     (case child of
        V_tuple (name # f # r # _) \<Rightarrow>
          Some \<lparr>cs_name = (case text_arg name of Some s \<Rightarrow> strncpy s 63 | None \<Rightarrow> take 62 (''child_'' @ show_nat i)),
                start_func = entry, start_arg = closure f,
                cs_restart = (if r = V_atom ''temporary'' then SW_TEMPORARY else if r = V_atom ''transient'' then SW_TRANSIENT else SW_PERMANENT)\<rparr>
      | _ \<Rightarrow> None)"

definition child_specs :: "u64 \<Rightarrow> (sw_val \<Rightarrow> u64) \<Rightarrow> sw_val list \<Rightarrow> sw_child_spec list" where
  "child_specs entry closure children =
     concat (map (\<lambda>(i, c). case child_of entry closure i c of None \<Rightarrow> [] | Some s \<Rightarrow> [s]) (enumerate 0 children))"

definition strategy_of :: "sw_val \<Rightarrow> sw_restart_strategy" where
  "strategy_of v =
     (if v = V_atom ''one_for_all'' then SW_ONE_FOR_ALL else if v = V_atom ''rest_for_one'' then SW_REST_FOR_ONE else SW_ONE_FOR_ONE)"

definition builtin_supervise ::
  "u64 \<Rightarrow> (sw_val \<Rightarrow> u64) \<Rightarrow> (sw_sup_spec \<times> name_buf \<Rightarrow> proc_ref option) \<Rightarrow> sw_val list \<Rightarrow> sw_val" where
  "builtin_supervise entry closure spawn args =
     (case args of
        strat # V_list children # _ \<Rightarrow>
          (if children = [] \<or> length children > 64 then V_nil
           else case sw_supervisor_start spawn (Some ''sw_sup'')
                       \<lparr>sup_strategy = strategy_of strat, max_restarts = 3, max_seconds = 5, sup_children = child_specs entry closure children\<rparr> of
                  None \<Rightarrow> V_nil
                | Some p \<Rightarrow> V_pid (Some p))
      | _ \<Rightarrow> V_nil)"

definition builtin_process_list :: "sw_swarm \<Rightarrow> sw_val" where
  "builtin_process_list sw =
     V_list (map (\<lambda>i. V_pid (Some i))
       (filter (\<lambda>i. pr_state (slab sw i) \<noteq> SW_PROC_FREE \<and> pr_state (slab sw i) \<noteq> SW_PROC_EXITING)
         [0..<proc_capacity (sw_arena_of sw)]))"

definition registered_pairs :: "sw_registry \<Rightarrow> (string \<times> proc_ref) list" where
  "registered_pairs rg = concat (map (\<lambda>b. map (\<lambda>e. (e_name e, e_proc e)) (rg_buckets rg b)) [0..<num_buckets rg])"

definition builtin_registered :: "sw_registry \<Rightarrow> sw_val" where
  "builtin_registered rg = V_list (map (\<lambda>(name, p). V_tuple [V_string name, V_pid (Some p)]) (registered_pairs rg))"

section \<open>Properties\<close>

text \<open>What the language sees of the registry: the list of \<^verbatim>\<open>registered\<close> and the lookup of \<^verbatim>\<open>whereis\<close> agree on every name.\<close>

lemma registered_pairs_whereis:
  assumes "reg_inv rg" "0 < num_buckets rg" "valid_name name"
  shows "(name, p) \<in> set (registered_pairs rg) \<longleftrightarrow> sw_whereis name rg = Some p"
proof
  assume "(name, p) \<in> set (registered_pairs rg)"
  then obtain b e where "e \<in> set (rg_buckets rg b)" "e_name e = name" "e_proc e = p"
    by (auto simp: registered_pairs_def)
  then show "sw_whereis name rg = Some p"
    unfolding whereis_iff [OF assms(1,3)] using reg_invD(5) [OF assms(1)] by blast
next
  assume "sw_whereis name rg = Some p"
  then obtain e where e: "rg_entry rg p = Some e" "e_name e = name" unfolding whereis_iff [OF assms(1,3)] by blast
  have "reg_index rg name < num_buckets rg" using assms(2) by (simp add: reg_index_def)
  then show "(name, p) \<in> set (registered_pairs rg)"
    using reg_invD(7,8) [OF assms(1) e(1)] e(2) by (force simp: registered_pairs_def)
qed

theorem registered_exact:
  assumes "reg_inv rg" "0 < num_buckets rg" "valid_name name" "builtin_registered rg = V_list vs"
  shows "V_tuple [V_string name, V_pid (Some p)] \<in> set vs \<longleftrightarrow> builtin_whereis [V_string name] rg = Some (V_pid (Some p))"
proof -
  have "V_tuple [V_string name, V_pid (Some p)] \<in> set vs \<longleftrightarrow> (name, p) \<in> set (registered_pairs rg)"
    using assms(4) by (force simp: builtin_registered_def)
  then show ?thesis
    using registered_pairs_whereis [OF assms(1-3)] by (simp add: builtin_whereis_def split: option.splits)
qed

text \<open>
  The topic of a telemetry event has ten characters more than the event, and a group name holds 63: a subscription to an event of 54
  characters or more answers \<^verbatim>\<open>'ok'\<close> and receives nothing.
\<close>

theorem telemetry_long_event_lost:
  assumes "pg_inv B" "54 \<le> length ev"
  shows "fst (builtin_telemetry_subscribe self [V_string ev] B) = V_atom ''ok''
    \<and> builtin_telemetry_emit st [V_string ev, m] (snd (builtin_telemetry_subscribe self [V_string ev] B)) = (V_atom ''ok'', [])"
proof -
  have len: "SW_REG_NAME_MAX \<le> length (telemetry_topic ev)" using assms(2) by (simp add: telemetry_topic_def const_simps)
  have sub: "builtin_telemetry_subscribe self [V_string ev] B = (V_atom ''ok'', fst (sw_pg_join (telemetry_topic ev) self B))"
    by (simp add: builtin_telemetry_subscribe_def text_arg_def)
  show ?thesis
    using pg_long_name_lost [OF assms(1) len, of self st SW_TAG_NONE "V_tuple [V_atom ''telemetry'', V_string ev, m]"]
    unfolding sub by (simp add: builtin_telemetry_emit_def text_arg_def)
qed

text \<open>Every process a supervisor of the language starts has one of the given children's functions, and the number of them is bounded.\<close>

lemma child_specs_length: "length (child_specs entry closure children) \<le> length children"
proof -
  have "length (child_specs entry closure children) = (\<Sum>x\<leftarrow>enumerate 0 children. length (case x of (i, c) \<Rightarrow> case child_of entry closure i c of None \<Rightarrow> [] | Some s \<Rightarrow> [s]))"
    by (simp add: child_specs_def length_concat comp_def)
  also have "\<dots> \<le> (\<Sum>x\<leftarrow>enumerate 0 children. 1)"
    by (rule sum_list_mono) (auto split: option.splits)
  finally show ?thesis by (simp add: sum_list_triv)
qed

end
