(* ===== verification/Pdf_Filters.thy ===== *)
theory Pdf_Filters
  imports Bytes
begin

text \<open>
  The stream decoders of the PDF reader, \<^verbatim>\<open>src/src/swarmrt_pdf.c\<close>: ASCIIHex, ASCII85, LZW, run lengths, and the PNG and TIFF
  predictors. A decoder that grows its output block keeps the size of the block in the model, and \<^term>\<open>None\<close> is a write behind it.
  Allocations do not fail and sizes stay far below the range of the type. Inflating is left to the zlib library.
\<close>

section \<open>Hexadecimal\<close>

definition pdf_hex_digit :: "char \<Rightarrow> nat option" where
  "pdf_hex_digit c =
     (let n = of_char c
      in if 48 \<le> n \<and> n \<le> 57 then Some (n - 48)
         else if 97 \<le> n \<and> n \<le> 102 then Some (n - 97 + 10)
         else if 65 \<le> n \<and> n \<le> 70 then Some (n - 65 + 10)
         else None)"

text \<open>Pairs of digits up to a closing angle bracket; other characters are skipped, and an odd last digit is the high half of a byte.\<close>

fun hex_scan :: "nat option \<Rightarrow> bytes \<Rightarrow> bytes \<Rightarrow> bytes \<times> bytes" where
  "hex_scan high buf [] = (case high of None \<Rightarrow> buf | Some h \<Rightarrow> buf @ [char_of (h * 16)], [])"
| "hex_scan high buf (c # s) =
     (if c = CHR ''>'' then (case high of None \<Rightarrow> buf | Some h \<Rightarrow> buf @ [char_of (h * 16)], s)
      else case pdf_hex_digit c of
             None \<Rightarrow> hex_scan high buf s
           | Some d \<Rightarrow> (case high of None \<Rightarrow> hex_scan (Some d) buf s | Some h \<Rightarrow> hex_scan None (buf @ [char_of (h * 16 + d)]) s))"

definition ascii_hex_decode :: "bytes \<Rightarrow> bytes" where
  "ascii_hex_decode s = fst (hex_scan None [] s)"

section \<open>ASCII85\<close>

text \<open>Space for \<open>n\<close> more bytes: the block is doubled once when it is too small.\<close>

definition put_bytes :: "nat \<Rightarrow> bytes \<Rightarrow> bytes \<Rightarrow> (nat \<times> bytes) option" where
  "put_bytes cap buf bs =
     (let cap = (if length buf + length bs > cap then cap * 2 else cap)
      in if length buf + length bs > cap then None else Some (cap, buf @ bs))"

definition a85_digit :: "nat \<Rightarrow> nat \<Rightarrow> nat" where
  "a85_digit tuple c = (tuple * 85 + c) mod 2 ^ 32"

definition a85_tail :: "nat \<Rightarrow> nat \<Rightarrow> bytes \<Rightarrow> bytes" where
  "a85_tail tuple cnt buf =
     (if cnt > 1 then buf @ take (cnt - 1) (be_bytes 4 (((\<lambda>t. a85_digit t 84) ^^ (5 - cnt)) tuple)) else buf)"

fun a85_loop :: "nat \<Rightarrow> nat \<Rightarrow> nat \<Rightarrow> bytes \<Rightarrow> bytes \<Rightarrow> bytes option" where
  "a85_loop cap tuple cnt buf [] = Some (a85_tail tuple cnt buf)"
| "a85_loop cap tuple cnt buf (c # s) =
     (if c = CHR ''~'' \<and> s \<noteq> [] \<and> hd s = CHR ''>'' then Some (a85_tail tuple cnt buf)
      else if of_char c < (33 :: nat) then a85_loop cap tuple cnt buf s
      else if c = CHR ''z'' then
        (case put_bytes cap buf (replicate 4 (CHR 0x00)) of None \<Rightarrow> None | Some (cap, buf) \<Rightarrow> a85_loop cap tuple cnt buf s)
      else let tuple = a85_digit tuple (of_char c - 33); cnt = cnt + 1
           in if cnt = 5
              then (case put_bytes cap buf (be_bytes 4 tuple) of None \<Rightarrow> None | Some (cap, buf) \<Rightarrow> a85_loop cap 0 0 buf s)
              else a85_loop cap tuple cnt buf s)"

definition ascii85_decode :: "bytes \<Rightarrow> bytes option" where
  "ascii85_decode s = a85_loop (length s) 0 0 [] s"

section \<open>LZW\<close>

definition LZW_MAX_TABLE :: nat where [const_simps]: "LZW_MAX_TABLE = 4096"
definition LZW_CLEAR :: nat where [const_simps]: "LZW_CLEAR = 256"
definition LZW_EOD :: nat where [const_simps]: "LZW_EOD = 257"

text \<open>
  A table entry is its text: the pool the entries point into is only appended to, until a clear code drops the entries with it.
  The code size is nine and the number of times it was widened.
\<close>

record lzw_st =
  lz_table :: "bytes option list"
  lz_next :: nat
  lz_wider :: nat
  lz_pool :: nat
  lz_prev :: "nat option"
  lz_cap :: nat
  lz_out :: bytes
  lz_buf :: nat
  lz_bits :: nat
  lz_in :: bytes

definition lz_size :: "lzw_st \<Rightarrow> nat" where
  "lz_size st = 9 + lz_wider st"

definition lzw_table :: "bytes option list" where
  "lzw_table = map (\<lambda>i. Some [char_of i]) [0..<256] @ replicate (LZW_MAX_TABLE - 256) None"

definition lzw_init :: "bytes \<Rightarrow> lzw_st" where
  "lzw_init s = \<lparr>lz_table = lzw_table, lz_next = 258, lz_wider = 0, lz_pool = 0, lz_prev = None,
     lz_cap = max 4096 (length s * 4), lz_out = [], lz_buf = 0, lz_bits = 0, lz_in = s\<rparr>"

text \<open>The bit reader.\<close>

function lzw_fill :: "nat \<Rightarrow> nat \<Rightarrow> nat \<Rightarrow> bytes \<Rightarrow> nat \<times> nat \<times> bytes" where
  "lzw_fill sz buf bits s =
     (if bits < sz \<and> s \<noteq> [] then lzw_fill sz ((buf * 256 + of_char (hd s)) mod 2 ^ 32) (bits + 8) (tl s) else (buf, bits, s))"
  by pat_completeness auto
termination by (relation "measure (\<lambda>(sz, buf, bits, s). length s)") auto

declare lzw_fill.simps [simp del]

definition lzw_read :: "lzw_st \<Rightarrow> (nat \<times> lzw_st) option" where
  "lzw_read st =
     (let (buf, bits, s) = lzw_fill (lz_size st) (lz_buf st) (lz_bits st) (lz_in st)
      in if bits < lz_size st then None
         else Some (buf div 2 ^ (bits - lz_size st) mod 2 ^ lz_size st,
                    st\<lparr>lz_buf := buf, lz_bits := bits - lz_size st, lz_in := s\<rparr>))"

definition lzw_clear :: "lzw_st \<Rightarrow> lzw_st" where
  "lzw_clear st = st\<lparr>lz_table := map (\<lambda>i. if 258 \<le> i \<and> i < lz_next st then None else lz_table st ! i) [0..<length (lz_table st)],
     lz_next := 258, lz_wider := 0, lz_pool := 0, lz_prev := None\<rparr>"

text \<open>The text of a code, with the use of the pool; \<^term>\<open>None\<close> ends the decoding.\<close>

definition lzw_entry :: "nat \<Rightarrow> lzw_st \<Rightarrow> (bytes \<times> nat) option" where
  "lzw_entry code st =
     (if code < lz_next st \<and> lz_table st ! code \<noteq> None then Some (the (lz_table st ! code), lz_pool st)
      else if code = lz_next st
      then (case lz_prev st of
              None \<Rightarrow> None
            | Some p \<Rightarrow>
                (case lz_table st ! p of
                   None \<Rightarrow> None
                 | Some d \<Rightarrow> (if lz_pool st + length d + 1 < LZW_MAX_TABLE * 256 then Some (d @ [hd d], lz_pool st + length d + 1) else None)))
      else None)"

definition lzw_add :: "bytes \<Rightarrow> lzw_st \<Rightarrow> lzw_st" where
  "lzw_add e st =
     (case lz_prev st of
        None \<Rightarrow> st
      | Some p \<Rightarrow>
          (if lz_next st < LZW_MAX_TABLE then
             (case lz_table st ! p of
                None \<Rightarrow> st
              | Some d \<Rightarrow>
                  (if lz_pool st + (length d + 1) < LZW_MAX_TABLE * 256
                   then st\<lparr>lz_table := (lz_table st)[lz_next st := Some (d @ [hd e])], lz_pool := lz_pool st + (length d + 1),
                           lz_next := lz_next st + 1,
                           lz_wider := (if lz_next st + 1 \<ge> 2 ^ lz_size st \<and> lz_size st < 12 then lz_wider st + 1 else lz_wider st)\<rparr>
                   else st))
           else st))"

lemma lzw_fill_total: "lzw_fill sz buf bits s = (buf', bits', s') \<Longrightarrow> 8 * length s' + bits' = 8 * length s + bits"
proof (induction sz buf bits s rule: lzw_fill.induct)
  case (1 sz buf bits s)
  show ?case
  proof (cases "bits < sz \<and> s \<noteq> []")
    case True
    then have "8 * length s' + bits' = 8 * length (tl s) + (bits + 8)" using 1 by (subst (asm) (2) lzw_fill.simps) simp
    then show ?thesis using True by (cases s) simp_all
  qed (use 1 in \<open>subst (asm) (2) lzw_fill.simps, auto\<close>)
qed

lemma lzw_read_total: "lzw_read st = Some (code, st') \<Longrightarrow> 8 * length (lz_in st') + lz_bits st' < 8 * length (lz_in st) + lz_bits st"
proof -
  assume a: "lzw_read st = Some (code, st')"
  obtain buf bits s where f: "lzw_fill (lz_size st) (lz_buf st) (lz_bits st) (lz_in st) = (buf, bits, s)" by (rule prod_cases3)
  then show ?thesis using a lzw_fill_total [OF f] by (auto simp: lzw_read_def lz_size_def split: if_splits)
qed

lemma lzw_add_keeps [simp]: "lz_in (lzw_add e st) = lz_in st" "lz_bits (lzw_add e st) = lz_bits st" "lz_buf (lzw_add e st) = lz_buf st"
  "lz_out (lzw_add e st) = lz_out st" "lz_cap (lzw_add e st) = lz_cap st" "lz_prev (lzw_add e st) = lz_prev st"
  by (simp_all add: lzw_add_def split: option.split)

text \<open>The whole loop: the output, or \<^term>\<open>None\<close> for a write behind the output block.\<close>

function lzw_loop :: "lzw_st \<Rightarrow> bytes option" where
  "lzw_loop st =
     (case lzw_read st of
        None \<Rightarrow> Some (lz_out st)
      | Some (code, st) \<Rightarrow>
          (if code = LZW_EOD then Some (lz_out st)
           else if code = LZW_CLEAR then lzw_loop (lzw_clear st)
           else case lzw_entry code st of
                  None \<Rightarrow> Some (lz_out st)
                | Some (e, pool) \<Rightarrow>
                    (case put_bytes (lz_cap st) (lz_out st) e of
                       None \<Rightarrow> None
                     | Some (cap, out) \<Rightarrow>
                         lzw_loop ((lzw_add e (st\<lparr>lz_pool := pool, lz_cap := cap, lz_out := out\<rparr>))\<lparr>lz_prev := Some code\<rparr>))))"
  by pat_completeness auto
termination
  by (relation "measure (\<lambda>st. 8 * length (lz_in st) + lz_bits st)") (auto dest!: lzw_read_total simp: lzw_clear_def)

declare lzw_loop.simps [simp del]

definition lzw_decode :: "bytes \<Rightarrow> bytes option" where
  "lzw_decode s = lzw_loop (lzw_init s)"

section \<open>Run lengths\<close>

text \<open>Growing to twice what is needed.\<close>

definition put_twice :: "nat \<Rightarrow> bytes \<Rightarrow> nat \<Rightarrow> nat" where
  "put_twice cap buf n = (if length buf + n > cap then (length buf + n) * 2 else cap)"

function rle_loop :: "nat \<Rightarrow> bytes \<Rightarrow> bytes \<Rightarrow> bytes option" where
  "rle_loop cap buf [] = Some buf"
| "rle_loop cap buf (b # s) =
     (if of_char b = (128 :: nat) then Some buf
      else if of_char b < (128 :: nat) then
        (let cnt = of_char b + 1; cap = put_twice cap buf cnt; part = take cnt s
         in if length buf + length part > cap then None else rle_loop cap (buf @ part) (drop cnt s))
      else let cnt = 257 - of_char b
           in case s of
                [] \<Rightarrow> Some buf
              | v # s \<Rightarrow>
                  (let cap = put_twice cap buf cnt
                   in if length buf + cnt > cap then None else rle_loop cap (buf @ replicate cnt v) s))"
  by pat_completeness auto
termination by (relation "measure (\<lambda>(cap, buf, s). length s)") auto

declare rle_loop.simps(2) [simp del]

definition rle_decode :: "bytes \<Rightarrow> bytes option" where
  "rle_decode s = rle_loop (max 4096 (length s * 2)) [] s"

section \<open>Predictors\<close>

definition byte_add :: "char \<Rightarrow> nat \<Rightarrow> char" where
  "byte_add c n = char_of (of_char c + n)"

definition paeth :: "int \<Rightarrow> int \<Rightarrow> int \<Rightarrow> int" where
  "paeth a b c =
     (let p = a + b - c; pa = abs (p - a); pb = abs (p - b); pc = abs (p - c)
      in if pa \<le> pb \<and> pa \<le> pc then a else if pb \<le> pc then b else c)"

text \<open>What a filter adds to the byte at an index, from the row so far and the row above.\<close>

definition left_of :: "nat \<Rightarrow> bytes \<Rightarrow> nat \<Rightarrow> nat" where
  "left_of bpp px i = (if i \<ge> bpp then of_char (px ! (i - bpp)) else 0)"

definition png_pred :: "nat \<Rightarrow> nat \<Rightarrow> bytes \<Rightarrow> bytes \<Rightarrow> nat \<Rightarrow> nat" where
  "png_pred flt bpp prev px i =
     (if flt = 1 then left_of bpp px i
      else if flt = 2 then of_char (prev ! i)
      else if flt = 3 then (left_of bpp px i + of_char (prev ! i)) div 2
      else if flt = 4 then nat (paeth (int (left_of bpp px i)) (of_char (prev ! i)) (int (left_of bpp prev i)))
      else 0)"

definition png_row :: "nat \<Rightarrow> nat \<Rightarrow> bytes \<Rightarrow> bytes \<Rightarrow> bytes" where
  "png_row flt bpp prev pixels =
     fold (\<lambda>i px. px[i := byte_add (px ! i) (png_pred flt bpp prev px i)]) [(if flt = 1 then bpp else 0)..<length pixels] pixels"

fun png_rows :: "nat \<Rightarrow> nat \<Rightarrow> nat \<Rightarrow> bytes \<Rightarrow> bytes \<Rightarrow> bytes" where
  "png_rows 0 bpp rb prev d = []"
| "png_rows (Suc n) bpp rb prev d =
     (let px = png_row (of_char (hd d)) bpp prev (take rb (tl d)) in px @ png_rows n bpp rb px (drop (Suc rb) d))"

text \<open>
  C division, and the products as \<^verbatim>\<open>int\<close>: \<^term>\<open>None\<close> when one overflows, or when the number of bytes of a pixel is negative, which
  makes the loops that look at the pixel on the left leave their row.
\<close>

definition cdiv :: "int \<Rightarrow> int \<Rightarrow> int" where
  "cdiv a b = (if a < 0 then - (- a div b) else a div b)"

definition int_ok :: "int \<Rightarrow> bool" where
  "int_ok i \<longleftrightarrow> - (2 ^ 31) \<le> i \<and> i < 2 ^ 31"

definition apply_png_predictor :: "bytes \<Rightarrow> int \<Rightarrow> int \<Rightarrow> int \<Rightarrow> bytes option" where
  "apply_png_predictor d columns colors bpc =
     (if \<not> (int_ok (colors * bpc) \<and> int_ok (colors * bpc + 7) \<and> int_ok (columns * colors)
             \<and> int_ok (columns * colors * bpc) \<and> int_ok (columns * colors * bpc + 7)) then None
      else let bpp = cdiv (colors * bpc + 7) 8; rb = cdiv (columns * colors * bpc + 7) 8
           in if rb + 1 \<le> 0 \<or> rb + 1 > int (length d) \<or> rb = 0 then Some d
              else if bpp < 0 \<and> list_ex (\<lambda>r. of_char (d ! (r * nat (rb + 1))) \<in> {1, 3, 4 :: nat}) [0..<length d div nat (rb + 1)] then None
              else Some (png_rows (length d div nat (rb + 1)) (nat bpp) (nat rb) (replicate (nat rb) (CHR 0x00)) d))"

text \<open>The number of components is positive, or the product of both is not and nothing happens, or both are negative and the loop leaves the row.\<close>

definition tiff_row :: "nat \<Rightarrow> bytes \<Rightarrow> bytes" where
  "tiff_row colors row = fold (\<lambda>i r. r[i := byte_add (r ! i) (of_char (r ! (i - colors)))]) [colors..<length row] row"

definition apply_tiff_predictor :: "bytes \<Rightarrow> int \<Rightarrow> int \<Rightarrow> bytes option" where
  "apply_tiff_predictor d columns colors =
     (if \<not> int_ok (columns * colors) then None
      else let rb = columns * colors
           in if rb \<le> 0 then Some d
              else if colors < 0 \<and> length d \<ge> nat rb then None
              else let n = length d div nat rb
                   in Some (concat (map (\<lambda>r. tiff_row (nat colors) (take (nat rb) (drop (r * nat rb) d))) [0..<n]) @ drop (n * nat rb) d))"

section \<open>Decoding what was written in hexadecimal\<close>

definition hex_char :: "nat \<Rightarrow> char" where
  "hex_char n = (if n < 10 then char_of (n + 48) else char_of (n + 87))"

definition hex_encode :: "bytes \<Rightarrow> bytes" where
  "hex_encode bs = concat (map (\<lambda>b. [hex_char (of_char b div 16), hex_char (of_char b mod 16)]) bs)"

lemma pdf_hex_digit_hex_char: "n < 16 \<Longrightarrow> pdf_hex_digit (hex_char n) = Some n"
  by (auto simp: pdf_hex_digit_def hex_char_def Let_def)

lemma hex_char_gt: "n < 16 \<Longrightarrow> hex_char n \<noteq> CHR ''>''"
proof -
  assume "n < 16"
  then have "pdf_hex_digit (hex_char n) \<noteq> None" by (simp add: pdf_hex_digit_hex_char)
  moreover have "pdf_hex_digit (CHR ''>'') = None" by (simp add: pdf_hex_digit_def)
  ultimately show ?thesis by metis
qed

lemma hex_scan_encode: "hex_scan None buf (hex_encode bs @ s) = hex_scan None (buf @ bs) s"
proof (induction bs arbitrary: buf)
  case (Cons b bs)
  have b: "of_char b div 16 < (16 :: nat)" "of_char b mod 16 < (16 :: nat)" "of_char b div 16 * 16 + of_char b mod 16 = (of_char b :: nat)"
    using less_mult_imp_div_less [of "of_char b" 16 16] of_char_less [of b] by simp_all
  show ?case using Cons.IH [of "buf @ [b]"] b
    by (simp add: hex_encode_def pdf_hex_digit_hex_char hex_char_gt)
qed (simp add: hex_encode_def)

lemma ascii_hex_round_trip: "ascii_hex_decode (hex_encode bs @ CHR ''>'' # s) = bs"
  by (simp add: ascii_hex_decode_def hex_scan_encode)

text \<open>The output fits the block of half the input and one byte.\<close>

lemma hex_scan_length: "length (fst (hex_scan high buf s)) \<le> length buf + (length s + (if high = None then 0 else 1) + 1) div 2"
proof (induction high buf s rule: hex_scan.induct)
  case (2 high buf c s)
  then show ?case by (auto split: option.split)
qed (auto split: option.split)

lemma ascii_hex_in_bounds: "length (ascii_hex_decode s) \<le> length s div 2 + 1"
  using hex_scan_length [of None "[]" s] by (simp add: ascii_hex_decode_def)

section \<open>ASCII85\<close>

text \<open>Doubling once is enough for four more bytes, except for a block of one byte.\<close>

definition a85_inv :: "nat \<Rightarrow> bytes \<Rightarrow> bool" where
  "a85_inv cap buf \<longleftrightarrow> 2 \<le> cap \<and> length buf \<le> cap \<and> (buf = [] \<or> 4 \<le> cap)"

lemma put_bytes_4:
  assumes "a85_inv cap buf" "length bs = 4"
  obtains cap' where "put_bytes cap buf bs = Some (cap', buf @ bs)" "a85_inv cap' (buf @ bs)"
proof -
  define c where "c = (if length buf + length bs > cap then cap * 2 else cap)"
  have "length buf + 4 \<le> c" using assms by (cases "buf = []") (auto simp: a85_inv_def c_def)
  moreover have "put_bytes cap buf bs = Some (c, buf @ bs)"
    using calculation assms(2) unfolding put_bytes_def Let_def c_def [symmetric] by simp
  ultimately show ?thesis using assms(2) by (intro that [of c]) (simp_all add: a85_inv_def)
qed

lemma length_be_bytes_k [simp]: "length (be_bytes k n) = k"
  by (simp add: be_bytes_def)

lemma a85_loop_in_bounds: "a85_inv cap buf \<Longrightarrow> a85_loop cap tuple cnt buf s \<noteq> None"
proof (induction s arbitrary: cap tuple cnt buf)
  case (Cons c s)
  obtain cap1 where c1: "put_bytes cap buf (replicate 4 (CHR 0x00)) = Some (cap1, buf @ replicate 4 (CHR 0x00))"
      "a85_inv cap1 (buf @ replicate 4 (CHR 0x00))"
    using put_bytes_4 [OF Cons.prems, of "replicate 4 (CHR 0x00)"] by auto
  define t where "t = a85_digit tuple (of_char c - 33)"
  obtain cap2 where c2: "put_bytes cap buf (be_bytes 4 t) = Some (cap2, buf @ be_bytes 4 t)" "a85_inv cap2 (buf @ be_bytes 4 t)"
    using put_bytes_4 [OF Cons.prems, of "be_bytes 4 t"] by auto
  show ?case
    using Cons.IH [OF Cons.prems] Cons.IH [OF c1(2)] Cons.IH [OF c2(2)]
    unfolding a85_loop.simps Let_def t_def [symmetric] c1(1) c2(1) by simp
qed simp

lemma ascii85_in_bounds: "ascii85_decode s = None \<longleftrightarrow> s = ''z''"
proof -
  consider "s = []" | c where "s = [c]" | "2 \<le> length s" by (cases s rule: remdups_adj.cases) auto
  then show ?thesis
  proof cases
    case 2
    then show ?thesis by (auto simp: ascii85_decode_def put_bytes_def Let_def)
  next
    case 3
    then have "a85_inv (length s) []" by (simp add: a85_inv_def)
    from a85_loop_in_bounds [OF this, of 0 0 s] have "ascii85_decode s \<noteq> None" by (simp add: ascii85_decode_def)
    moreover have "s \<noteq> ''z''" using 3 by auto
    ultimately show ?thesis by blast
  qed (simp add: ascii85_decode_def)
qed

text \<open>The digits of a group of four bytes, and the text of a stream: a last group of fewer bytes has one digit more than bytes.\<close>

definition a85_char :: "nat \<Rightarrow> nat \<Rightarrow> char" where
  "a85_char v k = char_of (v div 85 ^ k mod 85 + 33)"

definition a85_group :: "nat \<Rightarrow> bytes" where
  "a85_group v = [a85_char v 4, a85_char v 3, a85_char v 2, a85_char v 1, a85_char v 0]"

function a85_encode :: "bytes \<Rightarrow> bytes" where
  "a85_encode bs =
     (if bs = [] then []
      else if length bs < 4 then take (length bs + 1) (a85_group (be_value (bs @ replicate (4 - length bs) (CHR 0x00))))
      else a85_group (be_value (take 4 bs)) @ a85_encode (drop 4 bs))"
  by pat_completeness auto
termination by (relation "measure length") auto

declare a85_encode.simps [simp del]

lemma a85_char_val: "of_char (a85_char v k) = v div 85 ^ k mod 85 + 33"
proof -
  have "v div 85 ^ k mod 85 < 85" by simp
  then have "v div 85 ^ k mod 85 + 33 < 256" by linarith
  then show ?thesis by (simp add: a85_char_def)
qed

lemma a85_char_plain: "a85_char v k \<noteq> CHR ''~''" "a85_char v k \<noteq> CHR ''z''" "\<not> of_char (a85_char v k) < (33 :: nat)"
proof -
  have l: "of_char (a85_char v k) < (118 :: nat)" using mod_less_divisor [of 85 "v div 85 ^ k"] by (simp add: a85_char_val)
  show "a85_char v k \<noteq> CHR ''~''" "a85_char v k \<noteq> CHR ''z''" using l by (auto dest: arg_cong [where f = "of_char :: char \<Rightarrow> nat"])
  show "\<not> of_char (a85_char v k) < (33 :: nat)" by (simp add: a85_char_val)
qed

lemma a85_digit_step: "v < 2 ^ 32 \<Longrightarrow> a85_digit (v div 85 ^ Suc k) (v div 85 ^ k mod 85) = v div 85 ^ k"
proof -
  assume v: "v < 2 ^ 32"
  have "v div 85 ^ Suc k * 85 + v div 85 ^ k mod 85 = v div 85 ^ k"
    using div_mult2_eq [of v "85 ^ k" 85] by (simp add: mult.commute)
  moreover have "v div 85 ^ k < 2 ^ 32" using v by (meson div_le_dividend le_less_trans)
  ultimately show ?thesis by (simp add: a85_digit_def)
qed

lemma a85_loop_char:
  assumes "v < 2 ^ 32" "j = Suc k" "cnt' = cnt + 1" "cnt' \<noteq> 5"
  shows "a85_loop cap (v div 85 ^ j) cnt buf (a85_char v k # s) = a85_loop cap (v div 85 ^ k) cnt' buf s"
  using assms a85_char_plain [of v k] a85_digit_step [OF assms(1), of k] by (simp add: a85_char_val Let_def)

lemma a85_first_digits:
  assumes "v < 2 ^ 32"
  shows "a85_loop cap (v div 85 ^ 5) 0 buf (a85_char v 4 # s) = a85_loop cap (v div 85 ^ 4) 1 buf s"
    "a85_loop cap (v div 85 ^ 4) 1 buf (a85_char v 3 # s) = a85_loop cap (v div 85 ^ 3) 2 buf s"
    "a85_loop cap (v div 85 ^ 3) 2 buf (a85_char v 2 # s) = a85_loop cap (v div 85 ^ 2) 3 buf s"
    "a85_loop cap (v div 85 ^ 2) 3 buf (a85_char v 1 # s) = a85_loop cap (v div 85 ^ 1) 4 buf s"
  by (rule a85_loop_char [OF assms]; simp)+

lemma a85_loop_group:
  assumes "v < 2 ^ 32" "a85_inv cap buf"
  shows "\<exists>cap'. (\<forall>s. a85_loop cap 0 0 buf (a85_group v @ s) = a85_loop cap' 0 0 (buf @ be_bytes 4 v) s) \<and> a85_inv cap' (buf @ be_bytes 4 v)"
proof -
  obtain cap' where p: "put_bytes cap buf (be_bytes 4 v) = Some (cap', buf @ be_bytes 4 v)" "a85_inv cap' (buf @ be_bytes 4 v)"
    using put_bytes_4 [OF assms(2), of "be_bytes 4 v"] by auto
  have z: "v div 85 ^ 5 = 0" using assms(1) by simp
  note c = a85_first_digits [OF assms(1)]
  have "a85_loop cap 0 0 buf (a85_group v @ s) = a85_loop cap' 0 0 (buf @ be_bytes 4 v) s" for s
  proof -
    have "a85_loop cap (v div 85 ^ 5) 0 buf (a85_group v @ s) = a85_loop cap (v div 85 ^ 1) 4 buf (a85_char v 0 # s)"
      unfolding a85_group_def append.simps c ..
    then have "a85_loop cap 0 0 buf (a85_group v @ s) = a85_loop cap (v div 85 ^ Suc 0) 4 buf (a85_char v 0 # s)"
      unfolding z by (simp only: One_nat_def)
    also have "\<dots> = a85_loop cap' 0 0 (buf @ be_bytes 4 v) s"
      using a85_char_plain [of v 0] a85_digit_step [OF assms(1), of 0] p(1) by (simp add: a85_char_val Let_def)
    finally show ?thesis .
  qed
  then show ?thesis using p(2) by blast
qed

lemma le_bytes_value: "le_bytes (length bs) (le_value bs) = bs"
proof (induction bs)
  case (Cons b bs)
  have "(of_char b + 256 * le_value bs) div 256 = le_value bs" using of_char_less [of b] by simp
  moreover have "char_of ((of_char b + 256 * le_value bs) mod 256 :: nat) = b" using of_char_less [of b] by simp
  ultimately show ?case using Cons by (simp only: length_Cons le_value.simps le_bytes.simps char_of_mod_256)
qed simp

lemma be_bytes_value: "length bs = n \<Longrightarrow> be_bytes n (be_value bs) = bs"
  using le_bytes_value [of "rev bs"] by (simp add: be_bytes_def be_value_def)

lemma le_value_less: "le_value bs < 256 ^ length bs"
proof (induction bs)
  case (Cons b bs)
  have "of_char b + 256 * le_value bs < 256 + 256 * le_value bs" using of_char_less [of b] by simp
  also have "\<dots> = 256 * (le_value bs + 1)" by simp
  also have "\<dots> \<le> 256 * 256 ^ length bs" using Cons by (intro mult_le_mono2) simp
  finally show ?case by simp
qed simp

lemma be_value_less: "be_value bs < 256 ^ length bs"
  using le_value_less [of "rev bs"] by (simp add: be_value_def)

lemma le_bytes_drop: "drop m (le_bytes (n + m) t) = le_bytes n (t div 256 ^ m)"
proof (induction m arbitrary: t)
  case (Suc m)
  then show ?case by (simp add: div_mult2_eq)
qed simp

lemma be_bytes_take: "take n (be_bytes (n + m) t) = be_bytes n (t div 256 ^ m)"
  using le_bytes_drop [of m n t] by (simp add: be_bytes_def take_rev)

lemma a85_pad: "(q + 1) * 85 ^ m \<le> 2 ^ 32 \<Longrightarrow> ((\<lambda>t. a85_digit t 84) ^^ m) q = (q + 1) * 85 ^ m - 1"
proof (induction m)
  case (Suc m)
  have "(q + 1) * 85 ^ m \<le> (q + 1) * 85 ^ Suc m" by (intro mult_le_mono2 power_increasing) simp_all
  then have IH: "((\<lambda>t. a85_digit t 84) ^^ m) q = (q + 1) * 85 ^ m - 1" using Suc by simp
  define x where "x = (q + 1) * 85 ^ m"
  have x: "0 < x" "x * 85 \<le> 2 ^ 32" using Suc.prems by (simp_all add: x_def algebra_simps)
  then have "((x - 1) * 85 + 84) mod 2 ^ 32 = x * 85 - 1" by (simp add: diff_mult_distrib)
  then show ?case using IH by (simp add: a85_digit_def x_def algebra_simps)
qed simp

text \<open>The padding with the highest digit recovers the bytes: it adds less than what the missing bytes are worth.\<close>

lemma a85_tail_bytes:
  assumes "length bs = n" "n + m = 4" "0 < n"
  defines "v \<equiv> be_value (bs @ replicate m (CHR 0x00))"
  shows "a85_tail (v div 85 ^ m) (n + 1) buf = buf @ bs"
proof -
  have z: "be_value (replicate m (CHR 0x00)) = 0"
    unfolding be_value_def rev_replicate by (induction m) simp_all
  have v: "v = be_value bs * 256 ^ m" by (simp add: v_def be_value_append z)
  define t where "t = (v div 85 ^ m + 1) * 85 ^ m - 1"
  have "v = v div 85 ^ m * 85 ^ m + v mod 85 ^ m" by (rule div_mult_mod_eq [symmetric])
  moreover have "v mod 85 ^ m < 85 ^ m" by simp
  moreover have "t + 1 = v div 85 ^ m * 85 ^ m + 85 ^ m" by (simp add: t_def)
  ultimately have t: "v \<le> t" "t < v + 85 ^ m" by linarith+
  have "(85 :: nat) ^ m \<le> 256 ^ m" by (rule power_mono) simp_all
  then have t2: "t < (be_value bs + 1) * 256 ^ m" using t(2) v by simp
  then have d: "t div 256 ^ m = be_value bs" using t(1) v by (intro div_nat_eqI) (simp_all add: algebra_simps)
  have "be_value bs + 1 \<le> 256 ^ n" using be_value_less [of bs] assms(1) by simp
  then have "(be_value bs + 1) * 256 ^ m \<le> 256 ^ n * 256 ^ m" by (rule mult_le_mono1)
  also have "\<dots> = 2 ^ 32" using assms(2) by (simp add: power_add [symmetric])
  finally have "t < 2 ^ 32" using t2 by linarith
  moreover have "0 < (v div 85 ^ m + 1) * 85 ^ m" by simp
  ultimately have "(v div 85 ^ m + 1) * 85 ^ m \<le> 2 ^ 32" unfolding t_def by linarith
  moreover have "5 - (n + 1) = m" using assms(2) by simp
  ultimately have "((\<lambda>t. a85_digit t 84) ^^ (5 - (n + 1))) (v div 85 ^ m) = t"
    using a85_pad [of "v div 85 ^ m" m] by (simp add: t_def)
  moreover have "take n (be_bytes 4 t) = bs" using be_bytes_take [of n m t] be_bytes_value [OF assms(1)] assms(2) d by simp
  ultimately show ?thesis using assms(3) by (simp add: a85_tail_def)
qed

lemma a85_loop_rest:
  assumes "v < 2 ^ 32" "n + m = 4" "0 < n" "0 < m"
  shows "a85_loop cap 0 0 buf (take (n + 1) (a85_group v) @ ''~>'' @ s) = Some (a85_tail (v div 85 ^ m) (n + 1) buf)"
proof -
  have z: "v div 85 ^ 5 = 0" using assms(1) by simp
  note c = a85_first_digits [OF assms(1), unfolded z]
  consider "n = 1" "m = 3" | "n = 2" "m = 2" | "n = 3" "m = 1" using assms(2-4) by linarith
  then show ?thesis
  proof cases
    case 1
    have "take (n + 1) (a85_group v) = [a85_char v 4, a85_char v 3]" by (simp add: a85_group_def 1)
    then show ?thesis unfolding 1 append.simps by (simp only: c append.simps) (simp add: numeral_2_eq_2)
  next
    case 2
    have "take (n + 1) (a85_group v) = [a85_char v 4, a85_char v 3, a85_char v 2]" by (simp add: a85_group_def 2)
    then show ?thesis unfolding 2 append.simps by (simp only: c append.simps) (simp add: numeral_3_eq_3)
  next
    case 3
    have "take (n + 1) (a85_group v) = [a85_char v 4, a85_char v 3, a85_char v 2, a85_char v 1]" by (simp add: a85_group_def 3)
    then show ?thesis unfolding 3 append.simps by (simp only: c append.simps) simp
  qed
qed

lemma a85_loop_encode: "a85_inv cap buf \<Longrightarrow> a85_loop cap 0 0 buf (a85_encode bs @ ''~>'' @ s) = Some (buf @ bs)"
proof (induction bs arbitrary: cap buf rule: a85_encode.induct)
  case (1 bs)
  consider "bs = []" | n m where "length bs = n" "n + m = 4" "0 < n" "0 < m" | "4 \<le> length bs"
    by (metis length_greater_0_conv linorder_not_le less_imp_add_positive add.commute)
  then show ?case
  proof cases
    case (2 n m)
    define v where "v = be_value (bs @ replicate m (CHR 0x00))"
    have m: "4 - n = m" "bs \<noteq> []" "n < 4" using 2 by auto
    have "v < 2 ^ 32" using be_value_less [of "bs @ replicate m (CHR 0x00)"] 2 by (simp add: v_def)
    from a85_loop_rest [OF this 2(2-4), of cap buf s] a85_tail_bytes [OF 2(1-3), of buf]
    show ?thesis by (subst a85_encode.simps) (simp only: m 2(1) v_def if_False if_True)
  next
    case 3
    have v: "be_value (take 4 bs) < 2 ^ 32" using be_value_less [of "take 4 bs"] 3 by simp
    have b: "be_bytes 4 (be_value (take 4 bs)) = take 4 bs" using 3 by (intro be_bytes_value) simp
    obtain cap' where c: "\<And>s. a85_loop cap 0 0 buf (a85_group (be_value (take 4 bs)) @ s) = a85_loop cap' 0 0 (buf @ take 4 bs) s"
        "a85_inv cap' (buf @ take 4 bs)"
      using a85_loop_group [OF v "1.prems"] unfolding b by blast
    have "a85_loop cap' 0 0 (buf @ take 4 bs) (a85_encode (drop 4 bs) @ ''~>'' @ s) = Some ((buf @ take 4 bs) @ drop 4 bs)"
      using 3 by (intro "1.IH" c(2)) auto
    moreover have "bs \<noteq> []" "\<not> length bs < 4" using 3 by auto
    ultimately show ?thesis by (subst a85_encode.simps) (simp only: if_False append_assoc c(1) append_take_drop_id)
  qed (simp add: a85_encode.simps [of "[]"] a85_tail_def)
qed

lemma ascii85_round_trip: "ascii85_decode (a85_encode bs @ ''~>'' @ s) = Some bs"
proof -
  have "a85_inv (length (a85_encode bs @ ''~>'' @ s)) []" by (simp add: a85_inv_def)
  from a85_loop_encode [OF this, of bs s] show ?thesis by (simp only: ascii85_decode_def append_Nil)
qed

section \<open>Run lengths\<close>

lemma rle_loop_in_bounds: "length buf \<le> cap \<Longrightarrow> rle_loop cap buf s \<noteq> None"
proof (induction cap buf s rule: rle_loop.induct)
  case (2 cap buf b s)
  have put: "length buf + n \<le> put_twice cap buf n" for n by (simp add: put_twice_def)
  have part: "length buf + length (take n s) \<le> put_twice cap buf n" for n using put [of n] by (rule order_trans [rotated]) simp
  show ?case
  proof (cases "of_char b < (128 :: nat)")
    case True
    then show ?thesis using part [of "of_char b + 1"] 2 by (subst rle_loop.simps) (simp add: Let_def)
  next
    case False
    then show ?thesis using put [of "257 - of_char b"] 2 by (subst rle_loop.simps) (auto simp: Let_def split: list.split)
  qed
qed simp

text \<open>The runs of a stream: bytes as they are, or one byte several times.\<close>

datatype rle_run = Rle_copy bytes | Rle_repeat nat char

fun run_ok :: "rle_run \<Rightarrow> bool" where
  "run_ok (Rle_copy bs) = (1 \<le> length bs \<and> length bs \<le> 128)"
| "run_ok (Rle_repeat n c) = (2 \<le> n \<and> n \<le> 128)"

fun run_text :: "rle_run \<Rightarrow> bytes" where
  "run_text (Rle_copy bs) = char_of (length bs - 1) # bs"
| "run_text (Rle_repeat n c) = [char_of (257 - n), c]"

fun run_bytes :: "rle_run \<Rightarrow> bytes" where
  "run_bytes (Rle_copy bs) = bs"
| "run_bytes (Rle_repeat n c) = replicate n c"

lemma rle_loop_run:
  assumes "run_ok r" "length buf \<le> cap"
  shows "\<exists>cap'. (\<forall>s. rle_loop cap buf (run_text r @ s) = rle_loop cap' (buf @ run_bytes r) s) \<and> length (buf @ run_bytes r) \<le> cap'"
proof (cases r)
  case (Rle_copy bs)
  then obtain n where n: "length bs = Suc n" "n < 128" using assms(1) by (cases "length bs") auto
  then have b: "of_char (char_of n :: char) = n" by simp
  have "length buf + Suc n \<le> put_twice cap buf (Suc n)" by (simp add: put_twice_def)
  then have "rle_loop cap buf (run_text r @ s) = rle_loop (put_twice cap buf (Suc n)) (buf @ bs) s" for s
    using n b by (simp add: Rle_copy rle_loop.simps(2) Let_def)
  then show ?thesis using n by (intro exI [of _ "put_twice cap buf (Suc n)"]) (simp add: Rle_copy put_twice_def)
next
  case (Rle_repeat n c)
  define m where "m = 257 - n"
  have m: "n = 257 - m" "128 < m" "m < 256" using assms(1) Rle_repeat by (auto simp: m_def)
  then have b: "of_char (char_of m :: char) = m" by simp
  have "length buf + n \<le> put_twice cap buf n" by (simp add: put_twice_def)
  then have "rle_loop cap buf (char_of m # c # s) = rle_loop (put_twice cap buf n) (buf @ replicate n c) s" for s
    using m b by (simp add: rle_loop.simps(2) Let_def)
  then show ?thesis by (intro exI [of _ "put_twice cap buf n"]) (simp add: Rle_repeat m_def put_twice_def)
qed

lemma rle_loop_runs:
  "list_all run_ok rs \<Longrightarrow> length buf \<le> cap \<Longrightarrow>
     rle_loop cap buf (concat (map run_text rs) @ CHR 0x80 # s) = Some (buf @ concat (map run_bytes rs))"
proof (induction rs arbitrary: cap buf)
  case (Cons r rs)
  then obtain cap' where c: "\<And>s. rle_loop cap buf (run_text r @ s) = rle_loop cap' (buf @ run_bytes r) s" "length (buf @ run_bytes r) \<le> cap'"
    using rle_loop_run [of r buf cap] by auto
  show ?case using Cons.IH [OF _ c(2)] Cons.prems by (simp add: c(1))
qed (simp add: rle_loop.simps(2))

section \<open>LZW stays in its output block\<close>

text \<open>The text of a code is no longer than its number and one, so that it fits the block after one doubling.\<close>

definition lzw_inv :: "lzw_st \<Rightarrow> bool" where
  "lzw_inv st \<longleftrightarrow> length (lz_table st) = LZW_MAX_TABLE \<and> lz_next st \<le> LZW_MAX_TABLE \<and> lz_wider st \<le> 3
     \<and> (\<forall>i d. i < LZW_MAX_TABLE \<longrightarrow> lz_table st ! i = Some d \<longrightarrow> 1 \<le> length d \<and> length d \<le> i + 1 \<and> i < lz_next st)
     \<and> (\<forall>p. lz_prev st = Some p \<longrightarrow> p < LZW_MAX_TABLE)
     \<and> LZW_MAX_TABLE \<le> lz_cap st \<and> length (lz_out st) \<le> lz_cap st"

lemma lzw_read_code:
  assumes "lzw_read st = Some (code, st')" "lzw_inv st"
  shows "code < LZW_MAX_TABLE" "lzw_inv st'"
proof -
  obtain buf bits s where f: "lzw_fill (lz_size st) (lz_buf st) (lz_bits st) (lz_in st) = (buf, bits, s)" by (rule prod_cases3)
  have "code = buf div 2 ^ (bits - lz_size st) mod 2 ^ lz_size st" "st' = st\<lparr>lz_buf := buf, lz_bits := bits - lz_size st, lz_in := s\<rparr>"
    using assms(1) f by (auto simp: lzw_read_def split: if_splits)
  moreover have "(2 :: nat) ^ lz_size st \<le> 2 ^ 12" using assms(2) by (intro power_increasing) (simp_all add: lz_size_def lzw_inv_def)
  moreover have "buf div 2 ^ (bits - lz_size st) mod 2 ^ lz_size st < 2 ^ lz_size st" by simp
  ultimately have "code < 2 ^ 12" "lzw_inv st'" using assms(2) by (linarith, simp add: lzw_inv_def)
  then show "code < LZW_MAX_TABLE" "lzw_inv st'" by (simp_all add: const_simps)
qed

lemma lzw_clear_inv: "lzw_inv st \<Longrightarrow> lzw_inv (lzw_clear st)"
proof -
  assume i: "lzw_inv st"
  have n: "lz_table (lzw_clear st) ! j = (if 258 \<le> j \<and> j < lz_next st then None else lz_table st ! j)" if "j < LZW_MAX_TABLE" for j
    using i that by (simp add: lzw_clear_def lzw_inv_def)
  have "1 \<le> length d \<and> length d \<le> j + 1 \<and> j < 258" if "j < LZW_MAX_TABLE" "lz_table (lzw_clear st) ! j = Some d" for j d
  proof -
    have "\<not> (258 \<le> j \<and> j < lz_next st)" "lz_table st ! j = Some d" using that n [OF that(1)] by (auto split: if_splits)
    moreover have "1 \<le> length d \<and> length d \<le> j + 1 \<and> j < lz_next st" using i calculation(2) that(1) by (simp add: lzw_inv_def)
    ultimately show ?thesis by linarith
  qed
  then show ?thesis using i unfolding lzw_inv_def by (simp add: lzw_clear_def const_simps)
qed

lemma lzw_entry_length:
  assumes "lzw_inv st" "lzw_entry code st = Some (e, pool)" "code < LZW_MAX_TABLE"
  shows "1 \<le> length e \<and> length e \<le> LZW_MAX_TABLE"
proof (cases "code < lz_next st \<and> lz_table st ! code \<noteq> None")
  case True
  then have "lz_table st ! code = Some e" using assms(2) by (auto simp: lzw_entry_def)
  then show ?thesis using assms(1,3) by (fastforce simp: lzw_inv_def)
next
  case False
  then obtain p d where p: "code = lz_next st" "lz_prev st = Some p" "lz_table st ! p = Some d" "e = d @ [hd d]"
    using assms(2) by (auto simp: lzw_entry_def split: if_splits option.splits)
  have "p < LZW_MAX_TABLE" using assms(1) p(2) by (simp add: lzw_inv_def)
  then have "length d \<le> p + 1 \<and> p < lz_next st" using assms(1) p(3) by (simp add: lzw_inv_def)
  then show ?thesis using assms(3) p(1,4) by simp
qed

lemma lzw_add_inv:
  assumes "lzw_inv st"
  shows "lzw_inv (lzw_add e st)"
proof (cases "\<exists>p d. lz_prev st = Some p \<and> lz_next st < LZW_MAX_TABLE \<and> lz_table st ! p = Some d
    \<and> lz_pool st + (length d + 1) < LZW_MAX_TABLE * 256")
  case False
  then have "lzw_add e st = st" by (auto simp: lzw_add_def split: option.split)
  then show ?thesis using assms by simp
next
  case True
  then obtain p d where p: "lz_prev st = Some p" "lz_next st < LZW_MAX_TABLE" "lz_table st ! p = Some d"
      "lz_pool st + (length d + 1) < LZW_MAX_TABLE * 256" by blast
  have "p < LZW_MAX_TABLE" using assms p(1) by (simp add: lzw_inv_def)
  then have d: "length d \<le> p + 1" "p < lz_next st" using assms p(3) by (simp_all add: lzw_inv_def)
  have a: "lzw_add e st = st\<lparr>lz_table := (lz_table st)[lz_next st := Some (d @ [hd e])], lz_pool := lz_pool st + (length d + 1),
      lz_next := lz_next st + 1,
      lz_wider := (if lz_next st + 1 \<ge> 2 ^ lz_size st \<and> lz_size st < 12 then lz_wider st + 1 else lz_wider st)\<rparr>"
    using p by (simp add: lzw_add_def)
  have "1 \<le> length f \<and> length f \<le> i + 1 \<and> i < lz_next st + 1"
    if "i < LZW_MAX_TABLE" "(lz_table st)[lz_next st := Some (d @ [hd e])] ! i = Some f" for i f
  proof (cases "i = lz_next st")
    case True
    then show ?thesis using that p(2) d assms by (auto simp: lzw_inv_def)
  next
    case False
    then have "lz_table st ! i = Some f" using that(2) by simp
    then show ?thesis using assms that(1) by (auto simp: lzw_inv_def intro: less_SucI)
  qed
  then show ?thesis using assms p(2) unfolding lzw_inv_def a by (auto simp: lz_size_def)
qed

lemma put_bytes_fits:
  assumes "m \<le> cap" "length buf \<le> cap" "length bs \<le> m"
  shows "\<exists>cap'. put_bytes cap buf bs = Some (cap', buf @ bs) \<and> cap \<le> cap' \<and> length (buf @ bs) \<le> cap'"
  using assms by (simp add: put_bytes_def Let_def)

lemma lzw_loop_in_bounds: "lzw_inv st \<Longrightarrow> lzw_loop st \<noteq> None"
proof (induction st rule: lzw_loop.induct)
  case (1 st)
  show ?case
  proof (cases "lzw_read st")
    case None
    then show ?thesis by (subst lzw_loop.simps) simp
  next
    case (Some r)
    obtain code st1 where r: "r = (code, st1)" by fastforce
    have c: "code < LZW_MAX_TABLE" "lzw_inv st1" using lzw_read_code [OF _ "1.prems"] Some r by auto
    show ?thesis
    proof (cases "code = LZW_EOD \<or> code = LZW_CLEAR \<or> lzw_entry code st1 = None")
      case True
      then show ?thesis using Some r "1.IH"(1) lzw_clear_inv [OF c(2)] by (subst lzw_loop.simps) (auto simp: const_simps)
    next
      case False
      then obtain e pool where e: "lzw_entry code st1 = Some (e, pool)" by auto
      have l: "length e \<le> LZW_MAX_TABLE" using lzw_entry_length [OF c(2) e c(1)] by simp
      then obtain cap where p: "put_bytes (lz_cap st1) (lz_out st1) e = Some (cap, lz_out st1 @ e)" "lz_cap st1 \<le> cap"
          "length (lz_out st1 @ e) \<le> cap"
        using put_bytes_fits [OF _ _ l] c(2) unfolding lzw_inv_def by metis
      let ?st = "st1\<lparr>lz_pool := pool, lz_cap := cap, lz_out := lz_out st1 @ e\<rparr>"
      have "lzw_inv ?st" using c(2) p(2,3) by (simp add: lzw_inv_def)
      then have "lzw_inv ((lzw_add e ?st)\<lparr>lz_prev := Some code\<rparr>)" using lzw_add_inv [of ?st e] c(1) by (simp add: lzw_inv_def)
      then have "lzw_loop ((lzw_add e ?st)\<lparr>lz_prev := Some code\<rparr>) \<noteq> None" using "1.IH"(2) Some r False e p(1) by auto
      then show ?thesis using Some r False e p(1) by (subst lzw_loop.simps) simp
    qed
  qed
qed

section \<open>Predictors undo their differences\<close>

text \<open>
  The loops of the predictors: each byte of a row gets what the prediction from the bytes before it adds. When the prediction only
  looks at bytes before, the loop turns the differences back into the row.
\<close>

definition byte_sub :: "char \<Rightarrow> nat \<Rightarrow> char" where
  "byte_sub c n = char_of (of_char c + (256 - n mod 256))"

lemma byte_add_sub: "byte_add (byte_sub c n) n = c"
proof -
  have "(of_char c + (256 - n mod 256)) mod 256 + n mod 256 + 256 * (n div 256) = (of_char c + (256 - n mod 256)) mod 256 + n" by simp
  have "((of_char c + (256 - n mod 256)) mod 256 + n) mod 256 = (of_char c + (256 - n mod 256) + n mod 256) mod (256 :: nat)"
    by (simp only: mod_add_left_eq mod_add_right_eq)
  also have "of_char c + (256 - n mod 256) + n mod 256 = of_char c + (256 :: nat)"
    using mod_less_divisor [of 256 n] by linarith
  finally have "((of_char c + (256 - n mod 256)) mod 256 + n) mod 256 = (of_char c :: nat)" using of_char_less [of c] by simp
  then have "char_of ((of_char c + (256 - n mod 256)) mod 256 + n) = c" by (metis char_of_mod_256 char_of_char)
  then show ?thesis by (simp add: byte_add_def byte_sub_def)
qed

lemma undo_differences:
  fixes row :: bytes
  assumes "length d = length row" "s \<le> length row" "\<And>i. i < s \<Longrightarrow> d ! i = row ! i"
    and "\<And>i. s \<le> i \<Longrightarrow> i < length row \<Longrightarrow> d ! i = byte_sub (row ! i) (f row i)"
    and "\<And>px i. s \<le> i \<Longrightarrow> i < length row \<Longrightarrow> \<forall>j<i. px ! j = row ! j \<Longrightarrow> f px i = f row i"
  shows "fold (\<lambda>i px. px[i := byte_add (px ! i) (f px i)]) [s..<length row] d = row"
proof -
  have "fold (\<lambda>i px. px[i := byte_add (px ! i) (f px i)]) [s..<n] d = take n row @ drop n d" if "s \<le> n" "n \<le> length row" for n
    using that
  proof (induction n rule: dec_induct)
    case base
    have "take s d = take s row" using assms(1-3) by (intro nth_equalityI) auto
    then show ?case using append_take_drop_id [of s d] by simp
  next
    case (step n)
    let ?px = "take n row @ drop n d"
    have l: "n < length row" "n < length d" using step.prems assms(1) by simp_all
    have "?px ! n = d ! n" "length (take n row) = n" using l by (simp_all add: nth_append)
    moreover have "f ?px n = f row n" using step l by (intro assms(5)) (auto simp: nth_append)
    ultimately have b: "byte_add (?px ! n) (f ?px n) = row ! n" using assms(4) [of n] step l by (simp add: byte_add_sub)
    have "fold (\<lambda>i px. px[i := byte_add (px ! i) (f px i)]) [s..<Suc n] d = ?px[n := row ! n]"
      using step b by simp
    also have "\<dots> = take (Suc n) row @ drop (Suc n) d"
      using l by (simp add: list_update_append take_Suc_conv_app_nth Cons_nth_drop_Suc [symmetric])
    finally show ?case .
  qed
  from this [OF assms(2) order_refl] show ?thesis using assms(1) by simp
qed

text \<open>A row as a PNG encoder writes it: the filter, and the differences.\<close>

definition png_line :: "nat \<Rightarrow> nat \<Rightarrow> bytes \<Rightarrow> bytes \<Rightarrow> bytes" where
  "png_line flt bpp prev row = char_of flt # map (\<lambda>i. byte_sub (row ! i) (png_pred flt bpp prev row i)) [0..<length row]"

fun png_lines :: "nat \<Rightarrow> bytes \<Rightarrow> (nat \<times> bytes) list \<Rightarrow> bytes" where
  "png_lines bpp prev [] = []"
| "png_lines bpp prev ((flt, row) # rows) = png_line flt bpp prev row @ png_lines bpp row rows"

lemma byte_sub_0 [simp]: "byte_sub c 0 = c"
  by (metis add_0_right byte_add_def byte_add_sub char_of_char)

lemma png_row_line:
  assumes "0 < bpp" "flt < 256"
  shows "png_row flt bpp prev (tl (png_line flt bpp prev row)) = row"
proof -
  let ?d = "map (\<lambda>i. byte_sub (row ! i) (png_pred flt bpp prev row i)) [0..<length row]"
  let ?s = "if flt = 1 then bpp else 0"
  have pred: "png_pred flt bpp prev px i = png_pred flt bpp prev row i" if "\<forall>j<i. px ! j = row ! j" for px i
  proof -
    have "left_of bpp px i = left_of bpp row i" using that assms(1) by (simp add: left_of_def)
    then show ?thesis by (simp add: png_pred_def)
  qed
  have "fold (\<lambda>i px. px[i := byte_add (px ! i) (png_pred flt bpp prev px i)]) [?s..<length row] ?d = row"
  proof (cases "?s \<le> length row")
    case True
    have "?d ! i = row ! i" if "i < ?s" for i
      using that True by (auto simp: png_pred_def left_of_def split: if_splits)
    then show ?thesis using True by (intro undo_differences [where f = "png_pred flt bpp prev"] pred) simp_all
  next
    case False
    then have "flt = 1" "length row < bpp" by (auto split: if_splits)
    then show ?thesis by (intro nth_equalityI) (auto simp: png_pred_def left_of_def)
  qed
  then show ?thesis by (simp add: png_row_def png_line_def)
qed

lemma png_rows_lines:
  assumes "0 < bpp" "list_all (\<lambda>(flt, row). flt < 256 \<and> length row = rb) rows"
  shows "png_rows (length rows) bpp rb prev (png_lines bpp prev rows @ rest) = concat (map snd rows)"
  using assms(2)
proof (induction rows arbitrary: prev)
  case (Cons x rows)
  obtain flt row where x: "x = (flt, row)" by fastforce
  have f: "flt < 256" "length row = rb" using Cons.prems x by simp_all
  have l: "length (tl (png_line flt bpp prev row)) = rb" "png_line flt bpp prev row = char_of flt # tl (png_line flt bpp prev row)"
    by (simp_all add: png_line_def f)
  have t: "take rb (tl (png_line flt bpp prev row @ t)) = tl (png_line flt bpp prev row)" "drop (Suc rb) (png_line flt bpp prev row @ t) = t"
      "hd (png_line flt bpp prev row @ t) = char_of flt" for t
    using l by (simp_all add: png_line_def f)
  have "png_row (of_char (char_of flt :: char)) bpp prev (tl (png_line flt bpp prev row)) = row"
    using png_row_line [OF assms(1) f(1)] f(1) by simp
  moreover have "png_rows (length rows) bpp rb row (png_lines bpp row rows @ rest) = concat (map snd rows)"
    using Cons by simp
  ultimately show ?case unfolding x png_lines.simps append_assoc list.size(4) add_Suc_right add_0_right png_rows.simps t Let_def by simp
qed simp

text \<open>The TIFF predictor undoes the differences to the pixel on the left.\<close>

lemma tiff_row_round_trip:
  assumes "0 < colors" "colors \<le> length row"
  shows "tiff_row colors (map (\<lambda>i. if i < colors then row ! i else byte_sub (row ! i) (of_char (row ! (i - colors)))) [0..<length row]) = row"
proof -
  let ?d = "map (\<lambda>i. if i < colors then row ! i else byte_sub (row ! i) (of_char (row ! (i - colors)))) [0..<length row]"
  have "fold (\<lambda>i px. px[i := byte_add (px ! i) (of_char (px ! (i - colors)))]) [colors..<length row] ?d = row"
    using assms by (intro undo_differences [where f = "\<lambda>px i. of_char (px ! (i - colors))"]) simp_all
  then show ?thesis by (simp add: tiff_row_def)
qed

section \<open>Properties\<close>

lemma lzw_init_inv: "lzw_inv (lzw_init s)"
proof -
  have "1 \<le> length d \<and> length d \<le> i + 1 \<and> i < 258" if "i < LZW_MAX_TABLE" "lzw_table ! i = Some d" for i d
    using that by (cases "i < 256") (auto simp: lzw_table_def nth_append const_simps)
  then show ?thesis by (auto simp: lzw_inv_def lzw_init_def lzw_table_def const_simps)
qed


text \<open>
  Streams written in hexadecimal, in groups of base 85 digits or as runs are decoded to the bytes that were written, and
  nothing behind the end mark is read.
\<close>

theorem pdf_filters_round_trip:
  assumes "list_all run_ok rs"
  shows "ascii_hex_decode (hex_encode bs @ CHR ''>'' # s) = bs \<and> ascii85_decode (a85_encode bs @ ''~>'' @ s) = Some bs
    \<and> rle_decode (concat (map run_text rs) @ CHR 0x80 # s) = Some (concat (map run_bytes rs))"
  using ascii_hex_round_trip [of bs s] ascii85_round_trip [of bs s] rle_loop_runs [OF assms, of "[]"] by (simp add: rle_decode_def)

text \<open>
  The PNG predictor gives back the rows of an image, whichever filter each row was written with, and ignores an incomplete row at the end.
\<close>

lemma length_png_lines:
  "list_all (\<lambda>(flt, row). flt < 256 \<and> length row = rb) rows \<Longrightarrow> length (png_lines bpp prev rows) = length rows * Suc rb"
  by (induction bpp prev rows rule: png_lines.induct) (simp_all add: png_line_def)

theorem png_predictor_round_trip:
  fixes columns colors bpc :: int
  defines "rb \<equiv> nat ((columns * colors * bpc + 7) div 8)" and "bpp \<equiv> nat ((colors * bpc + 7) div 8)"
  assumes "0 < columns" "0 < colors" "0 < bpc" "columns * colors * bpc + 7 < 2 ^ 31" "rows \<noteq> []" "length rest \<le> rb"
    and "list_all (\<lambda>(flt, row). flt < 256 \<and> length row = rb) rows"
  shows "apply_png_predictor (png_lines bpp (replicate rb (CHR 0x00)) rows @ rest) columns colors bpc = Some (concat (map snd rows))"
proof -
  let ?d = "png_lines bpp (replicate rb (CHR 0x00)) rows @ rest"
  have cb: "1 \<le> colors * bpc" using assms(4,5) by (simp add: int_one_le_iff_zero_less)
  have cc: "columns * colors \<le> columns * colors * bpc" "colors * bpc \<le> columns * colors * bpc" "1 \<le> columns * colors"
    using assms(3-5) mult_right_mono [of 1 columns "colors * bpc"] by (simp_all add: mult.assoc mult_le_cancel_left1 int_one_le_iff_zero_less)
  have ok: "int_ok (colors * bpc)" "int_ok (colors * bpc + 7)" "int_ok (columns * colors)" "int_ok (columns * colors * bpc)"
      "int_ok (columns * colors * bpc + 7)"
    using cb cc assms(6) by (simp_all add: int_ok_def)
  have rb: "0 < rb" "cdiv (columns * colors * bpc + 7) 8 = int rb" "cdiv (colors * bpc + 7) 8 = int bpp" "0 < bpp"
    using cb cc by (simp_all add: rb_def bpp_def cdiv_def pos_imp_zdiv_pos_iff)
  have l: "length ?d = length rows * Suc rb + length rest" using length_png_lines [OF assms(9)] by simp
  have "(length rows * Suc rb + length rest) div Suc rb = length rows" using assms(8) by (intro div_nat_eqI) simp_all
  then have "length ?d div Suc rb = length rows" using l by simp
  moreover have "int rb + 1 \<le> int (length ?d)" using l assms(7) by (cases rows) auto
  ultimately show ?thesis
    unfolding apply_png_predictor_def Let_def rb(2,3)
    using ok rb(1,4) png_rows_lines [OF rb(4) assms(9), of "replicate rb (CHR 0x00)" rest] by (simp add: nat_add_distrib)
qed

end
