(* ===== verification/Spec2Isabelle.thy ===== *)
theory Spec2Isabelle
  imports Arena Mailbox Runq Receive Registry Timers Links Ets Proc_Groups Hotload Gc Process Exit Supervisor
     Genserver Agent Application Dynsup Statem Task Bytes Lang_Value Json Node Lang_Lexer Lang_Parser Lang_Print
     Lang_Eval Lang_Scope Lang_Total Io Http Vets Breaker Text_Builtins Studio Pdf_Filters
begin

text \<open>
  \<^bold>\<open>SwarmRT: a verification of the runtime.\<close>
  SwarmRT (\<^verbatim>\<open>src/src\<close>) runs Erlang-style processes in one address space: lightweight processes with mailboxes,
  spread over scheduler threads, with links, monitors, supervision, tables, hot code reload, distribution over TCP and a
  small language, \<^verbatim>\<open>.sw\<close>. The library is built from \<^verbatim>\<open>swarmrt_native.c\<close> and its companions; this development follows
  it file by file. Every definition keeps the name of what it models where HOL allows it.

  \<^bold>\<open>How the parts work together.\<close> A spawn takes a slot and a heap block from the arena, initialises the process control
  block, and pushes it on a run queue. A scheduler pops it by priority and switches to it. The process sends by pushing a
  signal on the receiver's mailbox and waking it; a receive drains the signals to a private queue and sleeps when there
  is nothing to take, with a timer when there is a time limit. When a process exits, each component drops what refers to
  it: the registry its names, the tables their owner, groups their members, modules their tracked processes, links and
  monitors become signals to others. Servers, supervisors and the distribution layer are built on send and receive; the
  language has its own values, which travel as JSON text between nodes, a lexer, a parser and an evaluator; a program of
  the language is parsed to a module, and the evaluator calls a function of it by name.

  \<^bold>\<open>Theories, in the order of the code.\<close>
    \<^item> \<open>Swarm_Prelude\<close>: machine integers, process references, tags, C strings, arrays used as stacks; the collections
      \<open>const_simps\<close> and \<open>array_simps\<close>; the locales \<open>exit_cleanup\<close> (what a component promises to \<^verbatim>\<open>process_exit\<close>) and
      \<open>kv_store\<close> (tables with an equality on keys).
    \<^item> \<open>Arena\<close> (\<^verbatim>\<open>swarmrt_arena.h\<close>, allocation in \<^verbatim>\<open>swarmrt_native.c\<close>): free lists of slots and blocks per partition,
      stealing between partitions. A spawn gets a slot and a block that were free, and fails exactly when none is left
      anywhere; the locale \<open>index_stack\<close> carries both kinds of free list.
    \<^item> \<open>Mailbox\<close> (\<^verbatim>\<open>mailbox_*\<close>, \<^verbatim>\<open>sw_send_tagged\<close>): nodes in a heap, the signal stack, the private doubly linked queue, free
      nodes per thread; refined to two lists. Every message comes out once, in order per tag.
    \<^item> \<open>Runq\<close> (\<^verbatim>\<open>runq_*\<close>, work stealing): the queue at the level of its atomic accesses, as a step relation over all
      interleavings, and as whole operations; nothing is lost, duplicated or reordered within a priority.
    \<^item> \<open>Receive\<close> (\<^verbatim>\<open>sw_receive*\<close>, \<^verbatim>\<open>mailbox_wake\<close>, \<^verbatim>\<open>scheduler_loop\<close>): the sleep and wake-up protocol as a step relation; a blocking receive
      loses no wake-up, a process is queued at most once, messages are conserved; \<^verbatim>\<open>sw_mailbox_wait_new\<close> can lose one. The clock is a nondeterministic choice.
    \<^item> \<open>Registry\<close>, \<open>Timers\<close>, \<open>Links\<close>: the hash table of names as a partial map; the sorted list of deadlines, which fires
      exactly what is due; link and monitor lists, which stay symmetric (a link may be there twice), and the signals an exit sends.
    \<^item> \<open>Ets\<close>, \<open>Proc_Groups\<close>, \<open>Hotload\<close>, \<open>Gc\<close>: tables (a table returns the last value written under an equal key), process
      groups, the module table, the process heap and its collector over a word memory.
    \<^item> \<open>Process\<close>, \<open>Exit\<close>: spawn, lookup by identifier, destroy, kill; and the whole of \<^verbatim>\<open>process_exit\<close>, the composition of
      the components' cleanup operations. After it nothing refers to the process any more, within the
      bounds on tables per owner and lengths of names that the cleanup assumes and the code does not check.
    \<^item> \<open>Supervisor\<close>, \<open>Genserver\<close> (\<^verbatim>\<open>swarmrt_otp.c\<close>): restart strategies and the bound on the restart rate; the server loop
      over the user's callbacks and its interleaving with clients: a call returns its own reply or times out.
    \<^item> \<open>Agent\<close>, \<open>Application\<close>, \<open>Dynsup\<close> (\<^verbatim>\<open>swarmrt_phase4.c\<close>), \<open>Statem\<close> (\<^verbatim>\<open>swarmrt_phase5.c\<close>), \<open>Task\<close> (\<^verbatim>\<open>swarmrt_task.c\<close>): what is built on
      servers, supervisors, registry and timers. An agent is an atomic cell as long as no call times out with its request still queued; stopping an application stops its tree; a
      dynamic supervisor loses track of no process until a kill ends it, and keeps the restart limit; a state machine has at most one pending
      time-out, from the current state; a task's result arrives once, and an await finds it.
    \<^item> \<open>Lang_Value\<close>, \<open>Json\<close>, \<open>Node\<close> (\<^verbatim>\<open>swarmrt_lang.c\<close>, \<^verbatim>\<open>swarmrt_builtins_studio.h\<close>, \<^verbatim>\<open>swarmrt_node.c\<close>): values of the language,
      their text form with both decoders, frames between nodes and their delivery.
    \<^item> \<open>Lang_Lexer\<close>, \<open>Lang_Parser\<close>, \<open>Lang_Print\<close> (\<^verbatim>\<open>swarmrt_lang.c\<close>): tokens, and the recursive-descent parser; the lexer reads
      back what is spelled out, the parser returns on every text, and an expression written with the parentheses that
      precedence asks for is read back.
    \<^item> \<open>Lang_Eval\<close>, \<open>Lang_Scope\<close>, \<open>Lang_Total\<close> (\<^verbatim>\<open>swarmrt_lang.c\<close>): environments, patterns, builtins, \<^verbatim>\<open>eval\<close> and the entry points of
      the interpreter; an evaluation changes its own environment only, programs without anonymous functions never reach a
      freed environment, a pipe is a call, and programs without recursion return. A closure that outlives the environment
      it was made in is a fault of the model, and a theorem shows the program that reaches it.

    \<^item> \<open>Bytes\<close>: octets, numbers in either byte order, and the string functions of the C library that the parsers below use.
    \<^item> \<open>Io\<close>, \<open>Http\<close> (\<^verbatim>\<open>swarmrt_io.c\<close>, \<^verbatim>\<open>swarmrt_http.c\<close>): ports and the event loop over the events the kernel reports; the
      connection table, HTTP requests, the WebSocket handshake and frames. Operations on ports that run one after the other list
      them exactly while they are open, and an event that overlaps a close does not;
      frames reach their handler complete and in order however the bytes are cut; a request body never does.
    \<^item> \<open>Vets\<close>, \<open>Breaker\<close>, \<open>Text_Builtins\<close>, \<open>Studio\<close> (\<^verbatim>\<open>swarmrt_builtins_studio.h\<close>): builtins of the compiled language. Its own
      tables, which return the last value put under a key of the same value when keys are integers, texts and tuples; circuit breakers; strings, JSON lookup, HTML, query
      strings and line wrapping; and the checks of arguments around the operations of the runtime.

    \<^item> \<open>Pdf_Filters\<close> (\<^verbatim>\<open>swarmrt_pdf.c\<close>): the stream decoders of the document reader. They write inside their blocks on every
      input but one, decode what was encoded, and the predictors give back the rows of an image.

  \<^bold>\<open>Interfaces.\<close> Each locale is interpreted on the model's own definitions: \<open>exit_cleanup\<close> by the registry, the tables,
  the groups, the modules, the links and by the whole of \<^verbatim>\<open>process_exit\<close>; \<open>kv_store\<close> by the tables and by the value tables of the language; \<open>index_stack\<close> by both
  free lists; \<open>fifo_mailbox\<close> by the mailbox; \<open>work_pool\<close> by the run queue and the overflow queue; \<open>name_service\<close> by the
  registry; \<open>timer_service\<close> by the timers.

  \<^bold>\<open>Concurrency.\<close> Code under a lock is one step. Lock-free code (run queue, mailbox push, sleep and wake-up, links, which
  check the peer's state before they lock) is modelled access by access, and invariants hold over every interleaving.
  The memory model is sequential consistency, with one exception: the store of the waiting flag and the load of the signal
  stack in \<^verbatim>\<open>sw_mailbox_wait_new\<close>, which nothing on x86-64 keeps in order, may be exchanged. The other orderings written
  in the source are not examined. Some operations are one step although the code is not atomic: a spawn (the slot is runnable before its identifier is
  written, and \<^verbatim>\<open>sw_find_by_pid\<close> scans without a lock), its allocation (partition locks are released between two attempts to steal),
  the firing of due timers (the lock is released around each delivery), a call on a table (it is found and then locked), and
  the operations on ports, which take no lock at all. Theorems about these are for operations that do not overlap.

  \<^bold>\<open>Bounds and fuel.\<close> Machine integers keep their width where they can wrap (identifiers, deadlines, lengths of frames,
  integers of the language). Fuel occurs in three places: the JSON decoders take twice the length of the text plus two,
  and the parser a depth of 16 per character plus ten; in both cases it is proved that this much always suffices, and for
  the parser that more changes nothing. Programs of the language need not end, so the depth of an evaluation is an
  argument; for programs without recursion a depth that suffices is computed from their text. Accesses outside an array or behind the end of a text are faults of the model.

  \<^bold>\<open>Not modelled.\<close> Context switching and the platform layer (assembly, system calls);
  desktop automation and the builtins for files, shell commands, terminals and language models (input and output); the code generator, whose correctness needs a semantics of the C it prints; the
  search engine, whose results are floating-point scores; the rest of the PDF reader (objects, pages, fonts), the MCP server and the coder agent, which are
  separate programs; the earlier prototypes of the runtime, from which the library is not built. Functions of the C
  library whose results are floating-point texts (\<^verbatim>\<open>strtod\<close>, \<^verbatim>\<open>atof\<close>, \<^verbatim>\<open>printf\<close> of a double) are arguments of the definitions
  that use them.
\<close>

end
